(* ===== verification/Xllm_Prelude.thy ===== *)
theory Xllm_Prelude imports Main "HOL-Library.Word" "HOL-Library.Char_ord" begin

text \<open>
  Shared vocabulary of the development: the types that several components use, the collections
  of rewrite rules that their proofs share, and the generic lemmas on lists, maps and words that
  do not belong to one component.
\<close>

section \<open>Types\<close>

text \<open>A token id is an \<open>int32_t\<close> of the source; the ids that occur are far from the bounds
  of the type, and no operation modelled here adds to one.\<close>

type_synonym token_id = int

text \<open>A 32-bit word of a packed bitmask (\<open>uint32_t\<close>).\<close>

type_synonym u32 = "32 word"

text \<open>A byte and a 64-bit word (\<open>uint8_t\<close>, \<open>uint64_t\<close>).\<close>

type_synonym u8 = "8 word"
type_synonym u64 = "64 word"

section \<open>Collections of rules\<close>

named_theorems step_simps \<open>one step of a component's automaton, unfolded\<close>
named_theorems frame_simps \<open>fields that an operation leaves unchanged\<close>
named_theorems inv_intros \<open>operations preserve the invariant of their component\<close>

section \<open>Lists\<close>

lemma take_Suc_snoc: "i < length xs \<Longrightarrow> take (Suc i) xs = take i xs @ [xs ! i]"
  by (rule take_Suc_conv_app_nth)

lemma filter_removeAll: "filter P (removeAll x xs) = removeAll x (filter P xs)"
  by (induction xs) auto

lemma drop_is_Cons: "drop n xs = y # ys \<Longrightarrow> n < length xs \<and> xs ! n = y \<and> drop (Suc n) xs = ys"
  by (metis drop_eq_Nil leI list.inject list.simps(3) Cons_nth_drop_Suc)

lemma nth_update: "k < length xs \<Longrightarrow> xs[i := x] ! k = (if i = k then x else xs ! k)"
  by (cases "i = k") simp_all

lemma exI2: "P a b \<Longrightarrow> \<exists>x y. P x y"
  by blast

text \<open>A result that evaluates is the pair of its value and its state.\<close>

lemma some_pair: "\<not> Option.is_none x \<Longrightarrow> fst (the x) = a \<Longrightarrow> x = Some (a, snd (the x))"
  by (cases x) auto

section \<open>Differences\<close>

text \<open>A difference of two \<open>size_t\<close> wraps at 64 bits.\<close>

definition size_diff :: "nat \<Rightarrow> nat \<Rightarrow> nat" where
  "size_diff a b = nat ((int a - int b) mod 2 ^ 64)"

lemma size_diff_le: "b \<le> a \<Longrightarrow> a < 2 ^ 64 \<Longrightarrow> size_diff a b = a - b"
  by (simp add: size_diff_def mod_pos_pos_trivial nat_minus_as_int)

section \<open>Words in memory\<close>

text \<open>The little-endian bytes of a word of \<open>n\<close> bytes.\<close>

definition word_bytes :: "nat \<Rightarrow> 'a::len word \<Rightarrow> u8 list" where
  "word_bytes n w = map (\<lambda>i. ucast (drop_bit (8 * i) w)) [0..<n]"

lemma length_word_bytes [simp]: "length (word_bytes n w) = n"
  by (simp add: word_bytes_def)

lemma word_bytes_inj:
  fixes v w :: "'a::len word"
  assumes "LENGTH('a) \<le> 8 * n" "word_bytes n v = word_bytes n w"
  shows "v = w"
proof (rule bit_word_eqI)
  fix k assume k: "k < LENGTH('a)"
  then have "k div 8 < n" using assms(1) by linarith
  then have "(ucast (drop_bit (8 * (k div 8)) v) :: u8) = ucast (drop_bit (8 * (k div 8)) w)"
    using assms(2) by (simp add: word_bytes_def)
  then have "bit (ucast (drop_bit (8 * (k div 8)) v) :: u8) (k mod 8) = bit (ucast (drop_bit (8 * (k div 8)) w) :: u8) (k mod 8)"
    by simp
  then show "bit v k \<longleftrightarrow> bit w k" by (simp add: bit_ucast_iff bit_drop_bit_eq)
qed

end
