(* ===== verification/Json_Grammar.thy ===== *)
theory Json_Grammar imports Xllm_Prelude begin

text \<open>
  The incremental JSON matcher of \<open>core/framework/sampling/json_object_grammar.{h,cpp}\<close>:
  \<open>JsonObjectGrammarState\<close> with its byte automaton (\<open>consume_character\<close> and the functions it
  calls), token acceptance (\<open>accept_token\<close>, \<open>accept_piece\<close> and their trial versions) and
  \<open>snapshot\<close> and \<open>restore_state\<close>.  A character is a byte of the token piece.  A C++ member function
  that returns a bool and changes the object is a function that returns the bool with the new
  object, so a state left half-changed by a refused character is visible.
\<close>

section \<open>Data\<close>

datatype parse_mode = PM_NONE | PM_STRING | PM_STRING_ESCAPE | PM_STRING_UNICODE | PM_NUMBER | PM_LITERAL

datatype string_role = ROLE_VALUE | ROLE_OBJECT_KEY

datatype container_type = CT_OBJECT | CT_ARRAY

datatype container_state =
    OBJECT_KEY_OR_END | OBJECT_KEY_AFTER_COMMA | OBJECT_COLON | OBJECT_VALUE
  | OBJECT_COMMA_OR_END | ARRAY_VALUE_OR_END | ARRAY_VALUE_AFTER_COMMA | ARRAY_COMMA_OR_END

datatype number_state =
    AFTER_MINUS | ZERO | INTEGER | FRACTION_POINT | FRACTION | EXPONENT | EXPONENT_SIGN | EXPONENT_DIGITS

record container_frame =
  frame_type :: container_type
  frame_state :: container_state

text \<open>The members of \<open>JsonObjectGrammar\<close> that acceptance reads.  The stop ids are the elements of
  the C++ \<open>unordered_set\<close> in its iteration order.\<close>

record json_grammar =
  token_pieces :: "string list"
  stop_token_ids :: "token_id list"
  reasoning_end_token_ids :: "token_id list"

text \<open>\<open>containers\<close> lists the C++ vector from its back: the head is \<open>containers_.back()\<close>.\<close>

record json_state =
  grammar :: "json_grammar option"
  containers :: "container_frame list"
  parse_mode :: parse_mode
  string_role :: string_role
  number_state :: number_state
  literal_target :: string
  literal_index :: nat
  unicode_digits :: nat
  valid :: bool
  root_started :: bool
  root_complete :: bool
  reasoning_phase :: bool
  reasoning_enabled :: bool
  reasoning_marker_index :: nat
  committed_token_ids :: "token_id list"

definition default_state :: json_state where
  "default_state = \<lparr>grammar = None, containers = [], parse_mode = PM_NONE, string_role = ROLE_VALUE,
     number_state = AFTER_MINUS, literal_target = '''', literal_index = 0, unicode_digits = 0,
     valid = True, root_started = False, root_complete = False, reasoning_phase = False,
     reasoning_enabled = False, reasoning_marker_index = 0, committed_token_ids = []\<rparr>"

definition initial_state :: "json_grammar \<Rightarrow> bool \<Rightarrow> json_state" where
  "initial_state g reasoning =
     default_state\<lparr>grammar := Some g, reasoning_phase := reasoning, reasoning_enabled := reasoning\<rparr>"

definition vocab_size :: "json_grammar \<Rightarrow> nat" where
  "vocab_size g = length (token_pieces g)"

section \<open>Character classes\<close>

definition is_digit :: "char \<Rightarrow> bool" where
  "is_digit c \<longleftrightarrow> CHR ''0'' \<le> c \<and> c \<le> CHR ''9''"

definition is_digit19 :: "char \<Rightarrow> bool" where
  "is_digit19 c \<longleftrightarrow> CHR ''1'' \<le> c \<and> c \<le> CHR ''9''"

definition is_hex_digit :: "char \<Rightarrow> bool" where
  "is_hex_digit c \<longleftrightarrow> (CHR ''0'' \<le> c \<and> c \<le> CHR ''9'') \<or> (CHR ''a'' \<le> c \<and> c \<le> CHR ''f'')
     \<or> (CHR ''A'' \<le> c \<and> c \<le> CHR ''F'')"

definition is_json_whitespace :: "char \<Rightarrow> bool" where
  "is_json_whitespace c \<longleftrightarrow> c = CHR '' '' \<or> c = CHR 0x0A \<or> c = CHR 0x0D \<or> c = CHR 0x09"

definition is_json_delimiter :: "char \<Rightarrow> bool" where
  "is_json_delimiter c \<longleftrightarrow> is_json_whitespace c \<or> c = CHR '','' \<or> c = CHR '']'' \<or> c = CHR ''}''"

definition is_json_escape :: "char \<Rightarrow> bool" where
  "is_json_escape c \<longleftrightarrow> c = CHR 0x22 \<or> c = CHR 0x5C \<or> c = CHR ''/'' \<or> c = CHR ''b'' \<or> c = CHR ''f''
     \<or> c = CHR ''n'' \<or> c = CHR ''r'' \<or> c = CHR ''t'' \<or> c = CHR ''u''"

section \<open>The byte automaton\<close>

text \<open>\<open>containers_.back().state = st\<close>.  On an empty vector C++ has no defined behaviour; the model
  changes nothing there, and the invariant of \<open>Json_Pda\<close> shows that no reachable state asks for it.\<close>

fun set_back_state :: "container_state \<Rightarrow> container_frame list \<Rightarrow> container_frame list" where
  "set_back_state st [] = []"
| "set_back_state st (f # fs) = f\<lparr>frame_state := st\<rparr> # fs"

definition complete_value :: "json_state \<Rightarrow> json_state" where
  "complete_value s = (case containers s of
     [] \<Rightarrow> s\<lparr>root_complete := True\<rparr>
   | f # _ \<Rightarrow> s\<lparr>containers := set_back_state
       (if frame_type f = CT_OBJECT then OBJECT_COMMA_OR_END else ARRAY_COMMA_OR_END) (containers s)\<rparr>)"

definition close_container :: "container_type \<Rightarrow> json_state \<Rightarrow> bool \<times> json_state" where
  "close_container t s = (case containers s of
     [] \<Rightarrow> (False, s)
   | f # fs \<Rightarrow> if frame_type f \<noteq> t then (False, s)
              else (True, complete_value (s\<lparr>containers := fs\<rparr>)))"

definition is_value_delimiter :: "char \<Rightarrow> bool" where
  "is_value_delimiter c = is_json_delimiter c"

definition has_complete_number :: "json_state \<Rightarrow> bool" where
  "has_complete_number s \<longleftrightarrow> number_state s = ZERO \<or> number_state s = INTEGER
     \<or> number_state s = FRACTION \<or> number_state s = EXPONENT_DIGITS"

definition start_value :: "char \<Rightarrow> json_state \<Rightarrow> bool \<times> json_state" where
  "start_value c s =
    (if c = CHR ''{'' then
       (True, s\<lparr>containers := \<lparr>frame_type = CT_OBJECT, frame_state = OBJECT_KEY_OR_END\<rparr> # containers s\<rparr>)
     else if c = CHR ''['' then
       (True, s\<lparr>containers := \<lparr>frame_type = CT_ARRAY, frame_state = ARRAY_VALUE_OR_END\<rparr> # containers s\<rparr>)
     else if c = CHR 0x22 then (True, s\<lparr>parse_mode := PM_STRING, string_role := ROLE_VALUE\<rparr>)
     else if c = CHR ''-'' then (True, s\<lparr>parse_mode := PM_NUMBER, number_state := AFTER_MINUS\<rparr>)
     else if c = CHR ''0'' then (True, s\<lparr>parse_mode := PM_NUMBER, number_state := ZERO\<rparr>)
     else if CHR ''1'' \<le> c \<and> c \<le> CHR ''9'' then
       (True, s\<lparr>parse_mode := PM_NUMBER, number_state := INTEGER\<rparr>)
     else if c = CHR ''t'' \<or> c = CHR ''f'' \<or> c = CHR ''n'' then
       (True, s\<lparr>parse_mode := PM_LITERAL,
                literal_target := (if c = CHR ''t'' then ''true'' else if c = CHR ''f'' then ''false'' else ''null''),
                literal_index := 1\<rparr>)
     else (False, s))"

text \<open>The part of \<open>consume_character\<close> that runs with \<open>parse_mode_ == NONE\<close> outside the reasoning
  phase: root whitespace, the opening brace, and the switch on the innermost container.\<close>

definition consume_structural :: "json_state \<Rightarrow> char \<Rightarrow> bool \<times> json_state" where
  "consume_structural s c =
    (if root_complete s then (is_json_whitespace c, s)
     else case containers s of
       [] \<Rightarrow>
         (if is_json_whitespace c then (\<not> root_started s, s)
          else if \<not> root_started s \<and> c = CHR ''{'' then
            (True, s\<lparr>root_started := True,
                     containers := [\<lparr>frame_type = CT_OBJECT, frame_state = OBJECT_KEY_OR_END\<rparr>]\<rparr>)
          else (False, s))
     | frame # _ \<Rightarrow>
         (case frame_state frame of
            OBJECT_KEY_OR_END \<Rightarrow>
              (if is_json_whitespace c then (True, s)
               else if frame_type frame = CT_OBJECT \<and> c = CHR ''}'' then close_container CT_OBJECT s
               else if frame_type frame = CT_OBJECT \<and> c = CHR 0x22 then
                 (True, s\<lparr>parse_mode := PM_STRING, string_role := ROLE_OBJECT_KEY\<rparr>)
               else (False, s))
          | OBJECT_KEY_AFTER_COMMA \<Rightarrow>
              (if is_json_whitespace c then (True, s)
               else if frame_type frame = CT_OBJECT \<and> c = CHR 0x22 then
                 (True, s\<lparr>parse_mode := PM_STRING, string_role := ROLE_OBJECT_KEY\<rparr>)
               else (False, s))
          | OBJECT_COLON \<Rightarrow>
              (if is_json_whitespace c then (True, s)
               else if c \<noteq> CHR '':'' then (False, s)
               else (True, s\<lparr>containers := set_back_state OBJECT_VALUE (containers s)\<rparr>))
          | OBJECT_VALUE \<Rightarrow> (if is_json_whitespace c then (True, s) else start_value c s)
          | OBJECT_COMMA_OR_END \<Rightarrow>
              (if is_json_whitespace c then (True, s)
               else if c = CHR '','' then
                 (True, s\<lparr>containers := set_back_state OBJECT_KEY_AFTER_COMMA (containers s)\<rparr>)
               else if c = CHR ''}'' then close_container CT_OBJECT s
               else (False, s))
          | ARRAY_VALUE_OR_END \<Rightarrow>
              (if is_json_whitespace c then (True, s)
               else if c = CHR '']'' then close_container CT_ARRAY s
               else start_value c s)
          | ARRAY_VALUE_AFTER_COMMA \<Rightarrow> (if is_json_whitespace c then (True, s) else start_value c s)
          | ARRAY_COMMA_OR_END \<Rightarrow>
              (if is_json_whitespace c then (True, s)
               else if c = CHR '','' then
                 (True, s\<lparr>containers := set_back_state ARRAY_VALUE_AFTER_COMMA (containers s)\<rparr>)
               else if c = CHR '']'' then close_container CT_ARRAY s
               else (False, s))))"

definition consume_string_character :: "json_state \<Rightarrow> char \<Rightarrow> bool \<times> json_state" where
  "consume_string_character s c =
    (if parse_mode s = PM_STRING_ESCAPE then
       (if \<not> is_json_escape c then (False, s)
        else if c = CHR ''u'' then (True, s\<lparr>parse_mode := PM_STRING_UNICODE, unicode_digits := 0\<rparr>)
        else (True, s\<lparr>parse_mode := PM_STRING\<rparr>))
     else if parse_mode s = PM_STRING_UNICODE then
       (if \<not> is_hex_digit c then (False, s)
        else if unicode_digits s + 1 = 4 then (True, s\<lparr>parse_mode := PM_STRING, unicode_digits := 0\<rparr>)
        else (True, s\<lparr>unicode_digits := unicode_digits s + 1\<rparr>))
     else if c = CHR 0x22 then
       (let s' = s\<lparr>parse_mode := PM_NONE\<rparr> in
        if string_role s = ROLE_OBJECT_KEY
        then (True, s'\<lparr>containers := set_back_state OBJECT_COLON (containers s')\<rparr>)
        else (True, complete_value s'))
     else if c = CHR 0x5C then (True, s\<lparr>parse_mode := PM_STRING_ESCAPE\<rparr>)
     else (32 \<le> (of_char c :: nat), s))"

text \<open>The end of \<open>consume_number_character\<close>: a delimiter after a complete number completes the value
  and is then consumed again by \<open>consume_character\<close>, which at \<open>parse_mode_ == NONE\<close> is the first test
  of that function followed by \<open>consume_structural\<close> (lemma \<open>finish_number_recursive\<close> below).\<close>

definition finish_number :: "json_state \<Rightarrow> char \<Rightarrow> bool \<times> json_state" where
  "finish_number s c =
    (if has_complete_number s \<and> is_value_delimiter c then
       (let s' = complete_value (s\<lparr>parse_mode := PM_NONE\<rparr>) in
        if reasoning_phase s' then (True, s') else consume_structural s' c)
     else (False, s))"

definition consume_number_character :: "json_state \<Rightarrow> char \<Rightarrow> bool \<times> json_state" where
  "consume_number_character s c =
    (case number_state s of
       AFTER_MINUS \<Rightarrow>
         (if c = CHR ''0'' then (True, s\<lparr>number_state := ZERO\<rparr>)
          else if CHR ''1'' \<le> c \<and> c \<le> CHR ''9'' then (True, s\<lparr>number_state := INTEGER\<rparr>)
          else (False, s))
     | ZERO \<Rightarrow>
         (if c = CHR ''.'' then (True, s\<lparr>number_state := FRACTION_POINT\<rparr>)
          else if c = CHR ''e'' \<or> c = CHR ''E'' then (True, s\<lparr>number_state := EXPONENT\<rparr>)
          else finish_number s c)
     | INTEGER \<Rightarrow>
         (if is_digit c then (True, s)
          else if c = CHR ''.'' then (True, s\<lparr>number_state := FRACTION_POINT\<rparr>)
          else if c = CHR ''e'' \<or> c = CHR ''E'' then (True, s\<lparr>number_state := EXPONENT\<rparr>)
          else finish_number s c)
     | FRACTION_POINT \<Rightarrow>
         (if is_digit c then (True, s\<lparr>number_state := FRACTION\<rparr>) else (False, s))
     | FRACTION \<Rightarrow>
         (if is_digit c then (True, s)
          else if c = CHR ''e'' \<or> c = CHR ''E'' then (True, s\<lparr>number_state := EXPONENT\<rparr>)
          else finish_number s c)
     | EXPONENT \<Rightarrow>
         (if c = CHR ''+'' \<or> c = CHR ''-'' then (True, s\<lparr>number_state := EXPONENT_SIGN\<rparr>)
          else if is_digit c then (True, s\<lparr>number_state := EXPONENT_DIGITS\<rparr>)
          else (False, s))
     | EXPONENT_SIGN \<Rightarrow>
         (if is_digit c then (True, s\<lparr>number_state := EXPONENT_DIGITS\<rparr>) else (False, s))
     | EXPONENT_DIGITS \<Rightarrow>
         (if is_digit c then (True, s) else finish_number s c))"

definition consume_literal_character :: "json_state \<Rightarrow> char \<Rightarrow> bool \<times> json_state" where
  "consume_literal_character s c =
    (if length (literal_target s) \<le> literal_index s \<or> c \<noteq> literal_target s ! literal_index s then (False, s)
     else if literal_index s + 1 = length (literal_target s) then
       (True, complete_value (s\<lparr>parse_mode := PM_NONE, literal_index := literal_index s + 1\<rparr>))
     else (True, s\<lparr>literal_index := literal_index s + 1\<rparr>))"

definition consume_character :: "json_state \<Rightarrow> char \<Rightarrow> bool \<times> json_state" where
  "consume_character s c =
    (if reasoning_phase s then (True, s)
     else case parse_mode s of
       PM_STRING \<Rightarrow> consume_string_character s c
     | PM_STRING_ESCAPE \<Rightarrow> consume_string_character s c
     | PM_STRING_UNICODE \<Rightarrow> consume_string_character s c
     | PM_NUMBER \<Rightarrow> consume_number_character s c
     | PM_LITERAL \<Rightarrow> consume_literal_character s c
     | PM_NONE \<Rightarrow> consume_structural s c)"

lemma finish_number_recursive:
  "finish_number s c =
    (if has_complete_number s \<and> is_value_delimiter c
     then consume_character (complete_value (s\<lparr>parse_mode := PM_NONE\<rparr>)) c else (False, s))"
  by (simp add: finish_number_def consume_character_def complete_value_def split: list.split)

section \<open>Pieces and tokens\<close>

definition invalidate :: "json_state \<Rightarrow> json_state" where
  "invalidate s = s\<lparr>valid := False\<rparr>"

text \<open>The loop of \<open>accept_piece\<close>: it stops and invalidates the state at the first refused byte.\<close>

fun accept_bytes :: "json_state \<Rightarrow> string \<Rightarrow> bool \<times> json_state" where
  "accept_bytes s [] = (True, s)"
| "accept_bytes s (c # cs) =
     (case consume_character s c of
        (False, s') \<Rightarrow> (False, invalidate s')
      | (True, s') \<Rightarrow> accept_bytes s' cs)"

definition accept_piece :: "json_state \<Rightarrow> string \<Rightarrow> bool \<times> json_state" where
  "accept_piece s piece =
    (if \<not> valid s \<or> grammar s = None \<or> piece = [] then (False, s) else accept_bytes s piece)"

definition commit_token :: "token_id \<Rightarrow> json_state \<Rightarrow> json_state" where
  "commit_token t s = s\<lparr>committed_token_ids := committed_token_ids s @ [t]\<rparr>"

text \<open>The reasoning branch of \<open>accept_token\<close>: the marker of reasoning's end is matched token by token,
  and its last token resets the matcher to the start of the object.\<close>

definition accept_reasoning_token :: "json_grammar \<Rightarrow> json_state \<Rightarrow> token_id \<Rightarrow> json_state" where
  "accept_reasoning_token g s t =
    (let marker = reasoning_end_token_ids g in
     if marker = [] then commit_token t s
     else if t = marker ! reasoning_marker_index s then
       (let s1 = s\<lparr>reasoning_marker_index := reasoning_marker_index s + 1\<rparr> in
        commit_token t
          (if reasoning_marker_index s1 = length marker
           then s1\<lparr>reasoning_phase := False, reasoning_marker_index := 0, containers := [],
                   parse_mode := PM_NONE, root_started := False, root_complete := False\<rparr>
           else s1))
     else commit_token t (s\<lparr>reasoning_marker_index := (if t = hd marker then 1 else 0)\<rparr>))"

definition accept_token :: "json_state \<Rightarrow> token_id \<Rightarrow> bool \<times> json_state" where
  "accept_token s t =
    (case grammar s of
       None \<Rightarrow> (False, s)
     | Some g \<Rightarrow>
         if \<not> valid s \<or> t < 0 \<or> int (vocab_size g) \<le> t then (False, s)
         else if t \<in> set (stop_token_ids g) then
           (if reasoning_phase s \<or> \<not> root_complete s \<or> parse_mode s \<noteq> PM_NONE then (False, s)
            else (True, commit_token t s))
         else if reasoning_phase s then (True, accept_reasoning_token g s t)
         else if root_complete s \<and> parse_mode s = PM_NONE \<and> stop_token_ids g \<noteq> [] then (False, s)
         else
           (let piece = token_pieces g ! nat t in
            if piece = [] then (False, s)
            else case accept_piece s piece of
                (False, s') \<Rightarrow> (False, s')
              | (True, s') \<Rightarrow> (True, commit_token t s')))"

text \<open>\<open>copy_trial_state_from\<close> leaves the committed ids of the trial copy empty.\<close>

definition copy_trial_state :: "json_state \<Rightarrow> json_state" where
  "copy_trial_state s = s\<lparr>committed_token_ids := []\<rparr>"

definition can_accept_token :: "json_state \<Rightarrow> token_id \<Rightarrow> bool" where
  "can_accept_token s t = fst (accept_token (copy_trial_state s) t)"

definition can_accept_piece :: "json_state \<Rightarrow> string \<Rightarrow> bool" where
  "can_accept_piece s piece = fst (accept_piece (copy_trial_state s) piece)"

definition is_complete :: "json_state \<Rightarrow> bool" where
  "is_complete s \<longleftrightarrow> valid s \<and> root_complete s"

section \<open>Snapshots\<close>

record json_snapshot =
  snap_enabled :: bool
  snap_reasoning_enabled :: bool
  snap_token_ids :: "token_id list"

definition snapshot :: "json_state \<Rightarrow> json_snapshot" where
  "snapshot s = \<lparr>snap_enabled = (grammar s \<noteq> None), snap_reasoning_enabled = reasoning_enabled s,
     snap_token_ids = committed_token_ids s\<rparr>"

text \<open>The loop of \<open>restore_state\<close>: it invalidates the state and stops at the first refused token.\<close>

fun replay_tokens :: "json_state \<Rightarrow> token_id list \<Rightarrow> json_state" where
  "replay_tokens s [] = s"
| "replay_tokens s (t # ts) =
     (case accept_token s t of
        (False, s') \<Rightarrow> invalidate s'
      | (True, s') \<Rightarrow> replay_tokens s' ts)"

definition restore_state :: "json_grammar \<Rightarrow> json_snapshot \<Rightarrow> json_state" where
  "restore_state g snap =
    (let s = initial_state g (snap_reasoning_enabled snap) in
     if \<not> snap_enabled snap then default_state else replay_tokens s (snap_token_ids snap))"

text \<open>\<open>advance_json_object_states\<close>, one state: an uninitialised state is skipped, a token that cannot be
  accepted leaves the state at its last valid prefix, and otherwise a \<open>CHECK\<close> demands that the token
  is accepted (\<open>None\<close>: the process aborts).\<close>

definition advance_state :: "json_state \<Rightarrow> token_id \<Rightarrow> json_state option" where
  "advance_state s t =
    (if grammar s = None then Some s
     else if \<not> can_accept_token s t then Some s
     else case accept_token s t of (True, s') \<Rightarrow> Some s' | (False, _) \<Rightarrow> None)"

fun advance_loop :: "json_state list \<Rightarrow> token_id list \<Rightarrow> json_state list option" where
  "advance_loop [] ts = Some []"
| "advance_loop (s # ss) [] = None"
| "advance_loop (s # ss) (t # ts) =
     (case advance_state s t of
        None \<Rightarrow> None
      | Some s' \<Rightarrow> map_option (Cons s') (advance_loop ss ts))"

definition advance_json_object_states :: "json_state list \<Rightarrow> token_id list \<Rightarrow> json_state list option" where
  "advance_json_object_states ss ts =
    (if length ss \<noteq> length ts then None else advance_loop ss ts)"

end
