(* ===== verification/Json_Pda.thy ===== *)
theory Json_Pda imports Json_Grammar begin

text \<open>
  The pushdown automaton that the byte automaton of \<open>Json_Grammar\<close> implements, the well-formedness
  invariant of the matcher's state and the simulation between the two: one byte of
  \<open>consume_character\<close> is one step of the automaton, and a byte is refused by one exactly when the
  other has no step.
\<close>

section \<open>The abstract automaton\<close>

datatype string_mode = S_PLAIN | S_ESCAPE | S_UNICODE nat

text \<open>A configuration: before the root object, after it, between the tokens of the innermost container
  (its state and the types of the containers around it), or inside a string, number or literal (with the
  types of all open containers, innermost first).\<close>

datatype jconf =
    JStart
  | JDone
  | JStruct container_state "container_type list"
  | JStr string_mode string_role "container_type list"
  | JNum number_state "container_type list"
  | JLit string "container_type list"

definition state_type :: "container_state \<Rightarrow> container_type" where
  "state_type st = (if st \<in> {ARRAY_VALUE_OR_END, ARRAY_VALUE_AFTER_COMMA, ARRAY_COMMA_OR_END}
                    then CT_ARRAY else CT_OBJECT)"

text \<open>Where the automaton stands once a value inside the given open containers is complete.\<close>

fun after_value :: "container_type list \<Rightarrow> jconf" where
  "after_value [] = JDone"
| "after_value (CT_OBJECT # K) = JStruct OBJECT_COMMA_OR_END K"
| "after_value (CT_ARRAY # K) = JStruct ARRAY_COMMA_OR_END K"

fun str_end :: "string_role \<Rightarrow> container_type list \<Rightarrow> jconf" where
  "str_end ROLE_OBJECT_KEY K = JStruct OBJECT_COLON (tl K)"
| "str_end ROLE_VALUE K = after_value K"

definition value_start :: "char \<Rightarrow> container_type list \<Rightarrow> jconf option" where
  "value_start c K =
    (if c = CHR ''{'' then Some (JStruct OBJECT_KEY_OR_END K)
     else if c = CHR ''['' then Some (JStruct ARRAY_VALUE_OR_END K)
     else if c = CHR 0x22 then Some (JStr S_PLAIN ROLE_VALUE K)
     else if c = CHR ''-'' then Some (JNum AFTER_MINUS K)
     else if c = CHR ''0'' then Some (JNum ZERO K)
     else if is_digit19 c then Some (JNum INTEGER K)
     else if c = CHR ''t'' then Some (JLit ''rue'' K)
     else if c = CHR ''f'' then Some (JLit ''alse'' K)
     else if c = CHR ''n'' then Some (JLit ''ull'' K)
     else None)"

fun struct_step :: "container_state \<Rightarrow> container_type list \<Rightarrow> char \<Rightarrow> jconf option" where
  "struct_step OBJECT_KEY_OR_END K c =
     (if c = CHR ''}'' then Some (after_value K)
      else if c = CHR 0x22 then Some (JStr S_PLAIN ROLE_OBJECT_KEY (CT_OBJECT # K)) else None)"
| "struct_step OBJECT_KEY_AFTER_COMMA K c =
     (if c = CHR 0x22 then Some (JStr S_PLAIN ROLE_OBJECT_KEY (CT_OBJECT # K)) else None)"
| "struct_step OBJECT_COLON K c = (if c = CHR '':'' then Some (JStruct OBJECT_VALUE K) else None)"
| "struct_step OBJECT_VALUE K c = value_start c (CT_OBJECT # K)"
| "struct_step OBJECT_COMMA_OR_END K c =
     (if c = CHR '','' then Some (JStruct OBJECT_KEY_AFTER_COMMA K)
      else if c = CHR ''}'' then Some (after_value K) else None)"
| "struct_step ARRAY_VALUE_OR_END K c =
     (if c = CHR '']'' then Some (after_value K) else value_start c (CT_ARRAY # K))"
| "struct_step ARRAY_VALUE_AFTER_COMMA K c = value_start c (CT_ARRAY # K)"
| "struct_step ARRAY_COMMA_OR_END K c =
     (if c = CHR '','' then Some (JStruct ARRAY_VALUE_AFTER_COMMA K)
      else if c = CHR '']'' then Some (after_value K) else None)"

fun plain_step :: "jconf \<Rightarrow> char \<Rightarrow> jconf option" where
  "plain_step JStart c =
     (if is_json_whitespace c then Some JStart
      else if c = CHR ''{'' then Some (JStruct OBJECT_KEY_OR_END []) else None)"
| "plain_step JDone c = (if is_json_whitespace c then Some JDone else None)"
| "plain_step (JStruct st K) c =
     (if is_json_whitespace c then Some (JStruct st K) else struct_step st K c)"
| "plain_step _ c = None"

fun num_step :: "number_state \<Rightarrow> char \<Rightarrow> number_state option" where
  "num_step AFTER_MINUS c = (if c = CHR ''0'' then Some ZERO else if is_digit19 c then Some INTEGER else None)"
| "num_step ZERO c = (if c = CHR ''.'' then Some FRACTION_POINT
     else if c = CHR ''e'' \<or> c = CHR ''E'' then Some EXPONENT else None)"
| "num_step INTEGER c = (if is_digit c then Some INTEGER else if c = CHR ''.'' then Some FRACTION_POINT
     else if c = CHR ''e'' \<or> c = CHR ''E'' then Some EXPONENT else None)"
| "num_step FRACTION_POINT c = (if is_digit c then Some FRACTION else None)"
| "num_step FRACTION c = (if is_digit c then Some FRACTION
     else if c = CHR ''e'' \<or> c = CHR ''E'' then Some EXPONENT else None)"
| "num_step EXPONENT c = (if c = CHR ''+'' \<or> c = CHR ''-'' then Some EXPONENT_SIGN
     else if is_digit c then Some EXPONENT_DIGITS else None)"
| "num_step EXPONENT_SIGN c = (if is_digit c then Some EXPONENT_DIGITS else None)"
| "num_step EXPONENT_DIGITS c = (if is_digit c then Some EXPONENT_DIGITS else None)"

definition num_complete :: "number_state \<Rightarrow> bool" where
  "num_complete n \<longleftrightarrow> n \<in> {ZERO, INTEGER, FRACTION, EXPONENT_DIGITS}"

fun jstep :: "jconf \<Rightarrow> char \<Rightarrow> jconf option" where
  "jstep (JStr S_ESCAPE r K) c =
     (if \<not> is_json_escape c then None
      else if c = CHR ''u'' then Some (JStr (S_UNICODE 0) r K) else Some (JStr S_PLAIN r K))"
| "jstep (JStr (S_UNICODE n) r K) c =
     (if \<not> is_hex_digit c then None
      else if n + 1 = 4 then Some (JStr S_PLAIN r K) else Some (JStr (S_UNICODE (n + 1)) r K))"
| "jstep (JStr S_PLAIN r K) c =
     (if c = CHR 0x22 then Some (str_end r K)
      else if c = CHR 0x5C then Some (JStr S_ESCAPE r K)
      else if 32 \<le> (of_char c :: nat) then Some (JStr S_PLAIN r K) else None)"
| "jstep (JNum n K) c =
     (case num_step n c of
        Some n' \<Rightarrow> Some (JNum n' K)
      | None \<Rightarrow> if num_complete n \<and> is_json_delimiter c then plain_step (after_value K) c else None)"
| "jstep (JLit [] K) c = None"
| "jstep (JLit [x] K) c = (if c = x then Some (after_value K) else None)"
| "jstep (JLit (x # y # xs) K) c = (if c = x then Some (JLit (y # xs) K) else None)"
| "jstep j c = plain_step j c"

fun jrun :: "jconf \<Rightarrow> string \<Rightarrow> jconf option" where
  "jrun j [] = Some j"
| "jrun j (c # cs) = (case jstep j c of None \<Rightarrow> None | Some j' \<Rightarrow> jrun j' cs)"

lemma jrun_append: "jrun j (xs @ ys) = (case jrun j xs of None \<Rightarrow> None | Some j' \<Rightarrow> jrun j' ys)"
  by (induction xs arbitrary: j) (auto split: option.split)

section \<open>The matcher's state as a configuration\<close>

definition string_mode_of :: "json_state \<Rightarrow> string_mode" where
  "string_mode_of s = (case parse_mode s of
     PM_STRING_ESCAPE \<Rightarrow> S_ESCAPE | PM_STRING_UNICODE \<Rightarrow> S_UNICODE (unicode_digits s) | _ \<Rightarrow> S_PLAIN)"

definition conf_of :: "json_state \<Rightarrow> jconf" where
  "conf_of s =
    (if root_complete s then JDone
     else case containers s of
       [] \<Rightarrow> JStart
     | f # fs \<Rightarrow>
        (case parse_mode s of
           PM_NONE \<Rightarrow> JStruct (frame_state f) (map frame_type fs)
         | PM_NUMBER \<Rightarrow> JNum (number_state s) (map frame_type (f # fs))
         | PM_LITERAL \<Rightarrow> JLit (drop (literal_index s) (literal_target s)) (map frame_type (f # fs))
         | _ \<Rightarrow> JStr (string_mode_of s) (string_role s) (map frame_type (f # fs))))"

definition frame_ok :: "container_frame \<Rightarrow> bool" where
  "frame_ok f \<longleftrightarrow> frame_type f = state_type (frame_state f)"

definition literal_ok :: "json_state \<Rightarrow> bool" where
  "literal_ok s \<longleftrightarrow> literal_target s \<in> {''true'', ''false'', ''null''}
     \<and> 0 < literal_index s \<and> literal_index s < length (literal_target s)"

text \<open>The invariant of the byte automaton: a scalar is only read inside an open container, an open
  container means a started and unfinished root, each frame's state belongs to its type, a key is read in an
  object, the counters are in range.\<close>

definition wf_state :: "json_state \<Rightarrow> bool" where
  "wf_state s \<longleftrightarrow>
     (parse_mode s \<noteq> PM_NONE \<longrightarrow> containers s \<noteq> [])
   \<and> (root_complete s \<longrightarrow> root_started s)
   \<and> (containers s \<noteq> [] \<longleftrightarrow> root_started s \<and> \<not> root_complete s)
   \<and> list_all frame_ok (containers s)
   \<and> (parse_mode s \<in> {PM_STRING, PM_STRING_ESCAPE, PM_STRING_UNICODE} \<and> string_role s = ROLE_OBJECT_KEY
        \<longrightarrow> frame_type (hd (containers s)) = CT_OBJECT)
   \<and> (parse_mode s = PM_STRING_UNICODE \<longrightarrow> unicode_digits s < 4)
   \<and> (parse_mode s = PM_LITERAL \<longrightarrow> literal_ok s)"

lemma wf_default [inv_intros]: "wf_state default_state"
  by (simp add: wf_state_def default_state_def)

lemma wf_initial [inv_intros]: "wf_state (initial_state g r)"
  by (simp add: wf_state_def initial_state_def default_state_def)

lemma conf_initial [simp]: "conf_of (initial_state g r) = JStart"
  by (simp add: conf_of_def initial_state_def default_state_def)

section \<open>Simulation\<close>

definition simulates :: "json_state \<Rightarrow> char \<Rightarrow> bool \<times> json_state \<Rightarrow> bool" where
  "simulates s c res \<longleftrightarrow>
    (if fst res then wf_state (snd res) \<and> jstep (conf_of s) c = Some (conf_of (snd res))
     else jstep (conf_of s) c = None)"

lemma is_digit19_alt: "(CHR ''1'' \<le> c \<and> c \<le> CHR ''9'') = is_digit19 c"
  by (simp add: is_digit19_def)

lemma whitespace_not [simp]:
  "\<not> is_json_whitespace (CHR ''{'')" "\<not> is_json_whitespace (CHR ''}'')" "\<not> is_json_whitespace (CHR ''['')"
  "\<not> is_json_whitespace (CHR '']'')" "\<not> is_json_whitespace (CHR '','')" "\<not> is_json_whitespace (CHR '':'')"
  "\<not> is_json_whitespace (CHR 0x22)"
  by (simp_all add: is_json_whitespace_def)

lemma conf_after_value:
  assumes "\<not> root_complete s" "parse_mode s = PM_NONE"
  shows "conf_of (complete_value s) = after_value (map frame_type (containers s))"
proof (cases "containers s")
  case Nil
  then show ?thesis by (simp add: conf_of_def complete_value_def)
next
  case (Cons f fs)
  then show ?thesis using assms
    by (cases "frame_type f") (simp_all add: conf_of_def complete_value_def)
qed

lemma wf_complete_value:
  assumes "list_all frame_ok (containers s)" "parse_mode s = PM_NONE" "root_started s" "\<not> root_complete s"
  shows "wf_state (complete_value s)"
  using assms
  by (cases "containers s"; cases "frame_type (hd (containers s))")
     (auto simp: wf_state_def complete_value_def frame_ok_def state_type_def)

lemma simulates_start_value:
  assumes "wf_state s" "\<not> root_complete s" "containers s = f # fs" "parse_mode s = PM_NONE"
    and "jstep (conf_of s) c = value_start c (map frame_type (containers s))"
  shows "simulates s c (start_value c s)"
  using assms
  by (auto simp: simulates_def start_value_def value_start_def is_digit19_alt conf_of_def wf_state_def
      frame_ok_def state_type_def literal_ok_def string_mode_of_def)

lemma simulates_close:
  assumes "wf_state s" "\<not> root_complete s" "containers s = f # fs" "parse_mode s = PM_NONE"
    and "jstep (conf_of s) c = Some (after_value (map frame_type fs))" "frame_type f = t"
  shows "simulates s c (close_container t s)"
proof -
  have "wf_state (complete_value (s\<lparr>containers := fs\<rparr>))"
    using assms by (intro wf_complete_value) (auto simp: wf_state_def)
  moreover have "conf_of (complete_value (s\<lparr>containers := fs\<rparr>)) = after_value (map frame_type fs)"
    using assms by (subst conf_after_value) auto
  ultimately show ?thesis using assms by (simp add: simulates_def close_container_def)
qed

lemma simulates_refuse: "jstep (conf_of s) c = None \<Longrightarrow> simulates s c (False, s')"
  by (simp add: simulates_def)

lemma simulates_stay: "wf_state s \<Longrightarrow> jstep (conf_of s) c = Some (conf_of s) \<Longrightarrow> simulates s c (True, s)"
  by (simp add: simulates_def)

lemma simulates_key:
  assumes "wf_state s" "\<not> root_complete s" "containers s = f # fs" "frame_type f = CT_OBJECT"
    and "jstep (conf_of s) c = Some (JStr S_PLAIN ROLE_OBJECT_KEY (CT_OBJECT # map frame_type fs))"
  shows "simulates s c (True, s\<lparr>parse_mode := PM_STRING, string_role := ROLE_OBJECT_KEY\<rparr>)"
  using assms by (auto simp: simulates_def conf_of_def wf_state_def string_mode_of_def)

lemma simulates_set_back:
  assumes "wf_state s" "\<not> root_complete s" "containers s = f # fs" "parse_mode s = PM_NONE"
    and "frame_type f = state_type st" "jstep (conf_of s) c = Some (JStruct st (map frame_type fs))"
  shows "simulates s c (True, s\<lparr>containers := set_back_state st (containers s)\<rparr>)"
  using assms by (auto simp: simulates_def conf_of_def wf_state_def frame_ok_def)

lemma simulates_structural:
  assumes "wf_state s" "parse_mode s = PM_NONE"
  shows "simulates s c (consume_structural s c)"
proof (cases "root_complete s")
  case True
  with assms show ?thesis
    by (auto simp: simulates_def consume_structural_def conf_of_def)
next
  case False
  show ?thesis
  proof (cases "containers s")
    case Nil
    with assms False show ?thesis
      by (auto simp: simulates_def consume_structural_def conf_of_def wf_state_def frame_ok_def state_type_def)
  next
    case (Cons f fs)
    have fty: "frame_type f = state_type (frame_state f)"
      using assms Cons by (simp add: wf_state_def frame_ok_def)
    have step: "jstep (conf_of s) c = plain_step (JStruct (frame_state f) (map frame_type fs)) c"
      and self: "conf_of s = JStruct (frame_state f) (map frame_type fs)"
      using assms False Cons by (simp_all add: conf_of_def)
    note rules = simulates_refuse simulates_stay [OF assms(1)]
      simulates_key [OF assms(1) False Cons] simulates_set_back [OF assms(1) False Cons assms(2), unfolded Cons set_back_state.simps]
      simulates_start_value [OF assms(1) False Cons assms(2)] simulates_close [OF assms(1) False Cons assms(2)]
    show ?thesis
      using False Cons fty step self
      by (cases "frame_state f") (auto simp: consume_structural_def state_type_def intro!: rules)
  qed
qed

lemma simulates_value_end:
  assumes "wf_state s" "parse_mode s \<noteq> PM_NONE"
    and "jstep (conf_of s) c = Some (after_value (map frame_type (containers s)))"
    and "s' = s\<lparr>parse_mode := PM_NONE, literal_index := i\<rparr>"
  shows "simulates s c (True, complete_value s')"
proof -
  have "wf_state (complete_value s')"
    using assms by (intro wf_complete_value) (auto simp: wf_state_def)
  moreover have "conf_of (complete_value s') = after_value (map frame_type (containers s))"
    using assms by (subst conf_after_value) (auto simp: wf_state_def)
  ultimately show ?thesis using assms by (simp add: simulates_def)
qed

lemma wf_mode:
  assumes "wf_state s" "parse_mode s \<noteq> PM_NONE"
  shows "\<exists>f fs. containers s = f # fs \<and> \<not> root_complete s \<and> root_started s \<and> frame_type f = state_type (frame_state f)"
  using assms by (cases "containers s") (auto simp: wf_state_def frame_ok_def)

lemma simulates_string:
  assumes "wf_state s" "parse_mode s \<in> {PM_STRING, PM_STRING_ESCAPE, PM_STRING_UNICODE}"
  shows "simulates s c (consume_string_character s c)"
proof -
  obtain f fs where c: "containers s = f # fs" "\<not> root_complete s" "root_started s"
      "frame_type f = state_type (frame_state f)"
    using wf_mode [OF assms(1)] assms(2) by auto
  have self: "conf_of s = JStr (string_mode_of s) (string_role s) (map frame_type (f # fs))"
    using c assms(2) by (auto simp: conf_of_def)
  have key: "string_role s = ROLE_OBJECT_KEY \<Longrightarrow> frame_type f = CT_OBJECT"
    using assms c by (auto simp: wf_state_def)
  have val: "simulates s c (True, complete_value (s\<lparr>parse_mode := PM_NONE\<rparr>))"
    if "c = CHR 0x22" "parse_mode s = PM_STRING" "string_role s = ROLE_VALUE"
    using that self c
    by (intro simulates_value_end [where i = "literal_index s"])
       (auto simp: string_mode_of_def assms(1))
  have key_end: "simulates s c (True, s\<lparr>parse_mode := PM_NONE, containers := set_back_state OBJECT_COLON (containers s)\<rparr>)"
    if "c = CHR 0x22" "parse_mode s = PM_STRING" "string_role s = ROLE_OBJECT_KEY"
    using that self c key assms(1)
    by (auto simp: simulates_def string_mode_of_def conf_of_def wf_state_def frame_ok_def state_type_def)
  from assms(2) consider "parse_mode s = PM_STRING" | "parse_mode s = PM_STRING_ESCAPE" | "parse_mode s = PM_STRING_UNICODE"
    by auto
  then show ?thesis
  proof cases
    case 1
    have "simulates s c (True, s\<lparr>parse_mode := PM_STRING_ESCAPE\<rparr>)" if "c = CHR 0x5C"
      using 1 that self c assms(1)
      by (simp add: string_mode_of_def simulates_def conf_of_def wf_state_def)
    then show ?thesis
      using 1 val key_end self c assms(1)
      by (cases "string_role s") (auto simp: consume_string_character_def string_mode_of_def simulates_def)
  next
    case 2
    then show ?thesis
      using self c assms(1)
      by (auto simp: consume_string_character_def string_mode_of_def simulates_def conf_of_def wf_state_def)
  next
    case 3
    then show ?thesis
      using self c assms(1)
      by (auto simp: consume_string_character_def string_mode_of_def simulates_def conf_of_def wf_state_def)
  qed
qed

lemma simulates_literal:
  assumes "wf_state s" "parse_mode s = PM_LITERAL"
  shows "simulates s c (consume_literal_character s c)"
proof -
  obtain f fs where c: "containers s = f # fs" "\<not> root_complete s" "root_started s"
    using wf_mode [OF assms(1)] assms(2) by auto
  have lit: "literal_ok s" using assms by (simp add: wf_state_def)
  let ?i = "literal_index s" and ?t = "literal_target s"
  have i: "?i < length ?t" using lit by (simp add: literal_ok_def)
  have dr: "drop ?i ?t = ?t ! ?i # drop (Suc ?i) ?t" using i by (simp add: Cons_nth_drop_Suc)
  have self: "conf_of s = JLit (drop ?i ?t) (map frame_type (f # fs))"
    using c assms(2) by (simp add: conf_of_def)
  consider "c \<noteq> ?t ! ?i" | "c = ?t ! ?i" "Suc ?i = length ?t" | "c = ?t ! ?i" "Suc ?i < length ?t"
    using i by fastforce
  then show ?thesis
  proof cases
    case 1
    then have "jstep (conf_of s) c = None"
      using self dr by (cases "drop (Suc ?i) ?t") auto
    then show ?thesis using 1 by (simp add: consume_literal_character_def simulates_def)
  next
    case 2
    then have "jstep (conf_of s) c = Some (after_value (map frame_type (containers s)))"
      using self dr c by simp
    then have "simulates s c (True, complete_value (s\<lparr>parse_mode := PM_NONE, literal_index := ?i + 1\<rparr>))"
      using assms by (intro simulates_value_end) auto
    then show ?thesis using 2 i by (simp add: consume_literal_character_def)
  next
    case 3
    then obtain y ys where y: "drop (Suc ?i) ?t = y # ys" by (cases "drop (Suc ?i) ?t") auto
    then have "jstep (conf_of s) c = Some (conf_of (s\<lparr>literal_index := ?i + 1\<rparr>))"
      using self dr c 3 assms(2) by (simp add: conf_of_def)
    moreover have "wf_state (s\<lparr>literal_index := ?i + 1\<rparr>)"
      using assms lit 3 by (auto simp: wf_state_def literal_ok_def)
    ultimately show ?thesis using 3 by (simp add: consume_literal_character_def simulates_def)
  qed
qed

lemma simulates_finish_number:
  assumes "wf_state s" "parse_mode s = PM_NUMBER" "\<not> reasoning_phase s" "num_step (number_state s) c = None"
  shows "simulates s c (finish_number s c)"
proof -
  obtain f fs where c: "containers s = f # fs" "\<not> root_complete s" "root_started s"
    using wf_mode [OF assms(1)] assms(2) by auto
  have self: "conf_of s = JNum (number_state s) (map frame_type (containers s))"
    using c assms(2) by (simp add: conf_of_def)
  have complete: "has_complete_number s = num_complete (number_state s)"
    by (auto simp: has_complete_number_def num_complete_def)
  let ?s' = "complete_value (s\<lparr>parse_mode := PM_NONE\<rparr>)"
  have "wf_state ?s'"
    using assms c by (intro wf_complete_value) (auto simp: wf_state_def)
  moreover have "parse_mode ?s' = PM_NONE" "\<not> reasoning_phase ?s'"
    using assms c by (simp_all add: complete_value_def)
  ultimately have wf': "wf_state ?s'" "parse_mode ?s' = PM_NONE" "\<not> reasoning_phase ?s'" by auto
  have conf': "conf_of ?s' = after_value (map frame_type (containers s))"
    using c by (subst conf_after_value) auto
  have "jstep (conf_of ?s') c = plain_step (after_value (map frame_type (containers s))) c"
    unfolding conf' by (cases "after_value (map frame_type (containers s))") (use c in \<open>auto split: container_type.splits elim: after_value.elims\<close>)
  then show ?thesis
    using simulates_structural [OF wf'(1,2), of c] assms(4) self wf'(3)
    by (auto simp: finish_number_def complete is_value_delimiter_def simulates_def)
qed

lemma consume_number_alt:
  "consume_number_character s c =
    (case num_step (number_state s) c of
       Some n \<Rightarrow> (True, s\<lparr>number_state := n\<rparr>)
     | None \<Rightarrow> if num_complete (number_state s) then finish_number s c else (False, s))"
  by (cases "number_state s") (simp_all add: consume_number_character_def num_complete_def is_digit19_alt)

lemma simulates_number:
  assumes "wf_state s" "parse_mode s = PM_NUMBER" "\<not> reasoning_phase s"
  shows "simulates s c (consume_number_character s c)"
proof -
  obtain f fs where c: "containers s = f # fs" "\<not> root_complete s" "root_started s"
    using wf_mode [OF assms(1)] assms(2) by auto
  have self: "conf_of s = JNum (number_state s) (map frame_type (containers s))"
    using c assms(2) by (simp add: conf_of_def)
  show ?thesis
  proof (cases "num_step (number_state s) c")
    case None
    then show ?thesis
      using simulates_finish_number [OF assms None] self by (auto simp: consume_number_alt simulates_def)
  next
    case (Some n)
    then show ?thesis
      using self c assms by (simp add: consume_number_alt simulates_def conf_of_def wf_state_def literal_ok_def)
  qed
qed

theorem consume_simulates:
  assumes "wf_state s" "\<not> reasoning_phase s"
  shows "simulates s c (consume_character s c)"
  using assms
  by (cases "parse_mode s")
     (auto simp: consume_character_def intro!: simulates_string simulates_number simulates_literal simulates_structural)

section \<open>What a byte leaves alone\<close>

text \<open>The automaton neither reads nor writes the committed ids, and it leaves the grammar, the validity
  flag and the reasoning fields as they are.\<close>

definition with_tokens :: "token_id list \<Rightarrow> json_state \<Rightarrow> json_state" where
  "with_tokens ts s = s\<lparr>committed_token_ids := ts\<rparr>"

lemma with_tokens_simps [simp]:
  "grammar (with_tokens ts s) = grammar s" "containers (with_tokens ts s) = containers s"
  "parse_mode (with_tokens ts s) = parse_mode s" "string_role (with_tokens ts s) = string_role s"
  "number_state (with_tokens ts s) = number_state s" "literal_target (with_tokens ts s) = literal_target s"
  "literal_index (with_tokens ts s) = literal_index s" "unicode_digits (with_tokens ts s) = unicode_digits s"
  "valid (with_tokens ts s) = valid s" "root_started (with_tokens ts s) = root_started s"
  "root_complete (with_tokens ts s) = root_complete s" "reasoning_phase (with_tokens ts s) = reasoning_phase s"
  "reasoning_enabled (with_tokens ts s) = reasoning_enabled s"
  "reasoning_marker_index (with_tokens ts s) = reasoning_marker_index s"
  "committed_token_ids (with_tokens ts s) = ts"
  by (simp_all add: with_tokens_def)

lemma with_tokens_update [simp]:
  "containers_update f (with_tokens ts s) = with_tokens ts (containers_update f s)"
  "parse_mode_update f1 (with_tokens ts s) = with_tokens ts (parse_mode_update f1 s)"
  "string_role_update f2 (with_tokens ts s) = with_tokens ts (string_role_update f2 s)"
  "number_state_update f3 (with_tokens ts s) = with_tokens ts (number_state_update f3 s)"
  "literal_target_update f4 (with_tokens ts s) = with_tokens ts (literal_target_update f4 s)"
  "literal_index_update f5 (with_tokens ts s) = with_tokens ts (literal_index_update f5 s)"
  "unicode_digits_update f6 (with_tokens ts s) = with_tokens ts (unicode_digits_update f6 s)"
  "valid_update f7 (with_tokens ts s) = with_tokens ts (valid_update f7 s)"
  "root_started_update f8 (with_tokens ts s) = with_tokens ts (root_started_update f8 s)"
  "root_complete_update f9 (with_tokens ts s) = with_tokens ts (root_complete_update f9 s)"
  by (simp_all add: with_tokens_def)

lemma complete_value_tokens [simp]: "complete_value (with_tokens ts s) = with_tokens ts (complete_value s)"
  by (simp add: complete_value_def split: list.split)

lemma close_container_tokens:
  "close_container t (with_tokens ts s) = map_prod id (with_tokens ts) (close_container t s)"
  by (simp add: close_container_def split: list.split)

lemma start_value_tokens:
  "start_value c (with_tokens ts s) = map_prod id (with_tokens ts) (start_value c s)"
  by (simp add: start_value_def)

lemma structural_tokens:
  "consume_structural (with_tokens ts s) c = map_prod id (with_tokens ts) (consume_structural s c)"
proof (cases "containers s")
  case (Cons f fs)
  then show ?thesis
    by (cases "frame_state f") (simp_all add: consume_structural_def start_value_tokens close_container_tokens)
qed (simp add: consume_structural_def)

lemma finish_number_tokens:
  "finish_number (with_tokens ts s) c = map_prod id (with_tokens ts) (finish_number s c)"
  by (simp add: finish_number_def has_complete_number_def structural_tokens Let_def)

lemma consume_tokens:
  "consume_character (with_tokens ts s) c = map_prod id (with_tokens ts) (consume_character s c)"
proof -
  have str: "consume_string_character (with_tokens ts s) c = map_prod id (with_tokens ts) (consume_string_character s c)"
    by (simp add: consume_string_character_def Let_def)
  have lit: "consume_literal_character (with_tokens ts s) c = map_prod id (with_tokens ts) (consume_literal_character s c)"
    by (simp add: consume_literal_character_def)
  have num: "consume_number_character (with_tokens ts s) c = map_prod id (with_tokens ts) (consume_number_character s c)"
    by (simp add: consume_number_alt finish_number_tokens split: option.split)
  show ?thesis
    by (cases "parse_mode s") (simp_all add: consume_character_def str lit num structural_tokens)
qed

definition same_control :: "json_state \<Rightarrow> json_state \<Rightarrow> bool" where
  "same_control s s' \<longleftrightarrow> grammar s' = grammar s \<and> valid s' = valid s \<and> reasoning_phase s' = reasoning_phase s
     \<and> reasoning_enabled s' = reasoning_enabled s \<and> reasoning_marker_index s' = reasoning_marker_index s
     \<and> committed_token_ids s' = committed_token_ids s"

lemma same_control_refl [simp]: "same_control s s"
  by (simp add: same_control_def)

lemma complete_value_fields [simp]:
  "grammar (complete_value s) = grammar s" "valid (complete_value s) = valid s"
  "reasoning_phase (complete_value s) = reasoning_phase s" "reasoning_enabled (complete_value s) = reasoning_enabled s"
  "reasoning_marker_index (complete_value s) = reasoning_marker_index s"
  "committed_token_ids (complete_value s) = committed_token_ids s"
  by (simp_all add: complete_value_def split: list.split)

lemma structural_control: "same_control s (snd (consume_structural s c))"
  by (simp add: consume_structural_def start_value_def close_container_def same_control_def
      split: list.split container_state.split)

lemma finish_number_control: "same_control s (snd (finish_number s c))"
  using structural_control [of "complete_value (s\<lparr>parse_mode := PM_NONE\<rparr>)" c]
  by (simp add: finish_number_def Let_def same_control_def)

lemma consume_control: "same_control s (snd (consume_character s c))"
proof -
  have str: "same_control s (snd (consume_string_character s c))"
    by (simp add: consume_string_character_def Let_def same_control_def)
  have lit: "same_control s (snd (consume_literal_character s c))"
    by (simp add: consume_literal_character_def same_control_def)
  have num: "same_control s (snd (consume_number_character s c))"
    using finish_number_control [of s c] by (simp add: consume_number_alt same_control_def split: option.split)
  show ?thesis
    using str lit num structural_control [of s c] by (cases "parse_mode s") (simp_all add: consume_character_def)
qed

section \<open>Pieces\<close>

lemma accept_bytes_tokens:
  "accept_bytes (with_tokens ts s) cs = map_prod id (with_tokens ts) (accept_bytes s cs)"
proof (induction cs arbitrary: s)
  case (Cons c cs)
  obtain b s' where "consume_character s c = (b, s')" by fastforce
  then show ?case
    using Cons.IH [of s'] by (cases b) (simp_all add: consume_tokens invalidate_def)
qed simp

lemma accept_bytes_reasoning: "reasoning_phase s \<Longrightarrow> accept_bytes s cs = (True, s)"
  by (induction cs) (auto simp: consume_character_def)

text \<open>Outside the reasoning phase a piece is accepted exactly when the automaton runs over it, and then
  the matcher stands where the automaton does.\<close>

lemma accept_bytes_run:
  assumes "wf_state s" "\<not> reasoning_phase s"
  shows "(case jrun (conf_of s) cs of
            None \<Rightarrow> fst (accept_bytes s cs) = False \<and> valid (snd (accept_bytes s cs)) = False
          | Some j \<Rightarrow> \<exists>s'. accept_bytes s cs = (True, s') \<and> conf_of s' = j \<and> wf_state s' \<and> same_control s s')"
  using assms
proof (induction cs arbitrary: s)
  case (Cons c cs)
  obtain b s' where res: "consume_character s c = (b, s')" by fastforce
  have sim: "simulates s c (b, s')" using consume_simulates [OF Cons.prems, of c] res by simp
  have ctl: "same_control s s'" using consume_control [of s c] res by simp
  show ?case
  proof (cases b)
    case True
    then have "wf_state s'" "jstep (conf_of s) c = Some (conf_of s')" using sim by (simp_all add: simulates_def)
    moreover have "\<not> reasoning_phase s'" using ctl Cons.prems by (simp add: same_control_def)
    ultimately show ?thesis
      using Cons.IH [of s'] ctl res True by (auto simp: same_control_def split: option.splits)
  next
    case False
    then show ?thesis using sim res by (simp add: simulates_def invalidate_def)
  qed
qed auto

end
