(* ===== verification/Json_Language.thy ===== *)
theory Json_Language imports Json_Pda begin

text \<open>
  The language of JSON object texts (RFC 8259, over bytes), written as a grammar and independently of the
  matcher, with the two directions that relate it to the automaton of \<open>Json_Pda\<close>: every object text
  drives the automaton from its start to its end, and every byte string that does so is an object text.
\<close>

section \<open>The grammar\<close>

definition ws :: "string \<Rightarrow> bool" where
  "ws w \<longleftrightarrow> list_all is_json_whitespace w"

text \<open>The bytes between the quotes of a string.\<close>

inductive string_body :: "string \<Rightarrow> bool" where
  body_nil: "string_body []"
| body_plain: "c \<noteq> CHR 0x22 \<Longrightarrow> c \<noteq> CHR 0x5C \<Longrightarrow> 32 \<le> (of_char c :: nat) \<Longrightarrow> string_body b \<Longrightarrow> string_body (c # b)"
| body_escape: "is_json_escape e \<Longrightarrow> e \<noteq> CHR ''u'' \<Longrightarrow> string_body b \<Longrightarrow> string_body (CHR 0x5C # e # b)"
| body_unicode: "list_all is_hex_digit [h1, h2, h3, h4] \<Longrightarrow> string_body b \<Longrightarrow>
     string_body (CHR 0x5C # CHR ''u'' # h1 # h2 # h3 # h4 # b)"

definition jstring :: "string \<Rightarrow> bool" where
  "jstring s \<longleftrightarrow> (\<exists>b. s = CHR 0x22 # b @ [CHR 0x22] \<and> string_body b)"

definition digits1 :: "string \<Rightarrow> bool" where
  "digits1 d \<longleftrightarrow> d \<noteq> [] \<and> list_all is_digit d"

definition int_part :: "string \<Rightarrow> bool" where
  "int_part i \<longleftrightarrow> i = ''0'' \<or> (\<exists>d ds. i = d # ds \<and> is_digit19 d \<and> list_all is_digit ds)"

definition frac_part :: "string \<Rightarrow> bool" where
  "frac_part f \<longleftrightarrow> f = [] \<or> (\<exists>d. f = CHR ''.'' # d \<and> digits1 d)"

definition exp_part :: "string \<Rightarrow> bool" where
  "exp_part x \<longleftrightarrow> x = [] \<or>
     (\<exists>e sign d. x = e # sign @ d \<and> e \<in> {CHR ''e'', CHR ''E''} \<and> sign \<in> {[], ''+'', ''-''} \<and> digits1 d)"

definition jnumber :: "string \<Rightarrow> bool" where
  "jnumber s \<longleftrightarrow> (\<exists>m i f x. s = m @ i @ f @ x \<and> m \<in> {[], ''-''} \<and> int_part i \<and> frac_part f \<and> exp_part x)"

inductive jvalue :: "string \<Rightarrow> bool" and jmembers :: "string \<Rightarrow> bool" and jelements :: "string \<Rightarrow> bool" where
  val_string: "jstring s \<Longrightarrow> jvalue s"
| val_number: "jnumber s \<Longrightarrow> jvalue s"
| val_literal: "s \<in> {''true'', ''false'', ''null''} \<Longrightarrow> jvalue s"
| val_object_empty: "ws w \<Longrightarrow> jvalue (CHR ''{'' # w @ ''}'')"
| val_object: "jmembers m \<Longrightarrow> jvalue (CHR ''{'' # m @ ''}'')"
| val_array_empty: "ws w \<Longrightarrow> jvalue (CHR ''['' # w @ '']'')"
| val_array: "jelements e \<Longrightarrow> jvalue (CHR ''['' # e @ '']'')"
| member_last: "ws w1 \<Longrightarrow> jstring k \<Longrightarrow> ws w2 \<Longrightarrow> ws w3 \<Longrightarrow> jvalue v \<Longrightarrow> ws w4 \<Longrightarrow>
     jmembers (w1 @ k @ w2 @ '':'' @ w3 @ v @ w4)"
| member_more: "ws w1 \<Longrightarrow> jstring k \<Longrightarrow> ws w2 \<Longrightarrow> ws w3 \<Longrightarrow> jvalue v \<Longrightarrow> ws w4 \<Longrightarrow> jmembers m \<Longrightarrow>
     jmembers (w1 @ k @ w2 @ '':'' @ w3 @ v @ w4 @ '','' @ m)"
| element_last: "ws w1 \<Longrightarrow> jvalue v \<Longrightarrow> ws w2 \<Longrightarrow> jelements (w1 @ v @ w2)"
| element_more: "ws w1 \<Longrightarrow> jvalue v \<Longrightarrow> ws w2 \<Longrightarrow> jelements e \<Longrightarrow> jelements (w1 @ v @ w2 @ '','' @ e)"

text \<open>A JSON object text: whitespace, an object, whitespace.\<close>

definition json_object_text :: "string \<Rightarrow> bool" where
  "json_object_text t \<longleftrightarrow> (\<exists>w1 v w2. t = w1 @ v @ w2 \<and> ws w1 \<and> jvalue v \<and> ws w2 \<and> hd v = CHR ''{'')"

lemma ws_Nil [simp]: "ws []"
  by (simp add: ws_def)

lemma ws_Cons [simp]: "ws (c # w) \<longleftrightarrow> is_json_whitespace c \<and> ws w"
  by (simp add: ws_def)

lemma jvalue_nonempty: "jvalue v \<Longrightarrow> v \<noteq> []"
  by (erule jvalue.cases) (auto simp: jstring_def jnumber_def int_part_def)

section \<open>Every object text is accepted\<close>

lemma run_ws: "ws w \<Longrightarrow> jrun (JStruct st K) w = Some (JStruct st K)"
  by (induction w) auto

lemma run_ws_root: "ws w \<Longrightarrow> jrun JStart w = Some JStart" "ws w \<Longrightarrow> jrun JDone w = Some JDone"
  by (induction w) auto

lemma run_string_body: "string_body b \<Longrightarrow> jrun (JStr S_PLAIN r K) b = Some (JStr S_PLAIN r K)"
  by (induction rule: string_body.induct) (auto simp: is_json_escape_def)

lemma run_string:
  "jstring s \<Longrightarrow> jrun (JStr S_PLAIN r K) (tl s) = Some (str_end r K) \<and> hd s = CHR 0x22 \<and> s \<noteq> []"
  by (auto simp: jstring_def jrun_append run_string_body)

lemma run_digits: "list_all is_digit d \<Longrightarrow> n \<in> {INTEGER, FRACTION, EXPONENT_DIGITS} \<Longrightarrow> jrun (JNum n K) d = Some (JNum n K)"
  by (induction d) auto

lemma not_digit [simp]:
  "\<not> is_digit (CHR ''.'')" "\<not> is_digit (CHR ''e'')" "\<not> is_digit (CHR ''E'')" "\<not> is_digit (CHR ''+'')" "\<not> is_digit (CHR ''-'')"
  "\<not> is_digit19 (CHR ''.'')" "\<not> is_digit19 (CHR ''e'')" "\<not> is_digit19 (CHR ''E'')" "\<not> is_digit19 (CHR ''+'')"
  "\<not> is_digit19 (CHR ''-'')" "\<not> is_digit19 (CHR ''0'')" "\<not> is_digit19 (CHR ''{'')" "\<not> is_digit19 (CHR ''['')" "\<not> is_digit19 (CHR 0x22)"
  "\<not> is_digit19 (CHR '']'')" "\<not> is_digit19 (CHR ''}'')" "\<not> is_digit19 (CHR '','')" "\<not> is_digit19 (CHR ''t'')"
  "\<not> is_digit19 (CHR ''f'')" "\<not> is_digit19 (CHR ''n'')"
  "\<not> is_digit (CHR '']'')" "\<not> is_digit (CHR ''}'')" "\<not> is_digit (CHR '','')"
  by (simp_all add: is_digit_def is_digit19_def)

lemma digit19_digit: "is_digit19 c \<Longrightarrow> is_digit c"
  by (auto simp: is_digit_def is_digit19_def less_eq_char_def)

lemma ws_not_digit: "is_json_whitespace c \<Longrightarrow> \<not> is_digit c" "is_json_whitespace c \<Longrightarrow> \<not> is_digit19 c"
  by (auto simp: is_json_whitespace_def is_digit_def is_digit19_def)

lemma run_frac:
  assumes "frac_part f" "n \<in> {ZERO, INTEGER}"
  shows "\<exists>n' \<in> {ZERO, INTEGER, FRACTION}. jrun (JNum n K) f = Some (JNum n' K)"
proof (cases f)
  case Nil
  then show ?thesis using assms by auto
next
  case (Cons c d)
  then obtain x xs where "c = CHR ''.''" "d = x # xs" "is_digit x" "list_all is_digit xs"
    using assms(1) by (cases d) (auto simp: frac_part_def digits1_def)
  then show ?thesis using assms(2) Cons by (auto simp: run_digits)
qed

lemma run_exp:
  assumes "exp_part x" "n \<in> {ZERO, INTEGER, FRACTION}"
  shows "\<exists>n'. num_complete n' \<and> jrun (JNum n K) x = Some (JNum n' K)"
proof (cases x)
  case Nil
  then show ?thesis using assms by (auto simp: num_complete_def)
next
  case (Cons e r)
  then obtain sign d where r: "r = sign @ d" "e \<in> {CHR ''e'', CHR ''E''}" "sign \<in> {[], ''+'', ''-''}" "digits1 d"
    using assms(1) by (auto simp: exp_part_def)
  then obtain y ys where y: "d = y # ys" "is_digit y" "list_all is_digit ys" by (cases d) (auto simp: digits1_def)
  have step: "jstep (JNum n K) e = Some (JNum EXPONENT K)"
    using r(2) assms(2) by auto
  have "y \<noteq> CHR ''+''" "y \<noteq> CHR ''-''" using y(2) by auto
  then have "jrun (JNum EXPONENT K) r = Some (JNum EXPONENT_DIGITS K)"
    using r y by (auto simp: run_digits)
  then show ?thesis using step Cons by (auto simp: num_complete_def)
qed

lemma run_number:
  assumes "jnumber s"
  shows "\<exists>c cs n j. s = c # cs \<and> value_start c K = Some j \<and> num_complete n \<and> jrun j cs = Some (JNum n K)
           \<and> \<not> is_json_whitespace c \<and> c \<noteq> CHR '']''"
proof -
  obtain m i f x where s: "s = m @ i @ f @ x" "m \<in> {[], ''-''}" "int_part i" "frac_part f" "exp_part x"
    using assms by (auto simp: jnumber_def)
  obtain d ds n where i: "i = d # ds" "num_step AFTER_MINUS d = Some n" "n \<in> {ZERO, INTEGER}" 
      "jrun (JNum n K) ds = Some (JNum n K)" "value_start d K = Some (JNum n K)" "is_digit d"
    using s(3) unfolding int_part_def
  proof (elim disjE exE conjE)
    fix d ds assume a: "\<And>d ds n. i = d # ds \<Longrightarrow> num_step AFTER_MINUS d = Some n \<Longrightarrow> n \<in> {ZERO, INTEGER} \<Longrightarrow>
      jrun (JNum n K) ds = Some (JNum n K) \<Longrightarrow> value_start d K = Some (JNum n K) \<Longrightarrow> is_digit d \<Longrightarrow> thesis"
      and d: "i = d # ds" "is_digit19 d" "list_all is_digit ds"
    have "d \<noteq> CHR ''0''" "d \<noteq> CHR ''{''" "d \<noteq> CHR ''[''" "d \<noteq> CHR 0x22" "d \<noteq> CHR ''-''" using d(2) by auto
    then show thesis using a [OF d(1), of INTEGER] d by (simp add: run_digits value_start_def digit19_digit)
  qed (simp add: value_start_def is_digit_def)
  obtain n' where n': "n' \<in> {ZERO, INTEGER, FRACTION}" "jrun (JNum n K) f = Some (JNum n' K)"
    using run_frac [OF s(4) i(3)] by blast
  obtain n'' where n'': "num_complete n''" "jrun (JNum n' K) x = Some (JNum n'' K)"
    using run_exp [OF s(5) n'(1)] by blast
  have rest: "jrun (JNum n K) (ds @ f @ x) = Some (JNum n'' K)"
    using i(4) n' n'' by (simp add: jrun_append)
  have dw: "\<not> is_json_whitespace d" "d \<noteq> CHR '']''" using i(6) ws_not_digit by auto
  show ?thesis
  proof (cases m)
    case Nil
    then show ?thesis using s(1) i rest n'' dw by auto
  next
    case (Cons a as)
    then have "m = ''-''" using s(2) by auto
    then show ?thesis using s(1) i rest n'' by (auto simp: value_start_def is_json_whitespace_def)
  qed
qed

text \<open>A complete value inside open containers leaves the automaton behind it, or, for a number, still in
  the number, which the next delimiter ends.\<close>

definition behind_value :: "jconf \<Rightarrow> container_type list \<Rightarrow> bool" where
  "behind_value d K \<longleftrightarrow> d = after_value K \<or> (\<exists>n. num_complete n \<and> d = JNum n K)"

lemma delimiter_ends_number:
  assumes "num_complete n" "is_json_delimiter c"
  shows "jstep (JNum n K) c = plain_step (after_value K) c"
proof -
  have "\<not> is_digit c" "c \<noteq> CHR ''.''" "c \<noteq> CHR ''e''" "c \<noteq> CHR ''E''"
    using assms(2) ws_not_digit(1) [of c] by (auto simp: is_json_delimiter_def is_json_whitespace_def)
  then have "num_step n c = None" using assms(1) by (auto simp: num_complete_def)
  then show ?thesis using assms by simp
qed

lemma plain_after_value: "jstep (after_value K) c = plain_step (after_value K) c"
  by (cases K rule: after_value.cases) simp_all

lemma behind_value_run:
  assumes "behind_value d K" "is_json_delimiter c"
  shows "jrun d (c # cs) = jrun (after_value K) (c # cs)"
proof -
  have "jstep d c = jstep (after_value K) c"
    using assms delimiter_ends_number plain_after_value unfolding behind_value_def by metis
  then show ?thesis by simp
qed

definition runs_value :: "string \<Rightarrow> container_type list \<Rightarrow> bool" where
  "runs_value v K \<longleftrightarrow> (\<exists>c cs j d. v = c # cs \<and> value_start c K = Some j \<and> jrun j cs = Some d
     \<and> behind_value d K \<and> \<not> is_json_whitespace c \<and> c \<noteq> CHR '']'')"

lemma runs_valueI:
  assumes "v = c # cs" "value_start c K = Some j" "jrun j cs = Some (after_value K)" "c \<noteq> CHR '']''"
    "\<not> is_json_whitespace c"
  shows "runs_value v K"
  using assms unfolding runs_value_def behind_value_def by blast

lemma run_value_in:
  assumes "runs_value v (state_type st # K)" "st \<in> {OBJECT_VALUE, ARRAY_VALUE_OR_END, ARRAY_VALUE_AFTER_COMMA}"
    and "is_json_delimiter x"
  shows "jrun (JStruct st K) (v @ x # xs) = jrun (after_value (state_type st # K)) (x # xs)"
proof -
  obtain c cs j d where v: "v = c # cs" "value_start c (state_type st # K) = Some j" "jrun j cs = Some d"
      "behind_value d (state_type st # K)" "\<not> is_json_whitespace c" "c \<noteq> CHR '']''"
    using assms(1) unfolding runs_value_def by blast
  have "jstep (JStruct st K) c = Some j"
    using assms(2) v by (auto simp: state_type_def)
  then show ?thesis using v behind_value_run [OF v(4) assms(3)] by (simp add: jrun_append)
qed

lemma after_value_ws: "ws w \<Longrightarrow> K \<noteq> [] \<Longrightarrow> jrun (after_value K) (w @ xs) = jrun (after_value K) xs"
  by (cases K rule: after_value.cases) (auto simp: jrun_append run_ws)

lemma run_value_ws_in:
  assumes "runs_value v (state_type st # K)" "st \<in> {OBJECT_VALUE, ARRAY_VALUE_OR_END, ARRAY_VALUE_AFTER_COMMA}"
    and "is_json_delimiter x" "ws w"
  shows "jrun (JStruct st K) (v @ w @ x # xs) = jrun (after_value (state_type st # K)) (x # xs)"
proof (cases w)
  case Nil
  then show ?thesis using run_value_in [OF assms(1-3)] by simp
next
  case (Cons y ys)
  then have "is_json_delimiter y" using assms(4) by (simp add: is_json_delimiter_def)
  then have "jrun (JStruct st K) (v @ w @ x # xs) = jrun (after_value (state_type st # K)) (w @ x # xs)"
    using run_value_in [OF assms(1,2)] Cons by simp
  also have "\<dots> = jrun (after_value (state_type st # K)) (x # xs)" using assms(4) by (subst after_value_ws) auto
  finally show ?thesis .
qed

lemma run_key:
  assumes "jstring k" "ws w1" "ws w2" "ws w3" "st \<in> {OBJECT_KEY_OR_END, OBJECT_KEY_AFTER_COMMA}"
  shows "jrun (JStruct st K) (w1 @ k @ w2 @ CHR '':'' # w3 @ xs) = jrun (JStruct OBJECT_VALUE K) xs"
proof -
  obtain k' where k: "k = CHR 0x22 # k'" using run_string [OF assms(1)] by (cases k) auto
  have "jrun (JStruct st K) k = Some (JStruct OBJECT_COLON K)"
    using run_string [OF assms(1), of ROLE_OBJECT_KEY "CT_OBJECT # K"] k assms(5) by auto
  then show ?thesis using assms by (simp add: jrun_append run_ws)
qed

lemma delimiters [simp]: "is_json_delimiter (CHR '','')" "is_json_delimiter (CHR '']'')" "is_json_delimiter (CHR ''}'')"
  by (simp_all add: is_json_delimiter_def)

lemma run_member:
  assumes "ws w1" "jstring k" "ws w2" "ws w3" "runs_value v (CT_OBJECT # K)" "ws w4" "is_json_delimiter x"
    "st \<in> {OBJECT_KEY_OR_END, OBJECT_KEY_AFTER_COMMA}"
  shows "jrun (JStruct st K) (w1 @ k @ w2 @ CHR '':'' # w3 @ v @ w4 @ x # xs) = jrun (JStruct OBJECT_COMMA_OR_END K) (x # xs)"
  using run_key [OF assms(2,1,3,4,8)] run_value_ws_in [of v OBJECT_VALUE K x w4 xs] assms
  by (simp add: state_type_def)

lemma run_element:
  assumes "ws w1" "runs_value v (CT_ARRAY # K)" "ws w2" "is_json_delimiter x"
    "st \<in> {ARRAY_VALUE_OR_END, ARRAY_VALUE_AFTER_COMMA}"
  shows "jrun (JStruct st K) (w1 @ v @ w2 @ x # xs) = jrun (JStruct ARRAY_COMMA_OR_END K) (x # xs)"
  using run_value_ws_in [of v st K x w2 xs] assms
  by (auto simp: state_type_def jrun_append run_ws)

lemma run_grammar:
  "jvalue v \<Longrightarrow> (\<And>K. runs_value v K)"
  "jmembers m \<Longrightarrow> (\<And>K. \<forall>st \<in> {OBJECT_KEY_OR_END, OBJECT_KEY_AFTER_COMMA}. jrun (JStruct st K) (m @ ''}'') = Some (after_value K))"
  "jelements e \<Longrightarrow> (\<And>K. \<forall>st \<in> {ARRAY_VALUE_OR_END, ARRAY_VALUE_AFTER_COMMA}. jrun (JStruct st K) (e @ '']'') = Some (after_value K))"
proof (induction rule: jvalue_jmembers_jelements.inducts)
  case (val_string s K)
  have r: "jrun (JStr S_PLAIN ROLE_VALUE K) (tl s) = Some (after_value K)" "hd s = CHR 0x22" "s \<noteq> []"
    using run_string [OF val_string, of ROLE_VALUE K] by simp_all
  have "s = CHR 0x22 # tl s" using r(2,3) by (cases s) simp_all
  then show ?case by (rule runs_valueI [OF _ _ r(1)]) (simp_all add: value_start_def)
next
  case (val_number s K)
  then show ?case using run_number [of s K] by (auto simp: runs_value_def behind_value_def)
next
  case (val_literal s)
  then show ?case by (auto simp: value_start_def intro!: runs_valueI [OF refl] simp: is_json_whitespace_def)
next
  case (val_object_empty w)
  then show ?case
    by (intro runs_valueI [OF refl]) (auto simp: value_start_def jrun_append run_ws)
next
  case (val_object m)
  then show ?case by (intro runs_valueI [OF refl]) (auto simp: value_start_def)
next
  case (val_array_empty w)
  then show ?case
    by (intro runs_valueI [OF refl]) (auto simp: value_start_def jrun_append run_ws)
next
  case (val_array e)
  then show ?case by (intro runs_valueI [OF refl]) (auto simp: value_start_def)
next
  case (member_last w1 k w2 w3 v w4)
  then show ?case using run_member [OF member_last(1-4) member_last(7) member_last(6), where x = "CHR ''}''" and xs = "[]"] by auto
next
  case (member_more w1 k w2 w3 v w4 m)
  then show ?case using run_member [OF member_more(1-4) member_more(8) member_more(6), where x = "CHR '',''" and xs = "m @ ''}''"] by auto
next
  case (element_last w1 v w2)
  then show ?case using run_element [OF element_last(1) element_last(4,3), where x = "CHR '']''" and xs = "[]"] by auto
next
  case (element_more w1 v w2 e)
  then show ?case using run_element [OF element_more(1) element_more(5,3), where x = "CHR '',''" and xs = "e @ '']''"] by auto
qed

lemma object_value_runs:
  assumes "jvalue v" "hd v = CHR ''{''"
  shows "jrun JStart v = Some JDone"
  using assms
proof (cases rule: jvalue.cases)
  case (val_object_empty w)
  then show ?thesis by (simp add: jrun_append run_ws)
next
  case (val_object m)
  then show ?thesis using run_grammar(2) [OF val_object(2), of "[]"] by simp
next
  case val_number
  then show ?thesis using run_number [of v "[]"] assms(2) by (auto simp: jnumber_def int_part_def hd_append split: if_splits)
qed (use assms(2) in \<open>auto simp: jstring_def\<close>)

lemma object_text_runs:
  assumes "json_object_text t"
  shows "jrun JStart t = Some JDone"
proof -
  obtain w1 v w2 where t: "t = w1 @ v @ w2" "ws w1" "jvalue v" "ws w2" "hd v = CHR ''{''"
    using assms by (auto simp: json_object_text_def)
  then show ?thesis by (simp add: jrun_append run_ws_root object_value_runs)
qed

section \<open>Every accepted text is an object text\<close>

text \<open>An automaton run that reaches the end of the root splits at the end of each token.\<close>

abbreviation finishes :: "jconf \<Rightarrow> string \<Rightarrow> bool" where
  "finishes j cs \<equiv> jrun j cs = Some JDone"

lemma finishes_Cons: "finishes j (c # cs) \<longleftrightarrow> (\<exists>j'. jstep j c = Some j' \<and> finishes j' cs)"
  by (simp split: option.split)

lemma split_struct:
  "finishes (JStruct st K) cs \<Longrightarrow>
     \<exists>w c cs' j. cs = w @ c # cs' \<and> ws w \<and> struct_step st K c = Some j \<and> finishes j cs'"
proof (induction cs)
  case (Cons c cs)
  show ?case
  proof (cases "is_json_whitespace c")
    case True
    then have "finishes (JStruct st K) cs" using Cons.prems by simp
    then obtain w c' cs' j where "cs = w @ c' # cs'" "ws w" "struct_step st K c' = Some j" "finishes j cs'"
      using Cons.IH by blast
    then have "c # cs = (c # w) @ c' # cs' \<and> ws (c # w) \<and> struct_step st K c' = Some j \<and> finishes j cs'"
      using True by simp
    then show ?thesis by blast
  next
    case False
    then obtain j where "struct_step st K c = Some j" "finishes j cs"
      using Cons.prems by (auto split: option.splits)
    then have "c # cs = [] @ c # cs \<and> ws [] \<and> struct_step st K c = Some j \<and> finishes j cs" by simp
    then show ?thesis by blast
  qed
qed simp

lemma split_unicode:
  assumes "finishes (JStr (S_UNICODE 0) r K) cs"
  shows "\<exists>h1 h2 h3 h4 rest. cs = h1 # h2 # h3 # h4 # rest \<and> list_all is_hex_digit [h1, h2, h3, h4]
           \<and> finishes (JStr S_PLAIN r K) rest"
proof -
  obtain h1 c1 where 1: "cs = h1 # c1" "is_hex_digit h1" "finishes (JStr (S_UNICODE 1) r K) c1"
    using assms by (cases cs) (auto split: if_splits option.splits)
  obtain h2 c2 where 2: "c1 = h2 # c2" "is_hex_digit h2" "finishes (JStr (S_UNICODE 2) r K) c2"
    using 1(3) by (cases c1) (auto split: if_splits option.splits simp: numeral_2_eq_2)
  obtain h3 c3 where 3: "c2 = h3 # c3" "is_hex_digit h3" "finishes (JStr (S_UNICODE 3) r K) c3"
    using 2(3) by (cases c2) (auto split: if_splits option.splits simp: numeral_3_eq_3 numeral_2_eq_2)
  obtain h4 c4 where 4: "c3 = h4 # c4" "is_hex_digit h4" "finishes (JStr S_PLAIN r K) c4"
    using 3(3) by (cases c3) (auto split: if_splits option.splits)
  show ?thesis using 1 2 3 4 by auto
qed

lemma split_string:
  "finishes (JStr S_PLAIN r K) cs \<Longrightarrow>
     \<exists>b rest. cs = b @ CHR 0x22 # rest \<and> string_body b \<and> finishes (str_end r K) rest"
proof (induction cs rule: length_induct)
  case (1 cs)
  then obtain c cs' j where cs: "cs = c # cs'" "jstep (JStr S_PLAIN r K) c = Some j" "finishes j cs'"
    by (cases cs) (auto split: option.splits)
  note IH = 1(1)[rule_format]
  consider "c = CHR 0x22" | "c = CHR 0x5C" | "c \<noteq> CHR 0x22" "c \<noteq> CHR 0x5C" by blast
  then show ?case
  proof cases
    case 1
    then have "cs = [] @ CHR 0x22 # cs' \<and> finishes (str_end r K) cs'" using cs by simp
    then show ?thesis using body_nil by blast
  next
    case 2
    then have "finishes (JStr S_ESCAPE r K) cs'" using cs by simp
    then obtain e es j' where e: "cs' = e # es" "jstep (JStr S_ESCAPE r K) e = Some j'" "finishes j' es"
      by (cases cs') (auto split: option.splits)
    have esc: "is_json_escape e" using e(2) by (auto split: if_splits)
    show ?thesis
    proof (cases "e = CHR ''u''")
      case True
      then have "finishes (JStr (S_UNICODE 0) r K) es" using e esc by simp
      from split_unicode [OF this] obtain h1 h2 h3 h4 rest where
        h: "es = h1 # h2 # h3 # h4 # rest" "list_all is_hex_digit [h1, h2, h3, h4]" "finishes (JStr S_PLAIN r K) rest"
        by blast
      obtain b rest' where b: "rest = b @ CHR 0x22 # rest'" "string_body b" "finishes (str_end r K) rest'"
        using IH [of rest] h(1,3) e(1) cs(1) by auto
      have "cs = (CHR 0x5C # CHR ''u'' # h1 # h2 # h3 # h4 # b) @ CHR 0x22 # rest'"
        using cs(1) e(1) h(1) b(1) 2 True by simp
      then show ?thesis using body_unicode [OF h(2) b(2)] b(3) by blast
    next
      case False
      then have "finishes (JStr S_PLAIN r K) es" using e esc by simp
      then obtain b rest' where b: "es = b @ CHR 0x22 # rest'" "string_body b" "finishes (str_end r K) rest'"
        using IH [of es] e(1) cs(1) by auto
      have "cs = (CHR 0x5C # e # b) @ CHR 0x22 # rest'" using cs(1) e(1) b(1) 2 by simp
      then show ?thesis using body_escape [OF esc False b(2)] b(3) by blast
    qed
  next
    case 3
    then have p: "32 \<le> (of_char c :: nat)" "finishes (JStr S_PLAIN r K) cs'" using cs by (auto split: if_splits)
    then obtain b rest' where b: "cs' = b @ CHR 0x22 # rest'" "string_body b" "finishes (str_end r K) rest'"
      using IH [of cs'] cs(1) by auto
    have "cs = (c # b) @ CHR 0x22 # rest'" using cs(1) b(1) by simp
    then show ?thesis using body_plain [OF 3 p(1) b(2)] b(3) by blast
  qed
qed

fun num_tail :: "number_state \<Rightarrow> string \<Rightarrow> bool" where
  "num_tail EXPONENT_DIGITS x = list_all is_digit x"
| "num_tail EXPONENT_SIGN x = digits1 x"
| "num_tail EXPONENT x = (\<exists>sign d. x = sign @ d \<and> sign \<in> {[], ''+'', ''-''} \<and> digits1 d)"
| "num_tail FRACTION x = (\<exists>d e. x = d @ e \<and> list_all is_digit d \<and> exp_part e)"
| "num_tail FRACTION_POINT x = (\<exists>d e. x = d @ e \<and> digits1 d \<and> exp_part e)"
| "num_tail ZERO x = (\<exists>f e. x = f @ e \<and> frac_part f \<and> exp_part e)"
| "num_tail INTEGER x = (\<exists>d f e. x = d @ f @ e \<and> list_all is_digit d \<and> frac_part f \<and> exp_part e)"
| "num_tail AFTER_MINUS x = (\<exists>i f e. x = i @ f @ e \<and> int_part i \<and> frac_part f \<and> exp_part e)"

lemma num_tail_Nil: "num_complete n \<Longrightarrow> num_tail n []"
  by (auto simp: num_complete_def frac_part_def exp_part_def)

lemma exp_partI: "num_tail EXPONENT x \<Longrightarrow> c = CHR ''e'' \<or> c = CHR ''E'' \<Longrightarrow> exp_part (c # x)"
  by (auto simp: exp_part_def)

lemma frac_partI: "digits1 d \<Longrightarrow> frac_part (CHR ''.'' # d)"
  by (simp add: frac_part_def)

lemma parts_Nil [simp]: "frac_part []" "exp_part []"
  by (simp_all add: frac_part_def exp_part_def)

lemma num_tail_frac:
  assumes "num_tail FRACTION_POINT x"
  shows "\<exists>f e. CHR ''.'' # x = f @ e \<and> frac_part f \<and> exp_part e"
proof -
  obtain d e where "x = d @ e" "digits1 d" "exp_part e" using assms by auto
  then have "CHR ''.'' # x = (CHR ''.'' # d) @ e \<and> frac_part (CHR ''.'' # d) \<and> exp_part e"
    by (simp add: frac_partI)
  then show ?thesis by blast
qed

lemma num_tail_digits:
  assumes "num_tail INTEGER x" "is_digit c"
  shows "num_tail INTEGER (c # x)"
proof -
  obtain d f e where "x = d @ f @ e" "list_all is_digit d" "frac_part f" "exp_part e" using assms by auto
  then have "c # x = (c # d) @ f @ e \<and> list_all is_digit (c # d) \<and> frac_part f \<and> exp_part e" using assms by simp
  then show ?thesis unfolding num_tail.simps by blast
qed

lemma num_tail_int:
  assumes "num_tail INTEGER x" "is_digit19 c"
  shows "num_tail AFTER_MINUS (c # x)"
proof -
  obtain d f e where "x = d @ f @ e" "list_all is_digit d" "frac_part f" "exp_part e" using assms by auto
  then have "c # x = (c # d) @ f @ e \<and> int_part (c # d) \<and> frac_part f \<and> exp_part e" using assms by (simp add: int_part_def)
  then show ?thesis unfolding num_tail.simps by blast
qed

lemma num_tail_fraction:
  assumes "num_tail FRACTION x" "is_digit c"
  shows "num_tail FRACTION (c # x)" "num_tail FRACTION_POINT (c # x)"
proof -
  obtain d e where "x = d @ e" "list_all is_digit d" "exp_part e" using assms by auto
  then have d: "c # x = (c # d) @ e \<and> list_all is_digit (c # d) \<and> digits1 (c # d) \<and> exp_part e"
    using assms by (simp add: digits1_def)
  then show "num_tail FRACTION (c # x)" "num_tail FRACTION_POINT (c # x)"
    unfolding num_tail.simps by blast+
qed

lemma integer_tailI: "list_all is_digit d \<Longrightarrow> frac_part f \<Longrightarrow> exp_part e \<Longrightarrow> num_tail INTEGER (d @ f @ e)"
  by auto

lemma num_tail_Cons:
  assumes "num_step n c = Some n'" "num_tail n' x"
  shows "num_tail n (c # x)"
proof (cases n)
  case AFTER_MINUS
  show ?thesis
  proof (cases "c = CHR ''0''")
    case True
    then obtain f e where "x = f @ e" "frac_part f" "exp_part e" using assms AFTER_MINUS by auto
    then have "c # x = ''0'' @ f @ e \<and> int_part ''0'' \<and> frac_part f \<and> exp_part e" using True by (simp add: int_part_def)
    then show ?thesis unfolding AFTER_MINUS num_tail.simps by blast
  qed (use assms AFTER_MINUS num_tail_int in \<open>auto split: if_splits simp del: num_tail.simps\<close>)
next
  case ZERO
  consider "c = CHR ''.''" "n' = FRACTION_POINT" | "c = CHR ''e'' \<or> c = CHR ''E''" "n' = EXPONENT"
    using ZERO assms(1) by (auto split: if_splits)
  then show ?thesis
  proof cases
    case 1
    then show ?thesis using num_tail_frac assms(2) ZERO by simp
  next
    case 2
    then have "c # x = [] @ c # x \<and> frac_part [] \<and> exp_part (c # x)" using exp_partI assms(2) by simp
    then show ?thesis unfolding ZERO num_tail.simps by blast
  qed
next
  case INTEGER
  consider "is_digit c" "n' = INTEGER" | "c = CHR ''.''" "n' = FRACTION_POINT" | "c = CHR ''e'' \<or> c = CHR ''E''" "n' = EXPONENT"
    using INTEGER assms(1) by (auto split: if_splits)
  then show ?thesis
  proof cases
    case 1
    then show ?thesis using num_tail_digits assms(2) INTEGER by blast
  next
    case 2
    then obtain f e where "c # x = f @ e" "frac_part f" "exp_part e" using num_tail_frac assms(2) by blast
    then show ?thesis using integer_tailI [of "[]" f e] INTEGER by simp
  next
    case 3
    then have "exp_part (c # x)" using exp_partI assms(2) by blast
    then show ?thesis using integer_tailI [of "[]" "[]" "c # x"] INTEGER by simp
  qed
next
  case FRACTION_POINT
  then show ?thesis using assms num_tail_fraction by (auto split: if_splits simp del: num_tail.simps)
next
  case FRACTION
  consider "is_digit c" "n' = FRACTION" | "c = CHR ''e'' \<or> c = CHR ''E''" "n' = EXPONENT"
    using FRACTION assms(1) by (auto split: if_splits)
  then show ?thesis
  proof cases
    case 1
    then show ?thesis using num_tail_fraction(1) assms(2) FRACTION by blast
  next
    case 2
    then have "c # x = [] @ c # x \<and> list_all is_digit [] \<and> exp_part (c # x)" using exp_partI assms(2) by simp
    then show ?thesis unfolding FRACTION num_tail.simps by blast
  qed
next
  case EXPONENT
  consider "c = CHR ''+'' \<or> c = CHR ''-''" "n' = EXPONENT_SIGN" | "is_digit c" "n' = EXPONENT_DIGITS"
    using EXPONENT assms(1) by (auto split: if_splits)
  then show ?thesis
  proof cases
    case 1
    then have "c # x = [c] @ x \<and> [c] \<in> {[], ''+'', ''-''} \<and> digits1 x" using assms(2) by auto
    then show ?thesis unfolding EXPONENT num_tail.simps by blast
  next
    case 2
    then have "c # x = [] @ c # x \<and> [] \<in> {[], ''+'', ''-''} \<and> digits1 (c # x)" using assms(2) by (simp add: digits1_def)
    then show ?thesis unfolding EXPONENT num_tail.simps by blast
  qed
next
  case EXPONENT_SIGN
  then show ?thesis using assms by (auto split: if_splits simp: digits1_def)
next
  case EXPONENT_DIGITS
  then show ?thesis using assms by (auto split: if_splits)
qed

lemma split_number:
  "finishes (JNum n K) cs \<Longrightarrow> \<exists>x rest. cs = x @ rest \<and> num_tail n x \<and> finishes (after_value K) rest"
proof (induction cs arbitrary: n)
  case (Cons c cs)
  show ?case
  proof (cases "num_step n c")
    case (Some n')
    then have "finishes (JNum n' K) cs" using Cons.prems by simp
    then obtain x rest where "cs = x @ rest" "num_tail n' x" "finishes (after_value K) rest" using Cons.IH by blast
    then have "c # cs = (c # x) @ rest \<and> num_tail n (c # x) \<and> finishes (after_value K) rest"
      using num_tail_Cons [OF Some] by simp
    then show ?thesis by blast
  next
    case None
    then have "num_complete n" "finishes (after_value K) (c # cs)"
      using Cons.prems by (auto simp: plain_after_value split: if_splits option.splits)
    then have "c # cs = [] @ c # cs \<and> num_tail n [] \<and> finishes (after_value K) (c # cs)"
      using num_tail_Nil by simp
    then show ?thesis by blast
  qed
qed simp

lemma split_literal:
  "finishes (JLit xs K) cs \<Longrightarrow> xs \<noteq> [] \<Longrightarrow> \<exists>rest. cs = xs @ rest \<and> finishes (after_value K) rest"
proof (induction cs arbitrary: xs)
  case (Cons c cs)
  then obtain y ys where xs: "xs = y # ys" by (cases xs) auto
  show ?case
  proof (cases ys)
    case Nil
    then show ?thesis using xs Cons.prems by (auto split: if_splits)
  next
    case (Cons z zs)
    then show ?thesis using xs Cons.prems Cons.IH [of ys] by (auto split: if_splits)
  qed
qed simp

section \<open>Every finishing run is an object text\<close>

text \<open>What a value, the rest of an object and the rest of an array leave behind in a finishing run.\<close>

definition value_splits :: "string \<Rightarrow> bool" where
  "value_splits cs \<longleftrightarrow> (\<forall>c j K. value_start c K = Some j \<and> finishes j cs \<longrightarrow>
     (\<exists>v rest. cs = v @ rest \<and> jvalue (c # v) \<and> finishes (after_value K) rest))"

definition members_split :: "string \<Rightarrow> bool" where
  "members_split cs \<longleftrightarrow> (\<forall>K. finishes (JStruct OBJECT_KEY_AFTER_COMMA K) cs \<longrightarrow>
     (\<exists>m rest. cs = m @ CHR ''}'' # rest \<and> jmembers m \<and> finishes (after_value K) rest))"

definition elements_split :: "string \<Rightarrow> bool" where
  "elements_split cs \<longleftrightarrow> (\<forall>K. finishes (JStruct ARRAY_VALUE_AFTER_COMMA K) cs \<longrightarrow>
     (\<exists>e rest. cs = e @ CHR '']'' # rest \<and> jelements e \<and> finishes (after_value K) rest))"

lemma value_splitsD:
  "value_splits cs \<Longrightarrow> value_start c K = Some j \<Longrightarrow> finishes j cs \<Longrightarrow>
     \<exists>v rest. cs = v @ rest \<and> jvalue (c # v) \<and> finishes (after_value K) rest"
  by (simp add: value_splits_def)

text \<open>After the opening quote of a key: the member, and what follows it.\<close>

lemma split_member:
  assumes "finishes (JStr S_PLAIN ROLE_OBJECT_KEY (CT_OBJECT # K)) cs"
    and IH: "\<And>ys. length ys < length cs \<Longrightarrow> value_splits ys \<and> members_split ys"
    and "ws w1"
  shows "\<exists>m rest. cs = m @ CHR ''}'' # rest \<and> jmembers (w1 @ CHR 0x22 # m) \<and> finishes (after_value K) rest"
proof -
  obtain k c1 where k: "cs = k @ CHR 0x22 # c1" "string_body k" "finishes (JStruct OBJECT_COLON K) c1"
    using split_string [OF assms(1)] by auto
  obtain w2 c2 where w2: "c1 = w2 @ CHR '':'' # c2" "ws w2" "finishes (JStruct OBJECT_VALUE K) c2"
    using split_struct [OF k(3)] by (auto split: if_splits)
  obtain w3 c j c3 where w3: "c2 = w3 @ c # c3" "ws w3" "value_start c (CT_OBJECT # K) = Some j" "finishes j c3"
    using split_struct [OF w2(3)] by auto
  have l3: "length c3 < length cs" using k(1) w2(1) w3(1) by simp
  obtain v c4 where v: "c3 = v @ c4" "jvalue (c # v)" "finishes (JStruct OBJECT_COMMA_OR_END K) c4"
    using value_splitsD [OF conjunct1 [OF IH [OF l3]] w3(3,4)] by (simp only: after_value.simps) (elim exE conjE)
  obtain w4 x c5 j5 where w4: "c4 = w4 @ x # c5" "ws w4" "struct_step OBJECT_COMMA_OR_END K x = Some j5" "finishes j5 c5"
    using split_struct [OF v(3)] by blast
  have str: "jstring (CHR 0x22 # k @ [CHR 0x22])" using k(2) by (auto simp: jstring_def)
  have cs: "cs = k @ CHR 0x22 # w2 @ CHR '':'' # w3 @ c # v @ w4 @ x # c5"
    using k(1) w2(1) w3(1) v(1) w4(1) by simp
  consider "x = CHR ''}''" "finishes (after_value K) c5"
    | "x = CHR '',''" "finishes (JStruct OBJECT_KEY_AFTER_COMMA K) c5"
    using w4(3,4) by (auto split: if_splits)
  then show ?thesis
  proof cases
    case 1
    have "jmembers (w1 @ CHR 0x22 # (k @ CHR 0x22 # w2 @ CHR '':'' # w3 @ (c # v) @ w4))"
      using member_last [OF assms(3) str w2(2) w3(2) v(2) w4(2)] by simp
    then show ?thesis using cs 1 by (intro exI2 [of _ "k @ CHR 0x22 # w2 @ CHR '':'' # w3 @ (c # v) @ w4" c5]) auto
  next
    case 2
    have "length c5 < length cs" using cs by simp
    then obtain m rest where m: "c5 = m @ CHR ''}'' # rest" "jmembers m" "finishes (after_value K) rest"
      using IH 2(2) unfolding members_split_def by blast
    have "jmembers (w1 @ CHR 0x22 # (k @ CHR 0x22 # w2 @ CHR '':'' # w3 @ (c # v) @ w4 @ CHR '','' # m))"
      using member_more [OF assms(3) str w2(2) w3(2) v(2) w4(2) m(2)] by simp
    then show ?thesis using cs 2(1) m
      by (intro exI2 [of _ "k @ CHR 0x22 # w2 @ CHR '':'' # w3 @ (c # v) @ w4 @ CHR '','' # m" rest]) auto
  qed
qed

text \<open>From the first byte of an element of an array to the array's end.\<close>

lemma split_element:
  assumes "value_start c (CT_ARRAY # K) = Some j" "finishes j cs"
    and IH: "value_splits cs" "\<And>ys. length ys < length cs \<Longrightarrow> elements_split ys"
    and "ws w1"
  shows "\<exists>e rest. cs = e @ CHR '']'' # rest \<and> jelements (w1 @ c # e) \<and> finishes (after_value K) rest"
proof -
  obtain v c4 where v: "cs = v @ c4" "jvalue (c # v)" "finishes (JStruct ARRAY_COMMA_OR_END K) c4"
    using value_splitsD [OF IH(1) assms(1,2)] by (simp only: after_value.simps) (elim exE conjE)
  obtain w2 x c5 j5 where w2: "c4 = w2 @ x # c5" "ws w2" "struct_step ARRAY_COMMA_OR_END K x = Some j5" "finishes j5 c5"
    using split_struct [OF v(3)] by blast
  have cs: "cs = v @ w2 @ x # c5" using v(1) w2(1) by simp
  consider "x = CHR '']''" "finishes (after_value K) c5"
    | "x = CHR '',''" "finishes (JStruct ARRAY_VALUE_AFTER_COMMA K) c5"
    using w2(3,4) by (auto split: if_splits)
  then show ?thesis
  proof cases
    case 1
    have "jelements (w1 @ c # (v @ w2))" using element_last [OF assms(5) v(2) w2(2)] by simp
    then show ?thesis using cs 1 by (intro exI2 [of _ "v @ w2" c5]) auto
  next
    case 2
    have "length c5 < length cs" using cs by simp
    then obtain e rest where e: "c5 = e @ CHR '']'' # rest" "jelements e" "finishes (after_value K) rest"
      using IH(2) 2(2) unfolding elements_split_def by blast
    have "jelements (w1 @ c # (v @ w2 @ CHR '','' # e))" using element_more [OF assms(5) v(2) w2(2) e(2)] by simp
    then show ?thesis using cs 2(1) e by (intro exI2 [of _ "v @ w2 @ CHR '','' # e" rest]) auto
  qed
qed

lemma split_object_rest:
  assumes "finishes (JStruct OBJECT_KEY_OR_END K) cs"
    and IH: "\<And>ys. length ys < length cs \<Longrightarrow> value_splits ys \<and> members_split ys"
  shows "\<exists>m rest. cs = m @ CHR ''}'' # rest \<and> (ws m \<or> jmembers m) \<and> finishes (after_value K) rest"
proof -
  obtain w c c1 j where w: "cs = w @ c # c1" "ws w" "struct_step OBJECT_KEY_OR_END K c = Some j" "finishes j c1"
    using split_struct [OF assms(1)] by blast
  consider "c = CHR ''}''" "j = after_value K" | "c = CHR 0x22" "j = JStr S_PLAIN ROLE_OBJECT_KEY (CT_OBJECT # K)"
    using w(3) by (auto split: if_splits)
  then show ?thesis
  proof cases
    case 1
    then show ?thesis using w(1,2,4) by (intro exI2 [of _ w c1]) simp
  next
    case 2
    have fin: "finishes (JStr S_PLAIN ROLE_OBJECT_KEY (CT_OBJECT # K)) c1" using 2 w(4) by simp
    have "\<And>ys. length ys < length c1 \<Longrightarrow> value_splits ys \<and> members_split ys" using IH w(1) by simp
    from split_member [OF fin this w(2)] obtain m rest where
      "c1 = m @ CHR ''}'' # rest" "jmembers (w @ CHR 0x22 # m)" "finishes (after_value K) rest" by blast
    then show ?thesis using w(1) 2 by (intro exI2 [of _ "w @ CHR 0x22 # m" rest]) auto
  qed
qed

lemma split_array_rest:
  assumes "finishes (JStruct ARRAY_VALUE_OR_END K) cs"
    and IH: "\<And>ys. length ys < length cs \<Longrightarrow> value_splits ys \<and> elements_split ys"
  shows "\<exists>e rest. cs = e @ CHR '']'' # rest \<and> (ws e \<or> jelements e) \<and> finishes (after_value K) rest"
proof -
  obtain w c c1 j where w: "cs = w @ c # c1" "ws w" "struct_step ARRAY_VALUE_OR_END K c = Some j" "finishes j c1"
    using split_struct [OF assms(1)] by blast
  consider "c = CHR '']''" "j = after_value K" | "value_start c (CT_ARRAY # K) = Some j"
    using w(3) by (cases "c = CHR '']''") simp_all
  then show ?thesis
  proof cases
    case 1
    then show ?thesis using w(1,2,4) by (intro exI2 [of _ w c1]) simp
  next
    case 2
    have "value_splits c1" "\<And>ys. length ys < length c1 \<Longrightarrow> elements_split ys" using IH w(1) by simp_all
    from split_element [OF 2 w(4) this w(2)] obtain e rest where
      "c1 = e @ CHR '']'' # rest" "jelements (w @ c # e)" "finishes (after_value K) rest" by blast
    then show ?thesis using w(1) by (intro exI2 [of _ "w @ c # e" rest]) auto
  qed
qed

lemma value_splitsI:
  assumes IH: "\<And>ys. length ys < length cs \<Longrightarrow> value_splits ys \<and> members_split ys \<and> elements_split ys"
  shows "value_splits cs"
  unfolding value_splits_def
proof (intro allI impI, elim conjE)
  fix c j K assume start: "value_start c K = Some j" and fin: "finishes j cs"
  have lit: "\<exists>v rest. cs = v @ rest \<and> jvalue (c # v) \<and> finishes (after_value K) rest"
    if "j = JLit xs K" "c # xs \<in> {''true'', ''false'', ''null''}" "xs \<noteq> []" for xs
    using split_literal [of xs K cs] that fin val_literal [of "c # xs"] by blast
  have num: "\<exists>v rest. cs = v @ rest \<and> jvalue (c # v) \<and> finishes (after_value K) rest"
    if "j = JNum n K" "\<And>x. num_tail n x \<Longrightarrow> jnumber (c # x)" for n
    using split_number [of n K cs] that fin val_number by metis
  have minus: "jnumber (CHR ''-'' # x)" if "num_tail AFTER_MINUS x" for x
  proof -
    obtain i f e where "x = i @ f @ e" "int_part i" "frac_part f" "exp_part e" using \<open>num_tail AFTER_MINUS x\<close> by auto
    then have "CHR ''-'' # x = ''-'' @ i @ f @ e \<and> ''-'' \<in> {[], ''-''} \<and> int_part i \<and> frac_part f \<and> exp_part e" by simp
    then show ?thesis unfolding jnumber_def by blast
  qed
  have plain: "jnumber y" if "num_tail AFTER_MINUS y" for y
  proof -
    obtain i f e where "y = i @ f @ e" "int_part i" "frac_part f" "exp_part e" using \<open>num_tail AFTER_MINUS y\<close> by auto
    then have "y = [] @ i @ f @ e \<and> [] \<in> {[], ''-''} \<and> int_part i \<and> frac_part f \<and> exp_part e" by simp
    then show ?thesis unfolding jnumber_def by blast
  qed
  have zero: "jnumber (CHR ''0'' # x)" if "num_tail ZERO x" for x
    using plain num_tail_Cons [of AFTER_MINUS "CHR ''0''" ZERO x] that by simp
  have int: "jnumber (c # x)" if "num_tail INTEGER x" "is_digit19 c" for x
    using plain num_tail_int [OF that] by simp
  consider "c = CHR ''{''" "j = JStruct OBJECT_KEY_OR_END K" | "c = CHR ''[''" "j = JStruct ARRAY_VALUE_OR_END K"
    | "c = CHR 0x22" "j = JStr S_PLAIN ROLE_VALUE K" | "c = CHR ''-''" "j = JNum AFTER_MINUS K"
    | "c = CHR ''0''" "j = JNum ZERO K" | "is_digit19 c" "j = JNum INTEGER K"
    | xs where "j = JLit xs K" "c # xs \<in> {''true'', ''false'', ''null''}" "xs \<noteq> []"
    using start by (auto simp: value_start_def split: if_splits)
  then show "\<exists>v rest. cs = v @ rest \<and> jvalue (c # v) \<and> finishes (after_value K) rest"
  proof cases
    case 1
    obtain m rest where m: "cs = m @ CHR ''}'' # rest" "ws m \<or> jmembers m" "finishes (after_value K) rest"
      using split_object_rest [of K cs] IH fin 1 by blast
    then have "jvalue (c # m @ ''}'')" using val_object_empty val_object 1 by auto
    then show ?thesis using m by (intro exI2 [of _ "m @ ''}''" rest]) auto
  next
    case 2
    obtain e rest where e: "cs = e @ CHR '']'' # rest" "ws e \<or> jelements e" "finishes (after_value K) rest"
      using split_array_rest [of K cs] IH fin 2 by blast
    then have "jvalue (c # e @ '']'')" using val_array_empty val_array 2 by auto
    then show ?thesis using e by (intro exI2 [of _ "e @ '']''" rest]) auto
  next
    case 3
    obtain b rest where b: "cs = b @ CHR 0x22 # rest" "string_body b" "finishes (after_value K) rest"
      using split_string [of ROLE_VALUE K cs] fin 3 by auto
    then have "jvalue (c # b @ [CHR 0x22])" using 3 by (auto intro!: val_string simp: jstring_def)
    then show ?thesis using b by (intro exI2 [of _ "b @ [CHR 0x22]" rest]) auto
  next
    case 4
    then show ?thesis using num minus by blast
  next
    case 5
    then show ?thesis using num zero by blast
  next
    case 6
    then show ?thesis using num int by blast
  next
    case 7
    then show ?thesis using lit by blast
  qed
qed

lemma all_split: "value_splits cs \<and> members_split cs \<and> elements_split cs"
proof (induction cs rule: length_induct)
  case (1 cs)
  then have IH: "\<And>ys. length ys < length cs \<Longrightarrow> value_splits ys \<and> members_split ys \<and> elements_split ys" by blast
  have "members_split cs"
    unfolding members_split_def
  proof (intro allI impI)
    fix K assume "finishes (JStruct OBJECT_KEY_AFTER_COMMA K) cs"
    from split_struct [OF this] obtain w c1 where w: "cs = w @ CHR 0x22 # c1" "ws w"
        "finishes (JStr S_PLAIN ROLE_OBJECT_KEY (CT_OBJECT # K)) c1"
      by (auto split: if_splits)
    have "\<And>ys. length ys < length c1 \<Longrightarrow> value_splits ys \<and> members_split ys" using IH w(1) by simp
    from split_member [OF w(3) this w(2)] obtain m rest where
      "c1 = m @ CHR ''}'' # rest" "jmembers (w @ CHR 0x22 # m)" "finishes (after_value K) rest" by blast
    then show "\<exists>m rest. cs = m @ CHR ''}'' # rest \<and> jmembers m \<and> finishes (after_value K) rest"
      using w(1) by (intro exI2 [of _ "w @ CHR 0x22 # m" rest]) auto
  qed
  moreover have "elements_split cs"
    unfolding elements_split_def
  proof (intro allI impI)
    fix K assume "finishes (JStruct ARRAY_VALUE_AFTER_COMMA K) cs"
    from split_struct [OF this] obtain w c j c1 where w: "cs = w @ c # c1" "ws w"
        "value_start c (CT_ARRAY # K) = Some j" "finishes j c1"
      by auto
    have "value_splits c1" "\<And>ys. length ys < length c1 \<Longrightarrow> elements_split ys" using IH w(1) by simp_all
    from split_element [OF w(3,4) this w(2)] obtain e rest where
      "c1 = e @ CHR '']'' # rest" "jelements (w @ c # e)" "finishes (after_value K) rest" by blast
    then show "\<exists>e rest. cs = e @ CHR '']'' # rest \<and> jelements e \<and> finishes (after_value K) rest"
      using w(1) by (intro exI2 [of _ "w @ c # e" rest]) auto
  qed
  ultimately show ?case using value_splitsI [OF IH] by blast
qed

lemma done_ws: "finishes JDone cs \<Longrightarrow> ws cs"
  by (induction cs) (auto split: if_splits option.splits)

lemma start_split:
  "finishes JStart cs \<Longrightarrow> \<exists>w cs'. cs = w @ CHR ''{'' # cs' \<and> ws w \<and> finishes (JStruct OBJECT_KEY_OR_END []) cs'"
proof (induction cs)
  case (Cons c cs)
  show ?case
  proof (cases "is_json_whitespace c")
    case True
    then obtain w cs' where "cs = w @ CHR ''{'' # cs'" "ws w" "finishes (JStruct OBJECT_KEY_OR_END []) cs'"
      using Cons by auto
    then show ?thesis using True by (intro exI2 [of _ "c # w" "cs'"]) auto
  next
    case False
    then show ?thesis using Cons.prems by (intro exI2 [of _ "[]" cs]) (auto split: if_splits option.splits)
  qed
qed simp

theorem run_is_object_text: "finishes JStart t \<longleftrightarrow> json_object_text t"
proof
  assume "finishes JStart t"
  then obtain w1 cs where t: "t = w1 @ CHR ''{'' # cs" "ws w1" "finishes (JStruct OBJECT_KEY_OR_END []) cs"
    using start_split by blast
  then obtain v rest where v: "cs = v @ rest" "jvalue (CHR ''{'' # v)" "finishes JDone rest"
  proof -
    have "value_start (CHR ''{'') [] = Some (JStruct OBJECT_KEY_OR_END [])" by (simp add: value_start_def)
    then show thesis using all_split [of cs] t(3) that unfolding value_splits_def by (metis after_value.simps(1))
  qed
  then have "t = w1 @ (CHR ''{'' # v) @ rest \<and> ws w1 \<and> jvalue (CHR ''{'' # v) \<and> ws rest \<and> hd (CHR ''{'' # v) = CHR ''{''"
    using t done_ws by simp
  then show "json_object_text t" unfolding json_object_text_def by blast
qed (rule object_text_runs)

section \<open>Every accepted prefix can be finished\<close>

text \<open>The configurations of the automaton that well-formed matcher states stand for.\<close>

fun conf_ok :: "jconf \<Rightarrow> bool" where
  "conf_ok (JStr m r K) \<longleftrightarrow> (r = ROLE_OBJECT_KEY \<longrightarrow> K \<noteq> [] \<and> hd K = CT_OBJECT)
     \<and> (case m of S_UNICODE n \<Rightarrow> n < 4 | _ \<Rightarrow> True)"
| "conf_ok (JNum n K) \<longleftrightarrow> K \<noteq> []"
| "conf_ok (JLit xs K) \<longleftrightarrow> xs \<noteq> []"
| "conf_ok _ \<longleftrightarrow> True"

definition can_finish :: "jconf \<Rightarrow> bool" where
  "can_finish j \<longleftrightarrow> (\<exists>cs. finishes j cs)"

lemma can_finish_run: "jrun j xs = Some j' \<Longrightarrow> can_finish j' \<Longrightarrow> can_finish j"
  by (metis can_finish_def jrun_append option.simps(5))

lemma can_finish_step: "jstep j c = Some j' \<Longrightarrow> can_finish j' \<Longrightarrow> can_finish j"
  using can_finish_run [of j "[c]" j'] by simp

lemma after_value_finishes: "can_finish (after_value K)"
proof (induction K)
  case Nil
  have "finishes (after_value []) []" by simp
  then show ?case unfolding can_finish_def by blast
next
  case (Cons t K)
  then show ?case
    by (cases t) (auto intro: can_finish_step [of _ "CHR ''}''"] can_finish_step [of _ "CHR '']''"])
qed

lemma closing_delimiters [simp]: "is_json_delimiter (CHR ''}'')" "is_json_delimiter (CHR '']'')"
  by (simp_all add: is_json_delimiter_def)

lemma complete_number_finishes: "num_complete n \<Longrightarrow> K \<noteq> [] \<Longrightarrow> can_finish (JNum n K)"
proof (cases K)
  case (Cons t K')
  assume n: "num_complete n"
  have "num_step n (CHR ''}'') = None" "num_step n (CHR '']'') = None" by (cases n; simp)+
  then have "t = CT_OBJECT \<Longrightarrow> jstep (JNum n K) (CHR ''}'') = Some (after_value K')"
    "t = CT_ARRAY \<Longrightarrow> jstep (JNum n K) (CHR '']'') = Some (after_value K')"
    using n Cons by simp_all
  then show ?thesis using can_finish_step after_value_finishes by (cases t) metis+
qed simp

lemma number_finishes:
  assumes "K \<noteq> []" shows "can_finish (JNum n K)"
proof (cases "num_complete n")
  case False
  have "is_digit (CHR ''0'')" by (simp add: is_digit_def)
  with False obtain n' where "num_step n (CHR ''0'') = Some n'" "num_complete n'"
    by (cases n) (auto simp: num_complete_def)
  then have "jstep (JNum n K) (CHR ''0'') = Some (JNum n' K)" by simp
  then show ?thesis using complete_number_finishes [OF \<open>num_complete n'\<close> assms] by (rule can_finish_step)
qed (simp add: complete_number_finishes assms)

lemma struct_finishes: "can_finish (JStruct st K)"
proof -
  have val: "can_finish (JStruct st' K)" if "st' \<in> {OBJECT_VALUE, ARRAY_VALUE_AFTER_COMMA}" for st'
  proof (rule can_finish_step)
    show "jstep (JStruct st' K) (CHR ''0'') = Some (JNum ZERO (state_type st' # K))"
      using that by (auto simp: value_start_def is_json_whitespace_def state_type_def)
  qed (simp add: number_finishes)
  have colon: "can_finish (JStruct OBJECT_COLON K)"
    using val [of OBJECT_VALUE] can_finish_step [of "JStruct OBJECT_COLON K" "CHR '':''" "JStruct OBJECT_VALUE K"] by simp
  have key: "can_finish (JStruct OBJECT_KEY_AFTER_COMMA K)"
    using can_finish_run [OF _ colon, of "JStruct OBJECT_KEY_AFTER_COMMA K" "[CHR 0x22, CHR 0x22]"] by simp
  have "can_finish (JStruct st' K)" if "st' \<in> {OBJECT_KEY_OR_END, OBJECT_COMMA_OR_END}" for st'
    by (rule can_finish_step [OF _ after_value_finishes, of _ "CHR ''}''"]) (use that in auto)
  moreover have "can_finish (JStruct st' K)" if "st' \<in> {ARRAY_VALUE_OR_END, ARRAY_COMMA_OR_END}" for st'
    by (rule can_finish_step [OF _ after_value_finishes, of _ "CHR '']''"]) (use that in auto)
  ultimately show ?thesis using val colon key by (cases st) auto
qed

lemma plain_string_finishes:
  assumes "r = ROLE_OBJECT_KEY \<longrightarrow> K \<noteq> [] \<and> hd K = CT_OBJECT"
  shows "can_finish (JStr S_PLAIN r K)"
proof -
  have "can_finish (str_end r K)" by (cases r) (simp_all add: struct_finishes after_value_finishes)
  then show ?thesis using can_finish_step [of "JStr S_PLAIN r K" "CHR 0x22" "str_end r K"] by simp
qed

lemma string_finishes:
  assumes "r = ROLE_OBJECT_KEY \<longrightarrow> K \<noteq> [] \<and> hd K = CT_OBJECT" "case m of S_UNICODE n \<Rightarrow> n < 4 | _ \<Rightarrow> True"
  shows "can_finish (JStr m r K)"
proof (cases m)
  case S_ESCAPE
  then show ?thesis
    using plain_string_finishes [OF assms(1)] can_finish_step [of "JStr S_ESCAPE r K" "CHR ''n''" "JStr S_PLAIN r K"]
    by (simp add: is_json_escape_def)
next
  case (S_UNICODE n)
  have hex: "is_hex_digit (CHR ''0'')" by (simp add: is_hex_digit_def)
  have "n = 0 \<or> n = 1 \<or> n = 2 \<or> n = 3" using assms(2) S_UNICODE by auto
  then have "jrun (JStr (S_UNICODE n) r K) (replicate (4 - n) (CHR ''0'')) = Some (JStr S_PLAIN r K)"
    by (elim disjE) (simp_all add: hex numeral_eq_Suc)
  then show ?thesis using plain_string_finishes [OF assms(1)] can_finish_run unfolding S_UNICODE by blast
qed (simp add: plain_string_finishes assms(1))

lemma literal_run: "xs \<noteq> [] \<Longrightarrow> jrun (JLit xs K) xs = Some (after_value K)"
proof (induction xs)
  case (Cons x xs)
  then show ?case by (cases xs) simp_all
qed simp

theorem conf_ok_finishes:
  assumes "conf_ok j"
  shows "can_finish j"
proof (cases j)
  case JStart
  then show ?thesis
    using can_finish_step [of JStart "CHR ''{''" "JStruct OBJECT_KEY_OR_END []"] struct_finishes by simp
next
  case JDone
  have "finishes JDone []" by simp
  then show ?thesis using JDone unfolding can_finish_def by blast
next
  case (JLit xs K)
  then show ?thesis using assms can_finish_run [OF literal_run after_value_finishes] by simp
qed (use assms struct_finishes string_finishes number_finishes in auto)

lemma wf_conf_ok:
  assumes "wf_state s"
  shows "conf_ok (conf_of s)"
proof (cases "containers s")
  case Nil
  then show ?thesis by (simp add: conf_of_def)
next
  case (Cons f fs)
  then show ?thesis using assms
    by (cases "parse_mode s") (auto simp: conf_of_def wf_state_def string_mode_of_def literal_ok_def)
qed

end
