(* ===== verification/Json_Matcher.thy ===== *)
theory Json_Matcher imports Json_Language "HOL-Library.Sublist" begin

text \<open>
  Runs of the matcher of \<open>Json_Grammar\<close> over tokens: which tokens a reached state accepts, when its output
  is complete, how snapshots restore it, how a batch of states advances, and when the reasoning phase ends.
\<close>



section \<open>Runs of the matcher\<close>

text \<open>\<open>json_run g r out s\<close>: the state \<open>s\<close> is reached from \<open>initial_state(r)\<close> of the grammar \<open>g\<close> by accepted
  tokens; \<open>out\<close> is the output bytes so far, the pieces of the tokens that are neither stop tokens nor part
  of the reasoning phase.\<close>

definition token_output :: "json_grammar \<Rightarrow> json_state \<Rightarrow> token_id \<Rightarrow> string" where
  "token_output g s t =
    (if t \<in> set (stop_token_ids g) \<or> reasoning_phase s then [] else token_pieces g ! nat t)"

inductive json_run :: "json_grammar \<Rightarrow> bool \<Rightarrow> string \<Rightarrow> json_state \<Rightarrow> bool" for g r where
  run_init: "json_run g r [] (initial_state g r)"
| run_token: "json_run g r out s \<Longrightarrow> accept_token s t = (True, s') \<Longrightarrow> json_run g r (out @ token_output g s t) s'"

inductive_cases json_runE: "json_run g r out s"

definition json_prefix :: "string \<Rightarrow> bool" where
  "json_prefix b \<longleftrightarrow> (\<exists>cs. json_object_text (b @ cs))"

text \<open>What the matcher promises about the next token after the output \<open>out\<close>.\<close>

definition token_in_vocab :: "json_grammar \<Rightarrow> token_id \<Rightarrow> bool" where
  "token_in_vocab g t \<longleftrightarrow> 0 \<le> t \<and> t < int (vocab_size g)"

definition allowed_next :: "json_grammar \<Rightarrow> string \<Rightarrow> token_id \<Rightarrow> bool" where
  "allowed_next g out t \<longleftrightarrow> token_in_vocab g t \<and>
    (if t \<in> set (stop_token_ids g) then json_object_text out
     else token_pieces g ! nat t \<noteq> [] \<and> \<not> (json_object_text out \<and> stop_token_ids g \<noteq> [])
        \<and> json_prefix (out @ token_pieces g ! nat t))"

section \<open>One token\<close>

lemma conf_done: "conf_of s = JDone \<longleftrightarrow> root_complete s"
  by (auto simp: conf_of_def split: list.split parse_mode.split)

lemma wf_done_mode: "wf_state s \<Longrightarrow> root_complete s \<Longrightarrow> parse_mode s = PM_NONE"
  by (auto simp: wf_state_def)

lemma copy_trial_with_tokens: "copy_trial_state s = with_tokens [] s"
  by (simp add: copy_trial_state_def with_tokens_def)

lemma accept_piece_tokens: "accept_piece (with_tokens ts s) p = map_prod id (with_tokens ts) (accept_piece s p)"
  by (simp add: accept_piece_def accept_bytes_tokens)

lemma trial_piece [simp]: "can_accept_piece s p = fst (accept_piece s p)"
  by (simp add: can_accept_piece_def copy_trial_with_tokens accept_piece_tokens)

lemma trial_token [simp]: "can_accept_token s t = fst (accept_token s t)"
proof -
  have "fst (accept_token (with_tokens [] s) t) = fst (accept_token s t)"
    by (simp add: accept_token_def accept_piece_tokens Let_def split: option.split bool.split prod.split)
  then show ?thesis by (simp add: can_accept_token_def copy_trial_with_tokens)
qed

text \<open>An accepted token is committed at the end of the list, and the grammar, the validity and the reasoning
  flag of the state stay.\<close>

lemma accept_piece_run:
  assumes "wf_state s" "\<not> reasoning_phase s" "valid s" "grammar s = Some g" "p \<noteq> []"
  shows "(case jrun (conf_of s) p of
            None \<Rightarrow> fst (accept_piece s p) = False
          | Some j \<Rightarrow> \<exists>s'. accept_piece s p = (True, s') \<and> conf_of s' = j \<and> wf_state s' \<and> same_control s s')"
  using accept_bytes_run [OF assms(1,2), of p] assms(3-5) by (auto simp: accept_piece_def split: option.splits)

lemma commit_conf [simp]: "conf_of (commit_token t s) = conf_of s" "wf_state (commit_token t s) = wf_state s"
  by (simp_all add: commit_token_def conf_of_def string_mode_of_def wf_state_def literal_ok_def
      cong: list.case_cong parse_mode.case_cong)

lemma commit_fields [simp]:
  "grammar (commit_token t s) = grammar s" "valid (commit_token t s) = valid s"
  "reasoning_phase (commit_token t s) = reasoning_phase s" "reasoning_enabled (commit_token t s) = reasoning_enabled s"
  "reasoning_marker_index (commit_token t s) = reasoning_marker_index s"
  "committed_token_ids (commit_token t s) = committed_token_ids s @ [t]"
  "root_complete (commit_token t s) = root_complete s"
  by (simp_all add: commit_token_def)

lemma index_conf [simp]:
  "conf_of (s\<lparr>reasoning_marker_index := i\<rparr>) = conf_of s" "wf_state (s\<lparr>reasoning_marker_index := i\<rparr>) = wf_state s"
  by (simp_all add: conf_of_def string_mode_of_def wf_state_def literal_ok_def cong: list.case_cong parse_mode.case_cong)

lemma accept_reasoning_inv:
  assumes "wf_state s" "conf_of s = JStart"
  shows "wf_state (accept_reasoning_token g s t) \<and> conf_of (accept_reasoning_token g s t) = JStart
    \<and> grammar (accept_reasoning_token g s t) = grammar s \<and> valid (accept_reasoning_token g s t) = valid s
    \<and> reasoning_enabled (accept_reasoning_token g s t) = reasoning_enabled s
    \<and> committed_token_ids (accept_reasoning_token g s t) = committed_token_ids s @ [t]"
proof -
  have reset: "wf_state (s\<lparr>reasoning_phase := False, reasoning_marker_index := 0, containers := [],
      parse_mode := PM_NONE, root_started := False, root_complete := False\<rparr>)"
    "conf_of (s\<lparr>reasoning_phase := False, reasoning_marker_index := 0, containers := [],
      parse_mode := PM_NONE, root_started := False, root_complete := False\<rparr>) = JStart"
    by (simp_all add: wf_state_def conf_of_def)
  show ?thesis using assms reset by (simp add: accept_reasoning_token_def Let_def)
qed

lemma accept_token_plain:
  assumes "wf_state s" "valid s" "grammar s = Some g" "\<not> reasoning_phase s" "token_in_vocab g t"
    and "t \<notin> set (stop_token_ids g)"
  shows "if root_complete s \<and> stop_token_ids g \<noteq> [] \<or> token_pieces g ! nat t = [] then accept_token s t = (False, s)
    else case jrun (conf_of s) (token_pieces g ! nat t) of
        None \<Rightarrow> fst (accept_token s t) = False
      | Some j \<Rightarrow> \<exists>s'. accept_token s t = (True, commit_token t s') \<and> conf_of s' = j \<and> wf_state s' \<and> same_control s s'"
proof -
  let ?p = "token_pieces g ! nat t"
  have step: "accept_token s t =
     (if root_complete s \<and> stop_token_ids g \<noteq> [] \<or> ?p = [] then (False, s)
      else case accept_piece s ?p of (False, s') \<Rightarrow> (False, s') | (True, s') \<Rightarrow> (True, commit_token t s'))"
    using assms wf_done_mode [OF assms(1)] by (auto simp: accept_token_def token_in_vocab_def Let_def)
  show ?thesis
  proof (cases "root_complete s \<and> stop_token_ids g \<noteq> [] \<or> ?p = []")
    case True
    then show ?thesis using step by simp
  next
    case False
    then have "?p \<noteq> []" by simp
    from accept_piece_run [OF assms(1,4,2,3) this] show ?thesis
      using False step by (auto split: option.splits prod.splits bool.splits)
  qed
qed

lemma accept_token_stop:
  assumes "wf_state s" "valid s" "grammar s = Some g" "token_in_vocab g t" "t \<in> set (stop_token_ids g)"
  shows "accept_token s t = (if \<not> reasoning_phase s \<and> root_complete s then (True, commit_token t s) else (False, s))"
  using assms wf_done_mode [OF assms(1)] by (auto simp: accept_token_def token_in_vocab_def)

lemma accept_token_reasoning:
  assumes "valid s" "grammar s = Some g" "token_in_vocab g t" "t \<notin> set (stop_token_ids g)" "reasoning_phase s"
  shows "accept_token s t = (True, accept_reasoning_token g s t)"
  using assms by (auto simp: accept_token_def token_in_vocab_def)

lemma accept_token_vocab: "grammar s = Some g \<Longrightarrow> accept_token s t = (True, s') \<Longrightarrow> token_in_vocab g t"
  by (auto simp: accept_token_def token_in_vocab_def split: if_splits)

section \<open>The invariant of a run\<close>

lemma run_invariant:
  "json_run g r out s \<Longrightarrow> wf_state s \<and> valid s \<and> grammar s = Some g \<and> reasoning_enabled s = r
     \<and> jrun JStart out = Some (conf_of s) \<and> (reasoning_phase s \<longrightarrow> conf_of s = JStart \<and> out = [])"
proof (induction rule: json_run.induct)
  case run_init
  have "conf_of (initial_state g r) = JStart" "wf_state (initial_state g r)" by (simp_all add: wf_initial)
  moreover have "valid (initial_state g r) \<and> grammar (initial_state g r) = Some g \<and> reasoning_enabled (initial_state g r) = r"
    by (simp add: initial_state_def default_state_def)
  ultimately show ?case by simp
next
  case (run_token out s t s')
  then have inv: "wf_state s" "valid s" "grammar s = Some g" and vocab: "token_in_vocab g t"
    using accept_token_vocab by auto
  show ?case
  proof (cases "t \<in> set (stop_token_ids g)")
    case True
    then show ?thesis
      using accept_token_stop [OF inv vocab True] run_token by (auto simp: token_output_def split: if_splits)
  next
    case False
    show ?thesis
    proof (cases "reasoning_phase s")
      case True
      have "s' = accept_reasoning_token g s t" using accept_token_reasoning [OF inv(2,3) vocab False True] run_token.hyps by simp
      then show ?thesis
        using accept_reasoning_inv [OF inv(1), of g t] run_token.IH True by (simp add: token_output_def)
    next
      case no: False
      obtain s1 where "s' = commit_token t s1" "jrun (conf_of s) (token_pieces g ! nat t) = Some (conf_of s1)"
          "wf_state s1" "same_control s s1"
        using accept_token_plain [OF inv no vocab False] run_token.hyps by (auto split: if_splits option.splits)
      then show ?thesis
        using run_token.IH False no by (simp add: token_output_def jrun_append same_control_def)
    qed
  qed
qed

lemmas run_wf = run_invariant [THEN conjunct1]

lemma run_fields:
  assumes "json_run g r out s"
  shows "valid s" "grammar s = Some g" "reasoning_enabled s = r" "jrun JStart out = Some (conf_of s)"
    "reasoning_phase s \<Longrightarrow> conf_of s = JStart" "reasoning_phase s \<Longrightarrow> out = []"
  using run_invariant [OF assms] by auto

lemma run_complete: "json_run g r out s \<Longrightarrow> root_complete s \<longleftrightarrow> json_object_text out"
  using run_fields(4) [of g r out s] by (simp add: conf_done [symmetric] run_is_object_text [symmetric])

lemma run_can_finish:
  assumes "json_run g r out s" "jrun (conf_of s) p = Some j"
  shows "conf_ok j"
proof -
  have "jrun (conf_of (initial_state g False)) (out @ p) = Some j"
    using run_fields(4) [OF assms(1)] assms(2) by (simp add: jrun_append)
  moreover have "\<not> reasoning_phase (initial_state g False)" by (simp add: initial_state_def default_state_def)
  moreover note wf_initial [of g False]
  ultimately obtain s' where "conf_of s' = j" "wf_state s'"
    using accept_bytes_run [of "initial_state g False" "out @ p"] by auto
  then show ?thesis using wf_conf_ok by blast
qed

lemma run_prefix: "json_run g r out s \<Longrightarrow> jrun (conf_of s) p \<noteq> None \<longleftrightarrow> json_prefix (out @ p)"
proof
  assume run: "json_run g r out s" and "jrun (conf_of s) p \<noteq> None"
  then obtain j where j: "jrun (conf_of s) p = Some j" by blast
  then obtain cs where "finishes j cs" using conf_ok_finishes [OF run_can_finish [OF run j]]
    unfolding can_finish_def by blast
  then have "finishes JStart ((out @ p) @ cs)" using run_fields(4) [OF run] j by (simp add: jrun_append)
  then show "json_prefix (out @ p)" unfolding json_prefix_def run_is_object_text by blast
next
  assume run: "json_run g r out s" and "json_prefix (out @ p)"
  then obtain cs where "finishes JStart ((out @ p) @ cs)" by (auto simp: json_prefix_def run_is_object_text)
  then show "jrun (conf_of s) p \<noteq> None"
    using run_fields(4) [OF run] by (auto simp: jrun_append split: option.splits)
qed

lemma run_allowed:
  assumes "json_run g r out s" "\<not> reasoning_phase s"
  shows "fst (accept_token s t) \<longleftrightarrow> allowed_next g out t"
proof (cases "token_in_vocab g t")
  case True
  note inv = run_wf [OF assms(1)] run_fields(1,2) [OF assms(1)]
  show ?thesis
  proof (cases "t \<in> set (stop_token_ids g)")
    case stop: True
    then show ?thesis using accept_token_stop [OF inv True stop] assms run_complete [OF assms(1)]
      by (simp add: allowed_next_def True)
  next
    case False
    then show ?thesis
      using accept_token_plain [OF inv assms(2) True False] run_complete [OF assms(1)]
        run_prefix [OF assms(1), of "token_pieces g ! nat t"]
      by (auto simp: allowed_next_def True split: if_splits option.splits)
  qed
next
  case False
  then show ?thesis using accept_token_vocab [OF run_fields(2) [OF assms(1)]]
    by (cases "accept_token s t") (auto simp: allowed_next_def)
qed

section \<open>Snapshots\<close>

text \<open>Accepting a list of tokens one after the other.\<close>

fun accept_tokens :: "json_state \<Rightarrow> token_id list \<Rightarrow> json_state option" where
  "accept_tokens s [] = Some s"
| "accept_tokens s (t # ts) = (case accept_token s t of (True, s') \<Rightarrow> accept_tokens s' ts | (False, _) \<Rightarrow> None)"

lemma accept_tokens_append:
  "accept_tokens s (ts @ us) = (case accept_tokens s ts of None \<Rightarrow> None | Some s' \<Rightarrow> accept_tokens s' us)"
  by (induction ts arbitrary: s) (auto split: prod.split bool.split)

lemma replay_accepted: "accept_tokens s ts = Some s' \<Longrightarrow> replay_tokens s ts = s'"
  by (induction ts arbitrary: s) (auto split: prod.splits bool.splits)

lemma accept_committed:
  assumes "json_run g r out s" "accept_token s t = (True, s')"
  shows "committed_token_ids s' = committed_token_ids s @ [t]"
proof -
  note inv = run_wf [OF assms(1)] run_fields(1,2) [OF assms(1)]
  note vocab = accept_token_vocab [OF inv(3) assms(2)]
  show ?thesis
  proof (cases "t \<in> set (stop_token_ids g)")
    case True
    then show ?thesis using accept_token_stop [OF inv vocab True] assms(2) by (auto split: if_splits)
  next
    case False
    show ?thesis
    proof (cases "reasoning_phase s")
      case True
      then show ?thesis
        using accept_token_reasoning [OF inv(2,3) vocab False True] assms(2)
          accept_reasoning_inv [OF inv(1) run_fields(5) [OF assms(1) True], of g t] by simp
    next
      case no: False
      then show ?thesis using accept_token_plain [OF inv no vocab False] assms(2)
        by (auto simp: same_control_def split: if_splits option.splits)
    qed
  qed
qed

lemma run_replay: "json_run g r out s \<Longrightarrow> accept_tokens (initial_state g r) (committed_token_ids s) = Some s"
proof (induction rule: json_run.induct)
  case run_init
  then show ?case by (simp add: initial_state_def default_state_def)
next
  case (run_token out s t s')
  then show ?case using accept_committed [OF run_token.hyps] by (simp add: accept_tokens_append)
qed

section \<open>The end of the reasoning phase\<close>

lemma suffix_take_snoc:
  assumes "suffix (take k m) (ts @ [t])" "0 < k" "k \<le> length m"
  shows "suffix (take (k - 1) m) ts \<and> m ! (k - 1) = t"
proof -
  have "take k m = take (k - 1) m @ [m ! (k - 1)]"
    using assms(2,3) take_Suc_conv_app_nth [of "k - 1" m] by simp
  then show ?thesis using assms(1) by simp
qed

text \<open>\<open>i\<close> is the length of the longest prefix of the marker that ends the token list.\<close>

definition matched_prefix :: "token_id list \<Rightarrow> token_id list \<Rightarrow> nat \<Rightarrow> bool" where
  "matched_prefix m ts i \<longleftrightarrow> suffix (take i m) ts \<and> (\<forall>k. i < k \<and> k \<le> length m \<longrightarrow> \<not> suffix (take k m) ts)"

lemma matched_prefix_Nil: "matched_prefix m [] 0"
  by (auto simp: matched_prefix_def)

lemma matched_prefix_step:
  assumes inv: "matched_prefix (a # m) ts i" "i < length (a # m)" and fresh: "a \<notin> set m"
  shows "matched_prefix (a # m) (ts @ [t]) (if t = (a # m) ! i then Suc i else if t = a then 1 else 0)"
proof (cases "t = (a # m) ! i")
  case True
  have "take (Suc i) (a # m) = take i (a # m) @ [t]" using True inv(2) by (simp only: take_Suc_conv_app_nth)
  moreover have False if "Suc i < k" "k \<le> length (a # m)" "suffix (take k (a # m)) (ts @ [t])" for k
  proof -
    have "suffix (take (k - 1) (a # m)) ts" "i < k - 1" "k - 1 \<le> length (a # m)"
      using suffix_take_snoc [OF that(3) _ that(2)] that by auto
    then show False using inv(1) unfolding matched_prefix_def by blast
  qed
  ultimately show ?thesis using inv(1) True unfolding matched_prefix_def by (auto simp del: take_Suc_Cons)
next
  case False
  have inner: "(a # m) ! j \<noteq> a" if "0 < j" "j < length (a # m)" for j
    using that fresh by (cases j) auto
  have short: "k = 1 \<and> t = a" if k: "0 < k" "k \<le> length (a # m)" and suf: "suffix (take k (a # m)) (ts @ [t])" for k
  proof (rule ccontr)
    assume neg: "\<not> (k = 1 \<and> t = a)"
    have s: "suffix (take (k - 1) (a # m)) ts" "(a # m) ! (k - 1) = t" using suffix_take_snoc [OF suf k] by simp_all
    then have "k - 1 \<le> i" using inv(1) k unfolding matched_prefix_def by (metis diff_le_self le_trans not_le)
    moreover have "k - 1 \<noteq> i" using s(2) False by auto
    moreover have "k - 1 \<noteq> 0" using s(2) neg k(1) by (cases "k - 1") auto
    ultimately have lt: "0 < k - 1" "k - 1 < i" by auto
    have "suffix (take (k - 1) (a # m)) (take i (a # m))"
      using s(1) inv(1) lt unfolding matched_prefix_def by (auto intro: suffix_length_suffix simp: inv(2) min_def)
    then obtain zs where zs: "take i (a # m) = zs @ take (k - 1) (a # m)" by (auto simp: suffix_def)
    have "length (take i (a # m)) = i" using inv(2) by simp
    moreover have "length (take (k - 1) (a # m)) = k - 1" using k by simp
    ultimately have "length zs = i - (k - 1)" unfolding zs by simp
    moreover have "take i (a # m) ! length zs = a" unfolding zs using lt by (cases "k - 1") auto
    ultimately have "take i (a # m) ! (i - (k - 1)) = a" by simp
    moreover have pos: "0 < i - (k - 1)" "i - (k - 1) < i" "i - (k - 1) < length (a # m)" using lt inv(2) by linarith+
    ultimately have "(a # m) ! (i - (k - 1)) = a" by (simp only: nth_take)
    then show False using inner [OF pos(1,3)] by blast
  qed
  have "suffix (take (if t = a then 1 else 0) (a # m)) (ts @ [t])" by (simp add: suffix_def)
  moreover have "\<not> suffix (take k (a # m)) (ts @ [t])" if "(if t = a then 1 else 0) < k" "k \<le> length (a # m)" for k
  proof
    assume "suffix (take k (a # m)) (ts @ [t])"
    with short [OF _ that(2)] that(1) show False by (auto split: if_splits)
  qed
  ultimately show ?thesis unfolding matched_prefix_def if_not_P [OF False] by blast
qed

lemma run_marker:
  assumes "json_run g True out s" and marker: "reasoning_end_token_ids g = a # m" "a \<notin> set m"
  shows "(reasoning_phase s \<longrightarrow> reasoning_marker_index s < length (a # m)
            \<and> matched_prefix (a # m) (committed_token_ids s) (reasoning_marker_index s))
       \<and> (reasoning_phase s \<longleftrightarrow> \<not> sublist (a # m) (committed_token_ids s))"
  using assms(1)
proof (induction rule: json_run.induct)
  case run_init
  then show ?case by (simp add: initial_state_def default_state_def matched_prefix_Nil)
next
  case (run_token out s t s')
  note inv = run_wf [OF run_token.hyps(1)] run_fields(1,2) [OF run_token.hyps(1)]
  note vocab = accept_token_vocab [OF inv(3) run_token.hyps(2)]
  note ts = accept_committed [OF run_token.hyps]
  show ?case
  proof (cases "reasoning_phase s")
    case False
    have "\<not> reasoning_phase s'"
    proof (cases "t \<in> set (stop_token_ids g)")
      case True
      then show ?thesis using accept_token_stop [OF inv vocab True] run_token.hyps(2) False by (auto split: if_splits)
    next
      case no: False
      then show ?thesis using accept_token_plain [OF inv False vocab no] run_token.hyps(2) False
        by (auto simp: same_control_def split: if_splits option.splits)
    qed
    then show ?thesis using run_token.IH False ts by (simp add: sublist_snoc)
  next
    case True
    then have no: "t \<notin> set (stop_token_ids g)"
      using accept_token_stop [OF inv vocab] run_token.hyps(2) by auto
    then have s': "s' = accept_reasoning_token g s t"
      using accept_token_reasoning [OF inv(2,3) vocab no True] run_token.hyps(2) by simp
    let ?i = "reasoning_marker_index s"
    let ?i' = "if t = (a # m) ! ?i then Suc ?i else if t = a then 1 else 0"
    have i: "?i < length (a # m)" and "matched_prefix (a # m) (committed_token_ids s) ?i"
      using run_token.IH True by auto
    then have step: "matched_prefix (a # m) (committed_token_ids s') ?i'"
      using matched_prefix_step [OF _ i marker(2)] ts by simp
    have done_iff: "suffix (a # m) (committed_token_ids s') \<longleftrightarrow> ?i' = length (a # m)"
    proof
      assume "suffix (a # m) (committed_token_ids s')"
      then have "\<not> ?i' < length (a # m)" using step unfolding matched_prefix_def by (metis order_refl take_all)
      moreover have "?i' \<le> length (a # m)" using i by auto
      ultimately show "?i' = length (a # m)" by simp
    next
      assume "?i' = length (a # m)"
      then show "suffix (a # m) (committed_token_ids s')" using step unfolding matched_prefix_def by (metis order_refl take_all)
    qed
    have not_done: "t \<noteq> (a # m) ! ?i \<Longrightarrow> ?i' < length (a # m)" using i by (cases m) auto
    have "(reasoning_phase s' \<longleftrightarrow> ?i' \<noteq> length (a # m)) \<and> (reasoning_phase s' \<longrightarrow> reasoning_marker_index s' = ?i')"
      using not_done True i by (auto simp: s' accept_reasoning_token_def marker(1) Let_def)
    moreover have "\<not> sublist (a # m) (committed_token_ids s)" using run_token.IH True by simp
    moreover have "?i' \<le> length (a # m)" using i by auto
    ultimately show ?thesis
      using step done_iff ts by (auto simp: sublist_snoc order.order_iff_strict)
  qed
qed

section \<open>Batches\<close>

lemma advance_state_total:
  "advance_state s t = Some (if fst (accept_token s t) then snd (accept_token s t) else s)"
  by (cases "accept_token s t") (auto simp: advance_state_def accept_token_def split: bool.split)

lemma advance_loop_total:
  "length ss = length ts \<Longrightarrow> advance_loop ss ts =
     Some (map2 (\<lambda>s t. if fst (accept_token s t) then snd (accept_token s t) else s) ss ts)"
  by (induction ss ts rule: list_induct2) (simp_all add: advance_state_total)

section \<open>Properties\<close>

text \<open>A vocabulary of four pieces for concrete runs: an opening brace, a closing brace, a stop token and the
  marker of the end of the reasoning phase.\<close>

definition demo_grammar :: json_grammar where
  "demo_grammar = \<lparr>token_pieces = [''{'', ''}'', ''stop'', ''think''], stop_token_ids = [2],
     reasoning_end_token_ids = [3]\<rparr>"

definition demo_open :: json_state where
  "demo_open = snd (accept_token (initial_state demo_grammar False) 0)"

lemma demo_accept: "accept_token (initial_state demo_grammar False) 0 = (True, demo_open)"
proof -
  have "fst (accept_token (initial_state demo_grammar False) 0)" by code_simp
  then show ?thesis unfolding demo_open_def by (metis prod.collapse)
qed

lemma demo_output: "token_output demo_grammar (initial_state demo_grammar False) 0 = ''{''"
  by code_simp

lemma demo_run: "json_run demo_grammar False ''{'' demo_open"
  using run_token [OF run_init demo_accept] by (simp add: demo_output)

lemma demo_open_fields: "\<not> reasoning_phase demo_open" "\<not> is_complete demo_open" "committed_token_ids demo_open = [0]"
  by code_simp+

text \<open>C3.  Outside the reasoning phase a reached state allows a token exactly when the grammar of JSON
  object texts does: a stop token once the output is a complete object text, any other token when its
  piece is not empty, the output may still grow, and output and piece together begin some object text.\<close>

theorem token_allowed_iff:
  assumes "json_run g r out s" "\<not> reasoning_phase s"
  shows "can_accept_token s t \<longleftrightarrow> allowed_next g out t"
  using run_allowed [OF assms] by simp

lemma token_allowed_iff_witness: "can_accept_token demo_open 1 \<and> allowed_next demo_grammar ''{'' 1"
proof -
  have "can_accept_token demo_open 1" by code_simp
  then show ?thesis using token_allowed_iff [OF demo_run demo_open_fields(1)] by blast
qed

text \<open>C4.  A reached state reports completion exactly when the bytes it has let through are a JSON object
  text, and whatever it has let through can be continued to one.\<close>

theorem completion_exact:
  assumes "json_run g r out s"
  shows "(is_complete s \<longleftrightarrow> json_object_text out) \<and> json_prefix out"
proof -
  have "jrun (conf_of s) [] \<noteq> None" by simp
  then have "json_prefix out" using run_prefix [OF assms, of "[]"] by simp
  then show ?thesis using run_complete [OF assms] run_fields(1) [OF assms] by (simp add: is_complete_def)
qed

lemma completion_exact_witness: "\<not> json_object_text ''{'' \<and> json_prefix ''{''"
  using completion_exact [OF demo_run] demo_open_fields(2) by simp

text \<open>C1.  A whole text handed to a fresh matcher in one piece is accepted to completion exactly when it is
  a JSON object text.\<close>

theorem matcher_decides_objects:
  "(case accept_piece (initial_state g False) t of (b, s) \<Rightarrow> b \<and> is_complete s) \<longleftrightarrow> json_object_text t"
proof -
  let ?s = "initial_state g False"
  have init: "\<not> reasoning_phase ?s" "valid ?s" "grammar ?s = Some g"
    by (simp_all add: initial_state_def default_state_def)
  show ?thesis
  proof (cases "t = []")
    case True
    have "\<not> finishes JStart []" by simp
    then show ?thesis using True by (simp add: accept_piece_def run_is_object_text [symmetric])
  next
    case False
    then have "accept_piece ?s t = accept_bytes ?s t" using init by (simp add: accept_piece_def)
    then have run: "case jrun JStart t of None \<Rightarrow> fst (accept_piece ?s t) = False
        | Some j \<Rightarrow> \<exists>s'. accept_piece ?s t = (True, s') \<and> conf_of s' = j \<and> same_control ?s s'"
      using accept_bytes_run [OF wf_initial init(1), of t] by (auto split: option.splits)
    show ?thesis
    proof (cases "jrun JStart t")
      case None
      then show ?thesis using run by (auto simp: run_is_object_text [symmetric])
    next
      case (Some j)
      then obtain s' where s': "accept_piece ?s t = (True, s')" "conf_of s' = j" "valid s'"
        using run init(2) by (auto simp: same_control_def)
      then show ?thesis using Some by (simp add: is_complete_def conf_done [symmetric] run_is_object_text [symmetric])
    qed
  qed
qed

text \<open>Restoring the snapshot of a reached state gives back that state, every field included.\<close>

theorem restore_snapshot:
  assumes "json_run g r out s"
  shows "restore_state g (snapshot s) = s"
  using replay_accepted [OF run_replay [OF assms]] run_fields(2,3) [OF assms]
  by (simp add: restore_state_def snapshot_def)

lemma restore_snapshot_witness: "restore_state demo_grammar (snapshot demo_open) = demo_open"
  by (rule restore_snapshot [OF demo_run])

text \<open>The trial acceptance on a copy agrees with the acceptance itself, so a batch advances without
  ever failing its check: each state takes its token if it allows it and stays as it is otherwise.\<close>

theorem advance_batch:
  assumes "length ss = length ts"
  shows "advance_json_object_states ss ts =
    Some (map2 (\<lambda>s t. if can_accept_token s t then snd (accept_token s t) else s) ss ts)"
  using advance_loop_total [OF assms] assms by (simp add: advance_json_object_states_def)

lemma advance_batch_witness:
  "advance_json_object_states [initial_state demo_grammar False, default_state] [0, 0] = Some [demo_open, default_state]"
proof -
  have "length [initial_state demo_grammar False, default_state] = length [0, 0 :: int]" by simp
  note advance_batch [OF this]
  moreover have "\<not> can_accept_token default_state 0" by code_simp
  ultimately show ?thesis using demo_accept by simp
qed

text \<open>When the first token of the end marker does not occur in the rest of the marker, a reached state
  has left the reasoning phase exactly when the marker has occurred among its committed tokens.\<close>

theorem reasoning_ends_at_marker:
  assumes "json_run g True out s" "reasoning_end_token_ids g = a # m" "a \<notin> set m"
  shows "reasoning_phase s \<longleftrightarrow> \<not> sublist (a # m) (committed_token_ids s)"
  using run_marker [OF assms] by simp

lemma reasoning_ends_at_marker_witness:
  "\<not> sublist [3] (committed_token_ids (initial_state demo_grammar True))"
proof -
  have "reasoning_end_token_ids demo_grammar = 3 # []" by (simp add: demo_grammar_def)
  from reasoning_ends_at_marker [OF run_init this] show ?thesis
    by (simp add: initial_state_def default_state_def)
qed

text \<open>A grammar whose end marker overlaps itself.\<close>

definition overlap_grammar :: json_grammar where
  "overlap_grammar = \<lparr>token_pieces = [''{'', ''a'', ''b''], stop_token_ids = [], reasoning_end_token_ids = [1, 1, 2]\<rparr>"

text \<open>Without that condition the fall-back of the marker matcher (to one or none instead of to the
  longest border) can miss the marker: with the end marker 1 1 2, the tokens 1 1 1 2 end with it
  and the state is still in the reasoning phase.\<close>

theorem overlapping_marker_missed:
  "map_option (\<lambda>s. reasoning_phase s \<and> suffix (reasoning_end_token_ids overlap_grammar) (committed_token_ids s))
     (accept_tokens (initial_state overlap_grammar True) [1, 1, 1, 2]) = Some True"
  by code_simp

end
