(* ===== verification/Lru_Cache.thy ===== *)
theory Lru_Cache imports Xllm_Prelude begin

text \<open>
  The bounded mask cache of \<open>core/framework/sampling/json_object_grammar.{h,cpp}\<close>
  (\<open>FilterMaskCache\<close> and the two critical sections of \<open>cached_mask_for_state\<close>), over any type of keys
  and values, and the interface \<open>memo_key\<close> under which such a cache is transparent for every interleaving
  of the threads that use it.
\<close>

section \<open>A bounded cache with least-recently-used eviction\<close>

text \<open>\<open>FilterMaskCache\<close>: \<open>recency\<close> is the \<open>std::list\<close> of keys, most recent first, and \<open>entries\<close> the
  \<open>unordered_map\<close> from keys to masks.  The bound is \<open>kMaxFilterMaskCacheEntries\<close>.\<close>

record ('k, 'v) lru_cache =
  recency :: "'k list"
  entries :: "('k \<times> 'v) list"

definition empty_cache :: "('k, 'v) lru_cache" where
  "empty_cache = \<lparr>recency = [], entries = []\<rparr>"

lemma entries_empty [simp]: "entries empty_cache = []"
  by (simp add: empty_cache_def)

definition max_cache_entries :: nat where
  "max_cache_entries = 64"

definition cache_touch :: "'k \<Rightarrow> ('k, 'v) lru_cache \<Rightarrow> ('k, 'v) lru_cache" where
  "cache_touch k c = c\<lparr>recency := k # remove1 k (recency c)\<rparr>"

text \<open>The first critical section of \<open>cached_mask_for_state\<close>.\<close>

definition cache_lookup :: "'k \<Rightarrow> ('k, 'v) lru_cache \<Rightarrow> 'v option \<times> ('k, 'v) lru_cache" where
  "cache_lookup k c = (case map_of (entries c) k of
     Some v \<Rightarrow> (Some v, cache_touch k c)
   | None \<Rightarrow> (None, c))"

text \<open>The second one, entered after the mask has been computed without the lock: another thread may have
  published the key meanwhile.  \<open>None\<close> is a failed \<open>CHECK(!recency.empty())\<close>.\<close>

definition cache_publish :: "'k \<Rightarrow> 'v \<Rightarrow> ('k, 'v) lru_cache \<Rightarrow> ('v \<times> ('k, 'v) lru_cache) option" where
  "cache_publish k v c = (case map_of (entries c) k of
     Some v' \<Rightarrow> Some (v', cache_touch k c)
   | None \<Rightarrow>
       let evicted = (if length (entries c) \<ge> max_cache_entries
                      then if recency c = [] then None
                           else Some (c\<lparr>entries := filter (\<lambda>e. fst e \<noteq> last (recency c)) (entries c),
                                        recency := butlast (recency c)\<rparr>)
                      else Some c)
       in map_option (\<lambda>c'. (v, c'\<lparr>recency := k # recency c', entries := (k, v) # entries c'\<rparr>)) evicted)"

definition cache_ok :: "('k, 'v) lru_cache \<Rightarrow> bool" where
  "cache_ok c \<longleftrightarrow> distinct (recency c) \<and> distinct (map fst (entries c))
     \<and> set (recency c) = fst ` set (entries c) \<and> length (entries c) \<le> max_cache_entries"

lemma cache_ok_empty [inv_intros]: "cache_ok empty_cache"
  by (simp add: cache_ok_def empty_cache_def)

lemma cache_ok_touch [inv_intros]: "cache_ok c \<Longrightarrow> map_of (entries c) k = Some v \<Longrightarrow> cache_ok (cache_touch k c)"
  by (auto simp: cache_ok_def cache_touch_def dest!: map_of_SomeD intro: rev_image_eqI)

lemma distinct_filter_last:
  assumes "distinct (map fst es)" "x \<in> fst ` set es"
  shows "length (filter (\<lambda>e. fst e \<noteq> x) es) + 1 = length es"
  using assms
proof (induction es)
  case (Cons e es)
  show ?case
  proof (cases "fst e = x")
    case True
    then have "filter (\<lambda>e. fst e \<noteq> x) es = es" using Cons.prems by (auto simp: filter_id_conv intro: rev_image_eqI)
    then show ?thesis using True by simp
  qed (use Cons in auto)
qed simp

text \<open>Evicting the least recently used key keeps the list and the map of the cache in step.\<close>

lemma cache_ok_evict:
  assumes "cache_ok c" "recency c \<noteq> []"
  shows "cache_ok (c\<lparr>entries := filter (\<lambda>e. fst e \<noteq> last (recency c)) (entries c), recency := butlast (recency c)\<rparr>)"
    and "length (filter (\<lambda>e. fst e \<noteq> last (recency c)) (entries c)) < length (entries c)"
proof -
  have r: "recency c = butlast (recency c) @ [last (recency c)]" using assms(2) by simp
  then have d: "distinct (butlast (recency c) @ [last (recency c)])" using assms(1) by (simp add: cache_ok_def)
  have "set (recency c) = insert (last (recency c)) (set (butlast (recency c)))" using r by (metis set_append list.set(1,2) Un_insert_right sup_bot_right)
  then have "set (butlast (recency c)) = fst ` set (entries c) - {last (recency c)}"
    using d assms(1) by (auto simp: cache_ok_def)
  then have s: "set (butlast (recency c)) = fst ` {e \<in> set (entries c). fst e \<noteq> last (recency c)}" by auto
  have "last (recency c) \<in> fst ` set (entries c)" using assms by (metis cache_ok_def last_in_set)
  then have l: "length (filter (\<lambda>e. fst e \<noteq> last (recency c)) (entries c)) + 1 = length (entries c)"
    using assms(1) by (intro distinct_filter_last) (auto simp: cache_ok_def)
  have dm: "distinct (map fst (filter (\<lambda>e. fst e \<noteq> last (recency c)) (entries c)))"
    using assms(1) by (simp add: cache_ok_def distinct_map_filter)
  show "cache_ok (c\<lparr>entries := filter (\<lambda>e. fst e \<noteq> last (recency c)) (entries c), recency := butlast (recency c)\<rparr>)"
    using d s l dm assms(1) by (auto simp: cache_ok_def)
  show "length (filter (\<lambda>e. fst e \<noteq> last (recency c)) (entries c)) < length (entries c)" using l by simp
qed

lemma cache_full_recency: "cache_ok c \<Longrightarrow> max_cache_entries \<le> length (entries c) \<Longrightarrow> recency c \<noteq> []"
  by (auto simp: cache_ok_def max_cache_entries_def)

lemma cache_publish_ok:
  assumes "cache_ok c"
  shows "\<exists>v' c'. cache_publish k v c = Some (v', c') \<and> cache_ok c' \<and> k \<in> fst ` set (entries c')"
proof (cases "map_of (entries c) k")
  case (Some v')
  then have "k \<in> fst ` set (entries c)" by (metis map_of_eq_None_iff option.distinct(1))
  then show ?thesis using Some cache_ok_touch [OF assms Some] by (simp add: cache_publish_def cache_touch_def)
next
  case None
  then have k: "k \<notin> set (recency c)" "k \<notin> fst ` set (entries c)"
    using assms by (auto simp: cache_ok_def map_of_eq_None_iff)
  show ?thesis
  proof (cases "length (entries c) \<ge> max_cache_entries")
    case True
    note r = cache_full_recency [OF assms True]
    then show ?thesis using None True k cache_ok_evict [OF assms r] assms
      by (auto simp: cache_publish_def cache_ok_def dest: in_set_butlastD)
  next
    case False
    then show ?thesis using None k assms by (auto simp: cache_publish_def cache_ok_def)
  qed
qed

text \<open>Whatever a cache operation leaves in the map was there before or is the published mask.\<close>

lemma cache_lookup_entries: "entries (snd (cache_lookup k c)) = entries c"
  by (simp add: cache_lookup_def cache_touch_def split: option.split)

lemma cache_publish_entries:
  "cache_publish k v c = Some (v', c') \<Longrightarrow> set (entries c') \<subseteq> insert (k, v) (set (entries c))
     \<and> (v' = v \<or> (k, v') \<in> set (entries c))"
  by (auto simp: cache_publish_def cache_touch_def Let_def split: option.splits if_splits dest: map_of_SomeD)

section \<open>Memoisation\<close>

text \<open>Any interleaving of the two critical sections by any number of threads: each published value was
  computed from a good state and published under that state's key.\<close>

inductive cache_reach :: "('s \<Rightarrow> 'k) \<Rightarrow> ('s \<Rightarrow> 'v) \<Rightarrow> ('s \<Rightarrow> bool) \<Rightarrow> ('k, 'v) lru_cache \<Rightarrow> bool"
  for key compute good where
  reach_empty: "cache_reach key compute good empty_cache"
| reach_lookup: "cache_reach key compute good c \<Longrightarrow> cache_reach key compute good (snd (cache_lookup k c))"
| reach_publish: "cache_reach key compute good c \<Longrightarrow> good s \<Longrightarrow>
    cache_publish (key s) (compute s) c = Some (v, c') \<Longrightarrow> cache_reach key compute good c'"

definition memo_inv :: "('s \<Rightarrow> 'k) \<Rightarrow> ('s \<Rightarrow> 'v) \<Rightarrow> ('s \<Rightarrow> bool) \<Rightarrow> ('k, 'v) lru_cache \<Rightarrow> bool" where
  "memo_inv key compute good c \<longleftrightarrow> cache_ok c
     \<and> (\<forall>k v. (k, v) \<in> set (entries c) \<longrightarrow> (\<exists>s. good s \<and> key s = k \<and> compute s = v))"

lemma memo_invD:
  assumes "memo_inv key compute good c"
  shows "cache_ok c" "(k, v) \<in> set (entries c) \<Longrightarrow> \<exists>s. good s \<and> key s = k \<and> compute s = v"
  using assms by (auto simp: memo_inv_def)

text \<open>A cache keyed by \<open>key\<close> is transparent when the key of a good state determines what is computed for it.\<close>

locale memo_key =
  fixes key :: "'s \<Rightarrow> 'k" and compute :: "'s \<Rightarrow> 'v" and good :: "'s \<Rightarrow> bool"
  assumes key_determines: "good s \<Longrightarrow> good s' \<Longrightarrow> key s = key s' \<Longrightarrow> compute s = compute s'"
begin

lemma memo_inv_lookup:
  assumes "memo_inv key compute good c"
  shows "memo_inv key compute good (snd (cache_lookup k c))"
proof -
  have "cache_ok (snd (cache_lookup k c))"
    using memo_invD(1) [OF assms] cache_ok_touch [of c k] by (simp add: cache_lookup_def split: option.split)
  then show ?thesis using assms by (simp add: memo_inv_def cache_lookup_entries)
qed

lemma entry_value:
  assumes "memo_inv key compute good c" "good s" "(key s, v) \<in> set (entries c)"
  shows "v = compute s"
proof -
  obtain s' where "good s'" "key s' = key s" "compute s' = v" using memo_invD(2) [OF assms(1,3)] by (elim exE conjE)
  then show ?thesis using key_determines [of s' s] assms(2) by simp
qed

lemma memo_inv_publish:
  assumes "memo_inv key compute good c" "good s" "cache_publish (key s) (compute s) c = Some (v, c')"
  shows "memo_inv key compute good c' \<and> v = compute s"
proof -
  note ents = cache_publish_entries [OF assms(3)]
  have "cache_ok c'" using cache_publish_ok [OF memo_invD(1) [OF assms(1)], of "key s" "compute s"] assms(3) by auto
  moreover have "\<exists>s'. good s' \<and> key s' = k \<and> compute s' = w" if "(k, w) \<in> set (entries c')" for k w
  proof (cases "(k, w) = (key s, compute s)")
    case True
    then show ?thesis using assms(2) by auto
  next
    case False
    then have "(k, w) \<in> set (entries c)" using that ents by auto
    then show ?thesis by (rule memo_invD(2) [OF assms(1)])
  qed
  moreover have "v = compute s" using ents entry_value [OF assms(1,2)] by auto
  ultimately show ?thesis by (simp add: memo_inv_def)
qed

lemma reach_inv: "cache_reach key compute good c \<Longrightarrow> memo_inv key compute good c"
proof (induction rule: cache_reach.induct)
  case reach_empty
  then show ?case by (simp add: memo_inv_def cache_ok_empty)
next
  case (reach_lookup c k)
  show ?case by (rule memo_inv_lookup [OF reach_lookup.IH])
next
  case (reach_publish c s v c')
  show ?case by (rule conjunct1 [OF memo_inv_publish [OF reach_publish.IH reach_publish.hyps(2,3)]])
qed

lemma lookup_sound:
  assumes "cache_reach key compute good c" "good s" "fst (cache_lookup (key s) c) = Some v"
  shows "v = compute s"
proof -
  have "(key s, v) \<in> set (entries c)"
    using assms(3) by (auto simp: cache_lookup_def split: option.splits dest: map_of_SomeD)
  then show ?thesis by (rule entry_value [OF reach_inv [OF assms(1)] assms(2)])
qed

lemma publish_sound:
  assumes "cache_reach key compute good c" "good s"
  shows "\<exists>c'. cache_publish (key s) (compute s) c = Some (compute s, c') \<and> cache_reach key compute good c'"
proof -
  note inv = reach_inv [OF assms(1)]
  obtain v' c' where p: "cache_publish (key s) (compute s) c = Some (v', c')"
    using cache_publish_ok [OF memo_invD(1) [OF inv], of "key s" "compute s"] by (elim exE conjE)
  have "cache_reach key compute good c'" by (rule reach_publish [OF assms p])
  then show ?thesis using memo_inv_publish [OF inv assms(2) p] p by simp
qed

lemma reach_bound: "cache_reach key compute good c \<Longrightarrow> length (entries c) \<le> max_cache_entries"
  using memo_invD(1) [OF reach_inv] by (simp add: cache_ok_def)

end

end
