(* ===== verification/Json_Mask.thy ===== *)
theory Json_Mask imports Json_Matcher Lru_Cache begin

text \<open>
  The allowed-token masks of \<open>core/framework/sampling/json_object_grammar.{h,cpp}\<close>: the state's
  fingerprint and cache key, the constructor of the grammar with its reasoning bitmask, the computed and the
  cached masks, the batch masks and their application to logits.  A \<open>torch::Tensor\<close> of one row is the list
  of its elements.
\<close>

unbundle bit_operations_syntax

section \<open>Enumeration codes and bytes\<close>

fun parse_mode_code :: "parse_mode \<Rightarrow> nat" where
  "parse_mode_code PM_NONE = 0"
| "parse_mode_code PM_STRING = 1"
| "parse_mode_code PM_STRING_ESCAPE = 2"
| "parse_mode_code PM_STRING_UNICODE = 3"
| "parse_mode_code PM_NUMBER = 4"
| "parse_mode_code PM_LITERAL = 5"

fun string_role_code :: "string_role \<Rightarrow> nat" where
  "string_role_code ROLE_VALUE = 0"
| "string_role_code ROLE_OBJECT_KEY = 1"

fun container_type_code :: "container_type \<Rightarrow> nat" where
  "container_type_code CT_OBJECT = 0"
| "container_type_code CT_ARRAY = 1"

fun container_state_code :: "container_state \<Rightarrow> nat" where
  "container_state_code OBJECT_KEY_OR_END = 0"
| "container_state_code OBJECT_KEY_AFTER_COMMA = 1"
| "container_state_code OBJECT_COLON = 2"
| "container_state_code OBJECT_VALUE = 3"
| "container_state_code OBJECT_COMMA_OR_END = 4"
| "container_state_code ARRAY_VALUE_OR_END = 5"
| "container_state_code ARRAY_VALUE_AFTER_COMMA = 6"
| "container_state_code ARRAY_COMMA_OR_END = 7"

fun number_state_code :: "number_state \<Rightarrow> nat" where
  "number_state_code AFTER_MINUS = 0"
| "number_state_code ZERO = 1"
| "number_state_code INTEGER = 2"
| "number_state_code FRACTION_POINT = 3"
| "number_state_code FRACTION = 4"
| "number_state_code EXPONENT = 5"
| "number_state_code EXPONENT_SIGN = 6"
| "number_state_code EXPONENT_DIGITS = 7"

definition flag_code :: "bool \<Rightarrow> nat" where
  "flag_code b = (if b then 1 else 0)"

text \<open>The byte of a 64-bit value that \<open>hash_uint64\<close> and \<open>append_cache_key_uint64\<close> take in their loop.\<close>

definition byte_at :: "u64 \<Rightarrow> nat \<Rightarrow> u8" where
  "byte_at v i = ucast (drop_bit (8 * i) v AND 0xFF)"

definition uint64_bytes :: "u64 \<Rightarrow> u8 list" where
  "uint64_bytes v = map (byte_at v) [0..<8]"

definition string_bytes :: "string \<Rightarrow> u8 list" where
  "string_bytes s = map (\<lambda>c. word_of_nat (of_char c)) s"

section \<open>The fingerprint\<close>

definition fnv_offset_basis :: u64 where
  "fnv_offset_basis = 14695981039346656037"

definition fnv_prime :: u64 where
  "fnv_prime = 1099511628211"

definition hash_byte :: "u64 \<Rightarrow> u8 \<Rightarrow> u64" where
  "hash_byte h b = (h XOR ucast b) * fnv_prime"

definition hash_uint64 :: "u64 \<Rightarrow> nat \<Rightarrow> u64" where
  "hash_uint64 h v = foldl hash_byte h (uint64_bytes (word_of_nat v))"

definition fingerprint :: "json_state \<Rightarrow> u64" where
  "fingerprint s =
    (let h = foldl hash_uint64 fnv_offset_basis
           [flag_code (grammar s \<noteq> None), flag_code (valid s), flag_code (root_started s),
            flag_code (root_complete s), flag_code (reasoning_phase s), flag_code (reasoning_enabled s),
            reasoning_marker_index s, parse_mode_code (parse_mode s), string_role_code (string_role s),
            number_state_code (number_state s), unicode_digits s, literal_index s, length (literal_target s)];
         h = foldl hash_byte h (string_bytes (literal_target s));
         h = hash_uint64 h (length (containers s))
     in foldl (\<lambda>h f. hash_uint64 (hash_uint64 h (container_type_code (frame_type f)))
                        (container_state_code (frame_state f))) h (rev (containers s)))"

section \<open>The cache key\<close>

definition key_byte :: "nat \<Rightarrow> u8 list" where
  "key_byte v = [word_of_nat v]"

definition key_uint64 :: "nat \<Rightarrow> u8 list" where
  "key_uint64 v = uint64_bytes (word_of_nat v)"

definition key_mode_part :: "json_state \<Rightarrow> u8 list" where
  "key_mode_part s = (case parse_mode s of
     PM_STRING \<Rightarrow> key_byte (string_role_code (string_role s))
   | PM_STRING_ESCAPE \<Rightarrow> key_byte (string_role_code (string_role s))
   | PM_STRING_UNICODE \<Rightarrow> key_byte (string_role_code (string_role s)) @ key_byte (unicode_digits s)
   | PM_NUMBER \<Rightarrow> key_byte (number_state_code (number_state s))
   | PM_LITERAL \<Rightarrow> key_uint64 (literal_index s) @ key_uint64 (length (literal_target s)) @ string_bytes (literal_target s)
   | PM_NONE \<Rightarrow> [])"

definition key_frame :: "container_frame \<Rightarrow> u8 list" where
  "key_frame f = key_byte (container_type_code (frame_type f)) @ key_byte (container_state_code (frame_state f))"

definition transition_cache_key :: "json_state \<Rightarrow> u8 list" where
  "transition_cache_key s =
     key_byte (flag_code (valid s)) @ key_byte (flag_code (root_started s)) @ key_byte (flag_code (root_complete s))
     @ key_byte (flag_code (reasoning_phase s)) @ key_byte (parse_mode_code (parse_mode s))
     @ (if reasoning_phase s then key_uint64 (reasoning_marker_index s) else [])
     @ key_mode_part s
     @ key_uint64 (length (containers s)) @ concat (map key_frame (rev (containers s)))"

lemma flag_code_inj [simp]: "(word_of_nat (flag_code a) :: u8) = word_of_nat (flag_code b) \<longleftrightarrow> a = b"
  by (simp add: flag_code_def)

lemma parse_mode_code_inj [simp]: "(word_of_nat (parse_mode_code a) :: u8) = word_of_nat (parse_mode_code b) \<longleftrightarrow> a = b"
  by (cases a; cases b; simp)

lemma string_role_code_inj [simp]: "(word_of_nat (string_role_code a) :: u8) = word_of_nat (string_role_code b) \<longleftrightarrow> a = b"
  by (cases a; cases b; simp)

lemma container_type_code_inj [simp]:
  "(word_of_nat (container_type_code a) :: u8) = word_of_nat (container_type_code b) \<longleftrightarrow> a = b"
  by (cases a; cases b; simp)

lemma container_state_code_inj [simp]:
  "(word_of_nat (container_state_code a) :: u8) = word_of_nat (container_state_code b) \<longleftrightarrow> a = b"
  by (cases a; cases b; simp)

lemma number_state_code_inj [simp]:
  "(word_of_nat (number_state_code a) :: u8) = word_of_nat (number_state_code b) \<longleftrightarrow> a = b"
  by (cases a; cases b; simp)

lemma length_uint64_bytes [simp]: "length (uint64_bytes v) = 8" "length (key_uint64 n) = 8"
  by (simp_all add: uint64_bytes_def key_uint64_def)

lemma bit_byte_at: "j < 8 \<Longrightarrow> bit (byte_at v i) j \<longleftrightarrow> bit v (8 * i + j)"
proof -
  have ff: "(0xFF :: u64) = mask 8" by (simp add: mask_eq_exp_minus_1)
  show "j < 8 \<Longrightarrow> ?thesis"
    unfolding byte_at_def ff by (auto simp: bit_simps add.commute dest: bit_imp_le_length)
qed

lemma uint64_bytes_inj: "uint64_bytes v = uint64_bytes w \<longleftrightarrow> v = w"
proof
  assume eq: "uint64_bytes v = uint64_bytes w"
  show "v = w"
  proof (rule bit_word_eqI)
    fix n assume "n < LENGTH(64)"
    then have "n div 8 < 8" by simp
    then have "byte_at v (n div 8) = byte_at w (n div 8)"
      using eq by (simp add: uint64_bytes_def)
    then have "bit (byte_at v (n div 8)) (n mod 8) = bit (byte_at w (n div 8)) (n mod 8)" by simp
    then show "bit v n \<longleftrightarrow> bit w n" by (simp add: bit_byte_at)
  qed
qed simp

lemma key_uint64_inj: "m < 2 ^ 64 \<Longrightarrow> n < 2 ^ 64 \<Longrightarrow> key_uint64 m = key_uint64 n \<longleftrightarrow> m = n"
  by (simp add: key_uint64_def uint64_bytes_inj word_of_nat_eq_iff take_bit_nat_eq_self)

lemma char_byte_inj: "(word_of_nat (of_char a) :: u8) = word_of_nat (of_char b) \<longleftrightarrow> a = b"
  by (simp add: word_of_nat_eq_iff take_bit_nat_def)

lemma string_bytes_inj: "string_bytes s = string_bytes t \<longleftrightarrow> s = t"
proof -
  have "inj (\<lambda>c. word_of_nat (of_char c) :: u8)" by (rule injI) (simp add: char_byte_inj)
  then show ?thesis by (simp add: string_bytes_def inj_map_eq_map)
qed

lemma small_byte: "m < 4 \<Longrightarrow> n < 4 \<Longrightarrow> (word_of_nat m :: u8) = word_of_nat n \<longleftrightarrow> m = n"
  by (simp add: word_of_nat_eq_iff take_bit_nat_eq_self)

lemma key_frame_inj: "key_frame f = key_frame g \<longleftrightarrow> f = g"
  by (cases f; cases g) (simp add: key_frame_def key_byte_def)

lemma key_frame_append: "key_frame f @ xs = key_frame g @ ys \<longleftrightarrow> f = g \<and> xs = ys"
proof -
  have "length (key_frame f) = length (key_frame g)" by (simp add: key_frame_def key_byte_def)
  then show ?thesis by (simp add: append_eq_append_conv key_frame_inj)
qed

lemma key_frame_nonempty [simp]: "key_frame f \<noteq> []"
  by (simp add: key_frame_def key_byte_def)

lemma frames_inj: "concat (map key_frame fs) = concat (map key_frame gs) \<longleftrightarrow> fs = gs"
proof (induction fs arbitrary: gs)
  case Nil
  then show ?case by (cases gs) simp_all
next
  case (Cons f fs)
  then show ?case by (cases gs) (simp_all add: key_frame_append)
qed

text \<open>The fields of a well-formed matcher that acceptance outside the reasoning phase reads.\<close>

lemma literal_sizes:
  "wf_state s \<Longrightarrow> parse_mode s = PM_LITERAL \<Longrightarrow> literal_index s < 2 ^ 64 \<and> length (literal_target s) < 2 ^ 64"
  by (auto simp: wf_state_def literal_ok_def)

lemma key_mode_part_inj:
  assumes "wf_state s" "wf_state s'" "parse_mode s = parse_mode s'" "key_mode_part s @ xs = key_mode_part s' @ ys"
  shows "xs = ys \<and> (parse_mode s \<in> {PM_STRING, PM_STRING_ESCAPE, PM_STRING_UNICODE} \<longrightarrow> string_role s = string_role s')
    \<and> (parse_mode s = PM_STRING_UNICODE \<longrightarrow> unicode_digits s = unicode_digits s')
    \<and> (parse_mode s = PM_NUMBER \<longrightarrow> number_state s = number_state s')
    \<and> (parse_mode s = PM_LITERAL \<longrightarrow> literal_index s = literal_index s' \<and> literal_target s = literal_target s')"
proof (cases "parse_mode s")
  case PM_STRING_UNICODE
  have "unicode_digits s < 4" "unicode_digits s' < 4" using assms(1-3) PM_STRING_UNICODE by (auto simp: wf_state_def)
  then show ?thesis using assms PM_STRING_UNICODE
    by (simp add: key_mode_part_def key_byte_def small_byte)
next
  case PM_LITERAL
  note sz = literal_sizes [OF assms(1) PM_LITERAL] literal_sizes [OF assms(2)]
  have "key_uint64 (literal_index s) = key_uint64 (literal_index s')"
    and rest: "key_uint64 (length (literal_target s)) @ string_bytes (literal_target s) @ xs
      = key_uint64 (length (literal_target s')) @ string_bytes (literal_target s') @ ys"
    using assms(3,4) PM_LITERAL by (simp_all add: key_mode_part_def append_eq_append_conv)
  then have idx: "literal_index s = literal_index s'" using sz assms(3) PM_LITERAL by (simp add: key_uint64_inj)
  from rest have "key_uint64 (length (literal_target s)) = key_uint64 (length (literal_target s'))"
    and rest': "string_bytes (literal_target s) @ xs = string_bytes (literal_target s') @ ys"
    by (simp_all add: append_eq_append_conv)
  then have len: "length (literal_target s) = length (literal_target s')" using sz assms(3) PM_LITERAL by (simp add: key_uint64_inj)
  then have "string_bytes (literal_target s) = string_bytes (literal_target s') \<and> xs = ys"
    using rest' by (simp add: append_eq_append_conv string_bytes_def)
  then show ?thesis using idx PM_LITERAL by (simp add: string_bytes_inj)
qed (use assms in \<open>auto simp: key_mode_part_def key_byte_def\<close>)

lemma cache_key_conf:
  assumes "wf_state s" "wf_state s'" "\<not> reasoning_phase s" "\<not> reasoning_phase s'"
    and "transition_cache_key s = transition_cache_key s'"
  shows "conf_of s = conf_of s' \<and> valid s = valid s'"
proof -
  have flags: "valid s = valid s'" "root_complete s = root_complete s'" "parse_mode s = parse_mode s'"
    and rest: "key_mode_part s @ key_uint64 (length (containers s)) @ concat (map key_frame (rev (containers s)))
      = key_mode_part s' @ key_uint64 (length (containers s')) @ concat (map key_frame (rev (containers s')))"
    using assms(3-5) by (simp_all add: transition_cache_key_def key_byte_def)
  note parts = key_mode_part_inj [OF assms(1,2) flags(3) rest]
  then have "concat (map key_frame (rev (containers s))) = concat (map key_frame (rev (containers s')))"
    by (simp add: append_eq_append_conv)
  then have "containers s = containers s'" by (simp add: frames_inj)
  then show ?thesis using flags parts
    by (cases "parse_mode s'") (auto simp: conf_of_def string_mode_of_def split: list.split)
qed

section \<open>Bitmasks\<close>

type_synonym bitmask = "u32 list"

definition bitmask_num_words :: "json_grammar \<Rightarrow> nat" where
  "bitmask_num_words g = (vocab_size g + 31) div 32"

definition token_bit :: "nat \<Rightarrow> u32" where
  "token_bit i = push_bit (i mod 32) 1"

definition has_bit :: "bitmask \<Rightarrow> nat \<Rightarrow> bool" where
  "has_bit m i \<longleftrightarrow> m ! (i div 32) AND token_bit i \<noteq> 0"

definition set_token_bit :: "nat \<Rightarrow> bitmask \<Rightarrow> bitmask" where
  "set_token_bit i m = m[i div 32 := m ! (i div 32) OR token_bit i]"

definition clear_token_bit :: "nat \<Rightarrow> bitmask \<Rightarrow> bitmask" where
  "clear_token_bit i m = m[i div 32 := m ! (i div 32) AND NOT (token_bit i)]"

text \<open>The constructor's \<open>reasoning_bitmask_\<close>: every token but the stop tokens, the bits past the vocabulary
  cleared.\<close>

definition clear_stop :: "json_grammar \<Rightarrow> bitmask \<Rightarrow> token_id \<Rightarrow> bitmask" where
  "clear_stop g m t = (if t < 0 \<or> int (vocab_size g) \<le> t then m else clear_token_bit (nat t) m)"

definition reasoning_bitmask :: "json_grammar \<Rightarrow> bitmask" where
  "reasoning_bitmask g =
    (let m = foldl (clear_stop g) (replicate (bitmask_num_words g) 0xFFFFFFFF) (stop_token_ids g);
         remainder = vocab_size g mod 32
     in if remainder \<noteq> 0 \<and> m \<noteq> []
        then m[length m - 1 := last m AND (push_bit remainder 1 - 1)] else m)"

definition compute_allowed_bitmask :: "json_grammar \<Rightarrow> json_state \<Rightarrow> bitmask" where
  "compute_allowed_bitmask g s =
    (if \<not> valid s then replicate (bitmask_num_words g) 0
     else if reasoning_phase s then reasoning_bitmask g
     else foldl (\<lambda>m i. if can_accept_token s (int i) then set_token_bit i m else m)
            (replicate (bitmask_num_words g) 0) [0..<vocab_size g])"

definition disallowed_token_mask :: int where
  "disallowed_token_mask = - 1000000000"

definition float_mask_from_bitmask :: "bitmask \<Rightarrow> nat \<Rightarrow> int list" where
  "float_mask_from_bitmask m n = map (\<lambda>i. if has_bit m i then 0 else disallowed_token_mask) [0..<n]"

lemma num_words_bound: "i < vocab_size g \<Longrightarrow> i div 32 < bitmask_num_words g"
  by (simp add: bitmask_num_words_def)

lemma has_bit_iff: "has_bit m i \<longleftrightarrow> bit (m ! (i div 32)) (i mod 32)"
  by (simp add: has_bit_def token_bit_def bit_iff_and_push_bit_not_eq_0)

lemma bit_token_bit: "j < 32 \<Longrightarrow> bit (token_bit i) j \<longleftrightarrow> j = i mod 32"
  by (auto simp: token_bit_def bit_simps)

lemma same_bit: "i div 32 = j div 32 \<Longrightarrow> i mod 32 = j mod 32 \<longleftrightarrow> i = (j::nat)"
  by (metis div_mult_mod_eq)

lemma length_set_token_bit [simp]: "length (set_token_bit i m) = length m" "length (clear_token_bit i m) = length m"
  by (simp_all add: set_token_bit_def clear_token_bit_def)

lemma has_bit_set [simp]:
  "i div 32 < length m \<Longrightarrow> has_bit (set_token_bit i m) j \<longleftrightarrow> j = i \<or> has_bit m j"
  using same_bit [of j i]
  by (cases "i div 32 = j div 32") (auto simp: has_bit_iff set_token_bit_def bit_or_iff bit_token_bit nth_list_update)

lemma has_bit_clear [simp]:
  "i div 32 < length m \<Longrightarrow> has_bit (clear_token_bit i m) j \<longleftrightarrow> j \<noteq> i \<and> has_bit m j"
  using same_bit [of j i]
  by (cases "i div 32 = j div 32")
     (auto simp: has_bit_iff clear_token_bit_def bit_and_iff bit_not_iff bit_token_bit nth_list_update)

lemma has_bit_zero [simp]: "i div 32 < n \<Longrightarrow> \<not> has_bit (replicate n 0) i"
  by (simp add: has_bit_iff)

lemma has_bit_ones: "i div 32 < n \<Longrightarrow> has_bit (replicate n 0xFFFFFFFF) i"
proof -
  have "(0xFFFFFFFF :: u32) = mask 32" by (simp add: mask_eq_exp_minus_1)
  then show "i div 32 < n \<Longrightarrow> ?thesis" unfolding \<open>0xFFFFFFFF = mask 32\<close> by (simp add: has_bit_iff bit_mask_iff)
qed

section \<open>The computed mask\<close>

lemma set_loop:
  "\<forall>i \<in> set is. i div 32 < length m \<Longrightarrow>
    length (foldl (\<lambda>m i. if P i then set_token_bit i m else m) m is) = length m
    \<and> (has_bit (foldl (\<lambda>m i. if P i then set_token_bit i m else m) m is) j \<longleftrightarrow> has_bit m j \<or> (j \<in> set is \<and> P j))"
  by (induction "is" arbitrary: m) auto

lemma clear_stop_bits:
  assumes "length m = bitmask_num_words g"
  shows "length (clear_stop g m t) = bitmask_num_words g"
    "j < vocab_size g \<Longrightarrow> has_bit (clear_stop g m t) j \<longleftrightarrow> has_bit m j \<and> int j \<noteq> t"
  using assms num_words_bound [of "nat t" g] by (auto simp: clear_stop_def)

lemma clear_loop:
  assumes "length m = bitmask_num_words g"
  shows "length (foldl (clear_stop g) m ts) = bitmask_num_words g"
    "j < vocab_size g \<Longrightarrow> has_bit (foldl (clear_stop g) m ts) j \<longleftrightarrow> has_bit m j \<and> int j \<notin> set ts"
  using assms by (induction ts arbitrary: m) (simp_all add: clear_stop_bits conj_ac)

lemma last_word_index:
  assumes "(v :: nat) mod 32 \<noteq> 0"
  shows "(v + 31) div 32 - 1 = v div 32"
proof -
  define q r where "q = v div 32" and "r = v mod 32"
  have v: "v = 32 * q + r" "0 < r" "r < 32" using assms by (simp_all add: q_def r_def)
  have "(v + 31) div 32 = Suc q" unfolding v(1) using v(2,3) by (intro div_nat_eqI) simp_all
  then show ?thesis by (simp add: q_def)
qed

lemma reasoning_bitmask_bits:
  assumes "j < vocab_size g"
  shows "has_bit (reasoning_bitmask g) j \<longleftrightarrow> int j \<notin> set (stop_token_ids g)"
proof -
  let ?m = "foldl (clear_stop g) (replicate (bitmask_num_words g) 0xFFFFFFFF) (stop_token_ids g)"
  let ?r = "vocab_size g mod 32"
  have m: "length ?m = bitmask_num_words g" "has_bit ?m j \<longleftrightarrow> int j \<notin> set (stop_token_ids g)"
    using clear_loop [of "replicate (bitmask_num_words g) 0xFFFFFFFF" g] assms
    by (simp_all add: has_bit_ones num_words_bound)
  have keep: "bit (push_bit ?r (1 :: u32) - 1) k \<longleftrightarrow> k < ?r" if "k < 32" for k
  proof -
    have "push_bit ?r (1 :: u32) - 1 = mask ?r" by (simp add: mask_eq_exp_minus_1 push_bit_eq_mult)
    then show ?thesis using that by (simp add: bit_mask_iff)
  qed
  have "has_bit (?m[length ?m - 1 := last ?m AND (push_bit ?r 1 - 1)]) j \<longleftrightarrow> has_bit ?m j"
    if "?r \<noteq> 0" "?m \<noteq> []"
  proof (cases "j div 32 = length ?m - 1")
    case True
    have "j mod 32 < ?r"
    proof -
      have "length ?m - 1 = vocab_size g div 32" using last_word_index [OF that(1)] unfolding m(1) by (simp only: bitmask_num_words_def)
      then show ?thesis using True assms div_mult_mod_eq [of j 32] div_mult_mod_eq [of "vocab_size g" 32] by linarith
    qed
    moreover have "last ?m = ?m ! (j div 32)" using that(2) True by (simp add: last_conv_nth)
    ultimately show ?thesis using True that(2) keep [of "j mod 32"] by (simp add: has_bit_iff bit_and_iff)
  next
    case False
    then show ?thesis by (simp add: has_bit_iff)
  qed
  then show ?thesis using m(2) by (auto simp: reasoning_bitmask_def Let_def)
qed

lemma reasoning_accepts:
  assumes "json_run g r out s" "reasoning_phase s" "token_in_vocab g t"
  shows "fst (accept_token s t) \<longleftrightarrow> t \<notin> set (stop_token_ids g)"
  using accept_token_stop [OF run_wf [OF assms(1)] run_fields(1,2) [OF assms(1)] assms(3)]
    accept_token_reasoning [OF run_fields(1,2) [OF assms(1)] assms(3) _ assms(2)] assms(2)
  by (cases "t \<in> set (stop_token_ids g)") auto

lemma computed_bits:
  assumes "json_run g r out s" "i < vocab_size g"
  shows "has_bit (compute_allowed_bitmask g s) i \<longleftrightarrow> can_accept_token s (int i)"
proof (cases "reasoning_phase s")
  case True
  have "token_in_vocab g (int i)" using assms(2) by (simp add: token_in_vocab_def)
  then show ?thesis
    using reasoning_accepts [OF assms(1) True] reasoning_bitmask_bits [OF assms(2)] True run_fields(1) [OF assms(1)]
    by (simp add: compute_allowed_bitmask_def)
next
  case False
  have "\<forall>k \<in> set [0..<vocab_size g]. k div 32 < length (replicate (bitmask_num_words g) (0 :: u32))"
    by (simp add: num_words_bound)
  from set_loop [OF this, of "\<lambda>i. can_accept_token s (int i)" i] show ?thesis
    using False run_fields(1) [OF assms(1)] assms(2) num_words_bound [OF assms(2)]
    by (simp add: compute_allowed_bitmask_def)
qed

section \<open>The cached mask\<close>

record cached_mask =
  mask_words :: bitmask
  float_mask_cpu :: "int list"

definition build_cached_mask :: "json_grammar \<Rightarrow> json_state \<Rightarrow> cached_mask" where
  "build_cached_mask g s =
    (let m = compute_allowed_bitmask g s
     in \<lparr>mask_words = m, float_mask_cpu = float_mask_from_bitmask m (vocab_size g)\<rparr>)"

definition reasoning_cached_mask :: "json_grammar \<Rightarrow> cached_mask" where
  "reasoning_cached_mask g = \<lparr>mask_words = reasoning_bitmask g,
     float_mask_cpu = float_mask_from_bitmask (reasoning_bitmask g) (vocab_size g)\<rparr>"

type_synonym mask_cache = "(u8 list, cached_mask) lru_cache"

text \<open>One thread's run of \<open>cached_mask_for_state\<close>; \<open>None\<close> is a failed \<open>CHECK\<close>.\<close>

definition cached_mask_for_state :: "json_grammar \<Rightarrow> json_state \<Rightarrow> mask_cache \<Rightarrow> (cached_mask \<times> mask_cache) option" where
  "cached_mask_for_state g s c =
    (if grammar s \<noteq> Some g \<or> \<not> valid s then None
     else if reasoning_phase s then Some (reasoning_cached_mask g, c)
     else case cache_lookup (transition_cache_key s) c of
        (Some m, c') \<Rightarrow> Some (m, c')
      | (None, c') \<Rightarrow>
          (let m = build_cached_mask g s in
           if \<not> list_ex (\<lambda>w. w \<noteq> 0) (mask_words m) then None
           else cache_publish (transition_cache_key s) m c'))"

definition allowed_token_bitmask :: "json_grammar \<Rightarrow> json_state \<Rightarrow> mask_cache \<Rightarrow> (bitmask \<times> mask_cache) option" where
  "allowed_token_bitmask g s c =
    (if \<not> valid s then Some (replicate (bitmask_num_words g) 0, c)
     else map_option (\<lambda>(m, c'). (mask_words m, c')) (cached_mask_for_state g s c))"

definition allowed_token_ids :: "json_grammar \<Rightarrow> json_state \<Rightarrow> mask_cache \<Rightarrow> (token_id list \<times> mask_cache) option" where
  "allowed_token_ids g s c =
    map_option (\<lambda>(m, c'). (map int (filter (has_bit m) [0..<vocab_size g]), c')) (allowed_token_bitmask g s c)"

text \<open>The states whose masks the cache holds: reached and past the reasoning phase.\<close>

definition mask_state :: "json_grammar \<Rightarrow> json_state \<Rightarrow> bool" where
  "mask_state g s \<longleftrightarrow> \<not> reasoning_phase s \<and> (\<exists>r out. json_run g r out s)"

abbreviation mask_cache_reach :: "json_grammar \<Rightarrow> mask_cache \<Rightarrow> bool" where
  "mask_cache_reach g \<equiv> cache_reach transition_cache_key (build_cached_mask g) (mask_state g)"

lemma conf_accept:
  assumes "wf_state s" "wf_state s'" "valid s" "valid s'" "grammar s = Some g" "grammar s' = Some g"
    and "\<not> reasoning_phase s" "\<not> reasoning_phase s'" "conf_of s = conf_of s'"
  shows "fst (accept_token s t) = fst (accept_token s' t)"
proof (cases "token_in_vocab g t")
  case True
  have complete: "root_complete s = root_complete s'" using assms(9) by (simp add: conf_done [symmetric])
  show ?thesis
  proof (cases "t \<in> set (stop_token_ids g)")
    case stop: True
    then show ?thesis using accept_token_stop [OF assms(1,3,5) True stop] accept_token_stop [OF assms(2,4,6) True stop]
      assms(7,8) complete by simp
  next
    case False
    show ?thesis
      using accept_token_plain [OF assms(1,3,5,7) True False] accept_token_plain [OF assms(2,4,6,8) True False]
        assms(9) complete by (auto split: if_splits option.splits)
  qed
next
  case False
  have "fst (accept_token u t) = False" if "grammar u = Some g" for u
    using False accept_token_vocab [OF that, of t] by (cases "accept_token u t") auto
  then show ?thesis using assms(5,6) by simp
qed

text \<open>Two reached states with the same key allow the same tokens.\<close>

lemma same_key_same_mask:
  assumes "mask_state g s" "mask_state g s'" "transition_cache_key s = transition_cache_key s'"
  shows "build_cached_mask g s = build_cached_mask g s'"
proof -
  obtain r out r' out' where run: "json_run g r out s" "json_run g r' out' s'" and no: "\<not> reasoning_phase s" "\<not> reasoning_phase s'"
    using assms(1,2) by (auto simp: mask_state_def)
  note wf = run_wf [OF run(1)] run_wf [OF run(2)]
  note fields = run_fields(1,2) [OF run(1)] run_fields(1,2) [OF run(2)]
  have "conf_of s = conf_of s'" using cache_key_conf [OF wf no assms(3)] by simp
  then have "can_accept_token s t = can_accept_token s' t" for t
    using conf_accept [OF wf fields(1,3,2,4) no] by simp
  then show ?thesis using fields(1,3) no by (simp add: build_cached_mask_def compute_allowed_bitmask_def Let_def)
qed

interpretation mask_memo: memo_key transition_cache_key "build_cached_mask g" "mask_state g" for g
  by unfold_locales (rule same_key_same_mask)

lemma cached_mask_sound:
  assumes "mask_cache_reach g c" "json_run g r out s" "cached_mask_for_state g s c = Some (m, c')"
  shows "m = build_cached_mask g s \<and> mask_cache_reach g c'"
proof (cases "reasoning_phase s")
  case True
  then show ?thesis using assms(1,3) run_fields(1,2) [OF assms(2)]
    by (simp add: cached_mask_for_state_def build_cached_mask_def reasoning_cached_mask_def compute_allowed_bitmask_def)
next
  case False
  then have good: "mask_state g s" using assms(2) by (auto simp: mask_state_def)
  let ?k = "transition_cache_key s"
  have c1: "mask_cache_reach g (snd (cache_lookup ?k c))" by (rule reach_lookup [OF assms(1)])
  show ?thesis
  proof (cases "fst (cache_lookup ?k c)")
    case (Some m')
    then have "m' = m" "c' = snd (cache_lookup ?k c)"
      using assms(3) False run_fields(1,2) [OF assms(2)] by (auto simp: cached_mask_for_state_def split: prod.splits)
    then show ?thesis using mask_memo.lookup_sound [OF assms(1) good Some] c1 by simp
  next
    case None
    then have "cache_publish ?k (build_cached_mask g s) (snd (cache_lookup ?k c)) = Some (m, c')"
      using assms(3) False run_fields(1,2) [OF assms(2)]
      by (auto simp: cached_mask_for_state_def Let_def split: prod.splits if_splits)
    then show ?thesis using mask_memo.publish_sound [OF c1 good] by auto
  qed
qed

lemma length_reasoning_bitmask: "length (reasoning_bitmask g) = bitmask_num_words g"
  using clear_loop(1) [of "replicate (bitmask_num_words g) 0xFFFFFFFF" g "stop_token_ids g"]
  by (simp add: reasoning_bitmask_def Let_def)

lemma length_computed [simp]: "length (compute_allowed_bitmask g s) = bitmask_num_words g"
proof -
  have "\<forall>k \<in> set [0..<vocab_size g]. k div 32 < length (replicate (bitmask_num_words g) (0 :: u32))"
    by (simp add: num_words_bound)
  from set_loop [OF this, of "\<lambda>i. can_accept_token s (int i)" 0] show ?thesis
    by (simp add: compute_allowed_bitmask_def length_reasoning_bitmask)
qed

text \<open>A mask past the reasoning phase is zero exactly when no token is allowed.\<close>

lemma computed_nonzero:
  assumes "json_run g r out s" "\<not> reasoning_phase s"
  shows "list_ex (\<lambda>w. w \<noteq> 0) (compute_allowed_bitmask g s) \<longleftrightarrow> (\<exists>i < vocab_size g. can_accept_token s (int i))"
proof
  assume "list_ex (\<lambda>w. w \<noteq> 0) (compute_allowed_bitmask g s)"
  then obtain k where k: "k < bitmask_num_words g" "compute_allowed_bitmask g s ! k \<noteq> 0"
    by (auto simp: list_ex_iff in_set_conv_nth)
  then obtain j where "bit (compute_allowed_bitmask g s ! k) j" using bit_eq_iff [of _ 0] by fastforce
  then have j: "bit (compute_allowed_bitmask g s ! k) j" "j < 32" using bit_imp_le_length by fastforce+
  let ?i = "32 * k + j"
  have i: "?i div 32 = k" "?i mod 32 = j" using j(2) by simp_all
  then have hb: "has_bit (compute_allowed_bitmask g s) ?i" using j(1) by (simp add: has_bit_iff)
  have "\<forall>k \<in> set [0..<vocab_size g]. k div 32 < length (replicate (bitmask_num_words g) (0 :: u32))"
    by (simp add: num_words_bound)
  from set_loop [OF this, of "\<lambda>i. can_accept_token s (int i)" ?i] have "?i < vocab_size g"
    using hb assms(2) run_fields(1) [OF assms(1)] i(1) k(1) by (simp add: compute_allowed_bitmask_def)
  then show "\<exists>i < vocab_size g. can_accept_token s (int i)" using computed_bits [OF assms(1)] hb by blast
next
  assume "\<exists>i < vocab_size g. can_accept_token s (int i)"
  then obtain i where i: "i < vocab_size g" "has_bit (compute_allowed_bitmask g s) i"
    using computed_bits [OF assms(1)] by blast
  then have "compute_allowed_bitmask g s ! (i div 32) \<noteq> 0" by (auto simp: has_bit_iff)
  moreover have "compute_allowed_bitmask g s ! (i div 32) \<in> set (compute_allowed_bitmask g s)"
    using num_words_bound [OF i(1)] by (intro nth_mem) simp
  ultimately show "list_ex (\<lambda>w. w \<noteq> 0) (compute_allowed_bitmask g s)" by (auto simp: list_ex_iff)
qed

lemma cached_mask_defined:
  assumes "mask_cache_reach g c" "json_run g r out s"
    and "\<not> reasoning_phase s \<longrightarrow> (\<exists>i < vocab_size g. can_accept_token s (int i))"
  shows "\<exists>c'. cached_mask_for_state g s c = Some (build_cached_mask g s, c')"
proof -
  have "cached_mask_for_state g s c \<noteq> None"
  proof (cases "reasoning_phase s")
    case False
    then have good: "mask_state g s" using assms(2) by (auto simp: mask_state_def)
    have "list_ex (\<lambda>w. w \<noteq> 0) (mask_words (build_cached_mask g s))"
      using computed_nonzero [OF assms(2) False] assms(3) False by (simp add: build_cached_mask_def Let_def)
    then show ?thesis
      using mask_memo.publish_sound [OF reach_lookup [OF assms(1)] good, of "transition_cache_key s"] False
        run_fields(1,2) [OF assms(2)]
      by (auto simp: cached_mask_for_state_def Let_def split: prod.splits option.splits)
  qed (use run_fields(1,2) [OF assms(2)] in \<open>simp add: cached_mask_for_state_def\<close>)
  then show ?thesis using cached_mask_sound [OF assms(1,2)] by auto
qed

section \<open>Batches of masks\<close>

text \<open>Each grammar object has its own cache.\<close>

type_synonym mask_caches = "json_grammar \<Rightarrow> mask_cache"

definition batch_grammar :: "json_state list \<Rightarrow> json_grammar option" where
  "batch_grammar ss = (case dropWhile (\<lambda>s. grammar s = None) ss of [] \<Rightarrow> None | s # _ \<Rightarrow> grammar s)"

definition bitmask_row :: "json_grammar \<Rightarrow> json_state \<Rightarrow> mask_caches \<Rightarrow> (bitmask \<times> mask_caches) option" where
  "bitmask_row g0 s cs = (case grammar s of
     None \<Rightarrow> Some (replicate (bitmask_num_words g0) 0xFFFFFFFF, cs)
   | Some g \<Rightarrow>
       if vocab_size g \<noteq> vocab_size g0 then None
       else if valid s then
         (case cached_mask_for_state g s (cs g) of
            None \<Rightarrow> None
          | Some (m, c') \<Rightarrow> Some (mask_words m, cs(g := c')))
       else Some (replicate (bitmask_num_words g0) 0, cs))"

fun bitmask_rows :: "json_grammar \<Rightarrow> json_state list \<Rightarrow> mask_caches \<Rightarrow> (bitmask list \<times> mask_caches) option" where
  "bitmask_rows g0 [] cs = Some ([], cs)"
| "bitmask_rows g0 (s # ss) cs = (case bitmask_row g0 s cs of
     None \<Rightarrow> None
   | Some (row, cs') \<Rightarrow> map_option (\<lambda>(rows, cs''). (row # rows, cs'')) (bitmask_rows g0 ss cs'))"

text \<open>The undefined tensor of an empty or wholly unconstrained batch is an inner \<open>None\<close>.\<close>

definition build_json_object_filter_bitmask ::
    "json_state list \<Rightarrow> mask_caches \<Rightarrow> (bitmask list option \<times> mask_caches) option" where
  "build_json_object_filter_bitmask ss cs = (case batch_grammar ss of
     None \<Rightarrow> Some (None, cs)
   | Some g0 \<Rightarrow> map_option (\<lambda>(rows, cs'). (Some rows, cs')) (bitmask_rows g0 ss cs))"

text \<open>The float rows: an invalid state fails the \<open>CHECK\<close> of \<open>cached_mask_for_state\<close> here.\<close>

definition float_row :: "json_grammar \<Rightarrow> json_state \<Rightarrow> mask_caches \<Rightarrow> (int list \<times> mask_caches) option" where
  "float_row g0 s cs = (case grammar s of
     None \<Rightarrow> Some (replicate (vocab_size g0) 0, cs)
   | Some g \<Rightarrow>
       if vocab_size g \<noteq> vocab_size g0 then None
       else (case cached_mask_for_state g s (cs g) of
            None \<Rightarrow> None
          | Some (m, c') \<Rightarrow> Some (float_mask_cpu m, cs(g := c'))))"

fun float_rows :: "json_grammar \<Rightarrow> json_state list \<Rightarrow> mask_caches \<Rightarrow> (int list list \<times> mask_caches) option" where
  "float_rows g0 [] cs = Some ([], cs)"
| "float_rows g0 (s # ss) cs = (case float_row g0 s cs of
     None \<Rightarrow> None
   | Some (row, cs') \<Rightarrow> map_option (\<lambda>(rows, cs''). (row # rows, cs'')) (float_rows g0 ss cs'))"

definition build_json_object_filter_mask ::
    "json_state list \<Rightarrow> mask_caches \<Rightarrow> (int list list option \<times> mask_caches) option" where
  "build_json_object_filter_mask ss cs = (case batch_grammar ss of
     None \<Rightarrow> Some (None, cs)
   | Some g0 \<Rightarrow> map_option (\<lambda>(rows, cs'). (Some rows, cs')) (float_rows g0 ss cs))"

text \<open>\<open>apply_token_bitmask_inplace\<close> on the CPU: a row of logits and its words; \<open>add\<close> is the tensor library's
  floating-point addition.  \<open>None\<close> is a failed \<open>CHECK\<close> on the shapes.\<close>

definition token_allowed :: "bitmask \<Rightarrow> nat \<Rightarrow> bool" where
  "token_allowed row i \<longleftrightarrow> drop_bit (i mod 32) (ucast (row ! (i div 32)) AND 0xFFFFFFFF :: u64) AND 1 \<noteq> 0"

definition apply_row :: "('f \<Rightarrow> int \<Rightarrow> 'f) \<Rightarrow> 'f list \<Rightarrow> bitmask \<Rightarrow> 'f list" where
  "apply_row add logits row =
    map (\<lambda>i. add (logits ! i) (if token_allowed row i then 0 else disallowed_token_mask)) [0..<length logits]"

definition apply_token_bitmask_inplace ::
    "('f \<Rightarrow> int \<Rightarrow> 'f) \<Rightarrow> nat \<Rightarrow> 'f list list \<Rightarrow> bitmask list \<Rightarrow> 'f list list option" where
  "apply_token_bitmask_inplace add vocab logits ms =
    (if length logits \<noteq> length ms \<or> \<not> list_all (\<lambda>m. length m = (vocab + 31) div 32) ms then None
     else Some (map2 (apply_row add) logits ms))"

lemma token_allowed_bit: "token_allowed row i \<longleftrightarrow> has_bit row i"
proof -
  have one: "x AND 1 \<noteq> (0 :: u64) \<longleftrightarrow> bit x 0" for x by (simp add: and_one_eq bit_0 odd_iff_mod_2_eq_one)
  have ff: "(0xFFFFFFFF :: u64) = mask 32" by (simp add: mask_eq_exp_minus_1)
  have "i mod 32 < 32" by simp
  moreover from this have "i mod 32 < 64" by linarith
  ultimately show ?thesis unfolding token_allowed_def one ff has_bit_iff
    by (simp add: bit_drop_bit_eq bit_and_iff bit_mask_iff bit_ucast_iff del: bit_0)
qed

text \<open>A state of a batch: unconstrained, invalidated, or reached by a run of its grammar that is still in the
  reasoning phase or allows some token.\<close>

definition batch_state :: "json_state \<Rightarrow> bool" where
  "batch_state s \<longleftrightarrow> grammar s = None \<or> \<not> valid s \<or> (\<exists>g r out. json_run g r out s)"

definition row_exact :: "nat \<Rightarrow> json_state \<Rightarrow> bitmask \<Rightarrow> bool" where
  "row_exact n s row \<longleftrightarrow> (\<forall>i < n. has_bit row i \<longleftrightarrow> grammar s = None \<or> can_accept_token s (int i))"

lemma bitmask_row_exact:
  assumes "batch_state s" "\<forall>g. mask_cache_reach g (cs g)" "bitmask_row g0 s cs = Some (row, cs')"
  shows "row_exact (vocab_size g0) s row \<and> (\<forall>g. mask_cache_reach g (cs' g))"
proof (cases "grammar s")
  case None
  then show ?thesis using assms(2,3) by (auto simp: bitmask_row_def row_exact_def num_words_bound intro!: has_bit_ones)
next
  case (Some g)
  show ?thesis
  proof (cases "valid s")
    case False
    then have "\<not> can_accept_token s t" for t using Some by (simp add: accept_token_def)
    then show ?thesis using assms(2,3) Some False by (auto simp: bitmask_row_def row_exact_def num_words_bound split: if_splits)
  next
    case True
    then obtain r out where run: "json_run g r out s"
      using assms(1) Some run_fields(2) unfolding batch_state_def by fastforce
    obtain m c' where m: "cached_mask_for_state g s (cs g) = Some (m, c')" "row = mask_words m" "cs' = cs(g := c')"
      and voc: "vocab_size g = vocab_size g0"
      using assms(3) Some True by (auto simp: bitmask_row_def split: if_splits option.splits)
    have "m = build_cached_mask g s \<and> mask_cache_reach g c'" using cached_mask_sound [OF _ run m(1)] assms(2) by simp
    then show ?thesis using m assms(2) computed_bits [OF run] Some
      by (simp add: row_exact_def voc [symmetric] build_cached_mask_def Let_def)
  qed
qed

lemma bitmask_rows_exact:
  assumes "list_all batch_state ss" "\<forall>g. mask_cache_reach g (cs g)" "bitmask_rows g0 ss cs = Some (rows, cs')"
  shows "list_all2 (row_exact (vocab_size g0)) ss rows \<and> (\<forall>g. mask_cache_reach g (cs' g))"
  using assms
proof (induction ss arbitrary: cs rows cs')
  case (Cons s ss)
  then obtain row cs1 rows1 where r: "bitmask_row g0 s cs = Some (row, cs1)" "bitmask_rows g0 ss cs1 = Some (rows1, cs')"
      "rows = row # rows1" by (auto split: option.splits)
  have row: "row_exact (vocab_size g0) s row" "\<forall>g. mask_cache_reach g (cs1 g)"
    using bitmask_row_exact [OF _ Cons.prems(2) r(1)] Cons.prems(1) by simp_all
  show ?case using Cons.IH [OF _ row(2) r(2)] Cons.prems(1) row(1) r(3) by simp
qed simp

section \<open>Building a grammar from a tokenizer\<close>

text \<open>The operations of the \<open>Tokenizer\<close> interface that \<open>create_from_tokenizer\<close> calls.\<close>

record tokenizer =
  tok_vocab_size :: nat
  tok_decode_token :: "token_id \<Rightarrow> string"
  tok_id_to_token :: "token_id \<Rightarrow> string"
  tok_encode :: "string \<Rightarrow> token_id list option"

datatype grammar_error =
  EMPTY_VOCABULARY | MODEL_VOCABULARY_TOO_SMALL int nat | NO_DECODED_PIECES | NO_REASONING_MARKER

definition token_piece_of :: "tokenizer \<Rightarrow> nat \<Rightarrow> string" where
  "token_piece_of tok i = (let piece = tok_decode_token tok (int i)
     in if piece = [] then tok_id_to_token tok (int i) else piece)"

definition create_from_tokenizer ::
    "tokenizer \<Rightarrow> token_id \<Rightarrow> token_id list \<Rightarrow> int \<Rightarrow> token_id list \<Rightarrow> grammar_error + json_grammar" where
  "create_from_tokenizer tok eos stops model_vocab marker =
    (if tok_vocab_size tok = 0 then Inl EMPTY_VOCABULARY
     else let n = (if model_vocab \<le> 0 then int (tok_vocab_size tok) else model_vocab) in
      if n < int (tok_vocab_size tok) then Inl (MODEL_VOCABULARY_TOO_SMALL n (tok_vocab_size tok))
      else let pieces = map (token_piece_of tok) [0..<tok_vocab_size tok] in
       if filter (\<lambda>p. p \<noteq> []) pieces = [] then Inl NO_DECODED_PIECES
       else Inr \<lparr>token_pieces = pieces @ replicate (nat n - tok_vocab_size tok) [],
                  stop_token_ids = (if 0 \<le> eos then List.insert eos stops else stops),
                  reasoning_end_token_ids = marker\<rparr>)"

definition create_for_reasoning ::
    "tokenizer \<Rightarrow> token_id \<Rightarrow> token_id list \<Rightarrow> int \<Rightarrow> bool \<Rightarrow> grammar_error + json_grammar" where
  "create_for_reasoning tok eos stops model_vocab reasoning =
    (if reasoning then
       (case tok_encode tok ''</think>'' of
          None \<Rightarrow> Inl NO_REASONING_MARKER
        | Some [] \<Rightarrow> Inl NO_REASONING_MARKER
        | Some marker \<Rightarrow> create_from_tokenizer tok eos stops model_vocab marker)
     else create_from_tokenizer tok eos stops model_vocab [])"

section \<open>Properties\<close>

text \<open>C8.  The bit of token \<open>i\<close> in the mask computed for a reached state says whether the state accepts the
  token, in the reasoning phase as after it.\<close>

theorem mask_bits_exact:
  assumes "json_run g r out s" "i < vocab_size g"
  shows "has_bit (compute_allowed_bitmask g s) i \<longleftrightarrow> can_accept_token s (int i)"
  by (rule computed_bits [OF assms])

lemma mask_bits_exact_witness: "\<not> has_bit (compute_allowed_bitmask demo_grammar demo_open) 2"
proof -
  have "2 < vocab_size demo_grammar" "\<not> can_accept_token demo_open (int 2)" by code_simp+
  then show ?thesis using mask_bits_exact [OF demo_run] by blast
qed


lemma demo_mask: "\<exists>c. cached_mask_for_state demo_grammar demo_open empty_cache = Some (build_cached_mask demo_grammar demo_open, c)"
proof -
  have "\<exists>i < vocab_size demo_grammar. can_accept_token demo_open (int i)"
  proof (intro exI conjI)
    show "1 < vocab_size demo_grammar" "can_accept_token demo_open (int 1)" by code_simp+
  qed
  then show ?thesis using cached_mask_defined [OF reach_empty demo_run] by blast
qed


text \<open>The cached mask exists, no \<open>CHECK\<close> failing, whenever the state is in the reasoning phase or
  some token of the vocabulary is allowed.\<close>

theorem cached_mask_total:
  assumes "mask_cache_reach g c" "json_run g r out s"
    and "reasoning_phase s \<or> (\<exists>i < vocab_size g. allowed_next g out (int i))"
  shows "cached_mask_for_state g s c \<noteq> None"
proof -
  have "\<not> reasoning_phase s \<longrightarrow> (\<exists>i < vocab_size g. can_accept_token s (int i))"
    using assms(3) run_allowed [OF assms(2)] by auto
  then show ?thesis using cached_mask_defined [OF assms(1,2)] by auto
qed

lemma cached_mask_total_witness: "cached_mask_for_state demo_grammar (initial_state demo_grammar True) empty_cache \<noteq> None"
proof -
  have "reasoning_phase (initial_state demo_grammar True)" by (simp add: initial_state_def)
  then show ?thesis by (intro cached_mask_total [OF reach_empty run_init]) simp
qed

text \<open>The end-to-end effect of a constrained batch: after the batch bitmask is applied, the logit of
  token \<open>i\<close> in a row is unchanged if the row is unconstrained or its state accepts the token, and lowered by
  the disallowed mask otherwise; a row whose state is invalid disallows every token.\<close>

theorem batch_logits:
  assumes "list_all batch_state ss" "\<forall>g. mask_cache_reach g (cs g)" "batch_grammar ss = Some g0"
    and "build_json_object_filter_bitmask ss cs = Some (Some rows, cs')"
    and "apply_token_bitmask_inplace add (vocab_size g0) logits rows = Some logits'"
    and "k < length ss" "length (logits ! k) = vocab_size g0" "i < vocab_size g0"
  shows "logits' ! k ! i =
    add (logits ! k ! i) (if grammar (ss ! k) = None \<or> can_accept_token (ss ! k) (int i) then 0 else disallowed_token_mask)"
proof -
  have "bitmask_rows g0 ss cs = Some (rows, cs')"
    using assms(3,4) by (auto simp: build_json_object_filter_bitmask_def)
  then have rows: "list_all2 (row_exact (vocab_size g0)) ss rows" using bitmask_rows_exact [OF assms(1,2)] by blast
  then have len: "length rows = length ss" by (simp add: list_all2_lengthD)
  have "row_exact (vocab_size g0) (ss ! k) (rows ! k)" using rows assms(6) by (rule list_all2_nthD)
  moreover have "logits' = map2 (apply_row add) logits rows" "length logits = length rows"
    using assms(5) by (auto simp: apply_token_bitmask_inplace_def split: if_splits)
  ultimately show ?thesis using assms(6-8) len
    by (simp add: apply_row_def token_allowed_bit row_exact_def)
qed

lemma demo_batch:
  "\<exists>rows cs. build_json_object_filter_bitmask [demo_open, default_state] (\<lambda>g. empty_cache) = Some (Some rows, cs)
     \<and> length rows = 2 \<and> list_all (\<lambda>m. length m = 1) rows"
proof -
  have g: "grammar demo_open = Some demo_grammar" "valid demo_open" using run_fields [OF demo_run] by simp_all
  obtain c where "cached_mask_for_state demo_grammar demo_open empty_cache = Some (build_cached_mask demo_grammar demo_open, c)"
    using demo_mask by blast
  moreover have "bitmask_num_words demo_grammar = 1" by code_simp
  ultimately show ?thesis using g
    by (simp add: build_json_object_filter_bitmask_def batch_grammar_def bitmask_row_def default_state_def build_cached_mask_def Let_def)
qed

lemma batch_logits_witness:
  "\<exists>rows cs logits. build_json_object_filter_bitmask [demo_open, default_state] (\<lambda>g. empty_cache) = Some (Some rows, cs)
     \<and> apply_token_bitmask_inplace (+) 4 [[5, 5, 5, 5], [5, 5, 5, 5]] rows = Some logits
     \<and> logits ! 0 ! 1 = 5 \<and> logits ! 0 ! 2 = 5 - 1000000000 \<and> logits ! 1 ! 2 = 5"
proof -
  obtain rows cs where b: "build_json_object_filter_bitmask [demo_open, default_state] (\<lambda>g. empty_cache) = Some (Some rows, cs)"
      "length rows = 2" "list_all (\<lambda>m. length m = 1) rows" using demo_batch by blast
  then obtain logits where a: "apply_token_bitmask_inplace (+) 4 [[5, 5, 5, 5], [5, 5, 5, 5]] rows = Some logits"
    by (simp add: apply_token_bitmask_inplace_def)
  have voc: "vocab_size demo_grammar = 4" by code_simp
  have st: "list_all batch_state [demo_open, default_state]"
    using demo_run by (auto simp: batch_state_def default_state_def)
  have gr: "batch_grammar [demo_open, default_state] = Some demo_grammar"
    using run_fields(2) [OF demo_run] by (simp add: batch_grammar_def)
  have reach: "\<forall>g. mask_cache_reach g empty_cache" by (simp add: reach_empty)
  note eff = batch_logits [OF st reach gr b(1) a [folded voc], simplified voc]
  have acc: "can_accept_token demo_open 1" "\<not> can_accept_token demo_open 2" by code_simp+
  have "logits ! 0 ! 1 = 5" "logits ! 0 ! 2 = 5 - 1000000000" "logits ! 1 ! 2 = 5"
    using eff [of 0 1] eff [of 0 2] eff [of 1 2] acc run_fields(2) [OF demo_run]
    by (simp_all add: default_state_def disallowed_token_mask_def)
  then show ?thesis using a b(1) by blast
qed

text \<open>A grammar built from a tokenizer covers the model's vocabulary, stops at the given stop ids and at
  the end-of-sequence id, and never allows a token past the tokenizer's vocabulary while the object is
  incomplete.\<close>

theorem created_grammar:
  assumes "create_from_tokenizer tok eos stops model_vocab marker = Inr g"
  shows "vocab_size g = (if model_vocab \<le> 0 then tok_vocab_size tok else nat model_vocab)
    \<and> set (stop_token_ids g) = set stops \<union> (if 0 \<le> eos then {eos} else {})
    \<and> (\<forall>out i. tok_vocab_size tok \<le> i \<longrightarrow> \<not> json_object_text out \<longrightarrow> \<not> allowed_next g out (int i))"
proof -
  have g: "token_pieces g = map (token_piece_of tok) [0..<tok_vocab_size tok]
        @ replicate ((if model_vocab \<le> 0 then tok_vocab_size tok else nat model_vocab) - tok_vocab_size tok) []"
      "stop_token_ids g = (if 0 \<le> eos then List.insert eos stops else stops)"
      "\<not> (0 < model_vocab \<and> model_vocab < int (tok_vocab_size tok))"
    using assms by (auto simp: create_from_tokenizer_def Let_def split: if_splits)
  then have "vocab_size g = (if model_vocab \<le> 0 then tok_vocab_size tok else nat model_vocab)"
    by (auto simp: vocab_size_def)
  moreover have "token_pieces g ! i = []" if "tok_vocab_size tok \<le> i" "i < vocab_size g" for i
    using that g(1) by (auto simp: nth_append vocab_size_def)
  ultimately show ?thesis using g(2) by (auto simp: allowed_next_def token_in_vocab_def)
qed

definition demo_tokenizer :: tokenizer where
  "demo_tokenizer = \<lparr>tok_vocab_size = 2, tok_decode_token = (\<lambda>i. if i = 0 then ''{'' else []),
     tok_id_to_token = (\<lambda>i. ''}''), tok_encode = (\<lambda>_. Some [7])\<rparr>"

lemma created_grammar_witness:
  "\<exists>g. create_from_tokenizer demo_tokenizer 1 [] 4 [] = Inr g \<and> vocab_size g = 4 \<and> \<not> allowed_next g ''{'' 3"
proof -
  obtain g where g: "create_from_tokenizer demo_tokenizer 1 [] 4 [] = Inr g"
    by (simp add: create_from_tokenizer_def demo_tokenizer_def token_piece_of_def Let_def upt_rec)
  have "\<not> json_object_text ''{''" using run_complete [OF demo_run] demo_open_fields(2) run_fields(1) [OF demo_run]
    by (simp add: is_complete_def)
  moreover have "tok_vocab_size demo_tokenizer \<le> 3" by (simp add: demo_tokenizer_def)
  ultimately have "\<not> allowed_next g ''{'' (int 3)" using created_grammar [OF g] by blast
  then show ?thesis using g created_grammar [OF g] by auto
qed

end
