(* ===== verification/Json_Refinement.thy ===== *)
theory Json_Refinement imports Json_Matcher begin

text \<open>
  What the matcher of \<open>Json_Grammar\<close> is to its pushdown automaton (\<open>Json_Pda\<close>) and to a sampler that follows it:
  one byte is one step of the automaton, every reached state is well formed, and from every reached state
  a vocabulary with all single bytes can bring the output to its end.
\<close>

section \<open>The way to a complete object\<close>

lemma accept_plain_phase:
  assumes "json_run g r out s" "\<not> reasoning_phase s" "accept_token s t = (True, s')" "t \<notin> set (stop_token_ids g)"
  shows "\<not> reasoning_phase s'"
proof -
  note inv = run_wf [OF assms(1)] run_fields(1,2) [OF assms(1)]
  show ?thesis
    using accept_token_plain [OF inv assms(2) accept_token_vocab [OF inv(3) assms(3)] assms(4)] assms(2,3)
    by (auto simp: same_control_def split: if_splits option.splits)
qed

definition has_byte_tokens :: "json_grammar \<Rightarrow> bool" where
  "has_byte_tokens g \<longleftrightarrow> (\<forall>c. \<exists>t. token_in_vocab g t \<and> t \<notin> set (stop_token_ids g) \<and> token_pieces g ! nat t = [c])"

lemma completion_reachable:
  assumes "has_byte_tokens g" "json_run g r out s" "\<not> reasoning_phase s" "json_object_text (out @ cs)"
  shows "\<exists>ts out' s'. accept_tokens s ts = Some s' \<and> json_run g r out' s' \<and> \<not> reasoning_phase s' \<and> json_object_text out'"
  using assms(2-4)
proof (induction cs arbitrary: out s)
  case Nil
  then have "accept_tokens s [] = Some s \<and> json_run g r out s \<and> \<not> reasoning_phase s \<and> json_object_text out" by simp
  then show ?case by blast
next
  case (Cons c cs)
  show ?case
  proof (cases "json_object_text out")
    case True
    then have "accept_tokens s [] = Some s \<and> json_run g r out s \<and> \<not> reasoning_phase s \<and> json_object_text out"
      using Cons.prems by simp
    then show ?thesis by blast
  next
    case False
    from assms(1) obtain t where t: "token_in_vocab g t" "t \<notin> set (stop_token_ids g)" "token_pieces g ! nat t = [c]"
      unfolding has_byte_tokens_def by blast
    have "json_prefix (out @ [c])" using Cons.prems(3) unfolding json_prefix_def by fastforce
    then have "fst (accept_token s t)" using run_allowed [OF Cons.prems(1,2), of t] t False by (simp add: allowed_next_def)
    then obtain s' where s': "accept_token s t = (True, s')" by (cases "accept_token s t") auto
    have "json_run g r (out @ [c]) s'"
      using run_token [OF Cons.prems(1) s'] t Cons.prems(2) by (simp add: token_output_def)
    moreover have "\<not> reasoning_phase s'" by (rule accept_plain_phase [OF Cons.prems(1,2) s' t(2)])
    moreover have "json_object_text ((out @ [c]) @ cs)" using Cons.prems(3) by simp
    ultimately obtain ts out' s'' where "accept_tokens s' ts = Some s''" "json_run g r out' s''" "\<not> reasoning_phase s''"
      "json_object_text out'" using Cons.IH by blast
    then have "accept_tokens s (t # ts) = Some s'' \<and> json_run g r out' s'' \<and> \<not> reasoning_phase s'' \<and> json_object_text out'"
      using s' by simp
    then show ?thesis by blast
  qed
qed

section \<open>Properties\<close>

text \<open>C2.  One byte of the matcher is one step of the pushdown automaton.  In a well-formed state outside the reasoning
  phase \<open>consume_character\<close> refuses a byte exactly when the automaton has no step on it; otherwise the new state is well
  formed and stands for the configuration the automaton moves to.\<close>

theorem matcher_refines_machine:
  assumes "wf_state s" "\<not> reasoning_phase s"
  shows "(case jstep (conf_of s) c of
            None \<Rightarrow> \<not> fst (consume_character s c)
          | Some j \<Rightarrow> fst (consume_character s c) \<and> wf_state (snd (consume_character s c))
                \<and> conf_of (snd (consume_character s c)) = j)"
  using consume_simulates [OF assms, of c] by (auto simp: simulates_def split: if_splits option.splits)

lemma demo_open_conf: "jstep (conf_of demo_open) (CHR ''}'') = Some JDone"
  by code_simp

lemma matcher_refines_machine_witness:
  "fst (consume_character demo_open (CHR ''}'')) \<and> conf_of (snd (consume_character demo_open (CHR ''}''))) = JDone"
  using matcher_refines_machine [OF run_wf [OF demo_run] demo_open_fields(1), of "CHR ''}''"] demo_open_conf by simp

text \<open>C18.  Every reached state is well formed: a string, number or literal is only read inside an open container, containers
  are open exactly while the root is started and unfinished, each frame's state belongs to its container's type, an object key
  is read in an object only, at most three digits of a unicode escape are counted, and a literal is one of the three with an
  index inside it.  The state keeps its grammar and its validity, and in the reasoning phase nothing is open.\<close>

theorem reached_state_well_formed:
  assumes "json_run g r out s"
  shows "wf_state s \<and> grammar s = Some g \<and> valid s \<and> (reasoning_phase s \<longrightarrow> conf_of s = JStart \<and> out = [])"
  using run_invariant [OF assms] by simp

lemma reached_state_well_formed_witness: "wf_state demo_open \<and> valid demo_open"
  using reached_state_well_formed [OF demo_run] by blast

text \<open>C5.  The constraint never leads into a dead end: when each single byte is the piece of some token that is not a stop
  token, then from every reached state outside the reasoning phase some tokens, each of them accepted, bring the output to a
  complete object, and then every stop token of the vocabulary is accepted.\<close>

theorem generation_can_complete:
  assumes "json_run g r out s" "\<not> reasoning_phase s" "has_byte_tokens g"
  shows "\<exists>ts s'. accept_tokens s ts = Some s' \<and> is_complete s'
    \<and> (\<forall>t \<in> set (stop_token_ids g). token_in_vocab g t \<longrightarrow> fst (accept_token s' t))"
proof -
  have "jrun (conf_of s) [] \<noteq> None" by simp
  then obtain cs where "json_object_text (out @ cs)" using run_prefix [OF assms(1), of "[]"] by (auto simp: json_prefix_def)
  from completion_reachable [OF assms(3,1,2) this] obtain ts out' s' where s': "accept_tokens s ts = Some s'"
    "json_run g r out' s'" "\<not> reasoning_phase s'" "json_object_text out'" by blast
  have "is_complete s'" using run_complete [OF s'(2)] run_fields(1) [OF s'(2)] s'(4) by (simp add: is_complete_def)
  moreover have "fst (accept_token s' t)" if "t \<in> set (stop_token_ids g)" "token_in_vocab g t" for t
    using run_allowed [OF s'(2,3), of t] that s'(4) by (simp add: allowed_next_def)
  ultimately show ?thesis using s'(1) by blast
qed

text \<open>All bytes, and a stop token behind them.\<close>

definition byte_grammar :: json_grammar where
  "byte_grammar = \<lparr>token_pieces = map (\<lambda>n. [char_of n]) [0..<256] @ [''stop''], stop_token_ids = [256],
     reasoning_end_token_ids = []\<rparr>"

lemma byte_grammar_bytes: "has_byte_tokens byte_grammar"
proof -
  have "token_in_vocab byte_grammar (int (of_char c)) \<and> int (of_char c) \<notin> set (stop_token_ids byte_grammar)
    \<and> token_pieces byte_grammar ! nat (int (of_char c)) = [c]" for c :: char
  proof -
    have "(of_char c :: nat) \<in> range of_char" by (rule rangeI)
    then have "of_char c < (256 :: nat)" by (simp only: range_nat_of_char atLeastLessThan_iff)
    then show ?thesis by (simp add: byte_grammar_def token_in_vocab_def vocab_size_def nth_append less_imp_neq order.strict_trans [of _ 256])
  qed
  then show ?thesis unfolding has_byte_tokens_def by blast
qed

lemma generation_can_complete_witness:
  "\<exists>ts s'. accept_tokens (initial_state byte_grammar False) ts = Some s' \<and> is_complete s'"
proof -
  have "\<not> reasoning_phase (initial_state byte_grammar False)" by (simp add: initial_state_def default_state_def)
  from generation_can_complete [OF run_init this byte_grammar_bytes] show ?thesis by blast
qed

end
