(* ===== verification/Block_Hash.thy ===== *)
theory Block_Hash imports Xllm_Prelude begin

text \<open>
  The chained block hashes of \<open>core/framework/prefix_cache/block_hasher.{h,cpp}\<close>: the hashing policies, the
  text, multimodal and speculative hashers with the cursor over multimodal items, and the incremental extension
  of a request's prefix hashes.  \<open>XXH3_128bits_withSeed\<close> is third-party code and a parameter; the theorems that
  need it to have no collisions name the finite set of inputs on which it must have none.
\<close>

section \<open>Types\<close>

text \<open>A token as it is hashed, an \<open>int32_t\<close>, and a 128-bit digest (\<open>XXH3Key\<close>).\<close>

type_synonym token = "32 word"
type_synonym hash_key = "128 word"

datatype hasher_type = HT_TEXT | HT_MM | HT_MTP_TEXT | HT_MTP_MM

text \<open>An item of the multimodal data: its token position and the digest of its content.\<close>

record mm_item =
  mm_offset :: nat
  mm_length :: nat
  mm_key :: hash_key

definition mm_end :: "mm_item \<Rightarrow> nat" where
  "mm_end it = mm_offset it + mm_length it"

section \<open>The hashing policy\<close>

text \<open>\<open>is_mtp\<close> is \<open>SpeculativeConfig::is_mtp_algorithm(algorithm)\<close>.\<close>

definition mtp_hasher_type :: "hasher_type \<Rightarrow> int \<Rightarrow> bool \<Rightarrow> hasher_type" where
  "mtp_hasher_type base num_speculative is_mtp =
    (if num_speculative \<le> 0 \<or> \<not> is_mtp then base
     else case base of HT_TEXT \<Rightarrow> HT_MTP_TEXT | HT_MM \<Rightarrow> HT_MTP_MM | _ \<Rightarrow> base)"

definition block_hash_lookahead :: "hasher_type \<Rightarrow> nat" where
  "block_hash_lookahead ty = (if ty = HT_MTP_TEXT \<or> ty = HT_MTP_MM then 1 else 0)"

definition num_hash_blocks :: "hasher_type \<Rightarrow> nat \<Rightarrow> nat \<Rightarrow> nat" where
  "num_hash_blocks ty num_tokens block_size =
    (let lookahead = block_hash_lookahead ty
     in if block_size = 0 \<or> num_tokens \<le> lookahead then 0 else (num_tokens - lookahead) div block_size)"

section \<open>Digests\<close>

definition token_bytes :: "token list \<Rightarrow> u8 list" where
  "token_bytes ts = concat (map (word_bytes 4) ts)"

text \<open>The parameter \<open>xxh3\<close> stands for \<open>XXH3_128bits_withSeed\<close> at the configured seed.\<close>

definition text_digest :: "(u8 list \<Rightarrow> hash_key) \<Rightarrow> hash_key option \<Rightarrow> token list \<Rightarrow> hash_key" where
  "text_digest xxh3 pre ts = (case pre of
     None \<Rightarrow> xxh3 (token_bytes ts)
   | Some h \<Rightarrow> xxh3 (word_bytes 16 h @ token_bytes ts))"

definition mm_digest :: "(u8 list \<Rightarrow> hash_key) \<Rightarrow> hash_key list \<Rightarrow> hash_key option \<Rightarrow> token list \<Rightarrow> hash_key" where
  "mm_digest xxh3 mms pre ts =
    (let h = text_digest xxh3 pre ts
     in if mms = [] then h else xxh3 (word_bytes 16 h @ concat (map (word_bytes 16) mms)))"

text \<open>\<open>Slice::slice\<close>; \<open>None\<close> is its failed \<open>CHECK\<close>.\<close>

definition slice :: "'a list \<Rightarrow> nat \<Rightarrow> nat \<Rightarrow> 'a list option" where
  "slice xs i j = (if i \<le> j \<and> j \<le> length xs then Some (take (j - i) (drop i xs)) else None)"

section \<open>Block hashers\<close>

text \<open>A hasher with the state it carries from block to block: the multimodal one keeps the index of the
  first item that may still overlap a later block.\<close>

datatype block_hasher =
  TextBlockHasher | MMBlockHasher "mm_item list" nat | MtpBlockHasher block_hasher

text \<open>The loops of \<open>find_overlapping_mm_idx\<close> and \<open>get_block_mm_hash_values\<close> over the items from an index on.\<close>

fun find_overlapping :: "mm_item list \<Rightarrow> nat \<Rightarrow> nat \<Rightarrow> nat" where
  "find_overlapping [] i start = i"
| "find_overlapping (it # its) i start = (if start < mm_end it then i else find_overlapping its (i + 1) start)"

definition find_overlapping_mm_idx :: "mm_item list \<Rightarrow> nat \<Rightarrow> nat" where
  "find_overlapping_mm_idx its start = find_overlapping its 0 start"

fun collect_mm :: "mm_item list \<Rightarrow> nat \<Rightarrow> nat \<Rightarrow> nat \<Rightarrow> nat \<Rightarrow> hash_key list \<times> nat" where
  "collect_mm [] i next start end' = ([], next)"
| "collect_mm (it # its) i next start end' =
    (if end' \<le> mm_offset it then ([], next)
     else if mm_end it \<le> start then collect_mm its (i + 1) (i + 1) start end'
     else if end' < mm_end it then ([mm_key it], next)
     else map_prod (Cons (mm_key it)) id (collect_mm its (i + 1) next start end'))"

definition get_block_mm_hash_values :: "mm_item list \<Rightarrow> nat \<Rightarrow> nat \<Rightarrow> nat \<Rightarrow> hash_key list \<times> nat" where
  "get_block_mm_hash_values its next start end' = collect_mm (drop next its) next next start end'"

fun hasher_compute :: "(u8 list \<Rightarrow> hash_key) \<Rightarrow> block_hasher \<Rightarrow> token list \<Rightarrow> nat \<Rightarrow> nat \<Rightarrow> hash_key option \<Rightarrow>
    (hash_key \<times> block_hasher) option" where
  "hasher_compute xxh3 TextBlockHasher ts start end' pre =
     map_option (\<lambda>b. (text_digest xxh3 pre b, TextBlockHasher)) (slice ts start end')"
| "hasher_compute xxh3 (MMBlockHasher its next) ts start end' pre =
     map_option (\<lambda>b. (let (mms, next') = get_block_mm_hash_values its next start end'
                       in (mm_digest xxh3 mms pre b, MMBlockHasher its next'))) (slice ts start end')"
| "hasher_compute xxh3 (MtpBlockHasher h) ts start end' pre =
     (if length ts \<le> end' then None
      else map_option (\<lambda>(k, h'). (k, MtpBlockHasher h')) (hasher_compute xxh3 h ts start (end' + 1) pre))"

definition create_hasher :: "hasher_type \<Rightarrow> mm_item list \<Rightarrow> nat \<Rightarrow> block_hasher" where
  "create_hasher ty its start = (case ty of
     HT_TEXT \<Rightarrow> TextBlockHasher
   | HT_MM \<Rightarrow> MMBlockHasher its (find_overlapping_mm_idx its start)
   | HT_MTP_TEXT \<Rightarrow> MtpBlockHasher TextBlockHasher
   | HT_MTP_MM \<Rightarrow> MtpBlockHasher (MMBlockHasher its (find_overlapping_mm_idx its start)))"

text \<open>The loop that every caller of a hasher runs: \<open>n\<close> blocks from block \<open>b\<close> on, each digest taking the one
  before as its parent.\<close>

fun chain_loop :: "(u8 list \<Rightarrow> hash_key) \<Rightarrow> block_hasher \<Rightarrow> token list \<Rightarrow> nat \<Rightarrow> hash_key option \<Rightarrow> nat \<Rightarrow> nat \<Rightarrow>
    hash_key list option" where
  "chain_loop xxh3 h ts bs pre b 0 = Some []"
| "chain_loop xxh3 h ts bs pre b (Suc n) =
    (case hasher_compute xxh3 h ts (b * bs) ((b + 1) * bs) pre of
       None \<Rightarrow> None
     | Some (k, h') \<Rightarrow> map_option (Cons k) (chain_loop xxh3 h' ts bs (Some k) (b + 1) n))"

definition extend_prefix_hashes :: "(u8 list \<Rightarrow> hash_key) \<Rightarrow> hasher_type \<Rightarrow> mm_item list \<Rightarrow> token list \<Rightarrow> nat \<Rightarrow> nat \<Rightarrow>
    hash_key list \<Rightarrow> hash_key list option" where
  "extend_prefix_hashes xxh3 ty its ts bs boundary hs =
    (let boundary = min boundary (num_hash_blocks ty (length ts) bs); start = length hs in
     if bs = 0 \<or> boundary \<le> start then Some hs
     else map_option (\<lambda>ks. hs @ ks)
            (chain_loop xxh3 (create_hasher ty its (start * bs)) ts bs
               (if 0 < start then Some (last hs) else None) start (boundary - start)))"

section \<open>Reference\<close>

text \<open>The items that overlap a token range, without any cursor, and the chain of digests they give.\<close>

definition overlapping_keys :: "mm_item list \<Rightarrow> nat \<Rightarrow> nat \<Rightarrow> hash_key list" where
  "overlapping_keys its start end' = map mm_key (filter (\<lambda>it. mm_offset it < end' \<and> start < mm_end it) its)"

definition block_tokens :: "hasher_type \<Rightarrow> token list \<Rightarrow> nat \<Rightarrow> nat \<Rightarrow> token list" where
  "block_tokens ty ts bs b = take (bs + block_hash_lookahead ty) (drop (b * bs) ts)"

definition block_digest :: "(u8 list \<Rightarrow> hash_key) \<Rightarrow> hasher_type \<Rightarrow> mm_item list \<Rightarrow> token list \<Rightarrow> nat \<Rightarrow> nat \<Rightarrow>
    hash_key option \<Rightarrow> hash_key" where
  "block_digest xxh3 ty its ts bs b pre =
    (if ty = HT_TEXT \<or> ty = HT_MTP_TEXT then text_digest xxh3 pre (block_tokens ty ts bs b)
     else mm_digest xxh3 (overlapping_keys its (b * bs) ((b + 1) * bs + block_hash_lookahead ty)) pre
            (block_tokens ty ts bs b))"

fun chain_hash :: "(u8 list \<Rightarrow> hash_key) \<Rightarrow> hasher_type \<Rightarrow> mm_item list \<Rightarrow> token list \<Rightarrow> nat \<Rightarrow> nat \<Rightarrow> hash_key" where
  "chain_hash xxh3 ty its ts bs 0 = block_digest xxh3 ty its ts bs 0 None"
| "chain_hash xxh3 ty its ts bs (Suc b) =
     block_digest xxh3 ty its ts bs (Suc b) (Some (chain_hash xxh3 ty its ts bs b))"

definition chain_parent :: "(u8 list \<Rightarrow> hash_key) \<Rightarrow> hasher_type \<Rightarrow> mm_item list \<Rightarrow> token list \<Rightarrow> nat \<Rightarrow> nat \<Rightarrow> hash_key option" where
  "chain_parent xxh3 ty its ts bs b = (if b = 0 then None else Some (chain_hash xxh3 ty its ts bs (b - 1)))"

definition chain_hashes :: "(u8 list \<Rightarrow> hash_key) \<Rightarrow> hasher_type \<Rightarrow> mm_item list \<Rightarrow> token list \<Rightarrow> nat \<Rightarrow> nat \<Rightarrow> hash_key list" where
  "chain_hashes xxh3 ty its ts bs n = map (chain_hash xxh3 ty its ts bs) [0..<n]"

text \<open>The items of one request: in the order of their positions and disjoint.\<close>

fun mm_sorted :: "mm_item list \<Rightarrow> bool" where
  "mm_sorted [] \<longleftrightarrow> True"
| "mm_sorted (it # its) \<longleftrightarrow> list_all (\<lambda>x. mm_end it \<le> mm_offset x) its \<and> mm_sorted its"

lemma chain_hash_parent: "chain_hash xxh3 ty its ts bs b = block_digest xxh3 ty its ts bs b (chain_parent xxh3 ty its ts bs b)"
  by (cases b) (simp_all add: chain_parent_def)

section \<open>The cursor is the reference\<close>

lemma mm_offset_end: "mm_offset it \<le> mm_end it"
  by (simp add: mm_end_def)

lemma overlapping_Cons:
  "overlapping_keys (it # its) s e = (if mm_offset it < e \<and> s < mm_end it then [mm_key it] else []) @ overlapping_keys its s e"
  by (simp add: overlapping_keys_def)

lemma overlapping_beyond: "list_all (\<lambda>x. e \<le> mm_offset x) its \<Longrightarrow> overlapping_keys its s e = []"
  by (auto simp: overlapping_keys_def list_all_iff filter_empty_conv)

lemma overlapping_retired: "list_all (\<lambda>x. mm_end x \<le> s) its \<Longrightarrow> overlapping_keys (its @ its') s e = overlapping_keys its' s e"
  by (auto simp: overlapping_keys_def list_all_iff filter_empty_conv)

lemma collect_mm_keys:
  "mm_sorted its \<Longrightarrow> s \<le> e \<Longrightarrow> fst (collect_mm its i n s e) = overlapping_keys its s e"
proof (induction its arbitrary: i n)
  case (Cons it its)
  have later: "list_all (\<lambda>x. mm_end it \<le> mm_offset x) its" using Cons.prems(1) by simp
  show ?case
  proof (cases "e \<le> mm_offset it")
    case True
    have "list_all (\<lambda>x. e \<le> mm_offset x) its"
      using later True mm_offset_end [of it] by (auto simp: list_all_iff)
    then show ?thesis using True by (simp add: overlapping_Cons overlapping_beyond)
  next
    case False
    have "overlapping_keys its s e = []" if "e < mm_end it"
      using later that by (intro overlapping_beyond) (auto simp: list_all_iff)
    then show ?thesis using False Cons by (auto simp: overlapping_Cons)
  qed
qed (simp add: overlapping_keys_def)

text \<open>The cursor only passes items that end at or before the start of the block.\<close>

definition cursor_ok :: "mm_item list \<Rightarrow> nat \<Rightarrow> nat \<Rightarrow> bool" where
  "cursor_ok its next s \<longleftrightarrow> next \<le> length its \<and> list_all (\<lambda>x. mm_end x \<le> s) (take next its)"

lemma cursor_find: "cursor_ok its (find_overlapping_mm_idx its s) s"
proof -
  have "find_overlapping its i s = i + length (takeWhile (\<lambda>x. mm_end x \<le> s) its)" for its i
    by (induction its arbitrary: i) auto
  then have idx: "find_overlapping_mm_idx its s = length (takeWhile (\<lambda>x. mm_end x \<le> s) its)"
    by (simp add: find_overlapping_mm_idx_def)
  have "take (length (takeWhile (\<lambda>x. mm_end x \<le> s) its)) its = takeWhile (\<lambda>x. mm_end x \<le> s) its"
    by (metis takeWhile_eq_take)
  then show ?thesis unfolding cursor_ok_def idx
    by (auto simp: list_all_iff length_takeWhile_le dest: set_takeWhileD)
qed

lemma cursor_mono: "cursor_ok its n s \<Longrightarrow> s \<le> s' \<Longrightarrow> cursor_ok its n s'"
  by (auto simp: cursor_ok_def list_all_iff)

lemma collect_mm_no_skip: "list_all (\<lambda>x. s < mm_end x) its \<Longrightarrow> snd (collect_mm its i n s e) = n"
  by (induction its arbitrary: i) auto

lemma collect_mm_next:
  "mm_sorted its \<Longrightarrow> \<exists>k \<le> length its. snd (collect_mm its i i s e) = i + k \<and> list_all (\<lambda>x. mm_end x \<le> s) (take k its)"
proof (induction its arbitrary: i)
  case (Cons it its)
  have stay: ?case if "snd (collect_mm (it # its) i i s e) = i" using that by (intro exI [of _ 0]) simp
  show ?case
  proof (cases "mm_offset it < e \<and> mm_end it \<le> s")
    case True
    then obtain k where "k \<le> length its" "snd (collect_mm its (i + 1) (i + 1) s e) = i + 1 + k"
        "list_all (\<lambda>x. mm_end x \<le> s) (take k its)"
      using Cons.IH [of "i + 1"] Cons.prems by auto
    then show ?thesis using True by (intro exI [of _ "Suc k"]) auto
  next
    case False
    have "list_all (\<lambda>x. s < mm_end x) its" if "s < mm_end it"
      unfolding list_all_iff
    proof
      fix x assume "x \<in> set its"
      then have "mm_end it \<le> mm_offset x" using Cons.prems by (simp add: list_all_iff)
      then show "s < mm_end x" using that mm_offset_end [of x] by linarith
    qed
    then show ?thesis using False collect_mm_no_skip [of s its "i + 1" i e] by (intro stay) auto
  qed
qed simp

lemma mm_sorted_drop: "mm_sorted its \<Longrightarrow> mm_sorted (drop n its)"
proof (induction its arbitrary: n)
  case (Cons it its)
  then show ?case by (cases n) auto
qed simp

lemma get_mm_keys:
  assumes "mm_sorted its" "cursor_ok its next s" "s \<le> e"
  shows "fst (get_block_mm_hash_values its next s e) = overlapping_keys its s e"
    and "cursor_ok its (snd (get_block_mm_hash_values its next s e)) s"
proof -
  have "overlapping_keys its s e = overlapping_keys (drop next its) s e"
    using assms(2) overlapping_retired [of s "take next its" "drop next its"] by (simp add: cursor_ok_def)
  then show "fst (get_block_mm_hash_values its next s e) = overlapping_keys its s e"
    using collect_mm_keys [OF mm_sorted_drop [OF assms(1)] assms(3)] by (simp add: get_block_mm_hash_values_def)
  obtain k where k: "k \<le> length (drop next its)" "snd (collect_mm (drop next its) next next s e) = next + k"
      "list_all (\<lambda>x. mm_end x \<le> s) (take k (drop next its))"
    using collect_mm_next [OF mm_sorted_drop [OF assms(1)]] by blast
  then show "cursor_ok its (snd (get_block_mm_hash_values its next s e)) s"
    using assms(2) by (auto simp: get_block_mm_hash_values_def cursor_ok_def take_add)
qed

text \<open>The hashers that a chain over the items \<open>its\<close> may have reached at token \<open>s\<close>.\<close>

definition hasher_ok :: "hasher_type \<Rightarrow> mm_item list \<Rightarrow> nat \<Rightarrow> block_hasher \<Rightarrow> bool" where
  "hasher_ok ty its s h \<longleftrightarrow> (case ty of
     HT_TEXT \<Rightarrow> h = TextBlockHasher
   | HT_MTP_TEXT \<Rightarrow> h = MtpBlockHasher TextBlockHasher
   | HT_MM \<Rightarrow> (\<exists>n. h = MMBlockHasher its n \<and> cursor_ok its n s)
   | HT_MTP_MM \<Rightarrow> (\<exists>n. h = MtpBlockHasher (MMBlockHasher its n) \<and> cursor_ok its n s))"

lemma hasher_ok_create: "hasher_ok ty its s (create_hasher ty its s)"
  by (cases ty) (simp_all add: hasher_ok_def create_hasher_def cursor_find)

lemma hasher_ok_mono: "hasher_ok ty its s h \<Longrightarrow> s \<le> s' \<Longrightarrow> hasher_ok ty its s' h"
  by (cases ty) (auto simp: hasher_ok_def intro: cursor_mono)

lemma slice_take: "i + n \<le> length xs \<Longrightarrow> slice xs i (i + n) = Some (take n (drop i xs))"
  by (simp add: slice_def)

lemma hasher_compute_ok:
  assumes "hasher_ok ty its (b * bs) h" "mm_sorted its" "(b + 1) * bs + block_hash_lookahead ty \<le> length ts"
  shows "\<exists>h'. hasher_compute xxh3 h ts (b * bs) ((b + 1) * bs) pre = Some (block_digest xxh3 ty its ts bs b pre, h')
     \<and> hasher_ok ty its (b * bs) h'"
proof -
  have e: "(b + 1) * bs = b * bs + bs" "(b + 1) * bs + 1 = b * bs + (bs + 1)" by simp_all
  have sl: "slice ts (b * bs) ((b + 1) * bs) = Some (take bs (drop (b * bs) ts))" if "(b + 1) * bs \<le> length ts"
    using that slice_take [of "b * bs" bs ts] unfolding e(1) by simp
  have sl1: "slice ts (b * bs) ((b + 1) * bs + 1) = Some (take (bs + 1) (drop (b * bs) ts))" if "(b + 1) * bs + 1 \<le> length ts"
    using that slice_take [of "b * bs" "bs + 1" ts] unfolding e(2) by simp
  show ?thesis
  proof (cases ty)
    case HT_TEXT
    then show ?thesis using assms sl
      by (simp add: hasher_ok_def block_hash_lookahead_def block_digest_def block_tokens_def)
  next
    case HT_MTP_TEXT
    then show ?thesis using assms sl1
      by (simp add: hasher_ok_def block_hash_lookahead_def block_digest_def block_tokens_def)
  next
    case HT_MM
    then obtain n where h: "h = MMBlockHasher its n" "cursor_ok its n (b * bs)" using assms(1) by (auto simp: hasher_ok_def)
    show ?thesis using get_mm_keys [OF assms(2) h(2), of "(b + 1) * bs"] HT_MM h assms(3) sl
      by (simp add: hasher_ok_def block_hash_lookahead_def block_digest_def block_tokens_def Let_def split_beta)
  next
    case HT_MTP_MM
    then obtain n where h: "h = MtpBlockHasher (MMBlockHasher its n)" "cursor_ok its n (b * bs)"
      using assms(1) by (auto simp: hasher_ok_def)
    show ?thesis using get_mm_keys [OF assms(2) h(2), of "(b + 1) * bs + 1"] HT_MTP_MM h assms(3) sl1
      by (simp add: hasher_ok_def block_hash_lookahead_def block_digest_def block_tokens_def Let_def split_beta)
  qed
qed

lemma chain_loop_ok:
  assumes "hasher_ok ty its (b * bs) h" "mm_sorted its" "(b + n) * bs + block_hash_lookahead ty \<le> length ts \<or> n = 0"
  shows "chain_loop xxh3 h ts bs (chain_parent xxh3 ty its ts bs b) b n =
    Some (map (chain_hash xxh3 ty its ts bs) [b..<b + n])"
  using assms
proof (induction n arbitrary: b h)
  case (Suc n)
  have le: "(b + 1) * bs + block_hash_lookahead ty \<le> length ts"
    using Suc.prems(3) by (auto simp: algebra_simps)
  obtain h' where h': "hasher_compute xxh3 h ts (b * bs) ((b + 1) * bs) (chain_parent xxh3 ty its ts bs b) =
      Some (chain_hash xxh3 ty its ts bs b, h')" "hasher_ok ty its (b * bs) h'"
    using hasher_compute_ok [OF Suc.prems(1,2) le] unfolding chain_hash_parent by blast
  have "hasher_ok ty its ((b + 1) * bs) h'" using h'(2) by (rule hasher_ok_mono) simp
  moreover have "(b + 1 + n) * bs + block_hash_lookahead ty \<le> length ts \<or> n = 0"
    using Suc.prems(3) by (simp add: add.commute add.left_commute)
  ultimately have "chain_loop xxh3 h' ts bs (chain_parent xxh3 ty its ts bs (b + 1)) (b + 1) n =
      Some (map (chain_hash xxh3 ty its ts bs) [b + 1..<b + 1 + n])"
    using Suc.prems(2) by (intro Suc.IH)
  moreover have "chain_parent xxh3 ty its ts bs (b + 1) = Some (chain_hash xxh3 ty its ts bs b)"
    by (simp add: chain_parent_def)
  moreover have "[b..<b + Suc n] = b # [b + 1..<b + 1 + n]" by (subst upt_conv_Cons) simp_all
  ultimately show ?case using h'(1) by (simp del: upt_Suc)
qed simp

lemma num_hash_blocks_fits:
  "n \<le> num_hash_blocks ty (length ts) bs \<Longrightarrow> 0 < n \<Longrightarrow> n * bs + block_hash_lookahead ty \<le> length ts"
proof -
  assume n: "n \<le> num_hash_blocks ty (length ts) bs" "0 < n"
  then have "n \<le> (length ts - block_hash_lookahead ty) div bs" "block_hash_lookahead ty < length ts"
    by (auto simp: num_hash_blocks_def Let_def split: if_splits)
  then show ?thesis by (metis add_le_imp_le_diff div_times_less_eq_dividend le_diff_conv2 less_imp_le_nat mult_le_mono1 order_trans)
qed

lemma upt_split: "k \<le> n \<Longrightarrow> [0..<n] = [0..<k] @ [k..<n]"
  by (metis le_add_diff_inverse upt_add_eq_append zero_le)

lemma extend_ok:
  assumes "mm_sorted its" "length hs = k" "hs = chain_hashes xxh3 ty its ts bs k"
  shows "extend_prefix_hashes xxh3 ty its ts bs boundary hs =
    Some (chain_hashes xxh3 ty its ts bs (max k (min boundary (num_hash_blocks ty (length ts) bs))))"
proof -
  define n where "n = min boundary (num_hash_blocks ty (length ts) bs)"
  show ?thesis
  proof (cases "bs = 0 \<or> n \<le> k")
    case True
    have "num_hash_blocks ty (length ts) 0 = 0" by (simp add: num_hash_blocks_def)
    then have "max k n = k" using True by (auto simp: max_def n_def)
    then show ?thesis using True assms(2,3) by (simp add: extend_prefix_hashes_def Let_def flip: n_def)
  next
    case False
    then have n: "k + (n - k) = n" "0 < n" "k \<le> n" "max k n = n" by auto
    have par: "(if 0 < k then Some (last hs) else None) = chain_parent xxh3 ty its ts bs k"
      using assms(3) by (cases k) (simp_all add: chain_hashes_def chain_parent_def)
    have "n * bs + block_hash_lookahead ty \<le> length ts"
      using n(2) by (intro num_hash_blocks_fits) (simp_all add: n_def)
    then have "chain_loop xxh3 (create_hasher ty its (k * bs)) ts bs (chain_parent xxh3 ty its ts bs k) k (n - k)
        = Some (map (chain_hash xxh3 ty its ts bs) [k..<n])"
      using chain_loop_ok [OF hasher_ok_create assms(1), where b = k and n = "n - k" and ts = ts and bs = bs] unfolding n(1) by blast
    moreover have "chain_hashes xxh3 ty its ts bs n = hs @ map (chain_hash xxh3 ty its ts bs) [k..<n]"
      using assms(3) upt_split [OF n(3)] by (simp only: chain_hashes_def map_append)
    ultimately show ?thesis using False assms(2) par n(4)
      by (simp add: extend_prefix_hashes_def Let_def flip: n_def)
  qed
qed

lemma block_tokens_cong:
  assumes "take (k * bs + block_hash_lookahead ty) ts = take (k * bs + block_hash_lookahead ty) us" "b < k"
  shows "block_tokens ty ts bs b = block_tokens ty us bs b"
proof -
  have le: "b * bs + (bs + block_hash_lookahead ty) \<le> k * bs + block_hash_lookahead ty"
    using assms(2) by (metis add.assoc add.commute add_le_mono1 mult_Suc mult_le_mono1 Suc_leI)
  have eq: "block_tokens ty xs bs b = drop (b * bs) (take (b * bs + (bs + block_hash_lookahead ty)) (take (k * bs + block_hash_lookahead ty) xs))" for xs
    using le by (simp add: block_tokens_def take_drop min_absorb1 add.commute add.left_commute)
  show ?thesis by (simp only: eq assms(1))
qed

lemma chain_hash_cong:
  assumes "take (k * bs + block_hash_lookahead ty) ts = take (k * bs + block_hash_lookahead ty) us" "b < k"
  shows "chain_hash xxh3 ty its ts bs b = chain_hash xxh3 ty its us bs b"
  using assms(2)
proof (induction b)
  case 0
  show ?case using block_tokens_cong [OF assms(1) 0] by (simp add: block_digest_def)
next
  case (Suc b)
  show ?case using block_tokens_cong [OF assms(1) Suc.prems] Suc by (simp add: block_digest_def)
qed

section \<open>Chains without collisions\<close>

definition digest_input :: "hash_key option \<Rightarrow> token list \<Rightarrow> u8 list" where
  "digest_input pre ts = (case pre of None \<Rightarrow> token_bytes ts | Some h \<Rightarrow> word_bytes 16 h @ token_bytes ts)"

definition is_text :: "hasher_type \<Rightarrow> bool" where
  "is_text ty \<longleftrightarrow> ty = HT_TEXT \<or> ty = HT_MTP_TEXT"

text \<open>What is hashed for the first \<open>n\<close> blocks of a token sequence.\<close>

definition chain_inputs :: "(u8 list \<Rightarrow> hash_key) \<Rightarrow> hasher_type \<Rightarrow> token list \<Rightarrow> nat \<Rightarrow> nat \<Rightarrow> u8 list set" where
  "chain_inputs xxh3 ty ts bs n =
     (\<lambda>b. digest_input (chain_parent xxh3 ty [] ts bs b) (block_tokens ty ts bs b)) ` {..<n}"

lemma text_digest_input: "text_digest xxh3 pre ts = xxh3 (digest_input pre ts)"
  by (simp add: text_digest_def digest_input_def split: option.split)

lemma chain_hash_input:
  "is_text ty \<Longrightarrow> chain_hash xxh3 ty its ts bs b =
     xxh3 (digest_input (chain_parent xxh3 ty its ts bs b) (block_tokens ty ts bs b))"
  by (subst chain_hash_parent) (auto simp: is_text_def block_digest_def text_digest_input)

lemma length_token_bytes [simp]: "length (token_bytes ts) = 4 * length ts"
  by (induction ts) (simp_all add: token_bytes_def)

lemma token_bytes_inj: "token_bytes ts = token_bytes us \<Longrightarrow> ts = us"
proof (induction ts arbitrary: us)
  case Nil
  then show ?case by (cases us) (auto simp: token_bytes_def word_bytes_def)
next
  case (Cons t ts)
  then obtain u us' where us: "us = u # us'" by (cases us) (auto simp: token_bytes_def word_bytes_def)
  then have "word_bytes 4 t = word_bytes 4 u \<and> token_bytes ts = token_bytes us'"
    using Cons.prems by (simp add: token_bytes_def append_eq_append_conv)
  then show ?case using Cons.IH us word_bytes_inj [of 4 t u] by auto
qed

lemma digest_input_inj:
  assumes "digest_input p ts = digest_input q us" "length ts = length us"
  shows "p = q \<and> ts = us"
proof (cases p; cases q)
  fix h k assume "p = Some h" "q = Some k"
  then show ?thesis using assms token_bytes_inj word_bytes_inj [of 16 h k]
    by (auto simp: digest_input_def append_eq_append_conv)
qed (use assms token_bytes_inj in \<open>auto simp: digest_input_def dest: arg_cong [where f = length]\<close>)

lemma length_block_tokens:
  "(b + 1) * bs + block_hash_lookahead ty \<le> length ts \<Longrightarrow> length (block_tokens ty ts bs b) = bs + block_hash_lookahead ty"
  by (simp add: block_tokens_def)

lemma take_block:
  "take ((b + 1) * bs + l) ts = take (b * bs) ts @ take (bs + l) (drop (b * bs) ts)"
  by (metis take_add add.assoc add.commute mult_Suc Suc_eq_plus1)

lemma chain_hash_same:
  assumes "is_text ty" "inj_on xxh3 (chain_inputs xxh3 ty ts bs (b + 1) \<union> chain_inputs xxh3 ty us bs (c + 1))"
    and "(b + 1) * bs + block_hash_lookahead ty \<le> length ts" "(c + 1) * bs + block_hash_lookahead ty \<le> length us"
    and "chain_hash xxh3 ty [] ts bs b = chain_hash xxh3 ty [] us bs c"
  shows "chain_parent xxh3 ty [] ts bs b = chain_parent xxh3 ty [] us bs c \<and> block_tokens ty ts bs b = block_tokens ty us bs c"
proof (rule digest_input_inj)
  let ?i = "digest_input (chain_parent xxh3 ty [] ts bs b) (block_tokens ty ts bs b)"
  let ?j = "digest_input (chain_parent xxh3 ty [] us bs c) (block_tokens ty us bs c)"
  have "xxh3 ?i = xxh3 ?j" using assms(5) unfolding chain_hash_input [OF assms(1)] .
  moreover have "?i \<in> chain_inputs xxh3 ty ts bs (b + 1)" "?j \<in> chain_inputs xxh3 ty us bs (c + 1)"
    by (simp_all add: chain_inputs_def)
  ultimately show "?i = ?j" using assms(2) by (auto dest: inj_onD)
  show "length (block_tokens ty ts bs b) = length (block_tokens ty us bs c)"
    by (simp only: length_block_tokens [OF assms(3)] length_block_tokens [OF assms(4)])
qed

lemma chain_hash_prefix:
  assumes "is_text ty" "inj_on xxh3 (chain_inputs xxh3 ty ts bs (b + 1) \<union> chain_inputs xxh3 ty us bs (c + 1))"
    and "(b + 1) * bs + block_hash_lookahead ty \<le> length ts" "(c + 1) * bs + block_hash_lookahead ty \<le> length us"
    and "chain_hash xxh3 ty [] ts bs b = chain_hash xxh3 ty [] us bs c"
  shows "b = c \<and> take ((b + 1) * bs + block_hash_lookahead ty) ts = take ((b + 1) * bs + block_hash_lookahead ty) us"
  using assms(2-)
proof (induction b arbitrary: c)
  case 0
  note same = chain_hash_same [OF assms(1) 0]
  then have "c = 0" by (auto simp: chain_parent_def split: if_splits)
  then show ?case using same by (simp add: block_tokens_def)
next
  case (Suc b)
  note same = chain_hash_same [OF assms(1) Suc.prems]
  then obtain d where c: "c = Suc d" by (cases c) (auto simp: chain_parent_def)
  have "chain_inputs xxh3 ty ts bs (b + 1) \<union> chain_inputs xxh3 ty us bs (d + 1)
      \<subseteq> chain_inputs xxh3 ty ts bs (Suc b + 1) \<union> chain_inputs xxh3 ty us bs (c + 1)"
    unfolding chain_inputs_def c by (intro Un_mono image_mono) auto
  then have inj: "inj_on xxh3 (chain_inputs xxh3 ty ts bs (b + 1) \<union> chain_inputs xxh3 ty us bs (d + 1))"
    using Suc.prems(1) inj_on_subset by blast
  have IH: "b = d \<and> take ((b + 1) * bs + block_hash_lookahead ty) ts = take ((b + 1) * bs + block_hash_lookahead ty) us"
    using same Suc.prems(2,3) c by (intro Suc.IH [OF inj]) (auto simp: chain_parent_def)
  then have "take ((b + 1) * bs) ts = take ((b + 1) * bs) us" by (metis take_take min.absorb1 le_add1)
  then show ?case using same IH c take_block [of "Suc b" bs "block_hash_lookahead ty" ts]
      take_block [of "Suc b" bs "block_hash_lookahead ty" us] by (simp add: block_tokens_def)
qed

text \<open>A hash function for the examples.\<close>

definition byte_sum :: "u8 list \<Rightarrow> hash_key" where
  "byte_sum bs = fold (\<lambda>b h. 31 * h + ucast b) bs 7"

section \<open>Properties\<close>

text \<open>However the prefix hashes of a request are extended, step by step over any boundaries, the list is
  always a prefix of the one reference chain: the resumed chain and the multimodal cursor lose nothing.\<close>

theorem extend_is_reference:
  assumes "mm_sorted its" "hs = chain_hashes xxh3 ty its ts bs k"
  shows "extend_prefix_hashes xxh3 ty its ts bs boundary hs =
    Some (chain_hashes xxh3 ty its ts bs (max k (min boundary (num_hash_blocks ty (length ts) bs))))"
  using extend_ok [OF assms(1) _ assms(2)] assms(2) by (simp add: chain_hashes_def)

lemma extend_is_reference_witness:
  "extend_prefix_hashes byte_sum HT_MM [\<lparr>mm_offset = 1, mm_length = 2, mm_key = 9\<rparr>] [1, 2, 3, 4, 5] 2 5 [] =
     Some (chain_hashes byte_sum HT_MM [\<lparr>mm_offset = 1, mm_length = 2, mm_key = 9\<rparr>] [1, 2, 3, 4, 5] 2 2)"
proof -
  have "mm_sorted [\<lparr>mm_offset = 1, mm_length = 2, mm_key = 9\<rparr>]" by simp
  moreover have "[] = chain_hashes byte_sum HT_MM [\<lparr>mm_offset = 1, mm_length = 2, mm_key = 9\<rparr>] [1, 2, 3, 4, 5] 2 0"
    by (simp add: chain_hashes_def)
  moreover have "max 0 (min 5 (num_hash_blocks HT_MM (length [1, 2, 3, 4, 5 :: token]) 2)) = 2"
    by (simp add: num_hash_blocks_def block_hash_lookahead_def)
  ultimately show ?thesis using extend_is_reference by metis
qed



end
