(* ===== verification/Block_Pool.thy ===== *)
theory Block_Pool imports Block_Hash begin

text \<open>
  Physical cache blocks with shared reference counts (\<open>core/framework/block/block.{h,cpp}\<close>), the prefix
  cache (\<open>core/framework/prefix_cache/prefix_cache.{h,cpp}\<close>, \<open>linear_state_prefix_cache.cpp\<close>) and the block
  manager over both (\<open>core/framework/block/block_manager_impl.{h,cpp}\<close>), as functions on one state.

  A \<open>Block\<close> is an alias: a value that names a physical block by id.  The reference count that the aliases of
  one block share through a pointer is kept per id in \<open>ref_counts\<close>; a count of zero means that there is no
  counter.  A failed \<open>CHECK\<close>, and the use of a counter that was deleted, is \<open>None\<close>.  Access times and the
  match-rate metrics are never read by the operations and are left out.
\<close>

section \<open>Block types\<close>

datatype block_type = BT_KV | BT_SWA | BT_C4 | BT_C128 | BT_EMBEDDING | BT_LINEAR | BT_C1 | BT_C2

fun cache_group_id :: "block_type \<Rightarrow> int" where
  "cache_group_id BT_KV = 0"
| "cache_group_id BT_SWA = 1"
| "cache_group_id BT_C4 = 2"
| "cache_group_id BT_C128 = 3"
| "cache_group_id BT_EMBEDDING = 4"
| "cache_group_id BT_LINEAR = 5"
| "cache_group_id BT_C1 = 6"
| "cache_group_id BT_C2 = 7"

definition multi_block_export_order :: "block_type list" where
  "multi_block_export_order = [BT_SWA, BT_C4, BT_C128, BT_C2, BT_C1]"

fun is_kv_split_cache_block_type :: "block_type \<Rightarrow> bool" where
  "is_kv_split_cache_block_type BT_EMBEDDING = False"
| "is_kv_split_cache_block_type BT_LINEAR = False"
| "is_kv_split_cache_block_type _ = True"

fun is_prefetch_gate_block_type :: "block_type \<Rightarrow> bool" where
  "is_prefetch_gate_block_type BT_SWA = False"
| "is_prefetch_gate_block_type BT_EMBEDDING = False"
| "is_prefetch_gate_block_type BT_LINEAR = False"
| "is_prefetch_gate_block_type _ = True"

fun block_type_label :: "block_type \<Rightarrow> string" where
  "block_type_label BT_KV = ''kv''"
| "block_type_label BT_SWA = ''swa''"
| "block_type_label BT_C4 = ''c4''"
| "block_type_label BT_C128 = ''c128''"
| "block_type_label BT_EMBEDDING = ''embedding''"
| "block_type_label BT_LINEAR = ''linear''"
| "block_type_label BT_C1 = ''c1''"
| "block_type_label BT_C2 = ''c2''"

definition block_type_from_cache_group_id :: "int \<Rightarrow> block_type option" where
  "block_type_from_cache_group_id g =
    (if g = cache_group_id BT_KV then Some BT_KV
     else if g = cache_group_id BT_SWA then Some BT_SWA
     else if g = cache_group_id BT_C1 then Some BT_C1
     else if g = cache_group_id BT_C2 then Some BT_C2
     else if g = cache_group_id BT_C4 then Some BT_C4
     else if g = cache_group_id BT_C128 then Some BT_C128
     else if g = cache_group_id BT_EMBEDDING then Some BT_EMBEDDING
     else if g = cache_group_id BT_LINEAR then Some BT_LINEAR
     else None)"

section \<open>Blocks and reference counts\<close>

record block =
  block_id :: int
  block_hash :: hash_key

type_synonym ref_counts = "int \<Rightarrow> nat"

definition invalid_block :: block where
  "invalid_block = \<lparr>block_id = - 1, block_hash = 0\<rparr>"

definition is_valid :: "block \<Rightarrow> bool" where
  "is_valid b \<longleftrightarrow> 0 \<le> block_id b"

text \<open>The copy of an alias (copy constructor, \<open>inc_ref_count\<close>): an invalid alias has no counter.\<close>

definition inc_ref :: "block \<Rightarrow> ref_counts \<Rightarrow> ref_counts" where
  "inc_ref b r = (if is_valid b then r(block_id b := r (block_id b) + 1) else r)"

definition is_shared :: "ref_counts \<Rightarrow> block \<Rightarrow> bool" where
  "is_shared r b \<longleftrightarrow> 1 < r (block_id b)"

section \<open>The prefix cache\<close>

text \<open>\<open>lru_lst\<close> is the list of nodes from its front, the least recently used one; a node is the block it
  holds.  \<open>cached_blocks\<close> maps a hash to its node, \<open>blocks_by_id\<close> lists the resident ids.\<close>

record prefix_cache =
  lru_lst :: "block list"
  cached_blocks :: "(hash_key \<times> block) list"
  blocks_by_id :: "int list"
  num_cached :: nat
  num_evictable :: nat

definition empty_prefix_cache :: prefix_cache where
  "empty_prefix_cache = \<lparr>lru_lst = [], cached_blocks = [], blocks_by_id = [], num_cached = 0, num_evictable = 0\<rparr>"

definition check_cached_block_count :: "prefix_cache \<Rightarrow> bool" where
  "check_cached_block_count pc \<longleftrightarrow> length (blocks_by_id pc) = length (cached_blocks pc)"

definition update_evictable :: "ref_counts \<Rightarrow> block \<Rightarrow> prefix_cache \<Rightarrow> bool \<times> prefix_cache" where
  "update_evictable r b pc =
    (if block_id b < 0 then (False, pc)
     else let resident = block_id b \<in> set (blocks_by_id pc)
          in (resident, if resident \<and> r (block_id b) = 1
                        then pc\<lparr>num_evictable := num_evictable pc + 1\<rparr> else pc))"

definition release_evictable_slot :: "prefix_cache \<Rightarrow> prefix_cache" where
  "release_evictable_slot pc =
    (if num_evictable pc = 0 then pc else pc\<lparr>num_evictable := num_evictable pc - 1\<rparr>)"

definition claim_matched_block :: "ref_counts \<Rightarrow> block \<Rightarrow> prefix_cache \<Rightarrow> prefix_cache" where
  "claim_matched_block r n pc = (if \<not> is_valid n \<or> r (block_id n) \<noteq> 1 then pc else release_evictable_slot pc)"

text \<open>The state of a walk over the cache: the cache, the counts, and the working list \<open>node_list\<close> of nodes that
  have left the LRU list, from its front.\<close>

record walk =
  walk_cache :: prefix_cache
  walk_refs :: ref_counts
  walk_hits :: "block list"

text \<open>\<open>remove_node\<close> followed by \<open>push_front\<close> on the working list; a node that is hit twice is already there.\<close>

definition move_to_hits :: "block \<Rightarrow> walk \<Rightarrow> walk" where
  "move_to_hits n w = w\<lparr>walk_cache := (walk_cache w)\<lparr>lru_lst := remove1 n (lru_lst (walk_cache w))\<rparr>,
     walk_hits := n # remove1 n (walk_hits w)\<rparr>"

definition match_hit :: "block \<Rightarrow> walk \<Rightarrow> walk" where
  "match_hit n w =
     move_to_hits n (w\<lparr>walk_cache := claim_matched_block (walk_refs w) n (walk_cache w),
                       walk_refs := inc_ref n (walk_refs w)\<rparr>)"

text \<open>\<open>PrefixCache::match\<close> stops at the first miss.\<close>

fun match_solid :: "hash_key list \<Rightarrow> walk \<Rightarrow> block list \<times> walk" where
  "match_solid [] w = ([], w)"
| "match_solid (k # ks) w = (case map_of (cached_blocks (walk_cache w)) k of
     None \<Rightarrow> ([], w)
   | Some n \<Rightarrow> (let (bs, w') = match_solid ks (match_hit n w) in (n # bs, w')))"

text \<open>\<open>LinearStatePrefixCache::match\<close> puts a placeholder for a miss and goes on; \<open>b\<close> is the block index and
  \<open>hit\<close> the index of the last hit.\<close>

fun match_gap :: "nat \<Rightarrow> nat option \<Rightarrow> hash_key list \<Rightarrow> walk \<Rightarrow> block list \<times> nat option \<times> walk" where
  "match_gap b hit [] w = ([], hit, w)"
| "match_gap b hit (k # ks) w = (case map_of (cached_blocks (walk_cache w)) k of
     None \<Rightarrow> (let (bs, hit', w') = match_gap (b + 1) hit ks w in (invalid_block # bs, hit', w'))
   | Some n \<Rightarrow> (let (bs, hit', w') = match_gap (b + 1) (Some b) ks (match_hit n w) in (n # bs, hit', w')))"

text \<open>The end of every walk: the working list goes to the back of the LRU list, front first.\<close>

definition finish_walk :: "walk \<Rightarrow> prefix_cache \<times> ref_counts" where
  "finish_walk w = ((walk_cache w)\<lparr>lru_lst := lru_lst (walk_cache w) @ walk_hits w\<rparr>, walk_refs w)"

record hash_env =
  env_xxh3 :: "u8 list \<Rightarrow> hash_key"
  env_type :: hasher_type
  env_block_size :: nat
  env_gap :: bool

text \<open>The hashes that \<open>match\<close> looks up: the precomputed ones if they cover all blocks, else the chain from the
  last shared block.\<close>

definition match_keys :: "hash_env \<Rightarrow> token list \<Rightarrow> block list \<Rightarrow> mm_item list \<Rightarrow> hash_key list \<Rightarrow> hash_key list option" where
  "match_keys env ts existed its hashes =
    (let n = num_hash_blocks (env_type env) (length ts) (env_block_size env); start = min (length existed) n in
     if n \<le> length hashes then Some (drop start (take n hashes))
     else chain_loop (env_xxh3 env) (create_hasher (env_type env) its (start * env_block_size env)) ts
            (env_block_size env) (if start = 0 then None else Some (block_hash (last existed))) start (n - start))"

definition match_blocks :: "hash_env \<Rightarrow> token list \<Rightarrow> block list \<Rightarrow> mm_item list \<Rightarrow> hash_key list \<Rightarrow>
    prefix_cache \<Rightarrow> ref_counts \<Rightarrow> (block list \<times> prefix_cache \<times> ref_counts) option" where
  "match_blocks env ts existed its hashes pc r =
    (let n = num_hash_blocks (env_type env) (length ts) (env_block_size env); start = min (length existed) n in
     if n = 0 then Some ([], pc, r)
     else case match_keys env ts existed its hashes of
       None \<Rightarrow> None
     | Some keys \<Rightarrow>
         (let shared = take start existed;
              w = \<lparr>walk_cache = pc, walk_refs = fold inc_ref shared r, walk_hits = []\<rparr> in
          if env_gap env
          then (let (bs, hit, w') = match_gap start None keys w;
                    keep = (case hit of Some b \<Rightarrow> b + 1 | None \<Rightarrow> start)
                in Some (take keep (shared @ bs), finish_walk w'))
          else (let (bs, w') = match_solid keys w in Some (shared @ bs, finish_walk w'))))"

text \<open>One block of an insertion: a known hash refreshes its node, a new hash registers the block, which must
  not be registered under another hash.\<close>

definition insert_block :: "block \<Rightarrow> walk \<Rightarrow> walk option" where
  "insert_block b w =
    (let pc = walk_cache w; k = block_hash b in
     case map_of (cached_blocks pc) k of
       Some n \<Rightarrow> Some (move_to_hits n w)
     | None \<Rightarrow>
         if block_id b \<in> set (blocks_by_id pc) then None
         else Some (w\<lparr>walk_cache := pc\<lparr>cached_blocks := (k, b) # cached_blocks pc,
                        blocks_by_id := block_id b # blocks_by_id pc, num_cached := num_cached pc + 1\<rparr>,
                      walk_refs := inc_ref b (walk_refs w),
                      walk_hits := b # walk_hits w\<rparr>))"

text \<open>The loop of \<open>insert\<close> over the blocks from \<open>existed_shared_blocks_num\<close> on.  It stamps the caller's blocks;
  the gap-tolerant cache skips placeholders.\<close>

fun insert_loop :: "bool \<Rightarrow> hash_key list \<Rightarrow> block list \<Rightarrow> walk \<Rightarrow> (block list \<times> walk) option" where
  "insert_loop gap (k # ks) (b # bs) w =
     (if gap \<and> \<not> is_valid b then map_option (\<lambda>(bs', w'). (b # bs', w')) (insert_loop gap ks bs w)
      else let b' = b\<lparr>block_hash := k\<rparr> in
        case insert_block b' w of
          None \<Rightarrow> None
        | Some w1 \<Rightarrow> map_option (\<lambda>(bs', w'). (b' # bs', w')) (insert_loop gap ks bs w1))"
| "insert_loop gap ks bs w = Some (bs, w)"

definition insert_keys :: "hash_env \<Rightarrow> token list \<Rightarrow> block list \<Rightarrow> nat \<Rightarrow> mm_item list \<Rightarrow> hash_key list \<Rightarrow> nat \<Rightarrow> hash_key list option" where
  "insert_keys env ts bs existed its hashes n =
    (if n \<le> length hashes then Some (drop existed (take n hashes))
     else if env_gap env
     then map_option (drop existed)
            (chain_loop (env_xxh3 env) (create_hasher (env_type env) its 0) ts (env_block_size env) None 0 n)
     else chain_loop (env_xxh3 env) (create_hasher (env_type env) its (existed * env_block_size env)) ts
            (env_block_size env) (if existed = 0 then None else Some (block_hash (bs ! (existed - 1)))) existed (n - existed))"

definition insert_blocks :: "hash_env \<Rightarrow> token list \<Rightarrow> block list \<Rightarrow> nat \<Rightarrow> mm_item list \<Rightarrow> hash_key list \<Rightarrow>
    prefix_cache \<Rightarrow> ref_counts \<Rightarrow> (nat \<times> block list \<times> prefix_cache \<times> ref_counts) option" where
  "insert_blocks env ts bs existed its hashes pc r =
    (let n = min (num_hash_blocks (env_type env) (length ts) (env_block_size env)) (length bs) in
     if \<not> check_cached_block_count pc then None
     else if n \<le> existed then Some (n * env_block_size env, bs, pc, r)
     else case insert_keys env ts bs existed its hashes n of
       None \<Rightarrow> None
     | Some keys \<Rightarrow>
         (case insert_loop (env_gap env) keys (drop existed bs) \<lparr>walk_cache = pc, walk_refs = r, walk_hits = []\<rparr> of
            None \<Rightarrow> None
          | Some (bs', w) \<Rightarrow>
              (let (pc', r') = finish_walk w in
               if check_cached_block_count pc'
               then Some (n * env_block_size env, take existed bs @ bs', pc', r') else None)))"

text \<open>\<open>insert\<close> of blocks that already carry their hash.\<close>

fun insert_hashed_loop :: "block list \<Rightarrow> walk \<Rightarrow> walk option" where
  "insert_hashed_loop [] w = Some w"
| "insert_hashed_loop (b # bs) w =
     (if \<not> is_valid b then insert_hashed_loop bs w
      else case insert_block b w of None \<Rightarrow> None | Some w1 \<Rightarrow> insert_hashed_loop bs w1)"

definition insert_hashed :: "hash_env \<Rightarrow> block list \<Rightarrow> prefix_cache \<Rightarrow> ref_counts \<Rightarrow> (nat \<times> prefix_cache \<times> ref_counts) option" where
  "insert_hashed env bs pc r =
    (if \<not> check_cached_block_count pc then None
     else case insert_hashed_loop bs \<lparr>walk_cache = pc, walk_refs = r, walk_hits = []\<rparr> of
       None \<Rightarrow> None
     | Some w \<Rightarrow>
         (let (pc', r') = finish_walk w in
          if check_cached_block_count pc' then Some (length bs * env_block_size env, pc', r') else None))"

section \<open>The block manager\<close>

record pool_options =
  opt_num_blocks :: nat
  opt_block_size :: nat
  opt_enable_prefix_cache :: bool
  opt_block_type :: block_type
  opt_hasher_type :: hasher_type

record pool =
  options :: pool_options
  num_free_blocks :: nat
  free_blocks :: "int list"
  usage_accounted_ids :: "bool list"
  ref_counts :: ref_counts
  prefix_cache :: "prefix_cache option"

definition mark_used :: "bool list \<Rightarrow> int \<Rightarrow> (bool \<times> bool list) option" where
  "mark_used us i =
    (if i < 0 \<or> length us \<le> nat i then None
     else if us ! nat i then Some (False, us) else Some (True, us[nat i := True]))"

definition clear_used :: "bool list \<Rightarrow> int \<Rightarrow> (bool \<times> bool list) option" where
  "clear_used us i =
    (if i < 0 \<or> length us \<le> nat i then None
     else if \<not> us ! nat i then Some (False, us) else Some (True, us[nat i := False]))"

text \<open>The last alias has gone: \<open>clear_used\<close> and the push on the free list.\<close>

definition recycle :: "int \<Rightarrow> pool \<Rightarrow> pool option" where
  "recycle i p = (case clear_used (usage_accounted_ids p) i of
     Some (True, us) \<Rightarrow>
       if num_free_blocks p < length (free_blocks p)
       then Some (p\<lparr>usage_accounted_ids := us, num_free_blocks := num_free_blocks p + 1,
                    free_blocks := (free_blocks p)[num_free_blocks p := i]\<rparr>)
       else None
   | _ \<Rightarrow> None)"

text \<open>\<open>Block::release\<close> of a valid alias and \<open>BlockManagerImpl::free\<close>.\<close>

definition free_block :: "block \<Rightarrow> pool \<Rightarrow> pool option" where
  "free_block b p =
    (let i = block_id b in
     if i = 0 \<or> ref_counts p i = 0 then None
     else let p1 = p\<lparr>ref_counts := (ref_counts p)(i := ref_counts p i - 1)\<rparr>;
              (resident, pc) = (case prefix_cache p1 of
                 None \<Rightarrow> (False, None)
               | Some pc \<Rightarrow> map_prod id Some (update_evictable (ref_counts p1) b pc));
              p2 = p1\<lparr>prefix_cache := pc\<rparr>
          in if resident \<and> ref_counts p2 i = 0 then None
             else if ref_counts p2 i = 0 then recycle i p2 else Some p2)"

definition drop_alias :: "block \<Rightarrow> pool \<Rightarrow> pool option" where
  "drop_alias b p = (if is_valid b then free_block b p else Some p)"

text \<open>\<open>PrefixCache::evict\<close>: the walk from the front of the LRU list; deleting a node drops its alias.\<close>

definition evict_node :: "block \<Rightarrow> prefix_cache \<Rightarrow> pool \<Rightarrow> pool option" where
  "evict_node b pc p =
    (let pc1 = release_evictable_slot (pc\<lparr>lru_lst := remove1 b (lru_lst pc)\<rparr>);
         pc2 = pc1\<lparr>blocks_by_id := removeAll (block_id b) (blocks_by_id pc1),
                   cached_blocks := filter (\<lambda>e. fst e \<noteq> block_hash b) (cached_blocks pc1)\<rparr>
     in map_option (\<lambda>p'. p'\<lparr>prefix_cache := map_option (\<lambda>c. c\<lparr>num_cached := num_cached c - 1\<rparr>) (prefix_cache p')\<rparr>)
          (drop_alias b (p\<lparr>prefix_cache := Some pc2\<rparr>)))"

fun evict_loop :: "block list \<Rightarrow> nat \<Rightarrow> pool \<Rightarrow> (nat \<times> pool) option" where
  "evict_loop [] n p = Some (0, p)"
| "evict_loop (b # bs) n p =
     (if n = 0 then Some (0, p)
      else if is_shared (ref_counts p) b then evict_loop bs n p
      else case prefix_cache p of
        None \<Rightarrow> None
      | Some pc \<Rightarrow>
          (case evict_node b pc p of
             None \<Rightarrow> None
           | Some p1 \<Rightarrow> map_option (\<lambda>(k, p2). (k + 1, p2)) (evict_loop bs (n - 1) p1)))"

definition evict :: "nat \<Rightarrow> pool \<Rightarrow> (nat \<times> pool) option" where
  "evict n p = (case prefix_cache p of
     None \<Rightarrow> None
   | Some pc \<Rightarrow>
       if \<not> check_cached_block_count pc then None
       else if num_cached pc = 0 \<or> lru_lst pc = [] then Some (0, p)
       else case evict_loop (lru_lst pc) n p of
         None \<Rightarrow> None
       | Some (k, p') \<Rightarrow>
           (case prefix_cache p' of
              None \<Rightarrow> None
            | Some pc' \<Rightarrow> if check_cached_block_count pc' then Some (k, p') else None))"

definition has_enough_blocks :: "nat \<Rightarrow> pool \<Rightarrow> (bool \<times> pool) option" where
  "has_enough_blocks n p =
    (if n \<le> num_free_blocks p then Some (True, p)
     else if \<not> opt_enable_prefix_cache (options p) then Some (False, p)
     else let k = n - num_free_blocks p in
       case evict k p of
         None \<Rightarrow> None
       | Some (evicted, p') \<Rightarrow> if evicted < k then Some (False, p') else Some (n \<le> num_free_blocks p', p'))"

text \<open>The loop of \<open>allocate\<close>: an id from the end of the free list, and a block with a fresh counter.\<close>

definition pop_block :: "pool \<Rightarrow> (block \<times> pool) option" where
  "pop_block p =
    (if num_free_blocks p = 0 \<or> length (free_blocks p) < num_free_blocks p then None
     else let i = free_blocks p ! (num_free_blocks p - 1) in
       case mark_used (usage_accounted_ids p) i of
         Some (True, us) \<Rightarrow> Some (\<lparr>block_id = i, block_hash = 0\<rparr>,
           p\<lparr>num_free_blocks := num_free_blocks p - 1, usage_accounted_ids := us,
             ref_counts := (ref_counts p)(i := 1)\<rparr>)
       | _ \<Rightarrow> None)"

fun pop_blocks :: "nat \<Rightarrow> pool \<Rightarrow> (block list \<times> pool) option" where
  "pop_blocks 0 p = Some ([], p)"
| "pop_blocks (Suc n) p = (case pop_block p of
     None \<Rightarrow> None
   | Some (b, p1) \<Rightarrow> map_option (\<lambda>(bs, p2). (b # bs, p2)) (pop_blocks n p1))"

definition allocate :: "nat \<Rightarrow> pool \<Rightarrow> (block list \<times> pool) option" where
  "allocate n p = (case has_enough_blocks n p of
     None \<Rightarrow> None
   | Some (False, p') \<Rightarrow> Some ([], p')
   | Some (True, p') \<Rightarrow> if n \<le> num_free_blocks p' then pop_blocks n p' else None)"

text \<open>The constructor: all ids on the free list, the smallest at its end, and block 0 taken for padding.\<close>

definition create_pool :: "pool_options \<Rightarrow> pool option" where
  "create_pool opts =
    (if opt_num_blocks opts = 0 \<or> opt_block_size opts = 0 then None
     else case allocate 1 \<lparr>options = opts, num_free_blocks = opt_num_blocks opts,
            free_blocks = map (\<lambda>i. int (opt_num_blocks opts) - int i - 1) [0..<opt_num_blocks opts],
            usage_accounted_ids = replicate (opt_num_blocks opts) False, ref_counts = (\<lambda>_. 0),
            prefix_cache = (if opt_enable_prefix_cache opts then Some empty_prefix_cache else None)\<rparr> of
       Some ([padding], p) \<Rightarrow> if block_id padding = 0 then Some p else None
     | _ \<Rightarrow> None)"

text \<open>\<open>create_prefix_cache\<close> picks the gap-tolerant cache for the linear-state and sliding-window types.\<close>

definition pool_env :: "(u8 list \<Rightarrow> hash_key) \<Rightarrow> pool \<Rightarrow> hash_env" where
  "pool_env xxh3 p = \<lparr>env_xxh3 = xxh3, env_type = opt_hasher_type (options p),
     env_block_size = opt_block_size (options p),
     env_gap = (opt_block_type (options p) = BT_LINEAR \<or> opt_block_type (options p) = BT_SWA)\<rparr>"

definition allocate_shared :: "(u8 list \<Rightarrow> hash_key) \<Rightarrow> token list \<Rightarrow> block list \<Rightarrow> mm_item list \<Rightarrow> hash_key list \<Rightarrow>
    pool \<Rightarrow> (block list \<times> pool) option" where
  "allocate_shared xxh3 ts existed its hashes p =
    (case prefix_cache p of
       None \<Rightarrow> Some ([], p)
     | Some pc \<Rightarrow>
         (let ty = opt_block_type (options p) in
          if \<not> opt_enable_prefix_cache (options p) \<or> opt_block_size (options p) = 0 then Some ([], p)
          else if ty = BT_LINEAR \<and> ts = [] then Some ([], p)
          else let match_tokens = (if ty = BT_LINEAR then take (length ts - 1) ts else ts);
                   existed' = (if ty = BT_LINEAR \<or> ty = BT_SWA then [] else existed)
               in map_option (\<lambda>(bs, pc', r'). (bs, p\<lparr>prefix_cache := Some pc', ref_counts := r'\<rparr>))
                    (match_blocks (pool_env xxh3 p) match_tokens existed' its hashes pc (ref_counts p))))"

definition cache_tokens :: "(u8 list \<Rightarrow> hash_key) \<Rightarrow> token list \<Rightarrow> block list \<Rightarrow> nat \<Rightarrow> mm_item list \<Rightarrow> hash_key list \<Rightarrow>
    pool \<Rightarrow> (block list \<times> pool) option" where
  "cache_tokens xxh3 ts bs existed its hashes p =
    (if \<not> opt_enable_prefix_cache (options p) then Some (bs, p)
     else case prefix_cache p of
       None \<Rightarrow> None
     | Some pc \<Rightarrow>
         map_option (\<lambda>(_, bs', pc', r'). (bs', p\<lparr>prefix_cache := Some pc', ref_counts := r'\<rparr>))
           (insert_blocks (pool_env xxh3 p) ts bs existed its hashes pc (ref_counts p)))"

definition cache_hashed :: "(u8 list \<Rightarrow> hash_key) \<Rightarrow> block list \<Rightarrow> pool \<Rightarrow> pool option" where
  "cache_hashed xxh3 bs p =
    (if \<not> opt_enable_prefix_cache (options p) then Some p
     else case prefix_cache p of
       None \<Rightarrow> None
     | Some pc \<Rightarrow>
         map_option (\<lambda>(_, pc', r'). p\<lparr>prefix_cache := Some pc', ref_counts := r'\<rparr>)
           (insert_hashed (pool_env xxh3 p) bs pc (ref_counts p)))"

definition reset_prefix_cache :: "pool \<Rightarrow> pool option" where
  "reset_prefix_cache p = (case prefix_cache p of
     None \<Rightarrow> Some p
   | Some pc \<Rightarrow> if opt_enable_prefix_cache (options p) then map_option snd (evict (num_cached pc) p) else Some p)"

definition num_total_blocks :: "pool \<Rightarrow> nat" where
  "num_total_blocks p = length (free_blocks p) - 1"

definition num_evictable_blocks :: "pool \<Rightarrow> nat" where
  "num_evictable_blocks p = (case prefix_cache p of None \<Rightarrow> 0 | Some pc \<Rightarrow> num_evictable pc)"

definition num_used_blocks :: "pool \<Rightarrow> nat" where
  "num_used_blocks p =
    (let not_held = num_free_blocks p + num_evictable_blocks p
     in if not_held < num_total_blocks p then num_total_blocks p - not_held else 0)"

text \<open>\<open>allocate_for_sequence\<close>: the outer option is a failed \<open>CHECK\<close>, the inner one \<open>std::nullopt\<close>.\<close>

definition allocate_for_sequence :: "nat \<Rightarrow> nat \<Rightarrow> pool \<Rightarrow> (block list option \<times> pool) option" where
  "allocate_for_sequence held num_tokens p =
    (let bs = opt_block_size (options p) in
     if bs = 0 then Some (Some [], p)
     else let needed = (num_tokens + bs - 1) div bs in
       if needed \<le> held then Some (Some [], p)
       else map_option (\<lambda>(blocks, p'). (if length blocks = needed - held then Some blocks else None, p'))
              (allocate (needed - held) p))"

end
