(* ===== verification/Block_Inv.thy ===== *)
theory Block_Inv imports Block_Pool "HOL-Library.Multiset" begin

text \<open>
  The ownership invariant of the block layer (\<open>Block_Pool\<close>): every reference count is the number of living
  aliases, every id is free or counted, the cache's indexes agree with its LRU list and the evictable counter is
  exact.  Each operation of the cache and of the manager preserves it and fails no check.
\<close>

section \<open>The invariant\<close>

text \<open>The nodes of the cache (in the LRU list, or during a walk in either list) against its two indexes.\<close>

definition nodes_ok :: "prefix_cache \<Rightarrow> block list \<Rightarrow> bool" where
  "nodes_ok pc ns \<longleftrightarrow> distinct (map block_id ns) \<and> distinct (map fst (cached_blocks pc))
     \<and> set (cached_blocks pc) = (\<lambda>n. (block_hash n, n)) ` set ns
     \<and> distinct (blocks_by_id pc) \<and> set (blocks_by_id pc) = block_id ` set ns"

text \<open>\<open>H\<close> lists the ids of the aliases alive outside the cache.  Every count is the number of aliases: those, and
  the one of the block's node.\<close>

definition refs_ok :: "ref_counts \<Rightarrow> block list \<Rightarrow> int list \<Rightarrow> bool" where
  "refs_ok r ns H \<longleftrightarrow> (\<forall>i. i \<noteq> 0 \<longrightarrow> r i = count_list H i + (if i \<in> block_id ` set ns then 1 else 0))
     \<and> 0 \<notin> set H \<and> 0 \<notin> block_id ` set ns \<and> (\<forall>i. i < 0 \<longrightarrow> r i = 0)"

definition evictable_ok :: "prefix_cache \<Rightarrow> ref_counts \<Rightarrow> block list \<Rightarrow> bool" where
  "evictable_ok pc r ns \<longleftrightarrow> num_evictable pc = length (filter (\<lambda>n. r (block_id n) = 1) ns)"

definition walk_nodes :: "walk \<Rightarrow> block list" where
  "walk_nodes w = lru_lst (walk_cache w) @ walk_hits w"

definition walk_ok :: "walk \<Rightarrow> int list \<Rightarrow> bool" where
  "walk_ok w H \<longleftrightarrow> nodes_ok (walk_cache w) (walk_nodes w) \<and> refs_ok (walk_refs w) (walk_nodes w) H
     \<and> evictable_ok (walk_cache w) (walk_refs w) (walk_nodes w) \<and> num_cached (walk_cache w) = length (walk_nodes w)"

lemma nodes_ok_perm:
  assumes "mset ns = mset ns'"
  shows "nodes_ok pc ns = nodes_ok pc ns'"
proof -
  have "set ns = set ns'" using assms by (metis set_mset_mset)
  moreover have "distinct (map block_id ns) = distinct (map block_id ns')"
    using assms by (metis mset_map mset_eq_imp_distinct_iff)
  ultimately show ?thesis by (simp add: nodes_ok_def)
qed

lemma refs_ok_perm:
  assumes "mset ns = mset ns'"
  shows "refs_ok r ns H = refs_ok r ns' H"
proof -
  have "set ns = set ns'" using assms by (metis set_mset_mset)
  then show ?thesis by (simp add: refs_ok_def)
qed

lemma evictable_ok_perm:
  assumes "mset ns = mset ns'"
  shows "evictable_ok pc r ns = evictable_ok pc r ns'"
  using assms unfolding evictable_ok_def by (metis mset_filter size_mset)

lemma nodes_ok_lru [simp]: "nodes_ok (pc\<lparr>lru_lst := l\<rparr>) ns = nodes_ok pc ns"
  "nodes_ok (pc\<lparr>num_evictable := k\<rparr>) ns = nodes_ok pc ns" "nodes_ok (pc\<lparr>num_cached := k\<rparr>) ns = nodes_ok pc ns"
  by (simp_all add: nodes_ok_def)

lemma nodes_find: "nodes_ok pc ns \<Longrightarrow> map_of (cached_blocks pc) k = Some n \<longleftrightarrow> n \<in> set ns \<and> block_hash n = k"
  by (auto simp: nodes_ok_def dest: map_of_SomeD)

lemma nodes_find_None: "nodes_ok pc ns \<Longrightarrow> map_of (cached_blocks pc) k = None \<longleftrightarrow> k \<notin> block_hash ` set ns"
  by (auto simp: nodes_ok_def map_of_eq_None_iff image_image)

lemma nodes_distinct: "nodes_ok pc ns \<Longrightarrow> distinct ns"
  by (simp add: nodes_ok_def distinct_map)

lemma nodes_id_inj: "nodes_ok pc ns \<Longrightarrow> m \<in> set ns \<Longrightarrow> n \<in> set ns \<Longrightarrow> block_id m = block_id n \<longleftrightarrow> m = n"
  by (auto simp: nodes_ok_def distinct_map inj_on_def)

lemma nodes_sizes:
  assumes "nodes_ok pc ns"
  shows "length (blocks_by_id pc) = length ns" "length (cached_blocks pc) = length ns"
proof -
  have d: "distinct (map block_id ns)" "distinct (blocks_by_id pc)" "distinct (map fst (cached_blocks pc))"
      "set (blocks_by_id pc) = set (map block_id ns)" "set (cached_blocks pc) = (\<lambda>n. (block_hash n, n)) ` set ns"
    using assms by (simp_all add: nodes_ok_def)
  show "length (blocks_by_id pc) = length ns"
    using distinct_card [OF d(1)] distinct_card [OF d(2)] d(4) by simp
  have "distinct (cached_blocks pc)" using d(3) by (simp add: distinct_map)
  then have "length (cached_blocks pc) = card ((\<lambda>n. (block_hash n, n)) ` set ns)" using distinct_card d(5) by fastforce
  also have "\<dots> = card (set ns)" by (rule card_image) (simp add: inj_on_def)
  also have "\<dots> = length ns" using nodes_distinct [OF assms] by (rule distinct_card)
  finally show "length (cached_blocks pc) = length ns" .
qed

lemma refs_okD:
  assumes "refs_ok r ns H"
  shows "i \<noteq> 0 \<Longrightarrow> r i = count_list H i + (if i \<in> block_id ` set ns then 1 else 0)"
    "0 \<notin> set H" "0 \<notin> block_id ` set ns" "i < 0 \<Longrightarrow> r i = 0"
  using assms unfolding refs_ok_def by blast+

lemma refs_node_pos:
  assumes "refs_ok r ns H" "n \<in> set ns"
  shows "0 < block_id n"
proof -
  have n: "block_id n \<in> block_id ` set ns" using assms(2) by simp
  then have "block_id n \<noteq> 0" using refs_okD(3) [OF assms(1)] by metis
  moreover have "\<not> block_id n < 0" using refs_okD(1,4) [OF assms(1), of "block_id n"] n calculation by auto
  ultimately show ?thesis by linarith
qed

lemma refs_node: "refs_ok r ns H \<Longrightarrow> n \<in> set ns \<Longrightarrow> r (block_id n) = count_list H (block_id n) + 1"
  using refs_okD(1) [of r ns H "block_id n"] refs_node_pos [of r ns H n] by simp

lemma refs_okI:
  assumes "\<And>i. 0 < i \<Longrightarrow> r i = count_list H i + (if i \<in> block_id ` set ns then 1 else 0)"
    and "\<And>i. i \<in> set H \<Longrightarrow> 0 < i" "\<And>n. n \<in> set ns \<Longrightarrow> 0 < block_id n" "\<And>i. i < 0 \<Longrightarrow> r i = 0"
  shows "refs_ok r ns H"
proof -
  have "r i = count_list H i + (if i \<in> block_id ` set ns then 1 else 0)" if "i \<noteq> 0" for i
  proof (cases "0 < i")
    case False
    have "i \<notin> set H" using assms(2) False by blast
    moreover have "i \<notin> block_id ` set ns" using assms(3) False by blast
    moreover have "r i = 0" using assms(4) False that by simp
    ultimately show ?thesis by (simp add: count_list_0_iff)
  qed (rule assms(1))
  moreover have "0 \<notin> set H" using assms(2) by blast
  moreover have "0 \<notin> block_id ` set ns" using assms(3) by force
  ultimately show ?thesis using assms(4) unfolding refs_ok_def by blast
qed

lemma refs_held_pos: "refs_ok r ns H \<Longrightarrow> i \<in> set H \<Longrightarrow> 0 < i"
proof -
  assume ok: "refs_ok r ns H" and i: "i \<in> set H"
  have "i \<noteq> 0" using i refs_okD(2) [OF ok] by metis
  moreover have "count_list H i \<noteq> 0" using i by (simp add: count_list_0_iff)
  then have "\<not> i < 0" using refs_okD(1,4) [OF ok, of i] calculation by auto
  ultimately show ?thesis by linarith
qed

section \<open>Walks\<close>

lemma filter_update:
  assumes "distinct (map block_id ns)" "n \<in> set ns"
  shows "length (filter (\<lambda>m. (r(block_id n := v)) (block_id m) = (1::nat)) ns) + (if r (block_id n) = 1 then 1 else 0)
       = length (filter (\<lambda>m. r (block_id m) = 1) ns) + (if v = 1 then 1 else 0)"
  using assms
proof (induction ns)
  case (Cons m ns)
  show ?case
  proof (cases "n = m")
    case True
    then have "filter (\<lambda>m. (r(block_id n := v)) (block_id m) = 1) ns = filter (\<lambda>m. r (block_id m) = 1) ns"
      using Cons.prems(1) by (intro filter_cong) (auto simp: image_iff)
    then show ?thesis using True by simp
  next
    case False
    then have "block_id m \<noteq> block_id n" using Cons.prems by auto
    then show ?thesis using Cons False by auto
  qed
qed simp

lemma perm_move: "n \<in> set (l @ h) \<Longrightarrow> distinct (l @ h) \<Longrightarrow> mset (remove1 n l @ n # remove1 n h) = mset (l @ h)"
  by (auto intro!: diff_single_trivial simp: disjoint_iff)

lemma move_to_hits_nodes:
  assumes "n \<in> set (walk_nodes w)" "distinct (walk_nodes w)"
  shows "mset (walk_nodes (move_to_hits n w)) = mset (walk_nodes w)"
  using perm_move [of n "lru_lst (walk_cache w)" "walk_hits w"] assms by (simp add: walk_nodes_def move_to_hits_def)

lemma walk_ok_move:
  assumes "walk_ok w H" "n \<in> set (walk_nodes w)"
  shows "walk_ok (move_to_hits n w) H"
proof -
  have m: "mset (walk_nodes (move_to_hits n w)) = mset (walk_nodes w)"
    using assms by (intro move_to_hits_nodes) (auto simp: walk_ok_def dest: nodes_distinct)
  have f: "walk_refs (move_to_hits n w) = walk_refs w" "num_cached (walk_cache (move_to_hits n w)) = num_cached (walk_cache w)"
    "nodes_ok (walk_cache (move_to_hits n w)) ns = nodes_ok (walk_cache w) ns"
    "evictable_ok (walk_cache (move_to_hits n w)) r ns = evictable_ok (walk_cache w) r ns" for ns r
    by (simp_all add: move_to_hits_def evictable_ok_def)
  show ?thesis using assms(1) nodes_ok_perm [OF m] refs_ok_perm [OF m] evictable_ok_perm [OF m] mset_eq_length [OF m]
    by (simp add: walk_ok_def f)
qed

lemma walk_ok_hit:
  assumes "walk_ok w H" "n \<in> set (walk_nodes w)"
  shows "walk_ok (match_hit n w) (block_id n # H)"
proof -
  let ?r = "walk_refs w" and ?ns = "walk_nodes w"
  let ?w = "w\<lparr>walk_cache := claim_matched_block ?r n (walk_cache w), walk_refs := inc_ref n ?r\<rparr>"
  have pos: "0 < block_id n" and cnt: "?r (block_id n) = count_list H (block_id n) + 1"
    using assms refs_node_pos refs_node by (auto simp: walk_ok_def)
  have valid: "is_valid n" using pos by (simp add: is_valid_def)
  have dist: "distinct (map block_id ?ns)" using assms(1) by (simp add: walk_ok_def nodes_ok_def)
  have claim: "lru_lst (claim_matched_block ?r n pc) = lru_lst pc" "num_cached (claim_matched_block ?r n pc) = num_cached pc"
    "nodes_ok (claim_matched_block ?r n pc) ns = nodes_ok pc ns"
    "num_evictable (claim_matched_block ?r n pc) = num_evictable pc - (if ?r (block_id n) = 1 then 1 else 0)" for pc ns
    using valid by (simp_all add: claim_matched_block_def release_evictable_slot_def)
  have nodes: "walk_nodes ?w = ?ns" by (simp add: walk_nodes_def claim)
  have "evictable_ok (walk_cache ?w) (walk_refs ?w) ?ns"
    using filter_update [OF dist assms(2), of ?r "?r (block_id n) + 1"] assms(1) cnt valid
    by (simp add: walk_ok_def evictable_ok_def claim inc_ref_def split: if_splits)
  moreover have "refs_ok (walk_refs ?w) ?ns (block_id n # H)"
  proof (rule refs_okI)
    have ok: "refs_ok ?r ?ns H" using assms(1) by (simp add: walk_ok_def)
    show "walk_refs ?w i = count_list (block_id n # H) i + (if i \<in> block_id ` set ?ns then 1 else 0)" if "0 < i" for i
      using refs_okD(1) [OF ok, of i] that valid by (cases "i = block_id n") (simp_all add: inc_ref_def)
    show "0 < i" if "i \<in> set (block_id n # H)" for i using that pos refs_held_pos [OF ok] by auto
    show "0 < block_id m" if "m \<in> set ?ns" for m using that refs_node_pos [OF ok] by blast
    show "walk_refs ?w i = 0" if "i < 0" for i using that pos valid refs_okD(4) [OF ok] by (simp add: inc_ref_def)
  qed
  ultimately have "walk_ok ?w (block_id n # H)"
    using assms(1) nodes by (simp add: walk_ok_def claim)
  moreover have "n \<in> set (walk_nodes ?w)" using assms(2) nodes by simp
  ultimately show ?thesis unfolding match_hit_def by (rule walk_ok_move)
qed

lemma walk_ok_perm: "mset H = mset H' \<Longrightarrow> walk_ok w H = walk_ok w H'"
proof -
  assume "mset H = mset H'"
  then have "count_list H = count_list H'" "set H = set H'" by (auto simp: fun_eq_iff count_mset [symmetric] simp flip: set_mset_mset)
  then show ?thesis by (simp add: walk_ok_def refs_ok_def)
qed

lemma match_solid_ok:
  assumes "walk_ok w H" "match_solid ks w = (bs, w')"
  shows "walk_ok w' (map block_id bs @ H) \<and> list_all is_valid bs"
  using assms
proof (induction ks arbitrary: w H bs)
  case (Cons k ks)
  show ?case
  proof (cases "map_of (cached_blocks (walk_cache w)) k")
    case (Some n)
    then have n: "n \<in> set (walk_nodes w)" using Cons.prems(1) nodes_find by (auto simp: walk_ok_def)
    obtain bs1 where bs1: "match_solid ks (match_hit n w) = (bs1, w')" "bs = n # bs1"
      using Cons.prems(2) Some by (auto split: prod.splits)
    have "walk_ok w' (map block_id bs1 @ block_id n # H) \<and> list_all is_valid bs1"
      by (rule Cons.IH [OF walk_ok_hit [OF Cons.prems(1) n] bs1(1)])
    moreover have "is_valid n" using refs_node_pos n Cons.prems(1) by (fastforce simp: walk_ok_def is_valid_def)
    moreover have "mset (map block_id bs1 @ block_id n # H) = mset (map block_id bs @ H)" using bs1(2) by simp
    ultimately show ?thesis using walk_ok_perm bs1(2) by fastforce
  qed (use Cons in simp)
qed simp

definition cache_state_ok :: "prefix_cache \<Rightarrow> ref_counts \<Rightarrow> int list \<Rightarrow> bool" where
  "cache_state_ok pc r H \<longleftrightarrow> nodes_ok pc (lru_lst pc) \<and> refs_ok r (lru_lst pc) H
     \<and> evictable_ok pc r (lru_lst pc) \<and> num_cached pc = length (lru_lst pc)"

abbreviation start_walk :: "prefix_cache \<Rightarrow> ref_counts \<Rightarrow> walk" where
  "start_walk pc r \<equiv> \<lparr>walk_cache = pc, walk_refs = r, walk_hits = []\<rparr>"

lemma start_walk_ok: "walk_ok (start_walk pc r) H = cache_state_ok pc r H"
  by (simp add: walk_ok_def cache_state_ok_def walk_nodes_def)

lemma finish_walk_ok: "walk_ok w H \<Longrightarrow> finish_walk w = (pc, r) \<Longrightarrow> cache_state_ok pc r H"
  by (auto simp: walk_ok_def cache_state_ok_def walk_nodes_def finish_walk_def evictable_ok_def)

lemma cache_state_counts: "cache_state_ok pc r H \<Longrightarrow> check_cached_block_count pc"
  using nodes_sizes [of pc "lru_lst pc"] by (simp add: cache_state_ok_def check_cached_block_count_def)

lemma cache_state_perm: "mset H = mset H' \<Longrightarrow> cache_state_ok pc r H = cache_state_ok pc r H'"
  using walk_ok_perm [of H H' "start_walk pc r"] by (simp add: start_walk_ok)

text \<open>Copying a living alias: a resident block that has one is not evictable before or after.\<close>

lemma refs_ok_inc:
  assumes "refs_ok r ns H" "0 < i"
  shows "refs_ok (r(i := r i + 1)) ns (i # H)"
proof (rule refs_okI)
  show "(r(i := r i + 1)) j = count_list (i # H) j + (if j \<in> block_id ` set ns then 1 else 0)" if "0 < j" for j
    using refs_okD(1) [OF assms(1), of j] that by (cases "j = i") simp_all
  show "0 < j" if "j \<in> set (i # H)" for j using that assms(2) refs_held_pos [OF assms(1)] by auto
  show "0 < block_id m" if "m \<in> set ns" for m using that refs_node_pos [OF assms(1)] by blast
  show "(r(i := r i + 1)) j = 0" if "j < 0" for j using that assms(2) refs_okD(4) [OF assms(1)] by simp
qed

lemma held_not_one:
  assumes "refs_ok r ns H" "n \<in> set ns" "block_id n \<in> set H"
  shows "1 < r (block_id n)"
proof -
  have "count_list H (block_id n) \<noteq> 0" using assms(3) by (simp add: count_list_0_iff)
  then show ?thesis using refs_node [OF assms(1,2)] by simp
qed

lemma cache_state_inc:
  assumes "cache_state_ok pc r H" "block_id b \<in> set H"
  shows "cache_state_ok pc (inc_ref b r) (block_id b # H)"
proof -
  have ok: "refs_ok r (lru_lst pc) H" using assms(1) by (simp add: cache_state_ok_def)
  have pos: "0 < block_id b" using refs_held_pos [OF ok assms(2)] .
  have "((inc_ref b r) (block_id n) = 1) = (r (block_id n) = 1)" if "n \<in> set (lru_lst pc)" for n
    using held_not_one [OF ok that] assms(2) pos by (cases "block_id n = block_id b") (simp_all add: inc_ref_def is_valid_def)
  then have "filter (\<lambda>n. (inc_ref b r) (block_id n) = 1) (lru_lst pc) = filter (\<lambda>n. r (block_id n) = 1) (lru_lst pc)"
    by (intro filter_cong) auto
  then have "evictable_ok pc (inc_ref b r) (lru_lst pc)"
    using assms(1) by (simp only: cache_state_ok_def evictable_ok_def)
  moreover have "inc_ref b r = r(block_id b := r (block_id b) + 1)" using pos by (simp add: inc_ref_def is_valid_def)
  ultimately show ?thesis using assms(1) refs_ok_inc [OF ok pos] by (simp add: cache_state_ok_def)
qed

abbreviation valid_ids :: "block list \<Rightarrow> int list" where
  "valid_ids bs \<equiv> map block_id (filter is_valid bs)"

lemma cache_state_inc_all:
  "cache_state_ok pc r H \<Longrightarrow> set (valid_ids bs) \<subseteq> set H \<Longrightarrow> cache_state_ok pc (fold inc_ref bs r) (valid_ids bs @ H)"
proof (induction bs arbitrary: r H)
  case (Cons b bs)
  show ?case
  proof (cases "is_valid b")
    case True
    then have "cache_state_ok pc (inc_ref b r) (block_id b # H)" using Cons.prems by (intro cache_state_inc) auto
    from Cons.IH [OF this] have "cache_state_ok pc (fold inc_ref bs (inc_ref b r)) (valid_ids bs @ block_id b # H)"
      using Cons.prems(2) by (auto split: if_splits)
    then show ?thesis using True cache_state_perm [of "valid_ids bs @ block_id b # H" "block_id b # valid_ids bs @ H"] by simp
  next
    case False
    then have "inc_ref b r = r" by (simp add: inc_ref_def)
    then show ?thesis using Cons False by simp
  qed
qed simp

section \<open>Matching\<close>

lemma match_gap_ok:
  assumes "walk_ok w H" "match_gap b hit ks w = (bs, hit', w')"
  shows "walk_ok w' (valid_ids bs @ H)"
    and "\<And>j. j < length bs \<Longrightarrow> is_valid (bs ! j) \<Longrightarrow> \<exists>h. hit' = Some h \<and> b + j \<le> h"
    and "hit' = hit \<or> (\<exists>h. hit' = Some h \<and> b \<le> h)"
  using assms
proof (induction ks arbitrary: b hit w H bs)
  case Nil
  { case 1 then show ?case by simp next case 2 then show ?case by simp next case 3 then show ?case by simp }
next
  case (Cons k ks)
  have *: "walk_ok w' (valid_ids bs @ H) \<and> (\<forall>j < length bs. is_valid (bs ! j) \<longrightarrow> (\<exists>h. hit' = Some h \<and> b + j \<le> h))
      \<and> (hit' = hit \<or> (\<exists>h. hit' = Some h \<and> b \<le> h))"
    if ok: "walk_ok w H" and m: "match_gap b hit (k # ks) w = (bs, hit', w')" for bs b hit w H
  proof (cases "map_of (cached_blocks (walk_cache w)) k")
    case None
    obtain bs1 where bs1: "match_gap (b + 1) hit ks w = (bs1, hit', w')" "bs = invalid_block # bs1"
      using m None by (auto split: prod.splits)
    have inv: "\<not> is_valid invalid_block" by (simp add: is_valid_def invalid_block_def)
    have "\<exists>h. hit' = Some h \<and> b + j \<le> h" if "j < length bs" "is_valid (bs ! j)" for j
      using that Cons.IH(2) [OF _ _ ok bs1(1), of "j - 1"] bs1(2) inv by (cases j) auto
    then show ?thesis using Cons.IH(1,3) [OF ok bs1(1)] bs1(2) inv by fastforce
  next
    case (Some n)
    have n: "n \<in> set (walk_nodes w)" using ok Some nodes_find by (auto simp: walk_ok_def)
    obtain bs1 where bs1: "match_gap (b + 1) (Some b) ks (match_hit n w) = (bs1, hit', w')" "bs = n # bs1"
      using m Some by (auto split: prod.splits)
    note ok' = walk_ok_hit [OF ok n]
    have v: "is_valid n" using refs_node_pos n ok by (fastforce simp: walk_ok_def is_valid_def)
    have hit: "\<exists>h. hit' = Some h \<and> b \<le> h" using Cons.IH(3) [OF ok' bs1(1)] by auto
    have "\<exists>h. hit' = Some h \<and> b + j \<le> h" if "j < length bs" "is_valid (bs ! j)" for j
      using that Cons.IH(2) [OF _ _ ok' bs1(1), of "j - 1"] bs1(2) hit by (cases j) auto
    moreover have "walk_ok w' (valid_ids bs @ H)"
      using Cons.IH(1) [OF ok' bs1(1)] walk_ok_perm [of "valid_ids bs1 @ block_id n # H" "valid_ids bs @ H"] bs1(2) v by simp
    ultimately show ?thesis using hit by blast
  qed
  { case 1 then show ?case using * by blast next case 2 then show ?case using * by blast next case 3 then show ?case using * by blast }
qed

lemma valid_ids_take:
  assumes "\<And>j. k \<le> j \<Longrightarrow> j < length bs \<Longrightarrow> \<not> is_valid (bs ! j)"
  shows "valid_ids (take k bs) = valid_ids bs"
proof -
  have "filter is_valid (drop k bs) = []"
    using assms by (auto simp: filter_empty_conv in_set_conv_nth)
  then show ?thesis by (metis append_Nil2 append_take_drop_id filter_append)
qed

lemma match_blocks_ok:
  assumes "cache_state_ok pc r H" "set (valid_ids existed) \<subseteq> set H"
    and "match_blocks env ts existed its hashes pc r = Some (bs, pc', r')"
  shows "cache_state_ok pc' r' (valid_ids bs @ H)"
proof -
  define n where "n = num_hash_blocks (env_type env) (length ts) (env_block_size env)"
  define start where "start = min (length existed) n"
  define shared where "shared = take start existed"
  show ?thesis
  proof (cases "n = 0")
    case True
    then show ?thesis using assms(1,3) by (simp add: match_blocks_def Let_def flip: n_def)
  next
    case False
    then obtain keys where keys: "match_keys env ts existed its hashes = Some keys"
      using assms(3) by (auto simp: match_blocks_def Let_def simp flip: n_def split: option.splits)
    have "set (valid_ids shared) \<subseteq> set H" using assms(2) by (auto simp: shared_def dest: in_set_takeD)
    then have ok: "walk_ok (start_walk pc (fold inc_ref shared r)) (valid_ids shared @ H)"
      using cache_state_inc_all [OF assms(1)] by (simp add: start_walk_ok)
    have len: "length shared = start" by (simp add: shared_def start_def)
    show ?thesis
    proof (cases "env_gap env")
      case True
      obtain bs1 hit w' where m: "match_gap start None keys (start_walk pc (fold inc_ref shared r)) = (bs1, hit, w')"
        by (metis prod_cases3)
      define keep where "keep = (case hit of Some b \<Rightarrow> b + 1 | None \<Rightarrow> start)"
      have bs: "bs = take keep (shared @ bs1)" "finish_walk w' = (pc', r')"
        using assms(3) keys m True False
        by (auto simp del: take_append cong: option.case_cong simp: match_blocks_def Let_def keep_def shared_def start_def simp flip: n_def)
      have "\<not> is_valid ((shared @ bs1) ! j)" if "keep \<le> j" "j < length (shared @ bs1)" for j
      proof
        assume v: "is_valid ((shared @ bs1) ! j)"
        have "start \<le> keep" using match_gap_ok(3) [OF ok m] by (auto simp: keep_def split: option.splits)
        then have j: "start \<le> j" using that(1) by simp
        then have "is_valid (bs1 ! (j - start))" "j - start < length bs1" using v that(2) len by (simp_all add: nth_append)
        then show False using match_gap_ok(2) [OF ok m] that(1) j by (fastforce simp: keep_def)
      qed
      then have "valid_ids bs = valid_ids (shared @ bs1)" unfolding bs(1) by (rule valid_ids_take)
      moreover have "cache_state_ok pc' r' (valid_ids bs1 @ valid_ids shared @ H)"
        by (rule finish_walk_ok [OF match_gap_ok(1) [OF ok m] bs(2)])
      ultimately show ?thesis
        using cache_state_perm [of "valid_ids bs1 @ valid_ids shared @ H" "valid_ids bs @ H"] by simp
    next
      case False
      obtain bs1 w' where m: "match_solid keys (start_walk pc (fold inc_ref shared r)) = (bs1, w')" by fastforce
      have bs: "bs = shared @ bs1" "finish_walk w' = (pc', r')"
        using assms(3) keys m False \<open>n \<noteq> 0\<close>
        by (simp_all add: match_blocks_def Let_def shared_def flip: n_def start_def)
      have w: "walk_ok w' (map block_id bs1 @ valid_ids shared @ H)" and v: "valid_ids bs1 = map block_id bs1"
        using match_solid_ok [OF ok m] by (auto simp: list_all_iff)
      have "cache_state_ok pc' r' (map block_id bs1 @ valid_ids shared @ H)" by (rule finish_walk_ok [OF w bs(2)])
      then show ?thesis
        using v bs(1) cache_state_perm [of "map block_id bs1 @ valid_ids shared @ H" "valid_ids bs @ H"] by simp
    qed
  qed
qed

section \<open>Insertion\<close>

text \<open>A block that is inserted is alive outside the cache, so its new node adds a second owner.\<close>

lemma insert_block_ok:
  assumes "walk_ok w H" "block_id b \<in> set H" "insert_block b w = Some w'"
  shows "walk_ok w' H \<and> (\<exists>n \<in> set (walk_nodes w'). block_hash n = block_hash b)"
proof -
  let ?pc = "walk_cache w" and ?ns = "walk_nodes w" and ?r = "walk_refs w"
  have ok: "nodes_ok ?pc ?ns" "refs_ok ?r ?ns H" "evictable_ok ?pc ?r ?ns" "num_cached ?pc = length ?ns"
    using assms(1) by (simp_all add: walk_ok_def)
  show ?thesis
  proof (cases "map_of (cached_blocks ?pc) (block_hash b)")
    case (Some n)
    then have n: "n \<in> set ?ns" "block_hash n = block_hash b" using nodes_find [OF ok(1)] by auto
    have w': "w' = move_to_hits n w" using assms(3) Some by (simp add: insert_block_def)
    have "mset (walk_nodes w') = mset ?ns" unfolding w'
      using n(1) nodes_distinct [OF ok(1)] by (rule move_to_hits_nodes)
    then have "n \<in> set (walk_nodes w')" using n(1) by (metis set_mset_mset)
    then show ?thesis using walk_ok_move [OF assms(1) n(1)] n(2) w' by blast
  next
    case None
    have fresh: "block_id b \<notin> block_id ` set ?ns" "block_hash b \<notin> block_hash ` set ?ns"
      using assms(3) None ok(1) nodes_find_None [OF ok(1)] by (auto simp: insert_block_def Let_def nodes_ok_def split: if_splits)
    have w': "w' = w\<lparr>walk_cache := ?pc\<lparr>cached_blocks := (block_hash b, b) # cached_blocks ?pc,
          blocks_by_id := block_id b # blocks_by_id ?pc, num_cached := num_cached ?pc + 1\<rparr>,
        walk_refs := inc_ref b ?r, walk_hits := b # walk_hits w\<rparr>"
      using assms(3) None by (simp add: insert_block_def Let_def split: if_splits)
    have m: "mset (walk_nodes w') = mset (b # ?ns)" by (simp add: w' walk_nodes_def)
    have pos: "0 < block_id b" using refs_held_pos [OF ok(2) assms(2)] .
    then have inc: "inc_ref b ?r = ?r(block_id b := ?r (block_id b) + 1)" by (simp add: inc_ref_def is_valid_def)
    have cnt: "?r (block_id b) = count_list H (block_id b)" "count_list H (block_id b) \<noteq> 0"
      using refs_okD(1) [OF ok(2), of "block_id b"] pos fresh(1) assms(2) by (simp_all add: count_list_0_iff)
    have dups: "block_hash b \<notin> fst ` set (cached_blocks ?pc)" using None by (simp add: map_of_eq_None_iff)
    have "nodes_ok (walk_cache w') (b # ?ns)"
      using ok(1) fresh dups by (auto simp: w' nodes_ok_def image_iff)
    moreover have "refs_ok (walk_refs w') (b # ?ns) H"
    proof (rule refs_okI)
      show "walk_refs w' i = count_list H i + (if i \<in> block_id ` set (b # ?ns) then 1 else 0)" if "0 < i" for i
        using refs_okD(1) [OF ok(2), of i] that fresh(1) by (cases "i = block_id b") (simp_all add: w' inc)
      show "0 < i" if "i \<in> set H" for i using that refs_held_pos [OF ok(2)] by blast
      show "0 < block_id n" if "n \<in> set (b # ?ns)" for n using that pos refs_node_pos [OF ok(2)] by auto
      show "walk_refs w' i = 0" if "i < 0" for i using that pos refs_okD(4) [OF ok(2)] by (simp add: w' inc)
    qed
    moreover have "evictable_ok (walk_cache w') (walk_refs w') (b # ?ns)"
    proof -
      have "filter (\<lambda>n. (inc_ref b ?r) (block_id n) = 1) ?ns = filter (\<lambda>n. ?r (block_id n) = 1) ?ns"
        using fresh(1) by (intro filter_cong) (auto simp: inc image_iff)
      moreover have "(inc_ref b ?r) (block_id b) \<noteq> 1" using cnt by (simp add: inc)
      ultimately show ?thesis using ok(3) by (simp add: w' evictable_ok_def)
    qed
    ultimately have "walk_ok w' H"
      using ok(4) nodes_ok_perm [OF m] refs_ok_perm [OF m] evictable_ok_perm [OF m] mset_eq_length [OF m]
      by (simp add: walk_ok_def) (simp add: w')
    moreover have "b \<in> set (walk_nodes w')" by (simp add: w' walk_nodes_def)
    ultimately show ?thesis by blast
  qed
qed

lemma insert_loop_ok:
  assumes "walk_ok w H" "set (map block_id bs) \<subseteq> set H \<or> (gap \<and> set (valid_ids bs) \<subseteq> set H)"
    and "insert_loop gap ks bs w = Some (bs', w')"
  shows "walk_ok w' H \<and> map block_id bs' = map block_id bs"
  using assms
proof (induction gap ks bs w arbitrary: bs' rule: insert_loop.induct)
  case (1 gap k ks b bs w)
  show ?case
  proof (cases "gap \<and> \<not> is_valid b")
    case True
    then show ?thesis using 1 by auto
  next
    case False
    let ?b = "b\<lparr>block_hash := k\<rparr>"
    obtain w1 bs1 where w1: "insert_block ?b w = Some w1" "insert_loop gap ks bs w1 = Some (bs1, w')" "bs' = ?b # bs1"
      using 1(5) False by (auto simp: Let_def split: option.splits)
    have "block_id ?b \<in> set H" using 1(4) False by auto
    then have "walk_ok w1 H" using insert_block_ok [OF 1(3) _ w1(1)] by blast
    from 1(2) [OF False refl w1(1) this _ w1(2)] show ?thesis using 1(4) False w1(3) by auto
  qed
qed auto

lemma insert_hashed_loop_ok:
  "walk_ok w H \<Longrightarrow> set (valid_ids bs) \<subseteq> set H \<Longrightarrow> insert_hashed_loop bs w = Some w' \<Longrightarrow> walk_ok w' H"
proof (induction bs arbitrary: w)
  case (Cons b bs)
  then show ?case using insert_block_ok [of w H b] by (auto split: if_splits option.splits)
qed simp

lemma insert_blocks_ok:
  assumes "cache_state_ok pc r H" "set (map block_id bs) \<subseteq> set H \<or> (env_gap env \<and> set (valid_ids bs) \<subseteq> set H)"
    and "insert_blocks env ts bs existed its hashes pc r = Some (k, bs', pc', r')"
  shows "cache_state_ok pc' r' H \<and> map block_id bs' = map block_id bs"
proof -
  let ?n = "min (num_hash_blocks (env_type env) (length ts) (env_block_size env)) (length bs)"
  show ?thesis
  proof (cases "?n \<le> existed")
    case True
    then show ?thesis using assms(1,3) by (auto simp: insert_blocks_def Let_def split: if_splits)
  next
    case False
    obtain keys bs1 w where w: "insert_loop (env_gap env) keys (drop existed bs) (start_walk pc r) = Some (bs1, w)"
        "finish_walk w = (pc', r')" "bs' = take existed bs @ bs1"
      using assms(3) False by (auto simp: insert_blocks_def Let_def split: if_splits option.splits prod.splits)
    have "set (map block_id (drop existed bs)) \<subseteq> set H \<or> (env_gap env \<and> set (valid_ids (drop existed bs)) \<subseteq> set H)"
      using assms(2) by (auto dest: in_set_dropD)
    then have "walk_ok w H \<and> map block_id bs1 = map block_id (drop existed bs)"
      using insert_loop_ok [OF _ _ w(1)] assms(1) by (simp add: start_walk_ok)
    then show ?thesis using finish_walk_ok [OF _ w(2)] w(3) by (metis append_take_drop_id map_append)
  qed
qed

lemma insert_hashed_ok:
  assumes "cache_state_ok pc r H" "set (valid_ids bs) \<subseteq> set H" "insert_hashed env bs pc r = Some (k, pc', r')"
  shows "cache_state_ok pc' r' H"
proof -
  obtain w where w: "insert_hashed_loop bs (start_walk pc r) = Some w" "finish_walk w = (pc', r')"
    using assms(3) by (auto simp: insert_hashed_def split: if_splits option.splits prod.splits)
  then show ?thesis using insert_hashed_loop_ok [OF _ assms(2) w(1)] assms(1) finish_walk_ok by (simp add: start_walk_ok)
qed

section \<open>The manager\<close>

definition cache_nodes :: "pool \<Rightarrow> block list" where
  "cache_nodes p = (case prefix_cache p of None \<Rightarrow> [] | Some pc \<Rightarrow> lru_lst pc)"

text \<open>The free list holds exactly the ids without a counter, each once; the usage bytes mark the others.\<close>

definition free_ok :: "pool \<Rightarrow> bool" where
  "free_ok p \<longleftrightarrow> (let n = opt_num_blocks (options p) in
     length (free_blocks p) = n \<and> length (usage_accounted_ids p) = n \<and> num_free_blocks p \<le> n
   \<and> distinct (take (num_free_blocks p) (free_blocks p))
   \<and> set (take (num_free_blocks p) (free_blocks p)) = {i. 0 < i \<and> i < int n \<and> ref_counts p i = 0}
   \<and> (\<forall>i < n. usage_accounted_ids p ! i \<longleftrightarrow> ref_counts p (int i) \<noteq> 0)
   \<and> 0 < n \<and> ref_counts p 0 \<noteq> 0 \<and> (\<forall>i. ref_counts p i \<noteq> 0 \<longrightarrow> 0 \<le> i \<and> i < int n))"

text \<open>The invariant without the resident count, which an eviction updates last.\<close>

definition pool_core :: "pool \<Rightarrow> int list \<Rightarrow> bool" where
  "pool_core p H \<longleftrightarrow> free_ok p \<and> refs_ok (ref_counts p) (cache_nodes p) H
     \<and> (\<forall>pc. prefix_cache p = Some pc \<longrightarrow> nodes_ok pc (lru_lst pc) \<and> evictable_ok pc (ref_counts p) (lru_lst pc))
     \<and> (opt_enable_prefix_cache (options p) \<longleftrightarrow> prefix_cache p \<noteq> None)"

definition counted_ok :: "pool \<Rightarrow> bool" where
  "counted_ok p \<longleftrightarrow> (\<forall>pc. prefix_cache p = Some pc \<longrightarrow> num_cached pc = length (lru_lst pc))"

definition pool_ok :: "pool \<Rightarrow> int list \<Rightarrow> bool" where
  "pool_ok p H \<longleftrightarrow> pool_core p H \<and> counted_ok p"

lemma free_okD:
  assumes "free_ok p"
  defines "n \<equiv> opt_num_blocks (options p)"
  shows "length (free_blocks p) = n" "length (usage_accounted_ids p) = n" "num_free_blocks p \<le> n"
    "distinct (take (num_free_blocks p) (free_blocks p))"
    "set (take (num_free_blocks p) (free_blocks p)) = {i. 0 < i \<and> i < int n \<and> ref_counts p i = 0}"
    "i < n \<Longrightarrow> usage_accounted_ids p ! i \<longleftrightarrow> ref_counts p (int i) \<noteq> 0"
    "0 < n" "ref_counts p 0 \<noteq> 0" "ref_counts p k \<noteq> 0 \<Longrightarrow> 0 \<le> k \<and> k < int n"
  using assms(1) unfolding free_ok_def n_def Let_def by auto

text \<open>The free list has room for one more whenever an id is in use.\<close>

lemma free_room:
  assumes "free_ok p" "0 < i" "ref_counts p i \<noteq> 0"
  shows "num_free_blocks p < opt_num_blocks (options p)"
proof -
  let ?n = "opt_num_blocks (options p)" and ?F = "set (take (num_free_blocks p) (free_blocks p))"
  have "card ?F = length (take (num_free_blocks p) (free_blocks p))" by (rule distinct_card [OF free_okD(4) [OF assms(1)]])
  then have card: "card ?F = num_free_blocks p" using free_okD(1,3) [OF assms(1)] by simp
  have "?F \<subset> {0<..<int ?n}"
  proof (rule psubsetI)
    show "?F \<subseteq> {0<..<int ?n}" unfolding free_okD(5) [OF assms(1)] by auto
    have "i \<in> {0<..<int ?n}" using assms(2) free_okD(9) [OF assms(1,3)] by simp
    moreover have "i \<notin> ?F" using free_okD(5) [OF assms(1)] assms(3) by simp
    ultimately show "?F \<noteq> {0<..<int ?n}" by blast
  qed
  then have "card ?F < card {0<..<int ?n}" by (intro psubset_card_mono) auto
  then show ?thesis using card by simp
qed

lemma recycle_ok:
  assumes "free_ok p" "0 < i" "ref_counts p i = 1"
    and "p' = p\<lparr>ref_counts := (ref_counts p)(i := 0), prefix_cache := c\<rparr>"
  shows "\<exists>q. recycle i p' = Some q \<and> free_ok q \<and> ref_counts q = (ref_counts p)(i := 0) \<and> prefix_cache q = c
     \<and> options q = options p \<and> num_free_blocks q = num_free_blocks p + 1"
proof -
  let ?n = "opt_num_blocks (options p)" and ?k = "num_free_blocks p" and ?r = "(ref_counts p)(i := 0)"
  have i: "i < int ?n" using free_okD(9) [OF assms(1), of i] assms(3) by simp
  have room: "?k < ?n" using free_room [OF assms(1,2)] assms(3) by simp
  have used: "usage_accounted_ids p ! nat i" using free_okD(6) [OF assms(1), of "nat i"] i assms(2,3) by simp
  define q where "q = p'\<lparr>usage_accounted_ids := (usage_accounted_ids p)[nat i := False],
      num_free_blocks := ?k + 1, free_blocks := (free_blocks p)[?k := i]\<rparr>"
  have "recycle i p' = Some q"
    using i assms(2) used room free_okD(1,2) [OF assms(1)] by (simp add: recycle_def clear_used_def assms(4) q_def)
  moreover have "free_ok q"
  proof -
    have tk: "take (?k + 1) ((free_blocks p)[?k := i]) = take ?k (free_blocks p) @ [i]"
      using room free_okD(1) [OF assms(1)] by (simp add: take_Suc_conv_app_nth take_update_cancel)
    have notin: "i \<notin> set (take ?k (free_blocks p))" using free_okD(5) [OF assms(1)] assms(3) by simp
    have free: "set (take ?k (free_blocks p) @ [i]) = {j. 0 < j \<and> j < int ?n \<and> ?r j = 0}"
      using free_okD(5) [OF assms(1)] i assms(2) by auto
    have us: "(usage_accounted_ids p)[nat i := False] ! j \<longleftrightarrow> ?r (int j) \<noteq> 0" if "j < ?n" for j
      using free_okD(2) [OF assms(1)] free_okD(6) [OF assms(1) that] that assms(2) by (cases "j = nat i") auto
    have "free_blocks q = (free_blocks p)[?k := i]" "usage_accounted_ids q = (usage_accounted_ids p)[nat i := False]"
      "num_free_blocks q = ?k + 1" "ref_counts q = ?r" "options q = options p" by (simp_all add: q_def assms(4))
    then show ?thesis
      using tk notin free us room assms(2) free_okD(1-4,7-9) [OF assms(1)]
      unfolding free_ok_def Let_def by (auto split: if_splits)
  qed
  ultimately show ?thesis by (auto simp: q_def assms(4))
qed

lemma free_ok_refs:
  assumes "free_ok p" "\<And>i. ref_counts p i = 0 \<longleftrightarrow> r i = 0"
  shows "free_ok (p\<lparr>ref_counts := r, prefix_cache := c\<rparr>)"
  using assms unfolding free_ok_def Let_def by simp

lemma update_evictable_ok:
  assumes "nodes_ok pc ns" "evictable_ok pc r ns" "0 < block_id b"
    and "block_id b \<in> block_id ` set ns \<Longrightarrow> 2 \<le> r (block_id b)"
    and "update_evictable (r(block_id b := r (block_id b) - 1)) b pc = (res, pc')"
  shows "(res \<longleftrightarrow> block_id b \<in> block_id ` set ns) \<and> nodes_ok pc' ns
     \<and> evictable_ok pc' (r(block_id b := r (block_id b) - 1)) ns \<and> lru_lst pc' = lru_lst pc \<and> num_cached pc' = num_cached pc"
proof -
  let ?i = "block_id b"
  let ?r' = "r(?i := r ?i - 1)"
  have res: "res \<longleftrightarrow> ?i \<in> block_id ` set ns"
    and pc': "pc' = (if ?i \<in> block_id ` set ns \<and> ?r' ?i = 1 then pc\<lparr>num_evictable := num_evictable pc + 1\<rparr> else pc)"
    using assms(1,3,5) by (auto simp: update_evictable_def nodes_ok_def Let_def)
  have "num_evictable pc' = length (filter (\<lambda>n. ?r' (block_id n) = 1) ns)"
  proof (cases "?i \<in> block_id ` set ns")
    case True
    then obtain n where n: "n \<in> set ns" "block_id n = ?i" by auto
    have "distinct (map block_id ns)" using assms(1) by (simp add: nodes_ok_def)
    from filter_update [OF this n(1), of r "r ?i - 1"] show ?thesis
      using assms(2) assms(4) [OF True] True n(2) by (simp add: pc' evictable_ok_def split: if_splits)
  next
    case False
    then have "filter (\<lambda>n. ?r' (block_id n) = 1) ns = filter (\<lambda>n. r (block_id n) = 1) ns"
      by (intro filter_cong) (auto simp: image_iff)
    then show ?thesis using assms(2) False by (simp add: pc' evictable_ok_def)
  qed
  moreover have "nodes_ok pc' ns \<and> lru_lst pc' = lru_lst pc \<and> num_cached pc' = num_cached pc"
    using assms(1) by (simp add: pc')
  ultimately show ?thesis using res by (simp add: evictable_ok_def)
qed

text \<open>Dropping an alias: one of several, the last one outside the cache, or the last one at all.\<close>

definition same_cache_list :: "pool \<Rightarrow> pool \<Rightarrow> bool" where
  "same_cache_list p q \<longleftrightarrow> options q = options p
     \<and> map_option (\<lambda>c. (lru_lst c, num_cached c)) (prefix_cache q) = map_option (\<lambda>c. (lru_lst c, num_cached c)) (prefix_cache p)"

lemma same_cache_listD:
  assumes "same_cache_list p q"
  shows "options q = options p" "cache_nodes q = cache_nodes p" "counted_ok q = counted_ok p"
    "prefix_cache q = None \<longleftrightarrow> prefix_cache p = None"
  using assms by (cases "prefix_cache p"; cases "prefix_cache q"; simp add: same_cache_list_def cache_nodes_def counted_ok_def)+

lemma free_block_ok:
  assumes "pool_core p H" "block_id b \<in> set H"
  shows "\<exists>q. free_block b p = Some q \<and> pool_core q (remove1 (block_id b) H) \<and> same_cache_list p q
     \<and> ref_counts q = (ref_counts p)(block_id b := ref_counts p (block_id b) - 1)
     \<and> num_free_blocks q = num_free_blocks p + (if ref_counts p (block_id b) = 1 then 1 else 0)"
proof -
  let ?i = "block_id b" and ?r = "ref_counts p" and ?ns = "cache_nodes p"
  let ?r' = "?r(?i := ?r ?i - 1)"
  have ok: "free_ok p" "refs_ok ?r ?ns H" using assms(1) by (simp_all add: pool_core_def)
  have pos: "0 < ?i" using refs_held_pos [OF ok(2) assms(2)] .
  have cnt: "count_list H ?i \<noteq> 0" using assms(2) by (simp add: count_list_0_iff)
  have ri: "?r ?i = count_list H ?i + (if ?i \<in> block_id ` set ?ns then 1 else 0)" using refs_okD(1) [OF ok(2)] pos by simp
  have refs': "refs_ok ?r' ?ns (remove1 ?i H)"
  proof (rule refs_okI)
    show "?r' j = count_list (remove1 ?i H) j + (if j \<in> block_id ` set ?ns then 1 else 0)" if "0 < j" for j
      using refs_okD(1) [OF ok(2), of j] that cnt by (cases "j = ?i") simp_all
    show "0 < j" if "j \<in> set (remove1 ?i H)" for j
      using that refs_held_pos [OF ok(2)] by (meson notin_set_remove1)
    show "0 < block_id n" if "n \<in> set ?ns" for n using that refs_node_pos [OF ok(2)] by blast
    show "?r' j = 0" if "j < 0" for j using that pos refs_okD(4) [OF ok(2)] by simp
  qed
  obtain res c where upd: "(case prefix_cache p of None \<Rightarrow> (False, None)
      | Some pc \<Rightarrow> map_prod id Some (update_evictable ?r' b pc)) = (res, c)" by fastforce
  have c: "(res \<longleftrightarrow> ?i \<in> block_id ` set ?ns)
      \<and> (\<forall>pc'. c = Some pc' \<longrightarrow> nodes_ok pc' (lru_lst pc') \<and> evictable_ok pc' ?r' (lru_lst pc'))
      \<and> map_option (\<lambda>c. (lru_lst c, num_cached c)) c = map_option (\<lambda>c. (lru_lst c, num_cached c)) (prefix_cache p)"
  proof (cases "prefix_cache p")
    case None
    then show ?thesis using upd by (auto simp: cache_nodes_def)
  next
    case (Some pc)
    obtain pc' where pc': "update_evictable ?r' b pc = (res, pc')" "c = Some pc'"
      using upd Some by (auto simp: map_prod_def split: prod.splits)
    have ns: "?ns = lru_lst pc" using Some by (simp add: cache_nodes_def)
    have "nodes_ok pc ?ns" "evictable_ok pc ?r ?ns" using assms(1) Some ns by (simp_all add: pool_core_def)
    from update_evictable_ok [OF this pos _ pc'(1)] show ?thesis
      using ri cnt ns pc'(2) Some by simp
  qed
  define p2 where "p2 = p\<lparr>ref_counts := ?r', prefix_cache := c\<rparr>"
  have run: "free_block b p = (if res \<and> ?r' ?i = 0 then None else if ?r' ?i = 0 then recycle ?i p2 else Some p2)"
  proof -
    have "?r ?i \<noteq> 0" using ri cnt by simp
    then show ?thesis using upd pos by (simp add: free_block_def Let_def p2_def cong: option.case_cong)
  qed
  have nores: "\<not> (res \<and> ?r' ?i = 0)" using c ri cnt by auto
  have core: "pool_core q (remove1 ?i H)" "same_cache_list p q"
    if "free_ok q" "ref_counts q = ?r'" "prefix_cache q = c" "options q = options p" for q
  proof -
    show scl: "same_cache_list p q" using that c by (simp add: same_cache_list_def)
    show "pool_core q (remove1 ?i H)"
      using that refs' c same_cache_listD [OF scl] assms(1) by (simp add: pool_core_def)
  qed
  show ?thesis
  proof (cases "?r ?i = 1")
    case True
    then have z: "?r' = ?r(?i := 0)" by simp
    obtain q where q: "recycle ?i p2 = Some q" "free_ok q" "ref_counts q = ?r'" "prefix_cache q = c"
        "options q = options p" "num_free_blocks q = num_free_blocks p + 1"
      using recycle_ok [OF ok(1) pos True, of p2 c] unfolding p2_def z by blast
    then show ?thesis using run nores core [OF q(2-5)] True by auto
  next
    case False
    have "free_ok p2" unfolding p2_def using False ri cnt by (intro free_ok_refs [OF ok(1)]) auto
    then have "pool_core p2 (remove1 ?i H)" "same_cache_list p p2" using core [of p2] by (simp_all add: p2_def)
    moreover have "free_block b p = Some p2" using run nores False ri cnt by auto
    ultimately show ?thesis using False by (auto simp: p2_def)
  qed
qed

section \<open>Eviction\<close>

text \<open>What an eviction of at most \<open>n\<close> nodes leaves: the walk skips shared nodes and deletes the others.\<close>

fun evict_spec :: "ref_counts \<Rightarrow> nat \<Rightarrow> block list \<Rightarrow> block list" where
  "evict_spec r n [] = []"
| "evict_spec r n (b # bs) =
     (if n = 0 then b # bs else if is_shared r b then b # evict_spec r n bs else evict_spec r (n - 1) bs)"

lemma pool_core_cache:
  assumes "pool_core p H" "prefix_cache p = Some pc"
  shows "nodes_ok pc (lru_lst pc)" "evictable_ok pc (ref_counts p) (lru_lst pc)" "refs_ok (ref_counts p) (lru_lst pc) H"
    "cache_nodes p = lru_lst pc"
  using assms by (simp_all add: pool_core_def cache_nodes_def)

lemma nodes_ok_remove:
  assumes "nodes_ok pc ns" "b \<in> set ns"
    and "cached_blocks pc' = filter (\<lambda>e. fst e \<noteq> block_hash b) (cached_blocks pc)"
    and "blocks_by_id pc' = removeAll (block_id b) (blocks_by_id pc)"
  shows "nodes_ok pc' (remove1 b ns)"
proof -
  have d: "distinct ns" "inj_on block_id (set ns)" using assms(1) by (simp_all add: nodes_ok_def distinct_map)
  have inj: "inj_on fst ((\<lambda>n. (block_hash n, n)) ` set ns)"
    using assms(1) unfolding nodes_ok_def by (metis distinct_map)
  have hash: "block_hash n = block_hash b \<longleftrightarrow> n = b" if "n \<in> set ns" for n
  proof -
    have elems: "(block_hash n, n) \<in> (\<lambda>n. (block_hash n, n)) ` set ns" "(block_hash b, b) \<in> (\<lambda>n. (block_hash n, n)) ` set ns"
      using that assms(2) by blast+
    have "(block_hash n, n) = (block_hash b, b)" if "block_hash n = block_hash b"
      by (rule inj_onD [OF inj _ elems]) (simp add: that)
    then show ?thesis by auto
  qed
  have set': "set (remove1 b ns) = set ns - {b}" using d(1) by simp
  have "distinct (map block_id (remove1 b ns))"
    using d by (auto simp: distinct_map intro: inj_on_subset)
  moreover have "distinct (map fst (cached_blocks pc'))"
    using assms(1,3) by (simp add: nodes_ok_def distinct_map_filter)
  moreover have "set (cached_blocks pc') = (\<lambda>n. (block_hash n, n)) ` set (remove1 b ns)"
    using assms(1,3) hash unfolding nodes_ok_def set' by auto
  moreover have "distinct (blocks_by_id pc')" using assms(1,4) by (simp add: nodes_ok_def distinct_removeAll)
  moreover have "set (blocks_by_id pc') = block_id ` set (remove1 b ns)"
    using assms(1,2,4) inj_onD [OF d(2)] unfolding nodes_ok_def set' by auto
  ultimately show ?thesis by (simp add: nodes_ok_def)
qed

lemma filter_remove_one:
  "b \<in> set ns \<Longrightarrow> P b \<Longrightarrow> length (filter P (remove1 b ns)) = length (filter P ns) - 1 \<and> 0 < length (filter P ns)"
proof -
  assume b: "b \<in> set ns" "P b"
  then have "b \<in> set (filter P ns)" by simp
  then have "0 < length (filter P ns)" by (rule length_pos_if_in_set)
  moreover have "filter P (remove1 b ns) = remove1 b (filter P ns)" using b(2) by (induction ns) auto
  ultimately show ?thesis using \<open>b \<in> set (filter P ns)\<close> by (simp add: length_remove1)
qed

lemma unshared_one: "refs_ok r ns H \<Longrightarrow> n \<in> set ns \<Longrightarrow> \<not> is_shared r n \<longleftrightarrow> r (block_id n) = 1"
  using refs_node [of r ns H n] by (auto simp: is_shared_def)

lemma evict_node_ok:
  assumes "pool_core p H" "prefix_cache p = Some pc" "b \<in> set (lru_lst pc)" "\<not> is_shared (ref_counts p) b"
  shows "\<exists>q. evict_node b pc p = Some q \<and> pool_core q H \<and> cache_nodes q = remove1 b (lru_lst pc)
     \<and> (counted_ok p \<longrightarrow> counted_ok q) \<and> options q = options p \<and> num_free_blocks q = num_free_blocks p + 1
     \<and> ref_counts q = (ref_counts p)(block_id b := 0) \<and> prefix_cache q \<noteq> None"
proof -
  let ?r = "ref_counts p" and ?ns = "lru_lst pc" and ?i = "block_id b"
  note ok = pool_core_cache [OF assms(1,2)]
  have one: "?r ?i = 1" using unshared_one [OF ok(3) assms(3)] assms(4) by simp
  have pos: "0 < ?i" using refs_node_pos [OF ok(3) assms(3)] .
  have dist: "distinct ?ns" using nodes_distinct [OF ok(1)] .
  have cnt: "count_list H ?i = 0" using refs_node [OF ok(3) assms(3)] one by simp
  have ev: "0 < num_evictable pc" "length (filter (\<lambda>n. ?r (block_id n) = 1) (remove1 b ?ns)) = num_evictable pc - 1"
    using filter_remove_one [OF assms(3), of "\<lambda>n. ?r (block_id n) = 1"] one ok(2) by (simp_all add: evictable_ok_def)
  define pc2 where "pc2 = pc\<lparr>lru_lst := remove1 b ?ns, num_evictable := num_evictable pc - 1,
      blocks_by_id := removeAll ?i (blocks_by_id pc), cached_blocks := filter (\<lambda>e. fst e \<noteq> block_hash b) (cached_blocks pc)\<rparr>"
  define p1 where "p1 = p\<lparr>prefix_cache := Some pc2\<rparr>"
  have run: "evict_node b pc p = map_option (\<lambda>p'. p'\<lparr>prefix_cache := map_option (\<lambda>c. c\<lparr>num_cached := num_cached c - 1\<rparr>) (prefix_cache p')\<rparr>)
      (free_block b p1)"
    using ev(1) pos by (simp add: evict_node_def release_evictable_slot_def drop_alias_def is_valid_def pc2_def p1_def Let_def)
  have notin: "?i \<notin> block_id ` set (remove1 b ?ns)"
  proof
    assume "?i \<in> block_id ` set (remove1 b ?ns)"
    then obtain x where x: "?i = block_id x" "x \<in> set (remove1 b ?ns)" by (rule imageE)
    then have "x \<in> set ?ns" "x \<noteq> b" using dist by simp_all
    then show False using nodes_id_inj [OF ok(1) _ assms(3)] x(1) by metis
  qed
  have "refs_ok ?r (remove1 b ?ns) (?i # H)"
  proof (rule refs_okI)
    show "?r j = count_list (?i # H) j + (if j \<in> block_id ` set (remove1 b ?ns) then 1 else 0)" if "0 < j" for j
    proof (cases "j = ?i")
      case True
      then show ?thesis using one cnt notin by simp
    next
      case False
      then have "j \<in> block_id ` set (remove1 b ?ns) \<longleftrightarrow> j \<in> block_id ` set ?ns" using dist by auto
      then show ?thesis using False refs_okD(1) [OF ok(3), of j] that by simp
    qed
    show "0 < j" if "j \<in> set (?i # H)" for j using that pos refs_held_pos [OF ok(3)] by auto
    show "0 < block_id n" if "n \<in> set (remove1 b ?ns)" for n using that refs_node_pos [OF ok(3)] by (meson notin_set_remove1)
    show "?r j = 0" if "j < 0" for j using that refs_okD(4) [OF ok(3)] by simp
  qed
  moreover have "nodes_ok pc2 (remove1 b ?ns)" by (rule nodes_ok_remove [OF ok(1) assms(3)]) (simp_all add: pc2_def)
  moreover have "evictable_ok pc2 ?r (remove1 b ?ns)" using ev by (simp add: evictable_ok_def pc2_def)
  moreover have "free_ok p1" using assms(1) by (simp add: p1_def pool_core_def free_ok_def)
  ultimately have core: "pool_core p1 (?i # H)"
    using assms(1,2) by (simp add: pool_core_def p1_def cache_nodes_def pc2_def)
  obtain q where q: "free_block b p1 = Some q" "pool_core q H" "same_cache_list p1 q"
      "ref_counts q = ?r(?i := 0)" "num_free_blocks q = num_free_blocks p + 1"
    using free_block_ok [OF core, of b] one by (auto simp: p1_def)
  note same = same_cache_listD [OF q(3)]
  obtain pcq where pcq: "prefix_cache q = Some pcq" "lru_lst pcq = remove1 b ?ns" "num_cached pcq = num_cached pc"
    using q(3) by (auto simp: same_cache_list_def p1_def pc2_def)
  define q' where "q' = q\<lparr>prefix_cache := Some (pcq\<lparr>num_cached := num_cached pcq - 1\<rparr>)\<rparr>"
  have "evict_node b pc p = Some q'" using run q(1) pcq(1) by (simp add: q'_def)
  moreover have "pool_core q' H"
    using q(2) pcq(1) by (simp add: pool_core_def q'_def cache_nodes_def free_ok_def evictable_ok_def)
  moreover have "counted_ok p \<longrightarrow> counted_ok q'"
    using pcq assms(2,3) by (simp add: counted_ok_def q'_def length_remove1)
  ultimately show ?thesis using pcq same(1) q(4,5) by (simp add: q'_def cache_nodes_def p1_def)
qed

lemma evict_loop_ok:
  assumes "pool_core p H" "counted_ok p" "cache_nodes p = pre @ bs" "prefix_cache p \<noteq> None"
  shows "\<exists>k q. evict_loop bs n p = Some (k, q) \<and> pool_core q H \<and> counted_ok q \<and> prefix_cache q \<noteq> None
     \<and> options q = options p \<and> num_free_blocks q = num_free_blocks p + k
     \<and> k = min n (length (filter (\<lambda>b. \<not> is_shared (ref_counts p) b) bs))
     \<and> cache_nodes q = pre @ evict_spec (ref_counts p) n bs"
  using assms
proof (induction bs arbitrary: n p pre)
  case (Cons b bs)
  obtain pc where pc: "prefix_cache p = Some pc" using Cons.prems(4) by auto
  note ok = pool_core_cache [OF Cons.prems(1) pc]
  show ?case
  proof (cases "n = 0 \<or> is_shared (ref_counts p) b")
    case True
    have pre: "cache_nodes p = (pre @ [b]) @ bs" using Cons.prems(3) by simp
    show ?thesis
    proof (cases "n = 0")
      case True
      then show ?thesis using Cons.prems by simp
    next
      case False
      then have "is_shared (ref_counts p) b" using True by simp
      then show ?thesis using False Cons.IH [OF Cons.prems(1,2) pre Cons.prems(4), of n] by simp
    qed
  next
    case False
    have b: "b \<in> set (lru_lst pc)" using Cons.prems(3) ok(4) by (metis in_set_conv_decomp)
    obtain q1 where q1: "evict_node b pc p = Some q1" "pool_core q1 H" "cache_nodes q1 = remove1 b (lru_lst pc)" "counted_ok q1"
        "options q1 = options p" "num_free_blocks q1 = num_free_blocks p + 1"
        "ref_counts q1 = (ref_counts p)(block_id b := 0)" "prefix_cache q1 \<noteq> None"
      using evict_node_ok [OF Cons.prems(1) pc b] False Cons.prems(2) by blast
    have dist: "distinct (map block_id (pre @ b # bs))" using ok(1,4) Cons.prems(3) by (simp add: nodes_ok_def)
    have nodes: "cache_nodes q1 = pre @ bs"
      using q1(3) Cons.prems(3) ok(4) dist by (auto simp: remove1_append)
    have other: "is_shared (ref_counts q1) c = is_shared (ref_counts p) c" if "c \<in> set bs" for c
    proof -
      have "block_id c \<noteq> block_id b" using dist that by (auto simp: image_iff)
      then show ?thesis by (simp add: q1(7) is_shared_def)
    qed
    have flt: "filter (\<lambda>b. \<not> is_shared (ref_counts q1) b) bs = filter (\<lambda>b. \<not> is_shared (ref_counts p) b) bs"
      using other by (intro filter_cong) auto
    have spec: "evict_spec (ref_counts q1) m cs = evict_spec (ref_counts p) m cs" if "set cs \<subseteq> set bs" for m cs
      using that other by (induction cs arbitrary: m) auto
    obtain k q where k: "evict_loop bs (n - 1) q1 = Some (k, q)" "pool_core q H" "counted_ok q" "prefix_cache q \<noteq> None"
        "options q = options q1" "num_free_blocks q = num_free_blocks q1 + k"
        "k = min (n - 1) (length (filter (\<lambda>b. \<not> is_shared (ref_counts q1) b) bs))"
        "cache_nodes q = pre @ evict_spec (ref_counts q1) (n - 1) bs"
      using Cons.IH [OF q1(2,4) nodes q1(8), of "n - 1"] by blast
    have "evict_loop (b # bs) n p = Some (k + 1, q)" using False pc q1(1) k(1) by simp
    then show ?thesis using k q1(5,6) False flt spec [OF subset_refl] by auto
  qed
qed simp

lemma evict_ok:
  assumes "pool_ok p H" "prefix_cache p = Some pc"
  shows "\<exists>q. evict n p = Some (min n (num_evictable pc), q) \<and> pool_ok q H \<and> options q = options p
     \<and> num_free_blocks q = num_free_blocks p + min n (num_evictable pc)
     \<and> cache_nodes q = evict_spec (ref_counts p) n (cache_nodes p)"
proof -
  have core: "pool_core p H" and cnt: "counted_ok p" using assms(1) by (simp_all add: pool_ok_def)
  note ok = pool_core_cache [OF core assms(2)]
  have chk: "check_cached_block_count pc" using nodes_sizes [OF ok(1)] by (simp add: check_cached_block_count_def)
  have "filter (\<lambda>b. \<not> is_shared (ref_counts p) b) (lru_lst pc) = filter (\<lambda>b. ref_counts p (block_id b) = 1) (lru_lst pc)"
    using unshared_one [OF ok(3)] by (intro filter_cong) auto
  then have num: "length (filter (\<lambda>b. \<not> is_shared (ref_counts p) b) (lru_lst pc)) = num_evictable pc"
    using ok(2) by (simp add: evictable_ok_def)
  show ?thesis
  proof (cases "num_cached pc = 0 \<or> lru_lst pc = []")
    case True
    then have nil: "lru_lst pc = []" using cnt assms(2) by (auto simp: counted_ok_def)
    then have "num_evictable pc = 0" using num by simp
    then show ?thesis using True chk assms nil ok(4) by (simp add: evict_def)
  next
    case False
    obtain k q where k: "evict_loop (lru_lst pc) n p = Some (k, q)" "pool_core q H" "counted_ok q" "prefix_cache q \<noteq> None"
        "options q = options p" "num_free_blocks q = num_free_blocks p + k" "k = min n (num_evictable pc)"
        "cache_nodes q = evict_spec (ref_counts p) n (lru_lst pc)"
      using evict_loop_ok [OF core cnt, of "[]" "lru_lst pc" n] ok(4) num assms(2) by auto
    obtain pcq where pcq: "prefix_cache q = Some pcq" using k(4) by auto
    have "check_cached_block_count pcq"
      using nodes_sizes [OF pool_core_cache(1) [OF k(2) pcq]] by (simp add: check_cached_block_count_def)
    then show ?thesis using False chk assms(2) k pcq ok(4) by (simp add: evict_def pool_ok_def)
  qed
qed

section \<open>Counters that stay alive\<close>

definition refs_live :: "ref_counts \<Rightarrow> ref_counts \<Rightarrow> bool" where
  "refs_live r r' \<longleftrightarrow> (\<forall>i. r' i = 0 \<longleftrightarrow> r i = 0)"

lemma refs_live_refl [simp]: "refs_live r r"
  by (simp add: refs_live_def)

lemma refs_live_trans: "refs_live r r' \<Longrightarrow> refs_live r' r'' \<Longrightarrow> refs_live r r''"
  by (simp add: refs_live_def)

lemma inc_ref_live: "r (block_id b) \<noteq> 0 \<Longrightarrow> refs_live r (inc_ref b r)"
  by (simp add: refs_live_def inc_ref_def)

lemma held_live: "refs_ok r ns H \<Longrightarrow> i \<in> set H \<Longrightarrow> r i \<noteq> 0"
proof -
  assume ok: "refs_ok r ns H" and i: "i \<in> set H"
  have "i \<noteq> 0" using refs_held_pos [OF ok i] by simp
  moreover have "count_list H i \<noteq> 0" using i by (simp add: count_list_0_iff)
  ultimately show "r i \<noteq> 0" using refs_okD(1) [OF ok] by simp
qed

lemma move_to_hits_refs [simp]: "walk_refs (move_to_hits n w) = walk_refs w"
  by (simp add: move_to_hits_def)

lemma match_hit_live:
  assumes "walk_ok w H" "n \<in> set (walk_nodes w)"
  shows "refs_live (walk_refs w) (walk_refs (match_hit n w))"
  using assms refs_node [of "walk_refs w" "walk_nodes w" H n]
  by (simp add: match_hit_def walk_ok_def inc_ref_live)

lemma match_solid_live:
  "walk_ok w H \<Longrightarrow> match_solid ks w = (bs, w') \<Longrightarrow> refs_live (walk_refs w) (walk_refs w')"
proof (induction ks arbitrary: w H bs)
  case (Cons k ks)
  show ?case
  proof (cases "map_of (cached_blocks (walk_cache w)) k")
    case (Some n)
    then have n: "n \<in> set (walk_nodes w)" using Cons.prems(1) nodes_find by (auto simp: walk_ok_def)
    obtain bs1 where "match_solid ks (match_hit n w) = (bs1, w')" using Cons.prems(2) Some by (auto split: prod.splits)
    from Cons.IH [OF walk_ok_hit [OF Cons.prems(1) n] this] match_hit_live [OF Cons.prems(1) n]
    show ?thesis by (rule refs_live_trans [rotated])
  qed (use Cons in simp)
qed simp

lemma match_gap_live:
  "walk_ok w H \<Longrightarrow> match_gap b hit ks w = (bs, hit', w') \<Longrightarrow> refs_live (walk_refs w) (walk_refs w')"
proof (induction ks arbitrary: b hit w H bs)
  case (Cons k ks)
  show ?case
  proof (cases "map_of (cached_blocks (walk_cache w)) k")
    case None
    then show ?thesis using Cons by (auto split: prod.splits)
  next
    case (Some n)
    then have n: "n \<in> set (walk_nodes w)" using Cons.prems(1) nodes_find by (auto simp: walk_ok_def)
    obtain bs1 where "match_gap (b + 1) (Some b) ks (match_hit n w) = (bs1, hit', w')"
      using Cons.prems(2) Some by (auto split: prod.splits)
    from Cons.IH [OF walk_ok_hit [OF Cons.prems(1) n] this] match_hit_live [OF Cons.prems(1) n]
    show ?thesis by (rule refs_live_trans [rotated])
  qed
qed simp

lemma inc_all_live:
  "cache_state_ok pc r H \<Longrightarrow> set (valid_ids bs) \<subseteq> set H \<Longrightarrow> refs_live r (fold inc_ref bs r)"
proof (induction bs arbitrary: r H)
  case (Cons b bs)
  show ?case
  proof (cases "is_valid b")
    case True
    then have b: "block_id b \<in> set H" using Cons.prems(2) by simp
    have "refs_live r (inc_ref b r)"
      using Cons.prems(1) held_live [OF _ b] by (intro inc_ref_live) (auto simp: cache_state_ok_def)
    moreover have "refs_live (inc_ref b r) (fold inc_ref bs (inc_ref b r))"
      using Cons.IH [OF cache_state_inc [OF Cons.prems(1) b]] Cons.prems(2) True by auto
    ultimately show ?thesis using refs_live_trans by auto
  next
    case False
    then show ?thesis using Cons by (simp add: inc_ref_def)
  qed
qed simp

lemma match_blocks_live:
  assumes "cache_state_ok pc r H" "set (valid_ids existed) \<subseteq> set H"
    and "match_blocks env ts existed its hashes pc r = Some (bs, pc', r')"
  shows "refs_live r r'"
proof -
  define n where "n = num_hash_blocks (env_type env) (length ts) (env_block_size env)"
  define shared where "shared = take (min (length existed) n) existed"
  have sub: "set (valid_ids shared) \<subseteq> set H" using assms(2) by (auto simp: shared_def dest: in_set_takeD)
  note inc = inc_all_live [OF assms(1) sub]
  have ok: "walk_ok (start_walk pc (fold inc_ref shared r)) (valid_ids shared @ H)"
    using cache_state_inc_all [OF assms(1) sub] by (simp add: start_walk_ok)
  have fw: "walk_refs w = r'" if "finish_walk w = (pc', r')" for w using that by (simp add: finish_walk_def)
  show ?thesis
  proof (cases "n = 0")
    case True
    then show ?thesis using assms(3) by (simp add: match_blocks_def Let_def flip: n_def)
  next
    case False
    then obtain keys where keys: "match_keys env ts existed its hashes = Some keys"
      using assms(3) by (auto simp: match_blocks_def Let_def simp flip: n_def split: option.splits)
    show ?thesis
    proof (cases "env_gap env")
      case True
      obtain bs1 hit w' where m: "match_gap (min (length existed) n) None keys (start_walk pc (fold inc_ref shared r)) = (bs1, hit, w')"
        by (metis prod_cases3)
      then have "finish_walk w' = (pc', r')"
        using assms(3) keys True False by (auto simp: match_blocks_def Let_def shared_def simp flip: n_def)
      then show ?thesis using refs_live_trans [OF inc] match_gap_live [OF ok m] fw by simp
    next
      case False
      obtain bs1 w' where m: "match_solid keys (start_walk pc (fold inc_ref shared r)) = (bs1, w')" by fastforce
      then have "finish_walk w' = (pc', r')"
        using assms(3) keys \<open>n \<noteq> 0\<close> False by (auto simp: match_blocks_def Let_def shared_def simp flip: n_def)
      then show ?thesis using refs_live_trans [OF inc] match_solid_live [OF ok m] fw by simp
    qed
  qed
qed

lemma insert_block_live:
  assumes "walk_ok w H" "block_id b \<in> set H" "insert_block b w = Some w'"
  shows "refs_live (walk_refs w) (walk_refs w')"
proof -
  have "walk_refs w (block_id b) \<noteq> 0" using assms(1,2) held_live by (auto simp: walk_ok_def)
  then show ?thesis using assms(3) inc_ref_live by (auto simp: insert_block_def Let_def split: option.splits if_splits)
qed

lemma insert_loop_live:
  assumes "walk_ok w H" "set (map block_id bs) \<subseteq> set H \<or> (gap \<and> set (valid_ids bs) \<subseteq> set H)"
    and "insert_loop gap ks bs w = Some (bs', w')"
  shows "refs_live (walk_refs w) (walk_refs w')"
  using assms
proof (induction gap ks bs w arbitrary: bs' rule: insert_loop.induct)
  case (1 gap k ks b bs w)
  show ?case
  proof (cases "gap \<and> \<not> is_valid b")
    case True
    then show ?thesis using 1 by auto
  next
    case False
    let ?b = "b\<lparr>block_hash := k\<rparr>"
    obtain w1 bs1 where w1: "insert_block ?b w = Some w1" "insert_loop gap ks bs w1 = Some (bs1, w')"
      using 1(5) False by (auto simp: Let_def split: option.splits)
    have b: "block_id ?b \<in> set H" using 1(4) False by auto
    then have ok: "walk_ok w1 H" using insert_block_ok [OF 1(3) _ w1(1)] by blast
    have "refs_live (walk_refs w1) (walk_refs w')" using 1(2) [OF False refl w1(1) ok _ w1(2)] 1(4) by (auto split: if_splits)
    then show ?thesis using insert_block_live [OF 1(3) b w1(1)] refs_live_trans by blast
  qed
qed auto

lemma insert_hashed_loop_live:
  "walk_ok w H \<Longrightarrow> set (valid_ids bs) \<subseteq> set H \<Longrightarrow> insert_hashed_loop bs w = Some w' \<Longrightarrow> refs_live (walk_refs w) (walk_refs w')"
proof (induction bs arbitrary: w)
  case (Cons b bs)
  show ?case
  proof (cases "is_valid b")
    case True
    then obtain w1 where w1: "insert_block b w = Some w1" "insert_hashed_loop bs w1 = Some w'"
      using Cons.prems(3) by (auto split: option.splits)
    have b: "block_id b \<in> set H" using Cons.prems(2) True by simp
    have "walk_ok w1 H" using insert_block_ok [OF Cons.prems(1) b w1(1)] by blast
    then have "refs_live (walk_refs w1) (walk_refs w')" using Cons.IH [OF _ _ w1(2)] Cons.prems(2) True by simp
    then show ?thesis using insert_block_live [OF Cons.prems(1) b w1(1)] refs_live_trans by blast
  qed (use Cons in simp)
qed simp

lemma insert_blocks_live:
  assumes "cache_state_ok pc r H" "set (map block_id bs) \<subseteq> set H \<or> (env_gap env \<and> set (valid_ids bs) \<subseteq> set H)"
    and "insert_blocks env ts bs existed its hashes pc r = Some (k, bs', pc', r')"
  shows "refs_live r r'"
proof (cases "min (num_hash_blocks (env_type env) (length ts) (env_block_size env)) (length bs) \<le> existed")
  case True
  then show ?thesis using assms(3) by (auto simp: insert_blocks_def Let_def split: if_splits)
next
  case False
  obtain keys bs1 w where w: "insert_loop (env_gap env) keys (drop existed bs) (start_walk pc r) = Some (bs1, w)"
      "finish_walk w = (pc', r')"
    using assms(3) False by (auto simp: insert_blocks_def Let_def split: if_splits option.splits prod.splits)
  have "set (map block_id (drop existed bs)) \<subseteq> set H \<or> (env_gap env \<and> set (valid_ids (drop existed bs)) \<subseteq> set H)"
    using assms(2) by (auto dest: in_set_dropD)
  then show ?thesis using insert_loop_live [OF _ _ w(1)] assms(1) w(2) by (simp add: start_walk_ok finish_walk_def)
qed

lemma insert_hashed_live:
  assumes "cache_state_ok pc r H" "set (valid_ids bs) \<subseteq> set H" "insert_hashed env bs pc r = Some (k, pc', r')"
  shows "refs_live r r'"
proof -
  obtain w where w: "insert_hashed_loop bs (start_walk pc r) = Some w" "finish_walk w = (pc', r')"
    using assms(3) by (auto simp: insert_hashed_def split: if_splits option.splits prod.splits)
  then show ?thesis using insert_hashed_loop_live [OF _ assms(2) w(1)] assms(1) by (simp add: start_walk_ok finish_walk_def)
qed

section \<open>Allocation\<close>

lemma pool_ok_cached:
  assumes "prefix_cache p = Some pc"
  shows "pool_ok p H \<longleftrightarrow> free_ok p \<and> cache_state_ok pc (ref_counts p) H \<and> opt_enable_prefix_cache (options p)"
  using assms by (auto simp: pool_ok_def pool_core_def counted_ok_def cache_state_ok_def cache_nodes_def)

lemma pool_ok_uncached:
  assumes "prefix_cache p = None"
  shows "pool_ok p H \<longleftrightarrow> free_ok p \<and> refs_ok (ref_counts p) [] H \<and> \<not> opt_enable_prefix_cache (options p)"
  using assms by (auto simp: pool_ok_def pool_core_def counted_ok_def cache_nodes_def)

lemma pool_ok_update:
  assumes "pool_ok p H" "prefix_cache p = Some pc" "cache_state_ok pc' r' H'" "refs_live (ref_counts p) r'"
  shows "pool_ok (p\<lparr>prefix_cache := Some pc', ref_counts := r'\<rparr>) H'"
proof -
  have "free_ok (p\<lparr>ref_counts := r', prefix_cache := Some pc'\<rparr>)"
    using assms by (intro free_ok_refs) (auto simp: pool_ok_cached [OF assms(2)] refs_live_def)
  then show ?thesis using assms(1-3) by (simp add: pool_ok_cached pool_ok_cached [OF assms(2)] free_ok_def)
qed

lemma pool_ok_refs: "pool_ok p H \<Longrightarrow> refs_ok (ref_counts p) (cache_nodes p) H" "pool_ok p H \<Longrightarrow> free_ok p"
  by (simp_all add: pool_ok_def pool_core_def)

lemma pop_block_ok:
  assumes "pool_ok p H" "0 < num_free_blocks p"
  shows "\<exists>b q. pop_block p = Some (b, q) \<and> pool_ok q (block_id b # H) \<and> block_id b \<notin> set H \<and> ref_counts p (block_id b) = 0
     \<and> num_free_blocks q = num_free_blocks p - 1 \<and> options q = options p \<and> ref_counts q = (ref_counts p)(block_id b := 1)
     \<and> prefix_cache q = prefix_cache p"
proof -
  let ?n = "opt_num_blocks (options p)" and ?k = "num_free_blocks p" and ?r = "ref_counts p"
  have f: "free_ok p" and rf: "refs_ok ?r (cache_nodes p) H" using pool_ok_refs [OF assms(1)] by simp_all
  define i where "i = free_blocks p ! (?k - Suc 0)"
  have tk: "take ?k (free_blocks p) = take (?k - 1) (free_blocks p) @ [i]"
    using assms(2) free_okD(1,3) [OF f] take_Suc_snoc [of "?k - 1" "free_blocks p"] by (simp add: i_def)
  then have "i \<in> set (take ?k (free_blocks p))" by simp
  then have i: "0 < i" "i < int ?n" "?r i = 0" unfolding free_okD(5) [OF f] by auto
  have unused: "\<not> usage_accounted_ids p ! nat i" using free_okD(6) [OF f, of "nat i"] i by simp
  define q where "q = p\<lparr>num_free_blocks := ?k - 1, usage_accounted_ids := (usage_accounted_ids p)[nat i := True],
      ref_counts := ?r(i := 1)\<rparr>"
  have run: "pop_block p = Some (\<lparr>block_id = i, block_hash = 0\<rparr>, q)"
    using assms(2) i unused free_okD(1-3) [OF f] by (simp add: pop_block_def mark_used_def Let_def q_def flip: i_def)
  have fields: "free_blocks q = free_blocks p" "usage_accounted_ids q = (usage_accounted_ids p)[nat i := True]"
    "num_free_blocks q = ?k - 1" "ref_counts q = ?r(i := 1)" "options q = options p" "prefix_cache q = prefix_cache p"
    by (simp_all add: q_def)
  have notin: "i \<notin> set H" using held_live [OF rf, of i] i(3) by auto
  have notnode: "i \<notin> block_id ` set (cache_nodes p)" using refs_node [OF rf] i(3) by auto
  have fq: "free_ok q"
  proof -
    have d: "distinct (take (?k - 1) (free_blocks p))" "i \<notin> set (take (?k - 1) (free_blocks p))"
      using free_okD(4) [OF f] unfolding tk by auto
    have "set (take (?k - 1) (free_blocks p)) = set (take ?k (free_blocks p)) - {i}" using d unfolding tk by auto
    then have s: "set (take (?k - 1) (free_blocks p)) = {j. 0 < j \<and> j < int ?n \<and> (?r(i := 1)) j = 0}"
      unfolding free_okD(5) [OF f] by auto
    have us: "(usage_accounted_ids p)[nat i := True] ! j \<longleftrightarrow> (?r(i := 1)) (int j) \<noteq> 0" if "j < ?n" for j
      using free_okD(2) [OF f] free_okD(6) [OF f that] that i(1) by (cases "j = nat i") auto
    have rng: "0 \<le> j \<and> j < int ?n" if "(?r(i := 1)) j \<noteq> 0" for j
      using that i free_okD(9) [OF f, of j] by (cases "j = i") auto
    show ?thesis unfolding free_ok_def Let_def fields
      using d(1) s us rng i(1) free_okD(1-3,7,8) [OF f] by auto
  qed
  have rq: "refs_ok (?r(i := 1)) (cache_nodes p) (i # H)"
  proof (rule refs_okI)
    show "(?r(i := 1)) j = count_list (i # H) j + (if j \<in> block_id ` set (cache_nodes p) then 1 else 0)" if "0 < j" for j
      using refs_okD(1) [OF rf, of j] that notnode notin by (cases "j = i") (simp_all add: count_list_0_iff)
    show "0 < j" if "j \<in> set (i # H)" for j using that i(1) refs_held_pos [OF rf] by auto
    show "0 < block_id m" if "m \<in> set (cache_nodes p)" for m using that refs_node_pos [OF rf] by blast
    show "(?r(i := 1)) j = 0" if "j < 0" for j using that i(1) refs_okD(4) [OF rf] by simp
  qed
  have "filter (\<lambda>n. (?r(i := 1)) (block_id n) = 1) (cache_nodes p) = filter (\<lambda>n. ?r (block_id n) = 1) (cache_nodes p)"
    using notnode by (intro filter_cong) (auto simp: image_iff)
  then have "evictable_ok pc (?r(i := 1)) (cache_nodes p) = evictable_ok pc ?r (cache_nodes p)" for pc
    by (simp only: evictable_ok_def)
  then have "pool_ok q (i # H)"
    using assms(1) fq rq unfolding pool_ok_def pool_core_def fields
    by (auto simp: cache_nodes_def counted_ok_def fields split: option.splits)
  then show ?thesis using run i(3) notin fields by auto
qed

lemma pop_blocks_ok:
  assumes "pool_ok p H" "n \<le> num_free_blocks p"
  shows "\<exists>bs q. pop_blocks n p = Some (bs, q) \<and> pool_ok q (rev (map block_id bs) @ H) \<and> length bs = n
     \<and> distinct (map block_id bs) \<and> (\<forall>b \<in> set bs. ref_counts p (block_id b) = 0 \<and> is_valid b)
     \<and> num_free_blocks q = num_free_blocks p - n \<and> options q = options p \<and> prefix_cache q = prefix_cache p"
  using assms
proof (induction n arbitrary: p H)
  case (Suc n)
  obtain b p1 where p1: "pop_block p = Some (b, p1)" "pool_ok p1 (block_id b # H)" "block_id b \<notin> set H"
      "ref_counts p (block_id b) = 0" "num_free_blocks p1 = num_free_blocks p - 1" "options p1 = options p"
      "ref_counts p1 = (ref_counts p)(block_id b := 1)" "prefix_cache p1 = prefix_cache p"
    using pop_block_ok [OF Suc.prems(1)] Suc.prems(2) by auto
  have "n \<le> num_free_blocks p1" using Suc.prems(2) p1(5) by simp
  then obtain bs q where q: "pop_blocks n p1 = Some (bs, q)" "pool_ok q (rev (map block_id bs) @ block_id b # H)"
      "length bs = n" "distinct (map block_id bs)" "\<forall>c \<in> set bs. ref_counts p1 (block_id c) = 0 \<and> is_valid c"
      "num_free_blocks q = num_free_blocks p1 - n" "options q = options p1" "prefix_cache q = prefix_cache p1"
    using Suc.IH [OF p1(2)] by blast
  have new: "\<forall>c \<in> set bs. block_id c \<noteq> block_id b \<and> ref_counts p (block_id c) = 0 \<and> is_valid c"
  proof
    fix c assume "c \<in> set bs"
    then have "ref_counts p1 (block_id c) = 0" "is_valid c" using q(5) by auto
    then show "block_id c \<noteq> block_id b \<and> ref_counts p (block_id c) = 0 \<and> is_valid c"
      unfolding p1(7) by (cases "block_id c = block_id b") simp_all
  qed
  have "0 < block_id b" using refs_held_pos [OF pool_ok_refs(1) [OF p1(2)]] by simp
  then have "is_valid b" by (simp add: is_valid_def)
  then show ?case using p1 q new by auto
qed simp


lemma pool_ok_perm: "mset H = mset H' \<Longrightarrow> pool_ok p H = pool_ok p H'"
proof -
  assume "mset H = mset H'"
  then have "count_list H = count_list H'" "set H = set H'" by (auto simp: fun_eq_iff count_mset [symmetric] simp flip: set_mset_mset)
  then show ?thesis by (simp add: pool_ok_def pool_core_def refs_ok_def)
qed

lemma has_enough_ok:
  assumes "pool_ok p H"
  shows "\<exists>q. has_enough_blocks n p = Some (n \<le> num_free_blocks p + num_evictable_blocks p, q) \<and> pool_ok q H
     \<and> options q = options p \<and> (n \<le> num_free_blocks p + num_evictable_blocks p \<longrightarrow> n \<le> num_free_blocks q)
     \<and> (\<forall>i \<in> set H. ref_counts q i \<noteq> 0)"
proof -
  have held: "\<forall>i \<in> set H. ref_counts q i \<noteq> 0" if "pool_ok q H" for q
    using held_live [OF pool_ok_refs(1) [OF that]] by blast
  show ?thesis
  proof (cases "n \<le> num_free_blocks p")
    case True
    then show ?thesis using assms held [OF assms] by (simp add: has_enough_blocks_def)
  next
    case few: False
    show ?thesis
    proof (cases "prefix_cache p")
      case None
      then have "\<not> opt_enable_prefix_cache (options p)" using assms pool_ok_uncached by blast
      then show ?thesis using few None assms held [OF assms] by (simp add: has_enough_blocks_def num_evictable_blocks_def)
    next
      case (Some pc)
      then have en: "opt_enable_prefix_cache (options p)" using assms pool_ok_cached by blast
      define k where "k = n - num_free_blocks p"
      obtain q where q: "evict k p = Some (min k (num_evictable pc), q)" "pool_ok q H" "options q = options p"
          "num_free_blocks q = num_free_blocks p + min k (num_evictable pc)"
        using evict_ok [OF assms Some] by blast
      have "has_enough_blocks n p = Some (n \<le> num_free_blocks p + num_evictable pc, q)"
        using few en q(1,4) k_def by (auto simp: has_enough_blocks_def Let_def min_def)
      then show ?thesis using q held [OF q(2)] few Some by (auto simp: num_evictable_blocks_def k_def min_def)
    qed
  qed
qed

text \<open>An allocation gives all the blocks asked for exactly when the free and the evictable ones suffice, and
  they are fresh: none of them is alive anywhere.\<close>

lemma allocate_ok:
  assumes "pool_ok p H"
  shows "\<exists>bs q. allocate n p = Some (bs, q) \<and> pool_ok q (map block_id bs @ H) \<and> options q = options p
     \<and> length bs = (if n \<le> num_free_blocks p + num_evictable_blocks p then n else 0)
     \<and> distinct (map block_id bs) \<and> set (map block_id bs) \<inter> set H = {} \<and> list_all is_valid bs"
proof -
  obtain q where q: "has_enough_blocks n p = Some (n \<le> num_free_blocks p + num_evictable_blocks p, q)" "pool_ok q H"
      "options q = options p" "n \<le> num_free_blocks p + num_evictable_blocks p \<longrightarrow> n \<le> num_free_blocks q"
      "\<forall>i \<in> set H. ref_counts q i \<noteq> 0"
    using has_enough_ok [OF assms, of n] by auto
  show ?thesis
  proof (cases "n \<le> num_free_blocks p + num_evictable_blocks p")
    case True
    then have n: "n \<le> num_free_blocks q" using q(4) by simp
    obtain bs r where r: "pop_blocks n q = Some (bs, r)" "pool_ok r (rev (map block_id bs) @ H)" "length bs = n"
        "distinct (map block_id bs)" "\<forall>b \<in> set bs. ref_counts q (block_id b) = 0 \<and> is_valid b" "options r = options q"
      using pop_blocks_ok [OF q(2) n] by blast
    have "set (map block_id bs) \<inter> set H = {}" using r(5) q(5) by auto
    moreover have "mset (rev (map block_id bs) @ H) = mset (map block_id bs @ H)" by simp
    then have "pool_ok r (map block_id bs @ H)" using r(2) by (rule pool_ok_perm [THEN iffD1])
    ultimately show ?thesis using True n q(1,3) r by (auto simp: allocate_def list_all_iff)
  next
    case False
    then show ?thesis using q by (simp add: allocate_def)
  qed
qed

section \<open>Creation\<close>

lemma create_free_list:
  assumes "0 < n"
  shows "set (map (\<lambda>i. int n - int i - 1) [0..<n - 1]) = {i. 0 < i \<and> i < int n}"
    "distinct (map (\<lambda>i. int n - int i - 1) [0..<n])"
proof -
  show "set (map (\<lambda>i. int n - int i - 1) [0..<n - 1]) = {i. 0 < i \<and> i < int n}"
  proof (intro set_eqI iffI)
    fix x assume "x \<in> {i. 0 < i \<and> i < int n}"
    then have "x = int n - int (n - 1 - nat x) - 1" "n - 1 - nat x < n - 1" using assms by auto
    then show "x \<in> set (map (\<lambda>i. int n - int i - 1) [0..<n - 1])" by (auto simp: image_iff)
  qed (use assms in auto)
  show "distinct (map (\<lambda>i. int n - int i - 1) [0..<n])" by (simp add: distinct_map inj_on_def)
qed

lemma create_pool_ok:
  assumes "0 < opt_num_blocks opts" "0 < opt_block_size opts"
  shows "\<exists>p. create_pool opts = Some p \<and> pool_ok p [] \<and> options p = opts
     \<and> num_free_blocks p = opt_num_blocks opts - 1 \<and> cache_nodes p = []"
proof -
  let ?n = "opt_num_blocks opts" and ?fl = "map (\<lambda>i. int (opt_num_blocks opts) - int i - 1) [0..<opt_num_blocks opts]"
  define c where "c = (if opt_enable_prefix_cache opts then Some empty_prefix_cache else None)"
  define p where "p = \<lparr>options = opts, num_free_blocks = ?n - 1, free_blocks = ?fl,
      usage_accounted_ids = (replicate ?n False)[0 := True], ref_counts = (\<lambda>_. 0)(0 := 1), prefix_cache = c\<rparr>"
  have "?fl ! (?n - Suc 0) = 0" using assms(1) by simp
  then have run: "create_pool opts = Some p"
    using assms by (simp add: create_pool_def allocate_def has_enough_blocks_def pop_block_def mark_used_def Let_def p_def c_def)
  have tk: "take (?n - 1) ?fl = map (\<lambda>i. int ?n - int i - 1) [0..<?n - 1]" by (simp add: take_map)
  have "free_ok p"
    unfolding free_ok_def Let_def
  proof (intro conjI allI impI)
    show "distinct (take (num_free_blocks p) (free_blocks p))"
      using create_free_list(2) [OF assms(1)] by (simp add: p_def distinct_take)
    show "set (take (num_free_blocks p) (free_blocks p))
        = {i. 0 < i \<and> i < int (opt_num_blocks (options p)) \<and> ref_counts p i = 0}"
      using create_free_list(1) [OF assms(1)] tk by (auto simp: p_def)
    show "usage_accounted_ids p ! i = (ref_counts p (int i) \<noteq> 0)" if "i < opt_num_blocks (options p)" for i
      using that by (cases i) (simp_all add: p_def)
  qed (use assms in \<open>auto simp: p_def split: if_splits\<close>)
  moreover have "refs_ok (ref_counts p) [] []" by (intro refs_okI) (auto simp: p_def)
  ultimately have "pool_ok p []"
    by (simp add: pool_ok_def pool_core_def counted_ok_def p_def c_def cache_nodes_def empty_prefix_cache_def nodes_ok_def evictable_ok_def
        split: if_splits)
  then show ?thesis using run by (auto simp: p_def c_def cache_nodes_def empty_prefix_cache_def)
qed

section \<open>The system\<close>

text \<open>A pool and the aliases that its clients hold, by id.  The clients allocate, copy and drop aliases, share
  cached prefixes, cache blocks they hold, and reset the cache, in any order.\<close>

definition copy_alias :: "block \<Rightarrow> pool \<Rightarrow> pool" where
  "copy_alias b p = p\<lparr>ref_counts := inc_ref b (ref_counts p)\<rparr>"

inductive pool_reach :: "(u8 list \<Rightarrow> hash_key) \<Rightarrow> pool_options \<Rightarrow> pool \<Rightarrow> int list \<Rightarrow> bool" for xxh3 opts where
  reach_create: "create_pool opts = Some p \<Longrightarrow> pool_reach xxh3 opts p []"
| reach_allocate: "pool_reach xxh3 opts p H \<Longrightarrow> allocate n p = Some (bs, q) \<Longrightarrow> pool_reach xxh3 opts q (map block_id bs @ H)"
| reach_copy: "pool_reach xxh3 opts p H \<Longrightarrow> block_id b \<in> set H \<Longrightarrow> pool_reach xxh3 opts (copy_alias b p) (block_id b # H)"
| reach_drop: "pool_reach xxh3 opts p H \<Longrightarrow> block_id b \<in> set H \<Longrightarrow> drop_alias b p = Some q \<Longrightarrow>
    pool_reach xxh3 opts q (remove1 (block_id b) H)"
| reach_share: "pool_reach xxh3 opts p H \<Longrightarrow> set (valid_ids existed) \<subseteq> set H \<Longrightarrow>
    allocate_shared xxh3 ts existed its hashes p = Some (bs, q) \<Longrightarrow> pool_reach xxh3 opts q (valid_ids bs @ H)"
| reach_cache: "pool_reach xxh3 opts p H \<Longrightarrow> set (map block_id bs) \<subseteq> set H \<Longrightarrow>
    cache_tokens xxh3 ts bs existed its hashes p = Some (bs', q) \<Longrightarrow> pool_reach xxh3 opts q H"
| reach_cache_hashed: "pool_reach xxh3 opts p H \<Longrightarrow> set (valid_ids bs) \<subseteq> set H \<Longrightarrow>
    cache_hashed xxh3 bs p = Some q \<Longrightarrow> pool_reach xxh3 opts q H"
| reach_reset: "pool_reach xxh3 opts p H \<Longrightarrow> reset_prefix_cache p = Some q \<Longrightarrow> pool_reach xxh3 opts q H"

lemma copy_alias_ok:
  assumes "pool_ok p H" "block_id b \<in> set H"
  shows "pool_ok (copy_alias b p) (block_id b # H)"
proof -
  have rf: "refs_ok (ref_counts p) (cache_nodes p) H" and f: "free_ok p" using pool_ok_refs [OF assms(1)] by simp_all
  have pos: "0 < block_id b" using refs_held_pos [OF rf assms(2)] .
  have live: "refs_live (ref_counts p) (inc_ref b (ref_counts p))" using held_live [OF rf assms(2)] by (rule inc_ref_live)
  show ?thesis
  proof (cases "prefix_cache p")
    case None
    have "free_ok (p\<lparr>ref_counts := inc_ref b (ref_counts p), prefix_cache := None\<rparr>)"
      using live by (intro free_ok_refs [OF f]) (simp add: refs_live_def)
    then show ?thesis using refs_ok_inc [OF _ pos, of "ref_counts p" "[]" H] assms(1) None pos
      by (simp add: copy_alias_def pool_ok_uncached inc_ref_def is_valid_def free_ok_def)
  next
    case (Some pc)
    have cs: "cache_state_ok pc (ref_counts p) H" using assms(1) pool_ok_cached [OF Some] by blast
    have eq: "copy_alias b p = p\<lparr>prefix_cache := Some pc, ref_counts := inc_ref b (ref_counts p)\<rparr>"
      using Some by (simp add: copy_alias_def)
    show ?thesis unfolding eq by (rule pool_ok_update [OF assms(1) Some cache_state_inc [OF cs assms(2)] live])
  qed
qed

lemma drop_alias_ok:
  assumes "pool_ok p H" "block_id b \<in> set H"
  shows "\<exists>q. drop_alias b p = Some q \<and> pool_ok q (remove1 (block_id b) H) \<and> options q = options p"
proof -
  have core: "pool_core p H" and cnt: "counted_ok p" using assms(1) by (simp_all add: pool_ok_def)
  have "is_valid b" using refs_held_pos [OF pool_ok_refs(1) [OF assms(1)] assms(2)] by (simp add: is_valid_def)
  moreover obtain q where "free_block b p = Some q" "pool_core q (remove1 (block_id b) H)" "same_cache_list p q"
    using free_block_ok [OF core assms(2)] by blast
  ultimately show ?thesis using same_cache_listD cnt by (auto simp: drop_alias_def pool_ok_def)
qed

lemma allocate_shared_ok:
  assumes "pool_ok p H" "set (valid_ids existed) \<subseteq> set H"
    and "allocate_shared xxh3 ts existed its hashes p = Some (bs, q)"
  shows "pool_ok q (valid_ids bs @ H) \<and> options q = options p"
proof (cases "prefix_cache p")
  case None
  then show ?thesis using assms(1,3) by (simp add: allocate_shared_def)
next
  case (Some pc)
  define ty where "ty = opt_block_type (options p)"
  define ts' where "ts' = (if ty = BT_LINEAR then take (length ts - 1) ts else ts)"
  define existed' where "existed' = (if ty = BT_LINEAR \<or> ty = BT_SWA then [] else existed)"
  have unf: "allocate_shared xxh3 ts existed its hashes p =
    (if \<not> opt_enable_prefix_cache (options p) \<or> opt_block_size (options p) = 0 then Some ([], p)
     else if ty = BT_LINEAR \<and> ts = [] then Some ([], p)
     else map_option (\<lambda>(bs, pc', r'). (bs, p\<lparr>prefix_cache := Some pc', ref_counts := r'\<rparr>))
            (match_blocks (pool_env xxh3 p) ts' existed' its hashes pc (ref_counts p)))"
    unfolding allocate_shared_def Some Let_def ty_def ts'_def existed'_def by (simp only: option.case)
  have cs: "cache_state_ok pc (ref_counts p) H" using assms(1) pool_ok_cached [OF Some] by blast
  have sub: "set (valid_ids existed') \<subseteq> set H" using assms(2) by (simp add: existed'_def)
  let ?run = "map_option (\<lambda>(bs, pc', r'). (bs, p\<lparr>prefix_cache := Some pc', ref_counts := r'\<rparr>))
      (match_blocks (pool_env xxh3 p) ts' existed' its hashes pc (ref_counts p))"
  consider "Some (bs, q) = Some ([], p)" | "Some (bs, q) = ?run"
    using assms(3) unfolding unf by (metis (no_types))
  then show ?thesis
  proof cases
    case 1
    then show ?thesis using assms(1) by simp
  next
    case 2
    then obtain pc' r' where m: "match_blocks (pool_env xxh3 p) ts' existed' its hashes pc (ref_counts p) = Some (bs, pc', r')"
        "q = p\<lparr>prefix_cache := Some pc', ref_counts := r'\<rparr>"
      by (cases "match_blocks (pool_env xxh3 p) ts' existed' its hashes pc (ref_counts p)") auto
    show ?thesis unfolding m(2)
      using pool_ok_update [OF assms(1) Some match_blocks_ok [OF cs sub m(1)] match_blocks_live [OF cs sub m(1)]] by simp
  qed
qed

lemma cache_tokens_ok:
  assumes "pool_ok p H" "set (map block_id bs) \<subseteq> set H" "cache_tokens xxh3 ts bs existed its hashes p = Some (bs', q)"
  shows "pool_ok q H \<and> options q = options p \<and> map block_id bs' = map block_id bs"
proof (cases "opt_enable_prefix_cache (options p)")
  case True
  then obtain pc k pc' r' where m: "prefix_cache p = Some pc"
      "insert_blocks (pool_env xxh3 p) ts bs existed its hashes pc (ref_counts p) = Some (k, bs', pc', r')"
      "q = p\<lparr>prefix_cache := Some pc', ref_counts := r'\<rparr>"
    using assms(3) by (auto simp: cache_tokens_def split: option.splits)
  have cs: "cache_state_ok pc (ref_counts p) H" using assms(1) pool_ok_cached [OF m(1)] by blast
  have cs': "cache_state_ok pc' r' H" "map block_id bs' = map block_id bs"
    using insert_blocks_ok [OF cs _ m(2)] assms(2) by blast+
  have "refs_live (ref_counts p) r'" using insert_blocks_live [OF cs _ m(2)] assms(2) by blast
  then show ?thesis unfolding m(3) using pool_ok_update [OF assms(1) m(1) cs'(1)] cs'(2) by simp
qed (use assms in \<open>simp add: cache_tokens_def\<close>)

lemma cache_hashed_ok:
  assumes "pool_ok p H" "set (valid_ids bs) \<subseteq> set H" "cache_hashed xxh3 bs p = Some q"
  shows "pool_ok q H \<and> options q = options p"
proof (cases "opt_enable_prefix_cache (options p)")
  case True
  then obtain pc k pc' r' where m: "prefix_cache p = Some pc"
      "insert_hashed (pool_env xxh3 p) bs pc (ref_counts p) = Some (k, pc', r')"
      "q = p\<lparr>prefix_cache := Some pc', ref_counts := r'\<rparr>"
    using assms(3) by (auto simp: cache_hashed_def split: option.splits)
  have cs: "cache_state_ok pc (ref_counts p) H" using assms(1) pool_ok_cached [OF m(1)] by blast
  show ?thesis unfolding m(3)
    using pool_ok_update [OF assms(1) m(1) insert_hashed_ok [OF cs assms(2) m(2)] insert_hashed_live [OF cs assms(2) m(2)]] by simp
qed (use assms in \<open>simp add: cache_hashed_def\<close>)

lemma reset_ok:
  assumes "pool_ok p H"
  shows "\<exists>q. reset_prefix_cache p = Some q \<and> pool_ok q H \<and> options q = options p"
proof (cases "prefix_cache p")
  case None
  then show ?thesis using assms by (simp add: reset_prefix_cache_def)
next
  case (Some pc)
  then have "opt_enable_prefix_cache (options p)" using assms pool_ok_cached by blast
  then show ?thesis using evict_ok [OF assms Some, of "num_cached pc"] Some by (auto simp: reset_prefix_cache_def)
qed

theorem reach_pool_ok: "pool_reach xxh3 opts p H \<Longrightarrow> pool_ok p H \<and> options p = opts"
proof (induction rule: pool_reach.induct)
  case (reach_create p)
  have "0 < opt_num_blocks opts" "0 < opt_block_size opts" using reach_create by (auto simp: create_pool_def split: if_splits)
  then show ?case using create_pool_ok [of opts] reach_create by auto
next
  case (reach_allocate p H n bs q)
  then show ?case using allocate_ok [of p H n] by auto
next
  case (reach_copy p H b)
  then show ?case using copy_alias_ok [of p H b] by (simp add: copy_alias_def)
next
  case (reach_drop p H b q)
  then show ?case using drop_alias_ok [of p H b] by auto
next
  case (reach_share p H existed ts its hashes bs q)
  then show ?case using allocate_shared_ok [of p H existed] by blast
next
  case (reach_cache p H bs ts existed its hashes bs' q)
  then show ?case using cache_tokens_ok [of p H bs] by blast
next
  case (reach_cache_hashed p H bs q)
  then show ?case using cache_hashed_ok [of p H bs] by blast
next
  case (reach_reset p H q)
  then show ?case using reset_ok [of p H] by auto
qed

end
