(* ===== verification/Block_Manager.thy ===== *)
theory Block_Manager imports Block_Inv begin

text \<open>
  What the block manager of \<open>core/framework/block/block_manager_impl.{h,cpp}\<close> promises its users, over the
  model \<open>Block_Pool\<close> and its invariant \<open>Block_Inv\<close>: the interface of a resource pool and the manager as an
  instance of it, the exact counts, and what a prefix match returns.
\<close>

section \<open>The interface of a resource pool\<close>

text \<open>Destruction of a vector of aliases.\<close>

fun release_all :: "('b \<Rightarrow> 's \<Rightarrow> 's option) \<Rightarrow> 'b list \<Rightarrow> 's \<Rightarrow> 's option" where
  "release_all rel [] s = Some s"
| "release_all rel (b # bs) s = (case rel b s of None \<Rightarrow> None | Some s' \<Rightarrow> release_all rel bs s')"

text \<open>What the users of a block manager rely on: \<open>ok s H\<close> holds of a state whose clients hold exactly the ids
  \<open>H\<close>; \<open>acquire\<close> hands out aliases of ids nobody holds, all or none; \<open>release\<close> takes one back.\<close>

locale resource_pool =
  fixes ok :: "'s \<Rightarrow> int list \<Rightarrow> bool" and key :: "'b \<Rightarrow> int"
    and acquire :: "nat \<Rightarrow> 's \<Rightarrow> ('b list \<times> 's) option" and release :: "'b \<Rightarrow> 's \<Rightarrow> 's option"
    and capacity :: "'s \<Rightarrow> nat"
  assumes ok_perm: "mset H = mset H' \<Longrightarrow> ok s H \<Longrightarrow> ok s H'"
    and acquire_law: "ok s H \<Longrightarrow> \<exists>bs s'. acquire n s = Some (bs, s') \<and> ok s' (map key bs @ H)
      \<and> length bs = (if n \<le> capacity s then n else 0) \<and> distinct (map key bs) \<and> set (map key bs) \<inter> set H = {}"
    and release_law: "ok s H \<Longrightarrow> key b \<in> set H \<Longrightarrow> \<exists>s'. release b s = Some s' \<and> ok s' (remove1 (key b) H)"
begin

lemma release_all_ok: "ok s (map key bs @ H) \<Longrightarrow> \<exists>s'. release_all release bs s = Some s' \<and> ok s' H"
proof (induction bs arbitrary: s)
  case (Cons b bs)
  obtain s1 where s1: "release b s = Some s1" "ok s1 (remove1 (key b) (map key (b # bs) @ H))"
    using release_law [OF Cons.prems, of b] by auto
  then have "ok s1 (map key bs @ H)" by simp
  then show ?case using Cons.IH s1(1) by auto
qed simp

lemma acquire_release:
  assumes "ok s H" "acquire n s = Some (bs, s1)"
  shows "\<exists>s2. release_all release bs s1 = Some s2 \<and> ok s2 H"
  using acquire_law [OF assms(1), of n] assms(2) release_all_ok by auto

end

interpretation block_pool: resource_pool pool_ok block_id allocate drop_alias "\<lambda>p. num_free_blocks p + num_evictable_blocks p"
proof
  show "pool_ok s H \<Longrightarrow> pool_ok s H'" if "mset H = mset H'" for s H H' using pool_ok_perm [OF that] by blast
  show "\<exists>bs s'. allocate n s = Some (bs, s') \<and> pool_ok s' (map block_id bs @ H)
      \<and> length bs = (if n \<le> num_free_blocks s + num_evictable_blocks s then n else 0)
      \<and> distinct (map block_id bs) \<and> set (map block_id bs) \<inter> set H = {}" if "pool_ok s H" for s H n
    using allocate_ok [OF that] by blast
  show "\<exists>s'. drop_alias b s = Some s' \<and> pool_ok s' (remove1 (block_id b) H)" if "pool_ok s H" "block_id b \<in> set H" for s H b
    using drop_alias_ok [OF that] by blast
qed

section \<open>Counting\<close>

lemma evictable_card:
  assumes "pool_ok p H" "prefix_cache p = Some pc"
  shows "num_evictable pc = card (block_id ` set (lru_lst pc) - set H)"
proof -
  have core: "pool_core p H" using assms(1) by (simp add: pool_ok_def)
  note ok = pool_core_cache [OF core assms(2)]
  have "ref_counts p (block_id n) = 1 \<longleftrightarrow> block_id n \<notin> set H" if "n \<in> set (lru_lst pc)" for n
    using refs_node [OF ok(3) that] by (simp add: count_list_0_iff)
  then have flt: "filter (\<lambda>n. ref_counts p (block_id n) = 1) (lru_lst pc) = filter (\<lambda>n. block_id n \<notin> set H) (lru_lst pc)"
    by (intro filter_cong) auto
  have "distinct (map block_id (filter (\<lambda>n. block_id n \<notin> set H) (lru_lst pc)))"
    using ok(1) by (simp add: nodes_ok_def distinct_map_filter)
  then have "length (filter (\<lambda>n. block_id n \<notin> set H) (lru_lst pc)) = card (block_id ` set (filter (\<lambda>n. block_id n \<notin> set H) (lru_lst pc)))"
    using distinct_card by fastforce
  also have "block_id ` set (filter (\<lambda>n. block_id n \<notin> set H) (lru_lst pc)) = block_id ` set (lru_lst pc) - set H" by auto
  finally show ?thesis using ok(2) flt by (simp add: evictable_ok_def)
qed

lemma pool_count:
  assumes "pool_ok p H"
  shows "num_free_blocks p + num_evictable_blocks p + card (set H) = opt_num_blocks (options p) - 1"
proof -
  let ?n = "opt_num_blocks (options p)" and ?F = "set (take (num_free_blocks p) (free_blocks p))"
  let ?N = "block_id ` set (cache_nodes p)"
  have f: "free_ok p" and rf: "refs_ok (ref_counts p) (cache_nodes p) H" using pool_ok_refs [OF assms] by simp_all
  have used: "ref_counts p i \<noteq> 0 \<longleftrightarrow> i \<in> set H \<union> ?N" if "0 < i" for i
    using refs_okD(1) [OF rf, of i] that by (auto simp: count_list_0_iff)
  have pos: "0 < i" if "i \<in> set H \<union> ?N" for i using that refs_held_pos [OF rf] refs_node_pos [OF rf] by auto
  have rng: "i < int ?n" if "i \<in> set H \<union> ?N" for i
    using used [OF pos [OF that]] that free_okD(9) [OF f, of i] by simp
  have split: "{0<..<int ?n} = ?F \<union> (set H \<union> ?N)"
  proof (intro set_eqI iffI)
    fix i assume "i \<in> {0<..<int ?n}"
    then show "i \<in> ?F \<union> (set H \<union> ?N)" using used [of i] unfolding free_okD(5) [OF f] by auto
  next
    fix i assume "i \<in> ?F \<union> (set H \<union> ?N)"
    then show "i \<in> {0<..<int ?n}" using pos rng unfolding free_okD(5) [OF f] by auto
  qed
  have "i \<notin> set H \<union> ?N" if "i \<in> ?F" for i using that used [of i] unfolding free_okD(5) [OF f] by simp
  then have disj: "?F \<inter> (set H \<union> ?N) = {}" by blast
  have cF: "card ?F = num_free_blocks p"
    using distinct_card [OF free_okD(4) [OF f]] free_okD(1,3) [OF f] by simp
  have ev: "num_evictable_blocks p = card (?N - set H)"
  proof (cases "prefix_cache p")
    case None
    then show ?thesis by (simp add: num_evictable_blocks_def cache_nodes_def)
  next
    case (Some pc)
    then show ?thesis using evictable_card [OF assms Some] by (simp add: num_evictable_blocks_def cache_nodes_def)
  qed
  have "card (set H \<union> ?N) = card (set H) + card (?N - set H)"
    by (metis Un_Diff_cancel card_Un_disjoint Diff_disjoint List.finite_set finite_Diff finite_imageI)
  then have "card {0<..<int ?n} = num_free_blocks p + (card (set H) + num_evictable_blocks p)"
    unfolding split using card_Un_disjoint [OF _ _ disj] cF ev by simp
  then show ?thesis by simp
qed

lemma used_exact:
  assumes "pool_ok p H"
  shows "num_used_blocks p = card (set H)"
proof -
  have "num_total_blocks p = opt_num_blocks (options p) - 1"
    using free_okD(1) [OF pool_ok_refs(2) [OF assms]] by (simp add: num_total_blocks_def)
  moreover have "num_used_blocks p = num_total_blocks p - (num_free_blocks p + num_evictable_blocks p)"
    by (simp add: num_used_blocks_def Let_def)
  ultimately show ?thesis using pool_count [OF assms] by linarith
qed

section \<open>Matching what was inserted\<close>

lemma insert_block_keeps:
  assumes "walk_ok w H" "insert_block b w = Some w'"
  shows "set (walk_nodes w) \<subseteq> set (walk_nodes w')"
proof (cases "map_of (cached_blocks (walk_cache w)) (block_hash b)")
  case (Some n)
  then have n: "n \<in> set (walk_nodes w)" using assms(1) nodes_find by (auto simp: walk_ok_def)
  have "distinct (walk_nodes w)" using assms(1) nodes_distinct by (auto simp: walk_ok_def)
  from move_to_hits_nodes [OF n this] show ?thesis
    using assms(2) Some by (simp add: insert_block_def) (metis set_mset_mset subset_refl)
next
  case None
  then show ?thesis using assms(2) by (auto simp: insert_block_def Let_def walk_nodes_def split: if_splits)
qed

lemma insert_loop_hashes:
  assumes "walk_ok w H" "set (map block_id bs) \<subseteq> set H" "length ks \<le> length bs"
    and "insert_loop gap ks bs w = Some (bs', w')" "\<not> gap"
  shows "block_hash ` set (walk_nodes w) \<union> set ks \<subseteq> block_hash ` set (walk_nodes w')"
  using assms
proof (induction gap ks bs w arbitrary: bs' rule: insert_loop.induct)
  case (1 gap k ks b bs w)
  let ?b = "b\<lparr>block_hash := k\<rparr>"
  obtain w1 bs1 where w1: "insert_block ?b w = Some w1" "insert_loop gap ks bs w1 = Some (bs1, w')"
    using 1(6,7) by (auto simp: Let_def split: option.splits)
  have b: "block_id ?b \<in> set H" using 1(4) by auto
  note ok = insert_block_ok [OF 1(3) b w1(1)]
  have no: "\<not> (gap \<and> \<not> is_valid b)" using 1(7) by simp
  have "block_hash ` set (walk_nodes w1) \<union> set ks \<subseteq> block_hash ` set (walk_nodes w')"
    using 1(2) [OF no refl w1(1) conjunct1 [OF ok] _ _ w1(2) 1(7)] 1(4,5) by simp
  moreover have "block_hash ` set (walk_nodes w) \<subseteq> block_hash ` set (walk_nodes w1)"
    using insert_block_keeps [OF 1(3) w1(1)] by blast
  moreover have "k \<in> block_hash ` set (walk_nodes w1)" using ok by auto
  ultimately show ?case by auto
qed auto

lemma match_hit_cached:
  assumes "walk_ok w H" "n \<in> set (walk_nodes w)"
  shows "set (walk_nodes (match_hit n w)) = set (walk_nodes w)"
proof -
  have "walk_nodes (w\<lparr>walk_cache := claim_matched_block r n (walk_cache w), walk_refs := r'\<rparr>) = walk_nodes w" for r r'
    by (simp add: walk_nodes_def claim_matched_block_def release_evictable_slot_def)
  moreover from this have "mset (walk_nodes (match_hit n w)) = mset (walk_nodes w)"
    unfolding match_hit_def using assms nodes_distinct by (subst move_to_hits_nodes) (auto simp: walk_ok_def)
  ultimately show ?thesis by (metis set_mset_mset)
qed

text \<open>The solid match is the longest prefix of the keys whose hashes are cached.\<close>

lemma match_solid_hashes:
  "walk_ok w H \<Longrightarrow> match_solid ks w = (bs, w') \<Longrightarrow>
    map block_hash bs = takeWhile (\<lambda>k. k \<in> block_hash ` set (walk_nodes w)) ks"
proof (induction ks arbitrary: w H bs)
  case (Cons k ks)
  have nodes: "nodes_ok (walk_cache w) (walk_nodes w)" using Cons.prems(1) by (simp add: walk_ok_def)
  show ?case
  proof (cases "map_of (cached_blocks (walk_cache w)) k")
    case None
    moreover from None have "k \<notin> block_hash ` set (walk_nodes w)" using nodes_find_None [OF nodes] by blast
    ultimately show ?thesis using Cons.prems(2) by simp
  next
    case (Some n)
    then have n: "n \<in> set (walk_nodes w)" "block_hash n = k" using nodes_find [OF nodes] by auto
    obtain bs1 where bs1: "match_solid ks (match_hit n w) = (bs1, w')" "bs = n # bs1"
      using Cons.prems(2) Some by (auto split: prod.splits)
    have "map block_hash bs1 = takeWhile (\<lambda>k. k \<in> block_hash ` set (walk_nodes w)) ks"
      using Cons.IH [OF walk_ok_hit [OF Cons.prems(1) n(1)] bs1(1)] match_hit_cached [OF Cons.prems(1) n(1)] by simp
    then show ?thesis using bs1(2) n by auto
  qed
qed simp

text \<open>The gap-tolerant match puts a cached block exactly where its key is cached.\<close>

lemma match_gap_hashes:
  "walk_ok w H \<Longrightarrow> match_gap b hit ks w = (bs, hit', w') \<Longrightarrow>
    length bs = length ks \<and> (\<forall>j < length ks. if ks ! j \<in> block_hash ` set (walk_nodes w)
      then is_valid (bs ! j) \<and> block_hash (bs ! j) = ks ! j else bs ! j = invalid_block)"
proof (induction ks arbitrary: b hit w H bs)
  case (Cons k ks)
  have nodes: "nodes_ok (walk_cache w) (walk_nodes w)" using Cons.prems(1) by (simp add: walk_ok_def)
  show ?case
  proof (cases "map_of (cached_blocks (walk_cache w)) k")
    case None
    obtain bs1 where bs1: "match_gap (b + 1) hit ks w = (bs1, hit', w')" "bs = invalid_block # bs1"
      using Cons.prems(2) None by (auto split: prod.splits)
    show ?thesis using Cons.IH [OF Cons.prems(1) bs1(1)] bs1(2) None nodes_find_None [OF nodes]
      by (auto simp: nth_Cons split: nat.splits)
  next
    case (Some n)
    then have n: "n \<in> set (walk_nodes w)" "block_hash n = k" using nodes_find [OF nodes] by auto
    have v: "is_valid n" using refs_node_pos n Cons.prems(1) by (fastforce simp: walk_ok_def is_valid_def)
    obtain bs1 where bs1: "match_gap (b + 1) (Some b) ks (match_hit n w) = (bs1, hit', w')" "bs = n # bs1"
      using Cons.prems(2) Some by (auto split: prod.splits)
    have IH: "length bs1 = length ks \<and> (\<forall>j < length ks. if ks ! j \<in> block_hash ` set (walk_nodes w)
        then is_valid (bs1 ! j) \<and> block_hash (bs1 ! j) = ks ! j else bs1 ! j = invalid_block)"
      using Cons.IH [OF walk_ok_hit [OF Cons.prems(1) n(1)] bs1(1)] unfolding match_hit_cached [OF Cons.prems(1) n(1)] .
    show ?thesis using IH bs1(2) n v by (auto simp: nth_Cons split: nat.splits)
  qed
qed simp


lemma keys_reference:
  assumes "mm_sorted its" "n \<le> num_hash_blocks ty (length ts) bs"
  shows "chain_loop xxh3 (create_hasher ty its 0) ts bs None 0 n = Some (chain_hashes xxh3 ty its ts bs n)"
proof (cases "n = 0")
  case False
  then have "(0 + n) * bs + block_hash_lookahead ty \<le> length ts \<or> n = 0" using num_hash_blocks_fits [OF assms(2)] by simp
  moreover have "hasher_ok ty its (0 * bs) (create_hasher ty its 0)" using hasher_ok_create [of ty its 0] by simp
  ultimately show ?thesis using chain_loop_ok [of ty its 0 bs "create_hasher ty its 0" n ts xxh3] assms(1)
    by (simp add: chain_parent_def chain_hashes_def)
qed (simp add: chain_hashes_def)

definition pool_hash_blocks :: "pool \<Rightarrow> token list \<Rightarrow> nat" where
  "pool_hash_blocks p ts = num_hash_blocks (opt_hasher_type (options p)) (length ts) (opt_block_size (options p))"

definition pool_chain :: "(u8 list \<Rightarrow> hash_key) \<Rightarrow> pool \<Rightarrow> mm_item list \<Rightarrow> token list \<Rightarrow> hash_key list" where
  "pool_chain xxh3 p its ts =
     chain_hashes xxh3 (opt_hasher_type (options p)) its ts (opt_block_size (options p)) (pool_hash_blocks p ts)"

definition solid_pool :: "pool \<Rightarrow> bool" where
  "solid_pool p \<longleftrightarrow> opt_block_type (options p) \<noteq> BT_LINEAR \<and> opt_block_type (options p) \<noteq> BT_SWA
     \<and> opt_enable_prefix_cache (options p) \<and> 0 < opt_block_size (options p)"

lemma shared_prefix:
  assumes "pool_ok p H" "solid_pool p" "mm_sorted its"
  shows "\<exists>cs q. allocate_shared xxh3 ts [] its [] p = Some (cs, q)
     \<and> map block_hash cs = takeWhile (\<lambda>k. k \<in> block_hash ` set (cache_nodes p)) (pool_chain xxh3 p its ts)"
proof -
  have en: "opt_enable_prefix_cache (options p)" using assms(2) by (simp add: solid_pool_def)
  obtain pc where pc: "prefix_cache p = Some pc"
    using assms(1) en by (auto simp: pool_ok_def pool_core_def)
  have cs: "cache_state_ok pc (ref_counts p) H" using assms(1) pool_ok_cached [OF pc] by blast
  define n where "n = pool_hash_blocks p ts"
  let ?w = "start_walk pc (ref_counts p)"
  have ok: "walk_ok ?w H" using cs by (simp add: start_walk_ok)
  obtain bs w' where m: "match_solid (pool_chain xxh3 p its ts) ?w = (bs, w')" by fastforce
  have hashes: "map block_hash bs = takeWhile (\<lambda>k. k \<in> block_hash ` set (cache_nodes p)) (pool_chain xxh3 p its ts)"
    using match_solid_hashes [OF ok m] pc by (simp add: walk_nodes_def cache_nodes_def)
  have nn: "num_hash_blocks (env_type (pool_env xxh3 p)) (length ts) (env_block_size (pool_env xxh3 p)) = n"
    by (simp add: pool_env_def n_def pool_hash_blocks_def)
  have "match_keys (pool_env xxh3 p) ts [] its [] = Some (pool_chain xxh3 p its ts)" if "n \<noteq> 0"
    unfolding match_keys_def Let_def nn
    using that keys_reference [OF assms(3), of n "opt_hasher_type (options p)" ts "opt_block_size (options p)" xxh3]
    by (simp add: pool_env_def pool_chain_def flip: n_def) (simp add: n_def pool_hash_blocks_def)
  then have run: "match_blocks (pool_env xxh3 p) ts [] its [] pc (ref_counts p) = Some (bs, finish_walk w')" if "n \<noteq> 0"
    unfolding match_blocks_def Let_def nn using that assms(2) m by (simp add: pool_env_def solid_pool_def)
  have unf: "allocate_shared xxh3 ts [] its [] p = map_option (\<lambda>(bs, pc', r'). (bs, p\<lparr>prefix_cache := Some pc', ref_counts := r'\<rparr>))
      (match_blocks (pool_env xxh3 p) ts [] its [] pc (ref_counts p))"
    using assms(2) pc by (simp add: allocate_shared_def solid_pool_def)
  show ?thesis
  proof (cases "n = 0")
    case True
    have "pool_chain xxh3 p its ts = []" using True by (simp add: pool_chain_def chain_hashes_def flip: n_def)
    moreover have "match_blocks (pool_env xxh3 p) ts [] its [] pc (ref_counts p) = Some ([], pc, ref_counts p)"
      unfolding match_blocks_def Let_def nn using True by simp
    ultimately show ?thesis unfolding unf by simp
  next
    case False
    then show ?thesis unfolding unf run [OF False] using hashes by (cases "finish_walk w'") simp
  qed
qed

lemma cached_chain:
  assumes "pool_ok p H" "solid_pool p" "mm_sorted its" "set (map block_id bs) \<subseteq> set H" "pool_hash_blocks p ts \<le> length bs"
    and "cache_tokens xxh3 ts bs 0 its [] p = Some (bs', q)"
  shows "set (pool_chain xxh3 p its ts) \<subseteq> block_hash ` set (cache_nodes q)"
proof (cases "pool_hash_blocks p ts = 0")
  case True
  then show ?thesis by (simp add: pool_chain_def chain_hashes_def)
next
  case False
  define n where "n = pool_hash_blocks p ts"
  have en: "opt_enable_prefix_cache (options p)" using assms(2) by (simp add: solid_pool_def)
  obtain pc where pc: "prefix_cache p = Some pc"
    using assms(1) en by (auto simp: pool_ok_def pool_core_def)
  have cs: "cache_state_ok pc (ref_counts p) H" using assms(1) pool_ok_cached [OF pc] by blast
  have nn: "num_hash_blocks (env_type (pool_env xxh3 p)) (length ts) (env_block_size (pool_env xxh3 p)) = n"
    by (simp add: pool_env_def n_def pool_hash_blocks_def)
  have mn: "min n (length bs) = n" using assms(5) by (simp add: n_def)
  have gap: "\<not> env_gap (pool_env xxh3 p)" using assms(2) by (simp add: pool_env_def solid_pool_def)
  have keys: "insert_keys (pool_env xxh3 p) ts bs 0 its [] n = Some (pool_chain xxh3 p its ts)"
    using False gap keys_reference [OF assms(3), of n "opt_hasher_type (options p)" ts "opt_block_size (options p)" xxh3]
    by (simp add: insert_keys_def pool_env_def pool_chain_def flip: n_def) (simp add: n_def pool_hash_blocks_def)
  obtain k pc' r' where ins: "insert_blocks (pool_env xxh3 p) ts bs 0 its [] pc (ref_counts p) = Some (k, bs', pc', r')"
      "q = p\<lparr>prefix_cache := Some pc', ref_counts := r'\<rparr>"
    using assms(6) en pc by (auto simp: cache_tokens_def)
  have n0: "\<not> n \<le> 0" using False by (simp add: n_def)
  obtain bs1 w where w: "insert_loop (env_gap (pool_env xxh3 p)) (pool_chain xxh3 p its ts) bs (start_walk pc (ref_counts p)) = Some (bs1, w)"
      "finish_walk w = (pc', r')"
    using ins(1) keys n0 unfolding insert_blocks_def Let_def nn mn
    by (auto split: if_splits option.splits prod.splits)
  have "length (pool_chain xxh3 p its ts) \<le> length bs" using assms(5) by (simp add: pool_chain_def chain_hashes_def)
  then have "set (pool_chain xxh3 p its ts) \<subseteq> block_hash ` set (walk_nodes w)"
    using insert_loop_hashes [OF _ assms(4) _ w(1) gap] cs by (simp add: start_walk_ok)
  moreover have "cache_nodes q = walk_nodes w"
    using w(2) by (auto simp: ins(2) cache_nodes_def finish_walk_def walk_nodes_def)
  ultimately show ?thesis by simp
qed

text \<open>The gap-tolerant cache of a sliding-window pool.\<close>

definition window_pool :: "pool \<Rightarrow> bool" where
  "window_pool p \<longleftrightarrow> opt_block_type (options p) = BT_SWA \<and> opt_enable_prefix_cache (options p) \<and> 0 < opt_block_size (options p)"

lemma match_gap_last:
  assumes "walk_ok w H" "match_gap b hit ks w = (bs, Some h, w')" "hit \<noteq> Some h"
  shows "b \<le> h \<and> h - b < length bs \<and> is_valid (bs ! (h - b))"
  using assms
proof (induction ks arbitrary: b hit w H bs)
  case (Cons k ks)
  have nodes: "nodes_ok (walk_cache w) (walk_nodes w)" using Cons.prems(1) by (simp add: walk_ok_def)
  show ?case
  proof (cases "map_of (cached_blocks (walk_cache w)) k")
    case None
    obtain bs1 where bs1: "match_gap (b + 1) hit ks w = (bs1, Some h, w')" "bs = invalid_block # bs1"
      using Cons.prems(2) None by (auto split: prod.splits)
    have IH: "b + 1 \<le> h \<and> h - (b + 1) < length bs1 \<and> is_valid (bs1 ! (h - (b + 1)))"
      using Cons.IH [OF Cons.prems(1) bs1(1) Cons.prems(3)] .
    then have "h - b = Suc (h - (b + 1))" by linarith
    then show ?thesis using IH bs1(2) by simp
  next
    case (Some n)
    then have n: "n \<in> set (walk_nodes w)" using nodes_find [OF nodes] by auto
    have v: "is_valid n" using refs_node_pos n Cons.prems(1) by (fastforce simp: walk_ok_def is_valid_def)
    obtain bs1 where bs1: "match_gap (b + 1) (Some b) ks (match_hit n w) = (bs1, Some h, w')" "bs = n # bs1"
      using Cons.prems(2) Some by (auto split: prod.splits)
    show ?thesis
    proof (cases "h = b")
      case True
      then show ?thesis using bs1(2) v by simp
    next
      case False
      then have IH: "b + 1 \<le> h \<and> h - (b + 1) < length bs1 \<and> is_valid (bs1 ! (h - (b + 1)))"
        using Cons.IH [OF walk_ok_hit [OF Cons.prems(1) n] bs1(1)] by simp
      then have "h - b = Suc (h - (b + 1))" by linarith
      then show ?thesis using IH bs1(2) by simp
    qed
  qed
qed simp

lemma shared_window:
  assumes "pool_ok p H" "window_pool p" "mm_sorted its"
  shows "\<exists>cs q. allocate_shared xxh3 ts existed its [] p = Some (cs, q) \<and> length cs \<le> length (pool_chain xxh3 p its ts)
     \<and> (cs = [] \<or> is_valid (last cs)) \<and> (\<forall>j < length (pool_chain xxh3 p its ts). pool_chain xxh3 p its ts ! j \<in> block_hash ` set (cache_nodes p)
           \<longleftrightarrow> j < length cs \<and> is_valid (cs ! j))
     \<and> (\<forall>j < length cs. is_valid (cs ! j) \<longrightarrow> block_hash (cs ! j) = pool_chain xxh3 p its ts ! j)"
proof -
  let ?K = "pool_chain xxh3 p its ts"
  have en: "opt_enable_prefix_cache (options p)" using assms(2) by (simp add: window_pool_def)
  obtain pc where pc: "prefix_cache p = Some pc"
    using assms(1) en by (auto simp: pool_ok_def pool_core_def)
  have cs: "cache_state_ok pc (ref_counts p) H" using assms(1) pool_ok_cached [OF pc] by blast
  define n where "n = pool_hash_blocks p ts"
  let ?w = "start_walk pc (ref_counts p)"
  have ok: "walk_ok ?w H" using cs by (simp add: start_walk_ok)
  have lenK: "length ?K = n" by (simp add: pool_chain_def chain_hashes_def n_def)
  obtain bs hit w' where m: "match_gap 0 None ?K ?w = (bs, hit, w')" by (metis prod_cases3)
  define keep where "keep = (case hit of Some b \<Rightarrow> b + 1 | None \<Rightarrow> 0)"
  have hashes: "length bs = n" "\<forall>j < n. if ?K ! j \<in> block_hash ` set (cache_nodes p)
      then is_valid (bs ! j) \<and> block_hash (bs ! j) = ?K ! j else bs ! j = invalid_block"
    using match_gap_hashes [OF ok m] pc lenK by (simp_all add: walk_nodes_def cache_nodes_def)
  have tail: "j < keep" if "j < n" "is_valid (bs ! j)" for j
    using match_gap_ok(2) [OF ok m, of j] that hashes(1) by (auto simp: keep_def)
  have inv: "\<not> is_valid invalid_block" by (simp add: is_valid_def invalid_block_def)
  have last: "take keep bs = [] \<or> is_valid (last (take keep bs))"
  proof (cases hit)
    case (Some h)
    then have "h < length bs" "is_valid (bs ! h)" using match_gap_last [OF ok, of 0 None ?K bs h w'] m by auto
    then show ?thesis using Some by (simp add: keep_def take_Suc_snoc)
  qed (simp add: keep_def)
  have nn: "num_hash_blocks (env_type (pool_env xxh3 p)) (length ts) (env_block_size (pool_env xxh3 p)) = n"
    by (simp add: pool_env_def n_def pool_hash_blocks_def)
  have "match_keys (pool_env xxh3 p) ts [] its [] = Some ?K" if "n \<noteq> 0"
    unfolding match_keys_def Let_def nn
    using that keys_reference [OF assms(3), of n "opt_hasher_type (options p)" ts "opt_block_size (options p)" xxh3]
    by (simp add: pool_env_def pool_chain_def flip: n_def) (simp add: n_def pool_hash_blocks_def)
  then have run: "match_blocks (pool_env xxh3 p) ts [] its [] pc (ref_counts p) = Some (take keep bs, finish_walk w')" if "n \<noteq> 0"
    unfolding match_blocks_def Let_def nn using that assms(2) m by (simp add: pool_env_def window_pool_def keep_def cong: option.case_cong)
  have unf: "allocate_shared xxh3 ts existed its [] p = map_option (\<lambda>(bs, pc', r'). (bs, p\<lparr>prefix_cache := Some pc', ref_counts := r'\<rparr>))
      (match_blocks (pool_env xxh3 p) ts [] its [] pc (ref_counts p))"
    using assms(2) pc by (simp add: allocate_shared_def window_pool_def)
  show ?thesis
  proof (cases "n = 0")
    case True
    have "match_blocks (pool_env xxh3 p) ts [] its [] pc (ref_counts p) = Some ([], pc, ref_counts p)"
      unfolding match_blocks_def Let_def nn using True by simp
    then show ?thesis unfolding unf using lenK True by simp
  next
    case False
    obtain pc' r' where "finish_walk w' = (pc', r')" by fastforce
    then have "allocate_shared xxh3 ts existed its [] p = Some (take keep bs, p\<lparr>prefix_cache := Some pc', ref_counts := r'\<rparr>)"
      unfolding unf run [OF False] by simp
    moreover have "?K ! j \<in> block_hash ` set (cache_nodes p) \<longleftrightarrow> j < length (take keep bs) \<and> is_valid (take keep bs ! j)"
      if "j < length ?K" for j
      using hashes tail [of j] inv that lenK by (auto split: if_splits)
    moreover have "block_hash (take keep bs ! j) = ?K ! j" if "j < length (take keep bs)" "is_valid (take keep bs ! j)" for j
    proof -
      have "j < n" "is_valid (bs ! j)" using that hashes(1) by simp_all
      then show ?thesis using hashes(2) inv that(1) by (auto split: if_splits)
    qed
    ultimately show ?thesis using lenK hashes(1) last by auto
  qed
qed

text \<open>An insertion fails no check when no block is cached under a hash other than the one it is inserted with.\<close>

lemma insert_block_some:
  assumes "walk_ok w H" "\<And>m. m \<in> set (walk_nodes w) \<Longrightarrow> block_id m = block_id b \<Longrightarrow> block_hash m = block_hash b"
  shows "\<exists>w'. insert_block b w = Some w' \<and> set (walk_nodes w') \<subseteq> insert b (set (walk_nodes w))"
proof -
  have ok: "nodes_ok (walk_cache w) (walk_nodes w)" using assms(1) by (simp add: walk_ok_def)
  show ?thesis
  proof (cases "map_of (cached_blocks (walk_cache w)) (block_hash b)")
    case (Some n)
    then have "n \<in> set (walk_nodes w)" using nodes_find [OF ok] by simp
    from move_to_hits_nodes [OF this nodes_distinct [OF ok]]
    have "set (walk_nodes (move_to_hits n w)) = set (walk_nodes w)" by (metis set_mset_mset)
    then show ?thesis using Some by (auto simp: insert_block_def)
  next
    case None
    then have "block_hash b \<notin> block_hash ` set (walk_nodes w)" using nodes_find_None [OF ok] by simp
    then have "block_id b \<notin> block_id ` set (walk_nodes w)" using assms(2) by (metis imageE image_eqI)
    then have "block_id b \<notin> set (blocks_by_id (walk_cache w))" using ok by (simp add: nodes_ok_def)
    then show ?thesis using None by (auto simp: insert_block_def Let_def walk_nodes_def)
  qed
qed

lemma insert_loop_some:
  assumes "walk_ok w H" "set (map block_id bs) \<subseteq> set H" "distinct (map block_id bs)" "\<not> gap"
    and "\<And>j m. j < length ks \<Longrightarrow> j < length bs \<Longrightarrow> m \<in> set (walk_nodes w) \<Longrightarrow> block_id m = block_id (bs ! j) \<Longrightarrow> block_hash m = ks ! j"
  shows "\<exists>bs' w'. insert_loop gap ks bs w = Some (bs', w')"
  using assms
proof (induction gap ks bs w rule: insert_loop.induct)
  case (1 gap k ks b bs w)
  let ?b = "b\<lparr>block_hash := k\<rparr>"
  obtain w1 where w1: "insert_block ?b w = Some w1" "set (walk_nodes w1) \<subseteq> insert ?b (set (walk_nodes w))"
    using insert_block_some [OF 1(3), of ?b] 1(7) [of 0] by auto
  have no: "\<not> (gap \<and> \<not> is_valid b)" using 1(6) by simp
  have ok: "walk_ok w1 H" using insert_block_ok [OF 1(3) _ w1(1)] 1(4) by simp
  have "\<exists>bs' w'. insert_loop gap ks bs w1 = Some (bs', w')"
  proof (rule 1(2) [OF no refl w1(1) ok])
    show "set (map block_id bs) \<subseteq> set H" "distinct (map block_id bs)" "\<not> gap" using 1(4,5,6) by simp_all
    fix j m assume j: "j < length ks" "j < length bs" "m \<in> set (walk_nodes w1)" "block_id m = block_id (bs ! j)"
    have "block_id b \<notin> block_id ` set bs" using 1(5) by simp
    then have "block_id (bs ! j) \<noteq> block_id b" using nth_mem [OF j(2)] by (metis image_eqI)
    then have "m \<in> set (walk_nodes w)" using w1(2) j(3,4) by auto
    then show "block_hash m = ks ! j" using 1(7) [of "Suc j" m] j by simp
  qed
  then show ?case using w1(1) no by (auto simp: Let_def)
qed auto

lemma cache_tokens_some:
  assumes "pool_ok p H" "solid_pool p" "mm_sorted its" "set (map block_id bs) \<subseteq> set H" "pool_hash_blocks p ts \<le> length bs"
    and "distinct (map block_id bs)"
    and "\<And>j m. j < pool_hash_blocks p ts \<Longrightarrow> m \<in> set (cache_nodes p) \<Longrightarrow> block_id m = block_id (bs ! j) \<Longrightarrow>
           block_hash m = pool_chain xxh3 p its ts ! j"
  shows "\<exists>bs' q. cache_tokens xxh3 ts bs 0 its [] p = Some (bs', q)"
proof -
  define n where "n = pool_hash_blocks p ts"
  have en: "opt_enable_prefix_cache (options p)" using assms(2) by (simp add: solid_pool_def)
  obtain pc where pc: "prefix_cache p = Some pc"
    using assms(1) en by (auto simp: pool_ok_def pool_core_def)
  have cs: "cache_state_ok pc (ref_counts p) H" using assms(1) pool_ok_cached [OF pc] by blast
  have nn: "num_hash_blocks (env_type (pool_env xxh3 p)) (length ts) (env_block_size (pool_env xxh3 p)) = n"
    by (simp add: pool_env_def n_def pool_hash_blocks_def)
  have mn: "min n (length bs) = n" using assms(5) by (simp add: n_def)
  have gap: "\<not> env_gap (pool_env xxh3 p)" using assms(2) by (simp add: pool_env_def solid_pool_def)
  have "\<exists>k bs' pc' r'. insert_blocks (pool_env xxh3 p) ts bs 0 its [] pc (ref_counts p) = Some (k, bs', pc', r')"
  proof (cases "n = 0")
    case True
    then show ?thesis unfolding insert_blocks_def Let_def nn mn using cache_state_counts [OF cs] by simp
  next
    case False
    have keys: "insert_keys (pool_env xxh3 p) ts bs 0 its [] n = Some (pool_chain xxh3 p its ts)"
      using False gap keys_reference [OF assms(3), of n "opt_hasher_type (options p)" ts "opt_block_size (options p)" xxh3]
      by (simp add: insert_keys_def pool_env_def pool_chain_def flip: n_def) (simp add: n_def pool_hash_blocks_def)
    have lk: "length (pool_chain xxh3 p its ts) = n" by (simp add: pool_chain_def chain_hashes_def n_def)
    have "\<exists>bs' w. insert_loop (env_gap (pool_env xxh3 p)) (pool_chain xxh3 p its ts) bs (start_walk pc (ref_counts p)) = Some (bs', w)"
    proof (rule insert_loop_some)
      show "walk_ok (start_walk pc (ref_counts p)) H" using cs by (simp add: start_walk_ok)
      show "block_hash m = pool_chain xxh3 p its ts ! j" if "j < length (pool_chain xxh3 p its ts)" "j < length bs"
        "m \<in> set (walk_nodes (start_walk pc (ref_counts p)))" "block_id m = block_id (bs ! j)" for j m
        using assms(7) [of j m] that pc lk by (simp add: cache_nodes_def walk_nodes_def n_def)
    qed (use assms gap in auto)
    then obtain bs' w where w: "insert_loop (env_gap (pool_env xxh3 p)) (pool_chain xxh3 p its ts) bs (start_walk pc (ref_counts p)) = Some (bs', w)"
      by blast
    obtain pc' r' where fw: "finish_walk w = (pc', r')" by fastforce
    have "walk_ok w H" using insert_loop_ok [OF _ _ w] cs assms(4) by (simp add: start_walk_ok)
    then have "check_cached_block_count pc'" using finish_walk_ok [OF _ fw] cache_state_counts by blast
    then show ?thesis unfolding insert_blocks_def Let_def nn mn using False keys w fw cache_state_counts [OF cs] by simp
  qed
  then show ?thesis using en pc by (auto simp: cache_tokens_def)
qed

lemma evict_spec_filter:
  "filter (is_shared r) (evict_spec r n bs) = filter (is_shared r) bs"
  "filter (\<lambda>b. \<not> is_shared r b) (evict_spec r n bs) = drop n (filter (\<lambda>b. \<not> is_shared r b) bs)"
  by (induction r n bs rule: evict_spec.induct) (auto simp: drop_Cons')

lemma has_enough_evicts:
  assumes "pool_ok p H" "n \<le> num_free_blocks p + num_evictable_blocks p"
  shows "\<exists>q. has_enough_blocks n p = Some (True, q) \<and> pool_ok q H \<and> n \<le> num_free_blocks q
     \<and> cache_nodes q = evict_spec (ref_counts p) (n - num_free_blocks p) (cache_nodes p)"
proof (cases "n \<le> num_free_blocks p")
  case True
  moreover have "evict_spec r 0 bs = bs" for r bs by (cases bs) simp_all
  ultimately show ?thesis using assms(1) by (simp add: has_enough_blocks_def)
next
  case False
  let ?k = "n - num_free_blocks p"
  obtain pc where pc: "prefix_cache p = Some pc"
    using assms(2) False by (cases "prefix_cache p") (auto simp: num_evictable_blocks_def)
  then have k: "?k \<le> num_evictable pc" and en: "opt_enable_prefix_cache (options p)"
    using assms by (auto simp: num_evictable_blocks_def pool_ok_cached)
  obtain q where "evict ?k p = Some (min ?k (num_evictable pc), q)" "pool_ok q H"
      "num_free_blocks q = num_free_blocks p + min ?k (num_evictable pc)"
      "cache_nodes q = evict_spec (ref_counts p) ?k (cache_nodes p)"
    using evict_ok [OF assms(1) pc, of ?k] by blast
  then show ?thesis using False k en by (simp add: has_enough_blocks_def min_absorb1)
qed

lemma allocate_evicts:
  assumes "pool_ok p H" "n \<le> num_free_blocks p + num_evictable_blocks p"
  shows "\<exists>bs q. allocate n p = Some (bs, q) \<and> pool_ok q (map block_id bs @ H) \<and> length bs = n
     \<and> distinct (map block_id bs) \<and> list_all is_valid bs \<and> set (map block_id bs) \<inter> (set H \<union> block_id ` set (cache_nodes q)) = {}
     \<and> cache_nodes q = evict_spec (ref_counts p) (n - num_free_blocks p) (cache_nodes p)"
proof -
  obtain q1 where q1: "has_enough_blocks n p = Some (True, q1)" "pool_ok q1 H" "n \<le> num_free_blocks q1"
      "cache_nodes q1 = evict_spec (ref_counts p) (n - num_free_blocks p) (cache_nodes p)"
    using has_enough_evicts [OF assms] by blast
  obtain bs q where q: "pop_blocks n q1 = Some (bs, q)" "prefix_cache q = prefix_cache q1"
      "\<forall>b \<in> set bs. ref_counts q1 (block_id b) = 0 \<and> is_valid b"
    using pop_blocks_ok [OF q1(2,3)] by blast
  have al: "allocate n p = Some (bs, q)" using q1(1,3) q(1) by (simp add: allocate_def)
  have cn: "cache_nodes q = cache_nodes q1" using q(2) by (simp add: cache_nodes_def)
  have rf: "refs_ok (ref_counts q1) (cache_nodes q1) H" using pool_ok_refs(1) [OF q1(2)] .
  have "block_id b \<notin> block_id ` set (cache_nodes q)" if "b \<in> set bs" for b
  proof
    assume "block_id b \<in> block_id ` set (cache_nodes q)"
    then obtain m where m: "m \<in> set (cache_nodes q1)" "block_id b = block_id m" using cn by auto
    then have "ref_counts q1 (block_id b) = 0" using q(3) that by blast
    then show False using refs_node [OF rf m(1)] m(2) by simp
  qed
  then have "set (map block_id bs) \<inter> block_id ` set (cache_nodes q) = {}" by auto
  moreover obtain bs' q' where "allocate n p = Some (bs', q')" "pool_ok q' (map block_id bs' @ H)"
      "length bs' = n" "distinct (map block_id bs')" "set (map block_id bs') \<inter> set H = {}" "list_all is_valid bs'"
    using allocate_ok [OF assms(1), of n] assms(2) by auto
  ultimately show ?thesis using al q1(4) cn by (auto simp: Int_Un_distrib)
qed

end
