(* ===== verification/Block_Properties.thy ===== *)
theory Block_Properties imports Block_Manager begin

text \<open>
  The properties of the block pool and its prefix cache, over every state that the operations reach, each with
  an instance on a small pool.
\<close>

section \<open>A small pool\<close>

text \<open>Four blocks of two tokens with a prefix cache; block 0 is padding.\<close>

definition demo_options :: pool_options where
  "demo_options = \<lparr>opt_num_blocks = 4, opt_block_size = 2, opt_enable_prefix_cache = True,
     opt_block_type = BT_KV, opt_hasher_type = HT_TEXT\<rparr>"

definition demo_pool :: pool where
  "demo_pool = \<lparr>options = demo_options, num_free_blocks = 3, free_blocks = [3, 2, 1, 0],
     usage_accounted_ids = [True, False, False, False], ref_counts = (\<lambda>_. 0)(0 := 1),
     prefix_cache = Some empty_prefix_cache\<rparr>"

lemma demo_created: "create_pool demo_options = Some demo_pool"
  by (simp add: create_pool_def demo_options_def demo_pool_def allocate_def has_enough_blocks_def pop_block_def
      mark_used_def) (simp add: eval_nat_numeral)

lemma demo_pool_ok: "pool_ok demo_pool []"
  using create_pool_ok [of demo_options] demo_created by (auto simp: demo_options_def)

lemma demo_reach: "pool_reach xxh3 demo_options demo_pool []"
  using demo_created by (rule reach_create)

lemma demo_allocate: "\<exists>q. allocate 2 demo_pool = Some ([\<lparr>block_id = 1, block_hash = 0\<rparr>, \<lparr>block_id = 2, block_hash = 0\<rparr>], q)"
  by (simp add: demo_pool_def allocate_def has_enough_blocks_def eval_nat_numeral pop_block_def mark_used_def)

lemma demo_counts [simp]: "num_free_blocks demo_pool = 3" "num_evictable_blocks demo_pool = 0" "cache_nodes demo_pool = []"
  by (simp_all add: demo_pool_def num_evictable_blocks_def empty_prefix_cache_def cache_nodes_def)

lemma count_list_distinct: "distinct xs \<Longrightarrow> count_list xs x = (if x \<in> set xs then 1 else 0)"
  by (induction xs) auto

text \<open>A reset keeps exactly the nodes whose block a client still holds.\<close>

lemma reset_keeps:
  assumes "pool_ok p H"
  shows "\<exists>q. reset_prefix_cache p = Some q \<and> pool_ok q H \<and> cache_nodes q = filter (\<lambda>b. block_id b \<in> set H) (cache_nodes p)"
proof (cases "prefix_cache p")
  case None
  then show ?thesis using assms by (simp add: reset_prefix_cache_def cache_nodes_def)
next
  case (Some pc)
  have en: "opt_enable_prefix_cache (options p)" using assms Some pool_ok_cached by blast
  have cn: "num_cached pc = length (cache_nodes p)"
    using assms Some by (simp add: pool_ok_cached cache_state_ok_def cache_nodes_def)
  have "evict_spec r n bs = filter (is_shared r) bs" if "length bs \<le> n" for r n bs
    using that by (induction r n bs rule: evict_spec.induct) auto
  then have "evict_spec (ref_counts p) (num_cached pc) (cache_nodes p) = filter (is_shared (ref_counts p)) (cache_nodes p)"
    using cn by simp
  also have "\<dots> = filter (\<lambda>b. block_id b \<in> set H) (cache_nodes p)"
  proof (rule filter_cong [OF refl])
    fix b assume "b \<in> set (cache_nodes p)"
    from refs_node [OF pool_ok_refs(1) [OF assms] this]
    show "is_shared (ref_counts p) b \<longleftrightarrow> block_id b \<in> set H"
      using count_list_0_iff [of H "block_id b"] by (auto simp: is_shared_def)
  qed
  finally show ?thesis using evict_ok [OF assms Some, of "num_cached pc"] Some en by (auto simp: reset_prefix_cache_def)
qed

section \<open>Properties\<close>

text \<open>C6.  Every physical block is in exactly one place.  In a state that any sequence of operations reaches while the
  clients hold the aliases \<open>H\<close>, the shared counter of a block is the number of those aliases and of its node in
  the prefix cache, and the free list holds each block without one exactly once: no block is lost, none is
  handed out while in use, none is freed twice.\<close>

theorem reference_counts_exact:
  assumes "pool_reach xxh3 opts p H" "0 < i" "i < int (opt_num_blocks opts)"
  shows "ref_counts p i = count_list H i + (if i \<in> block_id ` set (cache_nodes p) then 1 else 0)
    \<and> count_list (take (num_free_blocks p) (free_blocks p)) i = (if i \<in> set H \<union> block_id ` set (cache_nodes p) then 0 else 1)"
proof -
  have ok: "pool_ok p H" "options p = opts" using reach_pool_ok [OF assms(1)] by auto
  note rf = refs_okD(1) [OF pool_ok_refs(1) [OF ok(1)], of i] and f = pool_ok_refs(2) [OF ok(1)]
  have rc: "ref_counts p i = count_list H i + (if i \<in> block_id ` set (cache_nodes p) then 1 else 0)" using rf assms(2) by simp
  have "i \<in> set (take (num_free_blocks p) (free_blocks p)) \<longleftrightarrow> i \<notin> set H \<union> block_id ` set (cache_nodes p)"
    unfolding free_okD(5) [OF f] using assms ok(2) rc by (auto simp: count_list_0_iff)
  then have "count_list (take (num_free_blocks p) (free_blocks p)) i = (if i \<in> set H \<union> block_id ` set (cache_nodes p) then 0 else 1)"
    using free_okD(4) [OF f] by (simp add: count_list_distinct)
  with rc show ?thesis by blast
qed

lemma reference_counts_exact_witness:
  "ref_counts demo_pool 2 = 0 \<and> count_list (take (num_free_blocks demo_pool) (free_blocks demo_pool)) 2 = 1"
  using reference_counts_exact [OF demo_reach, of 2]
  by (simp add: demo_options_def demo_pool_def cache_nodes_def empty_prefix_cache_def)

text \<open>C7.  An allocation is all or nothing and never fails a check.  If the free and the evictable blocks suffice it
  returns as many valid, distinct blocks as asked for, none held by a client and none left in the cache, and it
  evicts only the missing number, from the least recently used end, skipping the blocks in use; otherwise it
  returns none and every block keeps its holders.\<close>

theorem allocation_exact:
  assumes "pool_reach xxh3 opts p H"
  shows "\<exists>bs q. allocate n p = Some (bs, q) \<and> pool_reach xxh3 opts q (map block_id bs @ H)
    \<and> (if n \<le> num_free_blocks p + num_evictable_blocks p
       then length bs = n \<and> distinct (map block_id bs) \<and> list_all is_valid bs
          \<and> set (map block_id bs) \<inter> (set H \<union> block_id ` set (cache_nodes q)) = {}
          \<and> filter (is_shared (ref_counts p)) (cache_nodes q) = filter (is_shared (ref_counts p)) (cache_nodes p)
          \<and> filter (\<lambda>b. \<not> is_shared (ref_counts p) b) (cache_nodes q)
              = drop (n - num_free_blocks p) (filter (\<lambda>b. \<not> is_shared (ref_counts p) b) (cache_nodes p))
       else bs = [])"
proof -
  have ok: "pool_ok p H" using reach_pool_ok [OF assms] by blast
  obtain bs q where bq: "allocate n p = Some (bs, q)" "length bs = (if n \<le> num_free_blocks p + num_evictable_blocks p then n else 0)"
    using allocate_ok [OF ok, of n] by blast
  have reach: "pool_reach xxh3 opts q (map block_id bs @ H)" by (rule reach_allocate [OF assms bq(1)])
  show ?thesis
  proof (cases "n \<le> num_free_blocks p + num_evictable_blocks p")
    case True
    then show ?thesis using allocate_evicts [OF ok True] bq(1) reach by (auto simp: evict_spec_filter)
  next
    case False
    then show ?thesis using bq reach by auto
  qed
qed

lemma allocation_exact_witness:
  "(\<exists>bs q. allocate 2 demo_pool = Some (bs, q) \<and> length bs = 2 \<and> distinct (map block_id bs))
   \<and> (\<exists>q. allocate 4 demo_pool = Some ([], q))"
  using allocation_exact [OF demo_reach [of byte_sum], of 2] allocation_exact [OF demo_reach [of byte_sum], of 4] by auto



text \<open>The counts that the scheduler reads are exact: the blocks reported as used are those that clients hold, and
  with the free and the evictable ones they make up all blocks but the padding block.\<close>

theorem used_blocks_exact:
  assumes "pool_reach xxh3 opts p H"
  shows "num_used_blocks p = card (set H)
    \<and> num_free_blocks p + num_evictable_blocks p + num_used_blocks p = opt_num_blocks opts - 1
    \<and> num_evictable_blocks p = card {b \<in> set (cache_nodes p). block_id b \<notin> set H}"
proof -
  have ok: "pool_ok p H" "options p = opts" using reach_pool_ok [OF assms] by auto
  have u: "num_used_blocks p = card (set H)" by (rule used_exact [OF ok(1)])
  moreover have "num_free_blocks p + num_evictable_blocks p + num_used_blocks p = opt_num_blocks opts - 1"
    unfolding u using pool_count [OF ok(1)] ok(2) by simp
  moreover have "num_evictable_blocks p = card {b \<in> set (cache_nodes p). block_id b \<notin> set H}"
  proof (cases "prefix_cache p")
    case None
    then show ?thesis by (simp add: num_evictable_blocks_def cache_nodes_def)
  next
    case (Some pc)
    then have "inj_on block_id (set (lru_lst pc))"
      using ok(1) by (simp add: pool_ok_cached cache_state_ok_def nodes_ok_def distinct_map)
    then have "card (block_id ` {b \<in> set (lru_lst pc). block_id b \<notin> set H}) = card {b \<in> set (lru_lst pc). block_id b \<notin> set H}"
      by (rule card_image [OF inj_on_subset]) blast
    moreover have "block_id ` set (lru_lst pc) - set H = block_id ` {b \<in> set (lru_lst pc). block_id b \<notin> set H}" by auto
    ultimately show ?thesis using evictable_card [OF ok(1) Some] Some by (simp add: num_evictable_blocks_def cache_nodes_def)
  qed
  ultimately show ?thesis by blast
qed

lemma used_blocks_exact_witness: "num_used_blocks demo_pool = 0"
  using used_blocks_exact [OF demo_reach] by simp

text \<open>C11.  The prefix cache returns the longest prefix of a request whose block hashes are all cached, and the
  aliases it returns are counted.\<close>

theorem longest_cached_prefix:
  assumes "pool_reach xxh3 opts p H" "solid_pool p" "mm_sorted its"
  shows "\<exists>cs q. allocate_shared xxh3 ts [] its [] p = Some (cs, q) \<and> pool_reach xxh3 opts q (valid_ids cs @ H)
    \<and> map block_hash cs = takeWhile (\<lambda>k. k \<in> block_hash ` set (cache_nodes p)) (pool_chain xxh3 p its ts)"
  using shared_prefix [OF conjunct1 [OF reach_pool_ok [OF assms(1)]] assms(2,3)] reach_share [OF assms(1), of "[]"] by fastforce

lemma demo_solid: "solid_pool demo_pool"
  by (simp add: solid_pool_def demo_pool_def demo_options_def)

lemma longest_cached_prefix_witness: "\<exists>q. allocate_shared byte_sum [5, 6, 7] [] [] [] demo_pool = Some ([], q)"
proof -
  have none: "takeWhile (\<lambda>k. False) ks = []" for ks :: "hash_key list" by (cases ks) simp_all
  show ?thesis using longest_cached_prefix [OF demo_reach demo_solid, of "[]" "byte_sum" "[5, 6, 7]"] by (auto simp: none)
qed

text \<open>C9.  What one request computed is found by the next one.  When a request's blocks are put in the prefix cache (no
  check fails as long as none of them is already cached under another hash), a request with the same items that
  agrees with it on the first \<open>k\<close> blocks, the lookahead included, is given at least \<open>k\<close> shared blocks, the ones
  stored under its own chain of hashes.\<close>

theorem cached_prefix_is_shared:
  assumes "pool_reach xxh3 opts p H" "solid_pool p" "mm_sorted its" "set (map block_id bs) \<subseteq> set H" "distinct (map block_id bs)"
    and "pool_hash_blocks p ts \<le> length bs"
    and "\<And>j m. j < pool_hash_blocks p ts \<Longrightarrow> m \<in> set (cache_nodes p) \<Longrightarrow> block_id m = block_id (bs ! j) \<Longrightarrow>
           block_hash m = pool_chain xxh3 p its ts ! j"
    and "k \<le> pool_hash_blocks p ts" "k \<le> pool_hash_blocks p us"
    and "take (k * opt_block_size opts + block_hash_lookahead (opt_hasher_type opts)) ts
       = take (k * opt_block_size opts + block_hash_lookahead (opt_hasher_type opts)) us"
  shows "\<exists>bs' q cs r. cache_tokens xxh3 ts bs 0 its [] p = Some (bs', q)
     \<and> allocate_shared xxh3 us [] its [] q = Some (cs, r) \<and> pool_reach xxh3 opts r (valid_ids cs @ H)
     \<and> k \<le> length cs \<and> map block_hash cs = take (length cs) (pool_chain xxh3 p its us)"
proof -
  have ok: "pool_ok p H" "options p = opts" using reach_pool_ok [OF assms(1)] by auto
  obtain bs' q where q: "cache_tokens xxh3 ts bs 0 its [] p = Some (bs', q)"
    using cache_tokens_some [OF ok(1) assms(2-4,6,5,7)] by blast
  have reach: "pool_reach xxh3 opts q H" by (rule reach_cache [OF assms(1,4) q])
  have opts: "options q = opts" using reach_pool_ok [OF reach] by blast
  have solid: "solid_pool q" using assms(2) opts ok(2) by (simp add: solid_pool_def)
  have chain: "pool_chain xxh3 q its us = pool_chain xxh3 p its us" using opts ok(2) by (simp add: pool_chain_def pool_hash_blocks_def)
  obtain cs r where r: "allocate_shared xxh3 us [] its [] q = Some (cs, r)"
      "map block_hash cs = takeWhile (\<lambda>k. k \<in> block_hash ` set (cache_nodes q)) (pool_chain xxh3 p its us)"
    using shared_prefix [OF conjunct1 [OF reach_pool_ok [OF reach]] solid assms(3), of xxh3 us] chain by metis
  have shared: "pool_reach xxh3 opts r (valid_ids cs @ H)" using reach_share [OF reach _ r(1)] by simp
  have "take k (pool_chain xxh3 p its us) = take k (pool_chain xxh3 p its ts)"
    using assms(8,9) chain_hash_cong [OF assms(10)] ok(2)
    by (intro nth_equalityI) (auto simp: pool_chain_def chain_hashes_def)
  then have "set (take k (pool_chain xxh3 p its us)) \<subseteq> block_hash ` set (cache_nodes q)"
    using cached_chain [OF ok(1) assms(2-4,6) q] set_take_subset by fastforce
  then have "takeWhile (\<lambda>k. k \<in> block_hash ` set (cache_nodes q)) (pool_chain xxh3 p its us)
      = take k (pool_chain xxh3 p its us) @ takeWhile (\<lambda>k. k \<in> block_hash ` set (cache_nodes q)) (drop k (pool_chain xxh3 p its us))"
    by (subst append_take_drop_id [of k, symmetric]) (rule takeWhile_append2, blast)
  then have "k \<le> length (map block_hash cs)" unfolding r(2) using assms(9) by (simp add: pool_chain_def chain_hashes_def)
  moreover have "map block_hash cs = take (length (map block_hash cs)) (pool_chain xxh3 p its us)"
    unfolding r(2) by (rule takeWhile_eq_take)
  ultimately show ?thesis using q r(1) shared by auto
qed

lemma cached_prefix_is_shared_witness:
  "\<exists>p bs' q cs r. cache_tokens byte_sum [1, 2, 3, 4] [\<lparr>block_id = 1, block_hash = 0\<rparr>, \<lparr>block_id = 2, block_hash = 0\<rparr>] 0 [] [] p = Some (bs', q)
     \<and> allocate_shared byte_sum [1, 2, 9, 9, 9] [] [] [] q = Some (cs, r) \<and> 1 \<le> length cs"
proof -
  let ?bs = "[\<lparr>block_id = 1, block_hash = 0\<rparr>, \<lparr>block_id = 2, block_hash = 0\<rparr>]"
  obtain p where p: "allocate 2 demo_pool = Some (?bs, p)" using demo_allocate by blast
  then have reach: "pool_reach byte_sum demo_options p [1, 2]" using reach_allocate [OF demo_reach p] by simp
  have opts: "options p = demo_options" using reach_pool_ok [OF reach] by blast
  have none: "cache_nodes p = []"
    using p by (simp add: demo_pool_def allocate_def has_enough_blocks_def eval_nat_numeral pop_block_def mark_used_def
        cache_nodes_def empty_prefix_cache_def split: if_splits) (auto simp: cache_nodes_def)
  have n: "pool_hash_blocks p [1, 2, 3, 4] = 2" "pool_hash_blocks p [1, 2, 9, 9, 9] = 2"
    using opts by (simp_all add: pool_hash_blocks_def demo_options_def num_hash_blocks_def block_hash_lookahead_def)
  have solid: "solid_pool p" using opts by (simp add: solid_pool_def demo_options_def)
  obtain bs' q cs r where "cache_tokens byte_sum [1, 2, 3, 4] ?bs 0 [] [] p = Some (bs', q)"
      "allocate_shared byte_sum [1, 2, 9, 9, 9] [] [] [] q = Some (cs, r)" "1 \<le> length cs"
    using cached_prefix_is_shared [OF reach solid, of "[]" ?bs "[1, 2, 3, 4]" 1 "[1, 2, 9, 9, 9]"] n none
    by (auto simp: demo_options_def block_hash_lookahead_def)
  then show ?thesis by blast
qed

text \<open>The gap-tolerant cache of a sliding-window pool reports every cached block at its own position and a
  placeholder elsewhere, and drops only the placeholders after the last hit.\<close>

theorem window_match_exact:
  assumes "pool_reach xxh3 opts p H" "window_pool p" "mm_sorted its"
  shows "\<exists>cs q. allocate_shared xxh3 ts existed its [] p = Some (cs, q)
     \<and> length cs \<le> length (pool_chain xxh3 p its ts) \<and> (cs = [] \<or> is_valid (last cs))
     \<and> (\<forall>j < length (pool_chain xxh3 p its ts). pool_chain xxh3 p its ts ! j \<in> block_hash ` set (cache_nodes p)
           \<longleftrightarrow> j < length cs \<and> is_valid (cs ! j))
     \<and> (\<forall>j < length cs. is_valid (cs ! j) \<longrightarrow> block_hash (cs ! j) = pool_chain xxh3 p its ts ! j)"
  using shared_window [OF conjunct1 [OF reach_pool_ok [OF assms(1)]] assms(2,3)] by blast

lemma window_match_exact_witness:
  "\<exists>p cs q. allocate_shared byte_sum [5, 6, 7] [] [] [] p = Some (cs, q) \<and> (\<forall>j < length cs. \<not> is_valid (cs ! j))"
proof -
  let ?o = "demo_options\<lparr>opt_block_type := BT_SWA\<rparr>"
  obtain p where p: "create_pool ?o = Some p" "cache_nodes p = []" "options p = ?o"
    using create_pool_ok [of ?o] by (auto simp: demo_options_def)
  have w: "window_pool p" using p(3) by (simp add: window_pool_def demo_options_def)
  obtain cs q where "allocate_shared byte_sum [5, 6, 7] [] [] [] p = Some (cs, q)" "\<forall>j < length cs. \<not> is_valid (cs ! j)"
    using window_match_exact [OF reach_create [OF p(1)] w, of "[]" byte_sum "[5, 6, 7]" "[]"] p(2) by fastforce
  then show ?thesis by blast
qed

text \<open>Giving back everything an allocation returned, in the order of the vector, never fails a check, and leaves
  the pool with the same clients, hence the same number of used blocks, as before the allocation.\<close>

theorem allocate_release_roundtrip:
  assumes "pool_reach xxh3 opts p H" "allocate n p = Some (bs, q)"
  shows "\<exists>r. release_all drop_alias bs q = Some r \<and> pool_ok r H \<and> num_used_blocks r = num_used_blocks p"
proof -
  have ok: "pool_ok p H" using reach_pool_ok [OF assms(1)] by blast
  obtain r where "release_all drop_alias bs q = Some r" "pool_ok r H"
    using block_pool.acquire_release [OF ok assms(2)] by blast
  then show ?thesis using used_exact [OF ok] used_exact by auto
qed

lemma allocate_release_roundtrip_witness:
  "\<exists>bs q r. allocate 3 demo_pool = Some (bs, q) \<and> release_all drop_alias bs q = Some r \<and> num_used_blocks r = num_used_blocks demo_pool"
proof -
  obtain bs q where "allocate 3 demo_pool = Some (bs, q)" using allocate_ok [OF demo_pool_ok, of 3] by blast
  with allocate_release_roundtrip [OF demo_reach this] show ?thesis by blast
qed

lemma reach_sizes: "pool_reach xxh3 opts p H \<Longrightarrow> 0 < opt_num_blocks opts \<and> 0 < opt_block_size opts"
  by (induction rule: pool_reach.induct) (auto simp: create_pool_def split: if_splits)

lemma ceil_blocks:
  fixes t s :: nat
  assumes "0 < s"
  shows "t \<le> (t + s - 1) div s * s" "k < (t + s - 1) div s \<Longrightarrow> k * s < t"
proof -
  have m: "(t + s - 1) div s * s + (t + s - 1) mod s = t + s - 1" by simp
  moreover have "(t + s - 1) mod s < s" using assms by simp
  ultimately show "t \<le> (t + s - 1) div s * s" using assms by linarith
  show "k * s < t" if "k < (t + s - 1) div s"
  proof -
    have "(k + 1) * s \<le> (t + s - 1) div s * s" using that by (intro mult_le_mono1) simp
    then have "k * s + s \<le> t + s - 1" using m by (simp only: add_mult_distrib mult_1)
    then show ?thesis using assms by linarith
  qed
qed

text \<open>The blocks given to a sequence are enough for its tokens and no more: with them it holds the least number
  of blocks that cover the tokens (or what it held already), and the request is refused, nothing being handed
  out, exactly when the pool cannot supply the difference.\<close>

theorem sequence_blocks_exact:
  assumes "pool_reach xxh3 opts p H"
  shows "\<exists>res q. allocate_for_sequence held tokens p = Some (res, q) \<and> (case res of
      Some bs \<Rightarrow> tokens \<le> (held + length bs) * opt_block_size opts
        \<and> (\<forall>k < held + length bs. held \<le> k \<longrightarrow> k * opt_block_size opts < tokens)
        \<and> pool_ok q (map block_id bs @ H)
    | None \<Rightarrow> (num_free_blocks p + num_evictable_blocks p + held) * opt_block_size opts < tokens \<and> pool_ok q H)"
proof -
  have ok: "pool_ok p H" "options p = opts" using reach_pool_ok [OF assms] by auto
  let ?s = "opt_block_size opts" and ?c = "num_free_blocks p + num_evictable_blocks p"
  define needed where "needed = (tokens + ?s - 1) div ?s"
  have s: "0 < ?s" using reach_sizes [OF assms] by blast
  have ceil: "tokens \<le> needed * ?s" "k < needed \<Longrightarrow> k * ?s < tokens" for k
    unfolding needed_def by (rule ceil_blocks [OF s])+
  show ?thesis
  proof (cases "needed \<le> held")
    case True
    then have "tokens \<le> held * ?s" using ceil(1) by (meson mult_le_mono1 order_trans)
    then show ?thesis using True s ok by (simp add: allocate_for_sequence_def Let_def needed_def)
  next
    case False
    obtain bs q where bq: "allocate (needed - held) p = Some (bs, q)" "pool_ok q (map block_id bs @ H)"
        "length bs = (if needed - held \<le> ?c then needed - held else 0)"
      using allocate_ok [OF ok(1), of "needed - held"] by blast
    have run: "allocate_for_sequence held tokens p = Some (if length bs = needed - held then Some bs else None, q)"
      unfolding allocate_for_sequence_def Let_def ok(2) needed_def [symmetric] using False s bq(1) by simp
    show ?thesis
    proof (cases "needed - held \<le> ?c")
      case True
      then have "held + length bs = needed" using bq(3) False by simp
      then show ?thesis unfolding run using bq(2) ceil True bq(3) by auto
    next
      case c: False
      then have "?c + held < needed" by linarith
      then have "(?c + held) * ?s < tokens" by (rule ceil(2))
      then show ?thesis unfolding run using bq(2,3) c False by simp
    qed
  qed
qed

lemma sequence_blocks_exact_witness:
  "\<exists>bs q. allocate_for_sequence 1 5 demo_pool = Some (Some bs, q) \<and> length bs = 2"
proof -
  obtain res q where r: "allocate_for_sequence 1 5 demo_pool = Some (res, q)" "case res of
      Some bs \<Rightarrow> 5 \<le> (1 + length bs) * 2 \<and> (\<forall>k < 1 + length bs. 1 \<le> k \<longrightarrow> k * 2 < (5 :: nat))
    | None \<Rightarrow> (num_free_blocks demo_pool + num_evictable_blocks demo_pool + 1) * 2 < 5"
    using sequence_blocks_exact [OF demo_reach, of 1 5] by (auto simp: demo_options_def split: option.splits)
  then obtain bs where bs: "res = Some bs" "5 \<le> (1 + length bs) * 2" "\<forall>k < 1 + length bs. 1 \<le> k \<longrightarrow> k * 2 < (5 :: nat)"
    by (auto split: option.splits)
  have "length bs * 2 < 5" if "1 \<le> length bs" using bs(3) that by simp
  then have "length bs = 2" using bs(2) by (cases "1 \<le> length bs") auto
  then show ?thesis using r(1) bs(1) by blast
qed

end
