(* ===== verification/Partial_Json.thy ===== *)
theory Partial_Json imports Json_Language begin

text \<open>
  The completion of truncated JSON of \<open>function_call/partial_json_parser/src/parser.cpp\<close>, which the tool-call
  detectors run on the text that a model has produced so far.  A \<open>MalformedJSONException\<close> is \<open>Inl\<close> of its
  message; \<open>JsonCompletion\<close> is the pair of the number of bytes kept and the text that closes them.  Lengths
  are natural numbers (the code casts them to \<open>int32_t\<close>).
\<close>

unbundle bit_operations_syntax

section \<open>Options\<close>

type_synonym type_options = u32

definition opt_STR :: type_options where "opt_STR = 1"
definition opt_NUM :: type_options where "opt_NUM = 2"
definition opt_ARR :: type_options where "opt_ARR = 4"
definition opt_OBJ :: type_options where "opt_OBJ = 8"
definition opt_NULL :: type_options where "opt_NULL = 16"
definition opt_BOOL :: type_options where "opt_BOOL = 32"
definition opt_NAN :: type_options where "opt_NAN = 64"
definition opt_INFINITY :: type_options where "opt_INFINITY = 128"
definition opt_NEG_INFINITY :: type_options where "opt_NEG_INFINITY = 256"
definition opt_ALL :: type_options where "opt_ALL = 511"

text \<open>The test \<open>(flag | allowed) == allowed\<close>.\<close>

definition allows :: "type_options \<Rightarrow> type_options \<Rightarrow> bool" where
  "allows flag allowed \<longleftrightarrow> (flag OR allowed) = allowed"

lemmas option_defs = opt_STR_def opt_NUM_def opt_ARR_def opt_OBJ_def opt_NULL_def opt_BOOL_def opt_NAN_def
  opt_INFINITY_def opt_NEG_INFINITY_def opt_ALL_def

section \<open>Scanning\<close>

type_synonym completion = "nat \<times> string"

text \<open>\<open>std::isspace\<close> in the C locale.\<close>

definition is_space :: "char \<Rightarrow> bool" where
  "is_space c \<longleftrightarrow> c = CHR '' '' \<or> (9 \<le> (of_char c :: nat) \<and> (of_char c :: nat) \<le> 13)"

definition skip_blank :: "string \<Rightarrow> nat \<Rightarrow> nat" where
  "skip_blank s i = i + length (takeWhile is_space (drop i s))"

lemma skip_blank_ge [simp]: "i \<le> skip_blank s i"
  by (simp add: skip_blank_def)

text \<open>The last occurrence of a two-character pattern (\<open>rfind\<close>).\<close>

fun rfind_pair :: "char \<Rightarrow> char \<Rightarrow> string \<Rightarrow> nat option" where
  "rfind_pair c d (x # y # zs) = (case rfind_pair c d (y # zs) of
     Some i \<Rightarrow> Some (i + 1)
   | None \<Rightarrow> if x = c \<and> y = d then Some 0 else None)"
| "rfind_pair c d _ = None"

text \<open>The loop of \<open>complete_string\<close> behind the opening quote: the number of characters before the closing quote
  or the end, and whether the last one left an escape open.\<close>

fun scan_string :: "string \<Rightarrow> bool \<Rightarrow> nat \<times> bool" where
  "scan_string [] esc = (0, esc)"
| "scan_string (c # cs) esc =
     (if c = CHR 0x22 \<and> \<not> esc then (0, esc)
      else let (n, e) = scan_string cs (c = CHR 0x5C \<and> \<not> esc) in (n + 1, e))"

definition complete_string :: "string \<Rightarrow> type_options \<Rightarrow> string + completion" where
  "complete_string s allowed =
    (if s = [] \<or> hd s \<noteq> CHR 0x22 then Inl ''string must start with quote''
     else let (n, esc) = scan_string (tl s) False; index = n + 1 in
       if index < length s then Inr (index + 1, [])
       else if \<not> allows opt_STR allowed then Inl ''cannot complete malformed json''
       else case rfind_pair CHR 0x5C CHR ''u'' s of
         Some u \<Rightarrow> Inr (if u + 6 = length s then u + 6 else u + 2, [CHR 0x22])
       | None \<Rightarrow>
         (case rfind_pair CHR 0x5C CHR ''U'' s of
            Some u \<Rightarrow> Inr (if u + 10 = length s then u + 10 else u + 2, [CHR 0x22])
          | None \<Rightarrow>
            (case rfind_pair CHR 0x5C CHR ''x'' s of
               Some u \<Rightarrow> Inr (if u + 4 = length s then u + 4 else u + 2, [CHR 0x22])
             | None \<Rightarrow> Inr (if esc then index - 1 else index, [CHR 0x22]))))"

definition is_number_special :: "char \<Rightarrow> bool" where
  "is_number_special c \<longleftrightarrow> c = CHR ''.'' \<or> c = CHR ''-'' \<or> c = CHR ''+'' \<or> c = CHR ''e'' \<or> c = CHR ''E''"

text \<open>The second loop of \<open>complete_number\<close> steps back over characters that cannot end a number; \<open>None\<close> is the
  exception at position 0.\<close>

fun strip_special :: "string \<Rightarrow> nat \<Rightarrow> nat option" where
  "strip_special s 0 = None"
| "strip_special s (Suc i) = (if is_number_special (s ! i) then strip_special s i else Some (Suc i))"

definition complete_number :: "string \<Rightarrow> type_options \<Rightarrow> bool \<Rightarrow> string + completion" where
  "complete_number s allowed top_level =
    (let i = 1 + length (takeWhile (\<lambda>c. is_digit c \<or> is_number_special c) (tl s)) in
     case strip_special s i of
       None \<Rightarrow> Inl ''string index out of range''
     | Some k \<Rightarrow>
         if k \<noteq> i \<or> (k = length s \<and> \<not> top_level)
         then (if allows opt_NUM allowed then Inr (k, []) else Inl ''cannot parse number with given options'')
         else Inr (k, []))"

text \<open>One literal of \<open>complete_any\<close>: the whole word is taken, a proper prefix that ends the text is completed if
  the options allow it.\<close>

definition literal_case :: "string \<Rightarrow> type_options \<Rightarrow> string \<Rightarrow> string \<Rightarrow> type_options \<Rightarrow> (string + completion) option" where
  "literal_case w flag what s allowed =
    (if take (min (length w) (length s)) s = w then Some (Inr (length w, []))
     else if length s < length w \<and> take (length s) w = s
     then Some (if allows flag allowed then Inr (0, w) else Inl (''cannot parse '' @ what @ '' with given options''))
     else None)"

definition complete_literal :: "string \<Rightarrow> type_options \<Rightarrow> string + completion" where
  "complete_literal s allowed =
    (case literal_case ''null'' opt_NULL ''null'' s allowed of Some r \<Rightarrow> r | None \<Rightarrow>
     case literal_case ''true'' opt_BOOL ''bool'' s allowed of Some r \<Rightarrow> r | None \<Rightarrow>
     case literal_case ''false'' opt_BOOL ''bool'' s allowed of Some r \<Rightarrow> r | None \<Rightarrow>
     case literal_case ''Infinity'' opt_INFINITY ''Infinity'' s allowed of Some r \<Rightarrow> r | None \<Rightarrow>
     case literal_case ''-Infinity'' opt_NEG_INFINITY ''-Infinity'' s allowed of Some r \<Rightarrow> r | None \<Rightarrow>
     case literal_case ''NaN'' opt_NAN ''NaN'' s allowed of Some r \<Rightarrow> r | None \<Rightarrow>
     Inl (''MalformedJSON(unexpected char '' @ [hd s] @ '')''))"

section \<open>Containers\<close>

definition close_array :: "nat \<Rightarrow> type_options \<Rightarrow> string + completion" where
  "close_array i allowed =
    (if allows opt_ARR allowed then Inr (i, '']'') else Inl ''cannot parse array with given options'')"

definition close_object :: "nat \<Rightarrow> type_options \<Rightarrow> string + completion" where
  "close_object i allowed =
    (if allows opt_OBJ allowed then Inr (i, ''}'') else Inl ''cannot parse object with given options'')"

text \<open>The \<open>catch\<close> block of \<open>complete_object\<close>, with the position \<open>j\<close> at which the exception was raised.\<close>

definition object_catch :: "string \<Rightarrow> nat \<Rightarrow> nat \<Rightarrow> type_options \<Rightarrow> string \<Rightarrow> string + completion" where
  "object_catch s i j allowed e =
    (if j < length s \<and> s ! j \<noteq> CHR 0x22 \<and> s ! j \<noteq> CHR ''}'' then Inl e else close_object i allowed)"

lemma le_skip_blank: "j \<le> i \<Longrightarrow> j \<le> skip_blank s i" "j \<le> i \<Longrightarrow> j \<le> skip_blank s (i + a)" "j \<le> i \<Longrightarrow> j \<le> skip_blank s (Suc i)"
  by (simp_all add: skip_blank_def)

lemma open_decreases: "s \<noteq> [] \<Longrightarrow> Suc (2 * (length s - Suc 0)) < 2 * length s"
  by (cases s) simp_all

lemma value_decreases: "j0 \<le> k \<Longrightarrow> 2 * (length s - k) < Suc (2 * (length s - j0))"
  by simp

lemma round_decreases: "j0 \<le> k \<Longrightarrow> \<not> length s \<le> j0 \<Longrightarrow> length s - Suc k < length s - j0"
  by simp

text \<open>\<open>complete_any\<close>, and the loops of \<open>complete_array\<close> and \<open>complete_object\<close> at position \<open>j\<close>, where \<open>i\<close> is the last
  position at which the container can be closed.\<close>

function complete_any :: "string \<Rightarrow> type_options \<Rightarrow> bool \<Rightarrow> string + completion"
  and array_loop :: "string \<Rightarrow> type_options \<Rightarrow> nat \<Rightarrow> nat \<Rightarrow> string + completion"
  and object_loop :: "string \<Rightarrow> type_options \<Rightarrow> nat \<Rightarrow> nat \<Rightarrow> string + completion" where
  "complete_any s allowed top_level =
    (if s = [] then Inl ''empty string''
     else if hd s = CHR 0x22 then complete_string s allowed
     else if hd s = CHR ''['' then array_loop s allowed 1 1
     else if hd s = CHR ''{'' then object_loop s allowed 1 1
     else if hd s = CHR ''-'' \<and> length s = 1 then Inl (''cannot parse singular '' @ [CHR 0x27, CHR ''-'', CHR 0x27])
     else if hd s = CHR ''-'' \<and> s ! 1 \<noteq> CHR ''I'' then complete_number s allowed top_level
     else if is_digit (hd s) then complete_number s allowed top_level
     else complete_literal s allowed)"
| "array_loop s allowed i j0 =
    (let j = skip_blank s j0 in
     if length s \<le> j0 \<or> length s \<le> j then close_array i allowed
     else if s ! j = CHR '']'' then Inr (j + 1, [])
     else case complete_any (drop j s) allowed False of
         Inl e \<Rightarrow> close_array i allowed
       | Inr (index, str) \<Rightarrow>
           if str \<noteq> []
           then (if allows opt_ARR allowed then Inr (j + index, str @ '']'') else Inl ''cannot parse array with given options'')
           else let k = skip_blank s (j + index) in
             if length s \<le> k then close_array (j + index) allowed
             else if s ! k = CHR '','' then array_loop s allowed (j + index) (k + 1)
             else if s ! k = CHR '']'' then Inr (k + 1, [])
             else close_array (j + index) allowed)"
| "object_loop s allowed i j0 =
    (let j = skip_blank s j0 in
     if length s \<le> j0 \<or> length s \<le> j then close_object i allowed
     else if s ! j = CHR ''}'' then Inr (j + 1, [])
     else case complete_string (drop j s) allowed of
         Inl e \<Rightarrow> object_catch s i j allowed e
       | Inr (index, str) \<Rightarrow>
           if str \<noteq> [] then close_object i allowed
           else let c = skip_blank s (j + index) in
             if length s \<le> c then close_object i allowed
             else if s ! c \<noteq> CHR '':'' then object_catch s i c allowed (''MalformedJSON( expected \":\" got '' @ [s ! c] @ '')'')
             else let v = skip_blank s (c + 1) in
               if length s \<le> v then close_object i allowed
               else case complete_any (drop v s) allowed False of
                   Inl e \<Rightarrow> object_catch s i v allowed e
                 | Inr (index', str') \<Rightarrow>
                     if str' \<noteq> []
                     then (if allows opt_OBJ allowed then Inr (v + index', str' @ ''}'')
                           else object_catch s i v allowed ''cannot parse object with given options'')
                     else let k = skip_blank s (v + index') in
                       if length s \<le> k then close_object (v + index') allowed
                       else if s ! k = CHR '','' then object_loop s allowed (v + index') (k + 1)
                       else if s ! k = CHR ''}'' then Inr (k + 1, [])
                       else object_catch s (v + index') k allowed (''MalformedJSON(expected \",\" or \"}\" got '' @ [s ! k] @ '')''))"
  by pat_completeness auto

text \<open>A call on a suffix is on a shorter text, and every round of a loop starts behind a comma.\<close>

termination
  by (relation "measure (case_sum (\<lambda>(s, _). 2 * length s + 1)
      (case_sum (\<lambda>(s, _, _, j). 2 * (length s - j) + 2) (\<lambda>(s, _, _, j). 2 * (length s - j) + 2)))")
     (auto intro!: open_decreases value_decreases round_decreases le_skip_blank)

declare complete_any.simps [simp del] array_loop.simps [simp del] object_loop.simps [simp del]

section \<open>Entry points\<close>

definition parse_json :: "string \<Rightarrow> type_options \<Rightarrow> string + string" where
  "parse_json s allowed =
    (let value = drop (skip_blank s 0) s in
     case complete_any value allowed True of
       Inl e \<Rightarrow> Inl e
     | Inr (index, str) \<Rightarrow>
         if index = 0 \<and> str = [] then Inl ''no valid JSON content found'' else Inr (take index value @ str))"

definition trim :: "string \<Rightarrow> string" where
  "trim s = rev (dropWhile is_space (rev (dropWhile is_space s)))"

text \<open>The formatter (\<open>format_json\<close>, which calls the JSON library) is a parameter.\<close>

definition parse_malformed_string :: "(string \<Rightarrow> string) \<Rightarrow> string \<Rightarrow> type_options \<Rightarrow> bool \<Rightarrow> string + string" where
  "parse_malformed_string format_json malformed allowed format =
    (if trim malformed = [] then Inl ''string is empty; cannot parse''
     else case parse_json malformed allowed of
       Inl e \<Rightarrow> Inl e
     | Inr r \<Rightarrow> Inr (if format then format_json r else r))"

section \<open>A completion keeps a prefix and appends closing text\<close>

definition completed_words :: "string set" where
  "completed_words = {[], [CHR 0x22], ''null'', ''true'', ''false'', ''Infinity'', ''-Infinity'', ''NaN''}"

definition closing_text :: "string \<Rightarrow> bool" where
  "closing_text t \<longleftrightarrow> (\<exists>w bs. t = w @ bs \<and> w \<in> completed_words \<and> set bs \<subseteq> {CHR '']'', CHR ''}''})"

lemma closing_text_word: "w \<in> completed_words \<Longrightarrow> closing_text w"
  unfolding closing_text_def by (intro exI [of _ w] exI [of _ "[]"]) simp

lemma closing_text_close: "closing_text t \<Longrightarrow> b \<in> {CHR '']'', CHR ''}''} \<Longrightarrow> closing_text (t @ [b])"
proof -
  assume "closing_text t" and b: "b \<in> {CHR '']'', CHR ''}''}"
  then obtain w bs where "t = w @ bs" "set bs \<subseteq> {CHR '']'', CHR ''}''}" "w \<in> completed_words"
    by (auto simp: closing_text_def)
  then show ?thesis unfolding closing_text_def using b by (intro exI [of _ w] exI [of _ "bs @ [b]"]) simp
qed

lemma closing_text_base [simp]: "closing_text []" "closing_text [CHR 0x22]" "closing_text '']''" "closing_text ''}''"
  using closing_text_word [of "[]"] closing_text_word [of "[CHR 0x22]"] closing_text_close [of "[]"]
  by (simp_all add: completed_words_def)

lemma rfind_pair_bound: "rfind_pair c d s = Some u \<Longrightarrow> u + 2 \<le> length s"
proof (induction c d s arbitrary: u rule: rfind_pair.induct)
  case (1 c d x y zs)
  show ?case
  proof (cases "rfind_pair c d (y # zs)")
    case None
    then show ?thesis using 1(2) by (simp split: if_splits)
  next
    case (Some i)
    then show ?thesis using 1(1) [OF Some] 1(2) by simp
  qed
qed simp_all

lemma scan_string_bound: "scan_string s esc = (n, e) \<Longrightarrow> n \<le> length s"
proof (induction s esc arbitrary: n e rule: scan_string.induct)
  case (2 c cs esc)
  then show ?case by (cases "scan_string cs (c = CHR 0x5C \<and> \<not> esc)") (auto split: if_splits)
qed simp

lemma complete_string_result:
  assumes "complete_string s allowed = Inr (k, t)"
  shows "k \<le> length s \<and> closing_text t \<and> s \<noteq> []"
proof -
  obtain n esc where n: "scan_string (tl s) False = (n, esc)" by fastforce
  have s: "s \<noteq> []" using assms by (auto simp: complete_string_def)
  then have bound: "n + 1 \<le> length s" using scan_string_bound [OF n] by (cases s) simp_all
  show ?thesis using assms n bound s
    by (auto simp: complete_string_def Let_def dest!: rfind_pair_bound split: if_splits option.splits)
qed

lemma strip_special_bound: "strip_special s i = Some k \<Longrightarrow> 0 < k \<and> k \<le> i"
  by (induction s i rule: strip_special.induct) (auto split: if_splits)

lemma complete_number_result:
  assumes "complete_number s allowed top_level = Inr (k, t)" "s \<noteq> []"
  shows "k \<le> length s \<and> t = []"
proof -
  define i where "i = 1 + length (takeWhile (\<lambda>c. is_digit c \<or> is_number_special c) (tl s))"
  have i: "i \<le> length s"
    using length_takeWhile_le [of "\<lambda>c. is_digit c \<or> is_number_special c" "tl s"] assms(2) by (cases s) (auto simp: i_def)
  obtain k' where k': "strip_special s i = Some k'" "k = k'" "t = []"
    using assms(1) unfolding complete_number_def Let_def i_def [symmetric] by (auto split: option.splits if_splits)
  then show ?thesis using strip_special_bound [OF k'(1)] i by simp
qed

lemma literal_case_result:
  assumes "literal_case w flag what s allowed = Some (Inr (k, t))" "w \<in> completed_words"
  shows "k \<le> length s \<and> closing_text t"
proof (cases "take (min (length w) (length s)) s = w")
  case True
  then have "length w = min (length w) (length s)" by (metis length_take min.assoc min.idem)
  then show ?thesis using assms(1) True by (simp add: literal_case_def)
next
  case False
  then have "k = 0" "t = w" using assms(1) unfolding literal_case_def if_not_P [OF False] by (simp_all split: if_splits)
  then show ?thesis using closing_text_word [OF assms(2)] by simp
qed

lemma literal_cases_result:
  assumes "(case literal_case w flag what s allowed of Some r \<Rightarrow> r | None \<Rightarrow> rest) = Inr (k, t)" "w \<in> completed_words"
    and "rest = Inr (k, t) \<Longrightarrow> k \<le> length s \<and> closing_text t"
  shows "k \<le> length s \<and> closing_text t"
  using assms literal_case_result by (auto split: option.splits)

lemma complete_literal_result:
  assumes "complete_literal s allowed = Inr (k, t)"
  shows "k \<le> length s \<and> closing_text t"
  using assms unfolding complete_literal_def
  by (elim literal_cases_result) (simp_all add: completed_words_def)

lemma close_result:
  "close_array i allowed = Inr (k, t) \<Longrightarrow> k = i \<and> closing_text t"
  "close_object i allowed = Inr (k, t) \<Longrightarrow> k = i \<and> closing_text t"
  "object_catch s i j allowed e = Inr (k, t) \<Longrightarrow> k = i \<and> closing_text t"
  by (auto simp: close_array_def close_object_def object_catch_def split: if_splits)

text \<open>A result keeps at most what is there and appends closing text.\<close>

definition closes :: "nat \<Rightarrow> string + completion \<Rightarrow> bool" where
  "closes n r \<longleftrightarrow> (case r of Inl _ \<Rightarrow> True | Inr (k, t) \<Rightarrow> k \<le> n \<and> closing_text t)"

lemma closes_simps [simp]: "closes n (Inl e)" "closes n (Inr (k, t)) \<longleftrightarrow> k \<le> n \<and> closing_text t"
  by (simp_all add: closes_def)

lemma closes_base:
  "closes (length s) (complete_string s a)" "closes (length s) (complete_literal s a)"
  "s \<noteq> [] \<Longrightarrow> closes (length s) (complete_number s a lvl)"
  "i \<le> n \<Longrightarrow> closes n (close_array i a)" "i \<le> n \<Longrightarrow> closes n (close_object i a)"
  "i \<le> n \<Longrightarrow> closes n (object_catch s i j a e)"
proof -
  show "closes (length s) (complete_string s a)"
    using complete_string_result [of s a] by (auto simp: closes_def split: sum.split)
  show "closes (length s) (complete_literal s a)"
    using complete_literal_result [of s a] by (auto simp: closes_def split: sum.split)
  show "closes (length s) (complete_number s a lvl)" if "s \<noteq> []"
    using complete_number_result [of s a lvl] that by (auto simp: closes_def split: sum.split)
qed (simp_all add: close_array_def close_object_def object_catch_def)

lemma closes_drop: "closes (length (drop j s)) (Inr (k, t)) \<Longrightarrow> j \<le> length s \<Longrightarrow> j + k \<le> length s \<and> closing_text t"
  by auto

lemma completion_closes:
  "closes (length s) (complete_any s a lvl)"
  "i \<le> length s1 \<Longrightarrow> closes (length s1) (array_loop s1 a1 i j0)"
  "i2 \<le> length s2 \<Longrightarrow> closes (length s2) (object_loop s2 a2 i2 j2)"
proof (induction s a lvl and s1 a1 i j0 and s2 a2 i2 j2 rule: complete_any_array_loop_object_loop.induct)
  case (1 s a lvl)
  show ?case
  proof (cases "s = []")
    case True
    then show ?thesis by (simp add: complete_any.simps)
  next
    case False
    then have len: "1 \<le> length s" by (cases s) simp_all
    have arr: "closes (length s) (array_loop s a 1 1)" if "hd s \<noteq> CHR 0x22" "hd s = CHR ''[''" using 1(1) [OF False that len] .
    have obj: "closes (length s) (object_loop s a 1 1)" if "hd s \<noteq> CHR 0x22" "hd s \<noteq> CHR ''[''" "hd s = CHR ''{''"
      using 1(2) [OF False that len] .
    show ?thesis unfolding complete_any.simps [of s a lvl] using arr obj closes_base(3) [OF False]
      by (simp only: closes_simps closes_base(1,2) simp_thms split: if_split) blast
  qed
next
  case (2 s a i j0)
  define j where "j = skip_blank s j0"
  show ?case
  proof (cases "length s \<le> j0 \<or> length s \<le> j \<or> s ! j = CHR '']''")
    case True
    then show ?thesis using 2(3) by (subst array_loop.simps) (auto simp: j_def [symmetric] closes_base)
  next
    case j: False
    then have sub: "closes (length (drop j s)) (complete_any (drop j s) a False)" using 2(1) by (simp add: j_def)
    show ?thesis
    proof (cases "complete_any (drop j s) a False")
      case (Inl e)
      then show ?thesis using j 2(3) by (subst array_loop.simps) (auto simp: j_def [symmetric] closes_base)
    next
      case (Inr r)
      obtain k t where r: "r = (k, t)" by fastforce
      have kt: "j + k \<le> length s \<and> closing_text t" using sub j unfolding Inr r by (intro closes_drop) auto
      have rest: "closes (length s) (array_loop s a (j + k) (skip_blank s (j + k) + 1))"
        if "t = []" "\<not> length s \<le> skip_blank s (j + k)" "s ! skip_blank s (j + k) = CHR '',''"
        using 2(2) [OF j_def _ _ Inr, of k t] that j kt r by auto
      show ?thesis using j kt rest unfolding array_loop.simps [of s a i j0] Let_def j_def [symmetric] Inr r
        by (auto simp: closes_base closing_text_close)
    qed
  qed
next
  case (3 s a i j0)
  define j where "j = skip_blank s j0"
  show ?case
  proof (cases "length s \<le> j0 \<or> length s \<le> j \<or> s ! j = CHR ''}''")
    case True
    then show ?thesis using 3(3) by (subst object_loop.simps) (auto simp: j_def [symmetric] closes_base)
  next
    case j: False
    show ?thesis
    proof (cases "complete_string (drop j s) a")
      case (Inl e)
      then show ?thesis using j 3(3) by (subst object_loop.simps) (auto simp: j_def [symmetric] closes_base)
    next
      case (Inr r)
      obtain kk q where r: "r = (kk, q)" by fastforce
      define c where "c = skip_blank s (j + kk)"
      define v where "v = skip_blank s (c + 1)"
      show ?thesis
      proof (cases "q \<noteq> [] \<or> length s \<le> c \<or> s ! c \<noteq> CHR '':'' \<or> length s \<le> v")
        case True
        then show ?thesis using j 3(3) unfolding object_loop.simps [of s a i j0] Let_def j_def [symmetric] Inr r sum.case prod.case c_def [symmetric] v_def [symmetric]
          by (auto simp: closes_base)
      next
        case v: False
        have sub: "closes (length (drop v s)) (complete_any (drop v s) a False)"
          by (rule 3(1) [OF j_def _ _ Inr _ _ c_def _ _ v_def]) (use j v r in auto)
        show ?thesis
        proof (cases "complete_any (drop v s) a False")
          case e: (Inl e)
          then show ?thesis using j v 3(3) unfolding object_loop.simps [of s a i j0] Let_def j_def [symmetric] Inr r sum.case prod.case c_def [symmetric] v_def [symmetric]
            by (auto simp: closes_base)
        next
          case vr: (Inr r')
          obtain k t where r': "r' = (k, t)" by fastforce
          have kt: "v + k \<le> length s \<and> closing_text t" using sub v unfolding vr r' by (intro closes_drop) auto
          have rest: "closes (length s) (object_loop s a (v + k) (skip_blank s (v + k) + 1))"
            if "t = []" "\<not> length s \<le> skip_blank s (v + k)" "s ! skip_blank s (v + k) = CHR '',''"
            by (rule 3(2) [OF j_def _ _ Inr _ _ c_def _ _ v_def _ vr]) (use j v r r' that kt in auto)
          show ?thesis using j v kt rest 3(3) unfolding object_loop.simps [of s a i j0] Let_def j_def [symmetric] Inr r sum.case prod.case c_def [symmetric] v_def [symmetric]
            by (auto simp: closes_base closing_text_close vr r')
        qed
      qed
    qed
  qed
qed

section \<open>Complete texts\<close>

lemma ws_space: "is_json_whitespace c \<Longrightarrow> is_space c"
  by (auto simp: is_json_whitespace_def is_space_def)

lemma space_plain [simp]:
  "\<not> is_space CHR ''{''" "\<not> is_space CHR ''}''" "\<not> is_space CHR ''[''" "\<not> is_space CHR '']''" "\<not> is_space CHR '',''"
  "\<not> is_space CHR '':''" "\<not> is_space CHR 0x22" "\<not> is_space CHR ''t''" "\<not> is_space CHR ''f''" "\<not> is_space CHR ''n''" "\<not> is_space CHR ''-''"
  by (simp_all add: is_space_def)

lemma digit_not_space: "is_digit c \<Longrightarrow> \<not> is_space c"
  by (auto simp: is_digit_def is_space_def less_eq_char_def)

text \<open>Skipping the blanks in front of a visible character.\<close>

lemma skip_at:
  assumes "drop j s = w @ c # r" "ws w" "\<not> is_space c"
  shows "skip_blank s j = j + length w" "j + length w < length s" "s ! (j + length w) = c"
    "drop (j + length w) s = c # r"
proof -
  have "takeWhile is_space (w @ c # r) = w"
    using assms(2,3) ws_space by (simp add: takeWhile_append2 ws_def list_all_iff)
  then show "skip_blank s j = j + length w" using assms(1) by (simp add: skip_blank_def)
  show d: "drop (j + length w) s = c # r" using assms(1) by (metis add.commute append_eq_conv_conj drop_drop)
  show lt: "j + length w < length s" using d by (metis drop_all leI list.distinct(1))
  show "s ! (j + length w) = c" using d lt by (metis Cons_nth_drop_Suc list.inject)
qed

lemma hex_plain: "is_hex_digit c \<Longrightarrow> c \<noteq> CHR 0x22 \<and> c \<noteq> CHR 0x5C"
  by (auto simp: is_hex_digit_def less_eq_char_def)

lemma scan_string_body: "string_body b \<Longrightarrow> scan_string (b @ CHR 0x22 # r) False = (length b, False)"
proof (induction rule: string_body.induct)
  case (body_escape e b)
  then show ?case by (cases "e = CHR 0x22") simp_all
next
  case (body_unicode h1 h2 h3 h4 b)
  then show ?case using hex_plain by simp
qed simp_all

lemma complete_string_whole: "jstring k \<Longrightarrow> complete_string (k @ r) a = Inr (length k, [])"
  by (auto simp: jstring_def complete_string_def scan_string_body Let_def)

lemma digit_not_special: "is_digit c \<Longrightarrow> \<not> is_number_special c"
  by (auto simp: is_digit_def is_number_special_def less_eq_char_def)

definition is_number_char :: "char \<Rightarrow> bool" where
  "is_number_char c \<longleftrightarrow> is_digit c \<or> is_number_special c"

lemma digits_chars: "list_all is_digit d \<Longrightarrow> list_all is_number_char d"
  by (induction d) (auto simp: is_number_char_def)

lemma digits_last: "digits1 d \<Longrightarrow> is_digit (last d)"
  by (auto simp: digits1_def list_all_iff)

lemma special_chars [simp]: "is_number_char CHR ''.''" "is_number_char CHR ''-''" "is_number_char CHR ''+''"
  "is_number_char CHR ''e''" "is_number_char CHR ''E''"
  by (simp_all add: is_number_char_def is_number_special_def)

lemma jnumber_shape:
  assumes "jnumber v"
  shows "v \<noteq> [] \<and> list_all is_number_char v \<and> is_digit (last v)
    \<and> (is_digit (hd v) \<or> (hd v = CHR ''-'' \<and> 1 < length v \<and> is_digit (v ! 1)))"
proof -
  obtain m i f x where v: "v = m @ i @ f @ x" "m \<in> {[], ''-''}" "int_part i" "frac_part f" "exp_part x"
    using assms by (auto simp: jnumber_def)
  have i: "digits1 i" using v(3) digit19_digit by (auto simp: int_part_def digits1_def is_digit_def)
  have f: "f = [] \<or> is_digit (last f)" "list_all is_number_char f"
    using v(4) digits_last digits_chars by (auto simp: frac_part_def digits1_def)
  have x: "x = [] \<or> is_digit (last x)" "list_all is_number_char x"
    using v(5) digits_last digits_chars by (auto simp: exp_part_def digits1_def)
  have "list_all is_number_char v" using v i f x digits_chars by (auto simp: digits1_def)
  moreover have "is_digit (last v)" using v(1) i f(1) x(1) digits_last [OF i] by (auto simp: digits1_def last_append)
  moreover have "is_digit (hd i)" "i \<noteq> []" using i by (cases i; simp add: digits1_def)+
  ultimately show ?thesis using v(1,2) by (cases i) auto
qed

lemma complete_number_whole:
  assumes "jnumber v" "r = [] \<or> \<not> is_number_char (hd r)" "r \<noteq> [] \<or> lvl \<or> allows opt_NUM a"
  shows "complete_number (v @ r) a lvl = Inr (length v, [])"
proof -
  obtain c cs where v: "v = c # cs" using jnumber_shape [OF assms(1)] by (cases v) auto
  have "takeWhile is_number_char (cs @ r) = cs"
    using jnumber_shape [OF assms(1)] assms(2) unfolding v by (subst takeWhile_append2) (auto simp: list_all_iff takeWhile_eq_Nil_iff)
  then have i: "1 + length (takeWhile (\<lambda>c. is_digit c \<or> is_number_special c) (tl (v @ r))) = length v"
    unfolding v is_number_char_def by simp
  have "strip_special (v @ r) (length v) = Some (length v)"
  proof -
    have "(v @ r) ! length cs = last v" by (simp add: v nth_append last_conv_nth del: append_Cons)
    then have "\<not> is_number_special ((v @ r) ! length cs)" using jnumber_shape [OF assms(1)] digit_not_special by simp
    then show ?thesis by (simp add: v)
  qed
  then show ?thesis using assms(3) unfolding complete_number_def Let_def i by auto
qed

lemma complete_any_number:
  assumes "jnumber v" "r = [] \<or> \<not> is_number_char (hd r)" "r \<noteq> [] \<or> lvl \<or> allows opt_NUM a"
  shows "complete_any (v @ r) a lvl = Inr (length v, [])"
proof -
  note shape = jnumber_shape [OF assms(1)]
  have hd: "hd (v @ r) = hd v" using shape by simp
  have nd: "\<not> is_digit CHR 0x22" "\<not> is_digit CHR ''[''" "\<not> is_digit CHR ''{''" "\<not> is_digit CHR ''I''" by (simp_all add: is_digit_def)
  have one: "(v @ r) ! 1 = v ! 1" if "1 < length v" using that by (simp add: nth_append)
  show ?thesis unfolding complete_any.simps [of "v @ r"] hd complete_number_whole [OF assms] using shape one nd
    by (auto simp: nth_append)
qed

lemma literal_hit: "literal_case w f what (w @ r) a = Some (Inr (length w, []))"
  by (simp add: literal_case_def)

lemma literal_miss: "c \<noteq> d \<Longrightarrow> literal_case (d # ds) f what (c # cs) a = None"
  by (simp add: literal_case_def)

lemma complete_any_literal:
  assumes "v \<in> {''true'', ''false'', ''null''}"
  shows "complete_any (v @ r) a lvl = Inr (length v, [])"
proof -
  have "complete_literal (v @ r) a = Inr (length v, [])"
    using assms literal_hit [of "''true''" _ _ r a] literal_hit [of "''false''" _ _ r a] literal_hit [of "''null''" _ _ r a]
    by (auto simp: complete_literal_def literal_miss)
  then show ?thesis using assms by (auto simp: complete_any.simps [of "v @ r"] is_digit_def)
qed

lemma drop_past: "drop j s = u @ t \<Longrightarrow> drop (j + length u) s = t"
  by (metis add.commute append_eq_conv_conj drop_drop)

lemma jvalue_hd_visible:
  assumes "jvalue v"
  shows "v \<noteq> [] \<and> \<not> is_space (hd v) \<and> hd v \<noteq> CHR '']''"
  using assms
proof (cases rule: jvalue.cases)
  case val_number
  then show ?thesis using jnumber_shape [of v] digit_not_space by (auto simp: is_digit_def)
qed (auto simp: jstring_def)

text \<open>What may follow a value so that a number ends there.\<close>

definition ends_value :: "string \<Rightarrow> bool" where
  "ends_value r \<longleftrightarrow> r \<noteq> [] \<and> \<not> is_number_char (hd r)"

lemma ends_value_ws:
  assumes "ws w" "d \<in> {CHR '','', CHR '']'', CHR ''}''}"
  shows "ends_value (w @ d # r)"
proof (cases w)
  case Nil
  then show ?thesis using assms(2) by (auto simp: ends_value_def is_number_char_def is_digit_def is_number_special_def)
next
  case (Cons c cs)
  then have "is_json_whitespace c" using assms(1) by simp
  then show ?thesis using Cons
    by (auto simp: ends_value_def is_number_char_def is_digit_def is_number_special_def is_json_whitespace_def)
qed

definition whole_value :: "string \<Rightarrow> type_options \<Rightarrow> bool" where
  "whole_value v a \<longleftrightarrow> (\<forall>r lvl. hd v \<in> {CHR ''{'', CHR ''['', CHR 0x22} \<or> ends_value r \<longrightarrow>
     complete_any (v @ r) a lvl = Inr (length v, []))"

lemma whole_valueD: "whole_value v a \<Longrightarrow> ends_value r \<Longrightarrow> complete_any (v @ r) a lvl = Inr (length v, [])"
  by (simp add: whole_value_def)

lemma array_step:
  assumes "drop j s = w1 @ v @ w2 @ d # r" "ws w1" "jvalue v" "whole_value v a" "ws w2" "d \<in> {CHR '','', CHR '']''}"
  shows "array_loop s a i j = (if d = CHR '']'' then Inr (j + length (w1 @ v @ w2 @ [d]), [])
           else array_loop s a (j + length (w1 @ v)) (j + length (w1 @ v @ w2 @ [d])))"
proof -
  obtain c cs where v: "v = c # cs" "\<not> is_space c" and c: "c \<noteq> CHR '']''"
    using jvalue_hd_visible [OF assms(3)] by (cases v) auto
  have "drop j s = w1 @ c # cs @ w2 @ d # r" using assms(1) v by simp
  note p = skip_at [OF this assms(2) v(2)]
  have "drop (j + length w1 + length v) s = w2 @ d # r" using drop_past [OF drop_past [OF assms(1)]] .
  moreover have "\<not> is_space d" using assms(6) by auto
  ultimately have q: "skip_blank s (j + length w1 + length v) = j + length w1 + length v + length w2"
      "j + length w1 + length v + length w2 < length s" "s ! (j + length w1 + length v + length w2) = d"
    using skip_at [of "j + length w1 + length v" s w2 d r] assms(5) by simp_all
  have "complete_any (drop (j + length w1) s) a False = Inr (length v, [])"
    using whole_valueD [OF assms(4) ends_value_ws [OF assms(5)], of d r False] assms(6) p(4) v(1) by auto
  then show ?thesis unfolding array_loop.simps [of s a i j] Let_def p(1) using p(2,3) q c assms(6)
    by (auto simp: add.assoc)
qed

lemma object_step:
  assumes "drop j s = w1 @ k @ w2 @ CHR '':'' # w3 @ v @ w4 @ d # r" "ws w1" "jstring k" "ws w2" "ws w3"
    and "jvalue v" "whole_value v a" "ws w4" "d \<in> {CHR '','', CHR ''}''}"
  shows "object_loop s a i j = (if d = CHR ''}'' then Inr (j + length (w1 @ k @ w2 @ '':'' @ w3 @ v @ w4 @ [d]), [])
           else object_loop s a (j + length (w1 @ k @ w2 @ '':'' @ w3 @ v)) (j + length (w1 @ k @ w2 @ '':'' @ w3 @ v @ w4 @ [d])))"
proof -
  obtain ks where k: "k = CHR 0x22 # ks" using assms(3) by (auto simp: jstring_def)
  obtain c cs where v: "v = c # cs" "\<not> is_space c" using jvalue_hd_visible [OF assms(6)] by (cases v) auto
  have "drop j s = w1 @ CHR 0x22 # ks @ w2 @ CHR '':'' # w3 @ v @ w4 @ d # r" using assms(1) k by simp
  note p = skip_at [OF this assms(2) space_plain(7)]
  define j2 where "j2 = j + length w1 + length k"
  have "drop j2 s = w2 @ CHR '':'' # w3 @ v @ w4 @ d # r" using drop_past [OF drop_past [OF assms(1)]] by (simp only: j2_def)
  note q = skip_at [OF this assms(4) space_plain(6)]
  define j3 where "j3 = j2 + length w2 + 1"
  have "drop j3 s = w3 @ c # cs @ w4 @ d # r" using drop_past [of "j2 + length w2" s "'':''"] q(4) v(1) by (simp add: j3_def)
  note t = skip_at [OF this assms(5) v(2)]
  define j4 where "j4 = j3 + length w3 + length v"
  have "drop j4 s = w4 @ d # r" using drop_past [of "j3 + length w3" s v] t(4) v(1) by (simp add: j4_def)
  moreover have "\<not> is_space d" using assms(9) by auto
  ultimately have u: "skip_blank s j4 = j4 + length w4" "j4 + length w4 < length s" "s ! (j4 + length w4) = d"
    using skip_at assms(8) by blast+
  have key: "complete_string (drop (j + length w1) s) a = Inr (length k, [])"
    using complete_string_whole [OF assms(3)] p(4) k by simp
  have val: "complete_any (drop (j3 + length w3) s) a False = Inr (length v, [])"
    using whole_valueD [OF assms(7) ends_value_ws [OF assms(8)], of d r False] assms(9) t(4) v(1) by auto
  have sums: "j + length (w1 @ k @ w2 @ '':'' @ w3 @ v) = j4" "j + length (w1 @ k @ w2 @ '':'' @ w3 @ v @ w4 @ [d]) = j4 + length w4 + 1"
    by (simp_all add: j2_def j3_def j4_def)
  have at_j: "\<not> (length s \<le> j \<or> length s \<le> j + length w1)" "s ! (j + length w1) \<noteq> CHR ''}''" using p(2,3) by simp_all
  have at_c: "\<not> length s \<le> j2 + length w2" "\<not> s ! (j2 + length w2) \<noteq> CHR '':''" using q(2,3) by simp_all
  have at_v: "\<not> length s \<le> j3 + length w3" and at_k: "\<not> length s \<le> j4 + length w4" using t(2) u(2) by simp_all
  have none: "\<not> ([] :: string) \<noteq> []" by simp
  show ?thesis unfolding object_loop.simps [of s a i j] Let_def p(1) if_not_P [OF at_j(1)] if_not_P [OF at_j(2)] key
      sum.case prod.case j2_def [symmetric] q(1) if_not_P [OF none] if_not_P [OF at_c(1)] if_not_P [OF at_c(2)]
      j3_def [symmetric] t(1) if_not_P [OF at_v] val j4_def [symmetric] u(1) if_not_P [OF at_k] u(3) sums
    using assms(9) by auto
qed

lemma whole_container:
  assumes "hd v \<in> {CHR ''{'', CHR ''[''}" "v \<noteq> []"
    and "\<And>r. hd v = CHR ''['' \<Longrightarrow> array_loop (v @ r) a 1 1 = Inr (length v, [])"
    and "\<And>r. hd v = CHR ''{'' \<Longrightarrow> object_loop (v @ r) a 1 1 = Inr (length v, [])"
  shows "whole_value v a"
  using assms by (auto simp: whole_value_def complete_any.simps [of "v @ _"])

lemma empty_loops:
  assumes "ws w"
  shows "array_loop (CHR ''['' # w @ CHR '']'' # r) a 1 1 = Inr (length w + 2, [])"
    "object_loop (CHR ''{'' # w @ CHR ''}'' # r) a 1 1 = Inr (length w + 2, [])"
proof -
  have "drop 1 (CHR ''['' # w @ CHR '']'' # r) = w @ CHR '']'' # r" by simp
  from skip_at(1-3) [OF this assms space_plain(4)]
  show "array_loop (CHR ''['' # w @ CHR '']'' # r) a 1 1 = Inr (length w + 2, [])"
    unfolding array_loop.simps [of _ a 1 1] Let_def by simp
  have "drop 1 (CHR ''{'' # w @ CHR ''}'' # r) = w @ CHR ''}'' # r" by simp
  from skip_at(1-3) [OF this assms space_plain(2)]
  show "object_loop (CHR ''{'' # w @ CHR ''}'' # r) a 1 1 = Inr (length w + 2, [])"
    unfolding object_loop.simps [of _ a 1 1] Let_def by simp
qed

lemma completion_whole:
  "jvalue v \<Longrightarrow> whole_value v a"
  "jmembers m \<Longrightarrow> \<forall>s i j r. drop j s = m @ CHR ''}'' # r \<longrightarrow> object_loop s a i j = Inr (j + length m + 1, [])"
  "jelements e \<Longrightarrow> \<forall>s i j r. drop j s = e @ CHR '']'' # r \<longrightarrow> array_loop s a i j = Inr (j + length e + 1, [])"
proof (induction rule: jvalue_jmembers_jelements.inducts)
  case (val_string s)
  then have "s \<noteq> []" "hd s = CHR 0x22" by (auto simp: jstring_def)
  then show ?case using complete_string_whole [OF val_string] by (simp add: whole_value_def complete_any.simps [of "s @ _"])
next
  case (val_number s)
  then have "hd s \<notin> {CHR ''{'', CHR ''['', CHR 0x22}" using jnumber_shape [OF val_number] by (auto simp: is_digit_def)
  then show ?case using complete_any_number [OF val_number] by (simp add: whole_value_def ends_value_def)
next
  case (val_literal s)
  then show ?case using complete_any_literal [of s] by (auto simp: whole_value_def)
next
  case (val_object_empty w)
  then show ?case using empty_loops by (intro whole_container) simp_all
next
  case (val_object m)
  have "drop 1 (CHR ''{'' # m @ ''}'' @ r) = m @ CHR ''}'' # r" for r by simp
  then have "object_loop (CHR ''{'' # m @ ''}'' @ r) a 1 1 = Inr (1 + length m + 1, [])" for r using val_object.IH by blast
  then show ?case by (intro whole_container) simp_all
next
  case (val_array_empty w)
  then show ?case using empty_loops by (intro whole_container) simp_all
next
  case (val_array e)
  have "drop 1 (CHR ''['' # e @ '']'' @ r) = e @ CHR '']'' # r" for r by simp
  then have "array_loop (CHR ''['' # e @ '']'' @ r) a 1 1 = Inr (1 + length e + 1, [])" for r using val_array.IH by blast
  then show ?case by (intro whole_container) simp_all
next
  case (member_last w1 k w2 w3 v w4)
  have "object_loop s a i j = Inr (j + length (w1 @ k @ w2 @ '':'' @ w3 @ v @ w4) + 1, [])"
    if "drop j s = (w1 @ k @ w2 @ '':'' @ w3 @ v @ w4) @ CHR ''}'' # r" for s i j r
    using object_step [of j s w1 k w2 w3 v w4 "CHR ''}''" r a i] member_last that by simp
  then show ?case by blast
next
  case (member_more w1 k w2 w3 v w4 m)
  have "object_loop s a i j = Inr (j + length (w1 @ k @ w2 @ '':'' @ w3 @ v @ w4 @ '','' @ m) + 1, [])"
    if d: "drop j s = (w1 @ k @ w2 @ '':'' @ w3 @ v @ w4 @ '','' @ m) @ CHR ''}'' # r" for s i j r
  proof -
    let ?j = "j + length (w1 @ k @ w2 @ '':'' @ w3 @ v @ w4 @ '','')"
    have "drop ?j s = m @ CHR ''}'' # r" using drop_past [of j s "w1 @ k @ w2 @ '':'' @ w3 @ v @ w4 @ '',''"] d by simp
    then have "object_loop s a i' ?j = Inr (?j + length m + 1, [])" for i' using member_more.IH(2) by blast
    then show ?thesis
      using object_step [of j s w1 k w2 w3 v w4 "CHR '',''" "m @ CHR ''}'' # r" a i] member_more.hyps member_more.IH(1) d by simp
  qed
  then show ?case by blast
next
  case (element_last w1 v w2)
  have "array_loop s a i j = Inr (j + length (w1 @ v @ w2) + 1, [])"
    if "drop j s = (w1 @ v @ w2) @ CHR '']'' # r" for s i j r
    using array_step [of j s w1 v w2 "CHR '']''" r a i] element_last that by simp
  then show ?case by blast
next
  case (element_more w1 v w2 e)
  have "array_loop s a i j = Inr (j + length (w1 @ v @ w2 @ '','' @ e) + 1, [])"
    if d: "drop j s = (w1 @ v @ w2 @ '','' @ e) @ CHR '']'' # r" for s i j r
  proof -
    let ?j = "j + length (w1 @ v @ w2 @ '','')"
    have "drop ?j s = e @ CHR '']'' # r" using drop_past [of j s "w1 @ v @ w2 @ '',''"] d by simp
    then have "array_loop s a i' ?j = Inr (?j + length e + 1, [])" for i' using element_more.IH(2) by blast
    then show ?thesis
      using array_step [of j s w1 v w2 "CHR '',''" "e @ CHR '']'' # r" a i] element_more.hyps element_more.IH(1) d by simp
  qed
  then show ?case by blast
qed

end
