(* ===== verification/Partial_Json_Sound.thy ===== *)
theory Partial_Json_Sound imports Partial_Json "HOL-Library.Sublist" begin

text \<open>
  What the completion of \<open>Partial_Json\<close> makes of the beginning of a JSON text: if it returns, the result is a JSON
  text again, for beginnings without escape sequences (with them it is not, see the properties below).
\<close>

section \<open>Tokens that are cut off\<close>

lemma allows_all [simp]: "allows opt_STR opt_ALL" "allows opt_NUM opt_ALL" "allows opt_ARR opt_ALL" "allows opt_OBJ opt_ALL"
  "allows opt_NULL opt_ALL" "allows opt_BOOL opt_ALL"
  by (simp_all add: allows_def option_defs)

text \<open>Without backslashes a string body is plain, and so is each of its beginnings.\<close>

lemma plain_body: "string_body b \<Longrightarrow> CHR 0x5C \<notin> set b \<Longrightarrow> list_all (\<lambda>c. c \<noteq> CHR 0x22 \<and> c \<noteq> CHR 0x5C \<and> 32 \<le> (of_char c :: nat)) b"
  by (induction rule: string_body.induct) auto

lemma body_plain_chars: "list_all (\<lambda>c. c \<noteq> CHR 0x22 \<and> c \<noteq> CHR 0x5C \<and> 32 \<le> (of_char c :: nat)) b \<Longrightarrow> string_body b"
  by (induction b) (auto intro: string_body.intros)

lemma scan_string_open: "CHR 0x22 \<notin> set b \<Longrightarrow> CHR 0x5C \<notin> set b \<Longrightarrow> scan_string b False = (length b, False)"
  by (induction b) auto

lemma rfind_pair_none: "c \<notin> set s \<Longrightarrow> rfind_pair c d s = None"
  by (induction c d s rule: rfind_pair.induct) auto

lemma body_prefix_plain:
  assumes "string_body (b @ b')" "CHR 0x5C \<notin> set b"
  shows "list_all (\<lambda>c. c \<noteq> CHR 0x22 \<and> c \<noteq> CHR 0x5C \<and> 32 \<le> (of_char c :: nat)) b"
  using assms
proof (induction b arbitrary: b')
  case (Cons c b)
  from Cons.prems(1) show ?case
  proof (cases rule: string_body.cases)
    case (body_plain)
    then show ?thesis using Cons by auto
  qed (use Cons.prems(2) in auto)
qed simp

lemma string_cut:
  assumes "jstring (p @ q)" "p \<noteq> []" "q \<noteq> []" "CHR 0x5C \<notin> set p"
  shows "complete_string p opt_ALL = Inr (length p, [CHR 0x22]) \<and> jstring (p @ [CHR 0x22]) \<and> hd p = CHR 0x22"
proof -
  obtain b where b: "p @ q = CHR 0x22 # b @ [CHR 0x22]" "string_body b" using assms(1) by (auto simp: jstring_def)
  obtain p' where p: "p = CHR 0x22 # p'" using b(1) assms(2) by (cases p) auto
  obtain q' where q: "q = q' @ [CHR 0x22]" using b(1) assms(3) by (cases q rule: rev_cases) auto
  have "b = p' @ q'" using b(1) p q by simp
  then have plain: "list_all (\<lambda>c. c \<noteq> CHR 0x22 \<and> c \<noteq> CHR 0x5C \<and> 32 \<le> (of_char c :: nat)) p'"
    using body_prefix_plain [of p' q'] b(2) assms(4) p by simp
  have no: "CHR 0x22 \<notin> set p'" "CHR 0x5C \<notin> set p'" using plain by (auto simp: list_all_iff)
  have "complete_string p opt_ALL = Inr (length p, [CHR 0x22])"
    using no assms(4) by (simp add: complete_string_def p scan_string_open rfind_pair_none del: rfind_pair.simps)
  then show ?thesis using body_plain_chars [OF plain] p by (auto simp: jstring_def)
qed

text \<open>A beginning of a number that ends with a digit is a number.\<close>

lemma not_digit_punct: "\<not> is_digit CHR ''-''" "\<not> is_digit CHR ''+''" "\<not> is_digit CHR ''.''" "\<not> is_digit CHR ''e''" "\<not> is_digit CHR ''E''"
  by (simp_all add: is_digit_def)

lemma int_part_prefix: "int_part i \<Longrightarrow> prefix p i \<Longrightarrow> p \<noteq> [] \<Longrightarrow> int_part p"
  by (cases p) (auto simp: int_part_def prefix_def)

lemma frac_part_prefix: "frac_part f \<Longrightarrow> prefix p f \<Longrightarrow> p = [] \<or> is_digit (last p) \<Longrightarrow> frac_part p"
  by (cases p) (auto simp: frac_part_def prefix_def digits1_def is_digit_def split: if_splits)

lemma exp_part_prefix:
  assumes "exp_part x" "prefix p x" "p = [] \<or> is_digit (last p)"
  shows "exp_part p"
proof (cases "x = [] \<or> p = []")
  case True
  then show ?thesis using assms by (auto simp: exp_part_def)
next
  case False
  then obtain e sign d where x: "x = (e # sign) @ d" "e \<in> {CHR ''e'', CHR ''E''}" "sign \<in> {[], ''+'', ''-''}" "digits1 d"
    using assms(1) by (auto simp: exp_part_def)
  have "\<not> is_digit (last q)" if "prefix q (e # sign)" "q \<noteq> []" for q
  proof -
    have "\<forall>c \<in> set (e # sign). \<not> is_digit c" using x(2,3) not_digit_punct by auto
    then show ?thesis using last_in_set [OF that(2)] set_mono_prefix [OF that(1)] by blast
  qed
  then obtain d' where d: "p = (e # sign) @ d'" "prefix d' d" "d' \<noteq> []"
    using assms(2,3) False x(1) by (metis append_Nil2 prefix_append prefix_order.refl)
  then have "digits1 d'" using x(4) by (auto simp: digits1_def prefix_def)
  then show ?thesis using d(1) x(2,3) unfolding exp_part_def by (metis append_Cons)
qed

lemma number_prefix:
  assumes "jnumber v" "prefix p v" "p \<noteq> []" "is_digit (last p)"
  shows "jnumber p"
proof -
  obtain m i f x where v: "v = m @ i @ f @ x" "m \<in> {[], ''-''}" "int_part i" "frac_part f" "exp_part x"
    using assms(1) by (auto simp: jnumber_def)
  have make: "jnumber (m @ i' @ f' @ x')" if "int_part i'" "frac_part f'" "exp_part x'" for i' f' x'
    using that v(2) unfolding jnumber_def by blast
  have "\<not> prefix p m" using assms(3,4) v(2) not_digit_punct by (auto simp: prefix_def append_eq_Cons_conv)
  then obtain p1 where p1: "p = m @ p1" "prefix p1 (i @ f @ x)" using assms(2) v(1) by (auto simp: prefix_append)
  have p1ne: "p1 \<noteq> []" using \<open>\<not> prefix p m\<close> p1(1) by auto
  show ?thesis
  proof (cases "prefix p1 i")
    case True
    then show ?thesis using make [OF int_part_prefix [OF v(3) True p1ne], of "[]" "[]"] p1(1) by (simp add: frac_part_def exp_part_def)
  next
    case False
    then obtain p2 where p2: "p1 = i @ p2" "prefix p2 (f @ x)" using p1(2) by (auto simp: prefix_append)
    have p2ne: "p2 \<noteq> []" using False p2(1) by auto
    have last2: "is_digit (last p2)" using assms(4) p1(1) p2(1) p2ne by simp
    show ?thesis
    proof (cases "prefix p2 f")
      case True
      then show ?thesis using make [OF v(3) frac_part_prefix [OF v(4) True], of "[]"] last2 p1(1) p2(1) by (simp add: exp_part_def)
    next
      case False
      then obtain p3 where p3: "p2 = f @ p3" "prefix p3 x" using p2(2) by (auto simp: prefix_append)
      then have "p3 \<noteq> []" using False by auto
      then show ?thesis using make [OF v(3,4) exp_part_prefix [OF v(5) p3(2)]] last2 p1(1) p2(1) p3(1) by simp
    qed
  qed
qed

lemma strip_special_spec:
  "strip_special s i = Some k \<Longrightarrow> 0 < k \<and> k \<le> i \<and> \<not> is_number_special (s ! (k - 1)) \<and> (k = i \<or> is_number_special (s ! k))"
  by (induction s i rule: strip_special.induct) (auto split: if_splits simp: le_Suc_eq)

lemma number_cut:
  assumes "jnumber (p @ q)" "p \<noteq> []" "complete_number p opt_ALL lvl = Inr (k, t)"
  shows "t = [] \<and> 0 < k \<and> k \<le> length p \<and> jnumber (take k p) \<and> (k = length p \<or> is_number_special (p ! k))"
proof -
  have chars: "list_all is_number_char p" using jnumber_shape [OF assms(1)] by simp
  then have tw: "takeWhile (\<lambda>c. is_digit c \<or> is_number_special c) (tl p) = tl p"
    by (subst takeWhile_eq_all_conv) (cases p; auto simp: list_all_iff is_number_char_def)
  then have i: "1 + length (takeWhile (\<lambda>c. is_digit c \<or> is_number_special c) (tl p)) = length p"
    using assms(2) by (simp add: tw)
  have k: "strip_special p (length p) = Some k" "t = []"
    using assms(3) unfolding complete_number_def Let_def i by (auto split: option.splits if_splits)
  note spec = strip_special_spec [OF k(1)]
  have last: "last (take k p) = p ! (k - 1)" using spec by (cases k) (simp_all add: take_Suc_snoc)
  have "is_number_char (p ! (k - 1))" using chars spec by (auto simp: list_all_length)
  then have "is_digit (last (take k p))" using spec last by (simp add: is_number_char_def)
  moreover have "take k p \<noteq> []" using spec assms(2) by simp
  moreover have "prefix (take k p) (p @ q)" by (metis append_take_drop_id prefixI prefix_prefix take_is_prefix)
  ultimately have "jnumber (take k p)" using number_prefix [OF assms(1)] by blast
  then show ?thesis using spec k(2) by simp
qed

lemma literal_partial: "q \<noteq> [] \<Longrightarrow> allows f a \<Longrightarrow> literal_case (p @ q) f what p a = Some (Inr (0, p @ q))"
  by (simp add: literal_case_def min_absorb2)

lemma literal_cut:
  assumes "p @ q \<in> {''true'', ''false'', ''null''}" "p \<noteq> []" "q \<noteq> []"
  shows "complete_literal p opt_ALL = Inr (0, p @ q) \<and> hd p \<in> {CHR ''t'', CHR ''f'', CHR ''n''}"
proof -
  obtain c cs where p: "p = c # cs" using assms(2) by (cases p) auto
  have part: "literal_case (c # cs @ q) f what (c # cs) opt_ALL = Some (Inr (0, c # cs @ q))" if "allows f opt_ALL" for f what
    using literal_partial [OF assms(3) that, of p] p by simp
  have "c # cs @ q \<in> {''true'', ''false'', ''null''}" using assms(1) p by simp
  then consider "c # cs @ q = ''true''" "c = CHR ''t''" | "c # cs @ q = ''false''" "c = CHR ''f''" | "c # cs @ q = ''null''" "c = CHR ''n''" by auto
  then show ?thesis
  proof cases
    case 1
    then show ?thesis using part [of opt_BOOL] unfolding p complete_literal_def append_Cons 1(1)
      by (simp add: literal_miss)
  next
    case 2
    then show ?thesis using part [of opt_BOOL] unfolding p complete_literal_def append_Cons 2(1)
      by (simp add: literal_miss)
  next
    case 3
    then show ?thesis using part [of opt_NULL] unfolding p complete_literal_def append_Cons 3(1)
      by simp
  qed
qed

section \<open>Containers that are cut off\<close>

lemma blank_end: "drop j s = w \<Longrightarrow> ws w \<Longrightarrow> length s \<le> skip_blank s j"
proof -
  assume d: "drop j s = w" and w: "ws w"
  have tw: "takeWhile is_space w = w" using w ws_space by (subst takeWhile_eq_all_conv) (auto simp: ws_def list_all_iff)
  have "skip_blank s j = j + length w" by (simp only: skip_blank_def d tw)
  then show ?thesis using d by auto
qed

text \<open>The two loops from the point where an item begins.\<close>

definition object_after_value :: "string \<Rightarrow> type_options \<Rightarrow> nat \<Rightarrow> string + completion" where
  "object_after_value s a i =
    (let k = skip_blank s i in
     if length s \<le> k then close_object i a
     else if s ! k = CHR '','' then object_loop s a i (k + 1)
     else if s ! k = CHR ''}'' then Inr (k + 1, [])
     else object_catch s i k a (''MalformedJSON(expected \",\" or \"}\" got '' @ [s ! k] @ '')''))"

definition array_after_value :: "string \<Rightarrow> type_options \<Rightarrow> nat \<Rightarrow> string + completion" where
  "array_after_value s a i =
    (let k = skip_blank s i in
     if length s \<le> k then close_array i a
     else if s ! k = CHR '','' then array_loop s a i (k + 1)
     else if s ! k = CHR '']'' then Inr (k + 1, [])
     else close_array i a)"

lemma object_blank: "drop j s = w \<Longrightarrow> ws w \<Longrightarrow> object_loop s opt_ALL i j = Inr (i, ''}'')"
  using blank_end [of j s w] by (subst object_loop.simps) (simp add: close_object_def Let_def)

lemma array_blank: "drop j s = w \<Longrightarrow> ws w \<Longrightarrow> array_loop s opt_ALL i j = Inr (i, '']'')"
  using blank_end [of j s w] by (subst array_loop.simps) (simp add: close_array_def Let_def)

lemma object_key_cut:
  assumes "drop j s = w1 @ p" "ws w1" "jstring (p @ q)" "p \<noteq> []" "q \<noteq> []" "CHR 0x5C \<notin> set p"
  shows "object_loop s opt_ALL i j = Inr (i, ''}'')"
proof -
  note cut = string_cut [OF assms(3-6)]
  then obtain p' where p: "p = CHR 0x22 # p'" using assms(4) by (cases p) auto
  note at = skip_at [OF assms(1) [unfolded p] assms(2) space_plain(7)]
  have "complete_string (drop (j + length w1) s) opt_ALL = Inr (length p, [CHR 0x22])" using cut at(4) p by simp
  then show ?thesis unfolding object_loop.simps [of s opt_ALL i j] Let_def at(1) using at(2,3) by (simp add: close_object_def)
qed

lemma object_key_blank:
  assumes "drop j s = w1 @ k @ w2" "ws w1" "jstring k" "ws w2"
  shows "object_loop s opt_ALL i j = Inr (i, ''}'')"
proof -
  obtain k' where k: "k = CHR 0x22 # k'" using assms(3) by (auto simp: jstring_def)
  have "drop j s = w1 @ CHR 0x22 # k' @ w2" using assms(1) k by simp
  note at = skip_at [OF this assms(2) space_plain(7)]
  have key: "complete_string (drop (j + length w1) s) opt_ALL = Inr (length k, [])"
    using complete_string_whole [OF assms(3)] at(4) k by simp
  have "drop (j + length w1 + length k) s = w2" using drop_past [OF drop_past [OF assms(1)]] .
  note e = blank_end [OF this assms(4)]
  show ?thesis unfolding object_loop.simps [of s opt_ALL i j] Let_def at(1) using at(2,3) key e by (simp add: close_object_def)
qed

lemma object_colon_blank:
  assumes "drop j s = w1 @ k @ w2 @ CHR '':'' # w3" "ws w1" "jstring k" "ws w2" "ws w3"
  shows "object_loop s opt_ALL i j = Inr (i, ''}'')"
proof -
  obtain k' where k: "k = CHR 0x22 # k'" using assms(3) by (auto simp: jstring_def)
  have "drop j s = w1 @ CHR 0x22 # k' @ w2 @ CHR '':'' # w3" using assms(1) k by simp
  note at = skip_at [OF this assms(2) space_plain(7)]
  have key: "complete_string (drop (j + length w1) s) opt_ALL = Inr (length k, [])"
    using complete_string_whole [OF assms(3)] at(4) k by simp
  have "drop (j + length w1 + length k) s = w2 @ CHR '':'' # w3" using drop_past [OF drop_past [OF assms(1)]] .
  note c = skip_at [OF this assms(4) space_plain(6)]
  have "drop (j + length w1 + length k + length w2 + 1) s = w3"
    using drop_past [of "j + length w1 + length k + length w2" s "'':''"] c(4) by simp
  note e = blank_end [OF this assms(5)]
  show ?thesis unfolding object_loop.simps [of s opt_ALL i j] Let_def at(1) using at(2,3) key e c by (simp add: close_object_def)
qed

lemma object_at_value:
  assumes "drop j s = w1 @ k @ w2 @ CHR '':'' # w3 @ c # cs" "ws w1" "jstring k" "ws w2" "ws w3" "\<not> is_space c"
  defines "v \<equiv> j + length (w1 @ k @ w2 @ '':'' @ w3)"
  shows "object_loop s a i j = (case complete_any (c # cs) a False of
       Inl e \<Rightarrow> object_catch s i v a e
     | Inr (n, t) \<Rightarrow> if t \<noteq> [] then (if allows opt_OBJ a then Inr (v + n, t @ ''}'')
           else object_catch s i v a ''cannot parse object with given options'') else object_after_value s a (v + n))"
    and "drop v s = c # cs"
proof -
  obtain k' where k: "k = CHR 0x22 # k'" using assms(3) by (auto simp: jstring_def)
  have "drop j s = w1 @ CHR 0x22 # k' @ w2 @ CHR '':'' # w3 @ c # cs" using assms(1) k by simp
  note p = skip_at [OF this assms(2) space_plain(7)]
  define j2 where "j2 = j + length w1 + length k"
  have "drop j2 s = w2 @ CHR '':'' # w3 @ c # cs" using drop_past [OF drop_past [OF assms(1)]] by (simp only: j2_def)
  note q = skip_at [OF this assms(4) space_plain(6)]
  define j3 where "j3 = j2 + length w2 + 1"
  have "drop j3 s = w3 @ c # cs" using drop_past [of "j2 + length w2" s "'':''"] q(4) by (simp add: j3_def)
  note t = skip_at [OF this assms(5,6)]
  have v: "v = j3 + length w3" by (simp add: v_def j2_def j3_def)
  then show "drop v s = c # cs" using t(4) by simp
  have key: "complete_string (drop (j + length w1) s) a = Inr (length k, [])"
    using complete_string_whole [OF assms(3)] p(4) k by simp
  have at_j: "\<not> (length s \<le> j \<or> length s \<le> j + length w1)" "s ! (j + length w1) \<noteq> CHR ''}''" using p(2,3) by simp_all
  have at_c: "\<not> length s \<le> j2 + length w2" "\<not> s ! (j2 + length w2) \<noteq> CHR '':''" using q(2,3) by simp_all
  have at_v: "\<not> length s \<le> v" using t(2) v by simp
  have none: "\<not> ([] :: string) \<noteq> []" by simp
  show "object_loop s a i j = (case complete_any (c # cs) a False of
       Inl e \<Rightarrow> object_catch s i v a e
     | Inr (n, t) \<Rightarrow> if t \<noteq> [] then (if allows opt_OBJ a then Inr (v + n, t @ ''}'')
           else object_catch s i v a ''cannot parse object with given options'') else object_after_value s a (v + n))"
    unfolding object_loop.simps [of s a i j] Let_def p(1) if_not_P [OF at_j(1)] if_not_P [OF at_j(2)] key
      sum.case prod.case j2_def [symmetric] q(1) if_not_P [OF none] if_not_P [OF at_c(1)] if_not_P [OF at_c(2)]
      j3_def [symmetric] t(1) v [symmetric] if_not_P [OF at_v] t(4) [folded v] object_after_value_def
    by simp
qed

lemma array_at_value:
  assumes "drop j s = w1 @ c # cs" "ws w1" "\<not> is_space c" "c \<noteq> CHR '']''"
  shows "array_loop s opt_ALL i j = (case complete_any (c # cs) opt_ALL False of
       Inl e \<Rightarrow> Inr (i, '']'')
     | Inr (n, t) \<Rightarrow> if t \<noteq> [] then Inr (j + length w1 + n, t @ '']'') else array_after_value s opt_ALL (j + length w1 + n))"
proof -
  note p = skip_at [OF assms(1-3)]
  show ?thesis unfolding array_loop.simps [of s opt_ALL i j] Let_def p(1) array_after_value_def p(4)
    using p(2,3) assms(4) by (simp add: close_array_def split: sum.split)
qed

text \<open>What the completion makes of a beginning of a value, of members and of elements.\<close>

definition value_cut :: "string \<Rightarrow> bool" where
  "value_cut v \<longleftrightarrow> (\<forall>p q lvl k u. v = p @ q \<longrightarrow> p \<noteq> [] \<longrightarrow> q \<noteq> [] \<longrightarrow> CHR 0x5C \<notin> set p \<longrightarrow>
     complete_any p opt_ALL lvl = Inr (k, u) \<longrightarrow>
     k \<le> length p \<and> jvalue (take k p @ u) \<and> (u = [] \<longrightarrow> k = length p \<or> is_number_special (p ! k)))"

definition inner_cut :: "(string \<Rightarrow> bool) \<Rightarrow> string \<Rightarrow> string \<Rightarrow> nat \<Rightarrow> nat \<Rightarrow> string + completion \<Rightarrow> bool" where
  "inner_cut G b s i j r \<longleftrightarrow> (\<forall>k u. r = Inr (k, u) \<longrightarrow>
     u \<noteq> [] \<and> k \<le> length s \<and> (k = i \<and> u = b \<or> (\<exists>g. G g \<and> take k s @ u = take j s @ g @ b)))"

lemma value_cutD:
  assumes "value_cut (p @ q)" "p \<noteq> []" "q \<noteq> []" "CHR 0x5C \<notin> set p" "complete_any p opt_ALL lvl = Inr (k, u)"
  shows "k \<le> length p" "jvalue (take k p @ u)" "u = [] \<Longrightarrow> k = length p \<or> is_number_special (p ! k)"
  using assms unfolding value_cut_def by blast+

lemma whole_end:
  assumes "jvalue v" "ws w"
  shows "complete_any (v @ w) opt_ALL lvl = Inr (length v, [])"
proof (cases w)
  case Nil
  from assms(1) show ?thesis
  proof (cases rule: jvalue.cases)
    case val_number
    then show ?thesis using complete_any_number [of v "[]" lvl opt_ALL] Nil by simp
  next
    case val_literal
    then show ?thesis using complete_any_literal [of v "[]"] Nil by simp
  qed (use completion_whole(1) [OF assms(1), of opt_ALL] Nil in \<open>auto simp: whole_value_def jstring_def\<close>)
next
  case (Cons c cs)
  then have "ends_value w" using assms(2) by (auto simp: ends_value_def is_number_char_def is_digit_def is_number_special_def is_json_whitespace_def)
  then show ?thesis using completion_whole(1) [OF assms(1)] whole_valueD by blast
qed

lemma special_not_blank: "is_number_special c \<Longrightarrow> \<not> is_space c \<and> c \<noteq> CHR '','' \<and> c \<noteq> CHR ''}'' \<and> c \<noteq> CHR '']'' \<and> c \<noteq> CHR 0x22"
  by (auto simp: is_number_special_def is_space_def)

text \<open>Behind a value that was cut in a number nothing can follow: the object is refused, the array is closed.\<close>

lemma after_end:
  assumes "i \<le> length s" "i = length s \<or> is_number_special (s ! i)"
  shows "object_after_value s opt_ALL i = Inr (i, ''}'') \<or> (\<exists>e. object_after_value s opt_ALL i = Inl e)"
    and "array_after_value s opt_ALL i = Inr (i, '']'')"
proof -
  have "(i = length s \<and> skip_blank s i = i) \<or> (i < length s \<and> skip_blank s i = i \<and> is_number_special (s ! i))"
  proof (cases "i = length s")
    case False
    then have i: "i < length s" "is_number_special (s ! i)" using assms by auto
    have "drop i s = [] @ s ! i # drop (Suc i) s" using i(1) by (simp add: Cons_nth_drop_Suc)
    from skip_at(1) [OF this ws_Nil] show ?thesis using i special_not_blank by simp
  qed (simp add: skip_blank_def)
  then show "object_after_value s opt_ALL i = Inr (i, ''}'') \<or> (\<exists>e. object_after_value s opt_ALL i = Inl e)"
      "array_after_value s opt_ALL i = Inr (i, '']'')"
    using special_not_blank by (auto simp: object_after_value_def array_after_value_def close_object_def close_array_def object_catch_def)
qed

lemma after_blank:
  assumes "drop i s = w" "ws w"
  shows "object_after_value s opt_ALL i = Inr (i, ''}'')" "array_after_value s opt_ALL i = Inr (i, '']'')"
  using blank_end [OF assms] by (simp_all add: object_after_value_def array_after_value_def close_object_def close_array_def)

lemma after_comma:
  assumes "drop i s = w @ CHR '','' # t" "ws w"
  shows "object_after_value s a i = object_loop s a i (i + length w + 1)"
    "array_after_value s a i = array_loop s a i (i + length w + 1)"
    "drop (i + length w + 1) s = t"
proof -
  note p = skip_at [OF assms space_plain(5)]
  show "object_after_value s a i = object_loop s a i (i + length w + 1)"
    "array_after_value s a i = array_loop s a i (i + length w + 1)"
    using p(1-3) by (simp_all add: object_after_value_def array_after_value_def)
  show "drop (i + length w + 1) s = t" using drop_past [of "i + length w" s "'',''" t] p(4) by simp
qed

lemma take_past: "drop j s = u @ t \<Longrightarrow> take (j + length u) s = take j s @ u"
  by (metis append_eq_conv_conj take_add)

lemma tail_cases:
  assumes "w2 @ T = p2 @ q" "ws w2" "T = [] \<or> (\<exists>e. T = CHR '','' # e)"
  obtains (blank) "ws p2" | (comma) t where "p2 = w2 @ CHR '','' # t" "T = CHR '','' # t @ q"
proof -
  obtain us where "w2 @ us = p2 \<and> T = us @ q \<or> w2 = p2 @ us \<and> us @ T = q"
    using assms(1) by (auto simp: append_eq_append_conv2)
  then show thesis
  proof
    assume us: "w2 @ us = p2 \<and> T = us @ q"
    then show thesis using assms(2,3) blank comma by (cases us) auto
  next
    assume "w2 = p2 @ us \<and> us @ T = q"
    then show thesis using assms(2) blank by (simp add: ws_def)
  qed
qed

text \<open>One element: \<open>T\<close> is what follows it, nothing or a comma and more elements.\<close>

lemma elements_cut:
  assumes d: "drop j s = p" and eq: "w1 @ v @ w2 @ T = p @ q" and no: "CHR 0x5C \<notin> set p"
    and w: "ws w1" "jvalue v" "value_cut v" "ws w2"
    and T: "T = [] \<or> (\<exists>e. T = CHR '','' # e \<and> (\<forall>j' i' t. drop j' s = t \<longrightarrow> e = t @ q \<longrightarrow> i' \<le> length s \<longrightarrow> CHR 0x5C \<notin> set t \<longrightarrow>
        inner_cut jelements '']'' s i' j' (array_loop s opt_ALL i' j')))"
    and i: "i \<le> length s"
  shows "inner_cut jelements '']'' s i j (array_loop s opt_ALL i j)"
proof -
  have blank: ?thesis if "ws p" using array_blank [OF d that, of i] i by (simp add: inner_cut_def)
  consider (a) us where "p @ us = w1" | (b) p1 where "p = w1 @ p1" "v @ w2 @ T = p1 @ q"
    using eq by (auto simp: append_eq_append_conv2)
  then show ?thesis
  proof cases
    case a
    then have "ws p" using w(1) by (auto simp: ws_def)
    then show ?thesis by (rule blank)
  next
    case b
    show ?thesis
    proof (cases p1)
      case Nil
      then show ?thesis using blank b(1) w(1) by simp
    next
      case (Cons c cs)
      obtain vc vs where "v = vc # vs" "\<not> is_space vc" "vc \<noteq> CHR '']''" using jvalue_hd_visible [OF w(2)] by (cases v) auto
      then have c: "\<not> is_space c" "c \<noteq> CHR '']''" using b(2) Cons by auto
      have d1: "drop j s = w1 @ c # cs" using d b(1) Cons by simp
      note run = array_at_value [OF d1 w(1) c, of i]
      have at: "drop (j + length w1) s = p1" using drop_past [OF d1] Cons by simp
      have tk: "take (j + length w1 + n) s = take j s @ w1 @ take n p1" for n
        using take_past [OF d1] at by (metis append.assoc take_add)
      have "length s - (j + length w1) = length p1" using at by (metis length_drop)
      then have len: "j + length w1 + length p1 = length s" using Cons by simp
      have nth: "s ! (j + length w1 + n) = p1 ! n" for n using nth_drop [of "j + length w1" s n] at len by simp
      consider (c) us where "p1 @ us = v" "us \<noteq> []" | (e) p2 where "p1 = v @ p2" "w2 @ T = p2 @ q"
        using b(2) by (auto simp: append_eq_append_conv2) (metis append_Nil2)
      then show ?thesis
      proof cases
        case c
        have noc: "CHR 0x5C \<notin> set p1" and ne: "p1 \<noteq> []" using no b(1) Cons by simp_all
        show ?thesis
        proof (cases "complete_any p1 opt_ALL False")
          case (Inl x)
          then show ?thesis using run Cons i by (simp add: inner_cut_def)
        next
          case (Inr r)
          obtain n t where r: "r = (n, t)" by fastforce
          note cut = value_cutD [OF w(3) [folded c(1)] ne c(2) noc Inr [unfolded r]]
          have g: "jelements (w1 @ take n p1 @ t)" using element_last [OF w(1) cut(2) ws_Nil] by simp
          have le: "j + length w1 + n \<le> length s" using cut(1) Cons len by simp
          show ?thesis
          proof (cases "t = []")
            case True
            have "j + length w1 + n = length s \<or> is_number_special (s ! (j + length w1 + n))"
              using cut(3) [OF True] len nth [of n] by auto
            from after_end(2) [OF le this] have "array_loop s opt_ALL i j = Inr (j + length w1 + n, '']'')"
              using run Inr r True Cons by simp
            then show ?thesis using g le tk [of n] True unfolding inner_cut_def by auto
          next
            case False
            then have "array_loop s opt_ALL i j = Inr (j + length w1 + n, t @ '']'')" using run Inr r Cons by simp
            then show ?thesis using g le tk [of n] unfolding inner_cut_def by auto
          qed
        qed
      next
        case e
        have T': "T = [] \<or> (\<exists>e. T = CHR '','' # e)" using T by blast
        note tail = tail_cases [OF e(2) w(4) T']
        have whole: "complete_any p1 opt_ALL False = Inr (length v, [])"
        proof (rule tail)
          assume "ws p2"
          then show ?thesis using whole_end [OF w(2)] e(1) by simp
        next
          fix t assume "p2 = w2 @ CHR '','' # t"
          then show ?thesis using whole_valueD [OF completion_whole(1) [OF w(2)] ends_value_ws [OF w(4)]] e(1) by simp
        qed
        then have run': "array_loop s opt_ALL i j = array_after_value s opt_ALL (j + length w1 + length v)" using run Cons by simp
        have at': "drop (j + length w1 + length v) s = p2" using drop_past [of "j + length w1" s v p2] at e(1) by simp
        have tk': "take (j + length w1 + length v) s = take j s @ w1 @ v" using tk [of "length v"] e(1) by simp
        have le: "j + length w1 + length v \<le> length s" using len e(1) by simp
        have base: "jelements (w1 @ v)" using element_last [OF w(1,2) ws_Nil] by simp
        show ?thesis
        proof (rule tail)
          assume "ws p2"
          then show ?thesis using run' after_blank(2) [OF at'] base le tk' unfolding inner_cut_def by auto
        next
          fix t assume g: "p2 = w2 @ CHR '','' # t" "T = CHR '','' # t @ q"
          note more = after_comma [OF at' [unfolded g(1)] w(4)]
          have rec: "inner_cut jelements '']'' s (j + length w1 + length v) (j + length w1 + length v + length w2 + 1) (array_loop s opt_ALL i j)"
            unfolding run' more(2) using T g more(3) le no b(1) e(1) by auto
          have tk2: "take (j + length w1 + length v + length w2 + 1) s = take j s @ w1 @ v @ w2 @ '',''"
            using take_past [of "j + length w1 + length v" s "w2 @ '',''" t] at' g(1) tk' by (simp add: add.assoc)
          have "jelements (w1 @ v @ w2 @ '','' @ e)" if "jelements e" for e using element_more [OF w(1,2,4) that] .
          then show ?thesis using rec base tk' tk2 unfolding inner_cut_def by fastforce
        qed
      qed
    qed
  qed
qed

text \<open>One member, from the value on.\<close>

lemma member_value_cut:
  assumes d: "drop j s = h @ p1" and h: "h = w1 @ k @ w2 @ CHR '':'' # w3" and eq: "v @ w4 @ T = p1 @ q" and ne: "p1 \<noteq> []"
    and no: "CHR 0x5C \<notin> set p1"
    and w: "ws w1" "jstring k" "ws w2" "ws w3" "jvalue v" "value_cut v" "ws w4"
    and T: "T = [] \<or> (\<exists>e. T = CHR '','' # e \<and> (\<forall>j' i' t. drop j' s = t \<longrightarrow> e = t @ q \<longrightarrow> i' \<le> length s \<longrightarrow> CHR 0x5C \<notin> set t \<longrightarrow>
        inner_cut jmembers ''}'' s i' j' (object_loop s opt_ALL i' j')))"
    and i: "i \<le> length s"
  shows "inner_cut jmembers ''}'' s i j (object_loop s opt_ALL i j)"
proof -
  obtain c cs where p1: "p1 = c # cs" using ne by (cases p1) auto
  obtain vc vs where "v = vc # vs" "\<not> is_space vc" using jvalue_hd_visible [OF w(5)] by (cases v) auto
  then have c: "\<not> is_space c" using eq p1 by auto
  define b where "b = j + length h"
  have hb: "j + length (w1 @ k @ w2 @ '':'' @ w3) = b" by (simp add: b_def h)
  have "drop j s = w1 @ k @ w2 @ CHR '':'' # w3 @ c # cs" using d h p1 by simp
  note run1 = object_at_value(1) [OF this w(1-4) c, where i = i and a = opt_ALL, unfolded hb, folded p1]
    and run2 = object_at_value(2) [OF this w(1-4) c, unfolded hb, folded p1]
  have at: "drop b s = p1" using run2 .
  have tk: "take (b + n) s = take j s @ h @ take n p1" for n
    using take_past [OF d] at unfolding b_def by (metis append.assoc take_add)
  have "length s - b = length p1" using at by (metis length_drop)
  then have len: "b + length p1 = length s" using p1 by simp
  have nth: "s ! (b + n) = p1 ! n" for n using nth_drop [of b s n] at len by simp
  have member: "jmembers (h @ x)" if "jvalue x" for x using member_last [OF w(1-4) that ws_Nil] h by simp
  have catch: "inner_cut jmembers ''}'' s i j (object_catch s i v' opt_ALL e)" for v' e
    using i by (simp add: inner_cut_def object_catch_def close_object_def)
  consider (c) us where "p1 @ us = v" "us \<noteq> []" | (e) p2 where "p1 = v @ p2" "w4 @ T = p2 @ q"
    using eq by (auto simp: append_eq_append_conv2) (metis append_Nil2)
  then show ?thesis
  proof cases
    case c
    show ?thesis
    proof (cases "complete_any p1 opt_ALL False")
      case (Inl x)
      then show ?thesis using run1 catch by simp
    next
      case (Inr r)
      obtain n t where r: "r = (n, t)" by fastforce
      note cut = value_cutD [OF w(6) [folded c(1)] ne c(2) no Inr [unfolded r]]
      have le: "b + n \<le> length s" using cut(1) len by simp
      have g: "jmembers (h @ take n p1 @ t)" using member [OF cut(2)] .
      show ?thesis
      proof (cases "t = []")
        case True
        have "b + n = length s \<or> is_number_special (s ! (b + n))" using cut(3) [OF True] len nth [of n] by auto
        from after_end(1) [OF le this] show ?thesis using run1 Inr r True g le tk [of n] unfolding inner_cut_def by auto
      next
        case False
        then have "object_loop s opt_ALL i j = Inr (b + n, t @ ''}'')" using run1 Inr r by simp
        then show ?thesis using g le tk [of n] unfolding inner_cut_def by auto
      qed
    qed
  next
    case e
    have T': "T = [] \<or> (\<exists>e. T = CHR '','' # e)" using T by blast
    note tail = tail_cases [OF e(2) w(7) T']
    have whole: "complete_any p1 opt_ALL False = Inr (length v, [])"
    proof (rule tail)
      assume "ws p2"
      then show ?thesis using whole_end [OF w(5)] e(1) by simp
    next
      fix t assume "p2 = w4 @ CHR '','' # t"
      then show ?thesis using whole_valueD [OF completion_whole(1) [OF w(5)] ends_value_ws [OF w(7)]] e(1) by simp
    qed
    then have run': "object_loop s opt_ALL i j = object_after_value s opt_ALL (b + length v)" using run1 by simp
    have at': "drop (b + length v) s = p2" using drop_past [of b s v p2] at e(1) by simp
    have tk': "take (b + length v) s = take j s @ h @ v" using tk [of "length v"] e(1) by simp
    have le: "b + length v \<le> length s" using len e(1) by simp
    show ?thesis
    proof (rule tail)
      assume "ws p2"
      then show ?thesis using run' after_blank(1) [OF at'] member [OF w(5)] le tk' unfolding inner_cut_def by auto
    next
      fix t assume g: "p2 = w4 @ CHR '','' # t" "T = CHR '','' # t @ q"
      note more = after_comma [OF at' [unfolded g(1)] w(7)]
      have rec: "inner_cut jmembers ''}'' s (b + length v) (b + length v + length w4 + 1) (object_loop s opt_ALL i j)"
        unfolding run' more(1) using T g more(3) le no e(1) by auto
      have tk2: "take (b + length v + length w4 + 1) s = take j s @ h @ v @ w4 @ '',''"
        using take_past [of "b + length v" s "w4 @ '',''" t] at' g(1) tk' by (simp add: add.assoc)
      have "jmembers (h @ v @ w4 @ '','' @ e)" if "jmembers e" for e using member_more [OF w(1-5) w(7) that] h by simp
      then show ?thesis using rec member [OF w(5)] tk' tk2 unfolding inner_cut_def by fastforce
    qed
  qed
qed

lemma members_cut:
  assumes d: "drop j s = p" and eq: "w1 @ k @ w2 @ CHR '':'' # w3 @ v @ w4 @ T = p @ q" and no: "CHR 0x5C \<notin> set p"
    and w: "ws w1" "jstring k" "ws w2" "ws w3" "jvalue v" "value_cut v" "ws w4"
    and T: "T = [] \<or> (\<exists>e. T = CHR '','' # e \<and> (\<forall>j' i' t. drop j' s = t \<longrightarrow> e = t @ q \<longrightarrow> i' \<le> length s \<longrightarrow> CHR 0x5C \<notin> set t \<longrightarrow>
        inner_cut jmembers ''}'' s i' j' (object_loop s opt_ALL i' j')))"
    and i: "i \<le> length s"
  shows "inner_cut jmembers ''}'' s i j (object_loop s opt_ALL i j)"
proof -
  have stop: ?thesis if "object_loop s opt_ALL i j = Inr (i, ''}'')" using that i by (simp add: inner_cut_def)
  consider (a) us where "p @ us = w1" | (b) p1 where "p = w1 @ p1" "k @ w2 @ CHR '':'' # w3 @ v @ w4 @ T = p1 @ q"
    using eq by (auto simp: append_eq_append_conv2)
  then show ?thesis
  proof cases
    case a
    then have "ws p" using w(1) by (auto simp: ws_def)
    then show ?thesis using object_blank [OF d] stop by blast
  next
    case b
    show ?thesis
    proof (cases "p1 = []")
      case True
      then show ?thesis using object_blank [OF d] stop b(1) w(1) by simp
    next
      case ne: False
      consider (c) us where "p1 @ us = k" "us \<noteq> []" | (e) p2 where "p1 = k @ p2" "w2 @ CHR '':'' # w3 @ v @ w4 @ T = p2 @ q"
        using b(2) by (auto simp: append_eq_append_conv2) (metis append_Nil2)
      then show ?thesis
      proof cases
        case c
        then show ?thesis using object_key_cut [OF d [unfolded b(1)] w(1) w(2) [folded c(1)] ne c(2)] stop no b(1) by simp
      next
        case e
        consider (f) us where "p2 @ us = w2" | (g) p3 where "p2 = w2 @ p3" "CHR '':'' # w3 @ v @ w4 @ T = p3 @ q"
          using e(2) by (auto simp: append_eq_append_conv2)
        then show ?thesis
        proof cases
          case f
          then have "ws p2" using w(3) by (auto simp: ws_def)
          then show ?thesis using object_key_blank [of j s w1 k p2 i] d b(1) e(1) w(1,2) stop by simp
        next
          case g
          show ?thesis
          proof (cases p3)
            case Nil
            then show ?thesis using object_key_blank [of j s w1 k w2 i] d b(1) e(1) g(1) w(1,2,3) stop by simp
          next
            case (Cons x p4)
            then have p4: "p3 = CHR '':'' # p4" "w3 @ v @ w4 @ T = p4 @ q" using g(2) by auto
            have blank: ?thesis if "ws p4"
              using object_colon_blank [of j s w1 k w2 p4 i] d b(1) e(1) g(1) p4(1) w(1,2,3) that stop by simp
            consider (l) us where "p4 @ us = w3" | (m) p5 where "p4 = w3 @ p5" "v @ w4 @ T = p5 @ q"
              using p4(2) by (auto simp: append_eq_append_conv2)
            then show ?thesis
            proof cases
              case l
              then have "ws p4" using w(4) by (auto simp: ws_def)
              then show ?thesis by (rule blank)
            next
              case m
              show ?thesis
              proof (cases "p5 = []")
                case True
                then show ?thesis using blank m(1) w(4) by simp
              next
                case False
                have "drop j s = (w1 @ k @ w2 @ CHR '':'' # w3) @ p5" using d b(1) e(1) g(1) p4(1) m(1) by simp
                moreover have "CHR 0x5C \<notin> set p5" using no b(1) e(1) g(1) p4(1) m(1) by simp
                ultimately show ?thesis using member_value_cut [OF _ refl m(2) False _ w T i] by blast
              qed
            qed
          qed
        qed
      qed
    qed
  qed
qed

text \<open>A container that is cut off, from its opening bracket.\<close>

lemma object_cut:
  assumes "CHR ''{'' # m @ ''}'' = p @ q" "p \<noteq> []" "q \<noteq> []" "complete_any p opt_ALL lvl = Inr (k, u)"
    and inner: "\<And>p' q'. p = CHR ''{'' # p' \<Longrightarrow> m = p' @ q' \<Longrightarrow> inner_cut jmembers ''}'' p 1 1 (object_loop p opt_ALL 1 1)"
  shows "k \<le> length p \<and> jvalue (take k p @ u) \<and> u \<noteq> []"
proof -
  obtain p' where p: "p = CHR ''{'' # p'" "m @ ''}'' = p' @ q" using assms(1,2) by (cases p) auto
  obtain q' where q: "m = p' @ q'" using p(2) assms(3) by (cases q rule: rev_cases) auto
  have "object_loop p opt_ALL 1 1 = Inr (k, u)" using assms(4) by (simp add: complete_any.simps p(1))
  then have "inner_cut jmembers ''}'' p 1 1 (Inr (k, u))" using inner [OF p(1) q] by simp
  then have res: "u \<noteq> []" "k \<le> length p" "k = 1 \<and> u = ''}'' \<or> (\<exists>g. jmembers g \<and> take k p @ u = take 1 p @ g @ ''}'')"
    by (auto simp: inner_cut_def)
  have "jvalue ''{}''" using val_object_empty [OF ws_Nil] by simp
  then have "jvalue (take k p @ u)" using res(3) p(1) val_object by (auto simp: numeral_eq_Suc)
  then show ?thesis using res by blast
qed

lemma array_cut:
  assumes "CHR ''['' # m @ '']'' = p @ q" "p \<noteq> []" "q \<noteq> []" "complete_any p opt_ALL lvl = Inr (k, u)"
    and inner: "\<And>p' q'. p = CHR ''['' # p' \<Longrightarrow> m = p' @ q' \<Longrightarrow> inner_cut jelements '']'' p 1 1 (array_loop p opt_ALL 1 1)"
  shows "k \<le> length p \<and> jvalue (take k p @ u) \<and> u \<noteq> []"
proof -
  obtain p' where p: "p = CHR ''['' # p'" "m @ '']'' = p' @ q" using assms(1,2) by (cases p) auto
  obtain q' where q: "m = p' @ q'" using p(2) assms(3) by (cases q rule: rev_cases) auto
  have "array_loop p opt_ALL 1 1 = Inr (k, u)" using assms(4) by (simp add: complete_any.simps p(1))
  then have "inner_cut jelements '']'' p 1 1 (Inr (k, u))" using inner [OF p(1) q] by simp
  then have res: "u \<noteq> []" "k \<le> length p" "k = 1 \<and> u = '']'' \<or> (\<exists>g. jelements g \<and> take k p @ u = take 1 p @ g @ '']'')"
    by (auto simp: inner_cut_def)
  have "jvalue ''[]''" using val_array_empty [OF ws_Nil] by simp
  then have "jvalue (take k p @ u)" using res(3) p(1) val_array by (auto simp: numeral_eq_Suc)
  then show ?thesis using res by blast
qed

lemma number_value_cut:
  assumes "jnumber (p @ q)" "p \<noteq> []" "complete_any p opt_ALL lvl = Inr (k, u)"
  shows "k \<le> length p \<and> jvalue (take k p @ u) \<and> (u = [] \<longrightarrow> k = length p \<or> is_number_special (p ! k))"
proof -
  note shape = jnumber_shape [OF assms(1)]
  have hd: "is_digit (hd p) \<or> hd p = CHR ''-''" using shape assms(2) by (cases p) auto
  then have nd: "hd p \<notin> {CHR 0x22, CHR ''['', CHR ''{''}" by (auto simp: is_digit_def)
  have one: "p ! 1 \<noteq> CHR ''I''" if "length p \<noteq> 1"
  proof -
    have "1 < length p" using that assms(2) by (cases p) auto
    then have "p ! 1 \<in> set (p @ q)" by simp
    then have "is_number_char (p ! 1)" using shape by (simp add: list_all_iff)
    then show ?thesis by (auto simp: is_number_char_def is_digit_def is_number_special_def)
  qed
  have "complete_any p opt_ALL lvl = complete_number p opt_ALL lvl"
    using assms(2,3) hd nd one by (auto simp: complete_any.simps [of p] split: if_splits)
  with number_cut [OF assms(1,2)] assms(3) have "u = []" "k \<le> length p" "jnumber (take k p)" "k = length p \<or> is_number_special (p ! k)"
    by auto
  then show ?thesis using jvalue_jmembers_jelements.val_number by simp
qed

lemma completion_cut:
  "jvalue v \<Longrightarrow> value_cut v"
  "jmembers m \<Longrightarrow> \<forall>s i j p q. drop j s = p \<longrightarrow> m = p @ q \<longrightarrow> i \<le> length s \<longrightarrow> CHR 0x5C \<notin> set p \<longrightarrow>
     inner_cut jmembers ''}'' s i j (object_loop s opt_ALL i j)"
  "jelements e \<Longrightarrow> \<forall>s i j p q. drop j s = p \<longrightarrow> e = p @ q \<longrightarrow> i \<le> length s \<longrightarrow> CHR 0x5C \<notin> set p \<longrightarrow>
     inner_cut jelements '']'' s i j (array_loop s opt_ALL i j)"
proof (induction rule: jvalue_jmembers_jelements.inducts)
  case (val_string s)
  have "k \<le> length p \<and> jvalue (take k p @ u) \<and> (u = [] \<longrightarrow> k = length p \<or> is_number_special (p ! k))"
    if "s = p @ q" "p \<noteq> []" "q \<noteq> []" "CHR 0x5C \<notin> set p" "complete_any p opt_ALL lvl = Inr (k, u)" for p q lvl k u
  proof -
    note cut = string_cut [OF val_string [unfolded that(1)] that(2-4)]
    then have "complete_any p opt_ALL lvl = complete_string p opt_ALL" using that(2) by (simp add: complete_any.simps)
    then show ?thesis using cut that(5) jvalue_jmembers_jelements.val_string by auto
  qed
  then show ?case unfolding value_cut_def by blast
next
  case (val_number s)
  then show ?case unfolding value_cut_def using number_value_cut by blast
next
  case (val_literal s)
  have "k \<le> length p \<and> jvalue (take k p @ u) \<and> (u = [] \<longrightarrow> k = length p \<or> is_number_special (p ! k))"
    if "s = p @ q" "p \<noteq> []" "q \<noteq> []" "complete_any p opt_ALL lvl = Inr (k, u)" for p q lvl k u
  proof -
    note cut = literal_cut [OF val_literal [unfolded that(1)] that(2,3)]
    then have "complete_any p opt_ALL lvl = complete_literal p opt_ALL" using that(2) by (auto simp: complete_any.simps is_digit_def)
    then show ?thesis using cut that jvalue_jmembers_jelements.val_literal [OF val_literal] by auto
  qed
  then show ?case unfolding value_cut_def by blast
next
  case (val_object_empty w)
  have inner: "inner_cut jmembers ''}'' p 1 1 (object_loop p opt_ALL 1 1)" if "p = CHR ''{'' # p'" "w = p' @ q'" for p p' q'
  proof -
    have "ws p'" using val_object_empty that(2) by (simp add: ws_def)
    then show ?thesis using object_blank [of 1 p p' 1] that(1) by (simp add: inner_cut_def)
  qed
  have "k \<le> length p \<and> jvalue (take k p @ u) \<and> (u = [] \<longrightarrow> k = length p \<or> is_number_special (p ! k))"
    if "CHR ''{'' # w @ ''}'' = p @ q" "p \<noteq> []" "q \<noteq> []" "CHR 0x5C \<notin> set p" "complete_any p opt_ALL lvl = Inr (k, u)" for p q lvl k u
    using object_cut [OF that(1-3,5) inner] that(4) by simp
  then show ?case unfolding value_cut_def by simp
next
  case (val_object m)
  have inner: "inner_cut jmembers ''}'' p 1 1 (object_loop p opt_ALL 1 1)"
    if "p = CHR ''{'' # p'" "m = p' @ q'" "CHR 0x5C \<notin> set p" for p p' q'
    using val_object.IH that by simp
  have "k \<le> length p \<and> jvalue (take k p @ u) \<and> (u = [] \<longrightarrow> k = length p \<or> is_number_special (p ! k))"
    if "CHR ''{'' # m @ ''}'' = p @ q" "p \<noteq> []" "q \<noteq> []" "CHR 0x5C \<notin> set p" "complete_any p opt_ALL lvl = Inr (k, u)" for p q lvl k u
    using object_cut [OF that(1-3,5) inner [OF _ _ that(4)]] by simp
  then show ?case unfolding value_cut_def by simp
next
  case (val_array_empty w)
  have inner: "inner_cut jelements '']'' p 1 1 (array_loop p opt_ALL 1 1)" if "p = CHR ''['' # p'" "w = p' @ q'" for p p' q'
  proof -
    have "ws p'" using val_array_empty that(2) by (simp add: ws_def)
    then show ?thesis using array_blank [of 1 p p' 1] that(1) by (simp add: inner_cut_def)
  qed
  have "k \<le> length p \<and> jvalue (take k p @ u) \<and> (u = [] \<longrightarrow> k = length p \<or> is_number_special (p ! k))"
    if "CHR ''['' # w @ '']'' = p @ q" "p \<noteq> []" "q \<noteq> []" "CHR 0x5C \<notin> set p" "complete_any p opt_ALL lvl = Inr (k, u)" for p q lvl k u
    using array_cut [OF that(1-3,5) inner] that(4) by simp
  then show ?case unfolding value_cut_def by simp
next
  case (val_array e)
  have inner: "inner_cut jelements '']'' p 1 1 (array_loop p opt_ALL 1 1)"
    if "p = CHR ''['' # p'" "e = p' @ q'" "CHR 0x5C \<notin> set p" for p p' q'
    using val_array.IH that by simp
  have "k \<le> length p \<and> jvalue (take k p @ u) \<and> (u = [] \<longrightarrow> k = length p \<or> is_number_special (p ! k))"
    if "CHR ''['' # e @ '']'' = p @ q" "p \<noteq> []" "q \<noteq> []" "CHR 0x5C \<notin> set p" "complete_any p opt_ALL lvl = Inr (k, u)" for p q lvl k u
    using array_cut [OF that(1-3,5) inner [OF _ _ that(4)]] by simp
  then show ?case unfolding value_cut_def by simp
next
  case (member_last w1 k w2 w3 v w4)
  then show ?case using members_cut [of _ _ _ w1 k w2 w3 v w4 "[]"] by simp
next
  case (member_more w1 k w2 w3 v w4 m)
  have "inner_cut jmembers ''}'' s i j (object_loop s opt_ALL i j)"
    if "drop j s = p" "w1 @ k @ w2 @ '':'' @ w3 @ v @ w4 @ '','' @ m = p @ q" "i \<le> length s" "CHR 0x5C \<notin> set p" for s i j p q
    using members_cut [of j s p w1 k w2 w3 v w4 "CHR '','' # m" q i] that member_more by simp
  then show ?case by blast
next
  case (element_last w1 v w2)
  then show ?case using elements_cut [of _ _ _ w1 v w2 "[]"] by simp
next
  case (element_more w1 v w2 e)
  have "inner_cut jelements '']'' s i j (array_loop s opt_ALL i j)"
    if "drop j s = p" "w1 @ v @ w2 @ '','' @ e = p @ q" "i \<le> length s" "CHR 0x5C \<notin> set p" for s i j p q
    using elements_cut [of j s p w1 v w2 "CHR '','' # e" q i] that element_more by simp
  then show ?case by blast
qed

end
