(* ===== verification/Partial_Json_Properties.thy ===== *)
theory Partial_Json_Properties imports Partial_Json_Sound begin

text \<open>
  The properties of the completion of truncated JSON: what it returns, that its result is JSON, and the two
  inputs on which it is not.
\<close>

section \<open>Properties\<close>

text \<open>A complete JSON object is left as it is: with any options, parsing an object text returns the object
  itself, only the blanks around it being dropped.\<close>

theorem complete_object_unchanged:
  assumes "ws w1" "jvalue v" "hd v = CHR ''{''" "ws w2"
  shows "parse_json (w1 @ v @ w2) a = Inr v"
proof -
  obtain cs where v: "v = CHR ''{'' # cs" using assms(3) jvalue_nonempty [OF assms(2)] by (cases v) auto
  have "drop 0 (w1 @ v @ w2) = w1 @ CHR ''{'' # cs @ w2" by (simp add: v)
  note p = skip_at [OF this assms(1) space_plain(1)]
  have "complete_any (v @ w2) a True = Inr (length v, [])"
    using completion_whole(1) [OF assms(2), of a] assms(3) by (simp add: whole_value_def)
  moreover have "drop (skip_blank (w1 @ v @ w2) 0) (w1 @ v @ w2) = v @ w2" using p(1) by simp
  ultimately show ?thesis by (simp add: parse_json_def v)
qed

lemma complete_object_unchanged_witness: "parse_json '' {}'' opt_STR = Inr ''{}''"
proof -
  have "jvalue ''{}''" using val_object_empty [of "[]"] by simp
  with complete_object_unchanged [of "'' ''" "''{}''" "[]" opt_STR] show ?thesis by (simp add: is_json_whitespace_def)
qed

text \<open>A completion only cuts a tail off the text and closes what is open: the result is a prefix of the input behind
  its leading blanks, followed by at most one completed word (a quote or a literal) and closing brackets.\<close>

theorem completion_keeps_prefix:
  assumes "parse_malformed_string fmt s a False = Inr t"
  shows "\<exists>k u. t = take k (drop (skip_blank s 0) s) @ u \<and> skip_blank s 0 + k \<le> length s \<and> closing_text u"
proof -
  let ?v = "drop (skip_blank s 0) s"
  have le: "skip_blank s 0 \<le> length s" using length_takeWhile_le [of is_space s] by (simp add: skip_blank_def)
  obtain k u where r: "complete_any ?v a True = Inr (k, u)" "t = take k ?v @ u"
    using assms by (auto simp: parse_malformed_string_def parse_json_def Let_def split: if_splits sum.splits prod.splits)
  then have "k \<le> length ?v" "closing_text u" using completion_closes(1) [of ?v a True] by simp_all
  moreover have "length ?v = length s - skip_blank s 0" by simp
  ultimately show ?thesis using r(2) le by (intro exI [of _ k] exI [of _ u]) linarith
qed

lemma completion_keeps_prefix_witness:
  "\<exists>k u. ''[t'' @ ''rue]'' = take k ''[t'' @ u \<and> closing_text u"
proof -
  have "parse_malformed_string id ''[t'' opt_ALL False = Inr ''[true]''" by code_simp
  from completion_keeps_prefix [OF this] show ?thesis by (auto simp: skip_blank_def is_space_def)
qed
lemma object_loop_pos: "0 < i \<Longrightarrow> object_loop s a i j = Inr (k, u) \<Longrightarrow> 0 < k"
proof (induction "length s - j" arbitrary: i j rule: less_induct)
  case less
  have rec: "0 < k" if "object_loop s a i' (Suc j') = Inr (k, u)" "j \<le> j'" "j < length s" "0 < i'" for i' j'
    using less(1) [OF _ that(4,1)] that(2,3) by simp
  have v: "0 < skip_blank s (skip_blank s (skip_blank s j + n) + 1)" for n
    using skip_blank_ge [of "skip_blank s (skip_blank s j + n) + 1" s] by linarith
  have le: "j \<le> skip_blank s (skip_blank s (Suc (skip_blank s (skip_blank s j + n))) + m)" for n m
    by (meson le_skip_blank skip_blank_ge)
  show ?case
    using less(2,3) v le rec by (subst (asm) object_loop.simps)
      (auto simp: object_catch_def close_object_def Let_def split: if_splits sum.splits prod.splits)
qed

lemma completion_opens:
  assumes "complete_any (CHR ''{'' # ds) a lvl = Inr (k, u)"
  shows "0 < k"
  using assms object_loop_pos [of 1] by (simp add: complete_any.simps)

text \<open>C26.  Completion is sound: when the text is a prefix of a JSON object (and holds no escape sequence), the result of
  completing it, with every option on, is itself a JSON object.\<close>

theorem completion_sound:
  assumes "json_object_text (p @ rest)" "\<not> ws p" "CHR 0x5C \<notin> set p" "parse_json p opt_ALL = Inr t"
  shows "json_object_text t"
proof -
  obtain w1 v w2 where v: "p @ rest = w1 @ v @ w2" "ws w1" "jvalue v" "ws w2" "hd v = CHR ''{''"
    using assms(1) unfolding json_object_text_def by blast
  have "\<not> (\<exists>us. p @ us = w1)" using assms(2) v(2) by (auto simp: ws_def)
  then obtain p1 where p1: "p = w1 @ p1" "v @ w2 = p1 @ rest" using v(1) by (auto simp: append_eq_append_conv2)
  have ne: "p1 \<noteq> []" using assms(2) p1(1) v(2) by auto
  obtain cs where cs: "v = CHR ''{'' # cs" using v(5) jvalue_nonempty [OF v(3)] by (cases v) auto
  obtain ds where ds: "p1 = CHR ''{'' # ds" using ne p1(2) cs by (cases p1) auto
  have "drop 0 p = w1 @ CHR ''{'' # ds" using p1(1) ds by simp
  from skip_at [OF this v(2) space_plain(1)] have at: "drop (skip_blank p 0) p = p1" using ds by simp
  obtain k u where r: "complete_any p1 opt_ALL True = Inr (k, u)" "t = take k p1 @ u"
    using assms(4) at by (auto simp: parse_json_def Let_def split: if_splits sum.splits prod.splits)
  have obj: "json_object_text t" if jt: "jvalue t"
  proof -
    obtain x xs where t: "t = x # xs" using jvalue_nonempty [OF jt] by (cases t) auto
    have "x = CHR ''{''"
    proof (cases k)
      case 0
      then show ?thesis using r completion_opens [of ds opt_ALL True k u] ds t by simp
    next
      case (Suc n)
      then show ?thesis using r(2) ds t by simp
    qed
    then show ?thesis unfolding json_object_text_def using jt t by (intro exI [of _ "[]"] exI [of _ t]) (simp add: ws_def)
  qed
  consider (a) us where "p1 @ us = v" "us \<noteq> []" | (b) p2 where "p1 = v @ p2" "w2 = p2 @ rest"
    using p1(2) by (auto simp: append_eq_append_conv2) (metis append_Nil2)
  then show ?thesis
  proof cases
    case a
    have "CHR 0x5C \<notin> set p1" using assms(3) p1(1) by simp
    from value_cutD(2) [OF completion_cut(1) [OF v(3), folded a(1)] ne a(2) this r(1)] show ?thesis using r(2) obj by simp
  next
    case b
    have "ws p2" using v(4) b(2) by (simp add: ws_def)
    from whole_end [OF v(3) this, of True] have "t = v" using r b(1) by simp
    then show ?thesis using obj v(3) by simp
  qed
qed


lemma completion_sound_witness: "json_object_text ''{}'' \<and> parse_json '' { '' opt_ALL = Inr ''{}''"
proof -
  have "jvalue ''{ }''" using val_object_empty [of "'' ''"] by (simp add: ws_def is_json_whitespace_def)
  then have "json_object_text ('' { '' @ ''}'')"
    unfolding json_object_text_def by (intro exI [of _ "'' ''"] exI [of _ "''{ }''"] exI [of _ "[]"]) (simp add: ws_def is_json_whitespace_def)
  moreover have run: "parse_json '' { '' opt_ALL = Inr ''{}''" by code_simp
  ultimately show ?thesis using completion_sound [of "'' { ''" "''}''" "''{}''"] by (simp add: ws_def is_json_whitespace_def)
qed

text \<open>The two inputs of the findings, both prefixes of an object: a string with an escape sequence behind which it goes on,
  and a member whose value is a number cut behind its sign or its point.\<close>

definition escaped_prefix :: string where
  "escaped_prefix = [CHR ''{'', CHR 0x22, CHR ''a'', CHR 0x22, CHR '':'', CHR 0x22, CHR 0x5C] @ ''u0041b''"

definition number_prefix_text :: "string \<Rightarrow> string" where
  "number_prefix_text n = [CHR ''{'', CHR 0x22, CHR ''a'', CHR 0x22, CHR '':''] @ n"

text \<open>A string that is cut behind a complete \<open>u\<close> escape is closed inside of the escape, so that the completion of a
  prefix of an object is not JSON.\<close>

theorem unicode_escape_misclosed:
  "json_object_text (escaped_prefix @ [CHR 0x22] @ ''}'')
   \<and> parse_json escaped_prefix opt_ALL = Inr (take 8 escaped_prefix @ [CHR 0x22] @ ''}'')
   \<and> \<not> json_object_text (take 8 escaped_prefix @ [CHR 0x22] @ ''}'')"
  unfolding run_is_object_text [symmetric] by (intro conjI; code_simp)

text \<open>A member value that is cut behind the sign or the point of a number makes the completion fail instead of closing
  the object before the member; in an array the same text is completed.\<close>

theorem cut_number_rejects_object:
  "json_object_text (number_prefix_text ''1.5}'') \<and> json_object_text (number_prefix_text ''-1}'')
   \<and> parse_json (number_prefix_text ''1.'') opt_ALL = Inl (''MalformedJSON(expected \",\" or \"}\" got .)'')
   \<and> (\<exists>e. parse_json (number_prefix_text ''-'') opt_ALL = Inl e)
   \<and> parse_json ''[1.'' opt_ALL = Inr ''[1]'' \<and> parse_json ''[-'' opt_ALL = Inr ''[]''"
proof -
  have "\<not> isl (parse_json (number_prefix_text ''-'') opt_ALL) \<longrightarrow> False" by code_simp
  then have "\<exists>e. parse_json (number_prefix_text ''-'') opt_ALL = Inl e" by (cases "parse_json (number_prefix_text ''-'') opt_ALL") auto
  moreover have "json_object_text (number_prefix_text ''1.5}'')" "json_object_text (number_prefix_text ''-1}'')"
    unfolding run_is_object_text [symmetric] by code_simp+
  moreover have "parse_json (number_prefix_text ''1.'') opt_ALL = Inl (''MalformedJSON(expected \",\" or \"}\" got .)'')" by code_simp
  moreover have "parse_json ''[1.'' opt_ALL = Inr ''[1]''" "parse_json ''[-'' opt_ALL = Inr ''[]''" by code_simp+
  ultimately show ?thesis by blast
qed

end
