(* ===== verification/Phy_Page_Pool.thy ===== *)
theory Phy_Page_Pool imports Xllm_Prelude begin

text \<open>
  The pool of physical pages of one device, \<open>core/framework/xtensor/phy_page_pool.{h,cpp}\<close>.  KV cache pages
  leave the pool from the left and take their page object along; weight pages are taken from the right and
  leave the object in the pool.  Page ids are the indices \<open>0 .. num_total - 1\<close>, the id \<open>-1\<close> of \<open>nothing found\<close> is
  \<open>None\<close>.  A failed \<open>CHECK\<close> is \<open>None\<close> of the outer option.  The pool has one device, so the device check of a
  returned page has no counterpart.
\<close>

section \<open>State\<close>

text \<open>\<open>pp_present ! i\<close> tells that \<open>all_pages_[i]\<close> holds its object, that is, that no client has taken it.\<close>

record page_pool =
  pp_initialized :: bool
  pp_total :: nat
  pp_present :: "bool list"
  pp_free :: "nat list"
  pp_allocated :: "bool list"

definition pp_empty :: page_pool where
  "pp_empty = \<lparr>pp_initialized = False, pp_total = 0, pp_present = [], pp_free = [], pp_allocated = []\<rparr>"

definition pp_init :: "nat \<Rightarrow> page_pool \<Rightarrow> page_pool" where
  "pp_init n s =
    (if pp_initialized s then s
     else \<lparr>pp_initialized = True, pp_total = n, pp_present = replicate n True, pp_free = [0..<n], pp_allocated = replicate n False\<rparr>)"

section \<open>KV cache pages\<close>

text \<open>The page popped from the front; the flag of the result tells whether the moved pointer is not null.\<close>

definition pp_pop :: "page_pool \<Rightarrow> (nat \<times> bool) \<times> page_pool" where
  "pp_pop s = (let i = hd (pp_free s) in
     ((i, pp_present s ! i),
      s\<lparr>pp_free := tl (pp_free s), pp_allocated := (pp_allocated s)[i := True], pp_present := (pp_present s)[i := False]\<rparr>))"

definition pp_get :: "page_pool \<Rightarrow> ((nat \<times> bool) option \<times> page_pool) option" where
  "pp_get s =
    (if \<not> pp_initialized s then None
     else if pp_free s = [] then Some (None, s)
     else let (p, s') = pp_pop s in Some (Some p, s'))"

fun pp_pops :: "nat \<Rightarrow> page_pool \<Rightarrow> (nat \<times> bool) list \<times> page_pool" where
  "pp_pops 0 s = ([], s)"
| "pp_pops (Suc n) s = (let (p, s1) = pp_pop s; (ps, s2) = pp_pops n s1 in (p # ps, s2))"

definition pp_batch_get :: "nat \<Rightarrow> page_pool \<Rightarrow> ((nat \<times> bool) list \<times> page_pool) option" where
  "pp_batch_get n s =
    (if \<not> pp_initialized s then None
     else if n = 0 then Some ([], s)
     else if length (pp_free s) < n then Some ([], s)
     else Some (pp_pops n s))"

definition pp_valid_id :: "page_pool \<Rightarrow> int \<Rightarrow> bool" where
  "pp_valid_id s i \<longleftrightarrow> 0 \<le> i \<and> i < int (pp_total s)"

definition pp_return :: "nat \<Rightarrow> page_pool \<Rightarrow> page_pool" where
  "pp_return i s = s\<lparr>pp_present := (pp_present s)[i := True], pp_allocated := (pp_allocated s)[i := False], pp_free := i # pp_free s\<rparr>"

text \<open>A null page is \<open>None\<close>.\<close>

definition pp_put :: "int option \<Rightarrow> page_pool \<Rightarrow> page_pool option" where
  "pp_put p s = (case p of
     None \<Rightarrow> Some s
   | Some i \<Rightarrow> if \<not> pp_initialized s \<or> \<not> pp_valid_id s i then None else Some (pp_return (nat i) s))"

fun pp_put_loop :: "int option list \<Rightarrow> page_pool \<Rightarrow> page_pool option" where
  "pp_put_loop [] s = Some s"
| "pp_put_loop (None # ps) s = pp_put_loop ps s"
| "pp_put_loop (Some i # ps) s = (if \<not> pp_valid_id s i then None else pp_put_loop ps (pp_return (nat i) s))"

definition pp_batch_put :: "int option list \<Rightarrow> page_pool \<Rightarrow> page_pool option" where
  "pp_batch_put ps s = (if ps = [] then Some s else if \<not> pp_initialized s then None else pp_put_loop ps s)"

section \<open>Weight pages\<close>

text \<open>The scan from the right for a run of \<open>n\<close> free pages; \<open>i\<close> pages are left, the last \<open>run\<close> ones seen were free.\<close>

fun scan_run :: "bool list \<Rightarrow> nat \<Rightarrow> nat \<Rightarrow> nat \<Rightarrow> nat option" where
  "scan_run al n 0 run = None"
| "scan_run al n (Suc i) run =
    (if \<not> al ! i then (if run + 1 = n then Some i else scan_run al n i (run + 1))
     else scan_run al n i 0)"

definition mark_allocated :: "nat list \<Rightarrow> page_pool \<Rightarrow> page_pool" where
  "mark_allocated ids s =
    s\<lparr>pp_allocated := fold (\<lambda>i al. al[i := True]) ids (pp_allocated s), pp_free := filter (\<lambda>i. i \<notin> set ids) (pp_free s)\<rparr>"

definition allocate_contiguous_from_right :: "nat \<Rightarrow> page_pool \<Rightarrow> (nat option \<times> page_pool) option" where
  "allocate_contiguous_from_right n s =
    (if \<not> pp_initialized s then None
     else if n = 0 \<or> length (pp_free s) < n then Some (None, s)
     else case scan_run (pp_allocated s) n (pp_total s) 0 of
         None \<Rightarrow> Some (None, s)
       | Some p \<Rightarrow> Some (Some p, mark_allocated [p..<p + n] s))"

fun scan_free :: "bool list \<Rightarrow> nat \<Rightarrow> nat \<Rightarrow> nat list" where
  "scan_free al n 0 = []"
| "scan_free al n (Suc i) =
    (if n = 0 then [] else if \<not> al ! i then i # scan_free al (n - 1) i else scan_free al n i)"

definition allocate_pages_from_right :: "nat \<Rightarrow> page_pool \<Rightarrow> (nat list \<times> page_pool) option" where
  "allocate_pages_from_right n s =
    (if \<not> pp_initialized s then None
     else if n = 0 \<or> length (pp_free s) < n then Some ([], s)
     else let ids = scan_free (pp_allocated s) n (pp_total s) in
       if length ids < n then Some ([], s) else Some (ids, mark_allocated ids s))"

fun free_weight_loop :: "int list \<Rightarrow> page_pool \<Rightarrow> page_pool option" where
  "free_weight_loop [] s = Some s"
| "free_weight_loop (i # is) s =
    (if \<not> pp_valid_id s i then None
     else if \<not> pp_allocated s ! nat i then free_weight_loop is s
     else free_weight_loop is (s\<lparr>pp_allocated := (pp_allocated s)[nat i := False], pp_free := pp_free s @ [nat i]\<rparr>))"

definition pp_free_weight_pages :: "int list \<Rightarrow> page_pool \<Rightarrow> page_pool option" where
  "pp_free_weight_pages ids s =
    (if ids = [] then Some s else if \<not> pp_initialized s then None else free_weight_loop ids s)"

definition pp_num_available :: "page_pool \<Rightarrow> nat" where
  "pp_num_available s = length (pp_free s)"

definition pp_get_all_pages :: "page_pool \<Rightarrow> nat list option" where
  "pp_get_all_pages s = (if pp_initialized s then Some [0..<pp_total s] else None)"

section \<open>The scans\<close>

definition free_segment :: "bool list \<Rightarrow> nat \<Rightarrow> nat \<Rightarrow> bool" where
  "free_segment al n p \<longleftrightarrow> p + n \<le> length al \<and> (\<forall>i. p \<le> i \<and> i < p + n \<longrightarrow> \<not> al ! i)"

lemma scan_run_exact:
  assumes "0 < n" "run < n" "i + run \<le> length al" "\<forall>k. i \<le> k \<and> k < i + run \<longrightarrow> \<not> al ! k"
    "i + run < length al \<Longrightarrow> al ! (i + run)" "\<forall>p. i + run < p \<longrightarrow> \<not> free_segment al n p"
  shows "case scan_run al n i run of
      Some p \<Rightarrow> free_segment al n p \<and> (\<forall>q>p. \<not> free_segment al n q)
    | None \<Rightarrow> \<forall>p. \<not> free_segment al n p"
  using assms(2-6)
proof (induction i arbitrary: run)
  case 0
  have "\<not> free_segment al n p" for p
  proof (cases "run < p")
    case True
    then show ?thesis using 0 by simp
  next
    case False
    have "p \<le> run \<and> run < p + n" using False 0(1) by simp
    moreover have "free_segment al n p \<Longrightarrow> run < length al" using calculation by (auto simp: free_segment_def)
    ultimately show ?thesis using 0(4) by (auto simp: free_segment_def)
  qed
  then show ?case by simp
next
  case (Suc i)
  have none: "\<not> free_segment al n q" if "i < q" for q
  proof
    assume f: "free_segment al n q"
    then have "\<not> Suc i + run < q" using Suc.prems(5) by auto
    then have "q \<le> Suc i + run \<and> Suc i + run < q + n" using that Suc.prems(1) by auto
    moreover then have "Suc i + run < length al" using f by (auto simp: free_segment_def)
    ultimately show False using f Suc.prems(4) by (auto simp: free_segment_def)
  qed
  show ?case
  proof (cases "al ! i")
    case True
    then show ?thesis using Suc.IH [of 0] assms(1) none Suc.prems by simp
  next
    case False
    have run: "\<forall>k. i \<le> k \<and> k < i + (run + 1) \<longrightarrow> \<not> al ! k" using False Suc.prems(3)
      by (metis Suc_leI add.assoc add.commute le_neq_implies_less plus_1_eq_Suc)
    show ?thesis
    proof (cases "run + 1 = n")
      case True
      then have "free_segment al n i" using run Suc.prems(2) by (simp add: free_segment_def)
      then show ?thesis using none True False by simp
    next
      case neq: False
      then show ?thesis using Suc.IH [of "run + 1"] False run Suc.prems by simp
    qed
  qed
qed

lemma scan_free_exact:
  "set (scan_free al n i) \<subseteq> {k. k < i \<and> \<not> al ! k} \<and> distinct (scan_free al n i)
   \<and> length (scan_free al n i) = min n (card {k. k < i \<and> \<not> al ! k})"
proof (induction i arbitrary: n)
  case (Suc i)
  have "{k. k < Suc i \<and> \<not> al ! k} = (if al ! i then {k. k < i \<and> \<not> al ! k} else insert i {k. k < i \<and> \<not> al ! k})"
    by (auto simp: less_Suc_eq)
  then have "card {k. k < Suc i \<and> \<not> al ! k} = card {k. k < i \<and> \<not> al ! k} + (if al ! i then 0 else 1)" by simp
  moreover have "set (scan_free al m i) \<subseteq> {k. k < Suc i \<and> \<not> al ! k} \<and> i \<notin> set (scan_free al m i)" for m
    using Suc.IH [of m] by auto
  ultimately show ?case using Suc.IH [of n] Suc.IH [of "n - 1"] by (auto simp: less_Suc_eq)
qed simp

section \<open>The invariant\<close>

text \<open>The free list holds the unallocated pages, each once; a page object that is out belongs to an allocated page.\<close>

definition pp_ok :: "page_pool \<Rightarrow> bool" where
  "pp_ok s \<longleftrightarrow> (if pp_initialized s
     then length (pp_allocated s) = pp_total s \<and> length (pp_present s) = pp_total s \<and> distinct (pp_free s)
       \<and> set (pp_free s) = {i. i < pp_total s \<and> \<not> pp_allocated s ! i}
       \<and> (\<forall>i < pp_total s. \<not> pp_present s ! i \<longrightarrow> pp_allocated s ! i)
     else s = pp_empty)"

text \<open>What a client may do: it returns page objects that it holds and frees weight pages whose object is in the pool.\<close>

definition pp_held :: "page_pool \<Rightarrow> int \<Rightarrow> bool" where
  "pp_held s i \<longleftrightarrow> pp_valid_id s i \<and> \<not> pp_present s ! nat i"

definition pp_weight :: "page_pool \<Rightarrow> int \<Rightarrow> bool" where
  "pp_weight s i \<longleftrightarrow> pp_valid_id s i \<longrightarrow> pp_present s ! nat i"

inductive pp_step :: "page_pool \<Rightarrow> page_pool \<Rightarrow> bool" where
  step_init: "pp_step s (pp_init n s)"
| step_get: "pp_get s = Some (r, s') \<Longrightarrow> pp_step s s'"
| step_batch_get: "pp_batch_get n s = Some (rs, s') \<Longrightarrow> pp_step s s'"
| step_put: "pp_put p s = Some s' \<Longrightarrow> (\<forall>i. p = Some i \<longrightarrow> pp_held s i) \<Longrightarrow> pp_step s s'"
| step_batch_put: "pp_batch_put ps s = Some s' \<Longrightarrow> (\<forall>i. Some i \<in> set ps \<longrightarrow> pp_held s i) \<Longrightarrow>
    distinct (filter (\<lambda>p. p \<noteq> None) ps) \<Longrightarrow> pp_step s s'"
| step_contiguous: "allocate_contiguous_from_right n s = Some (r, s') \<Longrightarrow> pp_step s s'"
| step_pages: "allocate_pages_from_right n s = Some (rs, s') \<Longrightarrow> pp_step s s'"
| step_free_weight: "pp_free_weight_pages is s = Some s' \<Longrightarrow> (\<forall>i \<in> set is. pp_weight s i) \<Longrightarrow> pp_step s s'"

inductive pp_reach :: "page_pool \<Rightarrow> bool" where
  reach_empty: "pp_reach pp_empty"
| reach_step: "pp_reach s \<Longrightarrow> pp_step s s' \<Longrightarrow> pp_reach s'"

lemma pp_okD:
  assumes "pp_ok s" "pp_initialized s"
  shows "length (pp_allocated s) = pp_total s" "length (pp_present s) = pp_total s" "distinct (pp_free s)"
    "set (pp_free s) = {i. i < pp_total s \<and> \<not> pp_allocated s ! i}"
    "\<And>i. i < pp_total s \<Longrightarrow> \<not> pp_present s ! i \<Longrightarrow> pp_allocated s ! i"
  using assms by (simp_all add: pp_ok_def)

lemma pp_okI:
  assumes "pp_initialized s" "length (pp_allocated s) = pp_total s" "length (pp_present s) = pp_total s" "distinct (pp_free s)"
    "set (pp_free s) = {i. i < pp_total s \<and> \<not> pp_allocated s ! i}"
    "\<And>i. i < pp_total s \<Longrightarrow> \<not> pp_present s ! i \<Longrightarrow> pp_allocated s ! i"
  shows "pp_ok s"
  using assms by (simp add: pp_ok_def)

lemma pp_pop_ok:
  assumes ok: "pp_ok s" "pp_initialized s" and ne: "pp_free s \<noteq> []" and pop: "pp_pop s = (p, s')"
  shows "pp_ok s' \<and> pp_initialized s' \<and> snd p \<and> fst p = hd (pp_free s) \<and> pp_free s' = tl (pp_free s) \<and> pp_total s' = pp_total s"
proof -
  obtain i js where free: "pp_free s = i # js" using ne by (cases "pp_free s") auto
  note d = pp_okD [OF ok]
  have i: "i < pp_total s \<and> \<not> pp_allocated s ! i" using d(4) free by auto
  have js: "set js = {k. k < pp_total s \<and> \<not> pp_allocated s ! k} - {i}" using d(3,4) free by auto
  have js': "set js = {k. k < pp_total s \<and> \<not> (pp_allocated s)[i := True] ! k}"
    unfolding js using d(1) by (auto simp: nth_update split: if_splits)
  have s': "s' = s\<lparr>pp_free := js, pp_allocated := (pp_allocated s)[i := True], pp_present := (pp_present s)[i := False]\<rparr>"
    and p: "p = (i, pp_present s ! i)" using pop free by (auto simp: pp_pop_def Let_def)
  have "distinct js" using d(3) free by simp
  then have "pp_ok s'" unfolding s'
    by (intro pp_okI) (use js' d(1,2,5) ok(2) in \<open>auto simp: nth_update split: if_splits\<close>)
  then show ?thesis using s' p free ok(2) i d(5) by auto
qed

lemma pp_pops_ok:
  assumes "pp_ok s" "pp_initialized s" "n \<le> length (pp_free s)" "pp_pops n s = (ps, s')"
  shows "pp_ok s' \<and> pp_initialized s' \<and> map fst ps = take n (pp_free s) \<and> (\<forall>p \<in> set ps. snd p) \<and> pp_total s' = pp_total s"
  using assms
proof (induction n arbitrary: s ps)
  case (Suc n)
  obtain p s1 where p: "pp_pop s = (p, s1)" by fastforce
  have ne: "pp_free s \<noteq> []" using Suc.prems(3) by auto
  note ok = pp_pop_ok [OF Suc.prems(1,2) ne p]
  obtain qs where q: "pp_pops n s1 = (qs, s')" "ps = p # qs" using Suc.prems(4) p by (auto split: prod.splits)
  have "n \<le> length (pp_free s1)" using Suc.prems(3) ok by simp
  with Suc.IH [of s1 qs] ok q show ?case using ne by (cases "pp_free s") auto
qed simp

lemma pp_return_ok:
  assumes ok: "pp_ok s" "pp_initialized s" and held: "pp_held s i"
  shows "pp_ok (pp_return (nat i) s) \<and> pp_initialized (pp_return (nat i) s) \<and> (\<forall>k. k \<noteq> i \<longrightarrow> pp_held s k \<longrightarrow> pp_held (pp_return (nat i) s) k)"
proof -
  note d = pp_okD [OF ok]
  have i: "nat i < pp_total s" "pp_allocated s ! nat i" "0 \<le> i" using held d(5) by (auto simp: pp_held_def pp_valid_id_def)
  then show ?thesis using d ok(2)
    by (auto simp: pp_ok_def pp_return_def pp_held_def pp_valid_id_def nth_update split: if_splits)
qed

lemma pp_put_loop_ok:
  assumes "pp_ok s" "pp_initialized s" "pp_put_loop ps s = Some s'" "\<forall>i. Some i \<in> set ps \<longrightarrow> pp_held s i"
    "distinct (filter (\<lambda>p. p \<noteq> None) ps)"
  shows "pp_ok s'"
  using assms
proof (induction ps s rule: pp_put_loop.induct)
  case (3 i ps s)
  then have held: "pp_held s i" by simp
  note ok = pp_return_ok [OF 3(2,3) held]
  have "\<forall>k. Some k \<in> set ps \<longrightarrow> pp_held (pp_return (nat i) s) k" using ok 3(5,6) by auto
  then show ?case using 3 ok by (auto split: if_splits)
qed auto

lemma fold_set_true: "length (fold (\<lambda>i al. al[i := True]) ids al) = length al"
  "k < length al \<Longrightarrow> fold (\<lambda>i al. al[i := True]) ids al ! k \<longleftrightarrow> al ! k \<or> k \<in> set ids"
  by (induction ids arbitrary: al) (auto simp: nth_update)

lemma mark_allocated_ok:
  assumes "pp_ok s" "pp_initialized s"
  shows "pp_ok (mark_allocated ids s)"
  using pp_okD [OF assms] assms(2) by (auto simp: pp_ok_def mark_allocated_def fold_set_true)

lemma free_weight_loop_ok:
  assumes "pp_ok s" "pp_initialized s" "free_weight_loop is s = Some s'" "\<forall>i \<in> set is. pp_weight s i"
  shows "pp_ok s'"
  using assms
proof (induction "is" s rule: free_weight_loop.induct)
  case (2 i "is" s)
  note d = pp_okD [OF 2(3,4)]
  show ?case
  proof (cases "pp_allocated s ! nat i")
    case True
    let ?s = "s\<lparr>pp_allocated := (pp_allocated s)[nat i := False], pp_free := pp_free s @ [nat i]\<rparr>"
    have v: "nat i < pp_total s" "pp_present s ! nat i" "pp_valid_id s i" using 2(5,6) by (auto simp: pp_weight_def pp_valid_id_def split: if_splits)
    then have "pp_ok ?s" using d True 2(4) by (auto simp: pp_ok_def nth_update split: if_splits)
    moreover have "\<forall>k \<in> set is. pp_weight ?s k" using 2(6) by (auto simp: pp_weight_def pp_valid_id_def)
    ultimately show ?thesis using 2(2) [OF _ _ _ _ _ ] 2(4,5) True v by (auto split: if_splits)
  next
    case False
    then show ?thesis using 2 by (auto split: if_splits)
  qed
qed simp

lemma pp_step_ok: "pp_ok s \<Longrightarrow> pp_step s s' \<Longrightarrow> pp_ok s'"
proof -
  assume ok: "pp_ok s" and "pp_step s s'"
  from this(2) show "pp_ok s'"
  proof cases
    case (step_init n)
    then show ?thesis using ok by (auto simp: pp_init_def pp_ok_def)
  next
    case (step_get r)
    then show ?thesis
    proof (cases "pp_initialized s \<and> pp_free s \<noteq> []")
      case True
      obtain p s1 where "pp_pop s = (p, s1)" by fastforce
      then show ?thesis using pp_pop_ok [OF ok] step_get True by (auto simp: pp_get_def)
    qed (use step_get ok in \<open>auto simp: pp_get_def split: if_splits\<close>)
  next
    case (step_batch_get n rs)
    then show ?thesis
    proof (cases "pp_initialized s \<and> n \<noteq> 0 \<and> n \<le> length (pp_free s)")
      case True
      then show ?thesis using pp_pops_ok [OF ok, of n rs s'] step_batch_get by (simp add: pp_batch_get_def)
    qed (use step_batch_get ok in \<open>auto simp: pp_batch_get_def split: if_splits\<close>)
  next
    case (step_put p)
    then show ?thesis using ok pp_return_ok [OF ok] by (auto simp: pp_put_def split: if_splits option.splits)
  next
    case (step_batch_put ps)
    then show ?thesis using ok pp_put_loop_ok [OF ok, of ps] by (auto simp: pp_batch_put_def split: if_splits)
  next
    case (step_contiguous n r)
    then show ?thesis using ok mark_allocated_ok [OF ok]
      by (auto simp: allocate_contiguous_from_right_def split: if_splits option.splits)
  next
    case (step_pages n rs)
    then show ?thesis using ok mark_allocated_ok [OF ok]
      by (auto simp: allocate_pages_from_right_def Let_def split: if_splits)
  next
    case (step_free_weight "is")
    then show ?thesis using ok free_weight_loop_ok [OF ok, of "is"] by (auto simp: pp_free_weight_pages_def split: if_splits)
  qed
qed

lemma pp_reach_ok: "pp_reach s \<Longrightarrow> pp_ok s"
proof (induction rule: pp_reach.induct)
  case reach_empty
  then show ?case by (simp add: pp_ok_def pp_empty_def)
next
  case (reach_step s s')
  then show ?case using pp_step_ok by blast
qed

lemma free_segment_card: "pp_ok s \<Longrightarrow> pp_initialized s \<Longrightarrow> free_segment (pp_allocated s) n p \<Longrightarrow> n \<le> length (pp_free s)"
proof -
  assume ok: "pp_ok s" "pp_initialized s" and f: "free_segment (pp_allocated s) n p"
  have "{p..<p + n} \<subseteq> set (pp_free s)" using f pp_okD(1,4) [OF ok] by (auto simp: free_segment_def)
  then have "card {p..<p + n} \<le> card (set (pp_free s))" by (rule card_mono [rotated]) simp
  then show ?thesis using card_length [of "pp_free s"] by simp
qed

lemma pp_get_sound:
  assumes ok: "pp_ok s" and get: "pp_get s = Some (Some (i, b), s')"
  shows "b \<and> i < pp_total s \<and> \<not> pp_allocated s ! i \<and> pp_put (Some (int i)) s' = Some s"
proof -
  have run: "pp_initialized s" "pp_free s \<noteq> []" "pp_pop s = ((i, b), s')" using get by (auto simp: pp_get_def split: if_splits prod.splits)
  note d = pp_okD [OF ok run(1)]
  have i: "i = hd (pp_free s)" "b = pp_present s ! i" using run(3) by (auto simp: pp_pop_def Let_def)
  then have "i \<in> set (pp_free s)" using run(2) by simp
  then have m: "i < pp_total s" "\<not> pp_allocated s ! i" "pp_present s ! i" using d(4,5) by auto
  then have "(pp_allocated s)[i := False] = pp_allocated s" "(pp_present s)[i := True] = pp_present s"
    by (metis (full_types) list_update_id)+
  then have "pp_return i s' = s" using run i(1) by (auto simp: pp_pop_def Let_def pp_return_def)
  moreover have "pp_initialized s'" "pp_total s' = pp_total s" using run by (auto simp: pp_pop_def Let_def)
  ultimately show ?thesis using m i(2) by (simp add: pp_put_def pp_valid_id_def)
qed


definition demo_pages :: page_pool where
  "demo_pages = snd (the (allocate_contiguous_from_right 2 (snd (the (pp_get (pp_init 5 pp_empty))))))"

lemma demo_pages_reach: "pp_reach demo_pages \<and> pp_initialized demo_pages"
proof -
  have "pp_get (pp_init 5 pp_empty) = Some (fst (the (pp_get (pp_init 5 pp_empty))), snd (the (pp_get (pp_init 5 pp_empty))))" by code_simp
  with step_get reach_step [OF reach_empty step_init] have a: "pp_reach (snd (the (pp_get (pp_init 5 pp_empty))))" using reach_step by blast
  have "allocate_contiguous_from_right 2 (snd (the (pp_get (pp_init 5 pp_empty))))
    = Some (fst (the (allocate_contiguous_from_right 2 (snd (the (pp_get (pp_init 5 pp_empty)))))), demo_pages)" unfolding demo_pages_def by code_simp
  then have "pp_reach demo_pages" using step_contiguous reach_step a by blast
  moreover have "pp_initialized demo_pages" by code_simp
  ultimately show ?thesis by blast
qed


text \<open>Weight pages are taken as far to the right as possible: \<open>allocate_contiguous_from_right\<close> returns the start of the
  rightmost run of \<open>n\<close> unallocated pages and takes exactly these pages out of the free list; it finds nothing
  only when there is no such run.\<close>

theorem contiguous_rightmost:
  assumes "pp_reach s" "0 < n" "allocate_contiguous_from_right n s = Some (r, s')"
  shows "case r of
      None \<Rightarrow> s' = s \<and> (\<forall>p. \<not> free_segment (pp_allocated s) n p)
    | Some p \<Rightarrow> free_segment (pp_allocated s) n p \<and> (\<forall>q>p. \<not> free_segment (pp_allocated s) n q)
        \<and> set (pp_free s') = set (pp_free s) - {p..<p + n} \<and> pp_num_available s' + n = pp_num_available s"
proof -
  note ok = pp_reach_ok [OF assms(1)]
  have init: "pp_initialized s" using assms(3) by (simp add: allocate_contiguous_from_right_def split: if_splits)
  note d = pp_okD [OF ok init]
  let ?al = "pp_allocated s"
  show ?thesis
  proof (cases "length (pp_free s) < n")
    case True
    then have "\<not> free_segment ?al n p" for p using free_segment_card [OF ok init, of n p] by linarith
    then show ?thesis using assms(3) True init by (auto simp: allocate_contiguous_from_right_def)
  next
    case False
    have scan: "case scan_run ?al n (pp_total s) 0 of
        Some p \<Rightarrow> free_segment ?al n p \<and> (\<forall>q>p. \<not> free_segment ?al n q) | None \<Rightarrow> \<forall>p. \<not> free_segment ?al n p"
      by (rule scan_run_exact) (use assms(2) d(1) in \<open>auto simp: free_segment_def\<close>)
    have run: "r = scan_run ?al n (pp_total s) 0" "s' = (case r of None \<Rightarrow> s | Some p \<Rightarrow> mark_allocated [p..<p + n] s)"
      using assms(2,3) False init by (auto simp: allocate_contiguous_from_right_def split: option.splits)
    have "set (pp_free s') = set (pp_free s) - {p..<p + n} \<and> pp_num_available s' + n = pp_num_available s"
      if r: "r = Some p" "free_segment ?al n p" for p
    proof -
      have eq: "set (pp_free s') = set (pp_free s) - {p..<p + n}" using run(2) r(1) by (auto simp: mark_allocated_def)
      have sub: "{p..<p + n} \<subseteq> set (pp_free s)" using r(2) d(1,4) by (auto simp: free_segment_def)
      have "distinct (pp_free s')" using d(3) run(2) r(1) by (simp add: mark_allocated_def)
      then have "length (pp_free s') = card (set (pp_free s) - {p..<p + n})" using eq by (metis distinct_card)
      also have "\<dots> = card (set (pp_free s)) - n" using sub by (simp add: card_Diff_subset)
      finally show ?thesis using eq d(3) card_mono [OF _ sub] by (simp add: pp_num_available_def distinct_card)
    qed
    then show ?thesis using scan [folded run(1)] run(2) by (cases r) simp_all
  qed
qed

lemma contiguous_rightmost_witness: "\<not> free_segment (pp_allocated demo_pages) 3 0 \<and> fst (the (allocate_contiguous_from_right 2 demo_pages)) = Some 1"
proof -
  have "allocate_contiguous_from_right 3 demo_pages = Some (None, demo_pages)" by code_simp
  then have "\<not> free_segment (pp_allocated demo_pages) 3 0" using contiguous_rightmost [of demo_pages 3 None demo_pages] demo_pages_reach by simp
  moreover have "fst (the (allocate_contiguous_from_right 2 demo_pages)) = Some 1" by code_simp
  ultimately show ?thesis by blast
qed

end
