(* ===== verification/Virt_Page.thy ===== *)
theory Virt_Page imports Xllm_Prelude begin

text \<open>
  A virtual page and the blocks that lie in it, \<open>core/framework/xtensor/virt_page.{h,cpp}\<close>.  Ids and sizes are
  natural numbers; sizes in bytes are far below the width of \<open>size_t\<close>.  A failed \<open>CHECK\<close>, the \<open>runtime_error\<close> of
  a full page and the \<open>length_error\<close> of a negative block count are \<open>None\<close>.
\<close>

section \<open>Operations\<close>

record virt_page =
  vp_id :: nat
  vp_size :: nat
  vp_range :: "(nat \<times> nat) option"
  vp_num_kv :: nat
  vp_free_list :: "nat list"

definition new_virt_page :: "nat \<Rightarrow> nat \<Rightarrow> virt_page" where
  "new_virt_page i ps = \<lparr>vp_id = i, vp_size = ps, vp_range = None, vp_num_kv = 0, vp_free_list = []\<rparr>"

definition get_block_range :: "nat \<Rightarrow> nat \<Rightarrow> nat \<Rightarrow> nat \<times> nat" where
  "get_block_range page ps bs = ((page * ps + bs - 1) div bs, ((page + 1) * ps) div bs)"

definition get_num_blocks :: "nat \<Rightarrow> nat \<Rightarrow> nat" where
  "get_num_blocks ps bs = ps div bs"

text \<open>\<open>PageAllocator::get_virt_page_id\<close> and \<open>get_offset\<close> belong to the same geometry.\<close>

definition get_virt_page_id :: "nat \<Rightarrow> nat \<Rightarrow> nat \<Rightarrow> nat" where
  "get_virt_page_id ps b bs = b * bs div ps"

definition get_offset :: "nat \<Rightarrow> nat \<Rightarrow> nat" where
  "get_offset ps page = page * ps"

text \<open>A division by zero is an error, and so is a range that ends before it starts, whose length wraps around.\<close>

definition vp_init :: "nat \<Rightarrow> virt_page \<Rightarrow> virt_page option" where
  "vp_init bs p =
    (if bs = 0 then None
     else let (a, b) = get_block_range (vp_id p) (vp_size p) bs in
       if b < a then None
       else Some (p\<lparr>vp_range := Some (a, b), vp_num_kv := b - a, vp_free_list := [a..<b]\<rparr>))"

definition vp_full :: "virt_page \<Rightarrow> bool option" where
  "vp_full p = (if vp_range p = None then None else Some (vp_free_list p = []))"

definition vp_is_empty :: "virt_page \<Rightarrow> bool option" where
  "vp_is_empty p = (if vp_range p = None then None else Some (length (vp_free_list p) = vp_num_kv p))"

definition vp_num_free :: "virt_page \<Rightarrow> nat option" where
  "vp_num_free p = (if vp_range p = None then None else Some (length (vp_free_list p)))"

definition vp_alloc :: "nat \<Rightarrow> virt_page \<Rightarrow> (nat list \<times> virt_page) option" where
  "vp_alloc n p =
    (if vp_full p \<noteq> Some False then None
     else let k = min n (length (vp_free_list p)) in
       Some (take k (vp_free_list p), p\<lparr>vp_free_list := drop k (vp_free_list p)\<rparr>))"

definition vp_free_batch :: "nat list \<Rightarrow> virt_page \<Rightarrow> virt_page option" where
  "vp_free_batch bs p = (if vp_range p = None then None else Some (p\<lparr>vp_free_list := vp_free_list p @ bs\<rparr>))"

definition vp_free_one :: "nat \<Rightarrow> virt_page \<Rightarrow> virt_page option" where
  "vp_free_one b p = vp_free_batch [b] p"

section \<open>Geometry\<close>

lemma ceil_le_iff: "0 < (b::nat) \<Longrightarrow> (a + b - 1) div b \<le> k \<longleftrightarrow> a \<le> k * b"
proof -
  assume b: "0 < b"
  have "(a + b - 1) div b \<le> k \<longleftrightarrow> (a + b - 1) div b < Suc k" by linarith
  also have "\<dots> \<longleftrightarrow> a + b - 1 < Suc k * b" using b by (simp add: div_less_iff_less_mult)
  also have "\<dots> \<longleftrightarrow> a \<le> k * b" using b by auto
  finally show ?thesis .
qed

lemma block_in_range:
  assumes "0 < bs" "get_block_range page ps bs = (a, b)"
  shows "k \<in> {a..<b} \<longleftrightarrow> page * ps \<le> k * bs \<and> (k + 1) * bs \<le> (page + 1) * ps"
proof -
  have "k < b \<longleftrightarrow> Suc k \<le> ((page + 1) * ps) div bs" using assms(2) by (auto simp: get_block_range_def)
  also have "\<dots> \<longleftrightarrow> (k + 1) * bs \<le> (page + 1) * ps" using assms(1) by (simp add: less_eq_div_iff_mult_less_eq)
  finally have "k < b \<longleftrightarrow> (k + 1) * bs \<le> (page + 1) * ps" .
  moreover have "a \<le> k \<longleftrightarrow> page * ps \<le> k * bs" using assms ceil_le_iff [of bs "page * ps" k] by (auto simp: get_block_range_def)
  ultimately show ?thesis by simp
qed

lemma block_page:
  assumes "0 < bs" "get_block_range page ps bs = (a, b)" "k \<in> {a..<b}"
  shows "get_virt_page_id ps k bs = page"
proof -
  have k: "page * ps \<le> k * bs" "(k + 1) * bs \<le> (page + 1) * ps" using block_in_range [OF assms(1,2)] assms(3) by auto
  then have "k * bs < (page + 1) * ps" using assms(1) by simp
  then show ?thesis using k(1) unfolding get_virt_page_id_def by (intro div_nat_eqI) (simp_all add: algebra_simps)
qed

lemma ceil_div_mod: "0 < (b::nat) \<Longrightarrow> (x + b - 1) div b = x div b + (if x mod b = 0 then 0 else 1)"
proof -
  assume b: "0 < b"
  have "(x + b - 1) div b \<le> k \<longleftrightarrow> x div b + (if x mod b = 0 then 0 else 1) \<le> k" for k
  proof -
    have "x \<le> k * b \<longleftrightarrow> x div b + (if x mod b = 0 then 0 else 1) \<le> k"
    proof (cases "x mod b = 0")
      case True
      then obtain y where "x = b * y" by (auto simp: mod_eq_0_iff_dvd elim: dvdE)
      then show ?thesis using True b by (simp add: mult.commute)
    next
      case False
      have "x \<le> k * b \<longleftrightarrow> x < k * b" using False by (metis le_neq_implies_less less_imp_le mod_mult_self2_is_0)
      also have "\<dots> \<longleftrightarrow> x div b < k" using b by (simp add: div_less_iff_less_mult)
      finally show ?thesis using False by auto
    qed
    then show ?thesis using ceil_le_iff [OF b, of x k] by simp
  qed
  then show ?thesis by (meson order_antisym order_refl)
qed

lemma div_sum_below: "x < b \<Longrightarrow> y < b \<Longrightarrow> (x + y) div b = (if b \<le> x + y then 1 else (0::nat))"
  by (simp add: div_nat_eqI)

lemma block_count:
  assumes "0 < bs" "get_block_range page ps bs = (a, b)"
  shows "b - a \<le> get_num_blocks ps bs \<and> get_num_blocks ps bs \<le> b - a + 1 \<and> (bs dvd ps \<longrightarrow> b - a = get_num_blocks ps bs)"
proof -
  let ?x = "page * ps" and ?r = "page * ps mod bs"
  have a: "a = ?x div bs + (if ?r = 0 then 0 else 1)" using assms ceil_div_mod [of bs ?x] by (simp add: get_block_range_def)
  have b: "b = ?x div bs + ps div bs + (?r + ps mod bs) div bs"
    using assms(2) div_add1_eq [of ?x ps bs] by (simp add: get_block_range_def algebra_simps)
  have c: "(?r + ps mod bs) div bs = (if bs \<le> ?r + ps mod bs then 1 else 0)" using assms(1) by (intro div_sum_below) simp_all
  have "?r = 0 \<and> ps mod bs = 0" if "bs dvd ps" using that by (simp add: mod_eq_0_iff_dvd)
  then show ?thesis unfolding get_num_blocks_def a b c using mod_less_divisor [OF assms(1), of ps] by auto
qed

section \<open>Properties\<close>

text \<open>The blocks of a virtual page are exactly those that lie in it as a whole, no block belongs to two pages, the page
  of a block is found from its id, and a page holds \<open>get_num_blocks\<close> blocks or one less (as many when the block
  size divides the page size).\<close>

theorem block_range_exact:
  assumes "0 < bs" "get_block_range page ps bs = (a, b)"
  shows "(\<forall>k. k \<in> {a..<b} \<longleftrightarrow> get_offset ps page \<le> k * bs \<and> (k + 1) * bs \<le> get_offset ps (page + 1))
    \<and> (\<forall>k\<in>{a..<b}. get_virt_page_id ps k bs = page)
    \<and> b - a \<le> get_num_blocks ps bs \<and> get_num_blocks ps bs \<le> b - a + 1 \<and> (bs dvd ps \<longrightarrow> b - a = get_num_blocks ps bs)"
  using block_in_range [OF assms] block_page [OF assms] block_count [OF assms] by (simp add: get_offset_def)

lemma block_range_exact_witness: "get_virt_page_id 16 4 6 = 1 \<and> get_virt_page_id 16 3 6 = 1"
proof -
  have "get_block_range 1 16 6 = (3, 5)" by code_simp
  from block_range_exact [OF _ this] show ?thesis by simp
qed

text \<open>The number of blocks per page that \<open>get_num_blocks\<close> gives, and from which the number of allocated blocks is computed,
  is not the number that the page holds when the block size does not divide the page size.\<close>

theorem block_count_inexact:
  "get_num_blocks 16 5 = 3 \<and> get_block_range 1 16 5 = (4, 6)
   \<and> vp_num_free (the (vp_init 5 (new_virt_page 1 16))) = Some 2"
  by code_simp

end
