(* ===== verification/Page_Allocator.thy ===== *)
theory Page_Allocator imports Virt_Page "HOL-Library.Multiset" begin

text \<open>
  The allocator of virtual pages that all models share, \<open>core/framework/xtensor/page_allocator.{h,cpp}\<close>.  Each
  section of an operation that runs under \<open>mtx_\<close> is one function on the state; what runs between two sections of
  one operation (the broadcast that maps or unmaps pages on the workers) only returns a flag, which is an argument
  of the following section.  A failed \<open>CHECK\<close> and a division by zero are \<open>None\<close>.

  Page ids, counts and worker numbers are natural numbers; a worker's used pages never exceed the total (a theorem
  below), so that the unsigned difference of the two does not wrap around.  The number of pages that are still to be
  reserved does wrap around in the code and is computed on 64-bit words.
\<close>

section \<open>State\<close>

type_synonym model_id = string

record dp_group =
  num_free_virt :: nat
  free_virt :: "nat list"
  reserved_virt :: "nat list"
  allocated_virt :: "nat list"

record model_state =
  ms_layers :: nat
  ms_total_virt :: nat
  ms_ppv :: nat
  ms_weights :: nat
  ms_sleeping :: bool
  ms_pending :: int
  ms_groups :: "dp_group list"
  ms_model_dp :: int
  ms_model_tp :: int
  ms_model_world :: int

record page_state =
  ps_initialized :: bool
  ps_dp_size :: nat
  ps_page_size :: nat
  ps_prealloc :: bool
  ps_total :: nat
  ps_used :: "nat list"
  ps_world :: nat
  ps_models :: "model_id \<Rightarrow> model_state option"
  ps_needed :: bool
  ps_running :: bool
  ps_thread :: bool

definition min_reserved_pages :: nat where "min_reserved_pages = 8"
definition max_reserved_pages :: nat where "max_reserved_pages = 32"

definition page_empty :: page_state where
  "page_empty = \<lparr>ps_initialized = False, ps_dp_size = 1, ps_page_size = 0, ps_prealloc = True, ps_total = 0, ps_used = [],
     ps_world = 0, ps_models = (\<lambda>_. None), ps_needed = False, ps_running = False, ps_thread = False\<rparr>"

definition page_init :: "nat \<Rightarrow> nat \<Rightarrow> nat \<Rightarrow> int \<Rightarrow> bool \<Rightarrow> page_state \<Rightarrow> page_state" where
  "page_init granularity num_phy dp_size max_world enable s =
    (if ps_initialized s then s
     else s\<lparr>ps_dp_size := dp_size, ps_world := (if 0 < max_world then nat max_world else 1), ps_page_size := granularity,
       ps_prealloc := enable, ps_total := num_phy,
       ps_used := replicate (if 0 < max_world then nat max_world else 1) 0, ps_initialized := True\<rparr>)"

definition new_group :: "nat \<Rightarrow> dp_group" where
  "new_group n = \<lparr>num_free_virt = n, free_virt = [0..<n], reserved_virt = [], allocated_virt = []\<rparr>"

definition register_model :: "model_id \<Rightarrow> nat \<Rightarrow> page_state \<Rightarrow> (bool \<times> page_state) option" where
  "register_model i layers s =
    (if \<not> ps_initialized s then None
     else if ps_models s i \<noteq> None then Some (False, s)
     else if layers = 0 then None
     else let n = ps_total s div layers div 2 in
       Some (True, s\<lparr>ps_models := (ps_models s)(i \<mapsto>
         \<lparr>ms_layers = layers, ms_total_virt = n, ms_ppv = 2 * layers, ms_weights = 0, ms_sleeping = False, ms_pending = 0,
          ms_groups = replicate (ps_dp_size s) (new_group n), ms_model_dp = 0, ms_model_tp = 0, ms_model_world = 0\<rparr>)\<rparr>))"

section \<open>Physical page counts\<close>

text \<open>The workers of a group: \<open>get_dp_group_worker_range\<close> and the loop bound of its users.\<close>

definition group_workers :: "model_id \<Rightarrow> nat \<Rightarrow> page_state \<Rightarrow> nat list" where
  "group_workers i dp s =
    (let tp = (case ps_models s i of Some m \<Rightarrow> if 0 < ms_model_tp m then nat (ms_model_tp m) else 1 | None \<Rightarrow> 1)
     in [dp * tp..<min (dp * tp + tp) (ps_world s)])"

text \<open>\<open>get_min_free_pages_in_range\<close> over a list of workers.\<close>

definition min_free_pages :: "nat list \<Rightarrow> page_state \<Rightarrow> nat" where
  "min_free_pages ws s = fold (\<lambda>w m. min m (ps_total s - ps_used s ! w)) ws (ps_total s)"

definition has_enough_phy_pages :: "model_id \<Rightarrow> nat \<Rightarrow> nat \<Rightarrow> page_state \<Rightarrow> bool" where
  "has_enough_phy_pages i dp n s \<longleftrightarrow> n \<le> min_free_pages (group_workers i dp s) s"

definition add_used :: "nat list \<Rightarrow> nat \<Rightarrow> page_state \<Rightarrow> page_state" where
  "add_used ws n s = s\<lparr>ps_used := fold (\<lambda>w u. u[w := u ! w + n]) ws (ps_used s)\<rparr>"

text \<open>The subtraction of a release stops at zero.\<close>

definition sub_used :: "nat list \<Rightarrow> nat \<Rightarrow> page_state \<Rightarrow> page_state" where
  "sub_used ws n s = s\<lparr>ps_used := fold (\<lambda>w u. u[w := (if n \<le> u ! w then u ! w - n else 0)]) ws (ps_used s)\<rparr>"

definition consume_phy_pages :: "model_id \<Rightarrow> nat \<Rightarrow> nat \<Rightarrow> page_state \<Rightarrow> bool \<times> page_state" where
  "consume_phy_pages i dp n s =
    (let ws = group_workers i dp s in if min_free_pages ws s < n then (False, s) else (True, add_used ws n s))"

definition release_phy_pages :: "model_id \<Rightarrow> nat \<Rightarrow> nat \<Rightarrow> page_state \<Rightarrow> page_state" where
  "release_phy_pages i dp n s = sub_used (group_workers i dp s) n s"

section \<open>Groups\<close>

definition group_at :: "model_id \<Rightarrow> nat \<Rightarrow> page_state \<Rightarrow> dp_group" where
  "group_at i dp s = ms_groups (the (ps_models s i)) ! dp"

definition update_model :: "model_id \<Rightarrow> (model_state \<Rightarrow> model_state) \<Rightarrow> page_state \<Rightarrow> page_state" where
  "update_model i f s = (case ps_models s i of None \<Rightarrow> s | Some m \<Rightarrow> s\<lparr>ps_models := (ps_models s)(i \<mapsto> f m)\<rparr>)"

definition update_group :: "model_id \<Rightarrow> nat \<Rightarrow> (dp_group \<Rightarrow> dp_group) \<Rightarrow> page_state \<Rightarrow> page_state" where
  "update_group i dp f = update_model i (\<lambda>m. m\<lparr>ms_groups := (ms_groups m)[dp := f (ms_groups m ! dp)]\<rparr>)"

definition valid_rank :: "int \<Rightarrow> page_state \<Rightarrow> bool" where
  "valid_rank dp s \<longleftrightarrow> 0 \<le> dp \<and> dp < int (ps_dp_size s)"

definition add_pending :: "model_id \<Rightarrow> int \<Rightarrow> page_state \<Rightarrow> page_state" where
  "add_pending i k = update_model i (\<lambda>m. m\<lparr>ms_pending := ms_pending m + k\<rparr>)"

definition trigger_preallocation :: "page_state \<Rightarrow> page_state" where
  "trigger_preallocation s = s\<lparr>ps_needed := True\<rparr>"

section \<open>Allocation of a page\<close>

text \<open>What the first section of \<open>alloc_kv_cache_page\<close> ends with: a page that is mapped already, a page that is to be
  mapped (with the number of physical pages that it took), an exception, or another round of its loop, at once or
  after a wait.\<close>

datatype alloc_outcome =
    Alloc_Ready nat
  | Alloc_Map nat nat
  | Alloc_Throw string
  | Alloc_Retry
  | Alloc_Wait

definition insert_page :: "nat \<Rightarrow> nat list \<Rightarrow> nat list" where
  "insert_page p ps = (if p \<in> set ps then ps else ps @ [p])"

definition take_reserved :: "dp_group \<Rightarrow> dp_group" where
  "take_reserved g = g\<lparr>reserved_virt := tl (reserved_virt g), num_free_virt := num_free_virt g - 1,
     allocated_virt := insert_page (hd (reserved_virt g)) (allocated_virt g)\<rparr>"

definition take_free :: "dp_group \<Rightarrow> dp_group" where
  "take_free g = g\<lparr>free_virt := tl (free_virt g), num_free_virt := num_free_virt g - 1\<rparr>"

definition give_back :: "nat \<Rightarrow> dp_group \<Rightarrow> dp_group" where
  "give_back p g = g\<lparr>free_virt := p # free_virt g, num_free_virt := num_free_virt g + 1\<rparr>"

definition alloc_round :: "model_id \<Rightarrow> nat \<Rightarrow> page_state \<Rightarrow> alloc_outcome \<times> page_state" where
  "alloc_round i dp s =
    (let g = group_at i dp s; need = ms_ppv (the (ps_models s i)) in
     if reserved_virt g \<noteq> []
     then (Alloc_Ready (hd (reserved_virt g)),
           (let s' = update_group i dp take_reserved s
            in if length (reserved_virt g) - 1 < min_reserved_pages then trigger_preallocation s' else s'))
     else if free_virt g \<noteq> [] \<and> has_enough_phy_pages i dp need s
     then (let (ok, s') = consume_phy_pages i dp need (update_group i dp take_free s) in
       if ok then (Alloc_Map (hd (free_virt g)) need, s')
       else (Alloc_Retry, update_group i dp (give_back (hd (free_virt g))) s'))
     else if free_virt g = [] then (Alloc_Throw ''No free virtual pages left'', s)
     else if \<not> has_enough_phy_pages i dp need s then (Alloc_Throw ''No free physical pages left'', s)
     else if \<not> ps_prealloc s then (Alloc_Throw ''Inconsistent page allocator state: no pages available'', s)
     else (Alloc_Wait, s))"

text \<open>The loop of the first section, over the states that it finds when it has waited; the count of pending map
  operations rises with the page that is to be mapped.\<close>

fun alloc_loop :: "model_id \<Rightarrow> nat \<Rightarrow> nat \<Rightarrow> page_state \<Rightarrow> (alloc_outcome \<times> page_state) option" where
  "alloc_loop i dp 0 s = None"
| "alloc_loop i dp (Suc fuel) s =
    (case alloc_round i dp s of
       (Alloc_Map p n, s') \<Rightarrow> Some (Alloc_Map p n, add_pending i 1 s')
     | (Alloc_Retry, s') \<Rightarrow> alloc_loop i dp fuel s'
     | r \<Rightarrow> Some r)"

definition alloc_begin :: "nat \<Rightarrow> model_id \<Rightarrow> int \<Rightarrow> page_state \<Rightarrow> (alloc_outcome \<times> page_state) option" where
  "alloc_begin fuel i dp s =
    (if \<not> ps_initialized s \<or> \<not> valid_rank dp s then None
     else case ps_models s i of
       None \<Rightarrow> None
     | Some m \<Rightarrow> if ms_sleeping m then None else alloc_loop i (nat dp) fuel s)"

definition alloc_mapped :: "model_id \<Rightarrow> nat \<Rightarrow> nat \<Rightarrow> nat \<Rightarrow> bool \<Rightarrow> page_state \<Rightarrow> page_state" where
  "alloc_mapped i dp p n ok s =
    (let s' = add_pending i (- 1) s in
     if ok then s' else release_phy_pages i dp n (update_group i dp (give_back p) s'))"

definition alloc_trigger :: "page_state \<Rightarrow> page_state" where
  "alloc_trigger s = (if ps_prealloc s then trigger_preallocation s else s)"

definition alloc_record :: "model_id \<Rightarrow> nat \<Rightarrow> nat \<Rightarrow> page_state \<Rightarrow> page_state" where
  "alloc_record i dp p = update_group i dp (\<lambda>g. g\<lparr>allocated_virt := insert_page p (allocated_virt g)\<rparr>)"

section \<open>Release and trimming of pages\<close>

text \<open>\<open>max_reserved_pages_ - reserved_virt_page_list.size()\<close> in \<open>size_t\<close>.\<close>

definition num_to_reserve :: "dp_group \<Rightarrow> nat" where
  "num_to_reserve g = unat ((of_nat max_reserved_pages :: u64) - of_nat (length (reserved_virt g)))"

definition drop_allocated :: "nat list \<Rightarrow> dp_group \<Rightarrow> dp_group" where
  "drop_allocated ids g = g\<lparr>allocated_virt := filter (\<lambda>p. p \<notin> set ids) (allocated_virt g),
     num_free_virt := num_free_virt g + length ids\<rparr>"

definition push_reserved :: "nat list \<Rightarrow> dp_group \<Rightarrow> dp_group" where
  "push_reserved ids g = g\<lparr>reserved_virt := reserved_virt g @ ids\<rparr>"

definition push_free :: "nat list \<Rightarrow> dp_group \<Rightarrow> dp_group" where
  "push_free ids g = g\<lparr>free_virt := free_virt g @ ids\<rparr>"

text \<open>The first section of \<open>free_kv_cache_pages\<close> returns the pages that are to be unmapped.\<close>

definition free_begin :: "model_id \<Rightarrow> int \<Rightarrow> nat list \<Rightarrow> page_state \<Rightarrow> (nat list \<times> page_state) option" where
  "free_begin i dp ids s =
    (if \<not> valid_rank dp s then None
     else case ps_models s i of
       None \<Rightarrow> None
     | Some m \<Rightarrow>
         let s1 = update_group i (nat dp) (drop_allocated ids) s;
             k = min (num_to_reserve (group_at i (nat dp) s1)) (length ids) in
         if ms_sleeping m then Some (ids, s1)
         else Some (drop k ids, update_group i (nat dp) (push_reserved (take k ids)) s1))"

definition trim_begin :: "model_id \<Rightarrow> int \<Rightarrow> page_state \<Rightarrow> (nat list \<times> page_state) option" where
  "trim_begin i dp s =
    (if \<not> valid_rank dp s \<or> ps_models s i = None then None
     else Some (reserved_virt (group_at i (nat dp) s), update_group i (nat dp) (\<lambda>g. g\<lparr>reserved_virt := []\<rparr>) s))"

text \<open>The last section of both, which does not run when there is nothing to unmap.\<close>

definition unmap_end :: "model_id \<Rightarrow> nat \<Rightarrow> nat list \<Rightarrow> nat \<Rightarrow> bool \<Rightarrow> page_state \<Rightarrow> page_state" where
  "unmap_end i dp ids ppv ok s =
    (if ok then release_phy_pages i dp (length ids * ppv) (update_group i dp (push_free ids) s)
     else update_group i dp (push_reserved ids) s)"

section \<open>Weight pages\<close>

definition model_workers :: "model_id \<Rightarrow> page_state \<Rightarrow> nat list" where
  "model_workers i s = (case ps_models s i of
     None \<Rightarrow> [0..<ps_world s]
   | Some m \<Rightarrow> [0..<min (if 0 < ms_model_world m then nat (ms_model_world m) else ps_world s) (ps_world s)])"

text \<open>The flag \<open>bcast\<close> is the result of the broadcast to the workers, which changes nothing in the allocator.\<close>

definition alloc_weight_pages :: "model_id \<Rightarrow> nat \<Rightarrow> bool \<Rightarrow> page_state \<Rightarrow> (bool \<times> page_state) option" where
  "alloc_weight_pages i n bcast s =
    (if \<not> ps_initialized s \<or> ps_models s i = None then None
     else let ws = model_workers i s in
       if min_free_pages ws s < n then Some (False, s)
       else Some (bcast, update_model i (\<lambda>m. m\<lparr>ms_weights := n\<rparr>) (add_used ws n s)))"

definition free_weight_pages :: "model_id \<Rightarrow> nat \<Rightarrow> bool \<Rightarrow> page_state \<Rightarrow> (bool \<times> page_state) option" where
  "free_weight_pages i n bcast s =
    (if \<not> bcast then Some (False, s)
     else if \<not> ps_initialized s \<or> ps_models s i = None then None
     else Some (True, sub_used (model_workers i s) n s))"

definition set_weight_pages_count :: "model_id \<Rightarrow> nat \<Rightarrow> page_state \<Rightarrow> page_state option" where
  "set_weight_pages_count i n s =
    (if ps_models s i = None then None else Some (update_model i (\<lambda>m. m\<lparr>ms_weights := n\<rparr>) s))"

section \<open>Sleep and wakeup\<close>

definition mapped_pages :: "dp_group \<Rightarrow> nat list" where
  "mapped_pages g = reserved_virt g @ allocated_virt g"

text \<open>The pages that a model has mapped, per group; groups without any are left out.\<close>

definition mapped_groups :: "model_id \<Rightarrow> page_state \<Rightarrow> (nat \<times> nat list) list" where
  "mapped_groups i s =
    filter (\<lambda>(dp, ids). ids \<noteq> []) (map (\<lambda>dp. (dp, mapped_pages (group_at i dp s))) [0..<ps_dp_size s])"

text \<open>The checks of \<open>sleep_model\<close> before its wait, and the section behind the wait, which runs when no map operation
  is pending: the weight pages, the physical pages per virtual page and the groups to unmap.\<close>

definition sleep_check :: "model_id \<Rightarrow> page_state \<Rightarrow> bool" where
  "sleep_check i s = (case ps_models s i of None \<Rightarrow> False | Some m \<Rightarrow> \<not> ms_sleeping m)"

definition sleep_enter :: "model_id \<Rightarrow> page_state \<Rightarrow> (nat \<times> nat \<times> (nat \<times> nat list) list) \<times> page_state" where
  "sleep_enter i s =
    (let m = the (ps_models s i) in
     ((ms_weights m, ms_ppv m, mapped_groups i s), update_model i (\<lambda>m. m\<lparr>ms_sleeping := True\<rparr>) s))"

text \<open>The weight pages of a sleeping model are released unless the caller asks not to; \<open>None\<close> is the early return when the
  broadcast fails.\<close>

definition sleep_weights :: "model_id \<Rightarrow> bool \<Rightarrow> nat \<Rightarrow> bool \<Rightarrow> page_state \<Rightarrow> page_state option" where
  "sleep_weights i skip n bcast s =
    (if skip \<or> n = 0 then Some s
     else case free_weight_pages i n bcast s of Some (True, s') \<Rightarrow> Some s' | _ \<Rightarrow> None)"

text \<open>The last section: the groups whose unmapping succeeded release their physical pages.\<close>

fun sleep_release :: "model_id \<Rightarrow> nat \<Rightarrow> ((nat \<times> nat list) \<times> bool) list \<Rightarrow> page_state \<Rightarrow> page_state" where
  "sleep_release i ppv [] s = s"
| "sleep_release i ppv (((dp, ids), ok) # gs) s =
    sleep_release i ppv gs (if ok then release_phy_pages i dp (length ids * ppv) s else s)"

definition wakeup_need :: "model_id \<Rightarrow> nat \<Rightarrow> nat \<Rightarrow> (nat \<times> nat list) list \<Rightarrow> page_state \<Rightarrow> nat \<Rightarrow> nat" where
  "wakeup_need i ppv weights groups s w =
    sum_list (map (\<lambda>(dp, ids). if w \<in> set (group_workers i dp s) then length ids * ppv else 0) groups)
    + (if w \<in> set (model_workers i s) then weights else 0)"

text \<open>The first section of \<open>wakeup_model\<close>: \<open>None\<close> is the early return; otherwise the pages are consumed on every worker and
  the groups that are to be mapped are returned with the number of weight pages.\<close>

definition wakeup_begin :: "model_id \<Rightarrow> page_state \<Rightarrow> (((nat \<times> nat list) list \<times> nat) \<times> page_state) option" where
  "wakeup_begin i s = (case ps_models s i of
     None \<Rightarrow> None
   | Some m \<Rightarrow>
       if \<not> ms_sleeping m then None
       else let groups = mapped_groups i s; need = wakeup_need i (ms_ppv m) (ms_weights m) groups s in
         if \<exists>w\<in>set [0..<ps_world s]. need w \<noteq> 0 \<and> ps_total s - ps_used s ! w < need w then None
         else Some ((groups, ms_weights m), s\<lparr>ps_used := map (\<lambda>w. ps_used s ! w + need w) [0..<ps_world s]\<rparr>))"

text \<open>The mapping of the groups and of the weight pages stops at the first failure; the last section runs only when all
  succeeded.\<close>

definition wakeup_end :: "model_id \<Rightarrow> page_state \<Rightarrow> page_state" where
  "wakeup_end i s =
    (let s' = update_model i (\<lambda>m. m\<lparr>ms_sleeping := False\<rparr>) s in if ps_prealloc s' then trigger_preallocation s' else s')"

definition is_model_sleeping :: "model_id \<Rightarrow> page_state \<Rightarrow> bool" where
  "is_model_sleeping i s = (case ps_models s i of None \<Rightarrow> False | Some m \<Rightarrow> ms_sleeping m)"

section \<open>Preallocation\<close>

text \<open>One group in the scan of \<open>prealloc_worker\<close>: the pages taken from the free list, which are not mapped yet.\<close>

definition prealloc_amount :: "model_id \<Rightarrow> nat \<Rightarrow> page_state \<Rightarrow> nat" where
  "prealloc_amount i dp s =
    (let g = group_at i dp s; r = length (reserved_virt g);
         want = (if r < min_reserved_pages then min_reserved_pages - r else 0)
     in min (min want (length (free_virt g)))
          (min_free_pages (group_workers i dp s) s div ms_ppv (the (ps_models s i))))"

definition prealloc_group :: "model_id \<Rightarrow> nat \<Rightarrow> page_state \<Rightarrow> nat list option \<times> page_state" where
  "prealloc_group i dp s =
    (let n = prealloc_amount i dp s; ids = take n (free_virt (group_at i dp s)) in
     if n = 0 then (None, s)
     else let (ok, s') = consume_phy_pages i dp (length ids * ms_ppv (the (ps_models s i)))
                (update_group i dp (\<lambda>g. g\<lparr>free_virt := drop n (free_virt g)\<rparr>) s) in
       if ok then (Some ids, s')
       else (None, update_group i dp (\<lambda>g. g\<lparr>free_virt := ids @ free_virt g\<rparr>) s'))"

fun prealloc_groups :: "model_id \<Rightarrow> nat list \<Rightarrow> page_state \<Rightarrow> (model_id \<times> nat \<times> nat list) list \<times> page_state" where
  "prealloc_groups i [] s = ([], s)"
| "prealloc_groups i (dp # dps) s =
    (let (r, s1) = prealloc_group i dp s; (rs, s2) = prealloc_groups i dps s1
     in (case r of None \<Rightarrow> rs | Some ids \<Rightarrow> (i, dp, ids) # rs, s2))"

text \<open>The scan over the models, in the order in which the hash map lists them.\<close>

fun prealloc_models :: "model_id list \<Rightarrow> page_state \<Rightarrow> (model_id \<times> nat \<times> nat list) list \<times> page_state" where
  "prealloc_models [] s = ([], s)"
| "prealloc_models (i # is) s =
    (let (rs, s1) = (if is_model_sleeping i s then ([], s) else prealloc_groups i [0..<ps_dp_size s] s);
         (rs', s2) = prealloc_models is s1
     in (rs @ rs', s2))"

definition prealloc_scan :: "model_id list \<Rightarrow> page_state \<Rightarrow> (model_id \<times> nat \<times> nat list) list \<times> page_state" where
  "prealloc_scan order s = prealloc_models order (s\<lparr>ps_needed := False\<rparr>)"

text \<open>The pages of one entry go back when the model has gone to sleep before they are mapped (\<open>None\<close>), or the map
  operation is counted.\<close>

definition return_taken :: "model_id \<Rightarrow> nat \<Rightarrow> nat list \<Rightarrow> page_state \<Rightarrow> page_state" where
  "return_taken i dp ids s = (case ps_models s i of None \<Rightarrow> s | Some m \<Rightarrow>
     release_phy_pages i dp (length ids * ms_ppv m) (update_group i dp (\<lambda>g. g\<lparr>free_virt := ids @ free_virt g\<rparr>) s))"

definition prealloc_check :: "model_id \<Rightarrow> nat \<Rightarrow> nat list \<Rightarrow> page_state \<Rightarrow> bool \<times> page_state" where
  "prealloc_check i dp ids s = (case ps_models s i of
     None \<Rightarrow> (False, s)
   | Some m \<Rightarrow> if ms_sleeping m then (False, return_taken i dp ids s) else (True, add_pending i 1 s))"

definition prealloc_finish :: "model_id \<Rightarrow> nat \<Rightarrow> nat list \<Rightarrow> bool \<Rightarrow> page_state \<Rightarrow> page_state" where
  "prealloc_finish i dp ids ok s =
    (let s' = add_pending i (- 1) s in
     if \<not> ok then return_taken i dp ids s'
     else case ps_models s' i of
         None \<Rightarrow> s'
       | Some m \<Rightarrow> if \<not> ms_sleeping m then update_group i dp (push_reserved ids) s'
           else release_phy_pages i dp (length ids * ms_ppv m) s')"

section \<open>The preallocation thread\<close>

definition start_prealloc_thread :: "page_state \<Rightarrow> page_state" where
  "start_prealloc_thread s =
    (if ps_prealloc s \<and> \<not> ps_thread s then trigger_preallocation (s\<lparr>ps_running := True, ps_thread := True\<rparr>) else s)"

definition stop_prealloc_thread :: "page_state \<Rightarrow> page_state" where
  "stop_prealloc_thread s = (if ps_thread s then s\<lparr>ps_running := False, ps_thread := False\<rparr> else s)"

section \<open>Strategy and counters\<close>

definition set_model_parallel_strategy :: "model_id \<Rightarrow> int \<Rightarrow> int \<Rightarrow> page_state \<Rightarrow> page_state" where
  "set_model_parallel_strategy i dp tp = update_model i (\<lambda>m. m\<lparr>ms_model_dp := dp, ms_model_tp := tp, ms_model_world := dp * tp\<rparr>)"

definition get_model_world_size :: "model_id \<Rightarrow> page_state \<Rightarrow> int" where
  "get_model_world_size i s = (case ps_models s i of None \<Rightarrow> 0 | Some m \<Rightarrow> ms_model_world m)"

definition get_free_phy_pages_for_model :: "model_id \<Rightarrow> page_state \<Rightarrow> nat" where
  "get_free_phy_pages_for_model i s = min_free_pages (model_workers i s) s"

definition get_num_free_phy_pages :: "page_state \<Rightarrow> nat" where
  "get_num_free_phy_pages s = min_free_pages [0..<ps_world s] s"

definition get_all_worker_free_pages :: "page_state \<Rightarrow> nat list" where
  "get_all_worker_free_pages s = map (\<lambda>u. ps_total s - u) (ps_used s)"

definition group_counter :: "(model_state \<Rightarrow> dp_group \<Rightarrow> nat) \<Rightarrow> model_id \<Rightarrow> int \<Rightarrow> page_state \<Rightarrow> nat option" where
  "group_counter f i dp s =
    (if \<not> valid_rank dp s then None
     else case ps_models s i of None \<Rightarrow> None | Some m \<Rightarrow> Some (f m (group_at i (nat dp) s)))"

definition get_num_free_virt_pages :: "model_id \<Rightarrow> int \<Rightarrow> page_state \<Rightarrow> nat option" where
  "get_num_free_virt_pages = group_counter (\<lambda>m g. num_free_virt g)"

definition get_num_inuse_virt_pages :: "model_id \<Rightarrow> int \<Rightarrow> page_state \<Rightarrow> nat option" where
  "get_num_inuse_virt_pages = group_counter (\<lambda>m g. ms_total_virt m - num_free_virt g)"

definition get_num_reserved_virt_pages :: "model_id \<Rightarrow> int \<Rightarrow> page_state \<Rightarrow> nat option" where
  "get_num_reserved_virt_pages = group_counter (\<lambda>m g. length (reserved_virt g))"

definition get_num_total_virt_pages :: "model_id \<Rightarrow> page_state \<Rightarrow> nat option" where
  "get_num_total_virt_pages i s = map_option ms_total_virt (ps_models s i)"

definition get_weight_pages_allocated :: "model_id \<Rightarrow> page_state \<Rightarrow> nat option" where
  "get_weight_pages_allocated i s = map_option ms_weights (ps_models s i)"

end
