(* ===== verification/Page_Steps.thy ===== *)
theory Page_Steps imports Page_Allocator begin

text \<open>
  The threads of the page allocator: the sections of all operations in any interleaving.  A configuration is the
  state with the multiset of the operations that are between two of their sections; a step runs one section.  The
  broadcasts to the workers succeed or fail at will.
\<close>

section \<open>Operations between two sections\<close>

datatype page_task =
    Map_Task model_id nat nat nat
  | Trigger_Task model_id nat nat
  | Record_Task model_id nat nat
  | Unmap_Task model_id nat "nat list" nat
  | Sleep_Wait_Task model_id bool
  | Sleep_Weight_Task model_id bool nat nat "(nat \<times> nat list) list"
  | Sleep_Unmap_Task model_id nat "(nat \<times> nat list) list"
  | Wake_Task model_id
  | Taken_Task model_id nat "nat list"
  | Prealloc_Task model_id nat "nat list"

type_synonym page_config = "page_state \<times> page_task multiset"

definition taken_tasks :: "(model_id \<times> nat \<times> nat list) list \<Rightarrow> page_task multiset" where
  "taken_tasks rs = mset (map (\<lambda>(i, dp, ids). Taken_Task i dp ids) rs)"

text \<open>The client, a block manager, frees pages that it has been given.\<close>

definition client_frees :: "model_id \<Rightarrow> int \<Rightarrow> nat list \<Rightarrow> page_state \<Rightarrow> bool" where
  "client_frees i dp ids s \<longleftrightarrow> distinct ids \<and> set ids \<subseteq> set (allocated_virt (group_at i (nat dp) s))"

inductive page_step :: "page_config \<Rightarrow> page_config \<Rightarrow> bool" where
  ps_register: "register_model i n s = Some (b, s') \<Longrightarrow> page_step (s, T) (s', T)"
| ps_strategy: "page_step (s, T) (set_model_parallel_strategy i d t s, T)"
| ps_alloc_ready: "alloc_begin fuel i dp s = Some (Alloc_Ready p, s') \<Longrightarrow> page_step (s, T) (s', T)"
| ps_alloc_throw: "alloc_begin fuel i dp s = Some (Alloc_Throw e, s') \<Longrightarrow> page_step (s, T) (s', T)"
| ps_alloc_map: "alloc_begin fuel i dp s = Some (Alloc_Map p n, s') \<Longrightarrow>
    page_step (s, T) (s', add_mset (Map_Task i (nat dp) p n) T)"
| ps_mapped: "page_step (s, add_mset (Map_Task i dp p n) T)
    (alloc_mapped i dp p n ok s, if ok then add_mset (Trigger_Task i dp p) T else T)"
| ps_trigger: "page_step (s, add_mset (Trigger_Task i dp p) T) (alloc_trigger s, add_mset (Record_Task i dp p) T)"
| ps_record: "page_step (s, add_mset (Record_Task i dp p) T) (alloc_record i dp p s, T)"
| ps_free: "free_begin i dp ids s = Some (js, s') \<Longrightarrow> client_frees i dp ids s \<Longrightarrow>
    page_step (s, T) (s', if js = [] then T else add_mset (Unmap_Task i (nat dp) js (ms_ppv (the (ps_models s i)))) T)"
| ps_trim: "trim_begin i dp s = Some (js, s') \<Longrightarrow>
    page_step (s, T) (s', if js = [] then T else add_mset (Unmap_Task i (nat dp) js (ms_ppv (the (ps_models s i)))) T)"
| ps_unmap: "page_step (s, add_mset (Unmap_Task i dp ids ppv) T) (unmap_end i dp ids ppv ok s, T)"
| ps_alloc_weight: "alloc_weight_pages i n bcast s = Some (b, s') \<Longrightarrow> page_step (s, T) (s', T)"
| ps_free_weight: "free_weight_pages i n bcast s = Some (b, s') \<Longrightarrow> page_step (s, T) (s', T)"
| ps_weight_count: "set_weight_pages_count i n s = Some s' \<Longrightarrow> page_step (s, T) (s', T)"
| ps_sleep: "sleep_check i s \<Longrightarrow> page_step (s, T) (s, add_mset (Sleep_Wait_Task i skip) T)"
| ps_sleep_enter: "ps_models s i = Some m \<Longrightarrow> ms_pending m \<le> 0 \<Longrightarrow> sleep_enter i s = ((w, ppv, gs), s') \<Longrightarrow>
    page_step (s, add_mset (Sleep_Wait_Task i skip) T) (s', add_mset (Sleep_Weight_Task i skip w ppv gs) T)"
| ps_sleep_weights: "sleep_weights i skip w bcast s = Some s' \<Longrightarrow>
    page_step (s, add_mset (Sleep_Weight_Task i skip w ppv gs) T) (s', add_mset (Sleep_Unmap_Task i ppv gs) T)"
| ps_sleep_fail: "sleep_weights i skip w bcast s = None \<Longrightarrow>
    page_step (s, add_mset (Sleep_Weight_Task i skip w ppv gs) T) (s, T)"
| ps_sleep_end: "length oks = length gs \<Longrightarrow>
    page_step (s, add_mset (Sleep_Unmap_Task i ppv gs) T) (sleep_release i ppv (zip gs oks) s, T)"
| ps_wakeup: "wakeup_begin i s = Some (r, s') \<Longrightarrow> page_step (s, T) (s', add_mset (Wake_Task i) T)"
| ps_wakeup_end: "page_step (s, add_mset (Wake_Task i) T) (if ok then wakeup_end i s else s, T)"
| ps_scan: "ps_running s \<Longrightarrow> ps_needed s \<Longrightarrow> distinct order \<Longrightarrow> set order = dom (ps_models s) \<Longrightarrow>
    prealloc_scan order s = (rs, s') \<Longrightarrow> page_step (s, T) (s', taken_tasks rs + T)"
| ps_taken: "prealloc_check i dp ids s = (go, s') \<Longrightarrow>
    page_step (s, add_mset (Taken_Task i dp ids) T) (s', if go then add_mset (Prealloc_Task i dp ids) T else T)"
| ps_prealloc_end: "page_step (s, add_mset (Prealloc_Task i dp ids) T) (prealloc_finish i dp ids ok s, T)"
| ps_start: "page_step (s, T) (start_prealloc_thread s, T)"
| ps_stop: "page_step (s, T) (stop_prealloc_thread s, T)"

inductive page_reach :: "page_config \<Rightarrow> bool" where
  page_reach_init: "page_reach (page_init g n dp w e page_empty, {#})"
| page_reach_step: "page_reach c \<Longrightarrow> page_step c c' \<Longrightarrow> page_reach c'"

section \<open>Frames\<close>

lemma add_used_frame [simp]: "ps_models (add_used ws n s) = ps_models s" "ps_dp_size (add_used ws n s) = ps_dp_size s"
  "ps_total (add_used ws n s) = ps_total s" "ps_world (add_used ws n s) = ps_world s"
  "ps_initialized (add_used ws n s) = ps_initialized s" "ps_prealloc (add_used ws n s) = ps_prealloc s"
  by (simp_all add: add_used_def)

lemma sub_used_frame [simp]: "ps_models (sub_used ws n s) = ps_models s" "ps_dp_size (sub_used ws n s) = ps_dp_size s"
  "ps_total (sub_used ws n s) = ps_total s" "ps_world (sub_used ws n s) = ps_world s"
  "ps_initialized (sub_used ws n s) = ps_initialized s" "ps_prealloc (sub_used ws n s) = ps_prealloc s"
  by (simp_all add: sub_used_def)

lemma release_frame [simp]: "ps_models (release_phy_pages i dp n s) = ps_models s" "ps_dp_size (release_phy_pages i dp n s) = ps_dp_size s"
  "ps_total (release_phy_pages i dp n s) = ps_total s" "ps_world (release_phy_pages i dp n s) = ps_world s"
  "ps_initialized (release_phy_pages i dp n s) = ps_initialized s" "ps_prealloc (release_phy_pages i dp n s) = ps_prealloc s"
  by (simp_all add: release_phy_pages_def)

lemma trigger_frame [simp]: "ps_models (trigger_preallocation s) = ps_models s" "ps_dp_size (trigger_preallocation s) = ps_dp_size s"
  "ps_total (trigger_preallocation s) = ps_total s" "ps_world (trigger_preallocation s) = ps_world s"
  "ps_initialized (trigger_preallocation s) = ps_initialized s" "ps_used (trigger_preallocation s) = ps_used s"
  by (simp_all add: trigger_preallocation_def)

lemma update_model_frame [simp]: "ps_models (update_model i f s) = (ps_models s)(i := map_option f (ps_models s i))"
  "ps_dp_size (update_model i f s) = ps_dp_size s" "ps_total (update_model i f s) = ps_total s"
  "ps_world (update_model i f s) = ps_world s" "ps_initialized (update_model i f s) = ps_initialized s"
  "ps_used (update_model i f s) = ps_used s" "ps_prealloc (update_model i f s) = ps_prealloc s"
  by (auto simp: update_model_def split: option.split)

lemma update_group_frame [simp]:
  "ps_models (update_group i dp f s) = (ps_models s)(i := map_option (\<lambda>m. m\<lparr>ms_groups := (ms_groups m)[dp := f (ms_groups m ! dp)]\<rparr>) (ps_models s i))"
  "ps_dp_size (update_group i dp f s) = ps_dp_size s" "ps_total (update_group i dp f s) = ps_total s"
  "ps_world (update_group i dp f s) = ps_world s" "ps_initialized (update_group i dp f s) = ps_initialized s"
  "ps_used (update_group i dp f s) = ps_used s" "ps_prealloc (update_group i dp f s) = ps_prealloc s"
  by (simp_all add: update_group_def)

lemma add_pending_frame [simp]:
  "ps_models (add_pending i k s) = (ps_models s)(i := map_option (\<lambda>m. m\<lparr>ms_pending := ms_pending m + k\<rparr>) (ps_models s i))"
  "ps_dp_size (add_pending i k s) = ps_dp_size s" "ps_total (add_pending i k s) = ps_total s"
  "ps_world (add_pending i k s) = ps_world s" "ps_initialized (add_pending i k s) = ps_initialized s"
  "ps_used (add_pending i k s) = ps_used s" "ps_prealloc (add_pending i k s) = ps_prealloc s"
  by (simp_all add: add_pending_def)

lemma group_workers_update [simp]: "group_workers i dp (update_group j d f s) = group_workers i dp s"
  "group_workers i dp (add_pending j k s) = group_workers i dp s" "group_workers i dp (add_used ws n s) = group_workers i dp s"
  "group_workers i dp (sub_used ws n s) = group_workers i dp s" "group_workers i dp (trigger_preallocation s) = group_workers i dp s"
  by (auto simp: group_workers_def split: option.split)

lemma min_free_update [simp]: "min_free_pages ws (update_group i dp f s) = min_free_pages ws s"
  "min_free_pages ws (add_pending i k s) = min_free_pages ws s"
  by (simp_all add: min_free_pages_def)

section \<open>Used pages stay within the total\<close>

definition used_ok :: "page_state \<Rightarrow> bool" where
  "used_ok s \<longleftrightarrow> length (ps_used s) = ps_world s \<and> (\<forall>w < ps_world s. ps_used s ! w \<le> ps_total s)"

lemma min_free_le: "w \<in> set ws \<Longrightarrow> min_free_pages ws s \<le> ps_total s - ps_used s ! w"
  and min_free_ge: "k \<le> ps_total s \<Longrightarrow> (\<And>w. w \<in> set ws \<Longrightarrow> k \<le> ps_total s - ps_used s ! w) \<Longrightarrow> k \<le> min_free_pages ws s"
proof -
  have *: "fold (\<lambda>w m. min m (f w)) ws a \<le> a \<and> (\<forall>w \<in> set ws. fold (\<lambda>w m. min m (f w)) ws a \<le> f w)
    \<and> (\<forall>k \<le> a. (\<forall>w \<in> set ws. k \<le> f w) \<longrightarrow> k \<le> fold (\<lambda>w m. min m (f w)) ws a)" for f :: "nat \<Rightarrow> nat" and a
  proof (induction ws arbitrary: a)
    case (Cons w ws)
    show ?case using Cons [of "min a (f w)"] by (auto intro: order_trans)
  qed simp
  show "w \<in> set ws \<Longrightarrow> min_free_pages ws s \<le> ps_total s - ps_used s ! w" using * [of "\<lambda>w. ps_total s - ps_used s ! w" "ps_total s"] by (simp add: min_free_pages_def)
  show "k \<le> ps_total s \<Longrightarrow> (\<And>w. w \<in> set ws \<Longrightarrow> k \<le> ps_total s - ps_used s ! w) \<Longrightarrow> k \<le> min_free_pages ws s"
    using * [of "\<lambda>w. ps_total s - ps_used s ! w" "ps_total s"] by (simp add: min_free_pages_def)
qed

lemma fold_update:
  assumes "distinct ws" "set ws \<subseteq> {..<length u}"
  shows "length (fold (\<lambda>w u. u[w := f (u ! w)]) ws u) = length u"
    "k < length u \<Longrightarrow> fold (\<lambda>w u. u[w := f (u ! w)]) ws u ! k = (if k \<in> set ws then f (u ! k) else u ! k)"
  using assms by (induction ws arbitrary: u) (auto simp: nth_update)

lemma workers_below: "set (group_workers i dp s) \<subseteq> {..<ps_world s}" "distinct (group_workers i dp s)"
  "set (model_workers i s) \<subseteq> {..<ps_world s}" "distinct (model_workers i s)"
  by (auto simp: group_workers_def model_workers_def Let_def split: option.splits)

lemma add_used_nth:
  assumes "distinct ws" "set ws \<subseteq> {..<ps_world s}" "length (ps_used s) = ps_world s"
  shows "length (ps_used (add_used ws n s)) = ps_world s"
    "w < ps_world s \<Longrightarrow> ps_used (add_used ws n s) ! w = ps_used s ! w + (if w \<in> set ws then n else 0)"
  using fold_update [where ws = ws and u = "ps_used s" and f = "\<lambda>x. x + n"] assms by (simp_all add: add_used_def)

lemma sub_used_nth:
  assumes "distinct ws" "set ws \<subseteq> {..<ps_world s}" "length (ps_used s) = ps_world s"
  shows "length (ps_used (sub_used ws n s)) = ps_world s"
    "w < ps_world s \<Longrightarrow> ps_used (sub_used ws n s) ! w = ps_used s ! w - (if w \<in> set ws then n else 0)"
  using fold_update [where ws = ws and u = "ps_used s" and f = "\<lambda>x. if n \<le> x then x - n else 0"] assms by (simp_all add: sub_used_def)

lemma used_ok_cong: "used_ok s \<Longrightarrow> ps_used s' = ps_used s \<Longrightarrow> ps_world s' = ps_world s \<Longrightarrow> ps_total s' = ps_total s \<Longrightarrow> used_ok s'"
  by (simp add: used_ok_def)

lemma used_ok_add: "used_ok s \<Longrightarrow> distinct ws \<Longrightarrow> set ws \<subseteq> {..<ps_world s} \<Longrightarrow> n \<le> min_free_pages ws s \<Longrightarrow> used_ok (add_used ws n s)"
  using min_free_le [of _ ws s] by (auto simp: used_ok_def add_used_nth) (metis le_add_diff_inverse nat_add_left_cancel_le order_trans)

lemma used_ok_sub: "used_ok s \<Longrightarrow> distinct ws \<Longrightarrow> set ws \<subseteq> {..<ps_world s} \<Longrightarrow> used_ok (sub_used ws n s)"
  by (auto simp: used_ok_def sub_used_nth intro: le_trans diff_le_self)

lemma used_ok_release: "used_ok s \<Longrightarrow> used_ok (release_phy_pages i dp n s)"
  unfolding release_phy_pages_def by (rule used_ok_sub) (simp_all add: workers_below)

lemma used_ok_consume: "used_ok s \<Longrightarrow> consume_phy_pages i dp n s = (b, s') \<Longrightarrow> used_ok s'"
  by (auto simp: consume_phy_pages_def Let_def workers_below intro!: used_ok_add dest!: subsetD [OF workers_below(1)] split: if_splits)

section \<open>One round of the allocation loop\<close>

lemma alloc_round_eq:
  "alloc_round i dp s =
    (let g = group_at i dp s; need = ms_ppv (the (ps_models s i)) in
     if reserved_virt g \<noteq> []
     then (Alloc_Ready (hd (reserved_virt g)),
           (let s' = update_group i dp take_reserved s
            in if length (reserved_virt g) - 1 < min_reserved_pages then trigger_preallocation s' else s'))
     else if free_virt g = [] then (Alloc_Throw ''No free virtual pages left'', s)
     else if has_enough_phy_pages i dp need s
     then (Alloc_Map (hd (free_virt g)) need, add_used (group_workers i dp s) need (update_group i dp take_free s))
     else (Alloc_Throw ''No free physical pages left'', s))"
  by (auto simp: alloc_round_def Let_def has_enough_phy_pages_def consume_phy_pages_def)

definition count_map :: "model_id \<Rightarrow> alloc_outcome \<times> page_state \<Rightarrow> alloc_outcome \<times> page_state" where
  "count_map i r = (fst r, case fst r of Alloc_Map p n \<Rightarrow> add_pending i 1 (snd r) | _ \<Rightarrow> snd r)"

lemma alloc_loop_once: "alloc_loop i dp (Suc fuel) s = Some (count_map i (alloc_round i dp s))"
  by (auto simp: alloc_round_eq Let_def count_map_def)

lemma alloc_begin_cases:
  assumes "alloc_begin fuel i dp s = Some (r, s')"
  obtains m where "ps_initialized s" "0 \<le> dp" "nat dp < ps_dp_size s" "ps_models s i = Some m" "\<not> ms_sleeping m"
    "count_map i (alloc_round i (nat dp) s) = (r, s')"
proof -
  obtain m where m: "ps_initialized s" "valid_rank dp s" "ps_models s i = Some m" "\<not> ms_sleeping m" "alloc_loop i (nat dp) fuel s = Some (r, s')"
    using assms by (auto simp: alloc_begin_def split: if_splits option.splits)
  obtain k where k: "fuel = Suc k" using m(5) by (cases fuel) auto
  have "0 \<le> dp" "nat dp < ps_dp_size s" using m(2) by (auto simp: valid_rank_def)
  then show thesis using that m unfolding k alloc_loop_once by simp
qed

lemma alloc_ready:
  assumes "alloc_begin fuel i dp s = Some (Alloc_Ready p, s')"
  obtains m where "nat dp < ps_dp_size s" "ps_models s i = Some m" "\<not> ms_sleeping m" "reserved_virt (group_at i (nat dp) s) \<noteq> []"
    "p = hd (reserved_virt (group_at i (nat dp) s))"
    "s' = update_group i (nat dp) take_reserved s \<or> s' = trigger_preallocation (update_group i (nat dp) take_reserved s)"
  by (rule alloc_begin_cases [OF assms]) (auto simp: alloc_round_eq Let_def count_map_def split: if_splits)

lemma alloc_throw: "alloc_begin fuel i dp s = Some (Alloc_Throw e, s') \<Longrightarrow> s' = s"
  by (erule alloc_begin_cases) (auto simp: alloc_round_eq Let_def count_map_def split: if_splits)

lemma alloc_map:
  assumes "alloc_begin fuel i dp s = Some (Alloc_Map p n, s')"
  obtains m where "nat dp < ps_dp_size s" "ps_models s i = Some m" "\<not> ms_sleeping m" "free_virt (group_at i (nat dp) s) \<noteq> []"
    "p = hd (free_virt (group_at i (nat dp) s))" "n = ms_ppv m" "n \<le> min_free_pages (group_workers i (nat dp) s) s"
    "s' = add_pending i 1 (add_used (group_workers i (nat dp) s) n (update_group i (nat dp) take_free s))"
  by (rule alloc_begin_cases [OF assms]) (auto simp: alloc_round_eq Let_def count_map_def has_enough_phy_pages_def split: if_splits)

lemma prealloc_bound:
  "length (take (prealloc_amount i dp s) (free_virt (group_at i dp s))) * ms_ppv (the (ps_models s i))
   \<le> min_free_pages (group_workers i dp s) s"
proof -
  let ?n = "prealloc_amount i dp s" and ?p = "ms_ppv (the (ps_models s i))"
  have "length (take ?n (free_virt (group_at i dp s))) \<le> min_free_pages (group_workers i dp s) s div ?p"
    by (simp add: prealloc_amount_def Let_def)
  then have "length (take ?n (free_virt (group_at i dp s))) * ?p \<le> min_free_pages (group_workers i dp s) s div ?p * ?p"
    by (rule mult_le_mono1)
  also have "\<dots> \<le> min_free_pages (group_workers i dp s) s" by simp
  finally show ?thesis .
qed

lemma prealloc_group_eq:
  "prealloc_group i dp s =
    (let n = prealloc_amount i dp s; ids = take n (free_virt (group_at i dp s)) in
     if n = 0 then (None, s)
     else (Some ids, add_used (group_workers i dp s) (length ids * ms_ppv (the (ps_models s i)))
                (update_group i dp (\<lambda>g. g\<lparr>free_virt := drop n (free_virt g)\<rparr>) s)))"
  using prealloc_bound [of i dp s] by (auto simp: prealloc_group_def Let_def consume_phy_pages_def)

section \<open>The bound is kept by every step\<close>

lemma used_ok_update [simp]: "used_ok (update_group i dp f s) = used_ok s" "used_ok (add_pending i k s) = used_ok s"
  "used_ok (update_model i h s) = used_ok s" "used_ok (trigger_preallocation s) = used_ok s" "used_ok (s\<lparr>ps_needed := b\<rparr>) = used_ok s"
  by (simp_all add: used_ok_def)

lemma used_ok_return: "used_ok s \<Longrightarrow> used_ok (return_taken i dp ids s)"
  by (auto simp: return_taken_def intro: used_ok_release split: option.split)

lemma used_ok_prealloc_groups: "used_ok s \<Longrightarrow> prealloc_groups i dps s = (rs, s') \<Longrightarrow> used_ok s'"
proof (induction i dps s arbitrary: rs rule: prealloc_groups.induct)
  case (2 i dp dps s)
  obtain r s1 where r: "prealloc_group i dp s = (r, s1)" by fastforce
  have "used_ok s1"
  proof (cases "prealloc_amount i dp s = 0")
    case True
    then show ?thesis using r 2(2) by (simp add: prealloc_group_eq Let_def)
  next
    case False
    then have "s1 = add_used (group_workers i dp s) (length (take (prealloc_amount i dp s) (free_virt (group_at i dp s))) * ms_ppv (the (ps_models s i)))
        (update_group i dp (\<lambda>g. g\<lparr>free_virt := drop (prealloc_amount i dp s) (free_virt g)\<rparr>) s)"
      using r by (simp add: prealloc_group_eq Let_def del: length_take)
    moreover have "used_ok (update_group i dp (\<lambda>g. g\<lparr>free_virt := drop (prealloc_amount i dp s) (free_virt g)\<rparr>) s)" using 2(2) by simp
    ultimately show ?thesis using used_ok_add workers_below(1,2) prealloc_bound by simp
  qed
  then show ?case using 2(1) [OF r [symmetric]] 2(3) r by (auto split: prod.splits)
qed simp

lemma used_ok_scan: "used_ok s \<Longrightarrow> prealloc_models order s = (rs, s') \<Longrightarrow> used_ok s'"
proof (induction order s arbitrary: rs rule: prealloc_models.induct)
  case (2 i "is" s)
  obtain rs1 s1 where r: "(if is_model_sleeping i s then ([], s) else prealloc_groups i [0..<ps_dp_size s] s) = (rs1, s1)" by fastforce
  then have "used_ok s1" using used_ok_prealloc_groups 2(2) by (auto split: if_splits)
  then show ?case using 2(1) [OF r [symmetric]] 2(3) r by (auto split: prod.splits)
qed simp

lemma used_ok_sleep_release: "used_ok s \<Longrightarrow> used_ok (sleep_release i ppv gs s)"
  by (induction i ppv gs s rule: sleep_release.induct) (auto simp: used_ok_release)

lemma used_ok_weights: "used_ok s \<Longrightarrow> free_weight_pages i n b s = Some (r, s') \<Longrightarrow> used_ok s'"
  using used_ok_sub [of s "model_workers i s" n] workers_below(3,4) by (auto simp: free_weight_pages_def split: if_splits)

lemma used_ok_wakeup:
  assumes "used_ok s" "wakeup_begin i s = Some (r, s')"
  shows "used_ok s'"
proof -
  obtain m where m: "ps_models s i = Some m" using assms(2) by (auto simp: wakeup_begin_def split: option.splits)
  define need where "need = wakeup_need i (ms_ppv m) (ms_weights m) (mapped_groups i s) s"
  have no: "\<not> (\<exists>w\<in>set [0..<ps_world s]. need w \<noteq> 0 \<and> ps_total s - ps_used s ! w < need w)"
    and s': "s' = s\<lparr>ps_used := map (\<lambda>w. ps_used s ! w + need w) [0..<ps_world s]\<rparr>"
    using assms(2) unfolding wakeup_begin_def m Let_def need_def by (simp_all split: if_splits)
  have u: "need w \<le> ps_total s - ps_used s ! w" if "w < ps_world s" "need w \<noteq> 0" for w
  proof (rule ccontr)
    assume "\<not> need w \<le> ps_total s - ps_used s ! w"
    moreover have "w \<in> set [0..<ps_world s]" using that(1) by simp
    ultimately show False using no that(2) not_less by blast
  qed
  have "ps_used s ! w + need w \<le> ps_total s" if "w < ps_world s" for w
    using u [OF that] assms(1) that unfolding used_ok_def by (cases "need w = 0") (simp, metis Nat.le_diff_conv2 add.commute)
  then show ?thesis using s' by (simp add: used_ok_def)
qed

lemma page_step_used: "page_step c c' \<Longrightarrow> used_ok (fst c) \<Longrightarrow> used_ok (fst c')"
proof (induction rule: page_step.induct)
  case (ps_register i n s b s' T)
  then show ?case by (auto simp: register_model_def used_ok_def Let_def split: if_splits)
next
  case (ps_alloc_ready fuel i dp s p s' T)
  then show ?case by (auto elim!: alloc_ready)
next
  case (ps_alloc_throw fuel i dp s e s' T)
  then show ?case using alloc_throw by fastforce
next
  case (ps_alloc_map fuel i dp s p n s' T)
  then show ?case by (auto elim!: alloc_map intro!: used_ok_add simp: workers_below dest!: subsetD [OF workers_below(1)])
next
  case (ps_mapped s i dp p n T ok)
  then show ?case by (auto simp: alloc_mapped_def Let_def intro: used_ok_release)
next
  case (ps_free i dp ids s js s' T)
  then show ?case by (auto simp: free_begin_def Let_def split: if_splits option.splits)
next
  case (ps_trim i dp s js s' T)
  then show ?case by (auto simp: trim_begin_def split: if_splits)
next
  case (ps_unmap s i dp ids ppv T ok)
  then show ?case by (auto simp: unmap_end_def intro: used_ok_release)
next
  case (ps_alloc_weight i n bcast s b s' T)
  then show ?case by (auto simp: alloc_weight_pages_def Let_def workers_below intro!: used_ok_add dest!: subsetD [OF workers_below(3)] split: if_splits)
next
  case (ps_sleep_enter s i m w ppv gs s' skip T)
  then show ?case by (auto simp: sleep_enter_def Let_def)
next
  case (ps_sleep_weights i skip w bcast s s' ppv gs T)
  then show ?case by (auto simp: sleep_weights_def intro: used_ok_weights split: if_splits option.splits bool.splits)
next
  case (ps_scan s order rs s' T)
  then show ?case using used_ok_scan [of "s\<lparr>ps_needed := False\<rparr>"] by (simp add: prealloc_scan_def)
next
  case (ps_taken i dp ids s go s' T)
  then show ?case by (auto simp: prealloc_check_def intro: used_ok_return split: option.splits if_splits)
next
  case (ps_prealloc_end s i dp ids T ok)
  then show ?case by (auto simp: prealloc_finish_def Let_def intro: used_ok_return used_ok_release split: option.split)
next
  case (ps_free_weight i n bcast s b s' T)
  then show ?case using used_ok_weights by simp
next
  case (ps_wakeup i s r s' T)
  then show ?case using used_ok_wakeup by simp
next
  case (ps_sleep_end oks gs s i ppv T)
  then show ?case by (simp add: used_ok_sleep_release)
next
  case (ps_weight_count i n s s' T)
  then show ?case by (auto simp: set_weight_pages_count_def split: if_splits)
next
  case (ps_start s T)
  then show ?case by (simp add: start_prealloc_thread_def used_ok_def)
next
  case (ps_stop s T)
  then show ?case by (simp add: stop_prealloc_thread_def used_ok_def)
qed (simp_all add: set_model_parallel_strategy_def alloc_trigger_def alloc_record_def wakeup_end_def Let_def)

lemma page_reach_used: "page_reach c \<Longrightarrow> used_ok (fst c)"
proof (induction rule: page_reach.induct)
  case page_reach_init
  then show ?case by (simp add: page_init_def page_empty_def used_ok_def)
next
  case (page_reach_step c c')
  then show ?case using page_step_used by blast
qed

end
