(* ===== verification/Page_Conservation.thy ===== *)
theory Page_Conservation imports Page_Steps begin

text \<open>
  No virtual page is lost or given out twice: the lists of a group and the operations in flight hold each page of
  the group exactly once, in every interleaving.
\<close>

section \<open>Pages in flight\<close>

fun task_place :: "page_task \<Rightarrow> (model_id \<times> nat \<times> nat list) option" where
  "task_place (Map_Task i dp p n) = Some (i, dp, [p])"
| "task_place (Trigger_Task i dp p) = Some (i, dp, [p])"
| "task_place (Record_Task i dp p) = Some (i, dp, [p])"
| "task_place (Unmap_Task i dp ids ppv) = Some (i, dp, ids)"
| "task_place (Taken_Task i dp ids) = Some (i, dp, ids)"
| "task_place (Prealloc_Task i dp ids) = Some (i, dp, ids)"
| "task_place _ = None"

text \<open>Pages that are on their way between two lists of free pages, which the counter of free pages includes.\<close>

fun task_free :: "page_task \<Rightarrow> bool" where
  "task_free (Unmap_Task i dp ids ppv) = True"
| "task_free (Taken_Task i dp ids) = True"
| "task_free (Prealloc_Task i dp ids) = True"
| "task_free _ = False"

text \<open>Map operations that the model counts.\<close>

fun task_maps :: "model_id \<Rightarrow> page_task \<Rightarrow> bool" where
  "task_maps i (Map_Task j dp p n) = (i = j)"
| "task_maps i (Prealloc_Task j dp ids) = (i = j)"
| "task_maps i _ = False"

definition task_pages :: "model_id \<Rightarrow> nat \<Rightarrow> page_task \<Rightarrow> nat list" where
  "task_pages i dp t = (case task_place t of Some (j, d, ids) \<Rightarrow> if j = i \<and> d = dp then ids else [] | None \<Rightarrow> [])"

definition flight :: "model_id \<Rightarrow> nat \<Rightarrow> page_task multiset \<Rightarrow> nat multiset" where
  "flight i dp T = (\<Sum>t\<in>#T. mset (task_pages i dp t))"

definition flight_free :: "model_id \<Rightarrow> nat \<Rightarrow> page_task multiset \<Rightarrow> nat" where
  "flight_free i dp T = (\<Sum>t\<in>#T. if task_free t then length (task_pages i dp t) else 0)"

definition maps_pending :: "model_id \<Rightarrow> page_task multiset \<Rightarrow> nat" where
  "maps_pending i T = size (filter_mset (task_maps i) T)"

lemma flight_add [simp]: "flight i dp (add_mset t T) = mset (task_pages i dp t) + flight i dp T"
  "flight_free i dp (add_mset t T) = (if task_free t then length (task_pages i dp t) else 0) + flight_free i dp T"
  "maps_pending i (add_mset t T) = (if task_maps i t then 1 else 0) + maps_pending i T"
  by (simp_all add: flight_def flight_free_def maps_pending_def)

lemma flight_plus [simp]: "flight i dp (T + U) = flight i dp T + flight i dp U"
  "flight_free i dp (T + U) = flight_free i dp T + flight_free i dp U" "maps_pending i (T + U) = maps_pending i T + maps_pending i U"
  by (simp_all add: flight_def flight_free_def maps_pending_def)

lemma flight_empty [simp]: "flight i dp {#} = {#}" "flight_free i dp {#} = 0" "maps_pending i {#} = 0"
  by (simp_all add: flight_def flight_free_def maps_pending_def)

section \<open>The invariant\<close>

definition group_pages :: "dp_group \<Rightarrow> nat multiset" where
  "group_pages g = mset (free_virt g) + mset (reserved_virt g) + mset (allocated_virt g)"

definition group_inv :: "nat \<Rightarrow> dp_group \<Rightarrow> nat multiset \<Rightarrow> nat \<Rightarrow> bool" where
  "group_inv n g F k \<longleftrightarrow> group_pages g + F = mset [0..<n] \<and> num_free_virt g = length (free_virt g) + length (reserved_virt g) + k"

definition model_inv :: "page_state \<Rightarrow> page_task multiset \<Rightarrow> model_id \<Rightarrow> model_state \<Rightarrow> bool" where
  "model_inv s T i m \<longleftrightarrow> length (ms_groups m) = ps_dp_size s
    \<and> ms_pending m = int (maps_pending i T) \<and> (ms_sleeping m \<longrightarrow> maps_pending i T = 0)
    \<and> (\<forall>dp < ps_dp_size s. group_inv (ms_total_virt m) (ms_groups m ! dp) (flight i dp T) (flight_free i dp T))"

definition task_ok :: "page_state \<Rightarrow> page_task \<Rightarrow> bool" where
  "task_ok s t \<longleftrightarrow> (\<forall>i dp ids. task_place t = Some (i, dp, ids) \<longrightarrow> ps_models s i \<noteq> None \<and> dp < ps_dp_size s)"

definition page_inv :: "page_config \<Rightarrow> bool" where
  "page_inv c \<longleftrightarrow> (case c of (s, T) \<Rightarrow>
     (\<forall>i m. ps_models s i = Some m \<longrightarrow> model_inv s T i m) \<and> (\<forall>t \<in># T. task_ok s t))"

lemma page_inv_model: "page_inv (s, T) \<Longrightarrow> ps_models s i = Some m \<Longrightarrow> model_inv s T i m"
  unfolding page_inv_def by simp

lemma page_inv_task: "page_inv (s, T) \<Longrightarrow> t \<in># T \<Longrightarrow> task_ok s t"
  unfolding page_inv_def by simp

lemma page_invD:
  assumes "page_inv (s, T)" "ps_models s i = Some m"
  shows "length (ms_groups m) = ps_dp_size s" "ms_pending m = int (maps_pending i T)" "ms_sleeping m \<Longrightarrow> maps_pending i T = 0"
    "dp < ps_dp_size s \<Longrightarrow> group_inv (ms_total_virt m) (ms_groups m ! dp) (flight i dp T) (flight_free i dp T)"
  using page_inv_model [OF assms] unfolding model_inv_def by blast+

lemma page_inv_taskD:
  assumes "page_inv (s, add_mset t T)" "task_place t = Some (i, dp, ids)"
  obtains m where "ps_models s i = Some m" "dp < ps_dp_size s"
  using assms by (auto simp: page_inv_def task_ok_def)

text \<open>A step that changes one group of one model, the operations in flight of that group, and its pending count.\<close>

definition same_elsewhere :: "model_id \<Rightarrow> nat \<Rightarrow> page_task multiset \<Rightarrow> page_task multiset \<Rightarrow> bool" where
  "same_elsewhere i dp T U \<longleftrightarrow> (\<forall>j d. (j, d) \<noteq> (i, dp) \<longrightarrow> flight j d U = flight j d T \<and> flight_free j d U = flight_free j d T)
    \<and> (\<forall>j. j \<noteq> i \<longrightarrow> maps_pending j U = maps_pending j T)"

lemma page_inv_group:
  assumes inv: "page_inv (s, T)" and m: "ps_models s i = Some m" "dp < ps_dp_size s"
    and s': "ps_models s' = (ps_models s)(i \<mapsto> m')" "ps_dp_size s' = ps_dp_size s"
    and m': "ms_groups m' = (ms_groups m)[dp := g']" "ms_total_virt m' = ms_total_virt m"
      "ms_pending m' = int (maps_pending i U)" "ms_sleeping m' \<Longrightarrow> maps_pending i U = 0"
    and g: "group_inv (ms_total_virt m) g' (flight i dp U) (flight_free i dp U)"
    and U: "same_elsewhere i dp T U" "\<And>t. t \<in># U \<Longrightarrow> t \<in># T \<or> task_ok s t"
  shows "page_inv (s', U)"
proof -
  have "model_inv s' U j x" if "ps_models s' j = Some x" for j x
  proof (cases "j = i")
    case True
    then have x: "x = m'" using that s' by simp
    note d = page_invD [OF inv m(1)]
    have "group_inv (ms_total_virt m') (ms_groups m' ! k) (flight i k U) (flight_free i k U)" if "k < ps_dp_size s" for k
      using that d(1) d(4) [OF that] m' g m(2) U(1) by (auto simp: same_elsewhere_def nth_update)
    then show ?thesis using x True m' s'(2) d(1) by (auto simp: model_inv_def)
  next
    case False
    then have "ps_models s j = Some x" using that s' by simp
    from page_invD [OF inv this] show ?thesis using U(1) False s'(2) by (auto simp: model_inv_def same_elsewhere_def)
  qed
  moreover have "task_ok s' t" if "t \<in># U" for t
  proof -
    have "task_ok s t" using U(2) [OF that] page_inv_task [OF inv] by blast
    then show ?thesis using s' by (auto simp: task_ok_def)
  qed
  ultimately show ?thesis by (simp add: page_inv_def)
qed

text \<open>A step that leaves the lists alone.\<close>

lemma page_inv_same:
  assumes inv: "page_inv (s, T)" and s': "\<And>i. map_option (\<lambda>m. (ms_groups m, ms_total_virt m, ms_pending m)) (ps_models s' i)
      = map_option (\<lambda>m. (ms_groups m, ms_total_virt m, ms_pending m)) (ps_models s i)" "ps_dp_size s' = ps_dp_size s"
    and sleep: "\<And>i m'. ps_models s' i = Some m' \<Longrightarrow> ms_sleeping m' \<Longrightarrow> ms_pending m' = 0"
    and U: "\<And>i dp. flight i dp U = flight i dp T" "\<And>i dp. flight_free i dp U = flight_free i dp T" "\<And>i. maps_pending i U = maps_pending i T"
      "\<And>t. t \<in># U \<Longrightarrow> t \<in># T \<or> task_ok s t"
  shows "page_inv (s', U)"
proof -
  have "model_inv s' U i x" if x: "ps_models s' i = Some x" for i x
  proof -
    obtain m where "ps_models s i = Some m" "ms_groups x = ms_groups m" "ms_total_virt x = ms_total_virt m" "ms_pending x = ms_pending m"
      using s'(1) [of i] x by (cases "ps_models s i") auto
    moreover have "ms_sleeping x \<Longrightarrow> maps_pending i T = 0" using sleep [OF x] calculation page_invD(2) [OF inv] by fastforce
    ultimately show ?thesis using page_inv_model [OF inv, of i m] unfolding model_inv_def U(1-3) s'(2) by simp
  qed
  moreover have "task_ok s' t" if "t \<in># U" for t
  proof -
    have "task_ok s t" using U(4) [OF that] page_inv_task [OF inv] by blast
    moreover have "ps_models s' i = None \<longleftrightarrow> ps_models s i = None" for i
      using s'(1) [of i] by (cases "ps_models s' i"; cases "ps_models s i") simp_all
    ultimately show ?thesis using s'(2) by (simp add: task_ok_def)
  qed
  ultimately show ?thesis by (simp add: page_inv_def)
qed

section \<open>Changes of one group\<close>

lemma group_inv_once:
  assumes "group_inv n g F k" "p \<in># A" "A + B = group_pages g + F"
  shows "p \<notin># B"
proof
  assume "p \<in># B"
  then have "2 \<le> count (A + B) p" using assms(2) by (metis add_mono count_greater_eq_one_iff count_union one_add_one)
  moreover have "A + B = mset [0..<n]" using assms(1,3) by (simp add: group_inv_def)
  moreover have "count (mset [0..<n]) p \<le> 1" by (metis distinct_count_atmost_1 distinct_upt le_refl zero_le_one)
  ultimately show False by (simp del: mset_upt)
qed

lemma insert_new: "p \<notin> set ps \<Longrightarrow> insert_page p ps = ps @ [p]"
  by (simp add: insert_page_def)

lemma group_inv_take_reserved:
  assumes "group_inv n g F k" "reserved_virt g \<noteq> []"
  shows "group_inv n (take_reserved g) F k"
proof -
  obtain p ps where r: "reserved_virt g = p # ps" using assms(2) by (cases "reserved_virt g") auto
  have "p \<notin># mset (free_virt g) + mset ps + mset (allocated_virt g) + F"
    by (rule group_inv_once [OF assms(1), of _ "{#p#}"]) (simp_all add: group_pages_def r)
  then show ?thesis using assms(1) r by (simp add: group_inv_def group_pages_def take_reserved_def insert_new)
qed

lemma group_inv_take_free:
  assumes "group_inv n g F k" "free_virt g \<noteq> []"
  shows "group_inv n (take_free g) (add_mset (hd (free_virt g)) F) k"
  using assms by (cases "free_virt g") (auto simp: group_inv_def group_pages_def take_free_def)

lemma group_inv_give_back: "group_inv n g (add_mset p F) k \<Longrightarrow> group_inv n (give_back p g) F k"
  by (simp add: group_inv_def group_pages_def give_back_def)

lemma group_inv_record:
  assumes "group_inv n g (add_mset p F) k"
  shows "group_inv n (g\<lparr>allocated_virt := insert_page p (allocated_virt g)\<rparr>) F k"
proof -
  have "p \<notin># group_pages g + F" by (rule group_inv_once [OF assms, of _ "{#p#}"]) simp_all
  then have "p \<notin> set (allocated_virt g)" by (simp add: group_pages_def)
  then show ?thesis using assms by (simp add: group_inv_def group_pages_def insert_new)
qed

lemma mset_drop: "distinct xs \<Longrightarrow> distinct ys \<Longrightarrow> set ys \<subseteq> set xs \<Longrightarrow> mset (filter (\<lambda>x. x \<notin> set ys) xs) + mset ys = mset xs"
proof (rule multiset_eqI)
  fix x assume "distinct xs" "distinct ys" "set ys \<subseteq> set xs"
  then show "count (mset (filter (\<lambda>x. x \<notin> set ys) xs) + mset ys) x = count (mset xs) x"
    by (auto simp: distinct_count_atmost_1 count_mset_0_iff)
qed

lemma group_inv_distinct: "group_inv n g F k \<Longrightarrow> distinct (allocated_virt g)"
proof (rule distinct_count_atmost_1 [THEN iffD2], intro allI)
  fix x assume inv: "group_inv n g F k"
  have "count (mset (allocated_virt g)) x \<le> count (mset [0..<n]) x" using inv by (auto simp: group_inv_def group_pages_def dest: arg_cong [of _ _ "\<lambda>M. count M x"])
  then show "count (mset (allocated_virt g)) x = (if x \<in> set (allocated_virt g) then 1 else 0)"
    by (metis count_greater_eq_one_iff distinct_count_atmost_1 distinct_upt le_antisym not_in_iff order_trans set_mset_mset zero_le_one)
qed

lemma group_inv_drop:
  assumes "group_inv n g F k" "distinct ids" "set ids \<subseteq> set (allocated_virt g)"
  shows "group_inv n (drop_allocated ids g) (mset ids + F) (length ids + k)"
  using mset_drop [OF group_inv_distinct [OF assms(1)] assms(2,3)] assms(1)
  by (simp add: group_inv_def group_pages_def drop_allocated_def ac_simps)

lemma group_inv_push_reserved: "group_inv n g (mset ids + F) (length ids + k) \<Longrightarrow> group_inv n (push_reserved ids g) F k"
  by (simp add: group_inv_def group_pages_def push_reserved_def ac_simps)

lemma group_inv_push_free: "group_inv n g (mset ids + F) (length ids + k) \<Longrightarrow> group_inv n (push_free ids g) F k"
  by (simp add: group_inv_def group_pages_def push_free_def ac_simps)

lemma group_inv_return: "group_inv n g (mset ids + F) (length ids + k) \<Longrightarrow> group_inv n (g\<lparr>free_virt := ids @ free_virt g\<rparr>) F k"
  by (simp add: group_inv_def group_pages_def ac_simps)

lemma group_inv_trim: "group_inv n g F k \<Longrightarrow> group_inv n (g\<lparr>reserved_virt := []\<rparr>) (mset (reserved_virt g) + F) (length (reserved_virt g) + k)"
  by (simp add: group_inv_def group_pages_def ac_simps)

lemma group_inv_prealloc:
  "group_inv n g F k \<Longrightarrow> group_inv n (g\<lparr>free_virt := drop j (free_virt g)\<rparr>) (mset (take j (free_virt g)) + F) (length (take j (free_virt g)) + k)"
proof -
  assume inv: "group_inv n g F k"
  have "mset (free_virt g) = mset (take j (free_virt g)) + mset (drop j (free_virt g))" by (metis append_take_drop_id mset_append)
  moreover have "length (free_virt g) = length (take j (free_virt g)) + length (drop j (free_virt g))" by simp
  ultimately show ?thesis using inv by (cases g) (simp only: group_inv_def group_pages_def dp_group.simps dp_group.update_convs ac_simps)
qed

lemmas group_invs = group_inv_take_reserved group_inv_take_free group_inv_give_back group_inv_record group_inv_drop
  group_inv_push_reserved group_inv_push_free group_inv_return group_inv_trim group_inv_prealloc

section \<open>Preservation\<close>

lemma group_at_model: "ps_models s i = Some m \<Longrightarrow> group_at i dp s = ms_groups m ! dp"
  by (simp add: group_at_def)

lemmas task_simps = task_pages_def same_elsewhere_def task_ok_def

lemma page_inv_congr: "page_inv (s, T) \<Longrightarrow> ps_models s' = ps_models s \<Longrightarrow> ps_dp_size s' = ps_dp_size s \<Longrightarrow> page_inv (s', T)"
proof -
  assume inv: "page_inv (s, T)" and eq: "ps_models s' = ps_models s" "ps_dp_size s' = ps_dp_size s"
  have "model_inv s' = model_inv s" "task_ok s' = task_ok s" by (intro ext, simp only: model_inv_def eq)+ (intro ext, simp only: task_ok_def eq)
  then show ?thesis using inv by (simp only: page_inv_def case_prod_conv eq)
qed

lemma page_inv_update_group:
  assumes inv: "page_inv (s, T)" and m: "ps_models s i = Some m" "dp < ps_dp_size s"
    and s': "ps_models s' = ps_models (update_group i dp f s)" "ps_dp_size s' = ps_dp_size s"
    and g: "group_inv (ms_total_virt m) (f (ms_groups m ! dp)) (flight i dp U) (flight_free i dp U)"
    and U: "same_elsewhere i dp T U" "\<And>t. t \<in># U \<Longrightarrow> t \<in># T \<or> task_ok s t" "maps_pending i U = maps_pending i T"
  shows "page_inv (s', U)"
  by (rule page_inv_group [OF inv m _ s'(2) _ _ _ _ g U(1,2), where m' = "m\<lparr>ms_groups := (ms_groups m)[dp := f (ms_groups m ! dp)]\<rparr>"])
    (use s'(1) m(1) page_invD(2,3) [OF inv m(1)] U(3) in simp_all)

lemma page_inv_alloc_map:
  assumes inv: "page_inv (s, T)" and a: "alloc_begin fuel i dp s = Some (Alloc_Map p n, s')"
  shows "page_inv (s', add_mset (Map_Task i (nat dp) p n) T)"
  using a
proof (cases rule: alloc_map)
  case (1 m)
  let ?d = "nat dp" and ?m = "\<lambda>m. m\<lparr>ms_groups := (ms_groups m)[nat dp := take_free (ms_groups m ! nat dp)]\<rparr>"
  note g = group_at_model [OF 1(2), of ?d]
  have "group_inv (ms_total_virt m) (take_free (ms_groups m ! ?d)) (add_mset p (flight i ?d T)) (flight_free i ?d T)"
    using group_inv_take_free [OF page_invD(4) [OF inv 1(2,1)]] 1(4,5) g by simp
  then show ?thesis
    by (intro page_inv_group [OF inv 1(2,1), where m' = "(?m m)\<lparr>ms_pending := ms_pending m + 1\<rparr>"])
      (use 1 page_invD(2) [OF inv 1(2)] in \<open>auto simp: task_simps\<close>)
qed

lemma page_inv_mapped:
  assumes inv: "page_inv (s, add_mset (Map_Task i dp p n) T)"
  shows "page_inv (alloc_mapped i dp p n ok s, if ok then add_mset (Trigger_Task i dp p) T else T)"
proof -
  let ?T = "add_mset (Map_Task i dp p n) T"
  obtain m where m: "ps_models s i = Some m" "dp < ps_dp_size s" by (rule page_inv_taskD [OF inv]) auto
  note d = page_invD [OF inv m(1)]
  have awake: "\<not> ms_sleeping m" using d(3) by auto
  show ?thesis
  proof (cases ok)
    case True
    have "group_inv (ms_total_virt m) (ms_groups m ! dp) (add_mset p (flight i dp T)) (flight_free i dp T)"
      using d(4) [OF m(2)] by (simp add: task_pages_def)
    then have "page_inv (add_pending i (- 1) s, add_mset (Trigger_Task i dp p) T)"
      by (intro page_inv_group [OF inv m, where m' = "m\<lparr>ms_pending := ms_pending m - 1\<rparr>" and g' = "ms_groups m ! dp"])
        (use m d(2) awake in \<open>auto simp: task_simps\<close>)
    then show ?thesis using True by (simp add: alloc_mapped_def)
  next
    case False
    have "group_inv (ms_total_virt m) (give_back p (ms_groups m ! dp)) (flight i dp T) (flight_free i dp T)"
      using group_inv_give_back d(4) [OF m(2)] by (simp add: task_pages_def)
    then have "page_inv (alloc_mapped i dp p n False s, T)"
      by (intro page_inv_group [OF inv m, where m' = "m\<lparr>ms_pending := ms_pending m - 1, ms_groups := (ms_groups m)[dp := give_back p (ms_groups m ! dp)]\<rparr>"
            and g' = "give_back p (ms_groups m ! dp)"])
        (use m d(2) awake in \<open>auto simp: task_simps alloc_mapped_def\<close>)
    then show ?thesis using False by simp
  qed
qed

lemma page_inv_record:
  assumes inv: "page_inv (s, add_mset (Record_Task i dp p) T)"
  shows "page_inv (alloc_record i dp p s, T)"
proof -
  obtain m where m: "ps_models s i = Some m" "dp < ps_dp_size s" by (rule page_inv_taskD [OF inv]) auto
  have "group_inv (ms_total_virt m) (ms_groups m ! dp) (add_mset p (flight i dp T)) (flight_free i dp T)"
    using page_invD(4) [OF inv m] by (simp add: task_pages_def)
  from group_inv_record [OF this] show ?thesis
    by (intro page_inv_update_group [OF inv m, where f = "\<lambda>g. g\<lparr>allocated_virt := insert_page p (allocated_virt g)\<rparr>"])
      (auto simp: alloc_record_def task_simps)
qed

lemma page_inv_unmap:
  assumes inv: "page_inv (s, add_mset (Unmap_Task i dp ids ppv) T)"
  shows "page_inv (unmap_end i dp ids ppv ok s, T)"
proof -
  obtain m where m: "ps_models s i = Some m" "dp < ps_dp_size s" by (rule page_inv_taskD [OF inv]) auto
  have g: "group_inv (ms_total_virt m) (ms_groups m ! dp) (mset ids + flight i dp T) (length ids + flight_free i dp T)"
    using page_invD(4) [OF inv m] by (simp add: task_pages_def)
  have "page_inv (unmap_end i dp ids ppv True s, T)"
    by (rule page_inv_update_group [OF inv m, where f = "push_free ids"])
      (use group_inv_push_free [OF g] in \<open>auto simp: unmap_end_def task_simps\<close>)
  moreover have "page_inv (unmap_end i dp ids ppv False s, T)"
    by (rule page_inv_update_group [OF inv m, where f = "push_reserved ids"])
      (use group_inv_push_reserved [OF g] in \<open>auto simp: unmap_end_def task_simps\<close>)
  ultimately show ?thesis by (cases ok) simp_all
qed

text \<open>Pages leave a list for an unmapping; nothing happens when there are none.\<close>

lemma page_inv_to_unmap:
  assumes inv: "page_inv (s, T)" and m: "ps_models s i = Some m" "dp < ps_dp_size s"
    and s': "ps_models s' = ps_models (update_group i dp f s)" "ps_dp_size s' = ps_dp_size s"
    and g: "group_inv (ms_total_virt m) (f (ms_groups m ! dp)) (mset js + flight i dp T) (length js + flight_free i dp T)"
  shows "page_inv (s', if js = [] then T else add_mset (Unmap_Task i dp js ppv) T)"
proof (cases "js = []")
  case True
  then show ?thesis using g by (intro page_inv_update_group [OF inv m s']) (auto simp: same_elsewhere_def)
next
  case False
  have "page_inv (s', add_mset (Unmap_Task i dp js ppv) T)"
    by (rule page_inv_update_group [OF inv m s']) (use g m in \<open>auto simp: task_simps\<close>)
  then show ?thesis using False by simp
qed

lemma page_inv_free:
  assumes inv: "page_inv (s, T)" and f: "free_begin i dp ids s = Some (js, s')" "client_frees i dp ids s"
  shows "page_inv (s', if js = [] then T else add_mset (Unmap_Task i (nat dp) js ppv) T)"
proof -
  obtain m where m: "ps_models s i = Some m" "nat dp < ps_dp_size s"
    using f(1) by (auto simp: free_begin_def valid_rank_def split: if_splits option.splits)
  let ?g = "ms_groups m ! nat dp"
  have len: "length (ms_groups m) = ps_dp_size s" using page_invD(1) [OF inv m(1)] .
  have drop: "group_inv (ms_total_virt m) (drop_allocated ids ?g) (mset ids + flight i (nat dp) T) (length ids + flight_free i (nat dp) T)"
    using group_inv_drop [OF page_invD(4) [OF inv m]] f(2) group_at_model [OF m(1)] by (simp add: client_frees_def)
  show ?thesis
  proof (cases "ms_sleeping m")
    case True
    then have "js = ids" "s' = update_group i (nat dp) (drop_allocated ids) s" using f(1) m by (auto simp: free_begin_def Let_def split: if_splits)
    then show ?thesis using page_inv_to_unmap [OF inv m, of s' "drop_allocated ids" js ppv] drop by simp
  next
    case False
    obtain k where k: "js = drop k ids" "s' = update_group i (nat dp) (push_reserved (take k ids)) (update_group i (nat dp) (drop_allocated ids) s)"
      using f(1) m False by (auto simp: free_begin_def Let_def split: if_splits)
    have e: "mset ids = mset (take k ids) + mset (drop k ids)" "length ids = length (take k ids) + length (drop k ids)"
      by (metis append_take_drop_id mset_append) (metis append_take_drop_id length_append)
    have "group_inv (ms_total_virt m) (push_reserved (take k ids) (drop_allocated ids ?g)) (mset js + flight i (nat dp) T) (length js + flight_free i (nat dp) T)"
      by (rule group_inv_push_reserved) (use drop e k(1) in \<open>simp only: add.assoc\<close>)
    then show ?thesis
      by (intro page_inv_to_unmap [OF inv m, of _ "\<lambda>g. push_reserved (take k ids) (drop_allocated ids g)"])
        (use k(2) m len in \<open>simp_all\<close>)
  qed
qed

lemma page_inv_trim:
  assumes inv: "page_inv (s, T)" and f: "trim_begin i dp s = Some (js, s')"
  shows "page_inv (s', if js = [] then T else add_mset (Unmap_Task i (nat dp) js ppv) T)"
proof -
  obtain m where m: "ps_models s i = Some m" "nat dp < ps_dp_size s"
    using f(1) by (auto simp: trim_begin_def valid_rank_def split: if_splits)
  have "js = reserved_virt (ms_groups m ! nat dp)" "s' = update_group i (nat dp) (\<lambda>g. g\<lparr>reserved_virt := []\<rparr>) s"
    using f group_at_model [OF m(1)] by (auto simp: trim_begin_def split: if_splits)
  then show ?thesis
    using page_inv_to_unmap [OF inv m, of s' "\<lambda>g. g\<lparr>reserved_virt := []\<rparr>" js ppv] group_inv_trim [OF page_invD(4) [OF inv m]] by simp
qed

lemma fresh_group: "group_inv n (new_group n) {#} 0"
  by (simp add: group_inv_def group_pages_def new_group_def)

lemma no_tasks_of_unknown:
  assumes inv: "page_inv (s, T)" and none: "ps_models s i = None"
  shows "flight i dp T = {#}" "flight_free i dp T = 0" "maps_pending i T = 0"
proof -
  have place: "task_place t = Some (j, d, ids) \<Longrightarrow> j \<noteq> i" if "t \<in># T" for t j d ids
    using page_inv_task [OF inv that] none by (auto simp: task_ok_def)
  then have pages: "task_pages i dp t = []" if "t \<in># T" for t
    using that by (auto simp: task_pages_def split: option.split)
  have "\<not> task_maps i t" if "t \<in># T" for t using place [OF that] by (cases t) auto
  then have "filter_mset (task_maps i) T = {#}" by (auto simp: multiset_eq_iff simp flip: not_in_iff)
  then show "maps_pending i T = 0" by (simp add: maps_pending_def)
  show "flight i dp T = {#}" "flight_free i dp T = 0"
    using pages by (auto simp: flight_def flight_free_def cong: image_mset_cong)
qed

lemma page_inv_register:
  assumes inv: "page_inv (s, T)" and r: "register_model i n s = Some (b, s')"
  shows "page_inv (s', T)"
proof (cases "ps_models s i")
  case (Some m)
  then have "s' = s" using r by (auto simp: register_model_def split: if_splits)
  then show ?thesis using inv by simp
next
  case None
  then obtain m' where s': "ps_models s' = (ps_models s)(i \<mapsto> m')" "ps_dp_size s' = ps_dp_size s"
    and m': "ms_groups m' = replicate (ps_dp_size s) (new_group (ms_total_virt m'))" "ms_pending m' = 0"
    using r by (auto simp: register_model_def Let_def split: if_splits)
  have "model_inv s' T j x" if x: "ps_models s' j = Some x" for j x
  proof (cases "j = i")
    case True
    then show ?thesis using x s' m' no_tasks_of_unknown [OF inv None] fresh_group by (simp add: model_inv_def)
  next
    case False
    then have "model_inv s T j x" using page_inv_model [OF inv] x s'(1) by simp
    then show ?thesis unfolding model_inv_def s'(2) .
  qed
  moreover have "task_ok s' t" if "t \<in># T" for t using page_inv_task [OF inv that] s' by (auto simp: task_ok_def)
  ultimately show ?thesis by (simp add: page_inv_def)
qed

lemma page_inv_model_update:
  assumes inv: "page_inv (s, T)" and s': "ps_models s' = ps_models (update_model i f s)" "ps_dp_size s' = ps_dp_size s"
    and f: "\<And>m. ms_groups (f m) = ms_groups m" "\<And>m. ms_total_virt (f m) = ms_total_virt m" "\<And>m. ms_pending (f m) = ms_pending m"
      "\<And>m. ps_models s i = Some m \<Longrightarrow> ms_sleeping (f m) \<Longrightarrow> ms_pending m = 0"
    and U: "\<And>j dp. flight j dp U = flight j dp T" "\<And>j dp. flight_free j dp U = flight_free j dp T" "\<And>j. maps_pending j U = maps_pending j T"
      "\<And>t. t \<in># U \<Longrightarrow> t \<in># T \<or> task_ok s t"
  shows "page_inv (s', U)"
proof (rule page_inv_same [OF inv _ s'(2) _ U])
  show "map_option (\<lambda>m. (ms_groups m, ms_total_virt m, ms_pending m)) (ps_models s' j)
      = map_option (\<lambda>m. (ms_groups m, ms_total_virt m, ms_pending m)) (ps_models s j)" for j
    unfolding s'(1) using f(1-3) by (cases "ps_models s i") auto
  show "ms_pending m' = 0" if x: "ps_models s' j = Some m'" "ms_sleeping m'" for j m'
  proof (cases "j = i")
    case True
    then obtain m where "ps_models s i = Some m" "m' = f m" using x(1) s'(1) by auto
    then show ?thesis using f(3,4) x(2) by simp
  next
    case False
    then have m: "ps_models s j = Some m'" using x(1) s'(1) by simp
    show ?thesis using page_invD(2,3) [OF inv m] x(2) by simp
  qed
qed

lemma page_inv_sleep: "page_inv (s, T) \<Longrightarrow> ps_models s i = Some m \<Longrightarrow> ms_sleeping m \<Longrightarrow> ms_pending m = 0"
  using page_invD(2,3) [of s T i m] by simp

lemma page_inv_drop_task: "page_inv (s, add_mset t T) \<Longrightarrow> task_place t = None \<Longrightarrow> page_inv (s, T)"
proof -
  assume inv: "page_inv (s, add_mset t T)" and t: "task_place t = None"
  have "\<not> task_maps i t" for i using t by (cases t) auto
  then show "page_inv (s, T)"
    by (intro page_inv_same [OF inv refl refl]) (use t in \<open>auto simp: task_pages_def intro: page_inv_sleep [OF inv]\<close>)
qed

lemma page_inv_add_task: "page_inv (s, T) \<Longrightarrow> task_place t = None \<Longrightarrow> page_inv (s, add_mset t T)"
proof -
  assume inv: "page_inv (s, T)" and t: "task_place t = None"
  have "\<not> task_maps i t" for i using t by (cases t) auto
  then show "page_inv (s, add_mset t T)"
    by (intro page_inv_same [OF inv refl refl]) (use t in \<open>auto simp: task_pages_def task_ok_def intro: page_inv_sleep [OF inv]\<close>)
qed

lemma sleep_release_frame [simp]: "ps_models (sleep_release i ppv gs s) = ps_models s" "ps_dp_size (sleep_release i ppv gs s) = ps_dp_size s"
  by (induction i ppv gs s rule: sleep_release.induct) auto

lemma weights_frame: "free_weight_pages i n b s = Some (r, s') \<Longrightarrow> ps_models s' = ps_models s \<and> ps_dp_size s' = ps_dp_size s"
  by (auto simp: free_weight_pages_def split: if_splits)

lemma page_inv_prealloc_groups:
  assumes "page_inv (s, T)" "ps_models s i \<noteq> None" "set dps \<subseteq> {..<ps_dp_size s}" "prealloc_groups i dps s = (rs, s')"
  shows "page_inv (s', taken_tasks rs + T) \<and> dom (ps_models s') = dom (ps_models s) \<and> ps_dp_size s' = ps_dp_size s"
  using assms
proof (induction i dps s arbitrary: rs T rule: prealloc_groups.induct)
  case (1 i s)
  then show ?case by (simp add: taken_tasks_def)
next
  case (2 i dp dps s)
  obtain r s1 where r: "prealloc_group i dp s = (r, s1)" by fastforce
  obtain rs2 where rs2: "prealloc_groups i dps s1 = (rs2, s')" "rs = (case r of None \<Rightarrow> rs2 | Some ids \<Rightarrow> (i, dp, ids) # rs2)"
    using 2(5) r by (auto split: prod.splits)
  obtain m where m: "ps_models s i = Some m" "dp < ps_dp_size s" using 2(3,4) by auto
  define T1 where "T1 = (case r of None \<Rightarrow> T | Some ids \<Rightarrow> add_mset (Taken_Task i dp ids) T)"
  let ?n = "prealloc_amount i dp s"
  let ?f = "\<lambda>g. g\<lparr>free_virt := drop ?n (free_virt g)\<rparr>"
  have inv1: "page_inv (s1, T1) \<and> dom (ps_models s1) = dom (ps_models s) \<and> ps_dp_size s1 = ps_dp_size s"
  proof (cases "?n = 0")
    case True
    then show ?thesis using r 2(2) by (auto simp: prealloc_group_eq T1_def)
  next
    case False
    have r': "r = Some (take ?n (free_virt (ms_groups m ! dp)))" "ps_models s1 = ps_models (update_group i dp ?f s)" "ps_dp_size s1 = ps_dp_size s"
      using r False group_at_model [OF m(1)] by (auto simp: prealloc_group_eq Let_def)
    have "page_inv (s1, T1)"
      by (rule page_inv_update_group [OF 2(2) m r'(2,3)])
        (use group_inv_prealloc [OF page_invD(4) [OF 2(2) m], of ?n] r'(1) m in \<open>auto simp: T1_def task_simps\<close>)
    then show ?thesis using r'(2,3) m by auto
  qed
  then have "ps_models s1 i \<noteq> None" using m(1) by (metis domIff option.distinct(1))
  then have "page_inv (s', taken_tasks rs2 + T1) \<and> dom (ps_models s') = dom (ps_models s1) \<and> ps_dp_size s' = ps_dp_size s1"
    using 2(1) [OF r [symmetric] refl, of T1 rs2] inv1 2(4) rs2(1) by simp
  moreover have "taken_tasks rs2 + T1 = taken_tasks rs + T" using rs2(2) by (cases r) (simp_all add: T1_def taken_tasks_def)
  ultimately show ?case using inv1 by simp
qed

lemma page_inv_prealloc_models:
  assumes "page_inv (s, T)" "set order \<subseteq> dom (ps_models s)" "prealloc_models order s = (rs, s')"
  shows "page_inv (s', taken_tasks rs + T)"
  using assms
proof (induction order s arbitrary: rs T rule: prealloc_models.induct)
  case (1 s)
  then show ?case by (simp add: taken_tasks_def)
next
  case (2 i "is" s)
  obtain rs1 s1 where r: "(if is_model_sleeping i s then ([], s) else prealloc_groups i [0..<ps_dp_size s] s) = (rs1, s1)" by fastforce
  obtain rs2 where rs2: "prealloc_models is s1 = (rs2, s')" "rs = rs1 @ rs2" using 2(4) r by (auto split: prod.splits)
  have inv1: "page_inv (s1, taken_tasks rs1 + T) \<and> dom (ps_models s1) = dom (ps_models s)"
  proof (cases "is_model_sleeping i s")
    case True
    then show ?thesis using r 2(2) by (simp add: taken_tasks_def)
  next
    case False
    then have "prealloc_groups i [0..<ps_dp_size s] s = (rs1, s1)" using r by simp
    moreover have "ps_models s i \<noteq> None" using 2(3) by auto
    ultimately show ?thesis using page_inv_prealloc_groups [OF 2(2), of i "[0..<ps_dp_size s]" rs1 s1] by (simp add: lessThan_atLeast0)
  qed
  then have "page_inv (s', taken_tasks rs2 + (taken_tasks rs1 + T))" using 2(1) [OF r [symmetric] refl] 2(3) rs2(1) by simp
  then show ?case using rs2(2) by (simp add: taken_tasks_def ac_simps)
qed

lemma return_taken_frame: "ps_models s i = Some m \<Longrightarrow>
  ps_models (return_taken i dp ids s) = ps_models (update_group i dp (\<lambda>g. g\<lparr>free_virt := ids @ free_virt g\<rparr>) s)
  \<and> ps_dp_size (return_taken i dp ids s) = ps_dp_size s"
  by (simp add: return_taken_def)

lemma page_inv_taken:
  assumes inv: "page_inv (s, add_mset (Taken_Task i dp ids) T)" and c: "prealloc_check i dp ids s = (go, s')"
  shows "page_inv (s', if go then add_mset (Prealloc_Task i dp ids) T else T)"
proof -
  obtain m where m: "ps_models s i = Some m" "dp < ps_dp_size s" by (rule page_inv_taskD [OF inv]) auto
  have g: "group_inv (ms_total_virt m) (ms_groups m ! dp) (mset ids + flight i dp T) (length ids + flight_free i dp T)"
    using page_invD(4) [OF inv m] by (simp add: task_pages_def)
  show ?thesis
  proof (cases "ms_sleeping m")
    case True
    then have go: "\<not> go" "s' = return_taken i dp ids s" using c m by (auto simp: prealloc_check_def)
    have "page_inv (return_taken i dp ids s, T)"
      by (rule page_inv_update_group [OF inv m return_taken_frame [OF m(1), THEN conjunct1] return_taken_frame [OF m(1), THEN conjunct2]])
        (use group_inv_return [OF g] in \<open>auto simp: task_simps\<close>)
    then show ?thesis using go by simp
  next
    case False
    then have go: "go" "s' = add_pending i 1 s" using c m by (auto simp: prealloc_check_def)
    have "page_inv (add_pending i 1 s, add_mset (Prealloc_Task i dp ids) T)"
      by (rule page_inv_group [OF inv m, where m' = "m\<lparr>ms_pending := ms_pending m + 1\<rparr>" and g' = "ms_groups m ! dp"])
        (use m g False page_invD(2) [OF inv m(1)] in \<open>auto simp: task_simps\<close>)
    then show ?thesis using go by simp
  qed
qed

lemma page_inv_prealloc_end:
  assumes inv: "page_inv (s, add_mset (Prealloc_Task i dp ids) T)"
  shows "page_inv (prealloc_finish i dp ids ok s, T)"
proof -
  obtain m where m: "ps_models s i = Some m" "dp < ps_dp_size s" by (rule page_inv_taskD [OF inv]) auto
  note d = page_invD [OF inv m(1)]
  have awake: "\<not> ms_sleeping m" using d(3) by auto
  have g: "group_inv (ms_total_virt m) (ms_groups m ! dp) (mset ids + flight i dp T) (length ids + flight_free i dp T)"
    using d(4) [OF m(2)] by (simp add: task_pages_def)
  define f where "f = (if ok then push_reserved ids else (\<lambda>g. g\<lparr>free_virt := ids @ free_virt g\<rparr>))"
  have fg: "group_inv (ms_total_virt m) (f (ms_groups m ! dp)) (flight i dp T) (flight_free i dp T)"
    using group_inv_return [OF g] group_inv_push_reserved [OF g] by (simp add: f_def)
  have s': "ps_models (prealloc_finish i dp ids ok s)
      = (ps_models s)(i \<mapsto> m\<lparr>ms_pending := ms_pending m - 1, ms_groups := (ms_groups m)[dp := f (ms_groups m ! dp)]\<rparr>)"
    "ps_dp_size (prealloc_finish i dp ids ok s) = ps_dp_size s"
    using m awake by (auto simp: prealloc_finish_def return_taken_def f_def Let_def)
  show ?thesis
  proof (rule page_inv_group [OF inv m s' _ _ _ _ fg])
    show "same_elsewhere i dp (add_mset (Prealloc_Task i dp ids) T) T" by (auto simp: task_simps)
  qed (use d(2) awake in simp_all)
qed

lemma page_step_inv: "page_step c c' \<Longrightarrow> page_inv c \<Longrightarrow> page_inv c'"
proof (induction rule: page_step.induct)
  case (ps_register i n s b s' T)
  then show ?case using page_inv_register by blast
next
  case (ps_strategy s T i d t)
  show ?case
    by (rule page_inv_model_update [OF ps_strategy, where i = i and f = "\<lambda>m. m\<lparr>ms_model_dp := d, ms_model_tp := t, ms_model_world := d * t\<rparr>"])
      (auto simp: set_model_parallel_strategy_def intro: page_inv_sleep [OF ps_strategy])
next
  case (ps_alloc_ready fuel i dp s p s' T)
  from this(1) show ?case
  proof (cases rule: alloc_ready)
    case (1 m)
    have g: "group_inv (ms_total_virt m) (take_reserved (ms_groups m ! nat dp)) (flight i (nat dp) T) (flight_free i (nat dp) T)"
      using group_inv_take_reserved [OF page_invD(4) [OF ps_alloc_ready.prems 1(2,1)]] 1(4) group_at_model [OF 1(2)] by simp
    show ?thesis
      by (rule page_inv_update_group [OF ps_alloc_ready.prems 1(2,1), where f = take_reserved]) (use 1(6) g in \<open>auto simp: same_elsewhere_def\<close>)
  qed
next
  case (ps_alloc_throw fuel i dp s e s' T)
  then show ?case using alloc_throw by blast
next
  case (ps_alloc_map fuel i dp s p n s' T)
  then show ?case using page_inv_alloc_map by blast
next
  case (ps_mapped s i dp p n T ok)
  then show ?case by (rule page_inv_mapped)
next
  case (ps_trigger s i dp p T)
  have "page_inv (s, add_mset (Record_Task i dp p) T)"
    by (rule page_inv_same [OF ps_trigger refl refl])
      (use page_inv_task [OF ps_trigger, of "Trigger_Task i dp p"] in \<open>auto simp: task_pages_def task_ok_def intro: page_inv_sleep [OF ps_trigger]\<close>)
  then show ?case by (rule page_inv_congr) (simp_all add: alloc_trigger_def)
next
  case (ps_record s i dp p T)
  then show ?case by (rule page_inv_record)
next
  case (ps_free i dp ids s js s' T)
  then show ?case using page_inv_free by blast
next
  case (ps_trim i dp s js s' T)
  then show ?case using page_inv_trim by blast
next
  case (ps_unmap s i dp ids ppv T ok)
  then show ?case by (rule page_inv_unmap)
next
  case (ps_alloc_weight i n bcast s b s' T)
  show ?case
  proof (cases "s' = s")
    case False
    then have s': "ps_models s' = ps_models (update_model i (\<lambda>m. m\<lparr>ms_weights := n\<rparr>) s)" "ps_dp_size s' = ps_dp_size s"
      using ps_alloc_weight(1) by (auto simp: alloc_weight_pages_def Let_def split: if_splits)
    show ?thesis by (rule page_inv_model_update [OF ps_alloc_weight(2) s']) (auto intro: page_inv_sleep [OF ps_alloc_weight(2)])
  qed (use ps_alloc_weight in simp)
next
  case (ps_free_weight i n bcast s b s' T)
  then show ?case using weights_frame page_inv_congr by blast
next
  case (ps_weight_count i n s s' T)
  then have s': "ps_models s' = ps_models (update_model i (\<lambda>m. m\<lparr>ms_weights := n\<rparr>) s)" "ps_dp_size s' = ps_dp_size s"
    by (auto simp: set_weight_pages_count_def split: if_splits)
  show ?case by (rule page_inv_model_update [OF ps_weight_count(2) s']) (auto intro: page_inv_sleep [OF ps_weight_count(2)])
next
  case (ps_sleep i s T skip)
  then show ?case by (intro page_inv_add_task) simp_all
next
  case (ps_sleep_enter s i m w ppv gs s' skip T)
  have inv: "page_inv (s, T)" using page_inv_drop_task [OF ps_sleep_enter(4)] by simp
  have pend: "ms_pending m = 0" using page_invD(2) [OF inv ps_sleep_enter(1)] ps_sleep_enter(2) by simp
  have s': "ps_models s' = ps_models (update_model i (\<lambda>m. m\<lparr>ms_sleeping := True\<rparr>) s)" "ps_dp_size s' = ps_dp_size s"
    using ps_sleep_enter(3) by (auto simp: sleep_enter_def Let_def)
  have "page_inv (s', T)" by (rule page_inv_model_update [OF inv s']) (use pend ps_sleep_enter(1) in auto)
  then show ?case by (rule page_inv_add_task) simp
next
  case (ps_sleep_weights i skip w bcast s s' ppv gs T)
  have "page_inv (s, T)" using page_inv_drop_task [OF ps_sleep_weights(2)] by simp
  moreover have "ps_models s' = ps_models s \<and> ps_dp_size s' = ps_dp_size s"
    using ps_sleep_weights(1) weights_frame by (auto simp: sleep_weights_def split: if_splits option.splits bool.splits)
  ultimately have "page_inv (s', T)" using page_inv_congr by blast
  then show ?case by (rule page_inv_add_task) simp
next
  case (ps_sleep_fail i skip w bcast s ppv gs T)
  then show ?case using page_inv_drop_task by fastforce
next
  case (ps_sleep_end oks gs s i ppv T)
  have "page_inv (s, T)" using page_inv_drop_task [OF ps_sleep_end(2)] by simp
  then show ?case by (rule page_inv_congr) simp_all
next
  case (ps_wakeup i s r s' T)
  then have "ps_models s' = ps_models s" "ps_dp_size s' = ps_dp_size s" by (auto simp: wakeup_begin_def Let_def split: option.splits if_splits)
  then have "page_inv (s', T)" using page_inv_congr ps_wakeup(2) by blast
  then show ?case by (rule page_inv_add_task) simp
next
  case (ps_wakeup_end s i T ok)
  have inv: "page_inv (s, T)" using page_inv_drop_task [OF ps_wakeup_end] by simp
  have "page_inv (wakeup_end i s, T)"
    by (rule page_inv_model_update [OF inv, where f = "\<lambda>m. m\<lparr>ms_sleeping := False\<rparr>"]) (auto simp: wakeup_end_def Let_def)
  then show ?case using inv by simp
next
  case (ps_scan s order rs s' T)
  have "page_inv (s\<lparr>ps_needed := False\<rparr>, T)" by (rule page_inv_congr [OF ps_scan(6)]) simp_all
  then show ?case using page_inv_prealloc_models [of "s\<lparr>ps_needed := False\<rparr>" T order rs s'] ps_scan(4,5) by (simp add: prealloc_scan_def)
next
  case (ps_taken i dp ids s go s' T)
  then show ?case using page_inv_taken by blast
next
  case (ps_prealloc_end s i dp ids T ok)
  then show ?case by (rule page_inv_prealloc_end)
next
  case (ps_start s T)
  then show ?case by (rule page_inv_congr) (simp_all add: start_prealloc_thread_def)
next
  case (ps_stop s T)
  then show ?case by (rule page_inv_congr) (simp_all add: stop_prealloc_thread_def)
qed

lemma page_reach_inv: "page_reach c \<Longrightarrow> page_inv c"
proof (induction rule: page_reach.induct)
  case (page_reach_init g n dp w e)
  then show ?case by (simp add: page_inv_def page_init_def page_empty_def)
next
  case (page_reach_step c c')
  then show ?case using page_step_inv by blast
qed

end
