(* ===== verification/Page_Accounting.thy ===== *)
theory Page_Accounting imports Page_Conservation begin

text \<open>
  The physical pages of the KV caches are accounted for exactly as long as no model goes to sleep: every worker has
  given out what the virtual pages that are not in a free list take, in every interleaving of allocation, release,
  trimming and preallocation.
\<close>

section \<open>KV cache operations\<close>

inductive kv_step :: "page_config \<Rightarrow> page_config \<Rightarrow> bool" where
  kv_register: "register_model i n s = Some (b, s') \<Longrightarrow> kv_step (s, T) (s', T)"
| kv_alloc_ready: "alloc_begin fuel i dp s = Some (Alloc_Ready p, s') \<Longrightarrow> kv_step (s, T) (s', T)"
| kv_alloc_throw: "alloc_begin fuel i dp s = Some (Alloc_Throw e, s') \<Longrightarrow> kv_step (s, T) (s', T)"
| kv_alloc_map: "alloc_begin fuel i dp s = Some (Alloc_Map p n, s') \<Longrightarrow>
    kv_step (s, T) (s', add_mset (Map_Task i (nat dp) p n) T)"
| kv_mapped: "kv_step (s, add_mset (Map_Task i dp p n) T)
    (alloc_mapped i dp p n ok s, if ok then add_mset (Trigger_Task i dp p) T else T)"
| kv_trigger: "kv_step (s, add_mset (Trigger_Task i dp p) T) (alloc_trigger s, add_mset (Record_Task i dp p) T)"
| kv_record: "kv_step (s, add_mset (Record_Task i dp p) T) (alloc_record i dp p s, T)"
| kv_free: "free_begin i dp ids s = Some (js, s') \<Longrightarrow> client_frees i dp ids s \<Longrightarrow>
    kv_step (s, T) (s', if js = [] then T else add_mset (Unmap_Task i (nat dp) js (ms_ppv (the (ps_models s i)))) T)"
| kv_trim: "trim_begin i dp s = Some (js, s') \<Longrightarrow>
    kv_step (s, T) (s', if js = [] then T else add_mset (Unmap_Task i (nat dp) js (ms_ppv (the (ps_models s i)))) T)"
| kv_unmap: "kv_step (s, add_mset (Unmap_Task i dp ids ppv) T) (unmap_end i dp ids ppv ok s, T)"
| kv_scan: "ps_running s \<Longrightarrow> ps_needed s \<Longrightarrow> distinct order \<Longrightarrow> set order = dom (ps_models s) \<Longrightarrow>
    prealloc_scan order s = (rs, s') \<Longrightarrow> kv_step (s, T) (s', taken_tasks rs + T)"
| kv_taken: "prealloc_check i dp ids s = (go, s') \<Longrightarrow>
    kv_step (s, add_mset (Taken_Task i dp ids) T) (s', if go then add_mset (Prealloc_Task i dp ids) T else T)"
| kv_prealloc_end: "kv_step (s, add_mset (Prealloc_Task i dp ids) T) (prealloc_finish i dp ids ok s, T)"

lemma kv_step_page: "kv_step c c' \<Longrightarrow> page_step c c'"
  by (induction rule: kv_step.induct) (blast intro: page_step.intros)+

section \<open>Demand\<close>

text \<open>The physical pages of a worker that the virtual pages outside of the free lists take.\<close>

definition group_demand :: "model_state \<Rightarrow> nat \<Rightarrow> nat" where
  "group_demand m dp = (ms_total_virt m - length (free_virt (ms_groups m ! dp))) * ms_ppv m"

definition kv_demand :: "page_state \<Rightarrow> nat \<Rightarrow> nat" where
  "kv_demand s w = (\<Sum>i\<in>dom (ps_models s). \<Sum>dp<ps_dp_size s.
     if w \<in> set (group_workers i dp s) then group_demand (the (ps_models s i)) dp else 0)"

definition task_ppv_ok :: "page_state \<Rightarrow> page_task \<Rightarrow> bool" where
  "task_ppv_ok s t \<longleftrightarrow> (case t of
     Map_Task i dp p n \<Rightarrow> n = ms_ppv (the (ps_models s i))
   | Unmap_Task i dp ids ppv \<Rightarrow> ppv = ms_ppv (the (ps_models s i))
   | _ \<Rightarrow> True)"

definition kv_inv :: "(nat \<Rightarrow> nat) \<Rightarrow> page_config \<Rightarrow> bool" where
  "kv_inv W c \<longleftrightarrow> page_inv c \<and> finite (dom (ps_models (fst c))) \<and> length (ps_used (fst c)) = ps_world (fst c)
    \<and> (\<forall>w < ps_world (fst c). ps_used (fst c) ! w = W w + kv_demand (fst c) w) \<and> (\<forall>t \<in># snd c. task_ppv_ok (fst c) t)"

lemma kv_demand_change:
  assumes fin: "finite (dom (ps_models s))" and m: "ps_models s i = Some m" "dp < ps_dp_size s"
    and s': "ps_models s' = (ps_models s)(i \<mapsto> m')" "ps_dp_size s' = ps_dp_size s"
    and ws: "\<And>j d. set (group_workers j d s') = set (group_workers j d s)"
    and m': "\<And>d. d \<noteq> dp \<Longrightarrow> group_demand m' d = group_demand m d"
  shows "kv_demand s' w + (if w \<in> set (group_workers i dp s) then group_demand m dp else 0)
    = kv_demand s w + (if w \<in> set (group_workers i dp s) then group_demand m' dp else 0)"
proof -
  let ?h = "\<lambda>x. \<Sum>d<ps_dp_size s. if w \<in> set (group_workers i d s) then group_demand x d else 0"
  let ?A = "dom (ps_models s) - {i}" and ?e = "\<lambda>j. \<Sum>d<ps_dp_size s. if w \<in> set (group_workers j d s) then group_demand (the (ps_models s j)) d else 0"
  have dom: "dom (ps_models s') = dom (ps_models s)" "i \<in> dom (ps_models s)" using s'(1) m(1) by auto
  have "kv_demand s' w = ?h m' + (\<Sum>j\<in>?A. \<Sum>d<ps_dp_size s. if w \<in> set (group_workers j d s) then group_demand (the (ps_models s' j)) d else 0)"
    unfolding kv_demand_def dom(1) s'(2) ws by (subst sum.remove [OF fin dom(2)]) (simp add: s'(1) cong: if_cong)
  also have "(\<Sum>j\<in>?A. \<Sum>d<ps_dp_size s. if w \<in> set (group_workers j d s) then group_demand (the (ps_models s' j)) d else 0) = sum ?e ?A"
    by (intro sum.cong refl) (auto simp: s'(1))
  finally have 1: "kv_demand s' w = ?h m' + sum ?e ?A" .
  have 2: "kv_demand s w = ?h m + sum ?e ?A"
    unfolding kv_demand_def by (subst sum.remove [OF fin dom(2)]) (simp add: m(1) cong: if_cong)
  let ?B = "{..<ps_dp_size s} - {dp}"
  have split: "?h x = (if w \<in> set (group_workers i dp s) then group_demand x dp else 0)
      + (\<Sum>d\<in>?B. if w \<in> set (group_workers i d s) then group_demand x d else 0)" for x
    by (subst sum.remove [of _ dp]) (use m(2) in \<open>simp_all cong: if_cong\<close>)
  have "(\<Sum>d\<in>?B. if w \<in> set (group_workers i d s) then group_demand m' d else 0)
      = (\<Sum>d\<in>?B. if w \<in> set (group_workers i d s) then group_demand m d else 0)"
    by (intro sum.cong refl) (auto simp: m')
  then show ?thesis unfolding 1 2 split [of m] split [of m'] by simp
qed

text \<open>The free list of one group shrinks by \<open>k\<close> pages that are consumed, or grows by \<open>k\<close> pages that are released.\<close>

lemma group_demand_bounds:
  assumes "group_inv (ms_total_virt m) (ms_groups m ! dp) F k"
  shows "length (free_virt (ms_groups m ! dp)) + size F \<le> ms_total_virt m"
proof -
  have "size (group_pages (ms_groups m ! dp) + F) = ms_total_virt m" using assms by (simp add: group_inv_def flip: size_mset)
  then show ?thesis by (simp add: group_pages_def)
qed

lemma task_ppv_update: "ps_models s i = Some m \<Longrightarrow> ps_models s' = (ps_models s)(i \<mapsto> m') \<Longrightarrow> ms_ppv m' = ms_ppv m \<Longrightarrow>
  task_ppv_ok s' t = task_ppv_ok s t"
  by (cases t) (auto simp: task_ppv_ok_def)

lemma kv_inv_step:
  assumes kv: "kv_inv W (s, T)" and inv': "page_inv (s', U)" and m: "ps_models s i = Some m" "dp < ps_dp_size s"
    and s': "ps_models s' = (ps_models s)(i \<mapsto> m')" "ps_dp_size s' = ps_dp_size s" "ps_world s' = ps_world s"
    and m': "ms_groups m' = (ms_groups m)[dp := g']" "ms_ppv m' = ms_ppv m" "ms_total_virt m' = ms_total_virt m" "ms_model_tp m' = ms_model_tp m"
    and used: "length (ps_used s') = ps_world s"
      "\<And>w. w < ps_world s \<Longrightarrow> w \<in> set (group_workers i dp s) \<Longrightarrow> group_demand m dp \<le> ps_used s ! w \<Longrightarrow>
        ps_used s' ! w + group_demand m dp = ps_used s ! w + group_demand m' dp"
      "\<And>w. w < ps_world s \<Longrightarrow> w \<notin> set (group_workers i dp s) \<Longrightarrow> ps_used s' ! w = ps_used s ! w"
    and U: "\<And>t. t \<in># U \<Longrightarrow> t \<in># T \<or> task_ppv_ok s t"
  shows "kv_inv W (s', U)"
proof -
  have fin: "finite (dom (ps_models s))" using kv by (simp add: kv_inv_def)
  have ws: "group_workers j d s' = group_workers j d s" for j d
    using m(1) s'(1,3) m'(4) by (auto simp: group_workers_def Let_def split: option.split)
  have gd: "group_demand m' d = group_demand m d" if "d \<noteq> dp" for d using that m' by (simp add: group_demand_def)
  have ch: "kv_demand s' w + (if w \<in> set (group_workers i dp s) then group_demand m dp else 0)
    = kv_demand s w + (if w \<in> set (group_workers i dp s) then group_demand m' dp else 0)" for w
    by (rule kv_demand_change [OF fin m s'(1,2)]) (simp_all add: ws gd)
  have "ps_used s' ! w = W w + kv_demand s' w" if w: "w < ps_world s" for w
  proof (cases "w \<in> set (group_workers i dp s)")
    case True
    have u: "ps_used s ! w = W w + kv_demand s w" using kv w by (simp add: kv_inv_def)
    have "(\<Sum>d<ps_dp_size s. if w \<in> set (group_workers i d s) then group_demand m d else 0) \<le> kv_demand s w"
      unfolding kv_demand_def using member_le_sum [OF _ _ fin, of i "\<lambda>i. \<Sum>dp<ps_dp_size s. if w \<in> set (group_workers i dp s) then group_demand (the (ps_models s i)) dp else 0"] m(1)
      by (simp add: domI cong: if_cong)
    moreover have "group_demand m dp \<le> (\<Sum>d<ps_dp_size s. if w \<in> set (group_workers i d s) then group_demand m d else 0)"
      using member_le_sum [of dp "{..<ps_dp_size s}" "\<lambda>d. if w \<in> set (group_workers i d s) then group_demand m d else 0"] m(2) True by simp
    ultimately have "group_demand m dp \<le> ps_used s ! w" using u by simp
    from used(2) [OF w True this] show ?thesis using ch [of w] True u by simp
  next
    case False
    then show ?thesis using used(3) [OF w False] ch [of w] kv w by (simp add: kv_inv_def)
  qed
  moreover have "task_ppv_ok s' t" if "t \<in># U" for t
    using U [OF that] kv task_ppv_update [OF m(1) s'(1) m'(2)] by (auto simp: kv_inv_def)
  ultimately show ?thesis using inv' fin s' used(1) by (simp add: kv_inv_def)
qed

section \<open>The accounting is kept\<close>

lemma kv_invD:
  assumes "kv_inv W (s, T)"
  shows "page_inv (s, T)" "finite (dom (ps_models s))" "length (ps_used s) = ps_world s"
    "\<And>w. w < ps_world s \<Longrightarrow> ps_used s ! w = W w + kv_demand s w" "\<And>t. t \<in># T \<Longrightarrow> task_ppv_ok s t"
  using assms by (simp_all add: kv_inv_def)

lemma group_free_le:
  assumes "page_inv (s, T)" "ps_models s i = Some m" "dp < ps_dp_size s"
  shows "length (free_virt (ms_groups m ! dp)) \<le> ms_total_virt m"
  using group_demand_bounds [OF page_invD(4) [OF assms]] by simp

text \<open>One group changes and its free list does not.\<close>

lemma kv_inv_idle:
  assumes kv: "kv_inv W (s, T)" and inv': "page_inv (s', U)" and m: "ps_models s i = Some m" "dp < ps_dp_size s"
    and s': "ps_models s' = (ps_models s)(i \<mapsto> m')" "ps_dp_size s' = ps_dp_size s" "ps_world s' = ps_world s" "ps_used s' = ps_used s"
    and m': "ms_groups m' = (ms_groups m)[dp := g']" "ms_ppv m' = ms_ppv m" "ms_total_virt m' = ms_total_virt m" "ms_model_tp m' = ms_model_tp m"
    and g: "length (free_virt g') = length (free_virt (ms_groups m ! dp))"
    and U: "\<And>t. t \<in># U \<Longrightarrow> t \<in># T \<or> task_ppv_ok s t"
  shows "kv_inv W (s', U)"
proof -
  have "group_demand m' dp = group_demand m dp"
    using g m' m(2) page_invD(1) [OF kv_invD(1) [OF kv] m(1)] by (simp add: group_demand_def)
  then show ?thesis
    by (intro kv_inv_step [OF kv inv' m s'(1-3) m' _ _ _ U]) (simp_all add: s'(4) kv_invD(3) [OF kv])
qed

text \<open>The free list shrinks by \<open>k\<close> pages that are consumed, or grows by \<open>k\<close> pages that are released.\<close>

lemma kv_inv_consume:
  assumes kv: "kv_inv W (s, T)" and inv': "page_inv (s', U)" and m: "ps_models s i = Some m" "dp < ps_dp_size s"
    and s': "ps_models s' = (ps_models s)(i \<mapsto> m')" "ps_dp_size s' = ps_dp_size s" "ps_world s' = ps_world s"
      "ps_used s' = ps_used (add_used (group_workers i dp s) (k * ms_ppv m) s)"
    and m': "ms_groups m' = (ms_groups m)[dp := g']" "ms_ppv m' = ms_ppv m" "ms_total_virt m' = ms_total_virt m" "ms_model_tp m' = ms_model_tp m"
    and g: "length (free_virt g') + k = length (free_virt (ms_groups m ! dp))"
    and U: "\<And>t. t \<in># U \<Longrightarrow> t \<in># T \<or> task_ppv_ok s t"
  shows "kv_inv W (s', U)"
proof -
  have "ms_total_virt m - length (free_virt g') = (ms_total_virt m - length (free_virt (ms_groups m ! dp))) + k"
    using g group_free_le [OF kv_invD(1) [OF kv] m] by simp
  then have "group_demand m' dp = group_demand m dp + k * ms_ppv m"
    using m' m(2) page_invD(1) [OF kv_invD(1) [OF kv] m(1)] by (simp add: group_demand_def add_mult_distrib)
  then show ?thesis
    by (intro kv_inv_step [OF kv inv' m s'(1-3) m' _ _ _ U])
      (simp_all add: s'(4) add_used_nth [OF workers_below(2,1) kv_invD(3) [OF kv]])
qed

lemma kv_inv_release:
  assumes kv: "kv_inv W (s, T)" and inv': "page_inv (s', U)" and m: "ps_models s i = Some m" "dp < ps_dp_size s"
    and s': "ps_models s' = (ps_models s)(i \<mapsto> m')" "ps_dp_size s' = ps_dp_size s" "ps_world s' = ps_world s"
      "ps_used s' = ps_used (release_phy_pages i dp (k * ms_ppv m) s)"
    and m': "ms_groups m' = (ms_groups m)[dp := g']" "ms_ppv m' = ms_ppv m" "ms_total_virt m' = ms_total_virt m" "ms_model_tp m' = ms_model_tp m"
    and g: "length (free_virt g') = length (free_virt (ms_groups m ! dp)) + k"
    and U: "\<And>t. t \<in># U \<Longrightarrow> t \<in># T \<or> task_ppv_ok s t"
  shows "kv_inv W (s', U)"
proof -
  have len: "length (ms_groups m) = ps_dp_size s" using page_invD(1) [OF kv_invD(1) [OF kv] m(1)] .
  have "length (free_virt (ms_groups m' ! dp)) \<le> ms_total_virt m'"
    using group_free_le [OF inv', of i m' dp] s'(1,2) m(2) by simp
  then have "ms_total_virt m - length (free_virt (ms_groups m ! dp)) = (ms_total_virt m - length (free_virt g')) + k"
    using g m' m(2) len by simp
  then have d: "group_demand m dp = group_demand m' dp + k * ms_ppv m"
    using m' m(2) len by (simp add: group_demand_def add_mult_distrib)
  show ?thesis
    by (intro kv_inv_step [OF kv inv' m s'(1-3) m' _ _ _ U])
      (use d in \<open>simp_all add: s'(4) release_phy_pages_def sub_used_nth [OF workers_below(2,1) kv_invD(3) [OF kv]]\<close>)
qed

lemma kv_inv_same:
  assumes kv: "kv_inv W (s, T)" and inv': "page_inv (s', U)"
    and s': "ps_models s' = ps_models s" "ps_dp_size s' = ps_dp_size s" "ps_world s' = ps_world s" "ps_used s' = ps_used s"
    and U: "\<And>t. t \<in># U \<Longrightarrow> t \<in># T \<or> task_ppv_ok s t"
  shows "kv_inv W (s', U)"
proof -
  have "group_workers j d s' = group_workers j d s" for j d using s' by (simp add: group_workers_def)
  then have "kv_demand s' w = kv_demand s w" for w using s' by (simp add: kv_demand_def cong: if_cong)
  moreover have "task_ppv_ok s' = task_ppv_ok s" by (intro ext, simp only: task_ppv_ok_def s'(1))
  then have "task_ppv_ok s' t" if "t \<in># U" for t using U [OF that] kv_invD(5) [OF kv] by auto
  ultimately show ?thesis using kv_invD [OF kv] inv' s' by (simp add: kv_inv_def)
qed

lemma kv_inv_register:
  assumes kv: "kv_inv W (s, T)" and r: "register_model i n s = Some (b, s')"
  shows "kv_inv W (s', T)"
proof (cases "s' = s")
  case False
  note inv' = page_inv_register [OF kv_invD(1) [OF kv] r]
  have none: "ps_models s i = None" using r False by (auto simp: register_model_def split: if_splits)
  then obtain m' where s': "ps_models s' = (ps_models s)(i \<mapsto> m')" "ps_dp_size s' = ps_dp_size s" "ps_world s' = ps_world s" "ps_used s' = ps_used s"
    and m': "ms_groups m' = replicate (ps_dp_size s) (new_group (ms_total_virt m'))" "ms_model_tp m' = 0"
    using r False by (auto simp: register_model_def Let_def split: if_splits)
  have ws: "group_workers j d s' = group_workers j d s" for j d
    using none s' m'(2) by (auto simp: group_workers_def Let_def split: option.split)
  have "kv_demand s' w = kv_demand s w" for w
  proof -
    have "kv_demand s' w = (\<Sum>dp<ps_dp_size s. if w \<in> set (group_workers i dp s) then group_demand m' dp else 0)
        + (\<Sum>j\<in>dom (ps_models s). \<Sum>dp<ps_dp_size s. if w \<in> set (group_workers j dp s) then group_demand (the (ps_models s' j)) dp else 0)"
      unfolding kv_demand_def s'(2) ws using none by (simp add: s'(1) domIff kv_invD(2) [OF kv] cong: if_cong)
    also have "(\<Sum>dp<ps_dp_size s. if w \<in> set (group_workers i dp s) then group_demand m' dp else 0) = 0"
      using m'(1) by (simp add: group_demand_def new_group_def)
    also have "(\<Sum>j\<in>dom (ps_models s). \<Sum>dp<ps_dp_size s. if w \<in> set (group_workers j dp s) then group_demand (the (ps_models s' j)) dp else 0) = kv_demand s w"
      unfolding kv_demand_def by (intro sum.cong refl) (use none in \<open>auto simp: s'(1)\<close>)
    finally show ?thesis by simp
  qed
  moreover have "task_ppv_ok s' t" if t: "t \<in># T" for t
    using kv_invD(5) [OF kv t] page_inv_task [OF kv_invD(1) [OF kv] t] none s'(1) by (cases t) (auto simp: task_ppv_ok_def task_ok_def)
  ultimately show ?thesis using kv_invD [OF kv] inv' s' by (simp add: kv_inv_def)
qed (use kv in simp)

lemma kv_inv_groups:
  assumes "kv_inv W (s, T)" "ps_models s i \<noteq> None" "set dps \<subseteq> {..<ps_dp_size s}" "prealloc_groups i dps s = (rs, s')"
  shows "kv_inv W (s', taken_tasks rs + T) \<and> dom (ps_models s') = dom (ps_models s) \<and> ps_dp_size s' = ps_dp_size s"
  using assms
proof (induction i dps s arbitrary: rs T rule: prealloc_groups.induct)
  case (1 i s)
  then show ?case by (simp add: taken_tasks_def)
next
  case (2 i dp dps s)
  obtain r s1 where r: "prealloc_group i dp s = (r, s1)" by fastforce
  obtain rs2 where rs2: "prealloc_groups i dps s1 = (rs2, s')" "rs = (case r of None \<Rightarrow> rs2 | Some ids \<Rightarrow> (i, dp, ids) # rs2)"
    using 2(5) r by (auto split: prod.splits)
  obtain m where m: "ps_models s i = Some m" "dp < ps_dp_size s" using 2(3,4) by auto
  define T1 where "T1 = (case r of None \<Rightarrow> T | Some ids \<Rightarrow> add_mset (Taken_Task i dp ids) T)"
  let ?n = "prealloc_amount i dp s" and ?g = "ms_groups m ! dp"
  let ?f = "\<lambda>g. g\<lparr>free_virt := drop ?n (free_virt g)\<rparr>"
  have inv1: "kv_inv W (s1, T1) \<and> dom (ps_models s1) = dom (ps_models s) \<and> ps_dp_size s1 = ps_dp_size s"
  proof (cases "?n = 0")
    case True
    then show ?thesis using r 2(2) by (auto simp: prealloc_group_eq T1_def)
  next
    case False
    have len: "?n \<le> length (free_virt ?g)" by (simp add: prealloc_amount_def Let_def group_at_model [OF m(1)])
    have r': "r = Some (take ?n (free_virt ?g))" "s1 = add_used (group_workers i dp s) (?n * ms_ppv m) (update_group i dp ?f s)"
      using r False len m by (auto simp: prealloc_group_eq group_at_model Let_def)
    have "page_inv (s1, T1)"
      by (rule page_inv_update_group [OF kv_invD(1) [OF 2(2)] m, where f = ?f])
        (use group_inv_prealloc [OF page_invD(4) [OF kv_invD(1) [OF 2(2)] m], of ?n] r' m in \<open>auto simp: T1_def task_simps\<close>)
    then have "kv_inv W (s1, T1)"
      by (rule kv_inv_consume [OF 2(2) _ m, where m' = "m\<lparr>ms_groups := (ms_groups m)[dp := ?f ?g]\<rparr>" and g' = "?f ?g" and k = ?n])
        (use r' m len in \<open>auto simp: T1_def task_ppv_ok_def add_used_def\<close>)
    then show ?thesis using r'(2) m by auto
  qed
  then have "ps_models s1 i \<noteq> None" using m(1) by (metis domIff option.distinct(1))
  then have "kv_inv W (s', taken_tasks rs2 + T1) \<and> dom (ps_models s') = dom (ps_models s1) \<and> ps_dp_size s' = ps_dp_size s1"
    using 2(1) [OF r [symmetric] refl, of T1 rs2] inv1 2(4) rs2(1) by simp
  moreover have "taken_tasks rs2 + T1 = taken_tasks rs + T" using rs2(2) by (cases r) (simp_all add: T1_def taken_tasks_def)
  ultimately show ?case using inv1 by simp
qed

lemma kv_inv_models:
  assumes "kv_inv W (s, T)" "set order \<subseteq> dom (ps_models s)" "prealloc_models order s = (rs, s')"
  shows "kv_inv W (s', taken_tasks rs + T)"
  using assms
proof (induction order s arbitrary: rs T rule: prealloc_models.induct)
  case (1 s)
  then show ?case by (simp add: taken_tasks_def)
next
  case (2 i "is" s)
  obtain rs1 s1 where r: "(if is_model_sleeping i s then ([], s) else prealloc_groups i [0..<ps_dp_size s] s) = (rs1, s1)" by fastforce
  obtain rs2 where rs2: "prealloc_models is s1 = (rs2, s')" "rs = rs1 @ rs2" using 2(4) r by (auto split: prod.splits)
  have inv1: "kv_inv W (s1, taken_tasks rs1 + T) \<and> dom (ps_models s1) = dom (ps_models s)"
  proof (cases "is_model_sleeping i s")
    case True
    then show ?thesis using r 2(2) by (simp add: taken_tasks_def)
  next
    case False
    then have "prealloc_groups i [0..<ps_dp_size s] s = (rs1, s1)" using r by simp
    moreover have "ps_models s i \<noteq> None" using 2(3) by auto
    ultimately show ?thesis using kv_inv_groups [OF 2(2), of i "[0..<ps_dp_size s]" rs1 s1] by (simp add: lessThan_atLeast0)
  qed
  then have "kv_inv W (s', taken_tasks rs2 + (taken_tasks rs1 + T))" using 2(1) [OF r [symmetric] refl] 2(3) rs2(1) by simp
  then show ?case using rs2(2) by (simp add: taken_tasks_def ac_simps)
qed

lemma drop_reserve_free: "length (free_virt (push_reserved ids (drop_allocated js g))) = length (free_virt g)"
  "length (free_virt (drop_allocated js g)) = length (free_virt g)" "length (free_virt (push_reserved ids g)) = length (free_virt g)"
  "length (free_virt (push_free ids g)) = length (free_virt g) + length ids"
  by (simp_all add: push_reserved_def drop_allocated_def push_free_def)

lemma kv_inv_mapped:
  assumes kv: "kv_inv W (s, add_mset (Map_Task i dp p n) T)"
  shows "kv_inv W (alloc_mapped i dp p n ok s, if ok then add_mset (Trigger_Task i dp p) T else T)"
proof -
  note inv = kv_invD(1) [OF kv]
  obtain m where m: "ps_models s i = Some m" "dp < ps_dp_size s" by (rule page_inv_taskD [OF inv]) auto
  have n: "n = 1 * ms_ppv m" using kv_invD(5) [OF kv, of "Map_Task i dp p n"] m by (simp add: task_ppv_ok_def)
  note inv' = page_inv_mapped [OF inv, of ok]
  show ?thesis
  proof (cases ok)
    case True
    show ?thesis
      by (rule kv_inv_idle [OF kv inv' m, where m' = "m\<lparr>ms_pending := ms_pending m - 1\<rparr>" and g' = "ms_groups m ! dp"])
        (use True m in \<open>auto simp: alloc_mapped_def task_ppv_ok_def\<close>)
  next
    case False
    show ?thesis
      by (rule kv_inv_release [OF kv inv' m, where m' = "m\<lparr>ms_pending := ms_pending m - 1, ms_groups := (ms_groups m)[dp := give_back p (ms_groups m ! dp)]\<rparr>"
            and g' = "give_back p (ms_groups m ! dp)" and k = 1])
        (use False m n in \<open>auto simp: alloc_mapped_def give_back_def release_phy_pages_def sub_used_def\<close>)
  qed
qed

lemma kv_inv_unmap:
  assumes kv: "kv_inv W (s, add_mset (Unmap_Task i dp ids ppv) T)"
  shows "kv_inv W (unmap_end i dp ids ppv ok s, T)"
proof -
  note inv = kv_invD(1) [OF kv]
  obtain m where m: "ps_models s i = Some m" "dp < ps_dp_size s" by (rule page_inv_taskD [OF inv]) auto
  have n: "ppv = ms_ppv m" using kv_invD(5) [OF kv, of "Unmap_Task i dp ids ppv"] m by (simp add: task_ppv_ok_def)
  note inv' = page_inv_unmap [OF inv, of ok]
  show ?thesis
  proof (cases ok)
    case True
    show ?thesis
      by (rule kv_inv_release [OF kv inv' m, where m' = "m\<lparr>ms_groups := (ms_groups m)[dp := push_free ids (ms_groups m ! dp)]\<rparr>"
            and g' = "push_free ids (ms_groups m ! dp)" and k = "length ids"])
        (use True m n in \<open>auto simp: unmap_end_def drop_reserve_free release_phy_pages_def sub_used_def\<close>)
  next
    case False
    show ?thesis
      by (rule kv_inv_idle [OF kv inv' m, where m' = "m\<lparr>ms_groups := (ms_groups m)[dp := push_reserved ids (ms_groups m ! dp)]\<rparr>"
            and g' = "push_reserved ids (ms_groups m ! dp)"])
        (use False m in \<open>auto simp: unmap_end_def drop_reserve_free\<close>)
  qed
qed

lemma kv_inv_taken:
  assumes kv: "kv_inv W (s, add_mset (Taken_Task i dp ids) T)" and c: "prealloc_check i dp ids s = (go, s')"
  shows "kv_inv W (s', if go then add_mset (Prealloc_Task i dp ids) T else T)"
proof -
  note inv = kv_invD(1) [OF kv]
  obtain m where m: "ps_models s i = Some m" "dp < ps_dp_size s" by (rule page_inv_taskD [OF inv]) auto
  note inv' = page_inv_taken [OF inv c]
  show ?thesis
  proof (cases "ms_sleeping m")
    case True
    then have go: "\<not> go" "s' = return_taken i dp ids s" using c m by (auto simp: prealloc_check_def)
    let ?g = "(ms_groups m ! dp)\<lparr>free_virt := ids @ free_virt (ms_groups m ! dp)\<rparr>"
    show ?thesis
      by (rule kv_inv_release [OF kv inv' m, where m' = "m\<lparr>ms_groups := (ms_groups m)[dp := ?g]\<rparr>" and g' = ?g and k = "length ids"])
        (use go m in \<open>auto simp: return_taken_def release_phy_pages_def sub_used_def\<close>)
  next
    case False
    then have go: "go" "s' = add_pending i 1 s" using c m by (auto simp: prealloc_check_def)
    show ?thesis
      by (rule kv_inv_idle [OF kv inv' m, where m' = "m\<lparr>ms_pending := ms_pending m + 1\<rparr>" and g' = "ms_groups m ! dp"])
        (use go m in \<open>auto simp: task_ppv_ok_def\<close>)
  qed
qed

lemma kv_inv_prealloc_end:
  assumes kv: "kv_inv W (s, add_mset (Prealloc_Task i dp ids) T)"
  shows "kv_inv W (prealloc_finish i dp ids ok s, T)"
proof -
  note inv = kv_invD(1) [OF kv]
  obtain m where m: "ps_models s i = Some m" "dp < ps_dp_size s" by (rule page_inv_taskD [OF inv]) auto
  have awake: "\<not> ms_sleeping m" using page_invD(3) [OF inv m(1)] by auto
  note inv' = page_inv_prealloc_end [OF inv, of ok]
  let ?g = "(ms_groups m ! dp)\<lparr>free_virt := ids @ free_virt (ms_groups m ! dp)\<rparr>"
  show ?thesis
  proof (cases ok)
    case True
    show ?thesis
      by (rule kv_inv_idle [OF kv inv' m, where m' = "m\<lparr>ms_pending := ms_pending m - 1, ms_groups := (ms_groups m)[dp := push_reserved ids (ms_groups m ! dp)]\<rparr>"
            and g' = "push_reserved ids (ms_groups m ! dp)"])
        (use True m awake in \<open>simp_all add: prealloc_finish_def Let_def drop_reserve_free\<close>)
  next
    case False
    show ?thesis
      by (rule kv_inv_release [OF kv inv' m, where m' = "m\<lparr>ms_pending := ms_pending m - 1, ms_groups := (ms_groups m)[dp := ?g]\<rparr>" and g' = ?g and k = "length ids"])
        (use False m in \<open>simp_all add: prealloc_finish_def return_taken_def Let_def release_phy_pages_def sub_used_def\<close>)
  qed
qed

lemma kv_step_inv: "kv_step c c' \<Longrightarrow> kv_inv W c \<Longrightarrow> kv_inv W c'"
proof (induction rule: kv_step.induct)
  case (kv_register i n s b s' T)
  then show ?case using kv_inv_register by blast
next
  case (kv_alloc_ready fuel i dp s p s' T)
  note kv = kv_alloc_ready.prems
  have inv': "page_inv (s', T)" using page_step_inv [OF ps_alloc_ready [OF kv_alloc_ready(1)] kv_invD(1) [OF kv]] .
  from kv_alloc_ready(1) show ?case
  proof (cases rule: alloc_ready)
    case (1 m)
    show ?thesis
      by (rule kv_inv_idle [OF kv inv' 1(2,1), where g' = "take_reserved (ms_groups m ! nat dp)"
            and m' = "m\<lparr>ms_groups := (ms_groups m)[nat dp := take_reserved (ms_groups m ! nat dp)]\<rparr>"])
        (use 1(2,6) in \<open>auto simp: take_reserved_def\<close>)
  qed
next
  case (kv_alloc_throw fuel i dp s e s' T)
  then show ?case using alloc_throw by blast
next
  case (kv_alloc_map fuel i dp s p n s' T)
  note kv = kv_alloc_map.prems
  note inv' = page_inv_alloc_map [OF kv_invD(1) [OF kv] kv_alloc_map(1)]
  from kv_alloc_map(1) show ?case
  proof (cases rule: alloc_map)
    case (1 m)
    show ?thesis
      by (rule kv_inv_consume [OF kv inv' 1(2,1), where g' = "take_free (ms_groups m ! nat dp)" and k = 1
            and m' = "m\<lparr>ms_groups := (ms_groups m)[nat dp := take_free (ms_groups m ! nat dp)], ms_pending := ms_pending m + 1\<rparr>"])
        (use 1(2,4,6,8) group_at_model [OF 1(2)] in \<open>auto simp: take_free_def task_ppv_ok_def add_used_def\<close>)
  qed
next
  case (kv_mapped s i dp p n T ok)
  then show ?case by (rule kv_inv_mapped)
next
  case (kv_trigger s i dp p T)
  show ?case
    by (rule kv_inv_same [OF kv_trigger page_step_inv [OF ps_trigger kv_invD(1) [OF kv_trigger]]])
      (auto simp: alloc_trigger_def task_ppv_ok_def)
next
  case (kv_record s i dp p T)
  note inv = kv_invD(1) [OF kv_record]
  obtain m where m: "ps_models s i = Some m" "dp < ps_dp_size s" by (rule page_inv_taskD [OF inv]) auto
  let ?f = "\<lambda>g. g\<lparr>allocated_virt := insert_page p (allocated_virt g)\<rparr>"
  show ?case
    by (rule kv_inv_idle [OF kv_record page_inv_record [OF inv] m, where g' = "?f (ms_groups m ! dp)"
          and m' = "m\<lparr>ms_groups := (ms_groups m)[dp := ?f (ms_groups m ! dp)]\<rparr>"])
      (use m in \<open>auto simp: alloc_record_def\<close>)
next
  case (kv_free i dp ids s js s' T)
  note kv = kv_free.prems
  note inv = kv_invD(1) [OF kv]
  obtain m where m: "ps_models s i = Some m" "nat dp < ps_dp_size s"
    using kv_free(1) by (auto simp: free_begin_def valid_rank_def split: if_splits option.splits)
  have len: "length (ms_groups m) = ps_dp_size s" using page_invD(1) [OF inv m(1)] .
  obtain g' where g': "ps_models s' = (ps_models s)(i \<mapsto> m\<lparr>ms_groups := (ms_groups m)[nat dp := g']\<rparr>)"
    "length (free_virt g') = length (free_virt (ms_groups m ! nat dp))" "ps_dp_size s' = ps_dp_size s" "ps_world s' = ps_world s" "ps_used s' = ps_used s"
  proof (cases "ms_sleeping m")
    case True
    then show ?thesis using that kv_free(1) m by (auto simp: free_begin_def Let_def drop_reserve_free split: if_splits)
  next
    case False
    then show ?thesis using that kv_free(1) m len by (auto simp: free_begin_def Let_def drop_reserve_free split: if_splits)
  qed
  show ?case
    by (rule kv_inv_idle [OF kv page_inv_free [OF inv kv_free(1,2)] m g'(1,3-5) _ _ _ _ g'(2)])
      (use m in \<open>auto simp: task_ppv_ok_def split: if_splits\<close>)
next
  case (kv_trim i dp s js s' T)
  note kv = kv_trim.prems
  note inv = kv_invD(1) [OF kv]
  obtain m where m: "ps_models s i = Some m" "nat dp < ps_dp_size s"
    using kv_trim(1) by (auto simp: trim_begin_def valid_rank_def split: if_splits)
  let ?g = "(ms_groups m ! nat dp)\<lparr>reserved_virt := []\<rparr>"
  show ?case
    by (rule kv_inv_idle [OF kv page_inv_trim [OF inv kv_trim(1)] m, where g' = ?g and m' = "m\<lparr>ms_groups := (ms_groups m)[nat dp := ?g]\<rparr>"])
      (use kv_trim(1) m in \<open>auto simp: trim_begin_def task_ppv_ok_def split: if_splits\<close>)
next
  case (kv_unmap s i dp ids ppv T ok)
  then show ?case by (rule kv_inv_unmap)
next
  case (kv_scan s order rs s' T)
  have "page_inv (s\<lparr>ps_needed := False\<rparr>, T)" by (rule page_inv_congr [OF kv_invD(1) [OF kv_scan(6)]]) simp_all
  then have "kv_inv W (s\<lparr>ps_needed := False\<rparr>, T)" by (rule kv_inv_same [OF kv_scan(6)]) simp_all
  then show ?case using kv_inv_models [of W "s\<lparr>ps_needed := False\<rparr>" T order rs s'] kv_scan(4,5) by (simp add: prealloc_scan_def)
next
  case (kv_taken i dp ids s go s' T)
  then show ?case using kv_inv_taken by blast
next
  case (kv_prealloc_end s i dp ids T ok)
  then show ?case by (rule kv_inv_prealloc_end)
qed

lemma kv_steps_inv: "kv_step\<^sup>*\<^sup>* c c' \<Longrightarrow> kv_inv W c \<Longrightarrow> kv_inv W c'"
  by (induction rule: rtranclp_induct) (auto intro: kv_step_inv)

lemma dom_update_group: "dom (ps_models (update_group i dp f s)) = dom (ps_models s)"
  by (cases "ps_models s i") auto

lemma prealloc_group_dom: "prealloc_group i dp s = (r, s') \<Longrightarrow> dom (ps_models s') = dom (ps_models s)"
proof (cases "prealloc_amount i dp s = 0")
  case False
  assume "prealloc_group i dp s = (r, s')"
  with False obtain ws n f where "s' = add_used ws n (update_group i dp f s)" by (auto simp: prealloc_group_eq Let_def)
  then show ?thesis by (simp only: add_used_frame(1) dom_update_group)
qed (simp add: prealloc_group_eq)

lemma prealloc_groups_dom: "prealloc_groups i dps s = (rs, s') \<Longrightarrow> dom (ps_models s') = dom (ps_models s)"
proof (induction i dps s arbitrary: rs rule: prealloc_groups.induct)
  case (2 i dp dps s)
  obtain r s1 where r: "prealloc_group i dp s = (r, s1)" by fastforce
  then show ?case using 2(1) [OF r [symmetric] refl] 2(2) prealloc_group_dom [OF r] by (auto split: prod.splits)
qed simp

lemma prealloc_models_dom: "prealloc_models order s = (rs, s') \<Longrightarrow> dom (ps_models s') = dom (ps_models s)"
proof (induction order s arbitrary: rs rule: prealloc_models.induct)
  case (2 i "is" s)
  obtain rs1 s1 where r: "(if is_model_sleeping i s then ([], s) else prealloc_groups i [0..<ps_dp_size s] s) = (rs1, s1)" by fastforce
  then have "dom (ps_models s1) = dom (ps_models s)" using prealloc_groups_dom by (auto split: if_splits)
  then show ?case using 2(1) [OF r [symmetric] refl] 2(2) r by (auto split: prod.splits)
qed simp

lemma fin_grow: "finite (dom f) \<Longrightarrow> dom g \<subseteq> insert i (dom f) \<Longrightarrow> finite (dom g)"
  by (meson finite_insert finite_subset)

lemma finite_dom_upd: "finite (dom (f(i := x))) \<longleftrightarrow> finite (dom f)"
  by (cases x) (auto simp: dom_fun_upd)

lemma register_frame: "register_model i n s = Some (b, s') \<Longrightarrow> dom (ps_models s') \<subseteq> insert i (dom (ps_models s))"
  by (auto simp: register_model_def Let_def split: if_splits)

lemma page_reach_finite: "page_reach c \<Longrightarrow> finite (dom (ps_models (fst c)))"
proof (induction rule: page_reach.induct)
  case (page_reach_init g n dp w e)
  then show ?case by (simp add: page_init_def page_empty_def)
next
  case (page_reach_step c c')
  from page_reach_step(2,3) show ?case
  proof (induction rule: page_step.induct)
    case (ps_register i n s b s' T)
    then show ?case using fin_grow [OF _ register_frame] by simp
  next
    case (ps_alloc_ready fuel i dp s p s' T)
    from ps_alloc_ready(1) have "dom (ps_models s') = dom (ps_models s)"
    proof (cases rule: alloc_ready)
      case (1 m)
      then show ?thesis using dom_update_group [of i "nat dp" take_reserved s] by (metis trigger_frame(1))
    qed
    then show ?case using ps_alloc_ready(2) by simp
  next
    case (ps_alloc_throw fuel i dp s e s' T)
    then show ?case using alloc_throw by fastforce
  next
    case (ps_alloc_map fuel i dp s p n s' T)
    from ps_alloc_map(1) have "dom (ps_models s') = dom (ps_models s)"
      by (cases rule: alloc_map) (auto simp: domIff)
    then show ?case using ps_alloc_map(2) by simp
  next
    case (ps_free i dp ids s js s' T)
    then show ?case unfolding fst_conv by - (rule fin_grow [of "ps_models s" _ i], assumption, auto simp: free_begin_def Let_def split: if_splits option.splits)
  next
    case (ps_trim i dp s js s' T)
    then show ?case unfolding fst_conv by - (rule fin_grow [of "ps_models s" _ i], assumption, auto simp: trim_begin_def split: if_splits)
  next
    case (ps_alloc_weight i n bcast s b s' T)
    then show ?case unfolding fst_conv by - (rule fin_grow [of "ps_models s" _ i], assumption, auto simp: alloc_weight_pages_def Let_def split: if_splits)
  next
    case (ps_free_weight i n bcast s b s' T)
    then show ?case using weights_frame by fastforce
  next
    case (ps_weight_count i n s s' T)
    then show ?case unfolding fst_conv by - (rule fin_grow [of "ps_models s" _ i], assumption, auto simp: set_weight_pages_count_def split: if_splits)
  next
    case (ps_sleep_enter s i m w ppv gs s' skip T)
    then show ?case unfolding fst_conv by - (rule fin_grow [of "ps_models s" _ i], assumption, auto simp: sleep_enter_def Let_def)
  next
    case (ps_sleep_weights i skip w bcast s s' ppv gs T)
    then show ?case unfolding fst_conv using weights_frame by - (rule fin_grow [of "ps_models s" _ i], assumption, auto simp: sleep_weights_def split: if_splits option.splits bool.splits)
  next
    case (ps_wakeup i s r s' T)
    then show ?case unfolding fst_conv by - (rule fin_grow [of "ps_models s" _ i], assumption, auto simp: wakeup_begin_def Let_def split: option.splits if_splits)
  next
    case (ps_scan s order rs s' T)
    have "dom (ps_models s') = dom (ps_models s)" using prealloc_models_dom [OF ps_scan(5) [unfolded prealloc_scan_def]] by simp
    then show ?case using ps_scan(6) by simp
  next
    case (ps_taken i dp ids s go s' T)
    then show ?case unfolding fst_conv by - (rule fin_grow [of "ps_models s" _ i], assumption, auto simp: prealloc_check_def return_taken_def split: option.splits if_splits)
  next
    case (ps_prealloc_end s i dp ids T ok)
    then show ?case unfolding fst_conv by - (rule fin_grow [of "ps_models s" _ i], assumption, auto simp: prealloc_finish_def Let_def return_taken_def split: option.splits)
  qed (simp_all add: finite_dom_upd set_model_parallel_strategy_def alloc_mapped_def Let_def alloc_trigger_def alloc_record_def unmap_end_def wakeup_end_def
      start_prealloc_thread_def stop_prealloc_thread_def)
qed

end
