(* ===== verification/Page_Properties.thy ===== *)
theory Page_Properties imports Page_Accounting begin

text \<open>
  The properties of the page allocator: conservation of virtual pages, the bound on physical pages, the loop of the
  allocation, exact accounting, and the interleavings on which accounting goes wrong.
\<close>

section \<open>Properties\<close>

text \<open>C19.  No virtual page is lost or handed out twice: in every reachable state of every interleaving of the allocator's
  operations, sleep, wakeup and preallocation included, the free, reserved and allocated lists of a group and the
  operations in flight hold every page of the group exactly once, and the counter of free pages counts the free
  and reserved ones and those on their way between the two lists.\<close>

theorem pages_conserved:
  assumes "page_reach (s, T)" "ps_models s i = Some m" "dp < ps_dp_size s"
  shows "mset (free_virt (ms_groups m ! dp)) + mset (reserved_virt (ms_groups m ! dp)) + mset (allocated_virt (ms_groups m ! dp))
      + flight i dp T = mset [0..<ms_total_virt m]
    \<and> num_free_virt (ms_groups m ! dp) = length (free_virt (ms_groups m ! dp)) + length (reserved_virt (ms_groups m ! dp)) + flight_free i dp T"
  using page_invD(4) [OF page_reach_inv [OF assms(1)] assms(2,3)] unfolding group_inv_def group_pages_def .

text \<open>Physical pages are never overcommitted: in every reachable state no worker has given out more pages than it has,
  so that the unsigned number of free pages does not wrap around; the count of pending map operations of a model is
  the number of its map operations in flight, and a sleeping model has none.\<close>

theorem pages_bounded:
  assumes "page_reach (s, T)"
  shows "(\<forall>w < ps_world s. ps_used s ! w \<le> ps_total s)
    \<and> (\<forall>i m. ps_models s i = Some m \<longrightarrow> ms_pending m = int (maps_pending i T) \<and> (ms_sleeping m \<longrightarrow> maps_pending i T = 0))"
proof -
  have "\<forall>w < ps_world s. ps_used s ! w \<le> ps_total s" using page_reach_used [OF assms] by (simp add: used_ok_def)
  moreover have "ms_pending m = int (maps_pending i T) \<and> (ms_sleeping m \<longrightarrow> maps_pending i T = 0)" if "ps_models s i = Some m" for i m
    using page_invD(2,3) [OF page_reach_inv [OF assms] that] by blast
  ultimately show ?thesis by blast
qed


text \<open>C21.  The physical pages are accounted for exactly: starting from a reachable state in which no page is mapped or in flight,
  every interleaving of allocation, release, trimming and preallocation, with mappings that succeed or fail, leaves
  every worker with the pages it had given out before plus those that the virtual pages outside of the free lists
  take; nothing leaks.\<close>

theorem page_accounting_exact:
  assumes "page_reach (s0, {#})" "kv_step\<^sup>*\<^sup>* (s0, {#}) (s, T)" "w < ps_world s"
    and "\<And>i m dp. ps_models s0 i = Some m \<Longrightarrow> dp < ps_dp_size s0 \<Longrightarrow> length (free_virt (ms_groups m ! dp)) = ms_total_virt m"
  shows "ps_used s ! w = ps_used s0 ! w + kv_demand s w"
proof -
  have "kv_demand s0 w = 0" for w
    unfolding kv_demand_def using assms(4) by (auto simp: group_demand_def intro!: sum.neutral)
  then have "kv_inv (\<lambda>w. ps_used s0 ! w) (s0, {#})"
    using page_reach_inv [OF assms(1)] page_reach_finite [OF assms(1)] page_reach_used [OF assms(1)] by (simp add: kv_inv_def used_ok_def)
  from kv_invD(4) [OF kv_steps_inv [OF assms(2) this] assms(3)] show ?thesis .
qed

section \<open>Runs\<close>

text \<open>Twenty physical pages, one worker, and a model of one layer, whose virtual pages take two physical ones.\<close>

definition run_registered :: page_state where
  "run_registered = snd (the (register_model ''m'' 1 (page_init 2 20 1 1 True page_empty)))"

definition run_popped :: page_state where "run_popped = snd (the (alloc_begin 1 ''m'' 0 run_registered))"
definition run_mapped :: page_state where "run_mapped = alloc_mapped ''m'' 0 0 2 True run_popped"

lemma run_registered_eq: "register_model ''m'' 1 (page_init 2 20 1 1 True page_empty) = Some (True, run_registered)"
  unfolding run_registered_def by (rule some_pair) code_simp+

lemma run_popped_eq: "alloc_begin 1 ''m'' 0 run_registered = Some (Alloc_Map 0 2, run_popped)"
  unfolding run_popped_def by (rule some_pair) code_simp+

lemma run_registered_reach: "page_reach (run_registered, {#})"
  using page_reach_step [OF page_reach_init ps_register [OF run_registered_eq]] .

lemma run_mapped_reach: "page_reach (run_mapped, {#Trigger_Task ''m'' 0 0#})"
proof -
  have "page_reach (run_popped, {#Map_Task ''m'' 0 0 2#})"
    using page_reach_step [OF run_registered_reach ps_alloc_map [OF run_popped_eq]] by simp
  from page_reach_step [OF this ps_mapped [of _ _ _ _ _ "{#}" True]] show ?thesis unfolding run_mapped_def by simp
qed

text \<open>A whole allocation that maps, and a whole sleep of a model without weights, as runs.\<close>

lemma run_alloc:
  assumes "page_reach (s, T)" "alloc_begin f i dp s = Some (Alloc_Map p n, s1)"
  shows "page_reach (alloc_record i (nat dp) p (alloc_trigger (alloc_mapped i (nat dp) p n True s1)), T)"
proof -
  have "page_reach (alloc_mapped i (nat dp) p n True s1, add_mset (Trigger_Task i (nat dp) p) T)"
    using page_reach_step [OF page_reach_step [OF assms(1) ps_alloc_map [OF assms(2)]] ps_mapped [of s1 i "nat dp" p n T True]] by simp
  from page_reach_step [OF page_reach_step [OF this ps_trigger] ps_record] show ?thesis .
qed

lemma run_sleep:
  assumes "page_reach (s, T)" "sleep_check i s" "ps_models s i = Some m" "ms_pending m \<le> 0" "sleep_enter i s = ((0, ppv, gs), s1)"
  shows "page_reach (sleep_release i ppv (zip gs (replicate (length gs) True)) s1, T)"
proof -
  have "page_reach (s1, add_mset (Sleep_Weight_Task i False 0 ppv gs) T)"
    using page_reach_step [OF page_reach_step [OF assms(1) ps_sleep [OF assms(2)]] ps_sleep_enter [OF assms(3-5)]] .
  moreover have "sleep_weights i False 0 True s1 = Some s1" by (simp add: sleep_weights_def)
  ultimately have "page_reach (s1, add_mset (Sleep_Unmap_Task i ppv gs) T)" using page_reach_step ps_sleep_weights by blast
  from page_reach_step [OF this ps_sleep_end [of "replicate (length gs) True" gs]] show ?thesis by simp
qed

text \<open>Waking up with all broadcasts successful.\<close>

lemma run_wakeup:
  assumes "page_reach (s, T)" "wakeup_begin i s = Some (r, s1)"
  shows "page_reach (wakeup_end i s1, T)"
  using page_reach_step [OF page_reach_step [OF assms(1) ps_wakeup [OF assms(2)]] ps_wakeup_end [of s1 i T True]] by simp

lemma run_unmap:
  assumes "page_reach (s, T)" "trim_begin i dp s = Some (js, s1)" "js \<noteq> []"
  shows "page_reach (unmap_end i (nat dp) js (ms_ppv (the (ps_models s i))) True s1, T)"
  using page_reach_step [OF page_reach_step [OF assms(1) ps_trim [OF assms(2)]]] assms(3) ps_unmap by fastforce

definition run_asleep :: page_state where "run_asleep = snd (sleep_enter ''m'' run_mapped)"
definition run_recorded :: page_state where "run_recorded = alloc_record ''m'' 0 0 (alloc_trigger run_asleep)"
definition run_awake :: page_state where "run_awake = wakeup_end ''m'' (snd (the (wakeup_begin ''m'' run_recorded)))"
definition run_freed :: page_state where "run_freed = snd (the (free_begin ''m'' 0 [0] run_awake))"
definition run_leaked :: page_state where "run_leaked = unmap_end ''m'' 0 [0] 2 True (snd (the (trim_begin ''m'' 0 run_freed)))"

text \<open>Sleeping between the mapping of a page and its entry in the allocated list leaks physical pages: the page is counted as
  no pending operation any more and is not yet listed as mapped, so that \<open>sleep_model\<close> does not unmap it and
  \<open>wakeup_model\<close> takes the memory for it a second time; when all pages are free again, two physical pages are
  still counted as used.\<close>

theorem sleep_race_leaks:
  "page_reach (run_leaked, {#}) \<and> free_virt (group_at ''m'' 0 run_leaked) = [1, 2, 3, 4, 5, 6, 7, 8, 9, 0]
   \<and> ps_models run_leaked ''n'' = None \<and> get_weight_pages_allocated ''m'' run_leaked = Some 0 \<and> ps_used run_leaked = [2]"
proof -
  have check: "sleep_check ''m'' run_mapped" "ms_pending (the (ps_models run_mapped ''m'')) \<le> 0" "\<not> Option.is_none (ps_models run_mapped ''m'')"
    by code_simp+
  have enter: "sleep_enter ''m'' run_mapped = ((0, 2, []), run_asleep)"
    by (rule prod_eqI) (code_simp, simp add: run_asleep_def)
  obtain m where m: "ps_models run_mapped ''m'' = Some m" "ms_pending m \<le> 0" using check by (auto simp: Option.is_none_def)
  from run_sleep [OF run_mapped_reach check(1) m enter]
  have "page_reach (run_asleep, {#Trigger_Task ''m'' 0 0#})" by simp
  then have "page_reach (run_recorded, {#})" unfolding run_recorded_def
    using page_reach_step [OF page_reach_step [OF _ ps_trigger] ps_record] by simp
  moreover have "wakeup_begin ''m'' run_recorded = Some (([(0, [0])], 0), snd (the (wakeup_begin ''m'' run_recorded)))"
    by (rule some_pair) code_simp+
  ultimately have awake: "page_reach (run_awake, {#})" unfolding run_awake_def by (rule run_wakeup)
  have "free_begin ''m'' 0 [0] run_awake = Some ([], run_freed)" unfolding run_freed_def by (rule some_pair) code_simp+
  moreover have "client_frees ''m'' 0 [0] run_awake" by code_simp
  ultimately have freed: "page_reach (run_freed, {#})" using page_reach_step [OF awake ps_free] by fastforce
  have "trim_begin ''m'' 0 run_freed = Some ([0], snd (the (trim_begin ''m'' 0 run_freed)))" by (rule some_pair) code_simp+
  from run_unmap [OF freed this] have "page_reach (unmap_end ''m'' 0 [0] (ms_ppv (the (ps_models run_freed ''m''))) True (snd (the (trim_begin ''m'' 0 run_freed))), {#})" by simp
  moreover have "ms_ppv (the (ps_models run_freed ''m'')) = 2" by code_simp
  ultimately have "page_reach (run_leaked, {#})" by (simp add: run_leaked_def)
  moreover have "free_virt (group_at ''m'' 0 run_leaked) = [1, 2, 3, 4, 5, 6, 7, 8, 9, 0]" by code_simp
  moreover have "Option.is_none (ps_models run_leaked ''n'')" by code_simp
  moreover have "get_weight_pages_allocated ''m'' run_leaked = Some 0" "ps_used run_leaked = [2]" by code_simp+
  ultimately show ?thesis by (simp add: Option.is_none_def)
qed

definition run_one :: page_state where
  "run_one = alloc_record ''m'' 0 0 (alloc_trigger (alloc_mapped ''m'' 0 0 2 True run_popped))"
definition run_two :: page_state where "run_two = snd (the (register_model ''n'' 1 run_one))"
definition run_both :: page_state where
  "run_both = alloc_record ''n'' 0 0 (alloc_trigger (alloc_mapped ''n'' 0 0 2 True (snd (the (alloc_begin 1 ''n'' 0 run_two)))))"
definition run_half :: page_state where
  "run_half = sleep_release ''m'' 2 [((0, [0]), True)] (snd (sleep_enter ''m'' run_both))"
definition run_double :: page_state where
  "run_double = unmap_end ''m'' 0 [0] 2 True (snd (the (free_begin ''m'' 0 [0] run_half)))"

lemma run_one_reach: "page_reach (run_one, {#})"
  using run_alloc [OF run_registered_reach run_popped_eq] by (simp add: run_one_def)

lemma run_both_reach: "page_reach (run_both, {#})"
proof -
  have "register_model ''n'' 1 run_one = Some (True, run_two)" unfolding run_two_def by (rule some_pair) code_simp+
  from page_reach_step [OF run_one_reach ps_register [OF this]] have two: "page_reach (run_two, {#})" .
  have "alloc_begin 1 ''n'' 0 run_two = Some (Alloc_Map 0 2, snd (the (alloc_begin 1 ''n'' 0 run_two)))" by (rule some_pair) code_simp+
  from run_alloc [OF two this] show ?thesis by (simp add: run_both_def)
qed

text \<open>Freeing pages of a sleeping model releases their physical pages a second time: the sleep has unmapped them and taken
  them off the count already, so that memory which another model uses is counted as free.\<close>

theorem sleeping_free_releases_twice:
  "page_reach (run_both, {#}) \<and> ps_used run_both = [4]
   \<and> page_reach (run_double, {#}) \<and> ps_used run_double = [0] \<and> allocated_virt (group_at ''n'' 0 run_double) = [0]
   \<and> get_weight_pages_allocated ''n'' run_double = Some 0 \<and> \<not> is_model_sleeping ''n'' run_double"
proof -
  have check: "sleep_check ''m'' run_both" "ms_pending (the (ps_models run_both ''m'')) \<le> 0" "\<not> Option.is_none (ps_models run_both ''m'')"
    by code_simp+
  obtain m where m: "ps_models run_both ''m'' = Some m" "ms_pending m \<le> 0" using check by (auto simp: Option.is_none_def)
  have enter: "sleep_enter ''m'' run_both = ((0, 2, [(0, [0])]), snd (sleep_enter ''m'' run_both))"
    by (rule prod_eqI) (code_simp, simp)
  from run_sleep [OF run_both_reach check(1) m enter] have half: "page_reach (run_half, {#})" by (simp add: run_half_def)
  have free: "free_begin ''m'' 0 [0] run_half = Some ([0], snd (the (free_begin ''m'' 0 [0] run_half)))" by (rule some_pair) code_simp+
  have "client_frees ''m'' 0 [0] run_half" "ms_ppv (the (ps_models run_half ''m'')) = 2" by code_simp+
  with page_reach_step [OF half ps_free [OF free]] have "page_reach (snd (the (free_begin ''m'' 0 [0] run_half)), {#Unmap_Task ''m'' 0 [0] 2#})" by simp
  from page_reach_step [OF this ps_unmap [of _ _ _ _ _ "{#}" True]] have "page_reach (run_double, {#})" by (simp add: run_double_def)
  moreover have "ps_used run_both = [4]" "ps_used run_double = [0]" "allocated_virt (group_at ''n'' 0 run_double) = [0]"
    "get_weight_pages_allocated ''n'' run_double = Some 0" "\<not> is_model_sleeping ''n'' run_double" by code_simp+
  ultimately show ?thesis using run_both_reach by blast
qed

lemma num_to_reserve_wraps:
  assumes "max_reserved_pages < length (reserved_virt g)" "length (reserved_virt g) < 2 ^ 32"
  shows "2 ^ 32 \<le> num_to_reserve g"
proof -
  let ?r = "length (reserved_virt g)"
  have "unat (of_nat ?r :: u64) = ?r" using assms(2) by (simp add: unat_of_nat)
  moreover have "unat (of_nat max_reserved_pages :: u64) = max_reserved_pages" by (simp add: max_reserved_pages_def)
  ultimately have "num_to_reserve g = max_reserved_pages + 2 ^ 64 - ?r"
    using assms(1) by (simp add: num_to_reserve_def unat_sub_if_size word_size)
  then show ?thesis using assms by simp
qed

text \<open>The limit of reserved pages wraps around: when a group holds more than \<open>max_reserved_pages\<close> reserved pages, the unsigned
  number of pages that may still be reserved is huge, and every freed page stays mapped.\<close>

theorem reserve_limit_wraps:
  assumes "ps_models s i = Some m" "\<not> ms_sleeping m" "valid_rank dp s" "nat dp < length (ms_groups m)"
    and "max_reserved_pages < length (reserved_virt (group_at i (nat dp) s))" "length (reserved_virt (group_at i (nat dp) s)) < 2 ^ 32"
    and "length ids < 2 ^ 32"
  shows "\<exists>s'. free_begin i dp ids s = Some ([], s')
    \<and> reserved_virt (group_at i (nat dp) s') = reserved_virt (group_at i (nat dp) s) @ ids"
proof -
  let ?s = "update_group i (nat dp) (drop_allocated ids) s"
  have g: "reserved_virt (group_at i (nat dp) ?s) = reserved_virt (group_at i (nat dp) s)"
    using assms(1,4) by (simp add: group_at_def drop_allocated_def)
  then have "length ids \<le> num_to_reserve (group_at i (nat dp) ?s)"
    using num_to_reserve_wraps [of "group_at i (nat dp) ?s"] assms(5-7) by simp
  then have "min (num_to_reserve (group_at i (nat dp) ?s)) (length ids) = length ids" by simp
  then have "free_begin i dp ids s = Some ([], update_group i (nat dp) (push_reserved ids) ?s)"
    using assms(1-3) by (simp add: free_begin_def Let_def del: min.absorb2)
  moreover have "reserved_virt (group_at i (nat dp) (update_group i (nat dp) (push_reserved ids) ?s)) = reserved_virt (group_at i (nat dp) s) @ ids"
    using assms(1,4) by (simp add: group_at_def push_reserved_def drop_allocated_def)
  ultimately show ?thesis by blast
qed

text \<open>A group with 33 reserved pages and one allocated page.\<close>

definition run_crowded :: page_state where
  "run_crowded = update_group ''m'' 0 (\<lambda>g. \<lparr>num_free_virt = 33, free_virt = [], reserved_virt = [0..<33], allocated_virt = [33]\<rparr>)
     (snd (the (register_model ''m'' 1 (page_init 2 68 1 1 True page_empty))))"

lemma reserve_limit_wraps_witness: "\<exists>s'. free_begin ''m'' 0 [33] run_crowded = Some ([], s') \<and> length (reserved_virt (group_at ''m'' 0 s')) = 34"
proof -
  have "\<not> Option.is_none (ps_models run_crowded ''m'')" "\<not> ms_sleeping (the (ps_models run_crowded ''m''))"
    "0 < length (ms_groups (the (ps_models run_crowded ''m'')))" by code_simp+
  then obtain m where m: "ps_models run_crowded ''m'' = Some m" "\<not> ms_sleeping m" "nat 0 < length (ms_groups m)"
    by (metis Option.is_none_def option.collapse nat_zero_as_int)
  have l: "length (reserved_virt (group_at ''m'' 0 run_crowded)) = 33" "max_reserved_pages = 32" "valid_rank 0 run_crowded" by code_simp+
  have "nat 0 = 0" by simp
  from reserve_limit_wraps [OF m(1,2) l(3) m(3), of "[33]", unfolded this l(1,2)]
  obtain s' where "free_begin ''m'' 0 [33] run_crowded = Some ([], s')" "reserved_virt (group_at ''m'' 0 s') = reserved_virt (group_at ''m'' 0 run_crowded) @ [33]" by auto
  then show ?thesis using l(1) by auto
qed

section \<open>Witnesses\<close>

lemma run_one_model: "\<exists>m. ps_models run_one ''m'' = Some m \<and> \<not> ms_sleeping m \<and> group_at ''m'' 0 run_one = ms_groups m ! 0 \<and> ms_total_virt m = 10 \<and> ms_ppv m = 2"
proof -
  have "\<not> Option.is_none (ps_models run_one ''m'')" "\<not> ms_sleeping (the (ps_models run_one ''m''))"
    "ms_total_virt (the (ps_models run_one ''m'')) = 10" "ms_ppv (the (ps_models run_one ''m'')) = 2" by code_simp+
  then show ?thesis by (auto simp: Option.is_none_def group_at_def)
qed

lemma pages_conserved_witness: "num_free_virt (group_at ''m'' 0 run_one) = 9 \<and> allocated_virt (group_at ''m'' 0 run_one) = [0]"
proof -
  obtain m where m: "ps_models run_one ''m'' = Some m" "group_at ''m'' 0 run_one = ms_groups m ! 0" using run_one_model by blast
  have dp: "0 < ps_dp_size run_one" by code_simp
  have "length (free_virt (group_at ''m'' 0 run_one)) = 9" "reserved_virt (group_at ''m'' 0 run_one) = []"
    "allocated_virt (group_at ''m'' 0 run_one) = [0]" by code_simp+
  then show ?thesis using pages_conserved [OF run_one_reach m(1) dp] m(2) by simp
qed

lemma pages_bounded_witness: "ps_used run_both ! 0 \<le> 20"
proof -
  have "ps_total run_both = 20" "ps_world run_both = 1" by code_simp+
  then show ?thesis using pages_bounded [OF run_both_reach] by simp
qed


lemma page_accounting_exact_witness: "kv_demand run_one 0 = 2"
proof -
  have "kv_step (run_registered, {#}) (run_popped, {#Map_Task ''m'' 0 0 2#})" using kv_alloc_map [OF run_popped_eq] by simp
  moreover have "kv_step (run_popped, {#Map_Task ''m'' 0 0 2#}) (run_mapped, {#Trigger_Task ''m'' 0 0#})"
    using kv_mapped [of run_popped "''m''" 0 0 2 "{#}" True] by (simp add: run_mapped_def)
  moreover have "kv_step (run_mapped, {#Trigger_Task ''m'' 0 0#}) (alloc_trigger run_mapped, {#Record_Task ''m'' 0 0#})"
    using kv_trigger [of run_mapped "''m''" 0 0 "{#}"] by simp
  moreover have "kv_step (alloc_trigger run_mapped, {#Record_Task ''m'' 0 0#}) (run_one, {#})"
    using kv_record [of "alloc_trigger run_mapped" "''m''" 0 0 "{#}"] by (simp add: run_one_def run_mapped_def)
  ultimately have run: "kv_step\<^sup>*\<^sup>* (run_registered, {#}) (run_one, {#})" by (meson converse_rtranclp_into_rtranclp rtranclp.rtrancl_refl)
  have free: "length (free_virt (ms_groups m ! dp)) = ms_total_virt m"
    if "ps_models run_registered i = Some m" "dp < ps_dp_size run_registered" for i m dp
  proof -
    have "ps_dp_size run_registered = 1" "length (free_virt (ms_groups (the (ps_models run_registered ''m'')) ! 0)) = 10"
      "ms_total_virt (the (ps_models run_registered ''m'')) = 10" by code_simp+
    moreover have "i = ''m''" using that(1)
      by (simp add: run_registered_def register_model_def page_init_def page_empty_def Let_def split: if_splits)
    ultimately show ?thesis using that by auto
  qed
  have "ps_world run_one = 1" "ps_used run_one ! 0 = 2" "ps_used run_registered ! 0 = 0" by code_simp+
  with page_accounting_exact [OF run_registered_reach run, of 0] free show ?thesis by simp
qed

end
