(* ===== verification/Xtensor_Blocks.thy ===== *)
theory Xtensor_Blocks imports Virt_Page "HOL-Library.AList" "HOL-Library.Multiset" begin

text \<open>
  The block manager over virtual pages, \<open>core/framework/xtensor/xtensor_block_manager_impl.{h,cpp}\<close>.  Blocks are cut out of
  virtual pages that the manager asks of the page allocator; the allocator's calls are arguments, with the laws of
  the locale \<open>page_source\<close>, which \<open>Page_Source\<close> shows of the allocator.  Each operation holds the manager's mutex and is
  one function.  The order in which a hash map lists its keys is the argument \<open>order\<close>.

  \<open>None\<close> is a failed \<open>CHECK\<close>, a \<open>LOG(FATAL)\<close> or the use of a counter that was deleted; an exception is \<open>Inl\<close>.
\<close>

section \<open>State\<close>

text \<open>What \<open>alloc_kv_cache_page\<close> gives: a page, a null pointer when the page cannot be mapped, or an exception.\<close>

datatype page_result = Page_Given nat | Page_Null | Page_Raised string

type_synonym held_pages = "(nat \<times> virt_page) list"

record xtensor_blocks =
  xb_num_blocks :: nat
  xb_block_size :: nat
  xb_page_size :: nat
  xb_mem :: nat
  xb_num_avail :: nat
  xb_avail :: held_pages
  xb_full :: held_pages
  xb_reserved :: "nat list"
  xb_padding :: "nat option"
  xb_refs :: "nat \<Rightarrow> nat"

definition xb_create :: "nat \<Rightarrow> nat \<Rightarrow> nat \<Rightarrow> nat \<Rightarrow> xtensor_blocks" where
  "xb_create num_blocks block_size mem page_size =
    \<lparr>xb_num_blocks = num_blocks, xb_block_size = block_size, xb_page_size = page_size, xb_mem = mem, xb_num_avail = 0,
     xb_avail = [], xb_full = [], xb_reserved = [], xb_padding = None, xb_refs = (\<lambda>_. 0)\<rparr>"

section \<open>Allocation\<close>

text \<open>A page with free blocks: the first one of \<open>avail_pages_\<close>, or a new one, which is cut into blocks.  \<open>ps\<close> is the page size
  of the allocator, which makes the page.\<close>

definition pick_page :: "(nat list \<Rightarrow> nat list) \<Rightarrow> nat \<Rightarrow> ('s \<Rightarrow> (page_result \<times> 's) option) \<Rightarrow> xtensor_blocks \<Rightarrow> 's \<Rightarrow>
    (page_result \<times> xtensor_blocks \<times> 's) option" where
  "pick_page order ps alloc b s =
    (if xb_avail b \<noteq> [] then Some (Page_Given (hd (order (map fst (xb_avail b)))), b, s)
     else case alloc s of
       None \<Rightarrow> None
     | Some (r, s') \<Rightarrow> (case r of
         Page_Given p \<Rightarrow> (case vp_init (xb_mem b) (new_virt_page p ps) of
             None \<Rightarrow> None
           | Some v \<Rightarrow> Some (r, b\<lparr>xb_num_avail := xb_num_avail b + length (vp_free_list v),
                                  xb_avail := AList.update p v (xb_avail b)\<rparr>, s'))
       | _ \<Rightarrow> Some (r, b, s')))"

definition take_from_page :: "nat \<Rightarrow> nat \<Rightarrow> xtensor_blocks \<Rightarrow> (nat list \<times> xtensor_blocks) option" where
  "take_from_page p n b = (case map_of (xb_avail b) p of
     None \<Rightarrow> None
   | Some v \<Rightarrow>
       let k = min (length (vp_free_list v)) n in
       (case vp_alloc k v of
          None \<Rightarrow> None
        | Some (ids, v') \<Rightarrow>
            Some (ids, if vp_full v' = Some True
              then b\<lparr>xb_avail := AList.delete p (xb_avail b), xb_full := AList.update p v' (xb_full b), xb_num_avail := xb_num_avail b - k\<rparr>
              else b\<lparr>xb_avail := AList.update p v' (xb_avail b), xb_num_avail := xb_num_avail b - k\<rparr>)))"

text \<open>The blocks of a page that is not full are at least one.\<close>

lemma take_from_page_progress: "take_from_page p n b = Some (ids, b') \<Longrightarrow> 0 < n \<Longrightarrow> ids \<noteq> []"
  by (auto simp: take_from_page_def vp_alloc_def vp_full_def Let_def split: option.splits if_splits)

text \<open>The loop of \<open>alloc_internal\<close>.  An exception loses the blocks taken so far, a null page ends the loop with them.\<close>

function xb_alloc_loop :: "(nat list \<Rightarrow> nat list) \<Rightarrow> nat \<Rightarrow> ('s \<Rightarrow> (page_result \<times> 's) option) \<Rightarrow> nat \<Rightarrow> xtensor_blocks \<Rightarrow> 's \<Rightarrow>
    nat list \<Rightarrow> ((string + nat list) \<times> xtensor_blocks \<times> 's) option" where
  "xb_alloc_loop order ps alloc n b s acc =
    (if n = 0 then Some (Inr acc, b, s)
     else case pick_page order ps alloc b s of
       None \<Rightarrow> None
     | Some (r, b1, s1) \<Rightarrow> (case r of
         Page_Raised e \<Rightarrow> Some (Inl e, b1, s1)
       | Page_Null \<Rightarrow> Some (Inr acc, b1, s1)
       | Page_Given p \<Rightarrow> (case take_from_page p n b1 of
             None \<Rightarrow> None
           | Some (ids, b2) \<Rightarrow> xb_alloc_loop order ps alloc (n - length ids) b2 s1 (acc @ ids))))"
  by pat_completeness auto

termination
  by (relation "measure (\<lambda>(order, ps, alloc, n, b, s, acc). n)") (auto dest!: take_from_page_progress)

declare xb_alloc_loop.simps [simp del]

definition alloc_internal :: "(nat list \<Rightarrow> nat list) \<Rightarrow> nat \<Rightarrow> ('s \<Rightarrow> (page_result \<times> 's) option) \<Rightarrow> nat \<Rightarrow> xtensor_blocks \<Rightarrow> 's \<Rightarrow>
    ((string + nat list) \<times> xtensor_blocks \<times> 's) option" where
  "alloc_internal order ps alloc n b s =
    (let k = min (length (xb_reserved b)) n in
     xb_alloc_loop order ps alloc (n - k) (b\<lparr>xb_reserved := drop k (xb_reserved b)\<rparr>) s (take k (xb_reserved b)))"

text \<open>The constructor of a block gives it a counter of one.\<close>

definition xb_allocate :: "(nat list \<Rightarrow> nat list) \<Rightarrow> nat \<Rightarrow> ('s \<Rightarrow> (page_result \<times> 's) option) \<Rightarrow> nat \<Rightarrow> xtensor_blocks \<Rightarrow> 's \<Rightarrow>
    ((string + nat list) \<times> xtensor_blocks \<times> 's) option" where
  "xb_allocate order ps alloc n b s = (case alloc_internal order ps alloc n b s of
     Some (Inr ids, b', s') \<Rightarrow> Some (Inr ids, b'\<lparr>xb_refs := fold (\<lambda>i r. r(i := 1)) ids (xb_refs b')\<rparr>, s')
   | r \<Rightarrow> r)"

definition reserve_xtensor_padding_blocks :: "(nat list \<Rightarrow> nat list) \<Rightarrow> nat \<Rightarrow> ('s \<Rightarrow> (page_result \<times> 's) option) \<Rightarrow> xtensor_blocks \<Rightarrow> 's \<Rightarrow>
    ((string + nat list) \<times> xtensor_blocks \<times> 's) option" where
  "reserve_xtensor_padding_blocks order ps alloc b s = (case alloc_internal order ps alloc 1 b s of
     Some (Inr ids, b', s') \<Rightarrow> if ids = [] \<or> hd ids \<noteq> 0 then None else Some (Inr ids, b'\<lparr>xb_padding := Some (hd ids)\<rparr>, s')
   | r \<Rightarrow> r)"

section \<open>Release\<close>

text \<open>The blocks of one page go back to it; the flag tells that the page is empty now and was dropped.  A page that is not held is
  skipped.\<close>

definition return_to_page :: "nat \<Rightarrow> nat list \<Rightarrow> xtensor_blocks \<Rightarrow> (bool \<times> xtensor_blocks) option" where
  "return_to_page p ids b =
    (case map_of (xb_full b @ xb_avail b) p of
       None \<Rightarrow> Some (False, b)
     | Some v \<Rightarrow> (case vp_free_batch ids v of
         None \<Rightarrow> None
       | Some v' \<Rightarrow>
           let was_full = p \<in> fst ` set (xb_full b); n = xb_num_avail b + length ids in
           if vp_is_empty v' = Some True
           then Some (True, if was_full
             then b\<lparr>xb_num_avail := n - length (vp_free_list v'), xb_full := AList.delete p (xb_full b)\<rparr>
             else b\<lparr>xb_num_avail := n - length (vp_free_list v'), xb_avail := AList.delete p (xb_avail b)\<rparr>)
           else Some (False, if was_full
             then b\<lparr>xb_num_avail := n, xb_avail := AList.update p v' (xb_avail b), xb_full := AList.delete p (xb_full b)\<rparr>
             else b\<lparr>xb_num_avail := n, xb_avail := AList.update p v' (xb_avail b)\<rparr>)))"

fun return_pages :: "(nat \<times> nat list) list \<Rightarrow> xtensor_blocks \<Rightarrow> (nat list \<times> xtensor_blocks) option" where
  "return_pages [] b = Some ([], b)"
| "return_pages ((p, ids) # gs) b = (case return_to_page p ids b of
     None \<Rightarrow> None
   | Some (dropped, b1) \<Rightarrow> map_option (\<lambda>(ps, b2). (if dropped then p # ps else ps, b2)) (return_pages gs b1))"

text \<open>\<open>idx_dict\<close>, in the order in which the hash map lists it.\<close>

definition index_groups :: "(nat list \<Rightarrow> nat list) \<Rightarrow> nat \<Rightarrow> nat \<Rightarrow> nat list \<Rightarrow> (nat \<times> nat list) list" where
  "index_groups order ps mem ids =
    map (\<lambda>p. (p, filter (\<lambda>i. get_virt_page_id ps i mem = p) ids)) (order (remdups (map (\<lambda>i. get_virt_page_id ps i mem) ids)))"

definition free_blocks :: "(nat list \<Rightarrow> nat list) \<Rightarrow> nat \<Rightarrow> (nat list \<Rightarrow> 's \<Rightarrow> 's option) \<Rightarrow> nat list \<Rightarrow> xtensor_blocks \<Rightarrow> 's \<Rightarrow>
    (xtensor_blocks \<times> 's) option" where
  "free_blocks order ps free ids b s =
    (if ids = [] then Some (b, s)
     else case return_pages (index_groups order ps (xb_mem b) ids) b of
       None \<Rightarrow> None
     | Some (pages, b1) \<Rightarrow> if pages = [] then Some (b1, s) else map_option (Pair b1) (free pages s))"

definition xb_incr_ref :: "nat \<Rightarrow> xtensor_blocks \<Rightarrow> xtensor_blocks" where
  "xb_incr_ref i b = b\<lparr>xb_refs := (xb_refs b)(i := xb_refs b i + 1)\<rparr>"

definition xb_free :: "(nat list \<Rightarrow> nat list) \<Rightarrow> nat \<Rightarrow> (nat list \<Rightarrow> 's \<Rightarrow> 's option) \<Rightarrow> nat \<Rightarrow> xtensor_blocks \<Rightarrow> 's \<Rightarrow>
    (xtensor_blocks \<times> 's) option" where
  "xb_free order ps free i b s =
    (if i = 0 \<or> xb_refs b i = 0 then None
     else let b1 = b\<lparr>xb_refs := (xb_refs b)(i := xb_refs b i - 1)\<rparr> in
       if xb_refs b1 i = 0 then free_blocks order ps free [i] b1 s else Some (b1, s))"

section \<open>Sizes and reservation\<close>

text \<open>\<open>stock\<close> is the number of reserved virtual pages of the allocator.\<close>

definition available_size :: "('s \<Rightarrow> nat) \<Rightarrow> xtensor_blocks \<Rightarrow> 's \<Rightarrow> nat" where
  "available_size stock b s = xb_num_avail b + length (xb_reserved b) + stock s * get_num_blocks (xb_page_size b) (xb_mem b)"

definition get_num_allocated_blocks :: "xtensor_blocks \<Rightarrow> nat" where
  "get_num_allocated_blocks b =
    (let n = get_num_blocks (xb_page_size b) (xb_mem b) in
     length (xb_full b) * n + (length (xb_avail b) * n - xb_num_avail b) + length (xb_reserved b))"

definition try_to_reserve :: "(nat list \<Rightarrow> nat list) \<Rightarrow> nat \<Rightarrow> ('s \<Rightarrow> (page_result \<times> 's) option) \<Rightarrow> ('s \<Rightarrow> nat) \<Rightarrow> nat \<Rightarrow> xtensor_blocks \<Rightarrow> 's \<Rightarrow>
    ((string + bool) \<times> xtensor_blocks \<times> 's) option" where
  "try_to_reserve order ps alloc stock n b s =
    (if available_size stock b s < n then Some (Inr False, b, s)
     else case alloc_internal order ps alloc n b s of
       None \<Rightarrow> None
     | Some (Inl e, b', s') \<Rightarrow> Some (Inl e, b', s')
     | Some (Inr ids, b', s') \<Rightarrow>
         if ids = [] then Some (Inr False, b', s') else Some (Inr True, b'\<lparr>xb_reserved := xb_reserved b' @ ids\<rparr>, s'))"

definition free_reserved :: "(nat list \<Rightarrow> nat list) \<Rightarrow> nat \<Rightarrow> (nat list \<Rightarrow> 's \<Rightarrow> 's option) \<Rightarrow> xtensor_blocks \<Rightarrow> 's \<Rightarrow>
    (xtensor_blocks \<times> 's) option" where
  "free_reserved order ps free b s = free_blocks order ps free (xb_reserved b) (b\<lparr>xb_reserved := []\<rparr>) s"

text \<open>\<open>held_by_seq\<close> is the number of blocks that the sequence has.  The inner \<open>None\<close> is \<open>std::nullopt\<close>; the blocks of a short
  allocation are dropped on the way out.\<close>

fun drop_blocks :: "(nat list \<Rightarrow> nat list) \<Rightarrow> nat \<Rightarrow> (nat list \<Rightarrow> 's \<Rightarrow> 's option) \<Rightarrow> nat list \<Rightarrow> xtensor_blocks \<Rightarrow> 's \<Rightarrow>
    (xtensor_blocks \<times> 's) option" where
  "drop_blocks order ps free [] b s = Some (b, s)"
| "drop_blocks order ps free (i # is) b s = (case xb_free order ps free i b s of
     None \<Rightarrow> None
   | Some (b', s') \<Rightarrow> drop_blocks order ps free is b' s')"

definition xb_allocate_for_sequence :: "(nat list \<Rightarrow> nat list) \<Rightarrow> nat \<Rightarrow> ('s \<Rightarrow> (page_result \<times> 's) option) \<Rightarrow> (nat list \<Rightarrow> 's \<Rightarrow> 's option) \<Rightarrow>
    nat \<Rightarrow> nat \<Rightarrow> xtensor_blocks \<Rightarrow> 's \<Rightarrow> ((string + nat list option) \<times> xtensor_blocks \<times> 's) option" where
  "xb_allocate_for_sequence order ps alloc free held_by_seq num_tokens b s =
    (let bs = xb_block_size b in
     if bs = 0 then Some (Inr (Some []), b, s)
     else let needed = (num_tokens + bs - 1) div bs in
       if needed \<le> held_by_seq then Some (Inr (Some []), b, s)
       else case xb_allocate order ps alloc (needed - held_by_seq) b s of
         None \<Rightarrow> None
       | Some (Inl e, b', s') \<Rightarrow> Some (Inl e, b', s')
       | Some (Inr ids, b', s') \<Rightarrow>
           if length ids = needed - held_by_seq then Some (Inr (Some ids), b', s')
           else map_option (\<lambda>(b'', s''). (Inr None, b'', s'')) (drop_blocks order ps free ids b' s'))"

text \<open>The destructor, while the allocator is initialised: all pages go back, whatever blocks are still in use.\<close>

definition xb_destroy :: "(nat list \<Rightarrow> nat list) \<Rightarrow> (nat list \<Rightarrow> 's \<Rightarrow> 's option) \<Rightarrow> xtensor_blocks \<Rightarrow> 's \<Rightarrow> 's option" where
  "xb_destroy order free b s =
    (let pages = order (map fst (xb_avail b)) @ order (map fst (xb_full b)) in
     if pages = [] then Some s else free pages s)"

end
