(* ===== verification/Xtensor_Pages.thy ===== *)
theory Xtensor_Pages imports Xtensor_Blocks begin

text \<open>
  The contract of the page allocator towards the block manager and what the manager makes of it: the locale
  \<open>page_source\<close>, the invariant of the pages that a manager holds, and how allocation and release keep it.
\<close>

section \<open>Geometry\<close>

text \<open>Every page holds at least one block.\<close>

definition page_geometry :: "nat \<Rightarrow> nat \<Rightarrow> bool" where
  "page_geometry ps mem \<longleftrightarrow> 0 < mem \<and> 0 < ps \<and> (mem dvd ps \<or> 2 * mem \<le> ps)"

definition page_blocks :: "nat \<Rightarrow> nat \<Rightarrow> nat \<Rightarrow> nat list" where
  "page_blocks ps mem p = (case get_block_range p ps mem of (a, c) \<Rightarrow> [a..<c])"

lemma page_blocks_range: "page_blocks ps mem p = [fst (get_block_range p ps mem)..<snd (get_block_range p ps mem)]"
  by (simp add: page_blocks_def split: prod.split)

lemma distinct_page_blocks [simp]: "distinct (page_blocks ps mem p)"
  by (simp add: page_blocks_range)

lemma block_in_page: "0 < mem \<Longrightarrow> i \<in> set (page_blocks ps mem p) \<Longrightarrow> get_virt_page_id ps i mem = p"
  using block_page [of mem p ps "fst (get_block_range p ps mem)" "snd (get_block_range p ps mem)" i] by (simp add: page_blocks_range)

lemma page_blocks_disjoint: "0 < mem \<Longrightarrow> p \<noteq> q \<Longrightarrow> set (page_blocks ps mem p) \<inter> set (page_blocks ps mem q) = {}"
  using block_in_page by blast

lemma page_blocks_nonempty:
  assumes "page_geometry ps mem"
  shows "page_blocks ps mem p \<noteq> []"
proof -
  obtain a c where r: "get_block_range p ps mem = (a, c)" by fastforce
  have "0 < mem" using assms by (simp add: page_geometry_def)
  note count = block_count [OF this r]
  have "0 < c - a"
  proof (cases "mem dvd ps")
    case True
    then have "0 < ps div mem" using assms by (auto simp: page_geometry_def dvd_imp_le intro: div_greater_zero_iff [THEN iffD2])
    then show ?thesis using count assms True by (simp add: page_geometry_def get_num_blocks_def)
  next
    case False
    then have "2 \<le> ps div mem" using assms by (simp add: page_geometry_def less_eq_div_iff_mult_less_eq)
    then show ?thesis using count unfolding get_num_blocks_def by linarith
  qed
  then show ?thesis by (simp add: page_blocks_def r)
qed

lemma page_blocks_number: "0 < mem \<Longrightarrow> mem dvd ps \<Longrightarrow> length (page_blocks ps mem p) = get_num_blocks ps mem"
  using block_count [of mem p ps "fst (get_block_range p ps mem)" "snd (get_block_range p ps mem)"] by (simp add: page_blocks_range)

section \<open>The invariant of the held pages\<close>

text \<open>\<open>U\<close> is the set of the blocks in use: the free list of a held page has its other blocks.\<close>

definition page_ok :: "nat \<Rightarrow> nat \<Rightarrow> nat set \<Rightarrow> nat \<Rightarrow> virt_page \<Rightarrow> bool" where
  "page_ok ps mem U p v \<longleftrightarrow> vp_range v \<noteq> None \<and> vp_num_kv v = length (page_blocks ps mem p)
     \<and> distinct (vp_free_list v) \<and> set (vp_free_list v) = set (page_blocks ps mem p) - U"

definition pages_ok :: "nat \<Rightarrow> nat set \<Rightarrow> xtensor_blocks \<Rightarrow> nat set \<Rightarrow> bool" where
  "pages_ok ps U b H \<longleftrightarrow> page_geometry ps (xb_mem b)
     \<and> distinct (map fst (xb_avail b @ xb_full b)) \<and> fst ` set (xb_avail b @ xb_full b) = H
     \<and> (\<forall>(p, v) \<in> set (xb_avail b). page_ok ps (xb_mem b) U p v \<and> vp_free_list v \<noteq> [])
     \<and> (\<forall>(p, v) \<in> set (xb_full b). page_ok ps (xb_mem b) U p v \<and> vp_free_list v = [])
     \<and> xb_num_avail b = (\<Sum>(p, v)\<leftarrow>xb_avail b. length (vp_free_list v))
     \<and> U \<subseteq> (\<Union>p\<in>H. set (page_blocks ps (xb_mem b) p))"

lemma pages_okI:
  assumes "page_geometry ps (xb_mem b)" "distinct (map fst (xb_avail b @ xb_full b))" "fst ` set (xb_avail b @ xb_full b) = H"
    "\<And>p v. (p, v) \<in> set (xb_avail b) \<Longrightarrow> page_ok ps (xb_mem b) U p v \<and> vp_free_list v \<noteq> []"
    "\<And>p v. (p, v) \<in> set (xb_full b) \<Longrightarrow> page_ok ps (xb_mem b) U p v \<and> vp_free_list v = []"
    "xb_num_avail b = (\<Sum>(p, v)\<leftarrow>xb_avail b. length (vp_free_list v))"
    "U \<subseteq> (\<Union>p\<in>H. set (page_blocks ps (xb_mem b) p))"
  shows "pages_ok ps U b H"
  using assms unfolding pages_ok_def by blast

lemma pages_okD:
  assumes "pages_ok ps U b H"
  shows "page_geometry ps (xb_mem b)" "0 < xb_mem b" "distinct (map fst (xb_avail b @ xb_full b))" "fst ` set (xb_avail b @ xb_full b) = H"
    "(p, v) \<in> set (xb_avail b) \<Longrightarrow> page_ok ps (xb_mem b) U p v" "(p, v) \<in> set (xb_avail b) \<Longrightarrow> vp_free_list v \<noteq> []"
    "(p, v) \<in> set (xb_full b) \<Longrightarrow> page_ok ps (xb_mem b) U p v" "(p, v) \<in> set (xb_full b) \<Longrightarrow> vp_free_list v = []"
    "xb_num_avail b = (\<Sum>(p, v)\<leftarrow>xb_avail b. length (vp_free_list v))"
    "U \<subseteq> (\<Union>p\<in>H. set (page_blocks ps (xb_mem b) p))"
  using assms unfolding pages_ok_def page_geometry_def by blast+

text \<open>The lists of pages are maps with distinct keys; updating and deleting one key of them.\<close>

lemma update_fresh: "p \<notin> fst ` set xs \<Longrightarrow> AList.update p v xs = xs @ [(p, v)]"
  by (induction xs) auto

lemma update_present:
  assumes "distinct (map fst xs)" "map_of xs p = Some w"
  shows "map fst (AList.update p v xs) = map fst xs" "set (AList.update p v xs) = insert (p, v) (set xs - {(p, w)})"
    "(\<Sum>(q, u)\<leftarrow>AList.update p v xs. f u :: nat) + f w = (\<Sum>(q, u)\<leftarrow>xs. f u) + f v"
proof -
  have *: "map fst (AList.update p v xs) = map fst xs \<and> set (AList.update p v xs) = insert (p, v) (set xs - {(p, w)})
    \<and> (\<Sum>(q, u)\<leftarrow>AList.update p v xs. f u :: nat) + f w = (\<Sum>(q, u)\<leftarrow>xs. f u) + f v"
    using assms
  proof (induction xs)
    case (Cons x xs)
    obtain q u where x: "x = (q, u)" by fastforce
    show ?case
    proof (cases "q = p")
      case True
      then show ?thesis using Cons x by (auto intro: rev_image_eqI)
    next
      case False
      then show ?thesis using Cons x by (auto simp: add.assoc)
    qed
  qed simp
  show "map fst (AList.update p v xs) = map fst xs" "set (AList.update p v xs) = insert (p, v) (set xs - {(p, w)})"
    "(\<Sum>(q, u)\<leftarrow>AList.update p v xs. f u :: nat) + f w = (\<Sum>(q, u)\<leftarrow>xs. f u) + f v" using * by blast+
qed

lemma delete_present:
  assumes "distinct (map fst xs)" "map_of xs p = Some w"
  shows "fst ` set (AList.delete p xs) = fst ` set xs - {p}" "set (AList.delete p xs) = set xs - {(p, w)}"
    "distinct (map fst (AList.delete p xs))"
    "(\<Sum>(q, u)\<leftarrow>AList.delete p xs. f u :: nat) + f w = (\<Sum>(q, u)\<leftarrow>xs. f u)" "Suc (length (AList.delete p xs)) = length xs"
proof -
  have *: "set (AList.delete p xs) = set xs - {(p, w)} \<and> (\<Sum>(q, u)\<leftarrow>AList.delete p xs. f u :: nat) + f w = (\<Sum>(q, u)\<leftarrow>xs. f u)
    \<and> Suc (length (AList.delete p xs)) = length xs"
    using assms
  proof (induction xs)
    case (Cons x xs)
    obtain q u where x: "x = (q, u)" by fastforce
    show ?case
    proof (cases "q = p")
      case True
      then have "AList.delete p xs = xs" using Cons.prems x by (intro delete_id) auto
      then show ?thesis using Cons.prems x True by (auto intro: rev_image_eqI)
    next
      case False
      then show ?thesis using Cons x by (auto simp: add.assoc)
    qed
  qed simp
  show "set (AList.delete p xs) = set xs - {(p, w)}" "(\<Sum>(q, u)\<leftarrow>AList.delete p xs. f u :: nat) + f w = (\<Sum>(q, u)\<leftarrow>xs. f u)"
    "Suc (length (AList.delete p xs)) = length xs" using * by blast+
  show "fst ` set (AList.delete p xs) = fst ` set xs - {p}"
    by (simp only: list.set_map [symmetric] delete_keys set_removeAll)
  show "distinct (map fst (AList.delete p xs))" using assms(1) by (rule distinct_delete)
qed


text \<open>Everything but the pages.\<close>

definition xb_frame :: "xtensor_blocks \<Rightarrow> (nat \<times> nat \<times> nat \<times> nat) \<times> nat list \<times> nat option \<times> (nat \<Rightarrow> nat)" where
  "xb_frame b = ((xb_num_blocks b, xb_block_size b, xb_page_size b, xb_mem b), xb_reserved b, xb_padding b, xb_refs b)"

lemma page_ok_cong: "page_ok ps mem U p v \<Longrightarrow> U \<inter> set (page_blocks ps mem p) = U' \<inter> set (page_blocks ps mem p) \<Longrightarrow> page_ok ps mem U' p v"
  unfolding page_ok_def by blast

lemma pages_ok_keep: "pages_ok ps U b H \<Longrightarrow> xb_mem b' = xb_mem b \<Longrightarrow> xb_avail b' = xb_avail b \<Longrightarrow> xb_full b' = xb_full b \<Longrightarrow>
    xb_num_avail b' = xb_num_avail b \<Longrightarrow> pages_ok ps U b' H"
  unfolding pages_ok_def by simp

lemma fresh_page_ok:
  assumes "vp_init mem (new_virt_page p ps) = Some v" "U \<inter> set (page_blocks ps mem p) = {}"
  shows "page_ok ps mem U p v" "vp_free_list v = page_blocks ps mem p"
  using assms by (auto simp: vp_init_def new_virt_page_def page_ok_def page_blocks_def Let_def split: prod.splits if_splits)

lemma add_page_ok:
  assumes "pages_ok ps U b H" "p \<notin> H" "vp_init (xb_mem b) (new_virt_page p ps) = Some v"
  shows "pages_ok ps U (b\<lparr>xb_num_avail := xb_num_avail b + length (vp_free_list v), xb_avail := AList.update p v (xb_avail b)\<rparr>) (insert p H)"
proof -
  note I = pages_okD [OF assms(1)]
  have out: "p \<notin> fst ` set (xb_avail b)" "p \<notin> fst ` set (xb_full b)" using assms(2) I(4) by auto
  have "set (page_blocks ps (xb_mem b) p) \<inter> set (page_blocks ps (xb_mem b) q) = {}" if "q \<in> H" for q
    using that assms(2) by (intro page_blocks_disjoint I(2)) auto
  then have "U \<inter> set (page_blocks ps (xb_mem b) p) = {}" using I(10) by blast
  note v = fresh_page_ok [OF assms(3) this]
  have ne: "vp_free_list v \<noteq> []" using v(2) page_blocks_nonempty [OF I(1)] by simp
  show ?thesis
  proof (rule pages_okI)
    show "fst ` set (xb_avail (b\<lparr>xb_num_avail := xb_num_avail b + length (vp_free_list v), xb_avail := AList.update p v (xb_avail b)\<rparr>)
        @ xb_full (b\<lparr>xb_num_avail := xb_num_avail b + length (vp_free_list v), xb_avail := AList.update p v (xb_avail b)\<rparr>)) = insert p H"
      using I(4) out by (simp add: update_fresh image_Un)
  qed (use I v(1) ne out in \<open>auto simp: update_fresh\<close>)
qed

lemma take_page_ok:
  assumes "pages_ok ps U b H" "p \<in> fst ` set (xb_avail b)" "take_from_page p n b = Some (ids, b')"
  shows "pages_ok ps (U \<union> set ids) b' H \<and> distinct ids \<and> set ids \<inter> U = {} \<and> length ids \<le> n
    \<and> xb_num_avail b = xb_num_avail b' + length ids \<and> xb_frame b' = xb_frame b"
proof -
  note I = pages_okD [OF assms(1)]
  obtain w where w: "map_of (xb_avail b) p = Some w" using assms(2) by (metis map_of_eq_None_iff not_None_eq)
  then have wm: "(p, w) \<in> set (xb_avail b)" by (rule map_of_SomeD)
  note ok = I(5) [OF wm]
  define k where "k = min (length (vp_free_list w)) n"
  define w' where "w' = w\<lparr>vp_free_list := drop k (vp_free_list w)\<rparr>"
  have alloc: "vp_alloc k w = Some (take k (vp_free_list w), w')"
    using assms(3) w by (auto simp: take_from_page_def Let_def vp_alloc_def k_def w'_def split: option.splits if_splits)
  have full: "vp_full w' = Some (drop k (vp_free_list w) = [])" using ok by (auto simp: vp_full_def w'_def page_ok_def)
  have step: "take_from_page p n b = Some (take k (vp_free_list w), if drop k (vp_free_list w) = []
      then b\<lparr>xb_avail := AList.delete p (xb_avail b), xb_full := AList.update p w' (xb_full b), xb_num_avail := xb_num_avail b - k\<rparr>
      else b\<lparr>xb_avail := AList.update p w' (xb_avail b), xb_num_avail := xb_num_avail b - k\<rparr>)"
    unfolding take_from_page_def w Let_def k_def [symmetric] option.case alloc prod.case full by simp
  then have ids: "ids = take k (vp_free_list w)" using assms(3) by simp
  have d: "distinct (vp_free_list w)" "set (vp_free_list w) = set (page_blocks ps (xb_mem b) p) - U" using ok by (simp_all add: page_ok_def)
  have inter: "set (take k (vp_free_list w)) \<inter> set (drop k (vp_free_list w)) = {}"
    using d(1) by (rule set_take_disj_set_drop_if_distinct) simp
  have "set (vp_free_list w) = set (take k (vp_free_list w)) \<union> set (drop k (vp_free_list w))" by (metis append_take_drop_id set_append)
  then have left: "set (drop k (vp_free_list w)) = set (page_blocks ps (xb_mem b) p) - (U \<union> set ids)"
    using inter d(2) unfolding ids by blast
  have ok': "page_ok ps (xb_mem b) (U \<union> set ids) p w'" using ok left d(1) by (simp add: page_ok_def w'_def)
  have sub: "set ids \<subseteq> set (page_blocks ps (xb_mem b) p)" using set_take_subset [of k "vp_free_list w"] d(2) unfolding ids by blast
  have pH: "p \<in> H" using I(4) assms(2) by auto
  have other: "page_ok ps (xb_mem b) (U \<union> set ids) q v" if "page_ok ps (xb_mem b) U q v" "q \<noteq> p" for q v
  proof (rule page_ok_cong [OF that(1)])
    show "U \<inter> set (page_blocks ps (xb_mem b) q) = (U \<union> set ids) \<inter> set (page_blocks ps (xb_mem b) q)"
      using sub page_blocks_disjoint [OF I(2) that(2)] by blast
  qed
  have da: "distinct (map fst (xb_avail b))" and nf: "p \<notin> fst ` set (xb_full b)" using I(3) assms(2) by auto
  have only: "u = w" if "(p, u) \<in> set (xb_avail b)" for u using that da w by simp
  have av: "page_ok ps (xb_mem b) (U \<union> set ids) q v \<and> vp_free_list v \<noteq> []" if "(q, v) \<in> set (xb_avail b)" "(q, v) \<noteq> (p, w)" for q v
    using other [OF I(5) [OF that(1)]] I(6) [OF that(1)] only that by blast
  have fu: "page_ok ps (xb_mem b) (U \<union> set ids) q v \<and> vp_free_list v = []" if "(q, v) \<in> set (xb_full b)" for q v
    using other [OF I(7) [OF that]] I(8) [OF that] nf that by force
  have use: "U \<union> set ids \<subseteq> (\<Union>p\<in>H. set (page_blocks ps (xb_mem b) p))"
    using I(10) sub pH by blast
  have facts: "distinct ids" "set ids \<inter> U = {}" "length ids \<le> n" "length ids = k"
    using d set_take_subset [of k "vp_free_list w"] by (auto simp: ids k_def)
  show ?thesis
  proof (cases "drop k (vp_free_list w) = []")
    case True
    then have b': "b' = b\<lparr>xb_avail := AList.delete p (xb_avail b), xb_full := AList.update p w' (xb_full b), xb_num_avail := xb_num_avail b - k\<rparr>"
      using assms(3) step by simp
    note D = delete_present [OF da w]
    have len: "length (vp_free_list w) = k" using True by (simp add: k_def)
    have "pages_ok ps (U \<union> set ids) b' H"
    proof (rule pages_okI)
      show "distinct (map fst (xb_avail b' @ xb_full b'))" using I(3) nf D(1,3) by (auto simp: b' update_fresh)
      show "fst ` set (xb_avail b' @ xb_full b') = H" using I(4) D(1) nf assms(2) by (auto simp: b' update_fresh image_Un)
      show "xb_num_avail b' = (\<Sum>(p, v)\<leftarrow>xb_avail b'. length (vp_free_list v))" using I(9) D(4) [of "\<lambda>v. length (vp_free_list v)"] len by (simp add: b')
    qed (use I(1) av fu ok' True D(2) nf use in \<open>auto simp: b' update_fresh w'_def\<close>)
    then show ?thesis using facts D(4) [of "\<lambda>v. length (vp_free_list v)"] I(9) len by (simp add: b' xb_frame_def)
  next
    case False
    then have b': "b' = b\<lparr>xb_avail := AList.update p w' (xb_avail b), xb_num_avail := xb_num_avail b - k\<rparr>"
      using assms(3) step by simp
    note P = update_present [OF da w]
    have sum: "xb_num_avail b = (\<Sum>(p, v)\<leftarrow>AList.update p w' (xb_avail b). length (vp_free_list v)) + k"
      using I(9) P(3) [of "\<lambda>v. length (vp_free_list v)" w'] by (simp add: w'_def k_def)
    have "pages_ok ps (U \<union> set ids) b' H"
    proof (rule pages_okI)
      show "distinct (map fst (xb_avail b' @ xb_full b'))" using I(3) P(1) [of w'] by (simp add: b')
      show "fst ` set (xb_avail b' @ xb_full b') = H" using I(4) arg_cong [OF P(1) [of w'], of set] by (simp add: b' image_Un)
      show "xb_num_avail b' = (\<Sum>(p, v)\<leftarrow>xb_avail b'. length (vp_free_list v))" using sum by (simp add: b')
    qed (use I(1) av fu ok' False P(2) [of w'] use in \<open>auto simp: b' w'_def\<close>)
    then show ?thesis using facts sum by (simp add: b' xb_frame_def)
  qed
qed


lemma take_page_total:
  assumes "pages_ok ps U b H" "p \<in> fst ` set (xb_avail b)"
  shows "\<exists>ids b'. take_from_page p n b = Some (ids, b')"
proof -
  obtain w where w: "map_of (xb_avail b) p = Some w" using assms(2) by (metis map_of_eq_None_iff not_None_eq)
  then have "page_ok ps (xb_mem b) U p w" "vp_free_list w \<noteq> []" using pages_okD(5,6) [OF assms(1)] map_of_SomeD [OF w] by blast+
  then show ?thesis using w by (auto simp: take_from_page_def vp_alloc_def vp_full_def page_ok_def Let_def)
qed

section \<open>The contract of the allocator\<close>

text \<open>\<open>held s\<close> is the set of the pages that the allocator has given to this manager, \<open>stock s\<close> the number of the pages that it can
  give without mapping them.\<close>

locale page_source =
  fixes alloc :: "'s \<Rightarrow> (page_result \<times> 's) option" and free :: "nat list \<Rightarrow> 's \<Rightarrow> 's option"
    and held :: "'s \<Rightarrow> nat set" and stock :: "'s \<Rightarrow> nat" and good :: "'s \<Rightarrow> bool"
  assumes alloc_given: "good s \<Longrightarrow> alloc s = Some (Page_Given p, s') \<Longrightarrow> good s' \<and> p \<notin> held s \<and> held s' = insert p (held s)"
    and alloc_none: "good s \<Longrightarrow> alloc s = Some (r, s') \<Longrightarrow> (\<And>p. r \<noteq> Page_Given p) \<Longrightarrow> good s' \<and> held s' = held s"
    and alloc_total: "good s \<Longrightarrow> alloc s \<noteq> None"
    and alloc_stock: "good s \<Longrightarrow> 0 < stock s \<Longrightarrow> \<exists>p s'. alloc s = Some (Page_Given p, s') \<and> stock s' = stock s - 1"
    and free_law: "good s \<Longrightarrow> distinct ps \<Longrightarrow> set ps \<subseteq> held s \<Longrightarrow> ps \<noteq> [] \<Longrightarrow>
      \<exists>s'. free ps s = Some s' \<and> good s' \<and> held s' = held s - set ps"
begin

text \<open>A page that is picked is held and has free blocks.\<close>

lemma pick_page_ok:
  assumes "pages_ok ps U b (held s)" "good s" "\<And>ks. mset (order ks) = mset ks"
  shows "\<exists>r b1 s1. pick_page order ps alloc b s = Some (r, b1, s1) \<and> pages_ok ps U b1 (held s1) \<and> good s1 \<and> xb_frame b1 = xb_frame b
    \<and> (case r of Page_Given p \<Rightarrow> p \<in> fst ` set (xb_avail b1) | _ \<Rightarrow> True)"
proof (cases "xb_avail b = []")
  case False
  have "set (order (map fst (xb_avail b))) = fst ` set (xb_avail b)" using assms(3) by (metis list.set_map set_mset_mset)
  moreover have "order (map fst (xb_avail b)) \<noteq> []" using False assms(3) by (metis list.map_disc_iff mset_zero_iff)
  ultimately have "hd (order (map fst (xb_avail b))) \<in> fst ` set (xb_avail b)" using list.set_sel(1) by metis
  then show ?thesis using assms(1,2) False by (simp add: pick_page_def)
next
  case True
  obtain r s1 where a: "alloc s = Some (r, s1)" using alloc_total [OF assms(2)] by auto
  show ?thesis
  proof (cases r)
    case (Page_Given p)
    note g = alloc_given [OF assms(2) a [unfolded Page_Given]]
    have "page_geometry ps (xb_mem b)" using pages_okD(1) [OF assms(1)] .
    then have "vp_init (xb_mem b) (new_virt_page p ps) \<noteq> None" using page_blocks_nonempty [of ps "xb_mem b" p]
      by (auto simp: vp_init_def new_virt_page_def page_geometry_def page_blocks_def Let_def split: prod.splits)
    then obtain v where v: "vp_init (xb_mem b) (new_virt_page p ps) = Some v" by auto
    show ?thesis using add_page_ok [OF assms(1) _ v] g True a v Page_Given by (simp add: pick_page_def xb_frame_def)
  qed (use True a alloc_none [OF assms(2) a] assms(1) in \<open>simp_all add: pick_page_def\<close>)
qed

text \<open>The loop always returns; what it takes was not in use, and it takes all that is asked for unless it runs out of pages.\<close>

lemma alloc_loop_ok:
  assumes "pages_ok ps U b (held s)" "good s" "\<And>ks. mset (order ks) = mset ks"
  shows "\<exists>r b' s' ys. xb_alloc_loop order ps alloc n b s acc = Some (r, b', s') \<and> pages_ok ps (U \<union> set ys) b' (held s') \<and> good s'
    \<and> distinct ys \<and> set ys \<inter> U = {} \<and> length ys \<le> n \<and> xb_frame b' = xb_frame b \<and> (\<forall>xs. r = Inr xs \<longrightarrow> xs = acc @ ys)"
  using assms(1,2)
proof (induction n arbitrary: U b s acc rule: less_induct)
  case (less n)
  obtain r b1 s1 where pick: "pick_page order ps alloc b s = Some (r, b1, s1)" and P: "pages_ok ps U b1 (held s1)" "good s1" "xb_frame b1 = xb_frame b"
    "case r of Page_Given p \<Rightarrow> p \<in> fst ` set (xb_avail b1) | _ \<Rightarrow> True"
    using pick_page_ok [OF less.prems assms(3)] by blast
  show ?case
  proof (cases "n = 0")
    case True
    then show ?thesis using less.prems by (subst xb_alloc_loop.simps) (auto intro!: exI [of _ "[]"])
  next
    case False
    show ?thesis
    proof (cases r)
      case (Page_Given p)
      with P(4) have p: "p \<in> fst ` set (xb_avail b1)" by simp
      obtain ids b2 where t: "take_from_page p n b1 = Some (ids, b2)" using take_page_total [OF P(1) p] by blast
      note T = take_page_ok [OF P(1) p t]
      have "0 < length ids" using take_from_page_progress [OF t] False by simp
      then obtain r' b' s' ys where R: "xb_alloc_loop order ps alloc (n - length ids) b2 s1 (acc @ ids) = Some (r', b', s')"
        "pages_ok ps (U \<union> set ids \<union> set ys) b' (held s')" "good s'" "distinct ys" "set ys \<inter> (U \<union> set ids) = {}"
        "length ys \<le> n - length ids" "xb_frame b' = xb_frame b2" "\<forall>xs. r' = Inr xs \<longrightarrow> xs = (acc @ ids) @ ys"
        using less.IH [of "n - length ids" "U \<union> set ids" b2 s1 "acc @ ids"] T P(2) False by (auto simp: diff_less)
      have "xb_alloc_loop order ps alloc n b s acc = Some (r', b', s')"
        using R(1) False pick t Page_Given by (subst xb_alloc_loop.simps) simp
      then show ?thesis using R T P(3) by (intro exI [of _ r'] exI [of _ b'] exI [of _ s'] exI [of _ "ids @ ys"]) (auto simp: Un_assoc)
    qed (use P pick False in \<open>subst xb_alloc_loop.simps, auto intro!: exI [of _ "[]"]\<close>)+
  qed
qed

end

section \<open>Return of blocks\<close>

text \<open>The invariant of the held pages does not look at the order of the lists.  A page of which no block is in use can be dropped,
  and a page with free blocks can be put back.\<close>

lemma mset_update: "distinct (map fst xs) \<Longrightarrow> mset (AList.update p v xs) = add_mset (p, v) (mset (AList.delete p xs))"
proof (induction xs)
  case (Cons x xs)
  then show ?case by (cases x) auto
qed simp

lemma keys_delete: "fst ` set (AList.delete p xs) = fst ` set xs - {p}"
  by (simp only: list.set_map [symmetric] delete_keys set_removeAll)

lemma delete_mem: "distinct (map fst xs) \<Longrightarrow> (q, v) \<in> set (AList.delete p xs) \<Longrightarrow> (q, v) \<in> set xs \<and> q \<noteq> p"
  by (auto simp: AList.delete_eq)

lemma pages_ok_without:
  assumes "pages_ok ps U b H" "V = U - set (page_blocks ps (xb_mem b) p)" "xb_mem b' = xb_mem b"
    "xb_avail b' = AList.delete p (xb_avail b)" "xb_full b' = AList.delete p (xb_full b)"
    "xb_num_avail b' = (\<Sum>(p, v)\<leftarrow>AList.delete p (xb_avail b). length (vp_free_list v))"
  shows "pages_ok ps V b' (H - {p})"
proof -
  note I = pages_okD [OF assms(1)]
  have d: "distinct (map fst (xb_avail b))" "distinct (map fst (xb_full b))" using I(3) by auto
  have keep: "page_ok ps (xb_mem b) V q v" if "page_ok ps (xb_mem b) U q v" "q \<noteq> p" for q v
    using page_blocks_disjoint [OF I(2) that(2)] assms(2) by (intro page_ok_cong [OF that(1)]) blast
  show ?thesis
  proof (rule pages_okI)
    show "fst ` set (xb_avail b' @ xb_full b') = H - {p}"
      using I(4) by (auto simp: assms image_Un keys_delete)
    show "distinct (map fst (xb_avail b' @ xb_full b'))" using I(3) by (auto simp: assms delete_keys distinct_removeAll)
    show "page_ok ps (xb_mem b') V q v \<and> vp_free_list v \<noteq> []" if "(q, v) \<in> set (xb_avail b')" for q v
      using delete_mem [OF d(1) that [unfolded assms]] I(5,6) keep by (auto simp: assms(3))
    show "page_ok ps (xb_mem b') V q v \<and> vp_free_list v = []" if "(q, v) \<in> set (xb_full b')" for q v
      using delete_mem [OF d(2) that [unfolded assms]] I(7,8) keep by (auto simp: assms(3))
    show "V \<subseteq> (\<Union>q\<in>H - {p}. set (page_blocks ps (xb_mem b') q))" using I(10) unfolding assms by blast
  qed (use I(1) in \<open>simp_all add: assms\<close>)
qed

lemma pages_ok_with:
  assumes "pages_ok ps V b H" "p \<notin> H" "page_ok ps (xb_mem b) W p v" "vp_free_list v \<noteq> []" "W - set (page_blocks ps (xb_mem b) p) = V"
    "xb_mem b' = xb_mem b" "mset (xb_avail b') = add_mset (p, v) (mset (xb_avail b))" "xb_full b' = xb_full b"
    "xb_num_avail b' = xb_num_avail b + length (vp_free_list v)"
  shows "pages_ok ps W b' (insert p H)"
proof -
  note I = pages_okD [OF assms(1)]
  have elems: "set (xb_avail b') = insert (p, v) (set (xb_avail b))" using arg_cong [OF assms(7), of set_mset] by simp
  have keys: "mset (map fst (xb_avail b' @ xb_full b')) = add_mset p (mset (map fst (xb_avail b @ xb_full b)))" using assms(7,8) by simp
  have keep: "page_ok ps (xb_mem b) W q u" if "page_ok ps (xb_mem b) V q u" "q \<in> H" for q u
  proof (rule page_ok_cong [OF that(1)])
    have "set (page_blocks ps (xb_mem b) q) \<inter> set (page_blocks ps (xb_mem b) p) = {}"
      using assms(2) that(2) by (intro page_blocks_disjoint I(2)) auto
    then show "V \<inter> set (page_blocks ps (xb_mem b) q) = W \<inter> set (page_blocks ps (xb_mem b) q)" using assms(5) by blast
  qed
  have inH: "(q, u) \<in> set (xb_avail b) \<Longrightarrow> q \<in> H" "(q, u) \<in> set (xb_full b) \<Longrightarrow> q \<in> H" for q u using I(4) by force+
  show ?thesis
  proof (rule pages_okI)
    show "distinct (map fst (xb_avail b' @ xb_full b'))"
      using I(3,4) assms(2) mset_eq_imp_distinct_iff [of "map fst (xb_avail b' @ xb_full b')" "p # map fst (xb_avail b @ xb_full b)"] keys by auto
    show "fst ` set (xb_avail b' @ xb_full b') = insert p H" using I(4) elems assms(8) by auto
    show "xb_num_avail b' = (\<Sum>(p, v)\<leftarrow>xb_avail b'. length (vp_free_list v))"
      using I(9) assms(9) arg_cong [OF assms(7), of "\<lambda>M. sum_mset (image_mset (\<lambda>(p, v). length (vp_free_list v)) M)"]
      by (simp flip: mset_map add: sum_mset_sum_list)
    show "page_ok ps (xb_mem b') W q u \<and> vp_free_list u \<noteq> []" if "(q, u) \<in> set (xb_avail b')" for q u
      using that elems assms(3,4,6) I(6) keep [OF I(5) inH(1)] by auto
    show "page_ok ps (xb_mem b') W q u \<and> vp_free_list u = []" if "(q, u) \<in> set (xb_full b')" for q u
      using that assms(6,8) I(8) keep [OF I(7) inH(2)] by auto
    show "W \<subseteq> (\<Union>q\<in>insert p H. set (page_blocks ps (xb_mem b') q))" using I(10) assms(5,6) by auto
  qed (use I(1) assms(6) in simp)
qed

lemma pages_ok_perm:
  assumes "pages_ok ps U b H" "xb_mem b' = xb_mem b" "mset (xb_avail b') = mset (xb_avail b)" "xb_full b' = xb_full b" "xb_num_avail b' = xb_num_avail b"
  shows "pages_ok ps U b' H"
proof -
  have "set (xb_avail b') = set (xb_avail b)" using assms(3) by (rule mset_eq_setD)
  moreover have "distinct (map fst (xb_avail b')) = distinct (map fst (xb_avail b))"
    using assms(3) by (intro mset_eq_imp_distinct_iff) simp
  moreover have "(\<Sum>(p, v)\<leftarrow>xb_avail b'. length (vp_free_list v)) = (\<Sum>(p, v)\<leftarrow>xb_avail b. length (vp_free_list v))"
    using arg_cong [OF assms(3), of "\<lambda>M. sum_mset (image_mset (\<lambda>(p, v). length (vp_free_list v)) M)"]
    by (simp flip: mset_map add: sum_mset_sum_list)
  ultimately show ?thesis using assms(1,2,4,5) unfolding pages_ok_def by simp
qed

text \<open>What \<open>return_to_page\<close> does, without the branch on where the page is.\<close>

lemma return_to_page_eq:
  assumes "pages_ok ps U b H" "p \<in> H"
  shows "\<exists>w. page_ok ps (xb_mem b) U p w \<and> (let w' = w\<lparr>vp_free_list := vp_free_list w @ ids\<rparr>;
      empty = (length (vp_free_list w') = length (page_blocks ps (xb_mem b) p)) in
    \<exists>b'. return_to_page p ids b = Some (empty, b') \<and> xb_frame b' = xb_frame b \<and> xb_full b' = AList.delete p (xb_full b)
      \<and> mset (xb_avail b') = (if empty then {#} else {#(p, w')#}) + mset (AList.delete p (xb_avail b))
      \<and> xb_num_avail b' = (if empty then 0 else length (vp_free_list w')) + (\<Sum>(q, v)\<leftarrow>AList.delete p (xb_avail b). length (vp_free_list v)))"
proof -
  note I = pages_okD [OF assms(1)]
  have d: "distinct (map fst (xb_avail b))" "distinct (map fst (xb_full b))" and
    disj: "fst ` set (xb_avail b) \<inter> fst ` set (xb_full b) = {}" using I(3) by auto
  obtain w where w: "map_of (xb_full b @ xb_avail b) p = Some w" using assms(2) I(4)
    by (metis (no_types, lifting) Un_commute image_Un map_of_eq_None_iff not_None_eq set_append)
  have ok: "page_ok ps (xb_mem b) U p w" using w I(5,7) by (auto simp: map_add_def split: option.splits dest!: map_of_SomeD)
  define w' where "w' = w\<lparr>vp_free_list := vp_free_list w @ ids\<rparr>"
  have batch: "vp_free_batch ids w = Some w'" and
    empty: "vp_is_empty w' = Some (length (vp_free_list w') = length (page_blocks ps (xb_mem b) p))"
    using ok by (auto simp: vp_free_batch_def vp_is_empty_def w'_def page_ok_def)
  note step = return_to_page_def w option.case batch Let_def empty option.inject eq_True
  have "\<exists>b'. return_to_page p ids b = Some (length (vp_free_list w') = length (page_blocks ps (xb_mem b) p), b') \<and> xb_frame b' = xb_frame b
      \<and> xb_full b' = AList.delete p (xb_full b)
      \<and> mset (xb_avail b') = (if length (vp_free_list w') = length (page_blocks ps (xb_mem b) p) then {#} else {#(p, w')#}) + mset (AList.delete p (xb_avail b))
      \<and> xb_num_avail b' = (if length (vp_free_list w') = length (page_blocks ps (xb_mem b) p) then 0 else length (vp_free_list w'))
          + (\<Sum>(q, v)\<leftarrow>AList.delete p (xb_avail b). length (vp_free_list v))"
  proof (cases "p \<in> fst ` set (xb_full b)")
    case True
    then have m: "map_of (xb_full b) p = Some w" and out: "p \<notin> fst ` set (xb_avail b)"
      using w disj by (auto simp: map_add_def map_of_eq_None_iff split: option.splits)
    have "vp_free_list w = []" using I(8) map_of_SomeD [OF m] by blast
    then show ?thesis using True out I(9) unfolding step
      by (cases "length (vp_free_list w') = length (page_blocks ps (xb_mem b) p)") (simp_all add: w'_def xb_frame_def update_fresh)
  next
    case False
    then have "map_of (xb_full b) p = None" by (simp add: map_of_eq_None_iff)
    then have m: "map_of (xb_avail b) p = Some w" using w by (simp add: map_add_def)
    have "xb_num_avail b = (\<Sum>(q, v)\<leftarrow>AList.delete p (xb_avail b). length (vp_free_list v)) + length (vp_free_list w)"
      using I(9) delete_present(4) [OF d(1) m, of "\<lambda>v. length (vp_free_list v)"] by simp
    then show ?thesis using False mset_update [OF d(1)] unfolding step
      by (cases "length (vp_free_list w') = length (page_blocks ps (xb_mem b) p)") (simp_all add: w'_def xb_frame_def)
  qed
  then show ?thesis using ok unfolding Let_def w'_def by blast
qed

lemma return_page_ok:
  assumes "pages_ok ps U b H" "p \<in> H" "distinct ids" "ids \<noteq> []" "set ids \<subseteq> U" "set ids \<subseteq> set (page_blocks ps (xb_mem b) p)"
  shows "\<exists>e b'. return_to_page p ids b = Some (e, b') \<and> pages_ok ps (U - set ids) b' (if e then H - {p} else H) \<and> xb_frame b' = xb_frame b"
proof -
  obtain w b' where ok: "page_ok ps (xb_mem b) U p w"
    and R: "return_to_page p ids b = Some (length (vp_free_list w @ ids) = length (page_blocks ps (xb_mem b) p), b')" "xb_frame b' = xb_frame b"
      "xb_full b' = AList.delete p (xb_full b)"
      "mset (xb_avail b') = (if length (vp_free_list w @ ids) = length (page_blocks ps (xb_mem b) p) then {#}
         else {#(p, w\<lparr>vp_free_list := vp_free_list w @ ids\<rparr>)#}) + mset (AList.delete p (xb_avail b))"
      "xb_num_avail b' = (if length (vp_free_list w @ ids) = length (page_blocks ps (xb_mem b) p) then 0 else length (vp_free_list w @ ids))
         + (\<Sum>(q, v)\<leftarrow>AList.delete p (xb_avail b). length (vp_free_list v))"
    using return_to_page_eq [OF assms(1,2), of ids] unfolding Let_def by auto
  define b0 where "b0 = b\<lparr>xb_avail := AList.delete p (xb_avail b), xb_full := AList.delete p (xb_full b),
    xb_num_avail := (\<Sum>(q, v)\<leftarrow>AList.delete p (xb_avail b). length (vp_free_list v))\<rparr>"
  have b0: "pages_ok ps (U - set (page_blocks ps (xb_mem b) p)) b0 (H - {p})"
    by (rule pages_ok_without [OF assms(1) refl]) (simp_all add: b0_def)
  have mem: "xb_mem b' = xb_mem b" using R(2) by (simp add: xb_frame_def)
  have ok': "page_ok ps (xb_mem b) (U - set ids) p (w\<lparr>vp_free_list := vp_free_list w @ ids\<rparr>)"
    using ok assms(3,5,6) by (auto simp: page_ok_def)
  have b0_sel: "xb_mem b0 = xb_mem b" "xb_avail b0 = AList.delete p (xb_avail b)" "xb_full b0 = AList.delete p (xb_full b)"
    "xb_num_avail b0 = (\<Sum>(q, v)\<leftarrow>AList.delete p (xb_avail b). length (vp_free_list v))" by (simp_all add: b0_def)
  show ?thesis
  proof (cases "length (vp_free_list w @ ids) = length (page_blocks ps (xb_mem b) p)")
    case True
    have "card (set (page_blocks ps (xb_mem b) p) - (U - set ids)) = card (set (page_blocks ps (xb_mem b) p))"
      using True ok' by (metis distinct_card distinct_page_blocks page_ok_def virt_page.select_convs(5) virt_page.surjective virt_page.update_convs(5))
    then have "set (page_blocks ps (xb_mem b) p) - (U - set ids) = set (page_blocks ps (xb_mem b) p)" by (intro card_subset_eq) auto
    then have "U - set ids = U - set (page_blocks ps (xb_mem b) p)" using assms(6) by blast
    moreover have "pages_ok ps (U - set (page_blocks ps (xb_mem b) p)) b' (H - {p})"
    proof -
      have "mset (xb_avail b') = mset (xb_avail b0)" "xb_full b' = xb_full b0" "xb_num_avail b' = xb_num_avail b0" using R True by (simp_all add: b0_def)
      then show ?thesis using pages_ok_perm [OF b0, of b'] mem by (simp add: b0_def)
    qed
    ultimately show ?thesis using R(1,2) True by (intro exI [of _ True] exI [of _ b']) simp
  next
    case False
    have "pages_ok ps (U - set ids) b' (insert p (H - {p}))"
    proof (rule pages_ok_with [OF b0])
      show "U - set ids - set (page_blocks ps (xb_mem b0) p) = U - set (page_blocks ps (xb_mem b) p)" using assms(6) b0_sel(1) by auto
    qed (use R False mem assms(4) ok' b0_sel in auto)
    moreover have "insert p (H - {p}) = H" using assms(2) by blast
    ultimately show ?thesis using R(1,2) False by (intro exI [of _ False] exI [of _ b']) simp
  qed
qed

lemma return_pages_ok:
  assumes "pages_ok ps U b H" "distinct (map fst gs)"
    "\<And>p ids. (p, ids) \<in> set gs \<Longrightarrow> p \<in> H \<and> distinct ids \<and> ids \<noteq> [] \<and> set ids \<subseteq> U \<and> set ids \<subseteq> set (page_blocks ps (xb_mem b) p)"
  shows "\<exists>qs b'. return_pages gs b = Some (qs, b') \<and> pages_ok ps (U - (\<Union>g\<in>set gs. set (snd g))) b' (H - set qs) \<and> xb_frame b' = xb_frame b
    \<and> distinct qs \<and> set qs \<subseteq> fst ` set gs \<and> set qs \<subseteq> H"
  using assms
proof (induction gs arbitrary: U b H)
  case (Cons g gs)
  obtain p ids where g: "g = (p, ids)" by fastforce
  have G: "p \<in> H" "distinct ids" "ids \<noteq> []" "set ids \<subseteq> U" "set ids \<subseteq> set (page_blocks ps (xb_mem b) p)" using Cons.prems(3) [of p ids] g by auto
  obtain e b1 where R: "return_to_page p ids b = Some (e, b1)" "pages_ok ps (U - set ids) b1 (if e then H - {p} else H)" "xb_frame b1 = xb_frame b"
    using return_page_ok [OF Cons.prems(1) G] by blast
  have mem: "xb_mem b1 = xb_mem b" using R(3) by (simp add: xb_frame_def)
  have "q \<in> (if e then H - {p} else H) \<and> distinct js \<and> js \<noteq> [] \<and> set js \<subseteq> U - set ids \<and> set js \<subseteq> set (page_blocks ps (xb_mem b1) q)"
    if m: "(q, js) \<in> set gs" for q js
  proof -
    have js: "q \<in> H" "distinct js" "js \<noteq> []" "set js \<subseteq> U" "set js \<subseteq> set (page_blocks ps (xb_mem b) q)" using Cons.prems(3) [of q js] m by auto
    have "p \<noteq> q" using Cons.prems(2) m g by force
    then have "set ids \<inter> set js = {}" using page_blocks_disjoint [OF pages_okD(2) [OF Cons.prems(1)], of p q ps] G(5) js(5) by blast
    then show ?thesis using js \<open>p \<noteq> q\<close> mem by auto
  qed
  then obtain qs b' where S: "return_pages gs b1 = Some (qs, b')" "pages_ok ps (U - set ids - (\<Union>g\<in>set gs. set (snd g))) b' ((if e then H - {p} else H) - set qs)"
    "xb_frame b' = xb_frame b1" "distinct qs" "set qs \<subseteq> fst ` set gs" "set qs \<subseteq> (if e then H - {p} else H)"
    using Cons.IH [OF R(2)] Cons.prems(2) by (auto simp: g)
  have "U - set ids - (\<Union>g\<in>set gs. set (snd g)) = U - (\<Union>g\<in>set (g # gs). set (snd g))" using g by auto
  moreover have "(if e then H - {p} else H) - set qs = H - set (if e then p # qs else qs)" by auto
  moreover have "p \<notin> set qs" if e using S(6) that by auto
  moreover have "set qs \<subseteq> H" using S(6) by (auto split: if_splits)
  ultimately show ?case using S(1-5) R g G(1) by (intro exI [of _ "if e then p # qs else qs"] exI [of _ b']) auto
qed simp

lemma set_order: "(\<And>ks. mset (order ks) = mset ks) \<Longrightarrow> set (order ks) = set ks \<and> distinct (order ks) = distinct ks"
  by (metis mset_eq_imp_distinct_iff mset_eq_setD)

context page_source
begin

text \<open>The return of blocks in use, none of them twice, never fails; the pages that are empty then go back to the allocator.\<close>

lemma free_blocks_ok:
  assumes "pages_ok ps U b (held s)" "good s" "\<And>ks. mset (order ks) = mset ks" "distinct ids" "set ids \<subseteq> U"
  shows "\<exists>b' s'. free_blocks order ps free ids b s = Some (b', s') \<and> pages_ok ps (U - set ids) b' (held s') \<and> good s' \<and> xb_frame b' = xb_frame b"
proof (cases "ids = []")
  case True
  then show ?thesis using assms(1,2) by (simp add: free_blocks_def)
next
  case False
  let ?page = "\<lambda>i. get_virt_page_id ps i (xb_mem b)"
  note I = pages_okD [OF assms(1)]
  have home: "?page i \<in> held s \<and> i \<in> set (page_blocks ps (xb_mem b) (?page i))" if "i \<in> U" for i
    using I(10) that block_in_page [OF I(2)] by blast
  let ?gs = "index_groups order ps (xb_mem b) ids"
  have keys: "map fst ?gs = order (remdups (map ?page ids))" by (simp add: index_groups_def comp_def)
  have groups: "(p, js) \<in> set ?gs \<longleftrightarrow> p \<in> ?page ` set ids \<and> js = filter (\<lambda>i. ?page i = p) ids" for p js
    using set_order [OF assms(3), where ks = "remdups (map ?page ids)"] by (auto simp: index_groups_def)
  have "distinct (map fst ?gs)" using set_order [OF assms(3), where ks = "remdups (map ?page ids)"] by (simp add: keys)
  moreover have "p \<in> held s \<and> distinct js \<and> js \<noteq> [] \<and> set js \<subseteq> U \<and> set js \<subseteq> set (page_blocks ps (xb_mem b) p)" if "(p, js) \<in> set ?gs" for p js
  proof -
    have js: "p \<in> ?page ` set ids" "js = filter (\<lambda>i. ?page i = p) ids" using that groups by auto
    then have "js \<noteq> []" by (auto simp: filter_empty_conv)
    moreover have "x \<in> set (page_blocks ps (xb_mem b) p)" if "x \<in> set js" for x
      using home [of x] that js(2) assms(5) by auto
    ultimately show ?thesis using js assms(4,5) home by auto
  qed
  ultimately obtain qs b1 where R: "return_pages ?gs b = Some (qs, b1)" "pages_ok ps (U - (\<Union>g\<in>set ?gs. set (snd g))) b1 (held s - set qs)"
    "xb_frame b1 = xb_frame b" "distinct qs" "set qs \<subseteq> held s"
    using return_pages_ok [OF assms(1), of ?gs] by blast
  have "(\<Union>g\<in>set ?gs. set (snd g)) = set ids"
  proof (intro set_eqI iffI)
    fix i assume "i \<in> set ids"
    then have "(?page i, filter (\<lambda>j. ?page j = ?page i) ids) \<in> set ?gs" using groups by auto
    then show "i \<in> (\<Union>g\<in>set ?gs. set (snd g))" using \<open>i \<in> set ids\<close> by force
  qed (use groups in auto)
  then have ok: "pages_ok ps (U - set ids) b1 (held s - set qs)" using R(2) by simp
  show ?thesis
  proof (cases "qs = []")
    case True
    then show ?thesis using R ok assms(2) False by (simp add: free_blocks_def)
  next
    case qs: False
    then show ?thesis using free_law [OF assms(2) R(4,5) qs] R ok False by (auto simp: free_blocks_def)
  qed
qed

text \<open>When the pages that the allocator has in stock suffice, the loop takes all that is asked for.\<close>

lemma alloc_loop_full:
  assumes "pages_ok ps U b (held s)" "good s" "\<And>ks. mset (order ks) = mset ks" "xb_mem b dvd ps"
    "n \<le> xb_num_avail b + stock s * get_num_blocks ps (xb_mem b)"
  shows "\<exists>b' s' ys. xb_alloc_loop order ps alloc n b s acc = Some (Inr (acc @ ys), b', s') \<and> length ys = n"
  using assms(1,2,4,5)
proof (induction n arbitrary: U b s acc rule: less_induct)
  case (less n)
  let ?B = "get_num_blocks ps (xb_mem b)"
  show ?case
  proof (cases "n = 0")
    case True
    then show ?thesis by (subst xb_alloc_loop.simps) simp
  next
    case False
    note I = pages_okD [OF less.prems(1)]
    obtain r b1 s1 where pick: "pick_page order ps alloc b s = Some (r, b1, s1)" and P: "pages_ok ps U b1 (held s1)" "good s1" "xb_frame b1 = xb_frame b"
      "case r of Page_Given p \<Rightarrow> p \<in> fst ` set (xb_avail b1) | _ \<Rightarrow> True"
      using pick_page_ok [OF less.prems(1,2) assms(3)] by blast
    have "(\<exists>p. r = Page_Given p) \<and> xb_num_avail b1 + stock s1 * ?B = xb_num_avail b + stock s * ?B"
    proof (cases "xb_avail b = []")
      case True
      then have "0 < stock s" using I(9) less.prems(4) False by (cases "stock s") auto
      then obtain p s2 where a: "alloc s = Some (Page_Given p, s2)" "stock s2 = stock s - 1" using alloc_stock [OF less.prems(2)] by blast
      obtain v where v: "vp_init (xb_mem b) (new_virt_page p ps) = Some v" using pick True a by (auto simp: pick_page_def split: option.splits)
      have "length (vp_free_list v) = ?B"
        using fresh_page_ok(2) [OF v, of "{}"] page_blocks_number [OF I(2) less.prems(3)] by simp
      moreover have "stock s * ?B = ?B + stock s2 * ?B" using \<open>0 < stock s\<close> a(2) by (cases "stock s") auto
      ultimately show ?thesis using pick True a v by (auto simp: pick_page_def)
    next
      case False
      then show ?thesis using pick by (auto simp: pick_page_def)
    qed
    then obtain p where p: "r = Page_Given p" and total: "xb_num_avail b1 + stock s1 * ?B = xb_num_avail b + stock s * ?B" by blast
    have pm: "p \<in> fst ` set (xb_avail b1)" using P(4) p by simp
    obtain ids b2 where t: "take_from_page p n b1 = Some (ids, b2)" using take_page_total [OF P(1) pm] by blast
    note T = take_page_ok [OF P(1) pm t]
    have mem: "xb_mem b2 = xb_mem b" using T P(3) by (simp add: xb_frame_def)
    have "0 < length ids" using take_from_page_progress [OF t] False by simp
    moreover have "n - length ids \<le> xb_num_avail b2 + stock s1 * ?B" using total T less.prems(4) by linarith
    ultimately obtain b' s' ys where "xb_alloc_loop order ps alloc (n - length ids) b2 s1 (acc @ ids) = Some (Inr ((acc @ ids) @ ys), b', s')" "length ys = n - length ids"
      using less.IH [of "n - length ids" "U \<union> set ids" b2 s1 "acc @ ids"] T P(2) False less.prems(3) mem by (auto simp: diff_less)
    then show ?thesis using False pick p t T by (subst xb_alloc_loop.simps) (auto intro!: exI [of _ "ids @ ys"])
  qed
qed

end

end
