(* ===== verification/Page_Source.thy ===== *)
theory Page_Source imports Xtensor_Pages Page_Conservation begin

text \<open>
  The page allocator as the source of pages of a block manager: the sections of \<open>alloc_kv_cache_page\<close>, \<open>free_kv_cache_pages\<close> and
  \<open>trim_kv_cache\<close> one behind the other, with the operations of the other threads standing still between their sections,
  and the proof that they meet the contract \<open>page_source\<close>.
\<close>

section \<open>Whole operations\<close>

text \<open>\<open>ok\<close> is the result of the broadcast.  One round of the loop is enough (\<open>alloc_ends_at_once\<close>).\<close>

definition alloc_kv_cache_page :: "model_id \<Rightarrow> int \<Rightarrow> bool \<Rightarrow> page_state \<Rightarrow> (page_result \<times> page_state) option" where
  "alloc_kv_cache_page i dp ok s = (case alloc_begin 1 i dp s of
     Some (Alloc_Ready p, s1) \<Rightarrow> Some (Page_Given p, s1)
   | Some (Alloc_Throw e, s1) \<Rightarrow> Some (Page_Raised e, s1)
   | Some (Alloc_Map p n, s1) \<Rightarrow>
       let s2 = alloc_mapped i (nat dp) p n ok s1 in
       Some (if ok then (Page_Given p, alloc_record i (nat dp) p (alloc_trigger s2)) else (Page_Null, s2))
   | _ \<Rightarrow> None)"

definition free_kv_cache_pages :: "model_id \<Rightarrow> int \<Rightarrow> nat list \<Rightarrow> bool \<Rightarrow> page_state \<Rightarrow> page_state option" where
  "free_kv_cache_pages i dp ids ok s = (case free_begin i dp ids s of
     None \<Rightarrow> None
   | Some (js, s1) \<Rightarrow> Some (if js = [] then s1 else unmap_end i (nat dp) js (ms_ppv (the (ps_models s i))) ok s1))"

definition trim_kv_cache :: "model_id \<Rightarrow> int \<Rightarrow> bool \<Rightarrow> page_state \<Rightarrow> page_state option" where
  "trim_kv_cache i dp ok s = (case trim_begin i dp s of
     None \<Rightarrow> None
   | Some (js, s1) \<Rightarrow> Some (if js = [] then s1 else unmap_end i (nat dp) js (ms_ppv (the (ps_models s i))) ok s1))"

definition get_mapped_memory_size :: "model_id \<Rightarrow> int \<Rightarrow> page_state \<Rightarrow> nat option" where
  "get_mapped_memory_size i dp s = (case ps_models s i of
     None \<Rightarrow> None
   | Some m \<Rightarrow> map_option (\<lambda>n. n * ms_ppv m * ps_page_size s) (get_num_inuse_virt_pages i dp s))"

text \<open>The state that a manager sees: the allocator, and the results of the broadcasts to come, all successful when the list ends.\<close>

type_synonym source = "page_state \<times> bool list"

definition next_ok :: "bool list \<Rightarrow> bool" where "next_ok oks = (oks = [] \<or> hd oks)"

definition source_alloc :: "model_id \<Rightarrow> int \<Rightarrow> source \<Rightarrow> (page_result \<times> source) option" where
  "source_alloc i dp c = map_option (\<lambda>(r, s). (r, (s, tl (snd c)))) (alloc_kv_cache_page i dp (next_ok (snd c)) (fst c))"

definition source_free :: "model_id \<Rightarrow> int \<Rightarrow> nat list \<Rightarrow> source \<Rightarrow> source option" where
  "source_free i dp ids c = map_option (\<lambda>s. (s, tl (snd c))) (free_kv_cache_pages i dp ids (next_ok (snd c)) (fst c))"

definition source_trim :: "model_id \<Rightarrow> int \<Rightarrow> source \<Rightarrow> source option" where
  "source_trim i dp c = map_option (\<lambda>s. (s, tl (snd c))) (trim_kv_cache i dp (next_ok (snd c)) (fst c))"

definition source_held :: "model_id \<Rightarrow> int \<Rightarrow> source \<Rightarrow> nat set" where
  "source_held i dp c = set (allocated_virt (group_at i (nat dp) (fst c)))"

definition source_stock :: "model_id \<Rightarrow> int \<Rightarrow> source \<Rightarrow> nat" where
  "source_stock i dp c = length (reserved_virt (group_at i (nat dp) (fst c)))"

text \<open>The allocator is reachable, with the operations \<open>T\<close> of other threads in flight, and the model is awake.\<close>

definition awake_at :: "model_id \<Rightarrow> int \<Rightarrow> page_state \<Rightarrow> bool" where
  "awake_at i dp s \<longleftrightarrow> ps_initialized s \<and> valid_rank dp s \<and> (\<exists>m. ps_models s i = Some m \<and> \<not> ms_sleeping m)"

definition source_good :: "model_id \<Rightarrow> int \<Rightarrow> page_task multiset \<Rightarrow> source \<Rightarrow> bool" where
  "source_good i dp T c \<longleftrightarrow> page_reach (fst c, T) \<and> awake_at i dp (fst c)"

section \<open>The effect on the group\<close>

lemma group_at_other [simp]: "group_at i dp (release_phy_pages j d n s) = group_at i dp s" "group_at i dp (add_used ws n s) = group_at i dp s"
  "group_at i dp (trigger_preallocation s) = group_at i dp s" "group_at i dp (alloc_trigger s) = group_at i dp s"
  by (simp_all add: group_at_def alloc_trigger_def)

lemma group_at_pending [simp]: "ps_models s i \<noteq> None \<Longrightarrow> group_at i dp (add_pending i k s) = group_at i dp s"
  by (auto simp: group_at_def)

lemma group_at_update [simp]:
  "ps_models s i = Some m \<Longrightarrow> dp < length (ms_groups m) \<Longrightarrow> group_at i dp (update_group i dp f s) = f (group_at i dp s)"
  by (simp add: group_at_def)

lemma awake_frame [simp]: "awake_at i dp (release_phy_pages j d n s) = awake_at i dp s" "awake_at i dp (add_used ws n s) = awake_at i dp s"
  "awake_at i dp (trigger_preallocation s) = awake_at i dp s" "awake_at i dp (alloc_trigger s) = awake_at i dp s"
  by (simp_all add: awake_at_def valid_rank_def alloc_trigger_def)

lemma awake_update [simp]: "awake_at i dp (update_group i d f s) = awake_at i dp s" "awake_at i dp (add_pending i k s) = awake_at i dp s"
  by (auto simp: awake_at_def valid_rank_def)

lemma awake_groups:
  assumes "page_reach (s, T)" "awake_at i dp s"
  obtains m where "ps_models s i = Some m" "\<not> ms_sleeping m" "nat dp < length (ms_groups m)" "nat dp < ps_dp_size s"
    "group_inv (ms_total_virt m) (group_at i (nat dp) s) (flight i (nat dp) T) (flight_free i (nat dp) T)"
proof -
  obtain m where m: "ps_models s i = Some m" "\<not> ms_sleeping m" "nat dp < ps_dp_size s" using assms(2) by (auto simp: awake_at_def valid_rank_def)
  show thesis using that [OF m(1,2)] page_invD(1,4) [OF page_reach_inv [OF assms(1)] m(1)] m(3) group_at_model [OF m(1)] by simp
qed

text \<open>Whole operations as runs of their sections.\<close>

lemma run_alloc_page:
  assumes "page_reach (s, T)" "awake_at i dp s" "alloc_kv_cache_page i dp ok s = Some (r, s')"
  shows "page_reach (s', T) \<and> awake_at i dp s' \<and> (case r of
      Page_Given p \<Rightarrow> p \<notin> set (allocated_virt (group_at i (nat dp) s))
        \<and> set (allocated_virt (group_at i (nat dp) s')) = insert p (set (allocated_virt (group_at i (nat dp) s)))
    | _ \<Rightarrow> allocated_virt (group_at i (nat dp) s') = allocated_virt (group_at i (nat dp) s))"
proof -
  obtain m where m: "ps_models s i = Some m" "\<not> ms_sleeping m" "nat dp < length (ms_groups m)" "nat dp < ps_dp_size s"
    and inv: "group_inv (ms_total_virt m) (group_at i (nat dp) s) (flight i (nat dp) T) (flight_free i (nat dp) T)"
    by (rule awake_groups [OF assms(1,2)])
  let ?g = "group_at i (nat dp) s"
  have fresh: "p \<notin> set (allocated_virt ?g)" if "p \<in> set (free_virt ?g) \<union> set (reserved_virt ?g)" for p
    using group_inv_once [OF inv, of p "mset (free_virt ?g) + mset (reserved_virt ?g)" "mset (allocated_virt ?g) + flight i (nat dp) T"] that
    by (simp add: group_pages_def)
  obtain o1 s1 where b: "alloc_begin 1 i dp s = Some (o1, s1)" using assms(3) by (auto simp: alloc_kv_cache_page_def split: option.splits)
  show ?thesis
  proof (cases o1)
    case (Alloc_Ready p)
    then have r: "r = Page_Given p" "s' = s1" using assms(3) b by (auto simp: alloc_kv_cache_page_def)
    note b' = b [unfolded Alloc_Ready]
    have "page_reach (s1, T)" using page_reach_step [OF assms(1) ps_alloc_ready [OF b']] .
    moreover have "p = hd (reserved_virt ?g) \<and> reserved_virt ?g \<noteq> []
      \<and> (s1 = update_group i (nat dp) take_reserved s \<or> s1 = trigger_preallocation (update_group i (nat dp) take_reserved s))"
      using b' by (rule alloc_ready) blast
    ultimately show ?thesis using r m assms(2) fresh [of p] by (auto simp: take_reserved_def insert_page_def)
  next
    case (Alloc_Throw e)
    then have r: "r = Page_Raised e" "s' = s1" using assms(3) b by (auto simp: alloc_kv_cache_page_def)
    then have "s' = s" using alloc_throw b Alloc_Throw by blast
    then show ?thesis using assms(1,2) r by simp
  next
    case (Alloc_Map p n)
    note b' = b [unfolded Alloc_Map]
    have s1: "s1 = add_pending i 1 (add_used (group_workers i (nat dp) s) n (update_group i (nat dp) take_free s))"
      and p: "p = hd (free_virt ?g)" "free_virt ?g \<noteq> []"
      using b' by (rule alloc_map, blast)+
    have g1: "group_at i (nat dp) s1 = take_free ?g" and a1: "awake_at i dp s1" and m1: "ps_models s1 i \<noteq> None"
      "\<exists>m1. ps_models s1 i = Some m1 \<and> nat dp < length (ms_groups m1)" using m assms(2) by (simp_all add: s1)
    have task: "page_reach (s1, add_mset (Map_Task i (nat dp) p n) T)" using page_reach_step [OF assms(1) ps_alloc_map [OF b']] .
    let ?s2 = "alloc_mapped i (nat dp) p n ok s1"
    have reach: "page_reach (?s2, if ok then add_mset (Trigger_Task i (nat dp) p) T else T)" using page_reach_step [OF task ps_mapped] .
    obtain m2 where m2: "ps_models s1 i = Some m2" "nat dp < length (ms_groups m2)" using m1(2) by blast
    show ?thesis
    proof (cases ok)
      case True
      have r: "r = Page_Given p" "s' = alloc_record i (nat dp) p (alloc_trigger (add_pending i (- 1) s1))"
        using assms(3) b Alloc_Map True by (auto simp: alloc_kv_cache_page_def alloc_mapped_def)
      have "page_reach (s', T)"
        using page_reach_step [OF page_reach_step [OF reach [unfolded if_P [OF True]] ps_trigger] ps_record] r True by (simp add: alloc_mapped_def)
      moreover have "set (allocated_virt (group_at i (nat dp) s')) = insert p (set (allocated_virt ?g))"
        using m2 g1 by (auto simp: r(2) alloc_record_def insert_page_def take_free_def alloc_trigger_def)
      moreover have "p \<notin> set (allocated_virt ?g)" using fresh [of p] p by simp
      ultimately show ?thesis using a1 r by (simp add: alloc_record_def)
    next
      case False
      have r: "r = Page_Null" "s' = ?s2" using assms(3) b Alloc_Map False by (auto simp: alloc_kv_cache_page_def)
      have "allocated_virt (group_at i (nat dp) s') = allocated_virt ?g"
        using m2 g1 by (simp add: r(2) alloc_mapped_def False give_back_def take_free_def)
      then show ?thesis using reach a1 r False by (simp add: alloc_mapped_def)
    qed
  qed (use b assms(3) in \<open>auto simp: alloc_kv_cache_page_def\<close>)
qed

lemma run_free_pages:
  assumes "page_reach (s, T)" "awake_at i dp s" "distinct ids" "set ids \<subseteq> set (allocated_virt (group_at i (nat dp) s))"
  shows "\<exists>s'. free_kv_cache_pages i dp ids ok s = Some s' \<and> page_reach (s', T) \<and> awake_at i dp s'
    \<and> set (allocated_virt (group_at i (nat dp) s')) = set (allocated_virt (group_at i (nat dp) s)) - set ids"
proof -
  obtain m where m: "ps_models s i = Some m" "\<not> ms_sleeping m" "nat dp < length (ms_groups m)" by (rule awake_groups [OF assms(1,2)])
  obtain js s1 k where f: "free_begin i dp ids s = Some (js, s1)"
    "s1 = update_group i (nat dp) (push_reserved (take k ids)) (update_group i (nat dp) (drop_allocated ids) s)"
    using assms(2) m by (auto simp: free_begin_def awake_at_def Let_def)
  have a1: "awake_at i dp s1" using assms(2) f(2) by simp
  have g1: "set (allocated_virt (group_at i (nat dp) s1)) = set (allocated_virt (group_at i (nat dp) s)) - set ids"
    using m by (auto simp: f(2) push_reserved_def drop_allocated_def)
  have m1: "ps_models s1 i = Some m1 \<Longrightarrow> nat dp < length (ms_groups m1)" for m1 using m by (auto simp: f(2))
  note step = page_reach_step [OF assms(1) ps_free [OF f(1)]]
  have cl: "client_frees i dp ids s" using assms(3,4) by (simp add: client_frees_def)
  show ?thesis
  proof (cases "js = []")
    case True
    then show ?thesis using step [OF cl] f(1) a1 g1 by (simp add: free_kv_cache_pages_def)
  next
    case False
    let ?s2 = "unmap_end i (nat dp) js (ms_ppv (the (ps_models s i))) ok s1"
    have "page_reach (?s2, T)" using page_reach_step [OF step [OF cl, unfolded if_not_P [OF False]] ps_unmap] .
    moreover obtain m1 where "ps_models s1 i = Some m1" using a1 by (auto simp: awake_at_def)
    moreover from this have "allocated_virt (group_at i (nat dp) ?s2) = allocated_virt (group_at i (nat dp) s1)"
      using m1 by (simp add: unmap_end_def push_free_def push_reserved_def)
    moreover have "awake_at i dp ?s2" using a1 by (simp add: unmap_end_def)
    ultimately show ?thesis using False f(1) g1 by (simp add: free_kv_cache_pages_def)
  qed
qed

lemma run_trim:
  assumes "page_reach (s, T)" "awake_at i dp s" "trim_kv_cache i dp ok s = Some s'"
  shows "page_reach (s', T) \<and> awake_at i dp s' \<and> allocated_virt (group_at i (nat dp) s') = allocated_virt (group_at i (nat dp) s)"
proof -
  obtain m where m: "ps_models s i = Some m" "\<not> ms_sleeping m" "nat dp < length (ms_groups m)" by (rule awake_groups [OF assms(1,2)])
  obtain js s1 where t: "trim_begin i dp s = Some (js, s1)" "s1 = update_group i (nat dp) (\<lambda>g. g\<lparr>reserved_virt := []\<rparr>) s"
    using assms(3) by (auto simp: trim_kv_cache_def trim_begin_def split: option.splits if_splits)
  have a1: "awake_at i dp s1" and g1: "allocated_virt (group_at i (nat dp) s1) = allocated_virt (group_at i (nat dp) s)"
    using assms(2) m t(2) by simp_all
  obtain m1 where m1: "ps_models s1 i = Some m1" "nat dp < length (ms_groups m1)" using m t(2) by simp
  note step = page_reach_step [OF assms(1) ps_trim [OF t(1)]]
  show ?thesis
  proof (cases "js = []")
    case True
    then show ?thesis using step assms(3) t(1) a1 g1 by (simp add: trim_kv_cache_def)
  next
    case False
    then have s': "s' = unmap_end i (nat dp) js (ms_ppv (the (ps_models s i))) ok s1" using assms(3) t(1) by (simp add: trim_kv_cache_def)
    have "page_reach (s', T)" unfolding s' using page_reach_step [OF step [unfolded if_not_P [OF False]] ps_unmap] .
    then show ?thesis using a1 g1 m1 by (simp add: s' unmap_end_def push_free_def push_reserved_def)
  qed
qed

lemma alloc_begin_awake:
  assumes "awake_at i dp s"
  shows "alloc_begin (Suc 0) i dp s = Some (count_map i (alloc_round i (nat dp) s))"
  using assms by (auto simp: alloc_begin_def awake_at_def alloc_loop_once simp del: alloc_loop.simps)

lemma alloc_page_total: "awake_at i dp s \<Longrightarrow> \<exists>r s'. alloc_kv_cache_page i dp ok s = Some (r, s')"
  by (auto simp: alloc_kv_cache_page_def alloc_begin_awake count_map_def alloc_round_eq Let_def)

lemma alloc_page_stock:
  assumes "page_reach (s, T)" "awake_at i dp s" "reserved_virt (group_at i (nat dp) s) \<noteq> []"
  shows "\<exists>p s'. alloc_kv_cache_page i dp ok s = Some (Page_Given p, s')
    \<and> length (reserved_virt (group_at i (nat dp) s')) = length (reserved_virt (group_at i (nat dp) s)) - 1"
proof -
  obtain m where m: "ps_models s i = Some m" "nat dp < length (ms_groups m)" by (rule awake_groups [OF assms(1,2)])
  show ?thesis using assms(3) m
    by (simp add: alloc_kv_cache_page_def alloc_begin_awake [OF assms(2)] count_map_def alloc_round_eq Let_def take_reserved_def)
qed

section \<open>The allocator meets the contract\<close>

interpretation kv: page_source "source_alloc i dp" "source_free i dp" "source_held i dp" "source_stock i dp" "source_good i dp T"
  for i dp T
proof unfold_locales
  fix s p s'
  assume "source_good i dp T s" "source_alloc i dp s = Some (Page_Given p, s')"
  then show "source_good i dp T s' \<and> p \<notin> source_held i dp s \<and> source_held i dp s' = insert p (source_held i dp s)"
    using run_alloc_page [of "fst s" T i dp "next_ok (snd s)" "Page_Given p"] by (auto simp: source_good_def source_alloc_def source_held_def)
next
  fix s r s'
  assume "source_good i dp T s" "source_alloc i dp s = Some (r, s')" "\<And>p. r \<noteq> Page_Given p"
  then show "source_good i dp T s' \<and> source_held i dp s' = source_held i dp s"
    using run_alloc_page [of "fst s" T i dp "next_ok (snd s)" r]
    by (cases r) (auto simp: source_good_def source_alloc_def source_held_def)
next
  fix s
  assume "source_good i dp T s"
  then show "source_alloc i dp s \<noteq> None" using alloc_page_total [of i dp "fst s"] by (fastforce simp: source_good_def source_alloc_def)
next
  fix s
  assume "source_good i dp T s" "0 < source_stock i dp s"
  then show "\<exists>p s'. source_alloc i dp s = Some (Page_Given p, s') \<and> source_stock i dp s' = source_stock i dp s - 1"
    using alloc_page_stock [of "fst s" T i dp "next_ok (snd s)"] by (auto simp: source_good_def source_alloc_def source_stock_def)
next
  fix s ps
  assume "source_good i dp T s" "distinct ps" "set ps \<subseteq> source_held i dp s" "ps \<noteq> []"
  then show "\<exists>s'. source_free i dp ps s = Some s' \<and> source_good i dp T s' \<and> source_held i dp s' = source_held i dp s - set ps"
    using run_free_pages [of "fst s" T i dp ps "next_ok (snd s)"] by (auto simp: source_good_def source_free_def source_held_def)
qed

end
