(* ===== verification/Xtensor_Manager.thy ===== *)
theory Xtensor_Manager imports Page_Source begin

text \<open>
  The manager's invariant and its operations as steps: each block of a held page is in exactly one place, the free list of the
  page, a client's aliases, the reservation or the padding.  The proofs are over the contract of the page allocator and are
  used through its interpretation.
\<close>

section \<open>The invariant\<close>

definition xb_taken :: "xtensor_blocks \<Rightarrow> nat set" where
  "xb_taken b = {i. 0 < xb_refs b i} \<union> set (xb_reserved b) \<union> set_option (xb_padding b)"

definition xb_inv :: "nat \<Rightarrow> xtensor_blocks \<Rightarrow> nat set \<Rightarrow> bool" where
  "xb_inv ps b H \<longleftrightarrow> pages_ok ps (xb_taken b) b H \<and> distinct (xb_reserved b) \<and> (\<forall>i\<in>set (xb_reserved b). xb_refs b i = 0)
     \<and> (\<forall>i\<in>set_option (xb_padding b). i = 0 \<and> xb_refs b i = 0 \<and> i \<notin> set (xb_reserved b))"

lemma xb_invD:
  assumes "xb_inv ps b H"
  shows "pages_ok ps (xb_taken b) b H" "distinct (xb_reserved b)" "i \<in> set (xb_reserved b) \<Longrightarrow> xb_refs b i = 0"
    "i \<in> set_option (xb_padding b) \<Longrightarrow> i = 0" "i \<in> set_option (xb_padding b) \<Longrightarrow> xb_refs b i = 0" "i \<in> set_option (xb_padding b) \<Longrightarrow> i \<notin> set (xb_reserved b)"
  using assms unfolding xb_inv_def by blast+

lemma xb_invI:
  assumes "pages_ok ps U b H" "U = xb_taken b" "distinct (xb_reserved b)" "\<And>i. i \<in> set (xb_reserved b) \<Longrightarrow> xb_refs b i = 0"
    "\<And>i. i \<in> set_option (xb_padding b) \<Longrightarrow> i = 0" "\<And>i. i \<in> set_option (xb_padding b) \<Longrightarrow> xb_refs b i = 0"
    "\<And>i. i \<in> set_option (xb_padding b) \<Longrightarrow> i \<notin> set (xb_reserved b)"
  shows "xb_inv ps b H"
  using assms unfolding xb_inv_def by blast

definition xb_config :: "xtensor_blocks \<Rightarrow> nat \<times> nat \<times> nat \<times> nat" where
  "xb_config b = (xb_num_blocks b, xb_block_size b, xb_page_size b, xb_mem b)"

lemma xb_frameD:
  assumes "xb_frame b' = xb_frame b"
  shows "xb_config b' = xb_config b" "xb_refs b' = xb_refs b" "xb_reserved b' = xb_reserved b" "xb_padding b' = xb_padding b" "xb_mem b' = xb_mem b"
    "xb_page_size b' = xb_page_size b" "xb_block_size b' = xb_block_size b"
  using assms by (simp_all add: xb_frame_def xb_config_def)

lemma xb_config_upd [simp]: "xb_config (b\<lparr>xb_refs := r\<rparr>) = xb_config b" "xb_config (b\<lparr>xb_reserved := v\<rparr>) = xb_config b"
  "xb_config (b\<lparr>xb_padding := p\<rparr>) = xb_config b" "xb_config (xb_incr_ref i b) = xb_config b"
  by (simp_all add: xb_config_def xb_incr_ref_def)

lemma fold_set_one: "fold (\<lambda>i r. r(i := 1)) xs f = (\<lambda>i. if i \<in> set xs then 1 else f i)"
  by (induction xs arbitrary: f) auto

lemma set_take_drop: "set (take k xs) \<union> set (drop k xs) = set xs"
  by (metis append_take_drop_id set_append)

section \<open>Operations over the contract\<close>

context page_source
begin

lemma xb_alloc_internal_ok:
  assumes "xb_inv ps b (held s)" "good s" "\<And>ks. mset (order ks) = mset ks"
  shows "\<exists>r b' s' ys k. alloc_internal order ps alloc n b s = Some (r, b', s') \<and> good s' \<and> k = min (length (xb_reserved b)) n
    \<and> pages_ok ps (xb_taken b \<union> set ys) b' (held s') \<and> xb_frame b' = xb_frame (b\<lparr>xb_reserved := drop k (xb_reserved b)\<rparr>)
    \<and> distinct ys \<and> set ys \<inter> xb_taken b = {} \<and> length ys \<le> n - k \<and> (\<forall>xs. r = Inr xs \<longrightarrow> xs = take k (xb_reserved b) @ ys)"
proof -
  let ?k = "min (length (xb_reserved b)) n"
  have "pages_ok ps (xb_taken b) (b\<lparr>xb_reserved := drop ?k (xb_reserved b)\<rparr>) (held s)"
    by (rule pages_ok_keep [OF xb_invD(1) [OF assms(1)]]) simp_all
  from alloc_loop_ok [OF this assms(2,3), of "n - ?k" "take ?k (xb_reserved b)"] show ?thesis
    unfolding alloc_internal_def Let_def by blast
qed

text \<open>Allocation hands out blocks that nobody has, and never more than were asked for.\<close>

lemma xb_allocate_ok:
  assumes "xb_inv ps b (held s)" "good s" "\<And>ks. mset (order ks) = mset ks"
  shows "\<exists>r b' s'. xb_allocate order ps alloc n b s = Some (r, b', s') \<and> good s' \<and> (\<forall>xs. r = Inr xs \<longrightarrow> xb_inv ps b' (held s')
    \<and> distinct xs \<and> length xs \<le> n \<and> (\<forall>i\<in>set xs. xb_refs b i = 0 \<and> i \<notin> set_option (xb_padding b))
    \<and> xb_refs b' = (\<lambda>i. if i \<in> set xs then 1 else xb_refs b i) \<and> xb_padding b' = xb_padding b \<and> set (xb_reserved b') = set (xb_reserved b) - set xs \<and> xb_config b' = xb_config b)"
proof -
  note I = xb_invD [OF assms(1)]
  obtain r b' s' ys k where A: "alloc_internal order ps alloc n b s = Some (r, b', s')" "good s'" "k = min (length (xb_reserved b)) n"
    "pages_ok ps (xb_taken b \<union> set ys) b' (held s')" "xb_frame b' = xb_frame (b\<lparr>xb_reserved := drop k (xb_reserved b)\<rparr>)"
    "distinct ys" "set ys \<inter> xb_taken b = {}" "length ys \<le> n - k" "\<And>xs. r = Inr xs \<Longrightarrow> xs = take k (xb_reserved b) @ ys"
    using xb_alloc_internal_ok [OF assms] by blast
  show ?thesis
  proof (cases r)
    case (Inl e)
    then show ?thesis using A(1,2) by (simp add: xb_allocate_def)
  next
    case (Inr xs)
    note F = xb_frameD [OF A(5), simplified]
    have xs: "xs = take k (xb_reserved b) @ ys" using A(9) [OF Inr] .
    let ?b = "b'\<lparr>xb_refs := fold (\<lambda>i r. r(i := 1)) xs (xb_refs b')\<rparr>"
    have refs: "xb_refs ?b = (\<lambda>i. if i \<in> set xs then 1 else xb_refs b i)" by (simp add: fold_set_one F del: One_nat_def)
    have tr: "set (take k (xb_reserved b)) \<subseteq> set (xb_reserved b)" "set (drop k (xb_reserved b)) \<subseteq> set (xb_reserved b)" by (rule set_take_subset set_drop_subset)+
    have td: "set (take k (xb_reserved b)) \<inter> set (drop k (xb_reserved b)) = {}" by (rule set_take_disj_set_drop_if_distinct [OF I(2)]) simp
    have "set (xb_reserved b) = set (take k (xb_reserved b)) \<union> set (drop k (xb_reserved b))" using set_take_drop by metis
    then have res: "set (drop k (xb_reserved b)) = set (xb_reserved b) - set xs" using td A(7) tr(2) unfolding xs xb_taken_def by auto
    have free: "xb_refs b i = 0 \<and> i \<notin> set_option (xb_padding b)" if "i \<in> set xs" for i
      using that A(7) I(3,6) tr(1) unfolding xs xb_taken_def by fastforce
    have taken: "xb_taken b \<union> set ys = xb_taken ?b"
      using res tr(1) free unfolding xb_taken_def refs by (auto simp: F xs)
    have inv: "xb_inv ps ?b (held s')"
    proof (rule xb_invI [OF _ taken])
      show "pages_ok ps (xb_taken b \<union> set ys) ?b (held s')" by (rule pages_ok_keep [OF A(4)]) simp_all
      show "xb_refs ?b i = 0" if "i \<in> set (xb_reserved ?b)" for i using that res I(3) unfolding refs by (auto simp: F)
      show "xb_refs ?b i = 0" if "i \<in> set_option (xb_padding ?b)" for i using that I(5) free unfolding refs by (auto simp: F)
      show "i \<notin> set (xb_reserved ?b)" if "i \<in> set_option (xb_padding ?b)" for i using that I(6) tr(2) by (auto simp: F)
    qed (use I(2,4) in \<open>auto simp: F\<close>)
    have "length xs \<le> n" using A(3,8) by (simp add: xs)
    moreover have "distinct xs" using A(6,7) I(2) tr(1) unfolding xs xb_taken_def by auto
    moreover have "xb_padding ?b = xb_padding b" "set (xb_reserved ?b) = set (xb_reserved b) - set xs" "xb_config ?b = xb_config b"
      using res by (simp_all add: F)
    ultimately show ?thesis using A(1,2) Inr inv refs free
      by (intro exI [of _ r] exI [of _ ?b] exI [of _ s']) (simp add: xb_allocate_def)
  qed
qed

lemma xb_free_ok:
  assumes "xb_inv ps b (held s)" "good s" "\<And>ks. mset (order ks) = mset ks" "0 < xb_refs b i" "i \<noteq> 0"
  shows "\<exists>b' s'. xb_free order ps free i b s = Some (b', s') \<and> good s' \<and> xb_inv ps b' (held s')
    \<and> xb_refs b' = (xb_refs b)(i := xb_refs b i - 1) \<and> xb_padding b' = xb_padding b \<and> xb_reserved b' = xb_reserved b \<and> xb_config b' = xb_config b"
proof -
  note I = xb_invD [OF assms(1)]
  let ?b = "b\<lparr>xb_refs := (xb_refs b)(i := xb_refs b i - 1)\<rparr>"
  have out: "i \<notin> set (xb_reserved b)" "i \<notin> set_option (xb_padding b)" using I(3,5) assms(4) by auto
  have keep: "pages_ok ps (xb_taken b) ?b (held s)" by (rule pages_ok_keep [OF I(1)]) simp_all
  show ?thesis
  proof (cases "xb_refs b i = 1")
    case True
    have "distinct [i]" "set [i] \<subseteq> xb_taken b" using assms(4) by (simp_all add: xb_taken_def)
    from free_blocks_ok [OF keep assms(2,3) this] obtain b' s' where R: "free_blocks order ps free [i] ?b s = Some (b', s')"
      "pages_ok ps (xb_taken b - set [i]) b' (held s')" "good s'" "xb_frame b' = xb_frame ?b" by blast
    note F = xb_frameD [OF R(4), simplified]
    have "xb_inv ps b' (held s')"
    proof (rule xb_invI [OF R(2)])
      show "xb_taken b - set [i] = xb_taken b'" using True out by (auto simp: F xb_taken_def)
    qed (use I(2-6) in \<open>auto simp: F\<close>)
    then show ?thesis using R True assms(5) F by (simp add: xb_free_def)
  next
    case False
    have "xb_inv ps ?b (held s)"
    proof (rule xb_invI [OF keep])
      show "xb_taken b = xb_taken ?b" using False assms(4) by (auto simp: xb_taken_def)
    qed (use I(2-6) in auto)
    then show ?thesis using False assms(2,4,5) by (simp add: xb_free_def)
  qed
qed

lemma xb_drop_blocks_ok:
  assumes "xb_inv ps b (held s)" "good s" "\<And>ks. mset (order ks) = mset ks" "distinct ids" "\<And>i. i \<in> set ids \<Longrightarrow> 0 < xb_refs b i \<and> i \<noteq> 0"
  shows "\<exists>b' s'. drop_blocks order ps free ids b s = Some (b', s') \<and> good s' \<and> xb_inv ps b' (held s')
    \<and> xb_refs b' = (\<lambda>i. if i \<in> set ids then xb_refs b i - 1 else xb_refs b i) \<and> xb_padding b' = xb_padding b \<and> xb_reserved b' = xb_reserved b \<and> xb_config b' = xb_config b"
  using assms(1,2,4,5)
proof (induction ids arbitrary: b s)
  case (Cons i ids)
  obtain b1 s1 where R: "xb_free order ps free i b s = Some (b1, s1)" "good s1" "xb_inv ps b1 (held s1)"
    "xb_refs b1 = (xb_refs b)(i := xb_refs b i - 1)" "xb_padding b1 = xb_padding b" "xb_reserved b1 = xb_reserved b" "xb_config b1 = xb_config b"
    using xb_free_ok [OF Cons.prems(1,2) assms(3), of i] Cons.prems(4) by auto
  have "0 < xb_refs b1 j \<and> j \<noteq> 0" if "j \<in> set ids" for j using that Cons.prems(3,4) R(4) by auto
  then obtain b' s' where "drop_blocks order ps free ids b1 s1 = Some (b', s')" "good s'" "xb_inv ps b' (held s')"
    "xb_refs b' = (\<lambda>i. if i \<in> set ids then xb_refs b1 i - 1 else xb_refs b1 i)" "xb_padding b' = xb_padding b1" "xb_reserved b' = xb_reserved b1" "xb_config b' = xb_config b1"
    using Cons.IH [OF R(3,2)] Cons.prems(3) by auto
  then show ?case using R Cons.prems(3) by (intro exI [of _ b'] exI [of _ s']) (auto simp: fun_eq_iff)
qed (auto intro!: exI)

lemma xb_reserve_ok:
  assumes "xb_inv ps b (held s)" "good s" "\<And>ks. mset (order ks) = mset ks"
  shows "\<exists>r b' s'. try_to_reserve order ps alloc stock n b s = Some (r, b', s') \<and> good s' \<and> (\<forall>ok. r = Inr ok \<longrightarrow> xb_inv ps b' (held s')
    \<and> xb_refs b' = xb_refs b \<and> xb_padding b' = xb_padding b \<and> xb_config b' = xb_config b)"
proof (cases "available_size stock b s < n")
  case True
  then show ?thesis using assms(1,2) by (simp add: try_to_reserve_def)
next
  case False
  note I = xb_invD [OF assms(1)]
  obtain r b' s' ys k where A: "alloc_internal order ps alloc n b s = Some (r, b', s')" "good s'" "k = min (length (xb_reserved b)) n"
    "pages_ok ps (xb_taken b \<union> set ys) b' (held s')" "xb_frame b' = xb_frame (b\<lparr>xb_reserved := drop k (xb_reserved b)\<rparr>)"
    "distinct ys" "set ys \<inter> xb_taken b = {}" "\<And>xs. r = Inr xs \<Longrightarrow> xs = take k (xb_reserved b) @ ys"
    using xb_alloc_internal_ok [OF assms] by blast
  show ?thesis
  proof (cases r)
    case (Inl e)
    then show ?thesis using A(1,2) False by (simp add: try_to_reserve_def)
  next
    case (Inr xs)
    note F = xb_frameD [OF A(5), simplified]
    have xs: "xs = take k (xb_reserved b) @ ys" using A(8) [OF Inr] .
    let ?b = "b'\<lparr>xb_reserved := xb_reserved b' @ xs\<rparr>"
    have td: "set (take k (xb_reserved b)) \<inter> set (drop k (xb_reserved b)) = {}" by (rule set_take_disj_set_drop_if_distinct [OF I(2)]) simp
    have union: "set (drop k (xb_reserved b) @ xs) = set (xb_reserved b) \<union> set ys" using set_take_drop [of k "xb_reserved b"] by (auto simp: xs)
    have union': "set (xb_reserved ?b) = set (xb_reserved b) \<union> set ys" using union by (simp add: F)
    have td': "distinct (drop k (xb_reserved b) @ xs)"
      using td I(2) A(6,7) set_take_subset [of k "xb_reserved b"] set_drop_subset [of k "xb_reserved b"] unfolding xs xb_taken_def by auto
    have inv: "xb_inv ps ?b (held s')"
    proof (rule xb_invI)
      show "pages_ok ps (xb_taken b \<union> set ys) ?b (held s')" by (rule pages_ok_keep [OF A(4)]) simp_all
      show "xb_taken b \<union> set ys = xb_taken ?b" using union by (auto simp: xb_taken_def F)
      show "xb_refs ?b i = 0" if "i \<in> set (xb_reserved ?b)" for i
        using that I(3) A(7) unfolding union' by (auto simp: F xb_taken_def)
      show "i \<notin> set (xb_reserved ?b)" if "i \<in> set_option (xb_padding ?b)" for i
        using that I(6) A(7) unfolding union' by (auto simp: F xb_taken_def)
    qed (use I(4,5) td' in \<open>auto simp: F\<close>)
    show ?thesis
    proof (cases "xs = []")
      case True
      then have "xb_inv ps b' (held s')" using inv by simp
      then show ?thesis using A(1,2) Inr False True F by (simp add: try_to_reserve_def)
    next
      case ne: False
      then show ?thesis using A(1,2) Inr False F inv by (simp add: try_to_reserve_def)
    qed
  qed
qed

lemma xb_free_reserved_ok:
  assumes "xb_inv ps b (held s)" "good s" "\<And>ks. mset (order ks) = mset ks"
  shows "\<exists>b' s'. free_reserved order ps free b s = Some (b', s') \<and> good s' \<and> xb_inv ps b' (held s')
    \<and> xb_refs b' = xb_refs b \<and> xb_padding b' = xb_padding b \<and> xb_reserved b' = [] \<and> xb_config b' = xb_config b"
proof -
  note I = xb_invD [OF assms(1)]
  have "pages_ok ps (xb_taken b) (b\<lparr>xb_reserved := []\<rparr>) (held s)" by (rule pages_ok_keep [OF I(1)]) simp_all
  moreover have "set (xb_reserved b) \<subseteq> xb_taken b" by (auto simp: xb_taken_def)
  ultimately obtain b' s' where R: "free_blocks order ps free (xb_reserved b) (b\<lparr>xb_reserved := []\<rparr>) s = Some (b', s')"
    "pages_ok ps (xb_taken b - set (xb_reserved b)) b' (held s')" "good s'" "xb_frame b' = xb_frame (b\<lparr>xb_reserved := []\<rparr>)"
    using free_blocks_ok [OF _ assms(2,3) I(2)] by blast
  note F = xb_frameD [OF R(4), simplified]
  have "xb_inv ps b' (held s')"
    by (rule xb_invI [OF R(2)]) (use I(3-6) in \<open>auto simp: F xb_taken_def\<close>)
  then show ?thesis using R F by (simp add: free_reserved_def)
qed

end

section \<open>Operations as steps\<close>

text \<open>A configuration is the manager with the allocator.  The steps are the operations that return without an exception: an exception
  is not caught in the scheduler and ends the process.  Padding is reserved first.\<close>

inductive xb_step :: "(nat list \<Rightarrow> nat list) \<Rightarrow> nat \<Rightarrow> ('s \<Rightarrow> (page_result \<times> 's) option) \<Rightarrow> (nat list \<Rightarrow> 's \<Rightarrow> 's option) \<Rightarrow> ('s \<Rightarrow> nat) \<Rightarrow>
    ('s \<Rightarrow> 's option) \<Rightarrow> xtensor_blocks \<times> 's \<Rightarrow> xtensor_blocks \<times> 's \<Rightarrow> bool"
  for order ps alloc free stock trim where
  xs_allocate: "xb_allocate order ps alloc n b s = Some (Inr ids, b', s') \<Longrightarrow> xb_step order ps alloc free stock trim (b, s) (b', s')"
| xs_copy: "0 < xb_refs b i \<Longrightarrow> xb_step order ps alloc free stock trim (b, s) (xb_incr_ref i b, s)"
| xs_free: "0 < xb_refs b i \<Longrightarrow> xb_free order ps free i b s = Some (b', s') \<Longrightarrow> xb_step order ps alloc free stock trim (b, s) (b', s')"
| xs_sequence: "xb_allocate_for_sequence order ps alloc free k n b s = Some (Inr r, b', s') \<Longrightarrow> xb_step order ps alloc free stock trim (b, s) (b', s')"
| xs_reserve: "try_to_reserve order ps alloc stock n b s = Some (Inr r, b', s') \<Longrightarrow> xb_step order ps alloc free stock trim (b, s) (b', s')"
| xs_free_reserved: "free_reserved order ps free b s = Some (b', s') \<Longrightarrow> xb_step order ps alloc free stock trim (b, s) (b', s')"
| xs_trim: "trim s = Some s' \<Longrightarrow> xb_step order ps alloc free stock trim (b, s) (b, s')"

inductive_cases xb_stepE: "xb_step order ps alloc free stock trim (b, s) (b', s')"

inductive xb_reach :: "(nat list \<Rightarrow> nat list) \<Rightarrow> nat \<Rightarrow> ('s \<Rightarrow> (page_result \<times> 's) option) \<Rightarrow> (nat list \<Rightarrow> 's \<Rightarrow> 's option) \<Rightarrow> ('s \<Rightarrow> nat) \<Rightarrow>
    ('s \<Rightarrow> 's option) \<Rightarrow> xtensor_blocks \<Rightarrow> 's \<Rightarrow> xtensor_blocks \<times> 's \<Rightarrow> bool"
  for order ps alloc free stock trim b0 s0 where
  xr_padding: "reserve_xtensor_padding_blocks order ps alloc b0 s0 = Some (Inr ids, b, s) \<Longrightarrow> xb_reach order ps alloc free stock trim b0 s0 (b, s)"
| xr_step: "xb_reach order ps alloc free stock trim b0 s0 c \<Longrightarrow> xb_step order ps alloc free stock trim c c' \<Longrightarrow>
    xb_reach order ps alloc free stock trim b0 s0 c'"

locale trimmed_source = page_source alloc free held stock good
  for alloc :: "'s \<Rightarrow> (page_result \<times> 's) option" and free :: "nat list \<Rightarrow> 's \<Rightarrow> 's option" and held stock good +
  fixes trim :: "'s \<Rightarrow> 's option"
  assumes trim_law: "good s \<Longrightarrow> trim s = Some s' \<Longrightarrow> good s' \<and> held s' = held s"
begin

lemma xb_padding_ok:
  assumes "page_geometry ps mem" "good s" "held s = {}" "\<And>ks. mset (order ks) = mset ks"
    "reserve_xtensor_padding_blocks order ps alloc (xb_create nb bs mem psz) s = Some (Inr ids, b', s')"
  shows "xb_inv ps b' (held s') \<and> good s' \<and> xb_padding b' = Some 0 \<and> xb_config b' = (nb, bs, psz, mem)"
proof -
  let ?b = "xb_create nb bs mem psz"
  have "pages_ok ps {} ?b (held s)" using assms(1,3) by (simp add: pages_ok_def xb_create_def)
  then have inv: "xb_inv ps ?b (held s)" by (simp add: xb_inv_def xb_taken_def) (simp add: xb_create_def)
  obtain r b1 s1 ys k where A: "alloc_internal order ps alloc 1 ?b s = Some (r, b1, s1)" "good s1"
    "pages_ok ps (xb_taken ?b \<union> set ys) b1 (held s1)" "xb_frame b1 = xb_frame (?b\<lparr>xb_reserved := drop k (xb_reserved ?b)\<rparr>)"
    "length ys \<le> 1 - k" "\<And>xs. r = Inr xs \<Longrightarrow> xs = take k (xb_reserved ?b) @ ys"
    using xb_alloc_internal_ok [OF inv assms(2,4)] by blast
  note F = xb_frameD [OF A(4), simplified]
  have r: "r = Inr ids" "ids \<noteq> []" "hd ids = 0" "b' = b1\<lparr>xb_padding := Some 0\<rparr>" "s' = s1"
    using assms(5) A(1) by (auto simp: reserve_xtensor_padding_blocks_def split: sum.splits if_splits)
  have "ids = ys" using A(6) [OF r(1)] by (simp add: xb_create_def)
  then have ys: "ys = [0]" using r(2,3) A(5) by (cases ys; cases "tl ys") auto
  have "xb_inv ps b' (held s')"
  proof (rule xb_invI)
    show "pages_ok ps (xb_taken ?b \<union> set ys) b' (held s')" using A(3) r(4,5) by (auto intro: pages_ok_keep)
  qed (use r(4) F ys in \<open>auto simp: xb_taken_def xb_create_def\<close>)
  then show ?thesis using r A(2) F by (simp add: xb_create_def xb_config_def)
qed

lemma xb_sequence_ok:
  assumes "xb_inv ps b (held s)" "good s" "\<And>ks. mset (order ks) = mset ks" "xb_padding b = Some 0"
  shows "\<exists>r b' s'. xb_allocate_for_sequence order ps alloc free h n b s = Some (r, b', s') \<and> good s'
    \<and> (\<forall>x. r = Inr x \<longrightarrow> xb_inv ps b' (held s') \<and> xb_padding b' = Some 0 \<and> xb_config b' = xb_config b)"
proof -
  let ?k = "(n + xb_block_size b - 1) div xb_block_size b - h"
  obtain r b1 s1 where A: "xb_allocate order ps alloc ?k b s = Some (r, b1, s1)" "good s1"
    "\<And>xs. r = Inr xs \<Longrightarrow> xb_inv ps b1 (held s1) \<and> distinct xs \<and> (\<forall>i\<in>set xs. xb_refs b i = 0 \<and> i \<notin> set_option (xb_padding b))
      \<and> xb_refs b1 = (\<lambda>i. if i \<in> set xs then 1 else xb_refs b i) \<and> xb_padding b1 = xb_padding b \<and> xb_config b1 = xb_config b"
    using xb_allocate_ok [OF assms(1-3)] by blast
  have "\<exists>b2 s2. drop_blocks order ps free xs b1 s1 = Some (b2, s2) \<and> good s2 \<and> xb_inv ps b2 (held s2) \<and> xb_padding b2 = Some 0 \<and> xb_config b2 = xb_config b" if "r = Inr xs" for xs
  proof -
    note R = A(3) [OF that]
    have "0 < xb_refs b1 i \<and> i \<noteq> 0" if "i \<in> set xs" for i using that R assms(4) by auto
    then show ?thesis using xb_drop_blocks_ok [of ps b1 s1 order xs] R A(2) assms(3,4) by auto
  qed
  then show ?thesis using A assms(1,2,4)
    by (cases r) (fastforce simp: xb_allocate_for_sequence_def Let_def)+
qed

lemma xb_step_ok:
  assumes "xb_step order ps alloc free stock trim (b, s) (b', s')" "xb_inv ps b (held s)" "good s" "\<And>ks. mset (order ks) = mset ks" "xb_padding b = Some 0"
  shows "xb_inv ps b' (held s') \<and> good s' \<and> xb_padding b' = Some 0 \<and> xb_config b' = xb_config b"
proof (rule xb_stepE [OF assms(1)], goal_cases)
  case (1 n ids)
  then show ?thesis using xb_allocate_ok [OF assms(2-4), of n] assms(5) by auto
next
  case (2 i)
  note I = xb_invD [OF assms(2)]
  have "i \<noteq> 0" using 2 I(5) [of 0] assms(5) by (intro notI) auto
  have "xb_inv ps (xb_incr_ref i b) (held s)"
  proof (rule xb_invI)
    show "pages_ok ps (xb_taken b) (xb_incr_ref i b) (held s)" by (rule pages_ok_keep [OF I(1)]) (simp_all add: xb_incr_ref_def)
    show "xb_taken b = xb_taken (xb_incr_ref i b)" using 2 by (auto simp: xb_taken_def xb_incr_ref_def)
  qed (use 2 \<open>i \<noteq> 0\<close> I(2-6) in \<open>auto simp: xb_incr_ref_def\<close>)
  then show ?thesis using 2 assms(3,5) by (simp add: xb_incr_ref_def)
next
  case (3 i)
  then have "i \<noteq> 0" using xb_invD(5) [OF assms(2), of 0] assms(5) by (intro notI) auto
  then show ?thesis using xb_free_ok [OF assms(2-4) 3(1)] 3(2) assms(5) by auto
next
  case (4 k n r)
  then show ?thesis using xb_sequence_ok [OF assms(2-5), of k n] by auto
next
  case (5 n r)
  then show ?thesis using xb_reserve_ok [OF assms(2-4), of n] assms(5) by auto
next
  case 6
  then show ?thesis using xb_free_reserved_ok [OF assms(2-4)] assms(5) by auto
next
  case 7
  then show ?thesis using trim_law [OF assms(3)] assms(2,5) by auto
qed

end

end
