(* ===== verification/Xtensor_Properties.thy ===== *)
theory Xtensor_Properties imports Xtensor_Manager begin

text \<open>
  The properties of the block manager over virtual pages, with the page allocator of \<open>Page_Allocator\<close> below it.
\<close>

context trimmed_source
begin

lemma xb_reach_ok:
  assumes "xb_reach order ps alloc free stock trim (xb_create nb bs mem psz) s0 c"
    "page_geometry ps mem" "good s0" "held s0 = {}" "\<And>ks. mset (order ks) = mset ks"
  shows "xb_inv ps (fst c) (held (snd c)) \<and> good (snd c) \<and> xb_padding (fst c) = Some 0 \<and> xb_config (fst c) = (nb, bs, psz, mem)"
  using assms(1)
proof (induction rule: xb_reach.induct)
  case (xr_padding ids b s)
  then show ?case using xb_padding_ok [OF assms(2-5)] by simp
next
  case (xr_step c c')
  then show ?case using xb_step_ok [of order ps "fst c" "snd c" "fst c'" "snd c'"] assms(5) by auto
qed

lemma xb_allocate_full:
  assumes "xb_inv ps b (held s)" "good s" "\<And>ks. mset (order ks) = mset ks" "xb_mem b dvd ps" "xb_page_size b = ps"
    "n \<le> available_size stock b s"
  shows "\<exists>xs b' s'. xb_allocate order ps alloc n b s = Some (Inr xs, b', s') \<and> length xs = n"
proof -
  let ?k = "min (length (xb_reserved b)) n" and ?b = "b\<lparr>xb_reserved := drop (min (length (xb_reserved b)) n) (xb_reserved b)\<rparr>"
  have "pages_ok ps (xb_taken b) ?b (held s)" by (rule pages_ok_keep [OF xb_invD(1) [OF assms(1)]]) simp_all
  moreover have "n - ?k \<le> xb_num_avail ?b + stock s * get_num_blocks ps (xb_mem ?b)"
    using assms(5,6) by (simp add: available_size_def)
  ultimately obtain b' s' ys where "xb_alloc_loop order ps alloc (n - ?k) ?b s (take ?k (xb_reserved b)) = Some (Inr (take ?k (xb_reserved b) @ ys), b', s')"
    "length ys = n - ?k"
    using alloc_loop_full [of ps "xb_taken b" ?b s order "n - ?k" "take ?k (xb_reserved b)"] assms(2-4) by auto
  then show ?thesis by (simp add: xb_allocate_def alloc_internal_def)
qed

end

interpretation kv_trim: trimmed_source "source_alloc i dp" "source_free i dp" "source_held i dp" "source_stock i dp" "source_good i dp T" "source_trim i dp"
  for i dp T
proof unfold_locales
  fix s s'
  assume "source_good i dp T s" "source_trim i dp s = Some s'"
  then show "source_good i dp T s' \<and> source_held i dp s' = source_held i dp s"
    using run_trim [of "fst s" T i dp "next_ok (snd s)"] by (auto simp: source_good_def source_trim_def source_held_def)
qed

section \<open>Counting blocks\<close>

text \<open>When the block size divides the page size, a page has \<open>get_num_blocks\<close> blocks, and those in use are counted page by page.\<close>

lemma used_in_page: "page_ok ps mem U p v \<Longrightarrow> card (U \<inter> set (page_blocks ps mem p)) = length (page_blocks ps mem p) - length (vp_free_list v)"
proof -
  assume ok: "page_ok ps mem U p v"
  have "length (vp_free_list v) = card (set (page_blocks ps mem p) - U)" using ok by (metis distinct_card page_ok_def)
  moreover have "card (set (page_blocks ps mem p)) = card (U \<inter> set (page_blocks ps mem p)) + card (set (page_blocks ps mem p) - U)"
    by (metis Int_commute card_Int_Diff finite_set)
  ultimately show ?thesis by (simp add: distinct_card)
qed

lemma card_used:
  assumes "pages_ok ps U b H" "xb_mem b dvd ps"
  shows "card U = length (xb_full b) * get_num_blocks ps (xb_mem b) + (length (xb_avail b) * get_num_blocks ps (xb_mem b) - xb_num_avail b)"
proof -
  note I = pages_okD [OF assms(1)]
  let ?B = "get_num_blocks ps (xb_mem b)" and ?P = "\<lambda>p. set (page_blocks ps (xb_mem b) p)"
  have len: "length (page_blocks ps (xb_mem b) p) = ?B" for p using page_blocks_number [OF I(2) assms(2)] .
  have H: "H = set (map fst (xb_avail b @ xb_full b))" using I(4) by (auto simp: image_Un)
  have "U = (\<Union>p\<in>H. U \<inter> ?P p)" using I(10) by blast
  moreover have "card (\<Union>p\<in>H. U \<inter> ?P p) = (\<Sum>p\<in>H. card (U \<inter> ?P p))"
    using page_blocks_disjoint [OF I(2)] by (intro card_UN_disjoint) (auto simp: H)
  ultimately have "card U = (\<Sum>p\<leftarrow>map fst (xb_avail b @ xb_full b). card (U \<inter> ?P p))"
    using sum.distinct_set_conv_list [OF I(3)] unfolding H by simp
  also have "\<dots> = (\<Sum>(p, v)\<leftarrow>xb_avail b. card (U \<inter> ?P p)) + (\<Sum>(p, v)\<leftarrow>xb_full b. card (U \<inter> ?P p))" by (simp add: comp_def split_def)
  also have "(\<Sum>(p, v)\<leftarrow>xb_full b. card (U \<inter> ?P p)) = (\<Sum>(p, v)\<leftarrow>xb_full b. ?B)"
    using used_in_page [OF I(7)] I(8) len by (intro arg_cong [of _ _ sum_list] map_cong refl) auto
  also have "\<dots> = length (xb_full b) * ?B" by (simp add: split_def sum_list_triv)
  also have "(\<Sum>(p, v)\<leftarrow>xb_avail b. card (U \<inter> ?P p)) = (\<Sum>(p, v)\<leftarrow>xb_avail b. ?B - length (vp_free_list v))"
    using used_in_page [OF I(5)] len by (intro arg_cong [of _ _ sum_list] map_cong refl) auto
  also have "\<dots> = length (xb_avail b) * ?B - xb_num_avail b"
  proof -
    have "length (vp_free_list v) \<le> ?B" if "(p, v) \<in> set (xb_avail b)" for p v
      using I(5) [OF that] len by (metis Diff_subset card_mono distinct_card finite_set page_ok_def distinct_page_blocks)
    then have "(\<Sum>(p, v)\<leftarrow>xs. ?B - length (vp_free_list v)) + (\<Sum>(p, v)\<leftarrow>xs. length (vp_free_list v)) = length xs * ?B" if "set xs \<subseteq> set (xb_avail b)" for xs
      using that by (induction xs) fastforce+
    from this [of "xb_avail b"] show ?thesis using I(9) by simp
  qed
  finally show ?thesis by simp
qed


section \<open>The manager over the allocator\<close>

text \<open>Reachable from a state of the allocator in which the group has no page allocated, while operations \<open>T\<close> of other threads stand
  still; \<open>ps\<close> is the page size of the allocator, \<open>psz\<close> the one that the manager was made with.\<close>

definition xtensor_reach :: "(nat list \<Rightarrow> nat list) \<Rightarrow> model_id \<Rightarrow> int \<Rightarrow> page_task multiset \<Rightarrow> nat \<Rightarrow> nat \<Rightarrow> nat \<Rightarrow> nat \<Rightarrow> nat \<Rightarrow> xtensor_blocks \<times> source \<Rightarrow> bool" where
  "xtensor_reach order i dp T ps nb bs mem psz c \<longleftrightarrow> (\<exists>s0. page_geometry ps mem \<and> source_good i dp T s0 \<and> source_held i dp s0 = {}
     \<and> (\<forall>ks. mset (order ks) = mset ks)
     \<and> xb_reach order ps (source_alloc i dp) (source_free i dp) (source_stock i dp) (source_trim i dp) (xb_create nb bs mem psz) s0 c)"

lemma xtensor_reachD:
  assumes "xtensor_reach order i dp T ps nb bs mem psz (b, s)"
  shows "xb_inv ps b (source_held i dp s)" "source_good i dp T s" "xb_padding b = Some 0" "xb_config b = (nb, bs, psz, mem)" "mset (order ks) = mset ks"
proof -
  obtain s0 where s0: "page_geometry ps mem" "source_good i dp T s0" "source_held i dp s0 = {}" and ord: "\<And>ks. mset (order ks) = mset ks"
    and r: "xb_reach order ps (source_alloc i dp) (source_free i dp) (source_stock i dp) (source_trim i dp) (xb_create nb bs mem psz) s0 (b, s)"
    using assms unfolding xtensor_reach_def by blast
  note ok = kv_trim.xb_reach_ok [OF r s0 ord]
  show "xb_inv ps b (source_held i dp s)" "source_good i dp T s" "xb_padding b = Some 0" "xb_config b = (nb, bs, psz, mem)" using ok by simp_all
  show "mset (order ks) = mset ks" by (rule ord)
qed

lemma xtensor_reach_step:
  assumes "xtensor_reach order i dp T ps nb bs mem psz c"
    "xb_step order ps (source_alloc i dp) (source_free i dp) (source_stock i dp) (source_trim i dp) c c'"
  shows "xtensor_reach order i dp T ps nb bs mem psz c'"
proof -
  obtain s0 where "page_geometry ps mem" "source_good i dp T s0" "source_held i dp s0 = {}" "\<forall>ks. mset (order ks) = mset ks"
    and r: "xb_reach order ps (source_alloc i dp) (source_free i dp) (source_stock i dp) (source_trim i dp) (xb_create nb bs mem psz) s0 c"
    using assms(1) unfolding xtensor_reach_def by (elim exE conjE)
  then show ?thesis unfolding xtensor_reach_def by (intro exI [of _ s0] conjI xr_step [OF r assms(2)])
qed

text \<open>C22.  Each block has one owner: in every state that a block manager over the page allocator reaches, the pages that it holds are
  exactly the pages that the allocator lists as allocated for its group; the free list of a held page has, once each, the
  blocks of the page that are in use by nobody; a block in use lies in a held page and is either a client's, or reserved, or
  the padding block; and the count of available blocks is exact.\<close>

theorem xtensor_blocks_exact:
  assumes "xtensor_reach order i dp T ps nb bs mem psz (b, s)"
  shows "distinct (map fst (xb_avail b @ xb_full b)) \<and> set (map fst (xb_avail b @ xb_full b)) = set (allocated_virt (group_at i (nat dp) (fst s)))
    \<and> (\<forall>(p, v) \<in> set (xb_avail b @ xb_full b). distinct (vp_free_list v) \<and> set (vp_free_list v) = set (page_blocks ps mem p) - xb_taken b)
    \<and> (\<forall>k \<in> xb_taken b. get_virt_page_id ps k mem \<in> set (map fst (xb_avail b @ xb_full b)))
    \<and> (\<forall>k. (if 0 < xb_refs b k then 1 else 0) + count (mset (xb_reserved b)) k + (if xb_padding b = Some k then 1 else 0) \<le> 1)
    \<and> xb_num_avail b = (\<Sum>(p, v)\<leftarrow>xb_avail b. length (vp_free_list v))"
proof -
  note R = xtensor_reachD [OF assms]
  note J = xb_invD [OF R(1)]
  note I = pages_okD [OF J(1)]
  have mem: "xb_mem b = mem" using R(4) by (simp add: xb_config_def)
  have held: "set (map fst (xb_avail b @ xb_full b)) = source_held i dp s" using I(4) by (simp only: list.set_map)
  have "distinct (vp_free_list v) \<and> set (vp_free_list v) = set (page_blocks ps mem p) - xb_taken b" if "(p, v) \<in> set (xb_avail b @ xb_full b)" for p v
    using that I(5,7) mem by (auto simp: page_ok_def)
  moreover have "get_virt_page_id ps k mem \<in> source_held i dp s" if "k \<in> xb_taken b" for k
    using I(10) that block_in_page [OF I(2)] mem by blast
  moreover have "(if 0 < xb_refs b k then 1 else 0) + count (mset (xb_reserved b)) k + (if xb_padding b = Some k then 1 else 0) \<le> (1 :: nat)" for k
  proof -
    have "count (mset (xb_reserved b)) k = (if k \<in> set (xb_reserved b) then 1 else 0)" using J(2) by (simp add: distinct_count_atmost_1)
    then show ?thesis using J(3,5,6) [of k] by auto
  qed
  ultimately show ?thesis using I(3,9) held by (auto simp: source_held_def)
qed



text \<open>Release undoes allocation: dropping all blocks of an allocation never fails, and gives back every client's count of
  references as it was; only reserved blocks that the allocation took are not reserved any more.\<close>

theorem xtensor_release_roundtrip:
  assumes "xtensor_reach order i dp T ps nb bs mem psz (b, s)" "xb_allocate order ps (source_alloc i dp) n b s = Some (Inr xs, b1, s1)"
  shows "\<exists>b2 s2. drop_blocks order ps (source_free i dp) xs b1 s1 = Some (b2, s2) \<and> xb_refs b2 = xb_refs b
    \<and> xb_taken b2 = xb_taken b - set xs \<and> source_held i dp s2 = set (map fst (xb_avail b2 @ xb_full b2))"
proof -
  note R = xtensor_reachD [OF assms(1)]
  have A: "source_good i dp T s1" "xb_inv ps b1 (source_held i dp s1)" "distinct xs" "\<And>k. k \<in> set xs \<Longrightarrow> xb_refs b k = 0 \<and> k \<noteq> 0"
    "xb_refs b1 = (\<lambda>k. if k \<in> set xs then 1 else xb_refs b k)" "xb_padding b1 = xb_padding b" "set (xb_reserved b1) = set (xb_reserved b) - set xs"
    using kv.xb_allocate_ok [OF R(1,2,5), of n] assms(2) R(3) by auto
  obtain b2 s2 where D: "drop_blocks order ps (source_free i dp) xs b1 s1 = Some (b2, s2)" "xb_inv ps b2 (source_held i dp s2)"
    "xb_refs b2 = (\<lambda>k. if k \<in> set xs then xb_refs b1 k - 1 else xb_refs b1 k)" "xb_padding b2 = xb_padding b1" "xb_reserved b2 = xb_reserved b1"
    using kv.xb_drop_blocks_ok [OF A(2,1) R(5) A(3)] A(4,5) by auto
  have refs: "xb_refs b2 = xb_refs b" using A(4,5) D(3) by auto
  moreover have "xb_taken b2 = xb_taken b - set xs"
    using refs A(4,6,7) D(4,5) R(3) by (auto simp: xb_taken_def)
  moreover have "source_held i dp s2 = set (map fst (xb_avail b2 @ xb_full b2))"
    using pages_okD(4) [OF xb_invD(1) [OF D(2)]] by (simp only: list.set_map)
  ultimately show ?thesis using D(1) by blast
qed

text \<open>The number of used blocks counts a reserved block twice: when the block size divides the page size it is the number of
  blocks that are in use, the reserved ones among them, plus the number of reserved ones.\<close>

theorem reserved_counted_twice:
  assumes "xtensor_reach order i dp T ps nb bs mem ps (b, s)" "mem dvd ps"
  shows "get_num_allocated_blocks b = card (xb_taken b) + length (xb_reserved b)"
proof -
  note R = xtensor_reachD [OF assms(1)]
  have "xb_mem b = mem" "xb_page_size b = ps" using R(4) by (simp_all add: xb_config_def)
  then show ?thesis using card_used [OF xb_invD(1) [OF R(1)]] assms(2) by (simp add: get_num_allocated_blocks_def Let_def)
qed


section \<open>Runs\<close>

text \<open>Two virtual pages of four bytes, two blocks of two bytes in each; the first block is the padding.\<close>

definition xrun_start :: source where
  "xrun_start = (snd (the (register_model ''m'' 1 (page_init 4 4 1 1 True page_empty))), [])"

definition xrun_padded :: "xtensor_blocks \<times> source" where
  "xrun_padded = snd (the (reserve_xtensor_padding_blocks (\<lambda>ks. ks) 4 (source_alloc ''m'' 0) (xb_create 4 1 2 4) xrun_start))"

definition xrun_allocate :: "nat \<Rightarrow> xtensor_blocks \<times> source \<Rightarrow> ((string + nat list) \<times> xtensor_blocks \<times> source) option" where
  "xrun_allocate n c = xb_allocate (\<lambda>ks. ks) 4 (source_alloc ''m'' 0) n (fst c) (snd c)"

definition xrun_full :: "xtensor_blocks \<times> source" where "xrun_full = snd (the (xrun_allocate 3 xrun_padded))"

lemma xrun_padded_reach: "xtensor_reach (\<lambda>ks. ks) ''m'' 0 {#} 4 4 1 2 4 xrun_padded"
proof -
  have e: "reserve_xtensor_padding_blocks (\<lambda>ks. ks) 4 (source_alloc ''m'' 0) (xb_create 4 1 2 4) xrun_start = Some (Inr [0], xrun_padded)"
    unfolding xrun_padded_def by (rule some_pair) code_simp+
  have "register_model ''m'' 1 (page_init 4 4 1 1 True page_empty) = Some (True, fst xrun_start)"
    unfolding xrun_start_def fst_conv by (rule some_pair) code_simp+
  from page_reach_step [OF page_reach_init ps_register [OF this]] have "page_reach (fst xrun_start, {#})" .
  moreover have "awake_at ''m'' 0 (fst xrun_start)"
  proof -
    have "\<not> Option.is_none (ps_models (fst xrun_start) ''m'')" "\<not> ms_sleeping (the (ps_models (fst xrun_start) ''m''))"
      "ps_initialized (fst xrun_start)" "valid_rank 0 (fst xrun_start)" by code_simp+
    then show ?thesis by (auto simp: awake_at_def Option.is_none_def)
  qed
  moreover have "source_held ''m'' 0 xrun_start = {}" by code_simp
  moreover have "page_geometry 4 2" by (simp add: page_geometry_def)
  moreover have "xb_reach (\<lambda>ks. ks) 4 (source_alloc ''m'' 0) (source_free ''m'' 0) (source_stock ''m'' 0) (source_trim ''m'' 0) (xb_create 4 1 2 4) xrun_start xrun_padded"
    using xr_padding [of "\<lambda>ks. ks" 4 "source_alloc ''m'' 0" _ xrun_start _ "fst xrun_padded" "snd xrun_padded"] e by simp
  ultimately show ?thesis unfolding xtensor_reach_def source_good_def by blast
qed

lemma xrun_full_eq: "xrun_allocate 3 xrun_padded = Some (Inr [1, 2, 3], xrun_full)"
  unfolding xrun_full_def by (rule some_pair) code_simp+

lemma xrun_full_reach: "xtensor_reach (\<lambda>ks. ks) ''m'' 0 {#} 4 4 1 2 4 xrun_full"
  using xrun_full_eq xtensor_reach_step [OF xrun_padded_reach]
    xs_allocate [of "\<lambda>ks. ks" 4 "source_alloc ''m'' 0" 3 "fst xrun_padded" "snd xrun_padded" "[1, 2, 3]" "fst xrun_full" "snd xrun_full"]
  by (simp add: xrun_allocate_def)

lemma xtensor_blocks_exact_witness: "xb_num_avail (fst xrun_padded) = 1 \<and> set (map fst (xb_avail (fst xrun_padded) @ xb_full (fst xrun_padded))) = {0}"
proof -
  have "xtensor_reach (\<lambda>ks. ks) ''m'' 0 {#} 4 4 1 2 4 (fst xrun_padded, snd xrun_padded)" using xrun_padded_reach by simp
  note P = xtensor_blocks_exact [OF this]
  moreover have "(\<Sum>(p, v)\<leftarrow>xb_avail (fst xrun_padded). length (vp_free_list v)) = 1"
    "set (allocated_virt (group_at ''m'' (nat 0) (fst (snd xrun_padded)))) = {0}" by code_simp+
  ultimately show ?thesis by simp
qed


lemma xtensor_release_roundtrip_witness:
  "\<exists>b2 s2. drop_blocks (\<lambda>ks. ks) 4 (source_free ''m'' 0) [1, 2, 3] (fst xrun_full) (snd xrun_full) = Some (b2, s2) \<and> xb_refs b2 = xb_refs (fst xrun_padded)"
proof -
  have r: "xtensor_reach (\<lambda>ks. ks) ''m'' 0 {#} 4 4 1 2 4 (fst xrun_padded, snd xrun_padded)" using xrun_padded_reach by simp
  have a: "xb_allocate (\<lambda>ks. ks) 4 (source_alloc ''m'' 0) 3 (fst xrun_padded) (snd xrun_padded) = Some (Inr [1, 2, 3], fst xrun_full, snd xrun_full)"
    using xrun_full_eq by (simp add: xrun_allocate_def)
  show ?thesis using xtensor_release_roundtrip [OF r a] by blast
qed

definition xrun_reserved :: "xtensor_blocks \<times> source" where
  "xrun_reserved = snd (the (try_to_reserve (\<lambda>ks. ks) 4 (source_alloc ''m'' 0) (source_stock ''m'' 0) 1 (fst xrun_padded) (snd xrun_padded)))"

lemma reserved_counted_twice_witness: "get_num_allocated_blocks (fst xrun_reserved) = 3 \<and> card (xb_taken (fst xrun_reserved)) = 2"
proof -
  have "try_to_reserve (\<lambda>ks. ks) 4 (source_alloc ''m'' 0) (source_stock ''m'' 0) 1 (fst xrun_padded) (snd xrun_padded) = Some (Inr True, xrun_reserved)"
    unfolding xrun_reserved_def by (rule some_pair) code_simp+
  then have "xtensor_reach (\<lambda>ks. ks) ''m'' 0 {#} 4 4 1 2 4 (fst xrun_reserved, snd xrun_reserved)"
    using xtensor_reach_step [OF xrun_padded_reach] xs_reserve [of "\<lambda>ks. ks" 4 "source_alloc ''m'' 0" "source_stock ''m'' 0" 1 "fst xrun_padded" "snd xrun_padded" True "fst xrun_reserved" "snd xrun_reserved"]
    by simp
  from reserved_counted_twice [OF this] have "get_num_allocated_blocks (fst xrun_reserved) = card (xb_taken (fst xrun_reserved)) + length (xb_reserved (fst xrun_reserved))"
    by simp
  moreover have "get_num_allocated_blocks (fst xrun_reserved) = 3" "length (xb_reserved (fst xrun_reserved)) = 1" by code_simp+
  ultimately show ?thesis by simp
qed

text \<open>Running out of pages is not the shortage that \<open>allocate_for_sequence\<close> answers with \<open>nullopt\<close>: the page allocator raises an
  exception, which passes through the manager; only a page that cannot be mapped makes it return \<open>nullopt\<close>.\<close>

theorem shortage_raises:
  "xtensor_reach (\<lambda>ks. ks) ''m'' 0 {#} 4 4 1 2 4 xrun_full
   \<and> fst (the (xb_allocate_for_sequence (\<lambda>ks. ks) 4 (source_alloc ''m'' 0) (source_free ''m'' 0) 0 1 (fst xrun_full) (snd xrun_full)))
      = Inl ''No free virtual pages left''
   \<and> fst (the (xb_allocate_for_sequence (\<lambda>ks. ks) 4 (source_alloc ''m'' 0) (source_free ''m'' 0) 0 2 (fst xrun_padded) (fst (snd xrun_padded), [False])))
      = Inr None"
proof -
  have "fst (the (xb_allocate_for_sequence (\<lambda>ks. ks) 4 (source_alloc ''m'' 0) (source_free ''m'' 0) 0 1 (fst xrun_full) (snd xrun_full)))
      = Inl ''No free virtual pages left''"
    "fst (the (xb_allocate_for_sequence (\<lambda>ks. ks) 4 (source_alloc ''m'' 0) (source_free ''m'' 0) 0 2 (fst xrun_padded) (fst (snd xrun_padded), [False])))
      = Inr None" by code_simp+
  then show ?thesis using xrun_full_reach by blast
qed

end
