(* ===== verification/Request_Order.thy ===== *)
theory Request_Order imports Xllm_Prelude Complex_Main begin

text \<open>
  The order in which the scheduler serves requests: the comparators of \<open>core/framework/request/priority_comparator.{h,cpp}\<close>.

  A request is the record of what the comparators and the scheduler read: the stage, latency and cached tokens are those of its
  first sequence, the weights the products that \<open>Request::tpot_priority_weight\<close> and its siblings return.  A \<open>double\<close> is a rational number here: latencies are positive, and the
  rounding of a division is left out; the constants of the examples below are exact in binary.  A branch that ends in
  \<open>NOT_IMPLEMENTED\<close> or \<open>LOG(FATAL)\<close> is \<open>None\<close>, and so is the top of an empty queue, which C++ does not define.
\<close>

section \<open>Requests\<close>

datatype request_priority = PRIO_DEFAULT | PRIO_HIGH | PRIO_NORMAL | PRIO_LOW

fun priority_code :: "request_priority \<Rightarrow> nat" where
  "priority_code PRIO_DEFAULT = 0"
| "priority_code PRIO_HIGH = 1"
| "priority_code PRIO_NORMAL = 2"
| "priority_code PRIO_LOW = 3"

datatype urgency = URGENCY_NORMAL | URGENCY_URGENT | URGENCY_STARVED

fun urgency_code :: "urgency \<Rightarrow> nat" where
  "urgency_code URGENCY_NORMAL = 0"
| "urgency_code URGENCY_URGENT = 1"
| "urgency_code URGENCY_STARVED = 2"

datatype sequence_stage = STAGE_PREFILL | STAGE_CHUNKED_PREFILL | STAGE_DECODE

fun stage_code :: "sequence_stage \<Rightarrow> nat" where
  "stage_code STAGE_PREFILL = 0"
| "stage_code STAGE_CHUNKED_PREFILL = 1"
| "stage_code STAGE_DECODE = 2"

record request =
  rq_id :: nat
  rq_created :: int
  rq_priority :: request_priority
  rq_deadline :: int
  rq_elapsed :: int
  rq_stage :: sequence_stage
  rq_tpot_weight :: int
  rq_ttft_weight :: int
  rq_latency :: rat
  rq_starved :: bool
  rq_urgency :: urgency
  rq_finished :: bool
  rq_cancelled :: bool
  rq_preempted :: bool
  rq_kv_tokens :: nat

definition get_remaining_time :: "request \<Rightarrow> int" where
  "get_remaining_time a = rq_deadline a - rq_elapsed a"

section \<open>Comparators\<close>

type_synonym comparator = "request \<Rightarrow> request \<Rightarrow> bool"

definition fcfs_comparator :: comparator where
  "fcfs_comparator a b \<longleftrightarrow> rq_created a > rq_created b"

definition strict_priority_comparator :: comparator where
  "strict_priority_comparator a b =
    (if rq_priority a \<noteq> rq_priority b then priority_code (rq_priority a) > priority_code (rq_priority b)
     else rq_created a > rq_created b)"

definition deadline_comparator :: comparator where
  "deadline_comparator a b \<longleftrightarrow> get_remaining_time a > get_remaining_time b"

text \<open>\<open>std::numeric_limits<double>::epsilon()\<close>.\<close>

definition double_epsilon :: rat where
  "double_epsilon = 1 / 2 ^ 52"

definition compare_densities :: "rat \<Rightarrow> rat \<Rightarrow> comparator" where
  "compare_densities da db a b = (if \<bar>da - db\<bar> < double_epsilon then rq_created a > rq_created b else da < db)"

text \<open>The stage of the first request chooses the weights of both.\<close>

definition density_comparator :: comparator where
  "density_comparator a b =
    (if rq_stage a = STAGE_DECODE
     then compare_densities (of_int (rq_tpot_weight a) / rq_latency a) (of_int (rq_tpot_weight b) / rq_latency b) a b
     else compare_densities (of_int (rq_ttft_weight a) / rq_latency a) (of_int (rq_ttft_weight b) / rq_latency b) a b)"

definition sjf_comparator :: comparator where
  "sjf_comparator a b = compare_densities (1 / rq_latency a) (1 / rq_latency b) a b"

definition stage_first :: "comparator \<Rightarrow> comparator" where
  "stage_first cmp a b =
    (if rq_stage a = rq_stage b then cmp a b else stage_code (rq_stage a) < stage_code (rq_stage b))"

definition decode_deadline_comparator :: comparator where
  "decode_deadline_comparator = stage_first deadline_comparator"

definition decode_density_comparator :: comparator where
  "decode_density_comparator = stage_first density_comparator"

definition density_with_anti_starve_comparator :: comparator where
  "density_with_anti_starve_comparator a b =
    (if rq_starved a \<and> rq_starved b then deadline_comparator a b
     else if \<not> rq_starved a \<and> \<not> rq_starved b then density_comparator a b
     else \<not> rq_starved a \<and> rq_starved b)"

definition decode_density_with_anti_starve_comparator :: comparator where
  "decode_density_with_anti_starve_comparator a b =
    (if rq_stage a = STAGE_DECODE \<and> rq_stage b = STAGE_DECODE then density_comparator a b
     else if rq_stage a \<noteq> STAGE_DECODE \<and> rq_stage b \<noteq> STAGE_DECODE then density_with_anti_starve_comparator a b
     else stage_code (rq_stage a) < stage_code (rq_stage b))"

definition urgency_density_comparator :: comparator where
  "urgency_density_comparator a b =
    (if rq_urgency a = rq_urgency b
     then (case rq_urgency a of
         URGENCY_URGENT \<Rightarrow> decode_density_with_anti_starve_comparator a b
       | URGENCY_NORMAL \<Rightarrow> deadline_comparator a b
       | URGENCY_STARVED \<Rightarrow> density_comparator a b)
     else urgency_code (rq_urgency a) < urgency_code (rq_urgency b))"

definition urgency_priority_comparator :: comparator where
  "urgency_priority_comparator a b =
    (if rq_urgency a = rq_urgency b
     then (case rq_urgency a of
         URGENCY_URGENT \<Rightarrow> strict_priority_comparator a b
       | URGENCY_NORMAL \<Rightarrow> deadline_comparator a b
       | URGENCY_STARVED \<Rightarrow> strict_priority_comparator a b)
     else urgency_code (rq_urgency a) < urgency_code (rq_urgency b))"

definition decode_urgency_density_comparator :: comparator where
  "decode_urgency_density_comparator a b =
    (if rq_stage a \<noteq> STAGE_DECODE \<and> rq_stage b \<noteq> STAGE_DECODE then urgency_density_comparator a b
     else stage_code (rq_stage a) < stage_code (rq_stage b))"

definition named_comparator :: "string \<Rightarrow> comparator option" where
  "named_comparator strategy =
    (if strategy = ''fcfs'' then Some fcfs_comparator
     else if strategy = ''priority'' then Some strict_priority_comparator
     else if strategy = ''deadline'' then Some deadline_comparator
     else if strategy = ''sjf'' then Some sjf_comparator
     else if strategy = ''decode_density'' then Some decode_density_comparator
     else if strategy = ''density'' then Some density_comparator
     else if strategy = ''multi_slo_and_prio'' then Some urgency_density_comparator
     else if strategy = ''decode_urgency_density'' then Some decode_urgency_density_comparator
     else if strategy = ''urgency_priority'' then Some urgency_priority_comparator
     else if strategy = ''decode_deadline'' then Some decode_deadline_comparator
     else None)"

definition create_comparator :: "string \<Rightarrow> bool \<Rightarrow> comparator option" where
  "create_comparator strategy is_reversed =
    map_option (\<lambda>cmp a b. if is_reversed then cmp b a else cmp a b) (named_comparator strategy)"

section \<open>Strict weak orders\<close>

text \<open>What the containers and the sort of the C++ library demand of a comparator: irreflexivity, transitivity and transitivity of
  the equivalence, in the form of asymmetry and of its cotransitivity.\<close>

locale weak_order =
  fixes lt :: "'a \<Rightarrow> 'a \<Rightarrow> bool"
  assumes asym: "lt a b \<Longrightarrow> \<not> lt b a"
    and cotrans: "lt a c \<Longrightarrow> lt a b \<or> lt b c"
begin

lemma irrefl: "\<not> lt a a"
  using asym by blast

lemma lt_trans: "lt a b \<Longrightarrow> lt b c \<Longrightarrow> lt a c"
  using asym cotrans by blast

lemma not_after_trans: "\<not> lt b a \<Longrightarrow> \<not> lt c b \<Longrightarrow> \<not> lt c a"
  using cotrans by blast

lemma lt_not_after: "lt a b \<Longrightarrow> \<not> lt c b \<Longrightarrow> lt a c"
  using cotrans by blast

lemma not_after_lt: "\<not> lt b a \<Longrightarrow> lt b c \<Longrightarrow> lt a c"
  using cotrans by blast

lemma reverse: "weak_order (\<lambda>a b. lt b a)"
  by unfold_locales (use asym cotrans in blast)+

end

lemma weak_order_measure: "weak_order (\<lambda>a b. f a < (f b :: 'b::linorder))"
  by unfold_locales auto

lemma weak_order_measure_rev: "weak_order (\<lambda>a b. f b < (f a :: 'b::linorder))"
  by unfold_locales auto

text \<open>An order by a first key and inside of a key by an order that may depend on it.\<close>

lemma weak_order_lex:
  assumes inner: "\<And>k. weak_order (cmp k)"
  shows "weak_order (\<lambda>a b. if key a = key b then cmp (key a) a b else key a < (key b :: 'k::linorder))"
proof
  fix a b
  assume "if key a = key b then cmp (key a) a b else key a < key b"
  then show "\<not> (if key b = key a then cmp (key b) b a else key b < key a)"
    using weak_order.asym [OF inner] by (auto split: if_splits)
next
  fix a b c
  assume a: "if key a = key c then cmp (key a) a c else key a < key c"
  show "(if key a = key b then cmp (key a) a b else key a < key b) \<or> (if key b = key c then cmp (key b) b c else key b < key c)"
  proof (cases "key a = key b \<and> key b = key c")
    case True
    then show ?thesis using a weak_order.cotrans [OF inner, of "key c" a c b] by auto
  next
    case False
    then show ?thesis using a by (cases "key a = key b"; cases "key b = key c"; cases "key a = key c") auto
  qed
qed

section \<open>Which comparators are strict weak orders\<close>

interpretation fcfs: weak_order fcfs_comparator
  using weak_order_measure_rev [of rq_created] by (simp add: fcfs_comparator_def [abs_def])

interpretation deadline: weak_order deadline_comparator
  using weak_order_measure_rev [of get_remaining_time] by (simp add: deadline_comparator_def [abs_def])

lemma priority_code_inj [simp]: "priority_code p = priority_code q \<longleftrightarrow> p = q"
  by (cases p; cases q) simp_all

lemma urgency_code_inj [simp]: "urgency_code u = urgency_code v \<longleftrightarrow> u = v"
  by (cases u; cases v) simp_all

lemma stage_code_inj [simp]: "stage_code s = stage_code t \<longleftrightarrow> s = t"
  by (cases s; cases t) simp_all

interpretation strict_priority: weak_order strict_priority_comparator
proof -
  have "weak_order (\<lambda>a b. if - int (priority_code (rq_priority a)) = - int (priority_code (rq_priority b))
                          then fcfs_comparator a b else - int (priority_code (rq_priority a)) < - int (priority_code (rq_priority b)))"
    by (rule weak_order_lex) (rule fcfs.weak_order_axioms)
  moreover have "strict_priority_comparator =
      (\<lambda>a b. if - int (priority_code (rq_priority a)) = - int (priority_code (rq_priority b))
             then fcfs_comparator a b else - int (priority_code (rq_priority a)) < - int (priority_code (rq_priority b)))"
    by (intro ext) (simp add: strict_priority_comparator_def fcfs_comparator_def)
  ultimately show "weak_order strict_priority_comparator" by simp
qed

lemma stage_first_weak_order:
  assumes "weak_order cmp"
  shows "weak_order (stage_first cmp)"
  using weak_order_lex [of "\<lambda>_. cmp" "\<lambda>a. stage_code (rq_stage a)", OF assms]
  by (simp add: stage_first_def [abs_def])

interpretation decode_deadline: weak_order decode_deadline_comparator
  unfolding decode_deadline_comparator_def by (rule stage_first_weak_order) (rule deadline.weak_order_axioms)

interpretation urgency_priority: weak_order urgency_priority_comparator
proof -
  let ?cmp = "\<lambda>k. if k = urgency_code URGENCY_NORMAL then deadline_comparator else strict_priority_comparator"
  have "weak_order (\<lambda>a b. if urgency_code (rq_urgency a) = urgency_code (rq_urgency b) then ?cmp (urgency_code (rq_urgency a)) a b
                          else urgency_code (rq_urgency a) < urgency_code (rq_urgency b))"
    by (rule weak_order_lex) (auto intro: deadline.weak_order_axioms strict_priority.weak_order_axioms)
  moreover have "urgency_priority_comparator =
      (\<lambda>a b. if urgency_code (rq_urgency a) = urgency_code (rq_urgency b) then ?cmp (urgency_code (rq_urgency a)) a b
             else urgency_code (rq_urgency a) < urgency_code (rq_urgency b))"
    by (intro ext) (auto simp: urgency_priority_comparator_def split: urgency.splits)
  ultimately show "weak_order urgency_priority_comparator" by simp
qed

text \<open>The strategies whose comparator is a strict weak order.\<close>

definition ordered_strategies :: "string list" where
  "ordered_strategies = [''fcfs'', ''priority'', ''deadline'', ''urgency_priority'', ''decode_deadline'']"

lemma ordered_strategy:
  assumes "strategy \<in> set ordered_strategies"
  obtains cmp where "create_comparator strategy is_reversed = Some cmp" "weak_order cmp"
proof -
  obtain c where c: "named_comparator strategy = Some c" "weak_order c"
    using assms fcfs.weak_order_axioms strict_priority.weak_order_axioms deadline.weak_order_axioms
      urgency_priority.weak_order_axioms decode_deadline.weak_order_axioms
    by (auto simp: ordered_strategies_def named_comparator_def)
  have "weak_order (\<lambda>a b. if is_reversed then c b a else c a b)"
    by (cases is_reversed) (simp_all add: c(2) weak_order.reverse [OF c(2)])
  then show thesis
    by (intro that [of "\<lambda>a b. if is_reversed then c b a else c a b"]) (simp_all add: create_comparator_def c(1))
qed

text \<open>The comparators of the strategies fcfs, priority, deadline, urgency_priority and decode_deadline are strict weak orders, reversed
  or not: asymmetric, and whenever one request comes before another, a third one is behind the first or before the second.\<close>

theorem comparators_weak_order:
  assumes "strategy \<in> set ordered_strategies"
  shows "\<exists>cmp. create_comparator strategy is_reversed = Some cmp \<and> (\<forall>a b. cmp a b \<longrightarrow> \<not> cmp b a) \<and>
               (\<forall>a b c. cmp a c \<longrightarrow> cmp a b \<or> cmp b c)"
  by (rule ordered_strategy [OF assms, of is_reversed]) (metis weak_order.asym weak_order.cotrans)

theorem comparators_weak_order_witness:
  "\<exists>cmp. create_comparator ''urgency_priority'' True = Some cmp \<and> (\<forall>a b. cmp a b \<longrightarrow> \<not> cmp b a) \<and>
         (\<forall>a b c. cmp a c \<longrightarrow> cmp a b \<or> cmp b c)"
  by (rule comparators_weak_order) (simp add: ordered_strategies_def)

text \<open>A request in its decode stage and one in its prefill stage, each before the other for the density order.\<close>

definition sample_request :: request where
  "sample_request = \<lparr>rq_id = 0, rq_created = 0, rq_priority = PRIO_NORMAL, rq_deadline = 0, rq_elapsed = 0, rq_stage = STAGE_DECODE,
     rq_tpot_weight = 1, rq_ttft_weight = 1, rq_latency = 1, rq_starved = False, rq_urgency = URGENCY_NORMAL, rq_finished = False, rq_cancelled = False, rq_preempted = False,
     rq_kv_tokens = 0\<rparr>"

text \<open>The comparator of the strategy density is no strict weak order: of a request in its decode stage and one in its prefill stage,
  each can come before the other, and with the tolerance three requests can come before each other in a cycle.\<close>

theorem density_not_weak_order:
  "\<exists>cmp. create_comparator ''density'' is_reversed = Some cmp \<and> (\<exists>a b. cmp a b \<and> cmp b a) \<and>
         (\<exists>a b c. rq_stage a = STAGE_DECODE \<and> rq_stage b = STAGE_DECODE \<and> rq_stage c = STAGE_DECODE \<and>
                  cmp a b \<and> cmp b c \<and> cmp c a)"
proof -
  obtain a b where mixed: "density_comparator a b" "density_comparator b a"
    by (rule that [of "sample_request\<lparr>rq_tpot_weight := 1, rq_ttft_weight := 2\<rparr>"
                      "sample_request\<lparr>rq_stage := STAGE_PREFILL, rq_tpot_weight := 2, rq_ttft_weight := 1\<rparr>"])
       (simp_all add: density_comparator_def compare_densities_def sample_request_def double_epsilon_def)
  let ?c = "\<lambda>k t. sample_request\<lparr>rq_tpot_weight := k, rq_latency := 2 ^ 54, rq_created := t\<rparr>"
  obtain x y z where stages: "rq_stage x = STAGE_DECODE" "rq_stage y = STAGE_DECODE" "rq_stage z = STAGE_DECODE"
    and cycle: "density_comparator x y" "density_comparator y z" "density_comparator z x"
    by (rule that [of "?c 1 0" "?c 7 2" "?c 4 1"])
       (simp_all add: density_comparator_def compare_densities_def sample_request_def double_epsilon_def)
  let ?cmp = "\<lambda>a b. if is_reversed then density_comparator b a else density_comparator a b"
  have "\<exists>a b. ?cmp a b \<and> ?cmp b a" using mixed by (cases is_reversed) auto
  moreover have "\<exists>a b c. rq_stage a = STAGE_DECODE \<and> rq_stage b = STAGE_DECODE \<and> rq_stage c = STAGE_DECODE \<and>
                          ?cmp a b \<and> ?cmp b c \<and> ?cmp c a"
    using cycle stages by (cases is_reversed) (simp, blast)+
  moreover have "create_comparator ''density'' is_reversed = Some ?cmp"
    by (simp add: create_comparator_def named_comparator_def)
  ultimately show ?thesis by blast
qed

end
