(* ===== verification/Request_Queue.thy ===== *)
theory Request_Queue imports Request_Order "HOL-Library.Multiset" begin

text \<open>
  The queues of requests, \<open>core/scheduler/request_priority_queue.h\<close>, their choice by the scheduler
  (\<open>ContinuousScheduler::create_queues\<close>) and what they promise: a locale states what a queue that serves in order is,
  its lemma says that a loop which takes the top until the queue is empty sees every request once and in order.
  A branch that ends in \<open>NOT_IMPLEMENTED\<close> is \<open>None\<close>, and so is the top of an empty queue, which C++ does not define.
\<close>

section \<open>Queues\<close>

text \<open>The three kinds of queue with their contents: a heap's requests in no order, a set's in its order, a deque's from front to back.
  The tie between equal requests at the top of a heap is the argument \<open>pick\<close>, since the library leaves it open.  A
  \<open>std::set\<close> is searched from its begin, which for a strict weak order finds the same place as the search in a tree.\<close>

datatype request_queue =
    Heap_Queue comparator "request list"
  | Set_Queue comparator "request list"
  | Deque_Queue "request list"

fun queue_elems :: "request_queue \<Rightarrow> request list" where
  "queue_elems (Heap_Queue c xs) = xs"
| "queue_elems (Set_Queue c xs) = xs"
| "queue_elems (Deque_Queue xs) = xs"

fun set_insert :: "comparator \<Rightarrow> request \<Rightarrow> request list \<Rightarrow> request list" where
  "set_insert c x [] = [x]"
| "set_insert c x (y # ys) = (if c x y then x # y # ys else if c y x then y # set_insert c x ys else y # ys)"

fun queue_push :: "request \<Rightarrow> request_queue \<Rightarrow> request_queue" where
  "queue_push x (Heap_Queue c xs) = Heap_Queue c (x # xs)"
| "queue_push x (Set_Queue c xs) = Set_Queue c (set_insert c x xs)"
| "queue_push x (Deque_Queue xs) = Deque_Queue (x # xs)"

fun queue_push_at :: "request \<Rightarrow> bool \<Rightarrow> request_queue \<Rightarrow> request_queue option" where
  "queue_push_at x back (Heap_Queue c xs) = Some (Heap_Queue c (x # xs))"
| "queue_push_at x back (Set_Queue c xs) = None"
| "queue_push_at x back (Deque_Queue xs) = Some (Deque_Queue (if back then xs @ [x] else x # xs))"

type_synonym heap_pick = "comparator \<Rightarrow> request list \<Rightarrow> request"

fun queue_top :: "heap_pick \<Rightarrow> request_queue \<Rightarrow> request option" where
  "queue_top pick (Heap_Queue c xs) = (if xs = [] then None else Some (pick c xs))"
| "queue_top pick (Set_Queue c xs) = (if xs = [] then None else Some (hd xs))"
| "queue_top pick (Deque_Queue xs) = (if xs = [] then None else Some (hd xs))"

fun queue_pop_top :: "heap_pick \<Rightarrow> request_queue \<Rightarrow> request_queue option" where
  "queue_pop_top pick (Heap_Queue c xs) = (if xs = [] then None else Some (Heap_Queue c (remove1 (pick c xs) xs)))"
| "queue_pop_top pick (Set_Queue c xs) = (if xs = [] then None else Some (Set_Queue c (tl xs)))"
| "queue_pop_top pick (Deque_Queue xs) = (if xs = [] then None else Some (Deque_Queue (tl xs)))"

fun queue_back :: "request_queue \<Rightarrow> request option" where
  "queue_back (Heap_Queue c xs) = None"
| "queue_back (Set_Queue c xs) = (if xs = [] then None else Some (last xs))"
| "queue_back (Deque_Queue xs) = (if xs = [] then None else Some (last xs))"

fun queue_pop_back :: "request_queue \<Rightarrow> request_queue option" where
  "queue_pop_back (Heap_Queue c xs) = None"
| "queue_pop_back (Set_Queue c xs) = (if xs = [] then None else Some (Set_Queue c (butlast xs)))"
| "queue_pop_back (Deque_Queue xs) = (if xs = [] then None else Some (Deque_Queue (butlast xs)))"

definition queue_empty :: "request_queue \<Rightarrow> bool" where "queue_empty q \<longleftrightarrow> queue_elems q = []"
definition queue_size :: "request_queue \<Rightarrow> nat" where "queue_size q = length (queue_elems q)"

fun queue_clone :: "request_queue \<Rightarrow> request_queue" where
  "queue_clone (Set_Queue c xs) = Set_Queue c (fold (set_insert c) xs [])"
| "queue_clone q = q"

text \<open>\<open>std::stable_sort\<close> as insertion from the right: an element goes before those that are not before it.  A set queue inherits the
  empty default of \<open>sort\<close>.\<close>

fun insert_before :: "comparator \<Rightarrow> request \<Rightarrow> request list \<Rightarrow> request list" where
  "insert_before c x [] = [x]"
| "insert_before c x (y # ys) = (if c y x then y # insert_before c x ys else x # y # ys)"

definition stable_sort :: "comparator \<Rightarrow> request list \<Rightarrow> request list" where
  "stable_sort c xs = foldr (insert_before c) xs []"

fun supports_sort :: "request_queue \<Rightarrow> bool" where
  "supports_sort (Deque_Queue xs) = True"
| "supports_sort q = False"

fun queue_sort :: "comparator \<Rightarrow> request_queue \<Rightarrow> request_queue option" where
  "queue_sort c (Heap_Queue d xs) = None"
| "queue_sort c (Set_Queue d xs) = Some (Set_Queue d xs)"
| "queue_sort c (Deque_Queue xs) = Some (Deque_Queue (stable_sort c xs))"

text \<open>The loop \<open>while (!queue->empty()) { use(queue->top()); queue->pop_top(); }\<close> of \<open>preempt_all_running_requests\<close> and
  \<open>abort_all_running_requests\<close>: the requests it sees.  The size of the queue is fuel enough.\<close>

fun drain_loop :: "heap_pick \<Rightarrow> nat \<Rightarrow> request_queue \<Rightarrow> (request list \<times> request_queue) option" where
  "drain_loop pick n q =
    (if queue_empty q then Some ([], q)
     else case n of 0 \<Rightarrow> None
       | Suc m \<Rightarrow> (case (queue_top pick q, queue_pop_top pick q) of
           (Some x, Some q') \<Rightarrow> map_option (\<lambda>(xs, r). (x # xs, r)) (drain_loop pick m q')
         | _ \<Rightarrow> None))"

declare drain_loop.simps [simp del]

definition drain :: "heap_pick \<Rightarrow> request_queue \<Rightarrow> (request list \<times> request_queue) option" where
  "drain pick q = drain_loop pick (queue_size q) q"

text \<open>The queues of the scheduler for a strategy: for prefill, for chunked prefill and for decode.\<close>

definition create_queues :: "string \<Rightarrow> (request_queue \<times> request_queue \<times> request_queue) option" where
  "create_queues strategy =
    (if strategy = ''multi_slo_and_prio'' \<or> strategy = ''fcfs'' then Some (Deque_Queue [], Deque_Queue [], Deque_Queue [])
     else case (create_comparator strategy False, create_comparator strategy True) of
       (Some p, Some d) \<Rightarrow> Some (Heap_Queue p [], Set_Queue d [], Set_Queue d [])
     | _ \<Rightarrow> None)"

section \<open>A queue that serves in order\<close>

text \<open>Nothing in \<open>xs\<close> comes before an element in front of it.\<close>

abbreviation in_order :: "('a \<Rightarrow> 'a \<Rightarrow> bool) \<Rightarrow> 'a list \<Rightarrow> bool" where
  "in_order before \<equiv> sorted_wrt (\<lambda>a b. \<not> before b a)"

locale serving_queue =
  fixes elems :: "'q \<Rightarrow> 'a list" and before :: "'q \<Rightarrow> 'a \<Rightarrow> 'a \<Rightarrow> bool"
    and top :: "'q \<Rightarrow> 'a option" and pop :: "'q \<Rightarrow> 'q option" and ok :: "'q \<Rightarrow> bool"
  assumes serve: "ok q \<Longrightarrow> elems q \<noteq> [] \<Longrightarrow>
    \<exists>x q'. top q = Some x \<and> pop q = Some q' \<and> x \<in> set (elems q) \<and> (\<forall>y \<in> set (elems q). \<not> before q y x) \<and>
           mset (elems q') = mset (elems q) - {#x#} \<and> before q' = before q \<and> ok q'"
begin

lemma pop_size:
  assumes "ok q" "elems q \<noteq> []"
  obtains x q' where "top q = Some x" "pop q = Some q'" "ok q'" "before q' = before q" "mset (elems q) = add_mset x (mset (elems q'))"
    "length (elems q) = Suc (length (elems q'))" "\<forall>y \<in> set (elems q). \<not> before q y x"
proof -
  obtain x q' where a: "top q = Some x" "pop q = Some q'" "x \<in> set (elems q)" "\<forall>y \<in> set (elems q). \<not> before q y x"
      "mset (elems q') = mset (elems q) - {#x#}" "before q' = before q" "ok q'"
    using serve [OF assms] by blast
  have m: "mset (elems q) = add_mset x (mset (elems q'))" using a by (simp add: insert_DiffM)
  then have "length (elems q) = Suc (length (elems q'))" by (metis size_add_mset size_mset)
  then show thesis using a m by (intro that)
qed

text \<open>Taking the top \<open>n\<close> times.\<close>

fun serve_all :: "nat \<Rightarrow> 'q \<Rightarrow> ('a list \<times> 'q) option" where
  "serve_all 0 q = Some ([], q)"
| "serve_all (Suc n) q = (case (top q, pop q) of
     (Some x, Some q') \<Rightarrow> map_option (\<lambda>(xs, r). (x # xs, r)) (serve_all n q') | _ \<Rightarrow> None)"

lemma serve_all_in_order:
  assumes "ok q" "n = length (elems q)"
  shows "\<exists>xs r. serve_all n q = Some (xs, r) \<and> in_order (before q) xs \<and> mset xs = mset (elems q) \<and> elems r = [] \<and> ok r"
  using assms
proof (induction n arbitrary: q)
  case 0
  then show ?case by simp
next
  case (Suc n)
  then have ne: "elems q \<noteq> []" by auto
  obtain x q' where s: "top q = Some x" "pop q = Some q'" "ok q'" "before q' = before q"
      and m: "mset (elems q) = add_mset x (mset (elems q'))" "length (elems q) = Suc (length (elems q'))"
      and least: "\<forall>y \<in> set (elems q). \<not> before q y x"
    by (rule pop_size [OF Suc.prems(1) ne])
  obtain xs r where r: "serve_all n q' = Some (xs, r)" "in_order (before q') xs" "mset xs = mset (elems q')" "elems r = []" "ok r"
    using Suc.IH [OF s(3)] Suc.prems(2) m(2) by auto
  have "set xs \<subseteq> set (elems q)" using m(1) r(3) by (metis set_mset_add_mset_insert set_mset_mset subset_insertI)
  then show ?case using s m r least by (auto simp: s)
qed

end

section \<open>The queues serve in order\<close>

text \<open>What the library promises of the top of a heap: it is one of its elements and none is to be served before it.\<close>

definition heap_law :: "comparator \<Rightarrow> heap_pick \<Rightarrow> bool" where
  "heap_law c pick \<longleftrightarrow> (\<forall>xs. xs \<noteq> [] \<longrightarrow> pick c xs \<in> set xs \<and> (\<forall>x \<in> set xs. \<not> c (pick c xs) x))"

fun queue_before :: "request_queue \<Rightarrow> comparator" where
  "queue_before (Heap_Queue c xs) = (\<lambda>a b. c b a)"
| "queue_before (Set_Queue c xs) = c"
| "queue_before (Deque_Queue xs) = (\<lambda>a b. False)"

fun queue_ok :: "heap_pick \<Rightarrow> request_queue \<Rightarrow> bool" where
  "queue_ok pick (Heap_Queue c xs) \<longleftrightarrow> weak_order c \<and> heap_law c pick"
| "queue_ok pick (Set_Queue c xs) \<longleftrightarrow> weak_order c \<and> sorted_wrt c xs"
| "queue_ok pick (Deque_Queue xs) \<longleftrightarrow> True"

interpretation rq: serving_queue queue_elems queue_before "queue_top pick" "queue_pop_top pick" "queue_ok pick" for pick
proof
  fix q assume ok: "queue_ok pick q" and ne: "queue_elems q \<noteq> []"
  show "\<exists>x q'. queue_top pick q = Some x \<and> queue_pop_top pick q = Some q' \<and> x \<in> set (queue_elems q) \<and>
          (\<forall>y \<in> set (queue_elems q). \<not> queue_before q y x) \<and> mset (queue_elems q') = mset (queue_elems q) - {#x#} \<and>
          queue_before q' = queue_before q \<and> queue_ok pick q'"
  proof (cases q)
    case (Heap_Queue c xs)
    then show ?thesis using ok ne by (simp add: heap_law_def)
  next
    case (Set_Queue c xs)
    then obtain y ys where xs: "xs = y # ys" using ne by (cases xs) auto
    have w: "weak_order c" using ok Set_Queue by simp
    show ?thesis using ok Set_Queue xs by (auto simp: weak_order.irrefl [OF w] dest: weak_order.asym [OF w])
  next
    case (Deque_Queue xs)
    then show ?thesis using ne by (cases xs) auto
  qed
qed


text \<open>The loop of the scheduler is the loop of the interface.\<close>

lemma drain_loop_serves:
  assumes "queue_ok pick q" "n = length (queue_elems q)"
  shows "drain_loop pick n q = rq.serve_all pick n q"
  using assms
proof (induction n arbitrary: q)
  case 0
  then show ?case by (simp add: drain_loop.simps queue_empty_def)
next
  case (Suc n)
  then have ne: "queue_elems q \<noteq> []" by auto
  obtain x q' where "queue_top pick q = Some x" "queue_pop_top pick q = Some q'" "queue_ok pick q'"
      "length (queue_elems q) = Suc (length (queue_elems q'))"
    by (rule rq.pop_size [OF Suc.prems(1) ne])
  then show ?case using Suc ne by (subst drain_loop.simps) (simp add: queue_empty_def)
qed

lemma drain_in_order:
  assumes "queue_ok pick q"
  shows "\<exists>xs r. drain pick q = Some (xs, r) \<and> in_order (queue_before q) xs \<and> mset xs = mset (queue_elems q) \<and> queue_elems r = []"
  using rq.serve_all_in_order [OF assms refl] by (auto simp: drain_def queue_size_def drain_loop_serves [OF assms refl])

lemma drain_deque: "drain pick (Deque_Queue xs) = Some (xs, Deque_Queue [])"
proof -
  have "drain_loop pick (length xs) (Deque_Queue xs) = Some (xs, Deque_Queue [])"
    by (induction xs) (simp_all add: drain_loop.simps queue_empty_def)
  then show ?thesis by (simp add: drain_def queue_size_def)
qed

section \<open>A set queue\<close>

definition equal_for :: "comparator \<Rightarrow> request \<Rightarrow> request \<Rightarrow> bool" where
  "equal_for c a b \<longleftrightarrow> \<not> c a b \<and> \<not> c b a"

lemma set_insert_subset: "set (set_insert c x xs) \<subseteq> insert x (set xs)" "set xs \<subseteq> set (set_insert c x xs)"
  by (induction xs) auto

lemma set_insert_sorted:
  assumes "weak_order c" "sorted_wrt c xs"
  shows "sorted_wrt c (set_insert c x xs)"
  using assms(2)
proof (induction xs)
  case (Cons y ys)
  show ?case
  proof (cases "c x y")
    case True
    then show ?thesis using Cons.prems weak_order.lt_trans [OF assms(1), of x y] by auto
  next
    case False
    then show ?thesis using Cons set_insert_subset(1) [of c x ys] by auto
  qed
qed simp

lemma set_insert_kept:
  assumes "weak_order c" "sorted_wrt c xs" "y \<in> set xs" "equal_for c x y"
  shows "set_insert c x xs = xs"
  using assms(2,3)
proof (induction xs)
  case (Cons z zs)
  have "\<not> c x z" using Cons.prems assms(4) weak_order.lt_trans [OF assms(1), of x z y] by (auto simp: equal_for_def)
  then show ?case using Cons assms(4) by (auto simp: equal_for_def)
qed simp

lemma set_insert_new: "\<forall>y \<in> set xs. \<not> equal_for c x y \<Longrightarrow> mset (set_insert c x xs) = add_mset x (mset xs)"
  by (induction xs) (auto simp: equal_for_def)

text \<open>After pushing requests into an empty set one of each class of equal requests is there.\<close>

lemma equal_for_trans:
  assumes "weak_order c" "equal_for c a b" "equal_for c b d"
  shows "equal_for c a d"
  using assms weak_order.not_after_trans [OF assms(1)] by (auto simp: equal_for_def)

definition push_all :: "request list \<Rightarrow> request_queue \<Rightarrow> request_queue" where
  "push_all rs q = fold queue_push rs q"

lemma push_all_set:
  assumes w: "weak_order c" and "sorted_wrt c xs"
  shows "\<exists>ys. push_all rs (Set_Queue c xs) = Set_Queue c ys \<and> sorted_wrt c ys \<and> set xs \<subseteq> set ys \<and> set ys \<subseteq> set xs \<union> set rs \<and>
           (\<forall>r \<in> set rs. \<exists>y \<in> set ys. r = y \<or> equal_for c r y)"
  using assms(2)
proof (induction rs arbitrary: xs)
  case Nil
  then show ?case by (simp add: push_all_def)
next
  case (Cons r rs)
  obtain ys where ys: "push_all rs (Set_Queue c (set_insert c r xs)) = Set_Queue c ys" "sorted_wrt c ys"
      "set (set_insert c r xs) \<subseteq> set ys" "set ys \<subseteq> set (set_insert c r xs) \<union> set rs"
      "\<forall>r \<in> set rs. \<exists>y \<in> set ys. r = y \<or> equal_for c r y"
    using Cons.IH [OF set_insert_sorted [OF w Cons.prems, of r]] by blast
  have "\<exists>y \<in> set (set_insert c r xs). r = y \<or> equal_for c r y"
  proof (cases "\<exists>y \<in> set xs. equal_for c r y")
    case True
    then show ?thesis using set_insert_subset(2) [of xs c r] by blast
  next
    case False
    then have "mset (set_insert c r xs) = add_mset r (mset xs)" by (intro set_insert_new) blast
    then show ?thesis by (metis insertI1 set_mset_add_mset_insert set_mset_mset)
  qed
  then show ?case
    using ys set_insert_subset(1) [of c r xs] set_insert_subset(2) [of xs c r] by (auto simp: push_all_def; blast)
qed

lemma strict_sorted_distinct:
  assumes "weak_order c" "sorted_wrt c xs"
  shows "distinct xs" "i < length xs \<Longrightarrow> j < length xs \<Longrightarrow> equal_for c (xs ! i) (xs ! j) \<Longrightarrow> i = j"
proof -
  show e: "i = j" if "i < length xs" "j < length xs" "equal_for c (xs ! i) (xs ! j)" for i j
    using that sorted_wrt_nth_less [OF assms(2)] by (metis equal_for_def nat_neq_iff)
  show "distinct xs"
    unfolding distinct_conv_nth using e by (metis equal_for_def weak_order.irrefl [OF assms(1)])
qed

section \<open>The sort of a deque\<close>

lemma mset_insert_before [simp]: "mset (insert_before c x xs) = add_mset x (mset xs)"
  by (induction xs) auto

lemma set_insert_before [simp]: "set (insert_before c x xs) = insert x (set xs)"
  by (metis mset_insert_before set_mset_add_mset_insert set_mset_mset)

lemma insert_before_in_order:
  assumes "weak_order c" "in_order c xs"
  shows "in_order c (insert_before c x xs)"
  using assms(2)
proof (induction xs)
  case (Cons y ys)
  show ?case
  proof (cases "c y x")
    case True
    then show ?thesis using Cons weak_order.asym [OF assms(1)] by auto
  next
    case False
    then show ?thesis using Cons.prems weak_order.not_after_trans [OF assms(1)] by auto
  qed
qed simp

lemma insert_before_stable:
  assumes "weak_order c" "in_order c xs"
  shows "filter (equal_for c a) (insert_before c x xs) = filter (equal_for c a) (x # xs)"
  using assms(2)
proof (induction xs)
  case (Cons y ys)
  have "\<not> (equal_for c a x \<and> equal_for c a y)" if "c y x"
    using that weak_order.not_after_lt [OF assms(1)] by (metis equal_for_def)
  then show ?case using Cons by auto
qed simp

lemma stable_sort_permutes [simp]: "mset (stable_sort c xs) = mset xs"
  by (induction xs) (simp_all add: stable_sort_def)

lemma stable_sort_in_order: "weak_order c \<Longrightarrow> in_order c (stable_sort c xs)"
  by (induction xs) (simp_all add: stable_sort_def insert_before_in_order)

lemma stable_sort_stable:
  assumes "weak_order c"
  shows "filter (equal_for c a) (stable_sort c xs) = filter (equal_for c a) xs"
proof (induction xs)
  case (Cons x xs)
  then show ?case
    using insert_before_stable [OF assms stable_sort_in_order [OF assms], of a x xs] by (simp add: stable_sort_def)
qed (simp add: stable_sort_def)

section \<open>Properties\<close>

text \<open>A top of a heap that satisfies the law, for the examples.\<close>

definition first_best :: heap_pick where
  "first_best c xs = fold (\<lambda>x m. if c m x then x else m) xs (hd xs)"

lemma first_best_law:
  assumes "weak_order c"
  shows "heap_law c first_best"
proof -
  let ?best = "\<lambda>xs m. fold (\<lambda>x m. if c m x then x else m) xs m"
  have best: "?best xs m \<in> insert m (set xs) \<and> (\<forall>x \<in> insert m (set xs). \<not> c (?best xs m) x)" for xs m
  proof (induction xs arbitrary: m)
    case Nil
    then show ?case by (simp add: weak_order.irrefl [OF assms])
  next
    case (Cons y ys)
    let ?m = "if c m y then y else m"
    have ih: "?best ys ?m \<in> insert ?m (set ys)" "\<forall>x \<in> insert ?m (set ys). \<not> c (?best ys ?m) x"
      using Cons.IH [of ?m] by blast+
    have "\<not> c (?best ys ?m) m" "\<not> c (?best ys ?m) y"
      using ih(2) weak_order.lt_trans [OF assms, of "?best ys ?m" m y] weak_order.cotrans [OF assms, of "?best ys ?m" y m]
      by (cases "c m y"; simp; blast)+
    then show ?case using ih by (auto split: if_splits)
  qed
  have "first_best c xs \<in> set xs \<and> (\<forall>x \<in> set xs. \<not> c (first_best c xs) x)" if "xs \<noteq> []" for xs
    using best [of xs "hd xs"] that by (simp add: first_best_def insert_absorb)
  then show ?thesis by (simp add: heap_law_def)
qed

lemma push_all_heap: "push_all rs (Heap_Queue c xs) = Heap_Queue c (rev rs @ xs)"
  by (induction rs arbitrary: xs) (simp_all add: push_all_def)

text \<open>The waiting requests are served in the order of the strategy: with the comparator of a strategy that is a strict weak order,
  taking the top of the prefill queue until it is empty sees every request pushed exactly once, and none behind one that it comes
  before.  The choice between equal requests is left to the library.\<close>

theorem waiting_served_in_order:
  assumes "strategy \<in> set ordered_strategies" "strategy \<noteq> ''fcfs''" "create_comparator strategy False = Some c" "heap_law c pick"
  shows "\<exists>p h d xs r. create_queues strategy = Some (p, h, d) \<and> drain pick (push_all rs p) = Some (xs, r) \<and> queue_empty r \<and>
                      mset xs = mset rs \<and> sorted_wrt (\<lambda>a b. \<not> c a b) xs"
proof -
  have w: "weak_order c" by (rule ordered_strategy [OF assms(1), of False]) (use assms(3) in simp)
  obtain d where d: "create_comparator strategy True = Some d" by (rule ordered_strategy [OF assms(1), of True])
  have q: "create_queues strategy = Some (Heap_Queue c [], Set_Queue d [], Set_Queue d [])"
    using assms(1-3) d by (auto simp: create_queues_def ordered_strategies_def)
  show ?thesis using drain_in_order [of pick "Heap_Queue c (rev rs)"] w assms(4) q by (auto simp: queue_empty_def push_all_heap)
qed

theorem waiting_served_in_order_witness:
  "\<exists>p h d xs r. create_queues ''priority'' = Some (p, h, d) \<and>
     drain first_best (push_all [sample_request\<lparr>rq_priority := PRIO_LOW\<rparr>, sample_request\<lparr>rq_priority := PRIO_HIGH\<rparr>] p) = Some (xs, r) \<and>
     queue_empty r \<and> mset xs = mset [sample_request\<lparr>rq_priority := PRIO_LOW\<rparr>, sample_request\<lparr>rq_priority := PRIO_HIGH\<rparr>] \<and>
     sorted_wrt (\<lambda>a b. \<not> strict_priority_comparator a b) xs"
  by (rule waiting_served_in_order)
     (simp_all add: ordered_strategies_def create_comparator_def named_comparator_def first_best_law strict_priority.weak_order_axioms)

text \<open>The decode queue of a strategy is a set: of requests that the comparator does not tell apart it keeps exactly one, whatever
  their number.  It loses every other one that is pushed, and keeps the ones it has in the order of the strategy.\<close>

theorem decode_queue_one_per_class:
  assumes "strategy \<in> set ordered_strategies" "strategy \<noteq> ''fcfs''" "create_comparator strategy True = Some c"
  shows "\<exists>p h d xs. create_queues strategy = Some (p, h, d) \<and> queue_elems (push_all rs d) = xs \<and> sorted_wrt c xs \<and> set xs \<subseteq> set rs \<and>
           (\<forall>r \<in> set rs. \<exists>!i. i < length xs \<and> equal_for c r (xs ! i))"
proof -
  have w: "weak_order c" by (rule ordered_strategy [OF assms(1), of True]) (use assms(3) in simp)
  obtain p where p: "create_comparator strategy False = Some p" by (rule ordered_strategy [OF assms(1), of False])
  have q: "create_queues strategy = Some (Heap_Queue p [], Set_Queue c [], Set_Queue c [])"
    using assms(1-3) p by (auto simp: create_queues_def ordered_strategies_def)
  obtain xs where xs: "push_all rs (Set_Queue c []) = Set_Queue c xs" "sorted_wrt c xs" "set xs \<subseteq> set rs"
      "\<forall>r \<in> set rs. \<exists>y \<in> set xs. r = y \<or> equal_for c r y"
    using push_all_set [OF w, of "[]" rs] by auto
  have "\<exists>!i. i < length xs \<and> equal_for c r (xs ! i)" if r: "r \<in> set rs" for r
  proof -
    have refl: "equal_for c r r" by (simp add: equal_for_def weak_order.irrefl [OF w])
    obtain y where y: "y \<in> set xs" "equal_for c r y" using xs(4) r refl by blast
    then obtain i where i: "i < length xs" "xs ! i = y" by (metis in_set_conv_nth)
    have "j = i" if j: "j < length xs" "equal_for c r (xs ! j)" for j
    proof -
      have "equal_for c (xs ! j) r" using j(2) by (auto simp: equal_for_def)
      then have "equal_for c (xs ! j) (xs ! i)" using equal_for_trans [OF w] y(2) i(2) by blast
      then show ?thesis using strict_sorted_distinct(2) [OF w xs(2) j(1) i(1)] by simp
    qed
    then show ?thesis using y i by blast
  qed
  then show ?thesis using q xs by auto
qed

theorem decode_queue_one_per_class_witness:
  "\<exists>p h d xs. create_queues ''priority'' = Some (p, h, d) \<and>
     queue_elems (push_all [sample_request, sample_request\<lparr>rq_id := 1\<rparr>, sample_request\<lparr>rq_priority := PRIO_HIGH\<rparr>] d) = xs \<and>
     sorted_wrt (\<lambda>a b. strict_priority_comparator b a) xs \<and>
     set xs \<subseteq> set [sample_request, sample_request\<lparr>rq_id := 1\<rparr>, sample_request\<lparr>rq_priority := PRIO_HIGH\<rparr>] \<and>
     (\<forall>r \<in> set [sample_request, sample_request\<lparr>rq_id := 1\<rparr>, sample_request\<lparr>rq_priority := PRIO_HIGH\<rparr>].
        \<exists>!i. i < length xs \<and> equal_for (\<lambda>a b. strict_priority_comparator b a) r (xs ! i))"
  by (rule decode_queue_one_per_class) (simp_all add: ordered_strategies_def create_comparator_def named_comparator_def)

text \<open>Sorting a deque with the comparator of a strategy that is a strict weak order puts its requests into the order of the strategy,
  loses none and keeps equal ones in the order they had; a heap cannot be sorted and a set is left as it is.\<close>

theorem queue_sort_exact:
  assumes "strategy \<in> set ordered_strategies" "create_comparator strategy is_reversed = Some c"
  shows "\<exists>ys. queue_sort c (Deque_Queue xs) = Some (Deque_Queue ys) \<and> sorted_wrt (\<lambda>a b. \<not> c b a) ys \<and> mset ys = mset xs \<and>
              (\<forall>a. filter (equal_for c a) ys = filter (equal_for c a) xs)"
proof -
  have w: "weak_order c" by (rule ordered_strategy [OF assms(1), of is_reversed]) (use assms(2) in simp)
  show ?thesis using stable_sort_in_order [OF w] stable_sort_stable [OF w] by simp
qed

theorem queue_sort_exact_witness:
  "\<exists>ys. queue_sort (\<lambda>a b. fcfs_comparator b a) (Deque_Queue [sample_request\<lparr>rq_created := 5\<rparr>, sample_request]) = Some (Deque_Queue ys) \<and>
        sorted_wrt (\<lambda>a b. \<not> fcfs_comparator a b) ys \<and> mset ys = mset [sample_request\<lparr>rq_created := 5\<rparr>, sample_request] \<and>
        (\<forall>a. filter (equal_for (\<lambda>a b. fcfs_comparator b a) a) ys =
             filter (equal_for (\<lambda>a b. fcfs_comparator b a) a) [sample_request\<lparr>rq_created := 5\<rparr>, sample_request])"
  by (rule queue_sort_exact [of "''fcfs''" True]) (simp_all add: ordered_strategies_def create_comparator_def named_comparator_def)

end
