(* ===== verification/Request_Flow.thy ===== *)
theory Request_Flow imports Request_Queue begin

text \<open>
  The way of the requests through the queues of \<open>ContinuousScheduler\<close>: the choice of the policy, taking in new requests, taking out
  finished ones, the requeue phase of the three policies (\<open>core/scheduler/scheduler_policy.cpp\<close>, \<open>prefill_first_policy.cpp\<close>,
  \<open>decode_first_policy.cpp\<close>, \<open>unified_policy.cpp\<close>), and what a pause does with the requests
  (\<open>continuous_scheduler.cpp\<close>).

  The cache manager is seen through the calls of \<open>deallocate\<close> only, which are logged; what they leave of a request is the argument
  \<open>release\<close>.  The verdict of \<open>reject_queued_request\<close> is the argument \<open>reject\<close>.  A null pointer in the list of running
  requests is \<open>None\<close>.  \<open>None\<close> as a result is \<open>LOG(FATAL)\<close>.  Sharing of prefixes, expansion of sequences and metrics
  are left out.
\<close>

section \<open>The choice of the policy\<close>

record scheduler_options =
  so_strategy :: string
  so_chunked_prefill :: bool
  so_mix_batch :: bool
  so_cp_size :: int
  so_kv_split_size :: int
  so_speculative_tokens :: int
  so_pd_prefill :: bool
  so_linear_layers :: bool

record batch_mode =
  bm_strategy :: string
  bm_chunked_prefill :: bool
  bm_mix_batch :: bool

definition resolve_batch_mode :: "scheduler_options \<Rightarrow> batch_mode" where
  "resolve_batch_mode opts =
    (let strategy = so_strategy opts;
         chunked = so_chunked_prefill opts \<or> strategy = ''multi_slo_and_prio'';
         mix = so_mix_batch opts;
         mix = mix \<and> \<not> (so_cp_size opts > 1 \<or> so_kv_split_size opts > 1 \<or> so_speculative_tokens opts > 0);
         mix = mix \<and> chunked;
         mix = mix \<and> \<not> so_pd_prefill opts
     in \<lparr>bm_strategy = strategy, bm_chunked_prefill = chunked, bm_mix_batch = mix\<rparr>)"

definition scheduler_batch_mode :: "scheduler_options \<Rightarrow> batch_mode" where
  "scheduler_batch_mode opts =
    (let mode = resolve_batch_mode opts
     in if so_linear_layers opts \<and> bm_mix_batch mode \<and> bm_strategy mode = ''multi_slo_and_prio''
        then mode\<lparr>bm_mix_batch := False\<rparr> else mode)"

datatype scheduler_policy = UNIFIED_POLICY | DECODE_FIRST_POLICY | PREFILL_FIRST_POLICY

definition create_scheduler_policy :: "batch_mode \<Rightarrow> scheduler_policy" where
  "create_scheduler_policy mode =
    (if bm_mix_batch mode \<and> bm_strategy mode = ''multi_slo_and_prio'' then UNIFIED_POLICY
     else if bm_mix_batch mode then DECODE_FIRST_POLICY else PREFILL_FIRST_POLICY)"

section \<open>The state of the scheduler\<close>

record sched =
  sc_prefill :: request_queue
  sc_chunk :: request_queue
  sc_decode :: request_queue
  sc_unified :: "request list"
  sc_restore :: "request list"
  sc_running :: "request option list"
  sc_last_prefill :: bool
  sc_released :: "request list"
  sc_failed :: "request list"

definition init_sched :: "string \<Rightarrow> sched option" where
  "init_sched strategy = map_option (\<lambda>(p, h, d).
     \<lparr>sc_prefill = p, sc_chunk = h, sc_decode = d, sc_unified = [], sc_restore = [], sc_running = [], sc_last_prefill = False,
      sc_released = [], sc_failed = []\<rparr>) (create_queues strategy)"

section \<open>Taking in and taking out\<close>

text \<open>A request that has cached tokens already comes from a prefill instance and joins the running ones.\<close>

fun take_in :: "(request \<Rightarrow> bool) \<Rightarrow> request list \<Rightarrow> sched \<Rightarrow> sched option" where
  "take_in reject [] s = Some s"
| "take_in reject (r # rs) s =
    (if reject r then take_in reject rs s
     else if rq_kv_tokens r = 0
     then (case queue_push_at r True (sc_prefill s) of
         None \<Rightarrow> None | Some q \<Rightarrow> take_in reject rs (s\<lparr>sc_prefill := q\<rparr>))
     else take_in reject rs (s\<lparr>sc_running := sc_running s @ [Some r]\<rparr>))"

definition drain_request_queue :: "string \<Rightarrow> (request \<Rightarrow> bool) \<Rightarrow> request list \<Rightarrow> sched \<Rightarrow> sched option" where
  "drain_request_queue strategy reject incoming s =
    (if incoming = [] then Some s
     else if strategy = ''fcfs''
     then (case create_comparator ''fcfs'' True of
         None \<Rightarrow> None | Some c \<Rightarrow> take_in reject (stable_sort c incoming) s)
     else take_in reject incoming s)"

definition drain_request_queue_unified :: "(request \<Rightarrow> bool) \<Rightarrow> request list \<Rightarrow> sched \<Rightarrow> sched" where
  "drain_request_queue_unified reject incoming s = s\<lparr>sc_unified := sc_unified s @ filter (\<lambda>r. \<not> reject r) incoming\<rparr>"

definition is_over :: "request \<Rightarrow> bool" where
  "is_over r \<longleftrightarrow> rq_finished r \<or> rq_cancelled r"

text \<open>The finished requests from the last running one to the first, and the running ones with their places emptied.\<close>

fun collect_loop :: "request option list \<Rightarrow> request list \<times> request option list" where
  "collect_loop [] = ([], [])"
| "collect_loop (r # rs) =
    (case collect_loop rs of (fs, rs') \<Rightarrow>
      (case r of None \<Rightarrow> (fs, None # rs')
       | Some a \<Rightarrow> if is_over a then (fs @ [a], None # rs') else (fs, Some a # rs')))"

definition collect_finished :: "sched \<Rightarrow> request list \<times> sched" where
  "collect_finished s =
    (case collect_loop (sc_running s) of (fs, rs) \<Rightarrow>
      (fs, s\<lparr>sc_running := rs, sc_released := sc_released s @ fs\<rparr>))"

definition drain_decode_restore_waiting :: "request list \<Rightarrow> sched \<Rightarrow> request list \<times> sched" where
  "drain_decode_restore_waiting finished s =
    (let over = filter is_over (sc_restore s)
     in (finished @ over, s\<lparr>sc_restore := filter (\<lambda>r. \<not> is_over r) (sc_restore s), sc_released := sc_released s @ over\<rparr>))"

section \<open>The requeue phases\<close>

fun requeue_each :: "(request \<Rightarrow> sched \<Rightarrow> sched option) \<Rightarrow> request option list \<Rightarrow> sched \<Rightarrow> sched option" where
  "requeue_each put [] s = Some s"
| "requeue_each put (None # rs) s = requeue_each put rs s"
| "requeue_each put (Some r # rs) s =
    (if is_over r then None
     else case put r s of None \<Rightarrow> None | Some s' \<Rightarrow> requeue_each put rs s')"

definition reset_batch_state :: "sched \<Rightarrow> sched" where
  "reset_batch_state s = s\<lparr>sc_last_prefill := False, sc_running := []\<rparr>"

definition put_chunk_at :: "bool \<Rightarrow> request \<Rightarrow> sched \<Rightarrow> sched option" where
  "put_chunk_at back r s = map_option (\<lambda>q. s\<lparr>sc_chunk := q\<rparr>) (queue_push_at r back (sc_chunk s))"

definition put_decode_at :: "bool \<Rightarrow> request \<Rightarrow> sched \<Rightarrow> sched option" where
  "put_decode_at back r s = map_option (\<lambda>q. s\<lparr>sc_decode := q\<rparr>) (queue_push_at r back (sc_decode s))"

definition put_chunk :: "request \<Rightarrow> sched \<Rightarrow> sched option" where
  "put_chunk r s = Some (s\<lparr>sc_chunk := queue_push r (sc_chunk s)\<rparr>)"

definition put_decode :: "request \<Rightarrow> sched \<Rightarrow> sched option" where
  "put_decode r s = Some (s\<lparr>sc_decode := queue_push r (sc_decode s)\<rparr>)"

definition decode_first_put :: "request \<Rightarrow> sched \<Rightarrow> sched option" where
  "decode_first_put r = (if rq_stage r = STAGE_CHUNKED_PREFILL then put_chunk_at False r else put_decode r)"

definition requeue_decode_first :: "sched \<Rightarrow> sched option" where
  "requeue_decode_first s = map_option reset_batch_state (requeue_each decode_first_put (rev (sc_running s)) s)"

definition requeue_unified :: "sched \<Rightarrow> sched option" where
  "requeue_unified s = map_option reset_batch_state
     (requeue_each (\<lambda>r s. Some (s\<lparr>sc_unified := sc_unified s @ [r]\<rparr>)) (rev (sc_running s)) s)"

definition sort_waiting :: "comparator \<Rightarrow> request_queue \<Rightarrow> request_queue option" where
  "sort_waiting c q = (if \<not> queue_empty q \<and> supports_sort q then queue_sort c q else Some q)"

definition fcfs_put_back :: "bool \<Rightarrow> request \<Rightarrow> sched \<Rightarrow> sched option" where
  "fcfs_put_back chunked r = (if chunked \<and> rq_stage r = STAGE_CHUNKED_PREFILL then put_chunk_at True r else put_decode_at True r)"

definition prefill_first_put :: "bool \<Rightarrow> request \<Rightarrow> sched \<Rightarrow> sched option" where
  "prefill_first_put chunked r = (if chunked \<and> rq_stage r = STAGE_CHUNKED_PREFILL then put_chunk r else put_decode r)"

definition requeue_prefill_first :: "batch_mode \<Rightarrow> sched \<Rightarrow> sched option" where
  "requeue_prefill_first mode s =
    (if bm_strategy mode = ''fcfs''
     then (case (if sc_last_prefill s
                 then requeue_each (fcfs_put_back (bm_chunked_prefill mode)) (sc_running s) s
                 else requeue_each (put_decode_at False) (rev (sc_running s)) s) of
         None \<Rightarrow> None
       | Some s1 \<Rightarrow> (let s2 = reset_batch_state s1 in
           case create_comparator ''fcfs'' True of
             None \<Rightarrow> None
           | Some c \<Rightarrow> (case (sort_waiting c (sc_prefill s2), sort_waiting c (sc_chunk s2)) of
               (Some p, Some h) \<Rightarrow> Some (s2\<lparr>sc_prefill := p, sc_chunk := h\<rparr>)
             | _ \<Rightarrow> None)))
     else map_option reset_batch_state (requeue_each (prefill_first_put (bm_chunked_prefill mode)) (sc_running s) s))"

text \<open>The phases of \<open>prepare_batch\<close> before the policy selects the requests of the next batch.\<close>

definition begin_batch :: "batch_mode \<Rightarrow> (request \<Rightarrow> bool) \<Rightarrow> request list \<Rightarrow> sched \<Rightarrow> (request list \<times> sched) option" where
  "begin_batch mode reject incoming s =
    (let policy = create_scheduler_policy mode in
     case (if policy = UNIFIED_POLICY then Some (drain_request_queue_unified reject incoming s)
           else drain_request_queue (bm_strategy mode) reject incoming s) of
       None \<Rightarrow> None
     | Some s1 \<Rightarrow> (case collect_finished s1 of (fs, s2) \<Rightarrow>
         (case drain_decode_restore_waiting fs s2 of (fs', s3) \<Rightarrow>
           map_option (Pair fs') (case policy of
               UNIFIED_POLICY \<Rightarrow> requeue_unified s3
             | DECODE_FIRST_POLICY \<Rightarrow> requeue_decode_first s3
             | PREFILL_FIRST_POLICY \<Rightarrow> requeue_prefill_first mode s3))))"

section \<open>Preemption and cancellation of everything\<close>

text \<open>The queues that are emptied are not the one pushed to, so that they can be emptied at first.\<close>

fun preempt_one :: "(request \<Rightarrow> request) \<Rightarrow> request option \<Rightarrow> sched \<Rightarrow> sched" where
  "preempt_one release None s = s"
| "preempt_one release (Some r) s =
    (if rq_finished r then s
     else s\<lparr>sc_released := sc_released s @ [r], sc_prefill := queue_push ((release r)\<lparr>rq_preempted := True\<rparr>) (sc_prefill s)\<rparr>)"

definition preempt_all_running_requests :: "(request \<Rightarrow> request) \<Rightarrow> heap_pick \<Rightarrow> sched \<Rightarrow> sched option" where
  "preempt_all_running_requests release pick s =
    (if length (sc_running s) + queue_size (sc_decode s) + queue_size (sc_chunk s) = 0 then Some s
     else case (drain pick (sc_chunk s), drain pick (sc_decode s)) of
       (Some (cs, ch), Some (ds, dq)) \<Rightarrow>
         Some ((fold (preempt_one release) (sc_running s @ map Some cs @ map Some ds) s)
                 \<lparr>sc_chunk := ch, sc_decode := dq, sc_running := []\<rparr>)
     | _ \<Rightarrow> None)"

fun abort_one :: "(request \<Rightarrow> request) \<Rightarrow> request option \<Rightarrow> sched \<Rightarrow> sched" where
  "abort_one release None s = s"
| "abort_one release (Some r) s =
    (if rq_finished r then s
     else s\<lparr>sc_released := sc_released s @ [r], sc_failed := sc_failed s @ [(release r)\<lparr>rq_cancelled := True\<rparr>]\<rparr>)"

definition abort_all_running_requests :: "(request \<Rightarrow> request) \<Rightarrow> heap_pick \<Rightarrow> sched \<Rightarrow> sched option" where
  "abort_all_running_requests release pick s =
    (if length (sc_running s) + queue_size (sc_decode s) + queue_size (sc_chunk s) + length (sc_restore s) = 0 then Some s
     else case (drain pick (sc_chunk s), drain pick (sc_decode s)) of
       (Some (cs, ch), Some (ds, dq)) \<Rightarrow>
         Some ((fold (abort_one release) (sc_running s @ map Some cs @ map Some ds @ map Some (sc_restore s)) s)
                 \<lparr>sc_chunk := ch, sc_decode := dq, sc_restore := [], sc_running := []\<rparr>)
     | _ \<Rightarrow> None)"

section \<open>Where the requests are\<close>

definition somes :: "request option list \<Rightarrow> request list" where
  "somes = List.map_filter (\<lambda>r. r)"

lemma somes_simps [simp]:
  "somes [] = []" "somes (None # rs) = somes rs" "somes (Some r # rs) = r # somes rs"
  "somes (rs @ rs') = somes rs @ somes rs'" "somes (map Some xs) = xs" "somes (rev rs) = rev (somes rs)"
proof -
  show a: "somes (rs @ rs') = somes rs @ somes rs'" for rs rs' by (simp add: somes_def map_filter_def)
  show b: "somes [] = []" "somes (None # rs) = somes rs" "somes (Some r # rs) = r # somes rs" for r rs
    by (simp_all add: somes_def map_filter_simps)
  show "somes (map Some xs) = xs" by (induction xs) (simp_all add: b)
  show "somes (rev rs) = rev (somes rs)"
  proof (induction rs)
    case (Cons r rs)
    then show ?case by (cases r) (simp_all add: a b)
  qed (simp add: b)
qed

definition all_requests :: "sched \<Rightarrow> request multiset" where
  "all_requests s = mset (queue_elems (sc_prefill s)) + mset (queue_elems (sc_chunk s)) + mset (queue_elems (sc_decode s)) +
     mset (sc_unified s) + mset (sc_restore s) + mset (somes (sc_running s))"

definition is_deque :: "request_queue \<Rightarrow> bool" where
  "is_deque q \<longleftrightarrow> (\<exists>xs. q = Deque_Queue xs)"

lemma is_deque_simps [simp]: "is_deque (Deque_Queue xs)" "\<not> is_deque (Heap_Queue c xs)" "\<not> is_deque (Set_Queue c xs)"
  by (auto simp: is_deque_def)

lemma is_dequeE [elim]:
  assumes "is_deque q"
  obtains xs where "q = Deque_Queue xs"
  using assms by (auto simp: is_deque_def)

definition deques :: "sched \<Rightarrow> bool" where
  "deques s \<longleftrightarrow> is_deque (sc_prefill s) \<and> is_deque (sc_chunk s) \<and> is_deque (sc_decode s)"

lemma all_requests_simps [simp]:
  "all_requests (s\<lparr>sc_prefill := q\<rparr>) + mset (queue_elems (sc_prefill s)) = all_requests s + mset (queue_elems q)"
  "all_requests (s\<lparr>sc_last_prefill := b\<rparr>) = all_requests s"
  "all_requests (s\<lparr>sc_released := rs\<rparr>) = all_requests s"
  by (simp_all add: all_requests_def)

lemma push_deque [simp]: "is_deque q \<Longrightarrow> \<exists>q'. queue_push_at r back q = Some q' \<and> is_deque q' \<and> mset (queue_elems q') = add_mset r (mset (queue_elems q))"
  "is_deque q \<Longrightarrow> is_deque (queue_push r q)" "is_deque q \<Longrightarrow> mset (queue_elems (queue_push r q)) = add_mset r (mset (queue_elems q))"
  by (auto simp: is_deque_def)

text \<open>A put that adds its request to one of the queues, requeues all of them.\<close>

definition good_put :: "(request \<Rightarrow> sched \<Rightarrow> sched option) \<Rightarrow> bool" where
  "good_put put \<longleftrightarrow> (\<forall>r s. deques s \<longrightarrow> (\<exists>s'. put r s = Some s' \<and> deques s' \<and> all_requests s' = add_mset r (all_requests s) \<and>
      sc_running s' = sc_running s \<and> sc_released s' = sc_released s))"

lemma good_puts:
  "good_put (put_chunk_at back)" "good_put (put_decode_at back)" "good_put put_chunk" "good_put put_decode"
  "good_put (\<lambda>r s. Some (s\<lparr>sc_unified := sc_unified s @ [r]\<rparr>))"
  by (auto simp: good_put_def put_chunk_at_def put_decode_at_def put_chunk_def put_decode_def deques_def is_deque_def all_requests_def)

lemma good_put_if: "good_put f \<Longrightarrow> good_put g \<Longrightarrow> good_put (\<lambda>r. if P r then f r else g r)"
  by (auto simp: good_put_def)

lemma requeue_each_all:
  assumes "good_put put" "deques s" "\<forall>r \<in> set (somes rs). \<not> is_over r"
  shows "\<exists>s'. requeue_each put rs s = Some s' \<and> deques s' \<and> all_requests s' = all_requests s + mset (somes rs) \<and>
              sc_running s' = sc_running s \<and> sc_released s' = sc_released s"
  using assms(2,3)
proof (induction rs arbitrary: s)
  case (Cons r rs)
  show ?case
  proof (cases r)
    case None
    then show ?thesis using Cons by simp
  next
    case (Some a)
    obtain s1 where "put a s = Some s1" "deques s1" "all_requests s1 = add_mset a (all_requests s)" "sc_running s1 = sc_running s"
        "sc_released s1 = sc_released s"
      using assms(1) Cons.prems(1) unfolding good_put_def by blast
    then show ?thesis using Cons.IH [of s1] Cons.prems(2) Some by auto
  qed
qed simp

lemma collect_loop_fst: "fst (collect_loop rs) = rev (filter is_over (somes rs))"
proof (induction rs)
  case (Cons r rs)
  then show ?case by (cases r) (simp_all add: split_def)
qed simp

lemma collect_loop_snd: "somes (snd (collect_loop rs)) = filter (\<lambda>r. \<not> is_over r) (somes rs)"
proof (induction rs)
  case (Cons r rs)
  then show ?case by (cases r) (simp_all add: split_def)
qed simp

lemma collect_finished_exact:
  assumes "collect_finished s = (fs, s')"
  shows "all_requests s = mset fs + all_requests s'" "\<forall>r \<in> set (somes (sc_running s')). \<not> is_over r"
    "sc_released s' = sc_released s @ fs" "deques s' = deques s"
    "set fs = {r \<in> set (somes (sc_running s)). is_over r}"
proof -
  have s': "fs = fst (collect_loop (sc_running s))"
      "s' = s\<lparr>sc_running := snd (collect_loop (sc_running s)), sc_released := sc_released s @ fs\<rparr>"
    using assms by (auto simp: collect_finished_def split: prod.splits)
  have "mset (somes (sc_running s)) = mset (filter is_over (somes (sc_running s))) + mset (filter (\<lambda>r. \<not> is_over r) (somes (sc_running s)))"
    by (simp flip: multiset_partition)
  then show "all_requests s = mset fs + all_requests s'"
    by (simp add: s' all_requests_def collect_loop_fst collect_loop_snd)
  show "\<forall>r \<in> set (somes (sc_running s')). \<not> is_over r" by (simp add: s' collect_loop_snd)
  show "sc_released s' = sc_released s @ fs" "deques s' = deques s" by (simp_all add: s'(2) deques_def)
  show "set fs = {r \<in> set (somes (sc_running s)). is_over r}" by (simp add: s'(1) collect_loop_fst)
qed

lemma drain_decode_restore_exact:
  assumes "drain_decode_restore_waiting fs s = (fs', s')"
  shows "mset fs + all_requests s = mset fs' + all_requests s'" "sc_running s' = sc_running s" "deques s' = deques s"
    "sc_released s = rel @ fs \<Longrightarrow> sc_released s' = rel @ fs'"
proof -
  have "mset (sc_restore s) = mset (filter is_over (sc_restore s)) + mset (filter (\<lambda>r. \<not> is_over r) (sc_restore s))"
    by (simp flip: multiset_partition)
  then show "mset fs + all_requests s = mset fs' + all_requests s'"
    using assms by (auto simp: drain_decode_restore_waiting_def all_requests_def Let_def)
qed (use assms in \<open>auto simp: drain_decode_restore_waiting_def deques_def Let_def\<close>)

lemma take_in_all:
  assumes "deques s"
  shows "\<exists>s'. take_in reject rs s = Some s' \<and> deques s' \<and> all_requests s' = all_requests s + mset (filter (\<lambda>r. \<not> reject r) rs) \<and>
              sc_released s' = sc_released s"
  using assms
proof (induction rs arbitrary: s)
  case (Cons r rs)
  obtain xs where p: "sc_prefill s = Deque_Queue xs" using Cons.prems by (auto simp: deques_def)
  let ?s1 = "s\<lparr>sc_prefill := Deque_Queue (xs @ [r])\<rparr>" let ?s2 = "s\<lparr>sc_running := sc_running s @ [Some r]\<rparr>"
  have "deques ?s1" "all_requests ?s1 = add_mset r (all_requests s)" "deques ?s2" "all_requests ?s2 = add_mset r (all_requests s)"
    using Cons.prems p by (auto simp: deques_def all_requests_def)
  then show ?case using Cons.IH [of ?s1] Cons.IH [of ?s2] Cons.IH [OF Cons.prems] p by auto
qed simp

lemma drain_request_queue_all:
  assumes "deques s"
  shows "\<exists>s'. drain_request_queue strategy reject incoming s = Some s' \<and> deques s' \<and>
              all_requests s' = all_requests s + mset (filter (\<lambda>r. \<not> reject r) incoming) \<and> sc_released s' = sc_released s"
proof -
  obtain c where c: "create_comparator ''fcfs'' True = Some c"
    by (simp add: create_comparator_def named_comparator_def)
  have "mset (filter P (stable_sort c incoming)) = mset (filter P incoming)" for P
    by (metis mset_filter stable_sort_permutes)
  then show ?thesis
    using take_in_all [OF assms, of reject "stable_sort c incoming"] take_in_all [OF assms, of reject incoming] assms c
    by (auto simp: drain_request_queue_def)
qed

lemma drain_request_queue_unified_all:
  "all_requests (drain_request_queue_unified reject incoming s) = all_requests s + mset (filter (\<lambda>r. \<not> reject r) incoming)"
  "deques (drain_request_queue_unified reject incoming s) = deques s"
  "sc_released (drain_request_queue_unified reject incoming s) = sc_released s"
  by (simp_all add: drain_request_queue_unified_def all_requests_def deques_def)

lemma reset_batch_state_all:
  "all_requests (reset_batch_state s) + mset (somes (sc_running s)) = all_requests s" "deques (reset_batch_state s) = deques s"
  "sc_released (reset_batch_state s) = sc_released s" "sc_running (reset_batch_state s) = []"
  by (simp_all add: reset_batch_state_def all_requests_def deques_def)

text \<open>What every requeue phase does: it moves the running requests into the queues.\<close>

definition requeued :: "sched \<Rightarrow> sched option \<Rightarrow> bool" where
  "requeued s res \<longleftrightarrow> (\<exists>s'. res = Some s' \<and> deques s' \<and> all_requests s' = all_requests s \<and> sc_running s' = [] \<and>
     sc_released s' = sc_released s)"

lemma requeue_each_reset:
  assumes "good_put put" "deques s" "\<forall>r \<in> set (somes (sc_running s)). \<not> is_over r" "mset (somes rs) = mset (somes (sc_running s))"
  shows "requeued s (map_option reset_batch_state (requeue_each put rs s))"
proof -
  have "set (somes rs) = set (somes (sc_running s))" using assms(4) by (metis set_mset_mset)
  then obtain s' where s': "requeue_each put rs s = Some s'" "deques s'" "all_requests s' = all_requests s + mset (somes rs)"
      "sc_running s' = sc_running s" "sc_released s' = sc_released s"
    using requeue_each_all [OF assms(1,2), of rs] assms(3) by auto
  then show ?thesis
    using reset_batch_state_all [of s'] assms(4) by (auto simp: requeued_def)
qed

lemma sort_waiting_all:
  assumes "is_deque q"
  shows "\<exists>q'. sort_waiting c q = Some q' \<and> is_deque q' \<and> mset (queue_elems q') = mset (queue_elems q)"
  using assms by (auto simp: sort_waiting_def is_deque_def)

lemma requeue_all:
  assumes "deques s" "\<forall>r \<in> set (somes (sc_running s)). \<not> is_over r"
  shows "requeued s (requeue_unified s)" "requeued s (requeue_decode_first s)" "requeued s (requeue_prefill_first mode s)"
proof -
  note each = requeue_each_reset [OF _ assms]
  show "requeued s (requeue_unified s)" unfolding requeue_unified_def by (rule each) (simp_all add: good_puts)
  show "requeued s (requeue_decode_first s)" unfolding requeue_decode_first_def decode_first_put_def [abs_def]
    by (rule each) (simp_all add: good_put_if good_puts)
  show "requeued s (requeue_prefill_first mode s)"
  proof (cases "bm_strategy mode = ''fcfs''")
    case False
    then show ?thesis unfolding requeue_prefill_first_def prefill_first_put_def [abs_def]
      by (simp add: each good_put_if good_puts)
  next
    case True
    let ?each = "if sc_last_prefill s then requeue_each (fcfs_put_back (bm_chunked_prefill mode)) (sc_running s) s
                 else requeue_each (put_decode_at False) (rev (sc_running s)) s"
    have "requeued s (map_option reset_batch_state ?each)"
      unfolding fcfs_put_back_def [abs_def] by (auto intro!: each good_put_if good_puts)
    then obtain s1 where s1: "?each = Some s1" "deques (reset_batch_state s1)" "all_requests (reset_batch_state s1) = all_requests s"
        "sc_released (reset_batch_state s1) = sc_released s" "sc_running (reset_batch_state s1) = []"
      by (auto simp: requeued_def)
    obtain c where c: "create_comparator ''fcfs'' True = Some c"
      by (simp add: create_comparator_def named_comparator_def)
    obtain p where p: "sort_waiting c (sc_prefill (reset_batch_state s1)) = Some p" "is_deque p"
        "mset (queue_elems p) = mset (queue_elems (sc_prefill (reset_batch_state s1)))"
      using sort_waiting_all s1(2) by (auto simp: deques_def)
    obtain h where h: "sort_waiting c (sc_chunk (reset_batch_state s1)) = Some h" "is_deque h"
        "mset (queue_elems h) = mset (queue_elems (sc_chunk (reset_batch_state s1)))"
      using sort_waiting_all s1(2) by (auto simp: deques_def)
    have "requeue_prefill_first mode s = Some ((reset_batch_state s1)\<lparr>sc_prefill := p, sc_chunk := h\<rparr>)"
      using True s1(1) c p(1) h(1) by (auto simp: requeue_prefill_first_def Let_def split: if_splits)
    then show ?thesis using s1 p h by (auto simp: requeued_def deques_def all_requests_def)
  qed
qed

end
