(* ===== verification/Scheduler_Properties.thy ===== *)
theory Scheduler_Properties imports Request_Flow begin

text \<open>
  What is proved of the queues of the scheduler: the phases in front of the selection lose no request, a pause takes every
  running request back or cancels it, and the cases where requests are lost.
\<close>

lemma init_deques: "init_sched strategy = Some s \<Longrightarrow> deques s \<longleftrightarrow> strategy = ''multi_slo_and_prio'' \<or> strategy = ''fcfs''"
  by (auto simp: init_sched_def create_queues_def deques_def split: if_splits option.splits)


text \<open>The state of a new scheduler.\<close>

definition example_sched :: "request_queue \<Rightarrow> request_queue \<Rightarrow> request option list \<Rightarrow> sched" where
  "example_sched h d running = \<lparr>sc_prefill = Deque_Queue [], sc_chunk = h, sc_decode = d, sc_unified = [], sc_restore = [],
     sc_running = running, sc_last_prefill = False, sc_released = [], sc_failed = []\<rparr>"


section \<open>Pausing\<close>

definition unfinished :: "request list \<Rightarrow> request list" where
  "unfinished rs = filter (\<lambda>r. \<not> rq_finished r) rs"

lemma unfinished_nil [simp]: "unfinished [] = []"
  by (simp add: unfinished_def)

lemma preempt_fold:
  "fold (preempt_one release) rs s =
     s\<lparr>sc_released := sc_released s @ unfinished (somes rs),
       sc_prefill := fold queue_push (map (\<lambda>r. (release r)\<lparr>rq_preempted := True\<rparr>) (unfinished (somes rs))) (sc_prefill s)\<rparr>"
proof (induction rs arbitrary: s)
  case (Cons r rs)
  then show ?case by (cases r) (simp_all add: unfinished_def)
qed (simp add: unfinished_def)

lemma abort_fold:
  "fold (abort_one release) rs s =
     s\<lparr>sc_released := sc_released s @ unfinished (somes rs),
       sc_failed := sc_failed s @ map (\<lambda>r. (release r)\<lparr>rq_cancelled := True\<rparr>) (unfinished (somes rs))\<rparr>"
proof (induction rs arbitrary: s)
  case (Cons r rs)
  then show ?case by (cases r) (simp_all add: unfinished_def)
qed (simp add: unfinished_def)

lemma push_fold_elems:
  assumes "\<forall>c xs. q \<noteq> Set_Queue c xs"
  shows "mset (queue_elems (fold queue_push rs q)) = mset (queue_elems q) + mset rs"
  using assms
proof (induction rs arbitrary: q)
  case (Cons r rs)
  then show ?case by (cases q) simp_all
qed simp

text \<open>A pause in mode keep takes every request back that runs or waits to go on, with the queues of any strategy: it ends, the running list
  and the chunk and decode queues are empty, every unfinished one of their requests gives up its cache exactly once and is in the
  prefill queue, marked as preempted, next to those that were there; and the requests that wait for a restore stay where they are.\<close>

theorem preempt_all_exact:
  assumes "queue_ok pick (sc_chunk s)" "queue_ok pick (sc_decode s)" "\<forall>c xs. sc_prefill s \<noteq> Set_Queue c xs"
  shows "\<exists>s' victims. preempt_all_running_requests release pick s = Some s' \<and>
           mset victims = mset (unfinished (somes (sc_running s) @ queue_elems (sc_chunk s) @ queue_elems (sc_decode s))) \<and>
           sc_released s' = sc_released s @ victims \<and> sc_running s' = [] \<and> queue_empty (sc_chunk s') \<and> queue_empty (sc_decode s') \<and>
           mset (queue_elems (sc_prefill s')) =
             mset (queue_elems (sc_prefill s)) + mset (map (\<lambda>r. (release r)\<lparr>rq_preempted := True\<rparr>) victims) \<and>
           sc_unified s' = sc_unified s \<and> sc_restore s' = sc_restore s"
proof (cases "length (sc_running s) + queue_size (sc_decode s) + queue_size (sc_chunk s) = 0")
  case True
  then show ?thesis
    by (intro exI [of _ s] exI [of _ "[]"]) (auto simp: preempt_all_running_requests_def queue_size_def queue_empty_def unfinished_def)
next
  case False
  obtain cs ch where c: "drain pick (sc_chunk s) = Some (cs, ch)" "mset cs = mset (queue_elems (sc_chunk s))" "queue_elems ch = []"
    using drain_in_order [OF assms(1)] by blast
  obtain ds dq where d: "drain pick (sc_decode s) = Some (ds, dq)" "mset ds = mset (queue_elems (sc_decode s))" "queue_elems dq = []"
    using drain_in_order [OF assms(2)] by blast
  let ?v = "unfinished (somes (sc_running s) @ cs @ ds)"
  have "mset ?v = mset (unfinished (somes (sc_running s) @ queue_elems (sc_chunk s) @ queue_elems (sc_decode s)))"
    using c(2) d(2) by (simp add: unfinished_def)
  moreover have "preempt_all_running_requests release pick s =
      Some ((fold (preempt_one release) (sc_running s @ map Some cs @ map Some ds) s)\<lparr>sc_chunk := ch, sc_decode := dq, sc_running := []\<rparr>)"
    using False by (simp only: preempt_all_running_requests_def c(1) d(1) option.case prod.case if_False)
  ultimately show ?thesis
    by (intro exI [of _ "(fold (preempt_one release) (sc_running s @ map Some cs @ map Some ds) s)\<lparr>sc_chunk := ch, sc_decode := dq, sc_running := []\<rparr>"] exI [of _ ?v])
       (simp add: preempt_fold queue_empty_def c(3) d(3) push_fold_elems [OF assms(3)] del: fold_append)
qed

theorem preempt_all_exact_witness:
  "\<exists>s' victims. preempt_all_running_requests (\<lambda>r. r\<lparr>rq_kv_tokens := 0\<rparr>) first_best
       (example_sched (Deque_Queue []) (Set_Queue deadline_comparator [sample_request]) [Some (sample_request\<lparr>rq_id := 1\<rparr>)]) = Some s' \<and>
     mset victims = mset (unfinished (somes (sc_running (example_sched (Deque_Queue []) (Set_Queue deadline_comparator [sample_request])
         [Some (sample_request\<lparr>rq_id := 1\<rparr>)])) @ [] @ [sample_request])) \<and>
     sc_released s' = [] @ victims \<and> sc_running s' = [] \<and> queue_empty (sc_chunk s') \<and> queue_empty (sc_decode s') \<and>
     mset (queue_elems (sc_prefill s')) = mset [] + mset (map (\<lambda>r. r\<lparr>rq_kv_tokens := 0, rq_preempted := True\<rparr>) victims) \<and>
     sc_unified s' = [] \<and> sc_restore s' = []"
  using preempt_all_exact [of first_best "example_sched (Deque_Queue []) (Set_Queue deadline_comparator [sample_request])
      [Some (sample_request\<lparr>rq_id := 1\<rparr>)]" "\<lambda>r. r\<lparr>rq_kv_tokens := 0\<rparr>"] deadline.weak_order_axioms
  by (simp add: example_sched_def)

text \<open>A pause in mode abort cancels every request that runs, waits to go on or waits for a restore: it ends, all their queues are empty,
  every unfinished one gives up its cache exactly once, is cancelled and reported, and none is scheduled again.\<close>

theorem abort_all_exact:
  assumes "queue_ok pick (sc_chunk s)" "queue_ok pick (sc_decode s)"
  shows "\<exists>s' victims. abort_all_running_requests release pick s = Some s' \<and>
           mset victims = mset (unfinished (somes (sc_running s) @ queue_elems (sc_chunk s) @ queue_elems (sc_decode s) @ sc_restore s)) \<and>
           sc_released s' = sc_released s @ victims \<and> sc_failed s' = sc_failed s @ map (\<lambda>r. (release r)\<lparr>rq_cancelled := True\<rparr>) victims \<and>
           sc_running s' = [] \<and> queue_empty (sc_chunk s') \<and> queue_empty (sc_decode s') \<and> sc_restore s' = [] \<and>
           sc_prefill s' = sc_prefill s \<and> sc_unified s' = sc_unified s"
proof (cases "length (sc_running s) + queue_size (sc_decode s) + queue_size (sc_chunk s) + length (sc_restore s) = 0")
  case True
  then show ?thesis
    by (intro exI [of _ s] exI [of _ "[]"]) (auto simp: abort_all_running_requests_def queue_size_def queue_empty_def unfinished_def)
next
  case False
  obtain cs ch where c: "drain pick (sc_chunk s) = Some (cs, ch)" "mset cs = mset (queue_elems (sc_chunk s))" "queue_elems ch = []"
    using drain_in_order [OF assms(1)] by blast
  obtain ds dq where d: "drain pick (sc_decode s) = Some (ds, dq)" "mset ds = mset (queue_elems (sc_decode s))" "queue_elems dq = []"
    using drain_in_order [OF assms(2)] by blast
  let ?v = "unfinished (somes (sc_running s) @ cs @ ds @ sc_restore s)"
  have "mset ?v = mset (unfinished (somes (sc_running s) @ queue_elems (sc_chunk s) @ queue_elems (sc_decode s) @ sc_restore s))"
    using c(2) d(2) by (simp add: unfinished_def)
  moreover have "abort_all_running_requests release pick s =
      Some ((fold (abort_one release) (sc_running s @ map Some cs @ map Some ds @ map Some (sc_restore s)) s)
              \<lparr>sc_chunk := ch, sc_decode := dq, sc_restore := [], sc_running := []\<rparr>)"
    using False by (simp only: abort_all_running_requests_def c(1) d(1) option.case prod.case if_False)
  ultimately show ?thesis
    by (intro exI [of _ "(fold (abort_one release) (sc_running s @ map Some cs @ map Some ds @ map Some (sc_restore s)) s)\<lparr>sc_chunk := ch, sc_decode := dq, sc_restore := [], sc_running := []\<rparr>"] exI [of _ ?v])
       (simp add: abort_fold queue_empty_def c(3) d(3) del: fold_append)
qed

theorem abort_all_exact_witness:
  "\<exists>s' victims. abort_all_running_requests id first_best
       (example_sched (Deque_Queue []) (Set_Queue deadline_comparator [sample_request]) [Some (sample_request\<lparr>rq_id := 1\<rparr>)]) = Some s' \<and>
     mset victims = mset (unfinished (somes (sc_running (example_sched (Deque_Queue []) (Set_Queue deadline_comparator [sample_request])
         [Some (sample_request\<lparr>rq_id := 1\<rparr>)])) @ [] @ [sample_request] @ [])) \<and>
     sc_released s' = [] @ victims \<and> sc_failed s' = [] @ map (\<lambda>r. r\<lparr>rq_cancelled := True\<rparr>) victims \<and>
     sc_running s' = [] \<and> queue_empty (sc_chunk s') \<and> queue_empty (sc_decode s') \<and> sc_restore s' = [] \<and>
     sc_prefill s' = Deque_Queue [] \<and> sc_unified s' = []"
  using abort_all_exact [of first_best "example_sched (Deque_Queue []) (Set_Queue deadline_comparator [sample_request])
      [Some (sample_request\<lparr>rq_id := 1\<rparr>)]" id] deadline.weak_order_axioms
  by (simp add: example_sched_def)

section \<open>Where requests are lost\<close>

lemma requeue_each_decode:
  assumes "\<forall>r \<in> set rs. \<not> is_over r \<and> put r = put_decode r"
  shows "requeue_each put (map Some rs) s = Some (s\<lparr>sc_decode := push_all rs (sc_decode s)\<rparr>)"
  using assms by (induction rs arbitrary: s) (simp_all add: put_decode_def push_all_def)

lemma push_all_equal:
  assumes "\<forall>r \<in> set rs. equal_for c r x"
  shows "push_all (x # rs) (Set_Queue c []) = Set_Queue c [x]"
proof -
  have "fold queue_push rs (Set_Queue c [x]) = Set_Queue c [x]"
    using assms by (induction rs) (simp_all add: equal_for_def)
  then show ?thesis by (simp add: push_all_def)
qed

lemma push_all_equal_set:
  assumes "rs \<noteq> []" "\<forall>r \<in> set rs. \<forall>r' \<in> set rs. equal_for c r r'"
  shows "\<exists>x \<in> set rs. push_all rs (Set_Queue c []) = Set_Queue c [x]"
proof -
  obtain x xs where "rs = x # xs" using assms(1) by (cases rs) auto
  then show ?thesis using push_all_equal [of xs c x] assms(2) by auto
qed

lemma collect_nothing: "\<forall>r \<in> set rs. \<not> is_over r \<Longrightarrow> collect_loop (map Some rs) = ([], map Some rs)"
  by (induction rs) simp_all

text \<open>Under the strategy deadline the decode queue compares nothing but the remaining times, which only the policies of
  multi_slo_and_prio compute: of several running requests with equal remaining times the requeue phase keeps a single one, and the
  others are in no queue of the scheduler any more, unfinished and with their cache.\<close>

theorem deadline_requests_lost:
  assumes "init_sched ''deadline'' = Some s0" "bm_strategy mode = ''deadline''" "rs \<noteq> []"
    and "\<forall>r \<in> set rs. \<not> is_over r \<and> rq_stage r = STAGE_DECODE \<and> get_remaining_time r = t"
  shows "\<exists>x s'. begin_batch mode reject [] (s0\<lparr>sc_running := map Some rs\<rparr>) = Some ([], s') \<and> x \<in> set rs \<and>
                all_requests s' = {#x#} \<and> sc_released s' = []"
proof -
  let ?c = "\<lambda>a b. deadline_comparator b a"
  have s0: "s0 = \<lparr>sc_prefill = Heap_Queue deadline_comparator [], sc_chunk = Set_Queue ?c [], sc_decode = Set_Queue ?c [],
      sc_unified = [], sc_restore = [], sc_running = [], sc_last_prefill = False, sc_released = [], sc_failed = []\<rparr>"
    using assms(1) by (simp add: init_sched_def create_queues_def create_comparator_def named_comparator_def)
  have eq: "\<forall>r \<in> set rs. \<forall>r' \<in> set rs. equal_for ?c r r'"
    using assms(4) by (simp add: equal_for_def deadline_comparator_def)
  let ?s = "s0\<lparr>sc_running := map Some rs\<rparr>"
  have begin_is: "begin_batch mode reject [] ?s = map_option (Pair [])
      (if bm_mix_batch mode then requeue_decode_first ?s else requeue_prefill_first mode ?s)"
    using assms(2,4) s0
    by (simp add: begin_batch_def create_scheduler_policy_def drain_request_queue_def collect_finished_def collect_nothing
        drain_decode_restore_waiting_def Let_def)
  let ?xs = "if bm_mix_batch mode then rev rs else rs"
  have xs: "set ?xs = set rs" "?xs \<noteq> []" using assms(3) by simp_all
  obtain x where x: "x \<in> set rs" "push_all ?xs (Set_Queue ?c []) = Set_Queue ?c [x]"
    using push_all_equal_set [of ?xs ?c] eq xs by metis
  have puts: "\<forall>r \<in> set ?xs. \<not> is_over r \<and> decode_first_put r = put_decode r"
    "\<forall>r \<in> set ?xs. \<not> is_over r \<and> prefill_first_put (bm_chunked_prefill mode) r = put_decode r"
    using assms(4) xs(1) by (simp_all add: decode_first_put_def prefill_first_put_def)
  have "(if bm_mix_batch mode then requeue_decode_first ?s else requeue_prefill_first mode ?s) =
      Some (reset_batch_state (?s\<lparr>sc_decode := Set_Queue ?c [x]\<rparr>))"
    using requeue_each_decode [OF puts(1), of ?s] requeue_each_decode [OF puts(2), of ?s] x(2) s0 assms(2)
    by (cases "bm_mix_batch mode") (simp_all add: requeue_decode_first_def requeue_prefill_first_def rev_map)
  then show ?thesis
    using begin_is x(1) s0 by (auto simp: all_requests_def reset_batch_state_def)
qed

theorem deadline_requests_lost_witness:
  "\<exists>s0 x s'. init_sched ''deadline'' = Some s0 \<and>
     begin_batch \<lparr>bm_strategy = ''deadline'', bm_chunked_prefill = False, bm_mix_batch = False\<rparr> (\<lambda>r. False) []
       (s0\<lparr>sc_running := map Some [sample_request, sample_request\<lparr>rq_id := 1\<rparr>]\<rparr>) = Some ([], s') \<and>
     x \<in> set [sample_request, sample_request\<lparr>rq_id := 1\<rparr>] \<and> all_requests s' = {#x#} \<and> sc_released s' = []"
proof -
  obtain s0 where s0: "init_sched ''deadline'' = Some s0"
    by (simp add: init_sched_def create_queues_def create_comparator_def named_comparator_def)
  show ?thesis
    using deadline_requests_lost [OF s0, of "\<lparr>bm_strategy = ''deadline'', bm_chunked_prefill = False, bm_mix_batch = False\<rparr>"
        "[sample_request, sample_request\<lparr>rq_id := 1\<rparr>]" 0 "\<lambda>r. False"] s0
    by (auto simp: sample_request_def is_over_def get_remaining_time_def)
qed

text \<open>The decode-first policy puts a request in its chunked prefill stage to the front of the chunk queue, which a set queue does not
  implement: for every strategy whose queues are sets, the requeue phase with such a request ends in a fatal error.\<close>

theorem chunked_requeue_aborts:
  assumes "sc_chunk s = Set_Queue c xs" "Some r \<in> set (sc_running s)" "rq_stage r = STAGE_CHUNKED_PREFILL"
  shows "requeue_decode_first s = None"
proof -
  have "requeue_each decode_first_put rs s = None" if "Some r \<in> set rs" "sc_chunk s = Set_Queue c xs" for rs s
    using that
  proof (induction rs arbitrary: s)
    case (Cons a rs)
    show ?case
    proof (cases a)
      case None
      then show ?thesis using Cons by simp
    next
      case (Some b)
      show ?thesis
      proof (cases "rq_stage b = STAGE_CHUNKED_PREFILL")
        case True
        then show ?thesis using Some Cons.prems(2) by (simp add: decode_first_put_def put_chunk_at_def)
      next
        case False
        then have "b \<noteq> r" using assms(3) by auto
        then show ?thesis
          using Some False Cons.IH [of "s\<lparr>sc_decode := queue_push b (sc_decode s)\<rparr>"] Cons.prems
          by (simp add: decode_first_put_def put_decode_def)
      qed
    qed
  qed simp
  then show ?thesis using assms(1,2) by (simp add: requeue_decode_first_def)
qed

theorem chunked_requeue_aborts_witness:
  "requeue_decode_first (example_sched (Set_Queue fcfs_comparator []) (Set_Queue fcfs_comparator [])
     [Some sample_request, Some (sample_request\<lparr>rq_stage := STAGE_CHUNKED_PREFILL\<rparr>)]) = None"
  by (rule chunked_requeue_aborts [where r = "sample_request\<lparr>rq_stage := STAGE_CHUNKED_PREFILL\<rparr>"]) (simp_all add: example_sched_def)

text \<open>Under the unified policy a pause in mode keep does not reach the requests of the unified queue, which keep their cache, and it puts
  the running ones into the prefill queue, which this policy never reads: the phases of every later batch leave them there.\<close>

theorem unified_preempted_stranded:
  assumes "create_scheduler_policy mode = UNIFIED_POLICY" "sc_prefill s = Deque_Queue p" "sc_chunk s = Deque_Queue []" "sc_decode s = Deque_Queue []"
    and "sc_running s = map Some rs" "\<forall>r \<in> set rs. \<not> rq_finished r"
  shows "\<exists>s'. preempt_all_running_requests release pick s = Some s' \<and> sc_unified s' = sc_unified s \<and> sc_released s' = sc_released s @ rs \<and>
              queue_elems (sc_prefill s') = rev (map (\<lambda>r. (release r)\<lparr>rq_preempted := True\<rparr>) rs) @ p \<and>
              (\<forall>reject incoming fs s''. begin_batch mode reject incoming s' = Some (fs, s'') \<longrightarrow> sc_prefill s'' = sc_prefill s')"
proof -
  have keep: "sc_prefill s'' = sc_prefill s'" if "begin_batch mode reject incoming s' = Some (fs, s'')" for reject incoming fs s' s''
  proof -
    have each: "requeue_each (\<lambda>r s. Some (s\<lparr>sc_unified := sc_unified s @ [r]\<rparr>)) rs s1 = Some s2 \<Longrightarrow> sc_prefill s2 = sc_prefill s1"
      for rs and s1 s2 :: sched
    proof (induction rs arbitrary: s1)
      case (Cons r rs)
      then show ?case by (cases r) (auto split: if_splits)
    qed simp
    show ?thesis
      using that assms(1)
      by (auto simp: begin_batch_def Let_def collect_finished_def drain_decode_restore_waiting_def drain_request_queue_unified_def
          requeue_unified_def reset_batch_state_def dest: each split: prod.splits)
  qed
  have push: "fold queue_push xs (Deque_Queue p) = Deque_Queue (rev xs @ p)" for xs p
    by (induction xs arbitrary: p) simp_all
  have un: "unfinished rs = rs" using assms(6) by (simp add: unfinished_def)
  have pre: "preempt_all_running_requests release pick s =
      Some (s\<lparr>sc_released := sc_released s @ rs, sc_prefill := Deque_Queue (rev (map (\<lambda>r. (release r)\<lparr>rq_preempted := True\<rparr>) rs) @ p),
              sc_running := []\<rparr>)"
  proof (cases "rs = []")
    case True
    then show ?thesis using assms by (simp add: preempt_all_running_requests_def queue_size_def)
  next
    case False
    then show ?thesis
      using assms un by (cases s) (simp add: preempt_all_running_requests_def drain_deque preempt_fold push queue_size_def)
  qed
  show ?thesis unfolding pre by (rule exI, intro conjI allI impI) (rule refl, simp_all, drule keep, simp)
qed

theorem unified_preempted_stranded_witness:
  "\<exists>s'. preempt_all_running_requests id first_best ((example_sched (Deque_Queue []) (Deque_Queue []) [Some sample_request])
          \<lparr>sc_unified := [sample_request\<lparr>rq_id := 1\<rparr>]\<rparr>) = Some s' \<and>
        sc_unified s' = [sample_request\<lparr>rq_id := 1\<rparr>] \<and> sc_released s' = [sample_request] \<and>
        queue_elems (sc_prefill s') = [sample_request\<lparr>rq_preempted := True\<rparr>] \<and>
        (\<forall>reject incoming fs s''. begin_batch \<lparr>bm_strategy = ''multi_slo_and_prio'', bm_chunked_prefill = True, bm_mix_batch = True\<rparr>
           reject incoming s' = Some (fs, s'') \<longrightarrow> sc_prefill s'' = sc_prefill s')"
  using unified_preempted_stranded [of "\<lparr>bm_strategy = ''multi_slo_and_prio'', bm_chunked_prefill = True, bm_mix_batch = True\<rparr>"
      "(example_sched (Deque_Queue []) (Deque_Queue []) [Some sample_request])\<lparr>sc_unified := [sample_request\<lparr>rq_id := 1\<rparr>]\<rparr>" "[]"
      "[sample_request]" id first_best]
  by (simp add: create_scheduler_policy_def example_sched_def sample_request_def)

end
