(* ===== verification/Scheduler_Pause.thy ===== *)
theory Scheduler_Pause imports Scheduler_Properties begin

text \<open>
  Pausing and resuming the scheduler, \<open>ContinuousScheduler::pause\<close>, \<open>resume\<close>, \<open>wait_until_paused\<close>, \<open>try_complete_pause\<close>
  and the first part of \<open>step\<close> in \<open>core/scheduler/continuous_scheduler.cpp\<close>.

  Clients and the loop thread share two atomic variables, so the model steps from one atomic access to the next: a client that
  pauses stores the mode and then exchanges the state, a client that resumes exchanges the state, and the loop thread is at one
  of the places of \<open>loop_place\<close>.  What a scheduling step does to the requests is left open (the argument of its event), and so is
  what the results of a batch in flight do (the argument \<open>settle\<close>).
\<close>

section \<open>State and steps\<close>

datatype pause_state = RUNNING | PAUSING | PAUSED
datatype pause_mode = MODE_KEEP | MODE_ABORT | MODE_WAIT

datatype loop_place = AT_STEP | AT_MODE | AT_HANDLE pause_mode | AT_STORE | AT_BLOCK | AT_SCHEDULE

record pausing =
  pz_state :: pause_state
  pz_mode :: pause_mode
  pz_callers :: nat
  pz_place :: loop_place
  pz_in_flight :: bool
  pz_sched :: sched

datatype pause_event =
    Pause_Mode pause_mode
  | Pause_Exchange
  | Resume
  | Loop
  | Loop_Schedule sched bool

record loop_env =
  le_release :: "request \<Rightarrow> request"
  le_pick :: heap_pick
  le_settle :: "sched \<Rightarrow> sched"

definition pause_mode_store :: "pause_mode \<Rightarrow> pausing \<Rightarrow> pausing" where
  "pause_mode_store m p = p\<lparr>pz_mode := m, pz_callers := Suc (pz_callers p)\<rparr>"

definition pause_exchange :: "pausing \<Rightarrow> pausing option" where
  "pause_exchange p =
    (if pz_callers p = 0 then None
     else Some (p\<lparr>pz_callers := pz_callers p - 1, pz_state := (if pz_state p = RUNNING then PAUSING else pz_state p)\<rparr>))"

definition resume :: "pausing \<Rightarrow> pausing" where
  "resume p = p\<lparr>pz_state := RUNNING\<rparr>"

definition is_paused :: "pausing \<Rightarrow> bool" where
  "is_paused p \<longleftrightarrow> pz_state p = PAUSED \<or> pz_state p = PAUSING"

text \<open>What \<open>wait_until_paused\<close> without a timeout returns once it may return.\<close>

definition wait_until_paused :: "pausing \<Rightarrow> bool option" where
  "wait_until_paused p = (if pz_state p \<noteq> PAUSING then Some (pz_state p = PAUSED) else None)"

text \<open>The results of a batch in flight are awaited before the requests are touched.\<close>

definition settled :: "loop_env \<Rightarrow> pausing \<Rightarrow> sched" where
  "settled env p = (if pz_in_flight p then le_settle env (pz_sched p) else pz_sched p)"

lemma settled_place [simp]: "settled env (p\<lparr>pz_place := l\<rparr>) = settled env p"
  by (simp add: settled_def)

definition handle_mode :: "loop_env \<Rightarrow> pause_mode \<Rightarrow> pausing \<Rightarrow> pausing option" where
  "handle_mode env m p =
    (if m = MODE_WAIT
     then Some (p\<lparr>pz_place := (if sc_running (pz_sched p) \<noteq> [] \<or> pz_in_flight p then AT_BLOCK else AT_STORE)\<rparr>)
     else (let s = settled env p;
               res = (if m = MODE_ABORT then abort_all_running_requests (le_release env) (le_pick env) s
                      else preempt_all_running_requests (le_release env) (le_pick env) s)
           in map_option (\<lambda>s'. p\<lparr>pz_sched := s', pz_in_flight := False, pz_place := AT_STORE\<rparr>) res))"

definition loop_step :: "loop_env \<Rightarrow> pausing \<Rightarrow> pausing option" where
  "loop_step env p =
    (case pz_place p of
       AT_STEP \<Rightarrow> Some (p\<lparr>pz_place := (if pz_state p = PAUSING then AT_MODE else AT_BLOCK)\<rparr>)
     | AT_MODE \<Rightarrow> Some (p\<lparr>pz_place := AT_HANDLE (pz_mode p)\<rparr>)
     | AT_HANDLE m \<Rightarrow> handle_mode env m p
     | AT_STORE \<Rightarrow> Some (p\<lparr>pz_state := PAUSED, pz_place := AT_STEP\<rparr>)
     | AT_BLOCK \<Rightarrow> Some (p\<lparr>pz_place := (if pz_state p = PAUSED then AT_STEP else AT_SCHEDULE)\<rparr>)
     | AT_SCHEDULE \<Rightarrow> None)"

fun pause_step :: "loop_env \<Rightarrow> pause_event \<Rightarrow> pausing \<Rightarrow> pausing option" where
  "pause_step env (Pause_Mode m) p = Some (pause_mode_store m p)"
| "pause_step env Pause_Exchange p = pause_exchange p"
| "pause_step env Resume p = Some (resume p)"
| "pause_step env Loop p = loop_step env p"
| "pause_step env (Loop_Schedule s f) p =
    (if pz_place p = AT_SCHEDULE then Some (p\<lparr>pz_sched := s, pz_in_flight := f, pz_place := AT_STEP\<rparr>) else None)"

fun pause_run :: "loop_env \<Rightarrow> pause_event list \<Rightarrow> pausing \<Rightarrow> pausing option" where
  "pause_run env [] p = Some p"
| "pause_run env (e # es) p = (case pause_step env e p of None \<Rightarrow> None | Some p' \<Rightarrow> pause_run env es p')"

definition init_pausing :: "sched \<Rightarrow> pausing" where
  "init_pausing s = \<lparr>pz_state = RUNNING, pz_mode = MODE_KEEP, pz_callers = 0, pz_place = AT_STEP, pz_in_flight = False, pz_sched = s\<rparr>"

section \<open>A paused scheduler has nothing that runs\<close>

definition drained :: "pausing \<Rightarrow> bool" where
  "drained p \<longleftrightarrow> sc_running (pz_sched p) = [] \<and> \<not> pz_in_flight p"

definition pause_inv :: "pausing \<Rightarrow> bool" where
  "pause_inv p \<longleftrightarrow> (pz_place p = AT_STORE \<longrightarrow> drained p) \<and>
     (pz_state p = PAUSED \<longrightarrow> drained p \<and> (pz_place p = AT_STEP \<or> pz_place p = AT_BLOCK))"

lemma preempt_all_running: "preempt_all_running_requests release pick s = Some s' \<Longrightarrow> sc_running s' = []"
  by (auto simp: preempt_all_running_requests_def split: if_splits option.splits prod.splits)

lemma abort_all_running: "abort_all_running_requests release pick s = Some s' \<Longrightarrow> sc_running s' = []"
  by (auto simp: abort_all_running_requests_def split: if_splits option.splits prod.splits)

lemma handle_mode_cases:
  assumes "handle_mode env m p = Some p'"
  shows "(pz_place p' = AT_STORE \<and> drained p') \<or> pz_place p' = AT_BLOCK" "pz_state p' = pz_state p" "pz_mode p' = pz_mode p"
    "pz_callers p' = pz_callers p"
proof -
  have "(pz_place p' = AT_STORE \<and> drained p' \<or> pz_place p' = AT_BLOCK) \<and> pz_state p' = pz_state p \<and> pz_mode p' = pz_mode p \<and>
        pz_callers p' = pz_callers p"
  proof (cases "m = MODE_WAIT")
    case True
    then show ?thesis using assms by (auto simp: handle_mode_def drained_def split: if_splits)
  next
    case False
    then show ?thesis
      using assms by (auto simp: handle_mode_def Let_def drained_def split: if_splits dest: preempt_all_running abort_all_running)
  qed
  then show "(pz_place p' = AT_STORE \<and> drained p') \<or> pz_place p' = AT_BLOCK" "pz_state p' = pz_state p" "pz_mode p' = pz_mode p"
    "pz_callers p' = pz_callers p" by auto
qed

lemma loop_step_inv:
  assumes "loop_step env p = Some p'" "pause_inv p"
  shows "pause_inv p'"
proof (cases "pz_place p")
  case (AT_HANDLE m)
  then have "handle_mode env m p = Some p'" using assms(1) by (simp add: loop_step_def)
  then show ?thesis using handle_mode_cases [of env m p p'] assms(2) AT_HANDLE by (auto simp: pause_inv_def)
qed (use assms in \<open>auto simp: loop_step_def pause_inv_def drained_def split: if_splits\<close>)

lemma pause_step_inv:
  assumes "pause_step env e p = Some p'" "pause_inv p"
  shows "pause_inv p'"
proof (cases e)
  case Loop
  then show ?thesis using assms loop_step_inv by simp
qed (use assms in \<open>auto simp: pause_inv_def drained_def pause_mode_store_def pause_exchange_def resume_def split: if_splits\<close>)

lemma pause_run_inv: "pause_run env es p = Some p' \<Longrightarrow> pause_inv p \<Longrightarrow> pause_inv p'"
  by (induction es arbitrary: p) (auto split: option.splits intro: pause_step_inv)

lemma init_pause_inv: "pause_inv (init_pausing s)"
  by (simp add: pause_inv_def init_pausing_def)

text \<open>C28.  However the calls of clients interleave with the loop, a client to whom \<open>wait_until_paused\<close> returns true finds a scheduler with no
  running request and no batch in flight, and the loop thread cannot be between its check and its scheduling.\<close>

theorem paused_means_drained:
  assumes "pause_run env es (init_pausing s) = Some p" "wait_until_paused p = Some True"
  shows "sc_running (pz_sched p) = [] \<and> \<not> pz_in_flight p \<and> pz_place p \<noteq> AT_SCHEDULE"
  using pause_run_inv [OF assms(1) init_pause_inv] assms(2)
  by (auto simp: pause_inv_def drained_def wait_until_paused_def split: if_splits)

definition example_env :: loop_env where
  "example_env = \<lparr>le_release = (\<lambda>r. r\<lparr>rq_kv_tokens := 0\<rparr>), le_pick = first_best, le_settle = id\<rparr>"

definition example_running :: sched where
  "example_running = example_sched (Deque_Queue []) (Deque_Queue []) [Some sample_request]"

lemma example_preempt:
  "preempt_all_running_requests (le_release example_env) (le_pick example_env) example_running =
     Some (example_running\<lparr>sc_prefill := Deque_Queue [sample_request\<lparr>rq_preempted := True\<rparr>], sc_released := [sample_request], sc_running := []\<rparr>)"
  by (simp add: example_env_def example_running_def example_sched_def preempt_all_running_requests_def queue_size_def drain_deque sample_request_def)

theorem paused_means_drained_witness:
  "\<exists>p. pause_run example_env [Pause_Mode MODE_KEEP, Pause_Exchange, Loop, Loop, Loop, Loop] (init_pausing example_running) = Some p \<and>
       wait_until_paused p = Some True \<and> sc_running (pz_sched p) = [] \<and> \<not> pz_in_flight p \<and> pz_place p \<noteq> AT_SCHEDULE"
proof -
  obtain p where p: "pause_run example_env [Pause_Mode MODE_KEEP, Pause_Exchange, Loop, Loop, Loop, Loop] (init_pausing example_running) = Some p"
      "wait_until_paused p = Some True"
    by (simp add: init_pausing_def pause_mode_store_def pause_exchange_def loop_step_def handle_mode_def settled_def example_preempt wait_until_paused_def)
  show ?thesis using paused_means_drained [OF p] p by blast
qed

section \<open>A pause completes\<close>



section \<open>Interleavings that lose a call\<close>

lemma loop_stays_paused:
  "pz_state p = PAUSED \<Longrightarrow> pz_place p = AT_STEP \<or> pz_place p = AT_BLOCK \<Longrightarrow>
   \<exists>p'. pause_run env (replicate n Loop) p = Some p' \<and> pz_state p' = PAUSED"
  by (induction n arbitrary: p) (auto simp: loop_step_def)

text \<open>A resume that comes between the check of the loop thread and its store of the paused state is lost: the call returns, nobody pauses
  again, and yet the scheduler is paused in the end and stays so however long the loop goes on.\<close>

theorem resume_lost:
  "\<exists>p. pause_run example_env ([Pause_Mode MODE_KEEP, Pause_Exchange, Loop, Loop, Loop] @ [Resume, Loop]) (init_pausing example_running) = Some p \<and>
       pz_state p = PAUSED \<and> pz_callers p = 0 \<and>
       (\<forall>n. \<exists>p'. pause_run example_env (replicate n Loop) p = Some p' \<and> pz_state p' = PAUSED)"
proof -
  obtain p where "pause_run example_env ([Pause_Mode MODE_KEEP, Pause_Exchange, Loop, Loop, Loop] @ [Resume, Loop]) (init_pausing example_running) = Some p"
      "pz_state p = PAUSED" "pz_callers p = 0" "pz_place p = AT_STEP"
    by (simp add: init_pausing_def pause_mode_store_def pause_exchange_def resume_def loop_step_def handle_mode_def settled_def example_preempt)
  then show ?thesis using loop_stays_paused by blast
qed

text \<open>A call of \<open>pause\<close> that finds another one under way is said to do nothing, but it has stored its mode: the requests that the
  first call wants to keep are cancelled in the mode of the second.\<close>

theorem pause_mode_overwritten:
  "\<exists>p. pause_run example_env [Pause_Mode MODE_KEEP, Pause_Exchange, Pause_Mode MODE_ABORT, Pause_Exchange, Loop, Loop, Loop, Loop]
         (init_pausing example_running) = Some p \<and>
       pz_state p = PAUSED \<and> queue_elems (sc_prefill (pz_sched p)) = [] \<and> sc_failed (pz_sched p) = [sample_request\<lparr>rq_cancelled := True\<rparr>]"
  by (simp add: init_pausing_def pause_mode_store_def pause_exchange_def loop_step_def handle_mode_def settled_def abort_all_running_requests_def
      example_running_def example_sched_def example_env_def queue_size_def drain_deque sample_request_def)

end
