(* ===== verification/Decode_Admission.thy ===== *)
theory Decode_Admission imports Xllm_Prelude Complex_Main begin

text \<open>
  Admission of decode requests on a decode instance, \<open>core/scheduler/decode_admission.{h,cpp}\<close>, with the load that the
  scheduler publishes (\<open>SchedulerPolicy::compute_decode_rank_load\<close>).

  The block manager pool is seen through its counters; what \<open>try_allocate\<close> and \<open>Sequence::reset\<close> do to them is the argument
  \<open>pool_ops\<close>.  A weak pointer to a request is its number, and the argument \<open>alive\<close> says whether it can be locked.  The mutex
  makes every operation one step.  \<open>None\<close> is a failed \<open>CHECK\<close>.
\<close>

section \<open>Requests and pools\<close>

record decode_sequence =
  ds_rank :: int
  ds_tokens :: nat
  ds_prompt_tokens :: nat
  ds_max_generated :: "nat option"
  ds_finished :: bool
  ds_prefill_stage :: bool
  ds_kv_blocks :: nat

record decode_request =
  dr_id :: nat
  dr_over :: bool
  dr_sequences :: "decode_sequence list"

record pool_view =
  pv_used :: "nat list"
  pv_blocks :: nat
  pv_block_size :: nat
  pv_utilization :: rat

record pool_ops =
  po_try_allocate :: "decode_sequence \<Rightarrow> pool_view \<Rightarrow> (decode_sequence \<times> pool_view) option"
  po_reset :: "decode_sequence \<Rightarrow> pool_view \<Rightarrow> pool_view"

definition ceil_div :: "nat \<Rightarrow> nat \<Rightarrow> nat" where
  "ceil_div a b = a div b + (if a mod b \<noteq> 0 then 1 else 0)"

definition num_padding_blocks :: nat where "num_padding_blocks = 1"

definition decode_headroom_blocks :: "pool_view \<Rightarrow> int \<Rightarrow> nat" where
  "decode_headroom_blocks pool rank =
    (if rank < 0 \<or> nat rank \<ge> length (pv_used pool) then 0
     else (let usable = (if pv_blocks pool > num_padding_blocks then pv_blocks pool - num_padding_blocks else 0)
           in usable - min (pv_used pool ! nat rank) usable))"

definition num_generated_tokens :: "decode_sequence \<Rightarrow> nat" where
  "num_generated_tokens q = ds_tokens q - ds_prompt_tokens q"

definition decode_reserve_blocks :: "decode_sequence \<Rightarrow> int \<Rightarrow> nat \<Rightarrow> nat" where
  "decode_reserve_blocks q reserved_tokens block_size =
    (if reserved_tokens \<le> 0 \<or> block_size = 0 then 0
     else (let tokens = nat reserved_tokens;
               tokens = (case ds_max_generated q of
                   None \<Rightarrow> tokens
                 | Some most \<Rightarrow> min tokens (if most > num_generated_tokens q then most - num_generated_tokens q else 0))
           in ceil_div tokens block_size))"

text \<open>Blocks that a sequence in its prefill stage still needs for its full length.\<close>

definition missing_footprint_blocks :: "decode_sequence \<Rightarrow> nat \<Rightarrow> nat" where
  "missing_footprint_blocks q block_size =
    (if \<not> ds_prefill_stage q then 0
     else (let footprint = ceil_div (ds_tokens q) block_size
           in if footprint > ds_kv_blocks q then footprint - ds_kv_blocks q else 0))"

section \<open>The load of the scheduler\<close>

record rank_load =
  rl_reserved :: "nat list"
  rl_requests :: "nat list"
  rl_owned :: "nat set"

definition add_request :: "int \<Rightarrow> nat \<Rightarrow> nat \<Rightarrow> decode_request option \<Rightarrow> rank_load \<Rightarrow> rank_load" where
  "add_request reserved_tokens block_size dp_size slot load =
    (case slot of None \<Rightarrow> load
     | Some r \<Rightarrow>
        (case dr_sequences r of [] \<Rightarrow> load
         | q0 # qs \<Rightarrow>
            (let load = load\<lparr>rl_owned := insert (dr_id r) (rl_owned load)\<rparr>; rank = ds_rank q0
             in if dr_over r \<or> rank < 0 \<or> nat rank \<ge> dp_size then load
                else load\<lparr>rl_requests := (rl_requests load)[nat rank := rl_requests load ! nat rank + 1],
                          rl_reserved := (rl_reserved load)[nat rank := rl_reserved load ! nat rank +
                            (\<Sum>q\<leftarrow>filter (\<lambda>q. \<not> ds_finished q) (q0 # qs).
                               decode_reserve_blocks q reserved_tokens block_size + missing_footprint_blocks q block_size)]\<rparr>)))"

text \<open>\<open>running\<close>, \<open>decode\<close> and \<open>chunk\<close> are the requests of the batch and the two queues, \<open>waiting\<close> those that wait for a restore.\<close>

definition compute_decode_rank_load ::
  "int \<Rightarrow> nat \<Rightarrow> int \<Rightarrow> decode_request option list \<Rightarrow> decode_request list \<Rightarrow> decode_request list \<Rightarrow> decode_request list \<Rightarrow> rank_load" where
  "compute_decode_rank_load reserved_tokens block_size dp running decode chunk waiting =
    (let dp_size = nat (max dp 1);
         load = \<lparr>rl_reserved = replicate dp_size 0, rl_requests = replicate dp_size 0, rl_owned = {}\<rparr>;
         load = fold (add_request reserved_tokens block_size dp_size) (running @ map Some decode @ map Some chunk) load
     in load\<lparr>rl_owned := rl_owned load \<union> dr_id ` set waiting\<rparr>)"

section \<open>The gate\<close>

datatype admission_result = ADMITTED | RETRY_LATER | REJECTED

record pending_admission =
  pa_request :: nat
  pa_rank :: nat
  pa_blocks :: nat

record admission_options =
  ao_dp_size :: int
  ao_reserved_tokens :: int
  ao_speculative_tokens :: int
  ao_max_utilization :: rat

record decode_admission =
  da_options :: admission_options
  da_paused :: bool
  da_reserved :: "nat list"
  da_requests :: "nat list"
  da_pending :: "pending_admission list"

definition create_admission :: "admission_options \<Rightarrow> decode_admission" where
  "create_admission opts = \<lparr>da_options = opts, da_paused = False, da_reserved = replicate (nat (max (ao_dp_size opts) 1)) 0,
     da_requests = replicate (nat (max (ao_dp_size opts) 1)) 0, da_pending = []\<rparr>"

definition own_reserve_blocks :: "decode_admission \<Rightarrow> pool_view \<Rightarrow> decode_sequence \<Rightarrow> bool \<Rightarrow> nat" where
  "own_reserve_blocks a pool q idle_rank =
    decode_reserve_blocks q
      (if idle_rank then ao_speculative_tokens (da_options a) + 1 else ao_reserved_tokens (da_options a)) (pv_block_size pool)"

definition admit ::
  "pool_ops \<Rightarrow> decode_request \<Rightarrow> decode_admission \<times> pool_view \<Rightarrow> (admission_result \<times> decode_admission \<times> pool_view) option" where
  "admit ops r st =
    (case st of (a, pool) \<Rightarrow>
      (case dr_sequences r of [] \<Rightarrow> None
       | q # qs \<Rightarrow>
          (if da_paused a then Some (RETRY_LATER, a, pool)
           else if pv_utilization pool \<ge> ao_max_utilization (da_options a) then Some (REJECTED, a, pool)
           else (case po_try_allocate ops q pool of
               None \<Rightarrow> Some (REJECTED, a, pool)
             | Some (q', pool') \<Rightarrow>
                 if ao_reserved_tokens (da_options a) \<le> 0 then Some (ADMITTED, a, pool')
                 else if ds_rank q' < 0 \<or> nat (ds_rank q') \<ge> length (da_reserved a) then None
                 else (let rank = nat (ds_rank q');
                           blocks = own_reserve_blocks a pool' q' (da_requests a ! rank = 0)
                       in if decode_headroom_blocks pool' (ds_rank q') < da_reserved a ! rank + blocks
                          then Some (RETRY_LATER, a, po_reset ops q' pool')
                          else Some (ADMITTED,
                                 a\<lparr>da_reserved := (da_reserved a)[rank := da_reserved a ! rank + blocks],
                                   da_requests := (da_requests a)[rank := da_requests a ! rank + 1],
                                   da_pending := da_pending a @ [\<lparr>pa_request = dr_id r, pa_rank = rank, pa_blocks = blocks\<rparr>]\<rparr>, pool'))))))"

definition pause_admission :: "decode_admission \<Rightarrow> decode_admission" where
  "pause_admission a = a\<lparr>da_paused := True\<rparr>"

definition reopen_admission :: "decode_admission \<Rightarrow> decode_admission" where
  "reopen_admission a = a\<lparr>da_paused := False\<rparr>"

definition prune_pending :: "(nat \<Rightarrow> bool) \<Rightarrow> rank_load \<Rightarrow> pending_admission list \<Rightarrow> pending_admission list" where
  "prune_pending alive load ps = filter (\<lambda>p. alive (pa_request p) \<and> pa_request p \<notin> rl_owned load) ps"

definition add_pending :: "pending_admission list \<Rightarrow> nat list \<Rightarrow> nat list" where
  "add_pending ps xs = fold (\<lambda>p xs. xs[pa_rank p := xs ! pa_rank p + pa_blocks p]) ps xs"

definition count_pending :: "pending_admission list \<Rightarrow> nat list \<Rightarrow> nat list" where
  "count_pending ps xs = fold (\<lambda>p xs. xs[pa_rank p := xs ! pa_rank p + 1]) ps xs"

definition unscheduled_reserve_blocks :: "(nat \<Rightarrow> bool) \<Rightarrow> rank_load \<Rightarrow> decode_admission \<Rightarrow> nat list \<times> decode_admission" where
  "unscheduled_reserve_blocks alive load a =
    (let ps = prune_pending alive load (da_pending a)
     in (add_pending ps (replicate (length (da_reserved a)) 0), a\<lparr>da_pending := ps\<rparr>))"

definition publish :: "(nat \<Rightarrow> bool) \<Rightarrow> rank_load \<Rightarrow> decode_admission \<Rightarrow> decode_admission option" where
  "publish alive load a =
    (if length (rl_reserved load) \<noteq> length (da_reserved a) \<or> length (rl_requests load) \<noteq> length (da_requests a) then None
     else (let ps = prune_pending alive load (da_pending a)
           in Some (a\<lparr>da_pending := ps, da_reserved := add_pending ps (rl_reserved load), da_requests := count_pending ps (rl_requests load)\<rparr>)))"

section \<open>The books of the gate\<close>

definition pending_blocks :: "nat \<Rightarrow> pending_admission list \<Rightarrow> nat" where
  "pending_blocks rank ps = (\<Sum>p\<leftarrow>filter (\<lambda>p. pa_rank p = rank) ps. pa_blocks p)"

definition pending_count :: "nat \<Rightarrow> pending_admission list \<Rightarrow> nat" where
  "pending_count rank ps = length (filter (\<lambda>p. pa_rank p = rank) ps)"

lemma add_pending_length [simp]: "length (add_pending ps xs) = length xs"
  by (induction ps arbitrary: xs) (simp_all add: add_pending_def)

lemma count_pending_length [simp]: "length (count_pending ps xs) = length xs"
  by (induction ps arbitrary: xs) (simp_all add: count_pending_def)

lemma add_pending_nth:
  "\<forall>p \<in> set ps. pa_rank p < length xs \<Longrightarrow> rank < length xs \<Longrightarrow> add_pending ps xs ! rank = xs ! rank + pending_blocks rank ps"
proof (induction ps arbitrary: xs)
  case (Cons p ps)
  then show ?case
    using Cons.IH [of "xs[pa_rank p := xs ! pa_rank p + pa_blocks p]"]
    by (cases "pa_rank p = rank") (simp_all add: add_pending_def pending_blocks_def)
qed (simp add: add_pending_def pending_blocks_def)

lemma count_pending_nth:
  "\<forall>p \<in> set ps. pa_rank p < length xs \<Longrightarrow> rank < length xs \<Longrightarrow> count_pending ps xs ! rank = xs ! rank + pending_count rank ps"
proof (induction ps arbitrary: xs)
  case (Cons p ps)
  then show ?case
    using Cons.IH [of "xs[pa_rank p := xs ! pa_rank p + 1]"]
    by (cases "pa_rank p = rank") (simp_all add: count_pending_def pending_count_def)
qed (simp add: count_pending_def pending_count_def)

lemma pending_simps [simp]:
  "pending_blocks rank [] = 0" "pending_count rank [] = 0"
  "pending_blocks rank (ps @ qs) = pending_blocks rank ps + pending_blocks rank qs"
  "pending_count rank (ps @ qs) = pending_count rank ps + pending_count rank qs"
  by (simp_all add: pending_blocks_def pending_count_def)

lemma pending_filter_le:
  "pending_blocks rank (filter P ps) \<le> pending_blocks rank ps" "pending_count rank (filter P ps) \<le> pending_count rank ps"
  by (induction ps) (auto simp: pending_blocks_def pending_count_def)

text \<open>The gate with the load it last was told: for each rank it counts at least that load and what it has admitted since, and never
  counts a request that is in no rank.\<close>

definition books_ok :: "rank_load \<Rightarrow> decode_admission \<Rightarrow> bool" where
  "books_ok load a \<longleftrightarrow> length (da_reserved a) = length (rl_reserved load) \<and> length (da_requests a) = length (rl_reserved load) \<and>
     length (rl_requests load) = length (rl_reserved load) \<and> (\<forall>p \<in> set (da_pending a). pa_rank p < length (rl_reserved load)) \<and>
     (\<forall>rank < length (rl_reserved load). rl_reserved load ! rank + pending_blocks rank (da_pending a) \<le> da_reserved a ! rank \<and>
        rl_requests load ! rank + pending_count rank (da_pending a) \<le> da_requests a ! rank)"

lemma books_create:
  "books_ok \<lparr>rl_reserved = replicate n 0, rl_requests = replicate n 0, rl_owned = {}\<rparr> (create_admission opts)"
  if "n = nat (max (ao_dp_size opts) 1)"
  by (simp add: books_ok_def create_admission_def that)

lemma admitE:
  assumes "admit ops r (a, pool) = Some (res, a', pool')"
  obtains (same) "a' = a" "res = ADMITTED \<longrightarrow> ao_reserved_tokens (da_options a) \<le> 0"
    | (admitted) q q' qs rank blocks where "res = ADMITTED" "dr_sequences r = q # qs" "po_try_allocate ops q pool = Some (q', pool')"
        "rank = nat (ds_rank q')" "0 \<le> ds_rank q'" "rank < length (da_reserved a)"
        "blocks = own_reserve_blocks a pool' q' (da_requests a ! rank = 0)" "0 < ao_reserved_tokens (da_options a)"
        "da_reserved a ! rank + blocks \<le> decode_headroom_blocks pool' (ds_rank q')"
        "a' = a\<lparr>da_reserved := (da_reserved a)[rank := da_reserved a ! rank + blocks],
                da_requests := (da_requests a)[rank := da_requests a ! rank + 1],
                da_pending := da_pending a @ [\<lparr>pa_request = dr_id r, pa_rank = rank, pa_blocks = blocks\<rparr>]\<rparr>"
proof (cases "dr_sequences r")
  case Nil
  then show thesis using assms by (simp add: admit_def)
next
  case (Cons q qs)
  show thesis
  proof (cases "da_paused a \<or> pv_utilization pool \<ge> ao_max_utilization (da_options a) \<or> po_try_allocate ops q pool = None")
    case True
    then show thesis using assms Cons by (intro same) (auto simp: admit_def split: if_splits)
  next
    case False
    then obtain q' p' where q': "po_try_allocate ops q pool = Some (q', p')" by auto
    show thesis
    proof (cases "ao_reserved_tokens (da_options a) \<le> 0")
      case True
      then show thesis using assms Cons False q' by (intro same) (auto simp: admit_def)
    next
      case reserve: False
      let ?rank = "nat (ds_rank q')"
      let ?blocks = "own_reserve_blocks a p' q' (da_requests a ! ?rank = 0)"
      have in_range: "\<not> (ds_rank q' < 0 \<or> ?rank \<ge> length (da_reserved a))"
        using assms Cons False q' reserve by (auto simp: admit_def)
      show thesis
      proof (cases "decode_headroom_blocks p' (ds_rank q') < da_reserved a ! ?rank + ?blocks")
        case True
        then show thesis using assms Cons False q' reserve in_range by (intro same) (auto simp: admit_def Let_def)
      next
        case room: False
        then show thesis
          using assms Cons False q' reserve in_range by (intro admitted) (auto simp: admit_def Let_def)
      qed
    qed
  qed
qed

text \<open>The calls of the gate, with the load the gate was last told; other threads change the pool in between.\<close>

inductive gate_step :: "pool_ops \<Rightarrow> rank_load \<times> decode_admission \<times> pool_view \<Rightarrow> rank_load \<times> decode_admission \<times> pool_view \<Rightarrow> bool"
  for ops :: pool_ops where
  step_admit: "admit ops r (a, pool) = Some (res, a', pool') \<Longrightarrow> gate_step ops (load, a, pool) (load, a', pool')"
| step_pause: "gate_step ops (load, a, pool) (load, pause_admission a, pool)"
| step_reopen: "gate_step ops (load, a, pool) (load, reopen_admission a, pool)"
| step_unscheduled: "unscheduled_reserve_blocks alive load' a = (xs, a') \<Longrightarrow> gate_step ops (load, a, pool) (load, a', pool)"
| step_publish: "publish alive load' a = Some a' \<Longrightarrow> gate_step ops (load, a, pool) (load', a', pool)"
| step_pool: "gate_step ops (load, a, pool) (load, a, pool')"

inductive_simps gate_step_simps: "gate_step ops (load, a, pool) (load', a', pool')"

definition initial_load :: "admission_options \<Rightarrow> rank_load" where
  "initial_load opts = \<lparr>rl_reserved = replicate (nat (max (ao_dp_size opts) 1)) 0,
     rl_requests = replicate (nat (max (ao_dp_size opts) 1)) 0, rl_owned = {}\<rparr>"

inductive gate_reach :: "pool_ops \<Rightarrow> admission_options \<Rightarrow> rank_load \<times> decode_admission \<times> pool_view \<Rightarrow> bool"
  for ops :: pool_ops and opts :: admission_options where
  reach_create: "gate_reach ops opts (initial_load opts, create_admission opts, pool)"
| reach_step: "gate_reach ops opts s \<Longrightarrow> gate_step ops s s' \<Longrightarrow> gate_reach ops opts s'"

lemma books_admit:
  assumes "admit ops r (a, pool) = Some (res, a', pool')" "books_ok load a"
  shows "books_ok load a'"
  using assms(1)
proof (cases rule: admitE)
  case same
  then show ?thesis using assms(2) by simp
next
  case (admitted q q' qs rank blocks)
  then show ?thesis
    using assms(2) by (auto simp: books_ok_def nth_list_update pending_blocks_def pending_count_def)
qed

lemma books_prune:
  assumes "books_ok load a"
  shows "books_ok load (a\<lparr>da_pending := filter P (da_pending a)\<rparr>)"
  using assms pending_filter_le [of _ P "da_pending a"]
  by (fastforce simp: books_ok_def intro: order_trans [OF add_left_mono])

lemma publish_exact_lemma:
  assumes "publish alive load a = Some a'" "\<forall>p \<in> set (da_pending a). pa_rank p < length (da_reserved a)"
    "length (da_requests a) = length (da_reserved a)"
  shows "da_pending a' = prune_pending alive load (da_pending a)" "length (da_reserved a') = length (rl_reserved load)"
    "rank < length (rl_reserved load) \<Longrightarrow>
       da_reserved a' ! rank = rl_reserved load ! rank + pending_blocks rank (prune_pending alive load (da_pending a))"
    "rank < length (rl_reserved load) \<Longrightarrow>
       da_requests a' ! rank = rl_requests load ! rank + pending_count rank (prune_pending alive load (da_pending a))"
    "length (rl_requests load) = length (rl_reserved load)" "length (da_requests a') = length (rl_reserved load)"
    "\<forall>p \<in> set (da_pending a'). pa_rank p < length (rl_reserved load)"
  using assms
  by (auto simp: publish_def Let_def prune_pending_def add_pending_nth count_pending_nth split: if_splits)

lemma books_step:
  assumes "gate_step ops (load, a, pool) (load', a', pool')" "books_ok load a"
  shows "books_ok load' a'"
  using assms(1) unfolding gate_step_simps
proof (elim disjE exE conjE)
  fix r res
  assume "load' = load" "admit ops r (a, pool) = Some (res, a', pool')"
  then show ?thesis using books_admit assms(2) by simp
next
  fix alive load'' xs
  assume "load' = load" "unscheduled_reserve_blocks alive load'' a = (xs, a')"
  then show ?thesis
    using books_prune [OF assms(2)] by (auto simp: unscheduled_reserve_blocks_def prune_pending_def Let_def)
next
  fix alive
  assume p: "publish alive load' a = Some a'"
  have "\<forall>p \<in> set (da_pending a). pa_rank p < length (da_reserved a)" "length (da_requests a) = length (da_reserved a)"
    using assms(2) by (auto simp: books_ok_def)
  note e = publish_exact_lemma [OF p this]
  show ?thesis using e by (simp add: books_ok_def)
qed (use assms(2) in \<open>simp_all add: books_ok_def pause_admission_def reopen_admission_def\<close>)

lemma books_reach: "gate_reach ops opts s \<Longrightarrow> books_ok (fst s) (fst (snd s))"
proof (induction rule: gate_reach.induct)
  case (reach_create pool)
  then show ?case by (simp add: initial_load_def books_create)
next
  case (reach_step s s')
  obtain load a pool load' a' pool' where "s = (load, a, pool)" "s' = (load', a', pool')" by (metis prod.exhaust)
  then show ?case using books_step reach_step by auto
qed

section \<open>Properties\<close>


definition example_options :: admission_options where
  "example_options = \<lparr>ao_dp_size = 1, ao_reserved_tokens = 40, ao_speculative_tokens = 0, ao_max_utilization = 1\<rparr>"

definition example_sequence :: decode_sequence where
  "example_sequence = \<lparr>ds_rank = 0, ds_tokens = 20, ds_prompt_tokens = 20, ds_max_generated = Some 100, ds_finished = False,
     ds_prefill_stage = False, ds_kv_blocks = 0\<rparr>"

definition example_request :: decode_request where
  "example_request = \<lparr>dr_id = 1, dr_over = False, dr_sequences = [example_sequence]\<rparr>"

definition example_pool :: pool_view where
  "example_pool = \<lparr>pv_used = [0], pv_blocks = 11, pv_block_size = 16, pv_utilization = 0\<rparr>"

definition example_ops :: pool_ops where
  "example_ops = \<lparr>po_try_allocate = (\<lambda>q pool. Some (q\<lparr>ds_kv_blocks := 2\<rparr>, pool\<lparr>pv_used := [2 + hd (pv_used pool)]\<rparr>)),
     po_reset = (\<lambda>q pool. pool\<lparr>pv_used := [hd (pv_used pool) - 2]\<rparr>)\<rparr>"

lemma example_admit:
  "admit example_ops example_request (create_admission example_options, example_pool) =
     Some (ADMITTED, (create_admission example_options)\<lparr>da_reserved := [1], da_requests := [1],
        da_pending := [\<lparr>pa_request = 1, pa_rank = 0, pa_blocks = 1\<rparr>]\<rparr>, example_pool\<lparr>pv_used := [2]\<rparr>)"
  by (simp add: admit_def create_admission_def example_options_def example_request_def example_sequence_def example_pool_def example_ops_def
      own_reserve_blocks_def decode_reserve_blocks_def decode_headroom_blocks_def num_generated_tokens_def ceil_div_def num_padding_blocks_def
      Let_def)


text \<open>Publishing a load counts every request once: the gate then counts exactly the load and, on top, the admitted requests that still
  exist and that the scheduler does not own yet, and it forgets the others.\<close>

theorem publish_exact:
  assumes "gate_reach ops opts (load0, a, pool)" "publish alive load a = Some a'" "rank < length (rl_reserved load)"
  shows "da_pending a' = filter (\<lambda>p. alive (pa_request p) \<and> pa_request p \<notin> rl_owned load) (da_pending a) \<and>
         da_reserved a' ! rank = rl_reserved load ! rank + pending_blocks rank (da_pending a') \<and>
         da_requests a' ! rank = rl_requests load ! rank + pending_count rank (da_pending a')"
proof -
  have "\<forall>p \<in> set (da_pending a). pa_rank p < length (da_reserved a)" "length (da_requests a) = length (da_reserved a)"
    using books_reach [OF assms(1)] by (auto simp: books_ok_def)
  note e = publish_exact_lemma [OF assms(2) this]
  show ?thesis using e assms(3) by (simp add: prune_pending_def)
qed



lemma ceil_div_covers: "0 < b \<Longrightarrow> x \<le> ceil_div x b * b"
proof -
  assume "0 < b"
  then have r: "x mod b < b" by simp
  have e: "x div b * b + x mod b = x" by (rule div_mult_mod_eq)
  show ?thesis
  proof (cases "x mod b = 0")
    case True
    then show ?thesis using e by (simp add: ceil_div_def)
  next
    case False
    have "ceil_div x b * b = x div b * b + b" using False by (simp add: ceil_div_def add_mult_distrib)
    then show ?thesis using r e by linarith
  qed
qed

lemma ceil_div_least: "0 < b \<Longrightarrow> x \<le> k * b \<Longrightarrow> ceil_div x b \<le> k"
proof -
  assume b: "0 < b" and x: "x \<le> k * b"
  show ?thesis
  proof (cases "x mod b = 0")
    case True
    then show ?thesis using div_le_mono [OF x, of b] b by (simp add: ceil_div_def)
  next
    case False
    then have "x < k * b" using x by (metis le_neq_implies_less mod_mult_self2_is_0)
    then show ?thesis using False less_mult_imp_div_less [of x k b] by (simp add: ceil_div_def)
  qed
qed

lemma ceil_div_add: "0 < b \<Longrightarrow> ceil_div (m + n) b \<le> ceil_div m b + ceil_div n b"
  by (rule ceil_div_least) (use ceil_div_covers [of b m] ceil_div_covers [of b n] in \<open>simp_all add: add_mult_distrib\<close>)

text \<open>The reserve of a sequence is enough for its growth: as long as it generates no more than the reserved tokens and no more than its
  limit allows, the blocks that its length needs beyond those it needs now fit into the reserve.\<close>

theorem reserve_covers_growth:
  assumes "0 < block_size" "int t \<le> reserved_tokens" "\<And>most. ds_max_generated q = Some most \<Longrightarrow> num_generated_tokens q + t \<le> most"
  shows "ceil_div (ds_tokens q + t) block_size \<le> ceil_div (ds_tokens q) block_size + decode_reserve_blocks q reserved_tokens block_size"
proof (cases "t = 0")
  case True
  then show ?thesis by simp
next
  case False
  have mono: "ceil_div t block_size \<le> ceil_div u block_size" if "t \<le> u" for u
    using assms(1) that ceil_div_covers [of block_size u] by (intro ceil_div_least) simp_all
  have "ceil_div t block_size \<le> decode_reserve_blocks q reserved_tokens block_size"
  proof (cases "ds_max_generated q")
    case None
    then show ?thesis using assms(1,2) False mono [of "nat reserved_tokens"] by (simp add: decode_reserve_blocks_def)
  next
    case (Some most)
    then have "num_generated_tokens q + t \<le> most" by (rule assms(3))
    then have "t \<le> min (nat reserved_tokens) (most - num_generated_tokens q)" "num_generated_tokens q < most"
      using assms(2) False by linarith+
    then show ?thesis
      using assms(1,2) False Some mono [of "min (nat reserved_tokens) (most - num_generated_tokens q)"]
      by (simp add: decode_reserve_blocks_def)
  qed
  then show ?thesis using ceil_div_add [OF assms(1), of "ds_tokens q" t] by linarith
qed

theorem reserve_covers_growth_witness:
  "ceil_div (ds_tokens example_sequence + 17) 16 \<le> ceil_div (ds_tokens example_sequence) 16 + decode_reserve_blocks example_sequence 40 16"
  by (rule reserve_covers_growth) (simp_all add: example_sequence_def num_generated_tokens_def)

end
