(* ===== verification/Incremental_Decoder.thy ===== *)
theory Incremental_Decoder imports Xllm_Prelude Complex_Main "HOL-Library.Sublist" begin

text \<open>
  The text of a sequence while its tokens arrive: \<open>IncrementalDecoder\<close>
  (\<open>core/framework/request/incremental_decoder.{h,cpp}\<close>).

  The tokenizer is not part of this development: it is an argument, from token ids to a string of bytes, and what the decoder
  relies on is the predicate \<open>tokenizer_law\<close>.  A \<open>Slice\<close> is a list; a bound that fails its \<open>CHECK\<close> is \<open>None\<close>.
\<close>

section \<open>The decoder\<close>

type_synonym tokenizer = "bool \<Rightarrow> int list \<Rightarrow> string"

definition slice_from :: "'a list \<Rightarrow> nat \<Rightarrow> 'a list option" where
  "slice_from xs a = (if a \<le> length xs then Some (drop a xs) else None)"

definition slice :: "'a list \<Rightarrow> nat \<Rightarrow> nat \<Rightarrow> 'a list option" where
  "slice xs a b = (if a \<le> b \<and> b \<le> length xs then Some (take (b - a) (drop a xs)) else None)"

text \<open>The bytes of U+FFFD, which stands for an unfinished character.\<close>

definition replacement :: string where
  "replacement = map char_of [239, 191, 189 :: nat]"

definition ends_unfinished :: "string \<Rightarrow> bool" where
  "ends_unfinished t \<longleftrightarrow> length replacement \<le> length t \<and> drop (length t - length replacement) t = replacement"

record incremental_decoder =
  de_prompt :: string
  de_prompt_tokens :: nat
  de_skip_special :: bool
  de_prefix :: nat
  de_output :: nat
  de_checking :: bool

definition create_decoder :: "string \<Rightarrow> nat \<Rightarrow> bool \<Rightarrow> bool \<Rightarrow> incremental_decoder" where
  "create_decoder prompt n echo skip = \<lparr>de_prompt = prompt, de_prompt_tokens = n, de_skip_special = skip,
     de_prefix = (if echo then 0 else n), de_output = (if echo then 0 else n), de_checking = False\<rparr>"

definition enable_checking_prefill_token :: "incremental_decoder \<Rightarrow> incremental_decoder" where
  "enable_checking_prefill_token d = d\<lparr>de_checking := True\<rparr>"

definition decode_prompt :: "incremental_decoder \<Rightarrow> string \<times> incremental_decoder" where
  "decode_prompt d =
    (if de_output d < de_prompt_tokens d \<and> de_prompt d \<noteq> []
     then (de_prompt d, d\<lparr>de_prefix := (if de_prompt_tokens d \<le> 6 then 0 else de_prompt_tokens d - 6), de_output := de_prompt_tokens d\<rparr>)
     else ([], d))"

definition check_prefill_token :: "tokenizer \<Rightarrow> int list \<Rightarrow> incremental_decoder \<Rightarrow> incremental_decoder option" where
  "check_prefill_token tok ids d =
    (if de_checking d \<and> de_output d < length ids
     then (case slice ids (de_output d) (de_output d + 1) of
         None \<Rightarrow> None
       | Some one \<Rightarrow>
           Some (d\<lparr>de_output := (if ends_unfinished (tok (de_skip_special d) one) then de_output d else de_output d + 1), de_checking := False\<rparr>))
     else Some d)"

definition decode_tail :: "tokenizer \<Rightarrow> int list \<Rightarrow> incremental_decoder \<Rightarrow> (string \<times> incremental_decoder) option" where
  "decode_tail tok ids d =
    (case (slice ids (de_prefix d) (de_output d), slice_from ids (de_prefix d)) of
       (Some old, Some new) \<Rightarrow>
         (let prefix_text = tok (de_skip_special d) old; new_text = tok (de_skip_special d) new
          in if length new_text > length prefix_text \<and> \<not> ends_unfinished new_text
             then Some (drop (length prefix_text) new_text, d\<lparr>de_prefix := de_output d, de_output := length ids\<rparr>)
             else Some ([], d))
     | _ \<Rightarrow> None)"

definition decode :: "tokenizer \<Rightarrow> int list \<Rightarrow> incremental_decoder \<Rightarrow> (string \<times> incremental_decoder) option" where
  "decode tok ids d =
    (case decode_prompt d of (lead, d1) \<Rightarrow>
      (case check_prefill_token tok ids d1 of None \<Rightarrow> None
       | Some d2 \<Rightarrow> map_option (\<lambda>(t, d3). (lead @ t, d3)) (decode_tail tok ids d2)))"

section \<open>What the decoder relies on\<close>

text \<open>A byte-fallback tokenizer: text that does not end inside of a character is not changed by the tokens behind it, and a
  replacement character is not put together from the bytes of two such texts.\<close>

definition tokenizer_law :: "(int list \<Rightarrow> string) \<Rightarrow> bool" where
  "tokenizer_law tok \<longleftrightarrow> tok [] = [] \<and>
     (\<forall>xs ys. \<not> ends_unfinished (tok xs) \<longrightarrow> tok (xs @ ys) = tok xs @ tok ys \<and>
        (tok ys \<noteq> [] \<longrightarrow> ends_unfinished (tok (xs @ ys)) \<longrightarrow> ends_unfinished (tok ys)))"

lemma ends_unfinished_nil [simp]: "\<not> ends_unfinished []"
  by (simp add: ends_unfinished_def replacement_def)

lemma ends_unfinished_suffix: "ends_unfinished t \<longleftrightarrow> suffix replacement t"
proof
  assume "ends_unfinished t"
  then show "suffix replacement t" by (metis ends_unfinished_def suffix_drop)
next
  assume "suffix replacement t"
  then show "ends_unfinished t" by (auto simp: suffix_def ends_unfinished_def)
qed

lemma ends_unfinished_append: "ends_unfinished t \<Longrightarrow> ends_unfinished (s @ t)"
  by (simp add: ends_unfinished_suffix suffix_appendI)

lemma ends_unfinished_Cons: "ends_unfinished t \<Longrightarrow> ends_unfinished (c # t)"
  using ends_unfinished_append [of t "[c]"] by simp

lemma law_nil: "tokenizer_law tok \<Longrightarrow> tok [] = []"
  by (simp add: tokenizer_law_def)

lemma law_append: "tokenizer_law tok \<Longrightarrow> \<not> ends_unfinished (tok xs) \<Longrightarrow> tok (xs @ ys) = tok xs @ tok ys"
  by (simp add: tokenizer_law_def)

lemma law_ends:
  "tokenizer_law tok \<Longrightarrow> \<not> ends_unfinished (tok xs) \<Longrightarrow> tok ys \<noteq> [] \<Longrightarrow> ends_unfinished (tok (xs @ ys)) \<longleftrightarrow> ends_unfinished (tok ys)"
  by (metis ends_unfinished_append law_append tokenizer_law_def)

section \<open>What the decoder has put out\<close>

abbreviation part :: "'a list \<Rightarrow> nat \<Rightarrow> nat \<Rightarrow> 'a list" where
  "part xs a b \<equiv> take (b - a) (drop a xs)"

lemma part_append: "a \<le> b \<Longrightarrow> b \<le> c \<Longrightarrow> part xs a c = part xs a b @ part xs b c"
proof -
  assume "a \<le> b" "b \<le> c"
  then obtain i j where "b = a + i" "c = a + (i + j)" by (metis add.assoc le_iff_add)
  then show ?thesis by (simp add: take_add drop_drop add.commute)
qed

lemma part_take: "b \<le> n \<Longrightarrow> part (take n xs) a b = part xs a b"
  by (simp add: drop_take min.absorb1 diff_le_mono)

text \<open>The text out so far is the lead and the text of the tokens from \<open>start\<close> to the output offset, which ends with a whole character, and
  so does the text between the offsets.\<close>

definition decoder_ok :: "(int list \<Rightarrow> string) \<Rightarrow> int list \<Rightarrow> nat \<Rightarrow> string \<Rightarrow> incremental_decoder \<Rightarrow> string \<Rightarrow> bool" where
  "decoder_ok tok ts start lead d out \<longleftrightarrow> start \<le> de_output d \<and> de_prefix d \<le> de_output d \<and> de_output d \<le> length ts \<and>
     \<not> ends_unfinished (tok (part ts (de_prefix d) (de_output d))) \<and> \<not> ends_unfinished (tok (part ts start (de_output d))) \<and>
     out = lead @ tok (part ts start (de_output d))"

lemma decode_tail_step:
  assumes law: "tokenizer_law (tok (de_skip_special d))" and ok: "decoder_ok (tok (de_skip_special d)) ts start lead d out"
    and n: "de_output d \<le> n" "n \<le> length ts"
  shows "\<exists>t d'. decode_tail tok (take n ts) d = Some (t, d') \<and> decoder_ok (tok (de_skip_special d)) ts start lead d' (out @ t) \<and>
           de_skip_special d' = de_skip_special d \<and> de_checking d' = de_checking d \<and> de_prompt d' = de_prompt d \<and>
           de_prompt_tokens d' = de_prompt_tokens d \<and> de_output d \<le> de_output d' \<and> de_output d' \<le> n \<and>
           (\<not> ends_unfinished (tok (de_skip_special d) (part ts start n)) \<longrightarrow> out @ t = lead @ tok (de_skip_special d) (part ts start n))"
proof -
  let ?tok = "tok (de_skip_special d)" let ?p = "de_prefix d" let ?o = "de_output d"
  have o: "start \<le> ?o" "?p \<le> ?o" "\<not> ends_unfinished (?tok (part ts ?p ?o))" "\<not> ends_unfinished (?tok (part ts start ?o))"
      "out = lead @ ?tok (part ts start ?o)"
    using ok by (simp_all add: decoder_ok_def)
  have new: "?tok (part ts ?p n) = ?tok (part ts ?p ?o) @ ?tok (part ts ?o n)"
    using law_append [OF law o(3)] part_append [OF o(2) n(1)] by metis
  have all: "?tok (part ts start n) = ?tok (part ts start ?o) @ ?tok (part ts ?o n)"
    using law_append [OF law o(4)] part_append [OF o(1) n(1)] by metis
  have same: "?tok (part ts ?o n) \<noteq> [] \<Longrightarrow>
      ends_unfinished (?tok (part ts start n)) = ends_unfinished (?tok (part ts ?p n))"
    using law_ends [OF law o(3)] law_ends [OF law o(4)] part_append [OF o(2) n(1)] part_append [OF o(1) n(1)] by metis
  have slices: "slice (take n ts) ?p ?o = Some (part ts ?p ?o)" "slice_from (take n ts) ?p = Some (part ts ?p n)"
    using n o(2) by (simp_all add: slice_def slice_from_def part_take drop_take)
  show ?thesis
  proof (cases "length (?tok (part ts ?p n)) > length (?tok (part ts ?p ?o)) \<and> \<not> ends_unfinished (?tok (part ts ?p n))")
    case True
    let ?d = "d\<lparr>de_prefix := ?o, de_output := n\<rparr>"
    have step: "decode_tail tok (take n ts) d = Some (?tok (part ts ?o n), ?d)"
      using True n(2) by (simp add: decode_tail_def slices new Let_def min_def)
    have ne: "?tok (part ts ?o n) \<noteq> []" using True new by auto
    have clean: "\<not> ends_unfinished (?tok (part ts start n))" using same [OF ne] True by simp
    have "\<not> ends_unfinished (?tok (part ts ?o n))" using True new ends_unfinished_append by metis
    then have "decoder_ok ?tok ts start lead ?d (out @ ?tok (part ts ?o n))"
      using clean o n all by (simp add: decoder_ok_def)
    then show ?thesis using step all o(5) n by auto
  next
    case False
    have step: "decode_tail tok (take n ts) d = Some ([], d)"
      using False by (auto simp: decode_tail_def slices Let_def)
    have "out = lead @ ?tok (part ts start n)" if "\<not> ends_unfinished (?tok (part ts start n))"
    proof (cases "?tok (part ts ?o n) = []")
      case True
      then show ?thesis using all o(5) by simp
    next
      case ne: False
      then show ?thesis using same [OF ne] that False new by simp
    qed
    then show ?thesis using step ok n by auto
  qed
qed

lemma decoder_ok_extend:
  assumes "decoder_ok tok ts start lead d out"
  shows "decoder_ok tok (ts @ zs) start lead d out"
proof -
  have "part (ts @ zs) a b = part ts a b" if "b \<le> length ts" for a b
    using part_take [OF that, where xs = "ts @ zs" and a = a] by simp
  then show ?thesis using assms by (simp add: decoder_ok_def)
qed

text \<open>A decoder whose prompt is behind it.\<close>

definition past_prompt :: "incremental_decoder \<Rightarrow> bool" where
  "past_prompt d \<longleftrightarrow> \<not> (de_output d < de_prompt_tokens d \<and> de_prompt d \<noteq> []) \<and> \<not> de_checking d"

lemma decode_past_prompt: "past_prompt d \<Longrightarrow> decode tok ids d = decode_tail tok ids d"
  by (auto simp: past_prompt_def decode_def decode_prompt_def check_prefill_token_def option.map_ident split_def)

lemma decode_step:
  assumes "tokenizer_law (tok (de_skip_special d))" "decoder_ok (tok (de_skip_special d)) ts start lead d out" "past_prompt d"
    "de_output d \<le> n" "n \<le> length ts"
  shows "\<exists>t d'. decode tok (take n ts) d = Some (t, d') \<and> decoder_ok (tok (de_skip_special d)) ts start lead d' (out @ t) \<and>
           past_prompt d' \<and> de_skip_special d' = de_skip_special d \<and> de_output d' \<le> n \<and>
           (\<not> ends_unfinished (tok (de_skip_special d) (part ts start n)) \<longrightarrow> out @ t = lead @ tok (de_skip_special d) (part ts start n))"
  using decode_tail_step [where tok = tok and d = d, OF assms(1,2,4,5)] decode_past_prompt [OF assms(3), of tok "take n ts"] assms(3)
  by (auto simp: past_prompt_def)

text \<open>The first call of a decoder that echoes its prompt puts the prompt out and goes on behind it.\<close>

lemma decode_echo:
  assumes "decode tok ids d = Some (t, d')" "de_output d < de_prompt_tokens d" "de_prompt d \<noteq> []"
  shows "\<exists>t'. t = de_prompt d @ t' \<and>
    decode tok ids (d\<lparr>de_prefix := de_prompt_tokens d - 6, de_output := de_prompt_tokens d\<rparr>) = Some (t', d')"
proof -
  have "(if de_prompt_tokens d \<le> 6 then 0 else de_prompt_tokens d - 6) = de_prompt_tokens d - 6" by simp
  then show ?thesis
    using assms by (auto simp: decode_def decode_prompt_def split: option.splits)
qed

section \<open>Properties\<close>

fun decode_all :: "tokenizer \<Rightarrow> int list \<Rightarrow> nat list \<Rightarrow> incremental_decoder \<Rightarrow> (string \<times> incremental_decoder) option" where
  "decode_all tok ts [] d = Some ([], d)"
| "decode_all tok ts (n # ns) d =
    (case decode tok (take n ts) d of None \<Rightarrow> None
     | Some (t, d') \<Rightarrow> map_option (\<lambda>(ts', d''). (t @ ts', d'')) (decode_all tok ts ns d'))"

lemma decode_all_ok:
  assumes "tokenizer_law (tok (de_skip_special d))" "decoder_ok (tok (de_skip_special d)) ts start lead d out" "past_prompt d"
    "sorted (de_output d # ns)" "\<forall>n \<in> set ns. n \<le> length ts"
  shows "\<exists>t d'. decode_all tok ts ns d = Some (t, d') \<and> decoder_ok (tok (de_skip_special d)) ts start lead d' (out @ t) \<and>
           (ns \<noteq> [] \<longrightarrow> \<not> ends_unfinished (tok (de_skip_special d) (part ts start (last ns))) \<longrightarrow>
              out @ t = lead @ tok (de_skip_special d) (part ts start (last ns)))"
  using assms
proof (induction ns arbitrary: d out)
  case (Cons n ns)
  obtain t d1 where d1: "decode tok (take n ts) d = Some (t, d1)" "decoder_ok (tok (de_skip_special d)) ts start lead d1 (out @ t)"
      "past_prompt d1" "de_skip_special d1 = de_skip_special d" "de_output d1 \<le> n"
      "\<not> ends_unfinished (tok (de_skip_special d) (part ts start n)) \<longrightarrow> out @ t = lead @ tok (de_skip_special d) (part ts start n)"
    using decode_step [where tok = tok and d = d and n = n, OF Cons.prems(1-3)] Cons.prems(4,5) by auto
  obtain t' d2 where d2: "decode_all tok ts ns d1 = Some (t', d2)" "decoder_ok (tok (de_skip_special d)) ts start lead d2 ((out @ t) @ t')"
      "ns \<noteq> [] \<longrightarrow> \<not> ends_unfinished (tok (de_skip_special d) (part ts start (last ns))) \<longrightarrow>
         (out @ t) @ t' = lead @ tok (de_skip_special d) (part ts start (last ns))"
    using Cons.IH [of d1 "out @ t"] Cons.prems d1 by fastforce
  have "decode_all tok ts (n # ns) d = Some (t @ t', d2)" using d1(1) d2(1) by simp
  then show ?case using d1(6) d2 by (cases "ns = []") auto
qed simp

lemma incremental_text:
  assumes "tokenizer_law (tok skip)" "sorted (np # ns)" "\<forall>n \<in> set ns. n \<le> length ts" "ns \<noteq> []"
    and "echo \<longrightarrow> prompt \<noteq> [] \<and> 0 < np \<and> \<not> ends_unfinished (tok skip (drop (np - 6) (take np ts)))"
    and "\<not> ends_unfinished (tok skip (drop np (take (last ns) ts)))"
  shows "\<exists>t d. decode_all tok ts ns (create_decoder prompt np echo skip) = Some (t, d) \<and>
           t = (if echo then prompt else []) @ tok skip (drop np (take (last ns) ts))"
proof -
  have np: "np \<le> length ts" using assms(2,3,4) by (cases ns) auto
  have dt: "drop a (take b ts) = part ts a b" for a b by (simp add: drop_take)
  let ?d = "(create_decoder prompt np echo skip)\<lparr>de_prefix := (if echo then np - 6 else np), de_output := np\<rparr>"
  have skip: "de_skip_special ?d = skip" by (simp add: create_decoder_def)
  have ok: "decoder_ok (tok skip) ts np lead ?d lead" for lead
    using np assms(5) law_nil [OF assms(1)] by (auto simp: decoder_ok_def create_decoder_def dt)
  have past: "past_prompt ?d" by (simp add: past_prompt_def create_decoder_def)
  obtain t d where all: "decode_all tok ts ns ?d = Some (t, d)" "t = tok skip (drop np (take (last ns) ts))"
    using decode_all_ok [of tok ?d ts np "[]" "[]" ns] ok [of "[]"] past assms(1,2,3,4,6) unfolding skip dt
    by (auto simp: create_decoder_def)
  show ?thesis
  proof (cases echo)
    case False
    then have "?d = create_decoder prompt np echo skip" by (simp add: create_decoder_def)
    then show ?thesis using all False by simp
  next
    case True
    obtain n ns' where ns: "ns = n # ns'" using assms(4) by (cases ns) auto
    obtain t1 d1 where t1: "decode tok (take n ts) ?d = Some (t1, d1)" "decode_all tok ts ns' d1 = Some (drop (length t1) t, d)"
        "t = t1 @ drop (length t1) t"
      using all(1) ns by (auto split: option.splits)
    have "decode tok (take n ts) (create_decoder prompt np echo skip) = Some (prompt @ t1, d1)"
      using t1(1) True assms(5)
      by (auto simp: decode_def decode_prompt_def create_decoder_def check_prefill_token_def split: option.splits)
    then show ?thesis using t1 all(2) True ns by simp
  qed
qed


text \<open>A tokenizer that keeps the law: the tokens 1 and 2 make one character, and 1 alone is unfinished.\<close>

fun example_text :: "int list \<Rightarrow> string" where
  "example_text [] = []"
| "example_text [t] = (if t = 1 then replacement else ''a'')"
| "example_text (t # u # ts) =
    (if t = 1 \<and> u = 2 then ''e'' @ example_text ts
     else (if t = 1 then replacement else ''a'') @ example_text (u # ts))"

lemma replacement_last [simp]: "last replacement = char_of (189 :: nat)" "replacement \<noteq> []"
  by (simp_all add: replacement_def)

lemma example_text_nil [simp]: "example_text ts = [] \<longleftrightarrow> ts = []"
  by (induction ts rule: example_text.induct) simp_all

lemma example_text_last: "example_text ts \<noteq> [] \<Longrightarrow> last (example_text ts) = char_of (189 :: nat) \<Longrightarrow> ends_unfinished (example_text ts)"
proof (induction ts rule: example_text.induct)
  case (2 t)
  then show ?case by (cases "t = 1") (simp_all add: ends_unfinished_suffix char_of_def)
next
  case (3 t u ts)
  show ?case
  proof (cases "t = 1 \<and> u = 2")
    case True
    then show ?thesis
      using 3 ends_unfinished_append [of "example_text ts" "''e''"] by (cases "ts = []") (simp_all add: char_of_def)
  next
    case False
    then show ?thesis
      using 3(2) [OF False] 3(3,4) ends_unfinished_append [of "example_text (u # ts)"] ends_unfinished_Cons [of "example_text (u # ts)"]
      by (cases "t = 1") auto
  qed
qed simp

lemma example_text_append: "\<not> ends_unfinished (example_text xs) \<Longrightarrow> example_text (xs @ ys) = example_text xs @ example_text ys"
proof (induction xs rule: example_text.induct)
  case (2 t)
  then have "t \<noteq> 1" by (auto simp: ends_unfinished_suffix)
  then show ?case by (cases ys) simp_all
next
  case (3 t u ts)
  show ?case
  proof (cases "t = 1 \<and> u = 2")
    case True
    then show ?thesis using 3 ends_unfinished_append [of "example_text ts" "''e''"] by auto
  next
    case False
    then show ?thesis using 3(2) [OF False] 3(3) ends_unfinished_append [of "example_text (u # ts)"] ends_unfinished_Cons [of "example_text (u # ts)"]
      by (cases "t = 1") auto
  qed
qed simp

lemma example_text_law: "tokenizer_law example_text"
proof -
  have "ends_unfinished (example_text ys)"
    if "example_text ys \<noteq> []" "ends_unfinished (example_text xs @ example_text ys)" for xs ys
  proof -
    have "last (example_text xs @ example_text ys) = char_of (189 :: nat)"
      using that(2) by (auto simp: ends_unfinished_suffix suffix_def)
    then show ?thesis using that(1) by (intro example_text_last) simp_all
  qed
  then show ?thesis by (simp add: tokenizer_law_def example_text_append)
qed


end
