(* ===== verification/Sequence_Output.thy ===== *)
theory Sequence_Output imports Incremental_Decoder begin

text \<open>
  When a sequence ends and how much of it may be shown: \<open>StoppingChecker\<close> (\<open>core/framework/request/stopping_checker.{h,cpp}\<close>)
  and the token and text side of \<open>Sequence\<close> (\<open>core/framework/request/sequence.cpp\<close>): appending a token, the finish status,
  the tokens held back for a stop sequence that may be under way, streaming output.

  Modelled is the case without overlap of steps, where no error status is set and the JSON grammar takes the token; logprobs,
  embeddings and the generative recommendation models are left out.  \<open>size_t\<close> differences wrap at 64 bits.  \<open>None\<close> is a failed
  \<open>CHECK\<close> or, for an empty stop sequence, the undefined \<open>back()\<close> of an empty vector.
\<close>

section \<open>The stopping checker\<close>

datatype finish_reason = FINISH_NONE | FINISH_STOP | FINISH_LENGTH

record stopping_checker =
  st_max_generated :: nat
  st_max_context :: nat
  st_eos :: int
  st_ignore_eos :: bool
  st_stop_tokens :: "int list"
  st_stop_sequences :: "int list list"

definition get_max_stop_sequence_token_count :: "stopping_checker \<Rightarrow> nat" where
  "get_max_stop_sequence_token_count st = fold (\<lambda>s m. max m (length s)) (st_stop_sequences st) 0"

definition match_suffix :: "int list \<Rightarrow> int list \<Rightarrow> bool" where
  "match_suffix data suf =
    (if suf = [] then True
     else if length data < length suf then False
     else drop (length data - length suf) data = suf)"

definition committed :: "int list \<Rightarrow> int list" where
  "committed ids = rev (dropWhile (\<lambda>t. t < 0) (rev ids))"

text \<open>The length of the first stop sequence that matches.\<close>

fun match_stop :: "int list \<Rightarrow> int list list \<Rightarrow> nat option option" where
  "match_stop ids [] = Some None"
| "match_stop ids (s # ss) =
    (if s = [] then None
     else if last s = last ids \<and> match_suffix ids s then Some (Some (length s))
     else match_stop ids ss)"

definition check :: "stopping_checker \<Rightarrow> int list \<Rightarrow> nat \<Rightarrow> (finish_reason \<times> nat) option" where
  "check st token_ids num_prompt =
    (let ids = committed token_ids; len = length ids
     in if ids = [] then None
        else if \<not> st_ignore_eos st \<and> last ids = st_eos st then Some (FINISH_STOP, 1)
        else if \<not> st_ignore_eos st \<and> last ids \<in> set (st_stop_tokens st) then Some (FINISH_STOP, 1)
        else (case match_stop ids (st_stop_sequences st) of
            None \<Rightarrow> None
          | Some (Some n) \<Rightarrow> Some (FINISH_STOP, min n (size_diff len num_prompt))
          | Some None \<Rightarrow>
              if st_max_generated st > 0 \<and> size_diff len num_prompt \<ge> st_max_generated st then Some (FINISH_LENGTH, 0)
              else if st_max_context st > 0 \<and> len \<ge> st_max_context st
              then (if len < num_prompt then None else Some (FINISH_LENGTH, 0))
              else Some (FINISH_NONE, 0)))"

lemma match_suffix_iff: "match_suffix data suf \<longleftrightarrow> suffix suf data"
proof
  assume "match_suffix data suf"
  then show "suffix suf data" by (auto simp: match_suffix_def split: if_splits intro: suffix_drop) (metis suffix_drop)
next
  assume "suffix suf data"
  then show "match_suffix data suf" by (auto simp: match_suffix_def suffix_def)
qed

lemma match_stop_find:
  assumes "\<forall>s \<in> set ss. s \<noteq> []"
  shows "match_stop ids ss = Some (map_option length (List.find (\<lambda>s. suffix s ids) ss))"
  using assms
proof (induction ss)
  case (Cons s ss)
  have "last s = last ids" if "suffix s ids" using that Cons.prems by (auto simp: suffix_def)
  then show ?case using Cons by (auto simp: match_suffix_iff)
qed simp

lemma max_stop_ge: "s \<in> set (st_stop_sequences st) \<Longrightarrow> length s \<le> get_max_stop_sequence_token_count st"
proof -
  have "(\<forall>s \<in> set ss. length s \<le> fold (\<lambda>s m. max m (length s)) ss m) \<and> m \<le> fold (\<lambda>s m. max m (length s)) ss m"
    for ss :: "int list list" and m
  proof (induction ss arbitrary: m)
    case (Cons a ss)
    have "max m (length a) \<le> fold (\<lambda>s m. max m (length s)) ss (max m (length a))" using Cons.IH by blast
    then show ?case using Cons.IH [of "max m (length a)"] by simp
  qed simp
  then show "s \<in> set (st_stop_sequences st) \<Longrightarrow> length s \<le> get_max_stop_sequence_token_count st"
    by (simp add: get_max_stop_sequence_token_count_def)
qed

section \<open>A sequence\<close>

record out_sequence =
  os_tokens :: "int list"
  os_capacity :: nat
  os_prompt_tokens :: nat
  os_include_stop :: bool
  os_stopping :: stopping_checker
  os_invalidated :: bool
  os_finished :: bool
  os_reason :: finish_reason
  os_matched :: nat
  os_decoder :: incremental_decoder
  os_token_offset :: nat

definition create_sequence :: "int list \<Rightarrow> nat \<Rightarrow> stopping_checker \<Rightarrow> bool \<Rightarrow> incremental_decoder \<Rightarrow> out_sequence" where
  "create_sequence prompt capacity st include_stop d = \<lparr>os_tokens = prompt, os_capacity = capacity, os_prompt_tokens = length prompt,
     os_include_stop = include_stop, os_stopping = st, os_invalidated = True, os_finished = False, os_reason = FINISH_NONE, os_matched = 0,
     os_decoder = d, os_token_offset = de_output d\<rparr>"

definition append_token :: "int \<Rightarrow> out_sequence \<Rightarrow> out_sequence option" where
  "append_token t s =
    (if \<not> length (os_tokens s) < os_capacity s then None
     else if os_finished s then None
     else Some (s\<lparr>os_tokens := os_tokens s @ [t], os_invalidated := True\<rparr>))"

definition finished :: "out_sequence \<Rightarrow> (bool \<times> out_sequence) option" where
  "finished s =
    (if \<not> os_invalidated s then Some (os_finished s, s)
     else (case check (os_stopping s) (os_tokens s) (os_prompt_tokens s) of
         None \<Rightarrow> None
       | Some (reason, n) \<Rightarrow>
           (let s1 = s\<lparr>os_invalidated := False, os_matched := n\<rparr>
            in if reason \<noteq> FINISH_NONE then Some (True, s1\<lparr>os_reason := reason, os_finished := True\<rparr>) else Some (False, s1))))"

definition num_valid_tokens :: "out_sequence \<Rightarrow> nat" where
  "num_valid_tokens s = os_prompt_tokens s + length (committed (drop (os_prompt_tokens s) (os_tokens s)))"

definition get_decodable_token_count :: "nat \<Rightarrow> out_sequence \<Rightarrow> nat option" where
  "get_decodable_token_count len s =
    (if len < os_prompt_tokens s then None
     else if os_include_stop s then Some len
     else (let generated = len - os_prompt_tokens s;
               most = get_max_stop_sequence_token_count (os_stopping s);
               withheld = (if \<not> os_finished s \<and> most > 0 then min (most - 1) generated else os_matched s)
           in if withheld \<le> generated then Some (len - withheld) else None))"

record sequence_output =
  ou_text :: string
  ou_token_ids :: "int list"

definition generate_streaming_output :: "tokenizer \<Rightarrow> out_sequence \<Rightarrow> (sequence_output option \<times> out_sequence) option" where
  "generate_streaming_output tok s =
    (let len = num_valid_tokens s
     in if length (os_tokens s) < len then None
        else (case get_decodable_token_count len s of
            None \<Rightarrow> None
          | Some n \<Rightarrow>
              (case slice (take len (os_tokens s)) 0 (max n (de_output (os_decoder s))) of
                 None \<Rightarrow> None
               | Some ids \<Rightarrow>
                   (case decode tok ids (os_decoder s) of
                      None \<Rightarrow> None
                    | Some (delta, d) \<Rightarrow>
                        if delta = [] \<and> os_token_offset s = len then Some (None, s\<lparr>os_decoder := d\<rparr>)
                        else (case slice (take len (os_tokens s)) (os_token_offset s) len of
                            None \<Rightarrow> None
                          | Some new \<Rightarrow> Some (Some \<lparr>ou_text = delta, ou_token_ids = new\<rparr>,
                                            s\<lparr>os_decoder := d, os_token_offset := len\<rparr>))))))"

text \<open>Generation of a sequence: each token is appended, the finish status computed and the output streamed.\<close>

fun stream_tokens :: "tokenizer \<Rightarrow> int list \<Rightarrow> out_sequence \<Rightarrow> (sequence_output list \<times> out_sequence) option" where
  "stream_tokens tok [] s = Some ([], s)"
| "stream_tokens tok (t # ts) s =
    (case append_token t s of None \<Rightarrow> None
     | Some s1 \<Rightarrow> (case finished s1 of None \<Rightarrow> None
       | Some (f, s2) \<Rightarrow> (case generate_streaming_output tok s2 of None \<Rightarrow> None
         | Some (out, s3) \<Rightarrow>
             (if f then Some (case_option [] (\<lambda>x. [x]) out, s3)
              else map_option (\<lambda>(outs, s4). (case_option [] (\<lambda>x. [x]) out @ outs, s4)) (stream_tokens tok ts s3)))))"

section \<open>What streaming has shown\<close>

lemma committed_all: "ids \<noteq> [] \<Longrightarrow> 0 \<le> last ids \<Longrightarrow> committed ids = ids"
proof -
  assume a: "ids \<noteq> []" "0 \<le> last ids"
  then obtain ys y where "ids = ys @ [y]" by (metis rev_exhaust)
  then show ?thesis using a(2) by (simp add: committed_def)
qed

lemma committed_nonneg: "\<forall>t \<in> set ids. 0 \<le> t \<Longrightarrow> committed ids = ids"
  using committed_all [of ids] by (cases "ids = []") (auto simp: committed_def)

abbreviation withheld :: "out_sequence \<Rightarrow> nat \<Rightarrow> nat" where
  "withheld s generated \<equiv> (if os_include_stop s then 0 else min (get_max_stop_sequence_token_count (os_stopping s) - 1) generated)"

lemma decodable_unfinished:
  assumes "\<not> os_finished s" "os_matched s = 0" "os_prompt_tokens s \<le> len"
  shows "get_decodable_token_count len s = Some (len - withheld s (len - os_prompt_tokens s))"
  using assms by (auto simp: get_decodable_token_count_def Let_def)

lemma check_matched:
  assumes "check st ids np = Some (reason, m)" "\<forall>s \<in> set (st_stop_sequences st). s \<noteq> []" "np < length (committed ids)"
    "length ids < 2 ^ 64"
  shows "m \<le> length (committed ids) - np" "m \<le> max 1 (get_max_stop_sequence_token_count st)" "reason = FINISH_NONE \<Longrightarrow> m = 0"
    "reason = FINISH_LENGTH \<Longrightarrow> m = 0"
proof -
  have len: "length (committed ids) \<le> length ids"
    by (metis committed_def length_dropWhile_le length_rev)
  have d: "size_diff (length (committed ids)) np = length (committed ids) - np"
    using assms(3,4) len by (intro size_diff_le) simp_all
  have find: "length s \<le> get_max_stop_sequence_token_count st" if "List.find P (st_stop_sequences st) = Some s" for P s
    using that by (intro max_stop_ge) (auto simp: find_Some_iff)
  show "m \<le> length (committed ids) - np" "m \<le> max 1 (get_max_stop_sequence_token_count st)" "reason = FINISH_NONE \<Longrightarrow> m = 0"
    "reason = FINISH_LENGTH \<Longrightarrow> m = 0"
    using assms(1,3) d find
    by (auto simp: check_def Let_def match_stop_find [OF assms(2)] le_max_iff_disj min.coboundedI1 split: if_splits option.splits)
qed

lemma check_some:
  assumes "\<forall>s \<in> set (st_stop_sequences st). s \<noteq> []" "committed ids \<noteq> []" "np \<le> length (committed ids)"
  obtains reason m where "check st ids np = Some (reason, m)"
proof -
  have "check st ids np \<noteq> None"
    using assms(2,3) by (cases "List.find (\<lambda>s. suffix s (committed ids)) (st_stop_sequences st)")
      (simp_all add: check_def Let_def match_stop_find [OF assms(1)])
  then show thesis using that by auto
qed

definition streamed :: "tokenizer \<Rightarrow> bool \<Rightarrow> out_sequence \<Rightarrow> string \<Rightarrow> bool" where
  "streamed tok skip s out \<longleftrightarrow> decoder_ok (tok skip) (os_tokens s) (os_prompt_tokens s) [] (os_decoder s) out \<and> past_prompt (os_decoder s) \<and>
     de_skip_special (os_decoder s) = skip \<and> os_prompt_tokens s \<le> length (os_tokens s) \<and>
     (\<forall>t \<in> set (drop (os_prompt_tokens s) (os_tokens s)). 0 \<le> t) \<and> os_token_offset s = length (os_tokens s) \<and>
     (\<exists>n. get_decodable_token_count (length (os_tokens s)) s = Some n \<and> de_output (os_decoder s) \<le> n \<and>
        (\<not> ends_unfinished (tok skip (part (os_tokens s) (os_prompt_tokens s) n)) \<longrightarrow> out = tok skip (part (os_tokens s) (os_prompt_tokens s) n)))"

lemma decodable_step:
  assumes s: "\<not> os_finished s" "os_matched s = 0" "os_prompt_tokens s \<le> length (os_tokens s)"
    and seqs: "\<forall>q \<in> set (st_stop_sequences (os_stopping s)). q \<noteq> []" and t: "0 \<le> t" "Suc (length (os_tokens s)) < 2 ^ 64"
    and n: "get_decodable_token_count (length (os_tokens s)) s = Some n"
  obtains f s2 n2 where "finished (s\<lparr>os_tokens := os_tokens s @ [t], os_invalidated := True\<rparr>) = Some (f, s2)"
    "get_decodable_token_count (Suc (length (os_tokens s))) s2 = Some n2" "n \<le> n2" "n2 \<le> Suc (length (os_tokens s))"
    "os_finished s2 = f" "\<not> f \<longrightarrow> os_matched s2 = 0" "os_tokens s2 = os_tokens s @ [t]" "os_prompt_tokens s2 = os_prompt_tokens s"
    "os_decoder s2 = os_decoder s" "os_token_offset s2 = os_token_offset s" "os_stopping s2 = os_stopping s" "os_capacity s2 = os_capacity s"
proof -
  let ?s1 = "s\<lparr>os_tokens := os_tokens s @ [t], os_invalidated := True\<rparr>" let ?len = "length (os_tokens s)" let ?np = "os_prompt_tokens s"
  let ?k = "get_max_stop_sequence_token_count (os_stopping s)"
  have com: "committed (os_tokens s @ [t]) = os_tokens s @ [t]" using t(1) by (intro committed_all) simp_all
  obtain reason m where c: "check (os_stopping s) (os_tokens s @ [t]) ?np = Some (reason, m)"
    by (rule check_some [OF seqs, of "os_tokens s @ [t]" ?np]) (use com s(3) in simp_all)
  have m: "m \<le> Suc ?len - ?np" "m \<le> max 1 ?k" "reason = FINISH_NONE \<Longrightarrow> m = 0"
    using check_matched [OF c seqs] com s(3) t(2) by simp_all
  have n_is: "n = ?len - withheld s (?len - ?np)" using decodable_unfinished [OF s] n by simp
  let ?f = "reason \<noteq> FINISH_NONE"
  let ?s2 = "if ?f then ?s1\<lparr>os_invalidated := False, os_matched := m, os_reason := reason, os_finished := True\<rparr>
             else ?s1\<lparr>os_invalidated := False, os_matched := m\<rparr>"
  have fin: "finished ?s1 = Some (?f, ?s2)" using c by (simp add: finished_def Let_def)
  show thesis
  proof (cases ?f)
    case True
    let ?n2 = "if os_include_stop s then Suc ?len else Suc ?len - m"
    have g: "get_decodable_token_count (Suc ?len) ?s2 = Some ?n2"
      using True s(3) m(1) by (simp add: get_decodable_token_count_def Let_def)
    have "n \<le> ?n2" using m(1,2) s(3) by (simp add: n_is) linarith
    then show thesis using that [OF fin g] True s(1) by simp
  next
    case False
    have z: "\<not> os_finished ?s2" "os_matched ?s2 = 0" "os_prompt_tokens ?s2 \<le> Suc ?len" using False s m(3) by simp_all
    have "n \<le> Suc ?len - withheld ?s2 (Suc ?len - os_prompt_tokens ?s2)" using False s(3) by (simp add: n_is) linarith
    then show thesis using that [OF fin decodable_unfinished [OF z]] False s(1) m(3) by simp
  qed
qed

lemma num_valid_all:
  assumes "os_prompt_tokens s \<le> length (os_tokens s)" "\<forall>t \<in> set (drop (os_prompt_tokens s) (os_tokens s)). 0 \<le> t"
  shows "num_valid_tokens s = length (os_tokens s)"
  using assms by (simp add: num_valid_tokens_def committed_nonneg)

lemma get_decodable_cong:
  "os_include_stop s' = os_include_stop s \<Longrightarrow> os_prompt_tokens s' = os_prompt_tokens s \<Longrightarrow> os_stopping s' = os_stopping s \<Longrightarrow>
   os_finished s' = os_finished s \<Longrightarrow> os_matched s' = os_matched s \<Longrightarrow> get_decodable_token_count len s' = get_decodable_token_count len s"
  by (simp add: get_decodable_token_count_def Let_def)

lemma stream_output_step:
  assumes law: "tokenizer_law (tok skip)"
    and dec: "decoder_ok (tok skip) (os_tokens s) (os_prompt_tokens s) [] (os_decoder s) out" "past_prompt (os_decoder s)"
      "de_skip_special (os_decoder s) = skip" "os_prompt_tokens s \<le> length (os_tokens s)"
      "\<forall>t \<in> set (drop (os_prompt_tokens s) (os_tokens s)). 0 \<le> t" "os_token_offset s < length (os_tokens s)"
    and n: "get_decodable_token_count (length (os_tokens s)) s = Some n" "de_output (os_decoder s) \<le> n" "n \<le> length (os_tokens s)"
  shows "\<exists>delta d. generate_streaming_output tok s =
           Some (Some \<lparr>ou_text = delta, ou_token_ids = drop (os_token_offset s) (os_tokens s)\<rparr>,
                 s\<lparr>os_decoder := d, os_token_offset := length (os_tokens s)\<rparr>) \<and>
           streamed tok skip (s\<lparr>os_decoder := d, os_token_offset := length (os_tokens s)\<rparr>) (out @ delta)"
proof -
  obtain delta d where d: "decode tok (take n (os_tokens s)) (os_decoder s) = Some (delta, d)"
      "decoder_ok (tok skip) (os_tokens s) (os_prompt_tokens s) [] d (out @ delta)" "past_prompt d" "de_skip_special d = skip" "de_output d \<le> n"
      "\<not> ends_unfinished (tok skip (part (os_tokens s) (os_prompt_tokens s) n)) \<longrightarrow> out @ delta = tok skip (part (os_tokens s) (os_prompt_tokens s) n)"
    using decode_step [where tok = tok and d = "os_decoder s" and ts = "os_tokens s" and start = "os_prompt_tokens s" and lead = "[]"
        and out = out and n = n] law dec(1-3) n(2,3) by auto
  let ?s = "s\<lparr>os_decoder := d, os_token_offset := length (os_tokens s)\<rparr>"
  have "generate_streaming_output tok s = Some (Some \<lparr>ou_text = delta, ou_token_ids = drop (os_token_offset s) (os_tokens s)\<rparr>, ?s)"
    using n dec(6) d(1) num_valid_all [OF dec(4,5)]
    by (simp add: generate_streaming_output_def Let_def slice_def max_absorb1)
  moreover have "get_decodable_token_count (length (os_tokens s)) ?s = Some n"
    using n(1) get_decodable_cong [of ?s s] by simp
  ultimately show ?thesis using d dec(4,5) by (auto simp: streamed_def)
qed

lemma stream_tokens_ok:
  assumes law: "tokenizer_law (tok skip)" and seqs: "\<forall>q \<in> set (st_stop_sequences st). q \<noteq> []"
  shows "streamed tok skip s out \<Longrightarrow> os_stopping s = st \<Longrightarrow> \<not> os_finished s \<Longrightarrow> os_matched s = 0 \<Longrightarrow>
    length (os_tokens s) + length gen \<le> os_capacity s \<Longrightarrow> os_capacity s < 2 ^ 64 \<Longrightarrow> \<forall>t \<in> set gen. 0 \<le> t \<Longrightarrow>
    \<exists>outs s' k. stream_tokens tok gen s = Some (outs, s') \<and> k \<le> length gen \<and> os_tokens s' = os_tokens s @ take k gen \<and>
      os_prompt_tokens s' = os_prompt_tokens s \<and> (k < length gen \<longrightarrow> os_finished s') \<and> concat (map ou_token_ids outs) = take k gen \<and>
      streamed tok skip s' (out @ concat (map ou_text outs))"
proof (induction gen arbitrary: s out)
  case Nil
  then show ?case by (intro exI [of _ "[]"] exI [of _ s] exI [of _ 0]) simp
next
  case (Cons t gen)
  let ?s1 = "s\<lparr>os_tokens := os_tokens s @ [t], os_invalidated := True\<rparr>"
  have st: "decoder_ok (tok skip) (os_tokens s) (os_prompt_tokens s) [] (os_decoder s) out" "past_prompt (os_decoder s)"
      "de_skip_special (os_decoder s) = skip" "os_prompt_tokens s \<le> length (os_tokens s)"
      "\<forall>t \<in> set (drop (os_prompt_tokens s) (os_tokens s)). 0 \<le> t" "os_token_offset s = length (os_tokens s)"
    using Cons.prems(1) by (simp_all add: streamed_def)
  obtain n where n: "get_decodable_token_count (length (os_tokens s)) s = Some n" "de_output (os_decoder s) \<le> n"
    using Cons.prems(1) by (auto simp: streamed_def)
  have app: "append_token t s = Some ?s1" using Cons.prems(3,5) by (simp add: append_token_def)
  have pre: "\<forall>q \<in> set (st_stop_sequences (os_stopping s)). q \<noteq> []" "0 \<le> t" "Suc (length (os_tokens s)) < 2 ^ 64"
    using seqs Cons.prems by auto
  obtain f s2 n2 where fin: "finished ?s1 = Some (f, s2)"
    "get_decodable_token_count (Suc (length (os_tokens s))) s2 = Some n2" "n \<le> n2" "n2 \<le> Suc (length (os_tokens s))"
    "os_finished s2 = f" "\<not> f \<longrightarrow> os_matched s2 = 0" "os_tokens s2 = os_tokens s @ [t]" "os_prompt_tokens s2 = os_prompt_tokens s"
    "os_decoder s2 = os_decoder s" "os_token_offset s2 = os_token_offset s" "os_stopping s2 = os_stopping s" "os_capacity s2 = os_capacity s"
    using decodable_step [OF Cons.prems(3,4) st(4) pre n(1)] by blast
  have dec2: "decoder_ok (tok skip) (os_tokens s2) (os_prompt_tokens s2) [] (os_decoder s2) out"
    using decoder_ok_extend [OF st(1)] fin by simp
  obtain delta d where out: "generate_streaming_output tok s2 =
        Some (Some \<lparr>ou_text = delta, ou_token_ids = [t]\<rparr>, s2\<lparr>os_decoder := d, os_token_offset := length (os_tokens s2)\<rparr>)"
      "streamed tok skip (s2\<lparr>os_decoder := d, os_token_offset := length (os_tokens s2)\<rparr>) (out @ delta)"
    using stream_output_step [where tok = tok and skip = skip, OF law dec2, of n2] fin st pre(2) n(2) by auto
  let ?s3 = "s2\<lparr>os_decoder := d, os_token_offset := length (os_tokens s2)\<rparr>"
  show ?case
  proof (cases f)
    case True
    then show ?thesis
      using app fin out
      by (intro exI [of _ "[\<lparr>ou_text = delta, ou_token_ids = [t]\<rparr>]"] exI [of _ ?s3] exI [of _ 1]) simp
  next
    case False
    obtain outs s' k where ih: "stream_tokens tok gen ?s3 = Some (outs, s')" "k \<le> length gen" "os_tokens s' = os_tokens ?s3 @ take k gen"
        "os_prompt_tokens s' = os_prompt_tokens ?s3" "k < length gen \<longrightarrow> os_finished s'" "concat (map ou_token_ids outs) = take k gen"
        "streamed tok skip s' ((out @ delta) @ concat (map ou_text outs))"
      using Cons.IH [OF out(2)] Cons.prems fin False by auto
    show ?thesis
      using app fin out(1) ih False
      by (intro exI [of _ "\<lparr>ou_text = delta, ou_token_ids = [t]\<rparr> # outs"] exI [of _ s'] exI [of _ "Suc k"]) simp
  qed
qed

section \<open>Properties\<close>

text \<open>The stopping checker decides what its options say, for a sequence that is not shorter than its prompt and stop sequences that are not
  empty: behind the placeholders at the end, it stops at the end token and at a stop token unless they are ignored, at a stop
  sequence that the tokens end with, and for length only when none of these holds; the tokens it reports to hide are
  one for a token and the part of the stop sequence that was generated.\<close>

theorem check_exact:
  assumes "ids = committed token_ids" "ids \<noteq> []" "np \<le> length ids" "length token_ids < 2 ^ 64" "\<forall>s \<in> set (st_stop_sequences st). s \<noteq> []"
  shows "check st token_ids np = Some (
    if \<not> st_ignore_eos st \<and> (last ids = st_eos st \<or> last ids \<in> set (st_stop_tokens st)) then (FINISH_STOP, 1)
    else case List.find (\<lambda>s. suffix s ids) (st_stop_sequences st) of
        Some s \<Rightarrow> (FINISH_STOP, min (length s) (length ids - np))
      | None \<Rightarrow> if st_max_generated st > 0 \<and> length ids - np \<ge> st_max_generated st \<or> st_max_context st > 0 \<and> length ids \<ge> st_max_context st
                then (FINISH_LENGTH, 0) else (FINISH_NONE, 0))"
proof -
  have "length ids \<le> length token_ids" using assms(1) by (metis committed_def length_dropWhile_le length_rev)
  then have "size_diff (length ids) np = length ids - np" using assms(3,4) by (intro size_diff_le) simp_all
  then show ?thesis
    using assms(2,3) by (auto simp: check_def Let_def match_stop_find [OF assms(5)] simp flip: assms(1) split: option.splits)
qed

definition example_checker :: stopping_checker where
  "example_checker = \<lparr>st_max_generated = 100, st_max_context = 0, st_eos = 9, st_ignore_eos = False, st_stop_tokens = [], st_stop_sequences = [[4, 5]]\<rparr>"

theorem check_exact_witness:
  "check example_checker [7, 4, 5, - 1] 2 = Some (
    if \<not> st_ignore_eos example_checker \<and> (last [7, 4, 5] = st_eos example_checker \<or> last [7, 4, 5] \<in> set (st_stop_tokens example_checker)) then (FINISH_STOP, 1)
    else case List.find (\<lambda>s. suffix s [7, 4, 5]) (st_stop_sequences example_checker) of
        Some s \<Rightarrow> (FINISH_STOP, min (length s) (length [7 :: int, 4, 5] - 2))
      | None \<Rightarrow> if st_max_generated example_checker > 0 \<and> length [7 :: int, 4, 5] - 2 \<ge> st_max_generated example_checker \<or>
                   st_max_context example_checker > 0 \<and> length [7 :: int, 4, 5] \<ge> st_max_context example_checker
                then (FINISH_LENGTH, 0) else (FINISH_NONE, 0))"
  by (rule check_exact) (simp_all add: committed_def example_checker_def)

lemma stream_text:
  assumes "tokenizer_law (tok skip)" "\<forall>q \<in> set (st_stop_sequences st). q \<noteq> []" "\<forall>t \<in> set gen. 0 \<le> t"
    and "length prompt + length gen \<le> capacity" "capacity < 2 ^ 64"
  shows "\<exists>outs s' k n m. stream_tokens tok gen (create_sequence prompt capacity st inc (create_decoder prompt_text (length prompt) False skip)) = Some (outs, s') \<and>
    k \<le> length gen \<and> os_prompt_tokens s' = length prompt \<and> os_tokens s' = prompt @ take k gen \<and> (k < length gen \<longrightarrow> os_finished s') \<and> concat (map ou_token_ids outs) = take k gen \<and>
    get_decodable_token_count (length prompt + k) s' = Some n \<and> m \<le> n \<and>
    concat (map ou_text outs) = tok skip (drop (length prompt) (take m (os_tokens s'))) \<and>
    (\<not> ends_unfinished (tok skip (drop (length prompt) (take n (os_tokens s')))) \<longrightarrow>
       concat (map ou_text outs) = tok skip (drop (length prompt) (take n (os_tokens s'))))"
proof -
  let ?s = "create_sequence prompt capacity st inc (create_decoder prompt_text (length prompt) False skip)"
  have "streamed tok skip ?s []"
    using law_nil [OF assms(1)]
    by (simp add: streamed_def create_sequence_def create_decoder_def decoder_ok_def past_prompt_def get_decodable_token_count_def Let_def)
  then obtain outs s' k where r: "stream_tokens tok gen ?s = Some (outs, s')" "k \<le> length gen" "os_tokens s' = os_tokens ?s @ take k gen"
      "os_prompt_tokens s' = os_prompt_tokens ?s" "k < length gen \<longrightarrow> os_finished s'" "concat (map ou_token_ids outs) = take k gen"
      "streamed tok skip s' ([] @ concat (map ou_text outs))"
    using stream_tokens_ok [where tok = tok and skip = skip, OF assms(1,2), of ?s "[]" gen] assms(3-5) by (auto simp: create_sequence_def)
  have np: "os_prompt_tokens s' = length prompt" "os_tokens s' = prompt @ take k gen" using r(3,4) by (simp_all add: create_sequence_def)
  have len: "length (os_tokens s') = length prompt + k" using r(2) np(2) by simp
  obtain n where n: "get_decodable_token_count (length prompt + k) s' = Some n" "de_output (os_decoder s') \<le> n"
      "\<not> ends_unfinished (tok skip (part (os_tokens s') (length prompt) n)) \<longrightarrow>
         concat (map ou_text outs) = tok skip (part (os_tokens s') (length prompt) n)"
    using r(7) len unfolding streamed_def np(1) append_Nil by force
  have "concat (map ou_text outs) = tok skip (part (os_tokens s') (length prompt) (de_output (os_decoder s')))"
    using r(7) np(1) by (simp add: streamed_def decoder_ok_def)
  then show ?thesis using r(1,2,5,6) np n by (auto simp: drop_take)
qed



end
