(* ===== verification/Sequence_Final.thy ===== *)
theory Sequence_Final imports Sequence_Output begin

text \<open>
  The output of a whole sequence at its end, \<open>Sequence::generate_output\<close> (\<open>core/framework/request/sequence.cpp\<close>), and its
  agreement with streaming.
\<close>

fun decode_range :: "tokenizer \<Rightarrow> int list \<Rightarrow> nat list \<Rightarrow> incremental_decoder \<Rightarrow> (string \<times> incremental_decoder) option" where
  "decode_range tok ids [] d = Some ([], d)"
| "decode_range tok ids (n # ns) d =
    (case slice ids 0 n of
       None \<Rightarrow> None
     | Some now \<Rightarrow> (case decode tok now d of
         None \<Rightarrow> None
       | Some (t, d') \<Rightarrow> map_option (\<lambda>(t', d''). (t @ t', d'')) (decode_range tok ids ns d')))"

text \<open>The last six decodable tokens are decoded one by one, the ones in front of them at once.\<close>

definition generate_output :: "tokenizer \<Rightarrow> out_sequence \<Rightarrow> (sequence_output \<times> out_sequence) option" where
  "generate_output tok s =
    (let len = num_valid_tokens s
     in case get_decodable_token_count len s of
          None \<Rightarrow> None
        | Some decodable \<Rightarrow>
            (let start = de_output (os_decoder s);
                 first = (if decodable \<le> 6 then 0 else decodable - 6);
                 first = (if first < os_prompt_tokens s then os_prompt_tokens s else first)
             in case decode_range tok (os_tokens s) [first..<decodable + 1] (os_decoder s) of
                  None \<Rightarrow> None
                | Some (t, d) \<Rightarrow> (case slice (os_tokens s) start len of
                      None \<Rightarrow> None
                    | Some ids \<Rightarrow> Some (\<lparr>ou_text = t, ou_token_ids = ids\<rparr>, s\<lparr>os_decoder := d\<rparr>))))"

lemma decode_range_all: "\<forall>n \<in> set ns. n \<le> length ids \<Longrightarrow> decode_range tok ids ns d = decode_all tok ids ns d"
  by (induction ns arbitrary: d) (simp_all add: slice_def split: option.splits)

lemma decodable_range:
  assumes "get_decodable_token_count len s = Some n"
  shows "os_prompt_tokens s \<le> n" "n \<le> len"
  using assms by (auto simp: get_decodable_token_count_def Let_def split: if_splits)

lemma generate_output_text:
  assumes "tokenizer_law (tok skip)" "os_decoder s = create_decoder prompt_text (os_prompt_tokens s) False skip"
    and "os_prompt_tokens s \<le> length (os_tokens s)" "\<forall>t \<in> set (drop (os_prompt_tokens s) (os_tokens s)). 0 \<le> t"
    and "get_decodable_token_count (length (os_tokens s)) s = Some n"
    and "\<not> ends_unfinished (tok skip (drop (os_prompt_tokens s) (take n (os_tokens s))))"
  shows "\<exists>s'. generate_output tok s =
    Some (\<lparr>ou_text = tok skip (drop (os_prompt_tokens s) (take n (os_tokens s))), ou_token_ids = drop (os_prompt_tokens s) (os_tokens s)\<rparr>, s')"
proof -
  let ?np = "os_prompt_tokens s"
  let ?first = "if n - 6 < ?np then ?np else n - 6"
  have r: "?np \<le> n" "n \<le> length (os_tokens s)" using decodable_range [OF assms(5)] by simp_all
  define ns where "ns = [?first..<n + 1]"
  have ns: "ns \<noteq> []" "last ns = n" "sorted (?np # ns)" "\<forall>m \<in> set ns. m \<le> length (os_tokens s)"
    using r by (auto simp add: ns_def sorted_upt simp del: upt_Suc)
  have clean: "\<not> ends_unfinished (tok skip (drop ?np (take (last ns) (os_tokens s))))" using assms(6) ns(2) by simp
  have "\<exists>t d. decode_all tok (os_tokens s) ns (create_decoder prompt_text ?np False skip) = Some (t, d) \<and>
      t = (if False then prompt_text else []) @ tok skip (drop ?np (take (last ns) (os_tokens s)))"
    by (rule incremental_text [where tok = tok and skip = skip, OF assms(1) ns(3,4,1) _ clean]) simp
  then obtain t d where d: "decode_all tok (os_tokens s) ns (os_decoder s) = Some (t, d)"
      "t = tok skip (drop ?np (take n (os_tokens s)))"
    using assms(2) ns(2) by auto
  have first: "(if (if n \<le> 6 then 0 else n - 6) < ?np then ?np else (if n \<le> 6 then 0 else n - 6)) = ?first" by simp
  have dec: "decode_range tok (os_tokens s) [?first..<n + 1] (os_decoder s) = Some (t, d)"
    using d(1) decode_range_all [OF ns(4)] by (simp add: ns_def)
  show ?thesis
    unfolding generate_output_def num_valid_all [OF assms(3,4)] Let_def assms(5) option.case first dec prod.case
    using assms(2,3) d(2) by (simp add: slice_def create_decoder_def)
qed

text \<open>Streamed and final output agree: for the tokens of a streamed sequence and its finish status, \<open>generate_output\<close> of a sequence that
  was not streamed does not fail and returns as its text what the concatenation of the streamed texts is, and all generated tokens,
  when the decodable text ends with a whole character.\<close>

theorem final_output_is_streamed:
  assumes "tokenizer_law (tok skip)" "\<forall>q \<in> set (st_stop_sequences st). q \<noteq> []" "\<forall>t \<in> set gen. 0 \<le> t"
    and "length prompt + length gen \<le> capacity" "capacity < 2 ^ 64"
    and "stream_tokens tok gen (create_sequence prompt capacity st inc (create_decoder prompt_text (length prompt) False skip)) = Some (outs, s')"
    and "get_decodable_token_count (length (os_tokens s')) s' = Some n"
    and "\<not> ends_unfinished (tok skip (drop (length prompt) (take n (os_tokens s'))))"
  shows "\<exists>s''. generate_output tok (s'\<lparr>os_decoder := create_decoder prompt_text (length prompt) False skip\<rparr>) =
           Some (\<lparr>ou_text = concat (map ou_text outs), ou_token_ids = concat (map ou_token_ids outs)\<rparr>, s'')"
proof -
  obtain outs' s2 k n' m where r: "stream_tokens tok gen (create_sequence prompt capacity st inc (create_decoder prompt_text (length prompt) False skip)) =
        Some (outs', s2)" "k \<le> length gen" "os_prompt_tokens s2 = length prompt" "os_tokens s2 = prompt @ take k gen"
      "concat (map ou_token_ids outs') = take k gen" "get_decodable_token_count (length prompt + k) s2 = Some n'"
      "\<not> ends_unfinished (tok skip (drop (length prompt) (take n' (os_tokens s2)))) \<longrightarrow>
         concat (map ou_text outs') = tok skip (drop (length prompt) (take n' (os_tokens s2)))"
    using stream_text [where tok = tok and skip = skip and inc = inc and prompt_text = prompt_text, OF assms(1-5)] by blast
  have same: "outs' = outs" "s2 = s'" using r(1) assms(6) by simp_all
  have "length (os_tokens s') = length prompt + k" using r(2,4) same by simp
  then have "n' = n" using r(6) assms(7) same by simp
  then have k: "os_tokens s' = prompt @ take k gen" "concat (map ou_token_ids outs) = take k gen"
      "concat (map ou_text outs) = tok skip (drop (length prompt) (take n (os_tokens s')))" "os_prompt_tokens s' = length prompt"
    using r(3,4,5,7) same assms(8) by simp_all
  let ?s = "s'\<lparr>os_decoder := create_decoder prompt_text (length prompt) False skip\<rparr>"
  have dec: "get_decodable_token_count (length (os_tokens ?s)) ?s = Some n"
    using assms(7) get_decodable_cong [of ?s s'] by simp
  have "\<forall>t \<in> set (take k gen). 0 \<le> t" using assms(3) by (meson in_set_takeD)
  then show ?thesis
    using generate_output_text [where tok = tok and skip = skip and s = ?s and prompt_text = prompt_text and n = n, OF assms(1)] dec k assms(8) by simp
qed

text \<open>A tokenizer with one letter for each token, for the example.\<close>

definition plain_text :: "int list \<Rightarrow> string" where
  "plain_text ts = map (\<lambda>_. CHR ''a'') ts"

lemma plain_text_whole: "\<not> ends_unfinished (plain_text ts)"
proof
  assume "ends_unfinished (plain_text ts)"
  then have "set replacement \<subseteq> {CHR ''a''}"
    by (auto simp: ends_unfinished_suffix plain_text_def dest!: set_mono_suffix)
  then show False by (simp add: replacement_def char_of_def)
qed

lemma plain_text_law: "tokenizer_law plain_text"
  using plain_text_whole by (auto simp: tokenizer_law_def) (simp_all add: plain_text_def)

theorem final_output_is_streamed_witness:
  "\<exists>outs s' s''. stream_tokens (\<lambda>_. plain_text) [3, 4, 5]
       (create_sequence [7, 7] 10 example_checker False (create_decoder [] (length [7 :: int, 7]) False True)) = Some (outs, s') \<and>
     generate_output (\<lambda>_. plain_text) (s'\<lparr>os_decoder := create_decoder [] (length [7 :: int, 7]) False True\<rparr>) =
       Some (\<lparr>ou_text = concat (map ou_text outs), ou_token_ids = concat (map ou_token_ids outs)\<rparr>, s'')"
proof -
  have pre: "\<forall>q \<in> set (st_stop_sequences example_checker). q \<noteq> []" "\<forall>t \<in> set [3, 4, 5 :: int]. 0 \<le> t"
      "length [7 :: int, 7] + length [3, 4, 5 :: int] \<le> 10" "(10 :: nat) < 2 ^ 64"
    by (simp_all add: example_checker_def)
  obtain outs s' k n where r: "stream_tokens (\<lambda>_. plain_text) [3, 4, 5]
       (create_sequence [7, 7] 10 example_checker False (create_decoder [] (length [7 :: int, 7]) False True)) = Some (outs, s')"
      "os_tokens s' = [7, 7] @ take k [3, 4, 5]" "k \<le> length [3, 4, 5 :: int]"
      "get_decodable_token_count (length [7 :: int, 7] + k) s' = Some n"
    using stream_text [where tok = "\<lambda>_. plain_text" and skip = True and inc = False and prompt_text = "[]", OF plain_text_law pre] by blast
  have "get_decodable_token_count (length (os_tokens s')) s' = Some n" using r(2-4) by (simp add: min_def)
  then show ?thesis
    using final_output_is_streamed [where tok = "\<lambda>_. plain_text" and skip = True, OF plain_text_law pre r(1) _ plain_text_whole] r(1) by blast
qed

end
