(* ===== verification/Reasoning_Parser.thy ===== *)
theory Reasoning_Parser imports Xllm_Prelude "HOL-Library.Sublist" begin

text \<open>
  The detector of reasoning sections (src/xllm/parser): it splits the text that a model generates into what stands
  between its thinking markers and the rest, in one go (\<open>detect_and_parse\<close>) or chunk by chunk while the text is
  streamed (\<open>parse_streaming_increment\<close>), and the registry of the markers of each format.  The string functions
  of Abseil are a parameter, \<open>absl_law\<close> is what their documentation says of them.
\<close>

section \<open>The string functions of Abseil\<close>

record absl_strings =
  str_contains :: "string \<Rightarrow> string \<Rightarrow> bool"
  starts_with :: "string \<Rightarrow> string \<Rightarrow> bool"
  erase_all :: "string \<Rightarrow> string \<Rightarrow> string"
  split_once :: "string \<Rightarrow> string \<Rightarrow> string list"
  strip_whitespace :: "string \<Rightarrow> string"

definition ascii_space :: "char \<Rightarrow> bool" where
  "ascii_space c \<longleftrightarrow> c \<in> {CHR 0x20, CHR 0x09, CHR 0x0A, CHR 0x0B, CHR 0x0C, CHR 0x0D}"

definition trim_left :: "string \<Rightarrow> string" where
  "trim_left s = dropWhile ascii_space s"

definition trim_right :: "string \<Rightarrow> string" where
  "trim_right s = rev (dropWhile ascii_space (rev s))"

text \<open>\<open>u @ m\<close> is the text up to the end of the first occurrence of \<open>m\<close>.\<close>

definition first_at :: "string \<Rightarrow> string \<Rightarrow> bool" where
  "first_at m u \<longleftrightarrow> \<not> sublist m (u @ butlast m)"

definition absl_law :: "absl_strings \<Rightarrow> bool" where
  "absl_law a \<longleftrightarrow>
     (\<forall>s m. str_contains a s m = sublist m s)
   \<and> (\<forall>s p. starts_with a s p = prefix p s)
   \<and> (\<forall>m s. m \<noteq> [] \<longrightarrow> \<not> sublist m s \<longrightarrow> erase_all a m s = s)
   \<and> (\<forall>m u v. m \<noteq> [] \<longrightarrow> first_at m u \<longrightarrow> erase_all a m (u @ m @ v) = u @ erase_all a m v)
   \<and> (\<forall>m s. m \<noteq> [] \<longrightarrow> \<not> sublist m s \<longrightarrow> split_once a m s = [s])
   \<and> (\<forall>m u v. m \<noteq> [] \<longrightarrow> first_at m u \<longrightarrow> split_once a m (u @ m @ v) = [u, v])
   \<and> (\<forall>s. strip_whitespace a s = trim_right (trim_left s))"

section \<open>The detector\<close>

record reasoning_result =
  normal_text :: "string option"
  reasoning_text :: "string option"

record reasoning_detector =
  think_start_token :: string
  think_end_token :: string
  in_reasoning :: bool
  stream_reasoning :: bool
  rd_buffer :: string
  stripped_think_start :: bool

definition new_detector :: "string \<Rightarrow> string \<Rightarrow> bool \<Rightarrow> bool \<Rightarrow> reasoning_detector" where
  "new_detector start end' force stream =
    \<lparr>think_start_token = start, think_end_token = end', in_reasoning = force, stream_reasoning = stream,
     rd_buffer = [], stripped_think_start = False\<rparr>"

definition split_reasoning :: "absl_strings \<Rightarrow> string \<Rightarrow> string \<Rightarrow> reasoning_result" where
  "split_reasoning a end' s =
    (let parts = split_once a end' s in
     \<lparr>normal_text = Some (if 1 < length parts then strip_whitespace a (parts ! 1) else []),
      reasoning_text = Some (parts ! 0)\<rparr>)"

definition detect_and_parse :: "absl_strings \<Rightarrow> reasoning_detector \<Rightarrow> string \<Rightarrow> reasoning_result" where
  "detect_and_parse a d s =
    (if \<not> (in_reasoning d \<or> str_contains a s (think_start_token d))
     then \<lparr>normal_text = Some s, reasoning_text = None\<rparr>
     else let processed = strip_whitespace a (erase_all a (think_start_token d) s) in
       if \<not> str_contains a processed (think_end_token d)
       then \<lparr>normal_text = None, reasoning_text = Some processed\<rparr>
       else split_reasoning a (think_end_token d) processed)"

definition no_result :: reasoning_result where
  "no_result = \<lparr>normal_text = None, reasoning_text = None\<rparr>"

definition parse_streaming_increment ::
  "absl_strings \<Rightarrow> reasoning_detector \<Rightarrow> string \<Rightarrow> reasoning_result \<times> reasoning_detector" where
  "parse_streaming_increment a d0 new_text =
    (let d = d0\<lparr>rd_buffer := rd_buffer d0 @ new_text\<rparr>; current = rd_buffer d;
         is_start_prefix = (starts_with a (think_start_token d) current \<and> think_start_token d \<noteq> current);
         is_end_prefix = (starts_with a (think_end_token d) current \<and> think_end_token d \<noteq> current) in
     if is_start_prefix \<or> is_end_prefix then (no_result, d)
     else
       let strip = \<not> stripped_think_start d \<and> str_contains a current (think_start_token d);
           current = (if strip then erase_all a (think_start_token d) current else current);
           d = (if strip then d\<lparr>stripped_think_start := True, in_reasoning := True\<rparr> else d) in
       if in_reasoning d \<and> str_contains a current (think_end_token d)
       then (split_reasoning a (think_end_token d) current, d\<lparr>rd_buffer := [], in_reasoning := False\<rparr>)
       else if in_reasoning d
       then (if stream_reasoning d
             then (\<lparr>normal_text = None, reasoning_text = Some current\<rparr>, d\<lparr>rd_buffer := []\<rparr>)
             else (no_result, d))
       else (\<lparr>normal_text = Some current, reasoning_text = None\<rparr>, d\<lparr>rd_buffer := []\<rparr>))"

text \<open>What a client that concatenates the pieces has received after a list of chunks: the reasoning and the
  normal text.\<close>

fun parse_stream :: "absl_strings \<Rightarrow> reasoning_detector \<Rightarrow> string list \<Rightarrow> string \<times> string \<times> reasoning_detector" where
  "parse_stream a d [] = ([], [], d)"
| "parse_stream a d (c # cs) =
    (let (res, d') = parse_streaming_increment a d c; (r, n, d'') = parse_stream a d' cs in
     (case_option [] id (reasoning_text res) @ r, case_option [] id (normal_text res) @ n, d''))"

section \<open>The registry\<close>

definition think_open :: string where "think_open = ''<think>''"
definition think_close :: string where "think_close = ''</think>''"

definition kimi_open :: string where
  "kimi_open = [CHR 0xE2, CHR 0x97, CHR 0x81] @ ''think'' @ [CHR 0xE2, CHR 0x96, CHR 0xB7]"

definition kimi_close :: string where
  "kimi_close = [CHR 0xE2, CHR 0x97, CHR 0x81] @ ''/think'' @ [CHR 0xE2, CHR 0x96, CHR 0xB7]"

text \<open>A registration: the markers, the value of \<open>force\<close> that it insists on, and whether the prompt opens the
  reasoning.\<close>

record detector_registration =
  reg_start :: string
  reg_end :: string
  reg_force :: "bool option"
  prompt_opens :: bool

definition plain_reg :: detector_registration where
  "plain_reg = \<lparr>reg_start = think_open, reg_end = think_close, reg_force = None, prompt_opens = False\<rparr>"

definition parser_factories :: "(string \<times> detector_registration) list" where
  "parser_factories =
    [(''deepseek-r1'', plain_reg\<lparr>reg_force := Some True\<rparr>),
     (''deepseek-v3'', plain_reg), (''glm45'', plain_reg), (''glm47'', plain_reg), (''glm5'', plain_reg),
     (''deepseek-v4'', plain_reg),
     (''kimi'', \<lparr>reg_start = kimi_open, reg_end = kimi_close, reg_force = Some False, prompt_opens = False\<rparr>),
     (''kimi_k25'', plain_reg),
     (''kimi_k3'', \<lparr>reg_start = ''<|open|>think<|sep|>'', reg_end = ''<|close|>think<|sep|>'',
                    reg_force = None, prompt_opens = True\<rparr>),
     (''qwen3'', plain_reg), (''qwen35'', plain_reg),
     (''qwen3-thinking'', plain_reg\<lparr>reg_force := Some True\<rparr>),
     (''qwen35-thinking'', plain_reg\<lparr>reg_force := Some True\<rparr>),
     (''step3'', plain_reg)]"

definition get_detector :: "string \<Rightarrow> bool \<Rightarrow> bool \<Rightarrow> reasoning_detector option" where
  "get_detector model_type stream force =
    map_option (\<lambda>r. new_detector (reg_start r) (reg_end r) (case_option force id (reg_force r)) stream)
      (map_of parser_factories model_type)"

definition prompt_opens_think :: "string \<Rightarrow> bool" where
  "prompt_opens_think name = case_option False prompt_opens (map_of parser_factories name)"

definition has_detector :: "string \<Rightarrow> bool" where
  "has_detector name \<longleftrightarrow> map_of parser_factories name \<noteq> None"

definition auto_parser_map :: "(string \<times> string) list" where
  "auto_parser_map =
    [(''glm4_moe'', ''glm45''), (''deepseek_v32'', ''deepseekv32''), (''kimi_k2'', ''kimi''),
     (''kimi_k25'', ''kimi_k25''), (''kimi_k3'', ''kimi_k3''), (''step3'', ''step3'')]"

definition get_parser_name_by_model_type :: "string \<Rightarrow> string option" where
  "get_parser_name_by_model_type model_type = map_of auto_parser_map model_type"

definition get_parser_auto :: "string \<Rightarrow> string \<Rightarrow> string option" where
  "get_parser_auto parser model_type =
    (if parser = [] then Some []
     else if parser = ''auto'' then get_parser_name_by_model_type model_type
     else if has_detector parser then Some parser else None)"

section \<open>An instance of the string functions\<close>

text \<open>The text in front of the first occurrence of a marker and the text behind it.\<close>

fun cut :: "string \<Rightarrow> string \<Rightarrow> (string \<times> string) option" where
  "cut m [] = (if m = [] then Some ([], []) else None)"
| "cut m (c # s) =
    (if prefix m (c # s) then Some ([], drop (length m) (c # s)) else map_option (apfst (Cons c)) (cut m s))"

lemma cut_None: "m \<noteq> [] \<Longrightarrow> \<not> sublist m s \<Longrightarrow> cut m s = None"
  by (induction s) (auto simp: sublist_Cons_right)

lemma cut_length: "cut m s = Some (u, v) \<Longrightarrow> m \<noteq> [] \<Longrightarrow> length v < length s"
  by (induction s arbitrary: u) (auto split: if_splits, force?)

lemma first_at_Nil [simp]: "m \<noteq> [] \<Longrightarrow> first_at m []"
proof -
  assume "m \<noteq> []"
  then have "\<not> length m \<le> length (butlast m)" by (cases m) simp_all
  then show ?thesis unfolding first_at_def using sublist_length_le [of m "butlast m"] by (auto simp del: length_butlast)
qed

lemma first_at_suffix: "first_at m (u @ v) \<Longrightarrow> first_at m v"
  unfolding first_at_def by (metis append.assoc sublist_append)

lemma first_at_prefix:
  assumes "first_at m (c # u)" "m \<noteq> []"
  shows "\<not> prefix m (c # u @ m @ v)"
proof
  assume p: "prefix m (c # u @ m @ v)"
  let ?w = "c # u @ butlast m"
  have "prefix ?w (c # u @ m @ v)"
    using append_butlast_last_id [OF assms(2)] by (metis Cons_prefix_Cons append.assoc prefixI same_prefix_prefix)
  moreover have "length m \<le> length ?w" by simp
  ultimately have "prefix m ?w" using p prefix_length_prefix by blast
  then have "sublist m ((c # u) @ butlast m)" by (simp add: prefix_imp_sublist)
  then show False using assms(1) by (simp add: first_at_def)
qed

lemma cut_first: "m \<noteq> [] \<Longrightarrow> first_at m u \<Longrightarrow> cut m (u @ m @ v) = Some (u, v)"
proof (induction u)
  case Nil
  then obtain c m' where "m = c # m'" by (cases m) auto
  then show ?case by simp
next
  case (Cons c u)
  have "first_at m u" using first_at_suffix [of m "[c]" u] Cons.prems(2) by simp
  then show ?case using Cons.IH [OF Cons.prems(1)] first_at_prefix [OF Cons.prems(2,1), of v] by simp
qed

function erase :: "string \<Rightarrow> string \<Rightarrow> string" where
  "erase m s = (if m = [] then s else case cut m s of None \<Rightarrow> s | Some (u, v) \<Rightarrow> u @ erase m v)"
  by auto
termination by (relation "measure (\<lambda>(m, s). length s)") (auto dest: cut_length)

declare erase.simps [simp del]

definition reference_strings :: absl_strings where
  "reference_strings =
    \<lparr>str_contains = (\<lambda>s m. sublist m s), starts_with = (\<lambda>s p. prefix p s), erase_all = erase,
     split_once = (\<lambda>m s. case cut m s of None \<Rightarrow> [s] | Some (u, v) \<Rightarrow> [u, v]),
     strip_whitespace = (\<lambda>s. trim_right (trim_left s))\<rparr>"

lemma reference_law: "absl_law reference_strings"
proof -
  have "erase m s = s" if "m \<noteq> []" "\<not> sublist m s" for m s
    using that by (subst erase.simps) (simp add: cut_None)
  moreover have "erase m (u @ m @ v) = u @ erase m v" if "m \<noteq> []" "first_at m u" for m u v
    using that by (subst erase.simps) (simp add: cut_first)
  ultimately show ?thesis by (simp add: absl_law_def reference_strings_def cut_None cut_first)
qed


section \<open>Trimming\<close>

lemma trim_left_append: "e \<noteq> [] \<Longrightarrow> \<not> ascii_space (hd e) \<Longrightarrow> trim_left (r @ e @ n) = trim_left r @ e @ n"
  by (induction r) (auto simp: trim_left_def neq_Nil_conv)

lemma trim_right_append: "e \<noteq> [] \<Longrightarrow> \<not> ascii_space (last e) \<Longrightarrow> trim_right (r @ e @ n) = r @ e @ trim_right n"
  using trim_left_append [of "rev e" "rev n" "rev r"] by (simp add: trim_left_def trim_right_def hd_rev)

lemma trim_commute: "trim_left (trim_right s) = trim_right (trim_left s)"
proof (cases "\<exists>c \<in> set s. \<not> ascii_space c")
  case True
  then obtain c where "c \<in> set s" "\<not> ascii_space c" by blast
  then obtain p q where "s = p @ [c] @ q" using split_list by fastforce
  then show ?thesis using \<open>\<not> ascii_space c\<close>
    by (simp only: trim_right_append trim_left_append list.sel last.simps not_Cons_self2 if_True simp_thms)
next
  case False
  then have "trim_left s = []" "trim_right s = []" by (auto simp: trim_left_def trim_right_def)
  then show ?thesis by (simp only:) (simp add: trim_left_def trim_right_def)
qed

lemma trim_right_idem [simp]: "trim_right (trim_right s) = trim_right s"
  by (simp add: trim_right_def)

lemma trim_left_suffix: "\<exists>p. s = p @ trim_left s"
  unfolding trim_left_def by (metis takeWhile_dropWhile_id)

section \<open>One chunk\<close>

definition good_markers :: "string \<Rightarrow> string \<Rightarrow> bool" where
  "good_markers s e \<longleftrightarrow> s \<noteq> [] \<and> e \<noteq> [] \<and> \<not> prefix s e \<and> \<not> prefix e s \<and> \<not> sublist s e
     \<and> \<not> ascii_space (hd e) \<and> \<not> ascii_space (last e)"

text \<open>The markers of every registered format are good.\<close>

lemma registered_markers:
  "get_detector name stream force = Some d \<Longrightarrow>
     good_markers (think_start_token d) (think_end_token d) \<and> rd_buffer d = [] \<and> \<not> stripped_think_start d
     \<and> stream_reasoning d = stream"
proof -
  assume "get_detector name stream force = Some d"
  then obtain r where r: "(name, r) \<in> set parser_factories" "d = new_detector (reg_start r) (reg_end r) (case_option force id (reg_force r)) stream"
    by (auto simp: get_detector_def dest: map_of_SomeD)
  have "list_all (\<lambda>(_, r). good_markers (reg_start r) (reg_end r)) parser_factories" by code_simp
  then have "good_markers (reg_start r) (reg_end r)" using r(1) by (auto simp: list_all_iff)
  then show ?thesis by (simp add: r(2) new_detector_def)
qed

definition plain_chunk :: "reasoning_detector \<Rightarrow> string \<Rightarrow> bool" where
  "plain_chunk d c \<longleftrightarrow> \<not> strict_prefix c (think_start_token d) \<and> \<not> strict_prefix c (think_end_token d)
     \<and> \<not> sublist (think_start_token d) c \<and> \<not> sublist (think_end_token d) c"

lemma law_simps:
  assumes "absl_law a"
  shows "str_contains a s m = sublist m s" "starts_with a s m = prefix m s"
    "strip_whitespace a s = trim_right (trim_left s)"
    "m \<noteq> [] \<Longrightarrow> \<not> sublist m s \<Longrightarrow> erase_all a m s = s"
    "m \<noteq> [] \<Longrightarrow> first_at m u \<Longrightarrow> erase_all a m (u @ m @ s) = u @ erase_all a m s"
    "m \<noteq> [] \<Longrightarrow> first_at m u \<Longrightarrow> split_once a m (u @ m @ s) = [u, s]"
  using assms by (simp_all add: absl_law_def)

lemma erase_marker: "absl_law a \<Longrightarrow> m \<noteq> [] \<Longrightarrow> \<not> sublist m s \<Longrightarrow> erase_all a m (m @ s) = s"
  using law_simps(5) [of a m "[]" s] law_simps(4) [of a m s] by simp

lemma split_marker: "absl_law a \<Longrightarrow> m \<noteq> [] \<Longrightarrow> first_at m u \<Longrightarrow>
    split_reasoning a m (u @ m @ s) = \<lparr>normal_text = Some (trim_right (trim_left s)), reasoning_text = Some u\<rparr>"
  by (simp add: split_reasoning_def law_simps(6) law_simps(3))

lemma chunk_plain:
  assumes "absl_law a" "rd_buffer d = []" "stream_reasoning d" "plain_chunk d c"
  shows "parse_streaming_increment a d c =
    (if in_reasoning d then \<lparr>normal_text = None, reasoning_text = Some c\<rparr>
     else \<lparr>normal_text = Some c, reasoning_text = None\<rparr>, d)"
proof -
  have "d\<lparr>rd_buffer := []\<rparr> = d" using assms(2) by simp
  then show ?thesis using assms
    by (auto simp: parse_streaming_increment_def law_simps [OF assms(1)] plain_chunk_def strict_prefix_def Let_def)
qed

lemma chunk_start:
  assumes "absl_law a" "rd_buffer d = []" "stream_reasoning d" "\<not> stripped_think_start d"
    and "good_markers (think_start_token d) (think_end_token d)"
  shows "parse_streaming_increment a d (think_start_token d) =
    (\<lparr>normal_text = None, reasoning_text = Some []\<rparr>, d\<lparr>stripped_think_start := True, in_reasoning := True\<rparr>)"
proof -
  let ?d = "d\<lparr>stripped_think_start := True, in_reasoning := True\<rparr>"
  have "?d\<lparr>rd_buffer := []\<rparr> = ?d" using assms(2) by simp
  moreover have "erase_all a (think_start_token d) (think_start_token d) = []"
    using erase_marker [OF assms(1), of "think_start_token d" "[]"] assms(5) by (simp add: good_markers_def)
  ultimately show ?thesis using assms
    by (auto simp: parse_streaming_increment_def law_simps [OF assms(1)] good_markers_def Let_def)
qed

lemma chunk_end:
  assumes "absl_law a" "rd_buffer d = []" "in_reasoning d" "good_markers (think_start_token d) (think_end_token d)"
  shows "parse_streaming_increment a d (think_end_token d) =
    (\<lparr>normal_text = Some [], reasoning_text = Some []\<rparr>, d\<lparr>in_reasoning := False\<rparr>)"
proof -
  have "d\<lparr>rd_buffer := [], in_reasoning := False\<rparr> = d\<lparr>in_reasoning := False\<rparr>" using assms(2) by simp
  moreover have "split_reasoning a (think_end_token d) (think_end_token d) = \<lparr>normal_text = Some [], reasoning_text = Some []\<rparr>"
    using split_marker [OF assms(1), of "think_end_token d" "[]" "[]"] assms(4)
    by (simp add: good_markers_def trim_left_def trim_right_def)
  ultimately show ?thesis using assms
    by (auto simp: parse_streaming_increment_def law_simps [OF assms(1)] good_markers_def Let_def)
qed

lemma stream_append:
  "parse_stream a d (cs @ ds) =
     (let (r, n, d') = parse_stream a d cs; (r', n', d'') = parse_stream a d' ds in (r @ r', n @ n', d''))"
  by (induction cs arbitrary: d) (simp_all add: Let_def split: prod.split)

lemma stream_plain:
  assumes "absl_law a" "rd_buffer d = []" "stream_reasoning d" "\<forall>c \<in> set cs. plain_chunk d c"
  shows "parse_stream a d cs = (if in_reasoning d then concat cs else [], if in_reasoning d then [] else concat cs, d)"
  using assms(4) by (induction cs) (simp_all add: chunk_plain [OF assms(1-3)])


section \<open>Properties\<close>


definition demo_detector :: reasoning_detector where
  "demo_detector = new_detector think_open think_close False True"

lemma demo_detector: "get_detector ''qwen3'' True False = Some demo_detector"
  by (simp add: get_detector_def parser_factories_def plain_reg_def demo_detector_def)


text \<open>Streaming loses no text: while no marker occurs, everything received is sent on as one kind of text, in order, but
  for a rest that is held back; the rest is empty or a proper beginning of a marker.\<close>

lemma stream_conserved:
  assumes "absl_law a" "stream_reasoning d" "think_start_token d \<noteq> []" "think_end_token d \<noteq> []"
    and "\<not> sublist (think_start_token d) (rd_buffer d @ concat cs)" "\<not> sublist (think_end_token d) (rd_buffer d @ concat cs)"
  shows "(case parse_stream a d cs of (r, n, d') \<Rightarrow>
      (if in_reasoning d then n = [] \<and> r @ rd_buffer d' = rd_buffer d @ concat cs
       else r = [] \<and> n @ rd_buffer d' = rd_buffer d @ concat cs)
    \<and> (cs \<noteq> [] \<longrightarrow> rd_buffer d' = [] \<or> strict_prefix (rd_buffer d') (think_start_token d)
        \<or> strict_prefix (rd_buffer d') (think_end_token d)))"
  using assms(2-6)
proof (induction cs arbitrary: d)
  case (Cons c cs)
  let ?t = "rd_buffer d @ c" and ?held = "d\<lparr>rd_buffer := rd_buffer d @ c\<rparr>" and ?sent = "d\<lparr>rd_buffer := []\<rparr>"
  have free: "\<not> sublist (think_start_token d) ?t" "\<not> sublist (think_end_token d) ?t"
    using Cons.prems(4,5) sublist_append by (metis append.assoc concat.simps(2))+
  show ?case
  proof (cases "strict_prefix ?t (think_start_token d) \<or> strict_prefix ?t (think_end_token d)")
    case True
    then have "parse_streaming_increment a d c = (no_result, ?held)"
      by (auto simp: parse_streaming_increment_def law_simps [OF assms(1)] strict_prefix_def Let_def)
    moreover have "rd_buffer ?held @ concat cs = rd_buffer d @ concat (c # cs)" by simp
    ultimately show ?thesis using Cons.IH [of ?held] Cons.prems True
      by (cases cs) (auto simp: no_result_def Let_def split: prod.splits)
  next
    case False
    then have step: "parse_streaming_increment a d c =
        (if in_reasoning d then \<lparr>normal_text = None, reasoning_text = Some ?t\<rparr>
         else \<lparr>normal_text = Some ?t, reasoning_text = None\<rparr>, ?sent)"
      using free Cons.prems(1)
      by (auto simp: parse_streaming_increment_def law_simps [OF assms(1)] strict_prefix_def Let_def)
    have "\<not> sublist (think_start_token d) (rd_buffer ?sent @ concat cs)" "\<not> sublist (think_end_token d) (rd_buffer ?sent @ concat cs)"
      using Cons.prems(4,5) sublist_append by (simp_all, metis append.assoc)+
    then show ?thesis using Cons.IH [of ?sent] Cons.prems step
      by (cases cs) (auto simp: Let_def split: prod.splits)
  qed
qed simp

theorem streaming_conserves_text:
  assumes "absl_law a" "get_detector name True force = Some d"
    and "\<not> sublist (think_start_token d) (concat cs)" "\<not> sublist (think_end_token d) (concat cs)"
  shows "(case parse_stream a d cs of (r, n, d') \<Rightarrow> r @ n @ rd_buffer d' = concat cs)"
  using stream_conserved [OF assms(1), of d cs] registered_markers [OF assms(2)] assms(3,4)
  by (auto simp: good_markers_def split: prod.splits if_splits)

text \<open>A marker that arrives in two chunks behind other text is not seen: the reasoning of this stream never ends.\<close>

lemma split_marker_missed:
  "fst (snd (parse_stream reference_strings demo_detector [''<think>'', ''why</'', ''think>'', ''so''])) = []"
  by code_simp

text \<open>Without streaming of the reasoning, the start marker stays in the buffer and is part of the reasoning when it came in an
  earlier chunk than the end marker.\<close>

lemma start_marker_kept:
  "fst (parse_stream reference_strings (new_detector think_open think_close False False) [''<think>why'', ''</think>so'']) = ''<think>why''"
  by code_simp

text \<open>The names of the option auto.  For every model type the option auto either ends the process or yields a name; each
  such name has a detector, except for deepseek_v32, whose name no detector is registered under, so that building its parser
  ends the process.\<close>

theorem auto_parser_registered:
  assumes "get_parser_auto ''auto'' model_type = Some name"
  shows "get_detector name stream force = None \<longleftrightarrow> model_type = ''deepseek_v32''"
proof -
  have "map_of auto_parser_map model_type = Some name"
    using assms by (simp add: get_parser_auto_def get_parser_name_by_model_type_def)
  then have "(model_type, name) \<in> set auto_parser_map" by (rule map_of_SomeD)
  moreover have "list_all (\<lambda>(t, n). (map_of parser_factories n = None) = (t = ''deepseek_v32'')) auto_parser_map"
    by code_simp
  ultimately show ?thesis by (auto simp: list_all_iff get_detector_def)
qed

lemma auto_parser_registered_witness: "get_detector ''deepseekv32'' True False = None"
proof -
  have "get_parser_auto ''auto'' ''deepseek_v32'' = Some ''deepseekv32''" by code_simp
  from auto_parser_registered [OF this] show ?thesis by simp
qed

end
