(* ===== verification/Sequence_Cache.thy ===== *)
theory Sequence_Cache imports Block_Pool "HOL-Library.Multiset" begin

text \<open>
  The cache of one sequence (\<open>core/framework/request/sequence_kv_state.{h,cpp}\<close>): the blocks it holds for each
  type of cache, how many of them are shared with the prefix cache, how far the prefix cache has them, and the
  number of tokens whose keys and values are computed.

  A block that an operation drops (a destructor or an assignment over it) is part of the operation's result, so
  that the caller can give it back to its manager.  A failed \<open>CHECK\<close>, an access out of range and a division by
  zero are \<open>None\<close>.  The description of a remote cache (\<open>transfer_kv_info_\<close>) is stored and never read here.
\<close>

section \<open>The order of block types\<close>

text \<open>The keys of a \<open>std::map\<close> over block types come in the order of the enum.\<close>

instantiation block_type :: linorder
begin
definition less_eq_block_type :: "block_type \<Rightarrow> block_type \<Rightarrow> bool" where
  "less_eq_block_type s t \<longleftrightarrow> cache_group_id s \<le> cache_group_id t"
definition less_block_type :: "block_type \<Rightarrow> block_type \<Rightarrow> bool" where
  "less_block_type s t \<longleftrightarrow> cache_group_id s < cache_group_id t"
instance
proof
  fix s t u :: block_type
  have inj: "cache_group_id s = cache_group_id t \<Longrightarrow> s = t" by (cases s; cases t) simp_all
  show "(s < t) = (s \<le> t \<and> \<not> t \<le> s)" by (auto simp: less_eq_block_type_def less_block_type_def)
  show "s \<le> s" by (simp add: less_eq_block_type_def)
  show "s \<le> t \<Longrightarrow> t \<le> u \<Longrightarrow> s \<le> u" by (simp add: less_eq_block_type_def)
  show "s = t" if "s \<le> t" "t \<le> s" using that by (intro inj) (simp add: less_eq_block_type_def)
  show "s \<le> t \<or> t \<le> s" by (auto simp: less_eq_block_type_def)
qed
end

definition map_order :: "block_type list" where
  "map_order = [BT_KV, BT_SWA, BT_C4, BT_C128, BT_EMBEDDING, BT_LINEAR, BT_C1, BT_C2]"

lemma map_order_sorted: "sorted_wrt (<) map_order"
  by (simp add: map_order_def less_block_type_def)

lemma map_order_all [simp]: "t \<in> set map_order" "distinct map_order"
  by (cases t) (simp_all add: map_order_def)

section \<open>The state\<close>

record cache_block =
  cb_block :: block
  cb_size :: nat

definition cb_valid :: "cache_block \<Rightarrow> bool" where
  "cb_valid b \<longleftrightarrow> is_valid (cb_block b)"

record kv_state =
  kv_tokens :: nat
  prefix_matched :: bool
  composite_blocks :: "block_type \<Rightarrow> cache_block list option"
  block_sizes :: "block_type \<Rightarrow> nat option"
  src_blocks :: "cache_block list"
  need_swap :: bool
  next_transfer_block :: nat
  group_transfer_block :: "block_type \<Rightarrow> nat option"
  owned_shared :: "block_type \<Rightarrow> nat option"
  cached_cursor :: "block_type \<Rightarrow> nat option"
  slice_window_pos :: u32
  slice_window_size :: u32
  slice_window_buffer :: u32
  pushed_blocks :: nat

definition new_kv_state :: kv_state where
  "new_kv_state = \<lparr>kv_tokens = 0, prefix_matched = False, composite_blocks = (\<lambda>_. None), block_sizes = (\<lambda>_. None),
     src_blocks = [], need_swap = False, next_transfer_block = 0, group_transfer_block = (\<lambda>_. None),
     owned_shared = (\<lambda>_. None), cached_cursor = (\<lambda>_. None), slice_window_pos = 0, slice_window_size = 0,
     slice_window_buffer = 0, pushed_blocks = 0\<rparr>"

section \<open>Reading\<close>

definition kv_blocks :: "kv_state \<Rightarrow> block_type \<Rightarrow> cache_block list" where
  "kv_blocks s t = (case composite_blocks s t of None \<Rightarrow> [] | Some bs \<Rightarrow> bs)"

definition kv_num_blocks :: "kv_state \<Rightarrow> block_type \<Rightarrow> nat" where
  "kv_num_blocks s t = (case composite_blocks s t of None \<Rightarrow> 0 | Some bs \<Rightarrow> length bs)"

definition has_any_blocks :: "kv_state \<Rightarrow> bool" where
  "has_any_blocks s = list_ex (\<lambda>t. case composite_blocks s t of None \<Rightarrow> False | Some bs \<Rightarrow> bs \<noteq> [])
     [BT_KV, BT_SWA, BT_C1, BT_C2, BT_C4, BT_C128]"

definition shared_blocks_num :: "kv_state \<Rightarrow> block_type \<Rightarrow> nat" where
  "shared_blocks_num s t = (case owned_shared s t of None \<Rightarrow> 0 | Some n \<Rightarrow> n)"

definition num_cached_blocks :: "kv_state \<Rightarrow> block_type \<Rightarrow> nat" where
  "num_cached_blocks s t = (case cached_cursor s t of None \<Rightarrow> 0 | Some n \<Rightarrow> n)"

text \<open>The walk over the map of shared counts in the order of its keys.\<close>

fun shared_tokens_walk :: "kv_state \<Rightarrow> block_type list \<Rightarrow> nat" where
  "shared_tokens_walk s [] = 0"
| "shared_tokens_walk s (t # ts) =
    (if shared_blocks_num s t = 0 then shared_tokens_walk s ts
     else case find cb_valid (kv_blocks s t) of
         None \<Rightarrow> shared_tokens_walk s ts
       | Some b \<Rightarrow> shared_blocks_num s t * cb_size b)"

definition shared_tokens_num :: "kv_state \<Rightarrow> nat" where
  "shared_tokens_num s = shared_tokens_walk s map_order"

fun group_capacity :: "kv_state \<Rightarrow> block_type list \<Rightarrow> nat \<Rightarrow> nat option" where
  "group_capacity s [] capacity = Some capacity"
| "group_capacity s (t # ts) capacity =
    (if kv_blocks s t = [] then group_capacity s ts capacity
     else case block_sizes s t of None \<Rightarrow> None
       | Some size' \<Rightarrow>
           (let g = length (kv_blocks s t) * size' in
            group_capacity s ts (if capacity = 0 then g else min capacity g)))"

definition current_max_tokens_capacity :: "kv_state \<Rightarrow> nat option" where
  "current_max_tokens_capacity s =
    (if kv_blocks s BT_KV \<noteq> []
     then map_option (\<lambda>size'. length (kv_blocks s BT_KV) * size') (block_sizes s BT_KV)
     else group_capacity s [BT_C1, BT_C2, BT_C4, BT_C128] 0)"

definition multi_block_export_view :: "kv_state \<Rightarrow> (block_type \<times> cache_block list) list" where
  "multi_block_export_view s =
    map (\<lambda>t. (t, kv_blocks s t)) (filter (\<lambda>t. kv_blocks s t \<noteq> []) multi_block_export_order)"

definition has_multi_block_export :: "kv_state \<Rightarrow> bool" where
  "has_multi_block_export s = list_ex (\<lambda>t. kv_blocks s t \<noteq> []) multi_block_export_order"

definition get_embedding_block_id :: "kv_state \<Rightarrow> int" where
  "get_embedding_block_id s =
    (case kv_blocks s BT_EMBEDDING of [] \<Rightarrow> - 1
     | b # _ \<Rightarrow> if cb_valid b then block_id (cb_block b) else - 1)"

definition get_linear_block_id :: "kv_state \<Rightarrow> int" where
  "get_linear_block_id s =
    (let bs = kv_blocks s BT_LINEAR in
     if bs = [] \<or> \<not> cb_valid (last bs) then - 1 else block_id (cb_block (last bs)))"

text \<open>The slot of one position: the product and the sum are \<open>size_t\<close>, the result is pushed as an \<open>int32_t\<close>.\<close>

definition slot_of :: "nat \<Rightarrow> int \<Rightarrow> nat \<Rightarrow> int" where
  "slot_of size' id' offset =
    sint (ucast (word_of_int id' * of_nat size' + of_nat offset :: 64 word) :: 32 word)"

definition cache_slot :: "cache_block list \<Rightarrow> nat \<Rightarrow> int option" where
  "cache_slot bs i =
    (let size' = cb_size (bs ! 0) in
     if size' = 0 \<or> length bs \<le> i div size' then None
     else Some (slot_of size' (block_id (cb_block (bs ! (i div size')))) (i mod size')))"

definition cache_slots :: "kv_state \<Rightarrow> block_type \<Rightarrow> nat \<Rightarrow> nat \<Rightarrow> int list option" where
  "cache_slots s t pos_start pos_end =
    (if kv_blocks s t = [] then None
     else let slots = map (cache_slot (kv_blocks s t)) [pos_start..<pos_end] in
       if None \<in> set slots then None else Some (map the slots))"

section \<open>Counters\<close>

definition set_kv_cache_tokens_num :: "nat \<Rightarrow> kv_state \<Rightarrow> kv_state" where
  "set_kv_cache_tokens_num n s = s\<lparr>kv_tokens := n\<rparr>"

definition incr_kv_cache_tokens_num :: "nat \<Rightarrow> kv_state \<Rightarrow> kv_state option" where
  "incr_kv_cache_tokens_num n s =
    (case current_max_tokens_capacity s of None \<Rightarrow> None
     | Some capacity \<Rightarrow>
         if kv_tokens s + n \<le> capacity
         then Some (s\<lparr>kv_tokens := kv_tokens s + n, slice_window_pos := slice_window_pos s + of_nat n\<rparr>)
         else None)"

definition incr_kv_cache_tokens_num_up_to :: "nat \<Rightarrow> kv_state \<Rightarrow> kv_state option" where
  "incr_kv_cache_tokens_num_up_to target s =
    (case current_max_tokens_capacity s of None \<Rightarrow> None
     | Some capacity \<Rightarrow>
         if \<not> (kv_tokens s \<le> capacity \<and> target \<le> capacity) then None
         else if kv_tokens s < target
         then Some (s\<lparr>kv_tokens := target,
                     slice_window_pos := slice_window_pos s + of_nat (target - kv_tokens s)\<rparr>)
         else Some s)"

definition incr_shared_blocks_num :: "block_type \<Rightarrow> nat \<Rightarrow> kv_state \<Rightarrow> kv_state option" where
  "incr_shared_blocks_num t n s =
    (if shared_blocks_num s t + n \<le> kv_num_blocks s t
     then Some (s\<lparr>owned_shared := (owned_shared s)(t \<mapsto> shared_blocks_num s t + n)\<rparr>) else None)"

definition set_shared_blocks_num :: "block_type \<Rightarrow> nat \<Rightarrow> kv_state \<Rightarrow> kv_state option" where
  "set_shared_blocks_num t n s =
    (if n \<le> kv_num_blocks s t then Some (s\<lparr>owned_shared := (owned_shared s)(t \<mapsto> n)\<rparr>) else None)"

definition set_num_cached_blocks :: "block_type \<Rightarrow> nat \<Rightarrow> kv_state \<Rightarrow> kv_state" where
  "set_num_cached_blocks t n s = s\<lparr>cached_cursor := (cached_cursor s)(t \<mapsto> n)\<rparr>"

definition set_slice_window_size :: "u32 \<Rightarrow> kv_state \<Rightarrow> kv_state option" where
  "set_slice_window_size n s =
    (if n = 0 \<or> kv_blocks s BT_SWA = [] then None
     else Some (s\<lparr>slice_window_size := n, slice_window_pos := 0, slice_window_buffer := n\<rparr>))"

definition update_slice_window_pos :: "kv_state \<Rightarrow> kv_state" where
  "update_slice_window_pos s =
    (if 0 < slice_window_size s \<and> slice_window_buffer s \<le> slice_window_pos s
     then s\<lparr>slice_window_pos := slice_window_pos s mod slice_window_size s\<rparr> else s)"

definition advance_transfer_block_idx :: "nat \<Rightarrow> kv_state \<Rightarrow> kv_state" where
  "advance_transfer_block_idx i s = s\<lparr>next_transfer_block := max (next_transfer_block s) i\<rparr>"

definition next_group_transfer_block_idx :: "kv_state \<Rightarrow> block_type \<Rightarrow> nat" where
  "next_group_transfer_block_idx s t = (case group_transfer_block s t of None \<Rightarrow> 0 | Some i \<Rightarrow> i)"

definition advance_group_transfer_block_idx :: "block_type \<Rightarrow> nat \<Rightarrow> kv_state \<Rightarrow> kv_state" where
  "advance_group_transfer_block_idx t i s =
    s\<lparr>group_transfer_block := (group_transfer_block s)(t \<mapsto> max (next_group_transfer_block_idx s t) i)\<rparr>"

section \<open>Blocks\<close>

text \<open>Writing through the pointer that \<open>mutable_blocks\<close> returns.\<close>

definition put_blocks :: "block_type \<Rightarrow> cache_block list \<Rightarrow> kv_state \<Rightarrow> kv_state" where
  "put_blocks t bs s = s\<lparr>composite_blocks := (composite_blocks s)(t \<mapsto> bs)\<rparr>"

definition remember_block_size :: "block_type \<Rightarrow> cache_block list \<Rightarrow> kv_state \<Rightarrow> kv_state option" where
  "remember_block_size t bs s =
    (case find cb_valid bs of None \<Rightarrow> Some s
     | Some b \<Rightarrow>
         (case block_sizes s t of None \<Rightarrow> Some (s\<lparr>block_sizes := (block_sizes s)(t \<mapsto> cb_size b)\<rparr>)
          | Some size' \<Rightarrow> if size' = cb_size b then Some s else None))"

definition add_blocks :: "block_type \<Rightarrow> cache_block list \<Rightarrow> kv_state \<Rightarrow> kv_state option" where
  "add_blocks t bs s = map_option (\<lambda>s. put_blocks t (kv_blocks s t @ bs) s) (remember_block_size t bs s)"

text \<open>The result: the number of shared blocks, the owned blocks and the dropped ones.\<close>

definition try_replace_unique_blocks ::
  "cache_block list \<Rightarrow> nat \<Rightarrow> cache_block list \<Rightarrow> (nat \<times> cache_block list \<times> cache_block list) option" where
  "try_replace_unique_blocks matched shared owned =
    (let n = length matched in
     if shared < n
     then (if n \<le> length owned then Some (n, matched @ drop n owned, take n owned) else None)
     else Some (shared, owned, matched))"

definition add_shared_blocks ::
  "block_type \<Rightarrow> cache_block list \<Rightarrow> nat \<Rightarrow> kv_state \<Rightarrow> (cache_block list \<times> kv_state) option" where
  "add_shared_blocks t matched all_tokens s0 =
    (if matched = [] then Some ([], s0)
     else case remember_block_size t matched s0 of None \<Rightarrow> None
     | Some s \<Rightarrow>
         if length matched \<le> length (kv_blocks s t)
         then (case try_replace_unique_blocks matched (shared_blocks_num s t) (kv_blocks s t) of None \<Rightarrow> None
               | Some (shared, bs, dropped) \<Rightarrow>
                   Some (dropped, (put_blocks t bs s)\<lparr>owned_shared := (owned_shared s)(t \<mapsto> shared),
                     cached_cursor := (cached_cursor s)(t \<mapsto> max (num_cached_blocks s t) (length matched))\<rparr>))
         else
           let size' = cb_size (matched ! 0); tokens = length matched * size'; repeat' = (tokens = all_tokens);
               tokens' = (if repeat' then (all_tokens - 1) div size' * size' else tokens);
               bs = (if repeat' then butlast matched else matched);
               dropped = kv_blocks s t @ (if repeat' then [last matched] else []) in
           if repeat' \<and> size' = 0 \<or> \<not> tokens' < all_tokens then None
           else Some (dropped, (put_blocks t bs s)\<lparr>owned_shared := (owned_shared s)(t \<mapsto> length bs),
                  cached_cursor := (cached_cursor s)(t \<mapsto> length bs), kv_tokens := tokens'\<rparr>))"

text \<open>The counters of a replaced vector; a linear state has none.\<close>

definition put_counters :: "block_type \<Rightarrow> nat \<Rightarrow> nat \<Rightarrow> kv_state \<Rightarrow> kv_state" where
  "put_counters t shared cursor s =
    (if t = BT_LINEAR
     then s\<lparr>owned_shared := (owned_shared s)(t := None), cached_cursor := (cached_cursor s)(t := None)\<rparr>
     else s\<lparr>owned_shared := (owned_shared s)(t \<mapsto> shared), cached_cursor := (cached_cursor s)(t \<mapsto> cursor)\<rparr>)"

definition mount_composite_shared :: "block_type \<Rightarrow> cache_block list \<Rightarrow> kv_state \<Rightarrow> kv_state option" where
  "mount_composite_shared t matched s0 =
    (if matched = [] then Some s0
     else case remember_block_size t matched s0 of None \<Rightarrow> None
     | Some s \<Rightarrow>
         if kv_blocks s t \<noteq> [] then None
         else Some (put_counters t (length matched) (length matched) (put_blocks t matched s)))"

definition replace_composite_blocks ::
  "block_type \<Rightarrow> cache_block list \<Rightarrow> nat \<Rightarrow> nat \<Rightarrow> kv_state \<Rightarrow> (cache_block list \<times> kv_state) option" where
  "replace_composite_blocks t bs shared cursor s0 =
    (if \<not> (shared \<le> length bs \<and> cursor \<le> length bs) then None
     else map_option (\<lambda>s. (kv_blocks s t, put_counters t shared cursor (put_blocks t bs s)))
            (remember_block_size t bs s0))"

definition forget_type :: "block_type \<Rightarrow> kv_state \<Rightarrow> kv_state" where
  "forget_type t s = s\<lparr>composite_blocks := (composite_blocks s)(t := None), block_sizes := (block_sizes s)(t := None),
     owned_shared := (owned_shared s)(t := None), cached_cursor := (cached_cursor s)(t := None)\<rparr>"

definition erase_blocks :: "block_type \<Rightarrow> kv_state \<Rightarrow> cache_block list \<times> kv_state" where
  "erase_blocks t s = (kv_blocks s t, forget_type t s)"

definition take_blocks :: "block_type \<Rightarrow> kv_state \<Rightarrow> cache_block list \<times> kv_state" where
  "take_blocks t s = (kv_blocks s t, forget_type t s)"

definition set_src_blocks :: "cache_block list \<Rightarrow> bool \<Rightarrow> kv_state \<Rightarrow> cache_block list \<times> kv_state" where
  "set_src_blocks bs swap s = (src_blocks s, s\<lparr>src_blocks := bs, need_swap := swap\<rparr>)"

definition process_beam_search :: "cache_block option \<Rightarrow> kv_state \<Rightarrow> (cache_block list \<times> kv_state) option" where
  "process_beam_search new_block s =
    (case new_block of
       None \<Rightarrow> Some (kv_blocks s BT_KV, (put_blocks BT_KV (src_blocks s) s)\<lparr>src_blocks := []\<rparr>)
     | Some b \<Rightarrow>
         if src_blocks s = [] then None
         else Some (kv_blocks s BT_KV @ [last (src_blocks s)],
                    (put_blocks BT_KV (butlast (src_blocks s) @ [b]) s)\<lparr>src_blocks := []\<rparr>))"

definition kv_reset :: "kv_state \<Rightarrow> cache_block list \<times> kv_state" where
  "kv_reset s =
    (concat (map (kv_blocks s) map_order) @ src_blocks s,
     s\<lparr>kv_tokens := 0, prefix_matched := False, owned_shared := (\<lambda>_. None), cached_cursor := (\<lambda>_. None),
       pushed_blocks := 0, composite_blocks := (\<lambda>_. None), block_sizes := (\<lambda>_. None), src_blocks := [],
       need_swap := False, next_transfer_block := 0, group_transfer_block := (\<lambda>_. None)\<rparr>)"


section \<open>Basic facts\<close>

lemma kv_blocks_put [simp]: "kv_blocks (put_blocks t bs s) u = (if u = t then bs else kv_blocks s u)"
  by (simp add: kv_blocks_def put_blocks_def)

lemma put_fields [simp]:
  "kv_tokens (put_blocks t bs s) = kv_tokens s" "block_sizes (put_blocks t bs s) = block_sizes s"
  "src_blocks (put_blocks t bs s) = src_blocks s" "owned_shared (put_blocks t bs s) = owned_shared s"
  "cached_cursor (put_blocks t bs s) = cached_cursor s"
  by (simp_all add: put_blocks_def)

lemma kv_blocks_cong: "composite_blocks s' = composite_blocks s \<Longrightarrow> kv_blocks s' = kv_blocks s"
  by (rule ext) (simp add: kv_blocks_def)

lemma kv_num_blocks_length [simp]: "kv_num_blocks s t = length (kv_blocks s t)"
  by (simp add: kv_num_blocks_def kv_blocks_def split: option.split)

lemma kv_blocks_frame [simp]:
  "kv_blocks (s\<lparr>kv_tokens := n\<rparr>) = kv_blocks s" "kv_blocks (s\<lparr>block_sizes := z\<rparr>) = kv_blocks s"
  "kv_blocks (s\<lparr>src_blocks := b\<rparr>) = kv_blocks s" "kv_blocks (s\<lparr>need_swap := w\<rparr>) = kv_blocks s"
  "kv_blocks (s\<lparr>owned_shared := f\<rparr>) = kv_blocks s" "kv_blocks (s\<lparr>cached_cursor := f\<rparr>) = kv_blocks s"
  "kv_blocks (s\<lparr>slice_window_pos := p\<rparr>) = kv_blocks s"
  by (simp_all add: kv_blocks_def fun_eq_iff)

lemma remember_frame:
  "remember_block_size t bs s = Some s' \<Longrightarrow> kv_blocks s' = kv_blocks s \<and> src_blocks s' = src_blocks s
     \<and> owned_shared s' = owned_shared s \<and> cached_cursor s' = cached_cursor s \<and> kv_tokens s' = kv_tokens s"
  by (auto simp: remember_block_size_def split: option.splits if_splits)

lemma put_counters_frame [simp]:
  "kv_blocks (put_counters t n c s) = kv_blocks s" "src_blocks (put_counters t n c s) = src_blocks s"
  "block_sizes (put_counters t n c s) = block_sizes s"
  by (simp_all add: put_counters_def)

lemma kv_blocks_forget [simp]: "kv_blocks (forget_type t s) u = (if u = t then [] else kv_blocks s u)"
  by (simp add: kv_blocks_def forget_type_def)

section \<open>Slots\<close>

text \<open>While its value fits, the arithmetic of a slot is exact.\<close>

lemma slot_of_exact:
  assumes "0 \<le> i" "i * int n + int k < 2 ^ 31"
  shows "slot_of n i k = i * int n + int k"
proof -
  have eq: "(word_of_int i * of_nat n + of_nat k :: 64 word) = word_of_int (i * int n + int k)"
    by simp
  define x where "x = i * int n + int k"
  have x: "0 \<le> x" "x < 2 ^ 31" using assms by (simp_all add: x_def)
  have "uint (word_of_int x :: 64 word) = x" using x by (simp add: uint_word_of_int)
  then have "(ucast (word_of_int x :: 64 word) :: 32 word) = word_of_int x" by (simp only: ucast_eq)
  moreover have "sint (word_of_int x :: 32 word) = x"
    using x by (simp add: sint_sbintrunc' signed_take_bit_int_eq_self)
  ultimately show ?thesis unfolding slot_of_def eq x_def by simp
qed


definition sized_blocks :: "nat \<Rightarrow> cache_block list \<Rightarrow> bool" where
  "sized_blocks n bs \<longleftrightarrow> (\<forall>b \<in> set bs. cb_valid b \<and> cb_size b = n)"

definition position_slot :: "nat \<Rightarrow> cache_block list \<Rightarrow> nat \<Rightarrow> int" where
  "position_slot n bs i = block_id (cb_block (bs ! (i div n))) * int n + int (i mod n)"

lemma cache_slot_exact:
  assumes "sized_blocks n bs" "0 < n" "i < length bs * n" "\<forall>b \<in> set bs. (block_id (cb_block b) + 1) * int n \<le> 2 ^ 31"
  shows "cache_slot bs i = Some (position_slot n bs i)"
proof -
  have idx: "i div n < length bs" using assms(3) by (simp add: less_mult_imp_div_less)
  then have "0 < length bs" by (cases bs) simp_all
  then have size0: "cb_size (bs ! 0) = n" using assms(1) unfolding sized_blocks_def by (meson nth_mem)
  let ?b = "bs ! (i div n)"
  have b: "?b \<in> set bs" using idx by (rule nth_mem)
  then have "0 \<le> block_id (cb_block ?b)" using assms(1) by (auto simp: sized_blocks_def cb_valid_def is_valid_def)
  moreover have "i mod n < n" using assms(2) by simp
  then have "block_id (cb_block ?b) * int n + int (i mod n) < (block_id (cb_block ?b) + 1) * int n"
    by (simp only: distrib_right mult_1 add_less_cancel_left of_nat_less_iff)
  then have "block_id (cb_block ?b) * int n + int (i mod n) < 2 ^ 31" using assms(4) b by fastforce
  ultimately show ?thesis
    using idx assms(2) slot_of_exact by (simp add: cache_slot_def Let_def size0 position_slot_def)
qed

lemma position_slot_inj:
  assumes "0 < n" "distinct (map (block_id \<circ> cb_block) bs)" "i < length bs * n" "j < length bs * n"
    and "position_slot n bs i = position_slot n bs j"
  shows "i = j"
proof -
  let ?id = "\<lambda>k. block_id (cb_block (bs ! k))"
  have mod: "int (i mod n) = position_slot n bs i mod int n" "int (j mod n) = position_slot n bs j mod int n"
    using assms(1) by (simp_all add: position_slot_def zmod_int)
  then have m: "i mod n = j mod n" using assms(5) by simp
  then have "?id (i div n) * int n = ?id (j div n) * int n" using assms(5) by (simp add: position_slot_def)
  then have "?id (i div n) = ?id (j div n)" using assms(1) by simp
  moreover have "i div n < length bs" "j div n < length bs" using assms(3,4) by (simp_all add: less_mult_imp_div_less)
  ultimately have "i div n = j div n" using assms(2) by (simp add: distinct_conv_nth) metis
  then show ?thesis using m by (metis div_mult_mod_eq)
qed

section \<open>Operations as a list\<close>

datatype kv_op =
    Op_Add block_type "cache_block list"
  | Op_Add_Shared block_type "cache_block list" nat
  | Op_Mount block_type "cache_block list"
  | Op_Replace block_type "cache_block list" nat nat
  | Op_Erase block_type
  | Op_Take block_type
  | Op_Set_Src "cache_block list" bool
  | Op_Beam "cache_block option"
  | Op_Incr nat
  | Op_Incr_Up_To nat
  | Op_Incr_Shared block_type nat
  | Op_Set_Shared block_type nat
  | Op_Set_Cached block_type nat
  | Op_Reset

text \<open>The blocks that an operation is given, and its result: the blocks it hands back or drops, and the state.\<close>

fun op_given :: "kv_op \<Rightarrow> cache_block list" where
  "op_given (Op_Add t bs) = bs"
| "op_given (Op_Add_Shared t bs n) = bs"
| "op_given (Op_Mount t bs) = bs"
| "op_given (Op_Replace t bs n c) = bs"
| "op_given (Op_Set_Src bs w) = bs"
| "op_given (Op_Beam (Some b)) = [b]"
| "op_given _ = []"

fun kv_apply :: "kv_op \<Rightarrow> kv_state \<Rightarrow> (cache_block list \<times> kv_state) option" where
  "kv_apply (Op_Add t bs) s = map_option (Pair []) (add_blocks t bs s)"
| "kv_apply (Op_Add_Shared t bs n) s = add_shared_blocks t bs n s"
| "kv_apply (Op_Mount t bs) s = map_option (Pair []) (mount_composite_shared t bs s)"
| "kv_apply (Op_Replace t bs n c) s = replace_composite_blocks t bs n c s"
| "kv_apply (Op_Erase t) s = Some (erase_blocks t s)"
| "kv_apply (Op_Take t) s = Some (take_blocks t s)"
| "kv_apply (Op_Set_Src bs w) s = Some (set_src_blocks bs w s)"
| "kv_apply (Op_Beam b) s = process_beam_search b s"
| "kv_apply (Op_Incr n) s = map_option (Pair []) (incr_kv_cache_tokens_num n s)"
| "kv_apply (Op_Incr_Up_To n) s = map_option (Pair []) (incr_kv_cache_tokens_num_up_to n s)"
| "kv_apply (Op_Incr_Shared t n) s = map_option (Pair []) (incr_shared_blocks_num t n s)"
| "kv_apply (Op_Set_Shared t n) s = map_option (Pair []) (set_shared_blocks_num t n s)"
| "kv_apply (Op_Set_Cached t n) s = Some ([], set_num_cached_blocks t n s)"
| "kv_apply Op_Reset s = Some (kv_reset s)"

fun kv_run :: "kv_op list \<Rightarrow> kv_state \<Rightarrow> (cache_block list \<times> kv_state) option" where
  "kv_run [] s = Some ([], s)"
| "kv_run (p # ps) s =
    (case kv_apply p s of None \<Rightarrow> None
     | Some (d, s') \<Rightarrow> map_option (\<lambda>(d', s''). (d @ d', s'')) (kv_run ps s'))"

end
