(* ===== verification/Sequence_Cache_Properties.thy ===== *)
theory Sequence_Cache_Properties imports Sequence_Cache begin

text \<open>
  The cache of one sequence (\<open>Sequence_Cache\<close>): its operations neither lose nor double a block, keep its
  invariant and fail a \<open>CHECK\<close> exactly when their arguments do not fit; the slots of its positions; and what
  mounting a hit of the prefix cache does.
\<close>

section \<open>No alias is lost\<close>

definition held_blocks :: "kv_state \<Rightarrow> cache_block multiset" where
  "held_blocks s = (\<Sum>t \<in> set map_order. mset (kv_blocks s t)) + mset (src_blocks s)"

lemma held_put: "held_blocks (put_blocks t bs s) + mset (kv_blocks s t) = held_blocks s + mset bs"
proof -
  let ?rest = "\<Sum>u \<in> set map_order - {t}. mset (kv_blocks s u)"
  have "(\<Sum>u \<in> set map_order - {t}. mset (kv_blocks (put_blocks t bs s) u)) = ?rest" by (rule sum.cong) auto
  then have "(\<Sum>u \<in> set map_order. mset (kv_blocks (put_blocks t bs s) u)) = mset bs + ?rest"
    by (simp add: sum.remove [of "set map_order" t])
  moreover have "(\<Sum>u \<in> set map_order. mset (kv_blocks s u)) = mset (kv_blocks s t) + ?rest"
    by (simp add: sum.remove [of "set map_order" t])
  ultimately show ?thesis by (simp add: held_blocks_def)
qed

lemma held_cong: "kv_blocks s' = kv_blocks s \<Longrightarrow> src_blocks s' = src_blocks s \<Longrightarrow> held_blocks s' = held_blocks s"
  by (simp add: held_blocks_def)

lemma held_frame [simp]:
  "held_blocks (s\<lparr>owned_shared := f\<rparr>) = held_blocks s" "held_blocks (s\<lparr>cached_cursor := f\<rparr>) = held_blocks s"
  "held_blocks (s\<lparr>kv_tokens := n\<rparr>) = held_blocks s" "held_blocks (put_counters t m c s) = held_blocks s"
  "held_blocks (s\<lparr>slice_window_pos := p\<rparr>) = held_blocks s" "held_blocks (s\<lparr>need_swap := w\<rparr>) = held_blocks s"
  by (rule held_cong; simp)+

lemma held_src: "held_blocks (s\<lparr>src_blocks := bs\<rparr>) + mset (src_blocks s) = held_blocks s + mset bs"
  by (simp add: held_blocks_def)

lemma held_remember: "remember_block_size t bs s = Some s' \<Longrightarrow> held_blocks s' = held_blocks s"
  using remember_frame by (blast intro: held_cong)

lemma held_forget: "held_blocks (forget_type t s) + mset (kv_blocks s t) = held_blocks s"
proof -
  have "held_blocks (forget_type t s) = held_blocks (put_blocks t [] s)"
    by (rule held_cong) (auto simp: fun_eq_iff forget_type_def put_blocks_def kv_blocks_def)
  then show ?thesis using held_put [of t "[]" s] by simp
qed

lemma mset_butlast_last: "xs \<noteq> [] \<Longrightarrow> add_mset (last xs) (mset (butlast xs)) = mset xs"
  by (metis append_butlast_last_id mset.simps(2) mset_append add.commute add_mset_add_single mset_single_iff_right)


lemma balance:
  fixes h :: "'a multiset"
  assumes "h' + k = h + b'" "b + k = b' + d"
  shows "h + b = h' + d"
proof -
  have "(h + b) + k = (h' + d) + k"
    using assms by (metis add.assoc add.commute)
  then show ?thesis by simp
qed

lemma mset_take_drop: "mset (drop k xs) + mset (take k xs) = mset xs"
  by (metis append_take_drop_id mset_append add.commute)

lemma add_shared_held:
  assumes "add_shared_blocks t bs n s = Some (d, s')"
  shows "held_blocks s + mset bs = held_blocks s' + mset d"
proof (cases "bs = []")
  case True
  then show ?thesis using assms by (simp add: add_shared_blocks_def)
next
  case False
  then obtain r where r: "remember_block_size t bs s = Some r"
    using assms by (auto simp: add_shared_blocks_def split: option.splits)
  have held: "held_blocks s = held_blocks r" using held_remember [OF r] by simp
  show ?thesis
  proof (cases "length bs \<le> length (kv_blocks r t)")
    case True
    then obtain sh owned where tr: "try_replace_unique_blocks bs (shared_blocks_num r t) (kv_blocks r t) = Some (sh, owned, d)"
      and s': "held_blocks s' = held_blocks (put_blocks t owned r)"
      using assms False r by (auto simp: add_shared_blocks_def split: option.splits prod.splits)
    have "mset bs + mset (kv_blocks r t) = mset owned + mset d"
      using tr mset_take_drop [of "length bs" "kv_blocks r t"]
      by (auto simp: try_replace_unique_blocks_def Let_def add.assoc split: if_splits)
    from balance [OF held_put this] show ?thesis unfolding held s' .
  next
    case False
    define ms where "ms = (if length bs * cb_size (bs ! 0) = n then butlast bs else bs)"
    have d: "d = kv_blocks r t @ (if length bs * cb_size (bs ! 0) = n then [last bs] else [])"
      and s': "held_blocks s' = held_blocks (put_blocks t ms r)"
      using assms False \<open>bs \<noteq> []\<close> r by (auto simp: add_shared_blocks_def ms_def Let_def split: if_splits)
    have "mset bs + mset (kv_blocks r t) = mset ms + mset d"
      using mset_butlast_last [OF \<open>bs \<noteq> []\<close>] by (auto simp: ms_def d)
    from balance [OF held_put this] show ?thesis unfolding held s' .
  qed
qed

lemma kv_apply_held:
  assumes "kv_apply p s = Some (d, s')"
  shows "held_blocks s + mset (op_given p) = held_blocks s' + mset d"
proof (cases p)
  case (Op_Add t bs)
  then obtain r where "remember_block_size t bs s = Some r" "s' = put_blocks t (kv_blocks s t @ bs) r" "d = []"
    using assms remember_frame by (auto simp: add_blocks_def)
  then show ?thesis using Op_Add held_put [of t "kv_blocks s t @ bs" r] held_remember remember_frame by fastforce
next
  case (Op_Add_Shared t bs n)
  then show ?thesis using assms add_shared_held by simp
next
  case (Op_Mount t bs)
  then show ?thesis
  proof (cases "bs = []")
    case False
    then obtain r where r: "remember_block_size t bs s = Some r" "kv_blocks r t = []"
      "held_blocks s' = held_blocks (put_blocks t bs r)" "d = []"
      using assms Op_Mount by (auto simp: mount_composite_shared_def split: option.splits if_splits)
    then show ?thesis using Op_Mount held_put [of t bs r] held_remember [OF r(1)] by simp
  qed (use assms in \<open>simp add: mount_composite_shared_def\<close>)
next
  case (Op_Replace t bs n c)
  then obtain r where r: "remember_block_size t bs s = Some r" "d = kv_blocks r t"
    "held_blocks s' = held_blocks (put_blocks t bs r)"
    using assms by (auto simp: replace_composite_blocks_def split: if_splits)
  then show ?thesis using Op_Replace held_put [of t bs r] held_remember [OF r(1)] by simp
next
  case (Op_Erase t)
  then show ?thesis using assms held_forget [of t s] by (simp add: erase_blocks_def)
next
  case (Op_Take t)
  then show ?thesis using assms held_forget [of t s] by (simp add: take_blocks_def)
next
  case (Op_Set_Src bs w)
  then show ?thesis using assms held_src [of bs s] by (auto simp: set_src_blocks_def held_blocks_def)
next
  case (Op_Beam b)
  show ?thesis
  proof (cases b)
    case None
    let ?r = "put_blocks BT_KV (src_blocks s) s"
    have r: "held_blocks ?r = held_blocks (?r\<lparr>src_blocks := []\<rparr>) + mset (src_blocks s)" using held_src [of "[]" ?r] by simp
    have "held_blocks s = held_blocks (?r\<lparr>src_blocks := []\<rparr>) + mset (kv_blocks s BT_KV)"
      using held_put [of BT_KV "src_blocks s" s] unfolding r by (simp add: ac_simps)
    then show ?thesis using assms Op_Beam None by (auto simp: process_beam_search_def)
  next
    case (Some x)
    let ?new = "butlast (src_blocks s) @ [x]"
    let ?r = "put_blocks BT_KV ?new s"
    have src: "src_blocks s \<noteq> []" using assms Op_Beam Some by (auto simp: process_beam_search_def split: if_splits)
    have r: "held_blocks ?r = held_blocks (?r\<lparr>src_blocks := []\<rparr>) + (mset (butlast (src_blocks s)) + {#last (src_blocks s)#})"
      using held_src [of "[]" ?r] mset_butlast_last [OF src] by simp
    have "held_blocks (?r\<lparr>src_blocks := []\<rparr>) + mset (kv_blocks s BT_KV) + {#last (src_blocks s)#} = held_blocks s + {#x#}"
      using held_put [of BT_KV ?new s] unfolding r by (simp add: ac_simps)
    then show ?thesis using assms Op_Beam Some src by (auto simp: process_beam_search_def ac_simps)
  qed
next
  case Op_Reset
  have "mset (concat (map (kv_blocks s) map_order)) = (\<Sum>t \<in> set map_order. mset (kv_blocks s t))"
    by (simp add: mset_concat comp_def sum_list_distinct_conv_sum_set)
  moreover have "kv_blocks s' = (\<lambda>_. [])" "src_blocks s' = []"
    using assms Op_Reset by (auto simp: kv_reset_def kv_blocks_def fun_eq_iff)
  ultimately show ?thesis using assms Op_Reset by (auto simp: kv_reset_def held_blocks_def)
qed (use assms in \<open>auto simp: incr_kv_cache_tokens_num_def incr_kv_cache_tokens_num_up_to_def incr_shared_blocks_num_def
    set_shared_blocks_num_def set_num_cached_blocks_def held_blocks_def split: option.splits if_splits\<close>)

lemma kv_run_held:
  "kv_run ps s = Some (d, s') \<Longrightarrow> held_blocks s + mset (concat (map op_given ps)) = held_blocks s' + mset d"
proof (induction ps arbitrary: s d)
  case (Cons p ps)
  then obtain d1 s1 d2 where s1: "kv_apply p s = Some (d1, s1)" "kv_run ps s1 = Some (d2, s')" "d = d1 @ d2"
    by (auto split: option.splits prod.splits)
  show ?case using kv_apply_held [OF s1(1)] Cons.IH [OF s1(2)] s1(3)
    by (simp add: ac_simps) (metis add.assoc add.commute)
qed simp


section \<open>The invariant\<close>

text \<open>The types whose vectors grow with the tokens, without placeholders.\<close>

definition token_types :: "block_type list" where
  "token_types = [BT_KV, BT_C1, BT_C2, BT_C4, BT_C128]"

definition blocks_fit :: "(block_type \<Rightarrow> nat) \<Rightarrow> block_type \<Rightarrow> cache_block list \<Rightarrow> bool" where
  "blocks_fit sz t bs \<longleftrightarrow>
     (\<forall>b \<in> set bs. cb_valid b \<longrightarrow> cb_size b = sz t) \<and> (t \<in> set token_types \<longrightarrow> (\<forall>b \<in> set bs. cb_valid b))"

definition kv_ok :: "(block_type \<Rightarrow> nat) \<Rightarrow> kv_state \<Rightarrow> bool" where
  "kv_ok sz s \<longleftrightarrow>
     (\<forall>t. shared_blocks_num s t \<le> length (kv_blocks s t)) \<and> (\<forall>t. blocks_fit sz t (kv_blocks s t))
   \<and> (\<forall>t. block_sizes s t \<in> {None, Some (sz t)})
   \<and> (\<forall>t \<in> set token_types. kv_blocks s t \<noteq> [] \<longrightarrow> block_sizes s t = Some (sz t))"

text \<open>What the callers give: blocks of the manager of the type, valid ones where the type has no placeholders.  Shared
  blocks are added to types without placeholders only; beam search, which puts the blocks of another sequence in
  place, is left out.\<close>

fun op_ok :: "(block_type \<Rightarrow> nat) \<Rightarrow> kv_op \<Rightarrow> bool" where
  "op_ok sz (Op_Add t bs) = blocks_fit sz t bs"
| "op_ok sz (Op_Add_Shared t bs n) = (t \<in> set token_types \<and> blocks_fit sz t bs)"
| "op_ok sz (Op_Mount t bs) = blocks_fit sz t bs"
| "op_ok sz (Op_Replace t bs n c) = blocks_fit sz t bs"
| "op_ok sz (Op_Beam b) = False"
| "op_ok sz _ = True"

lemma kv_ok_new: "kv_ok sz new_kv_state"
  by (simp add: kv_ok_def new_kv_state_def shared_blocks_num_def kv_blocks_def blocks_fit_def)

lemma remember_fits:
  assumes "kv_ok sz s" "blocks_fit sz t bs"
  shows "\<exists>r. remember_block_size t bs s = Some r \<and> kv_ok sz r
    \<and> (t \<in> set token_types \<and> bs \<noteq> [] \<longrightarrow> block_sizes r t = Some (sz t))"
proof (cases "find cb_valid bs")
  case None
  then have "\<not> (t \<in> set token_types \<and> bs \<noteq> [])" using assms(2) by (cases bs) (auto simp: find_None_iff blocks_fit_def)
  then show ?thesis using None assms(1) by (intro exI [of _ s]) (auto simp: remember_block_size_def)
next
  case (Some b)
  then have "cb_size b = sz t" using assms(2) by (auto simp: find_Some_iff blocks_fit_def)
  then have size': "cb_size b = sz t" .
  have "block_sizes s t = None \<or> block_sizes s t = Some (sz t)" using assms(1) by (simp add: kv_ok_def)
  then show ?thesis
  proof (elim disjE)
    assume "block_sizes s t = None"
    then show ?thesis using Some assms(1) size'
      by (intro exI [of _ "s\<lparr>block_sizes := (block_sizes s)(t \<mapsto> sz t)\<rparr>"])
         (auto simp: remember_block_size_def kv_ok_def shared_blocks_num_def)
  next
    assume "block_sizes s t = Some (sz t)"
    then show ?thesis using Some assms(1) size' by (intro exI [of _ s]) (simp add: remember_block_size_def)
  qed
qed

lemma blocks_fit_append [simp]: "blocks_fit sz t (bs @ cs) \<longleftrightarrow> blocks_fit sz t bs \<and> blocks_fit sz t cs"
  by (auto simp: blocks_fit_def)

lemma blocks_fit_drop: "blocks_fit sz t bs \<Longrightarrow> blocks_fit sz t (drop n bs)"
  by (auto simp: blocks_fit_def dest: in_set_dropD)

lemma blocks_fit_butlast: "blocks_fit sz t bs \<Longrightarrow> blocks_fit sz t (butlast bs)"
  by (auto simp: blocks_fit_def dest: in_set_butlastD)

text \<open>A vector and its shared count are written together.\<close>

lemma kv_ok_write:
  assumes "kv_ok sz r" "blocks_fit sz t bs" "t \<in> set token_types \<and> bs \<noteq> [] \<Longrightarrow> block_sizes r t = Some (sz t)"
    and "kv_blocks s' = kv_blocks (put_blocks t bs r)" "block_sizes s' = block_sizes r"
    and "shared_blocks_num s' t \<le> length bs" "\<And>u. u \<noteq> t \<Longrightarrow> shared_blocks_num s' u = shared_blocks_num r u"
  shows "kv_ok sz s'"
proof -
  have r: "shared_blocks_num r u \<le> length (kv_blocks r u)" "blocks_fit sz u (kv_blocks r u)"
    "block_sizes r u \<in> {None, Some (sz u)}"
    "u \<in> set token_types \<Longrightarrow> kv_blocks r u \<noteq> [] \<Longrightarrow> block_sizes r u = Some (sz u)" for u
    using assms(1) by (auto simp only: kv_ok_def)
  have "shared_blocks_num s' u \<le> length (kv_blocks s' u)" "blocks_fit sz u (kv_blocks s' u)"
    "block_sizes s' u \<in> {None, Some (sz u)}"
    "u \<in> set token_types \<Longrightarrow> kv_blocks s' u \<noteq> [] \<Longrightarrow> block_sizes s' u = Some (sz u)" for u
    using r [of u] assms(2-7) by (cases "u = t"; simp)+
  then show ?thesis unfolding kv_ok_def by blast
qed

lemma shared_put_counters: "shared_blocks_num (put_counters t n c s) u =
    (if u = t then (if t = BT_LINEAR then 0 else n) else shared_blocks_num s u)"
  by (simp add: put_counters_def shared_blocks_num_def)

lemma shared_put_blocks [simp]: "shared_blocks_num (put_blocks t bs s) = shared_blocks_num s"
  by (simp add: fun_eq_iff shared_blocks_num_def)

lemma add_shared_ok:
  assumes "kv_ok sz s" "t \<in> set token_types" "blocks_fit sz t bs" "add_shared_blocks t bs n s = Some (d, s')"
  shows "kv_ok sz s'"
proof (cases "bs = []")
  case True
  then show ?thesis using assms by (simp add: add_shared_blocks_def)
next
  case False
  obtain r where r: "remember_block_size t bs s = Some r" "kv_ok sz r" "block_sizes r t = Some (sz t)"
    using remember_fits [OF assms(1,3)] assms(2) False by auto
  have "\<exists>ms. kv_blocks s' = kv_blocks (put_blocks t ms r) \<and> block_sizes s' = block_sizes r \<and> blocks_fit sz t ms
      \<and> shared_blocks_num s' t \<le> length ms \<and> (\<forall>u. u \<noteq> t \<longrightarrow> shared_blocks_num s' u = shared_blocks_num r u)"
  proof (cases "length bs \<le> length (kv_blocks r t)")
    case True
    obtain sh ms where tr: "try_replace_unique_blocks bs (shared_blocks_num r t) (kv_blocks r t) = Some (sh, ms, d)"
      and s': "s' = (put_blocks t ms r)\<lparr>owned_shared := (owned_shared r)(t \<mapsto> sh),
                     cached_cursor := (cached_cursor r)(t \<mapsto> max (num_cached_blocks r t) (length bs))\<rparr>"
      using assms(4) False True r(1) by (auto simp: add_shared_blocks_def split: option.splits prod.splits)
    have "blocks_fit sz t (kv_blocks r t)" "shared_blocks_num r t \<le> length (kv_blocks r t)" using r(2) by (simp_all add: kv_ok_def)
    then have "blocks_fit sz t ms \<and> sh \<le> length ms"
      using tr assms(3) blocks_fit_drop by (auto simp: try_replace_unique_blocks_def Let_def split: if_splits)
    then show ?thesis by (intro exI [of _ ms]) (simp add: s' shared_blocks_num_def)
  next
    case longer: False
    let ?ms = "if length bs * cb_size (bs ! 0) = n then butlast bs else bs"
    obtain k where s': "s' = (put_blocks t ?ms r)\<lparr>owned_shared := (owned_shared r)(t \<mapsto> length ?ms),
                  cached_cursor := (cached_cursor r)(t \<mapsto> length ?ms), kv_tokens := k\<rparr>"
      using assms(4) False longer r(1) by (auto simp: add_shared_blocks_def Let_def split: if_splits)
    then show ?thesis using assms(3) blocks_fit_butlast by (intro exI [of _ ?ms]) (simp add: shared_blocks_num_def)
  qed
  then obtain ms where ms: "kv_blocks s' = kv_blocks (put_blocks t ms r)" "block_sizes s' = block_sizes r" "blocks_fit sz t ms"
      "shared_blocks_num s' t \<le> length ms" "\<forall>u. u \<noteq> t \<longrightarrow> shared_blocks_num s' u = shared_blocks_num r u" by blast
  show ?thesis by (rule kv_ok_write [OF r(2) ms(3) r(3) ms(1,2,4)]) (use ms(5) in blast)
qed

lemma kv_ok_cong: "kv_ok sz s \<Longrightarrow> kv_blocks s' = kv_blocks s \<Longrightarrow> block_sizes s' = block_sizes s \<Longrightarrow>
    (\<And>t. shared_blocks_num s' t \<le> length (kv_blocks s t)) \<Longrightarrow> kv_ok sz s'"
  by (simp add: kv_ok_def)

lemma kv_ok_shared_cong: "kv_ok sz s \<Longrightarrow> kv_blocks s' = kv_blocks s \<Longrightarrow> block_sizes s' = block_sizes s \<Longrightarrow>
    owned_shared s' = owned_shared s \<Longrightarrow> kv_ok sz s'"
  by (rule kv_ok_cong) (auto simp: kv_ok_def shared_blocks_num_def)

lemma forget_ok: "kv_ok sz s \<Longrightarrow> kv_ok sz (forget_type t s)"
proof -
  assume ok: "kv_ok sz s"
  have "shared_blocks_num (forget_type t s) u = (if u = t then 0 else shared_blocks_num s u)"
    "block_sizes (forget_type t s) u = (if u = t then None else block_sizes s u)" for u
    by (simp_all add: forget_type_def shared_blocks_num_def)
  then show ?thesis using ok by (simp add: kv_ok_def blocks_fit_def)
qed

lemma kv_reset_ok: "kv_ok sz (snd (kv_reset s))"
  by (simp add: kv_reset_def kv_ok_def shared_blocks_num_def kv_blocks_def blocks_fit_def)

lemma add_ok:
  assumes "kv_ok sz s" "blocks_fit sz t bs" "add_blocks t bs s = Some s'"
  shows "kv_ok sz s'"
proof -
  obtain r where r: "remember_block_size t bs s = Some r" "kv_ok sz r"
      "t \<in> set token_types \<and> bs \<noteq> [] \<longrightarrow> block_sizes r t = Some (sz t)"
    using remember_fits [OF assms(1,2)] by blast
  have s': "s' = put_blocks t (kv_blocks r t @ bs) r"
    using assms(3) r(1) remember_frame [OF r(1)] by (simp add: add_blocks_def)
  have "blocks_fit sz t (kv_blocks r t)" "shared_blocks_num r t \<le> length (kv_blocks r t)"
    "t \<in> set token_types \<and> kv_blocks r t \<noteq> [] \<longrightarrow> block_sizes r t = Some (sz t)"
    using r(2) by (simp_all add: kv_ok_def)
  then show ?thesis unfolding s'
    by (intro kv_ok_write [OF r(2), where t = t and bs = "kv_blocks r t @ bs"]) (use r(3) assms(2) in auto)
qed

lemma counters_ok:
  assumes "kv_ok sz s" "blocks_fit sz t bs" "remember_block_size t bs s = Some r" "n \<le> length bs"
  shows "kv_ok sz (put_counters t n c (put_blocks t bs r))"
proof -
  have r: "kv_ok sz r" "t \<in> set token_types \<and> bs \<noteq> [] \<longrightarrow> block_sizes r t = Some (sz t)"
    using remember_fits [OF assms(1,2)] assms(3) by simp_all
  show ?thesis
    by (intro kv_ok_write [OF r(1), where t = t and bs = bs]) (use r(2) assms(2,4) in \<open>auto simp: shared_put_counters\<close>)
qed

lemma kv_apply_ok:
  assumes "kv_ok sz s" "op_ok sz p" "kv_apply p s = Some (d, s')"
  shows "kv_ok sz s'"
proof (cases p)
  case (Op_Add t bs)
  then show ?thesis using add_ok [OF assms(1)] assms(2,3) by auto
next
  case (Op_Add_Shared t bs n)
  then show ?thesis using add_shared_ok [OF assms(1)] assms(2,3) by auto
next
  case (Op_Mount t bs)
  then show ?thesis using counters_ok [OF assms(1), of t bs] assms
    by (auto simp: mount_composite_shared_def split: option.splits if_splits)
next
  case (Op_Replace t bs n c)
  then show ?thesis using counters_ok [OF assms(1), of t bs] assms
    by (auto simp: replace_composite_blocks_def split: if_splits)
next
  case (Op_Erase t)
  then show ?thesis using forget_ok [OF assms(1)] assms(3) by (auto simp: erase_blocks_def)
next
  case (Op_Take t)
  then show ?thesis using forget_ok [OF assms(1)] assms(3) by (auto simp: take_blocks_def)
next
  case (Op_Set_Src bs w)
  then have "s' = s\<lparr>src_blocks := bs, need_swap := w\<rparr>" using assms(3) by (simp add: set_src_blocks_def)
  then show ?thesis by (intro kv_ok_shared_cong [OF assms(1)]) simp_all
next
  case Op_Reset
  then show ?thesis using assms(3) kv_reset_ok [of sz s] by auto
next
  case (Op_Incr n)
  then show ?thesis using assms(3)
    by (intro kv_ok_shared_cong [OF assms(1)]) (auto simp: incr_kv_cache_tokens_num_def split: option.splits if_splits)
next
  case (Op_Incr_Up_To n)
  then show ?thesis using assms(3)
    by (intro kv_ok_shared_cong [OF assms(1)]) (auto simp: incr_kv_cache_tokens_num_up_to_def split: option.splits if_splits)
next
  case (Op_Incr_Shared t n)
  then show ?thesis using assms(1,3)
    by (intro kv_ok_cong [OF assms(1)]) (auto simp: incr_shared_blocks_num_def shared_blocks_num_def kv_ok_def split: if_splits)
next
  case (Op_Set_Shared t n)
  then show ?thesis using assms(1,3)
    by (intro kv_ok_cong [OF assms(1)]) (auto simp: set_shared_blocks_num_def shared_blocks_num_def kv_ok_def split: if_splits)
next
  case (Op_Set_Cached t n)
  then show ?thesis using assms(3)
    by (intro kv_ok_shared_cong [OF assms(1)]) (auto simp: set_num_cached_blocks_def)
qed (use assms in simp)

lemma kv_run_ok: "kv_run ps s = Some (d, s') \<Longrightarrow> kv_ok sz s \<Longrightarrow> \<forall>p \<in> set ps. op_ok sz p \<Longrightarrow> kv_ok sz s'"
  by (induction ps arbitrary: s d) (auto split: option.splits prod.splits dest: kv_apply_ok)


section \<open>Properties\<close>

text \<open>The slots of a sequence's positions.  When the blocks of a type are valid, have one size and ids that keep the slots
  within an \<open>int32_t\<close>, \<open>cache_slots\<close> of a range inside the blocks returns for each position the id of its block times the size
  plus the offset in the block; and when the ids are distinct no two positions share a slot.\<close>

theorem cache_slots_exact:
  assumes "sized_blocks n (kv_blocks s t)" "0 < n" "kv_blocks s t \<noteq> []" "e \<le> length (kv_blocks s t) * n"
    and "\<forall>b \<in> set (kv_blocks s t). (block_id (cb_block b) + 1) * int n \<le> 2 ^ 31"
  shows "cache_slots s t a e = Some (map (position_slot n (kv_blocks s t)) [a..<e])
    \<and> (distinct (map (block_id \<circ> cb_block) (kv_blocks s t)) \<longrightarrow> distinct (the (cache_slots s t a e)))"
proof -
  let ?bs = "kv_blocks s t"
  have slot: "cache_slot ?bs i = Some (position_slot n ?bs i)" if "i < e" for i
    using cache_slot_exact [OF assms(1,2) _ assms(5)] that assms(4) by simp
  then have "map (cache_slot ?bs) [a..<e] = map (Some \<circ> position_slot n ?bs) [a..<e]" by simp
  then have slots: "cache_slots s t a e = Some (map (position_slot n ?bs) [a..<e])"
    using assms(3) by (auto simp: cache_slots_def Let_def comp_def)
  have "distinct (map (position_slot n ?bs) [a..<e])" if "distinct (map (block_id \<circ> cb_block) ?bs)"
    unfolding distinct_map using position_slot_inj [OF assms(2) that] assms(4) by (auto intro!: inj_onI)
  then show ?thesis using slots by simp
qed

text \<open>A sequence of two blocks of four tokens.\<close>

definition demo_block :: "int \<Rightarrow> nat \<Rightarrow> cache_block" where
  "demo_block i n = \<lparr>cb_block = \<lparr>block_id = i, block_hash = 0\<rparr>, cb_size = n\<rparr>"

definition demo_cache :: kv_state where
  "demo_cache = put_blocks BT_KV [demo_block 7 4, demo_block 2 4] new_kv_state"

lemma demo_cache_blocks: "kv_blocks demo_cache BT_KV = [demo_block 7 4, demo_block 2 4]"
  by (simp add: demo_cache_def)

lemma cache_slots_exact_witness: "cache_slots demo_cache BT_KV 2 6 = Some [30, 31, 8, 9]"
proof -
  have slots: "map (position_slot 4 [demo_block 7 4, demo_block 2 4]) [2..<6] = [30, 31, 8, 9]" by code_simp
  have "sized_blocks 4 (kv_blocks demo_cache BT_KV)"
    by (simp add: demo_cache_blocks sized_blocks_def demo_block_def cb_valid_def is_valid_def)
  moreover have "kv_blocks demo_cache BT_KV \<noteq> []" "6 \<le> length (kv_blocks demo_cache BT_KV) * 4"
    "\<forall>b \<in> set (kv_blocks demo_cache BT_KV). (block_id (cb_block b) + 1) * int 4 \<le> 2 ^ 31"
    by (simp_all add: demo_cache_blocks demo_block_def)
  ultimately show ?thesis
    using cache_slots_exact [of 4 demo_cache BT_KV 6 2] slots unfolding demo_cache_blocks by simp
qed

lemma prefix_hit_mounts:
  assumes "sized_blocks n matched" "0 < n" "length (kv_blocks s t) < length matched" "length matched * n \<le> all_tokens"
    and "block_sizes s t = None \<or> block_sizes s t = Some n"
  shows "\<exists>d s'. add_shared_blocks t matched all_tokens s = Some (d, s')
    \<and> kv_blocks s' t = take ((all_tokens - 1) div n) matched
    \<and> shared_blocks_num s' t = length (kv_blocks s' t) \<and> num_cached_blocks s' t = length (kv_blocks s' t)
    \<and> kv_tokens s' = length (kv_blocks s' t) * n \<and> kv_tokens s' < all_tokens
    \<and> mset d = mset (kv_blocks s t) + mset (drop ((all_tokens - 1) div n) matched)"
proof -
  have ne: "matched \<noteq> []" "0 < length matched" using assms(3) by auto
  obtain r where r: "remember_block_size t matched s = Some r" "kv_blocks r = kv_blocks s"
  proof (cases "find cb_valid matched")
    case None
    then show ?thesis using that [of s] by (simp add: remember_block_size_def)
  next
    case (Some b)
    then have "cb_size b = n" using assms(1) by (auto simp: find_Some_iff sized_blocks_def)
    then show ?thesis using that Some assms(5) by (auto simp: remember_block_size_def)
  qed
  have size0: "cb_size (matched ! 0) = n" using assms(1) ne by (simp add: sized_blocks_def)
  have pos: "0 < all_tokens" using assms(2,4) ne by (metis gr0I mult_is_0 not_gr_zero le_zero_eq less_not_refl)
  show ?thesis
  proof (cases "length matched * n = all_tokens")
    case True
    have k: "(all_tokens - 1) div n = length matched - 1"
    proof -
      have eq: "all_tokens - 1 = (n - 1) + (length matched - 1) * n"
        using True ne(2) assms(2) by (cases "length matched") (simp_all add: True [symmetric])
      show ?thesis unfolding eq
        using div_mult_self1 [of n "n - 1" "length matched - 1"] assms(2) by simp
    qed
    have "(length matched - 1) * n < all_tokens" using True ne(2) assms(2) by (simp flip: True)
    moreover have "drop (length matched - 1) matched = [last matched]"
      by (metis append_butlast_last_id append_eq_conv_conj length_butlast ne(1))
    ultimately show ?thesis using ne r size0 True assms(2,3) k
      by (simp add: add_shared_blocks_def Let_def shared_blocks_num_def num_cached_blocks_def butlast_conv_take)
  next
    case False
    then have less: "length matched * n < all_tokens" using assms(4) by simp
    then have "length matched * n \<le> all_tokens - 1" by simp
    then have "length matched \<le> (all_tokens - 1) div n" using assms(2) by (simp add: less_eq_div_iff_mult_less_eq)
    then show ?thesis using ne r size0 False less assms(2,3)
      by (simp add: add_shared_blocks_def Let_def shared_blocks_num_def num_cached_blocks_def)
  qed
qed

text \<open>C32.  Mounting a prefix hit.  When the blocks that the prefix cache returns are more than the sequence holds and lie within
  its tokens, \<open>add_shared_blocks\<close> mounts as many of them as leave at least one token to compute, counts them all as shared and
  as cached, sets the number of computed tokens to exactly what they hold, and hands back the others and the blocks the
  sequence held before.\<close>

theorem prefix_hit_resumes:
  assumes "sized_blocks n matched" "0 < n" "length (kv_blocks s t) < length matched" "length matched * n \<le> all_tokens"
    and "block_sizes s t = None \<or> block_sizes s t = Some n"
  shows "\<exists>d s'. add_shared_blocks t matched all_tokens s = Some (d, s')
    \<and> kv_blocks s' t = take ((all_tokens - 1) div n) matched
    \<and> shared_blocks_num s' t = length (kv_blocks s' t) \<and> num_cached_blocks s' t = length (kv_blocks s' t)
    \<and> kv_tokens s' = length (kv_blocks s' t) * n \<and> kv_tokens s' < all_tokens
    \<and> mset d = mset (kv_blocks s t) + mset (drop ((all_tokens - 1) div n) matched)"
  by (rule prefix_hit_mounts [OF assms])

lemma prefix_hit_resumes_witness:
  "\<exists>d s'. add_shared_blocks BT_KV [demo_block 7 4, demo_block 2 4] 8 new_kv_state = Some (d, s')
     \<and> kv_blocks s' BT_KV = [demo_block 7 4] \<and> kv_tokens s' = 4"
proof -
  have "sized_blocks 4 [demo_block 7 4, demo_block 2 4]"
    by (simp add: sized_blocks_def demo_block_def cb_valid_def is_valid_def)
  then show ?thesis
    using prefix_hit_resumes [of 4 "[demo_block 7 4, demo_block 2 4]" new_kv_state BT_KV 8]
    by (fastforce simp: new_kv_state_def kv_blocks_def)
qed


text \<open>When a \<open>CHECK\<close> of an operation holds, in a state of the invariant.\<close>

fun op_fits :: "(block_type \<Rightarrow> nat) \<Rightarrow> kv_op \<Rightarrow> kv_state \<Rightarrow> bool" where
  "op_fits sz (Op_Add_Shared t bs n) s \<longleftrightarrow>
     length bs \<le> length (kv_blocks s t) \<or> length bs * sz t \<le> n"
| "op_fits sz (Op_Mount t bs) s \<longleftrightarrow> bs = [] \<or> kv_blocks s t = []"
| "op_fits sz (Op_Replace t bs n c) s \<longleftrightarrow> n \<le> length bs \<and> c \<le> length bs"
| "op_fits sz (Op_Incr n) s \<longleftrightarrow> kv_tokens s + n \<le> the (current_max_tokens_capacity s)"
| "op_fits sz (Op_Incr_Up_To n) s \<longleftrightarrow> max (kv_tokens s) n \<le> the (current_max_tokens_capacity s)"
| "op_fits sz (Op_Incr_Shared t n) s \<longleftrightarrow> shared_blocks_num s t + n \<le> length (kv_blocks s t)"
| "op_fits sz (Op_Set_Shared t n) s \<longleftrightarrow> n \<le> length (kv_blocks s t)"
| "op_fits sz _ s \<longleftrightarrow> True"

lemma group_capacity_total:
  "kv_ok sz s \<Longrightarrow> set ts \<subseteq> set token_types \<Longrightarrow> group_capacity s ts c \<noteq> None"
  by (induction ts arbitrary: c) (auto simp: kv_ok_def Let_def split: option.splits)

lemma capacity_total: "kv_ok sz s \<Longrightarrow> current_max_tokens_capacity s \<noteq> None"
  using group_capacity_total [of sz s "[BT_C1, BT_C2, BT_C4, BT_C128]" 0]
  by (auto simp: current_max_tokens_capacity_def kv_ok_def token_types_def split: if_splits)

lemma capacity_kv: "kv_ok sz s \<Longrightarrow> kv_blocks s BT_KV \<noteq> [] \<Longrightarrow>
    current_max_tokens_capacity s = Some (length (kv_blocks s BT_KV) * sz BT_KV)"
  by (simp add: current_max_tokens_capacity_def kv_ok_def token_types_def)

lemma add_shared_fits:
  assumes "kv_ok sz s" "t \<in> set token_types" "blocks_fit sz t bs" "0 < sz t"
  shows "add_shared_blocks t bs n s \<noteq> None \<longleftrightarrow> length bs \<le> length (kv_blocks s t) \<or> length bs * sz t \<le> n"
proof (cases "bs = []")
  case True
  then show ?thesis by (simp add: add_shared_blocks_def)
next
  case False
  have valid: "sized_blocks (sz t) bs" using assms(2,3) by (auto simp: sized_blocks_def blocks_fit_def)
  obtain r where r: "remember_block_size t bs s = Some r" using remember_fits [OF assms(1,3)] by blast
  have kr: "kv_blocks r = kv_blocks s" using remember_frame [OF r] by blast
  show ?thesis
  proof (cases "length bs \<le> length (kv_blocks s t)")
    case True
    then show ?thesis using False r kr
      by (auto simp: add_shared_blocks_def try_replace_unique_blocks_def Let_def split: option.splits prod.splits if_splits)
  next
    case longer: False
    have "block_sizes s t = None \<or> block_sizes s t = Some (sz t)" using assms(1) by (simp add: kv_ok_def)
    then have "add_shared_blocks t bs n s \<noteq> None" if "length bs * sz t \<le> n"
      using prefix_hit_mounts [OF valid assms(4) _ that, of s t] longer by auto
    moreover have "cb_size (bs ! 0) = sz t" using valid False by (simp add: sized_blocks_def)
    then have "add_shared_blocks t bs n s = None" if "\<not> length bs * sz t \<le> n"
      using that False longer r kr by (auto simp: add_shared_blocks_def Let_def)
    ultimately show ?thesis using longer by (cases "length bs * sz t \<le> n") simp_all
  qed
qed

lemma kv_apply_total:
  assumes "kv_ok sz s" "op_ok sz p" "\<forall>t. 0 < sz t"
  shows "kv_apply p s \<noteq> None \<longleftrightarrow> op_fits sz p s"
proof -
  have mem: "\<exists>r. remember_block_size t bs s = Some r \<and> kv_blocks r = kv_blocks s" if "blocks_fit sz t bs" for t bs
    using remember_fits [OF assms(1) that] remember_frame by blast
  obtain c where c: "current_max_tokens_capacity s = Some c" using capacity_total [OF assms(1)] by blast
  show ?thesis
  proof (cases p)
    case (Op_Add t bs)
    then show ?thesis using mem [of t bs] assms(2) by (auto simp: add_blocks_def)
  next
    case (Op_Add_Shared t bs n)
    then show ?thesis using add_shared_fits [OF assms(1)] assms(2,3) by simp
  next
    case (Op_Mount t bs)
    then show ?thesis using mem [of t bs] assms(2) by (auto simp: mount_composite_shared_def split: if_splits)
  next
    case (Op_Replace t bs n c)
    then show ?thesis using mem [of t bs] assms(2) by (auto simp: replace_composite_blocks_def)
  qed (use assms(2) c in \<open>auto simp: incr_kv_cache_tokens_num_def incr_kv_cache_tokens_num_up_to_def
      incr_shared_blocks_num_def set_shared_blocks_num_def\<close>)
qed



end
