(* ===== verification/Prefix_Trim.thy ===== *)
theory Prefix_Trim imports Sequence_Cache begin

text \<open>
  How far a prompt is restored from the prefix cache when a model keeps several caches
  (\<open>core/framework/block/composite_block_manager.{h,cpp}\<close>): each cache is probed by itself, and the probes are
  trimmed to a boundary from which all caches together can go on.
\<close>

section \<open>Probes\<close>

text \<open>The blocks that one leaf returned, the size of its blocks and the length of its window.\<close>

record probe_result =
  pr_type :: block_type
  pr_blocks :: "cache_block list"
  pr_block_size :: nat
  pr_window :: nat

record trim_outcome =
  to_mount :: "probe_result list"
  to_drop :: "probe_result list"
  safe_hit_tokens :: nat

definition no_trim :: trim_outcome where
  "no_trim = \<lparr>to_mount = [], to_drop = [], safe_hit_tokens = 0\<rparr>"

fun take_probe :: "block_type \<Rightarrow> probe_result list \<Rightarrow> probe_result option \<times> probe_result list" where
  "take_probe t [] = (None, [])"
| "take_probe t (p # ps) =
    (if pr_type p = t then (Some p, ps) else let (r, ps') = take_probe t ps in (r, p # ps'))"

text \<open>A probe cut to its first blocks, and the part that is cut off.\<close>

definition cut_probe :: "nat \<Rightarrow> probe_result \<Rightarrow> probe_result" where
  "cut_probe n p = p\<lparr>pr_blocks := take n (pr_blocks p)\<rparr>"

definition rest_probe :: "nat \<Rightarrow> probe_result \<Rightarrow> probe_result" where
  "rest_probe n p = p\<lparr>pr_blocks := drop n (pr_blocks p)\<rparr>"

section \<open>One cache, and one cache with recurrent states\<close>

definition trim_flat_kv :: "probe_result list \<Rightarrow> trim_outcome option" where
  "trim_flat_kv probes = (if length probes = 1 then Some (no_trim\<lparr>to_mount := probes\<rparr>) else None)"

definition checkpoint_at :: "probe_result \<Rightarrow> nat \<Rightarrow> bool" where
  "checkpoint_at linear tokens \<longleftrightarrow>
     tokens mod pr_block_size linear = 0
   \<and> (let i = tokens div pr_block_size linear - 1 in
      i < length (pr_blocks linear) \<and> cb_valid (pr_blocks linear ! i))"

fun linear_boundary :: "nat \<Rightarrow> probe_result \<Rightarrow> nat \<Rightarrow> nat" where
  "linear_boundary kv_size linear 0 = 0"
| "linear_boundary kv_size linear (Suc n) =
    (if checkpoint_at linear (Suc n * kv_size) then Suc n else linear_boundary kv_size linear n)"

definition moved_from :: cache_block where
  "moved_from = \<lparr>cb_block = invalid_block, cb_size = 0\<rparr>"

definition trim_flat_kv_linear :: "probe_result list \<Rightarrow> trim_outcome option" where
  "trim_flat_kv_linear probes0 =
    (case take_probe BT_LINEAR probes0 of
       (linear, [kv]) \<Rightarrow>
         (let kv_size = pr_block_size kv;
              safe_count =
                (case linear of
                   Some l \<Rightarrow>
                     if 0 < kv_size \<and> 0 < pr_block_size l
                     then linear_boundary kv_size l
                            (min (length (pr_blocks kv)) (length (pr_blocks l) * pr_block_size l div kv_size))
                     else 0
                 | None \<Rightarrow> 0);
              dropped = (if safe_count < length (pr_blocks kv) then [rest_probe safe_count kv] else []);
              kv' = (if safe_count < length (pr_blocks kv) then cut_probe safe_count kv else kv);
              safe = safe_count * kv_size in
          case linear of
            None \<Rightarrow> Some \<lparr>to_mount = [kv'], to_drop = dropped, safe_hit_tokens = safe\<rparr>
          | Some l \<Rightarrow>
              if 0 < safe
              then let i = safe div pr_block_size l - 1 in
                Some \<lparr>to_mount = [kv', l\<lparr>pr_blocks := [pr_blocks l ! i]\<rparr>],
                      to_drop = dropped @ [l\<lparr>pr_blocks := (pr_blocks l)[i := moved_from]\<rparr>], safe_hit_tokens = safe\<rparr>
              else Some \<lparr>to_mount = [kv'], to_drop = dropped @ [l], safe_hit_tokens = safe\<rparr>)
     | _ \<Rightarrow> None)"

section \<open>Compressed caches with a sliding window\<close>

fun cache_unit_size :: "probe_result list \<Rightarrow> nat" where
  "cache_unit_size [] = 0"
| "cache_unit_size (p # ps) =
    (if pr_type p \<noteq> BT_SWA then max (pr_block_size p) (cache_unit_size ps) else cache_unit_size ps)"

definition has_token_groups :: "probe_result list \<Rightarrow> bool" where
  "has_token_groups ps = list_ex (\<lambda>p. pr_type p = BT_C1 \<or> pr_type p = BT_C2) ps"

fun least_reach :: "nat \<Rightarrow> probe_result list \<Rightarrow> nat" where
  "least_reach n [] = n"
| "least_reach n (p # ps) = least_reach (min n (length (pr_blocks p) * pr_block_size p)) ps"

definition round_down :: "nat \<Rightarrow> nat \<Rightarrow> nat" where
  "round_down unit n = n div unit * unit"

text \<open>The window in front of a boundary of \<open>n\<close> tokens is there as a whole.\<close>

definition window_ok :: "bool \<Rightarrow> probe_result \<Rightarrow> nat \<Rightarrow> bool" where
  "window_ok token_groups swa n =
    (let trimmed_len = n div pr_block_size swa;
         tail_required = (if token_groups then min trimmed_len (pr_window swa) else pr_window swa) in
     tail_required \<le> trimmed_len
     \<and> list_all (\<lambda>i. i < length (pr_blocks swa) \<and> cb_valid (pr_blocks swa ! i)) [trimmed_len - tail_required..<trimmed_len])"

function window_boundary :: "nat \<Rightarrow> bool \<Rightarrow> probe_result \<Rightarrow> nat \<Rightarrow> nat" where
  "window_boundary unit token_groups swa safe =
    (if unit = 0 \<or> safe < unit \<or> window_ok token_groups swa safe then safe
     else window_boundary unit token_groups swa (safe - unit))"
  by auto
termination by (relation "measure (\<lambda>(unit, token_groups, swa, safe). safe)") auto

declare window_boundary.simps [simp del]

definition swa_clamp :: "nat \<Rightarrow> probe_result list \<Rightarrow> nat \<Rightarrow> nat" where
  "swa_clamp unit probes safe =
    (case find (\<lambda>p. pr_type p = BT_SWA) probes of
       None \<Rightarrow> safe
     | Some swa \<Rightarrow>
         if 0 < safe \<and> 0 < pr_block_size swa \<and> 0 < pr_window swa
         then let safe' = window_boundary unit (has_token_groups probes) swa safe in
           (if safe' < unit then 0 else safe')
         else safe)"

definition trim_swa_compressed :: "probe_result list \<Rightarrow> nat \<Rightarrow> trim_outcome option" where
  "trim_swa_compressed probes max_prefix_tokens =
    (let unit = cache_unit_size probes in
     if unit = 0 then None
     else
       let reach = round_down unit (least_reach (2 ^ 64 - 1) probes);
           safe = swa_clamp unit probes (round_down unit (min reach max_prefix_tokens)) in
       if safe = 0 then Some (no_trim\<lparr>to_drop := probes\<rparr>)
       else Some \<lparr>to_mount = map (\<lambda>p. cut_probe (safe div pr_block_size p) p) probes,
              to_drop = map (\<lambda>p. rest_probe (safe div pr_block_size p) p)
                (filter (\<lambda>p. safe div pr_block_size p < length (pr_blocks p)) probes),
              safe_hit_tokens = safe\<rparr>)"

section \<open>Which shape a manager has\<close>

datatype leaf_combination = FLAT_KV | FLAT_KV_LINEAR | SWA_COMPRESSED | UNSUPPORTED

record leaf_entry =
  participates_in_admission :: bool
  supports_prefix_cache :: bool

definition classify_leaf_combination :: "(block_type \<Rightarrow> leaf_entry option) \<Rightarrow> leaf_combination option" where
  "classify_leaf_combination leaves =
    (let has = (\<lambda>t. case leaves t of None \<Rightarrow> False | Some e \<Rightarrow> supports_prefix_cache e) in
     if has BT_C4 \<or> has BT_C128
     then (if has BT_C4 \<and> has BT_C128 \<and> \<not> has BT_KV \<and> \<not> has BT_LINEAR \<and> \<not> has BT_C1 \<and> \<not> has BT_C2
           then Some SWA_COMPRESSED else None)
     else if has BT_C1 \<or> has BT_C2
     then (if has BT_SWA \<and> \<not> has BT_KV \<and> \<not> has BT_LINEAR then Some SWA_COMPRESSED else None)
     else if has BT_SWA then None
     else if has BT_KV then Some (if has BT_LINEAR then FLAT_KV_LINEAR else FLAT_KV)
     else Some UNSUPPORTED)"

definition leaf_participates_in_prefix_cache :: "block_type \<Rightarrow> bool \<Rightarrow> bool" where
  "leaf_participates_in_prefix_cache t instance_is_decode =
    (case t of
       BT_KV \<Rightarrow> True | BT_C4 \<Rightarrow> True | BT_C128 \<Rightarrow> True
     | BT_SWA \<Rightarrow> \<not> instance_is_decode | BT_LINEAR \<Rightarrow> \<not> instance_is_decode
     | BT_EMBEDDING \<Rightarrow> False
     | BT_C1 \<Rightarrow> \<not> instance_is_decode | BT_C2 \<Rightarrow> \<not> instance_is_decode)"

definition block_type_from_compress_ratio :: "nat \<Rightarrow> block_type" where
  "block_type_from_compress_ratio ratio =
    (if ratio = 1 then BT_C1 else if ratio = 2 then BT_C2 else if ratio = 4 then BT_C4 else BT_C128)"

section \<open>Greatest boundaries\<close>

text \<open>\<open>r\<close> is the greatest positive number up to \<open>bound\<close> with the property, or 0 when there is none.\<close>

definition greatest_or_0 :: "(nat \<Rightarrow> bool) \<Rightarrow> nat \<Rightarrow> bool" where
  "greatest_or_0 P r \<longleftrightarrow> (r = 0 \<or> P r) \<and> (\<forall>n. P n \<longrightarrow> n \<le> r)"

lemma linear_boundary_greatest:
  "linear_boundary k l m \<le> m
   \<and> (linear_boundary k l m = 0 \<or> checkpoint_at l (linear_boundary k l m * k))
   \<and> (\<forall>n. n \<le> m \<and> checkpoint_at l (n * k) \<longrightarrow> n \<le> linear_boundary k l m)"
proof (induction m)
  case (Suc m)
  then show ?case by (cases "checkpoint_at l (Suc m * k)") (auto simp: le_Suc_eq)
qed simp

lemma window_boundary_greatest:
  assumes "0 < unit" "unit dvd safe"
  shows "unit dvd window_boundary unit g w safe \<and> window_boundary unit g w safe \<le> safe
    \<and> (window_boundary unit g w safe < unit \<or> window_ok g w (window_boundary unit g w safe))
    \<and> (\<forall>n. unit dvd n \<and> n \<le> safe \<and> window_ok g w n \<longrightarrow> n \<le> window_boundary unit g w safe)"
  using assms
proof (induction unit g w safe rule: window_boundary.induct)
  case (1 unit g w safe)
  show ?case
  proof (cases "safe < unit \<or> window_ok g w safe")
    case True
    then show ?thesis using 1(2,3) by (subst (1 2 3 4 5) window_boundary.simps) auto
  next
    case False
    then have step: "window_boundary unit g w safe = window_boundary unit g w (safe - unit)"
      using 1(2) by (subst window_boundary.simps) simp
    have "unit dvd safe - unit" using 1(3) by (simp add: dvd_diff_nat)
    note IH = 1(1) [OF _ 1(2) this]
    have cond: "\<not> (unit = 0 \<or> safe < unit \<or> window_ok g w safe)" using False 1(2) by simp
    have "n \<le> safe - unit" if "unit dvd n" "n \<le> safe" "window_ok g w n" for n
    proof -
      note n = that
      have "n \<noteq> safe" using n(3) False by blast
      then have "n < safe" using n(2) by simp
      obtain a where "n = unit * a" using n(1) by (rule dvdE)
      moreover obtain b where "safe = unit * b" using 1(3) by (rule dvdE)
      ultimately have "n = unit * a" "safe = unit * b" .
      then have "a < b" using \<open>n < safe\<close> by simp
      then have "a \<le> b - 1" by simp
      then have "unit * a \<le> unit * (b - 1)" by (rule mult_le_mono2)
      then show ?thesis using \<open>n = unit * a\<close> \<open>safe = unit * b\<close> by (simp add: diff_mult_distrib2)
    qed
    then show ?thesis using IH [OF cond] unfolding step by (meson diff_le_self le_trans)
  qed
qed

lemma least_reach_le: "n \<le> least_reach m ps \<longleftrightarrow> n \<le> m \<and> (\<forall>p \<in> set ps. n \<le> length (pr_blocks p) * pr_block_size p)"
  by (induction ps arbitrary: m) auto

lemma round_down_le: "0 < unit \<Longrightarrow> unit dvd n \<Longrightarrow> n \<le> round_down unit m \<longleftrightarrow> n \<le> m"
proof -
  assume a: "0 < unit" "unit dvd n"
  then obtain k where n: "n = k * unit" by (auto elim!: dvdE simp: mult.commute)
  have "n \<le> m \<longleftrightarrow> k \<le> m div unit" using a(1) by (simp add: n less_eq_div_iff_mult_less_eq)
  then show ?thesis using a(1) by (simp add: round_down_def n)
qed

lemma round_down_dvd [simp]: "unit dvd round_down unit n"
  by (simp add: round_down_def)

section \<open>Properties\<close>

text \<open>Blocks of a list of probes.\<close>

definition probe_blocks :: "probe_result list \<Rightarrow> cache_block multiset" where
  "probe_blocks ps = mset (concat (map pr_blocks ps))"

lemma cut_rest_blocks:
  "probe_blocks (map (\<lambda>p. cut_probe (f p) p) ps) + probe_blocks (map (\<lambda>p. rest_probe (f p) p) (filter (\<lambda>p. f p < length (pr_blocks p)) ps))
     = probe_blocks ps"
proof (induction ps)
  case (Cons p ps)
  have "mset (take (f p) (pr_blocks p)) + mset (drop (f p) (pr_blocks p)) = mset (pr_blocks p)"
    by (metis append_take_drop_id mset_append)
  then show ?case using Cons by (auto simp: probe_blocks_def cut_probe_def rest_probe_def ac_simps)
qed (simp add: probe_blocks_def)

text \<open>The blocks that the window in front of a boundary of \<open>n\<close> tokens looks at are all cached; caches with token
  groups may go on before the first window is full, the others not.\<close>

definition window_cached :: "bool \<Rightarrow> probe_result \<Rightarrow> nat \<Rightarrow> bool" where
  "window_cached token_groups swa n \<longleftrightarrow>
     (token_groups \<or> pr_window swa * pr_block_size swa \<le> n)
   \<and> (\<forall>i. i < n div pr_block_size swa \<and> n div pr_block_size swa \<le> i + pr_window swa
        \<longrightarrow> i < length (pr_blocks swa) \<and> cb_valid (pr_blocks swa ! i))"

lemma window_ok_iff: "0 < pr_block_size swa \<Longrightarrow> window_ok g swa n \<longleftrightarrow> window_cached g swa n"
proof -
  assume pos: "0 < pr_block_size swa"
  have "pr_window swa \<le> n div pr_block_size swa \<longleftrightarrow> pr_window swa * pr_block_size swa \<le> n"
    using pos by (rule less_eq_div_iff_mult_less_eq)
  then show ?thesis by (auto simp: window_ok_def window_cached_def Let_def list_all_iff min_def)
qed

text \<open>A boundary from which all caches can go on.\<close>

definition boundary_ok :: "probe_result list \<Rightarrow> nat \<Rightarrow> nat \<Rightarrow> bool" where
  "boundary_ok ps max_prefix n \<longleftrightarrow>
     cache_unit_size ps dvd n \<and> n \<le> max_prefix \<and> (\<forall>p \<in> set ps. n \<le> length (pr_blocks p) * pr_block_size p)
   \<and> (\<forall>p \<in> set ps. pr_type p = BT_SWA \<longrightarrow> window_cached (has_token_groups ps) p n)"

lemma swa_clamp_greatest:
  assumes "0 < unit" "unit dvd safe" "distinct (map pr_type ps)"
    and "\<forall>p \<in> set ps. pr_type p = BT_SWA \<longrightarrow> 0 < pr_block_size p \<and> 0 < pr_window p"
  shows "greatest_or_0 (\<lambda>n. unit dvd n \<and> n \<le> safe \<and> (\<forall>p \<in> set ps. pr_type p = BT_SWA \<longrightarrow> window_cached (has_token_groups ps) p n))
    (swa_clamp unit ps safe)"
proof (cases "find (\<lambda>p. pr_type p = BT_SWA) ps")
  case None
  then have "\<forall>p \<in> set ps. pr_type p \<noteq> BT_SWA" by (simp add: find_None_iff)
  then show ?thesis using assms(2) None by (simp add: swa_clamp_def greatest_or_0_def)
next
  case (Some w)
  then have w: "w \<in> set ps" "pr_type w = BT_SWA" by (auto simp: find_Some_iff)
  have only: "(\<forall>p \<in> set ps. pr_type p = BT_SWA \<longrightarrow> window_cached g p n) \<longleftrightarrow> window_ok g w n" for g n
    using w assms(3,4) by (auto simp: distinct_map inj_on_def window_ok_iff)
  note b = window_boundary_greatest [OF assms(1,2), of "has_token_groups ps" w]
  show ?thesis unfolding only
    using Some b assms(4) w by (auto simp: swa_clamp_def greatest_or_0_def Let_def not_less)
qed


lemma trim_swa_cases:
  assumes "0 < cache_unit_size ps"
  obtains out safe where "trim_swa_compressed ps m = Some out" "safe_hit_tokens out = safe"
    "safe = swa_clamp (cache_unit_size ps) ps
       (round_down (cache_unit_size ps) (min (round_down (cache_unit_size ps) (least_reach (2 ^ 64 - 1) ps)) m))"
    "to_mount out = (if safe = 0 then [] else map (\<lambda>p. cut_probe (safe div pr_block_size p) p) ps)"
    "probe_blocks (to_mount out) + probe_blocks (to_drop out) = probe_blocks ps"
proof -
  define safe where "safe = swa_clamp (cache_unit_size ps) ps
       (round_down (cache_unit_size ps) (min (round_down (cache_unit_size ps) (least_reach (2 ^ 64 - 1) ps)) m))"
  show thesis
  proof (cases "safe = 0")
    case True
    then show ?thesis using assms
      by (intro that [of "no_trim\<lparr>to_drop := ps\<rparr>" safe]) (simp_all add: trim_swa_compressed_def Let_def safe_def no_trim_def probe_blocks_def)
  next
    case False
    let ?out = "\<lparr>to_mount = map (\<lambda>p. cut_probe (safe div pr_block_size p) p) ps,
              to_drop = map (\<lambda>p. rest_probe (safe div pr_block_size p) p)
                (filter (\<lambda>p. safe div pr_block_size p < length (pr_blocks p)) ps), safe_hit_tokens = safe\<rparr>"
    show ?thesis using assms False cut_rest_blocks [of "\<lambda>p. safe div pr_block_size p" ps]
      by (intro that [of ?out safe]) (simp_all add: trim_swa_compressed_def Let_def safe_def)
  qed
qed

text \<open>C39.  Caches that are restored together stop at the deepest boundary from which all of them can go on.  The boundary is a
  whole number of the largest blocks, is not beyond the allowed prefix nor beyond what any cache has, and the sliding window in
  front of it is complete; \<open>trim_swa_compressed\<close> finds the greatest such boundary (or 0), mounts of each cache exactly the
  blocks up to it, and drops all others.\<close>

theorem restored_prefix_greatest:
  assumes "0 < cache_unit_size ps" "distinct (map pr_type ps)"
    and "\<forall>p \<in> set ps. pr_type p = BT_SWA \<longrightarrow> 0 < pr_block_size p \<and> 0 < pr_window p" "max_prefix < 2 ^ 64"
  shows "\<exists>out. trim_swa_compressed ps max_prefix = Some out
    \<and> greatest_or_0 (boundary_ok ps max_prefix) (safe_hit_tokens out)
    \<and> to_mount out = (if safe_hit_tokens out = 0 then []
          else map (\<lambda>p. cut_probe (safe_hit_tokens out div pr_block_size p) p) ps)
    \<and> probe_blocks (to_mount out) + probe_blocks (to_drop out) = probe_blocks ps"
proof -
  let ?unit = "cache_unit_size ps"
  let ?start = "round_down ?unit (min (round_down ?unit (least_reach (2 ^ 64 - 1) ps)) max_prefix)"
  have start: "?unit dvd n \<and> n \<le> ?start \<longleftrightarrow>
      ?unit dvd n \<and> n \<le> max_prefix \<and> (\<forall>p \<in> set ps. n \<le> length (pr_blocks p) * pr_block_size p)" for n
    using assms(4) by (auto simp: round_down_le [OF assms(1)] least_reach_le)
  have "(\<lambda>n. ?unit dvd n \<and> n \<le> ?start \<and> (\<forall>p \<in> set ps. pr_type p = BT_SWA \<longrightarrow> window_cached (has_token_groups ps) p n))
      = boundary_ok ps max_prefix"
  proof (rule ext)
    show "(?unit dvd n \<and> n \<le> ?start \<and> (\<forall>p \<in> set ps. pr_type p = BT_SWA \<longrightarrow> window_cached (has_token_groups ps) p n))
      = boundary_ok ps max_prefix n" for n
      using start [of n] unfolding boundary_ok_def by blast
  qed
  then have "greatest_or_0 (boundary_ok ps max_prefix) (swa_clamp ?unit ps ?start)"
    using swa_clamp_greatest [OF assms(1) round_down_dvd assms(2,3), of "min (round_down ?unit (least_reach (2 ^ 64 - 1) ps)) max_prefix"]
    by (simp only:)
  moreover obtain out safe where "trim_swa_compressed ps max_prefix = Some out" "safe_hit_tokens out = safe"
    "safe = swa_clamp ?unit ps ?start"
    "to_mount out = (if safe = 0 then [] else map (\<lambda>p. cut_probe (safe div pr_block_size p) p) ps)"
    "probe_blocks (to_mount out) + probe_blocks (to_drop out) = probe_blocks ps"
    by (rule trim_swa_cases [OF assms(1)])
  ultimately show ?thesis by (intro exI [of _ out]) (simp only:)
qed

definition demo_cb :: "int \<Rightarrow> cache_block" where
  "demo_cb i = \<lparr>cb_block = \<lparr>block_id = i, block_hash = 0\<rparr>, cb_size = 4\<rparr>"

text \<open>Three compressed units of 8 tokens are cached, but the second block of the window in front of the third is not.\<close>

definition demo_probes :: "probe_result list" where
  "demo_probes =
    [\<lparr>pr_type = BT_SWA, pr_blocks = [moved_from, moved_from, demo_cb 3, demo_cb 4, demo_cb 5, moved_from], pr_block_size = 4, pr_window = 2\<rparr>,
     \<lparr>pr_type = BT_C4, pr_blocks = map demo_cb [7, 8, 9], pr_block_size = 8, pr_window = 0\<rparr>]"

lemma restored_prefix_greatest_witness:
  "\<exists>out. trim_swa_compressed demo_probes 100 = Some out \<and> safe_hit_tokens out = 16
    \<and> greatest_or_0 (boundary_ok demo_probes 100) 16"
proof -
  have parts: "0 < cache_unit_size demo_probes" "distinct (map pr_type demo_probes)"
    "\<forall>p \<in> set demo_probes. pr_type p = BT_SWA \<longrightarrow> 0 < pr_block_size p \<and> 0 < pr_window p"
    by code_simp+
  have "cache_unit_size demo_probes = 8" by code_simp
  moreover have "least_reach (2 ^ 64 - 1) demo_probes = 24" by (simp add: demo_probes_def)
  moreover have "swa_clamp 8 demo_probes 24 = 16" by code_simp
  ultimately have "map_option safe_hit_tokens (trim_swa_compressed demo_probes 100) = Some 16"
    by (simp add: trim_swa_compressed_def round_down_def)
  then show ?thesis using restored_prefix_greatest [OF parts, of 100] by auto
qed

text \<open>With recurrent states the prefix ends at the deepest block boundary that has a checkpoint of the state, and that checkpoint
  alone is mounted with it.\<close>

theorem linear_prefix_greatest:
  assumes "pr_type kv \<noteq> BT_LINEAR" "pr_type l = BT_LINEAR" "0 < pr_block_size kv" "0 < pr_block_size l"
  shows "\<exists>out safe. trim_flat_kv_linear [kv, l] = Some out \<and> safe_hit_tokens out = safe * pr_block_size kv
    \<and> greatest_or_0 (\<lambda>n. n \<le> length (pr_blocks kv) \<and> checkpoint_at l (n * pr_block_size kv)) safe
    \<and> (0 < safe \<longrightarrow> map pr_blocks (to_mount out) =
         [take safe (pr_blocks kv), [pr_blocks l ! (safe * pr_block_size kv div pr_block_size l - 1)]])
    \<and> (safe = 0 \<longrightarrow> map pr_blocks (to_mount out) = [[]])"
proof -
  define k where "k = pr_block_size kv"
  define lb where "lb = pr_block_size l"
  define safe where "safe = linear_boundary k l (min (length (pr_blocks kv)) (length (pr_blocks l) * lb div k))"
  have pos: "0 < k" "0 < lb" using assms(3,4) by (simp_all add: k_def lb_def)
  note b = linear_boundary_greatest [of k l "min (length (pr_blocks kv)) (length (pr_blocks l) * lb div k)", folded safe_def]
  have reach: "n \<le> length (pr_blocks l) * lb div k" if "checkpoint_at l (n * k)" for n
  proof -
    have dvd: "lb dvd n * k" and len: "n * k div lb - 1 < length (pr_blocks l)"
      using that by (auto simp: checkpoint_at_def Let_def lb_def)
    have "n * k = n * k div lb * lb" using dvd by simp
    moreover have "n * k div lb \<le> length (pr_blocks l)" using len by linarith
    ultimately have "n * k \<le> length (pr_blocks l) * lb" by (metis mult_le_mono1)
    then show ?thesis using pos(1) by (simp add: less_eq_div_iff_mult_less_eq)
  qed
  have greatest: "greatest_or_0 (\<lambda>n. n \<le> length (pr_blocks kv) \<and> checkpoint_at l (n * k)) safe"
    using b reach unfolding greatest_or_0_def by (meson le_trans min.boundedI min.cobounded1)
  have le: "safe \<le> length (pr_blocks kv)" using b by simp
  have taken: "take_probe BT_LINEAR [kv, l] = (Some l, [kv])" using assms(1,2) by simp
  define kv' where "kv' = (if safe < length (pr_blocks kv) then cut_probe safe kv else kv)"
  define dropped where "dropped = (if safe < length (pr_blocks kv) then [rest_probe safe kv] else [])"
  have cut: "pr_blocks kv' = take safe (pr_blocks kv)" using le by (auto simp: cut_probe_def kv'_def)
  have trim: "trim_flat_kv_linear [kv, l] =
      (if 0 < safe * k
       then Some \<lparr>to_mount = [kv', l\<lparr>pr_blocks := [pr_blocks l ! (safe * k div lb - 1)]\<rparr>],
          to_drop = dropped @ [l\<lparr>pr_blocks := (pr_blocks l)[safe * k div lb - 1 := moved_from]\<rparr>], safe_hit_tokens = safe * k\<rparr>
       else Some \<lparr>to_mount = [kv'], to_drop = dropped @ [l], safe_hit_tokens = safe * k\<rparr>)"
    unfolding trim_flat_kv_linear_def taken using pos
    by (simp only: Let_def prod.case list.case option.case k_def [symmetric] lb_def [symmetric] safe_def [symmetric] simp_thms if_True
        kv'_def [symmetric] dropped_def [symmetric])
  show ?thesis unfolding k_def [symmetric] lb_def [symmetric] trim
    using greatest cut pos by (cases "safe = 0") auto
qed

end
