(* ===== verification/Sequence_Hashes.thy ===== *)
theory Sequence_Hashes imports Sequence_Cache begin

text \<open>
  The token buffer of a sequence and its table of block hashes (\<open>core/framework/request/sequence.{h,cpp}\<close>): one chain of
  hashes per block size, extended when a block is complete, cut back when a token is rewritten.  The caches of the
  sequence on the device and on the host (\<open>Sequence_Cache\<close>) are part of its state.

  Left out are the output side (\<open>Sequence_Output\<close>), log probabilities, the JSON grammar, which takes every token here, the
  timing of a request and the recommendation models.  \<open>None\<close> is a failed \<open>CHECK\<close> or an access out of range.
\<close>

section \<open>The state\<close>

text \<open>\<open>sq_buffer\<close> is the vector \<open>tokens_\<close>, as long as the capacity; the first \<open>sq_num\<close> entries are the tokens.  \<open>sq_beam\<close>
  is the beam width and \<open>sq_slots\<close> the token positions of the sample slots.\<close>

record cache_sequence =
  sq_buffer :: "token list"
  sq_num :: nat
  sq_prompt :: nat
  sq_volatile :: nat
  sq_current :: nat
  sq_overlap :: bool
  sq_warmup :: bool
  sq_beam :: nat
  sq_slots :: "nat list"
  sq_items :: "mm_item list"
  sq_hash_type :: hasher_type
  sq_hashes :: "nat \<Rightarrow> hash_key list option"
  sq_kv :: kv_state
  sq_host :: kv_state
  sq_restore :: "nat option"
  sq_accepted :: nat
  sq_rank :: int

text \<open>The constructor; the capacity must exceed the prompt.\<close>

definition create_cache_sequence :: "token list \<Rightarrow> nat \<Rightarrow> bool \<Rightarrow> bool \<Rightarrow> nat \<Rightarrow> nat list \<Rightarrow> mm_item list \<Rightarrow> cache_sequence option" where
  "create_cache_sequence prompt capacity overlap warmup beam slots its =
    (if prompt = [] \<or> capacity \<le> length prompt then None
     else Some \<lparr>sq_buffer = prompt @ replicate (capacity - length prompt) 0, sq_num = length prompt, sq_prompt = length prompt,
            sq_volatile = length prompt, sq_current = length prompt, sq_overlap = overlap, sq_warmup = warmup, sq_beam = beam,
            sq_slots = slots, sq_items = its, sq_hash_type = HT_TEXT, sq_hashes = (\<lambda>_. None), sq_kv = new_kv_state,
            sq_host = new_kv_state, sq_restore = None, sq_accepted = 0, sq_rank = - 1\<rparr>)"

definition seq_tokens :: "cache_sequence \<Rightarrow> token list" where
  "seq_tokens s = take (sq_num s) (sq_buffer s)"

definition kv_cache_tokens_num :: "cache_sequence \<Rightarrow> nat" where
  "kv_cache_tokens_num s =
    max (kv_tokens (sq_kv s)) (max (kv_tokens (sq_host s)) (case sq_restore s of None \<Rightarrow> 0 | Some n \<Rightarrow> n))"

definition is_prefill_stage :: "cache_sequence \<Rightarrow> bool" where
  "is_prefill_stage s \<longleftrightarrow> kv_cache_tokens_num s < max (sq_volatile s) (sq_prompt s)"

definition is_chunked_prefill_stage :: "cache_sequence \<Rightarrow> bool" where
  "is_chunked_prefill_stage s \<longleftrightarrow> is_prefill_stage s \<and> 0 < kv_cache_tokens_num s"

definition seq_has_any_blocks :: "cache_sequence \<Rightarrow> bool" where
  "seq_has_any_blocks s \<longleftrightarrow> has_any_blocks (sq_kv s) \<or> has_any_blocks (sq_host s)"

section \<open>Block hashes\<close>

definition hash_tokens :: "cache_sequence \<Rightarrow> token list" where
  "hash_tokens s = (if \<not> sq_overlap s then seq_tokens s else take (min (sq_num s) (sq_current s)) (seq_tokens s))"

definition block_hashes :: "nat \<Rightarrow> cache_sequence \<Rightarrow> hash_key list" where
  "block_hashes bs s = (case sq_hashes s bs of None \<Rightarrow> [] | Some hs \<Rightarrow> hs)"

definition update_block_hashes :: "(u8 list \<Rightarrow> hash_key) \<Rightarrow> nat \<Rightarrow> hasher_type \<Rightarrow> cache_sequence \<Rightarrow> cache_sequence option" where
  "update_block_hashes xxh3 bs ty s =
    (if bs = 0 then Some s
     else let s1 = (if sq_hash_type s \<noteq> ty then s\<lparr>sq_hashes := (\<lambda>_. None), sq_hash_type := ty\<rparr> else s);
              ts = hash_tokens s1 in
       map_option (\<lambda>hs. s1\<lparr>sq_hashes := (sq_hashes s1)(bs \<mapsto> hs)\<rparr>)
         (extend_prefix_hashes xxh3 ty (sq_items s1) ts bs (num_hash_blocks ty (length ts) bs) (block_hashes bs s1)))"

text \<open>The outer option is a failed \<open>CHECK\<close>, the inner one \<open>std::nullopt\<close>.\<close>

definition block_hash_at :: "(u8 list \<Rightarrow> hash_key) \<Rightarrow> hasher_type \<Rightarrow> nat \<Rightarrow> nat \<Rightarrow> cache_sequence \<Rightarrow>
    (hash_key option \<times> cache_sequence) option" where
  "block_hash_at xxh3 ty i bs s =
    (if bs = 0 then Some (None, s)
     else map_option (\<lambda>s1. (if i < length (block_hashes bs s1) then Some (block_hashes bs s1 ! i) else None, s1))
            (update_block_hashes xxh3 bs ty s))"

definition invalidate_block_hashes_from :: "nat \<Rightarrow> cache_sequence \<Rightarrow> cache_sequence" where
  "invalidate_block_hashes_from i s =
    (let lookahead = block_hash_lookahead (sq_hash_type s);
         stale = (if lookahead < i then i - lookahead else 0) in
     s\<lparr>sq_hashes := (\<lambda>bs. case sq_hashes s bs of
         None \<Rightarrow> None
       | Some hs \<Rightarrow> Some (if hs = [] \<or> bs = 0 \<or> length hs \<le> stale div bs then hs else take (stale div bs) hs))\<rparr>)"

section \<open>Tokens\<close>

definition write_token :: "nat \<Rightarrow> token \<Rightarrow> cache_sequence \<Rightarrow> cache_sequence option" where
  "write_token i t s = (if i < length (sq_buffer s) then Some (s\<lparr>sq_buffer := (sq_buffer s)[i := t]\<rparr>) else None)"

text \<open>A token of a finished step.  All tokens before it are in the cache.\<close>

definition append_step_token :: "token \<Rightarrow> cache_sequence \<Rightarrow> cache_sequence option" where
  "append_step_token t s =
    (if \<not> sq_num s < length (sq_buffer s) then None
     else if \<not> (0 < kv_tokens (sq_kv s) \<and> \<not> is_chunked_prefill_stage s) then None
     else write_token (sq_num s) t
            (s\<lparr>sq_num := sq_num s + 1, sq_kv := set_kv_cache_tokens_num (sq_num s) (sq_kv s)\<rparr>))"

text \<open>With overlapping steps the placeholder at the cursor is replaced by the real token; a further token of a
  speculative step moves the placeholders behind it.\<close>

definition shift_placeholders :: "cache_sequence \<Rightarrow> cache_sequence option" where
  "shift_placeholders s =
    (case incr_kv_cache_tokens_num 1 (sq_kv s) of None \<Rightarrow> None
     | Some kv \<Rightarrow>
         let c = sq_current s in
         if length (sq_buffer s) \<le> c + 2 then None
         else Some (s\<lparr>sq_kv := kv, sq_num := sq_num s + 1,
                sq_buffer := (sq_buffer s)[c + 2 := sq_buffer s ! (c + 1), c + 1 := sq_buffer s ! c]\<rparr>))"

definition update_last_step_token :: "token \<Rightarrow> nat \<Rightarrow> cache_sequence \<Rightarrow> cache_sequence option" where
  "update_last_step_token t offset s =
    (if \<not> sq_overlap s then None
     else let settle = (\<lambda>s1. map_option
              (\<lambda>s2. (invalidate_block_hashes_from (sq_current s2) s2)\<lparr>sq_current := sq_current s2 + 1, sq_accepted := offset\<rparr>)
              (write_token (sq_current s1) t s1)) in
       if offset = 0 then settle s
       else case current_max_tokens_capacity (sq_kv s) of
         None \<Rightarrow> None
       | Some capacity \<Rightarrow> if capacity = 0 then Some s else Option.bind (shift_placeholders s) settle)"

definition update_token :: "nat \<Rightarrow> token \<Rightarrow> cache_sequence \<Rightarrow> cache_sequence option" where
  "update_token i t s = map_option (invalidate_block_hashes_from i) (write_token i t s)"

text \<open>\<open>Sequence::reset\<close>; the result begins with the blocks that the device cache drops and those of the host cache.\<close>

definition reset_sequence :: "cache_sequence \<Rightarrow> cache_block list \<times> cache_block list \<times> cache_sequence" where
  "reset_sequence s =
    (let (d, kv) = kv_reset (sq_kv s); (hd', host) = kv_reset (sq_host s) in
     (d, hd', s\<lparr>sq_kv := kv, sq_host := host, sq_restore := None, sq_accepted := 0, sq_volatile := sq_num s\<rparr>))"

section \<open>The hashes are those of the tokens\<close>

text \<open>Every chain of the table is the beginning of the reference chain of the tokens that are hashed now.\<close>

definition hashes_ok :: "(u8 list \<Rightarrow> hash_key) \<Rightarrow> cache_sequence \<Rightarrow> bool" where
  "hashes_ok xxh3 s \<longleftrightarrow> (\<forall>bs hs. sq_hashes s bs = Some hs \<longrightarrow>
     length hs \<le> num_hash_blocks (sq_hash_type s) (length (hash_tokens s)) bs
   \<and> hs = chain_hashes xxh3 (sq_hash_type s) (sq_items s) (hash_tokens s) bs (length hs))"

lemma hash_tokens_cong:
  "sq_buffer s' = sq_buffer s \<Longrightarrow> sq_num s' = sq_num s \<Longrightarrow> sq_current s' = sq_current s \<Longrightarrow> sq_overlap s' = sq_overlap s \<Longrightarrow>
    hash_tokens s' = hash_tokens s"
  by (simp add: hash_tokens_def seq_tokens_def)

lemma hash_tokens_take: "hash_tokens s = take (if sq_overlap s then min (sq_num s) (sq_current s) else sq_num s) (sq_buffer s)"
  by (simp add: hash_tokens_def seq_tokens_def min_def)

text \<open>A chain depends on the tokens of its blocks and of their lookahead only.\<close>

lemma chain_prefix:
  assumes "hs = chain_hashes xxh3 ty its ts bs (length hs)" "n \<le> length hs"
    and "take (n * bs + block_hash_lookahead ty) us = take (n * bs + block_hash_lookahead ty) ts"
  shows "take n hs = chain_hashes xxh3 ty its us bs n"
proof -
  have "take n hs = chain_hashes xxh3 ty its ts bs n"
    by (subst assms(1)) (simp add: chain_hashes_def take_map assms(2) min_absorb2)
  also have "\<dots> = chain_hashes xxh3 ty its us bs n"
    unfolding chain_hashes_def using chain_hash_cong [OF assms(3) [symmetric]] by simp
  finally show ?thesis .
qed

lemma num_hash_blocks_mono: "m \<le> n \<Longrightarrow> num_hash_blocks ty m bs \<le> num_hash_blocks ty n bs"
  by (auto simp: num_hash_blocks_def Let_def intro: div_le_mono)

text \<open>The general step: what is kept of the table must lie in a common beginning of the old tokens and the new.\<close>

lemma hashes_keep:
  assumes "hashes_ok xxh3 s" "sq_hash_type s' = sq_hash_type s" "sq_items s' = sq_items s"
    and "\<And>bs hs'. sq_hashes s' bs = Some hs' \<Longrightarrow> hs' \<noteq> [] \<Longrightarrow> \<exists>hs. sq_hashes s bs = Some hs \<and> hs' = take (length hs') hs
      \<and> take (length hs' * bs + block_hash_lookahead (sq_hash_type s)) (hash_tokens s')
        = take (length hs' * bs + block_hash_lookahead (sq_hash_type s)) (hash_tokens s)
      \<and> length (hash_tokens s) \<le> length (hash_tokens s')"
  shows "hashes_ok xxh3 s'"
  unfolding hashes_ok_def assms(2,3)
proof (intro allI impI)
  fix bs hs' assume hs': "sq_hashes s' bs = Some hs'"
  show "length hs' \<le> num_hash_blocks (sq_hash_type s) (length (hash_tokens s')) bs
      \<and> hs' = chain_hashes xxh3 (sq_hash_type s) (sq_items s) (hash_tokens s') bs (length hs')"
  proof (cases "hs' = []")
    case False
    then obtain hs where hs: "sq_hashes s bs = Some hs" "hs' = take (length hs') hs"
        "take (length hs' * bs + block_hash_lookahead (sq_hash_type s)) (hash_tokens s')
        = take (length hs' * bs + block_hash_lookahead (sq_hash_type s)) (hash_tokens s)"
        "length (hash_tokens s) \<le> length (hash_tokens s')"
      using assms(4) [OF hs'] by blast
    have ok: "length hs \<le> num_hash_blocks (sq_hash_type s) (length (hash_tokens s)) bs"
        "hs = chain_hashes xxh3 (sq_hash_type s) (sq_items s) (hash_tokens s) bs (length hs)"
      using assms(1) hs(1) by (auto simp: hashes_ok_def)
    have le: "length hs' \<le> length hs" using hs(2) by (metis length_take min.cobounded1)
    show ?thesis using chain_prefix [OF ok(2) le hs(3)] hs(2,4) le ok(1) num_hash_blocks_mono by (metis le_trans)
  qed (simp add: chain_hashes_def)
qed

lemma hashes_extend:
  assumes "hashes_ok xxh3 s" "sq_hash_type s' = sq_hash_type s" "sq_items s' = sq_items s" "sq_hashes s' = sq_hashes s"
    and "\<exists>us. hash_tokens s' = hash_tokens s @ us"
  shows "hashes_ok xxh3 s'"
proof (rule hashes_keep [OF assms(1-3)])
  obtain us where us: "hash_tokens s' = hash_tokens s @ us" using assms(5) by blast
  fix bs hs assume hs: "sq_hashes s' bs = Some hs" "hs \<noteq> []"
  then have le: "length hs \<le> num_hash_blocks (sq_hash_type s) (length (hash_tokens s)) bs" "0 < length hs"
    using assms(1,4) by (auto simp: hashes_ok_def)
  then have "length hs * bs + block_hash_lookahead (sq_hash_type s) \<le> length (hash_tokens s)" by (rule num_hash_blocks_fits)
  then show "\<exists>hs0. sq_hashes s bs = Some hs0 \<and> hs = take (length hs) hs0
      \<and> take (length hs * bs + block_hash_lookahead (sq_hash_type s)) (hash_tokens s')
        = take (length hs * bs + block_hash_lookahead (sq_hash_type s)) (hash_tokens s)
      \<and> length (hash_tokens s) \<le> length (hash_tokens s')"
    using hs(1) assms(4) us by simp
qed

lemma hashes_cong:
  assumes "hashes_ok xxh3 s" "sq_hash_type s' = sq_hash_type s" "sq_items s' = sq_items s" "sq_hashes s' = sq_hashes s"
    and "hash_tokens s' = hash_tokens s"
  shows "hashes_ok xxh3 s'"
  using assms(1-4) by (rule hashes_extend) (simp add: assms(5))


lemma update_hashes:
  assumes "hashes_ok xxh3 s" "mm_sorted (sq_items s)"
  shows "\<exists>s'. update_block_hashes xxh3 bs ty s = Some s' \<and> hashes_ok xxh3 s'
    \<and> s' = s\<lparr>sq_hashes := sq_hashes s', sq_hash_type := sq_hash_type s'\<rparr>
    \<and> (0 < bs \<longrightarrow> sq_hash_type s' = ty \<and> block_hashes bs s' =
          chain_hashes xxh3 ty (sq_items s) (hash_tokens s) bs (num_hash_blocks ty (length (hash_tokens s)) bs))"
proof (cases "bs = 0")
  case True
  then show ?thesis using assms(1) by (simp add: update_block_hashes_def)
next
  case False
  define s1 where "s1 = (if sq_hash_type s \<noteq> ty then s\<lparr>sq_hashes := (\<lambda>_. None), sq_hash_type := ty\<rparr> else s)"
  let ?ts = "hash_tokens s" and ?its = "sq_items s"
  have s1: "hash_tokens s1 = ?ts" "sq_items s1 = ?its" "sq_hash_type s1 = ty"
    by (simp_all add: s1_def hash_tokens_def seq_tokens_def)
  have ok1: "hashes_ok xxh3 s1"
  proof (cases "sq_hash_type s = ty")
    case True
    then show ?thesis using assms(1) by (simp add: s1_def)
  qed (simp add: s1_def hashes_ok_def)
  define n where "n = num_hash_blocks ty (length ?ts) bs"
  have le: "length (block_hashes bs s1) \<le> n" and hs: "block_hashes bs s1 = chain_hashes xxh3 ty ?its ?ts bs (length (block_hashes bs s1))"
    using ok1 s1 by (auto simp: hashes_ok_def block_hashes_def n_def chain_hashes_def split: option.split)
  have ext: "extend_prefix_hashes xxh3 ty ?its ?ts bs n (block_hashes bs s1) = Some (chain_hashes xxh3 ty ?its ?ts bs n)"
    using extend_ok [OF assms(2) refl hs, of n] le by (simp add: n_def max_def)
  define s' where "s' = s1\<lparr>sq_hashes := (sq_hashes s1)(bs \<mapsto> chain_hashes xxh3 ty ?its ?ts bs n)\<rparr>"
  have run: "update_block_hashes xxh3 bs ty s = Some s'"
    using False ext by (simp add: update_block_hashes_def Let_def s1_def [symmetric] s1 n_def [symmetric] s'_def)
  have toks: "hash_tokens s' = ?ts" unfolding s1(1) [symmetric] by (simp add: s'_def hash_tokens_def seq_tokens_def)
  have ok': "hashes_ok xxh3 s'"
    using ok1 s1 unfolding hashes_ok_def toks by (auto simp: s'_def chain_hashes_def n_def)
  have "s' = s\<lparr>sq_hashes := sq_hashes s', sq_hash_type := sq_hash_type s'\<rparr>" by (simp add: s'_def s1_def)
  then show ?thesis using run ok' by (auto simp: s'_def s1(3) n_def block_hashes_def)
qed

lemma invalidate_fields [simp]:
  "sq_hash_type (invalidate_block_hashes_from i s) = sq_hash_type s" "sq_items (invalidate_block_hashes_from i s) = sq_items s"
  "sq_current (invalidate_block_hashes_from i s) = sq_current s" "hash_tokens (invalidate_block_hashes_from i s) = hash_tokens s"
  by (simp_all add: invalidate_block_hashes_from_def Let_def hash_tokens_def seq_tokens_def)

text \<open>What the invalidation keeps ends in front of the rewritten token, with the lookahead.\<close>

lemma invalidate_kept:
  assumes "sq_hashes (invalidate_block_hashes_from i s) bs = Some hs'" "hs' \<noteq> []" "0 < bs"
  shows "\<exists>hs. sq_hashes s bs = Some hs \<and> hs' = take (length hs') hs \<and> length hs' * bs + block_hash_lookahead (sq_hash_type s) \<le> i"
proof -
  define la where "la = block_hash_lookahead (sq_hash_type s)"
  define stale where "stale = (if la < i then i - la else 0)"
  obtain hs where hs: "sq_hashes s bs = Some hs" "hs' = (if hs = [] \<or> bs = 0 \<or> length hs \<le> stale div bs then hs else take (stale div bs) hs)"
    using assms(1) by (auto simp: invalidate_block_hashes_from_def Let_def la_def [symmetric] stale_def [symmetric] split: option.splits)
  then have kept: "hs' = take (length hs') hs" "length hs' \<le> stale div bs" using assms(2,3) by (auto split: if_splits)
  then have "length hs' * bs \<le> stale" using assms(3) by (simp add: less_eq_div_iff_mult_less_eq)
  moreover have "0 < length hs' * bs" using assms(2,3) by simp
  ultimately have "length hs' * bs + la \<le> i" by (auto simp: stale_def split: if_splits)
  then show ?thesis using hs(1) kept(1) by (auto simp: la_def)
qed

lemma hashes_nonempty: "hashes_ok xxh3 s \<Longrightarrow> sq_hashes s bs = Some hs \<Longrightarrow> hs \<noteq> [] \<Longrightarrow> 0 < bs"
proof -
  assume "hashes_ok xxh3 s" "sq_hashes s bs = Some hs" "hs \<noteq> []"
  then have "length hs \<le> num_hash_blocks (sq_hash_type s) (length (hash_tokens s)) bs" "0 < length hs"
    unfolding hashes_ok_def by blast+
  then show ?thesis by (auto simp: num_hash_blocks_def Let_def split: if_splits)
qed

lemma invalidate_some: "sq_hashes (invalidate_block_hashes_from i s) bs = Some hs' \<Longrightarrow> hs' \<noteq> [] \<Longrightarrow>
    \<exists>hs. sq_hashes s bs = Some hs \<and> hs \<noteq> []"
  by (auto simp: invalidate_block_hashes_from_def Let_def split: option.splits if_splits)

text \<open>Tokens are rewritten from \<open>i\<close> on, and the table is invalidated from there.\<close>

lemma hashes_rewrite:
  assumes "hashes_ok xxh3 s" "sq_hash_type s' = sq_hash_type s" "sq_items s' = sq_items s"
    and "sq_hashes s' = sq_hashes (invalidate_block_hashes_from i s)"
    and "take i (take (length (hash_tokens s)) (hash_tokens s')) = take i (hash_tokens s)"
    and "length (hash_tokens s) \<le> length (hash_tokens s')"
  shows "hashes_ok xxh3 s'"
proof (rule hashes_keep [OF assms(1-3)])
  fix bs hs' assume h: "sq_hashes s' bs = Some hs'" "hs' \<noteq> []"
  have pos: "0 < bs" using invalidate_some h assms(4) hashes_nonempty [OF assms(1)] by metis
  obtain hs where hs: "sq_hashes s bs = Some hs" "hs' = take (length hs') hs" "length hs' * bs + block_hash_lookahead (sq_hash_type s) \<le> i"
    using invalidate_kept [OF h(1) [unfolded assms(4)] h(2) pos] by blast
  let ?n = "length hs' * bs + block_hash_lookahead (sq_hash_type s)"
  have "length hs \<le> num_hash_blocks (sq_hash_type s) (length (hash_tokens s)) bs" using assms(1) hs(1) by (auto simp: hashes_ok_def)
  moreover have "length hs' \<le> length hs" using hs(2) by (metis length_take min.cobounded1)
  ultimately have fits: "?n \<le> length (hash_tokens s)" using h(2) by (intro num_hash_blocks_fits) auto
  have "take ?n (hash_tokens s') = take ?n (take i (take (length (hash_tokens s)) (hash_tokens s')))"
    using hs(3) fits by (simp add: min_absorb1)
  also have "\<dots> = take ?n (hash_tokens s)" unfolding assms(5) using hs(3) by (simp add: min_absorb1)
  finally have "take ?n (hash_tokens s') = take ?n (hash_tokens s)" .
  then show "\<exists>hs. sq_hashes s bs = Some hs \<and> hs' = take (length hs') hs
      \<and> take (length hs' * bs + block_hash_lookahead (sq_hash_type s)) (hash_tokens s')
        = take (length hs' * bs + block_hash_lookahead (sq_hash_type s)) (hash_tokens s)
      \<and> length (hash_tokens s) \<le> length (hash_tokens s')"
    using hs(1,2) assms(6) by auto
qed


section \<open>Runs\<close>

text \<open>What happens to a sequence: tokens come in, tokens are rewritten, hashes are asked for, and its caches change in any
  way, which touches neither tokens nor hashes.\<close>

datatype seq_event =
  Ev_Append token | Ev_Last token nat | Ev_Update nat token | Ev_Hash nat hasher_type | Ev_Cache kv_state kv_state "nat option" | Ev_Reset

fun seq_step :: "(u8 list \<Rightarrow> hash_key) \<Rightarrow> seq_event \<Rightarrow> cache_sequence \<Rightarrow> cache_sequence option" where
  "seq_step xxh3 (Ev_Append t) s = append_step_token t s"
| "seq_step xxh3 (Ev_Last t offset) s = update_last_step_token t offset s"
| "seq_step xxh3 (Ev_Update i t) s = update_token i t s"
| "seq_step xxh3 (Ev_Hash bs ty) s = update_block_hashes xxh3 bs ty s"
| "seq_step xxh3 (Ev_Cache kv host restore) s = Some (s\<lparr>sq_kv := kv, sq_host := host, sq_restore := restore\<rparr>)"
| "seq_step xxh3 Ev_Reset s = Some (snd (snd (reset_sequence s)))"

fun seq_run :: "(u8 list \<Rightarrow> hash_key) \<Rightarrow> seq_event list \<Rightarrow> cache_sequence \<Rightarrow> cache_sequence option" where
  "seq_run xxh3 [] s = Some s"
| "seq_run xxh3 (e # es) s = Option.bind (seq_step xxh3 e s) (seq_run xxh3 es)"

lemma append_step_hashes:
  assumes "hashes_ok xxh3 s" "append_step_token t s = Some s'"
  shows "hashes_ok xxh3 s' \<and> sq_items s' = sq_items s"
proof -
  let ?n = "sq_num s"
  have s': "s' = s\<lparr>sq_num := ?n + 1, sq_kv := set_kv_cache_tokens_num ?n (sq_kv s), sq_buffer := (sq_buffer s)[?n := t]\<rparr>"
    using assms(2) by (auto simp: append_step_token_def write_token_def split: if_splits)
  let ?m = "if sq_overlap s then min ?n (sq_current s) else ?n" and ?m' = "if sq_overlap s then min (?n + 1) (sq_current s) else ?n + 1"
  have "hash_tokens s' = take ?m' ((sq_buffer s)[?n := t])" "hash_tokens s = take ?m ((sq_buffer s)[?n := t])"
    by (simp_all add: s' hash_tokens_take)
  moreover have "?m \<le> ?m'" by auto
  ultimately have "\<exists>us. hash_tokens s' = hash_tokens s @ us" by (metis le_Suc_ex take_add)
  then show ?thesis using hashes_extend [OF assms(1), of s'] by (simp add: s')
qed

lemma take_common:
  assumes "take c xs = take c ys" "m \<le> c" "m \<le> k"
  shows "take c (take (length (take m ys)) (take k xs)) = take c (take m ys)"
proof -
  let ?l = "length (take m ys)"
  have l: "?l \<le> c" "?l \<le> k" using assms(2,3) by simp_all
  have "take ?l (take k xs) = take ?l (take c xs)" using l by (simp add: min_absorb1)
  also have "\<dots> = take ?l ys" unfolding assms(1) using l by (simp add: min_absorb1)
  also have "\<dots> = take m ys" by (metis append_take_drop_id append_eq_conv_conj)
  finally show ?thesis by simp
qed

lemma last_step_hashes:
  assumes "hashes_ok xxh3 s" "update_last_step_token t offset s = Some s'"
  shows "hashes_ok xxh3 s' \<and> sq_items s' = sq_items s"
proof -
  have ov: "sq_overlap s" using assms(2) by (simp add: update_last_step_token_def split: if_splits)
  let ?c = "sq_current s"
  have settle: "hashes_ok xxh3 r' \<and> sq_items r' = sq_items s"
    if r: "sq_current r = ?c" "sq_hash_type r = sq_hash_type s" "sq_items r = sq_items s" "sq_hashes r = sq_hashes s" "sq_overlap r"
      "take ?c (sq_buffer r) = take ?c (sq_buffer s)" "length (sq_buffer r) = length (sq_buffer s)" "sq_num s \<le> sq_num r"
    and w: "map_option (\<lambda>s2. (invalidate_block_hashes_from (sq_current s2) s2)\<lparr>sq_current := sq_current s2 + 1, sq_accepted := offset\<rparr>)
        (write_token (sq_current r) t r) = Some r'" for r r'
  proof -
    define s2 where "s2 = r\<lparr>sq_buffer := (sq_buffer r)[?c := t]\<rparr>"
    have w2: "r' = (invalidate_block_hashes_from ?c s2)\<lparr>sq_current := ?c + 1, sq_accepted := offset\<rparr>" "?c < length (sq_buffer r)"
      using w r(1) by (auto simp: write_token_def s2_def split: if_splits)
    have toks: "hash_tokens r' = take (min (sq_num r) (?c + 1)) ((sq_buffer r)[?c := t])"
      by (simp add: w2 hash_tokens_take invalidate_block_hashes_from_def Let_def s2_def r)
    have "hashes_ok xxh3 r'"
    proof (rule hashes_rewrite [OF assms(1)])
      show "sq_hash_type r' = sq_hash_type s" "sq_items r' = sq_items s" "sq_hashes r' = sq_hashes (invalidate_block_hashes_from ?c s)"
        using r by (simp_all add: w2 invalidate_block_hashes_from_def Let_def s2_def)
      have old: "hash_tokens s = take (min (sq_num s) ?c) (sq_buffer s)" using ov by (simp add: hash_tokens_take)
      have le: "min (sq_num s) ?c \<le> min (sq_num r) (?c + 1)" using r(8) by auto
      then show "length (hash_tokens s) \<le> length (hash_tokens r')" unfolding toks old using r(7) by (simp add: min_le_iff_disj)
      show "take ?c (take (length (hash_tokens s)) (hash_tokens r')) = take ?c (hash_tokens s)"
        unfolding toks old using r(6,7) le by (intro take_common) auto
    qed
    then show ?thesis using r(3) by (simp add: w2 s2_def)
  qed
  show ?thesis
  proof (cases "offset = 0")
    case True
    then show ?thesis using settle [of s s'] assms(2) ov by (simp add: update_last_step_token_def Let_def)
  next
    case False
    then obtain capacity where cap: "current_max_tokens_capacity (sq_kv s) = Some capacity"
      using assms(2) ov by (auto simp: update_last_step_token_def Let_def split: option.splits)
    show ?thesis
    proof (cases "capacity = 0")
      case True
      then show ?thesis using assms cap False ov by (simp add: update_last_step_token_def)
    next
      case False
      then obtain r where r: "shift_placeholders s = Some r" "map_option (\<lambda>s2. (invalidate_block_hashes_from (sq_current s2) s2)
          \<lparr>sq_current := sq_current s2 + 1, sq_accepted := offset\<rparr>) (write_token (sq_current r) t r) = Some s'"
        using assms(2) cap ov \<open>offset \<noteq> 0\<close> by (auto simp: update_last_step_token_def Let_def bind_eq_Some_conv)
      then show ?thesis using settle [of r s'] ov
        by (auto simp: shift_placeholders_def Let_def split: option.splits if_splits)
    qed
  qed
qed


lemma seq_step_hashes:
  assumes "hashes_ok xxh3 s" "mm_sorted (sq_items s)" "seq_step xxh3 e s = Some s'"
  shows "hashes_ok xxh3 s' \<and> sq_items s' = sq_items s"
proof (cases e)
  case (Ev_Append t)
  then show ?thesis using append_step_hashes [OF assms(1)] assms(3) by simp
next
  case (Ev_Last t offset)
  then show ?thesis using last_step_hashes [OF assms(1)] assms(3) by simp
next
  case (Ev_Update i t)
  then have s': "s' = invalidate_block_hashes_from i (s\<lparr>sq_buffer := (sq_buffer s)[i := t]\<rparr>)"
    using assms(3) by (auto simp: update_token_def write_token_def split: if_splits)
  have toks: "hash_tokens s' = (hash_tokens s)[i := t]"
    unfolding s' invalidate_fields by (simp add: hash_tokens_take take_update_swap)
  have "hashes_ok xxh3 s'"
  proof (rule hashes_rewrite [OF assms(1)])
    show "sq_hashes s' = sq_hashes (invalidate_block_hashes_from i s)" "sq_hash_type s' = sq_hash_type s" "sq_items s' = sq_items s"
      by (simp_all add: s' invalidate_block_hashes_from_def Let_def)
  qed (simp_all add: toks)
  then show ?thesis by (simp add: s')
next
  case (Ev_Hash bs ty)
  obtain r where r: "update_block_hashes xxh3 bs ty s = Some r" "hashes_ok xxh3 r"
      "r = s\<lparr>sq_hashes := sq_hashes r, sq_hash_type := sq_hash_type r\<rparr>"
    using update_hashes [OF assms(1,2), of bs ty] by blast
  have "sq_items r = sq_items (s\<lparr>sq_hashes := sq_hashes r, sq_hash_type := sq_hash_type r\<rparr>)" using r(3) by (rule arg_cong)
  then show ?thesis using Ev_Hash r(1,2) assms(3) by simp
next
  case (Ev_Cache kv host restore)
  then have s': "s' = s\<lparr>sq_kv := kv, sq_host := host, sq_restore := restore\<rparr>" using assms(3) by simp
  have "hashes_ok xxh3 s'" by (rule hashes_cong [OF assms(1)]) (simp_all add: s' hash_tokens_def seq_tokens_def)
  then show ?thesis by (simp add: s')
next
  case Ev_Reset
  then obtain kv host where s': "s' = s\<lparr>sq_kv := kv, sq_host := host, sq_restore := None, sq_accepted := 0, sq_volatile := sq_num s\<rparr>"
    using assms(3) by (auto simp: reset_sequence_def split: prod.splits)
  have "hashes_ok xxh3 s'" by (rule hashes_cong [OF assms(1)]) (simp_all add: s' hash_tokens_def seq_tokens_def)
  then show ?thesis by (simp add: s')
qed

lemma seq_run_hashes:
  "hashes_ok xxh3 s \<Longrightarrow> mm_sorted (sq_items s) \<Longrightarrow> seq_run xxh3 es s = Some s' \<Longrightarrow> hashes_ok xxh3 s' \<and> sq_items s' = sq_items s"
proof (induction es arbitrary: s)
  case (Cons e es)
  obtain s1 where s1: "seq_step xxh3 e s = Some s1" "seq_run xxh3 es s1 = Some s'"
    using Cons.prems(3) by (auto simp: bind_eq_Some_conv)
  show ?case using Cons.IH [OF _ _ s1(2)] seq_step_hashes [OF Cons.prems(1,2) s1(1)] Cons.prems(2) by simp
qed simp

lemma created_hashes: "create_cache_sequence prompt capacity ov wu beam slots its = Some s \<Longrightarrow> hashes_ok xxh3 s \<and> sq_items s = its"
  by (auto simp: create_cache_sequence_def hashes_ok_def split: if_splits)

text \<open>C15.  The block hashes of a sequence never go stale.  After any run of appended, overlapped, speculative and rewritten
  tokens, the table that \<open>update_block_hashes\<close> extends step by step gives, for every block size and hasher, exactly the
  reference chain of the tokens that the sequence has now, over all blocks that are complete with their lookahead.  So
  what is published or looked up in the prefix cache is identified by the tokens that were computed.\<close>

theorem block_hashes_current:
  assumes "create_cache_sequence prompt capacity ov wu beam slots its = Some s0" "seq_run xxh3 es s0 = Some s" "mm_sorted its" "0 < bs"
  shows "\<exists>s'. update_block_hashes xxh3 bs ty s = Some s'
    \<and> block_hashes bs s' = chain_hashes xxh3 ty its (hash_tokens s) bs (num_hash_blocks ty (length (hash_tokens s)) bs)
    \<and> s' = s\<lparr>sq_hashes := sq_hashes s', sq_hash_type := sq_hash_type s'\<rparr>"
proof -
  have "hashes_ok xxh3 s0" "sq_items s0 = its" using created_hashes [OF assms(1)] by auto
  then have "hashes_ok xxh3 s \<and> sq_items s = its" using seq_run_hashes [OF _ _ assms(2)] assms(3) by simp
  then show ?thesis using update_hashes [of xxh3 s bs ty] assms(3,4) by auto
qed

definition demo_events :: "seq_event list" where
  "demo_events = [Ev_Hash 2 HT_TEXT, Ev_Update 2 9, Ev_Last 4 0, Ev_Hash 2 HT_TEXT, Ev_Update 0 3]"

lemma block_hashes_current_witness:
  "\<exists>s0 s s'. create_cache_sequence [1, 2, 7] 5 True False 0 [] [] = Some s0 \<and> seq_run byte_sum demo_events s0 = Some s
    \<and> update_block_hashes byte_sum 2 HT_TEXT s = Some s'
    \<and> block_hashes 2 s' = chain_hashes byte_sum HT_TEXT [] [3, 2, 9] 2 1"
proof -
  have "map_option hash_tokens (Option.bind (create_cache_sequence [1, 2, 7] 5 True False 0 [] []) (seq_run byte_sum demo_events))
      = Some [3, 2, 9]" by code_simp
  then obtain s0 s where s: "create_cache_sequence [1, 2, 7] 5 True False 0 [] [] = Some s0" "seq_run byte_sum demo_events s0 = Some s"
      "hash_tokens s = [3, 2, 9]" by (auto simp: bind_eq_Some_conv)
  have "num_hash_blocks HT_TEXT (length [3, 2, 9 :: token]) 2 = 1" by code_simp
  then show ?thesis using block_hashes_current [OF s(1,2), of 2 HT_TEXT, unfolded s(3)] s(1,2) by (fastforce simp del: list.size)
qed

end
