(* ===== verification/Leaf_Managers.thy ===== *)
theory Leaf_Managers imports Prefix_Trim Sequence_Hashes Block_Manager begin

text \<open>
  What the leaves of a composite block manager do for one sequence: growth, and release behind a window, of
  \<open>BlockManagerImpl\<close> (\<open>core/framework/block/block_manager_impl.cpp\<close>), \<open>SlidingWindowBlockManager\<close>,
  \<open>LinearStateBlockManager\<close> and \<open>EmbeddingBlockManager\<close> (files of the same names).  Their part in a fetch from the store is in \<open>Leaf_Prefetch\<close>.

  A leaf is a pool (\<open>Block_Pool\<close>) with its options.  Growth returns the new blocks, \<open>None\<close> inside for
  \<open>std::nullopt\<close>, and the changed leaf and sequence; blocks that are overwritten or go out of scope are given back to the
  pool on the spot.  The outer \<open>None\<close> is a failed \<open>CHECK\<close> or an access out of range.  The manager that an alias names
  is the leaf of its type, so \<open>check_owned\<close> holds by construction.
\<close>

section \<open>Leaves\<close>

record leaf_options =
  lo_sliding_window :: nat
  lo_window_blocks :: nat
  lo_is_decode :: bool
  lo_explicit :: bool
  lo_preserve :: bool
  lo_overlap :: bool
  lo_speculative :: nat

record leaf =
  lf_pool :: pool
  lf_entry :: leaf_entry
  lf_opts :: leaf_options

definition leaf_size :: "leaf \<Rightarrow> nat" where
  "leaf_size lf = opt_block_size (options (lf_pool lf))"

definition leaf_hasher :: "leaf \<Rightarrow> hasher_type" where
  "leaf_hasher lf = opt_hasher_type (options (lf_pool lf))"

text \<open>Blocks as a leaf hands them out, a default constructed block, and the destruction of a vector of blocks.\<close>

definition own_blocks :: "nat \<Rightarrow> block list \<Rightarrow> cache_block list" where
  "own_blocks size' = map (\<lambda>b. \<lparr>cb_block = b, cb_size = (if is_valid b then size' else 0)\<rparr>)"

abbreviation no_block :: cache_block where
  "no_block \<equiv> moved_from"

definition resize :: "nat \<Rightarrow> cache_block list \<Rightarrow> cache_block list" where
  "resize n bs = take n bs @ replicate (n - length bs) no_block"

definition drop_cached :: "cache_block list \<Rightarrow> pool \<Rightarrow> pool option" where
  "drop_cached bs = release_all drop_alias (map cb_block bs)"

definition drop_in_leaf :: "cache_block list \<Rightarrow> leaf \<Rightarrow> leaf option" where
  "drop_in_leaf bs lf = map_option (\<lambda>p. lf\<lparr>lf_pool := p\<rparr>) (drop_cached bs (lf_pool lf))"

definition allocate_in_leaf :: "nat \<Rightarrow> leaf \<Rightarrow> (cache_block list \<times> leaf) option" where
  "allocate_in_leaf n lf =
    map_option (\<lambda>(bs, p). (own_blocks (leaf_size lf) bs, lf\<lparr>lf_pool := p\<rparr>)) (allocate n (lf_pool lf))"

section \<open>Growth\<close>

type_synonym growth = "(cache_block list option \<times> leaf \<times> cache_sequence) option"

definition grow_flat :: "block_type \<Rightarrow> nat \<Rightarrow> leaf \<Rightarrow> cache_sequence \<Rightarrow> growth" where
  "grow_flat t num_tokens lf s =
    map_option (\<lambda>(r, p). (map_option (own_blocks (leaf_size lf)) r, lf\<lparr>lf_pool := p\<rparr>, s))
      (allocate_for_sequence (kv_num_blocks (sq_kv s) t) num_tokens (lf_pool lf))"

definition grow_embedding :: "leaf \<Rightarrow> cache_sequence \<Rightarrow> growth" where
  "grow_embedding lf s =
    (if 0 < kv_num_blocks (sq_kv s) BT_EMBEDDING then Some (Some [], lf, s)
     else map_option (\<lambda>(bs, lf'). (if bs = [] then None else Some bs, lf', s)) (allocate_in_leaf 1 lf))"

subsection \<open>Sliding window\<close>

definition num_out_of_window_blocks :: "leaf \<Rightarrow> kv_state \<Rightarrow> nat \<Rightarrow> nat" where
  "num_out_of_window_blocks lf kv cached_tokens =
    (let held = kv_num_blocks kv BT_SWA; window = max (lo_sliding_window (lf_opts lf)) 1 in
     if leaf_size lf = 0 \<or> held = 0 then 0
     else if cached_tokens \<le> window then 0
     else min ((cached_tokens - window) div leaf_size lf) held)"

definition release_out_of_window :: "leaf \<Rightarrow> cache_sequence \<Rightarrow> (leaf \<times> cache_sequence) option" where
  "release_out_of_window lf s =
    (let kv = sq_kv s; n = num_out_of_window_blocks lf kv (kv_cache_tokens_num s); bs = kv_blocks kv BT_SWA in
     if n = 0 then Some (lf, s)
     else map_option (\<lambda>lf'. (lf', s\<lparr>sq_kv := put_blocks BT_SWA
              (map (\<lambda>b. if cb_valid b then no_block else b) (take n bs) @ drop n bs) kv\<rparr>))
            (drop_in_leaf (take n bs) lf))"

definition window_basis :: "leaf \<Rightarrow> nat \<Rightarrow> cache_sequence \<Rightarrow> nat" where
  "window_basis lf num_tokens s =
    (if kv_tokens (sq_kv s) < kv_cache_tokens_num s then kv_cache_tokens_num s
     else if kv_num_blocks (sq_kv s) BT_SWA = 0 \<and> lo_is_decode (lf_opts lf) then num_tokens
     else 0)"

text \<open>The number of placeholders in front of the window.\<close>

definition window_align :: "leaf \<Rightarrow> nat \<Rightarrow> nat \<Rightarrow> nat" where
  "window_align lf needed basis =
    (let window = max (lo_sliding_window (lf_opts lf)) 1;
         start = (if window < basis then basis - window else 0);
         retained = max (size_diff needed (start div leaf_size lf)) (lo_window_blocks (lf_opts lf)) in
     if retained < needed then needed - retained else 0)"

definition pad_window :: "leaf \<Rightarrow> nat \<Rightarrow> nat \<Rightarrow> cache_sequence \<Rightarrow> cache_sequence" where
  "pad_window lf needed num_tokens s =
    (let basis = window_basis lf num_tokens s; align = window_align lf needed basis; bs = kv_blocks (sq_kv s) BT_SWA in
     if 0 < basis \<and> length bs < align then s\<lparr>sq_kv := put_blocks BT_SWA (resize align bs) (sq_kv s)\<rparr> else s)"

definition grow_window :: "nat \<Rightarrow> leaf \<Rightarrow> cache_sequence \<Rightarrow> growth" where
  "grow_window num_tokens lf s =
    (case release_out_of_window lf s of
       None \<Rightarrow> None
     | Some (lf1, s1) \<Rightarrow>
         if leaf_size lf = 0 then None
         else let needed = (num_tokens + leaf_size lf - 1) div leaf_size lf;
                  s2 = pad_window lf1 needed num_tokens s1;
                  held = kv_num_blocks (sq_kv s2) BT_SWA in
           if needed \<le> held then Some (Some [], lf1, s2)
           else map_option (\<lambda>(bs, lf2). (if length bs = needed - held then Some bs else None, lf2, s2))
                  (allocate_in_leaf (needed - held) lf1))"

subsection \<open>Linear state\<close>

definition crosses_checkpoint :: "nat \<Rightarrow> nat \<Rightarrow> nat \<Rightarrow> bool option" where
  "crosses_checkpoint start end' stride =
    (if start \<le> end' \<and> 0 < stride then Some (start div stride \<noteq> end' div stride) else None)"

definition last_decode_step_checkpoint_row :: "cache_sequence \<Rightarrow> nat \<Rightarrow> nat option option" where
  "last_decode_step_checkpoint_row s stride =
    (let cached = kv_tokens (sq_kv s); accepted = sq_accepted s in
     if stride = 0 then None
     else if cached \<le> accepted + 1 then Some None
     else map_option (\<lambda>c. if c then Some accepted else None) (crosses_checkpoint (cached - accepted - 1) cached stride))"

definition last_decode_step_crosses_checkpoint :: "cache_sequence \<Rightarrow> nat \<Rightarrow> bool option" where
  "last_decode_step_crosses_checkpoint s stride =
    map_option (\<lambda>r. r \<noteq> None) (last_decode_step_checkpoint_row s stride)"

definition put_linear :: "cache_block list \<Rightarrow> cache_sequence \<Rightarrow> cache_sequence" where
  "put_linear bs s = s\<lparr>sq_kv := put_blocks BT_LINEAR bs (sq_kv s)\<rparr>"

text \<open>The publication of the read source at a checkpoint boundary.\<close>

definition publish_source :: "(u8 list \<Rightarrow> hash_key) \<Rightarrow> leaf \<Rightarrow> cache_sequence \<Rightarrow> (leaf \<times> cache_sequence) option" where
  "publish_source xxh3 lf s =
    (let stride = leaf_size lf; bs = kv_blocks (sq_kv s) BT_LINEAR; cached = kv_cache_tokens_num s; i = cached div stride in
     case prefix_cache (lf_pool lf) of
       None \<Rightarrow> Some (lf, s)
     | Some pc \<Rightarrow>
         if lo_explicit (lf_opts lf) \<or> sq_warmup s \<or> bs = [] \<or> stride = 0 \<or> cached mod stride \<noteq> 0 \<or> i = 0 then Some (lf, s)
         else case update_block_hashes xxh3 stride (leaf_hasher lf) s of
           None \<Rightarrow> None
         | Some s1 \<Rightarrow>
             if \<not> cb_valid (hd bs) \<or> length (block_hashes stride s1) < i then None
             else let b = (cb_block (hd bs))\<lparr>block_hash := block_hashes stride s1 ! (i - 1)\<rparr> in
               map_option (\<lambda>(_, pc', r'). (lf\<lparr>lf_pool := (lf_pool lf)\<lparr>prefix_cache := Some pc', ref_counts := r'\<rparr>\<rparr>,
                   put_linear ((hd bs)\<lparr>cb_block := b\<rparr> # tl bs) s1))
                 (insert_hashed (pool_env xxh3 (lf_pool lf)) [b] pc (ref_counts (lf_pool lf))))"

definition allocate_prefill :: "(u8 list \<Rightarrow> hash_key) \<Rightarrow> leaf \<Rightarrow> cache_sequence \<Rightarrow> growth" where
  "allocate_prefill xxh3 lf s =
    (let bs = kv_blocks (sq_kv s) BT_LINEAR in
     if 2 < length bs then None
     else if kv_tokens (sq_kv s) < kv_cache_tokens_num s
     then (case drop_in_leaf bs lf of
             None \<Rightarrow> None
           | Some lf1 \<Rightarrow> map_option (\<lambda>(new, lf2). (if length new = 2 then Some new else None, lf2,
                 s\<lparr>sq_kv := snd (erase_blocks BT_LINEAR (sq_kv s))\<rparr>)) (allocate_in_leaf 2 lf1))
     else let bs1 = (if length bs = 2 then tl bs else bs); s1 = put_linear bs1 s in
       case drop_in_leaf (if length bs = 2 then [hd bs] else []) lf of
         None \<Rightarrow> None
       | Some lf1 \<Rightarrow>
           (case allocate_in_leaf 1 lf1 of
              None \<Rightarrow> None
            | Some ([], lf2) \<Rightarrow> Some (if bs1 = [] then None else Some [], lf2, s1)
            | Some (new, lf2) \<Rightarrow> map_option (\<lambda>(lf3, s2). (Some new, lf3, s2)) (publish_source xxh3 lf2 s1)))"

definition allocate_decode :: "leaf \<Rightarrow> cache_sequence \<Rightarrow> growth" where
  "allocate_decode lf s =
    (let bs = kv_blocks (sq_kv s) BT_LINEAR; stride = leaf_size lf in
     if 2 < length bs then None
     else case (if length bs = 2 then last_decode_step_crosses_checkpoint s stride else Some False) of
       None \<Rightarrow> None
     | Some completed \<Rightarrow>
         if length bs = 2 \<and> \<not> completed then Some (Some [], lf, put_linear [bs ! 1, bs ! 0] s)
         else if length bs = 2 \<and> lo_preserve (lf_opts lf)
         then Some (Some [], lf, if lo_overlap (lf_opts lf) then s else put_linear [bs ! 1, bs ! 0] s)
         else case drop_in_leaf (if length bs = 2 then [hd bs] else []) lf of
           None \<Rightarrow> None
         | Some lf1 \<Rightarrow>
             let bs1 = (if length bs = 2 then tl bs else bs); s1 = put_linear bs1 s; cached = kv_tokens (sq_kv s) in
             if bs1 = []
             then map_option (\<lambda>(new, lf2). (if new = [] then None else Some new, lf2, s1)) (allocate_in_leaf 1 lf1)
             else case crosses_checkpoint cached (cached + lo_speculative (lf_opts lf) + 1) stride of
               None \<Rightarrow> None
             | Some False \<Rightarrow> Some (Some [], lf1, s1)
             | Some True \<Rightarrow> map_option (\<lambda>(new, lf2). (Some new, lf2, s1)) (allocate_in_leaf 1 lf1))"

definition grow_linear :: "(u8 list \<Rightarrow> hash_key) \<Rightarrow> leaf \<Rightarrow> cache_sequence \<Rightarrow> growth" where
  "grow_linear xxh3 lf s = (if is_prefill_stage s then allocate_prefill xxh3 lf s else allocate_decode lf s)"

text \<open>The leaf of each type.\<close>

definition leaf_allocate_for_sequence :: "(u8 list \<Rightarrow> hash_key) \<Rightarrow> block_type \<Rightarrow> nat \<Rightarrow> leaf \<Rightarrow> cache_sequence \<Rightarrow> growth" where
  "leaf_allocate_for_sequence xxh3 t num_tokens lf s =
    (case t of
       BT_SWA \<Rightarrow> grow_window num_tokens lf s
     | BT_LINEAR \<Rightarrow> grow_linear xxh3 lf s
     | BT_EMBEDDING \<Rightarrow> grow_embedding lf s
     | _ \<Rightarrow> grow_flat t num_tokens lf s)"

end
