(* ===== verification/Composite_Manager.thy ===== *)
theory Composite_Manager imports Leaf_Managers begin

text \<open>
  The composite block manager (\<open>core/framework/block/composite_block_manager.{h,cpp}\<close>): one leaf per type of cache, in the
  order of the types.  It publishes the finished blocks of a sequence to the prefix caches of its leaves, restores a cached
  prefix over all of them (\<open>Prefix_Trim\<close>), grows a sequence in all leaves or in none, and takes its blocks back.

  The calls work on the device cache of the sequence; the overloads for the host tier are left out.
\<close>

section \<open>State\<close>

type_synonym leaves = "(block_type \<times> leaf) list"

record composite =
  cm_leaves :: leaves
  cm_shape :: leaf_combination
  cm_explicit :: bool
  cm_block_size :: nat

definition leaf_of :: "block_type \<Rightarrow> composite \<Rightarrow> leaf option" where
  "leaf_of t cm = map_of (cm_leaves cm) t"

definition supports :: "leaf \<Rightarrow> bool" where
  "supports lf = supports_prefix_cache (lf_entry lf)"

text \<open>The constructor.\<close>

definition create_composite :: "leaves \<Rightarrow> nat \<Rightarrow> bool \<Rightarrow> composite option" where
  "create_composite ls block_size explicit' =
    (case classify_leaf_combination (\<lambda>t. map_option lf_entry (map_of ls t)) of
       None \<Rightarrow> None
     | Some shape \<Rightarrow>
         if ls = [] then None
         else Some \<lparr>cm_leaves = ls, cm_shape = shape, cm_explicit = explicit', cm_block_size = block_size\<rparr>)"

definition put_leaf :: "block_type \<Rightarrow> leaf \<Rightarrow> composite \<Rightarrow> composite" where
  "put_leaf t lf cm = cm\<lparr>cm_leaves := map (\<lambda>(u, l). if u = t then (u, lf) else (u, l)) (cm_leaves cm)\<rparr>"

text \<open>The destruction of blocks of one type.\<close>

definition drop_typed :: "block_type \<Rightarrow> cache_block list \<Rightarrow> composite \<Rightarrow> composite option" where
  "drop_typed t bs cm =
    (case leaf_of t cm of
       None \<Rightarrow> if list_ex cb_valid bs then None else Some cm
     | Some lf \<Rightarrow> map_option (\<lambda>lf'. put_leaf t lf' cm) (drop_in_leaf bs lf))"

fun drop_all_typed :: "(block_type \<times> cache_block list) list \<Rightarrow> composite \<Rightarrow> composite option" where
  "drop_all_typed [] cm = Some cm"
| "drop_all_typed ((t, bs) # rest) cm = Option.bind (drop_typed t bs cm) (drop_all_typed rest)"

section \<open>Publishing\<close>

definition publishable_tokens :: "cache_sequence \<Rightarrow> leaf \<Rightarrow> nat" where
  "publishable_tokens s lf =
    (let count = length (hash_tokens s); lookahead = block_hash_lookahead (leaf_hasher lf);
         ready = (if lookahead < count then count - lookahead else 0) in
     min (kv_cache_tokens_num s) ready)"

definition publish_blocks :: "(u8 list \<Rightarrow> hash_key) \<Rightarrow> block_type \<Rightarrow> nat \<Rightarrow> nat \<Rightarrow> leaf \<Rightarrow> cache_sequence \<Rightarrow>
    (leaf \<times> cache_sequence) option" where
  "publish_blocks xxh3 t first last' lf s =
    (if last' \<le> first then Some (lf, s)
     else let size' = leaf_size lf; token_end = last' * size' + block_hash_lookahead (leaf_hasher lf); bs = kv_blocks (sq_kv s) t in
       if length bs < last' then None
       else case update_block_hashes xxh3 size' (leaf_hasher lf) s of
         None \<Rightarrow> None
       | Some s1 \<Rightarrow>
           (case slice (hash_tokens s1) 0 token_end of
              None \<Rightarrow> None
            | Some ts \<Rightarrow>
                map_option (\<lambda>(bs', p). (lf\<lparr>lf_pool := p\<rparr>,
                    s1\<lparr>sq_kv := set_num_cached_blocks t last'
                      (put_blocks t (map2 (\<lambda>c b. c\<lparr>cb_block := b\<rparr>) bs bs') (sq_kv s1))\<rparr>))
                  (cache_tokens xxh3 ts (map cb_block bs) first (sq_items s1) (block_hashes size' s1) (lf_pool lf))))"

text \<open>The leaf whose blocks are the unit of a compressed shape.\<close>

fun find_anchor :: "leaves \<Rightarrow> leaf option \<Rightarrow> leaf option" where
  "find_anchor [] anchor = anchor"
| "find_anchor ((t, lf) # ls) anchor =
    (if \<not> supports lf \<or> t = BT_SWA \<or> t = BT_EMBEDDING \<or> t = BT_LINEAR then find_anchor ls anchor
     else if (case anchor of None \<Rightarrow> True | Some a \<Rightarrow> leaf_size a < leaf_size lf) then find_anchor ls (Some lf)
     else find_anchor ls anchor)"

fun cap_by_leaves :: "leaves \<Rightarrow> nat \<Rightarrow> kv_state \<Rightarrow> nat \<Rightarrow> nat option" where
  "cap_by_leaves [] unit kv n = Some n"
| "cap_by_leaves ((t, lf) # ls) unit kv n =
    (if \<not> supports lf \<or> t = BT_EMBEDDING \<or> t = BT_LINEAR then cap_by_leaves ls unit kv n
     else if leaf_size lf = 0 \<or> unit mod leaf_size lf \<noteq> 0 then None
     else cap_by_leaves ls unit kv (min n (kv_num_blocks kv t * leaf_size lf)))"

text \<open>The size of a unit (0 for the flat shapes) and the tokens that can be published.\<close>

definition cacheable :: "composite \<Rightarrow> cache_sequence \<Rightarrow> (nat \<times> nat) option" where
  "cacheable cm s =
    (if cm_shape cm \<noteq> SWA_COMPRESSED then Some (0, min (kv_cache_tokens_num s) (length (seq_tokens s)))
     else case find_anchor (cm_leaves cm) None of
       None \<Rightarrow> None
     | Some anchor \<Rightarrow>
         let unit = leaf_size anchor in
         if unit = 0 then None
         else map_option (\<lambda>n. (unit, n div unit * unit))
                (cap_by_leaves (cm_leaves cm) unit (sq_kv s) (publishable_tokens s anchor)))"

text \<open>Of a sliding window only the blocks in front of each unit boundary are published; \<open>unit'\<close> counts up.\<close>

fun publish_windows :: "(u8 list \<Rightarrow> hash_key) \<Rightarrow> nat list \<Rightarrow> nat \<Rightarrow> nat \<Rightarrow> leaf \<Rightarrow> cache_sequence \<Rightarrow> (leaf \<times> cache_sequence) option" where
  "publish_windows xxh3 [] per_unit cached lf s = Some (lf, s)"
| "publish_windows xxh3 (unit' # units) per_unit cached lf s =
    (let unit_end = unit' * per_unit; window = lo_window_blocks (lf_opts lf);
         window_begin = (if window < unit_end then unit_end - window else 0) in
     case publish_blocks xxh3 BT_SWA (max cached window_begin) unit_end lf s of
       None \<Rightarrow> None
     | Some (lf', s') \<Rightarrow> publish_windows xxh3 units per_unit unit_end lf' s')"

definition publish_leaf :: "(u8 list \<Rightarrow> hash_key) \<Rightarrow> leaf_combination \<Rightarrow> nat \<Rightarrow> nat \<Rightarrow> block_type \<Rightarrow> leaf \<Rightarrow> cache_sequence \<Rightarrow>
    (leaf \<times> cache_sequence) option" where
  "publish_leaf xxh3 shape unit tokens t lf s =
    (let size' = leaf_size lf; bs = kv_blocks (sq_kv s) t in
     if t = BT_EMBEDDING \<or> t = BT_LINEAR \<or> \<not> supports lf \<or> size' = 0 \<or> bs = [] then Some (lf, s)
     else let full = (if shape = SWA_COMPRESSED then tokens div size' else publishable_tokens s lf div size');
              cached = num_cached_blocks (sq_kv s) t; end' = min full (length bs) in
       if end' \<le> cached then Some (lf, s)
       else if shape = SWA_COMPRESSED \<and> t = BT_SWA
       then (let per_unit = unit div size' in
             if per_unit = 0 \<or> lo_window_blocks (lf_opts lf) = 0 then None
             else publish_windows xxh3 [cached div per_unit + 1..<tokens div unit + 1] per_unit cached lf s)
       else publish_blocks xxh3 t cached end' lf s)"

fun publish_leaves :: "(u8 list \<Rightarrow> hash_key) \<Rightarrow> leaf_combination \<Rightarrow> nat \<Rightarrow> nat \<Rightarrow> leaves \<Rightarrow> cache_sequence \<Rightarrow>
    (leaves \<times> cache_sequence) option" where
  "publish_leaves xxh3 shape unit tokens [] s = Some ([], s)"
| "publish_leaves xxh3 shape unit tokens ((t, lf) # ls) s =
    (case publish_leaf xxh3 shape unit tokens t lf s of
       None \<Rightarrow> None
     | Some (lf', s1) \<Rightarrow> map_option (\<lambda>(ls', s2). ((t, lf') # ls', s2)) (publish_leaves xxh3 shape unit tokens ls s1))"

definition cache_full_blocks_for_sequence :: "(u8 list \<Rightarrow> hash_key) \<Rightarrow> composite \<Rightarrow> cache_sequence \<Rightarrow>
    (composite \<times> cache_sequence) option" where
  "cache_full_blocks_for_sequence xxh3 cm s =
    (if sq_warmup s \<or> cm_explicit cm then Some (cm, s)
     else case cacheable cm s of
       None \<Rightarrow> None
     | Some (unit, tokens) \<Rightarrow>
         map_option (\<lambda>(ls, s'). (cm\<lparr>cm_leaves := ls\<rparr>, s'))
           (publish_leaves xxh3 (cm_shape cm) unit tokens (cm_leaves cm) s))"

text \<open>\<open>cache_for_sequence\<close> for the first \<open>num_tokens\<close> tokens, in the middle of a chunked prompt.\<close>

definition cache_for_sequence_up_to :: "(u8 list \<Rightarrow> hash_key) \<Rightarrow> nat \<Rightarrow> composite \<Rightarrow> cache_sequence \<Rightarrow>
    (composite \<times> cache_sequence) option" where
  "cache_for_sequence_up_to xxh3 num_tokens cm s =
    (if sq_warmup s \<or> cm_explicit cm \<or> cm_shape cm = UNSUPPORTED \<or> cm_shape cm = SWA_COMPRESSED then Some (cm, s)
     else case leaf_of BT_KV cm of
       None \<Rightarrow> None
     | Some lf \<Rightarrow>
         let kv = sq_kv s; size' = leaf_size lf; ty = leaf_hasher lf;
             completed = (if block_hash_lookahead ty = 0 then num_tokens else kv_tokens kv);
             available = min num_tokens (min completed (kv_num_blocks kv BT_KV * size')) in
         if size' = 0 then None
         else map_option (\<lambda>(lf', s'). (put_leaf BT_KV lf' cm, s'))
                (publish_blocks xxh3 BT_KV (num_cached_blocks kv BT_KV)
                  (min (available div size') (num_hash_blocks ty (length (hash_tokens s)) size')) lf s))"


section \<open>Growing\<close>

text \<open>The leaves in turn; the first that is short ends the loop.  The result: success, the staged blocks, the leaves and the
  sequence.\<close>

fun grow_leaves :: "(u8 list \<Rightarrow> hash_key) \<Rightarrow> nat \<Rightarrow> leaves \<Rightarrow> cache_sequence \<Rightarrow>
    (bool \<times> (block_type \<times> cache_block list) list \<times> leaves \<times> cache_sequence) option" where
  "grow_leaves xxh3 n [] s = Some (True, [], [], s)"
| "grow_leaves xxh3 n ((t, lf) # ls) s =
    (case leaf_allocate_for_sequence xxh3 t n lf s of
       None \<Rightarrow> None
     | Some (None, lf', s') \<Rightarrow> Some (False, [], (t, lf') # ls, s')
     | Some (Some bs, lf', s') \<Rightarrow>
         map_option (\<lambda>(ok, staged, ls', s''). (ok, if bs = [] then staged else (t, bs) # staged, (t, lf') # ls', s''))
           (grow_leaves xxh3 n ls s'))"

definition staged_for :: "(block_type \<times> cache_block list) list \<Rightarrow> block_type \<Rightarrow> nat" where
  "staged_for staged t = (case map_of staged t of None \<Rightarrow> 0 | Some bs \<Rightarrow> length bs)"

definition covered :: "nat \<Rightarrow> (block_type \<times> cache_block list) list \<Rightarrow> kv_state \<Rightarrow> block_type \<times> leaf \<Rightarrow> bool" where
  "covered n staged kv = (\<lambda>(t, lf). t = BT_EMBEDDING \<or> t = BT_LINEAR \<or> leaf_size lf = 0
     \<or> (n + leaf_size lf - 1) div leaf_size lf \<le> kv_num_blocks kv t + staged_for staged t)"

fun add_staged :: "(block_type \<times> cache_block list) list \<Rightarrow> kv_state \<Rightarrow> kv_state option" where
  "add_staged [] kv = Some kv"
| "add_staged ((t, bs) # rest) kv = Option.bind (add_blocks t bs kv) (add_staged rest)"

definition allocate_sequence :: "(u8 list \<Rightarrow> hash_key) \<Rightarrow> nat \<Rightarrow> composite \<Rightarrow> cache_sequence \<Rightarrow>
    (bool \<times> composite \<times> cache_sequence) option" where
  "allocate_sequence xxh3 n cm0 s0 =
    (case cache_full_blocks_for_sequence xxh3 cm0 s0 of
       None \<Rightarrow> None
     | Some (cm1, s1) \<Rightarrow>
         (case grow_leaves xxh3 n (cm_leaves cm1) s1 of
            None \<Rightarrow> None
          | Some (ok, staged, ls, s2) \<Rightarrow>
              let cm2 = cm1\<lparr>cm_leaves := ls\<rparr> in
              if ok \<and> list_all (covered n staged (sq_kv s2)) ls
              then (case add_staged staged (sq_kv s2) of
                      None \<Rightarrow> None
                    | Some kv \<Rightarrow> map_option (\<lambda>(cm, s). (True, cm, s)) (cache_full_blocks_for_sequence xxh3 cm2 (s2\<lparr>sq_kv := kv\<rparr>)))
              else map_option (\<lambda>cm. (False, cm, s2)) (drop_all_typed staged cm2)))"

fun erase_types :: "leaves \<Rightarrow> composite \<Rightarrow> cache_sequence \<Rightarrow> (composite \<times> cache_sequence) option" where
  "erase_types [] cm s = Some (cm, s)"
| "erase_types ((t, _) # ls) cm s =
    (let (bs, kv) = erase_blocks t (sq_kv s) in
     case drop_typed t bs cm of None \<Rightarrow> None | Some cm' \<Rightarrow> erase_types ls cm' (s\<lparr>sq_kv := kv\<rparr>))"

definition deallocate_for_sequence :: "(u8 list \<Rightarrow> hash_key) \<Rightarrow> composite \<Rightarrow> cache_sequence \<Rightarrow> (composite \<times> cache_sequence) option" where
  "deallocate_for_sequence xxh3 cm s =
    (case cache_full_blocks_for_sequence xxh3 cm s of
       None \<Rightarrow> None
     | Some (cm', s') \<Rightarrow> erase_types (cm_leaves cm') cm' s')"

section \<open>Restoring a prefix\<close>

text \<open>One leaf: whether it is probed, and its probe.\<close>

definition probed :: "block_type \<Rightarrow> leaf \<Rightarrow> cache_sequence \<Rightarrow> bool" where
  "probed t lf s \<longleftrightarrow> \<not> (t = BT_LINEAR \<and> \<not> is_prefill_stage s) \<and> supports lf"

definition probe_leaf :: "(u8 list \<Rightarrow> hash_key) \<Rightarrow> block_type \<Rightarrow> leaf \<Rightarrow> cache_sequence \<Rightarrow>
    (probe_result \<times> leaf \<times> cache_sequence) option" where
  "probe_leaf xxh3 t lf s =
    (let size' = leaf_size lf in
     case update_block_hashes xxh3 size' (leaf_hasher lf) s of
       None \<Rightarrow> None
     | Some s1 \<Rightarrow>
         (case (if t = BT_LINEAR then Some [] else slice (kv_blocks (sq_kv s1) t) 0 (shared_blocks_num (sq_kv s1) t)) of
            None \<Rightarrow> None
          | Some existed \<Rightarrow>
              map_option (\<lambda>(bs, p). (\<lparr>pr_type = t, pr_blocks = own_blocks size' bs, pr_block_size = size', pr_window = lo_window_blocks (lf_opts lf)\<rparr>,
                  lf\<lparr>lf_pool := p\<rparr>, s1))
                (allocate_shared xxh3 (hash_tokens s1) (map cb_block existed) (sq_items s1) (block_hashes size' s1) (lf_pool lf))))"

fun probe_prefix_cache :: "(u8 list \<Rightarrow> hash_key) \<Rightarrow> leaves \<Rightarrow> cache_sequence \<Rightarrow>
    (probe_result list \<times> leaves \<times> cache_sequence) option" where
  "probe_prefix_cache xxh3 [] s = Some ([], [], s)"
| "probe_prefix_cache xxh3 ((t, lf) # ls) s =
    (if \<not> probed t lf s then map_option (\<lambda>(ps, ls', s'). (ps, (t, lf) # ls', s')) (probe_prefix_cache xxh3 ls s)
     else case probe_leaf xxh3 t lf s of
       None \<Rightarrow> None
     | Some (p, lf', s1) \<Rightarrow> map_option (\<lambda>(ps, ls', s'). (p # ps, (t, lf') # ls', s')) (probe_prefix_cache xxh3 ls s1))"

text \<open>The longest prefix that may be restored: the last token, and the token in front of each sample slot, is computed.\<close>

definition max_prefix_tokens :: "cache_sequence \<Rightarrow> nat" where
  "max_prefix_tokens s = fold (\<lambda>slot n. min n (slot - 1)) (sq_slots s) (length (seq_tokens s) - 1)"

definition trim_probes :: "leaf_combination \<Rightarrow> nat \<Rightarrow> probe_result list \<Rightarrow> trim_outcome option" where
  "trim_probes shape max_prefix probes =
    (case shape of
       FLAT_KV \<Rightarrow> trim_flat_kv probes
     | FLAT_KV_LINEAR \<Rightarrow> trim_flat_kv_linear probes
     | SWA_COMPRESSED \<Rightarrow> trim_swa_compressed probes max_prefix
     | UNSUPPORTED \<Rightarrow> None)"

definition mount_probe :: "leaf_combination \<Rightarrow> nat \<Rightarrow> probe_result \<Rightarrow> kv_state \<Rightarrow> (cache_block list \<times> kv_state) option" where
  "mount_probe shape all_tokens p kv =
    (if shape = SWA_COMPRESSED \<or> pr_type p = BT_LINEAR
     then map_option (\<lambda>kv'. ([], kv')) (mount_composite_shared (pr_type p) (pr_blocks p) kv)
     else add_shared_blocks (pr_type p) (pr_blocks p) all_tokens kv)"

fun mount_probes :: "leaf_combination \<Rightarrow> probe_result list \<Rightarrow> composite \<Rightarrow> cache_sequence \<Rightarrow> (composite \<times> cache_sequence) option" where
  "mount_probes shape [] cm s = Some (cm, s)"
| "mount_probes shape (p # ps) cm s =
    (case mount_probe shape (sq_num s) p (sq_kv s) of
       None \<Rightarrow> None
     | Some (dropped, kv) \<Rightarrow>
         (case drop_typed (pr_type p) dropped cm of
            None \<Rightarrow> None
          | Some cm' \<Rightarrow> mount_probes shape ps cm' (s\<lparr>sq_kv := kv\<rparr>)))"

definition allocate_shared_for_sequence :: "(u8 list \<Rightarrow> hash_key) \<Rightarrow> composite \<Rightarrow> cache_sequence \<Rightarrow>
    (composite \<times> cache_sequence) option" where
  "allocate_shared_for_sequence xxh3 cm0 s0 =
    (let shape = cm_shape cm0; matched = (\<lambda>s. s\<lparr>sq_kv := (sq_kv s)\<lparr>prefix_matched := True\<rparr>\<rparr>) in
     if shape = UNSUPPORTED then Some (cm0, s0)
     else if shape = FLAT_KV_LINEAR \<and> prefix_matched (sq_kv s0) then Some (cm0, s0)
     else if shape = SWA_COMPRESSED \<and> (leaf_of BT_C1 cm0 \<noteq> None \<or> leaf_of BT_C2 cm0 \<noteq> None)
       \<and> (prefix_matched (sq_kv s0) \<or> 0 < kv_tokens (sq_kv s0)) then Some (cm0, s0)
     else case probe_prefix_cache xxh3 (cm_leaves cm0) s0 of
       None \<Rightarrow> None
     | Some ([], ls, s1) \<Rightarrow> Some (cm0\<lparr>cm_leaves := ls\<rparr>, matched s1)
     | Some (probes, ls, s1) \<Rightarrow>
         (case trim_probes shape (max_prefix_tokens s1) probes of
            None \<Rightarrow> None
          | Some out \<Rightarrow>
              (case drop_all_typed (map (\<lambda>p. (pr_type p, pr_blocks p)) (to_drop out)) (cm0\<lparr>cm_leaves := ls\<rparr>) of
                 None \<Rightarrow> None
               | Some cm1 \<Rightarrow>
                   map_option (\<lambda>(cm2, s2). (cm2, matched
                       (if shape = SWA_COMPRESSED then s2\<lparr>sq_kv := set_kv_cache_tokens_num (safe_hit_tokens out) (sq_kv s2)\<rparr> else s2)))
                     (mount_probes shape (to_mount out) cm1 s1))))"

section \<open>Counts\<close>

definition admission_leaves :: "composite \<Rightarrow> leaf list" where
  "admission_leaves cm = filter (\<lambda>lf. participates_in_admission (lf_entry lf)) (map snd (cm_leaves cm))"

text \<open>A count of each admission leaf, scaled to blocks of the composite.\<close>

definition scaled_counts :: "(pool \<Rightarrow> nat) \<Rightarrow> composite \<Rightarrow> nat list option" where
  "scaled_counts get cm =
    (if list_ex (\<lambda>lf. cm_block_size cm = 0 \<or> leaf_size lf mod cm_block_size cm \<noteq> 0) (admission_leaves cm) then None
     else Some (map (\<lambda>lf. get (lf_pool lf) * (leaf_size lf div cm_block_size cm)) (admission_leaves cm)))"

definition least_or_0 :: "nat list \<Rightarrow> nat" where
  "least_or_0 ns = (case ns of [] \<Rightarrow> 0 | n # ms \<Rightarrow> fold min ms n)"

definition cm_num_available_blocks :: "composite \<Rightarrow> nat option" where
  "cm_num_available_blocks cm = map_option least_or_0 (scaled_counts (\<lambda>p. num_free_blocks p + num_evictable_blocks p) cm)"

definition cm_num_free_blocks :: "composite \<Rightarrow> nat option" where
  "cm_num_free_blocks cm = map_option least_or_0 (scaled_counts num_free_blocks cm)"

definition cm_num_total_blocks :: "composite \<Rightarrow> nat option" where
  "cm_num_total_blocks cm = map_option least_or_0 (scaled_counts num_total_blocks cm)"

definition cm_num_used_blocks :: "composite \<Rightarrow> nat option" where
  "cm_num_used_blocks cm = map_option (\<lambda>ns. fold max ns 0) (scaled_counts num_used_blocks cm)"

fun reset_leaves :: "leaves \<Rightarrow> leaves option" where
  "reset_leaves [] = Some []"
| "reset_leaves ((t, lf) # ls) =
    (case reset_prefix_cache (lf_pool lf) of
       None \<Rightarrow> None
     | Some p \<Rightarrow> map_option (\<lambda>ls'. (t, lf\<lparr>lf_pool := p\<rparr>) # ls') (reset_leaves ls))"

definition cm_reset_prefix_cache :: "composite \<Rightarrow> composite option" where
  "cm_reset_prefix_cache cm = map_option (\<lambda>ls. cm\<lparr>cm_leaves := ls\<rparr>) (reset_leaves (cm_leaves cm))"

text \<open>\<open>allocate_blocks\<close> of one type.\<close>

definition allocate_blocks :: "block_type \<Rightarrow> nat \<Rightarrow> composite \<Rightarrow> (cache_block list \<times> composite) option" where
  "allocate_blocks t n cm =
    (case leaf_of t cm of
       None \<Rightarrow> None
     | Some lf \<Rightarrow> map_option (\<lambda>(bs, lf'). (bs, put_leaf t lf' cm)) (allocate_in_leaf n lf))"

end
