(* ===== verification/Manager_Pool.thy ===== *)
theory Manager_Pool imports Composite_Manager begin

text \<open>
  The pool of block managers (\<open>core/framework/block/block_manager_pool.{h,cpp}\<close>): one composite manager per data-parallel
  rank.  A sequence is bound to the rank with the most room when it first asks for blocks, takes over a cached prefix,
  grows, and gives its blocks back.  This pool has no host tier: a sequence that holds host blocks when it is reset is
  outside of the model (\<open>None\<close>).  Metrics, the utilization ratios and the preparation of virtual pages are left out.
\<close>

section \<open>State\<close>

record manager_pool =
  mp_managers :: "composite list"
  mp_block_size :: nat
  mp_prefix_cache :: bool
  mp_cursor :: u64
  mp_swaps :: "(int \<times> int) list list"

section \<open>The rank of a sequence\<close>

text \<open>The loop over the ranks: the greatest number of available blocks and the ranks that have it.\<close>

fun best_ranks :: "nat \<Rightarrow> composite list \<Rightarrow> nat \<Rightarrow> nat list \<Rightarrow> (nat \<times> nat list) option" where
  "best_ranks i [] most candidates = Some (most, candidates)"
| "best_ranks i (cm # cms) most candidates =
    (case (cm_num_available_blocks cm, cm_num_total_blocks cm) of
       (Some available, Some all) \<Rightarrow>
         if all < available then None
         else if candidates = [] \<or> most < available then best_ranks (i + 1) cms available [i]
         else if available = most then best_ranks (i + 1) cms most (candidates @ [i])
         else best_ranks (i + 1) cms most candidates
     | _ \<Rightarrow> None)"

definition get_manager_with_max_available_blocks :: "manager_pool \<Rightarrow> (nat \<times> manager_pool) option" where
  "get_manager_with_max_available_blocks mp =
    (if mp_managers mp = [] then Some (0, mp)
     else case best_ranks 0 (mp_managers mp) 0 [] of
       None \<Rightarrow> None
     | Some (_, []) \<Rightarrow> None
     | Some (_, [i]) \<Rightarrow> Some (i, mp)
     | Some (_, candidates) \<Rightarrow>
         Some (candidates ! (unat (mp_cursor mp) mod length candidates), mp\<lparr>mp_cursor := mp_cursor mp + 1\<rparr>))"

definition get_dp_rank :: "manager_pool \<Rightarrow> cache_sequence \<Rightarrow> (nat \<times> manager_pool \<times> cache_sequence) option" where
  "get_dp_rank mp s =
    (if 0 \<le> sq_rank s then Some (nat (sq_rank s), mp, s)
     else map_option (\<lambda>(i, mp'). (i, mp', s\<lparr>sq_rank := int i\<rparr>)) (get_manager_with_max_available_blocks mp))"

text \<open>A call on the manager of a rank.\<close>

definition on_rank :: "nat \<Rightarrow> (composite \<Rightarrow> cache_sequence \<Rightarrow> (composite \<times> cache_sequence) option) \<Rightarrow> manager_pool \<Rightarrow> cache_sequence \<Rightarrow>
    (manager_pool \<times> cache_sequence) option" where
  "on_rank i call mp s =
    (if length (mp_managers mp) \<le> i then None
     else map_option (\<lambda>(cm, s'). (mp\<lparr>mp_managers := (mp_managers mp)[i := cm]\<rparr>, s')) (call (mp_managers mp ! i) s))"

section \<open>Releasing\<close>

text \<open>The composite takes the blocks of its types; \<open>reset\<close> drops what is left, of the device types and of beam search.\<close>

definition reset_in :: "composite \<Rightarrow> cache_sequence \<Rightarrow> (composite \<times> cache_sequence) option" where
  "reset_in cm s =
    (let (_, _, s') = reset_sequence s in
     if \<not> list_all (\<lambda>t. kv_blocks (sq_host s) t = []) map_order \<or> src_blocks (sq_host s) \<noteq> [] then None
     else map_option (\<lambda>cm'. (cm', s'))
       (drop_all_typed (map (\<lambda>t. (t, kv_blocks (sq_kv s) t)) map_order @ [(BT_KV, src_blocks (sq_kv s))]) cm))"

definition release_in :: "(u8 list \<Rightarrow> hash_key) \<Rightarrow> composite \<Rightarrow> cache_sequence \<Rightarrow> (composite \<times> cache_sequence) option" where
  "release_in xxh3 cm s = Option.bind (deallocate_for_sequence xxh3 cm s) (\<lambda>(cm', s'). reset_in cm' s')"

definition pool_deallocate :: "(u8 list \<Rightarrow> hash_key) \<Rightarrow> manager_pool \<Rightarrow> cache_sequence \<Rightarrow> (manager_pool \<times> cache_sequence) option" where
  "pool_deallocate xxh3 mp s =
    (case get_dp_rank mp s of
       None \<Rightarrow> None
     | Some (i, mp1, s1) \<Rightarrow> on_rank i (release_in xxh3) mp1 s1)"

section \<open>Allocation\<close>

text \<open>Beam search swaps the last block of the source; the result says whether there was a block for it, and the pair of
  blocks to copy.\<close>

definition beam_in :: "bool \<Rightarrow> composite \<Rightarrow> cache_sequence \<Rightarrow> (bool \<times> (int \<times> int) list \<times> composite \<times> cache_sequence) option" where
  "beam_in swap cm s =
    (if sq_beam s \<le> 1 \<or> src_blocks (sq_kv s) = [] then Some (True, [], cm, s)
     else let finish = (\<lambda>b copies cm'.
         (case process_beam_search b (sq_kv s) of
            None \<Rightarrow> None
          | Some (dropped, kv) \<Rightarrow>
              map_option (\<lambda>cm''. (True, copies, cm'', s\<lparr>sq_kv := kv\<rparr>)) (drop_typed BT_KV dropped cm'))) in
       if swap \<and> need_swap (sq_kv s)
       then (case allocate_blocks BT_KV 1 cm of
               None \<Rightarrow> None
             | Some ([], cm') \<Rightarrow> Some (False, [], cm', s)
             | Some (b # _, cm') \<Rightarrow> finish (Some b) [(block_id (cb_block (last (src_blocks (sq_kv s)))), block_id (cb_block b))] cm')
       else finish None [] cm)"

text \<open>\<open>allocate(sequence, num_tokens)\<close> behind the choice of the rank.\<close>

definition allocate_in :: "(u8 list \<Rightarrow> hash_key) \<Rightarrow> nat \<Rightarrow> nat \<Rightarrow> composite \<Rightarrow> cache_sequence \<Rightarrow>
    (bool \<times> (int \<times> int) list \<times> composite \<times> cache_sequence) option" where
  "allocate_in xxh3 block_size num_tokens cm s =
    (let started_empty = \<not> seq_has_any_blocks s in
     case (if started_empty then allocate_shared_for_sequence xxh3 cm s else Some (cm, s)) of
       None \<Rightarrow> None
     | Some (cm1, s1) \<Rightarrow>
         if block_size = 0 then None
         else (case beam_in ((num_tokens + block_size - 1) div block_size \<le> kv_num_blocks (sq_kv s1) BT_KV) cm1 s1 of
             None \<Rightarrow> None
           | Some (False, copies, cm2, s2) \<Rightarrow> Some (False, copies, cm2, s2)
           | Some (True, copies, cm2, s2) \<Rightarrow>
               (case allocate_sequence xxh3 num_tokens cm2 s2 of
                  None \<Rightarrow> None
                | Some (True, cm3, s3) \<Rightarrow> Some (True, copies, cm3, s3)
                | Some (False, cm3, s3) \<Rightarrow>
                    if started_empty
                    then map_option (\<lambda>(cm4, s4). (False, copies, cm4, s4)) (release_in xxh3 cm3 s3)
                    else Some (False, copies, cm3, s3))))"

definition pool_allocate :: "(u8 list \<Rightarrow> hash_key) \<Rightarrow> nat \<Rightarrow> manager_pool \<Rightarrow> cache_sequence \<Rightarrow>
    (bool \<times> manager_pool \<times> cache_sequence) option" where
  "pool_allocate xxh3 num_tokens mp s =
    (case get_dp_rank mp s of
       None \<Rightarrow> None
     | Some (i, mp1, s1) \<Rightarrow>
         if length (mp_managers mp1) \<le> i \<or> length (mp_swaps mp1) \<le> i then None
         else map_option (\<lambda>(ok, copies, cm, s2).
             (ok, mp1\<lparr>mp_managers := (mp_managers mp1)[i := cm], mp_swaps := (mp_swaps mp1)[i := mp_swaps mp1 ! i @ copies]\<rparr>, s2))
           (allocate_in xxh3 (mp_block_size mp1) num_tokens (mp_managers mp1 ! i) s1))"

text \<open>\<open>allocate\<close> of all sequences of a request stops at the first that fails.\<close>

fun pool_allocate_all :: "(u8 list \<Rightarrow> hash_key) \<Rightarrow> manager_pool \<Rightarrow> cache_sequence list \<Rightarrow>
    (bool \<times> manager_pool \<times> cache_sequence list) option" where
  "pool_allocate_all xxh3 mp [] = Some (True, mp, [])"
| "pool_allocate_all xxh3 mp (s # ss) =
    (case pool_allocate xxh3 (sq_num s) mp s of
       None \<Rightarrow> None
     | Some (False, mp', s') \<Rightarrow> Some (False, mp', s' # ss)
     | Some (True, mp', s') \<Rightarrow> map_option (\<lambda>(ok, mp'', ss'). (ok, mp'', s' # ss')) (pool_allocate_all xxh3 mp' ss))"

text \<open>\<open>try_allocate\<close> takes the whole prompt and counts its tokens as cached.\<close>

definition try_allocate_in :: "(u8 list \<Rightarrow> hash_key) \<Rightarrow> composite \<Rightarrow> cache_sequence \<Rightarrow> (bool \<times> composite \<times> cache_sequence) option" where
  "try_allocate_in xxh3 cm s =
    (case allocate_shared_for_sequence xxh3 cm s of
       None \<Rightarrow> None
     | Some (cm1, s1) \<Rightarrow>
         (case allocate_sequence xxh3 (sq_num s1) cm1 s1 of
            None \<Rightarrow> None
          | Some (False, cm2, s2) \<Rightarrow> map_option (\<lambda>(cm3, s3). (False, cm3, s3)) (release_in xxh3 cm2 s2)
          | Some (True, cm2, s2) \<Rightarrow>
              if kv_tokens (sq_kv s2) < length (seq_tokens s2)
              then map_option (\<lambda>kv. (True, cm2, s2\<lparr>sq_kv := kv\<rparr>))
                     (incr_kv_cache_tokens_num (length (seq_tokens s2) - kv_tokens (sq_kv s2)) (sq_kv s2))
              else Some (True, cm2, s2)))"

definition try_allocate :: "(u8 list \<Rightarrow> hash_key) \<Rightarrow> manager_pool \<Rightarrow> cache_sequence \<Rightarrow> (bool \<times> manager_pool \<times> cache_sequence) option" where
  "try_allocate xxh3 mp s =
    (case get_dp_rank mp s of
       None \<Rightarrow> None
     | Some (i, mp1, s1) \<Rightarrow>
         if length (mp_managers mp1) \<le> i then None
         else map_option (\<lambda>(ok, cm, s2). (ok, mp1\<lparr>mp_managers := (mp_managers mp1)[i := cm]\<rparr>, s2))
           (try_allocate_in xxh3 (mp_managers mp1 ! i) s1))"

text \<open>Raw blocks of the rank with the most room, of the flat cache only.\<close>

definition pool_allocate_raw :: "nat \<Rightarrow> manager_pool \<Rightarrow> (cache_block list \<times> nat \<times> manager_pool) option" where
  "pool_allocate_raw num_tokens mp =
    (case get_manager_with_max_available_blocks mp of
       None \<Rightarrow> None
     | Some (i, mp1) \<Rightarrow>
         if mp_block_size mp1 = 0 \<or> length (mp_managers mp1) \<le> i then None
         else map_option (\<lambda>(bs, cm). (bs, i, mp1\<lparr>mp_managers := (mp_managers mp1)[i := cm]\<rparr>))
           (allocate_blocks BT_KV ((num_tokens + mp_block_size mp1 - 1) div mp_block_size mp1) (mp_managers mp1 ! i)))"

section \<open>Sharing and publishing\<close>

definition share_in :: "(u8 list \<Rightarrow> hash_key) \<Rightarrow> composite \<Rightarrow> cache_sequence \<Rightarrow> (composite \<times> cache_sequence) option" where
  "share_in xxh3 cm s =
    (if (cm_shape cm = SWA_COMPRESSED \<or> cm_shape cm = FLAT_KV_LINEAR) \<and> prefix_matched (sq_kv s) then Some (cm, s)
     else allocate_shared_for_sequence xxh3 cm s)"

definition on_bound_rank :: "(composite \<Rightarrow> cache_sequence \<Rightarrow> (composite \<times> cache_sequence) option) \<Rightarrow> manager_pool \<Rightarrow> cache_sequence \<Rightarrow>
    (manager_pool \<times> cache_sequence) option" where
  "on_bound_rank call mp s =
    (if \<not> mp_prefix_cache mp then Some (mp, s)
     else case get_dp_rank mp s of
       None \<Rightarrow> None
     | Some (i, mp1, s1) \<Rightarrow> on_rank i call mp1 s1)"

definition pool_allocate_shared :: "(u8 list \<Rightarrow> hash_key) \<Rightarrow> manager_pool \<Rightarrow> cache_sequence \<Rightarrow> (manager_pool \<times> cache_sequence) option" where
  "pool_allocate_shared xxh3 = on_bound_rank (share_in xxh3)"

definition pool_cache :: "(u8 list \<Rightarrow> hash_key) \<Rightarrow> manager_pool \<Rightarrow> cache_sequence \<Rightarrow> (manager_pool \<times> cache_sequence) option" where
  "pool_cache xxh3 = on_bound_rank (cache_full_blocks_for_sequence xxh3)"

definition pool_cache_up_to :: "(u8 list \<Rightarrow> hash_key) \<Rightarrow> nat \<Rightarrow> manager_pool \<Rightarrow> cache_sequence \<Rightarrow> (manager_pool \<times> cache_sequence) option" where
  "pool_cache_up_to xxh3 n = on_bound_rank (cache_for_sequence_up_to xxh3 n)"

fun reset_managers :: "composite list \<Rightarrow> composite list option" where
  "reset_managers [] = Some []"
| "reset_managers (cm # cms) =
    (case cm_reset_prefix_cache cm of None \<Rightarrow> None | Some cm' \<Rightarrow> map_option (Cons cm') (reset_managers cms))"

definition pool_reset_prefix_cache :: "manager_pool \<Rightarrow> manager_pool option" where
  "pool_reset_prefix_cache mp =
    (if \<not> mp_prefix_cache mp then Some mp
     else map_option (\<lambda>cms. mp\<lparr>mp_managers := cms\<rparr>) (reset_managers (mp_managers mp)))"

end
