(* ===== verification/Flat_Pool.thy ===== *)
theory Flat_Pool imports Manager_Pool Sequence_Cache_Properties Block_Properties begin

text \<open>
  A block pool seen by the clients that grow, publish and share (\<open>core/framework/block/block_manager_impl.cpp\<close>): what each
  operation does to the nodes of the prefix cache, and why no operation fails while the blocks that are not yet
  published belong to one client each and are in no node.
\<close>

section \<open>Private blocks\<close>

abbreviation node_ids :: "pool \<Rightarrow> int set" where
  "node_ids p \<equiv> block_id ` set (cache_nodes p)"

abbreviation ids :: "cache_block list \<Rightarrow> int list" where
  "ids bs \<equiv> map (\<lambda>c. block_id (cb_block c)) bs"

text \<open>The clients hold \<open>H\<close>; the blocks \<open>U\<close> are private: one alias each, and not in the cache.\<close>

definition private_ids :: "pool \<Rightarrow> int list \<Rightarrow> int set \<Rightarrow> bool" where
  "private_ids p H U \<longleftrightarrow> (\<forall>u \<in> U. u \<in> set H \<and> u \<notin> node_ids p \<and> count_list H u = 1)"

definition pool_flat :: "pool \<Rightarrow> int list \<Rightarrow> int set \<Rightarrow> bool" where
  "pool_flat p H U \<longleftrightarrow> pool_ok p H \<and> private_ids p H U"

lemma private_subset: "private_ids p H U \<Longrightarrow> V \<subseteq> U \<Longrightarrow> private_ids p H V"
  by (auto simp: private_ids_def)

lemma private_nodes: "private_ids p H U \<Longrightarrow> node_ids q \<subseteq> node_ids p \<Longrightarrow> private_ids q H U"
  unfolding private_ids_def by blast

lemma count_list_mset: "mset H = mset H' \<Longrightarrow> count_list H = count_list H'"
  by (simp add: fun_eq_iff count_mset [symmetric])

lemma private_perm: "mset H = mset H' \<Longrightarrow> private_ids p H U = private_ids p H' U"
proof -
  assume eq: "mset H = mset H'"
  have "set H = set H'" using eq by (rule mset_eq_setD)
  then show ?thesis unfolding private_ids_def count_list_mset [OF eq] by simp
qed

lemma pool_flat_perm: "mset H = mset H' \<Longrightarrow> pool_flat p H U = pool_flat p H' U"
  unfolding pool_flat_def using private_perm pool_ok_perm by blast

lemma pool_flat_subset: "pool_flat p H U \<Longrightarrow> V \<subseteq> U \<Longrightarrow> pool_flat p H V"
  using private_subset by (auto simp: pool_flat_def)

section \<open>Nodes of the cache\<close>

lemma has_enough_nodes:
  assumes "pool_ok p H" "has_enough_blocks n p = Some (r, q)"
  shows "set (cache_nodes q) \<subseteq> set (cache_nodes p)"
proof -
  have spec: "set (evict_spec f k bs) \<subseteq> set bs" for f k bs by (induction f k bs rule: evict_spec.induct) auto
  consider "q = p" | k e where "evict k p = Some (e, q)"
    using assms(2) by (auto simp: has_enough_blocks_def Let_def split: if_splits option.splits)
  then show ?thesis
  proof cases
    case 2
    then obtain pc where pc: "prefix_cache p = Some pc" by (auto simp: evict_def split: option.splits)
    show ?thesis using evict_ok [OF assms(1) pc, of k] 2 spec by auto
  qed simp
qed

lemma allocate_nodes:
  assumes "pool_ok p H" "allocate n p = Some (bs, q)"
  shows "set (cache_nodes q) \<subseteq> set (cache_nodes p) \<and> set (map block_id bs) \<inter> node_ids q = {}"
proof -
  obtain r q1 where q1: "has_enough_blocks n p = Some (r, q1)"
    using assms(2) by (auto simp: allocate_def split: option.splits)
  note sub = has_enough_nodes [OF assms(1) q1]
  have ok1: "pool_ok q1 H" using has_enough_ok [OF assms(1), of n] q1 by auto
  show ?thesis
  proof (cases r)
    case False
    then show ?thesis using assms(2) q1 sub by (simp add: allocate_def)
  next
    case True
    then have pop: "n \<le> num_free_blocks q1" "pop_blocks n q1 = Some (bs, q)" using assms(2) q1 by (auto simp: allocate_def split: if_splits)
    then have q: "\<forall>b \<in> set bs. ref_counts q1 (block_id b) = 0" "cache_nodes q = cache_nodes q1"
      using pop_blocks_ok [OF ok1 pop(1)] by (auto simp: cache_nodes_def)
    have "i \<noteq> 0 \<and> ref_counts q1 i \<noteq> 0" if i: "i \<in> node_ids q1" for i
    proof -
      have rf: "refs_ok (ref_counts q1) (cache_nodes q1) H" using pool_ok_refs(1) [OF ok1] .
      from i obtain m where "m \<in> set (cache_nodes q1)" "i = block_id m" by blast
      then show ?thesis using refs_node [OF rf] refs_node_pos [OF rf] by fastforce
    qed
    then show ?thesis using q sub by (fastforce simp: disjoint_iff)
  qed
qed

lemma drop_alias_nodes:
  assumes "pool_ok p H" "block_id b \<in> set H" "drop_alias b p = Some q"
  shows "cache_nodes q = cache_nodes p"
proof -
  have "is_valid b" using refs_held_pos [OF pool_ok_refs(1) [OF assms(1)] assms(2)] by (simp add: is_valid_def)
  then have "free_block b p = Some q" using assms(3) by (simp add: drop_alias_def)
  then show ?thesis using free_block_ok [of p H b] assms(1,2) same_cache_listD(2) by (auto simp: pool_ok_def)
qed

lemma drop_cached_ok:
  "pool_ok p (ids bs @ H) \<Longrightarrow>
    \<exists>q. drop_cached bs p = Some q \<and> pool_ok q H \<and> options q = options p \<and> cache_nodes q = cache_nodes p"
proof (induction bs arbitrary: p)
  case (Cons c bs)
  have held: "block_id (cb_block c) \<in> set (ids (c # bs) @ H)" by simp
  obtain p1 where p1: "drop_alias (cb_block c) p = Some p1" "pool_ok p1 (ids bs @ H)" "options p1 = options p"
    using drop_alias_ok [OF Cons.prems held] by auto
  obtain q where "drop_cached bs p1 = Some q" "pool_ok q H" "options q = options p1" "cache_nodes q = cache_nodes p1"
    using Cons.IH [OF p1(2)] by blast
  then show ?case using p1 drop_alias_nodes [OF Cons.prems held p1(1)] by (auto simp: drop_cached_def)
qed (simp add: drop_cached_def)

lemma drop_cached_flat:
  assumes "pool_ok p (ids bs @ H)" "private_ids p H U"
  shows "\<exists>q. drop_cached bs p = Some q \<and> pool_flat q H U \<and> options q = options p \<and> cache_nodes q = cache_nodes p"
  using drop_cached_ok [OF assms(1)] assms(2) by (auto simp: pool_flat_def private_ids_def)

lemma allocate_flat:
  assumes "pool_flat p H U"
  shows "\<exists>bs q. allocate n p = Some (bs, q) \<and> pool_flat q (map block_id bs @ H) (set (map block_id bs) \<union> U)
    \<and> options q = options p \<and> length bs = (if n \<le> num_free_blocks p + num_evictable_blocks p then n else 0) \<and> list_all is_valid bs"
proof -
  have ok: "pool_ok p H" using assms by (simp add: pool_flat_def)
  obtain bs q where q: "allocate n p = Some (bs, q)" "pool_ok q (map block_id bs @ H)" "options q = options p"
      "length bs = (if n \<le> num_free_blocks p + num_evictable_blocks p then n else 0)" "distinct (map block_id bs)"
      "set (map block_id bs) \<inter> set H = {}" "list_all is_valid bs"
    using allocate_ok [OF ok] by blast
  note nodes = allocate_nodes [OF ok q(1)]
  have "private_ids q (map block_id bs @ H) (set (map block_id bs) \<union> U)"
    unfolding private_ids_def
  proof (rule ballI)
    fix u assume u: "u \<in> set (map block_id bs) \<union> U"
    show "u \<in> set (map block_id bs @ H) \<and> u \<notin> node_ids q \<and> count_list (map block_id bs @ H) u = 1"
    proof (cases "u \<in> set (map block_id bs)")
      case True
      then have "u \<notin> set H" using q(6) by blast
      then have "count_list H u = 0" by (simp add: count_list_0_iff)
      moreover have "count_list (map block_id bs) u = 1" using True q(5) by (simp only: count_list_distinct if_True)
      ultimately show ?thesis using True nodes by auto
    next
      case False
      then have "u \<in> U" using u by blast
      moreover have "count_list (map block_id bs) u = 0" using False by (simp add: count_list_0_iff)
      ultimately show ?thesis using assms nodes by (auto simp: pool_flat_def private_ids_def)
    qed
  qed
  then show ?thesis using q by (auto simp: pool_flat_def)
qed


section \<open>Publishing\<close>

lemma insert_block_nodes:
  assumes "walk_ok w H" "insert_block b w = Some w'"
  shows "set (walk_nodes w') \<subseteq> insert b (set (walk_nodes w))"
proof (cases "map_of (cached_blocks (walk_cache w)) (block_hash b)")
  case (Some n)
  have ok: "nodes_ok (walk_cache w) (walk_nodes w)" using assms(1) by (simp add: walk_ok_def)
  then have "n \<in> set (walk_nodes w)" using Some nodes_find by simp
  from move_to_hits_nodes [OF this nodes_distinct [OF ok]]
  have "set (walk_nodes (move_to_hits n w)) = set (walk_nodes w)" by (metis set_mset_mset)
  then show ?thesis using Some assms(2) by (auto simp: insert_block_def)
next
  case None
  then show ?thesis using assms(2) by (auto simp: insert_block_def Let_def walk_nodes_def split: if_splits)
qed

lemma insert_loop_nodes:
  assumes "walk_ok w H" "set (map block_id bs) \<subseteq> set H" "\<not> gap" "insert_loop gap ks bs w = Some (bs', w')"
  shows "block_id ` set (walk_nodes w') \<subseteq> block_id ` set (walk_nodes w) \<union> set (map block_id (take (length ks) bs))"
  using assms
proof (induction gap ks bs w arbitrary: bs' rule: insert_loop.induct)
  case (1 gap k ks b bs w)
  let ?b = "b\<lparr>block_hash := k\<rparr>"
  have no: "\<not> (gap \<and> \<not> is_valid b)" using 1(5) by simp
  obtain w1 bs1 where w1: "insert_block ?b w = Some w1" "insert_loop gap ks bs w1 = Some (bs1, w')"
    using 1(5,6) by (auto simp: Let_def split: option.splits)
  have ok: "walk_ok w1 H" using insert_block_ok [OF 1(3) _ w1(1)] 1(4) by simp
  have "block_id ` set (walk_nodes w') \<subseteq> block_id ` set (walk_nodes w1) \<union> set (map block_id (take (length ks) bs))"
    using 1(2) [OF no refl w1(1) ok _ 1(5) w1(2)] 1(4) by simp
  moreover have "block_id ` set (walk_nodes w1) \<subseteq> insert (block_id b) (block_id ` set (walk_nodes w))"
    using image_mono [OF insert_block_nodes [OF 1(3) w1(1)], of block_id] by simp
  ultimately show ?case by auto
qed auto

text \<open>Private blocks are published without failure, with hashes that are there, and stop to be private.\<close>

lemma cache_tokens_flat:
  assumes "pool_flat p H U" "solid_pool p" "set (map block_id bs) \<subseteq> set H"
    and "min (num_hash_blocks (opt_hasher_type (options p)) (length ts) (opt_block_size (options p))) (length bs) = n"
    and "first < n" "n \<le> length hashes" "set (map block_id (drop first bs)) \<subseteq> U" "distinct (map block_id (drop first bs))"
  shows "\<exists>bs' q. cache_tokens xxh3 ts bs first its hashes p = Some (bs', q) \<and> map block_id bs' = map block_id bs
    \<and> pool_flat q H (U - set (map block_id (take (n - first) (drop first bs)))) \<and> options q = options p"
proof -
  have ok: "pool_ok p H" and priv: "private_ids p H U" using assms(1) by (simp_all add: pool_flat_def)
  have en: "opt_enable_prefix_cache (options p)" and gap: "\<not> env_gap (pool_env xxh3 p)"
    using assms(2) by (simp_all add: solid_pool_def pool_env_def)
  obtain pc where pc: "prefix_cache p = Some pc" using ok en by (auto simp: pool_ok_def pool_core_def)
  have cs: "cache_state_ok pc (ref_counts p) H" using ok pool_ok_cached [OF pc] by blast
  have w0: "walk_ok (start_walk pc (ref_counts p)) H" using cs by (simp add: start_walk_ok)
  have nodes0: "set (walk_nodes (start_walk pc (ref_counts p))) = set (cache_nodes p)"
    using pc by (simp add: walk_nodes_def cache_nodes_def)
  let ?ks = "drop first (take n hashes)" and ?bs = "drop first bs"
  have lk: "length ?ks = n - first" using assms(6) by simp
  have held: "set (map block_id ?bs) \<subseteq> set H" using assms(3) by (auto dest: in_set_dropD)
  have "\<exists>bs1 w. insert_loop (env_gap (pool_env xxh3 p)) ?ks ?bs (start_walk pc (ref_counts p)) = Some (bs1, w)"
  proof (rule insert_loop_some [OF w0 held assms(8) gap])
    fix j m assume j: "j < length ?bs" "m \<in> set (walk_nodes (start_walk pc (ref_counts p)))" "block_id m = block_id (?bs ! j)"
    have "block_id (?bs ! j) \<in> set (map block_id ?bs)" using nth_mem [OF j(1)] by simp
    then have "block_id (?bs ! j) \<in> U" using assms(7) by blast
    then have "block_id (?bs ! j) \<notin> node_ids p" using priv by (simp add: private_ids_def)
    then show "block_hash m = ?ks ! j" using j(2,3) unfolding nodes0 by (metis image_eqI)
  qed
  then obtain bs1 w where w: "insert_loop (env_gap (pool_env xxh3 p)) ?ks ?bs (start_walk pc (ref_counts p)) = Some (bs1, w)" by blast
  obtain pc' r' where fw: "finish_walk w = (pc', r')" by fastforce
  have wok: "walk_ok w H" using insert_loop_ok [OF w0 _ w] held by blast
  then have chk: "check_cached_block_count pc'" using finish_walk_ok [OF _ fw] cache_state_counts by blast
  have ins: "insert_blocks (pool_env xxh3 p) ts bs first its hashes pc (ref_counts p)
      = Some (n * opt_block_size (options p), take first bs @ bs1, pc', r')"
    using assms(4,5,6) w fw chk cache_state_counts [OF cs] by (simp add: insert_blocks_def insert_keys_def Let_def pool_env_def)
  define q where "q = p\<lparr>prefix_cache := Some pc', ref_counts := r'\<rparr>"
  have run: "cache_tokens xxh3 ts bs first its hashes p = Some (take first bs @ bs1, q)"
    using en pc ins by (simp add: cache_tokens_def q_def)
  have q: "pool_ok q H" "options q = options p" "map block_id (take first bs @ bs1) = map block_id bs"
    using cache_tokens_ok [OF ok assms(3) run] by simp_all
  have "cache_nodes q = walk_nodes w" using fw by (auto simp: q_def cache_nodes_def finish_walk_def walk_nodes_def)
  then have "node_ids q \<subseteq> node_ids p \<union> set (map block_id (take (n - first) ?bs))"
    using insert_loop_nodes [OF w0 held gap w] unfolding nodes0 lk by simp
  then have "private_ids q H (U - set (map block_id (take (n - first) ?bs)))"
    using priv unfolding private_ids_def by blast
  then show ?thesis using run q by (auto simp: pool_flat_def)
qed

section \<open>Sharing\<close>

lemma match_solid_nodes:
  "walk_ok w H \<Longrightarrow> match_solid ks w = (bs, w') \<Longrightarrow> set bs \<subseteq> set (walk_nodes w) \<and> set (walk_nodes w') = set (walk_nodes w)
    \<and> length bs \<le> length ks"
proof (induction ks arbitrary: w H bs)
  case (Cons k ks)
  have nodes: "nodes_ok (walk_cache w) (walk_nodes w)" using Cons.prems(1) by (simp add: walk_ok_def)
  show ?case
  proof (cases "map_of (cached_blocks (walk_cache w)) k")
    case (Some n)
    then have n: "n \<in> set (walk_nodes w)" using nodes_find [OF nodes] by simp
    obtain bs1 where bs1: "match_solid ks (match_hit n w) = (bs1, w')" "bs = n # bs1"
      using Cons.prems(2) Some by (auto split: prod.splits)
    show ?thesis using Cons.IH [OF walk_ok_hit [OF Cons.prems(1) n] bs1(1)] match_hit_cached [OF Cons.prems(1) n] n bs1(2) by simp
  qed (use Cons.prems(2) in simp)
qed simp

text \<open>A lookup with hashes for all blocks does not fail; it returns the blocks that the client shared already, followed by
  nodes, and changes no node.\<close>

lemma allocate_shared_flat:
  assumes "pool_flat p H U" "solid_pool p" "set (map block_id existed) \<subseteq> set H" "list_all is_valid existed"
    and "num_hash_blocks (opt_hasher_type (options p)) (length ts) (opt_block_size (options p)) \<le> length hashes"
  shows "\<exists>bs q. allocate_shared xxh3 ts existed its hashes p = Some (bs, q) \<and> pool_ok q (map block_id bs @ H)
    \<and> options q = options p \<and> node_ids q = node_ids p \<and> list_all is_valid bs
    \<and> set (map block_id bs) \<subseteq> set (map block_id existed) \<union> node_ids p
    \<and> length bs \<le> num_hash_blocks (opt_hasher_type (options p)) (length ts) (opt_block_size (options p))"
proof -
  have ok: "pool_ok p H" using assms(1) by (simp add: pool_flat_def)
  have en: "opt_enable_prefix_cache (options p)" using assms(2) by (simp add: solid_pool_def)
  obtain pc where pc: "prefix_cache p = Some pc" using ok en by (auto simp: pool_ok_def pool_core_def)
  have cs: "cache_state_ok pc (ref_counts p) H" using ok pool_ok_cached [OF pc] by blast
  define n where "n = num_hash_blocks (opt_hasher_type (options p)) (length ts) (opt_block_size (options p))"
  have ex: "valid_ids existed = map block_id existed" using assms(4) by (simp add: list_all_iff)
  have unf: "allocate_shared xxh3 ts existed its hashes p = map_option (\<lambda>(bs, pc', r'). (bs, p\<lparr>prefix_cache := Some pc', ref_counts := r'\<rparr>))
      (match_blocks (pool_env xxh3 p) ts existed its hashes pc (ref_counts p))"
    using assms(2) pc by (simp add: allocate_shared_def solid_pool_def)
  show ?thesis
  proof (cases "n = 0")
    case True
    then have "match_blocks (pool_env xxh3 p) ts existed its hashes pc (ref_counts p) = Some ([], pc, ref_counts p)"
      by (simp add: match_blocks_def pool_env_def n_def)
    then have run: "allocate_shared xxh3 ts existed its hashes p = Some ([], p\<lparr>prefix_cache := Some pc, ref_counts := ref_counts p\<rparr>)"
      unfolding unf by simp
    have "p\<lparr>prefix_cache := Some pc, ref_counts := ref_counts p\<rparr> = p" using pc by simp
    then show ?thesis using run ok by simp
  next
    case False
    define start where "start = min (length existed) n"
    let ?sh = "take start existed"
    let ?w = "start_walk pc (fold inc_ref ?sh (ref_counts p))"
    have sub: "set (valid_ids ?sh) \<subseteq> set H" using assms(3) by (auto dest: in_set_takeD)
    have w0: "walk_ok ?w (valid_ids ?sh @ H)" using cache_state_inc_all [OF cs sub] by (simp add: start_walk_ok)
    obtain bs1 w' where m: "match_solid (drop start (take n hashes)) ?w = (bs1, w')" by fastforce
    obtain pc' r' where fw: "finish_walk w' = (pc', r')" by fastforce
    define q where "q = p\<lparr>prefix_cache := Some pc', ref_counts := r'\<rparr>"
    have run: "allocate_shared xxh3 ts existed its hashes p = Some (?sh @ bs1, q)"
      unfolding unf using False assms(2,5) m fw
      by (simp add: match_blocks_def match_keys_def Let_def pool_env_def solid_pool_def q_def flip: n_def start_def)
    note nodes = match_solid_nodes [OF w0 m]
    have wn: "set (walk_nodes ?w) = set (cache_nodes p)" using pc by (simp add: walk_nodes_def cache_nodes_def)
    have qn: "set (cache_nodes q) = set (walk_nodes w')" using fw by (auto simp: q_def cache_nodes_def finish_walk_def walk_nodes_def)
    have valid: "list_all is_valid (?sh @ bs1)"
      using match_solid_ok [OF w0 m] assms(4) by (auto simp: list_all_iff dest: in_set_takeD)
    then have v: "valid_ids (?sh @ bs1) = map block_id (?sh @ bs1)" by (simp only: list_all_iff filter_True)
    have "pool_ok q (map block_id (?sh @ bs1) @ H) \<and> options q = options p"
      using allocate_shared_ok [OF ok _ run] assms(3) unfolding v ex by blast
    moreover have "set (map block_id (?sh @ bs1)) \<subseteq> set (map block_id existed) \<union> node_ids p"
      using nodes wn by (auto dest: in_set_takeD)
    moreover have "length (?sh @ bs1) \<le> n"
    proof -
      have "length bs1 \<le> length (drop start (take n hashes))" using nodes by blast
      then have "length bs1 \<le> n - start" by simp
      moreover have "start \<le> n" "length ?sh = start" by (simp_all add: start_def)
      ultimately show ?thesis by simp
    qed
    ultimately show ?thesis using run valid nodes wn qn by (auto simp: n_def)
  qed
qed

end
