(* ===== verification/Flat_Publish.thy ===== *)
theory Flat_Publish imports Flat_Pool begin

text \<open>
  A sequence and the flat cache of its rank: the invariant that the composite manager and the pool of managers keep when the
  cache has one leaf of type \<open>KV\<close> with a prefix cache, and that no operation fails a \<open>CHECK\<close> under it
  (\<open>core/framework/block/composite_block_manager.cpp\<close>, \<open>block_manager_pool.cpp\<close>).
\<close>

section \<open>The invariant\<close>

definition seq_ids :: "cache_sequence \<Rightarrow> int list" where
  "seq_ids s = ids (kv_blocks (sq_kv s) BT_KV)"

text \<open>The blocks behind the publishing cursor.\<close>

definition unpublished :: "cache_sequence \<Rightarrow> int set" where
  "unpublished s = set (drop (num_cached_blocks (sq_kv s) BT_KV) (seq_ids s))"

definition flat_seq :: "(u8 list \<Rightarrow> hash_key) \<Rightarrow> nat \<Rightarrow> cache_sequence \<Rightarrow> bool" where
  "flat_seq xxh3 size' s \<longleftrightarrow> hashes_ok xxh3 s \<and> mm_sorted (sq_items s) \<and> kv_ok (\<lambda>_. size') (sq_kv s)
     \<and> (\<forall>t. t \<noteq> BT_KV \<longrightarrow> kv_blocks (sq_kv s) t = []) \<and> src_blocks (sq_kv s) = []
     \<and> (\<forall>t. kv_blocks (sq_host s) t = []) \<and> src_blocks (sq_host s) = []"

text \<open>\<open>R\<close> are the aliases that other sequences hold, \<open>U\<close> their unpublished blocks.\<close>

definition flat_inv :: "(u8 list \<Rightarrow> hash_key) \<Rightarrow> leaf \<Rightarrow> cache_sequence \<Rightarrow> int list \<Rightarrow> int set \<Rightarrow> bool" where
  "flat_inv xxh3 lf s R U \<longleftrightarrow> supports lf \<and> solid_pool (lf_pool lf) \<and> flat_seq xxh3 (leaf_size lf) s \<and> U \<subseteq> set R
     \<and> pool_flat (lf_pool lf) (seq_ids s @ R) (unpublished s \<union> U)"

definition same_leaf :: "leaf \<Rightarrow> leaf \<Rightarrow> bool" where
  "same_leaf lf lf' \<longleftrightarrow> lf_entry lf' = lf_entry lf \<and> lf_opts lf' = lf_opts lf \<and> options (lf_pool lf') = options (lf_pool lf)"

text \<open>Only the cache and the hash table of the sequence change.\<close>

definition seq_frame :: "cache_sequence \<Rightarrow> cache_sequence \<Rightarrow> bool" where
  "seq_frame s s' \<longleftrightarrow> s' = s\<lparr>sq_hashes := sq_hashes s', sq_hash_type := sq_hash_type s', sq_kv := sq_kv s'\<rparr>"

lemma same_leaf_refl [simp]: "same_leaf lf lf"
  by (simp add: same_leaf_def)

lemma same_leaf_trans: "same_leaf a b \<Longrightarrow> same_leaf b c \<Longrightarrow> same_leaf a c"
  by (simp add: same_leaf_def)

lemma same_leafD:
  assumes "same_leaf lf lf'"
  shows "leaf_size lf' = leaf_size lf" "leaf_hasher lf' = leaf_hasher lf" "supports lf' = supports lf"
    "solid_pool (lf_pool lf') = solid_pool (lf_pool lf)" "participates_in_admission (lf_entry lf') = participates_in_admission (lf_entry lf)"
  using assms by (simp_all add: same_leaf_def leaf_size_def leaf_hasher_def supports_def solid_pool_def)

lemma seq_frame_refl [simp]: "seq_frame s s"
  by (simp add: seq_frame_def)

lemma seq_frameD:
  assumes "seq_frame s s'"
  shows "sq_buffer s' = sq_buffer s" "sq_num s' = sq_num s" "sq_current s' = sq_current s" "sq_overlap s' = sq_overlap s"
    "sq_items s' = sq_items s" "sq_host s' = sq_host s" "sq_restore s' = sq_restore s" "sq_warmup s' = sq_warmup s"
    "sq_rank s' = sq_rank s" "sq_beam s' = sq_beam s" "sq_volatile s' = sq_volatile s" "sq_prompt s' = sq_prompt s"
    "sq_slots s' = sq_slots s" "sq_accepted s' = sq_accepted s" "hash_tokens s' = hash_tokens s" "seq_tokens s' = seq_tokens s"
proof -
  let ?r = "s\<lparr>sq_hashes := sq_hashes s', sq_hash_type := sq_hash_type s', sq_kv := sq_kv s'\<rparr>"
  have eq: "f s' = f ?r" for f :: "cache_sequence \<Rightarrow> 'a" using assms unfolding seq_frame_def by (rule arg_cong)
  show "sq_buffer s' = sq_buffer s" "sq_num s' = sq_num s" "sq_current s' = sq_current s" "sq_overlap s' = sq_overlap s"
    "sq_items s' = sq_items s" "sq_host s' = sq_host s" "sq_restore s' = sq_restore s" "sq_warmup s' = sq_warmup s"
    "sq_rank s' = sq_rank s" "sq_beam s' = sq_beam s" "sq_volatile s' = sq_volatile s" "sq_prompt s' = sq_prompt s"
    "sq_slots s' = sq_slots s" "sq_accepted s' = sq_accepted s"
    by (subst eq, simp)+
  then show "hash_tokens s' = hash_tokens s" "seq_tokens s' = seq_tokens s" by (auto intro: hash_tokens_cong simp: seq_tokens_def)
qed

lemma seq_frame_trans: "seq_frame a b \<Longrightarrow> seq_frame b c \<Longrightarrow> seq_frame a c"
proof -
  assume "seq_frame a b" "seq_frame b c"
  note b = seq_frameD [OF this(1)] and c = seq_frameD [OF this(2)]
  show ?thesis using b c unfolding seq_frame_def by (intro cache_sequence.equality) simp_all
qed

lemma seq_frame_kv: "seq_frame s s' \<Longrightarrow> seq_frame s (s'\<lparr>sq_kv := kv\<rparr>)"
proof -
  assume "seq_frame s s'"
  note b = seq_frameD [OF this]
  show ?thesis using b unfolding seq_frame_def by (intro cache_sequence.equality) simp_all
qed

lemma flat_seqD:
  assumes "flat_seq xxh3 size' s"
  shows "hashes_ok xxh3 s" "mm_sorted (sq_items s)" "kv_ok (\<lambda>_. size') (sq_kv s)" "t \<noteq> BT_KV \<Longrightarrow> kv_blocks (sq_kv s) t = []"
    "src_blocks (sq_kv s) = []" "kv_blocks (sq_host s) u = []" "src_blocks (sq_host s) = []"
  using assms by (simp_all add: flat_seq_def)

text \<open>The hash table and the cache of a framed sequence may be exchanged.\<close>

lemma flat_seq_frame:
  assumes "flat_seq xxh3 size' s" "seq_frame s s'" "hashes_ok xxh3 s'" "kv_ok (\<lambda>_. size') (sq_kv s')"
    and "\<And>t. t \<noteq> BT_KV \<Longrightarrow> kv_blocks (sq_kv s') t = []" "src_blocks (sq_kv s') = []"
  shows "flat_seq xxh3 size' s'"
  using assms seq_frameD [OF assms(2)] by (simp add: flat_seq_def)

lemma hashes_ok_kv: "hashes_ok xxh3 (s\<lparr>sq_kv := kv\<rparr>) = hashes_ok xxh3 s"
  by (simp add: hashes_ok_def hash_tokens_def seq_tokens_def)

lemma count_distinct:
  "\<forall>u \<in> set xs. count_list (ys @ xs @ zs) u = 1 \<Longrightarrow> distinct xs \<and> set xs \<inter> (set ys \<union> set zs) = {}"
proof -
  assume one: "\<forall>u \<in> set xs. count_list (ys @ xs @ zs) u = 1"
  have sum: "count_list ys u + count_list xs u + count_list zs u = 1" "count_list xs u \<noteq> 0" if "u \<in> set xs" for u
    using one that by (auto simp: count_list_0_iff)
  then have "count_list ys u = 0 \<and> count_list zs u = 0 \<and> count_list xs u = 1" if "u \<in> set xs" for u
    using that by (metis One_nat_def add_is_1 add_is_0 add.commute)
  then have "distinct xs" "\<forall>u \<in> set xs. u \<notin> set ys \<union> set zs"
    by (simp_all add: distinct_count_atmost_1 count_list_0_iff count_mset [symmetric])
  then show ?thesis by blast
qed


text \<open>Unpublished blocks are distinct, held by this sequence alone.\<close>

lemma flat_invD:
  assumes "flat_inv xxh3 lf s R U"
  shows "supports lf" "solid_pool (lf_pool lf)" "0 < leaf_size lf" "flat_seq xxh3 (leaf_size lf) s" "U \<subseteq> set R"
    "pool_flat (lf_pool lf) (seq_ids s @ R) (unpublished s \<union> U)" "pool_ok (lf_pool lf) (seq_ids s @ R)"
    "set (seq_ids s) \<inter> U = {}" "distinct (drop (num_cached_blocks (sq_kv s) BT_KV) (seq_ids s))"
    "set (take (num_cached_blocks (sq_kv s) BT_KV) (seq_ids s)) \<inter> unpublished s = {}"
proof -
  show *: "supports lf" "solid_pool (lf_pool lf)" "flat_seq xxh3 (leaf_size lf) s" "U \<subseteq> set R"
    "pool_flat (lf_pool lf) (seq_ids s @ R) (unpublished s \<union> U)"
    using assms by (simp_all add: flat_inv_def)
  then show "pool_ok (lf_pool lf) (seq_ids s @ R)" by (simp add: pool_flat_def)
  show "0 < leaf_size lf" using *(2) by (simp add: solid_pool_def leaf_size_def)
  have one: "\<forall>u \<in> unpublished s \<union> U. count_list (seq_ids s @ R) u = 1" using *(5) by (simp add: pool_flat_def private_ids_def)
  show "set (seq_ids s) \<inter> U = {}"
  proof -
    have "count_list (seq_ids s) u = 0" if "u \<in> U" for u
    proof -
      have "count_list (seq_ids s) u + count_list R u = 1" using one that by simp
      moreover have "count_list R u \<noteq> 0" using *(4) that by (auto simp: count_list_0_iff)
      ultimately show ?thesis by linarith
    qed
    then show ?thesis by (auto simp: count_list_0_iff)
  qed
  let ?k = "num_cached_blocks (sq_kv s) BT_KV"
  have "\<forall>u \<in> set (drop ?k (seq_ids s)). count_list (take ?k (seq_ids s) @ drop ?k (seq_ids s) @ R) u = 1"
    using one by (simp add: unpublished_def flip: append_assoc)
  from count_distinct [OF this] show "distinct (drop ?k (seq_ids s))" "set (take ?k (seq_ids s)) \<inter> unpublished s = {}"
    by (auto simp: unpublished_def)
qed

section \<open>Publishing\<close>

lemma ids_map2: "map block_id bs' = ids bs \<Longrightarrow> ids (map2 (\<lambda>c b. c\<lparr>cb_block := b\<rparr>) bs bs') = ids bs"
proof -
  assume eq: "map block_id bs' = ids bs"
  then have len: "length bs' = length bs" by (metis length_map)
  show ?thesis
  proof (rule nth_equalityI)
    fix j assume j: "j < length (ids (map2 (\<lambda>c b. c\<lparr>cb_block := b\<rparr>) bs bs'))"
    then have "j < length bs" using len by simp
    then show "ids (map2 (\<lambda>c b. c\<lparr>cb_block := b\<rparr>) bs bs') ! j = ids bs ! j"
      using len arg_cong [OF eq, of "\<lambda>xs. xs ! j"] by simp
  qed (simp add: len)
qed

lemma blocks_fit_map2:
  assumes "map block_id bs' = ids bs" "blocks_fit sz t bs"
  shows "blocks_fit sz t (map2 (\<lambda>c b. c\<lparr>cb_block := b\<rparr>) bs bs')"
proof -
  have same: "cb_size (c\<lparr>cb_block := b\<rparr>) = cb_size c \<and> cb_valid (c\<lparr>cb_block := b\<rparr>) = cb_valid c \<and> c \<in> set bs"
    if "(c, b) \<in> set (zip bs bs')" for c b
  proof -
    obtain j where j: "c = bs ! j" "b = bs' ! j" "j < length bs" "j < length bs'" using \<open>(c, b) \<in> set (zip bs bs')\<close> by (auto simp: set_zip)
    then have "block_id b = block_id (cb_block c)" using arg_cong [OF assms(1), of "\<lambda>xs. xs ! j"] by simp
    then show ?thesis using j by (simp add: cb_valid_def is_valid_def)
  qed
  then show ?thesis using assms(2) unfolding blocks_fit_def by fastforce
qed

lemma num_hash_blocks_exact:
  "0 < size' \<Longrightarrow> 0 < n \<Longrightarrow> num_hash_blocks ty (n * size' + block_hash_lookahead ty) size' = n"
  by (simp add: num_hash_blocks_def)

lemma num_hash_blocks_ge:
  "0 < size' \<Longrightarrow> n * size' + block_hash_lookahead ty \<le> m \<Longrightarrow> n \<le> num_hash_blocks ty m size'"
proof (cases "n = 0")
  case False
  assume a: "0 < size'" "n * size' + block_hash_lookahead ty \<le> m"
  then have "num_hash_blocks ty (n * size' + block_hash_lookahead ty) size' \<le> num_hash_blocks ty m size'" by (intro num_hash_blocks_mono)
  then show ?thesis using num_hash_blocks_exact [of size' n ty] a(1) False by simp
qed simp

lemma publish_flat:
  assumes inv: "flat_inv xxh3 lf s R U"
    and range: "first = num_cached_blocks (sq_kv s) BT_KV" "first < last'" "last' \<le> length (kv_blocks (sq_kv s) BT_KV)"
      "last' * leaf_size lf + block_hash_lookahead (leaf_hasher lf) \<le> length (hash_tokens s)"
  shows "\<exists>lf' s'. publish_blocks xxh3 BT_KV first last' lf s = Some (lf', s') \<and> flat_inv xxh3 lf' s' R U \<and> same_leaf lf lf'
    \<and> seq_frame s s' \<and> seq_ids s' = seq_ids s \<and> kv_tokens (sq_kv s') = kv_tokens (sq_kv s)
    \<and> shared_blocks_num (sq_kv s') BT_KV = shared_blocks_num (sq_kv s) BT_KV"
proof -
  note D = flat_invD [OF inv]
  note S = flat_seqD [OF D(4)]
  let ?p = "lf_pool lf" and ?size = "leaf_size lf" and ?ty = "leaf_hasher lf" and ?bs = "kv_blocks (sq_kv s) BT_KV"
  obtain s1 where s1: "update_block_hashes xxh3 ?size ?ty s = Some s1" "hashes_ok xxh3 s1"
      "s1 = s\<lparr>sq_hashes := sq_hashes s1, sq_hash_type := sq_hash_type s1\<rparr>"
      "block_hashes ?size s1 = chain_hashes xxh3 ?ty (sq_items s) (hash_tokens s) ?size (num_hash_blocks ?ty (length (hash_tokens s)) ?size)"
    using update_hashes [OF S(1,2), of ?size ?ty] D(3) by blast
  have kv1: "sq_kv s1 = sq_kv s" by (subst s1(3)) simp
  have fr1: "seq_frame s s1" unfolding seq_frame_def using s1(3) kv1 by (metis cache_sequence.surjective cache_sequence.update_convs(13))
  note F = seq_frameD [OF fr1]
  let ?te = "last' * ?size + block_hash_lookahead ?ty"
  let ?ts = "take ?te (hash_tokens s)"
  have lts: "length ?ts = ?te" using range(4) by simp
  have nhb: "last' \<le> num_hash_blocks ?ty (length (hash_tokens s)) ?size" using num_hash_blocks_ge [OF D(3) range(4)] .
  have cut: "min (num_hash_blocks (opt_hasher_type (options ?p)) (length ?ts) (opt_block_size (options ?p))) (length (map cb_block ?bs)) = last'"
    using num_hash_blocks_exact [OF D(3), of last' ?ty] range(2,3) unfolding lts by (simp add: leaf_size_def leaf_hasher_def)
  have dids: "map block_id (drop k (map cb_block ?bs)) = drop k (seq_ids s)" for k by (simp add: seq_ids_def drop_map)
  have tids: "map block_id (take j (drop k (map cb_block ?bs))) = take j (drop k (seq_ids s))" for j k
    by (simp add: seq_ids_def drop_map take_map)
  have mids: "map block_id (map cb_block ?bs) = seq_ids s" by (simp add: seq_ids_def)
  obtain bs' q where q: "cache_tokens xxh3 ?ts (map cb_block ?bs) first (sq_items s1) (block_hashes ?size s1) ?p = Some (bs', q)"
      "map block_id bs' = seq_ids s" "pool_flat q (seq_ids s @ R) ((unpublished s \<union> U) - set (take (last' - first) (drop first (seq_ids s))))"
      "options q = options ?p"
    using cache_tokens_flat [OF D(6,2) _ cut range(2), of "block_hashes ?size s1" xxh3 "sq_items s1", unfolded dids tids mids] nhb D(9)
    by (auto simp: s1(4) chain_hashes_def unpublished_def range(1) [symmetric])
  define kv where "kv = set_num_cached_blocks BT_KV last' (put_blocks BT_KV (map2 (\<lambda>c b. c\<lparr>cb_block := b\<rparr>) ?bs bs') (sq_kv s))"
  define lf' where "lf' = lf\<lparr>lf_pool := q\<rparr>"
  define s' where "s' = s1\<lparr>sq_kv := kv\<rparr>"
  have run: "publish_blocks xxh3 BT_KV first last' lf s = Some (lf', s')"
    using range(2,3,4) s1(1) q(1) F by (simp add: publish_blocks_def Let_def slice_def kv1 kv_def lf'_def s'_def)
  have same: "same_leaf lf lf'" using q(4) by (simp add: same_leaf_def lf'_def)
  note L = same_leafD [OF same]
  have bsid: "map block_id bs' = ids ?bs" using q(2) by (simp add: seq_ids_def)
  have kvb: "kv_blocks kv = kv_blocks (put_blocks BT_KV (map2 (\<lambda>c b. c\<lparr>cb_block := b\<rparr>) ?bs bs') (sq_kv s))"
    by (simp add: kv_def set_num_cached_blocks_def)
  have ids': "seq_ids s' = seq_ids s" using ids_map2 [OF bsid] by (simp add: seq_ids_def s'_def kvb)
  have "length bs' = length ?bs" using arg_cong [OF bsid, of length] by simp
  then have kvok: "kv_ok (\<lambda>_. ?size) kv"
    using kv_ok_write [OF S(3), of BT_KV "map2 (\<lambda>c b. c\<lparr>cb_block := b\<rparr>) ?bs bs'" kv] blocks_fit_map2 [OF bsid, of "\<lambda>_. ?size" BT_KV] S(3)
    by (auto simp: kvb kv_def set_num_cached_blocks_def kv_ok_def shared_blocks_num_def token_types_def)
  have fr: "seq_frame s s'" using seq_frame_kv [OF fr1] by (simp add: s'_def)
  have "hashes_ok xxh3 s'" using s1(2) by (simp add: s'_def hashes_ok_kv)
  then have fs: "flat_seq xxh3 ?size s'"
    using flat_seq_frame [OF D(4) fr] kvok S(4,5) by (auto simp: s'_def kvb kv_def set_num_cached_blocks_def)
  have cur: "num_cached_blocks (sq_kv s') BT_KV = last'" by (simp add: s'_def kv_def set_num_cached_blocks_def num_cached_blocks_def)
  have "unpublished s' \<union> U \<subseteq> (unpublished s \<union> U) - set (take (last' - first) (drop first (seq_ids s)))"
  proof -
    have "drop last' (seq_ids s) = drop (last' - first) (drop first (seq_ids s))" using range(2) by simp
    moreover have "set (take k xs) \<inter> set (drop k xs) = {}" if "distinct xs" for k and xs :: "int list"
      using that by (metis append_take_drop_id distinct_append)
    ultimately have "unpublished s' \<subseteq> unpublished s - set (take (last' - first) (drop first (seq_ids s)))"
      using D(9) unfolding unpublished_def cur ids' range(1) [symmetric] by (metis Diff_Int_distrib2 Diff_triv Int_commute set_drop_subset Diff_mono order_refl)
    moreover have "set (take (last' - first) (drop first (seq_ids s))) \<subseteq> set (seq_ids s)" by (meson in_set_dropD in_set_takeD subsetI)
    ultimately show ?thesis using D(8) by blast
  qed
  then have "pool_flat q (seq_ids s' @ R) (unpublished s' \<union> U)" unfolding ids' by (rule pool_flat_subset [OF q(3)])
  then have "flat_inv xxh3 lf' s' R U" using D(1,2,5) L fs by (simp add: flat_inv_def) (simp add: lf'_def)
  moreover have "kv_tokens (sq_kv s') = kv_tokens (sq_kv s)" "shared_blocks_num (sq_kv s') BT_KV = shared_blocks_num (sq_kv s) BT_KV"
    by (simp_all add: s'_def kv_def set_num_cached_blocks_def shared_blocks_num_def)
  ultimately show ?thesis using run same fr ids' by blast
qed


section \<open>The composite\<close>

definition flat_composite :: "composite \<Rightarrow> leaf \<Rightarrow> bool" where
  "flat_composite cm lf \<longleftrightarrow> cm_leaves cm = [(BT_KV, lf)] \<and> cm_shape cm = FLAT_KV"

definition same_composite :: "composite \<Rightarrow> composite \<Rightarrow> bool" where
  "same_composite cm cm' \<longleftrightarrow> cm' = cm\<lparr>cm_leaves := cm_leaves cm'\<rparr>"

text \<open>What every operation on one sequence gives.\<close>

definition flat_step :: "(u8 list \<Rightarrow> hash_key) \<Rightarrow> int list \<Rightarrow> int set \<Rightarrow> composite \<Rightarrow> leaf \<Rightarrow> composite \<Rightarrow> leaf \<Rightarrow> cache_sequence \<Rightarrow> bool" where
  "flat_step xxh3 R U cm lf cm' lf' s' \<longleftrightarrow>
     flat_composite cm' lf' \<and> same_composite cm cm' \<and> same_leaf lf lf' \<and> flat_inv xxh3 lf' s' R U"

lemma same_composite_refl [simp]: "same_composite cm cm"
  by (simp add: same_composite_def)

lemma same_composite_leaves [simp]: "same_composite cm (cm\<lparr>cm_leaves := ls\<rparr>)"
  by (simp add: same_composite_def)

lemma same_compositeD:
  assumes "same_composite cm cm'"
  shows "cm_shape cm' = cm_shape cm" "cm_explicit cm' = cm_explicit cm" "cm_block_size cm' = cm_block_size cm"
  using arg_cong [OF assms [unfolded same_composite_def], of cm_shape] arg_cong [OF assms [unfolded same_composite_def], of cm_explicit]
    arg_cong [OF assms [unfolded same_composite_def], of cm_block_size] by simp_all

lemma same_composite_trans: "same_composite a b \<Longrightarrow> same_composite b c \<Longrightarrow> same_composite a c"
  unfolding same_composite_def by (metis composite.surjective composite.update_convs(1))

lemma flat_step_refl: "flat_composite cm lf \<Longrightarrow> flat_inv xxh3 lf s R U \<Longrightarrow> flat_step xxh3 R U cm lf cm lf s"
  by (simp add: flat_step_def)

lemma flat_step_trans: "flat_step xxh3 R U a la b lb s \<Longrightarrow> flat_step xxh3 R U b lb c lc t \<Longrightarrow> flat_step xxh3 R U a la c lc t"
  unfolding flat_step_def using same_composite_trans same_leaf_trans by blast

lemma flat_leaf [simp]: "flat_composite cm lf \<Longrightarrow> leaf_of BT_KV cm = Some lf"
  by (simp add: flat_composite_def leaf_of_def)

lemma flat_other [simp]: "flat_composite cm lf \<Longrightarrow> t \<noteq> BT_KV \<Longrightarrow> leaf_of t cm = None"
  by (simp add: flat_composite_def leaf_of_def)

lemma flat_put [simp]: "flat_composite cm lf \<Longrightarrow> flat_composite (put_leaf BT_KV lf' cm) lf'"
  by (simp add: flat_composite_def put_leaf_def)

lemma same_put [simp]: "same_composite cm (put_leaf t lf' cm)"
  by (simp add: put_leaf_def)

lemma hash_tokens_le: "length (hash_tokens s) \<le> sq_num s"
  by (auto simp: hash_tokens_def seq_tokens_def min_def)

lemma cache_full_flat:
  assumes "flat_composite cm lf" "flat_inv xxh3 lf s R U"
  shows "\<exists>cm' lf' s'. cache_full_blocks_for_sequence xxh3 cm s = Some (cm', s') \<and> flat_step xxh3 R U cm lf cm' lf' s'
    \<and> seq_frame s s' \<and> seq_ids s' = seq_ids s \<and> kv_tokens (sq_kv s') = kv_tokens (sq_kv s)"
proof (cases "sq_warmup s \<or> cm_explicit cm")
  case True
  then show ?thesis using flat_step_refl [OF assms] by (auto simp: cache_full_blocks_for_sequence_def)
next
  case False
  let ?size = "leaf_size lf" and ?bs = "kv_blocks (sq_kv s) BT_KV" and ?k = "num_cached_blocks (sq_kv s) BT_KV"
  note D = flat_invD [OF assms(2)]
  define e where "e = min (publishable_tokens s lf div ?size) (length ?bs)"
  have open': "cache_full_blocks_for_sequence xxh3 cm s = map_option (\<lambda>(lf', s'). (cm\<lparr>cm_leaves := [(BT_KV, lf')]\<rparr>, s'))
      (if ?bs = [] \<or> e \<le> ?k then Some (lf, s) else publish_blocks xxh3 BT_KV ?k e lf s)"
  proof -
    have leaves: "cm_leaves cm = [(BT_KV, lf)]" "cm_shape cm = FLAT_KV" using assms(1) by (simp_all add: flat_composite_def)
    have one: "publish_leaf xxh3 FLAT_KV 0 n BT_KV lf s
        = (if ?bs = [] \<or> e \<le> ?k then Some (lf, s) else publish_blocks xxh3 BT_KV ?k e lf s)" for n
      using D(1,3) by (simp add: publish_leaf_def Let_def e_def)
    have cf: "cache_full_blocks_for_sequence xxh3 cm s = map_option (\<lambda>(ls, s'). (cm\<lparr>cm_leaves := ls\<rparr>, s'))
        (publish_leaves xxh3 FLAT_KV 0 (min (kv_cache_tokens_num s) (length (seq_tokens s))) [(BT_KV, lf)] s)"
      using False by (simp add: cache_full_blocks_for_sequence_def leaves cacheable_def)
    show ?thesis unfolding cf
      by (cases "publish_blocks xxh3 BT_KV ?k e lf s") (simp_all add: one split: prod.splits)
  qed
  show ?thesis
  proof (cases "?bs = [] \<or> e \<le> ?k")
    case True
    have "cm\<lparr>cm_leaves := [(BT_KV, lf)]\<rparr> = cm" using assms(1) by (simp add: flat_composite_def)
    then show ?thesis unfolding open' using True flat_step_refl [OF assms] by auto
  next
    case less: False
    have "e * ?size \<le> publishable_tokens s lf" using D(3) by (simp add: e_def min_le_iff_disj flip: less_eq_div_iff_mult_less_eq)
    moreover have "0 < e * ?size" using less D(3) by simp
    ultimately have "e * ?size + block_hash_lookahead (leaf_hasher lf) \<le> length (hash_tokens s)"
      by (auto simp: publishable_tokens_def Let_def split: if_splits)
    moreover have le: "e \<le> length ?bs" by (simp add: e_def)
    ultimately obtain lf' s' where "publish_blocks xxh3 BT_KV ?k e lf s = Some (lf', s')" "flat_inv xxh3 lf' s' R U" "same_leaf lf lf'"
        "seq_frame s s'" "seq_ids s' = seq_ids s" "kv_tokens (sq_kv s') = kv_tokens (sq_kv s)"
      using publish_flat [OF assms(2) refl _ le] less by (meson not_le)
    then show ?thesis unfolding open' using less assms(1) by (auto simp: flat_step_def flat_composite_def)
  qed
qed

lemma cache_up_to_flat:
  assumes "flat_composite cm lf" "flat_inv xxh3 lf s R U"
  shows "\<exists>cm' lf' s'. cache_for_sequence_up_to xxh3 n cm s = Some (cm', s') \<and> flat_step xxh3 R U cm lf cm' lf' s' \<and> seq_frame s s'"
proof -
  let ?size = "leaf_size lf" and ?ty = "leaf_hasher lf" and ?kv = "sq_kv s"
  note D = flat_invD [OF assms(2)]
  define available where "available = min n (min (if block_hash_lookahead ?ty = 0 then n else kv_tokens ?kv) (kv_num_blocks ?kv BT_KV * ?size))"
  define e where "e = min (available div ?size) (num_hash_blocks ?ty (length (hash_tokens s)) ?size)"
  have open': "cache_for_sequence_up_to xxh3 n cm s = (if sq_warmup s \<or> cm_explicit cm then Some (cm, s)
      else map_option (\<lambda>(lf', s'). (put_leaf BT_KV lf' cm, s')) (publish_blocks xxh3 BT_KV (num_cached_blocks ?kv BT_KV) e lf s))"
    using assms(1) D(3) by (simp add: cache_for_sequence_up_to_def Let_def e_def available_def) (simp add: flat_composite_def)
  consider "sq_warmup s \<or> cm_explicit cm" | "\<not> (sq_warmup s \<or> cm_explicit cm)" "e \<le> num_cached_blocks ?kv BT_KV"
    | "\<not> (sq_warmup s \<or> cm_explicit cm)" "num_cached_blocks ?kv BT_KV < e" by linarith
  then show ?thesis
  proof cases
    case 1
    then show ?thesis unfolding open' using flat_step_refl [OF assms] by auto
  next
    case 2
    have "put_leaf BT_KV lf cm = cm" using assms(1) by (simp add: put_leaf_def flat_composite_def)
    then show ?thesis unfolding open' using 2 flat_step_refl [OF assms] by (auto simp: publish_blocks_def)
  next
    case 3
    have "e \<le> available div ?size" by (simp add: e_def)
    also have "\<dots> \<le> (length (kv_blocks ?kv BT_KV) * ?size) div ?size" by (rule div_le_mono) (simp add: available_def)
    finally have "e \<le> length (kv_blocks ?kv BT_KV)" using D(3) by simp
    moreover have "e * ?size + block_hash_lookahead ?ty \<le> length (hash_tokens s)"
      using 3 by (intro num_hash_blocks_fits) (simp_all add: e_def)
    ultimately obtain lf' s' where "publish_blocks xxh3 BT_KV (num_cached_blocks ?kv BT_KV) e lf s = Some (lf', s')"
        "flat_inv xxh3 lf' s' R U" "same_leaf lf lf'" "seq_frame s s'"
      using publish_flat [OF assms(2) refl 3(2)] by blast
    then show ?thesis unfolding open' using 3 flat_put [OF assms(1)] by (auto simp: flat_step_def)
  qed
qed

end
