(* ===== verification/Flat_Growth.thy ===== *)
theory Flat_Growth imports Flat_Publish begin

text \<open>
  Growth, release and sharing of a sequence over a flat cache: no \<open>CHECK\<close> fails, growth is all or nothing, and the
  accounting stays exact (\<open>core/framework/block/composite_block_manager.cpp\<close>, \<open>block_manager_pool.cpp\<close>).
\<close>

section \<open>Growth\<close>

lemma own_ids [simp]: "ids (own_blocks n bs) = map block_id bs"
  by (simp add: own_blocks_def comp_def)

lemma own_fit:
  assumes "list_all is_valid bs"
  shows "blocks_fit (\<lambda>_. n) t (own_blocks n bs)"
  using assms by (auto simp: blocks_fit_def own_blocks_def list_all_iff cb_valid_def)

lemma own_empty [simp]: "(own_blocks n bs = []) = (bs = [])" "length (own_blocks n bs) = length bs"
  by (simp_all add: own_blocks_def)

definition ceil_blocks :: "nat \<Rightarrow> leaf \<Rightarrow> nat" where
  "ceil_blocks n lf = (n + leaf_size lf - 1) div leaf_size lf"

text \<open>There is room for what is missing, besides the blocks \<open>H\<close> in use.\<close>

definition fits_in :: "nat \<Rightarrow> leaf \<Rightarrow> int list \<Rightarrow> int list \<Rightarrow> bool" where
  "fits_in n lf own H \<longleftrightarrow> ceil_blocks n lf - length own + card (set H) \<le> opt_num_blocks (options (lf_pool lf)) - 1"

text \<open>The leaf hands out what is missing, or nothing; what it hands out is new.\<close>

lemma grow_flat_flat:
  assumes "flat_inv xxh3 lf s R U"
  shows "\<exists>r lf'. grow_flat BT_KV n lf s = Some (r, lf', s) \<and> same_leaf lf lf' \<and> (r \<noteq> None \<longleftrightarrow> fits_in n lf (seq_ids s) (seq_ids s @ R))
    \<and> (case r of None \<Rightarrow> length (seq_ids s) < ceil_blocks n lf \<and> pool_flat (lf_pool lf') (seq_ids s @ R) (unpublished s \<union> U)
       | Some bs \<Rightarrow> length bs = ceil_blocks n lf - length (seq_ids s) \<and> blocks_fit (\<lambda>_. leaf_size lf) BT_KV bs
           \<and> pool_flat (lf_pool lf') (ids bs @ seq_ids s @ R) (set (ids bs) \<union> (unpublished s \<union> U)))"
proof -
  note D = flat_invD [OF assms]
  let ?p = "lf_pool lf" and ?need = "ceil_blocks n lf" and ?held = "length (seq_ids s)"
  have open': "grow_flat BT_KV n lf s = map_option (\<lambda>(r, p). (map_option (own_blocks (leaf_size lf)) r, lf\<lparr>lf_pool := p\<rparr>, s))
      (if ?need \<le> ?held then Some (Some [], ?p)
       else map_option (\<lambda>(bs, q). (if length bs = ?need - ?held then Some bs else None, q)) (allocate (?need - ?held) ?p))"
    using D(3) by (simp add: grow_flat_def allocate_for_sequence_def ceil_blocks_def leaf_size_def seq_ids_def Let_def)
  note cnt = pool_count [OF D(7)]
  show ?thesis
  proof (cases "?need \<le> ?held")
    case True
    then have "grow_flat BT_KV n lf s = Some (Some [], lf, s)" unfolding open' by (simp add: own_blocks_def)
    moreover have "fits_in n lf (seq_ids s) (seq_ids s @ R)" using True cnt by (simp add: fits_in_def)
    ultimately show ?thesis using True D(6) by (intro exI [of _ "Some []"] exI [of _ lf]) (simp add: blocks_fit_def)
  next
    case False
    obtain bs q where q: "allocate (?need - ?held) ?p = Some (bs, q)"
        "pool_flat q (map block_id bs @ seq_ids s @ R) (set (map block_id bs) \<union> (unpublished s \<union> U))" "options q = options ?p"
        "length bs = (if ?need - ?held \<le> num_free_blocks ?p + num_evictable_blocks ?p then ?need - ?held else 0)" "list_all is_valid bs"
      using allocate_flat [OF D(6)] by blast
    have same: "same_leaf lf (lf\<lparr>lf_pool := q\<rparr>)" using q(3) by (simp add: same_leaf_def)
    have fits: "length bs = ?need - ?held \<longleftrightarrow> fits_in n lf (seq_ids s) (seq_ids s @ R)"
      unfolding q(4) fits_in_def using cnt False by auto
    show ?thesis
    proof (cases "length bs = ?need - ?held")
      case True
      have "grow_flat BT_KV n lf s = Some (Some (own_blocks (leaf_size lf) bs), lf\<lparr>lf_pool := q\<rparr>, s)"
        unfolding open' using q(1) True False by simp
      then show ?thesis using same True fits q(2) own_fit [OF q(5)]
        by (intro exI [of _ "Some (own_blocks (leaf_size lf) bs)"] exI [of _ "lf\<lparr>lf_pool := q\<rparr>"]) simp
    next
      case short: False
      then have "bs = []" using q(4) by (auto split: if_splits)
      have "grow_flat BT_KV n lf s = Some (None, lf\<lparr>lf_pool := q\<rparr>, s)" unfolding open' using q(1) short False by simp
      then show ?thesis using same short fits False q(2) \<open>bs = []\<close> by (intro exI [of _ None]) simp
    qed
  qed
qed

lemma private_held: "private_ids p H U \<Longrightarrow> U \<subseteq> set H"
  by (auto simp: private_ids_def)

text \<open>The new blocks are put behind those that the sequence has.\<close>

lemma add_blocks_flat:
  assumes "flat_seq xxh3 size' s" "blocks_fit (\<lambda>_. size') BT_KV bs"
  shows "\<exists>kv. add_blocks BT_KV bs (sq_kv s) = Some kv \<and> flat_seq xxh3 size' (s\<lparr>sq_kv := kv\<rparr>)
    \<and> seq_ids (s\<lparr>sq_kv := kv\<rparr>) = seq_ids s @ ids bs \<and> unpublished (s\<lparr>sq_kv := kv\<rparr>) \<subseteq> set (ids bs) \<union> unpublished s
    \<and> kv_tokens kv = kv_tokens (sq_kv s)"
proof -
  note S = flat_seqD [OF assms(1)]
  obtain r where r: "remember_block_size BT_KV bs (sq_kv s) = Some r" using remember_fits [OF S(3) assms(2)] by blast
  note fr = remember_frame [OF r]
  define kv where "kv = put_blocks BT_KV (kv_blocks (sq_kv s) BT_KV @ bs) r"
  have run: "add_blocks BT_KV bs (sq_kv s) = Some kv" using r by (simp add: add_blocks_def kv_def fr)
  have kv: "kv_ok (\<lambda>_. size') kv" using add_ok [OF S(3) assms(2) run] .
  have frame: "seq_frame s (s\<lparr>sq_kv := kv\<rparr>)" by (simp add: seq_frame_kv)
  have rest: "src_blocks kv = src_blocks (sq_kv s)" "kv_tokens kv = kv_tokens (sq_kv s)"
      "num_cached_blocks kv BT_KV = num_cached_blocks (sq_kv s) BT_KV"
    using fr by (simp_all add: kv_def num_cached_blocks_def)
  have "flat_seq xxh3 size' (s\<lparr>sq_kv := kv\<rparr>)"
    using flat_seq_frame [OF assms(1) frame] S(1,4,5) kv rest fr by (simp add: hashes_ok_kv kv_def)
  moreover have "seq_ids (s\<lparr>sq_kv := kv\<rparr>) = seq_ids s @ ids bs" by (simp add: seq_ids_def kv_def)
  moreover have "unpublished (s\<lparr>sq_kv := kv\<rparr>) \<subseteq> set (ids bs) \<union> unpublished s"
    unfolding unpublished_def calculation(2) using rest(3) by (auto dest: in_set_dropD)
  ultimately show ?thesis using run rest by blast
qed


lemma covered_flat:
  "0 < leaf_size lf \<Longrightarrow> ceil_blocks n lf \<le> m \<Longrightarrow> n \<le> m * leaf_size lf"
proof -
  assume a: "0 < leaf_size lf" "ceil_blocks n lf \<le> m"
  let ?m = "n + leaf_size lf - 1"
  have "?m = ?m div leaf_size lf * leaf_size lf + ?m mod leaf_size lf" by simp
  moreover have "?m mod leaf_size lf < leaf_size lf" using a(1) by simp
  ultimately have "n \<le> ceil_blocks n lf * leaf_size lf" unfolding ceil_blocks_def by linarith
  also have "\<dots> \<le> m * leaf_size lf" using a(2) by simp
  finally show ?thesis .
qed

text \<open>One growth of the sequence.\<close>

lemma allocate_sequence_flat:
  assumes "flat_composite cm lf" "flat_inv xxh3 lf s R U"
  shows "\<exists>ok cm' lf' s'. allocate_sequence xxh3 n cm s = Some (ok, cm', s') \<and> flat_step xxh3 R U cm lf cm' lf' s' \<and> seq_frame s s'
    \<and> kv_tokens (sq_kv s') = kv_tokens (sq_kv s) \<and> (ok \<longleftrightarrow> fits_in n lf (seq_ids s) (seq_ids s @ R))
    \<and> (if ok then n \<le> length (seq_ids s') * leaf_size lf \<and> (\<exists>new. seq_ids s' = seq_ids s @ new) else seq_ids s' = seq_ids s)"
proof -
  obtain cm1 lf1 s1 where one: "cache_full_blocks_for_sequence xxh3 cm s = Some (cm1, s1)" "flat_step xxh3 R U cm lf cm1 lf1 s1"
      "seq_frame s s1" "seq_ids s1 = seq_ids s" "kv_tokens (sq_kv s1) = kv_tokens (sq_kv s)"
    using cache_full_flat [OF assms] by blast
  have cm1: "flat_composite cm1 lf1" and inv1: "flat_inv xxh3 lf1 s1 R U" and same1: "same_leaf lf lf1"
    using one(2) by (simp_all add: flat_step_def)
  note D1 = flat_invD [OF inv1]
  have size1: "leaf_size lf1 = leaf_size lf" using same_leafD [OF same1] by simp
  obtain r lf2 where grow: "grow_flat BT_KV n lf1 s1 = Some (r, lf2, s1)" "same_leaf lf1 lf2" "r \<noteq> None \<longleftrightarrow> fits_in n lf1 (seq_ids s1) (seq_ids s1 @ R)"
      "case r of None \<Rightarrow> length (seq_ids s1) < ceil_blocks n lf1 \<and> pool_flat (lf_pool lf2) (seq_ids s1 @ R) (unpublished s1 \<union> U)
       | Some bs \<Rightarrow> length bs = ceil_blocks n lf1 - length (seq_ids s1) \<and> blocks_fit (\<lambda>_. leaf_size lf1) BT_KV bs
           \<and> pool_flat (lf_pool lf2) (ids bs @ seq_ids s1 @ R) (set (ids bs) \<union> (unpublished s1 \<union> U))"
    using grow_flat_flat [OF inv1] by blast
  note L2 = same_leafD [OF grow(2)]
  have fits: "r \<noteq> None \<longleftrightarrow> fits_in n lf (seq_ids s) (seq_ids s @ R)"
    using grow(3) same1 size1 by (simp add: fits_in_def ceil_blocks_def one(4) same_leaf_def)
  have leaves: "cm_leaves cm1 = [(BT_KV, lf1)]" using cm1 by (simp add: flat_composite_def)
  define cm2 where "cm2 = cm1\<lparr>cm_leaves := [(BT_KV, lf2)]\<rparr>"
  have cm2: "flat_composite cm2 lf2" using cm1 by (simp add: cm2_def flat_composite_def)
  have leaf: "leaf_allocate_for_sequence xxh3 BT_KV n lf1 s1 = Some (r, lf2, s1)"
    using grow(1) by (simp add: leaf_allocate_for_sequence_def)
  show ?thesis
  proof (cases r)
    case None
    have run: "allocate_sequence xxh3 n cm s = Some (False, cm2, s1)"
      by (simp add: allocate_sequence_def one(1) leaves leaf None cm2_def)
    have "flat_inv xxh3 lf2 s1 R U" using grow(4) None D1 L2 by (simp add: flat_inv_def)
    then have "flat_step xxh3 R U cm1 lf1 cm2 lf2 s1" using cm2 grow(2) by (simp add: flat_step_def cm2_def)
    from flat_step_trans [OF one(2) this] show ?thesis using run one(3,4,5) fits None by (intro exI [of _ False]) auto
  next
    case (Some bs)
    note g = grow(4) [unfolded Some option.case]
    obtain kv where kv: "add_blocks BT_KV bs (sq_kv s1) = Some kv" "flat_seq xxh3 (leaf_size lf1) (s1\<lparr>sq_kv := kv\<rparr>)"
        "seq_ids (s1\<lparr>sq_kv := kv\<rparr>) = seq_ids s1 @ ids bs" "unpublished (s1\<lparr>sq_kv := kv\<rparr>) \<subseteq> set (ids bs) \<union> unpublished s1"
        "kv_tokens kv = kv_tokens (sq_kv s1)"
      using add_blocks_flat [OF D1(4)] g by blast
    define s2 where "s2 = (if bs = [] then s1 else s1\<lparr>sq_kv := kv\<rparr>)"
    let ?staged = "if bs = [] then [] else [(BT_KV, bs)]"
    have s2: "flat_seq xxh3 (leaf_size lf1) s2" "seq_ids s2 = seq_ids s1 @ ids bs" "unpublished s2 \<subseteq> set (ids bs) \<union> unpublished s1"
        "kv_tokens (sq_kv s2) = kv_tokens (sq_kv s1)" "seq_frame s1 s2" "add_staged ?staged (sq_kv s1) = Some (sq_kv s2)" "s2 = s1\<lparr>sq_kv := sq_kv s2\<rparr>"
      using kv D1(4) by (simp_all add: s2_def seq_frame_kv)
    have cov: "list_all (covered n ?staged (sq_kv s1)) [(BT_KV, lf2)]"
      using g L2 by (auto simp: covered_def staged_for_def ceil_blocks_def seq_ids_def)
    have "mset (seq_ids s2 @ R) = mset (ids bs @ seq_ids s1 @ R)" by (simp add: s2(2))
    then have "pool_flat (lf_pool lf2) (seq_ids s2 @ R) (set (ids bs) \<union> (unpublished s1 \<union> U))" using g pool_flat_perm by blast
    then have "pool_flat (lf_pool lf2) (seq_ids s2 @ R) (unpublished s2 \<union> U)" using s2(3) by (blast intro: pool_flat_subset)
    then have inv2: "flat_inv xxh3 lf2 s2 R U" using D1(1,2,5) L2 s2(1) by (simp add: flat_inv_def)
    then have step2: "flat_step xxh3 R U cm1 lf1 cm2 lf2 s2" using cm2 grow(2) by (simp add: flat_step_def cm2_def)
    obtain cm3 lf3 s3 where three: "cache_full_blocks_for_sequence xxh3 cm2 s2 = Some (cm3, s3)" "flat_step xxh3 R U cm2 lf2 cm3 lf3 s3"
        "seq_frame s2 s3" "seq_ids s3 = seq_ids s2" "kv_tokens (sq_kv s3) = kv_tokens (sq_kv s2)"
      using cache_full_flat [OF cm2 inv2] by blast
    have run: "allocate_sequence xxh3 n cm s = Some (True, cm3, s3)"
      using cov s2(6) three(1) s2(7) by (simp add: allocate_sequence_def one(1) leaves leaf Some cm2_def [symmetric])
    have "ceil_blocks n lf1 \<le> length (seq_ids s3)" using g by (simp add: three(4) s2(2))
    from covered_flat [OF D1(3) this] have "n \<le> length (seq_ids s3) * leaf_size lf" by (simp add: size1)
    moreover have "flat_step xxh3 R U cm lf cm3 lf3 s3" by (rule flat_step_trans [OF flat_step_trans [OF one(2) step2] three(2)])
    moreover have "seq_frame s s3" by (rule seq_frame_trans [OF seq_frame_trans [OF one(3) s2(5)] three(3)])
    ultimately show ?thesis using run one(4,5) s2(2,4) three(4,5) fits Some by (intro exI [of _ True]) auto
  qed
qed


section \<open>Release\<close>

lemma private_others:
  assumes "flat_inv xxh3 lf s R U"
  shows "private_ids (lf_pool lf) R U"
proof -
  note D = flat_invD [OF assms]
  show ?thesis unfolding private_ids_def
  proof (rule ballI)
    fix u assume u: "u \<in> U"
    then have "u \<notin> set (seq_ids s)" using D(8) by blast
    then have "count_list (seq_ids s) u = 0" by (simp add: count_list_0_iff)
    moreover have "count_list (seq_ids s @ R) u = 1" "u \<notin> node_ids (lf_pool lf)"
      using D(6) u by (auto simp only: pool_flat_def private_ids_def Un_iff)
    ultimately show "u \<in> set R \<and> u \<notin> node_ids (lf_pool lf) \<and> count_list R u = 1"
      using D(5) u by auto
  qed
qed

lemma drop_nothing:
  assumes "flat_composite cm lf" "\<forall>(t, bs) \<in> set tbs. bs = []"
  shows "drop_all_typed tbs cm = Some cm"
  using assms(2)
proof (induction tbs)
  case (Cons tb tbs)
  obtain t where tb: "tb = (t, [])" using Cons.prems by (cases tb) simp
  have same: "put_leaf BT_KV lf cm = cm" using assms(1) by (simp add: put_leaf_def flat_composite_def)
  have "drop_typed t [] cm = Some cm"
    using assms(1) same by (cases "t = BT_KV") (simp_all add: drop_typed_def drop_in_leaf_def drop_cached_def)
  then show ?case using Cons by (simp add: tb)
qed simp

text \<open>The blocks of a sequence are published and given back; the sequence is left without blocks.\<close>

lemma deallocate_flat:
  assumes "flat_composite cm lf" "flat_inv xxh3 lf s R U"
  shows "\<exists>cm' lf' s'. deallocate_for_sequence xxh3 cm s = Some (cm', s') \<and> flat_step xxh3 R U cm lf cm' lf' s' \<and> seq_frame s s'
    \<and> seq_ids s' = []"
proof -
  obtain cm1 lf1 s1 where one: "cache_full_blocks_for_sequence xxh3 cm s = Some (cm1, s1)" "flat_step xxh3 R U cm lf cm1 lf1 s1" "seq_frame s s1"
    using cache_full_flat [OF assms] by blast
  have cm1: "flat_composite cm1 lf1" and inv1: "flat_inv xxh3 lf1 s1 R U" using one(2) by (simp_all add: flat_step_def)
  note D = flat_invD [OF inv1]
  note S = flat_seqD [OF D(4)]
  obtain q where q: "drop_cached (kv_blocks (sq_kv s1) BT_KV) (lf_pool lf1) = Some q" "pool_flat q R U" "options q = options (lf_pool lf1)"
    using drop_cached_flat [OF D(7) [unfolded seq_ids_def] private_others [OF inv1]] by blast
  define lf2 where "lf2 = lf1\<lparr>lf_pool := q\<rparr>"
  define s2 where "s2 = s1\<lparr>sq_kv := forget_type BT_KV (sq_kv s1)\<rparr>"
  have run: "deallocate_for_sequence xxh3 cm s = Some (put_leaf BT_KV lf2 cm1, s2)"
    using cm1 q(1) by (simp add: deallocate_for_sequence_def one(1) erase_blocks_def drop_typed_def drop_in_leaf_def lf2_def s2_def)
      (simp add: flat_composite_def erase_blocks_def drop_typed_def drop_in_leaf_def leaf_of_def lf2_def s2_def)
  have same: "same_leaf lf1 lf2" using q(3) by (simp add: same_leaf_def lf2_def)
  note L = same_leafD [OF same]
  have ids: "seq_ids s2 = []" "unpublished s2 = {}" by (simp_all add: seq_ids_def s2_def unpublished_def)
  have fr: "seq_frame s1 s2" by (simp add: s2_def seq_frame_kv)
  have src: "src_blocks (forget_type t k) = src_blocks k" for t k by (simp add: forget_type_def)
  have "flat_seq xxh3 (leaf_size lf1) s2"
    using flat_seq_frame [OF D(4) fr] S(1,4,5) forget_ok [OF S(3), of BT_KV] src by (simp add: s2_def hashes_ok_kv)
  then have "flat_inv xxh3 lf2 s2 R U" using D(1,2,5) L q(2) ids by (simp add: flat_inv_def) (simp add: lf2_def)
  then have "flat_step xxh3 R U cm1 lf1 (put_leaf BT_KV lf2 cm1) lf2 s2" using cm1 same by (simp add: flat_step_def)
  from flat_step_trans [OF one(2) this] seq_frame_trans [OF one(3) fr] run ids(1) show ?thesis by blast
qed

text \<open>Of a sequence that is reset, the tokens and the rank stay.\<close>

definition seq_same :: "cache_sequence \<Rightarrow> cache_sequence \<Rightarrow> bool" where
  "seq_same s s' \<longleftrightarrow> sq_buffer s' = sq_buffer s \<and> sq_num s' = sq_num s \<and> sq_rank s' = sq_rank s \<and> sq_items s' = sq_items s
     \<and> sq_slots s' = sq_slots s \<and> sq_beam s' = sq_beam s \<and> sq_warmup s' = sq_warmup s"

lemma seq_same_trans: "seq_same a b \<Longrightarrow> seq_same b c \<Longrightarrow> seq_same a c"
  by (simp add: seq_same_def)

lemma seq_frame_same: "seq_frame s s' \<Longrightarrow> seq_same s s'"
  using seq_frameD [of s s'] by (simp add: seq_same_def)

lemma release_flat:
  assumes "flat_composite cm lf" "flat_inv xxh3 lf s R U"
  shows "\<exists>cm' lf' s'. release_in xxh3 cm s = Some (cm', s') \<and> flat_step xxh3 R U cm lf cm' lf' s' \<and> seq_same s s' \<and> seq_ids s' = []"
proof -
  obtain cm1 lf1 s1 where one: "deallocate_for_sequence xxh3 cm s = Some (cm1, s1)" "flat_step xxh3 R U cm lf cm1 lf1 s1"
      "seq_frame s s1" "seq_ids s1 = []"
    using deallocate_flat [OF assms] by blast
  have cm1: "flat_composite cm1 lf1" and inv1: "flat_inv xxh3 lf1 s1 R U" using one(2) by (simp_all add: flat_step_def)
  note D = flat_invD [OF inv1]
  note S = flat_seqD [OF D(4)]
  obtain d h s2 where rs: "reset_sequence s1 = (d, h, s2)" by (metis prod_cases3)
  have s2: "s2 = s1\<lparr>sq_kv := snd (kv_reset (sq_kv s1)), sq_host := snd (kv_reset (sq_host s1)), sq_restore := None,
      sq_accepted := 0, sq_volatile := sq_num s1\<rparr>"
    using rs by (auto simp: reset_sequence_def split: prod.splits)
  have empty: "kv_blocks (sq_kv s1) t = []" for t using one(4) S(4) by (cases "t = BT_KV") (simp_all add: seq_ids_def)
  let ?tbs = "map (\<lambda>t. (t, kv_blocks (sq_kv s1) t)) map_order @ [(BT_KV, src_blocks (sq_kv s1))]"
  have "\<forall>(t, bs) \<in> set ?tbs. bs = []" by (auto simp: empty S(5))
  note none_left = drop_nothing [OF cm1 this]

  have "reset_in cm1 s1 = map_option (\<lambda>cm'. (cm', s2)) (drop_all_typed ?tbs cm1)"
    using rs S(6,7) by (simp add: reset_in_def list_all_iff)
  then have run: "release_in xxh3 cm s = Some (cm1, s2)" unfolding release_in_def one(1) none_left by simp
  have kv: "kv_blocks (snd (kv_reset k)) t = []" "src_blocks (snd (kv_reset k)) = []" for k t
    by (simp_all add: kv_reset_def kv_blocks_def)
  have ids: "seq_ids s2 = []" "unpublished s2 = {}" by (simp_all add: seq_ids_def s2 kv unpublished_def)
  have "hashes_ok xxh3 s2" by (rule hashes_cong [OF S(1)]) (simp_all add: s2 hash_tokens_def seq_tokens_def)
  then have "flat_seq xxh3 (leaf_size lf1) s2" using S by (simp add: flat_seq_def s2 kv kv_reset_ok)
  then have "flat_inv xxh3 lf1 s2 R U" using D(1,2,5,6) ids one(4) pool_flat_subset by (auto simp: flat_inv_def)
  then have "flat_step xxh3 R U cm lf cm1 lf1 s2" using one(2) by (simp add: flat_step_def)
  moreover have "seq_same s s2" by (rule seq_same_trans [OF seq_frame_same [OF one(3)]]) (simp add: seq_same_def s2)
  ultimately show ?thesis using run ids(1) by blast
qed

end
