(* ===== verification/Flat_Sharing.thy ===== *)
theory Flat_Sharing imports Flat_Growth begin

text \<open>
  A sequence that takes over a cached prefix in a flat cache
  (\<open>core/framework/block/composite_block_manager.cpp\<close>).
\<close>

section \<open>Taking over a prefix\<close>

text \<open>What the mounting of matched blocks leaves: the blocks as they were; the matched ones in front of the rest; or
  published blocks only.\<close>

lemma add_shared_shape:
  assumes "kv_ok (\<lambda>_. size') kv" "blocks_fit (\<lambda>_. size') BT_KV pb" "0 < size'" "length pb * size' \<le> n"
  shows "\<exists>d kv'. add_shared_blocks BT_KV pb n kv = Some (d, kv') \<and> kv_ok (\<lambda>_. size') kv' \<and> src_blocks kv' = src_blocks kv
    \<and> (\<forall>t. t \<noteq> BT_KV \<longrightarrow> kv_blocks kv' t = kv_blocks kv t) \<and> held_blocks kv + mset pb = held_blocks kv' + mset d
    \<and> (kv_blocks kv' BT_KV = kv_blocks kv BT_KV \<and> num_cached_blocks kv BT_KV \<le> num_cached_blocks kv' BT_KV
      \<or> shared_blocks_num kv BT_KV < length pb \<and> kv_blocks kv' BT_KV = pb @ drop (length pb) (kv_blocks kv BT_KV)
          \<and> num_cached_blocks kv' BT_KV = max (num_cached_blocks kv BT_KV) (length pb) \<and> length pb \<le> length (kv_blocks kv BT_KV)
      \<or> num_cached_blocks kv' BT_KV = length (kv_blocks kv' BT_KV))"
proof -
  have kt: "BT_KV \<in> set token_types" by (simp add: token_types_def)
  have "add_shared_blocks BT_KV pb n kv \<noteq> None" using add_shared_fits [OF assms(1) kt assms(2)] assms(3,4) by simp
  then obtain d kv' where run: "add_shared_blocks BT_KV pb n kv = Some (d, kv')" by fastforce
  have ok: "kv_ok (\<lambda>_. size') kv'" using add_shared_ok [OF assms(1) kt assms(2) run] .
  have held: "held_blocks kv + mset pb = held_blocks kv' + mset d" by (rule add_shared_held [OF run])
  show ?thesis
  proof (cases "pb = []")
    case True
    then have "kv' = kv" using run by (simp add: add_shared_blocks_def)
    then show ?thesis using run ok held by auto
  next
    case False
    obtain r where r: "remember_block_size BT_KV pb kv = Some r" using remember_fits [OF assms(1,2)] by blast
    note fr = remember_frame [OF r]
    have sh: "shared_blocks_num r = shared_blocks_num kv" "num_cached_blocks r = num_cached_blocks kv"
      using fr by (simp_all add: fun_eq_iff shared_blocks_num_def num_cached_blocks_def)
    show ?thesis
    proof (cases "length pb \<le> length (kv_blocks kv BT_KV)")
      case le: True
      show ?thesis
      proof (cases "shared_blocks_num kv BT_KV < length pb")
        case True
        have kv': "kv' = (put_blocks BT_KV (pb @ drop (length pb) (kv_blocks kv BT_KV)) r)\<lparr>owned_shared := (owned_shared r)(BT_KV \<mapsto> length pb),
            cached_cursor := (cached_cursor r)(BT_KV \<mapsto> max (num_cached_blocks kv BT_KV) (length pb))\<rparr>"
          using run False r fr sh le True by (simp add: add_shared_blocks_def try_replace_unique_blocks_def Let_def)
        have "num_cached_blocks kv' BT_KV = max (num_cached_blocks kv BT_KV) (length pb)" unfolding kv' by (simp add: num_cached_blocks_def)
        moreover have "kv_blocks kv' BT_KV = pb @ drop (length pb) (kv_blocks kv BT_KV)" "src_blocks kv' = src_blocks kv" "\<forall>t. t \<noteq> BT_KV \<longrightarrow> kv_blocks kv' t = kv_blocks kv t"
          unfolding kv' by (simp_all add: fr)
        ultimately show ?thesis using run ok held True le by (intro exI [of _ d] exI [of _ kv']) simp
      next
        case nlt: False
        have kv': "kv' = (put_blocks BT_KV (kv_blocks kv BT_KV) r)\<lparr>owned_shared := (owned_shared r)(BT_KV \<mapsto> shared_blocks_num kv BT_KV),
            cached_cursor := (cached_cursor r)(BT_KV \<mapsto> max (num_cached_blocks kv BT_KV) (length pb))\<rparr>"
          using run False r fr sh le nlt by (auto simp: add_shared_blocks_def try_replace_unique_blocks_def Let_def)
        have "num_cached_blocks kv' BT_KV = max (num_cached_blocks kv BT_KV) (length pb)" unfolding kv' by (simp add: num_cached_blocks_def)
        moreover have "kv_blocks kv' BT_KV = kv_blocks kv BT_KV" "src_blocks kv' = src_blocks kv" "\<forall>t. t \<noteq> BT_KV \<longrightarrow> kv_blocks kv' t = kv_blocks kv t"
          unfolding kv' by (simp_all add: fr)
        ultimately show ?thesis using run ok held by (intro exI [of _ d] exI [of _ kv']) simp
      qed
    next
      case longer: False
      define ms where "ms = (if length pb * cb_size (pb ! 0) = n then butlast pb else pb)"
      obtain k where kv': "kv' = (put_blocks BT_KV ms r)\<lparr>owned_shared := (owned_shared r)(BT_KV \<mapsto> length ms),
          cached_cursor := (cached_cursor r)(BT_KV \<mapsto> length ms), kv_tokens := k\<rparr>"
        using run False longer r fr unfolding ms_def by (auto simp: add_shared_blocks_def Let_def split: if_splits)
      have "num_cached_blocks kv' BT_KV = length ms" unfolding kv' by (simp add: num_cached_blocks_def)
      moreover have "kv_blocks kv' BT_KV = ms" "src_blocks kv' = src_blocks kv" "\<forall>t. t \<noteq> BT_KV \<longrightarrow> kv_blocks kv' t = kv_blocks kv t"
        unfolding kv' by (simp_all add: fr)
      ultimately show ?thesis using run ok held by (intro exI [of _ d] exI [of _ kv']) simp
    qed
  qed
qed

lemma held_flat:
  assumes "flat_seq xxh3 size' s"
  shows "held_blocks (sq_kv s) = mset (kv_blocks (sq_kv s) BT_KV)"
proof -
  note S = flat_seqD [OF assms]
  show ?thesis unfolding held_blocks_def map_order_def using S(4,5) by simp
qed

text \<open>The mounted blocks come from the published blocks \<open>N\<close> or were shared already.  Unpublished blocks stay as they are.\<close>

lemma mount_flat:
  assumes "flat_seq xxh3 size' s" "blocks_fit (\<lambda>_. size') BT_KV pb" "0 < size'" "length pb * size' \<le> sq_num s"
    and "set (ids pb) \<subseteq> set (take (shared_blocks_num (sq_kv s) BT_KV) (seq_ids s)) \<union> N" "unpublished s \<inter> N = {}"
    and "\<forall>u \<in> unpublished s. count_list (seq_ids s) u = 1"
  shows "\<exists>d kv. add_shared_blocks BT_KV pb (sq_num s) (sq_kv s) = Some (d, kv)
    \<and> (let s' = s\<lparr>sq_kv := kv\<lparr>prefix_matched := True\<rparr>\<rparr> in flat_seq xxh3 size' s' \<and> unpublished s' \<subseteq> unpublished s
       \<and> mset (seq_ids s) + mset (ids pb) = mset (seq_ids s') + mset (ids d) \<and> (\<forall>u \<in> unpublished s'. count_list (seq_ids s') u = 1))"
proof -
  note S = flat_seqD [OF assms(1)]
  let ?kv = "sq_kv s"
  obtain d kv where a: "add_shared_blocks BT_KV pb (sq_num s) ?kv = Some (d, kv)" "kv_ok (\<lambda>_. size') kv" "src_blocks kv = src_blocks ?kv"
      "\<forall>t. t \<noteq> BT_KV \<longrightarrow> kv_blocks kv t = kv_blocks ?kv t" "held_blocks ?kv + mset pb = held_blocks kv + mset d"
      "kv_blocks kv BT_KV = kv_blocks ?kv BT_KV \<and> num_cached_blocks ?kv BT_KV \<le> num_cached_blocks kv BT_KV
      \<or> shared_blocks_num ?kv BT_KV < length pb \<and> kv_blocks kv BT_KV = pb @ drop (length pb) (kv_blocks ?kv BT_KV)
          \<and> num_cached_blocks kv BT_KV = max (num_cached_blocks ?kv BT_KV) (length pb) \<and> length pb \<le> length (kv_blocks ?kv BT_KV)
      \<or> num_cached_blocks kv BT_KV = length (kv_blocks kv BT_KV)"
    using add_shared_shape [OF S(3) assms(2-4)] by blast
  define s' where "s' = s\<lparr>sq_kv := kv\<lparr>prefix_matched := True\<rparr>\<rparr>"
  have fr: "seq_frame s s'" by (simp add: s'_def seq_frame_kv)
  have pm: "kv_blocks (kv\<lparr>prefix_matched := True\<rparr>) = kv_blocks kv" "kv_ok (\<lambda>_. size') (kv\<lparr>prefix_matched := True\<rparr>)"
    using a(2) by (simp_all add: fun_eq_iff kv_blocks_def kv_ok_def shared_blocks_num_def)
  have fs: "flat_seq xxh3 size' s'"
    using flat_seq_frame [OF assms(1) fr] S(1,4,5) a(3,4) pm by (simp add: s'_def hashes_ok_kv)
  have ids': "seq_ids s' = ids (kv_blocks kv BT_KV)" by (simp add: seq_ids_def s'_def pm)
  have cur: "num_cached_blocks (sq_kv s') = num_cached_blocks kv" by (simp add: s'_def fun_eq_iff num_cached_blocks_def)
  have "held_blocks kv = held_blocks (sq_kv s')" by (rule sym, rule held_cong) (simp_all add: s'_def pm)
  then have "mset (kv_blocks ?kv BT_KV) + mset pb = mset (kv_blocks kv BT_KV) + mset d"
    using a(5) held_flat [OF assms(1)] held_flat [OF fs] by (simp add: s'_def pm)
  then have bal: "mset (seq_ids s) + mset (ids pb) = mset (seq_ids s') + mset (ids d)"
    unfolding seq_ids_def ids' by (metis (no_types, lifting) image_mset_union mset_map seq_ids_def ids')
  have "unpublished s' \<subseteq> unpublished s \<and> (\<forall>u \<in> unpublished s'. count_list (seq_ids s') u = 1)"
    using a(6)
  proof (elim disjE conjE)
    assume same: "kv_blocks kv BT_KV = kv_blocks ?kv BT_KV" "num_cached_blocks ?kv BT_KV \<le> num_cached_blocks kv BT_KV"
    then have "seq_ids s' = seq_ids s" unfolding ids' by (simp add: seq_ids_def)
    moreover have "unpublished s' \<subseteq> unpublished s" unfolding unpublished_def calculation cur by (rule set_drop_subset_set_drop [OF same(2)])
    ultimately show ?thesis using assms(7) by auto
  next
    assume rep: "shared_blocks_num ?kv BT_KV < length pb" "kv_blocks kv BT_KV = pb @ drop (length pb) (kv_blocks ?kv BT_KV)"
      "num_cached_blocks kv BT_KV = max (num_cached_blocks ?kv BT_KV) (length pb)" "length pb \<le> length (kv_blocks ?kv BT_KV)"
    let ?k = "num_cached_blocks ?kv BT_KV" and ?n = "length pb"
    have idsr: "seq_ids s' = ids pb @ drop ?n (seq_ids s)" unfolding ids' rep(2) by (simp add: seq_ids_def drop_map)
    have un: "unpublished s' = set (drop (max ?k ?n) (seq_ids s))" unfolding unpublished_def idsr cur rep(3) by simp
    have sub: "unpublished s' \<subseteq> unpublished s" unfolding un by (simp add: unpublished_def set_drop_subset_set_drop)
    have "count_list (seq_ids s') u = 1" if u: "u \<in> unpublished s'" for u
    proof -
      have one: "count_list (take ?n (seq_ids s)) u + count_list (drop ?n (seq_ids s)) u = 1"
        using assms(7) sub u by (metis append_take_drop_id count_list_append subsetD)
      have "u \<in> set (drop ?n (seq_ids s))" using u unfolding un by (meson max.cobounded2 set_drop_subset_set_drop subsetD)
      then have "count_list (drop ?n (seq_ids s)) u \<noteq> 0" by (simp add: count_list_0_iff)
      then have "count_list (take ?n (seq_ids s)) u = 0" "count_list (drop ?n (seq_ids s)) u = 1" using one by simp_all
      then have "u \<notin> set (take ?n (seq_ids s))" by (simp add: count_list_0_iff)
      moreover have "set (take (shared_blocks_num ?kv BT_KV) (seq_ids s)) \<subseteq> set (take ?n (seq_ids s))"
        using rep(1) by (simp add: set_take_subset_set_take)
      moreover have "u \<notin> N" using sub u assms(6) by blast
      ultimately have "u \<notin> set (ids pb)" using assms(5) by blast
      then have "count_list (ids pb) u = 0" by (simp add: count_list_0_iff)
      then show ?thesis using \<open>count_list (drop ?n (seq_ids s)) u = 1\<close> by (simp add: idsr)
    qed
    then show ?thesis using sub by blast
  next
    assume "num_cached_blocks kv BT_KV = length (kv_blocks kv BT_KV)"
    then have "unpublished s' = {}" by (simp add: unpublished_def cur ids')
    then show ?thesis by blast
  qed
  then show ?thesis using a(1) fs bal by (auto simp: Let_def s'_def)
qed


text \<open>A cached prefix is taken over without failure.  The blocks it replaces are given back.\<close>

lemma share_flat:
  assumes "flat_composite cm lf" "flat_inv xxh3 lf s R U"
  shows "\<exists>cm' lf' s'. allocate_shared_for_sequence xxh3 cm s = Some (cm', s') \<and> flat_step xxh3 R U cm lf cm' lf' s' \<and> seq_frame s s'"
proof -
  note D = flat_invD [OF assms(2)]
  note S = flat_seqD [OF D(4)]
  let ?p = "lf_pool lf" and ?size = "leaf_size lf" and ?ty = "leaf_hasher lf"
  have leaves: "cm_leaves cm = [(BT_KV, lf)]" "cm_shape cm = FLAT_KV" using assms(1) by (simp_all add: flat_composite_def)
  obtain s1 where s1: "update_block_hashes xxh3 ?size ?ty s = Some s1" "hashes_ok xxh3 s1"
      "s1 = s\<lparr>sq_hashes := sq_hashes s1, sq_hash_type := sq_hash_type s1\<rparr>"
      "block_hashes ?size s1 = chain_hashes xxh3 ?ty (sq_items s) (hash_tokens s) ?size (num_hash_blocks ?ty (length (hash_tokens s)) ?size)"
    using update_hashes [OF S(1,2), of ?size ?ty] D(3) by blast
  have kv1: "sq_kv s1 = sq_kv s" by (subst s1(3)) simp
  have fr1: "seq_frame s s1" unfolding seq_frame_def using s1(3) kv1 by (metis cache_sequence.surjective cache_sequence.update_convs(13))
  note F = seq_frameD [OF fr1]
  have fs1: "flat_seq xxh3 ?size s1" using flat_seq_frame [OF D(4) fr1 s1(2)] S(3,4,5) by (simp add: kv1)
  have ids1: "seq_ids s1 = seq_ids s" "unpublished s1 = unpublished s" by (simp_all add: seq_ids_def unpublished_def kv1)
  define sh where "sh = shared_blocks_num (sq_kv s) BT_KV"
  define existed where "existed = take sh (kv_blocks (sq_kv s) BT_KV)"
  have shl: "sh \<le> length (kv_blocks (sq_kv s) BT_KV)" using S(3) by (simp add: sh_def kv_ok_def)
  have eids: "map block_id (map cb_block existed) = take sh (seq_ids s)" by (simp add: existed_def seq_ids_def take_map)
  have fit: "blocks_fit (\<lambda>_. ?size) BT_KV (kv_blocks (sq_kv s) BT_KV)" using S(3) by (simp add: kv_ok_def)
  then have ev: "list_all is_valid (map cb_block existed)"
    by (auto simp: blocks_fit_def token_types_def existed_def list_all_iff cb_valid_def dest: in_set_takeD)
  have nh: "num_hash_blocks (opt_hasher_type (options ?p)) (length (hash_tokens s)) (opt_block_size (options ?p)) \<le> length (block_hashes ?size s1)"
    unfolding s1(4) by (simp add: chain_hashes_def leaf_hasher_def leaf_size_def)
  have esub: "set (map block_id (map cb_block existed)) \<subseteq> set (seq_ids s @ R)" unfolding eids by (auto dest: in_set_takeD)
  obtain bs q where q: "allocate_shared xxh3 (hash_tokens s) (map cb_block existed) (sq_items s1) (block_hashes ?size s1) ?p = Some (bs, q)"
      "pool_ok q (map block_id bs @ seq_ids s @ R)" "options q = options ?p" "node_ids q = node_ids ?p" "list_all is_valid bs"
      "set (map block_id bs) \<subseteq> set (take sh (seq_ids s)) \<union> node_ids ?p" "length bs \<le> num_hash_blocks ?ty (length (hash_tokens s)) ?size"
    using allocate_shared_flat [OF D(6,2) esub ev nh] unfolding eids leaf_hasher_def leaf_size_def by blast
  define pb where "pb = own_blocks ?size bs"
  define lf1 where "lf1 = lf\<lparr>lf_pool := q\<rparr>"
  define cm1 where "cm1 = cm\<lparr>cm_leaves := [(BT_KV, lf1)]\<rparr>"
  have same1: "same_leaf lf lf1" using q(3) by (simp add: same_leaf_def lf1_def)
  note L1 = same_leafD [OF same1]
  have cm1: "flat_composite cm1 lf1" using assms(1) by (simp add: cm1_def flat_composite_def)
  have pbids: "ids pb = map block_id bs" by (simp add: pb_def)
  have fitp: "blocks_fit (\<lambda>_. ?size) BT_KV pb" unfolding pb_def by (rule own_fit [OF q(5)])
  have len: "length pb * ?size \<le> sq_num s1"
  proof (cases "pb = []")
    case False
    have "length pb * ?size + block_hash_lookahead ?ty \<le> length (hash_tokens s)"
      by (rule num_hash_blocks_fits) (use q(7) False in \<open>simp_all add: pb_def\<close>)
    then show ?thesis using hash_tokens_le [of s] F(2) by linarith
  qed simp
  have priv: "private_ids ?p (seq_ids s @ R) (unpublished s \<union> U)" using D(6) by (simp add: pool_flat_def)
  have disj: "unpublished s1 \<inter> node_ids ?p = {}" using priv by (auto simp: private_ids_def ids1)
  have one: "\<forall>u \<in> unpublished s1. count_list (seq_ids s1) u = 1"
  proof
    fix u assume u: "u \<in> unpublished s1"
    then have "count_list (seq_ids s) u + count_list R u = 1" using priv by (simp add: private_ids_def ids1)
    moreover have "u \<in> set (seq_ids s)" using u by (auto simp: ids1 unpublished_def dest: in_set_dropD)
    then have "count_list (seq_ids s) u \<noteq> 0" by (simp add: count_list_0_iff)
    ultimately show "count_list (seq_ids s1) u = 1" unfolding ids1 by linarith
  qed
  have sub1: "set (ids pb) \<subseteq> set (take (shared_blocks_num (sq_kv s1) BT_KV) (seq_ids s1)) \<union> node_ids ?p"
    using q(6) unfolding pbids kv1 ids1 sh_def .
  obtain d kv where m: "add_shared_blocks BT_KV pb (sq_num s1) (sq_kv s1) = Some (d, kv)"
    and m': "let s' = s1\<lparr>sq_kv := kv\<lparr>prefix_matched := True\<rparr>\<rparr> in flat_seq xxh3 ?size s' \<and> unpublished s' \<subseteq> unpublished s1
       \<and> mset (seq_ids s1) + mset (ids pb) = mset (seq_ids s') + mset (ids d) \<and> (\<forall>u \<in> unpublished s'. count_list (seq_ids s') u = 1)"
    using mount_flat [OF fs1 fitp D(3) len sub1 disj one] by blast
  define s2 where "s2 = s1\<lparr>sq_kv := kv\<lparr>prefix_matched := True\<rparr>\<rparr>"
  have s2: "flat_seq xxh3 ?size s2" "unpublished s2 \<subseteq> unpublished s" "mset (seq_ids s) + mset (ids pb) = mset (seq_ids s2) + mset (ids d)"
      "\<forall>u \<in> unpublished s2. count_list (seq_ids s2) u = 1"
    using m' by (simp_all add: Let_def s2_def ids1)
  have perm: "pool_ok q (ids d @ seq_ids s2 @ R)"
    using q(2) pool_ok_perm [of "map block_id bs @ seq_ids s @ R" "ids d @ seq_ids s2 @ R"] s2(3) unfolding pbids
    by (simp add: ac_simps)
  have priv2: "private_ids q (seq_ids s2 @ R) (unpublished s2 \<union> U)"
    unfolding private_ids_def
  proof (rule ballI)
    fix u assume u: "u \<in> unpublished s2 \<union> U"
    then have old: "u \<in> unpublished s \<union> U" using s2(2) by blast
    then have n: "u \<notin> node_ids q" and c: "count_list (seq_ids s) u + count_list R u = 1"
      using priv unfolding q(4) by (simp_all add: private_ids_def)
    show "u \<in> set (seq_ids s2 @ R) \<and> u \<notin> node_ids q \<and> count_list (seq_ids s2 @ R) u = 1"
    proof (cases "u \<in> unpublished s2")
      case True
      then have "count_list (seq_ids s) u = 1" using one s2(2) unfolding ids1 by blast
      moreover have "u \<in> set (seq_ids s2)" using True by (auto simp: unpublished_def dest: in_set_dropD)
      ultimately have "count_list (seq_ids s) u = 1" "u \<in> set (seq_ids s2)" .
      then show ?thesis using n c s2(4) True by simp
    next
      case False
      then have U: "u \<in> U" using u by blast
      then have no: "u \<notin> set (seq_ids s)" using D(8) by blast
      then have "u \<notin> set (ids pb)" using q(4,6) n unfolding pbids by (auto dest: in_set_takeD)
      then have "u \<notin># mset (seq_ids s2) + mset (ids d)" using no unfolding s2(3) [symmetric] by simp
      then have "count_list (seq_ids s2) u = 0" by (simp add: count_list_0_iff)
      moreover have "count_list (seq_ids s) u = 0" using no by (simp add: count_list_0_iff)
      ultimately show ?thesis using U D(5) n c by auto
    qed
  qed
  obtain q2 where q2: "drop_cached d q = Some q2" "pool_flat q2 (seq_ids s2 @ R) (unpublished s2 \<union> U)" "options q2 = options q"
    using drop_cached_flat [OF perm priv2] by blast
  define lf2 where "lf2 = lf1\<lparr>lf_pool := q2\<rparr>"
  have same2: "same_leaf lf lf2" using q2(3) q(3) by (simp add: same_leaf_def lf2_def lf1_def)
  note L2 = same_leafD [OF same2]
  have drop: "drop_typed BT_KV d cm1 = Some (put_leaf BT_KV lf2 cm1)"
    using cm1 q2(1) by (simp add: drop_typed_def drop_in_leaf_def lf2_def lf1_def)
  have slice: "slice (kv_blocks (sq_kv s1) BT_KV) 0 (shared_blocks_num (sq_kv s1) BT_KV) = Some existed"
    using shl by (simp add: slice_def existed_def sh_def kv1)
  have probe: "probe_leaf xxh3 BT_KV lf s = Some (\<lparr>pr_type = BT_KV, pr_blocks = pb, pr_block_size = ?size,
      pr_window = lo_window_blocks (lf_opts lf)\<rparr>, lf1, s1)"
    using s1(1) slice q(1) F(15) by (simp add: probe_leaf_def Let_def pb_def lf1_def)
  have run: "allocate_shared_for_sequence xxh3 cm s = Some (put_leaf BT_KV lf2 cm1, s2)"
    using D(1) probe m drop
    by (simp add: allocate_shared_for_sequence_def leaves probed_def trim_probes_def trim_flat_kv_def no_trim_def mount_probe_def
        Let_def cm1_def [symmetric] s2_def)
  have "flat_inv xxh3 lf2 s2 R U" using D(1,2,5) L2 s2(1) q2(2) by (simp add: flat_inv_def) (simp add: lf2_def)
  then have "flat_step xxh3 R U cm lf (put_leaf BT_KV lf2 cm1) lf2 s2"
    using cm1 same2 same_composite_trans [OF _ same_put] by (simp add: flat_step_def cm1_def)
  moreover have "seq_frame s s2" unfolding s2_def by (rule seq_frame_kv [OF fr1])
  ultimately show ?thesis using run by blast
qed

end
