(* ===== verification/Rank_Flow.thy ===== *)
theory Rank_Flow imports Flat_Sharing begin

text \<open>
  The calls of the pool of managers on one rank with a flat cache, and the choice of the rank
  (\<open>core/framework/block/block_manager_pool.cpp\<close>).
\<close>

section \<open>The calls on one rank\<close>

lemma flat_empty:
  assumes "flat_seq xxh3 size' s"
  shows "seq_has_any_blocks s \<longleftrightarrow> seq_ids s \<noteq> []"
proof -
  note S = flat_seqD [OF assms]
  have "has_any_blocks kv \<longleftrightarrow> list_ex (\<lambda>t. kv_blocks kv t \<noteq> []) [BT_KV, BT_SWA, BT_C1, BT_C2, BT_C4, BT_C128]" for kv
  proof -
    have "(case composite_blocks kv t of None \<Rightarrow> False | Some bs \<Rightarrow> bs \<noteq> []) = (kv_blocks kv t \<noteq> [])" for t
      by (simp add: kv_blocks_def split: option.split)
    then show ?thesis unfolding has_any_blocks_def by presburger
  qed
  then show ?thesis using S(4,6) by (simp add: seq_has_any_blocks_def seq_ids_def)
qed

lemma allocate_in_flat:
  assumes "flat_composite cm lf" "flat_inv xxh3 lf s R U" "leaf_size lf = bsz"
  shows "\<exists>ok cm' lf' s'. allocate_in xxh3 bsz n cm s = Some (ok, [], cm', s') \<and> flat_step xxh3 R U cm lf cm' lf' s' \<and> seq_same s s'
    \<and> (if ok then n \<le> length (seq_ids s') * bsz else seq_ids s' = seq_ids s)
    \<and> (fits_in n lf (seq_ids s) (seq_ids s @ R) \<longrightarrow> ok) \<and> (seq_ids s \<noteq> [] \<and> ok \<longrightarrow> fits_in n lf (seq_ids s) (seq_ids s @ R))"
proof -
  note D = flat_invD [OF assms(2)]
  define fresh where "fresh = (\<not> seq_has_any_blocks s)"
  have fresh: "fresh \<longleftrightarrow> seq_ids s = []" using flat_empty [OF D(4)] by (simp add: fresh_def)
  obtain cm1 lf1 s1 where one: "(if fresh then allocate_shared_for_sequence xxh3 cm s else Some (cm, s)) = Some (cm1, s1)"
      "flat_step xxh3 R U cm lf cm1 lf1 s1" "seq_frame s s1" "\<not> fresh \<Longrightarrow> s1 = s"
    using share_flat [OF assms(1,2)] flat_step_refl [OF assms(1,2)] by (cases fresh) auto
  have cm1: "flat_composite cm1 lf1" and inv1: "flat_inv xxh3 lf1 s1 R U" and same1: "same_leaf lf lf1" using one(2) by (simp_all add: flat_step_def)
  have size1: "leaf_size lf1 = bsz" using same_leafD [OF same1] assms(3) by simp
  have pos: "bsz \<noteq> 0" using D(3) assms(3) by simp
  have "src_blocks (sq_kv s1) = []" using flat_seqD [OF flat_invD(4) [OF inv1]] by blast
  then have beam: "beam_in w cm1 s1 = Some (True, [], cm1, s1)" for w by (simp add: beam_in_def)
  obtain ok cm2 lf2 s2 where two: "allocate_sequence xxh3 n cm1 s1 = Some (ok, cm2, s2)" "flat_step xxh3 R U cm1 lf1 cm2 lf2 s2" "seq_frame s1 s2"
      "ok \<longleftrightarrow> fits_in n lf1 (seq_ids s1) (seq_ids s1 @ R)" "if ok then n \<le> length (seq_ids s2) * leaf_size lf1 \<and> (\<exists>new. seq_ids s2 = seq_ids s1 @ new) else seq_ids s2 = seq_ids s1"
    using allocate_sequence_flat [OF cm1 inv1] by blast
  have cm2: "flat_composite cm2 lf2" and inv2: "flat_inv xxh3 lf2 s2 R U" using two(2) by (simp_all add: flat_step_def)
  have step: "flat_step xxh3 R U cm lf cm2 lf2 s2" by (rule flat_step_trans [OF one(2) two(2)])
  have same: "seq_same s s2" by (rule seq_same_trans [OF seq_frame_same [OF one(3)] seq_frame_same [OF two(3)]])
  have opts1: "options (lf_pool lf1) = options (lf_pool lf)" "ceil_blocks n lf1 = ceil_blocks n lf"
    using same1 size1 assms(3) by (simp_all add: same_leaf_def ceil_blocks_def)
  have enough: "fits_in n lf (seq_ids s) (seq_ids s @ R) \<longrightarrow> ok"
  proof (cases "fresh \<and> length (seq_ids s1) \<le> ceil_blocks n lf")
    case True
    have "card (set (seq_ids s1 @ R)) \<le> length (seq_ids s1) + card (set R)"
      using card_Un_le [of "set (seq_ids s1)" "set R"] card_length [of "seq_ids s1"] by simp
    then show ?thesis using True fresh two(4) unfolding fits_in_def opts1 by auto
  next
    case False
    then show ?thesis using pool_count [OF flat_invD(7) [OF inv1]] one(4) fresh two(4) unfolding fits_in_def opts1 by (cases fresh) auto
  qed
  have exact: "seq_ids s \<noteq> [] \<and> ok \<longrightarrow> fits_in n lf (seq_ids s) (seq_ids s @ R)"
    using one(4) fresh two(4) unfolding fits_in_def opts1 by auto
  have open': "allocate_in xxh3 bsz n cm s = (if ok then Some (True, [], cm2, s2)
      else if fresh then map_option (\<lambda>(cm4, s4). (False, [], cm4, s4)) (release_in xxh3 cm2 s2) else Some (False, [], cm2, s2))"
    using one(1) pos beam two(1) by (simp add: allocate_in_def Let_def fresh_def split: bool.splits)
  show ?thesis
  proof (cases "ok \<or> \<not> fresh")
    case True
    then have "allocate_in xxh3 bsz n cm s = Some (ok, [], cm2, s2)" unfolding open' by auto
    moreover have "if ok then n \<le> length (seq_ids s2) * bsz else seq_ids s2 = seq_ids s" using two(5) True one(4) size1 by (cases ok) auto
    ultimately show ?thesis using step same enough exact by blast
  next
    case False
    obtain cm3 lf3 s3 where three: "release_in xxh3 cm2 s2 = Some (cm3, s3)" "flat_step xxh3 R U cm2 lf2 cm3 lf3 s3" "seq_same s2 s3" "seq_ids s3 = []"
      using release_flat [OF cm2 inv2] by blast
    have "allocate_in xxh3 bsz n cm s = Some (False, [], cm3, s3)" unfolding open' using False three(1) by simp
    then show ?thesis using flat_step_trans [OF step three(2)] seq_same_trans [OF same three(3)] three(4) False fresh enough
      by (intro exI [of _ False]) auto
  qed
qed

text \<open>The counter of the cached tokens does not matter to the blocks.\<close>

definition same_cache :: "cache_sequence \<Rightarrow> cache_sequence \<Rightarrow> bool" where
  "same_cache s s' \<longleftrightarrow> sq_host s' = sq_host s \<and> sq_rank s' = sq_rank s \<and> kv_blocks (sq_kv s') = kv_blocks (sq_kv s)
     \<and> block_sizes (sq_kv s') = block_sizes (sq_kv s) \<and> owned_shared (sq_kv s') = owned_shared (sq_kv s)
     \<and> cached_cursor (sq_kv s') = cached_cursor (sq_kv s) \<and> src_blocks (sq_kv s') = src_blocks (sq_kv s)"

lemma same_cache_flat:
  assumes "same_cache s s'" "flat_seq xxh3 size' s" "hashes_ok xxh3 s'" "sq_items s' = sq_items s"
  shows "flat_seq xxh3 size' s' \<and> seq_ids s' = seq_ids s \<and> unpublished s' = unpublished s \<and> sq_rank s' = sq_rank s"
proof -
  have "kv_ok (\<lambda>_. size') (sq_kv s')" using assms(1,2) kv_ok_shared_cong [of _ "sq_kv s" "sq_kv s'"] by (auto simp: same_cache_def flat_seq_def)
  then show ?thesis using assms by (simp add: same_cache_def flat_seq_def seq_ids_def unpublished_def num_cached_blocks_def)
qed

lemma try_allocate_in_flat:
  assumes "flat_composite cm lf" "flat_inv xxh3 lf s R U"
  shows "\<exists>ok cm' lf' s'. try_allocate_in xxh3 cm s = Some (ok, cm', s') \<and> flat_step xxh3 R U cm lf cm' lf' s' \<and> seq_same s s'
    \<and> (if ok then sq_num s \<le> length (seq_ids s') * leaf_size lf \<and> length (seq_tokens s) \<le> kv_tokens (sq_kv s') else seq_ids s' = [])"
proof -
  obtain cm1 lf1 s1 where one: "allocate_shared_for_sequence xxh3 cm s = Some (cm1, s1)" "flat_step xxh3 R U cm lf cm1 lf1 s1" "seq_frame s s1"
    using share_flat [OF assms] by blast
  have cm1: "flat_composite cm1 lf1" and inv1: "flat_inv xxh3 lf1 s1 R U" and same1: "same_leaf lf lf1" using one(2) by (simp_all add: flat_step_def)
  have size1: "leaf_size lf1 = leaf_size lf" using same_leafD [OF same1] by simp
  obtain ok cm2 lf2 s2 where two: "allocate_sequence xxh3 (sq_num s1) cm1 s1 = Some (ok, cm2, s2)" "flat_step xxh3 R U cm1 lf1 cm2 lf2 s2" "seq_frame s1 s2"
      "if ok then sq_num s1 \<le> length (seq_ids s2) * leaf_size lf1 \<and> (\<exists>new. seq_ids s2 = seq_ids s1 @ new) else seq_ids s2 = seq_ids s1"
    using allocate_sequence_flat [OF cm1 inv1] by blast
  have cm2: "flat_composite cm2 lf2" and inv2: "flat_inv xxh3 lf2 s2 R U" and same2: "same_leaf lf1 lf2" using two(2) by (simp_all add: flat_step_def)
  have step: "flat_step xxh3 R U cm lf cm2 lf2 s2" by (rule flat_step_trans [OF one(2) two(2)])
  have fr: "seq_frame s s2" by (rule seq_frame_trans [OF one(3) two(3)])
  note same = seq_frame_same [OF fr] and F = seq_frameD [OF fr] and F1 = seq_frameD [OF one(3)]
  note D2 = flat_invD [OF inv2]
  note S2 = flat_seqD [OF D2(4)]
  show ?thesis
  proof (cases ok)
    case False
    obtain cm3 lf3 s3 where three: "release_in xxh3 cm2 s2 = Some (cm3, s3)" "flat_step xxh3 R U cm2 lf2 cm3 lf3 s3" "seq_same s2 s3" "seq_ids s3 = []"
      using release_flat [OF cm2 inv2] by blast
    have "try_allocate_in xxh3 cm s = Some (False, cm3, s3)" using False by (simp add: try_allocate_in_def one(1) two(1) three(1))
    then show ?thesis using flat_step_trans [OF step three(2)] seq_same_trans [OF same three(3)] three(4) by (intro exI [of _ False]) auto
  next
    case True
    then have n: "sq_num s \<le> length (seq_ids s2) * leaf_size lf" using two(4) F1(2) size1 by simp
    let ?need = "length (seq_tokens s2) - kv_tokens (sq_kv s2)"
    show ?thesis
    proof (cases "kv_tokens (sq_kv s2) < length (seq_tokens s2)")
      case False
      then have "try_allocate_in xxh3 cm s = Some (True, cm2, s2)" using True by (simp add: try_allocate_in_def one(1) two(1))
      then show ?thesis using step same n False F(16) by (intro exI [of _ True]) auto
    next
      case more: True
      have le: "length (seq_tokens s2) \<le> length (kv_blocks (sq_kv s2) BT_KV) * leaf_size lf2"
        using n F(2) size1 same_leafD(1) [OF same2] by (simp add: seq_tokens_def seq_ids_def)
      then have "kv_blocks (sq_kv s2) BT_KV \<noteq> []" using more by auto
      from capacity_kv [OF S2(3) this] more le
      obtain kv where kv: "incr_kv_cache_tokens_num ?need (sq_kv s2) = Some kv" "kv = (sq_kv s2)\<lparr>kv_tokens := length (seq_tokens s2),
          slice_window_pos := slice_window_pos (sq_kv s2) + of_nat ?need\<rparr>"
        by (simp add: incr_kv_cache_tokens_num_def)
      define s3 where "s3 = s2\<lparr>sq_kv := kv\<rparr>"
      have run: "try_allocate_in xxh3 cm s = Some (True, cm2, s3)" using True more kv(1) by (simp add: try_allocate_in_def one(1) two(1) s3_def)
      have sc: "same_cache s2 s3" by (simp add: same_cache_def s3_def kv(2))
      have keep: "flat_seq xxh3 (leaf_size lf2) s3 \<and> seq_ids s3 = seq_ids s2 \<and> unpublished s3 = unpublished s2 \<and> sq_rank s3 = sq_rank s2"
        by (rule same_cache_flat [OF sc D2(4)]) (simp_all add: s3_def hashes_ok_kv S2(1))
      have "flat_step xxh3 R U cm lf cm2 lf2 s3" using step keep by (simp add: flat_step_def flat_inv_def)
      moreover have "seq_same s s3" using same by (simp add: seq_same_def s3_def)
      ultimately show ?thesis using run n keep F(16) by (intro exI [of _ True]) (auto simp: s3_def kv(2))
    qed
  qed
qed

section \<open>The rank that is chosen\<close>

definition room_known :: "composite \<Rightarrow> bool" where
  "room_known cm \<longleftrightarrow> (\<exists>a b. cm_num_available_blocks cm = Some a \<and> cm_num_total_blocks cm = Some b \<and> a \<le> b)"

abbreviation room :: "composite \<Rightarrow> nat" where
  "room cm \<equiv> the (cm_num_available_blocks cm)"

lemma best_ranks_found:
  assumes "\<forall>cm \<in> set cms. room_known cm" "\<forall>j \<in> set cs. j < i \<and> rm j = most" "\<forall>j < i. rm j \<le> most" "cs = [] \<Longrightarrow> i = 0"
    and "\<forall>j < length cms. rm (i + j) = room (cms ! j)"
  shows "\<exists>m ds. best_ranks i cms most cs = Some (m, ds) \<and> (\<forall>j \<in> set ds. j < i + length cms \<and> rm j = m)
    \<and> (\<forall>j < i + length cms. rm j \<le> m) \<and> (ds = [] \<longrightarrow> i + length cms = 0)"
  using assms
proof (induction cms arbitrary: i most cs)
  case Nil
  then show ?case by simp
next
  case (Cons cm cms)
  obtain a b where ab: "cm_num_available_blocks cm = Some a" "cm_num_total_blocks cm = Some b" "a \<le> b"
    using Cons.prems(1) by (auto simp: room_known_def)
  have rmi: "rm i = a" using Cons.prems(5) ab(1) by auto
  have later: "\<forall>j < length cms. rm (i + 1 + j) = room (cms ! j)" using Cons.prems(5) by (metis Suc_less_eq add.assoc length_Cons nth_Cons_Suc plus_1_eq_Suc)
  have rest: "\<forall>cm \<in> set cms. room_known cm" using Cons.prems(1) by simp
  have upto: "\<forall>j < i + 1. rm j \<le> m" if "most \<le> m" "a \<le> m" for m using that Cons.prems(3) rmi by (auto simp: less_Suc_eq)
  have nle: "\<not> b < a" using ab(3) by simp
  consider "cs = [] \<or> most < a" | "cs \<noteq> []" "\<not> most < a" "a = most" | "cs \<noteq> []" "\<not> most < a" "a \<noteq> most" by blast
  then show ?case
  proof cases
    case 1
    then have "most \<le> a \<or> i = 0" using Cons.prems(4) by auto
    then have up: "\<forall>j < i + 1. rm j \<le> a" using upto [of a] rmi by auto
    have "best_ranks i (cm # cms) most cs = best_ranks (i + 1) cms a [i]" using 1 ab nle by auto
    then show ?thesis using Cons.IH [OF rest _ up _ later, of "[i]"] rmi by simp
  next
    case c: 2
    have best: "best_ranks i (cm # cms) most cs = best_ranks (i + 1) cms most (cs @ [i])" using c ab nle by simp
    have "\<forall>j \<in> set (cs @ [i]). j < i + 1 \<and> rm j = most" using c(3) rmi Cons.prems(2) by auto
    from Cons.IH [OF rest this _ _ later] upto [of most] c(2) show ?thesis unfolding best by simp
  next
    case c: 3
    have best: "best_ranks i (cm # cms) most cs = best_ranks (i + 1) cms most cs" using c ab nle by simp
    have "\<forall>j \<in> set cs. j < i + 1 \<and> rm j = most" using Cons.prems(2) by auto
    from Cons.IH [OF rest this _ _ later] upto [of most] c(1,2) show ?thesis unfolding best by simp
  qed
qed

lemma manager_found:
  assumes "mp_managers mp \<noteq> []" "\<forall>cm \<in> set (mp_managers mp). room_known cm"
  shows "\<exists>i c. get_manager_with_max_available_blocks mp = Some (i, mp\<lparr>mp_cursor := c\<rparr>) \<and> i < length (mp_managers mp)
    \<and> (\<forall>j < length (mp_managers mp). room (mp_managers mp ! j) \<le> room (mp_managers mp ! i))"
proof -
  let ?cms = "mp_managers mp"
  obtain m ds where b: "best_ranks 0 ?cms 0 [] = Some (m, ds)" "\<forall>j \<in> set ds. j < length ?cms \<and> room (?cms ! j) = m"
      "\<forall>j < length ?cms. room (?cms ! j) \<le> m" "ds \<noteq> []"
    using best_ranks_found [OF assms(2), of "[]" 0 "\<lambda>j. room (?cms ! j)" 0] assms(1) by auto
  define d where "d = (if length ds = 1 then hd ds else ds ! (unat (mp_cursor mp) mod length ds))"
  have "d \<in> set ds" using b(4) by (simp add: d_def)
  moreover have "\<exists>c. get_manager_with_max_available_blocks mp = Some (d, mp\<lparr>mp_cursor := c\<rparr>)"
  proof (cases ds rule: remdups_adj.cases)
    case 1
    then show ?thesis using b(4) by simp
  next
    case (2 x)
    then show ?thesis using assms(1) b(1)
      by (intro exI [of _ "mp_cursor mp"]) (simp add: get_manager_with_max_available_blocks_def d_def)
  next
    case (3 x y xs)
    then show ?thesis using assms(1) b(1)
      by (intro exI [of _ "mp_cursor mp + 1"]) (simp add: get_manager_with_max_available_blocks_def d_def)
  qed
  ultimately show ?thesis using b(2,3) by metis
qed

end
