(* ===== verification/Leaf_Construction.thy ===== *)
theory Leaf_Construction imports Manager_Pool begin

text \<open>
  The construction of the leaves of a composite manager from the options of the engine
  (\<open>build_composite_leaves\<close> in \<open>core/framework/block/composite_block_manager.cpp\<close>) and of the pool of managers
  (\<open>core/framework/block/block_manager_pool.cpp\<close>).  The wrapper for concurrent calls adds a lock and is left out; a leaf over
  virtual pages (\<open>Xtensor_Manager\<close>) is outside of the composite's model, so building one gives \<open>None\<close>.
\<close>

section \<open>Options\<close>

text \<open>\<open>bo_chunk\<close> is the chunk of a prefill of the scheduler configuration, \<open>bo_compressed_tokens\<close> the tokens of a compressed
  block of the cache configuration.\<close>

record build_options =
  bo_num_blocks :: nat
  bo_block_size :: nat
  bo_prefix_cache :: bool
  bo_sliding_window :: nat
  bo_window_blocks :: nat
  bo_window_total :: nat
  bo_c4_blocks :: nat
  bo_c128_blocks :: nat
  bo_manager_types :: "nat list"
  bo_compress_ratios :: "nat list"
  bo_hasher_type :: hasher_type
  bo_xtensor :: bool
  bo_model_type :: string
  bo_linear :: bool
  bo_linear_slots :: nat
  bo_preserve :: bool
  bo_overlap :: bool
  bo_speculative :: nat
  bo_embedding_blocks :: nat
  bo_decode :: bool
  bo_explicit :: bool
  bo_chunk :: int
  bo_compressed_tokens :: nat

definition is_deepseek_v41_model_type :: "string \<Rightarrow> bool" where
  "is_deepseek_v41_model_type model = (model = ''deepseek_v41'')"

definition pool_options_of :: "build_options \<Rightarrow> block_type \<Rightarrow> bool \<Rightarrow> pool_options" where
  "pool_options_of bo t prefix = \<lparr>opt_num_blocks = bo_num_blocks bo, opt_block_size = bo_block_size bo, opt_enable_prefix_cache = prefix,
     opt_block_type = t, opt_hasher_type = bo_hasher_type bo\<rparr>"

definition leaf_options_of :: "build_options \<Rightarrow> leaf_options" where
  "leaf_options_of bo = \<lparr>lo_sliding_window = bo_sliding_window bo, lo_window_blocks = bo_window_blocks bo, lo_is_decode = bo_decode bo,
     lo_explicit = bo_explicit bo, lo_preserve = bo_preserve bo, lo_overlap = bo_overlap bo, lo_speculative = bo_speculative bo\<rparr>"

definition new_leaf :: "pool_options \<Rightarrow> leaf_options \<Rightarrow> bool \<Rightarrow> bool \<Rightarrow> leaf option" where
  "new_leaf opts lopts admission prefix =
    map_option (\<lambda>p. \<lparr>lf_pool = p, lf_entry = \<lparr>participates_in_admission = admission, supports_prefix_cache = prefix\<rparr>, lf_opts = lopts\<rparr>)
      (create_pool opts)"

text \<open>\<open>emplace\<close> of an ordered map: an entry that is there stays.\<close>

fun emplace :: "block_type \<Rightarrow> leaf \<Rightarrow> leaves \<Rightarrow> leaves" where
  "emplace t lf [] = [(t, lf)]"
| "emplace t lf ((u, l) # ls) =
    (if t = u then (u, l) # ls else if t < u then (t, lf) # (u, l) # ls else (u, l) # emplace t lf ls)"

definition add_leaf :: "block_type \<Rightarrow> leaves \<Rightarrow> leaf option \<Rightarrow> leaves option" where
  "add_leaf t ls = map_option (\<lambda>lf. emplace t lf ls)"

section \<open>Leaves\<close>

text \<open>Manager type 0 is a plain manager, 1 a sliding window.  A group that can carry a prefix cache must be among them.\<close>

fun grouped_anchor_participates :: "nat list \<Rightarrow> nat list \<Rightarrow> bool \<Rightarrow> bool" where
  "grouped_anchor_participates [] ratios is_decode = False"
| "grouped_anchor_participates (t # ts) ratios is_decode =
    (if t \<noteq> 0 then grouped_anchor_participates ts (tl ratios) is_decode
     else case ratios of
       [] \<Rightarrow> False
     | r # rs \<Rightarrow> leaf_participates_in_prefix_cache (block_type_from_compress_ratio r) is_decode
                \<or> grouped_anchor_participates ts rs is_decode)"

definition prefix_cache_on :: "build_options \<Rightarrow> bool" where
  "prefix_cache_on bo \<longleftrightarrow> bo_prefix_cache bo \<and> (bo_manager_types bo = []
     \<or> grouped_anchor_participates (bo_manager_types bo) (bo_compress_ratios bo) (bo_decode bo))"

definition linear_block_size :: "build_options \<Rightarrow> bool \<Rightarrow> nat" where
  "linear_block_size bo prefix =
    (if prefix then bo_block_size bo
     else max (bo_block_size bo) (if bo_chunk bo \<le> 0 then bo_block_size bo else nat (bo_chunk bo)))"

definition build_linear_leaf :: "build_options \<Rightarrow> leaves \<Rightarrow> leaves option" where
  "build_linear_leaf bo ls =
    (let prefix = prefix_cache_on bo \<and> leaf_participates_in_prefix_cache BT_LINEAR (bo_decode bo) in
     if \<not> bo_linear bo then Some ls
     else if bo_linear_slots bo \<le> 1 \<or> bo_block_size bo = 0 then None
     else add_leaf BT_LINEAR ls (new_leaf
       ((pool_options_of bo BT_LINEAR prefix)\<lparr>opt_num_blocks := bo_linear_slots bo, opt_block_size := linear_block_size bo prefix\<rparr>)
       ((leaf_options_of bo)\<lparr>lo_preserve := bo_decode bo \<and> bo_preserve bo\<rparr>) False prefix))"

text \<open>The size and the number of the blocks of a group with the ratio; \<open>None\<close> for a ratio that is not known or a missing
  count.\<close>

definition group_blocks :: "build_options \<Rightarrow> nat \<Rightarrow> (nat \<times> nat) option" where
  "group_blocks bo ratio =
    (if ratio = 1 \<or> ratio = 2 then Some (bo_block_size bo * ratio, bo_num_blocks bo div ratio)
     else if ratio = 4 \<or> ratio = 128
     then (let given = (if ratio = 4 then bo_c4_blocks bo else bo_c128_blocks bo) in
           if given \<noteq> 0 then Some (bo_compressed_tokens bo, given)
           else if bo_block_size bo = 0 \<or> bo_compressed_tokens bo = 0 then None
           else let n = bo_num_blocks bo * bo_block_size bo div bo_compressed_tokens bo in
             if n = 0 then None else Some (bo_compressed_tokens bo, n))
     else None)"

definition build_group_leaf :: "build_options \<Rightarrow> nat \<Rightarrow> leaves \<Rightarrow> leaves option" where
  "build_group_leaf bo ratio ls =
    (let key = block_type_from_compress_ratio ratio;
         prefix = prefix_cache_on bo \<and> leaf_participates_in_prefix_cache key (bo_decode bo) in
     case group_blocks bo ratio of
       None \<Rightarrow> None
     | Some (size', n) \<Rightarrow>
         add_leaf key ls (new_leaf ((pool_options_of bo key prefix)\<lparr>opt_num_blocks := n, opt_block_size := size'\<rparr>) (leaf_options_of bo) True prefix))"

definition build_window_leaf :: "build_options \<Rightarrow> leaves \<Rightarrow> leaves option" where
  "build_window_leaf bo ls =
    (let prefix = prefix_cache_on bo \<and> leaf_participates_in_prefix_cache BT_SWA (bo_decode bo) in
     if bo_window_blocks bo = 0 \<or> bo_block_size bo = 0 \<or> bo_window_total bo = 0 then None
     else if prefix \<and> bo_hasher_type bo \<noteq> HT_TEXT \<and> bo_hasher_type bo \<noteq> HT_MTP_TEXT then None
     else add_leaf BT_SWA ls (new_leaf ((pool_options_of bo BT_SWA prefix)\<lparr>opt_num_blocks := bo_window_total bo\<rparr>)
       ((leaf_options_of bo)\<lparr>lo_sliding_window := max (bo_sliding_window bo) 1\<rparr>) False prefix))"

fun build_groups :: "build_options \<Rightarrow> nat list \<Rightarrow> nat list \<Rightarrow> leaves \<Rightarrow> leaves option" where
  "build_groups bo [] ratios ls = Some ls"
| "build_groups bo (t # ts) ratios ls =
    (case ratios of
       [] \<Rightarrow> None
     | r # rs \<Rightarrow>
         Option.bind (if t = 0 then build_group_leaf bo r ls else if t = 1 then build_window_leaf bo ls else None) (build_groups bo ts rs))"

text \<open>The compressed groups must have the same capacity.\<close>

definition aligned_groups :: "leaves \<Rightarrow> bool" where
  "aligned_groups ls =
    (case (map_of ls BT_C4, map_of ls BT_C128) of
       (Some c4, Some c128) \<Rightarrow> participates_in_admission (lf_entry c4) \<and> participates_in_admission (lf_entry c128)
         \<longrightarrow> num_total_blocks (lf_pool c4) = num_total_blocks (lf_pool c128)
     | _ \<Rightarrow> True)"

definition build_composite_leaves :: "build_options \<Rightarrow> leaves option" where
  "build_composite_leaves bo =
    (if is_deepseek_v41_model_type (bo_model_type bo) \<and> bo_prefix_cache bo \<and> \<not> bo_decode bo \<and> bo_hasher_type bo \<noteq> HT_TEXT then None
     else case build_linear_leaf bo [] of
       None \<Rightarrow> None
     | Some ls \<Rightarrow>
         if bo_manager_types bo = []
         then (let prefix = prefix_cache_on bo \<and> leaf_participates_in_prefix_cache BT_KV (bo_decode bo) in
               if bo_xtensor bo then None
               else add_leaf BT_KV ls (new_leaf (pool_options_of bo BT_KV prefix) (leaf_options_of bo) True prefix))
         else if length (bo_manager_types bo) \<noteq> length (bo_compress_ratios bo) then None
         else Option.bind (build_groups bo (bo_manager_types bo) (bo_compress_ratios bo) ls)
                (\<lambda>ls'. if aligned_groups ls' then Some ls' else None))"

section \<open>The pool\<close>

definition embedding_options :: "nat \<Rightarrow> pool_options" where
  "embedding_options n = \<lparr>opt_num_blocks = n, opt_block_size = 1, opt_enable_prefix_cache = False, opt_block_type = BT_EMBEDDING,
     opt_hasher_type = HT_TEXT\<rparr>"

text \<open>\<open>none_set\<close> are the options that an embedding leaf does not use.\<close>

definition none_set :: leaf_options where
  "none_set = \<lparr>lo_sliding_window = 0, lo_window_blocks = 0, lo_is_decode = False, lo_explicit = False, lo_preserve = False,
     lo_overlap = False, lo_speculative = 0\<rparr>"

definition create_rank :: "build_options \<Rightarrow> composite option" where
  "create_rank bo =
    (case build_composite_leaves bo of
       None \<Rightarrow> None
     | Some ls \<Rightarrow>
         Option.bind (if bo_speculative bo = 0 then Some ls
                      else add_leaf BT_EMBEDDING ls (new_leaf (embedding_options (bo_embedding_blocks bo)) none_set False False))
           (\<lambda>ls'. create_composite ls' (bo_block_size bo) False))"

definition create_manager_pool :: "build_options \<Rightarrow> nat \<Rightarrow> manager_pool option" where
  "create_manager_pool bo dp_size =
    (if dp_size = 0 then None
     else map_option (\<lambda>cm. \<lparr>mp_managers = replicate dp_size cm, mp_block_size = bo_block_size bo, mp_prefix_cache = bo_prefix_cache bo,
         mp_cursor = 0, mp_swaps = replicate dp_size []\<rparr>) (create_rank bo))"

section \<open>What is built\<close>

text \<open>An option set for plain attention.\<close>

definition flat_build :: "build_options \<Rightarrow> bool" where
  "flat_build bo \<longleftrightarrow> bo_manager_types bo = [] \<and> \<not> bo_linear bo \<and> \<not> bo_xtensor bo \<and> bo_speculative bo = 0 \<and> bo_prefix_cache bo"

definition kv_options :: "build_options \<Rightarrow> pool_options" where
  "kv_options bo = pool_options_of bo BT_KV True"

lemma flat_rank:
  assumes "flat_build bo" "create_rank bo = Some cm"
  shows "\<exists>p. create_pool (kv_options bo) = Some p \<and> cm = \<lparr>cm_leaves = [(BT_KV, \<lparr>lf_pool = p,
      lf_entry = \<lparr>participates_in_admission = True, supports_prefix_cache = True\<rparr>, lf_opts = leaf_options_of bo\<rparr>)],
    cm_shape = FLAT_KV, cm_explicit = False, cm_block_size = bo_block_size bo\<rparr>"
  using assms by (auto simp: flat_build_def create_rank_def build_composite_leaves_def build_linear_leaf_def prefix_cache_on_def add_leaf_def
      new_leaf_def leaf_participates_in_prefix_cache_def kv_options_def create_composite_def classify_leaf_combination_def Let_def
      split: if_splits option.splits)

end
