(* ===== verification/Pool_Steps.thy ===== *)
theory Pool_Steps imports Rank_Flow Leaf_Construction begin

text \<open>
  Runs of a pool of managers with flat caches (\<open>core/framework/block/block_manager_pool.cpp\<close>): sequences arrive, get
  tokens, are allocated, share, publish and are released in any order, on any number of ranks.  No call fails a
  \<open>CHECK\<close>, the blocks in use are those that the sequences hold, and allocation is all or nothing.
\<close>

section \<open>Runs\<close>

text \<open>\<open>Tokens\<close> is a step of the tokens of a sequence (\<open>Sequence_Hashes\<close>); the others are calls of the pool.  A sequence is
  named by its position.\<close>

datatype pool_call =
    Arrive "token list" nat bool bool nat "nat list" "mm_item list"
  | Tokens nat seq_event
  | Allocate nat nat
  | Try_Allocate nat
  | Share nat
  | Publish nat
  | Publish_Up_To nat nat
  | Deallocate nat
  | Reset_Cache

type_synonym pool_state = "manager_pool \<times> cache_sequence list"

definition on_seq :: "nat \<Rightarrow> (manager_pool \<Rightarrow> cache_sequence \<Rightarrow> (manager_pool \<times> cache_sequence) option) \<Rightarrow> pool_state \<Rightarrow> pool_state option" where
  "on_seq j call = (\<lambda>(mp, ss). if length ss \<le> j then None else map_option (\<lambda>(mp', s). (mp', ss[j := s])) (call mp (ss ! j)))"

fun pool_step :: "(u8 list \<Rightarrow> hash_key) \<Rightarrow> pool_call \<Rightarrow> pool_state \<Rightarrow> pool_state option" where
  "pool_step xxh3 (Arrive prompt capacity ov wu beam slots its) = (\<lambda>(mp, ss).
     map_option (\<lambda>s. (mp, ss @ [s])) (create_cache_sequence prompt capacity ov wu beam slots its))"
| "pool_step xxh3 (Tokens j e) = on_seq j (\<lambda>mp s. map_option (Pair mp) (seq_step xxh3 e s))"
| "pool_step xxh3 (Allocate j n) = on_seq j (\<lambda>mp s. map_option snd (pool_allocate xxh3 n mp s))"
| "pool_step xxh3 (Try_Allocate j) = on_seq j (\<lambda>mp s. map_option snd (try_allocate xxh3 mp s))"
| "pool_step xxh3 (Share j) = on_seq j (pool_allocate_shared xxh3)"
| "pool_step xxh3 (Publish j) = on_seq j (pool_cache xxh3)"
| "pool_step xxh3 (Publish_Up_To j n) = on_seq j (pool_cache_up_to xxh3 n)"
| "pool_step xxh3 (Deallocate j) = on_seq j (pool_deallocate xxh3)"
| "pool_step xxh3 Reset_Cache = (\<lambda>(mp, ss). map_option (\<lambda>mp'. (mp', ss)) (pool_reset_prefix_cache mp))"

fun pool_run :: "(u8 list \<Rightarrow> hash_key) \<Rightarrow> pool_call list \<Rightarrow> pool_state \<Rightarrow> pool_state option" where
  "pool_run xxh3 [] st = Some st"
| "pool_run xxh3 (c # cs) st = Option.bind (pool_step xxh3 c st) (pool_run xxh3 cs)"

text \<open>The arguments of a call: a sequence that is there, a prompt that fits, items in order, tokens that fit.\<close>

fun token_event :: "seq_event \<Rightarrow> bool" where
  "token_event (Ev_Cache kv host restore) \<longleftrightarrow> False"
| "token_event Ev_Reset \<longleftrightarrow> False"
| "token_event _ \<longleftrightarrow> True"

fun call_fits :: "(u8 list \<Rightarrow> hash_key) \<Rightarrow> pool_call \<Rightarrow> cache_sequence list \<Rightarrow> bool" where
  "call_fits xxh3 (Arrive prompt capacity ov wu beam slots its) ss \<longleftrightarrow> prompt \<noteq> [] \<and> length prompt < capacity \<and> mm_sorted its"
| "call_fits xxh3 (Tokens j e) ss \<longleftrightarrow> j < length ss \<and> token_event e \<and> seq_step xxh3 e (ss ! j) \<noteq> None"
| "call_fits xxh3 (Allocate j n) ss \<longleftrightarrow> j < length ss"
| "call_fits xxh3 (Try_Allocate j) ss \<longleftrightarrow> j < length ss"
| "call_fits xxh3 (Share j) ss \<longleftrightarrow> j < length ss"
| "call_fits xxh3 (Publish j) ss \<longleftrightarrow> j < length ss"
| "call_fits xxh3 (Publish_Up_To j n) ss \<longleftrightarrow> j < length ss"
| "call_fits xxh3 (Deallocate j) ss \<longleftrightarrow> j < length ss"
| "call_fits xxh3 Reset_Cache ss \<longleftrightarrow> True"

fun calls_fit :: "(u8 list \<Rightarrow> hash_key) \<Rightarrow> pool_call list \<Rightarrow> pool_state \<Rightarrow> bool" where
  "calls_fit xxh3 [] st \<longleftrightarrow> True"
| "calls_fit xxh3 (c # cs) st \<longleftrightarrow> call_fits xxh3 c (snd st)
     \<and> (case pool_step xxh3 c st of None \<Rightarrow> True | Some st' \<Rightarrow> calls_fit xxh3 cs st')"

section \<open>What the ranks hold\<close>

definition rank_ids :: "nat \<Rightarrow> cache_sequence list \<Rightarrow> int list" where
  "rank_ids i ss = concat (map (\<lambda>s. if sq_rank s = int i then seq_ids s else []) ss)"

definition rank_private :: "nat \<Rightarrow> cache_sequence list \<Rightarrow> int set" where
  "rank_private i ss = (\<Union>s \<in> set ss. if sq_rank s = int i then unpublished s else {})"

text \<open>A manager with a flat cache of the given options, and a sequence of the pool.\<close>

definition flat_manager :: "pool_options \<Rightarrow> composite \<Rightarrow> leaf \<Rightarrow> bool" where
  "flat_manager opts cm lf \<longleftrightarrow> flat_composite cm lf \<and> supports lf \<and> participates_in_admission (lf_entry lf) \<and> options (lf_pool lf) = opts
     \<and> cm_block_size cm = opt_block_size opts"

definition pooled_seq :: "(u8 list \<Rightarrow> hash_key) \<Rightarrow> pool_options \<Rightarrow> nat \<Rightarrow> cache_sequence \<Rightarrow> bool" where
  "pooled_seq xxh3 opts ranks s \<longleftrightarrow> flat_seq xxh3 (opt_block_size opts) s \<and> sq_rank s < int ranks \<and> (sq_rank s < 0 \<longrightarrow> seq_ids s = [])"

definition solid_options :: "pool_options \<Rightarrow> bool" where
  "solid_options opts \<longleftrightarrow> opt_block_type opts = BT_KV \<and> opt_enable_prefix_cache opts \<and> 0 < opt_block_size opts"

definition pool_inv :: "(u8 list \<Rightarrow> hash_key) \<Rightarrow> pool_options \<Rightarrow> nat \<Rightarrow> manager_pool \<Rightarrow> cache_sequence list \<Rightarrow> bool" where
  "pool_inv xxh3 opts ranks mp ss \<longleftrightarrow> solid_options opts \<and> 0 < ranks \<and> length (mp_managers mp) = ranks \<and> length (mp_swaps mp) = ranks
     \<and> mp_prefix_cache mp \<and> mp_block_size mp = opt_block_size opts
     \<and> (\<forall>i < ranks. \<exists>lf. flat_manager opts (mp_managers mp ! i) lf \<and> pool_flat (lf_pool lf) (rank_ids i ss) (rank_private i ss))
     \<and> (\<forall>s \<in> set ss. pooled_seq xxh3 opts ranks s)"

lemma rank_append [simp]: "rank_ids i (ss @ ts) = rank_ids i ss @ rank_ids i ts" "rank_private i (ss @ ts) = rank_private i ss \<union> rank_private i ts"
  by (auto simp: rank_ids_def rank_private_def)

lemma rank_cons [simp]: "rank_ids i (s # ss) = (if sq_rank s = int i then seq_ids s else []) @ rank_ids i ss"
  "rank_private i (s # ss) = (if sq_rank s = int i then unpublished s else {}) \<union> rank_private i ss"
  by (simp_all add: rank_ids_def rank_private_def)

lemma rank_nil [simp]: "rank_ids i [] = []" "rank_private i [] = {}"
  by (simp_all add: rank_ids_def rank_private_def)

lemma unpublished_held: "unpublished s \<subseteq> set (seq_ids s)"
  by (auto simp: unpublished_def dest: in_set_dropD)

lemma rank_private_held: "rank_private i ss \<subseteq> set (rank_ids i ss)"
  using unpublished_held by (induction ss) auto

text \<open>The other sequences.\<close>

definition others :: "nat \<Rightarrow> 'a list \<Rightarrow> 'a list" where
  "others j ss = take j ss @ drop (Suc j) ss"

lemma rank_split:
  assumes "j < length ss"
  shows "mset (rank_ids i (ss[j := s])) = mset (rank_ids i (s # others j ss))"
    and "rank_private i (ss[j := s]) = rank_private i (s # others j ss)"
  using assms by (auto simp: upd_conv_take_nth_drop others_def)

lemma rank_split_self:
  assumes "j < length ss"
  shows "mset (rank_ids i ss) = mset (rank_ids i ((ss ! j) # others j ss))" and "rank_private i ss = rank_private i ((ss ! j) # others j ss)"
  using rank_split [OF assms, of i "ss ! j"] by simp_all


lemma hashes_ok_rank: "hashes_ok xxh3 (s\<lparr>sq_rank := r\<rparr>) = hashes_ok xxh3 s"
proof -
  have "hash_tokens (s\<lparr>sq_rank := r\<rparr>) = hash_tokens s" by (simp add: hash_tokens_def seq_tokens_def)
  then show ?thesis by (simp add: hashes_ok_def)
qed

text \<open>The rank of a sequence, seen with the sequence bound to it.\<close>

lemma take_out:
  assumes "pool_inv xxh3 opts ranks mp ss" "j < length ss" "i < length (mp_managers mp)" "sq_rank (ss ! j) = int i \<or> sq_rank (ss ! j) < 0"
  shows "\<exists>lf. flat_manager opts (mp_managers mp ! i) lf \<and> leaf_size lf = opt_block_size opts
    \<and> flat_inv xxh3 lf ((ss ! j)\<lparr>sq_rank := int i\<rparr>) (rank_ids i (others j ss)) (rank_private i (others j ss))"
proof -
  let ?s = "ss ! j" and ?R = "rank_ids i (others j ss)" and ?U = "rank_private i (others j ss)"
  obtain lf where lf: "flat_manager opts (mp_managers mp ! i) lf" "pool_flat (lf_pool lf) (rank_ids i ss) (rank_private i ss)"
    using assms(1,3) by (auto simp: pool_inv_def)
  have so: "solid_options opts" using assms(1) by (simp add: pool_inv_def)
  have ps: "pooled_seq xxh3 opts (length (mp_managers mp)) ?s" using assms(1,2) by (simp add: pool_inv_def)
  let ?b = "?s\<lparr>sq_rank := int i\<rparr>"
  have same: "seq_ids ?b = seq_ids ?s" "unpublished ?b = unpublished ?s" by (simp_all add: seq_ids_def unpublished_def)
  have size': "leaf_size lf = opt_block_size opts" using lf(1) by (simp add: flat_manager_def leaf_size_def)
  have fs: "flat_seq xxh3 (leaf_size lf) ?b" using ps size'
    by (simp add: pooled_seq_def flat_seq_def hashes_ok_rank)
  have none: "sq_rank ?s < 0 \<Longrightarrow> seq_ids ?s = [] \<and> unpublished ?s = {}"
    using ps unpublished_held [of ?s] by (auto simp: pooled_seq_def)
  have "mset (rank_ids i ss) = mset (seq_ids ?b @ ?R)" "rank_private i ss = unpublished ?b \<union> ?U"
    unfolding rank_split_self [OF assms(2)] same using assms(4) none by auto
  then have "pool_flat (lf_pool lf) (seq_ids ?b @ ?R) (unpublished ?b \<union> ?U)" using lf(2) pool_flat_perm by metis
  then have "flat_inv xxh3 lf ?b ?R ?U"
    using lf(1) fs so rank_private_held by (auto simp: flat_inv_def flat_manager_def solid_pool_def solid_options_def)
  then show ?thesis using lf(1) size' by blast
qed

lemma put_back:
  assumes "pool_inv xxh3 opts ranks mp ss" "j < length ss" "i < length (mp_managers mp)" "sq_rank (ss ! j) = int i \<or> sq_rank (ss ! j) < 0"
    and "flat_manager opts (mp_managers mp ! i) lf" "flat_step xxh3 (rank_ids i (others j ss)) (rank_private i (others j ss)) (mp_managers mp ! i) lf cm' lf' s'"
    and "sq_rank s' = int i" "length sw = length (mp_swaps mp)"
  shows "pool_inv xxh3 opts ranks (mp\<lparr>mp_cursor := c, mp_managers := (mp_managers mp)[i := cm'], mp_swaps := sw\<rparr>) (ss[j := s'])"
proof -
  let ?cms = "mp_managers mp" and ?s = "ss ! j"
  have ps: "pooled_seq xxh3 opts (length ?cms) ?s" using assms(1,2) by (simp add: pool_inv_def)
  have fm: "flat_manager opts cm' lf'" and inv': "flat_inv xxh3 lf' s' (rank_ids i (others j ss)) (rank_private i (others j ss))"
    using assms(5,6) same_compositeD(3) [of "?cms ! i" cm'] same_leafD(3) [of lf lf']
    by (auto simp: flat_step_def flat_manager_def same_leaf_def)
  have size': "leaf_size lf' = opt_block_size opts" using fm by (simp add: flat_manager_def leaf_size_def)
  have ps': "pooled_seq xxh3 opts (length ?cms) s'" using flat_invD(4) [OF inv'] assms(3,7) size' by (simp add: pooled_seq_def)
  have at: "\<exists>lf. flat_manager opts (?cms[i := cm'] ! k) lf \<and> pool_flat (lf_pool lf) (rank_ids k (ss[j := s'])) (rank_private k (ss[j := s']))"
    if k: "k < length ?cms" for k
  proof (cases "k = i")
    case True
    have "mset (rank_ids i (ss[j := s'])) = mset (seq_ids s' @ rank_ids i (others j ss))"
      "rank_private i (ss[j := s']) = unpublished s' \<union> rank_private i (others j ss)"
      using rank_split [OF assms(2)] assms(7) by simp_all
    then have "pool_flat (lf_pool lf') (rank_ids i (ss[j := s'])) (rank_private i (ss[j := s']))"
      using flat_invD(6) [OF inv'] pool_flat_perm by metis
    then show ?thesis using True k fm by auto
  next
    case False
    have none: "sq_rank ?s = int k \<Longrightarrow> False" using assms(4) False by auto
    have "mset (rank_ids k (ss[j := s'])) = mset (rank_ids k ss)" "rank_private k (ss[j := s']) = rank_private k ss"
      unfolding rank_split_self [OF assms(2), of k] rank_split [OF assms(2)] using none assms(7) False by auto
    moreover obtain l where "flat_manager opts (?cms ! k) l" "pool_flat (lf_pool l) (rank_ids k ss) (rank_private k ss)"
      using assms(1) k by (auto simp: pool_inv_def)
    ultimately show ?thesis using False pool_flat_perm by (metis nth_list_update_neq)
  qed
  have "\<forall>s \<in> set (ss[j := s']). pooled_seq xxh3 opts (length ?cms) s"
    using ps' assms(1) by (auto simp: pool_inv_def dest!: set_update_subset_insert [THEN subsetD])
  then show ?thesis using assms(1,8) at by (simp add: pool_inv_def)
qed

lemma room_exact:
  assumes "flat_manager opts cm lf" "0 < opt_block_size opts"
  shows "cm_num_available_blocks cm = Some (if participates_in_admission (lf_entry lf) then
    num_free_blocks (lf_pool lf) + num_evictable_blocks (lf_pool lf) else 0)"
  using assms by (simp add: flat_manager_def leaf_size_def flat_composite_def cm_num_available_blocks_def scaled_counts_def
      admission_leaves_def least_or_0_def)

lemma room_of_flat:
  assumes "flat_manager opts cm lf" "pool_ok (lf_pool lf) H" "0 < opt_block_size opts"
  shows "room_known cm"
proof -
  have size': "leaf_size lf = opt_block_size opts" "cm_block_size cm = opt_block_size opts" "cm_leaves cm = [(BT_KV, lf)]"
    using assms(1) by (simp_all add: flat_manager_def leaf_size_def flat_composite_def)
  have "num_total_blocks (lf_pool lf) = opt_num_blocks (options (lf_pool lf)) - 1"
    using free_okD(1) [OF pool_ok_refs(2) [OF assms(2)]] by (simp add: num_total_blocks_def)
  then have "num_free_blocks (lf_pool lf) + num_evictable_blocks (lf_pool lf) \<le> num_total_blocks (lf_pool lf)"
    using pool_count [OF assms(2)] by linarith
  then show ?thesis using size' assms(3)
    by (simp add: room_known_def cm_num_available_blocks_def cm_num_total_blocks_def scaled_counts_def admission_leaves_def least_or_0_def)
qed

lemma inv_room:
  assumes "pool_inv xxh3 opts ranks mp ss"
  shows "\<forall>cm \<in> set (mp_managers mp). room_known cm"
proof
  fix cm assume "cm \<in> set (mp_managers mp)"
  then obtain i where "i < length (mp_managers mp)" "cm = mp_managers mp ! i" by (auto simp: in_set_conv_nth)
  then show "room_known cm" using assms room_of_flat by (fastforce simp: pool_inv_def pool_flat_def solid_options_def)
qed

lemma dp_rank_found:
  assumes "pool_inv xxh3 opts ranks mp ss" "j < length ss"
  shows "\<exists>i c. get_dp_rank mp (ss ! j) = Some (i, mp\<lparr>mp_cursor := c\<rparr>, (ss ! j)\<lparr>sq_rank := int i\<rparr>) \<and> i < length (mp_managers mp)
    \<and> (sq_rank (ss ! j) = int i \<or> sq_rank (ss ! j) < 0)"
proof (cases "0 \<le> sq_rank (ss ! j)")
  case True
  have "sq_rank (ss ! j) < int (length (mp_managers mp))" using assms by (simp add: pool_inv_def pooled_seq_def)
  then show ?thesis using True by (intro exI [of _ "nat (sq_rank (ss ! j))"] exI [of _ "mp_cursor mp"]) (auto simp: get_dp_rank_def)
next
  case False
  have "mp_managers mp \<noteq> []" using assms(1) by (auto simp: pool_inv_def)
  from manager_found [OF this inv_room [OF assms(1)]] show ?thesis using False by (auto simp: get_dp_rank_def)
qed


section \<open>Every call\<close>

lemma rank_call:
  assumes "pool_inv xxh3 opts ranks mp ss" "j < length ss"
    and call: "\<And>cm lf s R U. flat_composite cm lf \<Longrightarrow> flat_inv xxh3 lf s R U \<Longrightarrow>
      \<exists>cm' lf' s'. call cm s = Some (cm', s') \<and> flat_step xxh3 R U cm lf cm' lf' s' \<and> sq_rank s' = sq_rank s"
  shows "\<exists>mp' s'. (case get_dp_rank mp (ss ! j) of None \<Rightarrow> None | Some (i, mp1, s1) \<Rightarrow> on_rank i call mp1 s1) = Some (mp', s')
    \<and> pool_inv xxh3 opts ranks mp' (ss[j := s'])"
proof -
  obtain i c where r: "get_dp_rank mp (ss ! j) = Some (i, mp\<lparr>mp_cursor := c\<rparr>, (ss ! j)\<lparr>sq_rank := int i\<rparr>)" "i < length (mp_managers mp)"
      "sq_rank (ss ! j) = int i \<or> sq_rank (ss ! j) < 0"
    using dp_rank_found [OF assms(1,2)] by blast
  obtain lf where lf: "flat_manager opts (mp_managers mp ! i) lf"
      "flat_inv xxh3 lf ((ss ! j)\<lparr>sq_rank := int i\<rparr>) (rank_ids i (others j ss)) (rank_private i (others j ss))"
    using take_out [OF assms(1,2) r(2,3)] by blast
  have fc: "flat_composite (mp_managers mp ! i) lf" using lf(1) by (simp add: flat_manager_def)
  obtain cm' lf' s' where c': "call (mp_managers mp ! i) ((ss ! j)\<lparr>sq_rank := int i\<rparr>) = Some (cm', s')"
      "flat_step xxh3 (rank_ids i (others j ss)) (rank_private i (others j ss)) (mp_managers mp ! i) lf cm' lf' s'" "sq_rank s' = int i"
    using call [OF fc lf(2)] by auto
  have "pool_inv xxh3 opts ranks (mp\<lparr>mp_cursor := c, mp_managers := (mp_managers mp)[i := cm'], mp_swaps := mp_swaps mp\<rparr>) (ss[j := s'])"
    by (rule put_back [OF assms(1,2) r(2,3) lf(1) c'(2,3) refl])
  then show ?thesis using r(1,2) c'(1) by (simp add: on_rank_def)
qed

text \<open>The sequence as it was, on the rank it has now.\<close>

definition moved :: "cache_sequence \<Rightarrow> cache_sequence \<Rightarrow> bool" where
  "moved s s' \<longleftrightarrow> sq_buffer s' = sq_buffer s \<and> sq_num s' = sq_num s \<and> (0 \<le> sq_rank s \<longrightarrow> sq_rank s' = sq_rank s)"

text \<open>A rank has room for the blocks that a sequence lacks for \<open>n\<close> tokens, besides those in use.\<close>

definition room_for :: "nat \<Rightarrow> pool_options \<Rightarrow> int list \<Rightarrow> int list \<Rightarrow> bool" where
  "room_for n opts own used \<longleftrightarrow>
     (n + opt_block_size opts - 1) div opt_block_size opts - length own + card (set used) \<le> opt_num_blocks opts - 1"

lemma pool_allocate_flat:
  assumes "pool_inv xxh3 opts ranks mp ss" "j < length ss"
  shows "\<exists>ok mp' s'. pool_allocate xxh3 n mp (ss ! j) = Some (ok, mp', s') \<and> pool_inv xxh3 opts ranks mp' (ss[j := s']) \<and> moved (ss ! j) s'
    \<and> (if ok then n \<le> length (seq_ids s') * opt_block_size opts else seq_ids s' = seq_ids (ss ! j))
    \<and> (0 \<le> sq_rank s' \<and> (room_for n opts (seq_ids (ss ! j)) (rank_ids (nat (sq_rank s')) ss) \<longrightarrow> ok)
       \<and> (seq_ids (ss ! j) \<noteq> [] \<and> ok \<longrightarrow> room_for n opts (seq_ids (ss ! j)) (rank_ids (nat (sq_rank s')) ss)))"
proof -
  let ?s = "ss ! j"
  obtain i c where r: "get_dp_rank mp ?s = Some (i, mp\<lparr>mp_cursor := c\<rparr>, ?s\<lparr>sq_rank := int i\<rparr>)" "i < length (mp_managers mp)"
      "sq_rank ?s = int i \<or> sq_rank ?s < 0"
    using dp_rank_found [OF assms] by blast
  obtain lf where lf: "flat_manager opts (mp_managers mp ! i) lf" "leaf_size lf = opt_block_size opts"
      "flat_inv xxh3 lf (?s\<lparr>sq_rank := int i\<rparr>) (rank_ids i (others j ss)) (rank_private i (others j ss))"
    using take_out [OF assms r(2,3)] by blast
  have fc: "flat_composite (mp_managers mp ! i) lf" using lf(1) by (simp add: flat_manager_def)
  have P: "length (mp_swaps mp) = length (mp_managers mp)" "mp_block_size mp = opt_block_size opts" using assms(1) by (simp_all add: pool_inv_def)
  obtain ok cm' lf' s' where a: "allocate_in xxh3 (opt_block_size opts) n (mp_managers mp ! i) (?s\<lparr>sq_rank := int i\<rparr>) = Some (ok, [], cm', s')"
      "flat_step xxh3 (rank_ids i (others j ss)) (rank_private i (others j ss)) (mp_managers mp ! i) lf cm' lf' s'"
      "seq_same (?s\<lparr>sq_rank := int i\<rparr>) s'"
      "if ok then n \<le> length (seq_ids s') * opt_block_size opts else seq_ids s' = seq_ids (?s\<lparr>sq_rank := int i\<rparr>)"
      "fits_in n lf (seq_ids (?s\<lparr>sq_rank := int i\<rparr>)) (seq_ids (?s\<lparr>sq_rank := int i\<rparr>) @ rank_ids i (others j ss)) \<longrightarrow> ok"
      "seq_ids (?s\<lparr>sq_rank := int i\<rparr>) \<noteq> [] \<and> ok \<longrightarrow>
        fits_in n lf (seq_ids (?s\<lparr>sq_rank := int i\<rparr>)) (seq_ids (?s\<lparr>sq_rank := int i\<rparr>) @ rank_ids i (others j ss))"
    using allocate_in_flat [OF fc lf(3,2)] by blast
  let ?sw = "(mp_swaps mp)[i := mp_swaps mp ! i]"
  have "sq_rank s' = int i" using a(3) by (simp add: seq_same_def)
  from put_back [OF assms r(2,3) lf(1) a(2) this, of ?sw c]
  have "pool_inv xxh3 opts ranks (mp\<lparr>mp_cursor := c, mp_managers := (mp_managers mp)[i := cm'], mp_swaps := ?sw\<rparr>) (ss[j := s'])" by simp
  moreover have "moved ?s s'" using a(3) r(3) by (auto simp: moved_def seq_same_def)
  moreover have own: "seq_ids (?s\<lparr>sq_rank := int i\<rparr>) = seq_ids ?s" by (simp add: seq_ids_def)
  moreover have "fits_in n lf (seq_ids ?s) (seq_ids ?s @ rank_ids i (others j ss)) \<longleftrightarrow> room_for n opts (seq_ids ?s) (rank_ids i ss)"
  proof -
    have "set (rank_ids i ss) = set (seq_ids ?s @ rank_ids i (others j ss))"
      using mset_eq_setD [OF rank_split_self(1) [OF assms(2), of i]] r(3) assms by (auto simp: pool_inv_def pooled_seq_def)
    then show ?thesis using lf(1) by (simp add: fits_in_def room_for_def ceil_blocks_def lf(2) flat_manager_def)
  qed
  moreover have "nat (sq_rank s') = i" "0 \<le> sq_rank s'" using \<open>sq_rank s' = int i\<close> by simp_all
  ultimately show ?thesis using r(1,2) a(1,4,5,6) P by (intro exI [of _ ok]) (simp add: pool_allocate_def)
qed

lemma try_allocate_flat:
  assumes "pool_inv xxh3 opts ranks mp ss" "j < length ss"
  shows "\<exists>ok mp' s'. try_allocate xxh3 mp (ss ! j) = Some (ok, mp', s') \<and> pool_inv xxh3 opts ranks mp' (ss[j := s']) \<and> moved (ss ! j) s'
    \<and> (if ok then sq_num (ss ! j) \<le> length (seq_ids s') * opt_block_size opts \<and> length (seq_tokens (ss ! j)) \<le> kv_tokens (sq_kv s')
        else seq_ids s' = [])"
proof -
  let ?s = "ss ! j"
  obtain i c where r: "get_dp_rank mp ?s = Some (i, mp\<lparr>mp_cursor := c\<rparr>, ?s\<lparr>sq_rank := int i\<rparr>)" "i < length (mp_managers mp)"
      "sq_rank ?s = int i \<or> sq_rank ?s < 0"
    using dp_rank_found [OF assms] by blast
  obtain lf where lf: "flat_manager opts (mp_managers mp ! i) lf" "leaf_size lf = opt_block_size opts"
      "flat_inv xxh3 lf (?s\<lparr>sq_rank := int i\<rparr>) (rank_ids i (others j ss)) (rank_private i (others j ss))"
    using take_out [OF assms r(2,3)] by blast
  have fc: "flat_composite (mp_managers mp ! i) lf" using lf(1) by (simp add: flat_manager_def)
  obtain ok cm' lf' s' where a: "try_allocate_in xxh3 (mp_managers mp ! i) (?s\<lparr>sq_rank := int i\<rparr>) = Some (ok, cm', s')"
      "flat_step xxh3 (rank_ids i (others j ss)) (rank_private i (others j ss)) (mp_managers mp ! i) lf cm' lf' s'"
      "seq_same (?s\<lparr>sq_rank := int i\<rparr>) s'"
      "if ok then sq_num (?s\<lparr>sq_rank := int i\<rparr>) \<le> length (seq_ids s') * leaf_size lf \<and> length (seq_tokens (?s\<lparr>sq_rank := int i\<rparr>)) \<le> kv_tokens (sq_kv s')
        else seq_ids s' = []"
    using try_allocate_in_flat [OF fc lf(3)] by blast
  have "sq_rank s' = int i" using a(3) by (simp add: seq_same_def)
  from put_back [OF assms r(2,3) lf(1) a(2) this refl, of c]
  have "pool_inv xxh3 opts ranks (mp\<lparr>mp_cursor := c, mp_managers := (mp_managers mp)[i := cm']\<rparr>) (ss[j := s'])" by simp
  moreover have "moved ?s s'" using a(3) r(3) by (auto simp: moved_def seq_same_def)
  moreover have "seq_tokens (?s\<lparr>sq_rank := int i\<rparr>) = seq_tokens ?s" by (simp add: seq_tokens_def)
  ultimately show ?thesis using r(1,2) a(1,4) lf(2)
    by (intro exI [of _ ok], cases ok) (simp_all add: try_allocate_def)
qed


text \<open>A step of the tokens changes nothing of the cache but its token counter.\<close>

lemma incr_tokens_cache:
  "incr_kv_cache_tokens_num n kv = Some kv' \<Longrightarrow> kv_blocks kv' = kv_blocks kv \<and> block_sizes kv' = block_sizes kv
     \<and> owned_shared kv' = owned_shared kv \<and> cached_cursor kv' = cached_cursor kv \<and> src_blocks kv' = src_blocks kv"
  by (auto simp: incr_kv_cache_tokens_num_def split: option.splits if_splits)

lemma tokens_keep_cache:
  assumes "seq_step xxh3 e s = Some s'" "token_event e"
  shows "same_cache s s'"
proof (cases e)
  case (Ev_Append t)
  then show ?thesis using assms(1)
    by (auto simp: same_cache_def append_step_token_def write_token_def set_kv_cache_tokens_num_def split: if_splits)
next
  case (Ev_Last t offset)
  have inv: "sq_kv (invalidate_block_hashes_from i r) = sq_kv r" "sq_host (invalidate_block_hashes_from i r) = sq_host r"
    "sq_rank (invalidate_block_hashes_from i r) = sq_rank r" for i r by (simp_all add: invalidate_block_hashes_from_def Let_def)
  have ov: "sq_overlap s" using assms(1) Ev_Last by (simp add: update_last_step_token_def split: if_splits)
  let ?settle = "\<lambda>s1. map_option (\<lambda>s2. (invalidate_block_hashes_from (sq_current s2) s2)
      \<lparr>sq_current := sq_current s2 + 1, sq_accepted := offset\<rparr>) (write_token (sq_current s1) t s1)"
  have settle: "same_cache s r'" if "same_cache s r" "?settle r = Some r'" for r r'
    using that inv by (auto simp: same_cache_def write_token_def split: if_splits)
  show ?thesis
  proof (cases "offset = 0")
    case True
    then have "?settle s = Some s'" using assms(1) Ev_Last ov by (simp add: update_last_step_token_def Let_def)
    then show ?thesis using settle [of s] by (simp add: same_cache_def)
  next
    case False
    then obtain capacity where cap: "current_max_tokens_capacity (sq_kv s) = Some capacity"
      using assms(1) Ev_Last ov by (auto simp: update_last_step_token_def Let_def split: option.splits)
    show ?thesis
    proof (cases "capacity = 0")
      case True
      then show ?thesis using assms(1) Ev_Last cap False ov by (simp add: update_last_step_token_def same_cache_def)
    next
      case nz: False
      then obtain r where r: "shift_placeholders s = Some r" "?settle r = Some s'"
        using assms(1) Ev_Last cap ov False by (auto simp: update_last_step_token_def Let_def bind_eq_Some_conv)
      obtain kv where kv: "incr_kv_cache_tokens_num 1 (sq_kv s) = Some kv" "sq_kv r = kv" "sq_host r = sq_host s" "sq_rank r = sq_rank s"
        using r(1) by (auto simp: shift_placeholders_def Let_def split: option.splits if_splits)
      have "same_cache s r" using kv incr_tokens_cache [OF kv(1)] by (simp add: same_cache_def)
      then show ?thesis using settle r(2) by blast
    qed
  qed
next
  case (Ev_Update i t)
  then show ?thesis using assms(1)
    by (auto simp: same_cache_def update_token_def write_token_def invalidate_block_hashes_from_def Let_def split: if_splits)
next
  case (Ev_Hash bs ty)
  then show ?thesis using assms(1) by (auto simp: same_cache_def update_block_hashes_def Let_def split: if_splits option.splits)
qed (use assms in auto)

end
