(* ===== verification/Pool_Properties.thy ===== *)
theory Pool_Properties imports Pool_Steps begin

text \<open>
  What holds in every run of a pool of managers with flat caches: no call fails, the blocks in use are those that the
  sequences hold, allocation is all or nothing, and a new sequence goes to a rank with the most room.
\<close>

section \<open>The beginning\<close>

lemma new_kv_empty: "kv_blocks new_kv_state t = []" "src_blocks new_kv_state = []"
  by (simp_all add: new_kv_state_def kv_blocks_def)

lemma created_pooled:
  assumes "create_cache_sequence prompt capacity ov wu beam slots its = Some s" "mm_sorted its" "0 < ranks"
  shows "pooled_seq xxh3 opts ranks s \<and> sq_rank s = - 1 \<and> seq_ids s = []"
proof -
  have kv: "sq_kv s = new_kv_state" "sq_host s = new_kv_state" "sq_rank s = - 1"
    using assms(1) by (auto simp: create_cache_sequence_def split: if_splits)
  then have "flat_seq xxh3 (opt_block_size opts) s" using created_hashes [OF assms(1)] assms(2) kv_ok_new
    by (simp add: flat_seq_def new_kv_empty)
  then show ?thesis using kv assms(3) by (simp add: pooled_seq_def seq_ids_def new_kv_empty)
qed

lemma start_inv:
  assumes "create_manager_pool bo ranks = Some mp" "flat_build bo"
  shows "pool_inv xxh3 (kv_options bo) ranks mp []"
proof -
  obtain cm where cm: "create_rank bo = Some cm" "0 < ranks" "mp = \<lparr>mp_managers = replicate ranks cm, mp_block_size = bo_block_size bo,
      mp_prefix_cache = bo_prefix_cache bo, mp_cursor = 0, mp_swaps = replicate ranks []\<rparr>"
    using assms(1) by (auto simp: create_manager_pool_def split: if_splits)
  obtain p where p: "create_pool (kv_options bo) = Some p" "cm = \<lparr>cm_leaves = [(BT_KV, \<lparr>lf_pool = p,
      lf_entry = \<lparr>participates_in_admission = True, supports_prefix_cache = True\<rparr>, lf_opts = leaf_options_of bo\<rparr>)],
    cm_shape = FLAT_KV, cm_explicit = False, cm_block_size = bo_block_size bo\<rparr>"
    using flat_rank [OF assms(2) cm(1)] by blast
  let ?lf = "snd (hd (cm_leaves cm))"
  have pos: "0 < opt_num_blocks (kv_options bo)" "0 < opt_block_size (kv_options bo)" using p(1) by (auto simp: create_pool_def split: if_splits)
  then have ok: "pool_ok p []" "options p = kv_options bo" using create_pool_ok [of "kv_options bo"] p by auto
  have "flat_manager (kv_options bo) cm ?lf"
    using ok(2) by (simp add: flat_manager_def flat_composite_def p(2) supports_def kv_options_def pool_options_of_def)
  moreover have "pool_flat (lf_pool ?lf) [] {}" using ok(1) by (simp add: pool_flat_def private_ids_def p(2))
  moreover have "solid_options (kv_options bo)" using pos by (simp add: solid_options_def kv_options_def pool_options_of_def)
  moreover have "bo_prefix_cache bo" "bo_block_size bo = opt_block_size (kv_options bo)"
    using assms(2) by (simp_all add: flat_build_def kv_options_def pool_options_of_def)
  ultimately show ?thesis using cm(2) by (auto simp: pool_inv_def cm(3))
qed

section \<open>Every step\<close>

lemma reset_managers_flat:
  "list_all2 (\<lambda>cm (H, U). \<exists>lf. flat_manager opts cm lf \<and> pool_flat (lf_pool lf) H U) cms hs \<Longrightarrow>
    \<exists>cms'. reset_managers cms = Some cms' \<and> list_all2 (\<lambda>cm (H, U). \<exists>lf. flat_manager opts cm lf \<and> pool_flat (lf_pool lf) H U) cms' hs"
proof (induction cms hs rule: list_all2_induct)
  case Nil
  then show ?case by simp
next
  case (Cons cm cms h hs)
  obtain H U lf where h: "h = (H, U)" "flat_manager opts cm lf" "pool_flat (lf_pool lf) H U" using Cons.hyps(1) by auto
  then have ok: "pool_ok (lf_pool lf) H" by (simp add: pool_flat_def)
  obtain q where q: "reset_prefix_cache (lf_pool lf) = Some q" "pool_ok q H" "options q = options (lf_pool lf)"
    using reset_ok [OF ok] by blast
  have "node_ids q \<subseteq> node_ids (lf_pool lf)" using reset_keeps [OF ok] q(1) by auto
  then have flat: "pool_flat q H U" using h(3) q(2) private_nodes by (auto simp: pool_flat_def)
  let ?lf = "lf\<lparr>lf_pool := q\<rparr>"
  have "cm_reset_prefix_cache cm = Some (cm\<lparr>cm_leaves := [(BT_KV, ?lf)]\<rparr>)"
    using h(2) q(1) by (simp add: cm_reset_prefix_cache_def flat_manager_def flat_composite_def)
  moreover have "flat_manager opts (cm\<lparr>cm_leaves := [(BT_KV, ?lf)]\<rparr>) ?lf"
    using h(2) q(3) by (simp add: flat_manager_def flat_composite_def supports_def)
  ultimately show ?case using Cons.IH h(1) flat by (auto intro!: exI [of _ ?lf])
qed

lemma reset_pool_flat:
  assumes "pool_inv xxh3 opts ranks mp ss"
  shows "\<exists>mp'. pool_reset_prefix_cache mp = Some mp' \<and> pool_inv xxh3 opts ranks mp' ss"
proof -
  let ?hs = "map (\<lambda>i. (rank_ids i ss, rank_private i ss)) [0..<length (mp_managers mp)]"
  have "list_all2 (\<lambda>cm (H, U). \<exists>lf. flat_manager opts cm lf \<and> pool_flat (lf_pool lf) H U) (mp_managers mp) ?hs"
    using assms by (auto simp: list_all2_conv_all_nth pool_inv_def)
  from reset_managers_flat [OF this] obtain cms' where c: "reset_managers (mp_managers mp) = Some cms'"
      "list_all2 (\<lambda>cm (H, U). \<exists>lf. flat_manager opts cm lf \<and> pool_flat (lf_pool lf) H U) cms' ?hs" by blast
  have len: "length cms' = length (mp_managers mp)" using list_all2_lengthD [OF c(2)] by simp
  have "\<exists>lf. flat_manager opts (cms' ! i) lf \<and> pool_flat (lf_pool lf) (rank_ids i ss) (rank_private i ss)" if "i < length cms'" for i
    using list_all2_nthD [OF c(2) that] that len by auto
  moreover have "cms' \<noteq> []" using len assms by (auto simp: pool_inv_def)
  ultimately have "pool_inv xxh3 opts ranks (mp\<lparr>mp_managers := cms'\<rparr>) ss" using assms len by (simp add: pool_inv_def)
  then show ?thesis using c(1) assms by (simp add: pool_reset_prefix_cache_def pool_inv_def)
qed

lemma bound_call:
  assumes "pool_inv xxh3 opts ranks mp ss" "j < length ss"
    and "\<And>cm lf s R U. flat_composite cm lf \<Longrightarrow> flat_inv xxh3 lf s R U \<Longrightarrow>
      \<exists>cm' lf' s'. call cm s = Some (cm', s') \<and> flat_step xxh3 R U cm lf cm' lf' s' \<and> sq_rank s' = sq_rank s"
  shows "\<exists>mp' s'. on_bound_rank call mp (ss ! j) = Some (mp', s') \<and> pool_inv xxh3 opts ranks mp' (ss[j := s'])"
  using rank_call [OF assms] assms(1) by (simp add: on_bound_rank_def pool_inv_def)

lemma pool_step_flat:
  assumes "pool_inv xxh3 opts ranks mp ss" "call_fits xxh3 c ss"
  shows "\<exists>mp' ss'. pool_step xxh3 c (mp, ss) = Some (mp', ss') \<and> pool_inv xxh3 opts ranks mp' ss'"
proof (cases c)
  case (Arrive prompt capacity ov wu beam slots its)
  then obtain s where s: "create_cache_sequence prompt capacity ov wu beam slots its = Some s" "mm_sorted its"
    using assms(2) by (auto simp: create_cache_sequence_def)
  have "0 < length (mp_managers mp)" using assms(1) by (auto simp: pool_inv_def)
  from created_pooled [OF s this] have "pool_inv xxh3 opts ranks mp (ss @ [s])" using assms(1) by (auto simp: pool_inv_def)
  then show ?thesis using s(1) Arrive by simp
next
  case (Tokens j e)
  then obtain s' where s': "seq_step xxh3 e (ss ! j) = Some s'" "j < length ss" using assms(2) by auto
  have ps: "pooled_seq xxh3 opts (length (mp_managers mp)) (ss ! j)" using assms(1) s'(2) by (simp add: pool_inv_def)
  then have fs: "flat_seq xxh3 (opt_block_size opts) (ss ! j)" by (simp add: pooled_seq_def)
  have sc: "same_cache (ss ! j) s'" using tokens_keep_cache [OF s'(1)] assms(2) Tokens by auto
  have "hashes_ok xxh3 s' \<and> sq_items s' = sq_items (ss ! j)" using seq_step_hashes [OF flat_seqD(1,2) [OF fs] s'(1)] .
  then have k: "flat_seq xxh3 (opt_block_size opts) s' \<and> seq_ids s' = seq_ids (ss ! j) \<and> unpublished s' = unpublished (ss ! j)
      \<and> sq_rank s' = sq_rank (ss ! j)"
    using same_cache_flat [OF sc fs] by blast
  have "mset (rank_ids i (ss[j := s'])) = mset (rank_ids i ss)" "rank_private i (ss[j := s']) = rank_private i ss" for i
    unfolding rank_split_self [OF s'(2), of i] rank_split [OF s'(2)] using k by simp_all
  moreover have "\<forall>s \<in> set (ss[j := s']). pooled_seq xxh3 opts (length (mp_managers mp)) s"
    using k ps assms(1) by (auto simp: pool_inv_def pooled_seq_def dest!: set_update_subset_insert [THEN subsetD])
  ultimately have "pool_inv xxh3 opts ranks mp (ss[j := s'])" using assms(1) pool_flat_perm unfolding pool_inv_def by metis
  then show ?thesis using s' Tokens by (simp add: on_seq_def)
next
  case (Allocate j n)
  then show ?thesis using pool_allocate_flat [OF assms(1), of j n] assms(2) by (auto simp: on_seq_def)
next
  case (Try_Allocate j)
  then show ?thesis using try_allocate_flat [OF assms(1), of j] assms(2) by (auto simp: on_seq_def)
next
  case (Share j)
  have "\<exists>cm' lf' s'. share_in xxh3 cm s = Some (cm', s') \<and> flat_step xxh3 R U cm lf cm' lf' s' \<and> sq_rank s' = sq_rank s"
    if "flat_composite cm lf" "flat_inv xxh3 lf s R U" for cm lf s R U
    using share_flat [OF that] seq_frameD(9) that(1) by (fastforce simp: share_in_def flat_composite_def)
  note call = this
  have j: "j < length ss" using assms(2) Share by simp
  obtain mp' s' where "on_bound_rank (share_in xxh3) mp (ss ! j) = Some (mp', s')" "pool_inv xxh3 opts ranks mp' (ss[j := s'])"
    using bound_call [OF assms(1) j call] by blast
  then show ?thesis using j Share by (simp add: on_seq_def pool_allocate_shared_def)
next
  case (Publish j)
  have "\<exists>cm' lf' s'. cache_full_blocks_for_sequence xxh3 cm s = Some (cm', s') \<and> flat_step xxh3 R U cm lf cm' lf' s' \<and> sq_rank s' = sq_rank s"
    if "flat_composite cm lf" "flat_inv xxh3 lf s R U" for cm lf s R U
    using cache_full_flat [OF that] seq_frameD(9) by blast
  note call = this
  have j: "j < length ss" using assms(2) Publish by simp
  obtain mp' s' where "on_bound_rank (cache_full_blocks_for_sequence xxh3) mp (ss ! j) = Some (mp', s')" "pool_inv xxh3 opts ranks mp' (ss[j := s'])"
    using bound_call [OF assms(1) j call] by blast
  then show ?thesis using j Publish by (simp add: on_seq_def pool_cache_def)
next
  case (Publish_Up_To j n)
  have "\<exists>cm' lf' s'. cache_for_sequence_up_to xxh3 n cm s = Some (cm', s') \<and> flat_step xxh3 R U cm lf cm' lf' s' \<and> sq_rank s' = sq_rank s"
    if "flat_composite cm lf" "flat_inv xxh3 lf s R U" for cm lf s R U
    using cache_up_to_flat [OF that] seq_frameD(9) by blast
  note call = this
  have j: "j < length ss" using assms(2) Publish_Up_To by simp
  obtain mp' s' where "on_bound_rank (cache_for_sequence_up_to xxh3 n) mp (ss ! j) = Some (mp', s')" "pool_inv xxh3 opts ranks mp' (ss[j := s'])"
    using bound_call [OF assms(1) j call] by blast
  then show ?thesis using j Publish_Up_To by (simp add: on_seq_def pool_cache_up_to_def)
next
  case (Deallocate j)
  have "\<exists>cm' lf' s'. release_in xxh3 cm s = Some (cm', s') \<and> flat_step xxh3 R U cm lf cm' lf' s' \<and> sq_rank s' = sq_rank s"
    if "flat_composite cm lf" "flat_inv xxh3 lf s R U" for cm lf s R U
    using release_flat [OF that] by (auto simp: seq_same_def)
  note call = this
  have j: "j < length ss" using assms(2) Deallocate by simp
  obtain mp' s' where "(case get_dp_rank mp (ss ! j) of None \<Rightarrow> None | Some (i, mp1, s1) \<Rightarrow> on_rank i (release_in xxh3) mp1 s1) = Some (mp', s')" "pool_inv xxh3 opts ranks mp' (ss[j := s'])"
    using rank_call [OF assms(1) j call] by blast
  then show ?thesis using j Deallocate by (simp add: on_seq_def pool_deallocate_def)
next
  case Reset_Cache
  then show ?thesis using reset_pool_flat [OF assms(1)] by auto
qed

lemma pool_run_flat:
  "pool_inv xxh3 opts ranks mp ss \<Longrightarrow> calls_fit xxh3 cs (mp, ss) \<Longrightarrow>
    \<exists>mp' ss'. pool_run xxh3 cs (mp, ss) = Some (mp', ss') \<and> pool_inv xxh3 opts ranks mp' ss'"
proof (induction cs arbitrary: mp ss)
  case (Cons c cs)
  obtain mp1 ss1 where one: "pool_step xxh3 c (mp, ss) = Some (mp1, ss1)" "pool_inv xxh3 opts ranks mp1 ss1"
    using pool_step_flat [OF Cons.prems(1), of c] Cons.prems(2) by force
  then show ?case using Cons.IH [OF one(2)] Cons.prems(2) by simp
qed simp


section \<open>Properties\<close>

lemma run_rank:
  assumes "pool_inv xxh3 opts ranks mp ss" "i < ranks"
  shows "\<exists>lf. leaf_of BT_KV (mp_managers mp ! i) = Some lf \<and> num_used_blocks (lf_pool lf) = card (set (rank_ids i ss))
    \<and> (\<forall>b > 0. ref_counts (lf_pool lf) b = count_list (rank_ids i ss) b + (if b \<in> node_ids (lf_pool lf) then 1 else 0))"
proof -
  obtain lf where lf: "flat_manager opts (mp_managers mp ! i) lf" "pool_ok (lf_pool lf) (rank_ids i ss)"
    using assms by (auto simp: pool_inv_def pool_flat_def)
  then show ?thesis using used_exact [OF lf(2)] refs_okD(1) [OF pool_ok_refs(1) [OF lf(2)]]
    by (intro exI [of _ lf]) (auto simp: flat_manager_def)
qed


definition demo_build :: build_options where
  "demo_build = \<lparr>bo_num_blocks = 5, bo_block_size = 2, bo_prefix_cache = True, bo_sliding_window = 0, bo_window_blocks = 0, bo_window_total = 0,
     bo_c4_blocks = 0, bo_c128_blocks = 0, bo_manager_types = [], bo_compress_ratios = [], bo_hasher_type = HT_TEXT, bo_xtensor = False,
     bo_model_type = ''qwen3'', bo_linear = False, bo_linear_slots = 0, bo_preserve = False, bo_overlap = False, bo_speculative = 0,
     bo_embedding_blocks = 0, bo_decode = False, bo_explicit = False, bo_chunk = 0, bo_compressed_tokens = 0\<rparr>"

text \<open>Three sequences with the same prompt on two ranks; the third shares what the first has left.\<close>

definition demo_calls :: "pool_call list" where
  "demo_calls = [Arrive [1, 2, 7] 8 False False 0 [] [], Try_Allocate 0, Tokens 0 (Ev_Append 9), Publish 0, Deallocate 0,
     Arrive [1, 2, 7] 8 False False 0 [] [], Share 1, Allocate 1 6,
     Arrive [1, 2, 7] 8 False False 0 [] [], Share 2]"



lemma reached:
  assumes "create_manager_pool bo ranks = Some mp0" "flat_build bo" "calls_fit xxh3 cs (mp0, [])"
    and "pool_run xxh3 cs (mp0, []) = Some (mp, ss)"
  shows "pool_inv xxh3 (kv_options bo) ranks mp ss"
  using pool_run_flat [OF start_inv [OF assms(1,2)] assms(3)] assms(4) by auto

text \<open>C13.  In every reachable state of such a pool, an allocation is all or nothing: it succeeds with blocks for all the tokens
  asked for, or it leaves the sequence with the blocks that it had.  It succeeds whenever the blocks that the sequence lacks,
  with those in use on its rank, do not exceed the blocks of the rank, and for a sequence that has blocks already only then.
  The tokens stay, and so does the rank once it is chosen; afterwards the blocks in use are again those that are held.\<close>

theorem pool_allocation_exact:
  assumes "create_manager_pool bo ranks = Some mp0" "flat_build bo" "calls_fit xxh3 cs (mp0, [])"
    and "pool_run xxh3 cs (mp0, []) = Some (mp, ss)" "j < length ss"
  shows "\<exists>ok mp' s'. pool_allocate xxh3 n mp (ss ! j) = Some (ok, mp', s') \<and> moved (ss ! j) s' \<and> 0 \<le> sq_rank s' \<and> sq_rank s' < int ranks
    \<and> (if ok then n \<le> length (seq_ids s') * bo_block_size bo else seq_ids s' = seq_ids (ss ! j))
    \<and> (room_for n (kv_options bo) (seq_ids (ss ! j)) (rank_ids (nat (sq_rank s')) ss) \<longrightarrow> ok)
    \<and> (seq_ids (ss ! j) \<noteq> [] \<and> ok \<longrightarrow> room_for n (kv_options bo) (seq_ids (ss ! j)) (rank_ids (nat (sq_rank s')) ss))
    \<and> (\<forall>i < ranks. \<exists>lf. leaf_of BT_KV (mp_managers mp' ! i) = Some lf \<and> num_used_blocks (lf_pool lf) = card (set (rank_ids i (ss[j := s']))))"
proof -
  note inv = reached [OF assms(1-4)]
  have bs: "opt_block_size (kv_options bo) = bo_block_size bo" by (simp add: kv_options_def pool_options_of_def)
  obtain ok mp' s' where a: "pool_allocate xxh3 n mp (ss ! j) = Some (ok, mp', s')" "pool_inv xxh3 (kv_options bo) ranks mp' (ss[j := s'])" "moved (ss ! j) s'"
      "if ok then n \<le> length (seq_ids s') * bo_block_size bo else seq_ids s' = seq_ids (ss ! j)"
      "0 \<le> sq_rank s' \<and> (room_for n (kv_options bo) (seq_ids (ss ! j)) (rank_ids (nat (sq_rank s')) ss) \<longrightarrow> ok)
       \<and> (seq_ids (ss ! j) \<noteq> [] \<and> ok \<longrightarrow> room_for n (kv_options bo) (seq_ids (ss ! j)) (rank_ids (nat (sq_rank s')) ss))"
    using pool_allocate_flat [OF inv assms(5), of n] unfolding bs by blast
  have "pooled_seq xxh3 (kv_options bo) ranks s'" using a(2) set_update_memI [OF assms(5)] by (auto simp: pool_inv_def)
  then have "sq_rank s' < int ranks" by (simp add: pooled_seq_def)
  then show ?thesis using a run_rank [OF a(2)] by blast
qed

lemma pool_allocation_exact_witness:
  "\<exists>mp0 mp ss ok mp' s'. create_manager_pool demo_build 2 = Some mp0 \<and> pool_run byte_sum demo_calls (mp0, []) = Some (mp, ss)
    \<and> pool_allocate byte_sum 7 mp (ss ! 2) = Some (ok, mp', s') \<and> (if ok then 7 \<le> length (seq_ids s') * 2 else seq_ids s' = seq_ids (ss ! 2))"
proof -
  have "case create_manager_pool demo_build 2 of None \<Rightarrow> False | Some mp0 \<Rightarrow> calls_fit byte_sum demo_calls (mp0, [])
      \<and> (case pool_run byte_sum demo_calls (mp0, []) of None \<Rightarrow> False | Some (mp, ss) \<Rightarrow> 2 < length ss)"
    by code_simp
  then obtain mp0 mp ss where r: "create_manager_pool demo_build 2 = Some mp0" "calls_fit byte_sum demo_calls (mp0, [])"
      "pool_run byte_sum demo_calls (mp0, []) = Some (mp, ss)" "2 < length ss"
    by (auto split: option.splits)
  have "flat_build demo_build" "bo_block_size demo_build = 2" by code_simp+
  then show ?thesis using pool_allocation_exact [OF r(1) _ r(2,3,4), of 7] r(1,3) by fastforce
qed

text \<open>C14.  A sequence without a rank gets one on which the fewest blocks are in use: cached blocks that no sequence holds
  do not count, since they can be evicted.\<close>

theorem emptiest_rank_chosen:
  assumes "create_manager_pool bo ranks = Some mp0" "flat_build bo" "calls_fit xxh3 cs (mp0, [])"
    and "pool_run xxh3 cs (mp0, []) = Some (mp, ss)" "j < length ss" "sq_rank (ss ! j) < 0"
  shows "\<exists>i c. get_dp_rank mp (ss ! j) = Some (i, mp\<lparr>mp_cursor := c\<rparr>, (ss ! j)\<lparr>sq_rank := int i\<rparr>) \<and> i < ranks
    \<and> (\<forall>k < ranks. card (set (rank_ids i ss)) \<le> card (set (rank_ids k ss)))"
proof -
  note inv = reached [OF assms(1-4)]
  have len: "length (mp_managers mp) = ranks" "mp_managers mp \<noteq> []" "solid_options (kv_options bo)" using inv by (auto simp: pool_inv_def)
  obtain i c where i: "get_manager_with_max_available_blocks mp = Some (i, mp\<lparr>mp_cursor := c\<rparr>)" "i < ranks"
      "\<forall>k < ranks. room (mp_managers mp ! k) \<le> room (mp_managers mp ! i)"
    using manager_found [OF len(2) inv_room [OF inv]] len(1) by auto
  have r: "room (mp_managers mp ! k) + card (set (rank_ids k ss)) = opt_num_blocks (kv_options bo) - 1" if k: "k < ranks" for k
  proof -
    obtain lf where lf: "flat_manager (kv_options bo) (mp_managers mp ! k) lf" "pool_ok (lf_pool lf) (rank_ids k ss)"
      using inv k unfolding pool_inv_def pool_flat_def by blast
    then show ?thesis using room_exact [OF lf(1)] pool_count [OF lf(2)] len(3) by (simp add: solid_options_def flat_manager_def)
  qed
  have "card (set (rank_ids i ss)) \<le> card (set (rank_ids k ss))" if "k < ranks" for k
    using i(3) that r [OF that] r [OF i(2)] by fastforce
  then show ?thesis using i(1,2) assms(6) by (auto simp: get_dp_rank_def)
qed


lemma emptiest_rank_chosen_witness:
  "\<exists>mp0 mp ss i c. create_manager_pool demo_build 2 = Some mp0
    \<and> pool_run byte_sum (demo_calls @ [Arrive [5] 4 False False 0 [] []]) (mp0, []) = Some (mp, ss)
    \<and> get_dp_rank mp (ss ! 3) = Some (i, mp\<lparr>mp_cursor := c\<rparr>, (ss ! 3)\<lparr>sq_rank := int i\<rparr>)
    \<and> (\<forall>k < 2. card (set (rank_ids i ss)) \<le> card (set (rank_ids k ss)))"
proof -
  let ?cs = "demo_calls @ [Arrive [5] 4 False False 0 [] []]"
  have "case create_manager_pool demo_build 2 of None \<Rightarrow> False | Some mp0 \<Rightarrow> calls_fit byte_sum ?cs (mp0, [])
      \<and> (case pool_run byte_sum ?cs (mp0, []) of None \<Rightarrow> False | Some (mp, ss) \<Rightarrow> 3 < length ss \<and> sq_rank (ss ! 3) < 0)"
    by code_simp
  then obtain mp0 mp ss where r: "create_manager_pool demo_build 2 = Some mp0" "calls_fit byte_sum ?cs (mp0, [])"
      "pool_run byte_sum ?cs (mp0, []) = Some (mp, ss)" "3 < length ss" "sq_rank (ss ! 3) < 0"
    by (auto split: option.splits)
  have "flat_build demo_build" by code_simp
  from emptiest_rank_chosen [OF r(1) this r(2-5)] r(1,3) show ?thesis by fastforce
qed

end
