(* ===== verification/Store_Prefetch.thy ===== *)
theory Store_Prefetch imports Composite_Manager begin

text \<open>
  What is fetched from the remote store for a new sequence, and what of it is kept
  (\<open>core/framework/block/hierarchy_block_manager_pool.cpp\<close>, \<open>core/framework/kv_cache_transfer/prefetch_result.h\<close>): the units
  of a request, the requests of the three shapes of a cache, the number of tokens that a result is good for, and which
  checkpoint of a recurrent state survives the fetch.

  The host blocks of the sequence are the destinations.  A store transfer names its destination by type and block id; the data
  themselves are not part of this theory.
\<close>

section \<open>Units and requests\<close>

datatype transfer_type = TT_G2H | TT_H2D | TT_D2G | TT_G2D | TT_D2H2G

record transfer =
  tf_src :: int
  tf_dst :: int
  tf_hash :: hash_key
  tf_kind :: transfer_type
  tf_type :: block_type

record prefetch_unit =
  gated_blocks :: "transfer list"
  non_gated_blocks :: "transfer list"
  has_non_gated :: bool

definition new_unit :: prefetch_unit where
  "new_unit = \<lparr>gated_blocks = [], non_gated_blocks = [], has_non_gated = False\<rparr>"

definition unit_valid :: "prefetch_unit \<Rightarrow> bool" where
  "unit_valid u \<longleftrightarrow> gated_blocks u \<noteq> [] \<and> list_all (\<lambda>t. tf_kind t = TT_G2H) (gated_blocks u)
     \<and> list_all (\<lambda>t. tf_kind t = TT_G2H) (non_gated_blocks u)"

type_synonym prefetch_request = "prefetch_unit list"

definition request_valid :: "prefetch_request \<Rightarrow> bool" where
  "request_valid us \<longleftrightarrow> us \<noteq> [] \<and> list_all unit_valid us"

definition batch_count :: "prefetch_request \<Rightarrow> nat \<Rightarrow> nat option" where
  "batch_count us size' = (if size' = 0 then None else Some ((length us + size' - 1) div size'))"

definition batch_unit_begin :: "prefetch_request \<Rightarrow> nat \<Rightarrow> nat \<Rightarrow> nat option" where
  "batch_unit_begin us i size' =
    (case batch_count us size' of None \<Rightarrow> None | Some n \<Rightarrow> if i < n then Some (i * size') else None)"

definition batch_unit_count :: "prefetch_request \<Rightarrow> nat \<Rightarrow> nat \<Rightarrow> nat option" where
  "batch_unit_count us i size' = map_option (\<lambda>begin'. min size' (length us - begin')) (batch_unit_begin us i size')"

text \<open>The transfers of a unit in the order of their execution, and those of a batch.\<close>

definition unit_transfers :: "prefetch_unit \<Rightarrow> transfer list" where
  "unit_transfers u = gated_blocks u @ non_gated_blocks u"

definition batch_units :: "prefetch_request \<Rightarrow> nat \<Rightarrow> nat \<Rightarrow> prefetch_unit list option" where
  "batch_units us i size' =
    (case (batch_unit_begin us i size', batch_unit_count us i size') of
       (Some begin', Some n) \<Rightarrow> Some (take n (drop begin' us))
     | _ \<Rightarrow> None)"

section \<open>Requests of the three shapes\<close>

definition append_prefetch_transfer :: "block_type \<Rightarrow> nat \<Rightarrow> kv_state \<Rightarrow> prefetch_unit \<Rightarrow> bool \<times> prefetch_unit" where
  "append_prefetch_transfer t i kv u =
    (let bs = kv_blocks kv t in
     if length bs \<le> i \<or> \<not> cb_valid (bs ! i) then (False, u)
     else let b = cb_block (bs ! i);
              tr = \<lparr>tf_src = - 1, tf_dst = block_id b, tf_hash = block_hash b, tf_kind = TT_G2H, tf_type = t\<rparr> in
       (True, if is_prefetch_gate_block_type t then u\<lparr>gated_blocks := gated_blocks u @ [tr]\<rparr>
              else u\<lparr>non_gated_blocks := non_gated_blocks u @ [tr]\<rparr>))"

definition valid_block_size :: "cache_block list \<Rightarrow> nat" where
  "valid_block_size bs = (case find cb_valid bs of None \<Rightarrow> 0 | Some b \<Rightarrow> cb_size b)"

text \<open>Units in turn; the first that is not available ends the request.\<close>

fun build_units :: "(nat \<Rightarrow> bool \<times> prefetch_unit) \<Rightarrow> nat list \<Rightarrow> prefetch_request" where
  "build_units build [] = []"
| "build_units build (i # is) = (case build i of (False, _) \<Rightarrow> [] | (True, u) \<Rightarrow> u # build_units build is)"

definition build_flat_kv_prefetch_request :: "kv_state \<Rightarrow> prefetch_request" where
  "build_flat_kv_prefetch_request kv =
    (let bs = kv_blocks kv BT_KV; size' = valid_block_size bs in
     if size' = 0 \<or> bs = [] then []
     else build_units (\<lambda>i. append_prefetch_transfer BT_KV i kv new_unit) [shared_tokens_num kv div size'..<length bs])"

definition flat_kv_linear_unit :: "kv_state \<Rightarrow> nat \<Rightarrow> bool \<times> prefetch_unit" where
  "flat_kv_linear_unit kv i =
    (case append_prefetch_transfer BT_KV i kv (new_unit\<lparr>has_non_gated := True\<rparr>) of
       (False, u) \<Rightarrow> (False, u)
     | (True, u) \<Rightarrow> (True, snd (append_prefetch_transfer BT_LINEAR i kv u)))"

definition build_flat_kv_linear_prefetch_request :: "kv_state \<Rightarrow> prefetch_request" where
  "build_flat_kv_linear_prefetch_request kv =
    (let bs = kv_blocks kv BT_KV; size' = valid_block_size bs in
     if size' = 0 \<or> kv_blocks kv BT_LINEAR = [] then []
     else build_units (flat_kv_linear_unit kv) [shared_tokens_num kv div size'..<length bs])"

text \<open>A run of blocks of one type; true when all of them are available.\<close>

fun append_run :: "block_type \<Rightarrow> nat list \<Rightarrow> kv_state \<Rightarrow> bool \<times> prefetch_unit \<Rightarrow> bool \<times> prefetch_unit" where
  "append_run t [] kv r = r"
| "append_run t (i # is) kv (ok, u) =
    (let (available, u') = append_prefetch_transfer t i kv u in append_run t is kv (available \<and> ok, u'))"

definition checkpoint_block_type :: "leaves \<Rightarrow> block_type" where
  "checkpoint_block_type ls =
    (if map_of ls BT_C128 \<noteq> None then BT_C128 else if map_of ls BT_C2 \<noteq> None then BT_C2 else BT_C1)"

definition swa_tail_blocks :: "nat \<Rightarrow> nat \<Rightarrow> nat" where
  "swa_tail_blocks available per_window = min available per_window"

text \<open>The parameters: the type of the checkpoints, the size of a unit, block size and length of the sliding window, and the type
  and block size of the companion, if there is one.\<close>

record swa_plan =
  sp_type :: block_type
  sp_unit :: nat
  sp_swa_size :: nat
  sp_window :: nat
  sp_companion :: "(block_type \<times> nat) option"

definition swa_unit :: "swa_plan \<Rightarrow> kv_state \<Rightarrow> nat \<Rightarrow> bool \<times> prefetch_unit" where
  "swa_unit p kv i =
    (let swa_end = (i + 1) * sp_unit p div sp_swa_size p; swa_begin = swa_end - swa_tail_blocks swa_end (sp_window p);
         (complete, u1) = append_run BT_SWA [swa_begin..<swa_end] kv
            (sp_type p \<noteq> BT_C128 \<or> sp_window p \<le> swa_end, new_unit\<lparr>has_non_gated := True\<rparr>);
         u2 = (if complete then u1 else u1\<lparr>non_gated_blocks := []\<rparr>);
         (gate1, u3) = (case sp_companion p of
            None \<Rightarrow> (True, u2)
          | Some (t, size') \<Rightarrow> append_run t [i * sp_unit p div size'..<(i + 1) * sp_unit p div size'] kv (True, u2));
         (gate2, u4) = append_prefetch_transfer (sp_type p) i kv u3 in
     (gate1 \<and> gate2, u4))"

definition plan_swa :: "leaves \<Rightarrow> swa_plan option" where
  "plan_swa ls =
    (let t = checkpoint_block_type ls; c = (if t = BT_C128 then BT_C4 else BT_C1) in
     case (map_of ls BT_SWA, map_of ls t) of
       (Some swa, Some cp) \<Rightarrow>
         let companion = (if c = t then None else map_option (\<lambda>lf. (c, leaf_size lf)) (map_of ls c));
             csize = (case companion of None \<Rightarrow> leaf_size cp | Some (_, n) \<Rightarrow> n) in
         if leaf_size swa = 0 \<or> csize = 0 \<or> leaf_size cp = 0 \<or> leaf_size cp mod csize \<noteq> 0 \<or> leaf_size cp mod leaf_size swa \<noteq> 0
         then None
         else Some \<lparr>sp_type = t, sp_unit = leaf_size cp, sp_swa_size = leaf_size swa, sp_window = lo_window_blocks (lf_opts swa),
                sp_companion = companion\<rparr>
     | _ \<Rightarrow> None)"

definition build_swa_compressed_prefetch_request :: "leaves \<Rightarrow> kv_state \<Rightarrow> prefetch_request option" where
  "build_swa_compressed_prefetch_request ls kv =
    map_option (\<lambda>p. build_units (swa_unit p kv) [shared_tokens_num kv div sp_unit p..<length (kv_blocks kv (sp_type p))])
      (plan_swa ls)"

definition build_prefetch_request :: "leaf_combination \<Rightarrow> leaves \<Rightarrow> kv_state \<Rightarrow> prefetch_request option" where
  "build_prefetch_request shape ls kv =
    (case shape of
       FLAT_KV \<Rightarrow> Some (build_flat_kv_prefetch_request kv)
     | FLAT_KV_LINEAR \<Rightarrow> Some (build_flat_kv_linear_prefetch_request kv)
     | SWA_COMPRESSED \<Rightarrow> build_swa_compressed_prefetch_request ls kv
     | UNSUPPORTED \<Rightarrow> Some [])"

section \<open>The part of a result that is kept\<close>

datatype stop_reason = SR_COMPLETE | SR_MISS | SR_TIMEOUT | SR_CANCELLED | SR_WORKER_FAILED

record prefetch_summary =
  sm_rank_count :: u8
  sm_gated :: "u8 list"
  sm_non_gated :: "u8 list"
  sm_stop :: stop_reason

definition prefetch_unit_size :: "leaf_combination \<Rightarrow> leaves \<Rightarrow> nat option" where
  "prefetch_unit_size shape ls =
    (case map_of ls (if shape = SWA_COMPRESSED then checkpoint_block_type ls else BT_KV) of
       None \<Rightarrow> None
     | Some lf \<Rightarrow> if leaf_size lf = 0 then None else Some (leaf_size lf))"

definition prefetch_hit_count :: "nat \<Rightarrow> nat \<Rightarrow> u8 list \<Rightarrow> u8" where
  "prefetch_hit_count position base hits =
    (if position < base \<or> length hits \<le> position - base then 0 else hits ! (position - base))"

text \<open>The ids of the pages that a hit behind the common prefix has overwritten.\<close>

definition overwritten_ids :: "cache_block list \<Rightarrow> nat \<Rightarrow> nat \<Rightarrow> u8 list \<Rightarrow> int list" where
  "overwritten_ids bs common base hits =
    map (\<lambda>p. block_id (cb_block (bs ! p)))
      (filter (\<lambda>p. cb_valid (bs ! p) \<and> prefetch_hit_count p base hits \<noteq> 0) (rev [common..<length bs]))"

definition reusable_checkpoint :: "cache_block list \<Rightarrow> nat \<Rightarrow> u8 list \<Rightarrow> u8 \<Rightarrow> int list \<Rightarrow> nat \<Rightarrow> bool" where
  "reusable_checkpoint bs base hits ranks overwritten p \<longleftrightarrow>
     cb_valid (bs ! p) \<and> \<not> prefetch_hit_count p base hits < ranks \<and> block_id (cb_block (bs ! p)) \<notin> set overwritten"

definition last_reusable_linear_checkpoint :: "cache_block list \<Rightarrow> nat \<Rightarrow> nat \<Rightarrow> u8 list \<Rightarrow> u8 \<Rightarrow> nat" where
  "last_reusable_linear_checkpoint bs base kv_common hits ranks =
    (if ranks = 0 \<or> bs = [] then base
     else let common = min kv_common (length bs); selectable = min base common in
       case find (reusable_checkpoint bs base hits ranks (overwritten_ids bs common base hits)) (rev [selectable..<common]) of
         None \<Rightarrow> base
       | Some p \<Rightarrow> p + 1)"

definition gated_units :: "prefetch_summary \<Rightarrow> nat" where
  "gated_units sm = length (takeWhile (\<lambda>h. h = sm_rank_count sm) (sm_gated sm))"

definition finalize_prefetch_tokens :: "leaf_combination \<Rightarrow> leaves \<Rightarrow> nat \<Rightarrow> prefetch_summary \<Rightarrow> cache_block list \<Rightarrow> nat option" where
  "finalize_prefetch_tokens shape ls base_tokens sm linear =
    map_option (\<lambda>unit.
        if shape = FLAT_KV then base_tokens + gated_units sm * unit
        else if shape = FLAT_KV_LINEAR
        then last_reusable_linear_checkpoint linear (base_tokens div unit) (base_tokens div unit + gated_units sm)
               (sm_non_gated sm) (sm_rank_count sm) * unit
        else let inspect = min (gated_units sm) (length (sm_non_gated sm));
                 deepest = fold (\<lambda>i d. if sm_non_gated sm ! i = sm_rank_count sm then i + 1 else d) [0..<inspect] 0 in
          if deepest = 0 then base_tokens else base_tokens + deepest * unit)
      (prefetch_unit_size shape ls)"

section \<open>How much of the host cache is restored\<close>

definition has_valid_swa_window :: "nat \<Rightarrow> nat \<Rightarrow> nat \<Rightarrow> cache_block list \<Rightarrow> bool" where
  "has_valid_swa_window tokens size' per_window bs \<longleftrightarrow>
     per_window \<le> tokens div size'
     \<and> list_all (\<lambda>i. i < length bs \<and> cb_valid (bs ! i)) [tokens div size' - per_window..<tokens div size']"

record restore_point =
  rp_tokens :: nat
  rp_units :: nat

text \<open>The copy units go down, with the tokens, to the first boundary with a window in front of it.\<close>

fun shrink_to_window :: "nat \<Rightarrow> (nat \<Rightarrow> bool) \<Rightarrow> nat \<Rightarrow> nat \<Rightarrow> restore_point" where
  "shrink_to_window unit ok tokens 0 = \<lparr>rp_tokens = tokens, rp_units = 0\<rparr>"
| "shrink_to_window unit ok tokens (Suc n) =
    (if ok tokens then \<lparr>rp_tokens = tokens, rp_units = Suc n\<rparr> else shrink_to_window unit ok (tokens - unit) n)"

definition select_host_cache_restore :: "nat \<Rightarrow> composite \<Rightarrow> cache_sequence \<Rightarrow> restore_point option" where
  "select_host_cache_restore max_copy cm s =
    (let ls = cm_leaves cm; swa = (cm_shape cm = SWA_COMPRESSED); t = (if swa then checkpoint_block_type ls else BT_KV);
         restore = kv_cache_tokens_num s in
     case map_of ls t of
       None \<Rightarrow> None
     | Some lf \<Rightarrow>
         let unit = leaf_size lf; units = restore div unit; cached = min (num_cached_blocks (sq_kv s) t) units;
             full = units - cached; selected = min max_copy full; tokens = (cached + selected) * unit in
         if unit = 0 then None
         else if full = 0 then Some \<lparr>rp_tokens = restore, rp_units = 0\<rparr>
         else if \<not> swa then Some \<lparr>rp_tokens = tokens, rp_units = selected\<rparr>
         else case map_of ls BT_SWA of
           None \<Rightarrow> None
         | Some sl \<Rightarrow>
             let size' = leaf_size sl; window = lo_window_blocks (lf_opts sl) in
             if size' = 0 \<or> window = 0 then None
             else Some (shrink_to_window unit
                    (\<lambda>n. has_valid_swa_window n size' (if t = BT_C1 \<or> t = BT_C2 then swa_tail_blocks (n div size') window else window)
                           (kv_blocks (sq_host s) BT_SWA)) tokens selected))"

text \<open>The device's blocks behind the point that was selected are given up.\<close>

fun trim_device_leaves :: "nat \<Rightarrow> leaves \<Rightarrow> composite \<Rightarrow> cache_sequence \<Rightarrow> (composite \<times> cache_sequence) option" where
  "trim_device_leaves restore [] cm s = Some (cm, s)"
| "trim_device_leaves restore ((t, lf) # ls) cm s =
    (if t = BT_EMBEDDING \<or> t = BT_LINEAR then trim_device_leaves restore ls cm s
     else if leaf_size lf = 0 then None
     else let keep = restore div leaf_size lf; kv = sq_kv s; bs = kv_blocks kv t;
              s1 = s\<lparr>sq_host := set_num_cached_blocks t (min (num_cached_blocks (sq_host s) t) keep) (sq_host s)\<rparr> in
       if length bs \<le> keep then trim_device_leaves restore ls cm s1
       else case (if keep = 0 then Some (snd (erase_blocks t (put_blocks t [] kv)))
                  else map_option snd (replace_composite_blocks t (take keep bs) (min (shared_blocks_num kv t) keep)
                         (min (num_cached_blocks kv t) keep) (put_blocks t [] kv))) of
         None \<Rightarrow> None
       | Some kv' \<Rightarrow>
           Option.bind (drop_typed t (drop keep bs) cm) (\<lambda>cm'. trim_device_leaves restore ls cm' (s1\<lparr>sq_kv := kv'\<rparr>)))"

text \<open>\<open>matched_units\<close> are the copy units of the match; the new ones, with the point, are entered by
  \<open>set_host_cache_restore\<close>.\<close>

definition set_host_cache_restore :: "restore_point \<Rightarrow> nat \<Rightarrow> cache_sequence \<Rightarrow> (nat \<times> cache_sequence) option" where
  "set_host_cache_restore rp matched_units s =
    (if kv_tokens (sq_kv s) \<le> rp_tokens rp \<and> kv_tokens (sq_host s) \<le> rp_tokens rp \<and> rp_tokens rp \<le> kv_cache_tokens_num s
       \<and> rp_units rp \<le> matched_units
     then Some (rp_units rp, s\<lparr>sq_restore := Some (rp_tokens rp)\<rparr>) else None)"

definition trim_host_cache :: "restore_point \<Rightarrow> nat \<Rightarrow> composite \<Rightarrow> cache_sequence \<Rightarrow> (composite \<times> nat \<times> cache_sequence) option" where
  "trim_host_cache rp matched_units cm s =
    (if \<not> (kv_tokens (sq_kv s) \<le> rp_tokens rp \<and> rp_tokens rp \<le> kv_cache_tokens_num s) then None
     else Option.bind (trim_device_leaves (rp_tokens rp) (cm_leaves cm) cm s)
       (\<lambda>(cm', s'). map_option (Pair cm') (set_host_cache_restore rp matched_units
          (s'\<lparr>sq_host := set_kv_cache_tokens_num (min (kv_tokens (sq_host s')) (rp_tokens rp)) (sq_host s')\<rparr>))))"

definition should_probe_host_prefix_cache :: "bool \<Rightarrow> cache_sequence \<Rightarrow> bool" where
  "should_probe_host_prefix_cache enabled s \<longleftrightarrow>
     enabled \<and>
     (if \<not> is_prefill_stage s then \<not> prefix_matched (sq_kv s)
      else if \<not> prefix_matched (sq_kv s) then True
      else if shared_tokens_num (sq_kv s) < kv_tokens (sq_kv s) then False
      else \<not> prefix_matched (sq_host s))"

end
