(* ===== verification/Prefetch_Session.thy ===== *)
theory Prefetch_Session imports Store_Prefetch begin

text \<open>
  The fetch itself: one session per worker (\<open>core/distributed_runtime/worker_prefetch_session.cpp\<close>), which runs the batches of a
  request one after the other, the record of the results of all workers (\<open>PrefetchResult\<close> in
  \<open>core/framework/kv_cache_transfer/prefetch_result.h\<close>), which tells each worker to go on or to stop, and the streams between
  them (\<open>ClientStreamReceiver\<close> in \<open>core/distributed_runtime/comm_channel.cpp\<close>).

  A lock section is one step.  The store's answer to a batch, the time, the cancellation of the request and every failure of a
  stream are inputs.  A transfer that the store reports as a hit has written the page it names, one that it reports as a miss has
  not.  Statistics and their report are left out.
\<close>

section \<open>The session of a worker\<close>

datatype session_state = SS_CREATED | SS_RUNNING_BATCH | SS_WAITING_DECISION | SS_COMPLETED | SS_FAILED | SS_CLOSED

text \<open>Where the job of the session in the copy pool stands: in the store, in front of the write of the two halves of its result
  (and whether the session ends behind it), or in front of \<open>finish\<close>.\<close>

datatype runner = R_Idle | R_Getting nat | R_Writing "u8 list" "u8 list" bool | R_Finishing bool

record session =
  ss_request :: prefetch_request
  ss_batch_size :: nat
  ss_state :: session_state
  ss_batch :: nat
  ss_gate_complete :: bool
  ss_stop_after :: bool
  ss_finished :: bool
  ss_failed :: bool
  ss_closed :: bool
  ss_scheduled :: nat
  ss_runner :: runner

definition create_session :: "prefetch_request \<Rightarrow> nat \<Rightarrow> session option" where
  "create_session us size' =
    (if request_valid us \<and> 0 < size'
     then Some \<lparr>ss_request = us, ss_batch_size = size', ss_state = SS_CREATED, ss_batch = 0, ss_gate_complete = False,
            ss_stop_after = False, ss_finished = False, ss_failed = False, ss_closed = False, ss_scheduled = 0, ss_runner = R_Idle\<rparr>
     else None)"

definition schedule_batch :: "session \<Rightarrow> session" where
  "schedule_batch s =
    (if ss_finished s \<or> ss_state s \<noteq> SS_RUNNING_BATCH then s else s\<lparr>ss_scheduled := ss_scheduled s + 1\<rparr>)"

definition session_start :: "session \<Rightarrow> session" where
  "session_start s =
    (if ss_finished s \<or> ss_state s \<noteq> SS_CREATED then s else schedule_batch (s\<lparr>ss_state := SS_RUNNING_BATCH\<rparr>))"

definition session_finish :: "bool \<Rightarrow> session \<Rightarrow> session" where
  "session_finish failed' s =
    (if ss_finished s then s
     else s\<lparr>ss_finished := True, ss_failed := failed', ss_state := (if failed' then SS_FAILED else SS_COMPLETED), ss_closed := True\<rparr>)"

definition session_on_closed :: "session \<Rightarrow> session" where
  "session_on_closed s =
    (let s1 = (if ss_finished s then s else s\<lparr>ss_finished := True, ss_failed := True\<rparr>) in
     s1\<lparr>ss_state := SS_CLOSED, ss_closed := True\<rparr>)"

text \<open>A decision of the other side.  A byte that is neither value is an error.\<close>

definition continue_byte :: u8 where "continue_byte = 0"
definition stop_byte :: u8 where "stop_byte = 1"

definition session_receive :: "u8 list \<Rightarrow> session \<Rightarrow> session option" where
  "session_receive frame s =
    (case frame of
       [control] \<Rightarrow>
         if ss_finished s then Some s
         else if ss_state s = SS_RUNNING_BATCH \<and> control = stop_byte then Some (s\<lparr>ss_stop_after := True\<rparr>)
         else if ss_state s \<noteq> SS_WAITING_DECISION then Some (session_finish True s)
         else if control = stop_byte then Some (session_finish False s)
         else (case batch_count (ss_request s) (ss_batch_size s) of
             None \<Rightarrow> None
           | Some n \<Rightarrow>
               if control = continue_byte \<and> ss_gate_complete s \<and> ss_batch s + 1 < n
               then Some (schedule_batch (s\<lparr>ss_batch := ss_batch s + 1, ss_state := SS_RUNNING_BATCH\<rparr>))
               else Some (session_finish True s))
     | _ \<Rightarrow> Some (session_finish True s))"

text \<open>What the hits of a batch say of its units: all gated blocks, and the optional ones.\<close>

fun unit_results :: "prefetch_unit list \<Rightarrow> u8 list \<Rightarrow> (bool \<times> bool) list" where
  "unit_results [] hits = []"
| "unit_results (u # us) hits =
    (let g = length (gated_blocks u); n = length (non_gated_blocks u) in
     (list_all (\<lambda>h. h \<noteq> 0) (take g hits),
      if has_non_gated u then non_gated_blocks u \<noteq> [] \<and> list_all (\<lambda>h. h \<noteq> 0) (take n (drop g hits)) else True)
     # unit_results us (drop (g + n) hits))"

definition pad_hits :: "nat \<Rightarrow> bool list \<Rightarrow> u8 list" where
  "pad_hits size' bs = map (\<lambda>b. if b then 1 else 0) bs @ replicate (size' - length bs) 0"

definition run_start :: "session \<Rightarrow> session" where
  "run_start s =
    (let s1 = s\<lparr>ss_scheduled := ss_scheduled s - 1\<rparr> in
     if ss_finished s \<or> ss_state s \<noteq> SS_RUNNING_BATCH then s1 else s1\<lparr>ss_runner := R_Getting (ss_batch s)\<rparr>)"

definition batch_transfers :: "prefetch_unit list \<Rightarrow> transfer list" where
  "batch_transfers us = concat (map unit_transfers us)"

definition run_result :: "nat \<Rightarrow> u8 list \<Rightarrow> session \<Rightarrow> session option" where
  "run_result i hits s =
    (case batch_units (ss_request s) i (ss_batch_size s) of
       None \<Rightarrow> None
     | Some us \<Rightarrow>
         let valid = (length hits = length (batch_transfers us)); rs = unit_results us hits;
             close = ss_stop_after s;
             s1 = s\<lparr>ss_gate_complete := valid \<and> list_all fst rs, ss_state := (if close then SS_COMPLETED else SS_WAITING_DECISION)\<rparr> in
         if ss_finished s then Some (s\<lparr>ss_runner := R_Idle\<rparr>)
         else if \<not> valid then Some (s1\<lparr>ss_runner := R_Finishing True\<rparr>)
         else Some (s1\<lparr>ss_runner := R_Writing (pad_hits (ss_batch_size s) (map fst rs)) (pad_hits (ss_batch_size s) (map snd rs)) close\<rparr>))"

definition run_written :: "bool \<Rightarrow> bool \<Rightarrow> session \<Rightarrow> session" where
  "run_written ok close s = s\<lparr>ss_runner := (if \<not> ok then R_Finishing True else if close then R_Finishing False else R_Idle)\<rparr>"

definition run_finish :: "bool \<Rightarrow> session \<Rightarrow> session" where
  "run_finish failed' s = (session_finish failed' s)\<lparr>ss_runner := R_Idle\<rparr>"

section \<open>The results of all workers\<close>

datatype worker_state = WS_WAITING_RESULT | WS_WAITING_CLOSE | WS_ENDED

record worker_progress =
  wp_batch :: nat
  wp_state :: worker_state
  wp_gated :: "u8 list"
  wp_non_gated :: "u8 list"

datatype prefetch_control = PC_CONTINUE | PC_STOP

record prefetch_result =
  pf_workers :: "worker_progress list"
  pf_remaining :: nat
  pf_request :: prefetch_request
  pf_batch_size :: nat
  pf_timeout :: int
  pf_failed :: bool
  pf_stop :: stop_reason
  pf_continue :: bool

definition create_prefetch_result :: "nat \<Rightarrow> prefetch_request \<Rightarrow> nat \<Rightarrow> int \<Rightarrow> prefetch_result option" where
  "create_prefetch_result workers us size' timeout =
    (if workers = 0 \<or> size' = 0 \<or> \<not> request_valid us \<or> \<not> (timeout = - 1 \<or> 0 < timeout) then None
     else Some \<lparr>pf_workers = replicate workers \<lparr>wp_batch = 0, wp_state = WS_WAITING_RESULT, wp_gated = replicate (length us) 0,
              wp_non_gated = replicate (length us) 0\<rparr>,
            pf_remaining = workers, pf_request = us, pf_batch_size = size', pf_timeout = timeout, pf_failed = False,
            pf_stop = SR_COMPLETE, pf_continue = True\<rparr>)"

definition mark_worker_failed :: "prefetch_result \<Rightarrow> prefetch_result" where
  "mark_worker_failed r = r\<lparr>pf_failed := True, pf_continue := False\<rparr>"

definition should_continue_prefetch :: "bool \<Rightarrow> bool \<Rightarrow> int \<Rightarrow> bool \<Rightarrow> prefetch_result \<Rightarrow> bool \<times> prefetch_result" where
  "should_continue_prefetch gated_complete has_next elapsed cancelled r =
    (let timed_out = (0 < pf_timeout r \<and> pf_timeout r \<le> elapsed);
         go = pf_continue r \<and> gated_complete \<and> \<not> timed_out \<and> \<not> cancelled;
         stop = (if pf_stop r \<noteq> SR_COMPLETE then pf_stop r
                 else if \<not> gated_complete then SR_MISS
                 else if has_next \<and> timed_out then SR_TIMEOUT
                 else if has_next \<and> cancelled then SR_CANCELLED else SR_COMPLETE) in
     (gated_complete \<and> has_next \<and> go, r\<lparr>pf_continue := go, pf_stop := stop\<rparr>))"

text \<open>\<open>std::copy\<close> of the first \<open>n\<close> elements to the offset.\<close>

definition copy_at :: "nat \<Rightarrow> 'a list \<Rightarrow> 'a list \<Rightarrow> 'a list" where
  "copy_at i new xs = take i xs @ new @ drop (i + length new) xs"

definition record_batch_result :: "nat \<Rightarrow> u8 list \<Rightarrow> u8 list \<Rightarrow> int \<Rightarrow> bool \<Rightarrow> prefetch_result \<Rightarrow>
    (prefetch_control option \<times> prefetch_result) option" where
  "record_batch_result w gated non_gated elapsed cancelled r =
    (let size' = pf_batch_size r; us = pf_request r; halt = r\<lparr>pf_continue := False\<rparr> in
     if length (pf_workers r) \<le> w then Some (None, halt)
     else case batch_count us size' of
       None \<Rightarrow> None
     | Some batches \<Rightarrow>
         let wp = pf_workers r ! w; i = wp_batch wp in
         if wp_state wp \<noteq> WS_WAITING_RESULT \<or> batches \<le> i \<or> length gated \<noteq> size' \<or> length non_gated \<noteq> size' then Some (None, halt)
         else case (batch_unit_begin us i size', batch_unit_count us i size') of
           (Some begin', Some n) \<Rightarrow>
             (let wp1 = wp\<lparr>wp_gated := copy_at begin' (take n gated) (wp_gated wp),
                   wp_non_gated := copy_at begin' (take n non_gated) (wp_non_gated wp)\<rparr>;
                 (go, r1) = should_continue_prefetch (list_all (\<lambda>h. h \<noteq> 0) (take n gated)) (i + 1 < batches) elapsed cancelled r;
                 wp2 = (if go then wp1\<lparr>wp_batch := i + 1\<rparr> else wp1\<lparr>wp_state := WS_WAITING_CLOSE\<rparr>) in
             Some (Some (if go then PC_CONTINUE else PC_STOP), r1\<lparr>pf_workers := (pf_workers r)[w := wp2]\<rparr>))
         | _ \<Rightarrow> None)"

text \<open>The compact answer of older workers: the length of the prefix that hit.\<close>

definition record_prefix_result :: "nat \<Rightarrow> u8 \<Rightarrow> int \<Rightarrow> bool \<Rightarrow> prefetch_result \<Rightarrow>
    (prefetch_control option \<times> prefetch_result) option" where
  "record_prefix_result w units elapsed cancelled r =
    (if length (pf_workers r) \<le> w then None
     else case batch_unit_count (pf_request r) (wp_batch (pf_workers r ! w)) (pf_batch_size r) of
       None \<Rightarrow> None
     | Some n \<Rightarrow>
         let hits = min (unat units) n in
         record_batch_result w (replicate hits 1 @ replicate (pf_batch_size r - hits) 0) (replicate (pf_batch_size r) 1) elapsed cancelled r)"

definition sum_hits :: "(worker_progress \<Rightarrow> u8 list) \<Rightarrow> worker_progress list \<Rightarrow> nat \<Rightarrow> u8 list" where
  "sum_hits get ws n = map (\<lambda>u. fold (\<lambda>wp k. k + get wp ! u) ws 0) [0..<n]"

definition summarize :: "prefetch_result \<Rightarrow> prefetch_summary" where
  "summarize r =
    (if pf_failed r then \<lparr>sm_rank_count = 0, sm_gated = [], sm_non_gated = [], sm_stop = SR_WORKER_FAILED\<rparr>
     else \<lparr>sm_rank_count = of_nat (length (pf_workers r)), sm_gated = sum_hits wp_gated (pf_workers r) (length (pf_request r)),
        sm_non_gated = sum_hits wp_non_gated (pf_workers r) (length (pf_request r)), sm_stop = pf_stop r\<rparr>)"

text \<open>The last worker that ends delivers the summary.\<close>

definition mark_worker_ended :: "nat \<Rightarrow> prefetch_result \<Rightarrow> (prefetch_summary option \<times> prefetch_result) option" where
  "mark_worker_ended w r =
    (if length (pf_workers r) \<le> w then None
     else let wp = pf_workers r ! w in
       if wp_state wp = WS_ENDED then Some (None, r)
       else if pf_remaining r = 0 then None
       else let r1 = (if wp_state wp \<noteq> WS_WAITING_CLOSE then mark_worker_failed r else r);
                r2 = r1\<lparr>pf_workers := (pf_workers r)[w := wp\<lparr>wp_state := WS_ENDED\<rparr>], pf_remaining := pf_remaining r - 1\<rparr> in
         Some (if pf_remaining r2 = 0 then Some (summarize r2) else None, r2))"

section \<open>Streams and steps\<close>

text \<open>The stream between the engine and a worker: the session, the frames on their way in each direction, whether this side has
  closed it, and whether its end has been reported.  The pages of the worker are the memory behind the host blocks.  The answers of
  the store to the batches, and the number of results that were recorded, are kept for the proofs.\<close>

record link =
  lk_session :: session
  lk_up :: "u8 list list"
  lk_down :: "u8 list list"
  lk_shut :: bool
  lk_gone :: bool
  lk_pages :: "(block_type \<times> int) \<Rightarrow> hash_key option"
  lk_log :: "u8 list list"
  lk_recorded :: nat

definition new_link :: "((block_type \<times> int) \<Rightarrow> hash_key option) \<Rightarrow> session \<Rightarrow> link" where
  "new_link pages s = \<lparr>lk_session = s, lk_up = [], lk_down = [], lk_shut = False, lk_gone = False, lk_pages = pages, lk_log = [],
     lk_recorded = 0\<rparr>"

fun store_hits :: "transfer list \<Rightarrow> u8 list \<Rightarrow> ((block_type \<times> int) \<Rightarrow> hash_key option) \<Rightarrow> (block_type \<times> int) \<Rightarrow> hash_key option" where
  "store_hits (t # ts) (h # hs) m = store_hits ts hs (if h \<noteq> 0 then m((tf_type t, tf_dst t) := Some (tf_hash t)) else m)"
| "store_hits _ _ m = m"

text \<open>The events of one worker.  \<open>Pe_Result\<close> has the elapsed time, the cancellation and whether the decision could be
  written.  The last five are failures: a session that ends by itself (idle stream, failure, shutdown), a stream that the engine
  closes (idle), a failure reported to the engine, a refused connection, and a broken write.\<close>

datatype event =
  Pe_Start | Pe_Run | Pe_Get "u8 list" | Pe_Write | Pe_Finish | Pe_Result int bool bool | Pe_Control | Pe_Closed | Pe_Worker_Closed
| Pe_Session_Fails | Pe_Engine_Shuts | Pe_Engine_Fails | Pe_Refused | Pe_Write_Fails

fun event_enabled :: "event \<Rightarrow> link \<Rightarrow> bool" where
  "event_enabled Pe_Start l \<longleftrightarrow> \<not> lk_gone l \<and> ss_state (lk_session l) = SS_CREATED"
| "event_enabled Pe_Run l \<longleftrightarrow> 0 < ss_scheduled (lk_session l) \<and> ss_runner (lk_session l) = R_Idle"
| "event_enabled (Pe_Get hits) l \<longleftrightarrow> (case ss_runner (lk_session l) of R_Getting _ \<Rightarrow> True | _ \<Rightarrow> False)"
| "event_enabled Pe_Write l \<longleftrightarrow> (case ss_runner (lk_session l) of R_Writing _ _ _ \<Rightarrow> \<not> ss_closed (lk_session l) | _ \<Rightarrow> False)"
| "event_enabled Pe_Write_Fails l \<longleftrightarrow> (case ss_runner (lk_session l) of R_Writing _ _ _ \<Rightarrow> True | _ \<Rightarrow> False)"
| "event_enabled Pe_Finish l \<longleftrightarrow> (case ss_runner (lk_session l) of R_Finishing _ \<Rightarrow> True | _ \<Rightarrow> False)"
| "event_enabled (Pe_Result elapsed cancelled ok) l \<longleftrightarrow> lk_up l \<noteq> [] \<and> \<not> lk_gone l
     \<and> (ok \<longrightarrow> \<not> lk_shut l \<and> \<not> ss_closed (lk_session l))"
| "event_enabled Pe_Control l \<longleftrightarrow> lk_down l \<noteq> []"
| "event_enabled Pe_Closed l \<longleftrightarrow> \<not> lk_gone l \<and> (lk_shut l \<or> ss_closed (lk_session l) \<and> lk_up l = [])"
| "event_enabled Pe_Worker_Closed l \<longleftrightarrow> (lk_shut l \<or> ss_closed (lk_session l)) \<and> ss_state (lk_session l) \<noteq> SS_CLOSED"
| "event_enabled Pe_Session_Fails l \<longleftrightarrow> True"
| "event_enabled Pe_Engine_Shuts l \<longleftrightarrow> \<not> lk_gone l"
| "event_enabled Pe_Engine_Fails l \<longleftrightarrow> \<not> lk_gone l"
| "event_enabled Pe_Refused l \<longleftrightarrow> \<not> lk_gone l \<and> ss_state (lk_session l) = SS_CREATED"

definition with_session :: "(session \<Rightarrow> session) \<Rightarrow> link \<Rightarrow> link" where
  "with_session f l = l\<lparr>lk_session := f (lk_session l)\<rparr>"

text \<open>A frame of a result at the engine.\<close>

definition control_byte :: "prefetch_control \<Rightarrow> u8" where
  "control_byte c = (case c of PC_CONTINUE \<Rightarrow> continue_byte | PC_STOP \<Rightarrow> stop_byte)"

definition receive_result :: "nat \<Rightarrow> int \<Rightarrow> bool \<Rightarrow> bool \<Rightarrow> prefetch_result \<Rightarrow> link \<Rightarrow> (prefetch_result \<times> link) option" where
  "receive_result w elapsed cancelled ok r l =
    (let frame = hd (lk_up l); l1 = l\<lparr>lk_up := tl (lk_up l)\<rparr>; size' = pf_batch_size r in
     if length frame \<noteq> size' * 2 then Some (mark_worker_failed r, l1\<lparr>lk_shut := True\<rparr>)
     else case record_batch_result w (take size' frame) (drop size' frame) elapsed cancelled r of
       None \<Rightarrow> None
     | Some (None, r1) \<Rightarrow> Some (mark_worker_failed r1, l1\<lparr>lk_shut := True\<rparr>)
     | Some (Some c, r1) \<Rightarrow>
         let l2 = l1\<lparr>lk_recorded := lk_recorded l + 1\<rparr> in
         if ok then Some (r1, l2\<lparr>lk_down := lk_down l @ [[control_byte c]]\<rparr>)
         else Some (mark_worker_failed r1, l2\<lparr>lk_shut := True\<rparr>))"

text \<open>The batch that the session runs comes back from the store.\<close>

definition receive_hits :: "u8 list \<Rightarrow> link \<Rightarrow> link option" where
  "receive_hits hits l =
    (case ss_runner (lk_session l) of
       R_Getting i \<Rightarrow>
         (case (batch_units (ss_request (lk_session l)) i (ss_batch_size (lk_session l)), run_result i hits (lk_session l)) of
            (Some us, Some s) \<Rightarrow>
              (let ts = batch_transfers us in
              Some (l\<lparr>lk_session := s, lk_pages := store_hits ts hits (lk_pages l),
                lk_log := (if length hits = length ts then lk_log l @ [hits] else lk_log l)\<rparr>))
          | _ \<Rightarrow> None)
     | _ \<Rightarrow> Some l)"

definition write_result :: "link \<Rightarrow> link" where
  "write_result l =
    (case ss_runner (lk_session l) of
       R_Writing g n close \<Rightarrow> (with_session (run_written True close) l)\<lparr>lk_up := lk_up l @ [g @ n]\<rparr>
     | _ \<Rightarrow> l)"

text \<open>An event: the summary that it delivers, the results and the link; \<open>None\<close> is a failed \<open>CHECK\<close>.\<close>

fun link_step :: "event \<Rightarrow> nat \<Rightarrow> prefetch_result \<Rightarrow> link \<Rightarrow> (prefetch_summary option \<times> prefetch_result \<times> link) option" where
  "link_step Pe_Start w r l = Some (None, r, with_session session_start l)"
| "link_step Pe_Run w r l = Some (None, r, with_session run_start l)"
| "link_step (Pe_Get hits) w r l = map_option (\<lambda>l'. (None, r, l')) (receive_hits hits l)"
| "link_step Pe_Write w r l = Some (None, r, write_result l)"
| "link_step Pe_Write_Fails w r l = Some (None, r, with_session (run_written False False) l)"
| "link_step Pe_Finish w r l =
    Some (None, r, with_session (\<lambda>s. case ss_runner s of R_Finishing failed' \<Rightarrow> run_finish failed' s | _ \<Rightarrow> s) l)"
| "link_step (Pe_Result elapsed cancelled ok) w r l =
    map_option (\<lambda>(r', l'). (None, r', l')) (receive_result w elapsed cancelled ok r l)"
| "link_step Pe_Control w r l =
    map_option (\<lambda>s. (None, r, l\<lparr>lk_session := s, lk_down := tl (lk_down l)\<rparr>)) (session_receive (hd (lk_down l)) (lk_session l))"
| "link_step Pe_Closed w r l = map_option (\<lambda>(d, r'). (d, r', l\<lparr>lk_gone := True\<rparr>)) (mark_worker_ended w r)"
| "link_step Pe_Worker_Closed w r l = Some (None, r, with_session session_on_closed l)"
| "link_step Pe_Session_Fails w r l = Some (None, r, with_session (session_finish True) l)"
| "link_step Pe_Engine_Shuts w r l = Some (None, mark_worker_failed r, l\<lparr>lk_shut := True\<rparr>)"
| "link_step Pe_Engine_Fails w r l = Some (None, mark_worker_failed r, l)"
| "link_step Pe_Refused w r l =
    map_option (\<lambda>(d, r'). (d, r', l\<lparr>lk_gone := True, lk_shut := True\<rparr>)) (mark_worker_ended w (mark_worker_failed r))"

section \<open>Runs\<close>

record prefetch_run =
  pr_result :: prefetch_result
  pr_links :: "link list"
  pr_delivered :: "prefetch_summary list"

definition create_prefetch_run :: "prefetch_request \<Rightarrow> nat \<Rightarrow> int \<Rightarrow> ((block_type \<times> int) \<Rightarrow> hash_key option) list \<Rightarrow> prefetch_run option" where
  "create_prefetch_run us size' timeout memories =
    (case (create_prefetch_result (length memories) us size' timeout, create_session us size') of
       (Some r, Some s) \<Rightarrow> Some \<lparr>pr_result = r, pr_links = map (\<lambda>m. new_link m s) memories, pr_delivered = []\<rparr>
     | _ \<Rightarrow> None)"

definition run_enabled :: "nat \<times> event \<Rightarrow> prefetch_run \<Rightarrow> bool" where
  "run_enabled e p \<longleftrightarrow> fst e < length (pr_links p) \<and> event_enabled (snd e) (pr_links p ! fst e)"

definition run_step :: "nat \<times> event \<Rightarrow> prefetch_run \<Rightarrow> prefetch_run option" where
  "run_step e p =
    map_option (\<lambda>(d, r, l). \<lparr>pr_result = r, pr_links = (pr_links p)[fst e := l],
        pr_delivered = (case d of None \<Rightarrow> pr_delivered p | Some sm \<Rightarrow> pr_delivered p @ [sm])\<rparr>)
      (link_step (snd e) (fst e) (pr_result p) (pr_links p ! fst e))"

fun run_events :: "(nat \<times> event) list \<Rightarrow> prefetch_run \<Rightarrow> prefetch_run option" where
  "run_events [] p = Some p"
| "run_events (e # es) p = Option.bind (run_step e p) (run_events es)"

fun events_enabled :: "(nat \<times> event) list \<Rightarrow> prefetch_run \<Rightarrow> bool" where
  "events_enabled [] p \<longleftrightarrow> True"
| "events_enabled (e # es) p \<longleftrightarrow> run_enabled e p \<and> (case run_step e p of None \<Rightarrow> True | Some p' \<Rightarrow> events_enabled es p')"

end
