(* ===== verification/Prefetch_Run.thy ===== *)
theory Prefetch_Run imports Prefetch_Session begin

text \<open>
  The invariant of a fetch (\<open>run_inv\<close>): where each worker stands relative to the record of its results, in every order of the
  steps of all workers and with every failure of sessions and streams.
\<close>

section \<open>Batches and their results\<close>

definition nth_batch :: "prefetch_request \<Rightarrow> nat \<Rightarrow> nat \<Rightarrow> prefetch_unit list" where
  "nth_batch us n i = take n (drop (i * n) us)"

lemma batch_exists:
  assumes "0 < n"
  shows "i < (length us + n - 1) div n \<longleftrightarrow> i * n < length us"
proof -
  have "i < (length us + n - 1) div n \<longleftrightarrow> Suc i * n \<le> length us + n - 1"
    using less_eq_div_iff_mult_less_eq [OF assms, of "Suc i"] by (simp add: Suc_le_eq)
  then show ?thesis using assms by auto
qed

lemma batch_units_nth: "0 < n \<Longrightarrow> batch_units us i n = (if i * n < length us then Some (nth_batch us n i) else None)"
  by (auto simp: batch_units_def batch_unit_begin_def batch_unit_count_def batch_count_def
      batch_exists [unfolded One_nat_def] nth_batch_def min_def)

lemma length_nth_batch: "length (nth_batch us n i) = min n (length us - i * n)"
  by (simp add: nth_batch_def min.commute)

lemma take_batches: "take (Suc m * n) us = take (m * n) us @ nth_batch us n m"
  by (simp add: nth_batch_def take_add [symmetric] add.commute)

lemma batch_transfers_append [simp]: "batch_transfers (us @ vs) = batch_transfers us @ batch_transfers vs"
  by (simp add: batch_transfers_def)

lemma length_unit_results [simp]: "length (unit_results us hits) = length us"
  by (induction us arbitrary: hits) (auto simp: Let_def)

lemma length_unit_transfers: "length (unit_transfers u) = length (gated_blocks u) + length (non_gated_blocks u)"
  by (simp add: unit_transfers_def)

lemma batch_transfers_Cons: "batch_transfers (u # us) = unit_transfers u @ batch_transfers us"
  by (simp add: batch_transfers_def)

lemma batch_transfers_Nil [simp]: "batch_transfers [] = []"
  by (simp add: batch_transfers_def)

lemma unit_results_append:
  "length hs = length (batch_transfers us) \<Longrightarrow> unit_results (us @ vs) (hs @ ks) = unit_results us hs @ unit_results vs ks"
proof (induction us arbitrary: hs)
  case Nil
  then show ?case by simp
next
  case (Cons u us)
  let ?g = "length (gated_blocks u)" and ?n = "length (non_gated_blocks u)"
  have len: "?g + ?n \<le> length hs" "length (drop (?g + ?n) hs) = length (batch_transfers us)"
    using Cons.prems by (auto simp: batch_transfers_Cons length_unit_transfers)
  then have "take ?g (hs @ ks) = take ?g hs" "take ?n (drop ?g (hs @ ks)) = take ?n (drop ?g hs)"
    "drop (?g + ?n) (hs @ ks) = drop (?g + ?n) hs @ ks"
    by auto
  then show ?case using Cons.IH [OF len(2)] by (simp only: append_Cons unit_results.simps Let_def)
qed

lemma store_hits_append:
  "length hs = length ts \<Longrightarrow> store_hits (ts @ ts') (hs @ hs') m = store_hits ts' hs' (store_hits ts hs m)"
  by (induction ts hs m rule: store_hits.induct) auto

text \<open>The answers that a worker has received: one per batch, of the right length.  What they say of the units.\<close>

definition log_ok :: "prefetch_request \<Rightarrow> nat \<Rightarrow> u8 list list \<Rightarrow> bool" where
  "log_ok us n lg \<longleftrightarrow> (\<forall>i<length lg. i * n < length us \<and> length (lg ! i) = length (batch_transfers (nth_batch us n i)))"

definition results :: "prefetch_request \<Rightarrow> nat \<Rightarrow> u8 list list \<Rightarrow> (bool \<times> bool) list" where
  "results us n lg = unit_results (take (length lg * n) us) (concat lg)"

lemma log_ok_snoc:
  "log_ok us n (lg @ [h]) \<longleftrightarrow> log_ok us n lg \<and> length lg * n < length us \<and> length h = length (batch_transfers (nth_batch us n (length lg)))"
  by (auto simp: log_ok_def nth_append less_Suc_eq)

lemma log_ok_Nil [simp]: "log_ok us n []"
  by (simp add: log_ok_def)

lemma log_ok_take: "log_ok us n lg \<Longrightarrow> log_ok us n (take k lg)"
  by (simp add: log_ok_def)

lemma length_log:
  assumes "log_ok us n lg"
  shows "length (concat lg) = length (batch_transfers (take (length lg * n) us))"
  using assms
proof (induction lg rule: rev_induct)
  case Nil
  then show ?case by simp
next
  case (snoc h lg)
  have "take (length (lg @ [h]) * n) us = take (length lg * n) us @ nth_batch us n (length lg)"
    by (metis length_append_singleton take_batches)
  then show ?case using snoc by (simp only: log_ok_snoc batch_transfers_append length_append concat_append) simp
qed

lemma results_snoc:
  assumes "log_ok us n (lg @ [h])"
  shows "results us n (lg @ [h]) = results us n lg @ unit_results (nth_batch us n (length lg)) h"
proof -
  have "take (length (lg @ [h]) * n) us = take (length lg * n) us @ nth_batch us n (length lg)"
    by (metis length_append_singleton take_batches)
  moreover have "log_ok us n lg" using assms by (simp add: log_ok_snoc)
  ultimately show ?thesis unfolding results_def by (simp add: unit_results_append length_log)
qed

lemma length_results: "length (results us n lg) = min (length us) (length lg * n)"
  by (simp add: results_def)

lemma results_Nil [simp]: "results us n [] = []"
  by (simp add: results_def)

text \<open>The pages of a worker behind the answers.\<close>

definition pages_after :: "prefetch_request \<Rightarrow> nat \<Rightarrow> u8 list list \<Rightarrow> ((block_type \<times> int) \<Rightarrow> hash_key option) \<Rightarrow> (block_type \<times> int) \<Rightarrow> hash_key option" where
  "pages_after us n lg m = store_hits (batch_transfers (take (length lg * n) us)) (concat lg) m"

lemma pages_after_Nil [simp]: "pages_after us n [] m = m"
  by (simp add: pages_after_def)

lemma pages_after_snoc:
  assumes "log_ok us n (lg @ [h])"
  shows "pages_after us n (lg @ [h]) m = store_hits (batch_transfers (nth_batch us n (length lg))) h (pages_after us n lg m)"
proof -
  have "take (length (lg @ [h]) * n) us = take (length lg * n) us @ nth_batch us n (length lg)"
    by (metis length_append_singleton take_batches)
  moreover have "log_ok us n lg" using assms by (simp add: log_ok_snoc)
  ultimately show ?thesis unfolding pages_after_def by (simp add: store_hits_append length_log)
qed

section \<open>Hits on the wire\<close>

lemma length_pad_hits [simp]: "length bs \<le> n \<Longrightarrow> length (pad_hits n bs) = n"
  by (simp add: pad_hits_def)

lemma copy_pad:
  assumes "length bs + length cs \<le> n"
  shows "copy_at (length bs) (take (length cs) (pad_hits k cs)) (pad_hits n bs) = pad_hits n (bs @ cs)"
proof -
  have "take (length cs) (pad_hits k cs) = map (\<lambda>b. if b then 1 else 0) cs" by (simp add: pad_hits_def)
  moreover have "replicate (n - length bs) (0 :: u8) = replicate (length cs) 0 @ replicate (n - (length bs + length cs)) 0"
    using assms by (simp add: replicate_add [symmetric])
  ultimately show ?thesis by (simp add: copy_at_def pad_hits_def)
qed

lemma gated_of_frame: "list_all (\<lambda>h. h \<noteq> 0) (take (length bs) (pad_hits k bs)) \<longleftrightarrow> list_all id bs"
  by (auto simp: pad_hits_def list_all_iff)

definition frame_of :: "nat \<Rightarrow> (bool \<times> bool) list \<Rightarrow> u8 list" where
  "frame_of n rs = pad_hits n (map fst rs) @ pad_hits n (map snd rs)"

section \<open>The invariant of a worker\<close>

definition batch_results :: "prefetch_request \<Rightarrow> nat \<Rightarrow> nat \<Rightarrow> u8 list list \<Rightarrow> (bool \<times> bool) list" where
  "batch_results us n i lg = unit_results (nth_batch us n i) (lg ! i)"

definition pages_ok :: "prefetch_request \<Rightarrow> nat \<Rightarrow> ((block_type \<times> int) \<Rightarrow> hash_key option) \<Rightarrow> link \<Rightarrow> bool" where
  "pages_ok us n m l \<longleftrightarrow> lk_pages l = pages_after us n (lk_log l) m"

text \<open>A session that is at work, by its state.\<close>

definition live_inv :: "prefetch_request \<Rightarrow> nat \<Rightarrow> ((block_type \<times> int) \<Rightarrow> hash_key option) \<Rightarrow> link \<Rightarrow> bool" where
  "live_inv us n m l \<longleftrightarrow>
    (let s = lk_session l; lg = lk_log l in
     (ss_runner s \<noteq> R_Finishing True \<longrightarrow> pages_ok us n m l) \<and>
     (case ss_state s of
        SS_CREATED \<Rightarrow> ss_batch s = 0 \<and> ss_scheduled s = 0 \<and> ss_runner s = R_Idle \<and> lg = []
      | SS_RUNNING_BATCH \<Rightarrow> ss_batch s = length lg \<and> ss_batch s * n < length us
          \<and> (ss_scheduled s = 1 \<and> ss_runner s = R_Idle \<or> ss_scheduled s = 0 \<and> ss_runner s = R_Getting (ss_batch s))
      | SS_WAITING_DECISION \<Rightarrow> ss_scheduled s = 0
          \<and> (ss_runner s = R_Finishing True
             \<or> length lg = ss_batch s + 1 \<and> ss_gate_complete s = list_all fst (batch_results us n (ss_batch s) lg)
               \<and> (ss_runner s = R_Idle
                  \<or> ss_runner s = R_Writing (pad_hits n (map fst (batch_results us n (ss_batch s) lg)))
                      (pad_hits n (map snd (batch_results us n (ss_batch s) lg))) False))
      | _ \<Rightarrow> False))"

definition session_inv :: "prefetch_request \<Rightarrow> nat \<Rightarrow> ((block_type \<times> int) \<Rightarrow> hash_key option) \<Rightarrow> link \<Rightarrow> bool" where
  "session_inv us n m l \<longleftrightarrow>
    (let s = lk_session l; lg = lk_log l in
     ss_request s = us \<and> ss_batch_size s = n \<and> \<not> ss_stop_after s \<and> ss_closed s = ss_finished s \<and> log_ok us n lg
     \<and> (\<forall>i. ss_runner s = R_Getting i \<longrightarrow> i = length lg \<and> i * n < length us)
     \<and> (\<not> ss_finished s \<and> lk_down l \<noteq> [] \<longrightarrow> ss_state s = SS_WAITING_DECISION \<and> ss_runner s = R_Idle \<and> tl (lk_down l) = [])
     \<and> (\<not> ss_finished s \<longrightarrow> live_inv us n m l))"

text \<open>A worker whose result is awaited, and one that was told to stop.\<close>

definition waiting_inv :: "prefetch_request \<Rightarrow> nat \<Rightarrow> ((block_type \<times> int) \<Rightarrow> hash_key option) \<Rightarrow> bool \<Rightarrow> link \<Rightarrow> bool" where
  "waiting_inv us n m failed l \<longleftrightarrow>
    (let s = lk_session l; k = lk_recorded l; lg = lk_log l in
     k * n < length us \<and>
     (lk_up l = [] \<and> ss_finished s
      \<or> lk_up l = [frame_of n (batch_results us n k lg)] \<and> length lg = k + 1 \<and> pages_ok us n m l \<and> ss_scheduled s = 0
        \<and> ss_runner s = R_Idle \<and> lk_down l = [] \<and> (ss_finished s \<or> ss_state s = SS_WAITING_DECISION)
      \<or> lk_up l = [] \<and> \<not> ss_finished s \<and> lk_down l = [] \<and> (ss_state s = SS_CREATED \<or> ss_state s = SS_RUNNING_BATCH) \<and> length lg = k
      \<or> lk_up l = [] \<and> \<not> ss_finished s \<and> lk_down l = [] \<and> ss_state s = SS_WAITING_DECISION \<and> ss_runner s \<noteq> R_Idle
        \<and> (ss_runner s \<noteq> R_Finishing True \<longrightarrow> length lg = k + 1)
      \<or> lk_up l = [] \<and> \<not> ss_finished s \<and> ss_state s = SS_WAITING_DECISION \<and> ss_runner s = R_Idle \<and> length lg = k
        \<and> ss_gate_complete s \<and> (lk_down l = [[continue_byte]] \<or> lk_down l = [] \<and> failed)))"

definition stopped_inv :: "prefetch_request \<Rightarrow> nat \<Rightarrow> ((block_type \<times> int) \<Rightarrow> hash_key option) \<Rightarrow> bool \<Rightarrow> link \<Rightarrow> bool" where
  "stopped_inv us n m failed l \<longleftrightarrow>
    (let s = lk_session l in
     lk_up l = [] \<and> length (lk_log l) = lk_recorded l \<and> pages_ok us n m l \<and> ss_scheduled s = 0 \<and> ss_runner s = R_Idle
     \<and> (ss_finished s \<or> ss_state s = SS_WAITING_DECISION \<and> (lk_down l = [[stop_byte]] \<or> lk_down l = [] \<and> failed)))"

definition record_inv :: "prefetch_request \<Rightarrow> nat \<Rightarrow> ((block_type \<times> int) \<Rightarrow> hash_key option) \<Rightarrow> bool \<Rightarrow> worker_progress \<Rightarrow> link \<Rightarrow> bool" where
  "record_inv us n m failed wp l \<longleftrightarrow>
    (let k = lk_recorded l; rs = results us n (take k (lk_log l)) in
     k \<le> length (lk_log l) \<and> (lk_shut l \<longrightarrow> failed)
     \<and> wp_gated wp = pad_hits (length us) (map fst rs) \<and> wp_non_gated wp = pad_hits (length us) (map snd rs)
     \<and> (case wp_state wp of
          WS_WAITING_RESULT \<Rightarrow> \<not> lk_gone l \<and> wp_batch wp = k \<and> waiting_inv us n m failed l
        | WS_WAITING_CLOSE \<Rightarrow> \<not> lk_gone l \<and> stopped_inv us n m failed l
        | WS_ENDED \<Rightarrow> lk_gone l \<and> (failed \<or> stopped_inv us n m failed l)))"

definition link_inv :: "prefetch_request \<Rightarrow> nat \<Rightarrow> ((block_type \<times> int) \<Rightarrow> hash_key option) \<Rightarrow> bool \<Rightarrow> worker_progress \<Rightarrow> link \<Rightarrow> bool" where
  "link_inv us n m failed wp l \<longleftrightarrow> session_inv us n m l \<and> record_inv us n m failed wp l"

lemmas link_inv_defs = link_inv_def session_inv_def live_inv_def record_inv_def waiting_inv_def stopped_inv_def pages_ok_def Let_def

text \<open>A failure only weakens it.\<close>

lemma link_inv_failed: "link_inv us n m failed wp l \<Longrightarrow> link_inv us n m True wp l"
  by (cases "wp_state wp") (auto simp: link_inv_defs)

subsection \<open>Steps of the session\<close>

lemma inv_start:
  assumes "link_inv us n m failed wp l" "us \<noteq> []" "event_enabled Pe_Start l"
  shows "link_inv us n m failed wp (with_session session_start l)"
  using assms
  by (cases "wp_state wp") (auto simp: link_inv_defs with_session_def session_start_def schedule_batch_def)

lemma inv_run:
  assumes "link_inv us n m failed wp l" "event_enabled Pe_Run l"
  shows "link_inv us n m failed wp (with_session run_start l)"
  using assms
  by (cases "wp_state wp"; cases "ss_state (lk_session l)"; cases "ss_finished (lk_session l)")
     (auto simp: link_inv_defs with_session_def run_start_def)

lemma inv_fail:
  assumes "link_inv us n m failed wp l"
  shows "link_inv us n m failed wp (with_session (session_finish f) l)"
  using assms
  by (cases "wp_state wp") (auto simp: link_inv_defs with_session_def session_finish_def)

lemma inv_worker_closed:
  assumes "link_inv us n m failed wp l"
  shows "link_inv us n m failed wp (with_session session_on_closed l)"
  using assms
  by (cases "wp_state wp") (auto simp: link_inv_defs with_session_def session_on_closed_def)

lemma batch_results_snoc: "batch_results us n (length lg) (lg @ [h]) = unit_results (nth_batch us n (length lg)) h"
  by (simp add: batch_results_def)

lemma batch_results_old: "i < length lg \<Longrightarrow> batch_results us n i (lg @ [h]) = batch_results us n i lg"
  by (simp add: batch_results_def nth_append)

lemma receive_hits_shape:
  assumes "link_inv us n m failed wp l" "0 < n" "ss_runner (lk_session l) = R_Getting i"
  defines "ts \<equiv> batch_transfers (nth_batch us n i)" and "rs hits \<equiv> unit_results (nth_batch us n i) hits" and "s \<equiv> lk_session l"
  shows "receive_hits hits l = Some (l\<lparr>
      lk_session := (if ss_finished s then s\<lparr>ss_runner := R_Idle\<rparr>
        else s\<lparr>ss_gate_complete := length hits = length ts \<and> list_all fst (rs hits), ss_state := SS_WAITING_DECISION,
           ss_runner := (if length hits \<noteq> length ts then R_Finishing True
              else R_Writing (pad_hits n (map fst (rs hits))) (pad_hits n (map snd (rs hits))) False)\<rparr>),
      lk_pages := store_hits ts hits (lk_pages l), lk_log := (if length hits = length ts then lk_log l @ [hits] else lk_log l)\<rparr>)"
proof -
  have u: "ss_request s = us" "ss_batch_size s = n" "\<not> ss_stop_after s" "i * n < length us"
    using assms(1,3) by (auto simp: link_inv_def session_inv_def Let_def s_def)
  then have "batch_units (ss_request s) i (ss_batch_size s) = Some (nth_batch us n i)"
    using assms(2) by (simp add: batch_units_nth)
  then show ?thesis
    using u assms(3) by (simp add: receive_hits_def run_result_def Let_def ts_def rs_def s_def)
qed

lemma inv_get:
  assumes "link_inv us n m failed wp l" "0 < n" "event_enabled (Pe_Get hits) l"
  shows "\<exists>l'. receive_hits hits l = Some l' \<and> link_inv us n m failed wp l'"
proof -
  obtain i where i: "ss_runner (lk_session l) = R_Getting i" using assms(3) by (cases "ss_runner (lk_session l)") auto
  let ?s = "lk_session l" and ?lg = "lk_log l" and ?ts = "batch_transfers (nth_batch us n i)"
  have len: "i = length ?lg" "i * n < length us" and log: "log_ok us n ?lg"
    and same: "ss_request ?s = us" "ss_batch_size ?s = n" "\<not> ss_stop_after ?s" "ss_closed ?s = ss_finished ?s"
    using assms(1) i by (auto simp: link_inv_def session_inv_def Let_def)
  obtain l' where l': "receive_hits hits l = Some l'" using receive_hits_shape [OF assms(1,2) i] by blast
  note shape = l' [unfolded receive_hits_shape [OF assms(1,2) i], simplified, symmetric]
  have live: "\<not> ss_finished ?s \<Longrightarrow> ss_state ?s = SS_RUNNING_BATCH \<and> ss_batch ?s = i \<and> ss_scheduled ?s = 0 \<and> lk_down l = [] \<and> pages_ok us n m l"
    using assms(1) i
    by (cases "ss_state ?s"; cases "ss_finished ?s") (simp_all add: link_inv_def session_inv_def live_inv_def Let_def)
  have rec: "record_inv us n m failed wp l" using assms(1) by (simp add: link_inv_def)
  show ?thesis
  proof (cases "length hits = length ?ts")
    case True
    have snoc: "log_ok us n (?lg @ [hits])" using len log True by (simp add: log_ok_snoc)
    have pages: "pages_after us n (?lg @ [hits]) m = store_hits ?ts hits (pages_after us n ?lg m)"
      using pages_after_snoc [OF snoc] len by simp
    have "session_inv us n m l'"
      using same live len snoc pages True
      by (cases "ss_finished ?s") (simp_all add: shape session_inv_def live_inv_def pages_ok_def batch_results_snoc Let_def)
    moreover have "record_inv us n m failed wp l'"
      using rec live len i True
      by (cases "wp_state wp"; cases "ss_finished ?s") (auto simp: shape record_inv_def waiting_inv_def stopped_inv_def Let_def)
    ultimately show ?thesis using l' by (simp add: link_inv_def)
  next
    case False
    have "session_inv us n m l'"
      using same live len log False by (cases "ss_finished ?s") (simp_all add: shape session_inv_def live_inv_def Let_def)
    moreover have "record_inv us n m failed wp l'"
      using rec live len i False
      by (cases "wp_state wp"; cases "ss_finished ?s") (auto simp: shape record_inv_def waiting_inv_def stopped_inv_def Let_def)
    ultimately show ?thesis using l' by (simp add: link_inv_def)
  qed
qed

lemma inv_write:
  assumes "link_inv us n m failed wp l" "event_enabled Pe_Write l"
  shows "link_inv us n m failed wp (write_result l)"
proof -
  obtain g h c where r: "ss_runner (lk_session l) = R_Writing g h c" using assms(2) by (cases "ss_runner (lk_session l)") auto
  then show ?thesis
    using assms
    by (cases "wp_state wp"; cases "ss_state (lk_session l)")
       (auto simp: link_inv_defs write_result_def with_session_def run_written_def frame_of_def)
qed

lemma inv_write_fails:
  assumes "link_inv us n m failed wp l" "event_enabled Pe_Write_Fails l"
  shows "link_inv us n m failed wp (with_session (run_written False False) l)"
proof -
  obtain g h c where r: "ss_runner (lk_session l) = R_Writing g h c" using assms(2) by (cases "ss_runner (lk_session l)") auto
  then show ?thesis
    using assms
    by (cases "wp_state wp"; cases "ss_state (lk_session l)") (auto simp: link_inv_defs with_session_def run_written_def)
qed

lemma inv_finish:
  assumes "link_inv us n m failed wp l" "ss_runner (lk_session l) = R_Finishing f"
  shows "link_inv us n m failed wp (with_session (run_finish f) l)"
  using assms
  by (cases "wp_state wp"; cases "ss_state (lk_session l)")
     (auto simp: link_inv_defs with_session_def run_finish_def session_finish_def)

text \<open>A decision that the worker reads.\<close>

lemma session_receive_total:
  assumes "session_inv us n m l" "0 < n"
  shows "\<exists>s. session_receive frame (lk_session l) = Some s"
  using assms by (auto simp: session_receive_def session_inv_def batch_count_def Let_def split: list.splits)

lemma session_inv_finish:
  "session_inv us n m l \<Longrightarrow> session_inv us n m (l\<lparr>lk_session := session_finish f (lk_session l), lk_down := tl (lk_down l)\<rparr>)"
  by (auto simp: session_inv_def session_finish_def Let_def live_inv_def pages_ok_def)

text \<open>It ends the session, or starts the next batch, or is not for a session that has ended.\<close>

lemma session_receive_cases:
  assumes "session_inv us n m l" "0 < n" "\<not> ss_finished (lk_session l)" "lk_down l \<noteq> []"
    "session_receive frame (lk_session l) = Some s"
  obtains (finish) f where "s = session_finish f (lk_session l)" "\<not> f \<longrightarrow> frame = [stop_byte]"
      "f \<longrightarrow> frame \<noteq> [stop_byte] \<and> (frame = [continue_byte] \<longrightarrow> \<not> ss_gate_complete (lk_session l) \<or> length us \<le> length (lk_log l) * n)"
  | (go) "s = schedule_batch (lk_session l\<lparr>ss_batch := ss_batch (lk_session l) + 1, ss_state := SS_RUNNING_BATCH\<rparr>)"
      "frame = [continue_byte]" "length (lk_log l) * n < length us"
proof -
  let ?s = "lk_session l"
  have w: "ss_state ?s = SS_WAITING_DECISION" "ss_runner ?s = R_Idle" "ss_request ?s = us" "ss_batch_size ?s = n"
    using assms(1,3,4) by (simp_all add: session_inv_def Let_def)
  then have len: "length (lk_log l) = ss_batch ?s + 1" using assms(1,3) by (simp add: session_inv_def live_inv_def Let_def)
  note ex = batch_exists [OF assms(2), of "ss_batch ?s + 1" us]
  show thesis
  proof (cases "frame = [stop_byte]")
    case True
    then show thesis using assms(3,5) w finish [of False] by (simp add: session_receive_def)
  next
    case False
    show thesis
    proof (cases "frame = [continue_byte] \<and> ss_gate_complete ?s \<and> (ss_batch ?s + 1) * n < length us")
      case True
      then show thesis
        using assms(2,3,5) w ex len go by (simp add: session_receive_def batch_count_def stop_byte_def continue_byte_def)
    next
      case no: False
      then have "s = session_finish True ?s"
        using False assms(2,3,5) w ex
        by (auto simp: session_receive_def batch_count_def stop_byte_def split: list.splits if_splits)
      then show thesis using False no len finish [of True] by auto
    qed
  qed
qed

lemma session_receive_finished:
  assumes "ss_finished s" "session_receive frame s = Some s'"
  shows "s' = s"
  using assms by (auto simp: session_receive_def session_finish_def split: list.splits)

lemma inv_control:
  assumes "link_inv us n m failed wp l" "0 < n" "event_enabled Pe_Control l"
  shows "\<exists>s. session_receive (hd (lk_down l)) (lk_session l) = Some s
           \<and> link_inv us n m failed wp (l\<lparr>lk_session := s, lk_down := tl (lk_down l)\<rparr>)"
proof -
  let ?s = "lk_session l"
  have inv: "session_inv us n m l" and rec: "record_inv us n m failed wp l" using assms(1) by (simp_all add: link_inv_def)
  have down: "lk_down l \<noteq> []" using assms(3) by simp
  obtain s where s: "session_receive (hd (lk_down l)) ?s = Some s" using session_receive_total [OF inv assms(2)] by blast
  have "link_inv us n m failed wp (l\<lparr>lk_session := s, lk_down := tl (lk_down l)\<rparr>)"
  proof (cases "ss_finished ?s")
    case True
    then have "s = ?s" using session_receive_finished s by blast
    then show ?thesis
      using inv rec True down
      by (cases "wp_state wp") (auto simp: link_inv_def session_inv_def record_inv_def waiting_inv_def stopped_inv_def pages_ok_def Let_def)
  next
    case False
    consider (finish) f where "s = session_finish f ?s"
      | (go) "s = schedule_batch (?s\<lparr>ss_batch := ss_batch ?s + 1, ss_state := SS_RUNNING_BATCH\<rparr>)"
          "hd (lk_down l) = [continue_byte]" "length (lk_log l) * n < length us"
      by (rule session_receive_cases [OF inv assms(2) False down s]) blast+
    then show ?thesis
    proof cases
      case (finish f)
      have "record_inv us n m failed wp (l\<lparr>lk_session := s, lk_down := tl (lk_down l)\<rparr>)"
        using rec False down finish(1)
        by (cases "wp_state wp") (auto simp: record_inv_def waiting_inv_def stopped_inv_def pages_ok_def session_finish_def Let_def)
      then show ?thesis using session_inv_finish [OF inv] finish(1) by (simp add: link_inv_def)
    next
      case go
      let ?l' = "l\<lparr>lk_session := s, lk_down := tl (lk_down l)\<rparr>"
      have st: "ss_state ?s = SS_WAITING_DECISION" "ss_runner ?s = R_Idle" "tl (lk_down l) = []"
        using inv False down by (simp_all add: session_inv_def Let_def)
      have s': "s = ?s\<lparr>ss_batch := ss_batch ?s + 1, ss_state := SS_RUNNING_BATCH, ss_scheduled := ss_scheduled ?s + 1\<rparr>"
        using go False by (simp add: schedule_batch_def)
      have "session_inv us n m ?l'"
        using inv st False go(3) by (simp add: session_inv_def live_inv_def pages_ok_def s' Let_def)
      moreover have "record_inv us n m failed wp ?l'"
        using rec st False down go(2)
        by (cases "wp_state wp")
           (auto simp: record_inv_def waiting_inv_def stopped_inv_def pages_ok_def s' continue_byte_def stop_byte_def Let_def)
      ultimately show ?thesis by (simp add: link_inv_def)
    qed
  qed
  then show ?thesis using s by blast
qed

subsection \<open>A result at the engine\<close>

lemma length_batch_results: "length (batch_results us n i lg) = min n (length us - i * n)"
  by (simp add: batch_results_def length_nth_batch)

lemma record_results:
  assumes "log_ok us n lg" "length lg = k + 1" "k * n < length us"
  defines "rs \<equiv> batch_results us n k lg"
  shows "results us n lg = results us n (take k lg) @ rs" "length (results us n (take k lg)) = k * n"
    "length (results us n (take k lg)) + length rs \<le> length us" "length rs \<le> n"
proof -
  have lg: "lg = take k lg @ [lg ! k]" using assms(2) by (metis Suc_eq_plus1 lessI take_Suc_snoc take_all_iff order_refl)
  have "length (take k lg) = k" using assms(2) by simp
  then show "results us n lg = results us n (take k lg) @ rs"
    using results_snoc [of us n "take k lg" "lg ! k"] assms(1) lg rs_def by (simp add: batch_results_def)
  show l: "length (results us n (take k lg)) = k * n" using assms(2,3) by (simp add: length_results)
  show "length (results us n (take k lg)) + length rs \<le> length us" "length rs \<le> n"
    using assms(3) unfolding l by (simp_all add: rs_def length_batch_results)
qed

lemma should_continue_cases:
  assumes "should_continue_prefetch gated next' e c r = (go, r1)"
  obtains x y where "r1 = r\<lparr>pf_continue := x, pf_stop := y\<rparr>" "go \<longrightarrow> gated \<and> next'"
  using assms by (auto simp: should_continue_prefetch_def Let_def)

lemma record_frame:
  assumes "w < length (pf_workers r)" "pf_request r = us" "pf_batch_size r = n" "0 < n" "wp = pf_workers r ! w"
    "wp_state wp = WS_WAITING_RESULT" "wp_batch wp = k" "k * n < length us"
    "wp_gated wp = pad_hits (length us) (map fst (results us n (take k lg)))"
    "wp_non_gated wp = pad_hits (length us) (map snd (results us n (take k lg)))"
    "log_ok us n lg" "length lg = k + 1"
  defines "rs \<equiv> batch_results us n k lg"
  obtains go x y where
    "record_batch_result w (pad_hits n (map fst rs)) (pad_hits n (map snd rs)) e c r =
       Some (Some (if go then PC_CONTINUE else PC_STOP), r\<lparr>pf_continue := x, pf_stop := y, pf_workers := (pf_workers r)[w :=
         \<lparr>wp_batch = (if go then k + 1 else k), wp_state = (if go then WS_WAITING_RESULT else WS_WAITING_CLOSE),
          wp_gated = pad_hits (length us) (map fst (results us n lg)),
          wp_non_gated = pad_hits (length us) (map snd (results us n lg))\<rparr>]\<rparr>)"
    "go \<longrightarrow> list_all fst rs \<and> (k + 1) * n < length us"
proof -
  note len = record_results [OF assms(11,12,8), folded rs_def]
  have cnt: "min n (length us - k * n) = length rs" by (simp add: rs_def length_batch_results)
  have begin': "batch_unit_begin us k n = Some (k * n)" "batch_unit_count us k n = Some (length rs)"
    "batch_count us n = Some ((length us + n - 1) div n)"
    using assms(4,8) cnt by (simp_all add: batch_unit_begin_def batch_unit_count_def batch_count_def batch_exists [unfolded One_nat_def])
  obtain go r1 where g: "should_continue_prefetch (list_all (\<lambda>h. h \<noteq> 0) (take (length rs) (pad_hits n (map fst rs))))
      (k + 1 < (length us + n - 1) div n) e c r = (go, r1)" by fastforce
  obtain x y where r1: "r1 = r\<lparr>pf_continue := x, pf_stop := y\<rparr>"
    and go: "go \<longrightarrow> list_all (\<lambda>h. h \<noteq> 0) (take (length rs) (pad_hits n (map fst rs))) \<and> k + 1 < (length us + n - 1) div n"
    using should_continue_cases [OF g] by metis
  have all: "list_all (\<lambda>h. h \<noteq> 0) (take (length rs) (pad_hits n (map fst rs))) \<longleftrightarrow> list_all fst rs"
    using gated_of_frame [of "map fst rs" n] by (simp add: list_all_iff)
  have copy: "copy_at (k * n) (take (length rs) (pad_hits n (map f rs))) (pad_hits (length us) (map f (results us n (take k lg))))
      = pad_hits (length us) (map f (results us n lg))" for f :: "bool \<times> bool \<Rightarrow> bool"
    using copy_pad [of "map f (results us n (take k lg))" "map f rs" "length us" n] len by (simp add: add.commute)
  have wp: "wp = \<lparr>wp_batch = k, wp_state = WS_WAITING_RESULT, wp_gated = pad_hits (length us) (map fst (results us n (take k lg))),
      wp_non_gated = pad_hits (length us) (map snd (results us n (take k lg)))\<rparr>"
    using assms(6,7,9,10) by simp
  have lt: "\<not> (length us + n - 1) div n \<le> k" using batch_exists [OF assms(4), of k us] assms(8) by (metis linorder_not_le)
  have "record_batch_result w (pad_hits n (map fst rs)) (pad_hits n (map snd rs)) e c r =
       Some (Some (if go then PC_CONTINUE else PC_STOP), r\<lparr>pf_continue := x, pf_stop := y, pf_workers := (pf_workers r)[w :=
         \<lparr>wp_batch = (if go then k + 1 else k), wp_state = (if go then WS_WAITING_RESULT else WS_WAITING_CLOSE),
          wp_gated = pad_hits (length us) (map fst (results us n lg)),
          wp_non_gated = pad_hits (length us) (map snd (results us n lg))\<rparr>]\<rparr>)"
    using assms(1-3) assms(5) [symmetric] wp begin' g r1 copy len(4) lt
    by (simp add: record_batch_result_def Let_def)
  moreover have "go \<longrightarrow> list_all fst rs \<and> (k + 1) * n < length us"
    using go all batch_exists [OF assms(4), of "k + 1" us] by blast
  ultimately show thesis using that by blast
qed

lemma record_inv_up:
  assumes "record_inv us n m failed wp l" "lk_up l \<noteq> []" "\<not> lk_gone l"
  shows "wp_state wp = WS_WAITING_RESULT" "wp_batch wp = lk_recorded l" "lk_recorded l * n < length us"
    "lk_up l = [frame_of n (batch_results us n (lk_recorded l) (lk_log l))]" "length (lk_log l) = lk_recorded l + 1"
    "pages_ok us n m l" "ss_scheduled (lk_session l) = 0" "ss_runner (lk_session l) = R_Idle" "lk_down l = []"
    "ss_finished (lk_session l) \<or> ss_state (lk_session l) = SS_WAITING_DECISION"
    "wp_gated wp = pad_hits (length us) (map fst (results us n (take (lk_recorded l) (lk_log l))))"
    "wp_non_gated wp = pad_hits (length us) (map snd (results us n (take (lk_recorded l) (lk_log l))))"
  using assms by (cases "wp_state wp"; auto simp: record_inv_def waiting_inv_def stopped_inv_def Let_def)+

text \<open>A run's results and links at one worker: what a step of the engine may change.\<close>

definition result_frame :: "nat \<Rightarrow> prefetch_result \<Rightarrow> worker_progress \<Rightarrow> prefetch_result \<Rightarrow> bool" where
  "result_frame w r wp r' \<longleftrightarrow> pf_workers r' = (pf_workers r)[w := wp] \<and> pf_request r' = pf_request r
     \<and> pf_batch_size r' = pf_batch_size r \<and> (pf_failed r \<longrightarrow> pf_failed r')"

lemma inv_result:
  assumes inv: "link_inv us n m (pf_failed r) (pf_workers r ! w) l" and w: "w < length (pf_workers r)"
    and r: "pf_request r = us" "pf_batch_size r = n" "0 < n" and en: "event_enabled (Pe_Result e c ok) l"
  obtains r' l' wp where "receive_result w e c ok r l = Some (r', l')" "result_frame w r wp r'" "pf_remaining r' = pf_remaining r"
    "link_inv us n m (pf_failed r') wp l'" "wp_state wp \<noteq> WS_ENDED" "wp_state (pf_workers r ! w) \<noteq> WS_ENDED"
    "ok \<longrightarrow> pf_failed r' = pf_failed r"
proof -
  let ?k = "lk_recorded l" and ?lg = "lk_log l" and ?s = "lk_session l" and ?wp = "pf_workers r ! w"
  let ?rs = "batch_results us n ?k ?lg"
  have sinv: "session_inv us n m l" and rinv: "record_inv us n m (pf_failed r) ?wp l" using inv by (simp_all add: link_inv_def)
  have gone: "lk_up l \<noteq> []" "\<not> lk_gone l" using en by auto
  note up = record_inv_up [OF rinv gone]
  have log: "log_ok us n ?lg" using sinv by (simp add: session_inv_def Let_def)
  obtain go x y where step: "record_batch_result w (pad_hits n (map fst ?rs)) (pad_hits n (map snd ?rs)) e c r =
       Some (Some (if go then PC_CONTINUE else PC_STOP), r\<lparr>pf_continue := x, pf_stop := y, pf_workers := (pf_workers r)[w :=
         \<lparr>wp_batch = (if go then ?k + 1 else ?k), wp_state = (if go then WS_WAITING_RESULT else WS_WAITING_CLOSE),
          wp_gated = pad_hits (length us) (map fst (results us n ?lg)),
          wp_non_gated = pad_hits (length us) (map snd (results us n ?lg))\<rparr>]\<rparr>)"
    and go: "go \<longrightarrow> list_all fst ?rs \<and> (?k + 1) * n < length us"
    using record_frame [OF w r(1,2,3) refl up(1,2,3,11,12) log up(5), of e c] by metis
  let ?wp' = "\<lparr>wp_batch = (if go then ?k + 1 else ?k), wp_state = (if go then WS_WAITING_RESULT else WS_WAITING_CLOSE),
      wp_gated = pad_hits (length us) (map fst (results us n ?lg)), wp_non_gated = pad_hits (length us) (map snd (results us n ?lg))\<rparr>"
  let ?r1 = "r\<lparr>pf_continue := x, pf_stop := y, pf_workers := (pf_workers r)[w := ?wp']\<rparr>"
  let ?l1 = "l\<lparr>lk_up := [], lk_recorded := ?k + 1\<rparr>"
  have len: "length ?rs \<le> n" by (simp add: length_batch_results)
  have eq: "receive_result w e c ok r l = Some (if ok then (?r1, ?l1\<lparr>lk_down := [[if go then continue_byte else stop_byte]]\<rparr>)
      else (mark_worker_failed ?r1, ?l1\<lparr>lk_shut := True\<rparr>))"
    using up(4,9) r step len by (simp add: receive_result_def frame_of_def control_byte_def Let_def)
  have shut: "lk_shut l \<longrightarrow> pf_failed r" using rinv by (simp add: record_inv_def Let_def)
  have gate: "\<not> ss_finished ?s \<Longrightarrow> ss_gate_complete ?s = list_all fst ?rs"
    using sinv up by (auto simp: session_inv_def live_inv_def Let_def)
  show thesis
  proof (cases ok)
    case True
    have "link_inv us n m (pf_failed r) ?wp' (?l1\<lparr>lk_down := [[if go then continue_byte else stop_byte]]\<rparr>)"
      using sinv shut up go gate log gone
      by (cases go; cases "ss_finished ?s")
         (simp_all add: link_inv_def session_inv_def live_inv_def record_inv_def waiting_inv_def stopped_inv_def pages_ok_def Let_def)
    then show thesis using that [of _ _ ?wp'] eq True up(1) by (simp add: result_frame_def)
  next
    case False
    have "link_inv us n m True ?wp' (?l1\<lparr>lk_shut := True\<rparr>)"
      using sinv shut up go gate log gone
      by (cases go; cases "ss_finished ?s")
         (simp_all add: link_inv_def session_inv_def live_inv_def record_inv_def waiting_inv_def stopped_inv_def pages_ok_def Let_def)
    then show thesis using that [of _ _ ?wp'] eq False up(1) by (simp add: result_frame_def mark_worker_failed_def)
  qed
qed

text \<open>The end of a stream.\<close>

lemma inv_ended:
  assumes inv: "link_inv us n m (pf_failed r) (pf_workers r ! w) l" and w: "w < length (pf_workers r)"
    and "wp_state (pf_workers r ! w) \<noteq> WS_ENDED" "0 < pf_remaining r" "lk_shut l' \<longrightarrow> lk_shut l \<or> pf_failed r"
    "l' = l\<lparr>lk_gone := True, lk_shut := lk_shut l'\<rparr>"
  obtains r' wp where "mark_worker_ended w r = Some (if pf_remaining r = 1 then Some (summarize r') else None, r')"
    "result_frame w r wp r'" "pf_remaining r' = pf_remaining r - 1" "link_inv us n m (pf_failed r') wp l'" "wp_state wp = WS_ENDED"
    "wp_state (pf_workers r ! w) = WS_WAITING_CLOSE \<longrightarrow> pf_failed r' = pf_failed r"
proof -
  let ?wp = "pf_workers r ! w"
  let ?wp' = "?wp\<lparr>wp_state := WS_ENDED\<rparr>"
  let ?r' = "(if wp_state ?wp \<noteq> WS_WAITING_CLOSE then mark_worker_failed r else r)
      \<lparr>pf_workers := (pf_workers r)[w := ?wp'], pf_remaining := pf_remaining r - 1\<rparr>"
  have eq: "mark_worker_ended w r = Some (if pf_remaining r = 1 then Some (summarize ?r') else None, ?r')"
    using w assms(3,4) by (auto simp: mark_worker_ended_def Let_def mark_worker_failed_def)
  have "link_inv us n m (pf_failed ?r') ?wp' (l\<lparr>lk_gone := True, lk_shut := lk_shut l'\<rparr>)"
    using inv assms(3,5)
    by (cases "wp_state ?wp"; cases "pf_failed r") (simp_all add: link_inv_defs mark_worker_failed_def)
  then have "link_inv us n m (pf_failed ?r') ?wp' l'" using assms(6) by simp
  then show thesis using that [of ?r' ?wp'] eq by (simp add: result_frame_def mark_worker_failed_def)
qed

section \<open>All workers\<close>

definition awaited :: "prefetch_result \<Rightarrow> nat" where
  "awaited r = length (filter (\<lambda>wp. wp_state wp \<noteq> WS_ENDED) (pf_workers r))"

definition run_inv :: "prefetch_request \<Rightarrow> nat \<Rightarrow> ((block_type \<times> int) \<Rightarrow> hash_key option) list \<Rightarrow> prefetch_run \<Rightarrow> bool" where
  "run_inv us n ms p \<longleftrightarrow>
    (let r = pr_result p in
     us \<noteq> [] \<and> 0 < n \<and> length (pf_workers r) = length ms \<and> length (pr_links p) = length ms \<and> pf_request r = us \<and> pf_batch_size r = n
     \<and> (\<forall>w<length ms. link_inv us n (ms ! w) (pf_failed r) (pf_workers r ! w) (pr_links p ! w))
     \<and> pf_remaining r = awaited r \<and> pr_delivered p = (if awaited r = 0 then [summarize r] else []))"

lemma run_inv_start:
  assumes "create_prefetch_run us n timeout ms = Some p"
  shows "run_inv us n ms p"
proof -
  have "filter (\<lambda>wp. wp_state wp \<noteq> WS_ENDED) (replicate k \<lparr>wp_batch = 0, wp_state = WS_WAITING_RESULT, wp_gated = g, wp_non_gated = h\<rparr>)
      = replicate k \<lparr>wp_batch = 0, wp_state = WS_WAITING_RESULT, wp_gated = g, wp_non_gated = h\<rparr>" for k g h
    by simp
  then show ?thesis
    using assms
    by (auto simp: create_prefetch_run_def create_prefetch_result_def create_session_def request_valid_def run_inv_def awaited_def
        new_link_def link_inv_defs pad_hits_def Let_def split: option.splits if_splits)
qed

lemma awaited_update:
  assumes "w < length (pf_workers r)" "result_frame w r wp r'"
  shows "awaited r + (if wp_state wp \<noteq> WS_ENDED then 1 else 0) = awaited r' + (if wp_state (pf_workers r ! w) \<noteq> WS_ENDED then 1 else 0)"
proof -
  let ?f = "filter (\<lambda>wp. wp_state wp \<noteq> WS_ENDED)" and ?ws = "pf_workers r"
  have "?ws = take w ?ws @ ?ws ! w # drop (Suc w) ?ws" "pf_workers r' = take w ?ws @ wp # drop (Suc w) ?ws"
    using assms by (simp_all add: id_take_nth_drop upd_conv_take_nth_drop result_frame_def)
  then have "awaited r = length (?f (take w ?ws @ ?ws ! w # drop (Suc w) ?ws))" "awaited r' = length (?f (take w ?ws @ wp # drop (Suc w) ?ws))"
    by (simp_all add: awaited_def)
  then show ?thesis by simp
qed

text \<open>A step of one link, and a step of a worker that has not ended.\<close>

lemma run_inv_link:
  assumes "run_inv us n ms p" "w < length ms" "link_inv us n (ms ! w) (pf_failed (pr_result p)) (pf_workers (pr_result p) ! w) l"
  shows "run_inv us n ms (p\<lparr>pr_links := (pr_links p)[w := l]\<rparr>)"
  using assms by (auto simp: run_inv_def nth_list_update Let_def)

lemma run_inv_worker:
  assumes "run_inv us n ms p" "w < length ms" "result_frame w (pr_result p) wp r'" "wp_state (pf_workers (pr_result p) ! w) \<noteq> WS_ENDED"
    "link_inv us n (ms ! w) (pf_failed r') wp l" "pf_remaining r' = awaited r'"
    "d = (if awaited r' = 0 then [summarize r'] else [])"
  shows "run_inv us n ms \<lparr>pr_result = r', pr_links = (pr_links p)[w := l], pr_delivered = pr_delivered p @ d\<rparr>"
proof -
  have "awaited (pr_result p) \<noteq> 0"
    using assms(1,2,4) by (auto simp: run_inv_def awaited_def filter_empty_conv Let_def)
  then have "pr_delivered p = []" using assms(1) by (simp add: run_inv_def Let_def)
  moreover have "link_inv us n (ms ! v) (pf_failed r') (pf_workers r' ! v) (((pr_links p)[w := l]) ! v)" if "v < length ms" for v
  proof (cases "v = w")
    case True
    then show ?thesis using assms(1-3,5) by (simp add: run_inv_def result_frame_def Let_def)
  next
    case False
    then have "link_inv us n (ms ! v) (pf_failed (pr_result p)) (pf_workers r' ! v) (pr_links p ! v)"
      using assms(1,3) that by (simp add: run_inv_def result_frame_def Let_def)
    then show ?thesis using link_inv_failed assms(3) False
      by (cases "pf_failed (pr_result p)"; cases "pf_failed r'") (simp_all add: result_frame_def)
  qed
  ultimately show ?thesis using assms(1,3,6,7) by (auto simp: run_inv_def result_frame_def Let_def)
qed

lemma run_inv_ended:
  assumes inv: "run_inv us n ms p" and w: "w < length ms" and r: "r = pr_result p \<or> r = mark_worker_failed (pr_result p)"
    and gone: "\<not> lk_gone (pr_links p ! w)" and l': "l' = (pr_links p ! w)\<lparr>lk_gone := True, lk_shut := b\<rparr>"
    "b \<longrightarrow> lk_shut (pr_links p ! w) \<or> pf_failed r"
  shows "\<exists>d r'. mark_worker_ended w r = Some (d, r')
    \<and> run_inv us n ms \<lparr>pr_result = r', pr_links = (pr_links p)[w := l'],
        pr_delivered = (case d of None \<Rightarrow> pr_delivered p | Some sm \<Rightarrow> pr_delivered p @ [sm])\<rparr>"
proof -
  let ?r = "pr_result p" and ?l = "pr_links p ! w" and ?wp = "pf_workers (pr_result p) ! w"
  have old: "link_inv us n (ms ! w) (pf_failed ?r) ?wp ?l" "length (pf_workers ?r) = length ms" "pf_remaining ?r = awaited ?r"
    using inv w by (auto simp: run_inv_def Let_def)
  have same: "pf_workers r = pf_workers ?r" "pf_remaining r = pf_remaining ?r" "pf_request r = pf_request ?r"
    "pf_batch_size r = pf_batch_size ?r" "pf_failed ?r \<longrightarrow> pf_failed r"
    using r by (auto simp: mark_worker_failed_def)
  have now: "link_inv us n (ms ! w) (pf_failed r) (pf_workers r ! w) ?l"
    using old(1) same link_inv_failed by (cases "pf_failed ?r"; cases "pf_failed r") auto
  have ne: "wp_state ?wp \<noteq> WS_ENDED" using old(1) gone by (auto simp: link_inv_def record_inv_def Let_def)
  have "?wp \<in> set (filter (\<lambda>wp. wp_state wp \<noteq> WS_ENDED) (pf_workers ?r))" using ne old(2) w by simp
  then have pos: "0 < awaited ?r" by (metis awaited_def length_pos_if_in_set)
  have pre: "w < length (pf_workers r)" "wp_state (pf_workers r ! w) \<noteq> WS_ENDED" "0 < pf_remaining r"
    "lk_shut l' \<longrightarrow> lk_shut ?l \<or> pf_failed r" "l' = ?l\<lparr>lk_gone := True, lk_shut := lk_shut l'\<rparr>"
    using same ne old(2,3) pos w l' by simp_all
  obtain r' wp where e: "mark_worker_ended w r = Some (if pf_remaining r = 1 then Some (summarize r') else None, r')"
    "result_frame w r wp r'" "pf_remaining r' = pf_remaining r - 1" "link_inv us n (ms ! w) (pf_failed r') wp l'" "wp_state wp = WS_ENDED"
    using inv_ended [OF now pre] by blast
  have rf: "result_frame w ?r wp r'" using e(2) same by (auto simp: result_frame_def)
  have aw: "awaited ?r = awaited r' + 1" using awaited_update [OF _ rf] old(2) w ne e(5) by simp
  have "run_inv us n ms \<lparr>pr_result = r', pr_links = (pr_links p)[w := l'],
      pr_delivered = pr_delivered p @ (if awaited r' = 0 then [summarize r'] else [])\<rparr>"
    using run_inv_worker [OF inv w rf ne e(4) _ refl] e(3) same old(3) aw by simp
  then show ?thesis using e(1) same(2) old(3) aw by (cases "awaited r' = 0") auto
qed

lemma run_inv_engine_fails:
  assumes "run_inv us n ms p" "w < length ms" "\<not> lk_gone (pr_links p ! w)"
  shows "run_inv us n ms (p\<lparr>pr_result := mark_worker_failed (pr_result p), pr_links := (pr_links p)[w := (pr_links p ! w)\<lparr>lk_shut := b\<rparr>]\<rparr>)"
proof -
  let ?r = "pr_result p" and ?l = "pr_links p ! w" and ?wp = "pf_workers (pr_result p) ! w"
  have old: "link_inv us n (ms ! w) (pf_failed ?r) ?wp ?l" "w < length (pf_workers ?r)" "pf_remaining ?r = awaited ?r"
    using assms(1,2) by (auto simp: run_inv_def Let_def)
  have ne: "wp_state ?wp \<noteq> WS_ENDED" using old(1) assms(3) by (auto simp: link_inv_def record_inv_def Let_def)
  have new: "link_inv us n (ms ! w) True ?wp (?l\<lparr>lk_shut := b\<rparr>)"
    using link_inv_failed [OF old(1)] by (cases "wp_state ?wp") (simp_all add: link_inv_defs)
  have rf: "result_frame w ?r ?wp (mark_worker_failed ?r)" using old(2) by (simp add: result_frame_def mark_worker_failed_def)
  have aw: "awaited (mark_worker_failed ?r) = awaited ?r" by (simp add: awaited_def mark_worker_failed_def)
  have "?wp \<in> set (filter (\<lambda>wp. wp_state wp \<noteq> WS_ENDED) (pf_workers ?r))" using ne old(2) by simp
  then have pos: "0 < awaited ?r" by (metis awaited_def length_pos_if_in_set)
  have "run_inv us n ms \<lparr>pr_result = mark_worker_failed ?r, pr_links = (pr_links p)[w := ?l\<lparr>lk_shut := b\<rparr>], pr_delivered = pr_delivered p @ []\<rparr>"
    using run_inv_worker [OF assms(1,2) rf ne, of "?l\<lparr>lk_shut := b\<rparr>" "[]"] new old(3) aw pos by (simp add: mark_worker_failed_def)
  then show ?thesis by (cases p) simp
qed

text \<open>No \<open>CHECK\<close> fails, whatever happens.\<close>

lemma run_inv_step:
  assumes inv: "run_inv us n ms p" and en: "run_enabled e p"
  shows "\<exists>p'. run_step e p = Some p' \<and> run_inv us n ms p'"
proof -
  obtain w ev where e: "e = (w, ev)" by fastforce
  let ?r = "pr_result p" and ?l = "pr_links p ! w" and ?wp = "pf_workers (pr_result p) ! w"
  have w: "w < length ms" and ev: "event_enabled ev ?l" using inv en by (auto simp: run_enabled_def e run_inv_def Let_def)
  have old: "link_inv us n (ms ! w) (pf_failed ?r) ?wp ?l" "w < length (pf_workers ?r)" "0 < n" "us \<noteq> []"
    "pf_request ?r = us" "pf_batch_size ?r = n" "pf_remaining ?r = awaited ?r"
    using inv w by (auto simp: run_inv_def Let_def)
  have local': "\<exists>p'. run_step e p = Some p' \<and> run_inv us n ms p'"
    if "link_step ev w ?r ?l = Some (None, ?r, l')" "link_inv us n (ms ! w) (pf_failed ?r) ?wp l'" for l'
    using run_inv_link [OF inv w that(2)] that(1) by (cases p) (simp add: run_step_def e)
  have shut: "\<exists>p'. run_step e p = Some p' \<and> run_inv us n ms p'"
    if "link_step ev w ?r ?l = Some (None, mark_worker_failed ?r, ?l\<lparr>lk_shut := b\<rparr>)" "\<not> lk_gone ?l" for b
    using run_inv_engine_fails [OF inv w that(2), of b] that(1) by (cases p) (simp add: run_step_def e)
  have ended: "\<exists>p'. run_step e p = Some p' \<and> run_inv us n ms p'"
    if "link_step ev w ?r ?l = map_option (\<lambda>(d, r'). (d, r', ?l\<lparr>lk_gone := True, lk_shut := b\<rparr>)) (mark_worker_ended w r)"
      "r = ?r \<or> r = mark_worker_failed ?r" "\<not> lk_gone ?l" "b \<longrightarrow> lk_shut ?l \<or> pf_failed r" for r b
    using run_inv_ended [OF inv w that(2,3) refl that(4)] that(1) by (auto simp: run_step_def e)
  show ?thesis
  proof (cases ev)
    case Pe_Start
    then show ?thesis using local' inv_start [OF old(1,4)] ev by simp
  next
    case Pe_Run
    then show ?thesis using local' inv_run [OF old(1)] ev by simp
  next
    case (Pe_Get hits)
    then show ?thesis using local' inv_get [OF old(1,3), of hits] ev by auto
  next
    case Pe_Write
    then show ?thesis using local' inv_write [OF old(1)] ev by simp
  next
    case Pe_Write_Fails
    then show ?thesis using local' inv_write_fails [OF old(1)] ev by simp
  next
    case Pe_Finish
    then obtain f where f: "ss_runner (lk_session ?l) = R_Finishing f" using ev by (cases "ss_runner (lk_session ?l)") auto
    then show ?thesis using local' inv_finish [OF old(1) f] Pe_Finish by (simp add: with_session_def)
  next
    case (Pe_Result el c ok)
    obtain r' l' wp where q: "receive_result w el c ok ?r ?l = Some (r', l')" "result_frame w ?r wp r'" "pf_remaining r' = pf_remaining ?r"
      "link_inv us n (ms ! w) (pf_failed r') wp l'" "wp_state wp \<noteq> WS_ENDED" "wp_state ?wp \<noteq> WS_ENDED"
      using inv_result [OF old(1,2,5,6,3), of el c ok] ev Pe_Result by blast
    have aw: "awaited r' = awaited ?r" using awaited_update [OF old(2) q(2)] q(5,6) by simp
    have "?wp \<in> set (filter (\<lambda>wp. wp_state wp \<noteq> WS_ENDED) (pf_workers ?r))" using q(6) old(2) by simp
    then have pos: "0 < awaited ?r" by (metis awaited_def length_pos_if_in_set)
    have "run_inv us n ms \<lparr>pr_result = r', pr_links = (pr_links p)[w := l'], pr_delivered = pr_delivered p @ []\<rparr>"
      using run_inv_worker [OF inv w q(2,6,4), of "[]"] q(3) old(7) aw pos by simp
    then show ?thesis using q(1) Pe_Result by (simp add: run_step_def e)
  next
    case Pe_Control
    then show ?thesis using local' inv_control [OF old(1,3)] ev by auto
  next
    case Pe_Closed
    have "?l\<lparr>lk_gone := True\<rparr> = ?l\<lparr>lk_gone := True, lk_shut := lk_shut ?l\<rparr>" by simp
    then show ?thesis using ended [of "lk_shut ?l" ?r] ev Pe_Closed by auto
  next
    case Pe_Worker_Closed
    then show ?thesis using local' inv_worker_closed [OF old(1)] by simp
  next
    case Pe_Session_Fails
    then show ?thesis using local' inv_fail [OF old(1)] by simp
  next
    case Pe_Engine_Shuts
    then show ?thesis using shut [of True] ev by simp
  next
    case Pe_Engine_Fails
    then show ?thesis using shut [of "lk_shut ?l"] ev by simp
  next
    case Pe_Refused
    then show ?thesis using ended [of True "mark_worker_failed ?r"] ev by (simp add: mark_worker_failed_def)
  qed
qed

lemma run_inv_events:
  assumes "run_inv us n ms p" "events_enabled es p"
  shows "\<exists>p'. run_events es p = Some p' \<and> run_inv us n ms p'"
  using assms
proof (induction es arbitrary: p)
  case Nil
  then show ?case by simp
next
  case (Cons e es)
  obtain p' where "run_step e p = Some p'" "run_inv us n ms p'" using run_inv_step [OF Cons.prems(1), of e] Cons.prems(2) by auto
  then show ?case using Cons by simp
qed

end
