(* ===== verification/Prefetch_Properties.thy ===== *)
theory Prefetch_Properties imports Prefetch_Run begin

text \<open>
  What a fetch gives: the blocks that its summary counts for all workers are in the pages of all workers, nothing is written behind
  its end, the checkpoint of the recurrent state that is kept was not overwritten, and it comes to an end.
\<close>

section \<open>Pages and hits\<close>

definition page_of :: "transfer \<Rightarrow> block_type \<times> int" where
  "page_of t = (tf_type t, tf_dst t)"

text \<open>The transfers that hit, in order.\<close>

fun hit_transfers :: "transfer list \<Rightarrow> u8 list \<Rightarrow> transfer list" where
  "hit_transfers (t # ts) (h # hs) = (if h \<noteq> 0 then t # hit_transfers ts hs else hit_transfers ts hs)"
| "hit_transfers _ _ = []"

lemma store_hits_fold: "store_hits ts hs m = fold (\<lambda>t m. m(page_of t := Some (tf_hash t))) (hit_transfers ts hs) m"
  by (induction ts hs m rule: store_hits.induct) (auto simp: page_of_def)

lemma hit_transfers_append: "length hs = length ts \<Longrightarrow> hit_transfers (ts @ ts') (hs @ hs') = hit_transfers ts hs @ hit_transfers ts' hs'"
  by (induction ts hs rule: hit_transfers.induct) auto

lemma set_hit_transfers: "set (hit_transfers ts hs) \<subseteq> set ts"
  by (induction ts hs rule: hit_transfers.induct) auto

lemma hit_transfers_all: "list_all (\<lambda>h. h \<noteq> 0) hs \<Longrightarrow> length hs = length ts \<Longrightarrow> hit_transfers ts hs = ts"
  by (induction ts hs rule: hit_transfers.induct) auto

lemma fold_other: "page \<notin> page_of ` set ts \<Longrightarrow> fold (\<lambda>t m. m(page_of t := Some (tf_hash t))) ts m page = m page"
  by (induction ts arbitrary: m) auto

lemma fold_last:
  "page_of t = page \<Longrightarrow> page \<notin> page_of ` set ys \<Longrightarrow> fold (\<lambda>t m. m(page_of t := Some (tf_hash t))) (xs @ t # ys) m page = Some (tf_hash t)"
  by (simp add: fold_other)

lemma fold_same:
  assumes "t \<in> set ts" "\<forall>t'\<in>set ts. page_of t' = page_of t \<longrightarrow> tf_hash t' = tf_hash t"
  shows "fold (\<lambda>t m. m(page_of t := Some (tf_hash t))) ts m (page_of t) = Some (tf_hash t)"
proof -
  obtain xs x ys where x: "ts = xs @ x # ys" "page_of x = page_of t" "\<forall>y\<in>set ys. page_of y \<noteq> page_of t"
    using split_list_last_prop [of ts "\<lambda>x. page_of x = page_of t"] assms(1) by blast
  have "tf_hash x = tf_hash t" using assms(2) x(1,2) by simp
  moreover have "page_of t \<notin> page_of ` set ys" using x(3) by auto
  ultimately show ?thesis using fold_last [OF x(2), of ys xs m] x(1) by simp
qed

text \<open>A unit in the middle of what was fetched.\<close>

lemma unit_hits:
  assumes "length hs = length (batch_transfers us)" "u < length us"
  obtains h1 hg hn h2 where "hs = h1 @ hg @ hn @ h2" "length h1 = length (batch_transfers (take u us))"
    "length hg = length (gated_blocks (us ! u))" "length hn = length (non_gated_blocks (us ! u))"
    "length h2 = length (batch_transfers (drop (Suc u) us))"
    "fst (unit_results us hs ! u) = list_all (\<lambda>h. h \<noteq> 0) hg"
    "has_non_gated (us ! u) \<Longrightarrow> snd (unit_results us hs ! u) = (non_gated_blocks (us ! u) \<noteq> [] \<and> list_all (\<lambda>h. h \<noteq> 0) hn)"
    "unit_results us hs = unit_results (take u us) h1 @ unit_results (us ! u # drop (Suc u) us) (hg @ hn @ h2)"
proof -
  let ?x = "us ! u" and ?a = "length (batch_transfers (take u us))"
  let ?g = "length (gated_blocks ?x)" and ?n = "length (non_gated_blocks ?x)"
  have us: "us = take u us @ ?x # drop (Suc u) us" using assms(2) by (rule id_take_nth_drop)
  have len: "length hs = ?a + (?g + ?n + length (batch_transfers (drop (Suc u) us)))"
  proof -
    have "batch_transfers us = batch_transfers (take u us) @ unit_transfers ?x @ batch_transfers (drop (Suc u) us)"
      by (metis us batch_transfers_append batch_transfers_Cons)
    then show ?thesis by (simp add: assms(1) length_unit_transfers)
  qed
  let ?h1 = "take ?a hs" and ?hg = "take ?g (drop ?a hs)" and ?hn = "take ?n (drop ?g (drop ?a hs))" and ?h2 = "drop ?n (drop ?g (drop ?a hs))"
  have hs: "hs = ?h1 @ ?hg @ ?hn @ ?h2" by (metis append_take_drop_id)
  have l: "length ?h1 = ?a" "length ?hg = ?g" "length ?hn = ?n" "length ?h2 = length (batch_transfers (drop (Suc u) us))"
    using len by auto
  have res: "unit_results us hs = unit_results (take u us) ?h1 @ unit_results (?x # drop (Suc u) us) (?hg @ ?hn @ ?h2)"
    using unit_results_append [OF l(1), of "?x # drop (Suc u) us" "?hg @ ?hn @ ?h2"] us hs by metis
  have "length (unit_results (take u us) ?h1) = u" using assms(2) by simp
  then have nth: "unit_results us hs ! u = unit_results (?x # drop (Suc u) us) (?hg @ ?hn @ ?h2) ! 0"
    by (simp only: res nth_append) simp
  have head: "take ?g (?hg @ ?hn @ ?h2) = ?hg" "take ?n (drop ?g (?hg @ ?hn @ ?h2)) = ?hn" using l by auto
  have "fst (unit_results us hs ! u) = list_all (\<lambda>h. h \<noteq> 0) ?hg"
    unfolding nth unit_results.simps Let_def head by simp
  moreover have "has_non_gated ?x \<Longrightarrow> snd (unit_results us hs ! u) = (non_gated_blocks ?x \<noteq> [] \<and> list_all (\<lambda>h. h \<noteq> 0) ?hn)"
    unfolding nth unit_results.simps Let_def head by simp
  ultimately show thesis using that [OF hs l] res by blast
qed

text \<open>The hits around a unit whose gated blocks are all there.\<close>

lemma gated_hit:
  assumes "length hs = length (batch_transfers us)" "u < length us" "fst (unit_results us hs ! u)" "t \<in> set (gated_blocks (us ! u))"
  shows "t \<in> set (hit_transfers (batch_transfers us) hs)"
proof -
  obtain h1 hg hn h2 where h: "hs = h1 @ hg @ hn @ h2" "length h1 = length (batch_transfers (take u us))"
    "length hg = length (gated_blocks (us ! u))" "length hn = length (non_gated_blocks (us ! u))"
    "fst (unit_results us hs ! u) = list_all (\<lambda>h. h \<noteq> 0) hg"
    using unit_hits [OF assms(1,2)] by metis
  have us: "batch_transfers us = batch_transfers (take u us) @ gated_blocks (us ! u) @ non_gated_blocks (us ! u) @ batch_transfers (drop (Suc u) us)"
    by (metis append_assoc assms(2) batch_transfers_Cons batch_transfers_append id_take_nth_drop unit_transfers_def)
  have "hit_transfers (gated_blocks (us ! u)) hg = gated_blocks (us ! u)" using h assms(3) by (simp add: hit_transfers_all)
  then show ?thesis using assms(4) h by (simp add: us hit_transfers_append)
qed

section \<open>Counts\<close>

lemma sum_of_bits:
  assumes "\<forall>wp\<in>set ws. get wp ! u = (if P wp then 1 else 0)"
  shows "fold (\<lambda>wp k. k + get wp ! u) ws (of_nat c :: u8) = of_nat (c + length (filter P ws))"
  using assms
proof (induction ws arbitrary: c)
  case Nil
  then show ?case by simp
next
  case (Cons wp ws)
  have "(of_nat c :: u8) + (if P wp then 1 else 0) = of_nat (c + (if P wp then 1 else 0))" by simp
  then show ?case using Cons.IH [of "c + (if P wp then 1 else 0)"] Cons.prems by (auto simp: add.assoc)
qed

lemma of_nat_u8_inj: "a < 256 \<Longrightarrow> b < 256 \<Longrightarrow> (of_nat a :: u8) = of_nat b \<longleftrightarrow> a = b"
  by (simp add: word_of_nat_eq_iff take_bit_nat_eq_self)

text \<open>What a worker reported of a unit: its gated blocks, and its optional ones.\<close>

definition obtained :: "prefetch_request \<Rightarrow> nat \<Rightarrow> ((bool \<times> bool) \<Rightarrow> bool) \<Rightarrow> nat \<Rightarrow> link \<Rightarrow> bool" where
  "obtained us n get u l \<longleftrightarrow> u < length (results us n (lk_log l)) \<and> get (results us n (lk_log l) ! u)"

lemma run_ended:
  assumes inv: "run_inv us n ms p" and sm: "pr_delivered p = [sm]" "sm_rank_count sm \<noteq> 0"
  shows "sm = summarize (pr_result p)" "sm_rank_count sm = of_nat (length ms)"
    "sm_gated sm = sum_hits wp_gated (pf_workers (pr_result p)) (length us)"
    "sm_non_gated sm = sum_hits wp_non_gated (pf_workers (pr_result p)) (length us)"
    "w < length ms \<Longrightarrow> lk_gone (pr_links p ! w) \<and> stopped_inv us n (ms ! w) False (pr_links p ! w) \<and> log_ok us n (lk_log (pr_links p ! w))"
    "w < length ms \<Longrightarrow> session_inv us n (ms ! w) (pr_links p ! w)"
    "w < length ms \<Longrightarrow> wp_gated (pf_workers (pr_result p) ! w) = pad_hits (length us) (map fst (results us n (lk_log (pr_links p ! w))))"
    "w < length ms \<Longrightarrow> wp_non_gated (pf_workers (pr_result p) ! w) = pad_hits (length us) (map snd (results us n (lk_log (pr_links p ! w))))"
proof -
  let ?r = "pr_result p"
  have zero: "awaited ?r = 0" and eq: "sm = summarize ?r" using inv sm(1) by (auto simp: run_inv_def Let_def split: if_splits)
  then have nf: "\<not> pf_failed ?r" using sm(2) by (auto simp: summarize_def)
  have req: "pf_request ?r = us" "length (pf_workers ?r) = length ms" using inv by (auto simp: run_inv_def Let_def)
  show "sm = summarize ?r" by (rule eq)
  show "sm_rank_count sm = of_nat (length ms)" "sm_gated sm = sum_hits wp_gated (pf_workers ?r) (length us)"
    "sm_non_gated sm = sum_hits wp_non_gated (pf_workers ?r) (length us)"
    using nf req by (simp_all add: eq summarize_def)
  assume w: "w < length ms"
  then have "wp_state (pf_workers ?r ! w) = WS_ENDED" using zero req(2) by (auto simp: awaited_def filter_empty_conv)
  moreover have link: "link_inv us n (ms ! w) False (pf_workers ?r ! w) (pr_links p ! w)" using inv w nf by (auto simp: run_inv_def Let_def)
  ultimately have rec: "lk_gone (pr_links p ! w) \<and> stopped_inv us n (ms ! w) False (pr_links p ! w)"
    "wp_gated (pf_workers ?r ! w) = pad_hits (length us) (map fst (results us n (take (lk_recorded (pr_links p ! w)) (lk_log (pr_links p ! w)))))"
    "wp_non_gated (pf_workers ?r ! w) = pad_hits (length us) (map snd (results us n (take (lk_recorded (pr_links p ! w)) (lk_log (pr_links p ! w)))))"
    by (simp_all add: link_inv_def record_inv_def Let_def)
  moreover have "length (lk_log (pr_links p ! w)) = lk_recorded (pr_links p ! w)" using rec(1) by (simp add: stopped_inv_def Let_def)
  moreover show "session_inv us n (ms ! w) (pr_links p ! w)" using link by (simp add: link_inv_def)
  ultimately show "lk_gone (pr_links p ! w) \<and> stopped_inv us n (ms ! w) False (pr_links p ! w) \<and> log_ok us n (lk_log (pr_links p ! w))"
    "wp_gated (pf_workers ?r ! w) = pad_hits (length us) (map fst (results us n (lk_log (pr_links p ! w))))"
    "wp_non_gated (pf_workers ?r ! w) = pad_hits (length us) (map snd (results us n (lk_log (pr_links p ! w))))"
    by (simp_all add: session_inv_def Let_def)
qed

lemma pad_hits_nth: "u < n \<Longrightarrow> length bs \<le> n \<Longrightarrow> pad_hits n bs ! u = (if u < length bs \<and> bs ! u then 1 else 0)"
  by (simp add: pad_hits_def nth_append)

text \<open>A count is the number of the workers that reported the unit.\<close>

lemma sum_hits_count:
  assumes "length ws = length ls" "u < length us"
    "\<forall>w<length ls. get (ws ! w) = pad_hits (length us) (map f (results us n (lk_log (ls ! w))))"
  shows "sum_hits get ws (length us) ! u = of_nat (length (filter (obtained us n f u) ls))"
proof -
  have "length (results us n lg) \<le> length us" for lg by (simp add: length_results)
  then have nth: "\<forall>w<length ls. get (ws ! w) ! u = (if obtained us n f u (ls ! w) then 1 else 0)"
    using assms(2,3) by (auto simp: pad_hits_nth obtained_def)
  have "\<forall>w<length ls. get (ws ! w) ! u = (if obtained us n f u (ls ! w) then 1 else 0) \<Longrightarrow> length ws = length ls \<Longrightarrow>
      fold (\<lambda>wp k. k + get wp ! u) ws (of_nat c :: u8) = of_nat (c + length (filter (obtained us n f u) ls))" for c
  proof (induction ls arbitrary: ws c)
    case Nil
    then show ?case by simp
  next
    case (Cons l ls)
    obtain wp ws' where ws: "ws = wp # ws'" using Cons.prems(2) by (cases ws) auto
    have rest: "\<forall>w<length ls. get (ws' ! w) ! u = (if obtained us n f u (ls ! w) then 1 else 0)" "length ws' = length ls"
      using Cons.prems ws by fastforce+
    have "get wp ! u = (if obtained us n f u l then 1 else 0)" using Cons.prems(1) ws by fastforce
    then have "(of_nat c :: u8) + get wp ! u = of_nat (c + (if obtained us n f u l then 1 else 0))" by simp
    then show ?case using Cons.IH [OF rest, of "c + (if obtained us n f u l then 1 else 0)"] ws by simp
  qed
  from this [of 0] show ?thesis using nth assms(1,2) by (simp add: sum_hits_def)
qed

lemma counts_exact:
  assumes inv: "run_inv us n ms p" and sm: "pr_delivered p = [sm]" "sm_rank_count sm \<noteq> 0" and u: "u < length us"
  shows "sm_gated sm ! u = of_nat (length (filter (obtained us n fst u) (pr_links p)))"
    "sm_non_gated sm ! u = of_nat (length (filter (obtained us n snd u) (pr_links p)))"
    "length (sm_gated sm) = length us" "length (sm_non_gated sm) = length us"
proof -
  note end' = run_ended [OF inv sm]
  have len: "length (pf_workers (pr_result p)) = length (pr_links p)" "length (pr_links p) = length ms"
    using inv by (auto simp: run_inv_def Let_def)
  show "sm_gated sm ! u = of_nat (length (filter (obtained us n fst u) (pr_links p)))"
    using sum_hits_count [OF len(1) u, of wp_gated fst] end'(3,7) len by simp
  show "sm_non_gated sm ! u = of_nat (length (filter (obtained us n snd u) (pr_links p)))"
    using sum_hits_count [OF len(1) u, of wp_non_gated snd] end'(4,8) len by simp
  show "length (sm_gated sm) = length us" "length (sm_non_gated sm) = length us" using end'(3,4) by (simp_all add: sum_hits_def)
qed

text \<open>A full count, and a count of nothing.\<close>

lemma full_count:
  assumes "run_inv us n ms p" "pr_delivered p = [sm]" "sm_rank_count sm \<noteq> 0" "length ms < 256" "u < length us" "w < length ms"
  shows "sm_gated sm ! u = sm_rank_count sm \<Longrightarrow> obtained us n fst u (pr_links p ! w)"
    "sm_non_gated sm ! u = sm_rank_count sm \<Longrightarrow> obtained us n snd u (pr_links p ! w)"
    "sm_non_gated sm ! u = 0 \<Longrightarrow> \<not> obtained us n snd u (pr_links p ! w)"
proof -
  note c = counts_exact [OF assms(1,2,3,5)] and r = run_ended(2) [OF assms(1-3)]
  have len: "length (pr_links p) = length ms" using assms(1) by (simp add: run_inv_def Let_def)
  have le: "length (filter P (pr_links p)) \<le> length ms" for P using len by (metis length_filter_le)
  have all: "(of_nat (length (filter P (pr_links p))) :: u8) = of_nat (length ms) \<Longrightarrow> P (pr_links p ! w)" for P
  proof -
    assume "(of_nat (length (filter P (pr_links p))) :: u8) = of_nat (length ms)"
    then have "length (filter P (pr_links p)) = length (pr_links p)" using of_nat_u8_inj le len assms(4) by (metis le_less_trans)
    then show "P (pr_links p ! w)" using assms(6) len by (metis filter_id_conv length_filter_less less_irrefl nth_mem)
  qed
  have none: "(of_nat (length (filter P (pr_links p))) :: u8) = 0 \<Longrightarrow> \<not> P (pr_links p ! w)" for P
  proof -
    assume "(of_nat (length (filter P (pr_links p))) :: u8) = 0"
    then have "length (filter P (pr_links p)) = 0"
      using of_nat_u8_inj [of "length (filter P (pr_links p))" 0] le [of P] assms(4) by simp
    then show "\<not> P (pr_links p ! w)" using assms(6) len by (metis filter_empty_conv length_0_conv nth_mem)
  qed
  show "sm_gated sm ! u = sm_rank_count sm \<Longrightarrow> obtained us n fst u (pr_links p ! w)" using all c(1) r by simp
  show "sm_non_gated sm ! u = sm_rank_count sm \<Longrightarrow> obtained us n snd u (pr_links p ! w)" using all c(2) r by simp
  show "sm_non_gated sm ! u = 0 \<Longrightarrow> \<not> obtained us n snd u (pr_links p ! w)" using none c(2) by simp
qed

section \<open>Full units are stored\<close>

text \<open>The pages of a worker, once the summary is out.\<close>

lemma final_pages:
  assumes "run_inv us n ms p" "pr_delivered p = [sm]" "sm_rank_count sm \<noteq> 0" "w < length ms"
  defines "lg \<equiv> lk_log (pr_links p ! w)"
  shows "lk_pages (pr_links p ! w) = fold (\<lambda>t m. m(page_of t := Some (tf_hash t)))
      (hit_transfers (batch_transfers (take (length lg * n) us)) (concat lg)) (ms ! w)"
    "length (concat lg) = length (batch_transfers (take (length lg * n) us))"
proof -
  have lg: "stopped_inv us n (ms ! w) False (pr_links p ! w)" "log_ok us n lg" using run_ended(5) [OF assms(1-4)] by (simp_all add: lg_def)
  then have "pages_ok us n (ms ! w) (pr_links p ! w)" by (simp add: stopped_inv_def Let_def)
  then show "lk_pages (pr_links p ! w) = fold (\<lambda>t m. m(page_of t := Some (tf_hash t)))
      (hit_transfers (batch_transfers (take (length lg * n) us)) (concat lg)) (ms ! w)"
    by (simp add: pages_ok_def pages_after_def store_hits_fold lg_def)
  show "length (concat lg) = length (batch_transfers (take (length lg * n) us))" by (rule length_log [OF lg(2)])
qed

lemma obtained_results:
  "obtained us n f u l \<longleftrightarrow> u < length (take (length (lk_log l) * n) us)
     \<and> f (unit_results (take (length (lk_log l) * n) us) (concat (lk_log l)) ! u)"
  by (auto simp: obtained_def results_def)

lemma set_batch_transfers: "t \<in> set (batch_transfers us) \<longleftrightarrow> (\<exists>u\<in>set us. t \<in> set (unit_transfers u))"
  by (auto simp: batch_transfers_def)

lemma full_unit_stored:
  assumes inv: "run_inv us n ms p" and sm: "pr_delivered p = [sm]" "sm_rank_count sm \<noteq> 0" and ms: "length ms < 256" "w < length ms"
    and u: "u < length us" "sm_gated sm ! u = sm_rank_count sm" and t: "t \<in> set (gated_blocks (us ! u))"
    and same: "\<forall>t'\<in>set (batch_transfers us). page_of t' = page_of t \<longrightarrow> tf_hash t' = tf_hash t"
  shows "lk_pages (pr_links p ! w) (page_of t) = Some (tf_hash t)"
proof -
  let ?l = "pr_links p ! w" and ?us = "take (length (lk_log (pr_links p ! w)) * n) us"
  have o: "obtained us n fst u ?l" using full_count(1) [OF inv sm ms(1) u(1) ms(2) u(2)] .
  have "t \<in> set (hit_transfers (batch_transfers ?us) (concat (lk_log ?l)))"
    using gated_hit [OF final_pages(2) [OF inv sm ms(2)], of u t] o t by (simp add: obtained_results)
  moreover have "\<forall>t'\<in>set (hit_transfers (batch_transfers ?us) (concat (lk_log ?l))). page_of t' = page_of t \<longrightarrow> tf_hash t' = tf_hash t"
  proof -
    have "set (batch_transfers ?us) \<subseteq> set (batch_transfers us)" unfolding subset_iff set_batch_transfers by (metis in_set_takeD)
    then show ?thesis using same set_hit_transfers by blast
  qed
  ultimately show ?thesis unfolding final_pages(1) [OF inv sm ms(2)] by (rule fold_same)
qed

lemma gated_units_full:
  assumes "u < gated_units sm"
  shows "u < length (sm_gated sm)" "sm_gated sm ! u = sm_rank_count sm"
proof -
  show "u < length (sm_gated sm)"
    using assms unfolding gated_units_def by (rule less_le_trans) (rule length_takeWhile_le)
  have "takeWhile (\<lambda>h. h = sm_rank_count sm) (sm_gated sm) ! u = sm_gated sm ! u"
    using assms by (simp add: gated_units_def takeWhile_nth)
  moreover have "takeWhile (\<lambda>h. h = sm_rank_count sm) (sm_gated sm) ! u \<in> set (takeWhile (\<lambda>h. h = sm_rank_count sm) (sm_gated sm))"
    using assms by (simp add: gated_units_def)
  ultimately show "sm_gated sm ! u = sm_rank_count sm" by (metis (mono_tags, lifting) set_takeWhileD)
qed

text \<open>Nothing is written behind the summary.\<close>

lemma stopped_step:
  assumes "session_inv us n m l" "stopped_inv us n m failed l" "lk_gone l" "0 < n" "event_enabled e l" "link_step e w r l = Some (d, r', l')"
  shows "d = None \<and> r' = r \<and> lk_pages l' = lk_pages l"
proof -
  have idle: "ss_runner (lk_session l) = R_Idle" "ss_scheduled (lk_session l) = 0" "lk_up l = []"
    using assms(2) by (simp_all add: stopped_inv_def Let_def)
  show ?thesis using assms(3,5,6) idle by (cases e) (auto simp: with_session_def)
qed

lemma final_step:
  assumes inv: "run_inv us n ms p" and sm: "pr_delivered p = [sm]" "sm_rank_count sm \<noteq> 0" and en: "run_enabled e p" and p': "run_step e p = Some p'"
  shows "pr_delivered p' = [sm]" "map lk_pages (pr_links p') = map lk_pages (pr_links p)"
proof -
  obtain w ev where e: "e = (w, ev)" by fastforce
  have w: "w < length ms" "event_enabled ev (pr_links p ! w)" "0 < n" "length (pr_links p) = length ms"
    using inv en by (auto simp: run_enabled_def e run_inv_def Let_def)
  obtain d r' l' where s: "link_step ev w (pr_result p) (pr_links p ! w) = Some (d, r', l')"
    "p' = \<lparr>pr_result = r', pr_links = (pr_links p)[w := l'], pr_delivered = (case d of None \<Rightarrow> pr_delivered p | Some x \<Rightarrow> pr_delivered p @ [x])\<rparr>"
    using p' by (auto simp: run_step_def e)
  have "d = None \<and> r' = pr_result p \<and> lk_pages l' = lk_pages (pr_links p ! w)"
    using stopped_step [OF run_ended(6) [OF inv sm w(1)] _ _ w(3,2) s(1)] run_ended(5) [OF inv sm w(1)] by blast
  then show "pr_delivered p' = [sm]" "map lk_pages (pr_links p') = map lk_pages (pr_links p)"
    using sm(1) s(2) w by (auto simp: map_update list_update_same_conv)
qed

lemma final_events:
  assumes "run_inv us n ms p" "pr_delivered p = [sm]" "sm_rank_count sm \<noteq> 0" "events_enabled es p" "run_events es p = Some p'"
  shows "run_inv us n ms p' \<and> pr_delivered p' = [sm] \<and> map lk_pages (pr_links p') = map lk_pages (pr_links p)"
  using assms
proof (induction es arbitrary: p)
  case Nil
  then show ?case by simp
next
  case (Cons e es)
  have en: "run_enabled e p" using Cons.prems(4) by simp
  obtain q where q: "run_step e p = Some q" "run_inv us n ms q" using run_inv_step [OF Cons.prems(1) en] by blast
  note f = final_step [OF Cons.prems(1-3) en q(1)]
  show ?case using Cons.IH [OF q(2) f(1) Cons.prems(3)] Cons.prems(4,5) q(1) f(2) by simp
qed


section \<open>The checkpoint that is kept\<close>

lemma build_units_nth:
  "v < length (build_units f [a..<b]) \<Longrightarrow> a + v < b \<and> f (a + v) = (True, build_units f [a..<b] ! v)"
proof (induction "b - a" arbitrary: a v)
  case 0
  then show ?case by simp
next
  case (Suc k)
  then have up: "[a..<b] = a # [Suc a..<b]" by (simp add: upt_conv_Cons)
  obtain ok u where fa: "f a = (ok, u)" by fastforce
  show ?case
  proof (cases v)
    case 0
    then show ?thesis using Suc fa up by (cases ok) auto
  next
    case (Suc v')
    then show ?thesis using Suc.hyps(1) [of "Suc a" v'] Suc.hyps(2) Suc.prems fa up by (cases ok) auto
  qed
qed

definition kv_transfer :: "block_type \<Rightarrow> cache_block \<Rightarrow> transfer" where
  "kv_transfer t b = \<lparr>tf_src = - 1, tf_dst = block_id (cb_block b), tf_hash = block_hash (cb_block b), tf_kind = TT_G2H, tf_type = t\<rparr>"

lemma append_transfer_eq:
  "append_prefetch_transfer t i kv u =
    (if i < length (kv_blocks kv t) \<and> cb_valid (kv_blocks kv t ! i)
     then (True, if is_prefetch_gate_block_type t then u\<lparr>gated_blocks := gated_blocks u @ [kv_transfer t (kv_blocks kv t ! i)]\<rparr>
        else u\<lparr>non_gated_blocks := non_gated_blocks u @ [kv_transfer t (kv_blocks kv t ! i)]\<rparr>)
     else (False, u))"
  by (simp add: append_prefetch_transfer_def kv_transfer_def Let_def)

lemma flat_linear_units:
  assumes "v < length (build_flat_kv_linear_prefetch_request kv)"
  defines "q \<equiv> shared_tokens_num kv div valid_block_size (kv_blocks kv BT_KV) + v"
  shows "q < length (kv_blocks kv BT_KV)" "cb_valid (kv_blocks kv BT_KV ! q)"
    "build_flat_kv_linear_prefetch_request kv ! v = \<lparr>gated_blocks = [kv_transfer BT_KV (kv_blocks kv BT_KV ! q)],
      non_gated_blocks = (if q < length (kv_blocks kv BT_LINEAR) \<and> cb_valid (kv_blocks kv BT_LINEAR ! q)
         then [kv_transfer BT_LINEAR (kv_blocks kv BT_LINEAR ! q)] else []), has_non_gated = True\<rparr>"
proof -
  let ?b = "shared_tokens_num kv div valid_block_size (kv_blocks kv BT_KV)" and ?n = "length (kv_blocks kv BT_KV)"
  have eq: "build_flat_kv_linear_prefetch_request kv = build_units (flat_kv_linear_unit kv) [?b..<?n]"
    using assms(1) by (auto simp: build_flat_kv_linear_prefetch_request_def Let_def split: if_splits)
  have "q < ?n \<and> flat_kv_linear_unit kv q = (True, build_flat_kv_linear_prefetch_request kv ! v)"
    using build_units_nth [of v "flat_kv_linear_unit kv" ?b ?n] assms(1) by (simp add: eq q_def)
  then show "q < ?n" "cb_valid (kv_blocks kv BT_KV ! q)" "build_flat_kv_linear_prefetch_request kv ! v = \<lparr>gated_blocks = [kv_transfer BT_KV (kv_blocks kv BT_KV ! q)],
      non_gated_blocks = (if q < length (kv_blocks kv BT_LINEAR) \<and> cb_valid (kv_blocks kv BT_LINEAR ! q)
         then [kv_transfer BT_LINEAR (kv_blocks kv BT_LINEAR ! q)] else []), has_non_gated = True\<rparr>"
    by (auto simp: flat_kv_linear_unit_def append_transfer_eq new_unit_def split: if_splits)
qed

text \<open>A transfer that hit belongs to a unit; an optional one alone makes its unit's second result.\<close>

lemma hit_single: "t \<in> set (hit_transfers ts hs) \<Longrightarrow> length ts = 1 \<Longrightarrow> length hs = 1 \<Longrightarrow> list_all (\<lambda>h. h \<noteq> 0) hs"
  by (cases ts; cases hs) (auto split: if_splits)

lemma hit_unit:
  assumes "t \<in> set (hit_transfers (batch_transfers us) hs)" "length hs = length (batch_transfers us)"
  shows "\<exists>v<length us. t \<in> set (gated_blocks (us ! v))
      \<or> t \<in> set (non_gated_blocks (us ! v)) \<and> (has_non_gated (us ! v) \<and> length (non_gated_blocks (us ! v)) = 1 \<longrightarrow> snd (unit_results us hs ! v))"
  using assms
proof (induction us arbitrary: hs)
  case Nil
  then show ?case by simp
next
  case (Cons x us)
  let ?g = "length (gated_blocks x)" and ?n = "length (non_gated_blocks x)"
  let ?hg = "take ?g hs" and ?hn = "take ?n (drop ?g hs)" and ?hr = "drop (?g + ?n) hs"
  have len: "length hs = ?g + ?n + length (batch_transfers us)"
    using Cons.prems(2) by (simp add: batch_transfers_Cons length_unit_transfers)
  have hs: "hs = ?hg @ ?hn @ ?hr" by (metis add.commute append_take_drop_id drop_drop)
  have "hit_transfers (batch_transfers (x # us)) hs
      = hit_transfers (gated_blocks x) ?hg @ hit_transfers (non_gated_blocks x) ?hn @ hit_transfers (batch_transfers us) ?hr"
  proof -
    have "hit_transfers (batch_transfers (x # us)) hs
        = hit_transfers (gated_blocks x @ non_gated_blocks x @ batch_transfers us) (?hg @ ?hn @ ?hr)"
      using hs by (simp add: batch_transfers_Cons unit_transfers_def)
    then show ?thesis using len by (simp add: hit_transfers_append)
  qed
  then consider "t \<in> set (hit_transfers (gated_blocks x) ?hg)" | "t \<in> set (hit_transfers (non_gated_blocks x) ?hn)"
    | "t \<in> set (hit_transfers (batch_transfers us) ?hr)" using Cons.prems(1) by auto
  then show ?case
  proof cases
    case 1
    then show ?thesis using set_hit_transfers by (intro exI [of _ 0]) auto
  next
    case 2
    have "list_all (\<lambda>h. h \<noteq> 0) ?hn" if "length (non_gated_blocks x) = 1"
      using hit_single [OF 2 that] that len by simp
    then show ?thesis using 2 set_hit_transfers [of "non_gated_blocks x" ?hn] by (intro exI [of _ 0]) (auto simp: Let_def)
  next
    case 3
    then obtain v where "v < length us" "t \<in> set (gated_blocks (us ! v))
      \<or> t \<in> set (non_gated_blocks (us ! v)) \<and> (has_non_gated (us ! v) \<and> length (non_gated_blocks (us ! v)) = 1 \<longrightarrow> snd (unit_results us ?hr ! v))"
      using Cons.IH [of ?hr] len by auto
    then show ?thesis by (intro exI [of _ "Suc v"]) (auto simp: Let_def)
  qed
qed

lemma find_rev_upt:
  assumes "find P (rev [a..<b]) = Some p"
  shows "a \<le> p" "p < b" "P p" "p < q \<Longrightarrow> q < b \<Longrightarrow> \<not> P q"
proof -
  obtain i where i: "i < b - a" "P (rev [a..<b] ! i)" "p = rev [a..<b] ! i" "\<forall>j<i. \<not> P (rev [a..<b] ! j)"
    using assms by (auto simp: find_Some_iff)
  have nth: "j < b - a \<Longrightarrow> rev [a..<b] ! j = b - Suc j" for j by (simp add: rev_nth)
  show "a \<le> p" "p < b" "P p" using i nth [of i] by auto
  assume q: "p < q" "q < b"
  then have "b - Suc q < i" using i nth [of i] by auto
  moreover have "rev [a..<b] ! (b - Suc q) = q" using q i(1) nth [of i] nth [of "b - Suc q"] i(3) by auto
  ultimately show "\<not> P q" using i(4) by metis
qed

text \<open>What hits behind a unit can write to a page of the recurrent state.\<close>

lemma checkpoint_stored:
  assumes len: "length hs = length (batch_transfers us)" and u: "u < length us" "has_non_gated (us ! u)" "non_gated_blocks (us ! u) = [t]"
    and hit: "snd (unit_results us hs ! u)"
    and gated: "\<forall>v<length us. \<forall>t'\<in>set (gated_blocks (us ! v)). page_of t' \<noteq> page_of t"
    and later: "\<forall>v<length us. u < v \<and> snd (unit_results us hs ! v) \<longrightarrow> (\<forall>t'\<in>set (non_gated_blocks (us ! v)). page_of t' \<noteq> page_of t)"
    and one: "\<forall>v<length us. has_non_gated (us ! v) \<and> length (non_gated_blocks (us ! v)) \<le> 1"
  shows "fold (\<lambda>t m. m(page_of t := Some (tf_hash t))) (hit_transfers (batch_transfers us) hs) m (page_of t) = Some (tf_hash t)"
proof -
  let ?B = "drop (Suc u) us"
  obtain h1 hg hn h2 where h: "hs = h1 @ hg @ hn @ h2" "length h1 = length (batch_transfers (take u us))"
    "length hg = length (gated_blocks (us ! u))" "length hn = length (non_gated_blocks (us ! u))" "length h2 = length (batch_transfers ?B)"
    "snd (unit_results us hs ! u) = (non_gated_blocks (us ! u) \<noteq> [] \<and> list_all (\<lambda>h. h \<noteq> 0) hn)"
    "unit_results us hs = unit_results (take u us) h1 @ unit_results (us ! u # ?B) (hg @ hn @ h2)"
    using unit_hits [OF len u(1)] u(2) by metis
  have ts: "batch_transfers us = (batch_transfers (take u us) @ gated_blocks (us ! u)) @ [t] @ batch_transfers ?B"
    by (metis append_assoc u(1,3) batch_transfers_Cons batch_transfers_append id_take_nth_drop unit_transfers_def)
  have "hit_transfers [t] hn = [t]" using h(4,6) hit u(3) by (simp add: hit_transfers_all)
  moreover have "hit_transfers ([t] @ batch_transfers ?B) (hn @ h2) = hit_transfers [t] hn @ hit_transfers (batch_transfers ?B) h2"
    using h(4) u(3) by (intro hit_transfers_append) simp
  moreover have "hs = (h1 @ hg) @ hn @ h2" using h(1) by simp
  ultimately have hits: "hit_transfers (batch_transfers us) hs
      = hit_transfers (batch_transfers (take u us) @ gated_blocks (us ! u)) (h1 @ hg) @ t # hit_transfers (batch_transfers ?B) h2"
    using h(2-5) u(3) by (simp add: ts hit_transfers_append)
  have "page_of t \<notin> page_of ` set (hit_transfers (batch_transfers ?B) h2)"
  proof
    assume "page_of t \<in> page_of ` set (hit_transfers (batch_transfers ?B) h2)"
    then obtain t' where t': "t' \<in> set (hit_transfers (batch_transfers ?B) h2)" "page_of t' = page_of t" by auto
    obtain v where v: "v < length ?B" "t' \<in> set (gated_blocks (?B ! v)) \<or> t' \<in> set (non_gated_blocks (?B ! v))
        \<and> (has_non_gated (?B ! v) \<and> length (non_gated_blocks (?B ! v)) = 1 \<longrightarrow> snd (unit_results ?B h2 ! v))"
      using hit_unit [OF t'(1) h(5)] by blast
    let ?v = "Suc u + v"
    have B: "?B ! v = us ! ?v" "?v < length us" using v(1) u(1) by auto
    have t'': "t' \<in> set (non_gated_blocks (us ! ?v))" "snd (unit_results ?B h2 ! v)"
      using v(2) B gated t'(2) one by (auto simp: le_Suc_eq)
    have "unit_results (us ! u # ?B) (hg @ hn @ h2) = unit_results [us ! u] (hg @ hn) @ unit_results ?B h2"
      using unit_results_append [of "hg @ hn" "[us ! u]" ?B h2] h(3,4) by (simp add: batch_transfers_Cons length_unit_transfers)
    then have "unit_results us hs = (unit_results (take u us) h1 @ unit_results [us ! u] (hg @ hn)) @ unit_results ?B h2"
      using h(7) by (simp only: append_assoc)
    moreover have "length (unit_results (take u us) h1 @ unit_results [us ! u] (hg @ hn)) = Suc u"
      using u(1) by (simp del: unit_results.simps)
    ultimately have "unit_results us hs ! ?v = unit_results ?B h2 ! v" by (metis nth_append_length_plus)
    then have "page_of t' \<noteq> page_of t" using later B(2) t'' by (metis less_add_Suc1 add_Suc_shift add_Suc)
    then show False using t'(2) by simp
  qed
  then show ?thesis unfolding hits by (rule fold_last [OF refl])
qed

lemma kept_checkpoint:
  assumes "kept = last_reusable_linear_checkpoint bs base (base + g) hits ranks" "base < kept"
    "\<forall>h\<in>set (take g hits). h = 0 \<or> h = ranks"
  defines "p \<equiv> kept - 1"
  shows "base \<le> p" "p < base + g" "p < length bs" "cb_valid (bs ! p)" "p - base < length hits" "hits ! (p - base) = ranks" "ranks \<noteq> 0"
    "p < q \<Longrightarrow> q < length bs \<Longrightarrow> cb_valid (bs ! q) \<Longrightarrow> block_id (cb_block (bs ! q)) = block_id (cb_block (bs ! p)) \<Longrightarrow>
       q - base < length hits \<Longrightarrow> hits ! (q - base) = 0"
proof -
  let ?common = "min (base + g) (length bs)"
  let ?over = "overwritten_ids bs ?common base hits"
  have ne: "ranks \<noteq> 0" "bs \<noteq> []" using assms(1,2) by (auto simp: last_reusable_linear_checkpoint_def split: if_splits)
  then obtain p' where f: "find (reusable_checkpoint bs base hits ranks ?over) (rev [min base ?common..<?common]) = Some p'" "kept = p' + 1"
    using assms(1,2) by (auto simp: last_reusable_linear_checkpoint_def Let_def split: option.splits if_splits)
  then have p: "p = p'" by (simp add: p_def)
  note found = find_rev_upt [OF f(1), folded p]
  show "base \<le> p" using assms(2) f(2) p by simp
  show "ranks \<noteq> 0" by (rule ne(1))
  show "p < base + g" "p < length bs" using found(2) by simp_all
  have r: "cb_valid (bs ! p)" "\<not> prefetch_hit_count p base hits < ranks" "block_id (cb_block (bs ! p)) \<notin> set ?over"
    using found(3) by (simp_all add: reusable_checkpoint_def)
  show "cb_valid (bs ! p)" by (rule r(1))
  have pos: "prefetch_hit_count p base hits \<noteq> 0" using r(2) ne(1) by (metis word_neq_0_conv)
  then have hit: "prefetch_hit_count p base hits = hits ! (p - base)" "p - base < length hits"
    by (auto simp: prefetch_hit_count_def split: if_splits)
  show "p - base < length hits" by (rule hit(2))
  have mem: "hits ! (v - base) = 0 \<or> hits ! (v - base) = ranks" if "v - base < length hits" "base \<le> v" "v < base + g" for v
  proof -
    have "v - base < length (take g hits)" using that by auto
    then have "take g hits ! (v - base) \<in> set (take g hits)" by (rule nth_mem)
    then show ?thesis using assms(3) that by simp
  qed
  show "hits ! (p - base) = ranks"
    using mem [OF hit(2)] pos hit(1) \<open>base \<le> p\<close> \<open>p < base + g\<close> by auto
  assume q: "p < q" "q < length bs" "cb_valid (bs ! q)" "block_id (cb_block (bs ! q)) = block_id (cb_block (bs ! p))" "q - base < length hits"
  have base: "base \<le> q" using \<open>base \<le> p\<close> q(1) by simp
  have count: "prefetch_hit_count q base hits = hits ! (q - base)" using base q(5) by (simp add: prefetch_hit_count_def)
  show "hits ! (q - base) = 0"
  proof (cases "q < ?common")
    case True
    then have "\<not> reusable_checkpoint bs base hits ranks ?over q" using found(4) q(1) by simp
    then have "hits ! (q - base) < ranks" using q(3,4) r(3) count by (simp add: reusable_checkpoint_def)
    moreover have "hits ! (q - base) = 0 \<or> hits ! (q - base) = ranks" using mem q(5) base True by simp
    ultimately show ?thesis by auto
  next
    case False
    then have "hits ! (q - base) \<noteq> 0 \<Longrightarrow> block_id (cb_block (bs ! q)) \<in> set ?over"
      using q(2,3) count by (auto simp: overwritten_ids_def)
    then show ?thesis using q(4) r(3) by metis
  qed
qed

lemma kv_prefix_stored:
  assumes sm: "run_inv us n ms p" "pr_delivered p = [sm]" "sm_rank_count sm \<noteq> 0"
    and us: "us = build_flat_kv_linear_prefetch_request kv" and few: "length ms < 256"
    and base: "base = shared_tokens_num kv div valid_block_size (kv_blocks kv BT_KV)"
    and inj: "inj_on (\<lambda>i. block_id (cb_block (kv_blocks kv BT_KV ! i))) {i. i < length (kv_blocks kv BT_KV) \<and> cb_valid (kv_blocks kv BT_KV ! i)}"
    and w: "w < length ms" and i: "base \<le> i" "i < base + gated_units sm"
  defines "b \<equiv> cb_block (kv_blocks kv BT_KV ! i)"
  shows "lk_pages (pr_links p ! w) (BT_KV, block_id b) = Some (block_hash b)"
proof -
  let ?bs = "kv_blocks kv BT_KV" and ?v = "i - base"
  let ?t = "kv_transfer BT_KV (?bs ! i)"
  note unit = flat_linear_units [where kv = kv, folded us, folded base]
  have v: "?v < gated_units sm" "base + ?v = i" using i by auto
  have "0 < length us" using sm(1) by (simp add: run_inv_def Let_def)
  then have "length (sm_gated sm) = length us" by (rule counts_exact(3) [OF sm])
  then have vu: "?v < length us" "sm_gated sm ! ?v = sm_rank_count sm" using gated_units_full [OF v(1)] by simp_all
  have mine: "?t \<in> set (gated_blocks (us ! ?v))" using unit(3) [OF vu(1)] v(2) by simp
  have "tf_hash t' = tf_hash ?t" if t': "t' \<in> set (batch_transfers us)" "page_of t' = page_of ?t" for t'
  proof -
    obtain v' where v': "v' < length us" "t' \<in> set (unit_transfers (us ! v'))"
      using t'(1) unfolding set_batch_transfers by (metis in_set_conv_nth)
    then have eq: "t' = kv_transfer BT_KV (?bs ! (base + v'))"
      using unit(3) [OF v'(1)] t'(2) by (auto simp: unit_transfers_def page_of_def kv_transfer_def split: if_splits)
    then have "block_id (cb_block (?bs ! (base + v'))) = block_id (cb_block (?bs ! i))" using t'(2) by (simp add: page_of_def kv_transfer_def)
    then have "base + v' = i" using inj_onD [OF inj] unit(1,2) [OF v'(1)] unit(1,2) [OF vu(1)] v(2) by simp
    then show ?thesis using eq by simp
  qed
  then have "\<forall>t'\<in>set (batch_transfers us). page_of t' = page_of ?t \<longrightarrow> tf_hash t' = tf_hash ?t" by blast
  from full_unit_stored [OF sm few w vu mine this] show ?thesis by (simp add: page_of_def kv_transfer_def b_def)
qed


section \<open>Examples\<close>

text \<open>A run without failures, worker after worker; a host cache of three blocks whose first and third checkpoint share a page.\<close>

definition worker_events :: "nat \<Rightarrow> u8 list list \<Rightarrow> (nat \<times> event) list" where
  "worker_events w answers = (w, Pe_Start)
     # concat (map (\<lambda>h. [(w, Pe_Run), (w, Pe_Get h), (w, Pe_Write), (w, Pe_Result 0 False True), (w, Pe_Control)]) answers) @ [(w, Pe_Closed)]"

definition all_events :: "u8 list list list \<Rightarrow> (nat \<times> event) list" where
  "all_events answers = concat (map (\<lambda>w. worker_events w (answers ! w)) [0..<length answers])"

definition host_block :: "int \<Rightarrow> hash_key \<Rightarrow> cache_block" where
  "host_block i h = \<lparr>cb_block = \<lparr>block_id = i, block_hash = h\<rparr>, cb_size = 1\<rparr>"

definition example_host :: kv_state where
  "example_host = put_blocks BT_LINEAR [host_block 10 101, host_block 11 102, host_block 10 103]
     (put_blocks BT_KV [host_block 1 101, host_block 2 102, host_block 3 103] new_kv_state)"

definition example_fetch :: prefetch_run where
  "example_fetch = the (create_prefetch_run (build_flat_kv_linear_prefetch_request example_host) 1 (- 1) [\<lambda>_. None, \<lambda>_. None])"

lemma example_fetch:
  "create_prefetch_run (build_flat_kv_linear_prefetch_request example_host) 1 (- 1) [\<lambda>_. None, \<lambda>_. None] = Some example_fetch"
proof -
  have "\<not> Option.is_none (create_prefetch_run (build_flat_kv_linear_prefetch_request example_host) 1 (- 1) [\<lambda>_. None, \<lambda>_. None])" by code_simp
  then show ?thesis by (auto simp: example_fetch_def Option.is_none_def)
qed

abbreviation intact_answers :: "u8 list list list" where
  "intact_answers \<equiv> [[[1, 1], [1, 0], [1, 0]], [[1, 1], [1, 0], [1, 0]]]"

abbreviation partial_answers :: "u8 list list list" where
  "partial_answers \<equiv> [[[1, 1], [1, 0], [1, 1]], [[1, 1], [1, 0], [1, 0]]]"

lemma intact_enabled: "events_enabled (all_events intact_answers) example_fetch" by code_simp
lemma intact_returns: "\<not> Option.is_none (run_events (all_events intact_answers) example_fetch)" by code_simp
lemma intact_delivered: "pr_delivered (the (run_events (all_events intact_answers) example_fetch))
    = [\<lparr>sm_rank_count = 2, sm_gated = [2, 2, 2], sm_non_gated = [2, 0, 0], sm_stop = SR_COMPLETE\<rparr>]"
  by code_simp

text \<open>The store has the third checkpoint for one worker and not for the other.  All KV blocks are found, the third checkpoint is
  not used, the first one is - but at the first worker its page holds the third.\<close>

theorem partial_hit_overwrites:
  "\<exists>p sm. run_events (all_events partial_answers) example_fetch = Some p \<and> pr_delivered p = [sm]
     \<and> sm_rank_count sm = 2 \<and> gated_units sm = 3
     \<and> last_reusable_linear_checkpoint (kv_blocks example_host BT_LINEAR) 0 (0 + gated_units sm) (sm_non_gated sm) (sm_rank_count sm) = 1
     \<and> block_hash (cb_block (kv_blocks example_host BT_LINEAR ! 0)) = 101 \<and> lk_pages (pr_links p ! 0) (BT_LINEAR, 10) = Some 103"
proof (intro exI conjI)
  let ?p = "the (run_events (all_events partial_answers) example_fetch)"
  have "\<not> Option.is_none (run_events (all_events partial_answers) example_fetch)" by code_simp
  then show "run_events (all_events partial_answers) example_fetch = Some ?p" by (auto simp: Option.is_none_def)
  show "pr_delivered ?p = [\<lparr>sm_rank_count = 2, sm_gated = [2, 2, 2], sm_non_gated = [2, 0, 1], sm_stop = SR_COMPLETE\<rparr>]" by code_simp
  show "lk_pages (pr_links ?p ! 0) (BT_LINEAR, 10) = Some 103" by code_simp
qed code_simp+

text \<open>The engine closes an idle stream while the store still reads: the summary of a failure is delivered, upon which the host
  blocks are given back, and the page is written afterwards.\<close>

theorem failed_fetch_still_writes:
  "\<exists>p p'. run_events [(0, Pe_Start), (0, Pe_Run), (0, Pe_Engine_Shuts), (0, Pe_Closed), (1, Pe_Refused)] example_fetch = Some p
     \<and> pr_delivered p \<noteq> [] \<and> lk_pages (pr_links p ! 0) (BT_KV, 1) = None
     \<and> run_step (0, Pe_Get [1, 1]) p = Some p' \<and> run_enabled (0, Pe_Get [1, 1]) p \<and> lk_pages (pr_links p' ! 0) (BT_KV, 1) = Some 101"
proof (intro exI conjI)
  let ?es = "[(0, Pe_Start), (0, Pe_Run), (0, Pe_Engine_Shuts), (0, Pe_Closed), (1, Pe_Refused)]"
  let ?p = "the (run_events ?es example_fetch)"
  have "\<not> Option.is_none (run_events ?es example_fetch)" by code_simp
  then show "run_events ?es example_fetch = Some ?p" by (auto simp: Option.is_none_def)
  have "\<not> Option.is_none (run_step (0, Pe_Get [1, 1]) ?p)" by code_simp
  then show "run_step (0, Pe_Get [1, 1]) ?p = Some (the (run_step (0, Pe_Get [1, 1]) ?p))" by (auto simp: Option.is_none_def)
  have "length (pr_delivered ?p) = 1" by code_simp
  then show "pr_delivered ?p \<noteq> []" by auto
qed code_simp+



end
