(* ===== verification/Prefetch_Progress.thy ===== *)
theory Prefetch_Progress imports Prefetch_Properties begin

text \<open>
  A fetch comes to an end: when no session and no stream fails, every sequence of steps is finite, with a bound, and as long as the
  summary is not out some step is possible.
\<close>

section \<open>Steps without failures\<close>

text \<open>The store answers every transfer of a batch, and decisions can be written.  Time and cancellation are free.\<close>

fun normal_event :: "event \<Rightarrow> link \<Rightarrow> bool" where
  "normal_event Pe_Start l \<longleftrightarrow> True"
| "normal_event Pe_Run l \<longleftrightarrow> True"
| "normal_event (Pe_Get hits) l \<longleftrightarrow>
    length hits = length (batch_transfers (nth_batch (ss_request (lk_session l)) (ss_batch_size (lk_session l)) (ss_batch (lk_session l))))"
| "normal_event Pe_Write l \<longleftrightarrow> True"
| "normal_event (Pe_Result elapsed cancelled ok) l \<longleftrightarrow> ok"
| "normal_event Pe_Control l \<longleftrightarrow> True"
| "normal_event Pe_Closed l \<longleftrightarrow> True"
| "normal_event Pe_Worker_Closed l \<longleftrightarrow> True"
| "normal_event _ l \<longleftrightarrow> False"

definition run_normal :: "nat \<times> event \<Rightarrow> prefetch_run \<Rightarrow> bool" where
  "run_normal e p \<longleftrightarrow> run_enabled e p \<and> normal_event (snd e) (pr_links p ! fst e)"

fun events_normal :: "(nat \<times> event) list \<Rightarrow> prefetch_run \<Rightarrow> bool" where
  "events_normal [] p \<longleftrightarrow> True"
| "events_normal (e # es) p \<longleftrightarrow> run_normal e p \<and> (case run_step e p of None \<Rightarrow> True | Some p' \<Rightarrow> events_normal es p')"

text \<open>Nothing has failed; a session that is over was told to stop.\<close>

definition calm_link :: "worker_progress \<Rightarrow> link \<Rightarrow> bool" where
  "calm_link wp l \<longleftrightarrow> \<not> lk_shut l \<and> (\<forall>f. ss_runner (lk_session l) \<noteq> R_Finishing f)
     \<and> (ss_finished (lk_session l) \<longrightarrow> wp_state wp \<noteq> WS_WAITING_RESULT \<and> ss_state (lk_session l) \<noteq> SS_CREATED)
     \<and> (wp_state wp = WS_ENDED \<longrightarrow> ss_finished (lk_session l))"

definition calm :: "prefetch_run \<Rightarrow> bool" where
  "calm p \<longleftrightarrow> \<not> pf_failed (pr_result p) \<and> (\<forall>w<length (pr_links p). calm_link (pf_workers (pr_result p) ! w) (pr_links p ! w))"

text \<open>The steps that are left to a worker: five for a batch that has no answer yet, and those of the batch at hand.\<close>

definition steps_left :: "nat \<Rightarrow> link \<Rightarrow> nat" where
  "steps_left batches l =
    (let s = lk_session l in
     5 * (batches - length (lk_log l))
     + (if lk_gone l then 0 else 1) + (if ss_state s = SS_CLOSED then 0 else 1) + (if ss_state s = SS_CREATED then 1 else 0)
     + (case ss_runner s of R_Writing _ _ _ \<Rightarrow> 3 | _ \<Rightarrow> 0) + 2 * length (lk_up l) + length (lk_down l)
     - (case ss_runner s of R_Getting _ \<Rightarrow> 1 | _ \<Rightarrow> 0))"

lemma log_batches:
  assumes "log_ok us n lg" "0 < n"
  shows "length lg \<le> (length us + n - 1) div n"
proof (cases lg rule: rev_cases)
  case Nil
  then show ?thesis by simp
next
  case (snoc ys y)
  then have "length ys * n < length us" using assms(1) by (simp add: log_ok_snoc)
  then have "length ys < (length us + n - 1) div n" using batch_exists [OF assms(2)] by blast
  then show ?thesis using snoc by simp
qed

text \<open>One step of one worker.\<close>

lemma calm_start:
  assumes "link_inv us n m False wp l" "calm_link wp l" "us \<noteq> []" "event_enabled Pe_Start l" "l' = with_session session_start l"
  shows "calm_link wp l' \<and> steps_left b l' < steps_left b l"
  using assms
  by (cases "wp_state wp"; cases "ss_finished (lk_session l)")
     (auto simp: calm_link_def steps_left_def link_inv_defs with_session_def session_start_def schedule_batch_def)

lemma calm_run:
  assumes "link_inv us n m False wp l" "calm_link wp l" "0 < n" "event_enabled Pe_Run l" "l' = with_session run_start l"
  shows "calm_link wp l' \<and> steps_left ((length us + n - 1) div n) l' < steps_left ((length us + n - 1) div n) l"
proof -
  have run: "\<not> ss_finished (lk_session l)" "ss_state (lk_session l) = SS_RUNNING_BATCH" "ss_batch (lk_session l) = length (lk_log l)"
    "ss_batch (lk_session l) * n < length us" "ss_runner (lk_session l) = R_Idle"
    using assms(1,2,4) by (cases "wp_state wp"; cases "ss_state (lk_session l)"; auto simp: calm_link_def link_inv_defs)+
  then have "length (lk_log l) < (length us + n - 1) div n" using batch_exists [OF assms(3)] by metis
  then show ?thesis using assms(2,5) run by (auto simp: calm_link_def steps_left_def with_session_def run_start_def Let_def)
qed

lemma calm_get:
  assumes "link_inv us n m False wp l" "calm_link wp l" "0 < n" "event_enabled (Pe_Get hits) l" "normal_event (Pe_Get hits) l"
    "receive_hits hits l = Some l'"
  shows "calm_link wp l' \<and> steps_left ((length us + n - 1) div n) l' < steps_left ((length us + n - 1) div n) l"
proof -
  obtain i where i: "ss_runner (lk_session l) = R_Getting i" using assms(4) by (cases "ss_runner (lk_session l)") auto
  have run: "\<not> ss_finished (lk_session l)" "ss_state (lk_session l) = SS_RUNNING_BATCH" "ss_batch (lk_session l) = length (lk_log l)"
    "ss_request (lk_session l) = us" "ss_batch_size (lk_session l) = n" "i = length (lk_log l)" "i * n < length us"
    using assms(1,2) i by (cases "wp_state wp"; cases "ss_state (lk_session l)"; auto simp: calm_link_def link_inv_defs)+
  then have "length (lk_log l) < (length us + n - 1) div n" using batch_exists [OF assms(3)] by metis
  moreover have "length hits = length (batch_transfers (nth_batch us n i))" using assms(5) run by simp
  moreover note shape = receive_hits_shape [OF assms(1,3) i, of hits]
  ultimately show ?thesis
    using assms(2,6) run i by (auto simp: calm_link_def steps_left_def Let_def)
qed

lemma calm_write:
  assumes "link_inv us n m False wp l" "calm_link wp l" "event_enabled Pe_Write l" "l' = write_result l"
  shows "calm_link wp l' \<and> steps_left b l' < steps_left b l"
proof -
  obtain g h c where r: "ss_runner (lk_session l) = R_Writing g h c" using assms(3) by (cases "ss_runner (lk_session l)") auto
  have "\<not> c" "\<not> ss_finished (lk_session l)"
    using assms(1-3) r by (cases "ss_state (lk_session l)"; auto simp: link_inv_def session_inv_def live_inv_def Let_def)+
  then show ?thesis
    using assms(2,4) r by (auto simp: calm_link_def steps_left_def write_result_def with_session_def run_written_def Let_def)
qed

lemma calm_worker_closed:
  assumes "link_inv us n m False wp l" "calm_link wp l" "event_enabled Pe_Worker_Closed l" "l' = with_session session_on_closed l"
  shows "calm_link wp l' \<and> steps_left b l' < steps_left b l"
proof -
  have fin: "ss_finished (lk_session l)" using assms(1-3) by (auto simp: calm_link_def link_inv_def session_inv_def Let_def)
  then have "ss_runner (lk_session l) = R_Idle"
    using assms(1,2) by (cases "wp_state wp") (auto simp: calm_link_def link_inv_def record_inv_def stopped_inv_def Let_def)
  then show ?thesis
    using assms(2,3,4) fin by (auto simp: calm_link_def steps_left_def with_session_def session_on_closed_def Let_def)
qed

lemma calm_control:
  assumes "link_inv us n m False wp l" "calm_link wp l" "0 < n" "event_enabled Pe_Control l"
    "session_receive (hd (lk_down l)) (lk_session l) = Some s" "l' = l\<lparr>lk_session := s, lk_down := tl (lk_down l)\<rparr>"
  shows "calm_link wp l' \<and> steps_left b l' < steps_left b l"
proof -
  let ?s = "lk_session l"
  have inv: "session_inv us n m l" and rec: "record_inv us n m False wp l" using assms(1) by (simp_all add: link_inv_def)
  have down: "lk_down l \<noteq> []" using assms(4) by simp
  then have fewer: "length (tl (lk_down l)) < length (lk_down l)" by (cases "lk_down l") auto
  show ?thesis
  proof (cases "ss_finished ?s")
    case True
    have "ss_runner ?s = R_Idle"
      using True rec assms(2) by (cases "wp_state wp") (auto simp: calm_link_def record_inv_def stopped_inv_def Let_def)
    then show ?thesis
      using session_receive_finished [OF True assms(5)] assms(2,6) fewer by (auto simp: calm_link_def steps_left_def Let_def)
  next
    case False
    have st: "ss_state ?s = SS_WAITING_DECISION" "ss_runner ?s = R_Idle"
      using inv False down by (simp_all add: session_inv_def Let_def)
    have frame: "wp_state wp = WS_WAITING_RESULT \<Longrightarrow> hd (lk_down l) = [continue_byte] \<and> ss_gate_complete ?s \<and> length (lk_log l) * n < length us"
      "wp_state wp \<noteq> WS_WAITING_RESULT \<Longrightarrow> hd (lk_down l) = [stop_byte]"
      using rec False down by (cases "wp_state wp"; auto simp: record_inv_def waiting_inv_def stopped_inv_def Let_def)+
    consider (finish) f where "s = session_finish f ?s" "f \<longrightarrow> hd (lk_down l) \<noteq> [stop_byte]
          \<and> (hd (lk_down l) = [continue_byte] \<longrightarrow> \<not> ss_gate_complete ?s \<or> length us \<le> length (lk_log l) * n)" "\<not> f \<longrightarrow> hd (lk_down l) = [stop_byte]"
      | (go) "s = schedule_batch (?s\<lparr>ss_batch := ss_batch ?s + 1, ss_state := SS_RUNNING_BATCH\<rparr>)" "hd (lk_down l) = [continue_byte]"
      by (rule session_receive_cases [OF inv assms(3) False down assms(5)]) blast+
    then show ?thesis
    proof cases
      case (finish f)
      have "wp_state wp \<noteq> WS_WAITING_RESULT"
        using finish(2,3) frame(1) by (cases f) (auto simp: continue_byte_def stop_byte_def)
      then show ?thesis
        using assms(2,6) finish(1) fewer False st
        by (auto simp: calm_link_def steps_left_def session_finish_def Let_def)
    next
      case go
      then show ?thesis
        using assms(2,6) fewer False st frame by (auto simp: calm_link_def steps_left_def schedule_batch_def Let_def)
    qed
  qed
qed

lemma calm_result:
  assumes "link_inv us n m False wp l" "calm_link wp l" "event_enabled (Pe_Result e c True) l"
    "receive_result w e c True r l = Some (r', l')" "\<not> pf_failed r'" "wp_state wp' \<noteq> WS_ENDED"
  shows "calm_link wp' l' \<and> steps_left b l' < steps_left b l"
proof -
  have rec: "record_inv us n m False wp l" using assms(1) by (simp add: link_inv_def)
  have en: "lk_up l \<noteq> []" "\<not> lk_gone l" using assms(3) by auto
  note up = record_inv_up [OF rec en]
  have fin: "\<not> ss_finished (lk_session l)" using assms(2) up(1) by (auto simp: calm_link_def)
  obtain x where "l' = l\<lparr>lk_up := tl (lk_up l), lk_recorded := lk_recorded l + 1, lk_down := lk_down l @ [x]\<rparr>"
    using assms(4,5) by (auto simp: receive_result_def mark_worker_failed_def Let_def split: if_splits option.splits)
  then show ?thesis using assms(2,6) fin up(4,8,9) by (auto simp: calm_link_def steps_left_def Let_def)
qed

section \<open>Runs\<close>

definition total_left :: "nat \<Rightarrow> prefetch_run \<Rightarrow> nat" where
  "total_left b p = sum_list (map (steps_left b) (pr_links p))"

lemma calm_update:
  assumes "calm p" "w < length (pr_links p)" "length (pf_workers (pr_result p)) = length (pr_links p)" "\<not> pf_failed r'"
    "pf_workers r' = (pf_workers (pr_result p))[w := wp]" "calm_link wp l" "steps_left b l < steps_left b (pr_links p ! w)"
  shows "calm \<lparr>pr_result = r', pr_links = (pr_links p)[w := l], pr_delivered = d\<rparr>
    \<and> total_left b \<lparr>pr_result = r', pr_links = (pr_links p)[w := l], pr_delivered = d\<rparr> < total_left b p"
proof -
  have "sum_list ((map (steps_left b) (pr_links p))[w := steps_left b l]) = total_left b p + steps_left b l - steps_left b (pr_links p ! w)"
    using assms(2) sum_list_update [of w "map (steps_left b) (pr_links p)" "steps_left b l"] by (simp add: total_left_def)
  moreover have "steps_left b (pr_links p ! w) \<le> total_left b p"
    using assms(2) elem_le_sum_list [of w "map (steps_left b) (pr_links p)"] by (simp add: total_left_def)
  ultimately have "total_left b \<lparr>pr_result = r', pr_links = (pr_links p)[w := l], pr_delivered = d\<rparr> < total_left b p"
    using assms(7) by (simp add: total_left_def map_update)
  then show ?thesis using assms(1-6) by (auto simp: calm_def nth_list_update)
qed

lemma calm_step:
  assumes inv: "run_inv us n ms p" and calm: "calm p" and norm: "run_normal e p" and p': "run_step e p = Some p'"
  defines "b \<equiv> (length us + n - 1) div n"
  shows "calm p' \<and> total_left b p' < total_left b p"
proof -
  obtain w ev where e: "e = (w, ev)" by fastforce
  let ?r = "pr_result p" and ?l = "pr_links p ! w" and ?wp = "pf_workers (pr_result p) ! w"
  have w: "w < length (pr_links p)" "event_enabled ev ?l" "normal_event ev ?l" and len: "length (pf_workers ?r) = length (pr_links p)"
    and n: "0 < n" "us \<noteq> []" "pf_request ?r = us" "pf_batch_size ?r = n"
    using inv norm by (auto simp: run_normal_def run_enabled_def e run_inv_def Let_def)
  have nf: "\<not> pf_failed ?r" and link: "calm_link ?wp ?l" using calm w(1) by (simp_all add: calm_def)
  have old: "link_inv us n (ms ! w) False ?wp ?l" using inv w(1) nf by (auto simp: run_inv_def Let_def)
  obtain d r' l' where s: "link_step ev w ?r ?l = Some (d, r', l')"
    "p' = \<lparr>pr_result = r', pr_links = (pr_links p)[w := l'], pr_delivered = (case d of None \<Rightarrow> pr_delivered p | Some x \<Rightarrow> pr_delivered p @ [x])\<rparr>"
    using p' by (auto simp: run_step_def e)
  have "\<exists>wp. \<not> pf_failed r' \<and> pf_workers r' = (pf_workers ?r)[w := wp] \<and> calm_link wp l' \<and> steps_left b l' < steps_left b ?l"
  proof (cases ev)
    case (Pe_Result el c ok)
    then have ok: "ok" and en: "event_enabled (Pe_Result el c ok) ?l" using w(2,3) by simp_all
    have o: "link_inv us n (ms ! w) (pf_failed ?r) ?wp ?l" and wl: "w < length (pf_workers ?r)" using old nf w(1) len by simp_all
    obtain r1 l1 wp where q: "receive_result w el c ok ?r ?l = Some (r1, l1)" "result_frame w ?r wp r1" "wp_state wp \<noteq> WS_ENDED"
      "ok \<longrightarrow> pf_failed r1 = pf_failed ?r"
      using inv_result [OF o wl n(3,4,1) en] by metis
    then show ?thesis
      using calm_result [OF old link _ _ _ q(3), of el c w ?r r' l' b] s(1) w(2) Pe_Result ok nf by (auto simp: result_frame_def)
  next
    case Pe_Closed
    have fin: "ss_finished (lk_session ?l)" "lk_up ?l = []" "\<not> lk_gone ?l"
      using w(2) Pe_Closed link old by (auto simp: calm_link_def link_inv_def session_inv_def Let_def)
    then have wc: "wp_state ?wp = WS_WAITING_CLOSE"
      using link old by (cases "wp_state ?wp") (auto simp: calm_link_def link_inv_def record_inv_def Let_def)
    then have "l' = ?l\<lparr>lk_gone := True\<rparr> \<and> r' = ?r\<lparr>pf_workers := (pf_workers ?r)[w := ?wp\<lparr>wp_state := WS_ENDED\<rparr>], pf_remaining := pf_remaining ?r - 1\<rparr>"
      using s(1) Pe_Closed w(1) len by (auto simp: mark_worker_ended_def Let_def split: if_splits)
    moreover have "ss_runner (lk_session ?l) = R_Idle" using wc old by (simp add: link_inv_def record_inv_def stopped_inv_def Let_def)
    ultimately show ?thesis using nf link fin by (auto simp: calm_link_def steps_left_def Let_def intro!: exI [of _ "?wp\<lparr>wp_state := WS_ENDED\<rparr>"])
  next
    case Pe_Start
    then show ?thesis using s(1) calm_start [OF old link n(2), of l' b] w(2) nf by (auto intro!: exI [of _ ?wp])
  next
    case Pe_Run
    then show ?thesis using s(1) calm_run [OF old link n(1), of l'] w(2) nf b_def by (auto intro!: exI [of _ ?wp])
  next
    case (Pe_Get hits)
    then show ?thesis using s(1) calm_get [OF old link n(1), of hits l'] w(2,3) nf b_def by (auto intro!: exI [of _ ?wp])
  next
    case Pe_Write
    then show ?thesis using s(1) calm_write [OF old link, of l' b] w(2) nf by (auto intro!: exI [of _ ?wp])
  next
    case Pe_Control
    then show ?thesis using s(1) calm_control [OF old link n(1), of _ l' b] w(2) nf by (auto intro!: exI [of _ ?wp])
  next
    case Pe_Worker_Closed
    then show ?thesis using s(1) calm_worker_closed [OF old link, of l' b] w(2) nf by (auto intro!: exI [of _ ?wp])
  qed (use w(3) in auto)
  then show ?thesis using calm_update [OF calm w(1) len] s(2) by blast
qed

text \<open>Some step is possible until the summary is out.\<close>

lemma calm_enabled:
  assumes inv: "run_inv us n ms p" and calm: "calm p" and open': "pr_delivered p = []"
  shows "\<exists>e. run_normal e p"
proof -
  have "awaited (pr_result p) \<noteq> 0" using inv open' by (auto simp: run_inv_def Let_def split: if_splits)
  then obtain w where w: "w < length (pf_workers (pr_result p))" "wp_state (pf_workers (pr_result p) ! w) \<noteq> WS_ENDED"
    by (auto simp: awaited_def filter_empty_conv in_set_conv_nth)
  let ?l = "pr_links p ! w" and ?wp = "pf_workers (pr_result p) ! w"
  have len: "w < length (pr_links p)" using inv w(1) by (simp add: run_inv_def Let_def)
  have link: "calm_link ?wp ?l" and old: "link_inv us n (ms ! w) False ?wp ?l"
    using inv calm len w(1) by (auto simp: calm_def run_inv_def Let_def)
  have sinv: "session_inv us n (ms ! w) ?l" and rec: "record_inv us n (ms ! w) False ?wp ?l" using old by (simp_all add: link_inv_def)
  have "\<exists>ev. event_enabled ev ?l \<and> normal_event ev ?l"
  proof (cases "wp_state ?wp")
    case WS_WAITING_RESULT
    then have wait: "waiting_inv us n (ms ! w) False ?l" "\<not> ss_finished (lk_session ?l)" "\<not> lk_gone ?l" "\<not> lk_shut ?l" "\<not> ss_closed (lk_session ?l)"
      using rec link sinv by (auto simp: record_inv_def calm_link_def session_inv_def Let_def)
    show ?thesis
    proof (cases "lk_up ?l = []")
      case False
      then have "event_enabled (Pe_Result 0 False True) ?l" using wait by simp
      then show ?thesis by (metis normal_event.simps(5))
    next
      case up: True
      show ?thesis
      proof (cases "lk_down ?l = []")
        case False
        then show ?thesis by (intro exI [of _ Pe_Control]) simp
      next
        case down: True
        have live: "live_inv us n (ms ! w) ?l" using sinv wait(2) by (simp add: session_inv_def Let_def)
        show ?thesis
        proof (cases "ss_state (lk_session ?l)")
          case SS_CREATED
          then show ?thesis using wait by (intro exI [of _ Pe_Start]) simp
        next
          case SS_RUNNING_BATCH
          then consider "ss_scheduled (lk_session ?l) = 1 \<and> ss_runner (lk_session ?l) = R_Idle" | "ss_runner (lk_session ?l) = R_Getting (ss_batch (lk_session ?l))"
            using live by (auto simp: live_inv_def Let_def)
          then show ?thesis
          proof cases
            case 1
            then show ?thesis by (intro exI [of _ Pe_Run]) simp
          next
            case 2
            then show ?thesis
              by (intro exI [of _ "Pe_Get (replicate (length (batch_transfers (nth_batch (ss_request (lk_session ?l)) (ss_batch_size (lk_session ?l)) (ss_batch (lk_session ?l))))) 1)"]) simp
          qed
        next
          case SS_WAITING_DECISION
          then obtain g h c where "ss_runner (lk_session ?l) = R_Writing g h c"
            using live wait(1,2) up down link by (cases "ss_runner (lk_session ?l)") (auto simp: live_inv_def waiting_inv_def calm_link_def Let_def)
          then show ?thesis using wait by (intro exI [of _ Pe_Write]) simp
        qed (use live in \<open>auto simp: live_inv_def Let_def\<close>)
      qed
    qed
  next
    case WS_WAITING_CLOSE
    then have stop: "stopped_inv us n (ms ! w) False ?l" "\<not> lk_gone ?l" using rec by (auto simp: record_inv_def Let_def)
    show ?thesis
    proof (cases "ss_finished (lk_session ?l)")
      case True
      then have "event_enabled Pe_Closed ?l" using stop sinv by (simp add: stopped_inv_def session_inv_def Let_def)
      then show ?thesis by (metis normal_event.simps(7))
    next
      case False
      then show ?thesis using stop by (intro exI [of _ Pe_Control]) (simp add: stopped_inv_def Let_def)
    qed
  qed (use w(2) in simp)
  then show ?thesis using len by (auto simp: run_normal_def run_enabled_def)
qed

lemma calm_create: "create_prefetch_run us n timeout ms = Some p \<Longrightarrow> calm p"
  by (auto simp: create_prefetch_run_def create_prefetch_result_def create_session_def calm_def calm_link_def new_link_def
      split: option.splits if_splits)

lemma total_create:
  assumes "create_prefetch_run us n timeout ms = Some p"
  shows "total_left b p = length ms * (5 * b + 3)"
proof -
  obtain r s where s: "create_session us n = Some s" "p = \<lparr>pr_result = r, pr_links = map (\<lambda>m. new_link m s) ms, pr_delivered = []\<rparr>"
    using assms by (auto simp: create_prefetch_run_def split: option.splits)
  have "steps_left b (new_link m s) = 5 * b + 3" for m
    using s(1) by (auto simp: create_session_def steps_left_def new_link_def split: if_splits)
  then show ?thesis using s(2) by (simp add: total_left_def sum_list_triv comp_def)
qed

lemma calm_events:
  assumes "run_inv us n ms p" "calm p" "events_normal es p"
  shows "\<exists>p'. run_events es p = Some p' \<and> run_inv us n ms p' \<and> calm p'
    \<and> length es + total_left ((length us + n - 1) div n) p' \<le> total_left ((length us + n - 1) div n) p"
  using assms
proof (induction es arbitrary: p)
  case Nil
  then show ?case by simp
next
  case (Cons e es)
  have norm: "run_normal e p" using Cons.prems(3) by simp
  then have "run_enabled e p" by (simp add: run_normal_def)
  then obtain q where q: "run_step e p = Some q" "run_inv us n ms q" using run_inv_step [OF Cons.prems(1)] by blast
  note c = calm_step [OF Cons.prems(1,2) norm q(1)]
  have "events_normal es q" using Cons.prems(3) q(1) by simp
  from Cons.IH [OF q(2) _ this] show ?case using c q(1) by fastforce
qed

text \<open>C37.  A fetch ends.  In a run in which no session and no stream fails, with the time and the cancellation of the request
  free, there are at most three steps and five per batch for each worker; until the summary is delivered some step is possible;
  and the summary counts all workers.\<close>

theorem fetch_always_ends:
  assumes "create_prefetch_run us n timeout ms = Some p0" "events_normal es p0"
  shows "length es \<le> length ms * (5 * ((length us + n - 1) div n) + 3)
    \<and> (\<exists>p. run_events es p0 = Some p \<and> (pr_delivered p = [] \<longrightarrow> (\<exists>e. run_normal e p))
         \<and> (\<forall>sm\<in>set (pr_delivered p). sm_rank_count sm = of_nat (length ms) \<and> length (sm_gated sm) = length us))"
proof -
  obtain p where p: "run_events es p0 = Some p" "run_inv us n ms p" "calm p"
    "length es + total_left ((length us + n - 1) div n) p \<le> total_left ((length us + n - 1) div n) p0"
    using calm_events [OF run_inv_start [OF assms(1)] calm_create [OF assms(1)] assms(2)] by blast
  have "sm_rank_count sm = of_nat (length ms) \<and> length (sm_gated sm) = length us" if "sm \<in> set (pr_delivered p)" for sm
  proof -
    have "sm = summarize (pr_result p)" using that p(2) by (auto simp: run_inv_def Let_def split: if_splits)
    then show ?thesis using p(2,3) by (simp add: summarize_def calm_def run_inv_def sum_hits_def Let_def)
  qed
  then show ?thesis using p calm_enabled [OF p(2,3)] total_create [OF assms(1)] by (metis add_leD1)
qed

theorem fetch_always_ends_witness:
  "events_normal (all_events intact_answers) example_fetch \<and> length (all_events intact_answers) \<le> 2 * (5 * 3 + 3)"
proof -
  have n: "events_normal (all_events intact_answers) example_fetch" by code_simp
  have "length (build_flat_kv_linear_prefetch_request example_host) = 3" by code_simp
  then show ?thesis using fetch_always_ends [OF example_fetch n] n by simp
qed

end
