(* ===== verification/Leaf_Prefetch.thy ===== *)
theory Leaf_Prefetch imports Store_Prefetch begin

text \<open>
  The leaves' part of a fetch from the store: the host blocks it is to fill, and what remains of them at its end
  (\<open>allocate_for_prefetch\<close> and \<open>trim_prefetch_blocks\<close> of \<open>BlockManagerImpl\<close>, \<open>SlidingWindowBlockManager\<close> and
  \<open>LinearStateBlockManager\<close> under \<open>core/framework/block/\<close>), the fan-out of the composite manager and the calls of
  \<open>HierarchyBlockManagerPool\<close> around them.

  The conventions are those of \<open>Leaf_Managers\<close>: blocks that go out of scope are given back on the spot, and a failed \<open>CHECK\<close> is
  \<open>None\<close>.
\<close>

section \<open>Blocks to fill\<close>

text \<open>Options that only the fetch reads: the model, and the batches of the store.\<close>

record prefetch_options =
  po_is_v41 :: bool
  po_compress_ratios :: "nat list"
  po_compressed_tokens :: nat
  po_batch :: nat
  po_valid_per_batch :: nat

definition stamp_block :: "hash_key \<Rightarrow> cache_block \<Rightarrow> cache_block" where
  "stamp_block h b = b\<lparr>cb_block := (cb_block b)\<lparr>block_hash := h\<rparr>\<rparr>"

definition put_host :: "kv_state \<Rightarrow> cache_sequence \<Rightarrow> cache_sequence" where
  "put_host kv s = s\<lparr>sq_host := kv\<rparr>"

text \<open>All the blocks, or as many as are free.\<close>

definition allocate_up_to :: "nat \<Rightarrow> leaf \<Rightarrow> (cache_block list \<times> leaf) option" where
  "allocate_up_to needed lf =
    (case allocate_in_leaf needed lf of
       Some ([], lf1) \<Rightarrow> allocate_in_leaf (min needed (num_free_blocks (lf_pool lf1))) lf1
     | r \<Rightarrow> r)"

type_synonym prefetch_step = "(bool \<times> leaf \<times> cache_sequence) option"

definition prefetch_flat :: "(u8 list \<Rightarrow> hash_key) \<Rightarrow> block_type \<Rightarrow> nat \<Rightarrow> leaf \<Rightarrow> cache_sequence \<Rightarrow> prefetch_step" where
  "prefetch_flat xxh3 t num_tokens lf s =
    (let size' = leaf_size lf; target = num_tokens div size'; cached = kv_tokens (sq_host s) div size';
         (bs, host) = take_blocks t (sq_host s); needed = target - cached in
     if size' = 0 then Some (False, lf, s)
     else if target \<le> cached \<or> cached < length bs then None
     else case update_block_hashes xxh3 size' (leaf_hasher lf) (put_host host s) of
       None \<Rightarrow> None
     | Some s1 \<Rightarrow>
         if length (block_hashes size' s1) < target then None
         else case allocate_up_to needed lf of
           None \<Rightarrow> None
         | Some (new, lf1) \<Rightarrow>
             let old = resize target bs;
                 blocks = take cached old @ map2 stamp_block (drop cached (block_hashes size' s1)) new @ drop (cached + length new) old in
             map_option (\<lambda>(_, kv). (length new = needed, lf1, put_host kv s1))
               (replace_composite_blocks t blocks cached cached (sq_host s1)))"

subsection \<open>Sliding window\<close>

definition dsv41_cache_unit_tokens :: "bool \<Rightarrow> nat \<Rightarrow> nat list \<Rightarrow> nat option" where
  "dsv41_cache_unit_tokens is_v41 size' ratios =
    (if \<not> is_v41 then Some 0
     else if size' = 0 \<or> ratios = [] then None
     else Some (size' * max (fold max ratios 0) 1))"

text \<open>Of each unit the blocks in front of its end are valid, the others placeholders.\<close>

fun fill_units :: "nat \<Rightarrow> nat \<Rightarrow> nat \<Rightarrow> cache_block list \<Rightarrow> cache_block list" where
  "fill_units 0 placeholders valid new = []"
| "fill_units (Suc units) placeholders valid new =
    (if new = [] then [] else replicate placeholders no_block @ take valid new @ fill_units units placeholders valid (drop valid new))"

definition stamp_valid :: "hash_key list \<Rightarrow> nat \<Rightarrow> cache_block list \<Rightarrow> cache_block list" where
  "stamp_valid hashes start bs =
    map (\<lambda>i. if start \<le> i \<and> cb_valid (bs ! i) then stamp_block (hashes ! i) (bs ! i) else bs ! i) [0..<length bs]"

definition prefetch_window :: "(u8 list \<Rightarrow> hash_key) \<Rightarrow> prefetch_options \<Rightarrow> nat \<Rightarrow> leaf \<Rightarrow> cache_sequence \<Rightarrow> prefetch_step" where
  "prefetch_window xxh3 po num_tokens lf s =
    (let size' = leaf_size lf; target = num_tokens div size'; cached = num_cached_blocks (sq_host s) BT_SWA in
     if size' = 0 \<or> target \<le> cached then None
     else case (if po_is_v41 po then dsv41_cache_unit_tokens True size' (po_compress_ratios po) else Some (po_compressed_tokens po)) of
       None \<Rightarrow> None
     | Some unit \<Rightarrow>
         let per_unit = unit div size'; valid = swa_tail_blocks per_unit (lo_window_blocks (lf_opts lf)) in
         if unit = 0 \<or> unit mod size' \<noteq> 0 \<or> cached mod per_unit \<noteq> 0 \<or> target mod per_unit \<noteq> 0 then None
         else let units = (target - cached) div per_unit; needed = units * valid in
           case allocate_up_to needed lf of
             None \<Rightarrow> None
           | Some (new, lf1) \<Rightarrow>
               let (bs, host) = take_blocks BT_SWA (sq_host s); blocks = bs @ fill_units units (per_unit - valid) valid new in
               if length bs \<noteq> cached then None
               else case update_block_hashes xxh3 size' (leaf_hasher lf) (put_host host s) of
                 None \<Rightarrow> None
               | Some s1 \<Rightarrow>
                   if length (block_hashes size' s1) < length blocks then None
                   else if blocks = [] then Some (length new = needed, lf1, s1)
                   else map_option (\<lambda>(_, kv). (length new = needed, lf1, put_host kv s1))
                     (replace_composite_blocks BT_SWA (stamp_valid (block_hashes size' s1) cached blocks) cached cached (sq_host s1)))"

subsection \<open>Linear state\<close>

text \<open>The largest number of checkpoints per batch that divides it and fits.\<close>

fun valid_divisor :: "nat \<Rightarrow> nat \<Rightarrow> nat \<Rightarrow> nat" where
  "valid_divisor batch reusable 0 = 0"
| "valid_divisor batch reusable (Suc v) =
    (if batch mod Suc v \<noteq> 0 \<or> reusable < Suc v then valid_divisor batch reusable v else Suc v)"

record linear_plan =
  lp_batch :: nat
  lp_valid :: nat
  lp_groups :: nat
  lp_stride :: nat

definition plan_linear :: "prefetch_options \<Rightarrow> nat \<Rightarrow> linear_plan" where
  "plan_linear po reusable =
    (let batch = max (po_batch po) 1; valid = valid_divisor batch reusable (min (po_valid_per_batch po) batch) in
     \<lparr>lp_batch = batch, lp_valid = valid, lp_groups = (if valid = 0 then 0 else if reusable < valid * 2 then 1 else 2),
      lp_stride = (if valid = 0 then 0 else batch div valid)\<rparr>)"

text \<open>The page of the pool for an offset behind the matched blocks; only the last block of a stride has one.\<close>

definition linear_slot :: "linear_plan \<Rightarrow> nat \<Rightarrow> nat \<Rightarrow> nat option" where
  "linear_slot lp matched offset =
    (let group = (if lp_groups lp = 0 then 0 else (matched + offset) div lp_batch lp mod lp_groups lp); in_batch = offset mod lp_batch lp in
     if (in_batch + 1) mod lp_stride lp \<noteq> 0 then None else Some (group * lp_valid lp + in_batch div lp_stride lp))"

definition linear_alias :: "linear_plan \<Rightarrow> cache_block list \<Rightarrow> hash_key list \<Rightarrow> nat \<Rightarrow> nat \<Rightarrow> nat \<Rightarrow> cache_block option" where
  "linear_alias lp pool hashes placeable matched offset =
    (if pool = [] \<or> lp_stride lp = 0 \<or> placeable \<le> offset then None
     else map_option (\<lambda>slot. stamp_block (hashes ! (matched + offset)) (pool ! slot)) (linear_slot lp matched offset))"

definition prefetch_linear :: "(u8 list \<Rightarrow> hash_key) \<Rightarrow> prefetch_options \<Rightarrow> nat \<Rightarrow> leaf \<Rightarrow> cache_sequence \<Rightarrow> prefetch_step" where
  "prefetch_linear xxh3 po num_tokens lf s =
    (let size' = leaf_size lf; target = num_tokens div size'; matched = kv_tokens (sq_host s) div size';
         (bs, host) = take_blocks BT_LINEAR (sq_host s) in
     if size' = 0 then Some (False, lf, s)
     else if target \<le> matched then None
     else if (if matched = 0 then bs \<noteq> [] else length bs \<noteq> 1 \<or> \<not> cb_valid (hd bs)) then None
     else let lp = plan_linear po (num_free_blocks (lf_pool lf) + num_evictable_blocks (lf_pool lf));
              pool_size = lp_groups lp * lp_valid lp; count' = target - matched in
       case allocate_in_leaf pool_size lf of
         None \<Rightarrow> None
       | Some (got, lf1) \<Rightarrow>
           (case update_block_hashes xxh3 size' (leaf_hasher lf) (put_host host s) of
              None \<Rightarrow> None
            | Some s1 \<Rightarrow>
                if length (block_hashes size' s1) < target then None
                else let pool = (if length got = pool_size then got else []);
                         placeable = (if lp_stride lp = 0 then 0 else count' div lp_stride lp * lp_stride lp);
                         aliases = map (linear_alias lp pool (block_hashes size' s1) placeable matched) [0..<count'];
                         placed = map (\<lambda>a. case a of None \<Rightarrow> no_block | Some b \<Rightarrow> b) aliases;
                         blocks = (if matched = 0 then [] else replicate (matched - 1) no_block @ bs) @ placed;
                         p1 = (lf_pool lf1)\<lparr>ref_counts := fold inc_ref (map cb_block placed) (ref_counts (lf_pool lf1))\<rparr>;
                         full = (if lp_stride lp = 0 then 0 else count' div lp_stride lp) in
                  case (replace_composite_blocks BT_LINEAR blocks 0 0 (sq_host s1), drop_in_leaf got (lf1\<lparr>lf_pool := p1\<rparr>)) of
                    (Some (_, kv), Some lf2) \<Rightarrow> Some (length (filter (\<lambda>a. a \<noteq> None) aliases) = full, lf2, put_host kv s1)
                  | _ \<Rightarrow> None))"

text \<open>The leaf of each type.\<close>

definition leaf_prefetch :: "(u8 list \<Rightarrow> hash_key) \<Rightarrow> prefetch_options \<Rightarrow> block_type \<Rightarrow> nat \<Rightarrow> leaf \<Rightarrow> cache_sequence \<Rightarrow> prefetch_step" where
  "leaf_prefetch xxh3 po t num_tokens lf s =
    (case t of
       BT_SWA \<Rightarrow> prefetch_window xxh3 po num_tokens lf s
     | BT_LINEAR \<Rightarrow> prefetch_linear xxh3 po num_tokens lf s
     | _ \<Rightarrow> prefetch_flat xxh3 t num_tokens lf s)"

section \<open>The end of a fetch\<close>

definition trim_flat :: "(u8 list \<Rightarrow> hash_key) \<Rightarrow> block_type \<Rightarrow> nat \<Rightarrow> leaf \<Rightarrow> cache_sequence \<Rightarrow> (leaf \<times> cache_sequence) option" where
  "trim_flat xxh3 t max_hit lf s =
    (let size' = leaf_size lf; keep = min (max_hit div size') (kv_num_blocks (sq_host s) t); (bs, host) = take_blocks t (sq_host s);
         kept = take keep bs in
     if size' = 0 then Some (lf, s)
     else case drop_in_leaf (drop keep bs) lf of
       None \<Rightarrow> None
     | Some lf1 \<Rightarrow>
         if kept = [] then Some (lf1, put_host (snd (erase_blocks t host)) s)
         else (case update_block_hashes xxh3 size' (leaf_hasher lf) (put_host host s) of
           None \<Rightarrow> None
         | Some s1 \<Rightarrow>
             (case cache_tokens xxh3 (hash_tokens s1) (map cb_block kept) 0 (sq_items s1) (block_hashes size' s1) (lf_pool lf1) of
                None \<Rightarrow> None
              | Some (bs', p) \<Rightarrow>
                  map_option (\<lambda>(_, kv). (lf1\<lparr>lf_pool := p\<rparr>, put_host kv s1))
                    (replace_composite_blocks t (map2 (\<lambda>c b. c\<lparr>cb_block := b\<rparr>) kept bs') keep keep (sq_host s1)))))"

text \<open>A sliding window keeps its last blocks; the copies that are published live until they are in the prefix cache.\<close>

definition trim_window :: "(u8 list \<Rightarrow> hash_key) \<Rightarrow> nat \<Rightarrow> leaf \<Rightarrow> cache_sequence \<Rightarrow> (leaf \<times> cache_sequence) option" where
  "trim_window xxh3 max_hit lf s =
    (let size' = leaf_size lf; (bs, host) = take_blocks BT_SWA (sq_host s); keep = min (max_hit div size') (length bs);
         window = lo_window_blocks (lf_opts lf); window_begin = (if window < keep then keep - window else 0) in
     if size' = 0 then Some (lf, s)
     else case drop_in_leaf (take window_begin bs @ drop keep bs) lf of
       None \<Rightarrow> None
     | Some lf1 \<Rightarrow>
         (case update_block_hashes xxh3 size' (leaf_hasher lf) (put_host host s) of
            None \<Rightarrow> None
          | Some s1 \<Rightarrow>
              let hashes = block_hashes size' s1;
                  kept = replicate window_begin no_block @ map (\<lambda>b. if cb_valid b then b else no_block) (drop window_begin (take keep bs));
                  retained = stamp_valid hashes window_begin kept; published = map cb_block (filter cb_valid retained) in
              if list_ex (\<lambda>i. cb_valid (kept ! i) \<and> length hashes \<le> i) [0..<keep] then None
              else if published = [] then Some (lf1, put_host (snd (erase_blocks BT_SWA host)) s1)
              else let p1 = (lf_pool lf1)\<lparr>ref_counts := fold inc_ref published (ref_counts (lf_pool lf1))\<rparr> in
                case cache_hashed xxh3 published p1 of
                  None \<Rightarrow> None
                | Some p2 \<Rightarrow>
                    (case (replace_composite_blocks BT_SWA retained keep keep (sq_host s1), release_all drop_alias published p2) of
                       (Some (_, kv), Some p3) \<Rightarrow> Some (lf1\<lparr>lf_pool := p3\<rparr>, put_host kv s1)
                     | _ \<Rightarrow> None)))"

text \<open>Of a recurrent state only the deepest checkpoint remains; it is published at its place in a sparse vector.\<close>

definition deepest_valid :: "nat \<Rightarrow> cache_block list \<Rightarrow> nat option" where
  "deepest_valid keep bs = find (\<lambda>i. cb_valid (bs ! i)) (rev [0..<keep])"

definition cache_linear :: "(u8 list \<Rightarrow> hash_key) \<Rightarrow> token list \<Rightarrow> block list \<Rightarrow> nat \<Rightarrow> mm_item list \<Rightarrow> hash_key list \<Rightarrow> leaf \<Rightarrow>
    (block list \<times> leaf) option" where
  "cache_linear xxh3 ts bs existed its hashes lf =
    (let size' = leaf_size lf; publish_end = min (length ts div size') (length bs - 1) in
     if bs = [] \<or> prefix_cache (lf_pool lf) = None then Some (bs, lf)
     else if size' = 0 then None
     else if publish_end \<le> existed then Some (bs, lf)
     else if length hashes < publish_end then None
     else map_option (\<lambda>(bs', p). (bs', lf\<lparr>lf_pool := p\<rparr>))
       (cache_tokens xxh3 (take (publish_end * size') ts) bs existed its hashes (lf_pool lf)))"

definition trim_linear :: "(u8 list \<Rightarrow> hash_key) \<Rightarrow> nat \<Rightarrow> leaf \<Rightarrow> cache_sequence \<Rightarrow> (leaf \<times> cache_sequence) option" where
  "trim_linear xxh3 max_hit lf s =
    (let size' = leaf_size lf; (bs, host) = take_blocks BT_LINEAR (sq_host s); keep = min (max_hit div size') (length bs) in
     if size' = 0 then Some (lf, s)
     else case deepest_valid keep bs of
       None \<Rightarrow> map_option (\<lambda>lf'. (lf', put_host (snd (erase_blocks BT_LINEAR host)) s)) (drop_in_leaf bs lf)
     | Some i \<Rightarrow>
         (case update_block_hashes xxh3 size' (leaf_hasher lf) (put_host host s) of
            None \<Rightarrow> None
          | Some s1 \<Rightarrow>
              let hashes = block_hashes size' s1; b = cb_block (bs ! i); publish' = replicate i invalid_block @ [b];
                  p1 = (lf_pool lf)\<lparr>ref_counts := inc_ref b (inc_ref b (ref_counts (lf_pool lf)))\<rparr> in
              if length hashes \<le> i then None
              else case cache_tokens xxh3 (hash_tokens s1) publish' 0 (sq_items s1) hashes p1 of
                None \<Rightarrow> None
              | Some (_, p2) \<Rightarrow>
                  (case (replace_composite_blocks BT_LINEAR [bs ! i] 0 0 (sq_host s1), release_all drop_alias (b # map cb_block bs) p2) of
                     (Some (_, kv), Some p3) \<Rightarrow> Some (lf\<lparr>lf_pool := p3\<rparr>, put_host kv s1)
                   | _ \<Rightarrow> None)))"

definition leaf_trim :: "(u8 list \<Rightarrow> hash_key) \<Rightarrow> block_type \<Rightarrow> nat \<Rightarrow> leaf \<Rightarrow> cache_sequence \<Rightarrow> (leaf \<times> cache_sequence) option" where
  "leaf_trim xxh3 t max_hit lf s =
    (case t of
       BT_SWA \<Rightarrow> trim_window xxh3 max_hit lf s
     | BT_LINEAR \<Rightarrow> trim_linear xxh3 max_hit lf s
     | _ \<Rightarrow> trim_flat xxh3 t max_hit lf s)"

section \<open>The composite manager and the pool\<close>

fun trim_leaves :: "(u8 list \<Rightarrow> hash_key) \<Rightarrow> nat \<Rightarrow> leaves \<Rightarrow> cache_sequence \<Rightarrow> (leaves \<times> cache_sequence) option" where
  "trim_leaves xxh3 max_hit [] s = Some ([], s)"
| "trim_leaves xxh3 max_hit ((t, lf) # ls) s =
    (case (if t = BT_EMBEDDING then Some (lf, s) else leaf_trim xxh3 t max_hit lf s) of
       None \<Rightarrow> None
     | Some (lf', s1) \<Rightarrow> map_option (\<lambda>(ls', s2). ((t, lf') # ls', s2)) (trim_leaves xxh3 max_hit ls s1))"

definition cm_trim_prefetch_blocks :: "(u8 list \<Rightarrow> hash_key) \<Rightarrow> nat \<Rightarrow> composite \<Rightarrow> cache_sequence \<Rightarrow> (composite \<times> cache_sequence) option" where
  "cm_trim_prefetch_blocks xxh3 max_hit cm s =
    map_option (\<lambda>(ls, s'). (cm\<lparr>cm_leaves := ls\<rparr>, s')) (trim_leaves xxh3 max_hit (cm_leaves cm) s)"

definition cm_cache_blocks :: "(u8 list \<Rightarrow> hash_key) \<Rightarrow> block_type \<Rightarrow> cache_block list \<Rightarrow> composite \<Rightarrow> composite option" where
  "cm_cache_blocks xxh3 t bs cm =
    (case leaf_of t cm of
       None \<Rightarrow> None
     | Some lf \<Rightarrow> map_option (\<lambda>p. put_leaf t (lf\<lparr>lf_pool := p\<rparr>) cm) (cache_hashed xxh3 (map cb_block bs) (lf_pool lf)))"

fun prefetch_leaves :: "(u8 list \<Rightarrow> hash_key) \<Rightarrow> prefetch_options \<Rightarrow> nat \<Rightarrow> leaves \<Rightarrow> cache_sequence \<Rightarrow> (leaves \<times> cache_sequence) option" where
  "prefetch_leaves xxh3 po target [] s = Some ([], s)"
| "prefetch_leaves xxh3 po target ((t, lf) # ls) s =
    (case leaf_prefetch xxh3 po t target lf s of
       None \<Rightarrow> None
     | Some (_, lf', s1) \<Rightarrow> map_option (\<lambda>(ls', s2). ((t, lf') # ls', s2)) (prefetch_leaves xxh3 po target ls s1))"

text \<open>What a fetch begins with.  The prefix that the host cache has is mounted first: \<open>allocate_shared_for_sequence\<close> on the
  host's state, which is the function of \<open>Composite_Manager\<close> with the two states in each other's place.  \<open>None\<close> inside: the
  host covers the target.\<close>

definition swap_tiers :: "cache_sequence \<Rightarrow> cache_sequence" where
  "swap_tiers s = s\<lparr>sq_kv := sq_host s, sq_host := sq_kv s\<rparr>"

definition begin_prefetch :: "(u8 list \<Rightarrow> hash_key) \<Rightarrow> prefetch_options \<Rightarrow> leaf_combination \<Rightarrow> composite \<Rightarrow> cache_sequence \<Rightarrow>
    (prefetch_request option \<times> composite \<times> cache_sequence) option" where
  "begin_prefetch xxh3 po shape host s =
    (if seq_has_any_blocks s then None
     else case prefetch_unit_size shape (cm_leaves host) of
       None \<Rightarrow> None
     | Some unit \<Rightarrow>
         let target = (length (seq_tokens s) - 1) div unit * unit in
         (case allocate_shared_for_sequence xxh3 host (swap_tiers s) of
            None \<Rightarrow> None
          | Some (host1, s1') \<Rightarrow>
              let s1 = swap_tiers s1' in
              if target \<le> kv_tokens (sq_host s1) then Some (None, host1, s1)
              else case prefetch_leaves xxh3 po target (cm_leaves host1) s1 of
                None \<Rightarrow> None
              | Some (ls, s2) \<Rightarrow>
                  map_option (\<lambda>us. (Some us, host1\<lparr>cm_leaves := ls\<rparr>, s2)) (build_prefetch_request shape ls (sq_host s2))))"

text \<open>And what it ends with: nothing of it, or what the summary is good for.\<close>

definition finalize_prefetch :: "(u8 list \<Rightarrow> hash_key) \<Rightarrow> nat \<Rightarrow> bool \<Rightarrow> composite \<Rightarrow> cache_sequence \<Rightarrow> (composite \<times> cache_sequence) option" where
  "finalize_prefetch xxh3 final_tokens publish' host s =
    (if \<not> publish'
     then map_option (\<lambda>host'. (host', put_host (snd (kv_reset (sq_host s))) s))
            (drop_all_typed ((BT_KV, src_blocks (sq_host s)) # map (\<lambda>t. (t, kv_blocks (sq_host s) t)) map_order) host)
     else map_option (\<lambda>(host', s'). (host', put_host ((set_kv_cache_tokens_num final_tokens (sq_host s'))\<lparr>prefix_matched := True\<rparr>) s'))
            (cm_trim_prefetch_blocks xxh3 final_tokens host s))"

definition end_prefetch :: "(u8 list \<Rightarrow> hash_key) \<Rightarrow> leaf_combination \<Rightarrow> prefetch_request \<Rightarrow> nat \<Rightarrow> prefetch_summary \<Rightarrow> bool \<Rightarrow> composite \<Rightarrow>
    cache_sequence \<Rightarrow> (composite \<times> cache_sequence) option" where
  "end_prefetch xxh3 shape us base_tokens sm over host s =
    (let ok = (us = [] \<or> length (sm_gated sm) = length us) in
     case finalize_prefetch_tokens shape (cm_leaves host) base_tokens sm (kv_blocks (sq_host s) BT_LINEAR) of
       None \<Rightarrow> None
     | Some final \<Rightarrow> finalize_prefetch xxh3 final (ok \<and> \<not> over) host s)"

section \<open>The pages of a recurrent state\<close>

lemma valid_divisor: "valid_divisor batch reusable v \<le> v \<and> (0 < valid_divisor batch reusable v \<longrightarrow>
    batch mod valid_divisor batch reusable v = 0 \<and> valid_divisor batch reusable v \<le> reusable)"
  by (induction v) auto

lemma plan_linear:
  assumes "lp_stride (plan_linear po reusable) \<noteq> 0"
  defines "lp \<equiv> plan_linear po reusable"
  shows "0 < lp_valid lp" "lp_batch lp = lp_stride lp * lp_valid lp" "0 < lp_groups lp" "lp_groups lp * lp_valid lp \<le> reusable" "0 < lp_batch lp"
proof -
  define batch where "batch = max (po_batch po) 1"
  define v where "v = valid_divisor batch reusable (min (po_valid_per_batch po) batch)"
  have lp: "lp = \<lparr>lp_batch = batch, lp_valid = v, lp_groups = (if v = 0 then 0 else if reusable < v * 2 then 1 else 2),
      lp_stride = (if v = 0 then 0 else batch div v)\<rparr>"
    by (simp only: lp_def plan_linear_def Let_def batch_def v_def)
  have "lp_stride lp \<noteq> 0" using assms(1) by (simp only: lp_def not_False_eq_True)
  then have v: "0 < v" by (simp add: lp split: if_splits)
  have d: "batch mod v = 0" "v \<le> reusable" using valid_divisor [of batch reusable "min (po_valid_per_batch po) batch"] v by (simp_all add: v_def)
  from d(1) have "v dvd batch" by (rule mod_0_imp_dvd)
  then have "batch div v * v = batch" by (rule dvd_div_mult_self)
  then show "lp_batch lp = lp_stride lp * lp_valid lp" using v by (simp add: lp)
  show "0 < lp_valid lp" "0 < lp_groups lp" using v by (simp_all add: lp)
  show "0 < lp_batch lp" by (simp add: lp batch_def)
  show "lp_groups lp * lp_valid lp \<le> reusable" using v d(2) by (simp add: lp)
qed

lemma same_residue_step:
  fixes a b m :: nat
  assumes "a < b" "a mod m = b mod m"
  obtains d where "b = a + m * d" "0 < d"
proof -
  have "m dvd b - a" using assms by (simp add: mod_eq_dvd_iff_nat [symmetric])
  then obtain d where d: "b - a = m * d" by (rule dvdE)
  have "b = a + m * d" using d assms(1) by linarith
  moreover have "0 < d" using d assms(1) by (cases d) simp_all
  ultimately show thesis by (rule that)
qed

lemma linear_slot_Some:
  assumes "linear_slot lp matched k = Some slot" "lp_groups lp \<noteq> 0"
  shows "slot = (matched + k) div lp_batch lp mod lp_groups lp * lp_valid lp + k mod lp_batch lp div lp_stride lp"
    "lp_stride lp dvd k mod lp_batch lp + 1"
  using assms unfolding linear_slot_def Let_def mod_eq_0_iff_dvd [symmetric] by (simp_all split: if_splits)

lemma last_of_stride:
  fixes k s :: nat
  assumes "s dvd k + 1" "s \<noteq> 0"
  shows "k + 1 = s * (k div s + 1)"
proof -
  obtain c where c: "k + 1 = s * c" using assms(1) by (rule dvdE)
  then obtain c' where "c = Suc c'" by (cases c) simp_all
  then have "k = s * c' + (s - 1)" using c assms(2) by (cases s) simp_all
  moreover have "(s * c' + (s - 1)) div s = c'" using assms(2) by (intro div_nat_eqI) simp_all
  ultimately have "k div s = c'" by simp
  then show ?thesis using c \<open>c = Suc c'\<close> by simp
qed

text \<open>C38.  The pages for the checkpoints of a fetch are reused as late as possible: two blocks that share a page are at least a
  batch apart, two batches when two groups of pages fit, so a batch never writes a page twice, and with two groups the checkpoints of
  the batch before it stay intact; and a plan never takes more pages than there are.\<close>

theorem linear_pages_apart:
  assumes "lp = plan_linear po reusable" "linear_slot lp matched i = Some slot" "linear_slot lp matched j = Some slot" "i < j"
  shows "lp_groups lp * lp_batch lp \<le> j - i \<and> slot < lp_groups lp * lp_valid lp \<and> lp_groups lp * lp_valid lp \<le> reusable
    \<and> (2 * lp_valid lp \<le> reusable \<longrightarrow> lp_groups lp = 2)"
proof -
  let ?B = "lp_batch lp" and ?S = "lp_stride lp" and ?V = "lp_valid lp" and ?G = "lp_groups lp"
  have S: "?S \<noteq> 0"
  proof
    assume "?S = 0"
    with assms(2) show False by (simp add: linear_slot_def Let_def)
  qed
  note p = plan_linear [OF S [unfolded assms(1)], folded assms(1)]
  have G: "?G \<noteq> 0" using p(3) by simp
  define a where "a k = k mod ?B div ?S" for k
  define g where "g k = (matched + k) div ?B mod ?G" for k
  note i = linear_slot_Some [OF assms(2) G, folded a_def g_def] and j = linear_slot_Some [OF assms(3) G, folded a_def g_def]
  have small: "a k < ?V" for k
  proof -
    have "k mod ?B < ?V * ?S" using mod_less_divisor [OF p(5), of k] p(2) by (simp add: mult.commute)
    then show ?thesis unfolding a_def by (rule less_mult_imp_div_less)
  qed
  have "(g i * ?V + a i) div ?V = g i" "(g j * ?V + a j) div ?V = g j" using small p(1) by simp_all
  then have g: "g i = g j" using i(1) j(1) by simp
  then have "a i = a j" using i(1) j(1) by simp
  moreover have "i mod ?B + 1 = ?S * (a i + 1)" "j mod ?B + 1 = ?S * (a j + 1)"
    using last_of_stride [OF i(2) S] last_of_stride [OF j(2) S] by (simp_all only: a_def)
  ultimately have "i mod ?B = j mod ?B" by simp
  with assms(4) obtain d where d: "j = i + ?B * d" "0 < d" by (rule same_residue_step)
  have div': "(matched + j) div ?B = (matched + i) div ?B + d"
    using p(5) d(1) by (simp add: add.assoc [symmetric])
  have "((matched + i) div ?B) mod ?G = ((matched + i) div ?B + d) mod ?G" using g div' by (simp add: g_def)
  then obtain c where "(matched + i) div ?B + d = (matched + i) div ?B + ?G * c" "0 < c"
    using same_residue_step [of "(matched + i) div ?B" "(matched + i) div ?B + d" ?G] d(2) by auto
  then have "?G \<le> d" by simp
  then have "?G * ?B \<le> j - i" using d(1) by (simp add: mult.commute)
  moreover have "slot < ?G * ?V"
  proof -
    have "g i < ?G" using p(3) by (simp add: g_def)
    then have "(g i + 1) * ?V \<le> ?G * ?V" by (intro mult_le_mono1) simp
    then show ?thesis using i(1) small [of i] by simp
  qed
  moreover have "2 * ?V \<le> reusable \<longrightarrow> ?G = 2" using p(1) by (auto simp: assms(1) plan_linear_def Let_def)
  ultimately show ?thesis using p(4) by simp
qed

theorem linear_pages_apart_witness:
  "(let lp = plan_linear \<lparr>po_is_v41 = False, po_compress_ratios = [], po_compressed_tokens = 0, po_batch = 4, po_valid_per_batch = 2\<rparr> 9 in
     linear_slot lp 3 1 = linear_slot lp 3 9 \<and> lp_groups lp * lp_batch lp = 8 \<and> lp_groups lp * lp_batch lp \<le> 9 - 1)"
proof -
  let ?po = "\<lparr>po_is_v41 = False, po_compress_ratios = [], po_compressed_tokens = 0, po_batch = 4, po_valid_per_batch = 2\<rparr>"
  let ?lp = "plan_linear ?po 9"
  have "linear_slot ?lp 3 1 = Some 2" "linear_slot ?lp 3 9 = Some 2" "lp_groups ?lp * lp_batch ?lp = 8" by code_simp+
  with linear_pages_apart [of ?lp ?po 9 3 1 2 9] show ?thesis by (simp add: Let_def)
qed

end
